(* ===== verification/Prelude.thy ===== *)
theory Prelude
  imports Main "HOL-Library.Word" "HOL-Library.Char_ord" "HOL-Library.List_Lexorder"
begin

text \<open>
  Shared vocabulary of the development.  A C++ \<open>std::string\<close>, a byte buffer and the target of a
  \<open>const unsigned char*\<close> are all modelled by \<^typ>\<open>string\<close> (a list of 8-bit characters); a
  pointer into a buffer is the suffix of the buffer it points at.  The theory holds the parts of
  the C++ standard library the sources use (\<open>std::to_string\<close>, \<open>std::stoul\<close>, \<open>std::stol\<close>,
  \<open>std::string::find\<close>, \<open>substr\<close>, little-endian object representations as seen by \<open>memcpy\<close>),
  \<open>Utils::splitBy\<close>, the error values of the model, and the interface of a textual or binary
  codec as a locale.
\<close>

named_theorems codec_simps \<open>evaluation of encoders and decoders on their own output\<close>
named_theorems key_simps \<open>injectivity and distinctness of the keys written to the store\<close>

section \<open>Errors\<close>

text \<open>Exceptions of the standard library, reads outside a vector (undefined behaviour in C++), and a
  failed \<open>ASSERT\<close> or a \<open>Panic\<close> of \<open>src/distributed\<close>, which end the process; \<open>Blocked\<close> is a wait for a
  reply that never comes.\<close>

datatype cpp_error = Invalid_argument | Out_of_range | Length_error | Out_of_bounds | Panicked | Blocked

type_synonym 'a result = "cpp_error + 'a"

definition rbind :: "'a result \<Rightarrow> ('a \<Rightarrow> 'b result) \<Rightarrow> 'b result" where
  "rbind m f = (case m of Inl e \<Rightarrow> Inl e | Inr x \<Rightarrow> f x)"

definition vec_at :: "'a list \<Rightarrow> nat \<Rightarrow> 'a result" where
  "vec_at xs i = (if i < length xs then Inr (xs ! i) else Inl Out_of_bounds)"

definition is_ok :: "'a result \<Rightarrow> bool" where
  "is_ok r = (case r of Inl _ \<Rightarrow> False | Inr _ \<Rightarrow> True)"

section \<open>Numbers as text\<close>

definition digit_char :: "nat \<Rightarrow> char" where
  "digit_char n = char_of (48 + n)"

definition is_digit :: "char \<Rightarrow> bool" where
  "is_digit c = (48 \<le> (of_char c :: nat) \<and> (of_char c :: nat) \<le> 57)"

definition is_space :: "char \<Rightarrow> bool" where
  "is_space c = ((of_char c :: nat) = 32 \<or> (9 \<le> (of_char c :: nat) \<and> (of_char c :: nat) \<le> 13))"

text \<open>\<open>std::to_string\<close> on an unsigned integer and on a \<open>long\<close>.\<close>

fun to_string :: "nat \<Rightarrow> string" where
  "to_string n = (if n < 10 then [digit_char n]
                  else to_string (n div 10) @ [digit_char (n mod 10)])"

declare to_string.simps [simp del]

definition to_string_int :: "int \<Rightarrow> string" where
  "to_string_int k = (if k < 0 then CHR ''-'' # to_string (nat (- k)) else to_string (nat k))"

definition dec_value :: "string \<Rightarrow> nat" where
  "dec_value s = foldl (\<lambda>a c. 10 * a + (of_char c - 48)) 0 s"

text \<open>
  The shape \<open>strtoul\<close>/\<open>strtol\<close> accept: white space, an optional sign, a maximal run of digits;
  what follows is ignored.  No digit at all is \<open>std::invalid_argument\<close>, a value that does not fit
  is \<open>std::out_of_range\<close>; \<open>stoul\<close> negates modulo \<open>2^64\<close> after a minus sign.
\<close>

definition strip_sign :: "string \<Rightarrow> bool \<times> string" where
  "strip_sign s = (case dropWhile is_space s of
      [] \<Rightarrow> (False, [])
    | c # cs \<Rightarrow> if c = CHR ''-'' then (True, cs)
               else if c = CHR ''+'' then (False, cs) else (False, c # cs))"

definition stoul :: "string \<Rightarrow> nat result" where
  "stoul s = (let (neg, t) = strip_sign s; ds = takeWhile is_digit t; v = dec_value ds in
     if ds = [] then Inl Invalid_argument
     else if 2 ^ 64 \<le> v then Inl Out_of_range
     else Inr (if neg then (2 ^ 64 - v) mod 2 ^ 64 else v))"

definition stol :: "string \<Rightarrow> int result" where
  "stol s = (let (neg, t) = strip_sign s; ds = takeWhile is_digit t;
                 v = (if neg then - int (dec_value ds) else int (dec_value ds)) in
     if ds = [] then Inl Invalid_argument
     else if v < - (2 ^ 63) \<or> 2 ^ 63 \<le> v then Inl Out_of_range
     else Inr v)"

definition stoi :: "string \<Rightarrow> int result" where
  "stoi s = (let (neg, t) = strip_sign s; ds = takeWhile is_digit t;
                 v = (if neg then - int (dec_value ds) else int (dec_value ds)) in
     if ds = [] then Inl Invalid_argument
     else if v < - (2 ^ 31) \<or> 2 ^ 31 \<le> v then Inl Out_of_range
     else Inr v)"

section \<open>Searching and splitting strings\<close>

text \<open>\<open>s.find(c)\<close>: the first position, or \<^term>\<open>None\<close> for \<open>npos\<close>.\<close>

fun find_char :: "char \<Rightarrow> string \<Rightarrow> nat option" where
  "find_char c [] = None"
| "find_char c (x # xs) = (if x = c then Some 0 else map_option Suc (find_char c xs))"

text \<open>\<open>s.substr(pos, len)\<close> for \<open>pos \<le> s.size()\<close>.\<close>

definition substr :: "string \<Rightarrow> nat \<Rightarrow> nat \<Rightarrow> string" where
  "substr s pos len = take len (drop pos s)"

text \<open>\<open>s.substr(pos)\<close> throws behind the end.\<close>

definition substr_from :: "string \<Rightarrow> nat \<Rightarrow> string result" where
  "substr_from s i = (if i \<le> length s then Inr (drop i s) else Inl Out_of_range)"

text \<open>
  \<open>Utils::splitBy\<close>: \<open>getline\<close> up to the delimiter until the stream is exhausted.  A string with
  \<open>n\<close> delimiters gives \<open>n + 1\<close> pieces; in particular the empty string gives one empty piece.
\<close>

function splitBy :: "string \<Rightarrow> char \<Rightarrow> string list" where
  "splitBy s delim =
     (let piece = takeWhile (\<lambda>c. c \<noteq> delim) s; rest = dropWhile (\<lambda>c. c \<noteq> delim) s
      in (case rest of [] \<Rightarrow> [piece] | _ # more \<Rightarrow> piece # splitBy more delim))"
  by pat_completeness auto
termination
proof (relation "measure (\<lambda>(s, d). length s)")
  fix s :: string and delim piece rest x more
  assume "rest = dropWhile (\<lambda>c. c \<noteq> delim) s" "rest = x # more"
  then have "length (x # more) \<le> length s"
    by (metis length_dropWhile_le)
  then show "((more, delim), s, delim) \<in> measure (\<lambda>(s, d). length s)"
    by simp
qed simp

declare splitBy.simps [simp del]

section \<open>Little-endian object representation\<close>

text \<open>
  \<open>memcpy(p, &x, w)\<close> writes the \<open>w\<close> low bytes of \<open>x\<close>; \<open>*reinterpret_cast<const uintW_t*>(p)\<close>
  reads them back.  A read past the end of the modelled buffer (undefined in C++) yields 0.
\<close>

fun le_bytes :: "nat \<Rightarrow> nat \<Rightarrow> string" where
  "le_bytes 0 n = []"
| "le_bytes (Suc w) n = char_of n # le_bytes w (n div 256)"

fun le_nat :: "nat \<Rightarrow> string \<Rightarrow> nat" where
  "le_nat 0 s = 0"
| "le_nat (Suc w) s = (case s of [] \<Rightarrow> 0 | c # cs \<Rightarrow> of_char c + 256 * le_nat w cs)"

abbreviation u32_at :: "string \<Rightarrow> nat" where
  "u32_at p \<equiv> le_nat 4 p"

abbreviation u64_at :: "string \<Rightarrow> nat" where
  "u64_at p \<equiv> le_nat 8 p"

section \<open>Codecs as an interface\<close>

text \<open>
  Several components write a value as text or bytes and another component reads it back.  The
  contract they rely on is that decoding an encoding of a well-formed value gives the value.
\<close>

locale codec =
  fixes valid :: "'a \<Rightarrow> bool"
    and enc :: "'a \<Rightarrow> string"
    and dec :: "string \<Rightarrow> 'a result"
  assumes dec_enc: "valid x \<Longrightarrow> dec (enc x) = Inr x"
begin

lemma enc_inject: "valid x \<Longrightarrow> valid y \<Longrightarrow> enc x = enc y \<Longrightarrow> x = y"
  using dec_enc by (metis sum.inject(2))

lemma enc_inj_on: "inj_on enc {x. valid x}"
  by (rule inj_onI) (auto dest: enc_inject)

lemma dec_after_enc: "valid x \<Longrightarrow> rbind (dec (enc x)) f = f x"
  by (simp add: dec_enc rbind_def)

end

section \<open>Lemmas\<close>

lemma rbind_simps [simp]: "rbind (Inl e) f = Inl e" "rbind (Inr x) f = f x"
  by (simp_all add: rbind_def)

lemma rbind_Inr_iff: "rbind m f = Inr y \<longleftrightarrow> (\<exists>x. m = Inr x \<and> f x = Inr y)"
  by (cases m) simp_all

lemma vec_at_ok [simp]: "i < length xs \<Longrightarrow> vec_at xs i = Inr (xs ! i)"
  by (simp add: vec_at_def)

subsection \<open>Decimal text\<close>

lemma of_char_digit_char: "n < 10 \<Longrightarrow> (of_char (digit_char n) :: nat) = 48 + n"
  by (simp add: digit_char_def)

lemma is_digit_digit_char [simp]: "n < 10 \<Longrightarrow> is_digit (digit_char n)"
  by (simp add: is_digit_def of_char_digit_char)

lemma to_string_small: "n < 10 \<Longrightarrow> to_string n = [digit_char n]"
  by (simp add: to_string.simps)

lemma to_string_large: "10 \<le> n \<Longrightarrow> to_string n = to_string (n div 10) @ [digit_char (n mod 10)]"
  by (simp add: to_string.simps)

lemma length_to_string: "n < 10 ^ m \<Longrightarrow> 0 < m \<Longrightarrow> length (to_string n) \<le> m"
proof (induction m arbitrary: n)
  case (Suc m)
  show ?case
  proof (cases "n < 10")
    case True
    then show ?thesis by (simp add: to_string_small)
  next
    case False
    then have "n div 10 < 10 ^ m" "0 < m" using Suc.prems by (auto intro: Nat.gr0I simp: less_mult_imp_div_less)
    then show ?thesis using Suc.IH [of "n div 10"] False by (simp add: to_string_large)
  qed
qed simp

lemma to_string_nonempty [simp]: "to_string n \<noteq> []"
  by (subst to_string.simps) simp

lemma to_string_digits: "c \<in> set (to_string n) \<Longrightarrow> is_digit c"
proof (induction n rule: to_string.induct)
  case (1 n)
  show ?case
  proof (cases "n < 10")
    case True
    with "1.prems" show ?thesis by (simp add: to_string_small)
  next
    case False
    with "1.prems" "1.IH" show ?thesis by (auto simp: to_string_large)
  qed
qed

lemma dec_value_Nil [simp]: "dec_value [] = 0"
  by (simp add: dec_value_def)

lemma dec_value_snoc: "dec_value (s @ [c]) = 10 * dec_value s + (of_char c - 48)"
  by (simp add: dec_value_def)

lemma dec_value_to_string [simp]: "dec_value (to_string n) = n"
proof (induction n rule: to_string.induct)
  case (1 n)
  show ?case
  proof (cases "n < 10")
    case True
    then show ?thesis
      using dec_value_snoc [of "[]"] by (simp add: to_string_small of_char_digit_char)
  next
    case False
    with "1.IH" show ?thesis
      by (simp add: to_string_large dec_value_snoc of_char_digit_char)
  qed
qed

lemma to_string_inject [simp, key_simps]: "to_string m = to_string n \<longleftrightarrow> m = n"
  by (metis dec_value_to_string)

lemma digit_not: "\<not> is_digit (CHR ''-'')" "\<not> is_digit (CHR ''|'')" "\<not> is_digit (CHR ''@'')"
  "\<not> is_digit (CHR ''+'')" "\<not> is_digit (CHR ''/'')"
  by (simp_all add: is_digit_def)

lemma not_in_to_string: "\<not> is_digit c \<Longrightarrow> c \<notin> set (to_string n)"
  using to_string_digits by blast

lemma sep_not_in_to_string [simp]:
  "CHR ''-'' \<notin> set (to_string n)" "CHR ''|'' \<notin> set (to_string n)"
  "CHR ''@'' \<notin> set (to_string n)" "CHR ''/'' \<notin> set (to_string n)"
  by (simp_all add: not_in_to_string digit_not)

lemma is_digit_not_space: "is_digit c \<Longrightarrow> \<not> is_space c"
  by (simp add: is_digit_def is_space_def)

lemma is_digit_not_sign: "is_digit c \<Longrightarrow> c \<noteq> CHR ''-'' \<and> c \<noteq> CHR ''+''"
  using digit_not by blast

lemma strip_sign_digits:
  assumes "s \<noteq> []" "\<And>c. c \<in> set s \<Longrightarrow> is_digit c"
  shows "strip_sign (s @ t) = (False, s @ t)"
proof -
  obtain c cs where s: "s = c # cs" using assms(1) by (cases s) auto
  then have "is_digit c" using assms(2) by simp
  then show ?thesis
    using is_digit_not_space is_digit_not_sign by (simp add: strip_sign_def s)
qed

lemma takeWhile_digits:
  assumes "\<And>c. c \<in> set s \<Longrightarrow> is_digit c" "t = [] \<or> \<not> is_digit (hd t)"
  shows "takeWhile is_digit (s @ t) = s"
  using assms by (cases t) (auto simp: takeWhile_append takeWhile_eq_all_conv)

lemma stoul_to_string_append [codec_simps]:
  assumes "n < 2 ^ 64" "t = [] \<or> \<not> is_digit (hd t)"
  shows "stoul (to_string n @ t) = Inr n"
proof -
  have "strip_sign (to_string n @ t) = (False, to_string n @ t)"
    by (rule strip_sign_digits) (simp_all add: to_string_digits)
  moreover have "takeWhile is_digit (to_string n @ t) = to_string n"
    using assms(2) by (intro takeWhile_digits) (simp_all add: to_string_digits)
  ultimately show ?thesis using assms(1) by (simp add: stoul_def)
qed

lemma stoul_to_string [codec_simps, simp]: "n < 2 ^ 64 \<Longrightarrow> stoul (to_string n) = Inr n"
  using stoul_to_string_append [of n "[]"] by simp

lemma takeWhile_to_string [simp]: "takeWhile is_digit (to_string n) = to_string n"
  using takeWhile_digits [of "to_string n" "[]"] by (metis append_Nil2 to_string_digits)

lemma stol_to_string_nonneg: "n < 2 ^ 63 \<Longrightarrow> stol (to_string n) = Inr (int n)"
proof -
  assume n: "n < 2 ^ 63"
  have "strip_sign (to_string n) = (False, to_string n)"
    using strip_sign_digits [of "to_string n" "[]"] by (simp add: to_string_digits)
  moreover have "int n < 2 ^ 63" using n by simp
  ultimately show ?thesis by (simp add: stol_def)
qed

lemma stoi_to_string_append [codec_simps]:
  assumes "n < 2 ^ 31" "t = [] \<or> \<not> is_digit (hd t)"
  shows "stoi (to_string n @ t) = Inr (int n)"
proof -
  have "strip_sign (to_string n @ t) = (False, to_string n @ t)"
    by (rule strip_sign_digits) (simp_all add: to_string_digits)
  moreover have "takeWhile is_digit (to_string n @ t) = to_string n"
    using assms(2) by (intro takeWhile_digits) (simp_all add: to_string_digits)
  moreover have "int n < 2 ^ 31" using assms(1) by simp
  ultimately show ?thesis by (simp add: stoi_def)
qed

lemma stol_to_string_int [codec_simps]:
  assumes "- (2 ^ 63) \<le> k" "k < 2 ^ 63"
  shows "stol (to_string_int k) = Inr k"
proof (cases "k < 0")
  case True
  have "strip_sign (to_string_int k) = (True, to_string (nat (- k)))"
    using True by (simp add: strip_sign_def to_string_int_def is_space_def)
  then show ?thesis using True assms by (simp add: stol_def)
next
  case False
  then have "nat k < 2 ^ 63" using assms by (simp add: nat_less_iff)
  with False show ?thesis by (simp add: to_string_int_def stol_to_string_nonneg)
qed

lemma to_string_int_nonempty [simp]: "to_string_int k \<noteq> []"
  by (simp add: to_string_int_def)

lemma bar_not_in_to_string_int [simp]: "CHR ''|'' \<notin> set (to_string_int k)"
  by (simp add: to_string_int_def)

lemma to_string_int_inject [simp, key_simps]: "to_string_int j = to_string_int k \<longleftrightarrow> j = k"
proof
  assume eq: "to_string_int j = to_string_int k"
  have hd: "hd (to_string m) \<noteq> CHR ''-''" for m
    using to_string_digits [of "hd (to_string m)" m] digit_not(1) hd_in_set to_string_nonempty
    by metis
  show "j = k"
    using eq hd [of "nat j"] hd [of "nat k"]
    by (auto simp: to_string_int_def split: if_splits) (metis list.sel(1))+
qed simp

subsection \<open>Splitting\<close>

lemma splitBy_last [codec_simps]: "d \<notin> set s \<Longrightarrow> splitBy s d = [s]"
  by (subst splitBy.simps) (metis (mono_tags, lifting) dropWhile_eq_Nil_conv list.simps(4)
      takeWhile_eq_all_conv)

lemma splitBy_append [codec_simps]: "d \<notin> set s \<Longrightarrow> splitBy (s @ d # t) d = s # splitBy t d"
proof -
  assume d: "d \<notin> set s"
  then have "takeWhile (\<lambda>c. c \<noteq> d) (s @ d # t) = s" and "dropWhile (\<lambda>c. c \<noteq> d) (s @ d # t) = d # t"
    by (auto simp: takeWhile_append dropWhile_append)
  then show ?thesis by (subst splitBy.simps) simp
qed

lemma splitBy_nonempty: "splitBy s d \<noteq> []"
  by (subst splitBy.simps) (simp add: Let_def split: list.split)

lemma length_splitBy: "length (splitBy s d) = Suc (count_list s d)"
proof (induction s d rule: splitBy.induct)
  case (1 s d)
  show ?case
  proof (cases "d \<in> set s")
    case True
    then obtain a b where s: "s = a @ d # b" "d \<notin> set a" by (meson split_list_first)
    have "dropWhile (\<lambda>c. c \<noteq> d) s = d # b" using s by (auto simp: dropWhile_append)
    with 1 have "length (splitBy b d) = Suc (count_list b d)" by simp
    then show ?thesis using s by (simp add: splitBy_append)
  next
    case False
    then show ?thesis by (simp add: splitBy_last)
  qed
qed

lemma find_char_append [codec_simps]: "c \<notin> set s \<Longrightarrow> find_char c (s @ c # t) = Some (length s)"
  by (induction s) auto

lemma find_char_None [codec_simps]: "find_char c s = None \<longleftrightarrow> c \<notin> set s"
  by (induction s) auto

subsection \<open>Little-endian integers\<close>

lemma length_le_bytes [simp]: "length (le_bytes w n) = w"
  by (induction w arbitrary: n) auto

lemma of_char_less_256 [simp]: "(of_char c :: nat) < 256"
  by simp

lemma le_nat_bound: "le_nat w s < 256 ^ w"
proof (induction w arbitrary: s)
  case 0
  then show ?case by simp
next
  case (Suc w)
  show ?case
  proof (cases s)
    case Nil
    then show ?thesis by simp
  next
    case (Cons c cs)
    have "of_char c + 256 * le_nat w cs < 256 * (le_nat w cs + 1)"
      using of_char_less_256 by simp
    also have "\<dots> \<le> 256 * 256 ^ w" using Suc.IH [of cs] by (intro mult_le_mono2) simp
    finally have "of_char c + 256 * le_nat w cs < 256 * 256 ^ w" .
    then show ?thesis using Cons by simp
  qed
qed

lemma le_nat_le_bytes_append [codec_simps]: "le_nat w (le_bytes w n @ s) = n mod 256 ^ w"
proof (induction w arbitrary: n)
  case 0
  then show ?case by simp
next
  case (Suc w)
  have "n mod (256 * 256 ^ w) = n mod 256 + 256 * (n div 256 mod 256 ^ w)"
    by (simp add: mod_mult2_eq)
  with Suc.IH show ?case by (simp add: ac_simps)
qed

lemma le_nat_le_bytes [codec_simps]: "n < 256 ^ w \<Longrightarrow> le_nat w (le_bytes w n @ s) = n"
  by (simp add: le_nat_le_bytes_append)

lemma u32_at_le_bytes [codec_simps, simp]: "n < 2 ^ 32 \<Longrightarrow> u32_at (le_bytes 4 n @ s) = n"
  by (rule le_nat_le_bytes) simp

lemma u64_at_le_bytes [codec_simps, simp]: "n < 2 ^ 64 \<Longrightarrow> u64_at (le_bytes 8 n @ s) = n"
  by (rule le_nat_le_bytes) simp


lemma concat_fixed_nth:
  "\<forall>x\<in>set xs. length x = n \<Longrightarrow> k < length xs \<Longrightarrow> take n (drop (k * n) (concat xs @ j)) = xs ! k"
proof (induction xs arbitrary: k)
  case Nil
  then show ?case by simp
next
  case (Cons x xs)
  then show ?case by (cases k) simp_all
qed

lemma length_concat_fixed: "\<forall>x\<in>set xs. length x = n \<Longrightarrow> length (concat xs) = length xs * n"
  by (induction xs) auto

lemma sep_unique: "c \<notin> set a \<Longrightarrow> c \<notin> set b \<Longrightarrow> a @ c # x = b @ c # y \<longleftrightarrow> a = b \<and> x = y"
proof (induction a arbitrary: b)
  case Nil
  then show ?case by (cases b) auto
next
  case (Cons u a)
  then show ?case by (cases b) auto
qed


lemma in_concat_take: "e \<in> set (concat (take i xss)) \<longleftrightarrow> (\<exists>j<i. j < length xss \<and> e \<in> set (xss ! j))"
proof (induction xss arbitrary: i)
  case Nil
  then show ?case by simp
next
  case (Cons xs xss)
  then show ?case by (cases i) (auto simp: less_Suc_eq_0_disj)
qed

lemma in_concat_drop: "e \<in> set (concat (drop i xss)) \<longleftrightarrow> (\<exists>j\<ge>i. j < length xss \<and> e \<in> set (xss ! j))"
proof (induction xss arbitrary: i)
  case Nil
  then show ?case by simp
next
  case (Cons xs xss)
  show ?case
  proof (cases i)
    case 0
    then show ?thesis using Cons [of 0] by (auto simp: less_Suc_eq_0_disj)
  next
    case (Suc n)
    have "(\<exists>j\<ge>Suc n. j < length (xs # xss) \<and> e \<in> set ((xs # xss) ! j)) \<longleftrightarrow>
        (\<exists>j\<ge>n. j < length xss \<and> e \<in> set (xss ! j))"
    proof
      assume "\<exists>j\<ge>Suc n. j < length (xs # xss) \<and> e \<in> set ((xs # xss) ! j)"
      then obtain j where "Suc n \<le> j" "j < length (xs # xss)" "e \<in> set ((xs # xss) ! j)" by blast
      then show "\<exists>j\<ge>n. j < length xss \<and> e \<in> set (xss ! j)" by (intro exI [of _ "j - 1"]) auto
    next
      assume "\<exists>j\<ge>n. j < length xss \<and> e \<in> set (xss ! j)"
      then obtain j where "n \<le> j" "j < length xss" "e \<in> set (xss ! j)" by blast
      then show "\<exists>j\<ge>Suc n. j < length (xs # xss) \<and> e \<in> set ((xs # xss) ! j)"
        by (intro exI [of _ "Suc j"]) auto
    qed
    then show ?thesis using Cons [of n] Suc by simp
  qed
qed

section \<open>Ordered maps\<close>

text \<open>
  \<open>std::map\<close> as a list ordered by key.  \<open>m[k] = v\<close> overwrites; \<open>insert\<close> and \<open>emplace\<close> leave a key that is present
  alone; \<open>om_modify\<close> changes the value of a key that is present.
\<close>

fun smap_set :: "'k::linorder \<Rightarrow> 'v \<Rightarrow> ('k \<times> 'v) list \<Rightarrow> ('k \<times> 'v) list" where
  "smap_set k v [] = [(k, v)]"
| "smap_set k v ((k', v') # xs) =
     (if k = k' then (k, v) # xs else if k < k' then (k, v) # (k', v') # xs else (k', v') # smap_set k v xs)"

fun om_emplace :: "'k::linorder \<Rightarrow> 'v \<Rightarrow> ('k \<times> 'v) list \<Rightarrow> ('k \<times> 'v) list" where
  "om_emplace k v [] = [(k, v)]"
| "om_emplace k v ((k', v') # xs) =
     (if k = k' then (k', v') # xs else if k < k' then (k, v) # (k', v') # xs else (k', v') # om_emplace k v xs)"

definition om_insert :: "('k::linorder \<times> 'v) list \<Rightarrow> ('k \<times> 'v) list \<Rightarrow> ('k \<times> 'v) list" where
  "om_insert ys xs = foldl (\<lambda>xs (k, v). om_emplace k v xs) xs ys"

fun om_modify :: "'k \<Rightarrow> ('v \<Rightarrow> 'v) \<Rightarrow> ('k \<times> 'v) list \<Rightarrow> ('k \<times> 'v) list" where
  "om_modify k f [] = []"
| "om_modify k f ((k', v) # xs) = (if k = k' then (k', f v) # xs else (k', v) # om_modify k f xs)"

lemma keys_smap_set: "fst ` set (smap_set k v xs) = insert k (fst ` set xs)"
  by (induction k v xs rule: smap_set.induct) auto

lemma sorted_smap_set: "sorted_wrt (<) (map fst xs) \<Longrightarrow> sorted_wrt (<) (map fst (smap_set k v xs))"
proof (induction k v xs rule: smap_set.induct)
  case (2 k v k' v' xs)
  then show ?case using keys_smap_set [of k v xs] by auto
qed simp

lemma map_of_smap_set: "map_of (smap_set k v xs) = (map_of xs)(k \<mapsto> v)"
  by (induction k v xs rule: smap_set.induct) (auto simp: fun_eq_iff)

lemma om_emplace_keys: "fst ` set (om_emplace k v xs) = insert k (fst ` set xs)"
  by (induction k v xs rule: om_emplace.induct) auto

lemma om_emplace_sorted: "sorted (map fst xs) \<Longrightarrow> distinct (map fst xs) \<Longrightarrow>
    sorted (map fst (om_emplace k v xs)) \<and> distinct (map fst (om_emplace k v xs))"
proof (induction k v xs rule: om_emplace.induct)
  case (2 k v k' v' xs)
  have "set (map fst (om_emplace k v xs)) = insert k (set (map fst xs))" using om_emplace_keys [of k v xs] by simp
  then show ?case using 2 by auto
qed simp

lemma map_of_om_emplace: "map_of (om_emplace k v xs) = (case map_of xs k of None \<Rightarrow> (map_of xs)(k \<mapsto> v) | Some _ \<Rightarrow> map_of xs)"
  if "sorted (map fst xs)"
  using that
proof (induction k v xs rule: om_emplace.induct)
  case (2 k v k' v' xs)
  have "map_of xs k = None" if "k < k'" using that 2(2) by (force simp: map_of_eq_None_iff)
  then show ?case using 2 by (auto simp: fun_eq_iff split: option.splits)
qed simp

end
