(* ===== verification/Hashes.thy ===== *)
theory Hashes
  imports Prelude
begin

text \<open>
  The class \<open>Hash\<close> (\<open>ledger/common/hash.h\<close>, \<open>hash.cc\<close>) and the record of external code the
  ledger calls: the BLAKE2b digest of CryptoPP and the key-value engine RocksDB.  Neither is part
  of the repository, so every definition that reaches them takes the record as an argument, and
  what the ledger relies on is the predicate \<open>ext_ok\<close>.  A \<open>Hash\<close> object is a nullable pointer to
  20 bytes: \<^term>\<open>None\<close> for the null pointer, \<^term>\<open>Some b\<close> for the bytes.  Which object owns the
  bytes (\<open>own_\<close>) is not observable in the value and is left out.
\<close>

section \<open>External code\<close>

record 's ext =
  blake2b :: "string \<Rightarrow> string"
  rocks_get :: "'s \<Rightarrow> string \<Rightarrow> string option"
  rocks_put :: "'s \<Rightarrow> string \<Rightarrow> string \<Rightarrow> bool \<times> 's"

text \<open>
  Documented behaviour: BLAKE2b has 64-byte digests; a RocksDB \<open>Put\<close> that reports \<open>ok\<close> makes
  \<open>Get\<close> return the stored value for that key and leaves every other key alone.
\<close>

definition ext_ok :: "'s ext \<Rightarrow> bool" where
  "ext_ok E \<longleftrightarrow> (\<forall>x. length (blake2b E x) = 64) \<and>
     (\<forall>s k v. fst (rocks_put E s k v) \<and>
        (\<forall>k'. rocks_get E (snd (rocks_put E s k v)) k' =
              (if k' = k then Some v else rocks_get E s k')))"

section \<open>The class Hash\<close>

type_synonym Hash = "string option"

definition kByteLength :: nat where
  "kByteLength = 20"

definition kBase32Length :: nat where
  "kBase32Length = 32"

definition kNull :: Hash where
  "kNull = Some (replicate kByteLength (char_of (0 :: nat)))"

text \<open>\<open>Hash(const unsigned char*)\<close>: share the 20 bytes the pointer points at.\<close>

definition Hash_ptr :: "string \<Rightarrow> Hash" where
  "Hash_ptr p = Some (take kByteLength p)"

text \<open>
  \<open>value()\<close> as the source of a \<open>memcpy\<close> of \<open>kByteLength\<close> bytes (copying from a null pointer is
  undefined; the model copies nothing).
\<close>

definition hval :: "Hash \<Rightarrow> string" where
  "hval h = (case h of None \<Rightarrow> [] | Some b \<Rightarrow> take kByteLength b)"

definition Hash_empty :: "Hash \<Rightarrow> bool" where
  "Hash_empty h \<longleftrightarrow> h = None"

definition Hash_eq :: "Hash \<Rightarrow> Hash \<Rightarrow> bool" where
  "Hash_eq l r \<longleftrightarrow> (if l = None \<or> r = None then l = None \<and> r = None else hval l = hval r)"

definition Hash_less :: "Hash \<Rightarrow> Hash \<Rightarrow> bool" where
  "Hash_less l r \<longleftrightarrow> (if l = None \<or> r = None then l = None \<and> r \<noteq> None else hval l < hval r)"

definition Hash_greater :: "Hash \<Rightarrow> Hash \<Rightarrow> bool" where
  "Hash_greater l r \<longleftrightarrow> (if l = None \<or> r = None then l \<noteq> None \<and> r = None else hval l > hval r)"

definition Hash_le :: "Hash \<Rightarrow> Hash \<Rightarrow> bool" where
  "Hash_le l r \<longleftrightarrow> \<not> Hash_greater l r"

definition Hash_ge :: "Hash \<Rightarrow> Hash \<Rightarrow> bool" where
  "Hash_ge l r \<longleftrightarrow> \<not> Hash_less l r"

definition Hash_Clone :: "Hash \<Rightarrow> Hash" where
  "Hash_Clone h = (if Hash_empty h then None else Some (hval h))"

definition ComputeFrom :: "'s ext \<Rightarrow> string \<Rightarrow> Hash" where
  "ComputeFrom E data = Some (take kByteLength (blake2b E data))"

subsection \<open>Base 32\<close>

definition base32alphabet :: string where
  "base32alphabet = ''ABCDEFGHIJKLMNOPQRSTUVWXYZ234567''"

text \<open>
  \<open>base32[k]\<close>: position \<open>size()\<close> holds the terminating zero; positions behind it are undefined in
  C++ and read as zero in the model.
\<close>

definition char_at :: "string \<Rightarrow> nat \<Rightarrow> char" where
  "char_at s k = (if k < length s then s ! k else char_of (0 :: nat))"

text \<open>\<open>test.find(c)\<close> added to a \<open>uint64_t\<close>: \<open>npos\<close> is \<open>2^64 - 1\<close>.\<close>

definition b32_index :: "char \<Rightarrow> 64 word" where
  "b32_index c = (case find_char c base32alphabet of Some i \<Rightarrow> of_nat i | None \<Rightarrow> - 1)"

definition b32_pack :: "string \<Rightarrow> 64 word" where
  "b32_pack cs = foldl (\<lambda>tmp c. push_bit 5 tmp + b32_index c) 0 cs"

fun b32_unpack :: "nat \<Rightarrow> 64 word \<Rightarrow> string \<Rightarrow> string" where
  "b32_unpack 0 tmp acc = acc"
| "b32_unpack (Suc n) tmp acc = b32_unpack n (drop_bit 8 tmp) (char_of (unat (take_bit 8 tmp)) # acc)"

definition FromBase32 :: "string \<Rightarrow> Hash" where
  "FromBase32 base32 = Some (concat (map (\<lambda>i.
       b32_unpack 5 (b32_pack (map (\<lambda>j. char_at base32 (i + j)) [0..<8])) []) [0, 8, 16, 24]))"

definition bytes_pack :: "string \<Rightarrow> 64 word" where
  "bytes_pack bs = foldl (\<lambda>tmp b. push_bit 8 tmp + of_nat (of_char b)) 0 bs"

fun b32_chars :: "nat \<Rightarrow> 64 word \<Rightarrow> string" where
  "b32_chars 0 tmp = []"
| "b32_chars (Suc n) tmp = base32alphabet ! unat (take_bit 8 (drop_bit (5 * n) tmp))
     # b32_chars n (take_bit (5 * n) tmp)"

definition ToBase32 :: "Hash \<Rightarrow> string" where
  "ToBase32 h = (if Hash_empty h then []
     else concat (map (\<lambda>i. b32_chars 8 (bytes_pack (substr (hval h) i 5))) [0, 5, 10, 15]))"

section \<open>Positional numerals\<close>

fun digits :: "nat \<Rightarrow> nat \<Rightarrow> nat \<Rightarrow> nat list" where
  "digits B 0 v = []"
| "digits B (Suc n) v = v div B ^ n # digits B n (v mod B ^ n)"

definition horner :: "nat \<Rightarrow> nat list \<Rightarrow> nat" where
  "horner B ds = foldl (\<lambda>a d. a * B + d) 0 ds"

lemma length_digits [simp]: "length (digits B n v) = n"
  by (induction n arbitrary: v) auto

lemma horner_foldl: "foldl (\<lambda>a d. a * B + d) a ds = a * B ^ length ds + horner B ds"
proof (induction ds arbitrary: a)
  case Nil
  then show ?case by (simp add: horner_def)
next
  case (Cons d ds)
  have "horner B (d # ds) = d * B ^ length ds + horner B ds"
    using Cons.IH [of d] by (simp add: horner_def)
  then show ?case using Cons.IH [of "a * B + d"] by (simp add: algebra_simps)
qed

lemma horner_Cons: "horner B (d # ds) = d * B ^ length ds + horner B ds"
  using horner_foldl [of B d ds] by (simp add: horner_def)

lemma horner_digits: "horner B (digits B n v) = v mod B ^ n" if "v < B ^ n"
  using that
proof (induction n arbitrary: v)
  case 0
  then show ?case by (simp add: horner_def)
next
  case (Suc n)
  have "0 < B" using Suc.prems by (cases B) auto
  then have lt: "v mod B ^ n < B ^ n" by simp
  have "horner B (digits B (Suc n) v) = v div B ^ n * B ^ n + horner B (digits B n (v mod B ^ n))"
    by (simp add: horner_Cons)
  also have "\<dots> = v div B ^ n * B ^ n + v mod B ^ n" using Suc.IH [OF lt] by simp
  also have "\<dots> = v" by (rule div_mult_mod_eq)
  finally show ?case using Suc.prems by simp
qed

lemma horner_bound: "(\<And>d. d \<in> set ds \<Longrightarrow> d < B) \<Longrightarrow> horner B ds < B ^ length ds"
proof (induction ds)
  case Nil
  then show ?case by (simp add: horner_def)
next
  case (Cons d ds)
  have "horner B (d # ds) < d * B ^ length ds + B ^ length ds"
    using Cons by (simp add: horner_Cons)
  also have "\<dots> = Suc d * B ^ length ds" by simp
  also have "\<dots> \<le> B * B ^ length ds" using Cons.prems [of d] by (intro mult_le_mono1) simp
  finally show ?case by simp
qed

lemma digits_horner: "(\<And>d. d \<in> set ds \<Longrightarrow> d < B) \<Longrightarrow> digits B (length ds) (horner B ds) = ds"
proof (induction ds)
  case Nil
  then show ?case by simp
next
  case (Cons d ds)
  then have b: "horner B ds < B ^ length ds" by (intro horner_bound) simp
  have "(d * B ^ length ds + horner B ds) div B ^ length ds = d"
    using b by (metis add.commute add_cancel_left_left div_less div_mult_self3 not_less_zero)
  moreover have "(d * B ^ length ds + horner B ds) mod B ^ length ds = horner B ds"
    using b by simp
  ultimately show ?case using Cons by (simp add: horner_Cons)
qed

lemma digits_snoc: "digits B (Suc n) v = digits B n (v div B) @ [v mod B]" if "v < B ^ Suc n"
  using that
proof (induction n arbitrary: v)
  case 0
  then show ?case by simp
next
  case (Suc n)
  have "0 < B" using Suc.prems by (cases B) auto
  then have lt: "v mod B ^ Suc n < B ^ Suc n" by simp
  have "digits B (Suc (Suc n)) v = v div B ^ Suc n # digits B (Suc n) (v mod B ^ Suc n)" by simp
  also have "\<dots> = v div B ^ Suc n # digits B n (v mod B ^ Suc n div B) @ [v mod B ^ Suc n mod B]"
    using Suc.IH [OF lt] by simp
  also have "\<dots> = v div B div B ^ n # digits B n (v div B mod B ^ n) @ [v mod B]"
    using \<open>0 < B\<close> by (simp add: div_mult2_eq mod_mult2_eq)
  finally show ?case by simp
qed

lemma digits_bound: "v < B ^ n \<Longrightarrow> d \<in> set (digits B n v) \<Longrightarrow> d < B"
proof (induction n arbitrary: v)
  case 0
  then show ?case by simp
next
  case (Suc n)
  then have B: "0 < B" by (cases B) auto
  show ?case
  proof (cases "d = v div B ^ n")
    case True
    have "v < B * B ^ n" using Suc.prems(1) by simp
    with True show ?thesis by (simp add: less_mult_imp_div_less)
  next
    case False
    with Suc.prems(2) have "d \<in> set (digits B n (v mod B ^ n))" by simp
    moreover have "v mod B ^ n < B ^ n" using B by simp
    ultimately show ?thesis using Suc.IH by blast
  qed
qed

section \<open>Lemmas on hashes\<close>

lemma ext_ok_hash_length [simp]: "ext_ok E \<Longrightarrow> length (hval (ComputeFrom E x)) = 20"
  by (simp add: ext_ok_def hval_def ComputeFrom_def kByteLength_def)

lemma ComputeFrom_Some: "ComputeFrom E x = Some (hval (ComputeFrom E x))"
  by (simp add: ComputeFrom_def hval_def)

lemma ComputeFrom_not_None [simp]: "ComputeFrom E x \<noteq> None"
  by (simp add: ComputeFrom_def)

lemma hval_Some [simp]: "length b = 20 \<Longrightarrow> hval (Some b) = b"
  by (simp add: hval_def kByteLength_def)

lemma hval_Clone [simp]: "hval (Hash_Clone h) = hval h"
  by (cases h) (simp_all add: Hash_Clone_def Hash_empty_def hval_def)

lemma Hash_eq_iff: "Hash_eq l r \<longleftrightarrow> (l = None \<longleftrightarrow> r = None) \<and> hval l = hval r"
  by (cases l; cases r) (simp_all add: Hash_eq_def hval_def)

lemma Hash_less_trichotomy: "Hash_less l r \<or> Hash_eq l r \<or> Hash_less r l"
  by (cases l; cases r) (auto simp: Hash_less_def Hash_eq_iff)

lemma length_base32alphabet: "length base32alphabet = 32"
  by (simp add: base32alphabet_def)

lemma find_base32alphabet: "i < 32 \<Longrightarrow> find_char (base32alphabet ! i) base32alphabet = Some i"
proof -
  assume "i < 32"
  moreover have "\<forall>i\<in>set [0..<32]. find_char (base32alphabet ! i) base32alphabet = Some i"
    by (simp add: base32alphabet_def upt_rec)
  ultimately show ?thesis by simp
qed

lemma b32_index_alphabet: "i < 32 \<Longrightarrow> b32_index (base32alphabet ! i) = of_nat i"
  by (simp add: b32_index_def find_base32alphabet)

lemma foldl_push_of_nat:
  "foldl (\<lambda>t d. push_bit k t + of_nat d) (of_nat a :: 64 word) ds =
   of_nat (foldl (\<lambda>a d. a * 2 ^ k + d) a ds)"
proof (induction ds arbitrary: a)
  case Nil
  then show ?case by simp
next
  case (Cons d ds)
  have "push_bit k (of_nat a :: 64 word) + of_nat d = of_nat (a * 2 ^ k + d)"
    by (simp add: push_bit_eq_mult)
  then show ?case using Cons.IH [of "a * 2 ^ k + d"] by simp
qed

lemma bytes_pack_eq: "bytes_pack bs = of_nat (horner 256 (map of_char bs))"
proof -
  have "bytes_pack bs = foldl (\<lambda>t d. push_bit 8 t + of_nat d) (of_nat 0 :: 64 word) (map of_char bs)"
    by (simp add: bytes_pack_def foldl_map)
  also have "\<dots> = of_nat (foldl (\<lambda>a d. a * 2 ^ 8 + d) 0 (map of_char bs))"
    by (rule foldl_push_of_nat)
  finally show ?thesis by (simp add: horner_def)
qed

lemma b32_pack_eq:
  assumes "\<And>d. d \<in> set ds \<Longrightarrow> d < 32"
  shows "b32_pack (map (\<lambda>d. base32alphabet ! d) ds) = of_nat (horner 32 ds)"
proof -
  have "b32_pack (map (\<lambda>d. base32alphabet ! d) ds)
      = foldl (\<lambda>t d. push_bit 5 t + b32_index (base32alphabet ! d)) 0 ds"
    by (simp add: b32_pack_def foldl_map)
  also have "\<dots> = foldl (\<lambda>t d. push_bit 5 t + of_nat d) 0 ds"
    using assms by (intro foldl_cong) (simp_all add: b32_index_alphabet)
  also have "\<dots> = of_nat (foldl (\<lambda>a d. a * 2 ^ 5 + d) 0 ds)"
    using foldl_push_of_nat [of 5 0 ds] by simp
  finally show ?thesis by (simp add: horner_def)
qed

lemma take_bit_of_nat_word:
  "v < 2 ^ 64 \<Longrightarrow> k \<le> 64 \<Longrightarrow> take_bit k (of_nat v :: 64 word) = of_nat (v mod 2 ^ k)"
  by (simp add: take_bit_of_nat flip: take_bit_eq_mod)

lemma drop_bit_of_nat_word: "v < 2 ^ 64 \<Longrightarrow> drop_bit k (of_nat v :: 64 word) = of_nat (v div 2 ^ k)"
proof -
  assume v: "v < 2 ^ 64"
  moreover have "v div 2 ^ k < 2 ^ 64" using v by (meson div_le_dividend le_less_trans)
  ultimately have "drop_bit k (unat (of_nat v :: 64 word)) = unat (of_nat (v div 2 ^ k) :: 64 word)"
    by (simp add: unat_of_nat drop_bit_eq_div)
  then have "unat (drop_bit k (of_nat v :: 64 word)) = unat (of_nat (v div 2 ^ k) :: 64 word)"
    by (simp only: unat_drop_bit_eq)
  then show ?thesis by (rule unsigned_word_eqI)
qed

lemma b32_unpack_eq:
  "v < 256 ^ n \<Longrightarrow> n \<le> 8 \<Longrightarrow>
   b32_unpack n (of_nat v) acc = map char_of (digits 256 n v) @ acc"
proof (induction n arbitrary: v acc)
  case 0
  then show ?case by simp
next
  case (Suc n)
  have "(256 :: nat) ^ Suc n \<le> 256 ^ 8" using Suc.prems(2) by (intro power_increasing) auto
  then have v64: "v < 2 ^ 64" using Suc.prems(1) by simp
  have "v div 256 < 256 ^ n" using Suc.prems(1) by (simp add: less_mult_imp_div_less ac_simps)
  then have IH: "b32_unpack n (of_nat (v div 256)) (char_of (v mod 256) # acc)
      = map char_of (digits 256 n (v div 256)) @ char_of (v mod 256) # acc"
    using Suc.IH Suc.prems(2) by simp
  have "unat (take_bit 8 (of_nat v :: 64 word)) = v mod 256"
    using v64 by (simp add: take_bit_of_nat_word unat_of_nat)
  moreover have "drop_bit 8 (of_nat v :: 64 word) = of_nat (v div 256)"
    using v64 drop_bit_of_nat_word [of v 8] by simp
  ultimately show ?case
    using IH digits_snoc [OF Suc.prems(1)] by simp
qed

lemma b32_chars_eq:
  "v < 32 ^ n \<Longrightarrow> n \<le> 8 \<Longrightarrow>
   b32_chars n (of_nat v) = map (\<lambda>d. base32alphabet ! d) (digits 32 n v)"
proof (induction n arbitrary: v)
  case 0
  then show ?case by simp
next
  case (Suc n)
  have "(32 :: nat) ^ Suc n \<le> 32 ^ 8" using Suc.prems(2) by (intro power_increasing) auto
  then have v64: "v < 2 ^ 64" using Suc.prems(1) by simp
  have pow: "(2 :: nat) ^ (5 * n) = 32 ^ n" by (simp add: power_mult)
  have "v div 32 ^ n < 32" using Suc.prems(1) by (simp add: less_mult_imp_div_less)
  then have "unat (take_bit 8 (drop_bit (5 * n) (of_nat v :: 64 word))) = v div 32 ^ n"
    using v64 drop_bit_of_nat_word [of v "5 * n"]
    by (simp add: pow take_bit_of_nat_word unat_of_nat)
  moreover have "take_bit (5 * n) (of_nat v :: 64 word) = of_nat (v mod 32 ^ n)"
    using v64 Suc.prems(2) by (simp add: take_bit_of_nat_word pow)
  moreover have "v mod 32 ^ n < 32 ^ n" by simp
  ultimately show ?case using Suc.IH [of "v mod 32 ^ n"] Suc.prems(2) by simp
qed

text \<open>One group: 5 bytes against 8 characters.\<close>

lemma of_char_map_char_of: "map char_of (map of_char bs :: nat list) = bs"
  by (induction bs) auto

lemma bytes_below_256: "d \<in> set (map of_char bs :: nat list) \<Longrightarrow> d < 256"
  by auto

lemma group_from_to:
  assumes "length bs = 5"
  shows "b32_unpack 5 (b32_pack (b32_chars 8 (bytes_pack bs))) [] = bs"
proof -
  let ?v = "horner 256 (map of_char bs)"
  have v: "?v < 256 ^ 5" using horner_bound [of "map of_char bs" 256, OF bytes_below_256] assms by simp
  then have v32: "?v < 32 ^ 8" by simp
  have "b32_chars 8 (bytes_pack bs) = map (\<lambda>d. base32alphabet ! d) (digits 32 8 ?v)"
    using v32 by (simp add: bytes_pack_eq b32_chars_eq)
  then have "b32_pack (b32_chars 8 (bytes_pack bs)) = of_nat (horner 32 (digits 32 8 ?v))"
    using v32 digits_bound [of ?v 32 8] by (simp add: b32_pack_eq)
  also have "horner 32 (digits 32 8 ?v) = ?v" using horner_digits [OF v32] v32 by simp
  finally have "b32_unpack 5 (b32_pack (b32_chars 8 (bytes_pack bs))) []
      = map char_of (digits 256 5 ?v)"
    using v by (simp add: b32_unpack_eq)
  also have "digits 256 5 ?v = map of_char bs"
    using digits_horner [of "map of_char bs" 256, OF bytes_below_256] assms by simp
  finally show ?thesis by (simp only: of_char_map_char_of)
qed

lemma group_to_from:
  assumes "length ds = 8" "\<And>d. d \<in> set ds \<Longrightarrow> d < 32"
  shows "b32_chars 8 (bytes_pack (b32_unpack 5 (b32_pack (map (\<lambda>d. base32alphabet ! d) ds)) []))
    = map (\<lambda>d. base32alphabet ! d) ds"
proof -
  let ?v = "horner 32 ds"
  have v32: "?v < 32 ^ 8" using horner_bound [of ds 32, OF assms(2)] assms(1) by simp
  then have v: "?v < 256 ^ 5" by simp
  have "b32_unpack 5 (b32_pack (map (\<lambda>d. base32alphabet ! d) ds)) [] = map char_of (digits 256 5 ?v)"
    using v assms(2) by (simp add: b32_pack_eq b32_unpack_eq)
  moreover have "map (of_char \<circ> char_of) (digits 256 5 ?v) = digits 256 5 ?v"
    using digits_bound [OF v] by (simp add: map_idI)
  ultimately have "bytes_pack (b32_unpack 5 (b32_pack (map (\<lambda>d. base32alphabet ! d) ds)) [])
      = of_nat (horner 256 (digits 256 5 ?v))"
    by (simp only: bytes_pack_eq map_map)
  also have "horner 256 (digits 256 5 ?v) = ?v" using horner_digits [OF v] v by simp
  finally show ?thesis
    using v32 digits_horner [of ds 32, OF assms(2)] assms(1) by (simp add: b32_chars_eq)
qed

lemma length_b32_chars [simp]: "length (b32_chars n w) = n"
  by (induction n arbitrary: w) auto

lemma length_b32_unpack [simp]: "length (b32_unpack n w acc) = n + length acc"
  by (induction n arbitrary: w acc) auto

lemma length_FromBase32 [simp]: "length (hval (FromBase32 s)) = 20"
  by (simp add: FromBase32_def hval_def kByteLength_def)

lemma FromBase32_Some: "FromBase32 s = Some (hval (FromBase32 s))"
  by (simp add: FromBase32_def hval_def kByteLength_def)

lemma length_ToBase32 [simp]: "length (ToBase32 (Some b)) = 32"
  by (simp add: ToBase32_def Hash_empty_def)

lemma ToBase32_None [simp]: "ToBase32 None = []"
  by (simp add: ToBase32_def Hash_empty_def)

lemma ToBase32_hval: "h \<noteq> None \<Longrightarrow> ToBase32 (Some (hval h)) = ToBase32 h"
  by (cases h) (simp_all add: ToBase32_def Hash_empty_def hval_def kByteLength_def)

lemma map_char_at_append:
  "length xs = n \<Longrightarrow> length ys = m \<Longrightarrow> map (\<lambda>j. char_at (xs @ ys @ zs) (n + j)) [0..<m] = ys"
  by (rule nth_equalityI) (auto simp: char_at_def nth_append)

lemma split5:
  assumes "length b = 20"
  shows "b = substr b 0 5 @ substr b 5 5 @ substr b 10 5 @ substr b 15 5"
    and "length (substr b 0 5) = 5" "length (substr b 5 5) = 5"
    "length (substr b 10 5) = 5" "length (substr b 15 5) = 5"
  using assms take_add [of 5 5 b] take_add [of 10 5 b] take_add [of 15 5 b]
  by (simp_all add: substr_def)

lemma FromBase32_groups:
  assumes "length w = 8" "length x = 8" "length y = 8" "length z = 8"
  shows "FromBase32 (w @ x @ y @ z) = Some (b32_unpack 5 (b32_pack w) [] @
    b32_unpack 5 (b32_pack x) [] @ b32_unpack 5 (b32_pack y) [] @ b32_unpack 5 (b32_pack z) [])"
  using map_char_at_append [of "[]" 0 w 8 "x @ y @ z"] map_char_at_append [of w 8 x 8 "y @ z"]
    map_char_at_append [of "w @ x" 16 y 8 z] map_char_at_append [of "w @ x @ y" 24 z 8 "[]"] assms
  by (simp add: FromBase32_def)

lemma FromBase32_ToBase32:
  assumes "length b = 20"
  shows "FromBase32 (ToBase32 (Some b)) = Some b"
proof -
  have "ToBase32 (Some b) = b32_chars 8 (bytes_pack (substr b 0 5)) @
      b32_chars 8 (bytes_pack (substr b 5 5)) @ b32_chars 8 (bytes_pack (substr b 10 5)) @
      b32_chars 8 (bytes_pack (substr b 15 5))"
    using assms by (simp add: ToBase32_def Hash_empty_def)
  then show ?thesis
    using split5 [OF assms] by (simp add: FromBase32_groups group_from_to)
qed

lemma FromBase32_ToBase32_hash [simp]:
  "length (hval h) = 20 \<Longrightarrow> h \<noteq> None \<Longrightarrow> FromBase32 (ToBase32 h) = Some (hval h)"
  by (metis FromBase32_ToBase32 ToBase32_hval)

lemma ToBase32_inject:
  assumes "length a = 20" "length b = 20"
  shows "ToBase32 (Some a) = ToBase32 (Some b) \<longleftrightarrow> a = b"
  using assms FromBase32_ToBase32 by (metis option.inject)

text \<open>Base32 text contains only characters of the alphabet.\<close>

lemma set_b32_group:
  assumes "length bs = 5"
  shows "set (b32_chars 8 (bytes_pack bs)) \<subseteq> set base32alphabet"
proof -
  let ?v = "horner 256 (map of_char bs)"
  have v: "?v < 32 ^ 8" using horner_bound [of "map of_char bs" 256] assms by (simp add: bytes_below_256)
  have "b32_chars 8 (bytes_pack bs) = map (\<lambda>d. base32alphabet ! d) (digits 32 8 ?v)"
    using b32_chars_eq [OF v] by (simp add: bytes_pack_eq)
  moreover have "\<forall>d\<in>set (digits 32 8 ?v). d < 32" using digits_bound [OF v] by blast
  ultimately show ?thesis by (auto simp: length_base32alphabet)
qed

lemma set_ToBase32: "length b = 20 \<Longrightarrow> set (ToBase32 (Some b)) \<subseteq> set base32alphabet"
proof -
  assume b: "length b = 20"
  have "ToBase32 (Some b) = concat (map (\<lambda>i. b32_chars 8 (bytes_pack (substr b i 5))) [0, 5, 10, 15])"
    using b by (simp add: ToBase32_def Hash_empty_def)
  then show ?thesis using set_b32_group split5(2-5) [OF b] by auto
qed

lemma bar_not_in_ToBase32 [simp]: "length b = 20 \<Longrightarrow> CHR ''|'' \<notin> set (ToBase32 (Some b))"
  using set_ToBase32 [of b] by (auto simp: base32alphabet_def)

end
