(* ===== verification/Store.thy ===== *)
theory Store
  imports Hashes
begin

text \<open>
  \<open>ledger/common\<close>: the byte containers \<open>Slice\<close> and \<open>Chunk\<close>, and the class \<open>DB\<close>, a wrapper of
  RocksDB with two chunk caches.  A \<open>Chunk\<close> is a nullable pointer to a buffer that starts with its
  own length and type; it is modelled by the buffer from that pointer on.  The interface \<open>kv_store\<close>
  is what every ledger structure relies on; it is interpreted on the string operations of \<open>DB\<close>.
\<close>

section \<open>Slice\<close>

text \<open>\<open>memcmp\<close>: the sign of the first difference among \<open>n\<close> bytes.\<close>

fun memcmp :: "string \<Rightarrow> string \<Rightarrow> nat \<Rightarrow> int" where
  "memcmp a b 0 = 0"
| "memcmp (x # a) (y # b) (Suc n) =
     (if x = y then memcmp a b n else if (of_char x :: nat) < of_char y then - 1 else 1)"
| "memcmp _ _ (Suc n) = 0"

definition Slice_less :: "string \<Rightarrow> string \<Rightarrow> bool" where
  "Slice_less a b = (let cmp = memcmp a b (min (length a) (length b))
                     in if cmp \<noteq> 0 then cmp < 0 else length a < length b)"

definition Slice_greater :: "string \<Rightarrow> string \<Rightarrow> bool" where
  "Slice_greater a b = (let cmp = memcmp a b (min (length a) (length b))
                        in if cmp \<noteq> 0 then cmp > 0 else length a > length b)"

definition Slice_eq :: "string \<Rightarrow> string \<Rightarrow> bool" where
  "Slice_eq a b = (if length a \<noteq> length b then False else memcmp a b (length a) = 0)"

section \<open>Chunk\<close>

datatype ChunkType = kMPTFull | kMPTShort | kMPTHash | kMPTValue | kMPTNil | kMeta | kMap | kList
  | kDocument | kQLBlock | kBlock | kValue | kTxnLog | kInvalid

fun ctype_code :: "ChunkType \<Rightarrow> nat" where
  "ctype_code kMPTFull = 0"
| "ctype_code kMPTShort = 1"
| "ctype_code kMPTHash = 2"
| "ctype_code kMPTValue = 3"
| "ctype_code kMPTNil = 4"
| "ctype_code kMeta = 5"
| "ctype_code kMap = 6"
| "ctype_code kList = 7"
| "ctype_code kDocument = 8"
| "ctype_code kQLBlock = 9"
| "ctype_code kBlock = 10"
| "ctype_code kValue = 11"
| "ctype_code kTxnLog = 12"
| "ctype_code kInvalid = 99"

text \<open>A byte that is no enumerator takes the default branch of every switch, as \<open>kInvalid\<close> does.\<close>

definition ctype_of :: "nat \<Rightarrow> ChunkType" where
  "ctype_of n = (if n < 13 then
      [kMPTFull, kMPTShort, kMPTHash, kMPTValue, kMPTNil, kMeta, kMap, kList, kDocument, kQLBlock,
       kBlock, kValue, kTxnLog] ! n else kInvalid)"

type_synonym Chunk = "string option"

definition kMetaLength :: nat where
  "kMetaLength = 5"

text \<open>\<open>Chunk(type, capacity)\<close> whose \<open>capacity\<close> bytes of data are then filled with \<open>data\<close>.\<close>

definition Chunk_new :: "ChunkType \<Rightarrow> string \<Rightarrow> Chunk" where
  "Chunk_new ty data = Some (le_bytes 4 (kMetaLength + length data) @ [char_of (ctype_code ty)] @ data)"

definition Chunk_empty :: "Chunk \<Rightarrow> bool" where
  "Chunk_empty c \<longleftrightarrow> c = None"

definition head :: "Chunk \<Rightarrow> string" where
  "head c = (case c of None \<Rightarrow> [] | Some p \<Rightarrow> p)"

definition numBytes :: "Chunk \<Rightarrow> nat" where
  "numBytes c = u32_at (head c)"

definition chunk_type :: "Chunk \<Rightarrow> ChunkType" where
  "chunk_type c = ctype_of (le_nat 1 (drop 4 (head c)))"

definition capacity :: "Chunk \<Rightarrow> nat" where
  "capacity c = numBytes c - kMetaLength"

definition chunk_data :: "Chunk \<Rightarrow> string" where
  "chunk_data c = drop kMetaLength (head c)"

text \<open>The bytes \<open>[head, head + numBytes)\<close> that are hashed, stored and copied.\<close>

definition chunk_bytes :: "Chunk \<Rightarrow> string" where
  "chunk_bytes c = take (numBytes c) (head c)"

definition chunk_hash :: "'s ext \<Rightarrow> Chunk \<Rightarrow> Hash" where
  "chunk_hash E c = ComputeFrom E (chunk_bytes c)"

section \<open>DB\<close>

record 's DB =
  rocks :: 's
  cache :: "string \<rightharpoonup> Chunk"
  m_cache :: "string \<rightharpoonup> Chunk"
  total :: int

definition DB_Open :: "'s \<Rightarrow> 's DB" where
  "DB_Open s = \<lparr>rocks = s, cache = Map.empty, m_cache = Map.empty, total = 0\<rparr>"

text \<open>\<open>bool Get(key, string* value)\<close>: \<^term>\<open>None\<close> when the status is not \<open>ok\<close>.\<close>

definition DB_Get :: "'s ext \<Rightarrow> 's DB \<Rightarrow> string \<Rightarrow> string option" where
  "DB_Get E d key = rocks_get E (rocks d) key"

text \<open>The value left in a fresh \<open>std::string\<close> by that call: empty when the key is absent.\<close>

definition DB_Get_str :: "'s ext \<Rightarrow> 's DB \<Rightarrow> string \<Rightarrow> string" where
  "DB_Get_str E d key = (case DB_Get E d key of None \<Rightarrow> [] | Some v \<Rightarrow> v)"

text \<open>\<open>Chunk* Get(const std::string&)\<close>: hits and misses are both remembered in \<open>m_cache_\<close>.\<close>

definition DB_Get_chunk :: "'s ext \<Rightarrow> 's DB \<Rightarrow> string \<Rightarrow> Chunk \<times> 's DB" where
  "DB_Get_chunk E d key = (case m_cache d key of
      Some c \<Rightarrow> (c, d)
    | None \<Rightarrow> (let c = (case rocks_get E (rocks d) key of Some v \<Rightarrow> Some v | None \<Rightarrow> None)
              in (c, d\<lparr>m_cache := (m_cache d)(key \<mapsto> c)\<rparr>)))"

definition DB_GetChunk :: "'s ext \<Rightarrow> 's DB \<Rightarrow> Hash \<Rightarrow> Chunk" where
  "DB_GetChunk E d h = (case rocks_get E (rocks d) (hval h) of Some v \<Rightarrow> Some v | None \<Rightarrow> None)"

text \<open>\<open>Chunk* Get(const Hash&)\<close>: hits and misses are both remembered in \<open>cache_\<close>.\<close>

definition DB_Get_hash :: "'s ext \<Rightarrow> 's DB \<Rightarrow> Hash \<Rightarrow> Chunk \<times> 's DB" where
  "DB_Get_hash E d h = (case cache d (ToBase32 h) of
      Some c \<Rightarrow> (c, d)
    | None \<Rightarrow> (let c = DB_GetChunk E d h in (c, d\<lparr>cache := (cache d)(ToBase32 h \<mapsto> c)\<rparr>)))"

definition DB_Put_hash :: "'s ext \<Rightarrow> 's DB \<Rightarrow> Hash \<Rightarrow> Chunk \<Rightarrow> bool \<times> 's DB" where
  "DB_Put_hash E d h c = (let (ok, s) = rocks_put E (rocks d) (hval h) (chunk_bytes c)
                          in (ok, d\<lparr>rocks := s\<rparr>))"

definition DB_Put_chunk :: "'s ext \<Rightarrow> 's DB \<Rightarrow> string \<Rightarrow> Chunk \<Rightarrow> bool \<times> 's DB" where
  "DB_Put_chunk E d key c = (let (ok, s) = rocks_put E (rocks d) key (chunk_bytes c)
                             in (ok, d\<lparr>m_cache := (m_cache d)(key := None), rocks := s\<rparr>))"

definition DB_Put_str :: "'s ext \<Rightarrow> 's DB \<Rightarrow> string \<Rightarrow> string \<Rightarrow> bool \<times> 's DB" where
  "DB_Put_str E d key val = (let (ok, s) = rocks_put E (rocks d) key val in (ok, d\<lparr>rocks := s\<rparr>))"

text \<open>\<open>concurrent_hash_map::insert\<close> keeps an existing element.\<close>

definition DB_CreateCache :: "'s DB \<Rightarrow> string \<Rightarrow> Chunk \<Rightarrow> 's DB" where
  "DB_CreateCache d cid c = (case m_cache d cid of
      Some _ \<Rightarrow> d | None \<Rightarrow> d\<lparr>m_cache := (m_cache d)(cid \<mapsto> c)\<rparr>)"

definition DB_size :: "'s DB \<Rightarrow> int" where
  "DB_size d = total d"

text \<open>The callers ignore the status of \<open>Put\<close>; this is the state they go on with.\<close>

abbreviation db_put :: "'s ext \<Rightarrow> 's DB \<Rightarrow> string \<Rightarrow> string \<Rightarrow> 's DB" where
  "db_put E d k v \<equiv> snd (DB_Put_str E d k v)"

abbreviation db_map :: "'s ext \<Rightarrow> 's DB \<Rightarrow> string \<rightharpoonup> string" where
  "db_map E d \<equiv> rocks_get E (rocks d)"

section \<open>The interface of a key-value store\<close>

text \<open>
  \<open>lawful\<close> says which environments keep the promise; \<open>contents\<close> is the map a client reads, \<open>put\<close>
  the operation it calls.
\<close>

locale kv_store =
  fixes lawful :: "'e \<Rightarrow> bool"
    and contents :: "'e \<Rightarrow> 'd \<Rightarrow> 'k \<rightharpoonup> 'v"
    and put :: "'e \<Rightarrow> 'd \<Rightarrow> 'k \<Rightarrow> 'v \<Rightarrow> 'd"
  assumes contents_put: "lawful e \<Longrightarrow> contents e (put e d k v) = (contents e d)(k \<mapsto> v)"
begin

lemma get_put_same: "lawful e \<Longrightarrow> contents e (put e d k v) k = Some v"
  by (simp add: contents_put)

lemma get_put_other: "lawful e \<Longrightarrow> k' \<noteq> k \<Longrightarrow> contents e (put e d k v) k' = contents e d k'"
  by (simp add: contents_put)

lemma put_put_commute: "lawful e \<Longrightarrow> k \<noteq> l \<Longrightarrow>
    contents e (put e (put e d k v) l w) = contents e (put e (put e d l w) k v)"
  by (auto simp: contents_put)

lemma contents_puts:
  assumes "lawful e"
  shows "contents e (foldl (\<lambda>d (k, v). put e d k v) d kvs) = contents e d ++ map_of (rev kvs)"
proof (induction kvs arbitrary: d)
  case Nil
  then show ?case by simp
next
  case (Cons kv kvs)
  obtain k v where "kv = (k, v)" by (cases kv)
  then show ?case using Cons.IH assms by (auto simp: contents_put map_add_def split: option.splits)
qed

lemma puts_frame:
  assumes "lawful e" "k' \<notin> fst ` set kvs"
  shows "contents e (foldl (\<lambda>d (k, v). put e d k v) d kvs) k' = contents e d k'"
proof -
  have "map_of (rev kvs) k' = None" using assms(2) by (simp add: map_of_eq_None_iff)
  then show ?thesis using assms(1) by (simp add: contents_puts map_add_def)
qed

end

lemma rocks_get_put: "ext_ok E \<Longrightarrow> rocks_get E (snd (rocks_put E s k v)) = (rocks_get E s)(k \<mapsto> v)"
  by (rule ext) (simp add: ext_ok_def)

interpretation DBkv: kv_store ext_ok db_map db_put
  by unfold_locales (simp add: DB_Put_str_def rocks_get_put case_prod_unfold Let_def)

lemmas db_map_put [simp] = DBkv.contents_put

section \<open>A reference environment\<close>

text \<open>
  The environment in which examples are evaluated: RocksDB as a finite map, and a positional
  64-byte checksum in place of BLAKE2b.
\<close>

definition sum_digest :: "string \<Rightarrow> string" where
  "sum_digest x = le_bytes 64 (foldl (\<lambda>a c. a * 257 + of_char c + 1) 0 x)"

definition map_ext :: "(string \<rightharpoonup> string) ext" where
  "map_ext = \<lparr>blake2b = sum_digest, rocks_get = (\<lambda>s k. s k), rocks_put = (\<lambda>s k v. (True, s(k \<mapsto> v)))\<rparr>"

abbreviation map_db :: "(string \<rightharpoonup> string) DB" where
  "map_db \<equiv> DB_Open Map.empty"

lemma ext_ok_map_ext [simp]: "ext_ok map_ext"
  by (simp add: ext_ok_def map_ext_def sum_digest_def)

section \<open>Lemmas\<close>

lemma memcmp_sign:
  "length a = n \<Longrightarrow> length b = n \<Longrightarrow>
   (memcmp a b n = 0 \<longleftrightarrow> a = b) \<and> (memcmp a b n < 0 \<longleftrightarrow> a < b)"
proof (induction a b n rule: memcmp.induct)
  case (2 x a y b n)
  then show ?case
    by (auto simp: less_char_def Cons_less_Cons)
qed auto

lemma memcmp_append: "length a = n \<Longrightarrow> length b = n \<Longrightarrow> memcmp (a @ c) (b @ d) n = memcmp a b n"
  by (induction a b n rule: memcmp.induct) auto

lemma string_less_append:
  "length a = length b \<Longrightarrow> (a @ c < b @ d) \<longleftrightarrow> a < b \<or> a = b \<and> c < (d :: string)"
  by (induction a b rule: list_induct2) (auto simp: Cons_less_Cons)

lemma Slice_cmp_decompose:
  obtains a' b' c d where "a = a' @ c" "b = b' @ d" "length a' = min (length a) (length b)"
    "length b' = min (length a) (length b)" "c = [] \<or> d = []"
proof -
  let ?n = "min (length a) (length b)"
  show ?thesis
    by (rule that [of "take ?n a" "drop ?n a" "take ?n b" "drop ?n b"]) auto
qed

lemma Slice_less_iff: "Slice_less a b \<longleftrightarrow> a < b"
proof -
  obtain a' b' c d where ab: "a = a' @ c" "b = b' @ d" and
    len: "length a' = min (length a) (length b)" "length b' = min (length a) (length b)" and
    cd: "c = [] \<or> d = []"
    by (rule Slice_cmp_decompose)
  have eq_len: "length a' = length b'" using len by simp
  have cmp: "memcmp a b (min (length a) (length b)) = memcmp a' b' (length a')"
    using ab len by (metis memcmp_append)
  have sign: "(memcmp a' b' (length a') = 0 \<longleftrightarrow> a' = b') \<and> (memcmp a' b' (length a') < 0 \<longleftrightarrow> a' < b')"
    using eq_len by (simp add: memcmp_sign)
  have order: "a < b \<longleftrightarrow> a' < b' \<or> a' = b' \<and> c < d"
    using string_less_append [OF eq_len] by (simp only: ab)
  have tail: "c < d \<longleftrightarrow> length a < length b"
    using cd eq_len by (cases c; cases d) (simp_all add: ab)
  show ?thesis
  proof (cases "a' = b'")
    case True
    then show ?thesis using cmp sign order tail by (simp add: Slice_less_def)
  next
    case False
    then show ?thesis using cmp sign order by (simp add: Slice_less_def)
  qed
qed

lemma memcmp_flip: "length a = n \<Longrightarrow> length b = n \<Longrightarrow> memcmp b a n = - memcmp a b n"
  by (induction a b n rule: memcmp.induct) auto

lemma Slice_greater_flip: "Slice_greater a b \<longleftrightarrow> Slice_less b a"
proof -
  obtain a' b' c d where *: "a = a' @ c" "b = b' @ d" "length a' = min (length a) (length b)"
    "length b' = min (length a) (length b)"
    by (rule Slice_cmp_decompose)
  then have "memcmp b a (min (length b) (length a)) = - memcmp a b (min (length a) (length b))"
    by (metis memcmp_append memcmp_flip min.commute)
  then show ?thesis by (auto simp: Slice_greater_def Slice_less_def Let_def)
qed

lemma Slice_greater_iff: "Slice_greater a b \<longleftrightarrow> b < a"
  by (simp add: Slice_greater_flip Slice_less_iff)

lemma Slice_eq_iff: "Slice_eq a b \<longleftrightarrow> a = b"
  using memcmp_sign [of a "length a" b] by (auto simp: Slice_eq_def)

lemmas slice_order [simp] = Slice_less_iff Slice_greater_iff Slice_eq_iff

lemma ctype_of_code [simp]: "ctype_of (ctype_code ty) = ty"
  by (cases ty) (simp_all add: ctype_of_def)

lemma ctype_code_bound: "ctype_code ty < 256"
  by (cases ty) simp_all

lemma chunk_type_new [simp, codec_simps]: "chunk_type (Chunk_new ty data) = ty"
  using ctype_code_bound [of ty] by (simp add: chunk_type_def Chunk_new_def head_def)

lemma numBytes_new [simp, codec_simps]:
  "length data + 5 < 2 ^ 32 \<Longrightarrow> numBytes (Chunk_new ty data) = 5 + length data"
  by (simp add: numBytes_def Chunk_new_def head_def kMetaLength_def)

lemma chunk_data_new [simp, codec_simps]: "chunk_data (Chunk_new ty data) = data"
  by (simp add: chunk_data_def Chunk_new_def head_def kMetaLength_def)

lemma chunk_bytes_new:
  "length data + 5 < 2 ^ 32 \<Longrightarrow> chunk_bytes (Chunk_new ty data) = head (Chunk_new ty data)"
  by (simp add: chunk_bytes_def) (simp add: Chunk_new_def head_def)

lemma Chunk_new_not_empty [simp]: "\<not> Chunk_empty (Chunk_new ty data)"
  by (simp add: Chunk_empty_def Chunk_new_def)

lemma DB_Get_str_put [simp]:
  "ext_ok E \<Longrightarrow> DB_Get_str E (db_put E d k v) k' = (if k' = k then v else DB_Get_str E d k')"
  by (simp add: DB_Get_str_def DB_Get_def)

lemma DB_Get_str_Some: "db_map E d k = Some v \<Longrightarrow> DB_Get_str E d k = v"
  by (simp add: DB_Get_str_def DB_Get_def)

lemma DB_Put_chunk_map [simp]:
  "ext_ok E \<Longrightarrow> db_map E (snd (DB_Put_chunk E d k c)) = (db_map E d)(k \<mapsto> chunk_bytes c)"
  by (simp add: DB_Put_chunk_def rocks_get_put case_prod_unfold Let_def)

lemma DB_Put_hash_map [simp]:
  "ext_ok E \<Longrightarrow> db_map E (snd (DB_Put_hash E d h c)) = (db_map E d)(hval h \<mapsto> chunk_bytes c)"
  by (simp add: DB_Put_hash_def rocks_get_put case_prod_unfold Let_def)

text \<open>A chunk written under a string key is read back, whatever was cached before.\<close>

lemma DB_Get_chunk_after_put:
  assumes "ext_ok E"
  shows "fst (DB_Get_chunk E (snd (DB_Put_chunk E d k c)) k) = Some (chunk_bytes c)"
proof -
  have "m_cache (snd (DB_Put_chunk E d k c)) k = None"
    by (simp add: DB_Put_chunk_def Let_def split: prod.splits)
  then show ?thesis using assms by (simp add: DB_Get_chunk_def Let_def)
qed

lemma DB_Get_hash_miss_is_sticky:
  assumes "ext_ok E" "cache d (ToBase32 h) = None" "db_map E d (hval h) = None"
  shows "fst (DB_Get_hash E (snd (DB_Put_hash E (snd (DB_Get_hash E d h)) h c)) h) = None"
  using assms
  by (simp add: DB_Get_hash_def DB_GetChunk_def DB_Put_hash_def Let_def split: prod.splits)

end
