(* ===== verification/Hash_Tree.thy ===== *)
theory Hash_Tree
  imports Store
begin

text \<open>
  The specification of a binary hash tree over a list of leaves, without storage: the levels, the
  root, and the path from a leaf to the root.  The stored trees of LedgerDB (\<open>merkletree.cc\<close>) and
  of SQL Ledger (\<open>sqlldg_mt.cc\<close>) are shown to compute this tree; the struct \<open>Proof\<close> and the loop
  of \<open>Proof::Verify\<close>, which the two files share word for word, are modelled here.
\<close>

section \<open>The tree\<close>

fun parents :: "'s ext \<Rightarrow> string list \<Rightarrow> string list" where
  "parents E [] = []"
| "parents E [x] = [hval (ComputeFrom E x)]"
| "parents E (x # y # zs) = hval (ComputeFrom E (x @ y)) # parents E zs"

definition tree_level :: "'s ext \<Rightarrow> string list \<Rightarrow> nat \<Rightarrow> string list" where
  "tree_level E xs k = (parents E ^^ k) xs"

fun height :: "nat \<Rightarrow> nat" where
  "height n = (if n \<le> 1 then 0 else Suc (height ((n + 1) div 2)))"

declare height.simps [simp del]

definition tree_root :: "'s ext \<Rightarrow> string list \<Rightarrow> string" where
  "tree_root E xs = hd (tree_level E xs (height (length xs)))"

text \<open>The sibling on each level of the way up from leaf \<open>j\<close>: on the left, on the right, or none.\<close>

datatype sibling = Left_sib string | Right_sib string | No_sib

definition sibling_at :: "'s ext \<Rightarrow> string list \<Rightarrow> nat \<Rightarrow> nat \<Rightarrow> sibling" where
  "sibling_at E xs j k = (let l = tree_level E xs k; p = j div 2 ^ k in
     if p mod 2 = 1 then Left_sib (l ! (p - 1))
     else if p + 1 < length l then Right_sib (l ! (p + 1)) else No_sib)"

fun climb_step :: "'s ext \<Rightarrow> sibling \<Rightarrow> string \<Rightarrow> string" where
  "climb_step E (Left_sib s) x = hval (ComputeFrom E (s @ x))"
| "climb_step E (Right_sib s) x = hval (ComputeFrom E (x @ s))"
| "climb_step E No_sib x = hval (ComputeFrom E x)"

definition climb :: "'s ext \<Rightarrow> sibling list \<Rightarrow> string \<Rightarrow> string" where
  "climb E sibs x = fold (climb_step E) sibs x"

section \<open>The struct Proof and its check\<close>

record Proof =
  digest :: string
  pvalue :: string
  proof_hashes :: "string list"
  pos :: "nat list"

text \<open>
  The loop of \<open>Proof::Verify\<close>; \<open>pos[i]\<close> with \<open>pos\<close> shorter than \<open>proof\<close> is out of bounds.
\<close>

fun Verify_loop :: "'s ext \<Rightarrow> string list \<Rightarrow> nat list \<Rightarrow> Hash \<Rightarrow> Hash result" where
  "Verify_loop E [] ps calc = Inr calc"
| "Verify_loop E (s # ss) [] calc = Inl Out_of_bounds"
| "Verify_loop E (s # ss) (p # ps) calc =
     (let proof_hash = FromBase32 s in
      Verify_loop E ss ps
        (if p = 0 then ComputeFrom E (hval proof_hash @ hval calc)
         else if length s > 0 then ComputeFrom E (hval calc @ hval proof_hash)
         else ComputeFrom E (hval calc)))"

section \<open>Shape of the levels\<close>

lemma length_parents: "length (parents E xs) = (length xs + 1) div 2"
  by (induction E xs rule: parents.induct) auto

lemma parents_nth:
  "j < (length xs + 1) div 2 \<Longrightarrow> parents E xs ! j =
     (if 2 * j + 1 < length xs then hval (ComputeFrom E (xs ! (2 * j) @ xs ! (2 * j + 1)))
      else hval (ComputeFrom E (xs ! (2 * j))))"
proof (induction E xs arbitrary: j rule: parents.induct)
  case (3 E x y zs)
  then show ?case by (cases j) auto
qed auto

lemma parents_drop: "parents E (drop (2 * m) xs) = drop m (parents E xs)"
proof (induction m arbitrary: xs)
  case 0
  then show ?case by simp
next
  case (Suc m)
  show ?case
    using Suc.IH by (cases "(E, xs)" rule: parents.cases) auto
qed

lemma tree_level_0 [simp]: "tree_level E xs 0 = xs"
  by (simp add: tree_level_def)

lemma tree_level_Suc: "tree_level E xs (Suc k) = parents E (tree_level E xs k)"
  by (simp add: tree_level_def)

lemma ceil_div_Suc:
  fixes n :: nat
  shows "((n + 2 ^ k - 1) div 2 ^ k + 1) div 2 = (n + 2 ^ Suc k - 1) div 2 ^ Suc k"
proof -
  have "((n + 2 ^ k - 1) div 2 ^ k + 1) = (n + 2 ^ Suc k - 1) div 2 ^ k"
  proof -
    have "n + 2 ^ Suc k - 1 = (n + 2 ^ k - 1) + 2 ^ k" by simp
    then show ?thesis using div_add_self2 [of "2 ^ k" "n + 2 ^ k - 1"] by simp
  qed
  then show ?thesis by (metis div_mult2_eq power_Suc2)
qed

lemma length_tree_level: "length (tree_level E xs k) = (length xs + 2 ^ k - 1) div 2 ^ k"
proof (induction k)
  case 0
  then show ?case by simp
next
  case (Suc k)
  then show ?case using ceil_div_Suc [of "length xs" k] by (simp only: tree_level_Suc length_parents)
qed

lemma length_tree_level_pos: "xs \<noteq> [] \<Longrightarrow> 0 < length (tree_level E xs k)"
proof -
  assume "xs \<noteq> []"
  then have "1 \<le> length xs" by (simp add: Suc_leI)
  then have "2 ^ k \<le> length xs + 2 ^ k - 1" by linarith
  then show ?thesis by (simp add: length_tree_level div_greater_zero_iff)
qed

lemma less_length_tree_level: "j < length (tree_level E xs k) \<longleftrightarrow> j * 2 ^ k < length xs"
proof -
  let ?p = "2 ^ k :: nat"
  have "j < (length xs + ?p - 1) div ?p \<longleftrightarrow> Suc j * ?p \<le> length xs + ?p - 1"
    by (metis Suc_le_eq less_eq_div_iff_mult_less_eq zero_less_numeral zero_less_power)
  also have "\<dots> \<longleftrightarrow> j * ?p + ?p < length xs + ?p"
    by (cases ?p) auto
  finally show ?thesis by (simp add: length_tree_level)
qed

lemma tree_level_20:
  assumes "ext_ok E" "\<forall>x\<in>set xs. length x = 20" "x \<in> set (tree_level E xs k)"
  shows "length x = 20"
proof -
  have parents20: "\<forall>x\<in>set (parents E ys). length x = 20" for ys
    using assms(1) by (induction E ys rule: parents.induct) auto
  show ?thesis
    using assms(2,3) parents20 by (cases k) (auto simp: tree_level_Suc)
qed

lemma tree_level_Suc_nth:
  assumes "(j + 1) * 2 ^ Suc k \<le> length xs"
  shows "tree_level E xs (Suc k) ! j =
    hval (ComputeFrom E (tree_level E xs k ! (2 * j) @ tree_level E xs k ! (2 * j + 1)))"
proof -
  have "(2 * j + 1) * 2 ^ k < length xs"
  proof -
    have "(2 * j + 1) * 2 ^ k < (2 * j + 2) * (2 :: nat) ^ k" by simp
    also have "\<dots> \<le> length xs" using assms by (simp add: algebra_simps)
    finally show ?thesis .
  qed
  then have lt: "2 * j + 1 < length (tree_level E xs k)" by (simp only: less_length_tree_level)
  then have "j < (length (tree_level E xs k) + 1) div 2" by linarith
  then show ?thesis using lt by (simp add: tree_level_Suc parents_nth)
qed

text \<open>A node that is complete over \<open>xs\<close> does not change when leaves are appended.\<close>

lemma tree_level_append:
  "(j + 1) * 2 ^ k \<le> length xs \<Longrightarrow> tree_level E (xs @ ys) k ! j = tree_level E xs k ! j"
proof (induction k arbitrary: j)
  case 0
  then show ?case by (simp add: nth_append)
next
  case (Suc k)
  have left: "(2 * j + 1) * 2 ^ k \<le> length xs" and right: "(2 * j + 1 + 1) * 2 ^ k \<le> length xs"
    using Suc.prems by (simp_all add: algebra_simps)
  have "(j + 1) * 2 ^ Suc k \<le> length (xs @ ys)" using Suc.prems by simp
  then have "tree_level E (xs @ ys) (Suc k) ! j = hval (ComputeFrom E
      (tree_level E (xs @ ys) k ! (2 * j) @ tree_level E (xs @ ys) k ! (2 * j + 1)))"
    by (rule tree_level_Suc_nth)
  also have "\<dots> = tree_level E xs (Suc k) ! j"
    using Suc.IH [OF left] Suc.IH [OF right] tree_level_Suc_nth [OF Suc.prems, of E] by simp
  finally show ?case .
qed

section \<open>Height and root\<close>

lemma height_le_iff: "height n \<le> k \<longleftrightarrow> n \<le> 2 ^ k"
proof (induction n arbitrary: k rule: height.induct)
  case (1 n)
  show ?case
  proof (cases "n \<le> 1")
    case True
    then have "n \<le> 2 ^ k" by (meson le_trans one_le_numeral one_le_power)
    with True show ?thesis by (simp add: height.simps)
  next
    case False
    then have h: "height n = Suc (height ((n + 1) div 2))" by (simp add: height.simps)
    show ?thesis
    proof (cases k)
      case 0
      with False h show ?thesis by simp
    next
      case (Suc k')
      have "height ((n + 1) div 2) \<le> k' \<longleftrightarrow> (n + 1) div 2 \<le> 2 ^ k'" using 1 False by blast
      also have "\<dots> \<longleftrightarrow> n \<le> 2 ^ Suc k'" by (simp; linarith)
      finally show ?thesis using Suc h by simp
    qed
  qed
qed

lemma tree_level_height:
  assumes "xs \<noteq> []"
  shows "tree_level E xs (height (length xs)) = [tree_root E xs]"
proof -
  let ?l = "tree_level E xs (height (length xs))"
  have "length xs \<le> 2 ^ height (length xs)" using height_le_iff by blast
  then have "\<not> 1 < length ?l" by (simp add: less_length_tree_level)
  moreover have "0 < length ?l" using assms by (rule length_tree_level_pos)
  ultimately have "length ?l = 1" by linarith
  then show ?thesis by (simp add: tree_root_def) (metis One_nat_def length_0_conv length_Suc_conv list.sel(1))
qed

section \<open>Paths\<close>

lemma half_odd: "p mod 2 = 1 \<Longrightarrow> 2 * (p div 2) = p - 1 \<and> 2 * (p div 2) + 1 = (p :: nat)"
  by presburger

lemma half_even: "p mod 2 \<noteq> 1 \<Longrightarrow> 2 * (p div 2) = (p :: nat)"
  by presburger

lemma climb_step_sibling:
  assumes "j < length xs"
  shows "climb_step E (sibling_at E xs j k) (tree_level E xs k ! (j div 2 ^ k)) =
    tree_level E xs (Suc k) ! (j div 2 ^ Suc k)"
proof -
  let ?l = "tree_level E xs k" and ?p = "j div 2 ^ k"
  have "?p * 2 ^ k \<le> j" by (rule div_times_less_eq_dividend)
  then have "?p * 2 ^ k < length xs" using assms by (rule le_less_trans)
  then have p: "?p < length ?l" by (simp only: less_length_tree_level)
  have q: "j div 2 ^ Suc k = ?p div 2" by (metis div_mult2_eq power_Suc2)
  have lt: "?p div 2 < (length ?l + 1) div 2" using p by linarith
  have par: "tree_level E xs (Suc k) ! (?p div 2) =
    (if 2 * (?p div 2) + 1 < length ?l
     then hval (ComputeFrom E (?l ! (2 * (?p div 2)) @ ?l ! (2 * (?p div 2) + 1)))
     else hval (ComputeFrom E (?l ! (2 * (?p div 2)))))"
    using parents_nth [OF lt] by (simp only: tree_level_Suc)
  show ?thesis
  proof (cases "?p mod 2 = 1")
    case True
    then have o: "2 * (?p div 2) = ?p - 1" "2 * (?p div 2) + 1 = ?p"
      using half_odd [of ?p] by auto
    show ?thesis unfolding q par o using True p by (simp add: sibling_at_def Let_def)
  next
    case False
    then have e: "2 * (?p div 2) = ?p" by (rule half_even)
    show ?thesis unfolding q par e using False by (simp add: sibling_at_def Let_def)
  qed
qed

lemma climb_path:
  assumes "j < length xs"
  shows "climb E (map (sibling_at E xs j) [0..<k]) (xs ! j) = tree_level E xs k ! (j div 2 ^ k)"
proof (induction k)
  case 0
  then show ?case by (simp add: climb_def)
next
  case (Suc k)
  then show ?case using climb_step_sibling [OF assms] by (simp add: climb_def)
qed

lemma climb_to_root:
  assumes "j < length xs"
  shows "climb E (map (sibling_at E xs j) [0..<height (length xs)]) (xs ! j) = tree_root E xs"
proof -
  have ne: "xs \<noteq> []" using assms by auto
  have "j div 2 ^ height (length xs) = 0"
    using assms height_le_iff [of "length xs"] by (meson div_less le_refl less_le_trans)
  then show ?thesis
    using climb_path [OF assms, of E "height (length xs)"] tree_level_height [OF ne, of E] by simp
qed

section \<open>Soundness of climbing\<close>

text \<open>
  The byte strings hashed on the way up.  When the hash has no collision among them, the end of
  the climb determines its start: the leaf cannot be replaced.
\<close>

fun climb_input :: "sibling \<Rightarrow> string \<Rightarrow> string" where
  "climb_input (Left_sib s) x = s @ x"
| "climb_input (Right_sib s) x = x @ s"
| "climb_input No_sib x = x"

fun climb_inputs :: "'s ext \<Rightarrow> sibling list \<Rightarrow> string \<Rightarrow> string set" where
  "climb_inputs E [] x = {}"
| "climb_inputs E (s # ss) x = insert (climb_input s x) (climb_inputs E ss (climb_step E s x))"

text \<open>Two paths take the same turns: siblings may differ in content but not in side.\<close>

fun same_side :: "sibling \<Rightarrow> sibling \<Rightarrow> bool" where
  "same_side (Left_sib s) (Left_sib t) = (length s = length t)"
| "same_side (Right_sib s) (Right_sib t) = (length s = length t)"
| "same_side No_sib No_sib = True"
| "same_side _ _ = False"

lemma climb_step_input: "climb_step E s x = hval (ComputeFrom E (climb_input s x))"
  by (cases s) auto

lemma climb_input_inject:
  "same_side s t \<Longrightarrow> length x = length y \<Longrightarrow> climb_input s x = climb_input t y \<Longrightarrow> s = t \<and> x = y"
  by (cases s; cases t) auto

lemma climb_sound:
  assumes "ext_ok E"
    and "list_all2 same_side ss ts"
    and "length x = length y"
    and "inj_on (\<lambda>b. hval (ComputeFrom E b)) (climb_inputs E ss x \<union> climb_inputs E ts y)"
    and "climb E ss x = climb E ts y"
  shows "x = y \<and> ss = ts"
  using assms(2-)
proof (induction ss ts arbitrary: x y rule: list_all2_induct)
  case Nil
  then show ?case by (simp add: climb_def)
next
  case (Cons s ss t ts)
  let ?x = "climb_step E s x" and ?y = "climb_step E t y"
  have len: "length ?x = length ?y" using assms(1) by (simp add: climb_step_input)
  have inj: "inj_on (\<lambda>b. hval (ComputeFrom E b)) (climb_inputs E ss ?x \<union> climb_inputs E ts ?y)"
    using Cons.prems(2) by (rule inj_on_subset) auto
  have "climb E ss ?x = climb E ts ?y" using Cons.prems(3) by (simp add: climb_def)
  with Cons.IH [OF len inj] have IH: "?x = ?y" "ss = ts" by auto
  have "climb_input s x = climb_input t y"
    using inj_onD [OF Cons.prems(2), of "climb_input s x" "climb_input t y"] IH(1)
    by (simp add: climb_step_input)
  with climb_input_inject Cons.hyps(1) Cons.prems(1) IH(2) show ?case by blast
qed

end
