(* ===== verification/Merkle_Tree.thy ===== *)
theory Merkle_Tree
  imports Hash_Tree
begin

text \<open>
  \<open>ledger/ledgerdb/merkletree.cc\<close>: the batched Merkle tree (bAMT) of LedgerDB.  Nodes are stored
  under the keys \<open>mt<level>-<index>\<close>; a node whose subtree is not yet full carries the number of
  the commit that wrote it as a suffix.  \<open>update\<close> appends a batch of leaf hashes, \<open>getProof\<close>
  reads an inclusion proof, \<open>Proof::Verify\<close> checks one.  Shown here: \<open>update\<close> returns the root of
  the tree over all leaves appended so far, every leaf's proof verifies, and a proof that verifies
  against that root can only be for the leaf at its position.
\<close>

section \<open>Model\<close>

definition mt_key :: "nat \<Rightarrow> nat \<Rightarrow> string" where
  "mt_key level idx = ''mt'' @ to_string level @ ''-'' @ to_string idx"

fun mt_put_leaves :: "'s ext \<Rightarrow> 's DB \<Rightarrow> nat \<Rightarrow> string list \<Rightarrow> 's DB" where
  "mt_put_leaves E d seq [] = d"
| "mt_put_leaves E d seq (h # hs) =
     mt_put_leaves E (db_put E d (''mt0-'' @ to_string seq) h) (seq + 1) hs"

text \<open>
  The inner loop over pairs.  \<open>seq\<close> is \<open>level_starting_seq + i\<close>; the test
  \<open>i + 1 == level_hashes.size() - 1\<close> says that nothing follows the pair.
\<close>

fun mt_parents :: "'s ext \<Rightarrow> string \<Rightarrow> nat \<Rightarrow> nat \<Rightarrow> Hash list \<Rightarrow> 's DB \<Rightarrow> bool
    \<Rightarrow> Hash list \<times> 's DB \<times> bool" where
  "mt_parents E commit_seq level seq [] d complete = ([], d, complete)"
| "mt_parents E commit_seq level seq [h] d complete =
     (let parent = ComputeFrom E (hval h);
          parent_key = mt_key (level + 1) (seq div 2) @ ''-'' @ commit_seq
      in ([Hash_Clone parent], db_put E d parent_key (ToBase32 parent), False))"
| "mt_parents E commit_seq level seq (h1 # h2 # hs) d complete =
     (let parent = ComputeFrom E (hval h1 @ hval h2);
          parent_key = mt_key (level + 1) (seq div 2) @
            (if hs = [] \<and> \<not> complete then ''-'' @ commit_seq else []);
          (ps, d', complete') =
            mt_parents E commit_seq level (seq + 2) hs (db_put E d parent_key (ToBase32 parent)) complete
      in (Hash_Clone parent # ps, d', complete'))"

lemma length_mt_parents [simp]:
  "length (fst (mt_parents E cs level seq hs d c)) = (length hs + 1) div 2"
  by (induction E cs level seq hs d c rule: mt_parents.induct) (auto simp: Let_def case_prod_unfold)

text \<open>The part of the outer loop that loads the previous hash when the level starts at an odd place.\<close>

definition mt_load_prev :: "'s ext \<Rightarrow> string \<Rightarrow> nat \<Rightarrow> nat \<Rightarrow> bool \<Rightarrow> Hash list \<Rightarrow> 's DB
    \<Rightarrow> Hash list \<times> nat \<times> bool" where
  "mt_load_prev E prev_commit_seq level lss prev_complete hs d =
     (if lss mod 2 = 1 then
        (let prev_key = mt_key level (lss - 1) @
               (if level > 0 \<and> \<not> prev_complete then ''-'' @ prev_commit_seq else []);
             prev_hash = DB_Get_str E d prev_key;
             lss' = lss - 1
         in (FromBase32 prev_hash # hs, lss', if lss' > 1 then (lss' - 1) mod 2 = 1 else True))
      else (hs, lss, prev_complete))"

function mt_loop :: "'s ext \<Rightarrow> string \<Rightarrow> string \<Rightarrow> nat \<Rightarrow> nat \<Rightarrow> bool \<Rightarrow> bool \<Rightarrow> Hash list \<Rightarrow> 's DB
    \<Rightarrow> nat \<times> bool \<times> Hash list \<times> 's DB" where
  "mt_loop E prev_commit_seq commit_seq level lss prev_complete complete hs d =
     (if length hs > 1 \<or> lss > 0 then
        (let (hs1, lss1, prev_complete1) = mt_load_prev E prev_commit_seq level lss prev_complete hs d;
             (ps, d1, complete1) = mt_parents E commit_seq level lss1 hs1 d complete
         in mt_loop E prev_commit_seq commit_seq (level + 1) (lss1 div 2) prev_complete1 complete1 ps d1)
      else (level, complete, hs, d))"
  by pat_completeness auto
termination
proof (relation "measure (\<lambda>(E, p, c, level, lss, pc, cp, hs, d). 2 * lss + length hs)", goal_cases)
  case (2 E p c level lss pc cp hs d x hs1 y lss1 pc1 z ps w d1 cp1)
  then have "length ps = (length hs1 + 1) div 2"
    by (metis fst_conv length_mt_parents)
  moreover have "length hs1 = length hs + lss mod 2" "lss1 = lss - lss mod 2"
    using 2 by (auto simp: mt_load_prev_def Let_def split: if_splits)
  ultimately have "2 * (lss1 div 2) + length ps < 2 * lss + length hs"
    using 2(1) by (cases "lss = 0") auto
  then show ?case by simp
qed simp

declare mt_loop.simps [simp del]

definition mt_next_commit :: "string \<Rightarrow> string result" where
  "mt_next_commit prev_commit_seq =
     (if length prev_commit_seq = 0 then Inr ''0''
      else rbind (stoul prev_commit_seq) (\<lambda>n. Inr (to_string ((n + 1) mod 2 ^ 64))))"

text \<open>\<open>MerkleTree::update\<close>: the new store, \<open>root_key\<close> and \<open>root_hash\<close>.\<close>

definition mt_update :: "'s ext \<Rightarrow> 's DB \<Rightarrow> nat \<Rightarrow> string list \<Rightarrow> string
    \<Rightarrow> ('s DB \<times> string \<times> string) result" where
  "mt_update E d starting_block_seq leaf_block_hashes prev_commit_seq =
     (let prev_complete = (if starting_block_seq > 1 then (starting_block_seq - 1) mod 2 = 1 else True);
          d1 = mt_put_leaves E d starting_block_seq leaf_block_hashes;
          level_hashes = map FromBase32 leaf_block_hashes
      in rbind (mt_next_commit prev_commit_seq) (\<lambda>commit_seq.
           let (level, complete, hs, d2) =
                 mt_loop E prev_commit_seq commit_seq 0 starting_block_seq prev_complete True level_hashes d1;
               root_key = ''mt'' @ to_string level @ ''-0'' @ (if complete then [] else ''-'' @ commit_seq)
           in rbind (vec_at hs 0) (\<lambda>h. Inr (d2, root_key, ToBase32 h))))"

text \<open>The loop of \<open>getProof\<close> from level \<open>i\<close> on, with \<open>n\<close> levels to go.\<close>

fun mt_proof_loop :: "'s ext \<Rightarrow> 's DB \<Rightarrow> string \<Rightarrow> nat \<Rightarrow> nat \<Rightarrow> nat \<Rightarrow> nat \<Rightarrow> bool
    \<Rightarrow> (string \<times> nat) list" where
  "mt_proof_loop E d commit_seq 0 i ptr lst complete = []"
| "mt_proof_loop E d commit_seq (Suc n) i ptr lst complete =
     (let entry =
        (if ptr mod 2 = 0 then
           (if ptr = lst then []
            else DB_Get_str E d (mt_key i (ptr + 1) @
              (if ptr + 1 = lst \<and> i > 0 \<and> \<not> complete then ''-'' @ commit_seq else [])), 1)
         else (DB_Get_str E d (mt_key i (ptr - 1)), 0))
      in entry # mt_proof_loop E d commit_seq n (i + 1) (ptr div 2) (lst div 2)
           (complete \<and> (lst div 2) mod 2 = 1))"

definition mt_getProof :: "'s ext \<Rightarrow> 's DB \<Rightarrow> string \<Rightarrow> string \<Rightarrow> nat \<Rightarrow> nat \<Rightarrow> Proof result" where
  "mt_getProof E d commit_seq root_key tip seq =
     (if length root_key < 2 then Inl Out_of_range
      else
        let level_str = (case find_char (CHR ''-'') root_key of
              Some delim \<Rightarrow> substr root_key 2 (delim - 2) | None \<Rightarrow> drop 2 root_key)
        in rbind (stoi level_str) (\<lambda>level.
             let entries = mt_proof_loop E d commit_seq (nat level) 0 seq tip (tip mod 2 = 1)
             in Inr \<lparr>digest = DB_Get_str E d root_key,
                     pvalue = DB_Get_str E d (''mt0-'' @ to_string seq),
                     proof_hashes = map fst entries, pos = map snd entries\<rparr>))"

definition mt_Verify :: "'s ext \<Rightarrow> Proof \<Rightarrow> bool result" where
  "mt_Verify E p = rbind (Verify_loop E (proof_hashes p) (pos p) (FromBase32 (pvalue p)))
     (\<lambda>calc_hash. Inr (Hash_eq calc_hash (FromBase32 (digest p))))"

section \<open>What the store holds\<close>

abbreviation b32 :: "string \<Rightarrow> string" where
  "b32 x \<equiv> ToBase32 (Some x)"

text \<open>Every full node over the leaves is stored under its plain key.\<close>

definition mt_stored :: "'s ext \<Rightarrow> 's DB \<Rightarrow> string list \<Rightarrow> bool" where
  "mt_stored E d xs \<longleftrightarrow> (\<forall>k j. (j + 1) * 2 ^ k \<le> length xs \<longrightarrow>
     db_map E d (mt_key k j) = Some (b32 (tree_level E xs k ! j)))"

text \<open>The last node of a level, when it is not full, is stored with the suffix of the commit.\<close>

definition mt_tip :: "'s ext \<Rightarrow> 's DB \<Rightarrow> string \<Rightarrow> string list \<Rightarrow> bool" where
  "mt_tip E d cs xs \<longleftrightarrow> (\<forall>k. 0 < k \<and> k \<le> height (length xs) \<and> \<not> 2 ^ k dvd length xs \<longrightarrow>
     db_map E d (mt_key k (length xs div 2 ^ k) @ ''-'' @ cs) =
       Some (b32 (tree_level E xs k ! (length xs div 2 ^ k))))"

definition hashes20 :: "string list \<Rightarrow> bool" where
  "hashes20 xs \<longleftrightarrow> (\<forall>x\<in>set xs. length x = 20)"

section \<open>Keys\<close>

lemma mt_key_inject [key_simps]: "mt_key k j = mt_key k' j' \<longleftrightarrow> k = k' \<and> j = j'"
  using sep_unique [of "CHR ''-''" "to_string k" "to_string k'"] by (simp add: mt_key_def)

lemma mt_key_suffix_inject [key_simps]:
  "mt_key k j @ ''-'' @ cs = mt_key k' j' @ ''-'' @ cs' \<longleftrightarrow> k = k' \<and> j = j' \<and> cs = cs'"
  using sep_unique [of "CHR ''-''" "to_string k" "to_string k'"]
    sep_unique [of "CHR ''-''" "to_string j" "to_string j'"]
  by (auto simp: mt_key_def)

lemma mt_key_suffix_neq [key_simps]:
  "mt_key k j \<noteq> mt_key k' j' @ ''-'' @ cs" "mt_key k' j' @ ''-'' @ cs \<noteq> mt_key k j"
proof -
  show "mt_key k j \<noteq> mt_key k' j' @ ''-'' @ cs"
  proof
    assume "mt_key k j = mt_key k' j' @ ''-'' @ cs"
    then have "to_string k @ CHR ''-'' # to_string j =
        to_string k' @ CHR ''-'' # to_string j' @ CHR ''-'' # cs"
      by (simp add: mt_key_def)
    then have "to_string j = to_string j' @ CHR ''-'' # cs"
      using sep_unique [of "CHR ''-''" "to_string k" "to_string k'"] by simp
    then have "CHR ''-'' \<in> set (to_string j)" by simp
    then show False by simp
  qed
  then show "mt_key k' j' @ ''-'' @ cs \<noteq> mt_key k j" by metis
qed

lemma to_string_0: "to_string 0 = ''0''"
  by code_simp

lemma mt0_key: "''mt0-'' @ to_string j = mt_key 0 j"
  by (simp add: mt_key_def to_string_0)

lemma mt_put_leaves_Cons:
  "mt_put_leaves E d seq (h # hs) = mt_put_leaves E (db_put E d (mt_key 0 seq) h) (seq + 1) hs"
  by (simp only: mt_put_leaves.simps mt0_key)

section \<open>Appending a batch\<close>

lemma mt_put_leaves_map:
  assumes "ext_ok E"
  shows "i < length hs \<Longrightarrow> db_map E (mt_put_leaves E d seq hs) (mt_key 0 (seq + i)) = Some (hs ! i)"
    and "(\<And>i. i < length hs \<Longrightarrow> key \<noteq> mt_key 0 (seq + i)) \<Longrightarrow>
      db_map E (mt_put_leaves E d seq hs) key = db_map E d key"
proof -
  show frame: "(\<And>i. i < length hs \<Longrightarrow> key \<noteq> mt_key 0 (seq + i)) \<Longrightarrow>
      db_map E (mt_put_leaves E d seq hs) key = db_map E d key" for d seq hs key
  proof (induction hs arbitrary: d seq)
    case Nil
    then show ?case by simp
  next
    case (Cons h hs)
    have "key \<noteq> mt_key 0 (seq + 1 + i)" if "i < length hs" for i
      using Cons.prems [of "Suc i"] that by simp
    then show ?case
      using Cons.IH [where seq = "seq + 1"] Cons.prems [of 0] assms
      by (simp add: mt_put_leaves_Cons del: mt_put_leaves.simps(2))
  qed
  show "i < length hs \<Longrightarrow> db_map E (mt_put_leaves E d seq hs) (mt_key 0 (seq + i)) = Some (hs ! i)"
  proof (induction hs arbitrary: d seq i)
    case Nil
    then show ?case by simp
  next
    case (Cons h hs)
    show ?case
    proof (cases i)
      case 0
      then show ?thesis
        using frame [of hs "mt_key 0 seq" "seq + 1"] assms
        by (simp add: mt_put_leaves_Cons mt_key_inject del: mt_put_leaves.simps(2))
    next
      case (Suc i')
      then show ?thesis using Cons.IH [of i' _ "seq + 1"] Cons.prems
        by (simp add: mt_put_leaves_Cons del: mt_put_leaves.simps(2))
    qed
  qed
qed

text \<open>The key the inner loop writes the \<open>j\<close>-th of \<open>n\<close> parents to.\<close>

definition mt_pkey :: "string \<Rightarrow> nat \<Rightarrow> nat \<Rightarrow> bool \<Rightarrow> nat \<Rightarrow> nat \<Rightarrow> string" where
  "mt_pkey cs level base complete n j =
     mt_key (level + 1) (base + j) @ (if j + 1 = n \<and> \<not> complete then ''-'' @ cs else [])"

lemma mt_pkey_Suc: "mt_pkey cs level base c (Suc n) (Suc j) = mt_pkey cs level (base + 1) c n j"
  by (simp add: mt_pkey_def)

lemma mt_pkey_inject: "mt_pkey cs level base c n i = mt_pkey cs level base c n j \<longleftrightarrow> i = j"
  using mt_key_suffix_inject [where k = "level + 1" and k' = "level + 1" and cs = cs and cs' = cs]
    mt_key_suffix_neq [where k = "level + 1" and k' = "level + 1" and cs = cs]
  by (auto simp: mt_pkey_def mt_key_inject)

lemma Hash_Clone_ComputeFrom [simp]: "Hash_Clone (ComputeFrom E x) = Some (hval (ComputeFrom E x))"
  by (simp add: Hash_Clone_def Hash_empty_def ComputeFrom_def)

lemma ToBase32_ComputeFrom: "ToBase32 (ComputeFrom E x) = b32 (hval (ComputeFrom E x))"
  using ComputeFrom_Some by metis

lemma mt_parents_hashes:
  "ext_ok E \<Longrightarrow> hashes20 bs \<Longrightarrow> fst (mt_parents E cs level seq (map Some bs) d c) = map Some (parents E bs)"
proof (induction E bs arbitrary: seq d rule: parents.induct)
  case (3 E x y zs)
  then show ?case by (simp add: Let_def case_prod_unfold hashes20_def)
qed (simp_all add: hashes20_def Let_def)

lemma mt_parents_complete:
  "snd (snd (mt_parents E cs level seq hs d c)) \<longleftrightarrow> c \<and> even (length hs)"
  by (induction E cs level seq hs d c rule: mt_parents.induct) (auto simp: Let_def case_prod_unfold)

lemma mt_parents_frame:
  assumes "ext_ok E" "even seq"
    and "\<And>j. j < (length hs + 1) div 2 \<Longrightarrow>
      key \<noteq> mt_pkey cs level (seq div 2) (c \<and> even (length hs)) ((length hs + 1) div 2) j"
  shows "db_map E (fst (snd (mt_parents E cs level seq hs d c))) key = db_map E d key"
  using assms
proof (induction E cs level seq hs d c rule: mt_parents.induct)
  case (1 E cs level seq d c)
  then show ?case by simp
next
  case (2 E cs level seq h d c)
  from 2(3) [of 0] have "key \<noteq> mt_key (level + 1) (seq div 2) @ ''-'' @ cs"
    by (simp add: mt_pkey_def)
  then show ?case using 2(1) by (simp add: Let_def)
next
  case (3 E cs level seq h1 h2 hs d c)
  let ?k = "mt_key (level + 1) (seq div 2) @ (if hs = [] \<and> \<not> c then ''-'' @ cs else [])"
  let ?d = "db_put E d ?k (ToBase32 (ComputeFrom E (hval h1 @ hval h2)))"
  have "key \<noteq> mt_pkey cs level ((seq + 2) div 2) (c \<and> even (length hs)) ((length hs + 1) div 2) j"
    if "j < (length hs + 1) div 2" for j
    using "3.prems"(3) [of "Suc j"] that
    by (simp add: mt_pkey_Suc)
  then have "db_map E (fst (snd (mt_parents E cs level (seq + 2) hs ?d c))) key = db_map E ?d key"
    using "3.IH" [OF refl refl] "3.prems"(1,2) by simp
  moreover have "key \<noteq> ?k"
    using "3.prems"(3) [of 0] by (cases hs) (simp_all add: mt_pkey_def)
  ultimately show ?case using "3.prems"(1) by (simp add: Let_def case_prod_unfold)
qed

lemma mt_parents_stored:
  assumes "ext_ok E" "even seq" "hashes20 bs" "j < (length bs + 1) div 2"
  shows "db_map E (fst (snd (mt_parents E cs level seq (map Some bs) d c)))
      (mt_pkey cs level (seq div 2) (c \<and> even (length bs)) ((length bs + 1) div 2) j)
    = Some (b32 (parents E bs ! j))"
  using assms
proof (induction E bs arbitrary: seq d j rule: parents.induct)
  case (1 E)
  then show ?case by simp
next
  case (2 E x)
  then show ?case by (simp add: mt_pkey_def Let_def ToBase32_ComputeFrom hashes20_def)
next
  case (3 E x y zs)
  let ?k = "mt_key (level + 1) (seq div 2) @ (if zs = [] \<and> \<not> c then ''-'' @ cs else [])"
  let ?d = "db_put E d ?k (b32 (hval (ComputeFrom E (x @ y))))"
  let ?r = "mt_parents E cs level (seq + 2) (map Some zs) ?d c"
  let ?n = "(length zs + 1) div 2" and ?c = "c \<and> even (length zs)"
  have xy: "length x = 20" "length y = 20" "hashes20 zs" using "3.prems"(3) by (auto simp: hashes20_def)
  have step: "fst (snd (mt_parents E cs level seq (map Some (x # y # zs)) d c)) = fst (snd ?r)"
    using xy by (simp add: Let_def case_prod_unfold ToBase32_ComputeFrom)
  have key0: "mt_pkey cs level (seq div 2) ?c (Suc ?n) 0 = ?k"
    by (cases zs) (simp_all add: mt_pkey_def)
  show ?case
  proof (cases j)
    case 0
    have "?k \<noteq> mt_pkey cs level ((seq + 2) div 2) ?c ?n i" for i
      using mt_pkey_inject [of cs level "seq div 2" ?c "Suc ?n" 0 "Suc i"] key0
      by (simp add: mt_pkey_Suc)
    then have "db_map E (fst (snd ?r)) ?k = db_map E ?d ?k"
      using mt_parents_frame [OF "3.prems"(1), of "seq + 2" "map Some zs"] "3.prems"(2) by simp
    then show ?thesis unfolding step using 0 key0 "3.prems"(1) by simp
  next
    case (Suc i)
    then have "i < ?n" using "3.prems"(4) by simp
    then have "db_map E (fst (snd ?r)) (mt_pkey cs level ((seq + 2) div 2) ?c ?n i)
        = Some (b32 (parents E zs ! i))"
      using "3.IH" [of "seq + 2" i ?d] "3.prems"(1,2) xy by simp
    then show ?thesis unfolding step using Suc by (simp add: mt_pkey_Suc)
  qed
qed

section \<open>The loop over levels\<close>

definition mt_inv :: "'s ext \<Rightarrow> 's DB \<Rightarrow> string \<Rightarrow> nat \<Rightarrow> string list \<Rightarrow> nat \<Rightarrow> bool" where
  "mt_inv E d cs m zs k \<longleftrightarrow>
     (\<forall>l j. (j + 1) * 2 ^ l \<le> (if l \<le> k then length zs else m) \<longrightarrow>
        db_map E d (mt_key l j) = Some (b32 (tree_level E zs l ! j))) \<and>
     (\<forall>l. 0 < l \<and> l \<le> k \<and> \<not> 2 ^ l dvd length zs \<longrightarrow>
        db_map E d (mt_key l (length zs div 2 ^ l) @ ''-'' @ cs) =
          Some (b32 (tree_level E zs l ! (length zs div 2 ^ l))))"

lemma length_level_dvd: "2 ^ k dvd length zs \<Longrightarrow> length (tree_level E zs k) = length zs div 2 ^ k"
proof -
  assume "2 ^ k dvd length zs"
  then obtain q where q: "length zs = q * 2 ^ k" by (metis dvd_def mult.commute)
  have "\<not> q < length (tree_level E zs k)" using q by (simp only: less_length_tree_level)
  moreover have "j < length (tree_level E zs k)" if "j < q" for j
    using q that by (simp add: less_length_tree_level)
  ultimately have "length (tree_level E zs k) = q" by (meson linorder_neqE_nat less_irrefl)
  then show ?thesis using q by simp
qed

lemma length_level_not_dvd:
  "\<not> 2 ^ k dvd length zs \<Longrightarrow> length (tree_level E zs k) = length zs div 2 ^ k + 1"
proof -
  assume nd: "\<not> 2 ^ k dvd length zs"
  let ?q = "length zs div 2 ^ k"
  have "?q * 2 ^ k \<le> length zs" by simp
  moreover have "?q * 2 ^ k \<noteq> length zs" using nd by (metis dvd_triv_right)
  ultimately have lt: "?q < length (tree_level E zs k)" by (simp only: less_length_tree_level)
  have "length zs < (?q + 1) * 2 ^ k"
    by (metis Suc_eq_plus1 dividend_less_times_div mult.commute mult_Suc_right zero_less_numeral zero_less_power)
  then have "\<not> ?q + 1 < length (tree_level E zs k)" by (simp only: less_length_tree_level)
  with lt show ?thesis by linarith
qed

lemma dvd_Suc_level: "2 ^ Suc k dvd length zs \<longleftrightarrow> 2 ^ k dvd length zs \<and> even (length (tree_level E zs k))"
proof (cases "2 ^ k dvd length zs")
  case True
  then obtain q where q: "length zs = 2 ^ k * q" by (rule dvdE)
  then have "length (tree_level E zs k) = q" using length_level_dvd [OF True] by simp
  then show ?thesis using True q by (simp add: mult.commute)
next
  case False
  then show ?thesis by (metis dvd_mult_left mult.commute power_Suc)
qed

lemma half_div: "(m :: nat) div 2 ^ k div 2 = m div 2 ^ Suc k"
  by (metis div_mult2_eq power_Suc2)

lemma hashes20_level: "ext_ok E \<Longrightarrow> hashes20 zs \<Longrightarrow> hashes20 (drop n (tree_level E zs k))"
  using tree_level_20 by (metis hashes20_def in_set_dropD)

lemma odd_prev: "q mod 2 = 1 \<Longrightarrow> if 1 < q - 1 then (q - 1 - 1) mod 2 = 1 else True" for q :: nat
  by (cases q; simp; presburger)

lemma mt_load_prev_spec:
  assumes E: "ext_ok E" and zs: "hashes20 zs" and m: "m \<le> length zs"
    and inv: "mt_inv E d cs m zs k" and pc: "0 < k \<longrightarrow> pc"
  shows "\<exists>pc'. mt_load_prev E prev k (m div 2 ^ k) pc (map Some (drop (m div 2 ^ k) (tree_level E zs k))) d
      = (map Some (drop (2 * (m div 2 ^ Suc k)) (tree_level E zs k)), 2 * (m div 2 ^ Suc k), pc') \<and>
      (pc' \<or> (pc' = pc \<and> even (m div 2 ^ k)))"
proof (cases "m div 2 ^ k mod 2 = 1")
  case False
  then have "2 * (m div 2 ^ Suc k) = m div 2 ^ k" unfolding half_div [symmetric] by (rule half_even)
  then show ?thesis using False by (auto simp: mt_load_prev_def)
next
  case True
  let ?s = "m div 2 ^ k" and ?l = "tree_level E zs k"
  from True have s: "2 * (m div 2 ^ Suc k) = ?s - 1" "0 < ?s"
    using half_odd [of ?s] unfolding half_div [symmetric] by (auto intro: Nat.gr0I)
  have full: "(?s - 1 + 1) * 2 ^ k \<le> m" using s(2) by simp
  then have full': "(?s - 1 + 1) * 2 ^ k \<le> length zs" using m by linarith
  then have lt: "?s - 1 < length ?l"
    using s(2) by (simp only: less_length_tree_level)
      (metis add_lessD1 diff_add_inverse2 less_le_trans mult_less_cancel2 nat_less_le zero_less_numeral
        zero_less_power add.commute less_add_one)
  have "DB_Get_str E d (mt_key k (?s - 1)) = b32 (?l ! (?s - 1))"
    using inv full' by (intro DB_Get_str_Some) (simp only: mt_inv_def le_refl if_True)
  moreover have "length (?l ! (?s - 1)) = 20"
    using tree_level_20 [OF E] zs nth_mem [OF lt] by (simp add: hashes20_def)
  ultimately have get: "FromBase32 (DB_Get_str E d (mt_key k (?s - 1))) = Some (?l ! (?s - 1))"
    by (simp add: FromBase32_ToBase32)
  have "drop (?s - 1) ?l = ?l ! (?s - 1) # drop ?s ?l"
    using Cons_nth_drop_Suc [OF lt] s(2) by simp
  moreover have "mt_key k (?s - 1) @ (if k > 0 \<and> \<not> pc then ''-'' @ prev else []) = mt_key k (?s - 1)"
    using pc by auto
  ultimately have "mt_load_prev E prev k ?s pc (map Some (drop ?s ?l)) d =
      (map Some (drop (?s - 1) ?l), ?s - 1, if ?s - 1 > 1 then (?s - 1 - 1) mod 2 = 1 else True)"
    using True get by (simp add: mt_load_prev_def Let_def)
  moreover have "(if ?s - 1 > 1 then (?s - 1 - 1) mod 2 = 1 else True)"
    using odd_prev [OF True] .
  ultimately show ?thesis by (simp only: s(1)) blast
qed


lemma mt_pkey_level:
  "l \<noteq> Suc k \<Longrightarrow> mt_key l j \<noteq> mt_pkey cs k base c n i"
  "l \<noteq> Suc k \<Longrightarrow> mt_key l j @ ''-'' @ cs \<noteq> mt_pkey cs k base c n i"
  "mt_key (Suc k) j = mt_pkey cs k base c n i \<Longrightarrow> j = base + i"
  unfolding mt_pkey_def by (cases "i + 1 = n \<and> \<not> c";
    simp only: key_simps if_True if_False append_Nil2 Suc_eq_plus1 simp_thms not_True_eq_False; fail)+

lemma mt_level_step:
  assumes E: "ext_ok E" and zs: "hashes20 zs" and m: "m < length zs" and inv: "mt_inv E d cs m zs k"
  defines "s \<equiv> m div 2 ^ Suc k"
  defines "r \<equiv> mt_parents E cs k (2 * s) (map Some (drop (2 * s) (tree_level E zs k))) d (2 ^ k dvd length zs)"
  shows "fst r = map Some (drop s (tree_level E zs (Suc k)))" (is ?hashes)
    and "snd (snd r) \<longleftrightarrow> 2 ^ Suc k dvd length zs" (is ?complete)
    and "mt_inv E (fst (snd r)) cs m zs (Suc k)" (is ?inv)
proof -
  let ?l = "tree_level E zs k" and ?L = "tree_level E zs (Suc k)"
  let ?bs = "drop (2 * s) ?l" and ?c = "2 ^ Suc k dvd length zs"
  let ?key = "mt_pkey cs k s ?c (length ?L - s)"
  have bs: "hashes20 ?bs" using hashes20_level [OF E zs] .
  have "s * 2 ^ Suc k \<le> m" unfolding s_def by (rule div_times_less_eq_dividend)
  then have sL: "s < length ?L" using m by (simp only: less_length_tree_level)
  then have sl: "2 * s < length ?l + 1" by (simp add: tree_level_Suc length_parents)
  have np: "(length ?bs + 1) div 2 = length ?L - s"
    using sl by (simp add: tree_level_Suc length_parents)
  have par: "parents E ?bs = drop s ?L" by (simp add: parents_drop tree_level_Suc)
  have even: "even (length ?bs) \<longleftrightarrow> even (length ?l)" using sl by simp
  have c: "2 ^ k dvd length zs \<and> even (length ?bs) \<longleftrightarrow> ?c"
    using dvd_Suc_level [of k zs E] even by simp
  show ?hashes unfolding r_def using mt_parents_hashes [OF E bs] by (simp only: par)
  show ?complete unfolding r_def mt_parents_complete using c by (simp only: length_map)
  have frame: "db_map E (fst (snd r)) key = db_map E d key"
    if "\<And>i. key \<noteq> ?key i" for key
    unfolding r_def by (rule mt_parents_frame [OF E]) (simp_all only: length_map c np that nonzero_mult_div_cancel_left numeral_One even_mult_iff, simp_all add: that del: power_Suc)
  have stored: "db_map E (fst (snd r)) (?key i) = Some (b32 (?L ! (s + i)))" if "s + i < length ?L" for i
    using mt_parents_stored [OF E _ bs, of "2 * s" i cs k d "2 ^ k dvd length zs"] that sL
    unfolding r_def c np par by simp
  show ?inv unfolding mt_inv_def
  proof (intro conjI allI impI)
    fix l j
    assume le: "(j + 1) * 2 ^ l \<le> (if l \<le> Suc k then length zs else m)"
    show "db_map E (fst (snd r)) (mt_key l j) = Some (b32 (tree_level E zs l ! j))"
    proof (cases "l = Suc k \<and> s \<le> j")
      case True
      then have full: "(j + 1) * 2 ^ Suc k \<le> length zs" using le by simp
      have "j * 2 ^ Suc k < (j + 1) * 2 ^ Suc k" by simp
      then have lt: "j < length ?L" using full by (simp only: less_length_tree_level)
      have "?c \<or> j + 1 \<noteq> length ?L"
        using length_level_not_dvd [of "Suc k" zs E] full
        by (metis Suc_eq_plus1 less_eq_div_iff_mult_less_eq not_less_eq_eq order_refl zero_less_numeral zero_less_power)
      then have "?key (j - s) = mt_key l j"
        using True lt by (auto simp: mt_pkey_def)
      then show ?thesis using stored [of "j - s"] True lt by simp
    next
      case False
      then have ne: "mt_key l j \<noteq> ?key i" for i
        using mt_pkey_level(1) [of l k j cs s ?c _ i] mt_pkey_level(3) [of k j cs s ?c _ i] by fastforce
      have "(j + 1) * 2 ^ l \<le> (if l \<le> k then length zs else m)"
      proof (cases "l = Suc k")
        case True
        then have "j + 1 \<le> m div 2 ^ l" using False by (simp add: s_def)
        then show ?thesis using True by (simp only: less_eq_div_iff_mult_less_eq) (simp add: less_eq_div_iff_mult_less_eq)
      next
        case False
        then show ?thesis using le by (simp split: if_splits)
      qed
      then show ?thesis using frame [OF ne] inv by (simp only: mt_inv_def)
    qed
  next
    fix l
    assume l: "0 < l \<and> l \<le> Suc k \<and> \<not> 2 ^ l dvd length zs"
    show "db_map E (fst (snd r)) (mt_key l (length zs div 2 ^ l) @ ''-'' @ cs) =
        Some (b32 (tree_level E zs l ! (length zs div 2 ^ l)))"
    proof (cases "l = Suc k")
      case True
      then have N: "length ?L = length zs div 2 ^ l + 1" using l length_level_not_dvd by blast
      then have "?key (length zs div 2 ^ l - s) = mt_key l (length zs div 2 ^ l) @ ''-'' @ cs"
        using sL l True by (simp add: mt_pkey_def)
      then show ?thesis using stored [of "length zs div 2 ^ l - s"] sL N True by simp
    next
      case False
      then have "db_map E (fst (snd r)) (mt_key l (length zs div 2 ^ l) @ ''-'' @ cs) =
          db_map E d (mt_key l (length zs div 2 ^ l) @ ''-'' @ cs)"
        using mt_pkey_level(2) by (intro frame) blast
      then show ?thesis using inv l False by (simp only: mt_inv_def) simp
    qed
  qed
qed


lemma mt_loop_spec:
  assumes E: "ext_ok E" and zs: "hashes20 zs" and m: "m < length zs"
  shows "mt_inv E d cs m zs k \<Longrightarrow> k \<le> height (length zs) \<Longrightarrow> (0 < k \<or> even m \<Longrightarrow> pc) \<Longrightarrow>
    \<exists>d'. mt_loop E prev cs k (m div 2 ^ k) pc (2 ^ k dvd length zs)
        (map Some (drop (m div 2 ^ k) (tree_level E zs k))) d
      = (height (length zs), 2 ^ height (length zs) dvd length zs, [Some (tree_root E zs)], d') \<and>
      mt_inv E d' cs m zs (height (length zs))"
proof (induction "height (length zs) - k" arbitrary: k pc d)
  case 0
  have ne: "zs \<noteq> []" using m by auto
  have k: "k = height (length zs)" using 0 by simp
  have "m < 2 ^ k" using m k height_le_iff [of "length zs" k] by simp
  then have "m div 2 ^ k = 0" by simp
  then show ?case using 0 tree_level_height [OF ne, of E] by (simp add: k mt_loop.simps)
next
  case (Suc x)
  let ?l = "tree_level E zs k" and ?s = "m div 2 ^ Suc k" and ?hs = "map Some (drop (m div 2 ^ k) (tree_level E zs k))"
  let ?r = "mt_parents E cs k (2 * ?s) (map Some (drop (2 * ?s) ?l)) d (2 ^ k dvd length zs)"
  have "2 ^ k < length zs" using Suc(2) height_le_iff [of "length zs" k] by linarith
  then have "1 < length ?l" by (simp add: less_length_tree_level)
  then have guard: "length ?hs > 1 \<or> m div 2 ^ k > 0" by (cases "m div 2 ^ k") auto
  obtain pc' where load: "mt_load_prev E prev k (m div 2 ^ k) pc ?hs d
      = (map Some (drop (2 * ?s) ?l), 2 * ?s, pc')" and pc': "pc' \<or> (pc' = pc \<and> even (m div 2 ^ k))"
    using mt_load_prev_spec [OF E zs _ Suc.prems(1), of pc] m Suc.prems(3) by auto
  have pc'': "pc'" using pc' Suc.prems(3) by (cases k) auto
  note step = mt_level_step [OF E zs m Suc.prems(1)]
  have r: "?r = (map Some (drop ?s (tree_level E zs (Suc k))), fst (snd ?r), 2 ^ Suc k dvd length zs)"
    by (simp only: prod_eq_iff fst_conv snd_conv step simp_thms)
  have "mt_loop E prev cs k (m div 2 ^ k) pc (2 ^ k dvd length zs) ?hs d =
      mt_loop E prev cs (Suc k) ?s pc' (2 ^ Suc k dvd length zs)
        (map Some (drop ?s (tree_level E zs (Suc k)))) (fst (snd ?r))"
    by (subst mt_loop.simps, simp only: guard if_True load Let_def prod.case, subst r)
      (simp only: prod.case Suc_eq_plus1 nonzero_mult_div_cancel_left)
  then show ?case
    using Suc.hyps(1) [of "Suc k" "fst (snd ?r)" pc'] Suc.hyps(2) step(3) pc'' by (simp del: power_Suc)
qed


text \<open>The root key \<open>update\<close> returns for a tree of \<open>n\<close> leaves.\<close>

definition mt_root_key :: "string \<Rightarrow> nat \<Rightarrow> string" where
  "mt_root_key cs n = mt_key (height n) 0 @ (if 2 ^ height n dvd n then [] else ''-'' @ cs)"

lemma mt_inv_leaves:
  assumes E: "ext_ok E" and stored: "mt_stored E d xs"
  shows "mt_inv E (mt_put_leaves E d (length xs) (map b32 ys)) cs (length xs) (xs @ ys) 0"
  unfolding mt_inv_def
proof (intro conjI allI impI)
  fix l j
  assume le: "(j + 1) * 2 ^ l \<le> (if l \<le> 0 then length (xs @ ys) else length xs)"
  let ?d = "mt_put_leaves E d (length xs) (map b32 ys)"
  show "db_map E ?d (mt_key l j) = Some (b32 (tree_level E (xs @ ys) l ! j))"
  proof (cases "l = 0 \<and> length xs \<le> j")
    case True
    then have "j - length xs < length ys" using le by simp linarith
    then show ?thesis
      using mt_put_leaves_map(1) [OF E, of "j - length xs" "map b32 ys" d "length xs"] True
      by (simp add: nth_append)
  next
    case False
    then have full: "(j + 1) * 2 ^ l \<le> length xs" using le by (cases l) auto
    have "db_map E ?d (mt_key l j) = db_map E d (mt_key l j)"
      using False by (intro mt_put_leaves_map(2) [OF E]) (auto simp: mt_key_inject)
    then show ?thesis using stored full tree_level_append [OF full, of E ys] by (metis mt_stored_def)
  qed
qed simp

lemma mt_inv_stored:
  assumes "mt_inv E d cs m zs (height (length zs))" "m \<le> length zs"
  shows "mt_stored E d zs" "mt_tip E d cs zs"
proof -
  have "(j + 1) * 2 ^ l \<le> (if l \<le> height (length zs) then length zs else m)"
    if "(j + 1) * 2 ^ l \<le> length zs" for l j
  proof (cases "l \<le> height (length zs)")
    case False
    then have "length zs < 2 ^ l"
      using height_le_iff [of "length zs" "height (length zs)"] power_strict_increasing_iff [of "2::nat"]
      by (meson le_less_trans le_refl not_le one_less_numeral_iff semiring_norm(76))
    with that show ?thesis by simp
  qed (use that in simp)
  then show "mt_stored E d zs" using assms(1) unfolding mt_inv_def mt_stored_def by blast
  show "mt_tip E d cs zs" using assms(1) unfolding mt_inv_def mt_tip_def by blast
qed

lemma mt_update_spec:
  assumes E: "ext_ok E" and h: "hashes20 (xs @ ys)" and ys: "ys \<noteq> []" and stored: "mt_stored E d xs"
    and cs: "mt_next_commit prev = Inr cs"
  shows "\<exists>d'. mt_update E d (length xs) (map b32 ys) prev
      = Inr (d', mt_root_key cs (length (xs @ ys)), b32 (tree_root E (xs @ ys))) \<and>
    mt_stored E d' (xs @ ys) \<and> mt_tip E d' cs (xs @ ys)"
proof -
  let ?m = "length xs" and ?zs = "xs @ ys"
  let ?pc = "if ?m > 1 then (?m - 1) mod 2 = 1 else True"
  have m: "?m < length ?zs" using ys by simp
  have pc: "0 < (0::nat) \<or> even ?m \<Longrightarrow> ?pc" by (cases ?m) (auto simp: odd_iff_mod_2_eq_one)
  have hs: "map FromBase32 (map b32 ys) = map Some (drop (?m div 2 ^ 0) (tree_level E ?zs 0))"
    using h by (simp add: hashes20_def FromBase32_ToBase32)
  obtain d' where loop: "mt_loop E prev cs 0 ?m ?pc True (map FromBase32 (map b32 ys))
      (mt_put_leaves E d ?m (map b32 ys)) = (height (length ?zs), 2 ^ height (length ?zs) dvd length ?zs,
        [Some (tree_root E ?zs)], d')" and inv: "mt_inv E d' cs ?m ?zs (height (length ?zs))"
    using mt_loop_spec [OF E h m mt_inv_leaves [OF E stored] _ pc, of prev] unfolding hs
    by (auto simp del: mt_put_leaves.simps)
  have key: "''mt'' @ to_string l @ ''-0'' @ sfx = mt_key l 0 @ sfx" for l sfx
    by (simp add: mt_key_def to_string_0)
  have "mt_update E d ?m (map b32 ys) prev = Inr (d', mt_root_key cs (length ?zs), b32 (tree_root E ?zs))"
    unfolding mt_update_def Let_def cs rbind_simps loop prod.case key
    by (simp add: mt_root_key_def vec_at_def)
  then show ?thesis using mt_inv_stored [OF inv] by simp
qed

section \<open>Proofs\<close>

fun sib_entry :: "sibling \<Rightarrow> string \<times> nat" where
  "sib_entry (Left_sib s) = (b32 s, 0)"
| "sib_entry (Right_sib s) = (b32 s, 1)"
| "sib_entry No_sib = ([], 1)"

fun sib_ok :: "sibling \<Rightarrow> bool" where
  "sib_ok (Left_sib s) = (length s = 20)"
| "sib_ok (Right_sib s) = (length s = 20)"
| "sib_ok No_sib = True"

lemma Verify_loop_climb:
  "ext_ok E \<Longrightarrow> length x = 20 \<Longrightarrow> \<forall>s\<in>set sibs. sib_ok s \<Longrightarrow>
    Verify_loop E (map (fst \<circ> sib_entry) sibs) (map (snd \<circ> sib_entry) sibs) (Some x)
    = Inr (Some (climb E sibs x))"
proof (induction sibs arbitrary: x)
  case Nil
  then show ?case by (simp add: climb_def)
next
  case (Cons s sibs)
  have "length (climb_step E s x) = 20" using Cons.prems by (cases s) auto
  moreover have "Verify_loop E (map (fst \<circ> sib_entry) (s # sibs)) (map (snd \<circ> sib_entry) (s # sibs)) (Some x)
    = Verify_loop E (map (fst \<circ> sib_entry) sibs) (map (snd \<circ> sib_entry) sibs) (Some (climb_step E s x))"
    using Cons.prems by (cases s) (simp_all add: FromBase32_ToBase32 Let_def ComputeFrom_Some [symmetric])
  moreover have "\<forall>s\<in>set sibs. sib_ok s" using Cons.prems by simp
  ultimately show ?case using Cons.IH [of "climb_step E s x"] Cons.prems(1) by (simp only: climb_def fold_simps)
qed


lemma last_of_level: "0 < length zs \<Longrightarrow> length (tree_level E zs k) = (length zs - 1) div 2 ^ k + 1"
proof -
  assume n: "0 < length zs"
  have "j < length (tree_level E zs k) \<longleftrightarrow> j < (length zs - 1) div 2 ^ k + 1" for j
  proof -
    have "j * 2 ^ k < length zs \<longleftrightarrow> j * 2 ^ k \<le> length zs - 1" using n by linarith
    then show ?thesis
      by (simp add: less_length_tree_level less_Suc_eq_le less_eq_div_iff_mult_less_eq)
  qed
  then show ?thesis by (metis linorder_neqE_nat less_irrefl)
qed

lemma complete_flag:
  fixes zs :: "string list"
  shows "0 < length zs \<Longrightarrow> 2 ^ k dvd length zs \<and> ((length zs - 1) div 2 ^ k) mod 2 = 1 \<longleftrightarrow> 2 ^ Suc k dvd length zs"
  using last_of_level [of zs "undefined :: unit ext" k] dvd_Suc_level [of k zs "undefined :: unit ext"]
    odd_iff_mod_2_eq_one by (metis even_Suc Suc_eq_plus1)

lemma DB_Get_node:
  assumes "mt_stored E d zs" "(j + 1) * 2 ^ k \<le> length zs"
  shows "DB_Get_str E d (mt_key k j) = b32 (tree_level E zs k ! j)"
  using assms by (intro DB_Get_str_Some) (simp only: mt_stored_def)

lemma mt_right_sibling:
  assumes stored: "mt_stored E d zs" and tip: "mt_tip E d cs zs"
    and p: "p mod 2 = 0" "p < (length zs - 1) div 2 ^ i" and i: "i \<le> height (length zs)"
  shows "DB_Get_str E d (mt_key i (p + 1) @
      (if p + 1 = (length zs - 1) div 2 ^ i \<and> i > 0 \<and> \<not> 2 ^ Suc i dvd length zs then ''-'' @ cs else []))
    = b32 (tree_level E zs i ! (p + 1))"
proof -
  let ?q = "(length zs - 1) div 2 ^ i"
  have n: "0 < length zs" using p(2) by (cases zs) auto
  show ?thesis
  proof (cases "p + 1 = ?q \<and> \<not> 2 ^ Suc i dvd length zs")
    case True
    have "(p + 1) mod 2 = 1" using p(1) by presburger
    then have "?q mod 2 = 1" using True by metis
    then have nd: "\<not> 2 ^ i dvd length zs" using complete_flag [OF n, of i] True by blast
    then have i0: "i > 0" by (cases i) auto
    have "?q = length zs div 2 ^ i"
      using length_level_not_dvd [OF nd, of E] last_of_level [OF n, of E i] by simp
    then have "db_map E d (mt_key i (p + 1) @ ''-'' @ cs) = Some (b32 (tree_level E zs i ! (p + 1)))"
      using tip i i0 nd True unfolding mt_tip_def by metis
    then have "DB_Get_str E d (mt_key i (p + 1) @ ''-'' @ cs) = b32 (tree_level E zs i ! (p + 1))"
      by (rule DB_Get_str_Some)
    then show ?thesis using True i0 by (simp only: simp_thms if_True)
  next
    case False
    have "(p + 1 + 1) * 2 ^ i \<le> length zs"
    proof (cases "p + 1 = ?q")
      case True
      then have "2 ^ i dvd length zs" using False by (metis dvd_mult_right power_Suc)
      then have "length zs div 2 ^ i = ?q + 1"
        using length_level_dvd [of i zs E] last_of_level [OF n, of E i] by simp
      then show ?thesis using True by (metis div_times_less_eq_dividend)
    next
      case False
      then have "p + 1 + 1 \<le> ?q" using p(2) by linarith
      then have "(p + 1 + 1) * 2 ^ i \<le> length zs - 1" by (simp add: less_eq_div_iff_mult_less_eq)
      then show ?thesis by linarith
    qed
    then show ?thesis using DB_Get_node [OF stored] False by (auto simp del: power_Suc)
  qed
qed

lemma mt_proof_loop_spec:
  assumes stored: "mt_stored E d zs" and tip: "mt_tip E d cs zs" and j: "j < length zs"
  shows "i + n \<le> height (length zs) \<Longrightarrow>
    mt_proof_loop E d cs n i (j div 2 ^ i) ((length zs - 1) div 2 ^ i) (2 ^ Suc i dvd length zs)
      = map (\<lambda>k. sib_entry (sibling_at E zs j k)) [i..<i + n]"
proof (induction n arbitrary: i)
  case 0
  then show ?case by simp
next
  case (Suc n)
  let ?p = "j div 2 ^ i" and ?q = "(length zs - 1) div 2 ^ i" and ?c = "2 ^ Suc i dvd length zs"
  have n: "0 < length zs" using j by linarith
  have pq: "?p \<le> ?q" using j by (intro div_le_mono) linarith
  have flag: "(?c \<and> (?q div 2) mod 2 = 1) = (2 ^ Suc (Suc i) dvd length zs)"
    using complete_flag [OF n, of "Suc i"] unfolding half_div .
  have tail: "mt_proof_loop E d cs n (i + 1) (?p div 2) (?q div 2) (?c \<and> (?q div 2) mod 2 = 1) =
      map (\<lambda>k. sib_entry (sibling_at E zs j k)) [Suc i..<Suc i + n]"
    using Suc.IH [of "Suc i"] Suc.prems unfolding flag unfolding half_div by simp
  have entry: "(if ?p mod 2 = 0 then (if ?p = ?q then [] else DB_Get_str E d (mt_key i (?p + 1) @
        (if ?p + 1 = ?q \<and> i > 0 \<and> \<not> ?c then ''-'' @ cs else [])), 1)
      else (DB_Get_str E d (mt_key i (?p - 1)), 0)) = sib_entry (sibling_at E zs j i)"
  proof (cases "?p mod 2 = 0")
    case True
    have "?p < ?q \<Longrightarrow> DB_Get_str E d (mt_key i (?p + 1) @
        (if ?p + 1 = ?q \<and> i > 0 \<and> \<not> ?c then ''-'' @ cs else [])) = b32 (tree_level E zs i ! (?p + 1))"
      using mt_right_sibling [OF stored tip True] Suc.prems by simp
    then show ?thesis
      using True pq last_of_level [OF n, of E i] by (simp add: sibling_at_def Let_def del: power_Suc)
  next
    case False
    then have p1: "?p mod 2 = 1" and "?p - 1 + 1 = ?p" by (simp_all add: Suc_leI)
    moreover have "?p * 2 ^ i \<le> length zs"
      using div_times_less_eq_dividend [of j "2 ^ i"] j by linarith
    ultimately have "DB_Get_str E d (mt_key i (?p - 1)) = b32 (tree_level E zs i ! (?p - 1))"
      using DB_Get_node [OF stored, of "?p - 1" i] by simp
    then show ?thesis using False p1 by (simp add: sibling_at_def Let_def)
  qed
  have "[i..<i + Suc n] = i # [Suc i..<Suc i + n]" by (simp add: upt_conv_Cons)
  then show ?case unfolding mt_proof_loop.simps Let_def entry tail by (simp only: list.map)
qed


lemma mt_root_key_level:
  assumes "height n < 2 ^ 31"
  shows "2 \<le> length (mt_root_key cs n)"
    and "stoi (case find_char (CHR ''-'') (mt_root_key cs n) of
          Some delim \<Rightarrow> substr (mt_root_key cs n) 2 (delim - 2) | None \<Rightarrow> drop 2 (mt_root_key cs n))
        = Inr (int (height n))"
proof -
  obtain t where k: "mt_root_key cs n = ''mt'' @ to_string (height n) @ CHR ''-'' # t"
    unfolding mt_root_key_def mt_key_def append_assoc append_Cons append_Nil by blast
  show "2 \<le> length (mt_root_key cs n)" by (simp add: k)
  have "find_char (CHR ''-'') (mt_root_key cs n) = Some (2 + length (to_string (height n)))"
    using find_char_append [of "CHR ''-''" "to_string (height n)" t] by (simp add: k)
  then show "stoi (case find_char (CHR ''-'') (mt_root_key cs n) of
          Some delim \<Rightarrow> substr (mt_root_key cs n) 2 (delim - 2) | None \<Rightarrow> drop 2 (mt_root_key cs n))
        = Inr (int (height n))"
    using stoi_to_string_append [of "height n" "[]"] assms by (simp add: k substr_def)
qed

lemma mt_root_stored:
  assumes ne: "zs \<noteq> []" and stored: "mt_stored E d zs" and tip: "mt_tip E d cs zs"
  shows "DB_Get_str E d (mt_root_key cs (length zs)) = b32 (tree_root E zs)"
proof -
  let ?h = "height (length zs)"
  have root: "tree_level E zs ?h ! 0 = tree_root E zs" using tree_level_height [OF ne, of E] by simp
  have le: "length zs \<le> 2 ^ ?h" using height_le_iff by blast
  show ?thesis
  proof (cases "2 ^ ?h dvd length zs")
    case True
    then have "(0 + 1) * 2 ^ ?h \<le> length zs" using ne by (simp add: dvd_imp_le)
    then show ?thesis using True DB_Get_node [OF stored] root by (simp add: mt_root_key_def)
  next
    case False
    then have "length zs div 2 ^ ?h = 0" using le by (metis div_less dvd_refl le_neq_implies_less)
    moreover have "0 < ?h" using False by (metis bot_nat_0.not_eq_extremum one_dvd power_0)
    ultimately have "db_map E d (mt_key ?h 0 @ ''-'' @ cs) = Some (b32 (tree_root E zs))"
      using tip False root unfolding mt_tip_def by (metis le_refl)
    then show ?thesis using DB_Get_str_Some False by (simp only: mt_root_key_def if_False)
  qed
qed

lemma sibling_at_ok:
  assumes E: "ext_ok E" and zs: "hashes20 zs" and j: "j < length zs"
  shows "sib_ok (sibling_at E zs j k)"
proof -
  let ?l = "tree_level E zs k" and ?p = "j div 2 ^ k"
  have "?p * 2 ^ k < length zs" using div_times_less_eq_dividend [of j "2 ^ k"] j by linarith
  then have "?p < length ?l" by (simp only: less_length_tree_level)
  then have "length (?l ! i) = 20" if "i < length ?l \<or> i = ?p - 1" for i
    using tree_level_20 [OF E, of zs _ k] zs that unfolding hashes20_def by (metis less_imp_diff_less nth_mem)
  then show ?thesis by (simp add: sibling_at_def Let_def)
qed

lemma mt_getProof_spec:
  assumes stored: "mt_stored E d zs" and tip: "mt_tip E d cs zs" and j: "j < length zs"
    and h: "height (length zs) < 2 ^ 31"
  shows "mt_getProof E d cs (mt_root_key cs (length zs)) (length zs - 1) j = Inr
    \<lparr>digest = b32 (tree_root E zs), pvalue = b32 (zs ! j),
     proof_hashes = map (fst \<circ> sib_entry) (map (sibling_at E zs j) [0..<height (length zs)]),
     pos = map (snd \<circ> sib_entry) (map (sibling_at E zs j) [0..<height (length zs)])\<rparr>"
proof -
  let ?n = "length zs"
  have ne: "zs \<noteq> []" and n: "0 < ?n" using j by auto
  have flag: "((?n - 1) mod 2 = 1) = (2 ^ Suc 0 dvd ?n)" using complete_flag [OF n, of 0] by simp
  have entries: "mt_proof_loop E d cs (height ?n) 0 j (?n - 1) ((?n - 1) mod 2 = 1) =
      map (\<lambda>k. sib_entry (sibling_at E zs j k)) [0..<height ?n]"
    using mt_proof_loop_spec [OF stored tip j, of 0 "height ?n"] unfolding flag by simp
  have leaf: "DB_Get_str E d (''mt0-'' @ to_string j) = b32 (zs ! j)"
    using DB_Get_node [OF stored, of j 0] j unfolding mt0_key by simp
  have len: "\<not> length (mt_root_key cs ?n) < 2" using mt_root_key_level(1) [OF h, of cs] by simp
  show ?thesis
    unfolding mt_getProof_def Let_def mt_root_key_level(2) [OF h] rbind_simps nat_int entries leaf
      mt_root_stored [OF ne stored tip]
    using len by simp
qed

lemma mt_proof_complete:
  assumes E: "ext_ok E" and zs: "hashes20 zs"
    and stored: "mt_stored E d zs" and tip: "mt_tip E d cs zs" and j: "j < length zs"
    and h: "height (length zs) < 2 ^ 31"
  shows "\<exists>p. mt_getProof E d cs (mt_root_key cs (length zs)) (length zs - 1) j = Inr p \<and>
    digest p = b32 (tree_root E zs) \<and> pvalue p = b32 (zs ! j) \<and> mt_Verify E p = Inr True"
proof -
  have ne: "zs \<noteq> []" using j by auto
  have leaf: "length (zs ! j) = 20" using zs j by (simp add: hashes20_def)
  have "length (tree_root E zs) = 20"
    using tree_level_20 [OF E] zs tree_level_height [OF ne, of E] by (metis hashes20_def list.set_intros(1))
  then show ?thesis
    using mt_getProof_spec [OF stored tip j h] leaf climb_to_root [OF j, of E] sibling_at_ok [OF E zs j]
      Verify_loop_climb [OF E leaf, of "map (sibling_at E zs j) [0..<height (length zs)]"]
    by (simp add: mt_Verify_def FromBase32_ToBase32 Hash_eq_iff)
qed


section \<open>Soundness\<close>

text \<open>The path a proof describes: what the loop of \<open>Verify\<close> makes of each pair of entries.\<close>

definition proof_sib :: "string \<Rightarrow> nat \<Rightarrow> sibling" where
  "proof_sib s p = (if p = 0 then Left_sib (hval (FromBase32 s))
     else if length s > 0 then Right_sib (hval (FromBase32 s)) else No_sib)"

definition proof_sibs :: "Proof \<Rightarrow> sibling list" where
  "proof_sibs p = map2 proof_sib (proof_hashes p) (pos p)"

lemma Verify_loop_raw:
  "length ss \<le> length ps \<Longrightarrow> calc \<noteq> None \<Longrightarrow> \<exists>h. Verify_loop E ss ps calc = Inr h \<and> h \<noteq> None \<and>
    hval h = climb E (map2 proof_sib ss ps) (hval calc)"
proof (induction E ss ps calc rule: Verify_loop.induct)
  case (1 E ps calc)
  then show ?case by (simp add: climb_def)
next
  case (2 E s ss calc)
  then show ?case by simp
next
  case (3 E s ss p ps calc)
  let ?h = "FromBase32 s"
  let ?calc = "if p = 0 then ComputeFrom E (hval ?h @ hval calc)
    else if length s > 0 then ComputeFrom E (hval calc @ hval ?h) else ComputeFrom E (hval calc)"
  have some: "?calc \<noteq> None" using ComputeFrom_Some by (metis option.distinct(1))
  have step: "climb_step E (proof_sib s p) (hval calc) = hval ?calc" by (simp add: proof_sib_def)
  have "Verify_loop E (s # ss) (p # ps) calc = Verify_loop E ss ps ?calc" by (simp add: Let_def)
  then show ?case
    using "3.IH" [OF refl _ some] "3.prems"(1) by (simp only: list.size add_le_cancel_right climb_def
      zip_Cons_Cons list.map prod.case fold_simps step)
qed

lemma Verify_loop_short:
  "length ps < length ss \<Longrightarrow> Verify_loop E ss ps calc = Inl Out_of_bounds"
  by (induction E ss ps calc rule: Verify_loop.induct) (auto simp: Let_def)

lemma Verify_climb:
  assumes "rbind (Verify_loop E (proof_hashes p) (pos p) calc) (\<lambda>h. Inr (Hash_eq h D)) = Inr True"
    and "calc \<noteq> None"
  shows "climb E (proof_sibs p) (hval calc) = hval D"
proof -
  have "length (proof_hashes p) \<le> length (pos p)"
    using assms Verify_loop_short [of "pos p" "proof_hashes p" E] by force
  then show ?thesis
    using assms Verify_loop_raw [of "proof_hashes p" "pos p" calc E]
    by (auto simp: rbind_Inr_iff Hash_eq_iff proof_sibs_def)
qed

lemma mt_Verify_climb:
  assumes "mt_Verify E p = Inr True"
  shows "climb E (proof_sibs p) (hval (FromBase32 (pvalue p))) = hval (FromBase32 (digest p))"
  using assms unfolding mt_Verify_def by (rule Verify_climb) (simp add: FromBase32_def)

text \<open>
  C3: \<open>Proof::Verify\<close> binds the leaf.  A proof that verifies against the digest of the tree over
  \<open>zs\<close> and takes the turns of position \<open>j\<close> can only carry the value of leaf \<open>j\<close>, as long as the
  hash has no collision among the byte strings hashed on the two ways up.
\<close>

theorem mt_proof_sound:
  assumes E: "ext_ok E" and zs: "hashes20 zs" and j: "j < length zs"
    and ok: "mt_Verify E p = Inr True" and root: "digest p = b32 (tree_root E zs)"
    and side: "list_all2 same_side (proof_sibs p) (map (sibling_at E zs j) [0..<height (length zs)])"
    and inj: "inj_on (\<lambda>b. hval (ComputeFrom E b))
      (climb_inputs E (proof_sibs p) (hval (FromBase32 (pvalue p))) \<union>
       climb_inputs E (map (sibling_at E zs j) [0..<height (length zs)]) (zs ! j))"
  shows "FromBase32 (pvalue p) = Some (zs ! j)"
proof -
  have ne: "zs \<noteq> []" using j by auto
  have leaf: "length (zs ! j) = 20" using zs j by (simp add: hashes20_def)
  have "length (tree_root E zs) = 20"
    using tree_level_20 [OF E] zs tree_level_height [OF ne, of E] by (metis hashes20_def list.set_intros(1))
  then have "climb E (proof_sibs p) (hval (FromBase32 (pvalue p))) =
      climb E (map (sibling_at E zs j) [0..<height (length zs)]) (zs ! j)"
    using mt_Verify_climb [OF ok] climb_to_root [OF j, of E] by (simp add: root FromBase32_ToBase32)
  then have "hval (FromBase32 (pvalue p)) = zs ! j" using climb_sound [OF E side _ inj] leaf by simp
  then show ?thesis by (metis FromBase32_Some)
qed


section \<open>Histories of commits\<close>

text \<open>
  Successive calls of \<open>update\<close>, as \<open>LedgerDB::buildTree\<close> makes them: the block sequence number is
  the number of leaves so far and \<open>prev_commit_seq\<close> the number of the commit before, empty at first.
\<close>

fun mt_history :: "'s ext \<Rightarrow> 's DB \<Rightarrow> nat \<Rightarrow> nat \<Rightarrow> string list list \<Rightarrow> ('s DB \<times> string \<times> string) result" where
  "mt_history E d c n [] = Inr (d, [], [])"
| "mt_history E d c n (b # bs) =
     rbind (mt_update E d n b (if c = 0 then [] else to_string (c - 1))) (\<lambda>(d', key, root).
       if bs = [] then Inr (d', key, root) else mt_history E d' (c + 1) (n + length b) bs)"

lemma mt_next_commit_seq:
  "c < 2 ^ 64 \<Longrightarrow> mt_next_commit (if c = 0 then [] else to_string (c - 1)) = Inr (to_string c)"
  using stoul_to_string [of "c - 1"] by (cases c) (auto simp: mt_next_commit_def to_string_0)

lemma mt_history_spec:
  assumes E: "ext_ok E"
  shows "mt_stored E d xs \<Longrightarrow> hashes20 (xs @ concat bs) \<Longrightarrow> bs \<noteq> [] \<Longrightarrow> [] \<notin> set bs \<Longrightarrow> c + length bs \<le> 2 ^ 64 \<Longrightarrow>
    \<exists>d'. mt_history E d c (length xs) (map (map b32) bs) =
        Inr (d', mt_root_key (to_string (c + length bs - 1)) (length (xs @ concat bs)),
             b32 (tree_root E (xs @ concat bs))) \<and>
      mt_stored E d' (xs @ concat bs) \<and> mt_tip E d' (to_string (c + length bs - 1)) (xs @ concat bs)"
proof (induction bs arbitrary: d xs c)
  case Nil
  then show ?case by simp
next
  case (Cons b bs)
  have b: "b \<noteq> []" "hashes20 (xs @ b)" and c: "c < 2 ^ 64" using Cons.prems by (auto simp: hashes20_def)
  obtain d' where upd: "mt_update E d (length xs) (map b32 b) (if c = 0 then [] else to_string (c - 1)) =
      Inr (d', mt_root_key (to_string c) (length (xs @ b)), b32 (tree_root E (xs @ b)))"
    and st: "mt_stored E d' (xs @ b)" "mt_tip E d' (to_string c) (xs @ b)"
    using mt_update_spec [OF E b(2,1) Cons.prems(1) mt_next_commit_seq [OF c]] by blast
  show ?case
  proof (cases bs)
    case Nil
    then show ?thesis using upd st by simp
  next
    case (Cons b' bs')
    then have "\<exists>d''. mt_history E d' (c + 1) (length (xs @ b)) (map (map b32) bs) =
        Inr (d'', mt_root_key (to_string (c + 1 + length bs - 1)) (length ((xs @ b) @ concat bs)),
             b32 (tree_root E ((xs @ b) @ concat bs))) \<and>
        mt_stored E d'' ((xs @ b) @ concat bs) \<and>
        mt_tip E d'' (to_string (c + 1 + length bs - 1)) ((xs @ b) @ concat bs)"
      using Cons.prems by (intro Cons.IH st) auto
    then show ?thesis using upd Cons by simp
  qed
qed

lemma mt_stored_empty: "mt_stored E d []"
  by (simp add: mt_stored_def)

text \<open>
  C1: \<open>MerkleTree::update\<close> over any history of commits.  Starting from any store, a history of
  non-empty batches succeeds, and the last call returns the base32 root of the hash tree over all
  leaves appended so far, whatever the batching, under the key of the root node.
\<close>

theorem mt_history_root:
  assumes "ext_ok E" "hashes20 (concat bs)" "bs \<noteq> []" "[] \<notin> set bs" "length bs \<le> 2 ^ 64"
  shows "\<exists>d'. mt_history E d 0 0 (map (map b32) bs) =
    Inr (d', mt_root_key (to_string (length bs - 1)) (length (concat bs)), b32 (tree_root E (concat bs)))"
  using mt_history_spec [OF assms(1) mt_stored_empty, of bs 0 d] assms(2-) by auto

text \<open>
  C2: \<open>MerkleTree::getProof\<close> and \<open>Proof::Verify\<close> are complete.  After any history of commits, the
  proof read for any leaf with the root key and commit number of the last call carries the root as
  its digest and the leaf as its value, and it verifies.
\<close>

theorem mt_history_proof:
  assumes "ext_ok E" "hashes20 (concat bs)" "bs \<noteq> []" "[] \<notin> set bs" "length bs \<le> 2 ^ 64"
    and "height (length (concat bs)) < 2 ^ 31" "j < length (concat bs)"
  shows "\<exists>d' key root p. mt_history E d 0 0 (map (map b32) bs) = Inr (d', key, root) \<and>
    mt_getProof E d' (to_string (length bs - 1)) key (length (concat bs) - 1) j = Inr p \<and>
    digest p = root \<and> pvalue p = b32 (concat bs ! j) \<and> mt_Verify E p = Inr True"
proof -
  obtain d' where h: "mt_history E d 0 0 (map (map b32) bs) =
      Inr (d', mt_root_key (to_string (length bs - 1)) (length (concat bs)), b32 (tree_root E (concat bs)))"
    and st: "mt_stored E d' (concat bs)" "mt_tip E d' (to_string (length bs - 1)) (concat bs)"
    using mt_history_spec [OF assms(1) mt_stored_empty, of bs 0 d] assms(2-) by auto
  show ?thesis using h mt_proof_complete [OF assms(1,2) st assms(7,6)] by blast
qed

section \<open>Witnesses\<close>

definition leaf_hash :: "char \<Rightarrow> string" where
  "leaf_hash c = replicate 20 c"

lemma hashes20_leaf [simp]: "hashes20 [] = True" "hashes20 (leaf_hash c # xs) = hashes20 xs"
  by (simp_all add: hashes20_def leaf_hash_def)

definition two_batches :: "string list list" where
  "two_batches = [[leaf_hash CHR ''a'', leaf_hash CHR ''b''], [leaf_hash CHR ''c'']]"

theorem mt_history_root_witness:
  "\<exists>d'. mt_history map_ext map_db 0 0 (map (map b32) two_batches) =
    Inr (d', mt_root_key (to_string (length two_batches - 1)) (length (concat two_batches)),
      b32 (tree_root map_ext (concat two_batches)))"
  by (rule mt_history_root [OF ext_ok_map_ext]) (simp_all add: two_batches_def)

theorem mt_history_proof_witness:
  "\<exists>d' key root p. mt_history map_ext map_db 0 0 (map (map b32) two_batches) = Inr (d', key, root) \<and>
    mt_getProof map_ext d' (to_string (length two_batches - 1)) key (length (concat two_batches) - 1) 1 = Inr p \<and>
    digest p = root \<and> pvalue p = b32 (concat two_batches ! 1) \<and> mt_Verify map_ext p = Inr True"
proof (rule mt_history_proof [OF ext_ok_map_ext])
  have "height (length (concat two_batches)) \<le> 2" by (simp add: height_le_iff two_batches_def)
  then show "height (length (concat two_batches)) < 2 ^ 31" by simp
qed (simp_all add: two_batches_def)

theorem mt_proof_sound_witness:
  "FromBase32 (pvalue \<lparr>digest = b32 (tree_root map_ext [leaf_hash CHR ''a'', leaf_hash CHR ''b'']),
      pvalue = b32 (leaf_hash CHR ''a''), proof_hashes = [b32 (leaf_hash CHR ''b'')], pos = [1]\<rparr>)
    = Some ([leaf_hash CHR ''a'', leaf_hash CHR ''b''] ! 0)"
proof (rule mt_proof_sound [OF ext_ok_map_ext])
  let ?a = "leaf_hash CHR ''a''" and ?b = "leaf_hash CHR ''b''"
  have len [simp]: "length (leaf_hash c) = 20" for c by (simp add: leaf_hash_def)
  have h: "height (Suc (Suc 0)) = 1" by code_simp
  have up: "map (sibling_at map_ext [?a, ?b] 0) [0..<height (length [?a, ?b])] = [Right_sib ?b]"
    by (simp add: h sibling_at_def)
  have sibs: "proof_sibs \<lparr>digest = D, pvalue = b32 ?a, proof_hashes = [b32 ?b], pos = [1]\<rparr> = [Right_sib ?b]" for D
    by (simp add: proof_sibs_def proof_sib_def FromBase32_ToBase32)
  have root: "tree_root map_ext [?a, ?b] = hval (ComputeFrom map_ext (?a @ ?b))"
    by (simp add: tree_root_def h tree_level_def)
  show "mt_Verify map_ext \<lparr>digest = b32 (tree_root map_ext [?a, ?b]), pvalue = b32 ?a,
      proof_hashes = [b32 ?b], pos = [1]\<rparr> = Inr True"
    using Verify_loop_climb [OF ext_ok_map_ext, of ?a "[Right_sib ?b]"]
    by (simp add: mt_Verify_def root FromBase32_ToBase32 Hash_eq_iff climb_def ext_ok_map_ext del: not_None_eq)
  show "list_all2 same_side (proof_sibs \<lparr>digest = b32 (tree_root map_ext [?a, ?b]), pvalue = b32 ?a,
      proof_hashes = [b32 ?b], pos = [1]\<rparr>) (map (sibling_at map_ext [?a, ?b] 0) [0..<height (length [?a, ?b])])"
    unfolding up sibs by simp
  show "inj_on (\<lambda>b. hval (ComputeFrom map_ext b))
      (climb_inputs map_ext (proof_sibs \<lparr>digest = b32 (tree_root map_ext [?a, ?b]), pvalue = b32 ?a,
          proof_hashes = [b32 ?b], pos = [1]\<rparr>) (hval (FromBase32 (pvalue \<lparr>digest = b32 (tree_root map_ext [?a, ?b]),
            pvalue = b32 ?a, proof_hashes = [b32 ?b], pos = [1]\<rparr>))) \<union>
       climb_inputs map_ext (map (sibling_at map_ext [?a, ?b] 0) [0..<height (length [?a, ?b])]) ([?a, ?b] ! 0))"
    unfolding up sibs by (simp add: FromBase32_ToBase32)
qed simp_all

end
