(* ===== verification/Txn_Log.thy ===== *)
theory Txn_Log
  imports Merkle_Tree
begin

text \<open>
  \<open>ledger/common/logger.h\<close> and \<open>logger.cc\<close>: the binary transaction log entry and the write-ahead
  log with its index file.  Shown here: an entry that was encoded is parsed back, a log segment
  made of encoded entries is parsed into exactly those entries, and \<open>read\<close> returns for every
  indexed block its number and exactly the bytes logged for it.
\<close>

section \<open>TxnEntry\<close>

record TxnEntry =
  te_keys :: "string list"
  te_vals :: "string list"
  te_signature :: Hash
  te_time :: nat
  te_txnid :: nat

text \<open>One key and its value; \<open>memcpy(.., &keySize, 4)\<close> copies the low half of the size.\<close>

definition txn_pair :: "string \<times> string \<Rightarrow> string" where
  "txn_pair kv = le_bytes 4 (length (fst kv)) @ fst kv @ le_bytes 4 (length (snd kv)) @ snd kv"

definition TxnEntry_Encode :: "nat \<Rightarrow> string list \<Rightarrow> string list \<Rightarrow> Hash \<Rightarrow> nat \<Rightarrow> Chunk result" where
  "TxnEntry_Encode time keys vals signature txnid =
     (if length vals < length keys then Inl Out_of_bounds
      else Inr (Chunk_new kTxnLog
        (le_bytes 4 (length keys) @ concat (map txn_pair (zip keys vals)) @
         hval signature @ le_bytes 8 time @ le_bytes 8 txnid)))"

text \<open>The loop of \<open>Parse\<close>; the pointer \<open>chunk_->data() + offset\<close> is the rest of the buffer.\<close>

fun txn_parse_pairs :: "nat \<Rightarrow> string \<Rightarrow> (string \<times> string) list \<times> string" where
  "txn_parse_pairs 0 p = ([], p)"
| "txn_parse_pairs (Suc n) p =
     (let keySize = u32_at p; p1 = drop 4 p; key = take keySize p1; p2 = drop keySize p1;
          valSize = u32_at p2; p3 = drop 4 p2; val = take valSize p3;
          (rest, q) = txn_parse_pairs n (drop valSize p3)
      in ((key, val) # rest, q))"

definition TxnEntry_Parse :: "Chunk \<Rightarrow> TxnEntry" where
  "TxnEntry_Parse chunk =
     (let numEntries = u32_at (chunk_data chunk);
          (kvs, p) = txn_parse_pairs numEntries (drop 4 (chunk_data chunk))
      in \<lparr>te_keys = map fst kvs, te_vals = map snd kvs, te_signature = Some (take kByteLength p),
          te_time = u64_at (drop kByteLength p), te_txnid = u64_at (drop 8 (drop kByteLength p))\<rparr>)"

text \<open>\<open>ParseTxnEntries\<close>: a chunk that says it has no bytes makes the loop run forever.\<close>

partial_function (option) ParseTxnEntries_loop :: "string \<Rightarrow> TxnEntry list \<Rightarrow> TxnEntry list option" where
  "ParseTxnEntries_loop p result = (if p = [] then Some result
     else ParseTxnEntries_loop (drop (numBytes (Some p)) p) (result @ [TxnEntry_Parse (Some p)]))"

declare ParseTxnEntries_loop.simps [code]

definition ParseTxnEntries :: "string \<Rightarrow> TxnEntry list option" where
  "ParseTxnEntries data = ParseTxnEntries_loop data []"

section \<open>Logger\<close>

text \<open>
  The two files with the offsets of their descriptors, and the three counters.  \<open>write\<close> replaces
  bytes at the descriptor's offset and moves it; \<open>pread\<close> takes an offset and leaves the
  descriptor alone.  Bytes \<open>pread\<close> does not deliver stay uninitialised: the model is out of bounds.
\<close>

record Logger =
  wal :: string
  wal_off :: nat
  idx :: string
  idx_off :: nat
  lg_seq :: nat
  lg_start :: nat
  lg_end :: nat

definition file_write :: "string \<Rightarrow> nat \<Rightarrow> string \<Rightarrow> string" where
  "file_write f off data = take off f @ data @ drop (off + length data) f"

definition file_pread :: "string \<Rightarrow> nat \<Rightarrow> nat \<Rightarrow> string result" where
  "file_pread f n off = (if off + n \<le> length f then Inr (take n (drop off f)) else Inl Out_of_bounds)"

definition Logger_open :: "string \<Rightarrow> string \<Rightarrow> Logger" where
  "Logger_open w i = \<lparr>wal = w, wal_off = 0, idx = i, idx_off = 0, lg_seq = 0, lg_start = 0, lg_end = 0\<rparr>"

definition Logger_log :: "Logger \<Rightarrow> string \<Rightarrow> Logger" where
  "Logger_log l data = l\<lparr>wal := file_write (wal l) (wal_off l) data, wal_off := wal_off l + length data\<rparr>"

definition Logger_advance :: "Logger \<Rightarrow> nat \<Rightarrow> Logger" where
  "Logger_advance l sz = l\<lparr>lg_end := (lg_end l + sz) mod 2 ^ 64\<rparr>"

definition Logger_index :: "Logger \<Rightarrow> nat \<Rightarrow> Logger" where
  "Logger_index l block =
     (let start = lg_start l; en = lg_end l; seq = lg_seq l;
          entry = le_bytes 8 seq @ le_bytes 8 block @ le_bytes 8 start @ le_bytes 8 en
      in l\<lparr>lg_start := en, lg_seq := (seq + 1) mod 2 ^ 64,
           idx := file_write (idx l) (idx_off l) entry, idx_off := idx_off l + length entry\<rparr>)"

text \<open>\<open>read(seq, &block)\<close>: the bytes of the segment and the block number.\<close>

definition Logger_read :: "Logger \<Rightarrow> nat \<Rightarrow> (string \<times> nat) result" where
  "Logger_read l seq =
     rbind (file_pread (idx l) 32 (seq * 32)) (\<lambda>buffer.
       let block = u64_at (drop 8 buffer); walOffset = u64_at (drop 16 buffer);
           en = u64_at (drop 24 buffer); walSize = (en + 2 ^ 64 - walOffset) mod 2 ^ 64
       in rbind (file_pread (wal l) walSize walOffset) (\<lambda>buf. Inr (buf, block)))"

section \<open>Entries round trip\<close>

definition pair_ok :: "string \<times> string \<Rightarrow> bool" where
  "pair_ok kv \<longleftrightarrow> length (fst kv) < 2 ^ 32 \<and> length (snd kv) < 2 ^ 32"

lemma txn_parse_pairs_append:
  "list_all pair_ok kvs \<Longrightarrow> txn_parse_pairs (length kvs) (concat (map txn_pair kvs) @ rest) = (kvs, rest)"
proof (induction kvs)
  case Nil
  then show ?case by simp
next
  case (Cons kv kvs)
  then show ?case by (simp add: txn_pair_def pair_ok_def Let_def)
qed

definition TxnEntry_ok :: "TxnEntry \<Rightarrow> bool" where
  "TxnEntry_ok e \<longleftrightarrow> length (te_keys e) = length (te_vals e) \<and> length (te_keys e) < 2 ^ 32 \<and>
     list_all pair_ok (zip (te_keys e) (te_vals e)) \<and> te_time e < 2 ^ 64 \<and> te_txnid e < 2 ^ 64 \<and>
     te_signature e \<noteq> None \<and> length (hval (te_signature e)) = 20 \<and> te_signature e = Some (hval (te_signature e))"

definition txn_bytes :: "TxnEntry \<Rightarrow> string" where
  "txn_bytes e = le_bytes 4 (length (te_keys e)) @ concat (map txn_pair (zip (te_keys e) (te_vals e))) @
     hval (te_signature e) @ le_bytes 8 (te_time e) @ le_bytes 8 (te_txnid e)"

lemma TxnEntry_Encode_bytes:
  "TxnEntry_ok e \<Longrightarrow> TxnEntry_Encode (te_time e) (te_keys e) (te_vals e) (te_signature e) (te_txnid e)
     = Inr (Chunk_new kTxnLog (txn_bytes e))"
  by (simp add: TxnEntry_Encode_def TxnEntry_ok_def txn_bytes_def)

lemma drop_chunk_header [simp]: "drop 5 (le_bytes 4 n @ c # data) = data"
  by simp

lemma TxnEntry_Parse_bytes:
  assumes "TxnEntry_ok e"
  shows "TxnEntry_Parse (Some (le_bytes 4 n @ c # txn_bytes e @ rest)) = e"
proof -
  let ?kvs = "zip (te_keys e) (te_vals e)"
  have e: "length (te_keys e) = length ?kvs" "list_all pair_ok ?kvs" "length (te_keys e) < 2 ^ 32"
    and sig: "length (hval (te_signature e)) = 20" "Some (hval (te_signature e)) = te_signature e"
    and t: "te_time e < 2 ^ 64" "te_txnid e < 2 ^ 64"
    using assms by (auto simp: TxnEntry_ok_def)
  have kv: "map fst ?kvs = te_keys e" "map snd ?kvs = te_vals e"
    using assms by (simp_all add: TxnEntry_ok_def)
  have "txn_parse_pairs (length (te_keys e))
      (concat (map txn_pair ?kvs) @ hval (te_signature e) @ le_bytes 8 (te_time e) @ le_bytes 8 (te_txnid e) @ rest)
    = (?kvs, hval (te_signature e) @ le_bytes 8 (te_time e) @ le_bytes 8 (te_txnid e) @ rest)"
    using txn_parse_pairs_append [OF e(2)] unfolding e(1) .
  then show ?thesis
    using e(3) sig t kv
    by (simp add: TxnEntry_Parse_def txn_bytes_def chunk_data_def head_def kMetaLength_def kByteLength_def
      Let_def)
qed

interpretation txn_codec: codec TxnEntry_ok txn_bytes "\<lambda>s. Inr (TxnEntry_Parse (Chunk_new kTxnLog s))"
proof
  fix e assume "TxnEntry_ok e"
  then show "Inr (TxnEntry_Parse (Chunk_new kTxnLog (txn_bytes e))) = Inr e"
    using TxnEntry_Parse_bytes [of e _ _ "[]"] by (simp add: Chunk_new_def)
qed

lemma ParseTxnEntries_loop_entries:
  "list_all (\<lambda>e. TxnEntry_ok e \<and> 5 + length (txn_bytes e) < 2 ^ 32) es \<Longrightarrow>
   ParseTxnEntries_loop (concat (map (\<lambda>e. head (Chunk_new kTxnLog (txn_bytes e))) es)) acc = Some (acc @ es)"
proof (induction es arbitrary: acc)
  case Nil
  then show ?case by (simp add: ParseTxnEntries_loop.simps)
next
  case (Cons e es)
  let ?h = "\<lambda>e. head (Chunk_new kTxnLog (txn_bytes e))" and ?n = "5 + length (txn_bytes e)"
  let ?rest = "concat (map ?h es)"
  have h: "?h e = le_bytes 4 ?n @ char_of (ctype_code kTxnLog) # txn_bytes e"
    by (simp add: Chunk_new_def head_def kMetaLength_def)
  have n: "numBytes (Some (?h e @ ?rest)) = ?n"
    using Cons.prems u32_at_le_bytes [of ?n] unfolding h by (simp add: numBytes_def head_def)
  have d: "drop ?n (?h e @ ?rest) = ?rest" unfolding h by simp
  have p: "TxnEntry_Parse (Some (?h e @ ?rest)) = e"
    using TxnEntry_Parse_bytes [of e ?n "char_of (ctype_code kTxnLog)" ?rest] Cons.prems by (simp add: h)
  have ne: "?h e @ ?rest \<noteq> []" unfolding h by simp
  have "ParseTxnEntries_loop (?h e @ ?rest) acc = ParseTxnEntries_loop ?rest (acc @ [e])"
    by (subst ParseTxnEntries_loop.simps) (simp only: ne if_False n d p)
  then show ?case using Cons by simp
qed


section \<open>The log holds what was written\<close>

text \<open>How the ledger drives the log: every transaction is logged and advanced over, then the block is indexed.\<close>

definition log_block :: "Logger \<Rightarrow> nat \<times> string list \<Rightarrow> Logger" where
  "log_block l b = Logger_index (foldl (\<lambda>l d. Logger_advance (Logger_log l d) (length d)) l (snd b)) (fst b)"

definition seg :: "(nat \<times> string list) list \<Rightarrow> string" where
  "seg bs = concat (concat (map snd bs))"

definition idx_entry :: "(nat \<times> string list) list \<Rightarrow> nat \<Rightarrow> string" where
  "idx_entry bs k = le_bytes 8 k @ le_bytes 8 (fst (bs ! k)) @
     le_bytes 8 (length (seg (take k bs))) @ le_bytes 8 (length (seg (take (Suc k) bs)))"

definition idx_file :: "(nat \<times> string list) list \<Rightarrow> string" where
  "idx_file bs = concat (map (idx_entry bs) [0..<length bs])"

lemma length_idx_entry [simp]: "length (idx_entry bs k) = 32"
  by (simp add: idx_entry_def)

lemma length_idx_file [simp]: "length (idx_file bs) = length bs * 32"
  unfolding idx_file_def by (subst length_concat_fixed) auto

lemma idx_file_snoc: "idx_file (bs @ [b]) = idx_file bs @ idx_entry (bs @ [b]) (length bs)"
proof -
  have "map (idx_entry (bs @ [b])) [0..<length bs] = map (idx_entry bs) [0..<length bs]"
    by (simp add: idx_entry_def nth_append)
  then have "concat (map (idx_entry (bs @ [b])) [0..<length bs]) = idx_file bs"
    by (simp only: idx_file_def)
  then show ?thesis by (simp add: idx_file_def [of "bs @ [b]"])
qed

definition log_inv :: "Logger \<Rightarrow> (nat \<times> string list) list \<Rightarrow> bool" where
  "log_inv l bs \<longleftrightarrow> (\<exists>j. wal l = seg bs @ j) \<and> (\<exists>j. idx l = idx_file bs @ j) \<and>
     wal_off l = length (seg bs) \<and> lg_end l = length (seg bs) \<and> lg_start l = length (seg bs) \<and>
     idx_off l = length (idx_file bs) \<and> lg_seq l = length bs"

lemma file_write_append: "file_write (w @ j) (length w) data = w @ data @ drop (length data) j"
  by (simp add: file_write_def)

lemma log_segment:
  assumes "wal l = w @ j" "wal_off l = length w" "lg_end l = length w" "length w + length (concat ds) < 2 ^ 64"
  shows "\<exists>j'. foldl (\<lambda>l d. Logger_advance (Logger_log l d) (length d)) l ds =
    l\<lparr>wal := w @ concat ds @ j', wal_off := length w + length (concat ds), lg_end := length w + length (concat ds)\<rparr>"
  using assms
proof (induction ds arbitrary: l w j)
  case Nil
  then show ?case by (intro exI [of _ j]) simp
next
  case (Cons d ds)
  let ?l = "Logger_advance (Logger_log l d) (length d)"
  have l: "?l = l\<lparr>wal := (w @ d) @ drop (length d) j, wal_off := length (w @ d), lg_end := length (w @ d)\<rparr>"
    using Cons.prems by (simp add: Logger_advance_def Logger_log_def file_write_append)
  obtain j' where "foldl (\<lambda>l d. Logger_advance (Logger_log l d) (length d)) ?l ds =
      ?l\<lparr>wal := (w @ d) @ concat ds @ j', wal_off := length (w @ d) + length (concat ds),
         lg_end := length (w @ d) + length (concat ds)\<rparr>"
    using Cons.IH [of ?l "w @ d" "drop (length d) j"] Cons.prems l by auto
  then show ?case unfolding l by (intro exI [of _ j']) (simp add: l add.assoc)
qed

lemma log_inv_block:
  assumes "log_inv l bs" "length (seg (bs @ [b])) < 2 ^ 64" "length bs + 1 < 2 ^ 64"
  shows "log_inv (log_block l b) (bs @ [b])"
proof -
  obtain j i where w: "wal l = seg bs @ j" "wal_off l = length (seg bs)" "lg_end l = length (seg bs)"
      "lg_start l = length (seg bs)"
    and ix: "idx l = idx_file bs @ i" "idx_off l = length (idx_file bs)" "lg_seq l = length bs"
    using assms(1) by (auto simp: log_inv_def)
  have s: "seg (bs @ [b]) = seg bs @ concat (snd b)" by (simp add: seg_def)
  obtain j' where f: "foldl (\<lambda>l d. Logger_advance (Logger_log l d) (length d)) l (snd b) =
      l\<lparr>wal := seg bs @ concat (snd b) @ j', wal_off := length (seg bs) + length (concat (snd b)),
         lg_end := length (seg bs) + length (concat (snd b))\<rparr>"
    using log_segment [OF w(1-3), of "snd b"] assms(2) s by auto
  have e: "idx_entry (bs @ [b]) (length bs) = le_bytes 8 (length bs) @ le_bytes 8 (fst b) @
      le_bytes 8 (length (seg bs)) @ le_bytes 8 (length (seg bs) + length (concat (snd b)))"
    by (simp add: idx_entry_def s)
  show ?thesis
    unfolding log_inv_def log_block_def f Logger_index_def Let_def
    using w ix assms(3) file_write_append [of "idx_file bs" i "idx_entry (bs @ [b]) (length bs)"]
    by (simp add: s idx_file_snoc e)
qed

lemma log_inv_history:
  "length (seg bs) < 2 ^ 64 \<Longrightarrow> length bs < 2 ^ 64 \<Longrightarrow> log_inv (foldl log_block (Logger_open w i) bs) bs"
proof (induction bs rule: rev_induct)
  case Nil
  then show ?case by (simp add: log_inv_def Logger_open_def seg_def idx_file_def)
next
  case (snoc b bs)
  have "length (seg bs) \<le> length (seg (bs @ [b]))" by (simp add: seg_def)
  then have "log_inv (foldl log_block (Logger_open w i) bs) bs" using snoc by simp
  then show ?case using log_inv_block snoc.prems by simp
qed



lemma Logger_read_spec:
  assumes inv: "log_inv l bs" and k: "k < length bs" "length bs < 2 ^ 64" and b: "fst (bs ! k) < 2 ^ 64"
    and total: "length (seg bs) < 2 ^ 64"
  shows "Logger_read l k = Inr (concat (snd (bs ! k)), fst (bs ! k))"
proof -
  obtain j i where w: "wal l = seg bs @ j" and ix: "idx l = idx_file bs @ i"
    using inv by (auto simp: log_inv_def)
  let ?s = "length (seg (take k bs))" and ?e = "length (seg (take (Suc k) bs))"
  have split: "seg bs = seg (take k bs) @ concat (snd (bs ! k)) @ seg (drop (Suc k) bs)"
    using id_take_nth_drop [OF k(1)] by (metis (no_types, lifting) append_assoc concat.simps(2)
      concat_append list.simps(9) map_append seg_def)
  have e: "?e = ?s + length (concat (snd (bs ! k)))"
    using k(1) by (simp add: seg_def take_Suc_conv_app_nth)
  have le: "?e \<le> length (seg bs)" unfolding e split by simp
  have "take 32 (drop (k * 32) (idx l)) = idx_entry bs k"
    using concat_fixed_nth [of "map (idx_entry bs) [0..<length bs]" 32 k i] k(1) by (simp add: ix idx_file_def)
  moreover have "k * 32 + 32 \<le> length (idx l)" using k(1) by (simp add: ix)
  ultimately have buf: "file_pread (idx l) 32 (k * 32) = Inr (idx_entry bs k)" by (simp add: file_pread_def)
  have f: "u64_at (drop 8 (idx_entry bs k)) = fst (bs ! k)" "u64_at (drop 16 (idx_entry bs k)) = ?s"
    "u64_at (drop 24 (idx_entry bs k)) = ?e"
    using b total le e u64_at_le_bytes [of ?e "[]"] by (simp_all add: idx_entry_def)
  have sz: "(?e + 2 ^ 64 - ?s) mod 2 ^ 64 = length (concat (snd (bs ! k)))"
    using e le total by simp
  have "file_pread (wal l) (length (concat (snd (bs ! k)))) ?s = Inr (concat (snd (bs ! k)))"
    by (simp add: file_pread_def w split)
  then show ?thesis unfolding Logger_read_def buf rbind_simps Let_def f sz by simp
qed

text \<open>
  C12: \<open>Logger::read\<close> returns what was logged.  After any history of \<open>log\<close>/\<open>advance\<close>/\<open>index\<close> over
  blocks, on files with any previous contents, reading block \<open>k\<close> gives the block number passed to
  its \<open>index\<close> and exactly the bytes logged for it, whatever was logged before or after.
\<close>

theorem Logger_read_history:
  assumes "k < length bs" "length bs < 2 ^ 64" "length (seg bs) < 2 ^ 64" "fst (bs ! k) < 2 ^ 64"
  shows "Logger_read (foldl log_block (Logger_open w i) bs) k = Inr (concat (snd (bs ! k)), fst (bs ! k))"
  using Logger_read_spec [OF log_inv_history] assms by blast

section \<open>Witnesses\<close>

definition sample_entry :: TxnEntry where
  "sample_entry = \<lparr>te_keys = [''k1'', ''k2''], te_vals = [''v'', []], te_signature = Some (replicate 20 CHR ''s''),
     te_time = 7, te_txnid = 3\<rparr>"

lemma sample_entry_ok: "TxnEntry_ok sample_entry" "length (txn_bytes sample_entry) < 100"
  by (simp_all add: TxnEntry_ok_def sample_entry_def pair_ok_def txn_bytes_def txn_pair_def hval_def kByteLength_def)


theorem Logger_read_history_witness:
  "Logger_read (foldl log_block (Logger_open [] []) [(4, [''ab'', ''c'']), (9, [''de''])]) 1 = Inr (''de'', 9)"
  using Logger_read_history [of 1 "[(4, [''ab'', ''c'']), (9, [''de''])]" "[]" "[]"] by (simp add: seg_def)

end
