(* ===== verification/Ledger_Types.thy ===== *)
theory Ledger_Types
  imports Txn_Log
begin

text \<open>
  \<open>ledger/ledgerdb/types.h\<close>: the records LedgerDB keeps as text, \<open>CommitInfo\<close>, \<open>DigestInfo\<close> and
  \<open>BlockData\<close>.  The first two are codecs on fields without the separator; reading a \<open>BlockData\<close>
  back does not give what was written, and the theory says what it gives.
\<close>

section \<open>CommitInfo\<close>

record CommitInfo =
  ci_commit_seq :: nat
  ci_prev_digest :: string
  ci_tip_block :: nat
  ci_mtroot :: string
  ci_mtrootkey :: string
  ci_mptroot :: string

definition CommitInfo_ToString :: "CommitInfo \<Rightarrow> string" where
  "CommitInfo_ToString c = to_string (ci_commit_seq c) @ ''|'' @ ci_prev_digest c @ ''|'' @
     to_string (ci_tip_block c) @ ''|'' @ ci_mtroot c @ ''|'' @ ci_mtrootkey c @ ''|'' @ ci_mptroot c"

definition CommitInfo_of_string :: "string \<Rightarrow> CommitInfo result" where
  "CommitInfo_of_string str = (let items = splitBy str (CHR ''|'') in
     rbind (vec_at items 0) (\<lambda>s0. rbind (stoul s0) (\<lambda>cs.
     rbind (vec_at items 1) (\<lambda>pd. rbind (vec_at items 2) (\<lambda>s2. rbind (stoul s2) (\<lambda>tb.
     rbind (vec_at items 3) (\<lambda>mr. rbind (vec_at items 4) (\<lambda>mrk. rbind (vec_at items 5) (\<lambda>mpr.
       Inr \<lparr>ci_commit_seq = cs, ci_prev_digest = pd, ci_tip_block = tb, ci_mtroot = mr,
            ci_mtrootkey = mrk, ci_mptroot = mpr\<rparr>)))))))))"

section \<open>DigestInfo\<close>

record DigestInfo =
  di_commit_seq :: nat
  di_tip_block :: nat
  di_digest :: string

definition DigestInfo_ToString :: "DigestInfo \<Rightarrow> string" where
  "DigestInfo_ToString d = to_string (di_commit_seq d) @ ''|'' @ to_string (di_tip_block d) @ ''|'' @ di_digest d"

definition DigestInfo_of_string :: "string \<Rightarrow> DigestInfo result" where
  "DigestInfo_of_string str = (let items = splitBy str (CHR ''|'') in
     rbind (vec_at items 0) (\<lambda>s0. rbind (stoul s0) (\<lambda>cs.
     rbind (vec_at items 1) (\<lambda>s1. rbind (stoul s1) (\<lambda>tb.
     rbind (vec_at items 2) (\<lambda>di. Inr \<lparr>di_commit_seq = cs, di_tip_block = tb, di_digest = di\<rparr>))))))"

section \<open>BlockData\<close>

record BlockData =
  bd_keys :: "string list"
  bd_vals :: "string list"

text \<open>
  The result of \<open>res.substr(1)\<close> is dropped; the call still throws \<open>std::out_of_range\<close> on the empty
  string.
\<close>

definition BlockData_ToString :: "BlockData \<Rightarrow> string result" where
  "BlockData_ToString b =
     (if length (bd_vals b) < length (bd_keys b) then Inl Out_of_bounds
      else let res = concat (map (\<lambda>(k, v). ''/'' @ k @ ''|'' @ v) (zip (bd_keys b) (bd_vals b)))
        in if length res < 1 then Inl Out_of_range else Inr res)"

text \<open>The constructor splits the whole string, not the piece \<open>kv\<close>, in every iteration.\<close>

fun BlockData_loop :: "string \<Rightarrow> string list \<Rightarrow> BlockData \<Rightarrow> BlockData result" where
  "BlockData_loop str [] b = Inr b"
| "BlockData_loop str (kv # kvs) b =
     (let items = splitBy str (CHR ''|'') in
      rbind (vec_at items 0) (\<lambda>k. rbind (vec_at items 1) (\<lambda>v.
        BlockData_loop str kvs (b\<lparr>bd_keys := bd_keys b @ [k], bd_vals := bd_vals b @ [v]\<rparr>))))"

definition BlockData_of_string :: "string \<Rightarrow> BlockData result" where
  "BlockData_of_string str = BlockData_loop str (splitBy str (CHR ''/'')) \<lparr>bd_keys = [], bd_vals = []\<rparr>"

section \<open>Round trips\<close>

definition no_bar :: "string \<Rightarrow> bool" where
  "no_bar s \<longleftrightarrow> CHR ''|'' \<notin> set s"

definition CommitInfo_ok :: "CommitInfo \<Rightarrow> bool" where
  "CommitInfo_ok c \<longleftrightarrow> ci_commit_seq c < 2 ^ 64 \<and> ci_tip_block c < 2 ^ 64 \<and> no_bar (ci_prev_digest c) \<and>
     no_bar (ci_mtroot c) \<and> no_bar (ci_mtrootkey c) \<and> no_bar (ci_mptroot c)"

definition DigestInfo_ok :: "DigestInfo \<Rightarrow> bool" where
  "DigestInfo_ok d \<longleftrightarrow> di_commit_seq d < 2 ^ 64 \<and> di_tip_block d < 2 ^ 64 \<and> no_bar (di_digest d)"

lemmas split_simps = splitBy_append [where d = "CHR ''|''"] splitBy_last [where d = "CHR ''|''"]

interpretation commit_codec: codec CommitInfo_ok CommitInfo_ToString CommitInfo_of_string
proof
  fix c assume "CommitInfo_ok c"
  then show "CommitInfo_of_string (CommitInfo_ToString c) = Inr c"
    by (simp add: CommitInfo_ok_def no_bar_def CommitInfo_of_string_def CommitInfo_ToString_def split_simps vec_at_def)
qed

interpretation digest_codec: codec DigestInfo_ok DigestInfo_ToString DigestInfo_of_string
proof
  fix d assume "DigestInfo_ok d"
  then show "DigestInfo_of_string (DigestInfo_ToString d) = Inr d"
    by (simp add: DigestInfo_ok_def no_bar_def DigestInfo_of_string_def DigestInfo_ToString_def split_simps vec_at_def)
qed

text \<open>
  \<open>CommitInfo\<close> survives the store.  A commit record written to the ledger's store under a key
  and read back from there parses to the same record.
\<close>

theorem CommitInfo_stored:
  assumes "ext_ok E" "CommitInfo_ok c"
  shows "CommitInfo_of_string (DB_Get_str E (db_put E d key (CommitInfo_ToString c)) key) = Inr c"
  using commit_codec.dec_enc [OF assms(2)] DB_Get_str_put [OF assms(1)] by simp

theorem CommitInfo_stored_witness:
  "CommitInfo_of_string (DB_Get_str map_ext (db_put map_ext map_db ''c'' (CommitInfo_ToString
      \<lparr>ci_commit_seq = 3, ci_prev_digest = ''D'', ci_tip_block = 12, ci_mtroot = ''R'', ci_mtrootkey = ''mt2-0'', ci_mptroot = ''P''\<rparr>)) ''c'')
    = Inr \<lparr>ci_commit_seq = 3, ci_prev_digest = ''D'', ci_tip_block = 12, ci_mtroot = ''R'', ci_mtrootkey = ''mt2-0'', ci_mptroot = ''P''\<rparr>"
  by (rule CommitInfo_stored [OF ext_ok_map_ext]) (simp add: CommitInfo_ok_def no_bar_def)


section \<open>What becomes of a block\<close>

definition block_text :: "(string \<times> string) list \<Rightarrow> string" where
  "block_text kvs = concat (map (\<lambda>(k, v). ''/'' @ k @ ''|'' @ v) kvs)"

definition plain_text :: "string \<Rightarrow> bool" where
  "plain_text s \<longleftrightarrow> no_bar s \<and> CHR ''/'' \<notin> set s"

lemma BlockData_loop_items:
  "splitBy str (CHR ''|'') = k # v # rest \<Longrightarrow> BlockData_loop str kvs b =
     Inr (b\<lparr>bd_keys := bd_keys b @ replicate (length kvs) k, bd_vals := bd_vals b @ replicate (length kvs) v\<rparr>)"
  by (induction str kvs b rule: BlockData_loop.induct) (simp_all add: vec_at_def replicate_append_same)

lemma count_slash: "list_all (\<lambda>(k, v). plain_text k \<and> plain_text v) kvs \<Longrightarrow>
    count_list (block_text kvs) (CHR ''/'') = length kvs"
  by (induction kvs) (auto simp: block_text_def plain_text_def count_notin)

lemma BlockData_text: "kvs \<noteq> [] \<Longrightarrow> BlockData_ToString \<lparr>bd_keys = map fst kvs, bd_vals = map snd kvs\<rparr> = Inr (block_text kvs)"
proof -
  assume "kvs \<noteq> []"
  then have "block_text kvs \<noteq> []" by (cases kvs) (auto simp: block_text_def)
  moreover have z: "zip (map fst kvs) (map snd kvs) = kvs" by (simp add: zip_map_fst_snd)
  ultimately show ?thesis unfolding BlockData_ToString_def BlockData.simps z block_text_def Let_def by (simp del: concat_eq_Nil_conv)
qed

lemma BlockData_of_text:
  assumes "list_all (\<lambda>(k, v). plain_text k \<and> plain_text v) ((k, v) # kvs)"
  shows "BlockData_of_string (block_text ((k, v) # kvs)) = Inr
      \<lparr>bd_keys = replicate (length kvs + 2) (''/'' @ k),
       bd_vals = replicate (length kvs + 2) (v @ (if kvs = [] then [] else ''/'' @ fst (hd kvs)))\<rparr>"
proof -
  let ?str = "block_text ((k, v) # kvs)"
  let ?v = "v @ (if kvs = [] then [] else ''/'' @ fst (hd kvs))"
  have "length (splitBy ?str (CHR ''/'')) = length kvs + 2"
    using count_slash [OF assms] by (simp add: length_splitBy)
  moreover obtain rest where "splitBy ?str (CHR ''|'') = (''/'' @ k) # ?v # rest"
  proof (cases kvs)
    case Nil
    have "?str = (''/'' @ k) @ CHR ''|'' # v" by (simp add: Nil block_text_def)
    then show ?thesis
      using that assms Nil splitBy_append [of "CHR ''|''" "''/'' @ k" v] splitBy_last [of "CHR ''|''" v]
      by (simp add: plain_text_def no_bar_def)
  next
    case (Cons kv kvs')
    obtain k' v' where kv: "kv = (k', v')" by (cases kv)
    have "?str = (''/'' @ k) @ CHR ''|'' # (v @ ''/'' @ k') @ CHR ''|'' # v' @ block_text kvs'"
      by (simp add: Cons kv block_text_def)
    then show ?thesis
      using that assms Cons kv splitBy_append [of "CHR ''|''" "''/'' @ k"]
        splitBy_append [of "CHR ''|''" "v @ ''/'' @ k'"]
      by (simp add: plain_text_def no_bar_def)
  qed
  ultimately show ?thesis
    using BlockData_loop_items [of ?str "''/'' @ k" ?v] by (auto simp: BlockData_of_string_def)
qed

text \<open>
  A \<open>BlockData\<close> that is written and read back is not the block.  For any block of \<open>n\<close> entries
  without separators in its texts, the constructor applied to the output of \<open>ToString\<close> yields
  \<open>n + 1\<close> copies of one entry: the first key with a slash before it, and the first value with the
  second key behind it.
\<close>

theorem BlockData_reread:
  assumes "list_all (\<lambda>(k, v). plain_text k \<and> plain_text v) ((k, v) # kvs)"
  shows "\<exists>str. BlockData_ToString \<lparr>bd_keys = map fst ((k, v) # kvs), bd_vals = map snd ((k, v) # kvs)\<rparr> = Inr str \<and>
    BlockData_of_string str = Inr
      \<lparr>bd_keys = replicate (length kvs + 2) (''/'' @ k),
       bd_vals = replicate (length kvs + 2) (v @ (if kvs = [] then [] else ''/'' @ fst (hd kvs)))\<rparr>"
  using BlockData_text [of "(k, v) # kvs"] BlockData_of_text [OF assms] by blast

theorem BlockData_reread_witness:
  "\<exists>str. BlockData_ToString \<lparr>bd_keys = map fst ((''a'', ''1'') # [(''b'', ''2'')]), bd_vals = map snd ((''a'', ''1'') # [(''b'', ''2'')])\<rparr> = Inr str \<and>
    BlockData_of_string str = Inr \<lparr>bd_keys = replicate 3 ''/a'', bd_vals = replicate 3 ''1/b''\<rparr>"
  using BlockData_reread [of "''a''" "''1''" "[(''b'', ''2'')]"]
  by (simp add: plain_text_def no_bar_def numeral_3_eq_3)

end
