(* ===== verification/SQL_Merkle.thy ===== *)
theory SQL_Merkle
  imports Merkle_Tree
begin

text \<open>
  \<open>ledger/sqlledger/sqlldg_mt.cc\<close>: the Merkle tree SQL Ledger builds in one go over the documents of
  a transaction and over the transactions of a block, its proofs and their check.
\<close>

section \<open>Model\<close>

definition smt_key :: "string \<Rightarrow> nat \<Rightarrow> nat \<Rightarrow> string" where
  "smt_key mtid level i = mtid @ ''|'' @ to_string level @ ''|'' @ to_string i"

text \<open>The first loop of \<open>Build\<close>: hash the leaves from place \<open>i\<close> on and store the hashes.\<close>

fun smt_leaves :: "'s ext \<Rightarrow> string \<Rightarrow> nat \<Rightarrow> string list \<Rightarrow> 's DB \<Rightarrow> Hash list \<times> 's DB" where
  "smt_leaves E mtid i [] d = ([], d)"
| "smt_leaves E mtid i (leaf # leaves) d =
     (let leaf_hash = ComputeFrom E leaf;
          (hs, d') = smt_leaves E mtid (i + 1) leaves
            (db_put E d (mtid @ ''|0|'' @ to_string i) (ToBase32 leaf_hash))
      in (Hash_Clone leaf_hash # hs, d'))"

text \<open>The inner loop from place \<open>i\<close> of a level on.\<close>

fun smt_parents :: "'s ext \<Rightarrow> string \<Rightarrow> nat \<Rightarrow> nat \<Rightarrow> Hash list \<Rightarrow> 's DB \<Rightarrow> Hash list \<times> 's DB" where
  "smt_parents E mtid level i [] d = ([], d)"
| "smt_parents E mtid level i [h] d =
     (let parent = ComputeFrom E (hval h)
      in ([Hash_Clone parent], db_put E d (smt_key mtid (level + 1) (i div 2)) (ToBase32 parent)))"
| "smt_parents E mtid level i (h1 # h2 # hs) d =
     (let parent = ComputeFrom E (hval h1 @ hval h2);
          (ps, d') = smt_parents E mtid level (i + 2) hs
            (db_put E d (smt_key mtid (level + 1) (i div 2)) (ToBase32 parent))
      in (Hash_Clone parent # ps, d'))"

lemma length_smt_parents [simp]: "length (fst (smt_parents E mtid level i hs d)) = (length hs + 1) div 2"
  by (induction E mtid level i hs d rule: smt_parents.induct) (auto simp: Let_def case_prod_unfold)

function smt_loop :: "'s ext \<Rightarrow> string \<Rightarrow> nat \<Rightarrow> Hash list \<Rightarrow> 's DB \<Rightarrow> nat \<times> Hash list \<times> 's DB" where
  "smt_loop E mtid level hs d =
     (if length hs > 1 then
        (let (ps, d') = smt_parents E mtid level 0 hs d in smt_loop E mtid (level + 1) ps d')
      else (level, hs, d))"
  by pat_completeness auto
termination
proof (relation "measure (\<lambda>(E, mtid, level, hs, d). length hs)", goal_cases)
  case (2 E mtid level hs d x ps d')
  then have "length ps = (length hs + 1) div 2" by (metis fst_conv length_smt_parents)
  then show ?case using 2(1) by simp
qed simp

declare smt_loop.simps [simp del]

text \<open>\<open>Build\<close>: with no leaves the out parameters keep their (empty) values.\<close>

definition smt_Build :: "'s ext \<Rightarrow> 's DB \<Rightarrow> string \<Rightarrow> string list \<Rightarrow> 's DB \<times> string \<times> string" where
  "smt_Build E d mtid leaves =
     (if length leaves = 0 then (d, [], [])
      else let (hs, d1) = smt_leaves E mtid 0 leaves d;
               (level, top, d2) = smt_loop E mtid 0 hs d1
           in (d2, to_string level, ToBase32 (top ! 0)))"

fun smt_proof_loop :: "'s ext \<Rightarrow> 's DB \<Rightarrow> string \<Rightarrow> nat \<Rightarrow> nat \<Rightarrow> nat \<Rightarrow> (string \<times> nat) list" where
  "smt_proof_loop E d mtid 0 i ptr = []"
| "smt_proof_loop E d mtid (Suc n) i ptr =
     (if ptr mod 2 = 0 then (DB_Get_str E d (smt_key mtid i (ptr + 1)), 1)
      else (DB_Get_str E d (smt_key mtid i (ptr - 1)), 0)) # smt_proof_loop E d mtid n (i + 1) (ptr div 2)"

text \<open>\<open>GetProof\<close>; the caller fills in \<open>value\<close> afterwards.\<close>

definition smt_GetProof :: "'s ext \<Rightarrow> 's DB \<Rightarrow> string \<Rightarrow> nat \<Rightarrow> nat \<Rightarrow> Proof" where
  "smt_GetProof E d mtid level seq =
     (let entries = smt_proof_loop E d mtid level 0 seq
      in \<lparr>digest = DB_Get_str E d (mtid @ ''|'' @ to_string level @ ''|0''), pvalue = [],
          proof_hashes = map fst entries, pos = map snd entries\<rparr>)"

definition smt_Verify :: "'s ext \<Rightarrow> Proof \<Rightarrow> bool result" where
  "smt_Verify E p = rbind (Verify_loop E (proof_hashes p) (pos p) (ComputeFrom E (pvalue p)))
     (\<lambda>calc_hash. Inr (Hash_eq calc_hash (FromBase32 (digest p))))"

section \<open>What Build leaves in the store\<close>

lemma smt_key_inject [key_simps]: "smt_key m k j = smt_key m k' j' \<longleftrightarrow> k = k' \<and> j = j'"
  using sep_unique [of "CHR ''|''" "to_string k" "to_string k'"] by (simp add: smt_key_def)

lemma smt_leaf_key: "mtid @ ''|0|'' @ to_string i = smt_key mtid 0 i"
  by (simp add: smt_key_def to_string_0)

lemma smt_root_key: "mtid @ ''|'' @ to_string k @ ''|0'' = smt_key mtid k 0"
  by (simp add: smt_key_def to_string_0)

abbreviation leaf_hashes :: "'s ext \<Rightarrow> string list \<Rightarrow> string list" where
  "leaf_hashes E leaves \<equiv> map (\<lambda>l. hval (ComputeFrom E l)) leaves"

text \<open>Storing a run of nodes of one level: what both loops of \<open>Build\<close> do to the store.\<close>

fun put_nodes :: "'s ext \<Rightarrow> 's DB \<Rightarrow> string \<Rightarrow> nat \<Rightarrow> nat \<Rightarrow> string list \<Rightarrow> 's DB" where
  "put_nodes E d mtid k i [] = d"
| "put_nodes E d mtid k i (x # xs) = put_nodes E (db_put E d (smt_key mtid k i) (b32 x)) mtid k (i + 1) xs"

lemma put_nodes_frame:
  assumes E: "ext_ok E"
  shows "(\<And>j. j < length xs \<Longrightarrow> key \<noteq> smt_key mtid k (i + j)) \<Longrightarrow>
    db_map E (put_nodes E d mtid k i xs) key = db_map E d key"
proof (induction xs arbitrary: d i)
  case Nil
  then show ?case by simp
next
  case (Cons x xs)
  have "key \<noteq> smt_key mtid k (i + 1 + j)" if "j < length xs" for j using Cons.prems [of "Suc j"] that by simp
  then show ?case using Cons.IH [where i = "i + 1"] Cons.prems [of 0] E by simp
qed

lemma put_nodes_stored:
  assumes E: "ext_ok E"
  shows "j < length xs \<Longrightarrow> db_map E (put_nodes E d mtid k i xs) (smt_key mtid k (i + j)) = Some (b32 (xs ! j))"
proof (induction xs arbitrary: d i j)
  case Nil
  then show ?case by simp
next
  case (Cons x xs)
  show ?case
  proof (cases j)
    case 0
    then show ?thesis using E put_nodes_frame [OF E, of xs "smt_key mtid k i" mtid k "i + 1"]
      by (simp add: smt_key_inject)
  next
    case (Suc j')
    then show ?thesis using Cons.IH [of j' _ "i + 1"] Cons.prems by simp
  qed
qed

lemma smt_leaves_spec:
  "ext_ok E \<Longrightarrow> smt_leaves E mtid i leaves d =
    (map Some (leaf_hashes E leaves), put_nodes E d mtid 0 i (leaf_hashes E leaves))"
  by (induction E mtid i leaves d rule: smt_leaves.induct)
    (simp_all only: smt_leaves.simps smt_leaf_key Let_def list.map put_nodes.simps ToBase32_ComputeFrom
      prod.case Hash_Clone_ComputeFrom)

lemma smt_parents_spec:
  "ext_ok E \<Longrightarrow> hashes20 bs \<Longrightarrow> even i \<Longrightarrow> smt_parents E mtid level i (map Some bs) d =
    (map Some (parents E bs), put_nodes E d mtid (level + 1) (i div 2) (parents E bs))"
proof (induction E bs arbitrary: i d rule: parents.induct)
  case (3 E x y zs)
  then show ?case by (simp add: Let_def hashes20_def ToBase32_ComputeFrom)
qed (simp_all add: hashes20_def Let_def ToBase32_ComputeFrom)

text \<open>The nodes of the levels up to \<open>k\<close> are stored; keys elsewhere are as they were.\<close>

definition smt_stored :: "'s ext \<Rightarrow> 's DB \<Rightarrow> 's DB \<Rightarrow> string \<Rightarrow> string list \<Rightarrow> nat \<Rightarrow> bool" where
  "smt_stored E d0 d mtid xs k \<longleftrightarrow>
     (\<forall>l j. l \<le> k \<and> j < length (tree_level E xs l) \<longrightarrow>
        db_map E d (smt_key mtid l j) = Some (b32 (tree_level E xs l ! j))) \<and>
     (\<forall>key. (\<forall>l j. l \<le> k \<and> j < length (tree_level E xs l) \<longrightarrow> key \<noteq> smt_key mtid l j) \<longrightarrow>
        db_map E d key = db_map E d0 key)"

lemma smt_stored_step:
  assumes E: "ext_ok E" and st: "smt_stored E d0 d mtid xs k"
  shows "smt_stored E d0 (put_nodes E d mtid (Suc k) 0 (tree_level E xs (Suc k))) mtid xs (Suc k)"
  unfolding smt_stored_def
proof (intro conjI allI impI)
  fix l j assume lj: "l \<le> Suc k \<and> j < length (tree_level E xs l)"
  show "db_map E (put_nodes E d mtid (Suc k) 0 (tree_level E xs (Suc k))) (smt_key mtid l j) =
      Some (b32 (tree_level E xs l ! j))"
  proof (cases "l = Suc k")
    case True
    then show ?thesis using put_nodes_stored [OF E, of j "tree_level E xs (Suc k)" d mtid "Suc k" 0] lj by simp
  next
    case False
    then have "db_map E (put_nodes E d mtid (Suc k) 0 (tree_level E xs (Suc k))) (smt_key mtid l j) =
        db_map E d (smt_key mtid l j)"
      by (intro put_nodes_frame [OF E]) (simp add: smt_key_inject)
    then show ?thesis using False lj st by (simp add: smt_stored_def)
  qed
next
  fix key
  assume "\<forall>l j. l \<le> Suc k \<and> j < length (tree_level E xs l) \<longrightarrow> key \<noteq> smt_key mtid l j"
  then show "db_map E (put_nodes E d mtid (Suc k) 0 (tree_level E xs (Suc k))) key = db_map E d0 key"
    using st put_nodes_frame [OF E, of "tree_level E xs (Suc k)" key mtid "Suc k" 0 d]
    by (simp add: smt_stored_def)
qed

lemma smt_loop_spec:
  assumes E: "ext_ok E" and xs: "hashes20 xs" "xs \<noteq> []"
  shows "smt_stored E d0 d mtid xs k \<Longrightarrow> k \<le> height (length xs) \<Longrightarrow>
    \<exists>d'. smt_loop E mtid k (map Some (tree_level E xs k)) d =
      (height (length xs), [Some (tree_root E xs)], d') \<and> smt_stored E d0 d' mtid xs (height (length xs))"
proof (induction "height (length xs) - k" arbitrary: k d)
  case 0
  then have "k = height (length xs)" by simp
  then show ?case using 0 tree_level_height [OF xs(2), of E] by (simp add: smt_loop.simps)
next
  case (Suc n)
  let ?l = "tree_level E xs k"
  have "2 ^ k < length xs" using Suc(2) height_le_iff [of "length xs" k] by linarith
  then have guard: "1 < length ?l" by (simp add: less_length_tree_level)
  have h: "hashes20 ?l" using hashes20_level [OF E xs(1), of 0 k] by simp
  have "smt_loop E mtid k (map Some ?l) d =
      smt_loop E mtid (Suc k) (map Some (tree_level E xs (Suc k))) (put_nodes E d mtid (Suc k) 0 (tree_level E xs (Suc k)))"
    using guard smt_parents_spec [OF E h, of 0 mtid k d]
    by (subst smt_loop.simps) (simp add: tree_level_Suc)
  then show ?case
    using Suc.hyps(1) [of "Suc k"] Suc.hyps(2) smt_stored_step [OF E Suc.prems(1)] by simp
qed

lemma hashes20_leaf_hashes: "ext_ok E \<Longrightarrow> hashes20 (leaf_hashes E leaves)"
  by (simp add: hashes20_def)

lemma smt_Build_spec:
  assumes E: "ext_ok E" and ne: "leaves \<noteq> []"
  shows "\<exists>d'. smt_Build E d mtid leaves =
      (d', to_string (height (length leaves)), b32 (tree_root E (leaf_hashes E leaves))) \<and>
    smt_stored E d d' mtid (leaf_hashes E leaves) (height (length leaves))"
proof -
  let ?xs = "leaf_hashes E leaves" and ?d = "put_nodes E d mtid 0 0 (leaf_hashes E leaves)"
  have "smt_stored E d ?d mtid ?xs 0"
    unfolding smt_stored_def le_zero_eq
    using put_nodes_stored [OF E, of _ ?xs d mtid 0 0] put_nodes_frame [OF E, of ?xs _ mtid 0 0 d]
    by (metis add_0 tree_level_0)
  then obtain d' where "smt_loop E mtid 0 (map Some (tree_level E ?xs 0)) ?d =
      (height (length ?xs), [Some (tree_root E ?xs)], d')"
    and "smt_stored E d d' mtid ?xs (height (length ?xs))"
    using smt_loop_spec [OF E hashes20_leaf_hashes [OF E], of leaves d ?d mtid 0] ne by auto
  then show ?thesis using ne smt_leaves_spec [OF E, of mtid 0 leaves d] by (simp add: smt_Build_def)
qed


section \<open>Proofs\<close>

text \<open>A store that holds exactly the nodes of the tree over \<open>xs\<close> under \<open>mtid\<close>.\<close>

definition smt_nodes :: "'s ext \<Rightarrow> (string \<rightharpoonup> string) \<Rightarrow> string \<Rightarrow> string list \<Rightarrow> bool" where
  "smt_nodes E m mtid xs \<longleftrightarrow> (\<forall>l j. l \<le> height (length xs) \<longrightarrow>
     m (smt_key mtid l j) = (if j < length (tree_level E xs l) then Some (b32 (tree_level E xs l ! j)) else None))"

lemma smt_stored_nodes:
  assumes st: "smt_stored E d0 d mtid xs (height (length xs))" and fresh: "\<And>l j. db_map E d0 (smt_key mtid l j) = None"
  shows "smt_nodes E (db_map E d) mtid xs"
  unfolding smt_nodes_def
proof (intro allI impI)
  fix l j assume l: "l \<le> height (length xs)"
  show "db_map E d (smt_key mtid l j) = (if j < length (tree_level E xs l) then Some (b32 (tree_level E xs l ! j)) else None)"
  proof (cases "j < length (tree_level E xs l)")
    case True
    then show ?thesis using st l by (simp add: smt_stored_def)
  next
    case False
    then have "\<forall>l' j'. l' \<le> height (length xs) \<and> j' < length (tree_level E xs l') \<longrightarrow> smt_key mtid l j \<noteq> smt_key mtid l' j'"
      by (auto simp: smt_key_inject)
    then show ?thesis using st fresh False unfolding smt_stored_def by metis
  qed
qed

lemma smt_proof_loop_spec:
  assumes st: "smt_nodes E (db_map E d) mtid xs" and j: "j < length xs"
  shows "i + n \<le> height (length xs) \<Longrightarrow> smt_proof_loop E d mtid n i (j div 2 ^ i) =
    map (\<lambda>k. sib_entry (sibling_at E xs j k)) [i..<i + n]"
proof (induction n arbitrary: i)
  case 0
  then show ?case by simp
next
  case (Suc n)
  let ?p = "j div 2 ^ i" and ?l = "tree_level E xs i"
  have "?p * 2 ^ i < length xs" using div_times_less_eq_dividend [of j "2 ^ i"] j by linarith
  then have p: "?p < length ?l" by (simp only: less_length_tree_level)
  have get: "DB_Get_str E d (smt_key mtid i q) = (if q < length ?l then b32 (?l ! q) else [])" for q
    using st Suc.prems by (simp add: smt_nodes_def DB_Get_str_def DB_Get_def)
  have entry: "(if ?p mod 2 = 0 then (DB_Get_str E d (smt_key mtid i (?p + 1)), 1)
      else (DB_Get_str E d (smt_key mtid i (?p - 1)), 0)) = sib_entry (sibling_at E xs j i)"
    using p by (auto simp: get sibling_at_def Let_def)
  have "[i..<i + Suc n] = i # [Suc i..<Suc i + n]" by (simp add: upt_conv_Cons)
  then show ?case
    using Suc.IH [of "Suc i"] Suc.prems by (simp only: smt_proof_loop.simps half_div entry list.map) simp
qed

lemma smt_proof_complete:
  assumes E: "ext_ok E" and j: "j < length leaves" and st: "smt_nodes E (db_map E d) mtid (leaf_hashes E leaves)"
  shows "let p = smt_GetProof E d mtid (height (length leaves)) j in
    digest p = b32 (tree_root E (leaf_hashes E leaves)) \<and> smt_Verify E (p\<lparr>pvalue := leaves ! j\<rparr>) = Inr True"
proof -
  let ?xs = "leaf_hashes E leaves" and ?h = "height (length leaves)"
  have ne: "leaves \<noteq> []" using j by auto
  have jx: "j < length ?xs" using j by simp
  have dig: "DB_Get_str E d (smt_key mtid ?h 0) = b32 (tree_root E ?xs)"
    using st tree_level_height [of ?xs E] ne by (simp add: smt_nodes_def DB_Get_str_def DB_Get_def)
  have entries: "smt_proof_loop E d mtid ?h 0 j =
      map sib_entry (map (sibling_at E ?xs j) [0..<height (length ?xs)])"
    using smt_proof_loop_spec [OF st jx, of 0 ?h] by simp
  have "Verify_loop E (map fst (map sib_entry (map (sibling_at E ?xs j) [0..<height (length ?xs)])))
      (map snd (map sib_entry (map (sibling_at E ?xs j) [0..<height (length ?xs)])))
      (ComputeFrom E (leaves ! j)) = Inr (Some (tree_root E ?xs))"
    using Verify_loop_climb [OF E, of "?xs ! j" "map (sibling_at E ?xs j) [0..<height (length ?xs)]"]
      sibling_at_ok [OF E hashes20_leaf_hashes [OF E] jx] climb_to_root [OF jx, of E] j E
      ComputeFrom_Some [of E "leaves ! j"] by (simp add: comp_assoc)
  moreover have "length (tree_root E ?xs) = 20"
    using tree_level_20 [OF E] hashes20_leaf_hashes [OF E, of leaves] tree_level_height [of ?xs E] ne
    by (metis hashes20_def list.set_intros(1) map_is_Nil_conv)
  ultimately show ?thesis
    unfolding smt_GetProof_def smt_root_key entries Let_def smt_Verify_def using dig
    by (simp add: FromBase32_ToBase32 Hash_eq_iff)
qed

end
