(* ===== verification/QL_Node.thy ===== *)
theory QL_Node
  imports Hash_Tree
begin

text \<open>
  \<open>ledger/qldb/qlnode.cc\<close>: the binary layouts of a QLDB document and of a QLDB block, and that both are
  read back as they were written.
\<close>

section \<open>Documents\<close>

record BlockAddress =
  ledger_name :: string
  seq_no :: nat

record Data =
  data_key :: string
  data_val :: string

record MetaData =
  doc_seq :: nat
  version :: nat
  md_time :: nat

record Statement =
  stmt_type :: nat
  stmt_time :: nat

record Document =
  doc_addr :: BlockAddress
  doc_data :: Data
  doc_meta :: MetaData

definition Document_Encode :: "string \<Rightarrow> string \<Rightarrow> BlockAddress \<Rightarrow> MetaData \<Rightarrow> Chunk" where
  "Document_Encode key val addr meta = Chunk_new kDocument
     (le_bytes 4 (length (ledger_name addr)) @ ledger_name addr @ le_bytes 8 (seq_no addr) @
      le_bytes 4 (length key + length val + 8) @ le_bytes 4 (length key) @ key @ val @
      le_bytes 4 (doc_seq meta) @ le_bytes 4 (version meta) @ le_bytes 8 (md_time meta))"

text \<open>\<open>entry_bytes - key_bytes - 8\<close> is a \<open>size_t\<close>.\<close>

definition Document_of :: "Chunk \<Rightarrow> Document" where
  "Document_of chunk =
     (let p0 = chunk_data chunk; ldg_bytes = u32_at p0; p1 = drop 4 p0; p2 = drop ldg_bytes p1;
          p3 = drop 8 p2; entry_bytes = u32_at p3; key_bytes = u32_at (drop 4 p3); p4 = drop 8 p3;
          p5 = drop key_bytes p4; val_bytes = (entry_bytes + 2 ^ 64 - key_bytes - 8) mod 2 ^ 64;
          p6 = drop val_bytes p5
      in \<lparr>doc_addr = \<lparr>ledger_name = take ldg_bytes p1, seq_no = u64_at p2\<rparr>,
          doc_data = \<lparr>data_key = take key_bytes p4, data_val = take val_bytes p5\<rparr>,
          doc_meta = \<lparr>doc_seq = u32_at p6, version = u32_at (drop 4 p6), md_time = u64_at (drop 8 p6)\<rparr>\<rparr>)"

section \<open>Blocks\<close>

record QLBlock =
  blk_addr :: BlockAddress
  blk_documents :: "Chunk list"
  blk_statement :: Statement
  blk_time :: nat
  blk_hash :: Hash
  blk_prev :: Hash

definition QLBlock_Encode :: "BlockAddress \<Rightarrow> Statement \<Rightarrow> nat \<Rightarrow> Hash \<Rightarrow> Hash \<Rightarrow> Chunk list \<Rightarrow> Chunk" where
  "QLBlock_Encode addr statement block_time block_hash previous_hash documents = Chunk_new kQLBlock
     (hval block_hash @ hval previous_hash @ le_bytes 8 block_time @ le_bytes 4 (length (ledger_name addr)) @
      ledger_name addr @ le_bytes 8 (seq_no addr) @ le_bytes 1 (stmt_type statement) @
      le_bytes 8 (stmt_time statement) @ le_bytes 4 (length documents) @ concat (map chunk_bytes documents))"

text \<open>\<open>UpdateHash\<close> overwrites the first 20 bytes of the data.\<close>

definition QLBlock_UpdateHash :: "Chunk \<Rightarrow> Hash \<Rightarrow> Chunk" where
  "QLBlock_UpdateHash block h = Some (take kMetaLength (head block) @ hval h @ drop kByteLength (chunk_data block))"

fun block_documents :: "nat \<Rightarrow> string \<Rightarrow> Chunk list" where
  "block_documents 0 p = []"
| "block_documents (Suc n) p = Some p # block_documents n (drop (u32_at p) p)"

definition QLBlock_of :: "Chunk \<Rightarrow> QLBlock" where
  "QLBlock_of chunk =
     (let p0 = chunk_data chunk; p1 = drop kByteLength p0; p2 = drop kByteLength p1;
          nm = u32_at (drop 8 p2); p3 = drop 12 p2; p4 = drop nm p3; p5 = drop 8 p4; p6 = drop 9 p5
      in \<lparr>blk_addr = \<lparr>ledger_name = take nm p3, seq_no = u64_at p4\<rparr>,
          blk_documents = block_documents (u32_at p6) (drop 4 p6),
          blk_statement = \<lparr>stmt_type = le_nat 1 p5, stmt_time = u64_at (drop 1 p5)\<rparr>,
          blk_time = u64_at p2, blk_hash = Hash_ptr p0, blk_prev = Hash_ptr p1\<rparr>)"

section \<open>Round trips\<close>

definition addr_ok :: "BlockAddress \<Rightarrow> bool" where
  "addr_ok a \<longleftrightarrow> length (ledger_name a) < 2 ^ 32 \<and> seq_no a < 2 ^ 64"

definition Document_ok :: "Document \<Rightarrow> bool" where
  "Document_ok d \<longleftrightarrow> addr_ok (doc_addr d) \<and> doc_seq (doc_meta d) < 2 ^ 32 \<and> version (doc_meta d) < 2 ^ 32 \<and>
     md_time (doc_meta d) < 2 ^ 64 \<and>
     length (ledger_name (doc_addr d)) + length (data_key (doc_data d)) + length (data_val (doc_data d)) + 41 < 2 ^ 32"

definition doc_chunk :: "Document \<Rightarrow> Chunk" where
  "doc_chunk d = Document_Encode (data_key (doc_data d)) (data_val (doc_data d)) (doc_addr d) (doc_meta d)"

lemma Document_of_Encode:
  assumes "Document_ok d"
  shows "Document_of (Some (head (doc_chunk d) @ rest)) = d"
proof -
  have sz: "length (data_key (doc_data d)) < 2 ^ 32" "length (data_key (doc_data d)) + length (data_val (doc_data d)) + 8 < 2 ^ 32"
    "length (ledger_name (doc_addr d)) < 2 ^ 32"
    using assms by (auto simp: Document_ok_def addr_ok_def)
  have v: "(length (data_key (doc_data d)) + length (data_val (doc_data d)) + 8 + 2 ^ 64 - length (data_key (doc_data d)) - 8) mod 2 ^ 64
      = length (data_val (doc_data d))"
    using sz by simp
  have "chunk_data (Some (head (doc_chunk d) @ rest)) = le_bytes 4 (length (ledger_name (doc_addr d))) @ ledger_name (doc_addr d) @
      le_bytes 8 (seq_no (doc_addr d)) @ le_bytes 4 (length (data_key (doc_data d)) + length (data_val (doc_data d)) + 8) @
      le_bytes 4 (length (data_key (doc_data d))) @ data_key (doc_data d) @ data_val (doc_data d) @
      le_bytes 4 (doc_seq (doc_meta d)) @ le_bytes 4 (version (doc_meta d)) @ le_bytes 8 (md_time (doc_meta d)) @ rest"
    by (simp add: doc_chunk_def Document_Encode_def chunk_data_def head_def Chunk_new_def kMetaLength_def)
  then show ?thesis
    unfolding Document_of_def Let_def using sz assms
    by (simp add: v [unfolded power_numeral] Document_ok_def addr_ok_def)
qed

interpretation doc_codec: codec Document_ok "\<lambda>d. head (doc_chunk d)" "\<lambda>s. Inr (Document_of (Some s))"
  by unfold_locales (use Document_of_Encode [of _ "[]"] in simp)

lemma doc_chunk_bytes:
  assumes "Document_ok d"
  shows "chunk_bytes (doc_chunk d) = head (doc_chunk d)" "u32_at (head (doc_chunk d) @ rest) = length (head (doc_chunk d))"
proof -
  show "chunk_bytes (doc_chunk d) = head (doc_chunk d)"
    unfolding doc_chunk_def Document_Encode_def
    using assms by (intro chunk_bytes_new) (simp add: Document_ok_def)
  show "u32_at (head (doc_chunk d) @ rest) = length (head (doc_chunk d))"
    using assms by (simp add: doc_chunk_def Document_Encode_def Chunk_new_def head_def kMetaLength_def Document_ok_def)
qed

lemma block_documents_append:
  "list_all Document_ok ds \<Longrightarrow> i < length ds \<Longrightarrow>
   \<exists>rest'. block_documents (length ds) (concat (map (\<lambda>d. head (doc_chunk d)) ds) @ rest) ! i =
     Some (head (doc_chunk (ds ! i)) @ rest')"
proof (induction ds arbitrary: i)
  case Nil
  then show ?case by simp
next
  case (Cons d ds)
  then have ok: "Document_ok d" by simp
  show ?case
  proof (cases i)
    case 0
    then show ?thesis by auto
  next
    case (Suc j)
    have "drop (u32_at (head (doc_chunk d) @ concat (map (\<lambda>d. head (doc_chunk d)) ds) @ rest))
        (head (doc_chunk d) @ concat (map (\<lambda>d. head (doc_chunk d)) ds) @ rest) = concat (map (\<lambda>d. head (doc_chunk d)) ds) @ rest"
      by (simp add: doc_chunk_bytes(2) [OF ok])
    then show ?thesis using Cons Suc by simp
  qed
qed

text \<open>
  \<open>QLBlock\<close> keeps its documents: a block encoded from documents and read back gives its address,
  hashes and times, and the document at every index parses to the document that was put in.
\<close>

lemma QLBlock_of_Encode:
  assumes "addr_ok addr" "t < 2 ^ 64" "stmt_type st < 256" "stmt_time st < 2 ^ 64" "length (hval h) = 20" "length (hval ph) = 20"
    and "list_all Document_ok ds" "length ds < 2 ^ 32"
  defines "b \<equiv> QLBlock_of (QLBlock_Encode addr st t h ph (map doc_chunk ds))"
  shows "blk_addr b = addr \<and> blk_statement b = st \<and> blk_time b = t \<and> hval (blk_hash b) = hval h \<and> hval (blk_prev b) = hval ph \<and>
    length (blk_documents b) = length ds \<and> (\<forall>i<length ds. Document_of (blk_documents b ! i) = ds ! i)"
proof -
  let ?docs = "concat (map (\<lambda>d. head (doc_chunk d)) ds)"
  have bytes: "concat (map chunk_bytes (map doc_chunk ds)) = ?docs"
    using assms(7) by (induction ds) (auto simp: doc_chunk_bytes)
  have len: "length (block_documents n p) = n" for n p by (induction n arbitrary: p) auto
  have le1: "le_nat 1 (le_bytes 1 (stmt_type st) @ s) = stmt_type st" for s
    using le_nat_le_bytes [of "stmt_type st" 1 s] assms(3) by simp
  have data: "chunk_data (QLBlock_Encode addr st t h ph (map doc_chunk ds)) = hval h @ hval ph @ le_bytes 8 t @
      le_bytes 4 (length (ledger_name addr)) @ ledger_name addr @ le_bytes 8 (seq_no addr) @ le_bytes 1 (stmt_type st) @
      le_bytes 8 (stmt_time st) @ le_bytes 4 (length ds) @ ?docs"
    by (simp add: QLBlock_Encode_def bytes [simplified])
  have b: "b = \<lparr>blk_addr = addr, blk_documents = block_documents (length ds) ?docs, blk_statement = st, blk_time = t,
      blk_hash = Hash_ptr (hval h @ hval ph @ le_bytes 8 t @ le_bytes 4 (length (ledger_name addr)) @ ledger_name addr @
        le_bytes 8 (seq_no addr) @ le_bytes 1 (stmt_type st) @ le_bytes 8 (stmt_time st) @ le_bytes 4 (length ds) @ ?docs),
      blk_prev = Hash_ptr (hval ph @ le_bytes 8 t @ le_bytes 4 (length (ledger_name addr)) @ ledger_name addr @
        le_bytes 8 (seq_no addr) @ le_bytes 1 (stmt_type st) @ le_bytes 8 (stmt_time st) @ le_bytes 4 (length ds) @ ?docs)\<rparr>"
    unfolding b_def QLBlock_of_def Let_def data
    using assms(1-6,8) by (simp add: kByteLength_def le1 addr_ok_def)
  have "Document_of (blk_documents b ! i) = ds ! i" if "i < length ds" for i
    using block_documents_append [OF assms(7) that, of "[]"] Document_of_Encode [of "ds ! i"] assms(7) that
    by (auto simp: b list_all_length)
  then show ?thesis using assms(5,6) by (simp add: b len Hash_ptr_def hval_def kByteLength_def)
qed

end
