(* ===== verification/QL_BTree_Node.thy ===== *)
theory QL_BTree_Node
  imports Store
begin

text \<open>
  \<open>ledger/qldb/ql_btree_node.cc\<close>, \<open>bplus_config.h\<close> and \<open>ql_btree_delta.h\<close>: the two kinds of nodes of
  the QLDB index tree with their binary layout, the search inside a node, and the update of an inner
  node after one of its children changed or split.
\<close>

section \<open>Configuration\<close>

record BPlusConfig =
  fanout :: nat
  leaf_fanout :: nat

definition BPlusConfig_default :: BPlusConfig where
  "BPlusConfig_default = \<lparr>fanout = 10, leaf_fanout = 10\<rparr>"

definition ComputeSplitIndex :: "nat \<Rightarrow> nat" where
  "ComputeSplitIndex sz = sz div 2 + (if sz mod 2 \<noteq> 0 then 1 else 0)"

record QLBTreeInsertResult =
  isSplit :: bool
  split_key :: string
  ir_level :: nat
  ir_num_elems :: "nat list"

section \<open>Node layouts\<close>

record QLBTreeMeta =
  mt_level :: nat
  mt_keys :: "string list"
  mt_elems :: "nat list"

record QLBTreeMap =
  mp_level :: nat
  mp_keys :: "string list"
  mp_vals :: "string list"
  mp_next :: string

text \<open>\<open>QLBTreeMeta::PrecomputeOffset\<close>, its loop from the pointer \<open>p\<close> on.\<close>

fun meta_entries :: "nat \<Rightarrow> string \<Rightarrow> string list \<times> nat list" where
  "meta_entries 0 p = ([], [u64_at p])"
| "meta_entries (Suc n) p =
     (let key_bytes = u32_at p; p1 = drop 4 p; p2 = drop key_bytes p1;
          (ks, es) = meta_entries n (drop 8 p2)
      in (take key_bytes p1 # ks, u64_at p2 # es))"

definition QLBTreeMeta_of :: "Chunk \<Rightarrow> QLBTreeMeta" where
  "QLBTreeMeta_of chunk = (let p = chunk_data chunk; n_entries = u32_at (drop 12 p);
      (ks, es) = meta_entries n_entries (drop 16 p)
    in \<lparr>mt_level = u32_at (drop 8 p), mt_keys = ks, mt_elems = es\<rparr>)"

text \<open>\<open>QLBTreeMap::PrecomputeOffset\<close>; \<open>n_bytes - key_bytes - 8\<close> is computed in \<open>size_t\<close>.\<close>

fun map_entries :: "nat \<Rightarrow> string \<Rightarrow> (string \<times> string) list \<times> string" where
  "map_entries 0 p = ([], p)"
| "map_entries (Suc n) p =
     (let n_bytes = u32_at p; key_bytes = u32_at (drop 4 p); q = drop 8 p;
          val_bytes = (n_bytes + 2 ^ 64 - key_bytes - 8) mod 2 ^ 64;
          (kvs, r) = map_entries n (drop n_bytes p)
      in ((take key_bytes q, take val_bytes (drop key_bytes q)) # kvs, r))"

definition QLBTreeMap_of :: "Chunk \<Rightarrow> QLBTreeMap" where
  "QLBTreeMap_of chunk = (let p = chunk_data chunk; n_entries = u32_at (drop 12 p);
      (kvs, q) = map_entries n_entries (drop 16 p)
    in \<lparr>mp_level = u32_at (drop 8 p), mp_keys = map fst kvs, mp_vals = map snd kvs,
        mp_next = take (u32_at q) (drop 4 q)\<rparr>)"

text \<open>\<open>QLBTreeMeta::Encode\<close>; the callers pass one more element count than keys.\<close>

definition meta_entry :: "string \<times> nat \<Rightarrow> string" where
  "meta_entry ke = le_bytes 4 (length (fst ke)) @ fst ke @ le_bytes 8 (snd ke)"

definition QLBTreeMeta_Encode :: "nat \<Rightarrow> string list \<Rightarrow> nat list \<Rightarrow> Chunk" where
  "QLBTreeMeta_Encode level keys num_elems = Chunk_new kMeta
     (le_bytes 8 (sum_list num_elems) @ le_bytes 4 level @ le_bytes 4 (length keys) @
      concat (map meta_entry (zip keys num_elems)) @ le_bytes 8 (last num_elems))"

definition map_entry :: "string \<times> string \<Rightarrow> string" where
  "map_entry kv = le_bytes 4 (8 + length (fst kv) + length (snd kv)) @
     le_bytes 4 (length (fst kv)) @ fst kv @ snd kv"

definition QLBTreeMap_Encode :: "nat \<Rightarrow> string list \<Rightarrow> string list \<Rightarrow> string \<Rightarrow> Chunk" where
  "QLBTreeMap_Encode level keys vals next = Chunk_new kMap
     (le_bytes 8 (length keys) @ le_bytes 4 level @ le_bytes 4 (length keys) @
      concat (map map_entry (zip keys vals)) @ le_bytes 4 (length next) @ next)"

definition EmptyMap :: Chunk where
  "EmptyMap = Chunk_new kMap (le_bytes 8 0 @ le_bytes 4 0 @ le_bytes 4 0 @ le_bytes 4 0)"

definition numElements :: "Chunk \<Rightarrow> nat" where
  "numElements chunk = u64_at (chunk_data chunk)"

section \<open>Search and update of an inner node\<close>

text \<open>The scan at the bottom of \<open>BinarySearch\<close>.\<close>

function search_scan :: "string list \<Rightarrow> string \<Rightarrow> int \<Rightarrow> int" where
  "search_scan ks key start =
     (if start < int (length ks) \<and> Slice_greater key (ks ! nat start) then search_scan ks key (start + 1) else start)"
  by pat_completeness auto
termination by (relation "measure (\<lambda>(ks, key, start). nat (int (length ks) - start))") auto

declare search_scan.simps [simp del]

function BinarySearch :: "string list \<Rightarrow> string \<Rightarrow> int \<Rightarrow> int \<Rightarrow> int" where
  "BinarySearch ks key start en =
     (if en \<le> start then
        search_scan ks key (if start > int (length ks) then int (length ks) else start)
      else let pivot = (en + start) div 2 in
        if Slice_eq key (ks ! nat pivot) then pivot
        else if Slice_less key (ks ! nat pivot) then BinarySearch ks key start (pivot - 1)
        else BinarySearch ks key (pivot + 1) en)"
  by pat_completeness auto
termination by (relation "measure (\<lambda>(ks, key, start, en). nat (en - start))") auto

declare BinarySearch.simps [simp del]

definition meta_index :: "QLBTreeMeta \<Rightarrow> string \<Rightarrow> nat" where
  "meta_index meta key = nat (BinarySearch (mt_keys meta) key 0 (int (length (mt_keys meta))))"

definition child_id :: "QLBTreeMeta \<Rightarrow> nat \<Rightarrow> string" where
  "child_id meta index = (if index = length (mt_keys meta) then ''_INFI_'' else mt_keys meta ! index)"

definition node_key :: "string \<Rightarrow> nat \<Rightarrow> string \<Rightarrow> string" where
  "node_key prefix level nid = prefix @ to_string level @ ''|'' @ nid"

definition child_key :: "string \<Rightarrow> QLBTreeMeta \<Rightarrow> nat \<Rightarrow> string" where
  "child_key prefix meta index = node_key prefix ((mt_level meta + 2 ^ 64 - 1) mod 2 ^ 64) (child_id meta index)"

text \<open>The two vectors \<open>UpdateChild\<close> rebuilds.\<close>

definition new_keys :: "QLBTreeMeta \<Rightarrow> nat \<Rightarrow> QLBTreeInsertResult \<Rightarrow> string list" where
  "new_keys meta index retval =
     take index (mt_keys meta) @ (if isSplit retval then [split_key retval] else []) @ drop index (mt_keys meta)"

definition new_elems :: "QLBTreeMeta \<Rightarrow> nat \<Rightarrow> QLBTreeInsertResult \<Rightarrow> nat list" where
  "new_elems meta index retval =
     take (min index (length (mt_keys meta))) (mt_elems meta) @ ir_num_elems retval @
     (if index \<ge> length (mt_keys meta) then [] else drop (index + 1) (mt_elems meta))"

text \<open>The result and the chunks to create, in order.\<close>

definition UpdateChild :: "BPlusConfig \<Rightarrow> QLBTreeMeta \<Rightarrow> nat \<Rightarrow> QLBTreeInsertResult \<Rightarrow> string
    \<Rightarrow> QLBTreeInsertResult \<times> (string \<times> Chunk) list" where
  "UpdateChild C meta index retval prefix =
     (let ks = new_keys meta index retval; es = new_elems meta index retval; level = mt_level meta;
          thisid = (if mt_elems meta ! length (mt_keys meta) = 0 then last ks else ''_INFI_'')
      in if length ks \<le> fanout C then
           let chunk1 = QLBTreeMeta_Encode level ks es
           in (\<lparr>isSplit = False, split_key = [], ir_level = level, ir_num_elems = [numElements chunk1]\<rparr>,
               [(node_key prefix level thisid, chunk1)])
         else
           let split_idx = ComputeSplitIndex (length ks); skey = ks ! (split_idx - 1);
               chunk1 = QLBTreeMeta_Encode level (take split_idx ks) (take split_idx es @ [0]);
               chunk2 = QLBTreeMeta_Encode level (drop split_idx ks) (drop split_idx es)
           in (\<lparr>isSplit = True, split_key = skey, ir_level = level,
                ir_num_elems = [numElements chunk1, numElements chunk2]\<rparr>,
               [(node_key prefix level skey, chunk1), (node_key prefix level thisid, chunk2)]))"

section \<open>Layouts round trip\<close>

definition key_size_ok :: "string \<Rightarrow> bool" where
  "key_size_ok k \<longleftrightarrow> length k < 2 ^ 32"

lemma meta_entries_append:
  "length ks = length es \<Longrightarrow> \<forall>k\<in>set ks. key_size_ok k \<Longrightarrow> \<forall>e\<in>set es. e < 2 ^ 64 \<Longrightarrow> e' < 2 ^ 64 \<Longrightarrow>
   meta_entries (length ks) (concat (map meta_entry (zip ks es)) @ le_bytes 8 e' @ rest) = (ks, es @ [e'])"
  by (induction ks es rule: list_induct2) (simp_all add: meta_entry_def key_size_ok_def)

definition meta_ok :: "QLBTreeMeta \<Rightarrow> bool" where
  "meta_ok m \<longleftrightarrow> length (mt_elems m) = length (mt_keys m) + 1 \<and> (\<forall>k\<in>set (mt_keys m). key_size_ok k) \<and>
     (\<forall>e\<in>set (mt_elems m). e < 2 ^ 64) \<and> mt_level m < 2 ^ 32 \<and> length (mt_keys m) < 2 ^ 32"

lemma QLBTreeMeta_of_Encode:
  assumes "meta_ok m"
  shows "QLBTreeMeta_of (QLBTreeMeta_Encode (mt_level m) (mt_keys m) (mt_elems m)) = m"
proof -
  let ?ks = "mt_keys m" and ?es = "butlast (mt_elems m)" and ?e = "last (mt_elems m)"
  have es: "mt_elems m = ?es @ [?e]" using assms by (metis append_butlast_last_id meta_ok_def
    list.size(3) add_is_0 zero_neq_one)
  have len: "length ?ks = length ?es" using assms by (simp add: meta_ok_def)
  have z: "zip ?ks (mt_elems m) = zip ?ks ?es"
    using len by (subst es) (simp add: zip_append2)
  have "?e < 2 ^ 64" "\<forall>e\<in>set ?es. e < 2 ^ 64"
    using assms es by (metis in_set_butlastD last_in_set snoc_eq_iff_butlast meta_ok_def)+
  then have "meta_entries (length ?ks) (concat (map meta_entry (zip ?ks (mt_elems m))) @ le_bytes 8 ?e @ []) =
      (?ks, mt_elems m)"
    using meta_entries_append [OF len, of ?e "[]"] assms es unfolding z meta_ok_def by simp
  then show ?thesis
    using assms by (simp add: QLBTreeMeta_of_def QLBTreeMeta_Encode_def meta_ok_def Let_def drop_Cons')
qed

definition entry_ok :: "string \<times> string \<Rightarrow> bool" where
  "entry_ok kv \<longleftrightarrow> 8 + length (fst kv) + length (snd kv) < 2 ^ 32"

lemma map_entries_append:
  "\<forall>kv\<in>set kvs. entry_ok kv \<Longrightarrow> map_entries (length kvs) (concat (map map_entry kvs) @ rest) = (kvs, rest)"
proof (induction kvs)
  case Nil
  then show ?case by simp
next
  case (Cons kv kvs)
  let ?n = "8 + length (fst kv) + length (snd kv)"
  have n: "?n < 2 ^ 32" "length (fst kv) < 2 ^ 32" using Cons.prems by (auto simp: entry_ok_def)
  have v: "(?n + 2 ^ 64 - length (fst kv) - 8) mod 2 ^ 64 = length (snd kv)" using n by simp
  have d: "drop ?n (map_entry kv @ concat (map map_entry kvs) @ rest) = concat (map map_entry kvs) @ rest"
    by (simp add: map_entry_def)
  have u: "u32_at (map_entry kv @ concat (map map_entry kvs) @ rest) = ?n"
    "u32_at (drop 4 (map_entry kv @ concat (map map_entry kvs) @ rest)) = length (fst kv)"
    using n by (simp_all add: map_entry_def)
  have e: "drop 8 (map_entry kv @ concat (map map_entry kvs) @ rest) =
      fst kv @ snd kv @ concat (map map_entry kvs) @ rest"
    by (simp add: map_entry_def)
  have "map_entries (length kvs) (concat (map map_entry kvs) @ rest) = (kvs, rest)" using Cons by simp
  then show ?case
    unfolding list.size list.map concat.simps append_assoc add_0_right One_nat_def add_Suc_right
      map_entries.simps Let_def u v d e by simp
qed

definition map_ok :: "QLBTreeMap \<Rightarrow> bool" where
  "map_ok m \<longleftrightarrow> length (mp_keys m) = length (mp_vals m) \<and> (\<forall>kv\<in>set (zip (mp_keys m) (mp_vals m)). entry_ok kv) \<and>
     mp_level m < 2 ^ 32 \<and> length (mp_keys m) < 2 ^ 32 \<and> length (mp_next m) < 2 ^ 32"

lemma QLBTreeMap_of_Encode:
  assumes "map_ok m"
  shows "QLBTreeMap_of (QLBTreeMap_Encode (mp_level m) (mp_keys m) (mp_vals m) (mp_next m)) = m"
proof -
  let ?kvs = "zip (mp_keys m) (mp_vals m)" and ?r = "le_bytes 4 (length (mp_next m)) @ mp_next m"
  have l: "length (mp_keys m) = length ?kvs" using assms by (simp add: map_ok_def)
  have "map_entries (length (mp_keys m)) (concat (map map_entry ?kvs) @ ?r) = (?kvs, ?r)"
    unfolding l using assms by (intro map_entries_append) (simp add: map_ok_def)
  then show ?thesis
    using assms by (simp add: QLBTreeMap_of_def QLBTreeMap_Encode_def map_ok_def Let_def drop_Cons')
qed


section \<open>BinarySearch is a lower bound\<close>

definition lower_bound :: "string list \<Rightarrow> string \<Rightarrow> nat" where
  "lower_bound ks key = length (takeWhile (\<lambda>k. k < key) ks)"

lemma lower_bound_unique:
  assumes "n \<le> length ks" "\<And>i. i < n \<Longrightarrow> ks ! i < key" "n < length ks \<Longrightarrow> \<not> ks ! n < key"
  shows "lower_bound ks key = n"
proof -
  have "takeWhile (\<lambda>k. k < key) ks = take n ks"
    using assms by (intro takeWhile_eq_take_P_nth) auto
  then show ?thesis using assms(1) by (simp add: lower_bound_def)
qed

lemma search_scan_lower_bound:
  "0 \<le> start \<Longrightarrow> start \<le> int (length ks) \<Longrightarrow> (\<And>i. i < nat start \<Longrightarrow> ks ! i < key) \<Longrightarrow>
    search_scan ks key start = int (lower_bound ks key)"
proof (induction ks key start rule: search_scan.induct)
  case (1 ks key start)
  show ?case
  proof (cases "start < int (length ks) \<and> Slice_greater key (ks ! nat start)")
    case True
    have "ks ! i < key" if "i < nat (start + 1)" for i
    proof (cases "i = nat start")
      case False
      then have "i < nat start" using that "1.prems"(1) by linarith
      then show ?thesis by (rule "1.prems"(3))
    qed (use True in simp)
    then show ?thesis using "1.IH" [OF True] "1.prems" True by (subst search_scan.simps) simp
  next
    case False
    have "lower_bound ks key = nat start"
      using False "1.prems" by (intro lower_bound_unique) auto
    then show ?thesis using False "1.prems"(1) by (subst search_scan.simps) auto
  qed
qed

lemma BinarySearch_lower_bound:
  assumes "sorted ks" "distinct ks"
  shows "0 \<le> start \<Longrightarrow> start \<le> int (length ks) \<Longrightarrow> en \<le> int (length ks) \<Longrightarrow>
    (\<And>i. i < nat start \<Longrightarrow> ks ! i < key) \<Longrightarrow> BinarySearch ks key start en = int (lower_bound ks key)"
  using assms
proof (induction ks key start en rule: BinarySearch.induct)
  case (1 ks key start en)
  let ?p = "(en + start) div 2"
  have strict: "ks ! i < ks ! j" if "i < j" "j < length ks" for i j
    using "1.prems"(5,6) that by (simp add: sorted_wrt_nth_less strict_sorted_iff)
  show ?case
  proof (cases "en \<le> start")
    case True
    then show ?thesis using "1.prems" search_scan_lower_bound [of start ks key] by (simp add: BinarySearch.simps)
  next
    case False
    then have p: "0 \<le> ?p" "?p < int (length ks)" "start \<le> ?p" using "1.prems" by auto
    consider "key = ks ! nat ?p" | "key < ks ! nat ?p" | "ks ! nat ?p < key" by fastforce
    then show ?thesis
    proof cases
      case 1
      have "lower_bound ks key = nat ?p"
        using p strict 1 by (intro lower_bound_unique) auto
      then show ?thesis using False 1 p by (subst BinarySearch.simps) (simp add: Let_def)
    next
      case 2
      then have "BinarySearch ks key start (?p - 1) = int (lower_bound ks key)"
        using "1.IH"(1) [OF False refl] "1.prems" p by simp
      then show ?thesis using False 2 less_imp_neq [OF 2] by (subst BinarySearch.simps) (simp add: Let_def)
    next
      case 3
      then have ne: "key \<noteq> ks ! nat ?p" "\<not> key < ks ! nat ?p" by auto
      have "ks ! i < key" if "i < nat (?p + 1)" for i
        using that p 3 strict [of i "nat ?p"] by (cases "i = nat ?p") force+
      then have "BinarySearch ks key (?p + 1) en = int (lower_bound ks key)"
        using "1.IH"(2) [OF False refl] ne "1.prems" p by simp
      then show ?thesis using False ne by (subst BinarySearch.simps) (simp add: Let_def)
    qed
  qed
qed

lemma meta_index_lower_bound:
  "sorted (mt_keys m) \<Longrightarrow> distinct (mt_keys m) \<Longrightarrow> meta_index m key = lower_bound (mt_keys m) key"
  using BinarySearch_lower_bound [of "mt_keys m" 0 _ key] by (simp add: meta_index_def)

end
