(* ===== verification/QL_BTree.thy ===== *)
theory QL_BTree
  imports QL_BTree_Node
begin

text \<open>
  \<open>ledger/qldb/ql_btree.cc\<close>: the B+-tree QLDB and SQL Ledger index their keys with.  Nodes live in the
  store under \<open>prefix<level>|<largest key>\<close> (\<open>_INFI_\<close> for the rightmost node of a level, \<open>prefixROOT\<close>
  for the root); an update collects new nodes in a delta that is written on commit.

  A recursive function of the class returns \<^term>\<open>None\<close> when the code would dereference the null head
  of a missing chunk or would not return at all.
\<close>

section \<open>Model\<close>

type_synonym dirty = "string \<rightharpoonup> Chunk"

record QLBTree =
  bt_prefix :: string
  bt_root :: Chunk
  bt_delta :: dirty

definition CreateChunk :: "dirty \<Rightarrow> string \<Rightarrow> Chunk \<Rightarrow> dirty" where
  "CreateChunk m nid c = m(nid \<mapsto> c)"

definition Delta_GetChunk :: "dirty \<Rightarrow> string \<Rightarrow> Chunk" where
  "Delta_GetChunk m nid = (case m nid of None \<Rightarrow> None | Some c \<Rightarrow> Some (head c))"

definition QLBTree_new :: "'s ext \<Rightarrow> 's DB \<Rightarrow> string \<Rightarrow> QLBTree \<times> 's DB" where
  "QLBTree_new E d prefix = (let (chunk, d') = DB_Get_chunk E d (prefix @ ''ROOT'')
     in (\<lparr>bt_prefix = prefix, bt_root = (if Chunk_empty chunk then EmptyMap else chunk), bt_delta = Map.empty\<rparr>, d'))"

text \<open>The scan of a leaf in \<open>TryGet\<close>.\<close>

fun leaf_find :: "string \<Rightarrow> (string \<times> string) list \<Rightarrow> string" where
  "leaf_find key [] = []"
| "leaf_find key ((k, v) # kvs) =
     (if Slice_eq key k then v else if Slice_less key k then [] else leaf_find key kvs)"

partial_function (option) TryGet :: "'s ext \<Rightarrow> string \<Rightarrow> Chunk \<Rightarrow> string \<Rightarrow> 's DB \<Rightarrow> (string \<times> 's DB) option" where
  "TryGet E prefix node key d =
     (if Chunk_empty node then None
      else if chunk_type node = kMap then
        (let m = QLBTreeMap_of node in Some (leaf_find key (zip (mp_keys m) (mp_vals m)), d))
      else if chunk_type node = kMeta then
        (let meta = QLBTreeMeta_of node; (child, d') = DB_Get_chunk E d (child_key prefix meta (meta_index meta key))
         in TryGet E prefix child key d')
      else Some ([], d))"

definition QLBTree_Get :: "'s ext \<Rightarrow> QLBTree \<Rightarrow> string \<Rightarrow> 's DB \<Rightarrow> (string \<times> 's DB) option" where
  "QLBTree_Get E t key d = TryGet E (bt_prefix t) (bt_root t) key d"

text \<open>
  \<open>FindKey\<close> adds the entries of a leaf between \<open>from\<close> and \<open>to\<close> to the result; \<open>std::map::emplace\<close>
  keeps an entry that is already there.
\<close>

definition map_emplace :: "(string \<rightharpoonup> string) \<Rightarrow> string \<Rightarrow> string \<Rightarrow> (string \<rightharpoonup> string)" where
  "map_emplace m k v = (case m k of None \<Rightarrow> m(k \<mapsto> v) | Some _ \<Rightarrow> m)"

text \<open>One entry at the pointer \<open>p\<close>: the key, the value and the pointer behind it.\<close>

definition find_entry :: "string \<Rightarrow> string \<times> string \<times> string" where
  "find_entry p =
     (let num_bytes = u32_at p; key_bytes = u32_at (drop 4 p); q = drop (8 + key_bytes) p;
          val_bytes = (num_bytes + 2 ^ 64 - key_bytes - 8) mod 2 ^ 64
      in (take key_bytes (drop 8 p), take val_bytes q, drop val_bytes q))"

fun find_loop :: "nat \<Rightarrow> string \<Rightarrow> string \<Rightarrow> string \<Rightarrow> (string \<rightharpoonup> string) \<Rightarrow> (string \<rightharpoonup> string)" where
  "find_loop 0 p from to result = result"
| "find_loop (Suc n) p from to result =
     (let (key, val, q) = find_entry p
      in if \<not> Slice_less key from \<and> \<not> Slice_greater key to then
           find_loop n q from to (map_emplace result key val)
         else if Slice_greater key to then result
         else find_loop n q from to result)"

definition FindKey :: "Chunk \<Rightarrow> string \<Rightarrow> string \<Rightarrow> (string \<rightharpoonup> string) \<Rightarrow> (string \<rightharpoonup> string)" where
  "FindKey node from to result =
     find_loop (u32_at (drop 12 (chunk_data node))) (drop 16 (chunk_data node)) from to result"

text \<open>
  \<open>TryRange\<close> with the pending calls as a list: a node to visit, or the key of a child to load and
  visit.  A call for an inner node is replaced by calls for its children, in order.
\<close>

partial_function (option) TryRange :: "'s ext \<Rightarrow> string \<Rightarrow> string \<Rightarrow> string \<Rightarrow> (Chunk + string) list \<Rightarrow>
    (string \<rightharpoonup> string) \<Rightarrow> 's DB \<Rightarrow> ((string \<rightharpoonup> string) \<times> 's DB) option" where
  "TryRange E prefix start en pending result d = (case pending of
      [] \<Rightarrow> Some (result, d)
    | Inr k # rest \<Rightarrow> (let (child, d') = DB_Get_chunk E d k in TryRange E prefix start en (Inl child # rest) result d')
    | Inl node # rest \<Rightarrow>
        (if Chunk_empty node then None
         else if chunk_type node = kMap then TryRange E prefix start en rest (FindKey node start en result) d
         else if chunk_type node = kMeta then
           (let meta = QLBTreeMeta_of node; from = meta_index meta start; to = meta_index meta en
            in TryRange E prefix start en
                 (map (\<lambda>i. Inr (child_key prefix meta i)) [from..<to + 1] @ rest) result d)
         else TryRange E prefix start en rest result d))"

definition QLBTree_Range :: "'s ext \<Rightarrow> QLBTree \<Rightarrow> string \<Rightarrow> string \<Rightarrow> 's DB \<Rightarrow> ((string \<rightharpoonup> string) \<times> 's DB) option" where
  "QLBTree_Range E t start en d = TryRange E (bt_prefix t) start en [Inl (bt_root t)] Map.empty d"

text \<open>The loop of \<open>Insert\<close> over the entries of a leaf.\<close>

fun leaf_insert :: "string \<Rightarrow> string \<Rightarrow> bool \<Rightarrow> (string \<times> string) list \<Rightarrow> (string \<times> string) list" where
  "leaf_insert key value inserted [] = (if \<not> inserted then [(key, value)] else [])"
| "leaf_insert key value inserted ((k, v) # kvs) =
     (let before = (\<not> inserted \<and> Slice_less key k); eq = Slice_eq key k
      in (if before then [(key, value)] else []) @ (k, if eq then value else v) #
         leaf_insert key value (inserted \<or> before \<or> eq) kvs)"

definition InsertLeaf :: "BPlusConfig \<Rightarrow> string \<Rightarrow> QLBTreeMap \<Rightarrow> string \<Rightarrow> string
    \<Rightarrow> QLBTreeInsertResult \<times> (string \<times> Chunk) list" where
  "InsertLeaf C prefix m key value =
     (let kvs = leaf_insert key value False (zip (mp_keys m) (mp_vals m)); next = mp_next m
      in if length kvs \<le> leaf_fanout C then
           let nid = node_key prefix 0 (if next = [] then ''_INFI_'' else fst (last kvs))
           in (\<lparr>isSplit = False, split_key = [], ir_level = 0, ir_num_elems = [length kvs]\<rparr>,
               [(nid, QLBTreeMap_Encode 0 (map fst kvs) (map snd kvs) next)])
         else
           let split_idx = ComputeSplitIndex (length kvs); skey = fst (kvs ! (split_idx - 1));
               kvs1 = take split_idx kvs; kvs2 = drop split_idx kvs;
               id1 = node_key prefix 0 skey;
               id2 = node_key prefix 0 (if next = [] then ''_INFI_'' else fst (last kvs2))
           in (\<lparr>isSplit = True, split_key = skey, ir_level = 0, ir_num_elems = [length kvs1, length kvs2]\<rparr>,
               [(id1, QLBTreeMap_Encode 0 (map fst kvs1) (map snd kvs1) id2),
                (id2, QLBTreeMap_Encode 0 (map fst kvs2) (map snd kvs2) next)]))"

definition create_all :: "dirty \<Rightarrow> (string \<times> Chunk) list \<Rightarrow> dirty" where
  "create_all m ics = foldl (\<lambda>m (nid, c). CreateChunk m nid c) m ics"

text \<open>The child of an inner node: from the delta when it is there, else from the store.\<close>

definition LoadChild :: "'s ext \<Rightarrow> dirty \<Rightarrow> 's DB \<Rightarrow> string \<Rightarrow> Chunk \<times> 's DB" where
  "LoadChild E m d nid = (let child = Delta_GetChunk m nid
     in if \<not> Chunk_empty child then (child, d) else DB_Get_chunk E d nid)"

partial_function (option) Insert :: "'s ext \<Rightarrow> BPlusConfig \<Rightarrow> string \<Rightarrow> Chunk \<Rightarrow> string \<Rightarrow> string \<Rightarrow>
    dirty \<Rightarrow> 's DB \<Rightarrow> (QLBTreeInsertResult \<times> dirty \<times> 's DB) option" where
  "Insert E C prefix node key value m d =
     (if Chunk_empty node then None
      else if chunk_type node = kMeta then
        (let meta = QLBTreeMeta_of node; index = meta_index meta key;
             (child, d') = LoadChild E m d (child_key prefix meta index)
         in Option.bind (Insert E C prefix child key value m d') (\<lambda>(retval, m', d'').
              let (result, ics) = UpdateChild C meta index retval prefix
              in Some (result, create_all m' ics, d'')))
      else if chunk_type node = kMap then
        (let (retval, ics) = InsertLeaf C prefix (QLBTreeMap_of node) key value
         in Some (retval, create_all m ics, d))
      else Some (\<lparr>isSplit = False, split_key = [], ir_level = 0, ir_num_elems = []\<rparr>, m, d))"

text \<open>\<open>QLBTreeDelta::Commit\<close> with the pending calls as a list; the first one is for the root.\<close>

definition commit_children :: "string \<Rightarrow> QLBTreeMeta \<Rightarrow> string list" where
  "commit_children prefix meta = map (child_key prefix meta) [0..<length (mt_keys meta)] @
     (if mt_elems meta ! length (mt_keys meta) > 0 then [child_key prefix meta (length (mt_keys meta))] else [])"

partial_function (option) Commit :: "'s ext \<Rightarrow> string \<Rightarrow> dirty \<Rightarrow> (string \<times> bool) list \<Rightarrow> 's DB \<Rightarrow> 's DB option" where
  "Commit E prefix m pending d = (case pending of
      [] \<Rightarrow> Some d
    | (nid, isroot) # rest \<Rightarrow>
        (let node = Delta_GetChunk m nid
         in if Chunk_empty node then Commit E prefix m rest d
            else let d' = snd (DB_Put_chunk E d (if isroot then prefix @ ''ROOT'' else nid) node)
              in Commit E prefix m
                   ((if chunk_type node = kMeta
                     then map (\<lambda>c. (c, False)) (commit_children prefix (QLBTreeMeta_of node)) else []) @ rest) d'))"

text \<open>The loop of \<open>Set\<close> over keys and values; returns the root id, the delta and the store.\<close>

fun set_loop :: "'s ext \<Rightarrow> BPlusConfig \<Rightarrow> string \<Rightarrow> Chunk \<Rightarrow> string \<Rightarrow> (string \<times> string) list \<Rightarrow> dirty \<Rightarrow> 's DB
    \<Rightarrow> (string \<times> dirty \<times> 's DB) option" where
  "set_loop E C prefix root root_id [] m d = Some (root_id, m, d)"
| "set_loop E C prefix root root_id ((k, v) # kvs) m d =
     Option.bind (Insert E C prefix root k v m d) (\<lambda>(retval, m', d').
       let (root_id', m'') =
         (if isSplit retval then
            (let rid = node_key prefix (ir_level retval + 1) ''_INFI_''
             in (rid, CreateChunk m' rid (QLBTreeMeta_Encode (ir_level retval + 1) [split_key retval] (ir_num_elems retval))))
          else (node_key prefix (ir_level retval) ''_INFI_'', m'))
       in set_loop E C prefix (Delta_GetChunk m'' root_id') root_id' kvs m'' d')"

definition QLBTree_SetMany :: "'s ext \<Rightarrow> BPlusConfig \<Rightarrow> QLBTree \<Rightarrow> string list \<Rightarrow> string list \<Rightarrow> 's DB
    \<Rightarrow> (bool \<times> QLBTree \<times> 's DB) option" where
  "QLBTree_SetMany E C t keys vals d =
     (if length keys = 0 then Some (False, t, d)
      else if length vals < length keys then None
      else Option.bind (set_loop E C (bt_prefix t) (bt_root t) [] (zip keys vals) (bt_delta t) d) (\<lambda>(root_id, m, d1).
        Option.bind (Commit E (bt_prefix t) m [(root_id, True)] d1) (\<lambda>d2.
          let (root, d3) = DB_Get_chunk E d2 (bt_prefix t @ ''ROOT'')
          in Some (True, t\<lparr>bt_root := root, bt_delta := Map.empty\<rparr>, d3))))"

text \<open>The single-key \<open>Set\<close>: its new root carries the level of its children.\<close>

definition QLBTree_Set :: "'s ext \<Rightarrow> BPlusConfig \<Rightarrow> QLBTree \<Rightarrow> string \<Rightarrow> string \<Rightarrow> 's DB
    \<Rightarrow> (bool \<times> QLBTree \<times> 's DB) option" where
  "QLBTree_Set E C t key val d =
     Option.bind (Insert E C (bt_prefix t) (bt_root t) key val (bt_delta t) d) (\<lambda>(retval, m, d1).
       let (root_id, m') =
         (if isSplit retval then
            (let rid = node_key (bt_prefix t) (ir_level retval + 1) ''_INFI_''
             in (rid, CreateChunk m rid (QLBTreeMeta_Encode (ir_level retval) [split_key retval] (ir_num_elems retval))))
          else (node_key (bt_prefix t) (ir_level retval) ''_INFI_'', m))
       in Option.bind (Commit E (bt_prefix t) m' [(root_id, True)] d1) (\<lambda>d2.
            let (root, d3) = DB_Get_chunk E d2 (bt_prefix t @ ''ROOT'')
            in Some (True, t\<lparr>bt_root := root, bt_delta := Map.empty\<rparr>, d3)))"

end
