(* ===== verification/QL_DB.thy ===== *)
theory QL_DB
  imports QL_Node QL_BTree Merkle_Tree
begin

text \<open>
  \<open>ledger/qldb/qldb.cc\<close>: documents are grouped into blocks, the leaves of a block are hashed into a block
  hash, and the block hashes into a digest of the ledger, all as binary hash trees whose nodes are
  kept in the store.  Shown here: the digest is the root of the hash tree over all block hashes, and
  proofs for documents verify against it.
\<close>

section \<open>Model\<close>

record QLProofResult =
  pr_data :: Data
  pr_addr :: BlockAddress
  pr_meta :: MetaData
  pr_proof :: "string list"
  pr_pos :: "nat list"

text \<open>The loop of \<open>QLProofResult::Verify\<close>; \<open>pos[i]\<close> past the end is out of bounds.\<close>

fun ql_verify_loop :: "'s ext \<Rightarrow> string list \<Rightarrow> nat list \<Rightarrow> Hash \<Rightarrow> Hash result" where
  "ql_verify_loop E [] ps h = Inr h"
| "ql_verify_loop E (s # ss) ps h =
     (if s = [] then ql_verify_loop E ss (drop 1 ps) (ComputeFrom E (hval h))
      else case ps of [] \<Rightarrow> Inl Out_of_bounds
        | p # ps' \<Rightarrow> ql_verify_loop E ss ps'
            (ComputeFrom E (if p = 0 then hval (FromBase32 s) @ hval h else hval h @ hval (FromBase32 s))))"

definition QLProofResult_Verify :: "'s ext \<Rightarrow> QLProofResult \<Rightarrow> Hash \<Rightarrow> bool result" where
  "QLProofResult_Verify E r dig =
     rbind (ql_verify_loop E (pr_proof r) (pr_pos r)
         (chunk_hash E (Document_Encode (data_key (pr_data r)) (data_val (pr_data r)) (pr_addr r) (pr_meta r))))
       (\<lambda>h. Inr (Hash_eq h dig))"

record 's QLDB =
  q_db :: "'s DB"
  q_indexed :: QLBTree
  q_history :: QLBTree

definition QLDB_new :: "'s ext \<Rightarrow> 's \<Rightarrow> 's QLDB" where
  "QLDB_new E s = (let (ix, d1) = QLBTree_new E (DB_Open s) ''COMMITTED_''; (hi, d2) = QLBTree_new E d1 ''HISTORY_''
     in \<lparr>q_db = d2, q_indexed = ix, q_history = hi\<rparr>)"

definition CreateLedger :: "'s ext \<Rightarrow> 's QLDB \<Rightarrow> string \<Rightarrow> 's QLDB" where
  "CreateLedger E q name = q\<lparr>q_db := db_put E (q_db q) name ''0''\<rparr>"

text \<open>
  \<open>Chunk(result.data())\<close>: the slice of an absent key has a null pointer.  The trees hold documents,
  which are never empty, so the empty slice is the absent one.
\<close>

definition slice_chunk :: "string \<Rightarrow> Chunk" where
  "slice_chunk s = (if s = [] then None else Some s)"

definition GetCommitted :: "'s ext \<Rightarrow> 's QLDB \<Rightarrow> string \<Rightarrow> (Chunk \<times> 's QLDB) option" where
  "GetCommitted E q key = map_option (\<lambda>(s, d). (slice_chunk s, q\<lparr>q_db := d\<rparr>)) (QLBTree_Get E (q_indexed q) key (q_db q))"

definition GetData :: "'s ext \<Rightarrow> 's QLDB \<Rightarrow> string \<Rightarrow> (string \<times> 's QLDB) option" where
  "GetData E q key = Option.bind (GetCommitted E q key) (\<lambda>(c, q').
     if Chunk_empty c then None else Some (data_val (doc_data (Document_of c)), q'))"

definition QLDB_Range :: "'s ext \<Rightarrow> 's QLDB \<Rightarrow> string \<Rightarrow> string \<Rightarrow> ((string \<rightharpoonup> string) \<times> 's QLDB) option" where
  "QLDB_Range E q from to = map_option (\<lambda>(r, d). (r, q\<lparr>q_db := d\<rparr>)) (QLBTree_Range E (q_indexed q) from to (q_db q))"

definition GetVersion :: "'s ext \<Rightarrow> 's QLDB \<Rightarrow> string \<Rightarrow> nat \<Rightarrow> (Chunk \<times> 's QLDB) option" where
  "GetVersion E q key ver = map_option (\<lambda>(s, d). (slice_chunk s, q\<lparr>q_db := d\<rparr>))
     (QLBTree_Get E (q_history q) (key @ ''|'' @ to_string ver) (q_db q))"

text \<open>The loop of \<open>GetHistory\<close> at \<open>i\<close>, counting down from the latest version.\<close>

fun history_loop :: "'s ext \<Rightarrow> string \<Rightarrow> nat \<Rightarrow> nat \<Rightarrow> nat \<Rightarrow> 's QLDB \<Rightarrow> (Chunk list \<times> 's QLDB) option" where
  "history_loop E key ver n 0 q = Some ([], q)"
| "history_loop E key ver n (Suc i) q =
     (if ver - Suc i < n then
        Option.bind (GetVersion E q key i) (\<lambda>(c, q').
          map_option (\<lambda>(cs, q''). (c # cs, q'')) (history_loop E key ver n i q'))
      else Some ([], q))"

definition GetHistory :: "'s ext \<Rightarrow> 's QLDB \<Rightarrow> string \<Rightarrow> nat \<Rightarrow> (Chunk list \<times> 's QLDB) option" where
  "GetHistory E q key n = Option.bind (GetCommitted E q key) (\<lambda>(c, q').
     if Chunk_empty c then None
     else let ver = version (doc_meta (Document_of c))
       in map_option (\<lambda>(cs, q''). (c # cs, q'')) (history_loop E key ver n ver q'))"

text \<open>
  \<open>calculateBlockHash\<close>.  One level of the tree: the node of every pair (or of a last single hash) is
  stored, and its hash is the next level.
\<close>

definition block_node_key :: "string \<Rightarrow> nat \<Rightarrow> nat \<Rightarrow> nat \<Rightarrow> string" where
  "block_node_key name seqno level i =
     ''proof_'' @ name @ ''|'' @ to_string seqno @ ''|'' @ to_string level @ ''|'' @ to_string i"

fun block_level :: "'s ext \<Rightarrow> string \<Rightarrow> nat \<Rightarrow> nat \<Rightarrow> nat \<Rightarrow> Hash list \<Rightarrow> 's DB \<Rightarrow> Hash list \<times> 's DB" where
  "block_level E name seqno level i [] d = ([], d)"
| "block_level E name seqno level i [h] d =
     ([Hash_Clone (ComputeFrom E (hval h))], db_put E d (block_node_key name seqno level i) (hval h))"
| "block_level E name seqno level i (h1 # h2 # hs) d =
     (let (ps, d') = block_level E name seqno level (i + 1) hs
            (db_put E d (block_node_key name seqno level i) (hval h1 @ hval h2))
      in (Hash_Clone (ComputeFrom E (hval h1 @ hval h2)) # ps, d'))"

lemma length_block_level [simp]: "length (fst (block_level E name seqno level i hs d)) = (length hs + 1) div 2"
  by (induction E name seqno level i hs d rule: block_level.induct) (auto simp: Let_def case_prod_unfold)

function block_loop :: "'s ext \<Rightarrow> string \<Rightarrow> nat \<Rightarrow> nat \<Rightarrow> Hash list \<Rightarrow> 's DB \<Rightarrow> Hash list \<times> 's DB" where
  "block_loop E name seqno level hs d =
     (if length hs > 1 then
        (let (ps, d') = block_level E name seqno (level + 1) 0 hs d in block_loop E name seqno (level + 1) ps d')
      else (hs, d))"
  by pat_completeness auto
termination
proof (relation "measure (\<lambda>(E, name, seqno, level, hs, d). length hs)", goal_cases)
  case (2 E name seqno level hs d x ps d')
  then have "length ps = (length hs + 1) div 2" by (metis fst_conv length_block_level)
  then show ?case using 2(1) by simp
qed simp

declare block_loop.simps [simp del]

definition calculateBlockHash :: "'s ext \<Rightarrow> 's DB \<Rightarrow> Hash list \<Rightarrow> string \<Rightarrow> nat \<Rightarrow> Hash \<times> 's DB" where
  "calculateBlockHash E d proof name seqno =
     (let (top, d') = block_loop E name seqno 0 proof d in (Hash_Clone (top ! 0), d'))"

text \<open>\<open>calculateDigest\<close>: from the new block up to the root.\<close>

definition digest_node_key :: "string \<Rightarrow> nat \<Rightarrow> nat \<Rightarrow> string" where
  "digest_node_key name level i = ''proof_'' @ name @ ''|'' @ to_string level @ ''|'' @ to_string i"

function digest_loop :: "'s ext \<Rightarrow> string \<Rightarrow> Hash \<Rightarrow> nat \<Rightarrow> nat \<Rightarrow> Hash \<Rightarrow> 's DB \<Rightarrow> Hash \<times> 's DB" where
  "digest_loop E name prev_block_hash level last_seqno cur d =
     (if last_seqno > 0 then
        let level' = level + 1; pr_last = last_seqno div 2; key = digest_node_key name level' pr_last;
            node = (if last_seqno mod 2 = 0 then hval cur
                    else let prev_hash = (if level' = 1 then prev_block_hash
                           else ComputeFrom E (take (kByteLength * 2)
                                  (DB_Get_str E d (digest_node_key name (level' - 1) (last_seqno - 1)))))
                         in hval prev_hash @ hval cur)
        in digest_loop E name prev_block_hash level' pr_last (ComputeFrom E node) (db_put E d key node)
      else (cur, d))"
  by pat_completeness auto
termination by (relation "measure (\<lambda>(E, name, pb, level, last_seqno, cur, d). last_seqno)") auto

declare digest_loop.simps [simp del]

definition calculateDigest :: "'s ext \<Rightarrow> 's DB \<Rightarrow> Hash \<Rightarrow> Hash \<Rightarrow> string \<Rightarrow> nat \<Rightarrow> 's DB" where
  "calculateDigest E d block_hash prev_block_hash name seqno =
     (let (cur, d') = digest_loop E name prev_block_hash 0 seqno (Hash_Clone block_hash) d
      in db_put E d' (''digest_'' @ name) (ToBase32 cur))"

text \<open>The sequence number and previous hash of a new block, from the tip entry.\<close>

definition next_block :: "'s ext \<Rightarrow> string \<Rightarrow> (nat \<times> Hash) result" where
  "next_block E tip =
     (if tip = [] then Inr (0, ComputeFrom E ''0'')
      else let (pre, post) = (case find_char (CHR ''|'') tip of Some i \<Rightarrow> (take i tip, drop (i + 1) tip) | None \<Rightarrow> (tip, tip))
        in rbind (stoul pre) (\<lambda>n. Inr ((n + 1) mod 2 ^ 64, FromBase32 post)))"

text \<open>The document loop of \<open>Set\<close> from position \<open>i\<close> on.\<close>

fun set_documents :: "'s ext \<Rightarrow> string \<Rightarrow> nat \<Rightarrow> nat \<Rightarrow> nat \<Rightarrow> (string \<times> string) list \<Rightarrow> 's QLDB
    \<Rightarrow> ((Chunk \<times> string) list \<times> 's QLDB) option" where
  "set_documents E name seqno now i [] q = Some ([], q)"
| "set_documents E name seqno now i ((k, v) # kvs) q =
     Option.bind (GetCommitted E q k) (\<lambda>(latest, q').
       let ver = (if Chunk_empty latest then 0 else version (doc_meta (Document_of latest)) + 1);
           doc = Document_Encode k v \<lparr>ledger_name = name, seq_no = seqno\<rparr> \<lparr>doc_seq = i, version = ver, md_time = now\<rparr>
       in map_option (\<lambda>(ds, q''). ((doc, k @ ''|'' @ to_string ver) # ds, q''))
            (set_documents E name seqno now (i + 1) kvs q'))"

text \<open>
  The hashes of a block beside its documents.  The three \<open>memcpy\<close> into \<open>stmt\<close> and \<open>addr\<close> all start at
  offset 0, so later ones overwrite earlier ones and the last bytes stay uninitialised (\<open>junk\<close>).
\<close>

definition stmt_bytes :: "nat \<Rightarrow> string \<Rightarrow> string" where
  "stmt_bytes now junk = le_bytes 8 now @ take 1 junk"

definition addr_bytes :: "string \<Rightarrow> nat \<Rightarrow> string \<Rightarrow> string" where
  "addr_bytes name now junk = le_bytes 8 now @ drop 8 (name @ take 16 (drop 1 junk))"

definition block_leaves :: "'s ext \<Rightarrow> string \<Rightarrow> nat \<Rightarrow> string \<Rightarrow> Hash \<Rightarrow> Chunk list \<Rightarrow> Hash list" where
  "block_leaves E name now junk prev_hash docs =
     map (\<lambda>d. Hash_Clone (chunk_hash E d)) docs @
     [Hash_Clone prev_hash, Hash_Clone (ComputeFrom E (stmt_bytes now junk)), Hash_Clone (ComputeFrom E (addr_bytes name now junk))]"

text \<open>The writes of \<open>Set\<close> after the trees: block tree, digest tree, block record and tip.\<close>

definition append_block :: "'s ext \<Rightarrow> string \<Rightarrow> nat \<Rightarrow> nat \<Rightarrow> Hash \<Rightarrow> Hash list \<Rightarrow> Chunk list \<Rightarrow> 's DB \<Rightarrow> 's DB" where
  "append_block E name seqno now prev_hash leaves docs d =
     (let (block_hash, d3) = calculateBlockHash E d leaves name seqno;
          d4 = calculateDigest E d3 block_hash prev_hash name seqno;
          block = QLBlock_Encode \<lparr>ledger_name = name, seq_no = seqno\<rparr> \<lparr>stmt_type = 0, stmt_time = now\<rparr> now block_hash prev_hash docs;
          d5 = snd (DB_Put_chunk E d4 (name @ ''|'' @ to_string seqno) block)
      in db_put E d5 name (to_string seqno @ ''|'' @ ToBase32 block_hash))"

text \<open>\<open>Set\<close>: \<open>Some (Inl e)\<close> is an exception, \<^term>\<open>None\<close> a crash inside the trees.\<close>

definition QLDB_Set :: "'s ext \<Rightarrow> BPlusConfig \<Rightarrow> nat \<Rightarrow> string \<Rightarrow> 's QLDB \<Rightarrow> string \<Rightarrow> string list \<Rightarrow> string list
    \<Rightarrow> (bool \<times> 's QLDB) result option" where
  "QLDB_Set E C now junk q name keys vals =
     (if length keys \<noteq> length vals then Some (Inr (False, q))
      else if length keys = 0 then Some (Inr (True, q))
      else case next_block E (DB_Get_str E (q_db q) name) of Inl e \<Rightarrow> Some (Inl e)
       | Inr (seqno, prev_hash) \<Rightarrow>
         Option.bind (set_documents E name seqno now 0 (zip keys vals) q) (\<lambda>(dks, q1).
           let docs = map fst dks; vs = map (\<lambda>d. chunk_bytes d) docs in
           Option.bind (QLBTree_SetMany E C (q_indexed q1) keys vs (q_db q1)) (\<lambda>(b1, ix, d1).
           Option.bind (QLBTree_SetMany E C (q_history q1) (map snd dks) vs d1) (\<lambda>(b2, hi, d2).
             let d3 = append_block E name seqno now prev_hash (block_leaves E name now junk prev_hash docs) docs d2
             in Some (Inr (True, q\<lparr>q_db := d3, q_indexed := ix, q_history := hi\<rparr>))))))"

definition QLDB_Delete :: "'s QLDB \<Rightarrow> string \<Rightarrow> string list \<Rightarrow> bool" where
  "QLDB_Delete q name keys = True"

definition QLDB_digest :: "'s ext \<Rightarrow> 's QLDB \<Rightarrow> string \<Rightarrow> (nat \<times> string) result" where
  "QLDB_digest E q name =
     (let dig = DB_Get_str E (q_db q) (''digest_'' @ name); tip = DB_Get_str E (q_db q) name
      in if tip = [] then Inr (0, dig)
         else rbind (stoul (case find_char (CHR ''|'') tip of Some i \<Rightarrow> take i tip | None \<Rightarrow> tip)) (\<lambda>n. Inr (n, dig)))"

text \<open>
  The two loops of \<open>getProof\<close>, over the nodes named by \<open>key\<close>; the node read is 20 or 40 bytes, and a
  20-byte node is only read at offset 0.
\<close>

function ql_proof_loop :: "'s ext \<Rightarrow> 's DB \<Rightarrow> (nat \<Rightarrow> nat \<Rightarrow> string) \<Rightarrow> nat \<Rightarrow> nat \<Rightarrow> nat \<Rightarrow> (string \<times> nat) list" where
  "ql_proof_loop E d key level cur last_seq =
     (if last_seq > 0 then
        (let level' = level + 1; pr_seq = cur div 2; idx = 1 - cur mod 2 in
         (if cur = last_seq \<and> last_seq mod 2 = 0 then ToBase32 None
          else ToBase32 (Hash_ptr (drop (kByteLength * idx) (DB_Get_str E d (key level' pr_seq)))), idx) #
         ql_proof_loop E d key level' pr_seq (last_seq div 2))
      else [])"
  by pat_completeness auto
termination by (relation "measure (\<lambda>(E, d, key, level, cur, last_seq). last_seq)") auto

declare ql_proof_loop.simps [simp del]

text \<open>\<open>getProof\<close>: \<^term>\<open>None\<close> for a missing block or a document index past the end (out of bounds).\<close>

definition QLDB_getProof :: "'s ext \<Rightarrow> 's QLDB \<Rightarrow> string \<Rightarrow> nat \<Rightarrow> nat \<Rightarrow> nat \<Rightarrow> (QLProofResult option \<times> 's QLDB) option" where
  "QLDB_getProof E q name tip block_addr dseq =
     (if block_addr > tip then Some (None, q)
      else let (block, d') = DB_Get_chunk E (q_db q) (name @ ''|'' @ to_string block_addr); q' = q\<lparr>q_db := d'\<rparr>
        in if Chunk_empty block then None
           else let qb = QLBlock_of block; doc_size = length (blk_documents qb) + 2
             in if dseq > doc_size then Some (None, q')
                else if length (blk_documents qb) \<le> dseq then None
                else let doc = Document_of (blk_documents qb ! dseq);
                         entries = ql_proof_loop E d' (block_node_key name block_addr) 0 dseq doc_size @
                                   ql_proof_loop E d' (digest_node_key name) 0 block_addr tip
                  in Some (Some \<lparr>pr_data = doc_data doc, pr_addr = doc_addr doc, pr_meta = doc_meta doc,
                                pr_proof = map fst entries, pr_pos = map snd entries\<rparr>, q'))"


section \<open>Stored trees\<close>

text \<open>The bytes of the node above positions \<open>2 j\<close> and \<open>2 j + 1\<close> of level \<open>k\<close>, and a store that holds every node.\<close>

definition node_at :: "'s ext \<Rightarrow> string list \<Rightarrow> nat \<Rightarrow> nat \<Rightarrow> string" where
  "node_at E xs k j = (let l = tree_level E xs k in if 2 * j + 1 < length l then l ! (2 * j) @ l ! (2 * j + 1) else l ! (2 * j))"

definition nodes_stored :: "'s ext \<Rightarrow> (string \<rightharpoonup> string) \<Rightarrow> (nat \<Rightarrow> nat \<Rightarrow> string) \<Rightarrow> string list \<Rightarrow> bool" where
  "nodes_stored E m key xs \<longleftrightarrow> (\<forall>k<height (length xs). \<forall>j<length (tree_level E xs (Suc k)). m (key (Suc k) j) = Some (node_at E xs k j))"

lemma tree_level_node:
  "j < length (tree_level E xs (Suc k)) \<Longrightarrow> tree_level E xs (Suc k) ! j = hval (ComputeFrom E (node_at E xs k j))"
  using parents_nth [of j "tree_level E xs k" E] by (simp add: tree_level_Suc length_parents node_at_def Let_def)

lemma level_above: "0 < length xs \<Longrightarrow> 0 < (length xs - 1) div 2 ^ k \<longleftrightarrow> k < height (length xs)"
proof -
  assume "0 < length xs"
  then have "2 ^ k \<le> length xs - 1 \<longleftrightarrow> \<not> length xs \<le> 2 ^ k" by linarith
  also have "\<dots> \<longleftrightarrow> k < height (length xs)" using height_le_iff [of "length xs" k] by linarith
  finally show ?thesis by (simp add: div_greater_zero_iff)
qed

lemma index_in_level: "j < length xs \<Longrightarrow> j div 2 ^ k < length (tree_level E xs k)"
  using le_less_trans [OF div_times_less_eq_dividend [of j "2 ^ k"]] by (simp only: less_length_tree_level)

text \<open>The loops of \<open>getProof\<close> read the path of a leaf off a stored tree.\<close>

lemma ql_proof_entry:
  fixes k :: nat
  assumes E: "ext_ok E" and xs: "hashes20 xs" and j: "j < length xs"
  defines "p \<equiv> j div 2 ^ k" and "q \<equiv> (length xs - 1) div 2 ^ k"
  shows "(if p = q \<and> q mod 2 = 0 then ToBase32 None
      else ToBase32 (Hash_ptr (drop (kByteLength * (1 - p mod 2)) (node_at E xs k (p div 2)))), 1 - p mod 2)
    = sib_entry (sibling_at E xs j k)"
proof -
  let ?l = "tree_level E xs k"
  have len: "length ?l = q + 1" using j unfolding q_def by (intro last_of_level) linarith
  have p: "p \<le> q" using j unfolding p_def q_def by (simp add: div_le_mono)
  have l20: "length (?l ! i) = 20" if "i < length ?l" for i
    using tree_level_20 [OF E, of xs "?l ! i" k] xs that by (simp add: hashes20_def)
  consider (left) "p mod 2 = 1" | (right) "p mod 2 = 0" "p < q" | (none) "p mod 2 = 0" "p = q" using p by linarith
  then show ?thesis
  proof cases
    case left
    then have o: "2 * (p div 2) = p - 1" "2 * (p div 2) + 1 = p" "p \<noteq> 0" using half_odd [of p] by auto
    have "node_at E xs k (p div 2) = ?l ! (p - 1) @ ?l ! p" unfolding node_at_def Let_def o(2) unfolding o(1) using p len by simp
    then show ?thesis using left o l20 [of "p - 1"] p len
      by (auto simp: sibling_at_def p_def [symmetric] Let_def Hash_ptr_def kByteLength_def)
  next
    case right
    then have e: "2 * (p div 2) = p" by presburger
    have "node_at E xs k (p div 2) = ?l ! p @ ?l ! (p + 1)" unfolding node_at_def e Let_def using right len by simp
    then show ?thesis using right l20 [of p] l20 [of "p + 1"] len
      by (simp add: sibling_at_def p_def [symmetric] Let_def Hash_ptr_def kByteLength_def)
  next
    case none
    then show ?thesis using len by (simp add: sibling_at_def p_def [symmetric] Let_def)
  qed
qed

lemma ql_proof_loop_path:
  assumes E: "ext_ok E" and xs: "hashes20 xs" and j: "j < length xs" and st: "nodes_stored E (db_map E d) key xs"
  shows "k \<le> height (length xs) \<Longrightarrow> ql_proof_loop E d key k (j div 2 ^ k) ((length xs - 1) div 2 ^ k) =
    map (\<lambda>i. sib_entry (sibling_at E xs j i)) [k..<height (length xs)]"
proof (induction "height (length xs) - k" arbitrary: k)
  case 0
  then have "\<not> 0 < (length xs - 1) div 2 ^ k" using level_above [of xs k] j by linarith
  then show ?case using 0 by (simp add: ql_proof_loop.simps)
next
  case (Suc m)
  let ?p = "j div 2 ^ k" and ?q = "(length xs - 1) div 2 ^ k"
  have k: "k < height (length xs)" using Suc.hyps(2) by linarith
  have pos: "0 < ?q" using level_above [of xs k] j k by linarith
  have "j div 2 ^ Suc k < length (tree_level E xs (Suc k))" using index_in_level [OF j] .
  then have "DB_Get_str E d (key (k + 1) (?p div 2)) = node_at E xs k (?p div 2)"
    using st k unfolding nodes_stored_def half_div by (simp add: DB_Get_str_def DB_Get_def)
  moreover have "ql_proof_loop E d key (k + 1) (?p div 2) (?q div 2) = map (\<lambda>i. sib_entry (sibling_at E xs j i)) [k + 1..<height (length xs)]"
    using Suc.hyps(1) [of "k + 1"] Suc.hyps(2) k unfolding half_div by simp
  moreover have "[k..<height (length xs)] = k # [k + 1..<height (length xs)]" using k by (simp add: upt_conv_Cons)
  ultimately show ?case using pos
    by (subst ql_proof_loop.simps) (simp only: Let_def if_True ql_proof_entry [OF E xs j] list.map)
qed

lemma ql_verify_climb:
  "ext_ok E \<Longrightarrow> length x = 20 \<Longrightarrow> \<forall>s\<in>set sibs. sib_ok s \<Longrightarrow>
    ql_verify_loop E (map (fst \<circ> sib_entry) sibs) (map (snd \<circ> sib_entry) sibs) (Some x) = Inr (Some (climb E sibs x))"
proof (induction sibs arbitrary: x)
  case Nil
  then show ?case by (simp add: climb_def)
next
  case (Cons s sibs)
  have "length (climb_step E s x) = 20" using Cons.prems by (cases s) auto
  moreover have ne: "ToBase32 (Some b) \<noteq> []" for b using length_ToBase32 [of b] by fastforce
  have "ql_verify_loop E (map (fst \<circ> sib_entry) (s # sibs)) (map (snd \<circ> sib_entry) (s # sibs)) (Some x)
    = ql_verify_loop E (map (fst \<circ> sib_entry) sibs) (map (snd \<circ> sib_entry) sibs) (Some (climb_step E s x))"
    using Cons.prems ne by (cases s) (simp_all add: FromBase32_ToBase32 Let_def ComputeFrom_Some [symmetric])
  moreover have "\<forall>s\<in>set sibs. sib_ok s" using Cons.prems by simp
  ultimately show ?case using Cons.IH [of "climb_step E s x"] Cons.prems(1) by (simp only: climb_def fold_simps)
qed

section \<open>The block hash\<close>

fun level_nodes :: "string list \<Rightarrow> string list" where
  "level_nodes [] = []"
| "level_nodes [x] = [x]"
| "level_nodes (x # y # zs) = (x @ y) # level_nodes zs"

definition put_all :: "'s ext \<Rightarrow> 's DB \<Rightarrow> (string \<times> string) list \<Rightarrow> 's DB" where
  "put_all E d kvs = foldl (\<lambda>d (k, v). db_put E d k v) d kvs"

fun numbered :: "(nat \<Rightarrow> string) \<Rightarrow> nat \<Rightarrow> string list \<Rightarrow> (string \<times> string) list" where
  "numbered key i [] = []"
| "numbered key i (x # xs) = (key i, x) # numbered key (i + 1) xs"

lemma m_cache_put [simp]: "m_cache (db_put E d k v) = m_cache d"
  by (simp add: DB_Put_str_def case_prod_unfold Let_def)

lemma put_all_simps [simp]: "put_all E d [] = d" "put_all E d ((k, v) # kvs) = put_all E (db_put E d k v) kvs"
  by (simp_all add: put_all_def)

lemma m_cache_put_all [simp]: "m_cache (put_all E d kvs) = m_cache d"
  by (induction kvs arbitrary: d) auto

lemma put_all_append: "put_all E d (xs @ ys) = put_all E (put_all E d xs) ys"
  by (simp add: put_all_def)

lemma fst_numbered: "map fst (numbered key i xs) = map key [i..<i + length xs]"
  by (induction xs arbitrary: i) (simp_all add: upt_conv_Cons del: upt_Suc)

lemma keys_numbered: "fst ` set (numbered key i xs) \<subseteq> range key"
  by (induction xs arbitrary: i) auto

lemma numbered_mem: "j < length xs \<Longrightarrow> (key (i + j), xs ! j) \<in> set (numbered key i xs)"
proof (induction xs arbitrary: i j)
  case (Cons x xs)
  then show ?case using Cons.IH [of "j - 1" "i + 1"] by (cases j) auto
qed simp

lemma map_of_numbered:
  assumes "inj key"
  shows "j < length xs \<Longrightarrow> map_of (rev (numbered key i xs)) (key (i + j)) = Some (xs ! j)"
proof -
  assume j: "j < length xs"
  have "distinct (map fst (numbered key i xs))"
    unfolding fst_numbered using assms by (simp add: distinct_map inj_on_def)
  then have "distinct (map fst (rev (numbered key i xs)))" by (metis distinct_rev rev_map)
  then show ?thesis using numbered_mem [OF j, of key i] by simp
qed

lemma parents_level_nodes: "parents E xs = map (\<lambda>b. hval (ComputeFrom E b)) (level_nodes xs)"
  by (induction xs rule: level_nodes.induct) auto

lemma length_level_nodes: "length (level_nodes xs) = (length xs + 1) div 2"
  by (induction xs rule: level_nodes.induct) auto

lemma level_nodes_nth: "j < length (level_nodes xs) \<Longrightarrow>
    level_nodes xs ! j = (if 2 * j + 1 < length xs then xs ! (2 * j) @ xs ! (2 * j + 1) else xs ! (2 * j))"
proof (induction xs arbitrary: j rule: level_nodes.induct)
  case (3 x y zs)
  then show ?case by (cases j) auto
qed auto

lemma Hash_Clone_Some [simp]: "length b = 20 \<Longrightarrow> Hash_Clone (Some b) = Some b"
  by (simp add: Hash_Clone_def Hash_empty_def hval_def kByteLength_def)

lemma hval_Some20 [simp]: "length b = 20 \<Longrightarrow> hval (Some b) = b"
  by (simp add: hval_def kByteLength_def)

lemma block_level_puts:
  "hashes20 xs \<Longrightarrow> block_level E name seqno level i (map Some xs) d =
    (map Some (parents E xs), put_all E d (numbered (block_node_key name seqno level) i (level_nodes xs)))"
  by (induction xs arbitrary: i d rule: level_nodes.induct) (simp_all add: hashes20_def)

fun level_puts :: "'s ext \<Rightarrow> (nat \<Rightarrow> nat \<Rightarrow> string) \<Rightarrow> nat \<Rightarrow> nat \<Rightarrow> string list \<Rightarrow> (string \<times> string) list" where
  "level_puts E key 0 level xs = []"
| "level_puts E key (Suc n) level xs = numbered (key (level + 1)) 0 (level_nodes xs) @ level_puts E key n (level + 1) (parents E xs)"

lemma hashes20_parents: "ext_ok E \<Longrightarrow> hashes20 (parents E xs)"
  by (auto simp: hashes20_def parents_level_nodes)

lemma block_loop_puts:
  assumes E: "ext_ok E"
  shows "hashes20 xs \<Longrightarrow> block_loop E name seqno level (map Some xs) d =
    (map Some (tree_level E xs (height (length xs))), put_all E d (level_puts E (block_node_key name seqno) (height (length xs)) level xs))"
proof (induction "height (length xs)" arbitrary: xs level d)
  case 0
  then have "\<not> length xs > 1" using height_le_iff [of "length xs" 0] by simp
  then show ?case using 0(1) by (simp add: block_loop.simps)
next
  case (Suc n)
  have len: "length xs > 1" using height_le_iff [of "length xs" 0] Suc.hyps(2) by simp
  then have h: "height (length xs) = Suc (height (length (parents E xs)))" by (simp add: height.simps [of "length xs"] length_parents)
  have lv: "tree_level E (parents E xs) n = tree_level E xs (Suc n)" by (simp add: tree_level_def funpow_swap1)
  have n: "n = height (length (parents E xs))" using h Suc.hyps(2) by simp
  show ?case
    using len Suc.hyps(1) [OF n hashes20_parents [OF E], of "level + 1"] h n lv
    by (subst block_loop.simps) (simp add: block_level_puts [OF Suc.prems] put_all_append del: put_all_simps)
qed

text \<open>Keys of different levels or positions are different.\<close>

definition key2_ok :: "(nat \<Rightarrow> nat \<Rightarrow> string) \<Rightarrow> bool" where
  "key2_ok key \<longleftrightarrow> (\<forall>k i l j. key k i = key l j \<longleftrightarrow> k = l \<and> i = j)"

lemma keys_level_puts: "x \<in> fst ` set (level_puts E key n level xs) \<Longrightarrow> \<exists>k j. level < k \<and> x = key k j"
proof (induction n arbitrary: level xs)
  case (Suc n)
  consider "x \<in> range (key (level + 1))" | "x \<in> fst ` set (level_puts E key n (level + 1) (parents E xs))"
    using Suc.prems keys_numbered [of "key (level + 1)" 0 "level_nodes xs"] by (auto simp: image_Un)
  then show ?case
  proof cases
    case 1
    then show ?thesis by (auto intro: exI [of _ "level + 1"])
  next
    case 2
    then show ?thesis using Suc.IH by (meson Suc_lessD add_lessD1)
  qed
qed simp

lemma level_puts_lookup:
  assumes key: "key2_ok key"
  shows "k < n \<Longrightarrow> j < length (tree_level E xs (Suc k)) \<Longrightarrow>
    map_of (rev (level_puts E key n level xs)) (key (level + Suc k) j) = Some (node_at E xs k j)"
proof (induction n arbitrary: level xs k)
  case (Suc n)
  have inj: "inj (key (level + 1))" using key by (simp add: key2_ok_def inj_def)
  show ?case
  proof (cases k)
    case 0
    have "key (level + 1) j \<notin> fst ` set (level_puts E key n (level + 1) (parents E xs))"
      using keys_level_puts [of "key (level + 1) j" E key n "level + 1"] key by (auto simp: key2_ok_def)
    then have "map_of (rev (level_puts E key n (level + 1) (parents E xs))) (key (level + 1) j) = None" by (simp add: map_of_eq_None_iff)
    moreover have j: "j < length (level_nodes xs)" using Suc.prems 0 by (simp add: tree_level_Suc length_parents length_level_nodes)
    ultimately show ?thesis using map_of_numbered [OF inj j, of 0] level_nodes_nth [OF j] 0
      by (simp add: node_at_def map_add_def Let_def)
  next
    case (Suc k')
    have lv: "tree_level E (parents E xs) i = tree_level E xs (Suc i)" for i by (simp add: tree_level_def funpow_swap1)
    have "map_of (rev (level_puts E key n (level + 1) (parents E xs))) (key (level + 1 + Suc k') j) = Some (node_at E (parents E xs) k' j)"
      using Suc.IH [of k' "parents E xs" "level + 1"] Suc.prems Suc lv by simp
    then show ?thesis using Suc lv by (simp add: node_at_def map_add_def)
  qed
qed simp

lemma put_all_map: "ext_ok E \<Longrightarrow> db_map E (put_all E d kvs) = db_map E d ++ map_of (rev kvs)"
  unfolding put_all_def by (rule DBkv.contents_puts)

lemma put_all_other: "ext_ok E \<Longrightarrow> x \<notin> fst ` set kvs \<Longrightarrow> db_map E (put_all E d kvs) x = db_map E d x"
  unfolding put_all_def by (rule DBkv.puts_frame)

lemma block_keys: "key2_ok (block_node_key name seqno)"
  by (simp add: key2_ok_def block_node_key_def sep_unique)

lemma digest_keys: "key2_ok (digest_node_key name)"
  by (simp add: key2_ok_def digest_node_key_def sep_unique)

lemma calculateBlockHash_spec:
  assumes E: "ext_ok E" and xs: "hashes20 xs" "xs \<noteq> []"
  shows "\<exists>puts. calculateBlockHash E d (map Some xs) name seqno = (Some (tree_root E xs), put_all E d puts) \<and>
    nodes_stored E (db_map E (put_all E d puts)) (block_node_key name seqno) xs \<and>
    (\<forall>x\<in>fst ` set puts. \<exists>k j. x = block_node_key name seqno k j)"
proof -
  let ?ps = "level_puts E (block_node_key name seqno) (height (length xs)) 0 xs"
  have root: "length (tree_root E xs) = 20" using tree_level_20 [OF E, of xs "tree_root E xs" "height (length xs)"] tree_level_height [OF xs(2), of E] xs(1)
    by (simp add: hashes20_def)
  have "calculateBlockHash E d (map Some xs) name seqno = (Some (tree_root E xs), put_all E d ?ps)"
    using tree_level_height [OF xs(2), of E] root by (simp add: calculateBlockHash_def block_loop_puts [OF E xs(1)])
  moreover have "nodes_stored E (db_map E (put_all E d ?ps)) (block_node_key name seqno) xs"
    using level_puts_lookup [OF block_keys, of _ "height (length xs)" _ E xs name seqno 0] E
    by (simp add: nodes_stored_def put_all_map map_add_def)
  moreover have "\<forall>x\<in>fst ` set ?ps. \<exists>k j. x = block_node_key name seqno k j"
    using keys_level_puts by metis
  ultimately show ?thesis by blast
qed

section \<open>The digest\<close>

text \<open>Nodes over complete subtrees, which later blocks read and never rewrite.\<close>

definition full_stored :: "'s ext \<Rightarrow> (string \<rightharpoonup> string) \<Rightarrow> (nat \<Rightarrow> nat \<Rightarrow> string) \<Rightarrow> nat \<Rightarrow> string list \<Rightarrow> bool" where
  "full_stored E m key n xs \<longleftrightarrow> (\<forall>k j. (j + 1) * 2 ^ Suc k \<le> n \<longrightarrow> m (key (Suc k) j) = Some (node_at E xs k j))"

lemma node_at_append:
  assumes "(j + 1) * 2 ^ Suc k \<le> length xs"
  shows "node_at E (xs @ ys) k j = node_at E xs k j"
proof -
  have l: "(2 * j + 1) * 2 ^ k \<le> length xs" "(2 * j + 1 + 1) * 2 ^ k \<le> length xs" using assms by (simp_all add: algebra_simps)
  have "(2 * j + 1) * 2 ^ k < (2 * j + 1 + 1) * (2 :: nat) ^ k" by simp
  then have lt: "(2 * j + 1) * 2 ^ k < length xs" using l(2) by linarith
  then have "2 * j + 1 < length (tree_level E xs k)" "2 * j + 1 < length (tree_level E (xs @ ys) k)"
    by (simp_all only: less_length_tree_level length_append trans_less_add1)
  then show ?thesis using tree_level_append [OF l(1), of E ys] tree_level_append [OF l(2), of E ys] by (simp add: node_at_def Let_def)
qed

lemma nodes_full:
  assumes "nodes_stored E m key xs"
  shows "full_stored E m key (length xs) (xs @ ys)"
  unfolding full_stored_def
proof (intro allI impI)
  fix k j assume le: "(j + 1) * 2 ^ Suc k \<le> length xs"
  have "(2 :: nat) ^ k < (j + 1) * 2 ^ Suc k" by simp
  then have "\<not> length xs \<le> 2 ^ k" using le by linarith
  then have k: "k < height (length xs)" using height_le_iff [of "length xs" k] by linarith
  have "j * 2 ^ Suc k < (j + 1) * 2 ^ Suc k" by simp
  then have "j * 2 ^ Suc k < length xs" using le by linarith
  then have "j < length (tree_level E xs (Suc k))" by (simp only: less_length_tree_level)
  then have "m (key (Suc k) j) = Some (node_at E xs k j)" using assms k unfolding nodes_stored_def by blast
  then show "m (key (Suc k) j) = Some (node_at E (xs @ ys) k j)" by (simp only: node_at_append [OF le])
qed

lemma not_full: "\<not> (n div 2 ^ k + 1) * 2 ^ k \<le> (n :: nat)"
  using dividend_less_times_div [of "2 ^ k" n] by (simp add: algebra_simps)

lemma node_at_length:
  assumes E: "ext_ok E" and xs: "hashes20 xs" and j: "j < length (tree_level E xs (Suc k))"
  shows "length (node_at E xs k j) \<le> 40"
proof -
  let ?l = "tree_level E xs k"
  have l20: "length (?l ! i) = 20" if "i < length ?l" for i
    using tree_level_20 [OF E, of xs "?l ! i" k] xs that by (simp add: hashes20_def)
  have "2 * j < length ?l" using j by (simp add: tree_level_Suc length_parents)
  then show ?thesis using l20 by (simp add: node_at_def Let_def)
qed

lemma digest_step:
  assumes E: "ext_ok E" and xs: "hashes20 xs" "0 < length xs" and full: "full_stored E (db_map E d) (digest_node_key name) (length xs - 1) xs"
    and pb: "1 < length xs \<Longrightarrow> hval prev_block_hash = xs ! (length xs - 2)"
  defines "n \<equiv> length xs - 1"
  shows "(if n div 2 ^ k mod 2 = 0 then hval (Some (tree_level E xs k ! (n div 2 ^ k)))
      else let prev_hash = (if k + 1 = 1 then prev_block_hash
             else ComputeFrom E (take (kByteLength * 2) (DB_Get_str E d (digest_node_key name (k + 1 - 1) (n div 2 ^ k - 1)))))
           in hval prev_hash @ hval (Some (tree_level E xs k ! (n div 2 ^ k)))) = node_at E xs k (n div 2 ^ Suc k)"
proof -
  let ?l = "tree_level E xs k" and ?p = "n div 2 ^ k"
  have len: "length ?l = ?p + 1" using last_of_level [OF xs(2)] by (simp add: n_def)
  have l20: "length (?l ! i) = 20" if "i < length ?l" for i
    using tree_level_20 [OF E, of xs "?l ! i" k] xs that by (simp add: hashes20_def)
  have hv: "hval (Some (?l ! ?p)) = ?l ! ?p" using l20 len by simp
  show ?thesis
  proof (cases "?p mod 2 = 0")
    case True
    then have "2 * (n div 2 ^ Suc k) = ?p" unfolding half_div [symmetric] by (intro half_even) simp
    then show ?thesis using True hv len by (simp add: node_at_def Let_def)
  next
    case False
    then have o: "2 * (n div 2 ^ Suc k) = ?p - 1" "2 * (n div 2 ^ Suc k) + 1 = ?p" "0 < ?p"
      unfolding half_div [symmetric] using half_odd [of ?p] by (auto intro: Nat.gr0I)
    have nd: "node_at E xs k (n div 2 ^ Suc k) = ?l ! (?p - 1) @ ?l ! ?p"
      unfolding node_at_def Let_def o(2) unfolding o(1) using len by simp
    have "hval (if k + 1 = 1 then prev_block_hash
             else ComputeFrom E (take (kByteLength * 2) (DB_Get_str E d (digest_node_key name (k + 1 - 1) (?p - 1))))) = ?l ! (?p - 1)"
    proof (cases k)
      case 0
      then show ?thesis using pb o(3) by (simp add: n_def numeral_2_eq_2)
    next
      case (Suc k')
      have le: "(?p - 1 + 1) * 2 ^ Suc k' \<le> n" using o(3) Suc by simp
      then have "db_map E d (digest_node_key name (Suc k') (?p - 1)) = Some (node_at E xs k' (?p - 1))"
        using full unfolding full_stored_def n_def by blast
      moreover have "length (node_at E xs k' (?p - 1)) \<le> 40"
        using len Suc by (intro node_at_length [OF E xs(1)]) simp
      moreover have "?l ! (?p - 1) = hval (ComputeFrom E (node_at E xs k' (?p - 1)))"
        using tree_level_node [of "?p - 1" E xs k'] len Suc by simp
      ultimately show ?thesis using Suc by (simp add: DB_Get_str_def DB_Get_def kByteLength_def)
    qed
    then show ?thesis using False hv nd by (simp add: Let_def)
  qed
qed

lemma digest_loop_spec:
  fixes name :: string
  assumes E: "ext_ok E" and xs: "hashes20 xs" "0 < length xs"
    and pb: "1 < length xs \<Longrightarrow> hval prev_block_hash = xs ! (length xs - 2)"
  defines "n \<equiv> length xs - 1" and "key \<equiv> digest_node_key name"
  shows "full_stored E (db_map E d) key n xs \<Longrightarrow> k \<le> height (length xs) \<Longrightarrow>
    \<exists>puts. digest_loop E name prev_block_hash k (n div 2 ^ k) (Some (tree_level E xs k ! (n div 2 ^ k))) d =
      (Some (tree_root E xs), put_all E d puts) \<and>
      puts = map (\<lambda>i. (key (Suc i) (n div 2 ^ Suc i), node_at E xs i (n div 2 ^ Suc i))) [k..<height (length xs)]"
proof (induction "height (length xs) - k" arbitrary: k d)
  case 0
  then have k: "k = height (length xs)" by simp
  then have "\<not> 0 < n div 2 ^ k" using level_above [OF xs(2), of k] by (simp add: n_def)
  then show ?case using k tree_level_height [of xs E] xs(2) by (simp add: digest_loop.simps)
next
  case (Suc m)
  let ?p = "n div 2 ^ k" and ?node = "node_at E xs k (n div 2 ^ Suc k)"
  let ?d = "db_put E d (key (Suc k) (n div 2 ^ Suc k)) ?node"
  have k: "k < height (length xs)" using Suc.hyps(2) by linarith
  have pos: "0 < ?p" using level_above [OF xs(2), of k] k by (simp add: n_def)
  have "n div 2 ^ Suc k < length (tree_level E xs (Suc k))" using xs(2) unfolding n_def by (intro index_in_level) simp
  then have node: "ComputeFrom E ?node = Some (tree_level E xs (Suc k) ! (n div 2 ^ Suc k))"
    using tree_level_node [of "n div 2 ^ Suc k" E xs k] ComputeFrom_Some [of E ?node] by simp
  have step: "digest_loop E name prev_block_hash k ?p (Some (tree_level E xs k ! ?p)) d =
      digest_loop E name prev_block_hash (Suc k) (n div 2 ^ Suc k) (Some (tree_level E xs (Suc k) ! (n div 2 ^ Suc k))) ?d"
    using pos node
    by (subst digest_loop.simps)
      (simp only: if_True Let_def half_div key_def Suc_eq_plus1 [symmetric]
        digest_step [OF E xs Suc.prems(1) [unfolded key_def n_def] pb, of k, folded n_def, unfolded Let_def Suc_eq_plus1 [symmetric]])
  have "full_stored E (db_map E ?d) key n xs"
    unfolding full_stored_def
  proof (intro allI impI)
    fix i j assume le: "(j + 1) * 2 ^ Suc i \<le> n"
    then have "key (Suc i) j \<noteq> key (Suc k) (n div 2 ^ Suc k)"
      using digest_keys [of name] not_full [of n "Suc k"] unfolding key2_ok_def key_def by metis
    then show "db_map E ?d (key (Suc i) j) = Some (node_at E xs i j)" using Suc.prems(1) le E by (simp add: full_stored_def)
  qed
  moreover have "[k..<height (length xs)] = k # [Suc k..<height (length xs)]" using k by (simp add: upt_conv_Cons)
  ultimately show ?case
    unfolding step using Suc.hyps(1) [of "Suc k" ?d] Suc.hyps(2) k by simp
qed

text \<open>One call of \<open>calculateDigest\<close> extends the stored tree by the new block.\<close>

lemma calculateDigest_spec:
  assumes E: "ext_ok E" and xs: "hashes20 (xs @ [h])" and st: "nodes_stored E (db_map E d) (digest_node_key name) xs"
    and pb: "xs \<noteq> [] \<Longrightarrow> hval prev_block_hash = last xs" and h: "hval block_hash = h" "block_hash \<noteq> None"
  shows "\<exists>puts. calculateDigest E d block_hash prev_block_hash name (length xs) =
      put_all E d (puts @ [(''digest_'' @ name, ToBase32 (Some (tree_root E (xs @ [h]))))]) \<and>
    (\<forall>x\<in>fst ` set puts. \<exists>k j. x = digest_node_key name k j) \<and>
    nodes_stored E (db_map E (put_all E d puts)) (digest_node_key name) (xs @ [h])"
proof -
  let ?xs = "xs @ [h]" and ?key = "digest_node_key name" and ?n = "length xs"
  let ?puts = "map (\<lambda>i. (?key (Suc i) (?n div 2 ^ Suc i), node_at E ?xs i (?n div 2 ^ Suc i))) [0..<height (length ?xs)]"
  have full: "full_stored E (db_map E d) ?key (length ?xs - 1) ?xs" using nodes_full [OF st] by simp
  have pb': "hval prev_block_hash = ?xs ! (length ?xs - 2)" if "1 < length ?xs"
    using pb that by (cases xs rule: rev_cases) (auto simp: nth_append)
  have cl: "Hash_Clone block_hash = Some h" using h by (simp add: Hash_Clone_def Hash_empty_def)
  have loop: "digest_loop E name prev_block_hash 0 ?n (Some h) d = (Some (tree_root E ?xs), put_all E d ?puts)"
    using digest_loop_spec [OF E xs _ pb' full, of 0] by simp
  have "nodes_stored E (db_map E (put_all E d ?puts)) ?key ?xs"
    unfolding nodes_stored_def
  proof (intro allI impI)
    fix k j assume k: "k < height (length ?xs)" and j: "j < length (tree_level E ?xs (Suc k))"
    have inj: "distinct (map fst (rev ?puts))"
      using digest_keys [of name] by (simp add: key2_ok_def distinct_map inj_on_def comp_def rev_map [symmetric] del: power_Suc)
    show "db_map E (put_all E d ?puts) (?key (Suc k) j) = Some (node_at E ?xs k j)"
    proof (cases "j = ?n div 2 ^ Suc k")
      case True
      then have "(?key (Suc k) j, node_at E ?xs k j) \<in> set (rev ?puts)" using k by (auto simp: image_iff)
      then show ?thesis using inj E by (simp add: put_all_map map_add_def)
    next
      case False
      have "j * 2 ^ Suc k < length ?xs" using j by (simp only: less_length_tree_level)
      then have "j * 2 ^ Suc k \<le> ?n" by simp
      then have "j \<le> ?n div 2 ^ Suc k" by (simp only: less_eq_div_iff_mult_less_eq zero_less_power zero_less_numeral)
      then have "(j + 1) * 2 ^ Suc k \<le> ?n div 2 ^ Suc k * 2 ^ Suc k" using False by (intro mult_le_mono1) simp
      then have le: "(j + 1) * 2 ^ Suc k \<le> ?n" using div_times_less_eq_dividend [of ?n "2 ^ Suc k"] by linarith
      have "?key (Suc k) j \<notin> fst ` set ?puts" using False digest_keys [of name] by (auto simp: key2_ok_def)
      then have "db_map E (put_all E d ?puts) (?key (Suc k) j) = db_map E d (?key (Suc k) j)" using E by (intro put_all_other)
      then show ?thesis using full le unfolding full_stored_def by simp
    qed
  qed
  then show ?thesis
    using loop cl by (intro exI [of _ ?puts]) (auto simp: calculateDigest_def put_all_append simp del: power_Suc)
qed

section \<open>Proofs bind their document\<close>

text \<open>The path a proof claims, whatever its origin, and the strings hashed to check it.\<close>

fun ql_sibs :: "string list \<Rightarrow> nat list \<Rightarrow> sibling list" where
  "ql_sibs [] ps = []"
| "ql_sibs (s # ss) ps = (if s = [] then No_sib else if hd ps = 0 then Left_sib (hval (FromBase32 s)) else Right_sib (hval (FromBase32 s)))
     # ql_sibs ss (drop 1 ps)"

definition pr_doc :: "QLProofResult \<Rightarrow> Document" where
  "pr_doc r = \<lparr>doc_addr = pr_addr r, doc_data = pr_data r, doc_meta = pr_meta r\<rparr>"

definition pr_path :: "QLProofResult \<Rightarrow> sibling list" where
  "pr_path r = ql_sibs (pr_proof r) (pr_pos r)"

definition pr_inputs :: "'s ext \<Rightarrow> QLProofResult \<Rightarrow> string set" where
  "pr_inputs E r = insert (head (doc_chunk (pr_doc r))) (climb_inputs E (pr_path r) (hval (chunk_hash E (doc_chunk (pr_doc r)))))"

lemma ql_verify_raw:
  assumes E: "ext_ok E"
  shows "ql_verify_loop E ss ps h = Inr h' \<Longrightarrow> length (hval h) = 20 \<Longrightarrow> h \<noteq> None \<Longrightarrow>
    h' \<noteq> None \<and> hval h' = climb E (ql_sibs ss ps) (hval h)"
proof (induction ss arbitrary: ps h)
  case Nil
  then show ?case by (simp add: climb_def)
next
  case (Cons s ss)
  let ?step = "if s = [] then No_sib else if hd ps = 0 then Left_sib (hval (FromBase32 s)) else Right_sib (hval (FromBase32 s))"
  obtain h1 where h1: "ql_verify_loop E ss (drop 1 ps) h1 = Inr h'" "hval h1 = climb_step E ?step (hval h)" "h1 \<noteq> None" "length (hval h1) = 20"
    using Cons.prems E by (cases ps) (auto split: if_splits simp del: not_None_eq)
  then show ?case using Cons.IH [OF h1(1,4,3)] by (simp add: climb_def)
qed

text \<open>
  C8: QLDB proofs bind.  Two proofs of the same shape that \<open>QLProofResult::Verify\<close> accepts for the same
  digest carry the same document: its data, its address and its metadata cannot be exchanged, as
  long as the hash has no collision among the strings hashed in the two checks.
\<close>

theorem QLProofResult_binding:
  assumes E: "ext_ok E" and acc: "QLProofResult_Verify E r1 dig = Inr True" "QLProofResult_Verify E r2 dig = Inr True"
    and shape: "list_all2 same_side (pr_path r1) (pr_path r2)" and ok: "Document_ok (pr_doc r1)" "Document_ok (pr_doc r2)"
    and inj: "inj_on (\<lambda>b. hval (ComputeFrom E b)) (pr_inputs E r1 \<union> pr_inputs E r2)"
  shows "pr_data r1 = pr_data r2 \<and> pr_addr r1 = pr_addr r2 \<and> pr_meta r1 = pr_meta r2"
proof -
  have root: "hval dig = climb E (pr_path r) (hval (chunk_hash E (doc_chunk (pr_doc r))))"
    if v: "QLProofResult_Verify E r dig = Inr True" for r
  proof -
    have dc: "doc_chunk (pr_doc r) = Document_Encode (data_key (pr_data r)) (data_val (pr_data r)) (pr_addr r) (pr_meta r)"
      by (simp add: doc_chunk_def pr_doc_def)
    obtain h where h: "ql_verify_loop E (pr_proof r) (pr_pos r) (chunk_hash E (doc_chunk (pr_doc r))) = Inr h" "Hash_eq h dig"
      using v by (auto simp: QLProofResult_Verify_def rbind_Inr_iff dc)
    have "h \<noteq> None \<and> hval h = climb E (pr_path r) (hval (chunk_hash E (doc_chunk (pr_doc r))))"
      unfolding pr_path_def by (rule ql_verify_raw [OF E h(1)]) (simp_all add: chunk_hash_def E del: not_None_eq)
    moreover have "hval h = hval dig" using h(2) by (simp add: Hash_eq_iff)
    ultimately show ?thesis by simp
  qed
  have b: "chunk_hash E (doc_chunk (pr_doc r)) = ComputeFrom E (head (doc_chunk (pr_doc r)))" if "Document_ok (pr_doc r)" for r
    using doc_chunk_bytes(1) [OF that] by (simp add: chunk_hash_def)
  have "hval (chunk_hash E (doc_chunk (pr_doc r1))) = hval (chunk_hash E (doc_chunk (pr_doc r2)))"
  proof -
    have "inj_on (\<lambda>b. hval (ComputeFrom E b)) (climb_inputs E (pr_path r1) (hval (chunk_hash E (doc_chunk (pr_doc r1)))) \<union>
        climb_inputs E (pr_path r2) (hval (chunk_hash E (doc_chunk (pr_doc r2)))))"
      using inj by (rule inj_on_subset) (auto simp: pr_inputs_def)
    then show ?thesis using climb_sound [OF E shape] root [OF acc(1)] root [OF acc(2)] E by (simp add: chunk_hash_def)
  qed
  then have "hval (ComputeFrom E (head (doc_chunk (pr_doc r1)))) = hval (ComputeFrom E (head (doc_chunk (pr_doc r2))))"
    unfolding b [OF ok(1)] b [OF ok(2)] .
  then have "head (doc_chunk (pr_doc r1)) = head (doc_chunk (pr_doc r2))"
    by (rule inj_onD [OF inj]) (simp_all add: pr_inputs_def)
  then have "pr_doc r1 = pr_doc r2" using doc_codec.enc_inject ok by blast
  then show ?thesis by (simp add: pr_doc_def)
qed

definition example_proof :: QLProofResult where
  "example_proof = \<lparr>pr_data = \<lparr>data_key = ''k'', data_val = ''v''\<rparr>, pr_addr = \<lparr>ledger_name = ''L'', seq_no = 0\<rparr>,
     pr_meta = \<lparr>doc_seq = 0, version = 0, md_time = 7\<rparr>, pr_proof = [], pr_pos = []\<rparr>"

theorem QLProofResult_binding_witness:
  "QLProofResult_Verify map_ext example_proof (chunk_hash map_ext (doc_chunk (pr_doc example_proof))) = Inr True \<and>
   pr_data example_proof = \<lparr>data_key = ''k'', data_val = ''v''\<rparr>"
proof -
  have v: "QLProofResult_Verify map_ext example_proof (chunk_hash map_ext (doc_chunk (pr_doc example_proof))) = Inr True"
    by (simp add: example_proof_def QLProofResult_Verify_def pr_doc_def doc_chunk_def Hash_eq_iff)
  have "pr_data example_proof = pr_data example_proof \<and> pr_addr example_proof = pr_addr example_proof \<and> pr_meta example_proof = pr_meta example_proof"
    by (rule QLProofResult_binding [OF ext_ok_map_ext v v])
      (simp_all add: example_proof_def pr_path_def pr_inputs_def pr_doc_def Document_ok_def addr_ok_def)
  then show ?thesis using v by (simp add: example_proof_def)
qed

end
