(* ===== verification/QL_BTree_Correct.thy ===== *)
theory QL_BTree_Correct
  imports QL_BTree
begin

text \<open>
  The index tree of \<open>ql_btree.cc\<close> implements a finite map.  The predicate \<open>repr\<close> says that a node and
  what the store and the delta hold below it represent a sorted list of entries; lookups, inserts
  with their splits and the commit of the delta are shown to respect it.
\<close>

section \<open>Sorted entries\<close>

type_synonym entries = "(string \<times> string) list"

definition strict :: "entries \<Rightarrow> bool" where
  "strict kvs \<longleftrightarrow> sorted_wrt (<) (map fst kvs)"

definition kv_insert :: "string \<Rightarrow> string \<Rightarrow> entries \<Rightarrow> entries" where
  "kv_insert key v kvs = filter (\<lambda>e. fst e < key) kvs @ [(key, v)] @ filter (\<lambda>e. key < fst e) kvs"

lemma strict_Cons: "strict ((k, v) # kvs) \<longleftrightarrow> (\<forall>e\<in>set kvs. k < fst e) \<and> strict kvs"
  by (auto simp: strict_def)

lemma strict_append: "strict (a @ b) \<longleftrightarrow> strict a \<and> strict b \<and> (\<forall>x\<in>set a. \<forall>y\<in>set b. fst x < fst y)"
  by (auto simp: strict_def sorted_wrt_append)

lemma leaf_insert_True: "\<forall>e\<in>set kvs. key < fst e \<Longrightarrow> leaf_insert key v True kvs = kvs"
proof (induction kvs)
  case Nil
  then show ?case by simp
next
  case (Cons e kvs)
  then have "key \<noteq> fst e" by auto
  then show ?case using Cons by (cases e) (simp add: Let_def)
qed

lemma leaf_insert_kv_insert: "strict kvs \<Longrightarrow> leaf_insert key v False kvs = kv_insert key v kvs"
proof (induction kvs)
  case Nil
  then show ?case by (simp add: kv_insert_def)
next
  case (Cons e kvs)
  obtain k w where e: "e = (k, w)" by (cases e)
  have st: "\<forall>e\<in>set kvs. k < fst e" "strict kvs" using Cons.prems by (auto simp: e strict_Cons)
  consider "key < k" | "key = k" | "k < key" by fastforce
  then show ?case
  proof cases
    case 1
    then have all: "\<forall>e\<in>set kvs. key < fst e" using st(1) by (meson less_trans)
    then have "filter (\<lambda>e. fst e < key) kvs = []" "filter (\<lambda>e. key < fst e) kvs = kvs"
      by (auto simp: filter_empty_conv)
    then show ?thesis using 1 leaf_insert_True [OF all] less_imp_neq [OF 1] less_not_sym [OF 1]
      by (simp add: e kv_insert_def Let_def)
  next
    case 2
    then have "filter (\<lambda>e. fst e < key) kvs = []" "filter (\<lambda>e. key < fst e) kvs = kvs"
      using st(1) by (auto simp: filter_empty_conv)
    then show ?thesis using 2 leaf_insert_True [of kvs key v] st(1) by (simp add: e kv_insert_def Let_def)
  next
    case 3
    then have ne: "key \<noteq> k" "\<not> key < k" by auto
    show ?thesis using 3 ne Cons.IH [OF st(2)] by (simp add: e kv_insert_def Let_def)
  qed
qed

lemma kv_insert_append:
  assumes "\<forall>e\<in>set a. fst e < key" "\<forall>e\<in>set b. key < fst e"
  shows "kv_insert key v (a @ s @ b) = a @ kv_insert key v s @ b"
proof -
  have "filter (\<lambda>e. fst e < key) a = a" "filter (\<lambda>e. key < fst e) a = []"
    "filter (\<lambda>e. fst e < key) b = []" "filter (\<lambda>e. key < fst e) b = b"
    using assms by (auto simp: filter_empty_conv)
  then show ?thesis by (simp add: kv_insert_def)
qed

lemma strict_kv_insert: "strict kvs \<Longrightarrow> strict (kv_insert key v kvs)"
  unfolding strict_def kv_insert_def by (auto simp: sorted_wrt_append sorted_wrt_map sorted_wrt_filter intro: less_trans)

lemma set_kv_insert: "e \<in> set (kv_insert key v kvs) \<Longrightarrow> e = (key, v) \<or> e \<in> set kvs"
  by (auto simp: kv_insert_def)

lemma kv_insert_nonempty [simp]: "kv_insert key v kvs \<noteq> []"
  by (simp add: kv_insert_def)

lemma fst_set_kv_insert: "strict kvs \<Longrightarrow> fst ` set (kv_insert key v kvs) = insert key (fst ` set kvs)"
  by (force simp: kv_insert_def neq_iff)

lemma map_of_kv_insert:
  assumes "strict kvs"
  shows "map_of (kv_insert key v kvs) = (map_of kvs)(key \<mapsto> v)"
proof -
  have l: "map_of (filter (\<lambda>e. fst e < key) xs) x = (if x < key then map_of xs x else None)"
    and r: "map_of (filter (\<lambda>e. key < fst e) xs) x = (if key < x then map_of xs x else None)" for xs :: entries and x
    by (induction xs) auto
  show ?thesis
  proof
    fix x
    show "map_of (kv_insert key v kvs) x = ((map_of kvs)(key \<mapsto> v)) x"
      by (cases "x = key") (auto simp: kv_insert_def map_add_def l r split: option.splits)
  qed
qed

lemma strict_le_last: "strict s \<Longrightarrow> e \<in> set s \<Longrightarrow> fst e \<le> fst (last s)"
proof -
  assume st: "strict s" and e: "e \<in> set s"
  then have "s = butlast s @ [last s]" by (metis append_butlast_last_id empty_iff empty_set)
  then show "fst e \<le> fst (last s)"
    using st e strict_append [of "butlast s" "[last s]"] by (metis Un_iff empty_iff insert_iff less_imp_le
      list.simps(15) order_refl set_append empty_set)
qed

lemma length_kv_insert: "length (kv_insert key v kvs) \<le> length kvs + 1"
proof -
  have "length (filter (\<lambda>e. key < fst e) kvs) \<le> length (filter (\<lambda>e. \<not> fst e < key) kvs)"
    by (induction kvs) auto
  then show ?thesis using sum_length_filter_compl [of "\<lambda>e. fst e < key" kvs] by (simp add: kv_insert_def)
qed

lemma last_kv_insert:
  assumes "strict s" "s \<noteq> []" "key \<le> fst (last s)"
  shows "fst (last (kv_insert key v s)) = fst (last s)"
proof (cases "key = fst (last s)")
  case True
  then have "filter (\<lambda>e. key < fst e) s = []"
    using strict_le_last [OF assms(1)] by (auto simp: filter_empty_conv not_less)
  then show ?thesis using True by (simp add: kv_insert_def)
next
  case False
  then have lt: "key < fst (last s)" using assms(3) by simp
  have s: "s = butlast s @ [last s]" using assms(2) by simp
  have "filter (\<lambda>e. key < fst e) s = filter (\<lambda>e. key < fst e) (butlast s) @ [last s]"
    using lt by (subst s) (simp only: filter_append filter.simps if_True)
  then show ?thesis by (simp add: kv_insert_def)
qed

section \<open>Looking up in a leaf\<close>

definition lookup :: "entries \<Rightarrow> string \<Rightarrow> string" where
  "lookup kvs key = (case map_of kvs key of None \<Rightarrow> [] | Some v \<Rightarrow> v)"

lemma leaf_find_lookup: "strict kvs \<Longrightarrow> leaf_find key kvs = lookup kvs key"
proof (induction kvs)
  case Nil
  then show ?case by (simp add: lookup_def)
next
  case (Cons e kvs)
  obtain k w where e: "e = (k, w)" by (cases e)
  have st: "\<forall>e\<in>set kvs. k < fst e" "strict kvs" using Cons.prems by (auto simp: e strict_Cons)
  have "key < k \<Longrightarrow> map_of kvs key = None"
    using st(1) by (metis map_of_eq_None_iff imageE less_trans less_irrefl)
  then show ?case using Cons.IH [OF st(2)] by (auto simp: e lookup_def)
qed

lemma lookup_middle:
  assumes "\<forall>e\<in>set a. fst e < key" "\<forall>e\<in>set b. key < fst e"
  shows "lookup (a @ s @ b) key = lookup s key"
proof -
  have "map_of a key = None" "map_of b key = None"
    using assms by (auto simp: map_of_eq_None_iff)
  then show ?thesis by (simp add: lookup_def map_add_def split: option.splits)
qed


section \<open>What a node represents\<close>

text \<open>
  A bound is the largest key of a node, or \<^term>\<open>None\<close> for the rightmost node of its level, whose
  identifier is \<open>_INFI_\<close>.
\<close>

definition bid :: "string option \<Rightarrow> string" where
  "bid b = (case b of None \<Rightarrow> ''_INFI_'' | Some x \<Rightarrow> x)"

definition bounds :: "string list \<Rightarrow> string option \<Rightarrow> string option list" where
  "bounds ks b = map Some ks @ (if b = None then [None] else [])"

definition idents :: "entries \<Rightarrow> string option \<Rightarrow> string set" where
  "idents kvs b = fst ` set kvs \<union> (if b = None then {''_INFI_''} else {})"

text \<open>The store keys that nodes up to level \<open>l\<close> over these entries can have.\<close>

definition range_ids :: "string \<Rightarrow> nat \<Rightarrow> entries \<Rightarrow> string option \<Rightarrow> string set" where
  "range_ids p l kvs b = {node_key p l' i | l' i. l' \<le> l \<and> i \<in> idents kvs b}"

definition seg_ok :: "string option \<Rightarrow> entries \<Rightarrow> bool" where
  "seg_ok b seg \<longleftrightarrow> seg \<noteq> [] \<and> (b \<noteq> None \<longrightarrow> fst (last seg) = the b)"

definition is_leaf :: "BPlusConfig \<Rightarrow> Chunk \<Rightarrow> string option \<Rightarrow> entries \<Rightarrow> bool" where
  "is_leaf C c b kvs \<longleftrightarrow> c \<noteq> None \<and> chunk_type c = kMap \<and> length kvs \<le> leaf_fanout C \<and>
     (\<exists>next. (next = [] \<longleftrightarrow> b = None) \<and> length next < 2 ^ 31 \<and>
       QLBTreeMap_of c = \<lparr>mp_level = 0, mp_keys = map fst kvs, mp_vals = map snd kvs, mp_next = next\<rparr>)"

definition is_meta :: "BPlusConfig \<Rightarrow> Chunk \<Rightarrow> nat \<Rightarrow> string list \<Rightarrow> nat list \<Rightarrow> bool" where
  "is_meta C c l ks es \<longleftrightarrow> c \<noteq> None \<and> chunk_type c = kMeta \<and> length ks \<le> fanout C \<and>
     QLBTreeMeta_of c = \<lparr>mt_level = l, mt_keys = ks, mt_elems = es\<rparr>"

fun repr :: "BPlusConfig \<Rightarrow> (string \<Rightarrow> Chunk) \<Rightarrow> string set \<Rightarrow> string \<Rightarrow> nat \<Rightarrow> Chunk \<Rightarrow> string option \<Rightarrow> entries \<Rightarrow> bool" where
  "repr C V D p 0 c b kvs = is_leaf C c b kvs"
| "repr C V D p (Suc l) c b kvs = (\<exists>ks segs.
     is_meta C c (Suc l) ks (map length segs @ (if b = None then [] else [0])) \<and>
     ks \<noteq> [] \<and> (b \<noteq> None \<longrightarrow> ks \<noteq> [] \<and> last ks = the b) \<and> kvs = concat segs \<and>
     list_all2 (\<lambda>b' seg. seg_ok b' seg \<and> repr C V D p l (V (node_key p l (bid b'))) b' seg \<and>
       (node_key p l (bid b') \<in> D \<or> range_ids p l seg b' \<inter> D = {})) (bounds ks b) segs)"

definition child_ok :: "BPlusConfig \<Rightarrow> (string \<Rightarrow> Chunk) \<Rightarrow> string set \<Rightarrow> string \<Rightarrow> nat \<Rightarrow> string option \<Rightarrow> entries \<Rightarrow> bool" where
  "child_ok C V D p l b seg \<longleftrightarrow> seg_ok b seg \<and> repr C V D p l (V (node_key p l (bid b))) b seg \<and>
     (node_key p l (bid b) \<in> D \<or> range_ids p l seg b \<inter> D = {})"

lemma repr_Suc: "repr C V D p (Suc l) c b kvs \<longleftrightarrow> (\<exists>ks segs.
     is_meta C c (Suc l) ks (map length segs @ (if b = None then [] else [0])) \<and>
     ks \<noteq> [] \<and> (b \<noteq> None \<longrightarrow> ks \<noteq> [] \<and> last ks = the b) \<and> kvs = concat segs \<and>
     list_all2 (child_ok C V D p l) (bounds ks b) segs)"
  by (simp add: child_ok_def [abs_def])

declare repr.simps(2) [simp del]

lemma node_key_inject [key_simps]: "node_key p l i = node_key p l' i' \<longleftrightarrow> l = l' \<and> i = i'"
  using sep_unique [of "CHR ''|''" "to_string l" "to_string l'"] by (simp add: node_key_def)

lemma range_idsI: "l' \<le> l \<Longrightarrow> i \<in> idents s b \<Longrightarrow> node_key p l' i \<in> range_ids p l s b"
  by (auto simp: range_ids_def)

lemma bid_in_idents: "seg_ok b seg \<Longrightarrow> bid b \<in> idents seg b"
  by (cases b) (auto simp: seg_ok_def bid_def idents_def)

lemma range_ids_mono: "idents s b \<subseteq> idents s' b' \<Longrightarrow> l \<le> l' \<Longrightarrow> range_ids p l s b \<subseteq> range_ids p l' s' b'"
  by (fastforce simp: range_ids_def)

text \<open>Children look only at keys in the range of their entries.\<close>

lemma child_idents: "list_all2 R (bounds ks b) segs \<Longrightarrow> i < length segs \<Longrightarrow>
    idents (segs ! i) (bounds ks b ! i) \<subseteq> idents (concat segs) b"
proof -
  assume *: "list_all2 R (bounds ks b) segs" "i < length segs"
  have "set (segs ! i) \<subseteq> set (concat segs)" using nth_mem [OF *(2)] by auto
  then have "fst ` set (segs ! i) \<subseteq> fst ` set (concat segs)" by (rule image_mono)
  moreover have "bounds ks b ! i = None \<Longrightarrow> b = None"
    using * by (auto simp: bounds_def list_all2_conv_all_nth split: if_splits)
  ultimately show "idents (segs ! i) (bounds ks b ! i) \<subseteq> idents (concat segs) b"
    unfolding idents_def by auto
qed

lemma repr_cong_gen:
  assumes "repr C V D p l c b kvs"
    and "\<And>l' i. l' < l \<Longrightarrow> i \<in> idents kvs b \<Longrightarrow>
      V' (node_key p l' i) = V (node_key p l' i) \<and> (node_key p l' i \<in> D' \<longleftrightarrow> node_key p l' i \<in> D)"
  shows "repr C V' D' p l c b kvs"
  using assms
proof (induction l arbitrary: c b kvs)
  case 0
  then show ?case by simp
next
  case (Suc l)
  then obtain ks segs where *: "is_meta C c (Suc l) ks (map length segs @ (if b = None then [] else [0]))"
      "b \<noteq> None \<longrightarrow> ks \<noteq> [] \<and> last ks = the b" "kvs = concat segs"
      "list_all2 (child_ok C V D p l) (bounds ks b) segs" and ne: "ks \<noteq> []"
    unfolding repr_Suc by blast
  have "child_ok C V' D' p l (bounds ks b ! i) (segs ! i)" if i: "i < length segs" for i
  proof -
    let ?b = "bounds ks b ! i" and ?s = "segs ! i"
    have ok: "child_ok C V D p l ?b ?s" using *(4) i by (simp add: list_all2_conv_all_nth)
    have sub: "idents ?s ?b \<subseteq> idents kvs b" using child_idents [OF *(4) i] *(3) by simp
    have bin: "bid ?b \<in> idents ?s ?b" using ok by (simp add: child_ok_def bid_in_idents)
    have V: "V' (node_key p l (bid ?b)) = V (node_key p l (bid ?b))" "node_key p l (bid ?b) \<in> D' \<longleftrightarrow> node_key p l (bid ?b) \<in> D"
      using Suc.prems(2) [of l "bid ?b"] bin sub by auto
    have "repr C V' D' p l (V (node_key p l (bid ?b))) ?b ?s"
      using ok sub Suc.prems(2) by (intro Suc.IH) (auto simp: child_ok_def subset_iff less_Suc_eq)
    moreover have "range_ids p l ?s ?b \<inter> D' = range_ids p l ?s ?b \<inter> D"
      using Suc.prems(2) sub by (fastforce simp: range_ids_def less_Suc_eq_le)
    ultimately show ?thesis using ok V by (simp add: child_ok_def)
  qed
  then have "list_all2 (child_ok C V' D' p l) (bounds ks b) segs"
    using *(4) by (simp add: list_all2_conv_all_nth)
  then show ?case unfolding repr_Suc using *(1-3) ne by blast
qed

lemma child_ok_cong:
  assumes ok: "child_ok C V D p l b seg"
    and agree: "\<And>x. x \<in> range_ids p l seg b \<Longrightarrow> V' x = V x \<and> (x \<in> D' \<longleftrightarrow> x \<in> D)"
  shows "child_ok C V' D' p l b seg"
proof -
  have bin: "node_key p l (bid b) \<in> range_ids p l seg b"
    using ok bid_in_idents by (auto simp: child_ok_def range_ids_def)
  have "repr C V' D' p l (V (node_key p l (bid b))) b seg"
  proof (rule repr_cong_gen)
    show "repr C V D p l (V (node_key p l (bid b))) b seg" using ok by (simp add: child_ok_def)
    fix l' i assume "l' < l" "i \<in> idents seg b"
    then have "node_key p l' i \<in> range_ids p l seg b" by (simp add: range_idsI)
    then show "V' (node_key p l' i) = V (node_key p l' i) \<and> (node_key p l' i \<in> D' \<longleftrightarrow> node_key p l' i \<in> D)"
      by (rule agree)
  qed
  moreover have "range_ids p l seg b \<inter> D' = range_ids p l seg b \<inter> D" using agree by blast
  ultimately show ?thesis using ok agree [OF bin] by (simp add: child_ok_def)
qed


section \<open>Choosing the child\<close>

lemma concat_split: "i < length segs \<Longrightarrow>
    concat segs = concat (take i segs) @ segs ! i @ concat (drop (Suc i) segs)"
  using id_take_nth_drop [of i segs] by (metis concat.simps(2) concat_append)

lemma strict_nth: "strict (concat segs) \<Longrightarrow> i < length segs \<Longrightarrow> strict (segs ! i)"
  using concat_split [of i segs] by (simp add: strict_append)

lemma strict_segs:
  assumes "strict (concat segs)" "i < j" "j < length segs" "x \<in> set (segs ! i)" "y \<in> set (segs ! j)"
  shows "fst x < fst y"
proof -
  have "x \<in> set (concat (take j segs))"
    using assms(2-4) by (subst in_concat_take) (auto intro!: exI [of _ i])
  then show ?thesis using assms(1,3,5) concat_split [of j segs] by (auto simp: strict_append)
qed

lemma bounds_nth: "i < length ks \<Longrightarrow> bounds ks b ! i = Some (ks ! i)"
  by (simp add: bounds_def nth_append)

lemma length_bounds [simp]: "length (bounds ks b) = length ks + (if b = None then 1 else 0)"
  by (simp add: bounds_def)

lemma bounds_last: "bounds ks None ! length ks = None"
  by (simp add: bounds_def nth_append)

lemma seg_last:
  assumes "list_all2 (child_ok C V D p l) (bounds ks b) segs" "i < length ks"
  shows "segs ! i \<noteq> []" "fst (last (segs ! i)) = ks ! i" "i < length segs"
proof -
  have len: "length (bounds ks b) = length segs" using assms(1) by (rule list_all2_lengthD)
  then show i: "i < length segs" using assms(2) by (simp split: if_splits)
  have "child_ok C V D p l (Some (ks ! i)) (segs ! i)"
    using list_all2_nthD [OF assms(1), of i] len i assms(2) by (simp add: bounds_nth)
  then show "segs ! i \<noteq> []" "fst (last (segs ! i)) = ks ! i" by (simp_all add: child_ok_def seg_ok_def)
qed

lemma keys_strict:
  assumes all: "list_all2 (child_ok C V D p l) (bounds ks b) segs" and st: "strict (concat segs)"
  shows "sorted_wrt (<) ks"
  unfolding sorted_wrt_iff_nth_less
proof (intro allI impI)
  fix i j assume ij: "i < j" "j < length ks"
  then have "i < length ks" by simp
  note i = seg_last [OF all this] and j = seg_last [OF all ij(2)]
  have "fst (last (segs ! i)) < fst (last (segs ! j))"
    using strict_segs [OF st ij(1) j(3)] i(1) j(1) by simp
  then show "ks ! i < ks ! j" using i(2) j(2) by simp
qed

lemma lower_bound_le: "lower_bound ks key \<le> length ks"
  by (simp add: lower_bound_def length_takeWhile_le)

lemma lower_bound_before: "i < lower_bound ks key \<Longrightarrow> ks ! i < key"
  unfolding lower_bound_def by (metis nth_mem set_takeWhileD takeWhile_nth)

lemma lower_bound_at: "lower_bound ks key < length ks \<Longrightarrow> key \<le> ks ! lower_bound ks key"
  unfolding lower_bound_def using nth_length_takeWhile [of "\<lambda>k. k < key" ks] by (simp add: not_less)

lemma choose_child:
  assumes all: "list_all2 (child_ok C V D p l) (bounds ks b) segs" and st: "strict (concat segs)"
    and key: "b \<noteq> None \<longrightarrow> ks \<noteq> [] \<and> last ks = the b \<and> key \<le> the b"
  defines "i \<equiv> lower_bound ks key"
  shows "i < length segs"
    and "bid (bounds ks b ! i) = (if i = length ks then ''_INFI_'' else ks ! i)"
    and "bounds ks b ! i \<noteq> None \<longrightarrow> key \<le> the (bounds ks b ! i)"
    and "\<forall>e\<in>set (concat (take i segs)). fst e < key"
    and "\<forall>e\<in>set (concat (drop (Suc i) segs)). key < fst e"
proof -
  have len: "length (bounds ks b) = length segs" using all by (rule list_all2_lengthD)
  have bound: "i < length (bounds ks b)"
  proof (cases "b = None")
    case True
    then show ?thesis using lower_bound_le [of ks key] by (simp add: i_def)
  next
    case False
    then have "key \<le> ks ! (length ks - 1)" "ks \<noteq> []" using key by (auto simp: last_conv_nth)
    then have "i \<noteq> length ks"
      using lower_bound_before [of "length ks - 1" ks key] unfolding i_def by (metis diff_less leD length_greater_0_conv zero_less_one)
    then show ?thesis using lower_bound_le [of ks key] False by (simp add: i_def)
  qed
  then show il: "i < length segs" using len by simp
  show "bid (bounds ks b ! i) = (if i = length ks then ''_INFI_'' else ks ! i)"
    using bound by (auto simp: bounds_def nth_append bid_def split: if_splits)
  show "bounds ks b ! i \<noteq> None \<longrightarrow> key \<le> the (bounds ks b ! i)"
    using bound lower_bound_at [of ks key] by (auto simp: bounds_def nth_append i_def split: if_splits)
  show "\<forall>e\<in>set (concat (take i segs)). fst e < key"
  proof
    fix e assume "e \<in> set (concat (take i segs))"
    then obtain j where j: "j < i" "e \<in> set (segs ! j)"
      unfolding in_concat_take by blast
    then have jk: "j < length ks" using lower_bound_le [of ks key] by (simp add: i_def)
    have "fst e \<le> ks ! j"
      using strict_le_last [OF strict_nth [OF st seg_last(3) [OF all jk]] j(2)] seg_last(2) [OF all jk] by simp
    also have "\<dots> < key" using j(1) lower_bound_before by (simp add: i_def)
    finally show "fst e < key" .
  qed
  show "\<forall>e\<in>set (concat (drop (Suc i) segs)). key < fst e"
  proof
    fix e assume "e \<in> set (concat (drop (Suc i) segs))"
    then obtain j where j: "j < length segs" "e \<in> set (segs ! j)" and ij: "i < j"
      unfolding in_concat_drop by (auto simp: Suc_le_eq)
    have ik: "i < length ks" using len j(1) ij by (simp split: if_splits)
    have "key \<le> ks ! i" using lower_bound_at ik by (simp add: i_def)
    also have "\<dots> < fst e"
      using strict_segs [OF st ij j(1), of "last (segs ! i)" e] seg_last [OF all ik] j(2) by simp
    finally show "key < fst e" .
  qed
qed


section \<open>Lookup\<close>

text \<open>The chunk cache agrees with the store on the keys of the tree.\<close>

definition coherent :: "'s ext \<Rightarrow> string \<Rightarrow> 's DB \<Rightarrow> bool" where
  "coherent E p d \<longleftrightarrow> (\<forall>s c. m_cache d (p @ s) = Some c \<longrightarrow> c = db_map E d (p @ s))"

lemma DB_Get_chunk_coherent:
  assumes "coherent E p d"
  obtains d' where "DB_Get_chunk E d (p @ s) = (db_map E d (p @ s), d')" "db_map E d' = db_map E d" "coherent E p d'"
proof (cases "m_cache d (p @ s)")
  case None
  show ?thesis
    by (rule that [of "d\<lparr>m_cache := (m_cache d)(p @ s \<mapsto> db_map E d (p @ s))\<rparr>"])
      (use assms None in \<open>auto simp: DB_Get_chunk_def coherent_def Let_def split: option.splits\<close>)
next
  case (Some c)
  then show ?thesis using assms that [of d] by (simp add: DB_Get_chunk_def coherent_def)
qed

lemma node_key_prefix: "node_key p l i = p @ to_string l @ ''|'' @ i"
  by (simp add: node_key_def)

lemma child_key_level: "mt_level meta = Suc l \<Longrightarrow> l < 2 ^ 32 \<Longrightarrow> child_key p meta i = node_key p l (child_id meta i)"
  by (simp add: child_key_def)

lemma is_metaD:
  assumes "is_meta C c l ks es"
  shows "\<not> Chunk_empty c" "chunk_type c = kMeta" "mt_level (QLBTreeMeta_of c) = l" "mt_keys (QLBTreeMeta_of c) = ks"
    "mt_elems (QLBTreeMeta_of c) = es"
  using assms by (auto simp: is_meta_def Chunk_empty_def)

lemma zip_fst_snd [simp]: "zip (map fst kvs) (map snd kvs) = kvs"
  by (simp add: zip_map_fst_snd)

lemma is_leafD:
  assumes "is_leaf C c b kvs"
  shows "\<not> Chunk_empty c" "chunk_type c = kMap" "chunk_type c \<noteq> kMeta" "zip (mp_keys (QLBTreeMap_of c)) (mp_vals (QLBTreeMap_of c)) = kvs"
    "mp_next (QLBTreeMap_of c) = [] \<longleftrightarrow> b = None" "length (mp_next (QLBTreeMap_of c)) < 2 ^ 31" "length kvs \<le> leaf_fanout C"
  using assms by (auto simp: is_leaf_def Chunk_empty_def)

lemma meta_search:
  assumes m: "is_meta C c (Suc l) ks es" and l: "l < 2 ^ 32"
    and all: "list_all2 (child_ok C V D p l) (bounds ks b) segs" and st: "strict (concat segs)"
    and key: "b \<noteq> None \<longrightarrow> ks \<noteq> [] \<and> last ks = the b \<and> key \<le> the b"
  shows "meta_index (QLBTreeMeta_of c) key = lower_bound ks key"
    and "child_key p (QLBTreeMeta_of c) (lower_bound ks key) = node_key p l (bid (bounds ks b ! lower_bound ks key))"
proof -
  have "sorted ks" "distinct ks" using keys_strict [OF all st] strict_sorted_iff by blast+
  then show "meta_index (QLBTreeMeta_of c) key = lower_bound ks key"
    using meta_index_lower_bound [of "QLBTreeMeta_of c"] is_metaD(4) [OF m] by simp
  show "child_key p (QLBTreeMeta_of c) (lower_bound ks key) = node_key p l (bid (bounds ks b ! lower_bound ks key))"
    unfolding child_key_level [OF is_metaD(3) [OF m] l] child_id_def is_metaD(4) [OF m]
      choose_child(2) [OF all st key] ..
qed

lemma TryGet_repr:
  assumes "repr C (db_map E d) D p l c b kvs" "strict kvs" "coherent E p d" "b \<noteq> None \<longrightarrow> key \<le> the b" "l < 2 ^ 32"
  shows "\<exists>d'. TryGet E p c key d = Some (lookup kvs key, d') \<and> db_map E d' = db_map E d \<and> coherent E p d'"
  using assms
proof (induction l arbitrary: c b kvs d)
  case 0
  note leaf = is_leafD [OF "0.prems"(1) [simplified]]
  have "TryGet E p c key d = Some (lookup kvs key, d)"
    using leaf(1,2,4) leaf_find_lookup [OF "0.prems"(2)] by (subst TryGet.simps) (simp add: Let_def)
  then show ?case using "0.prems"(3) by blast
next
  case (Suc l)
  then obtain ks segs where m: "is_meta C c (Suc l) ks (map length segs @ (if b = None then [] else [0]))"
    and b: "b \<noteq> None \<longrightarrow> ks \<noteq> [] \<and> last ks = the b" and kvs: "kvs = concat segs"
    and all: "list_all2 (child_ok C (db_map E d) D p l) (bounds ks b) segs"
    unfolding repr_Suc by blast
  let ?i = "lower_bound ks key" let ?b = "bounds ks b ! ?i" and ?s = "segs ! ?i"
  have l: "l < 2 ^ 32" using Suc.prems(5) by simp
  have st: "strict (concat segs)" using Suc.prems(2) kvs by simp
  have key: "b \<noteq> None \<longrightarrow> ks \<noteq> [] \<and> last ks = the b \<and> key \<le> the b" using b Suc.prems(4) by simp
  note ch = choose_child [OF all st key] and srch = meta_search [OF m l all st key]
  obtain d' where d': "DB_Get_chunk E d (node_key p l (bid ?b)) = (db_map E d (node_key p l (bid ?b)), d')"
      "db_map E d' = db_map E d" "coherent E p d'"
    using DB_Get_chunk_coherent [OF Suc.prems(3)] unfolding node_key_prefix by metis
  have ok: "child_ok C (db_map E d) D p l ?b ?s"
    using list_all2_nthD2 [OF all ch(1)] .
  then have "repr C (db_map E d') D p l (db_map E d (node_key p l (bid ?b))) ?b ?s"
    unfolding d'(2) by (simp add: child_ok_def)
  then obtain d'' where d'': "TryGet E p (db_map E d (node_key p l (bid ?b))) key d' = Some (lookup ?s key, d'')"
      "db_map E d'' = db_map E d'" "coherent E p d''"
    using Suc.IH [of d' _ ?b ?s] strict_nth [OF st ch(1)] d'(3) ch(3) l by blast
  have "lookup kvs key = lookup ?s key"
    using lookup_middle [OF ch(4,5), of ?s] concat_split [OF ch(1)] kvs by simp
  moreover have "TryGet E p c key d = TryGet E p (db_map E d (node_key p l (bid ?b))) key d'"
    using is_metaD(1,2) [OF m] d'(1) by (subst TryGet.simps) (simp add: Let_def srch)
  ultimately show ?case using d'' d'(2) by auto
qed


section \<open>Sizes\<close>

text \<open>
  Keys and values of at most \<open>K\<close> bytes, with a fan-out small enough that every node fits the 32-bit
  sizes of the layout; the identifier of the rightmost node is not used as a key.
\<close>

definition sizes_ok :: "BPlusConfig \<Rightarrow> string \<Rightarrow> nat \<Rightarrow> bool" where
  "sizes_ok C p K \<longleftrightarrow> 1 \<le> fanout C \<and> 1 \<le> leaf_fanout C \<and>
     (leaf_fanout C + 1) * (8 + 2 * K) + length p + 64 < 2 ^ 31 \<and> (fanout C + 1) * (12 + K) + 64 < 2 ^ 31"

definition entry_sized :: "nat \<Rightarrow> string \<times> string \<Rightarrow> bool" where
  "entry_sized K e \<longleftrightarrow> length (fst e) \<le> K \<and> length (snd e) \<le> K \<and> fst e \<noteq> ''_INFI_''"

definition entries_ok :: "nat \<Rightarrow> entries \<Rightarrow> bool" where
  "entries_ok K kvs \<longleftrightarrow> (\<forall>e\<in>set kvs. entry_sized K e)"

lemma entries_ok_append [simp]: "entries_ok K (a @ b) \<longleftrightarrow> entries_ok K a \<and> entries_ok K b"
  by (auto simp: entries_ok_def)

lemma entries_ok_kv_insert: "entries_ok K kvs \<Longrightarrow> entry_sized K (key, v) \<Longrightarrow> entries_ok K (kv_insert key v kvs)"
  using set_kv_insert by (fastforce simp: entries_ok_def)

definition whole :: "Chunk \<Rightarrow> bool" where
  "whole c \<longleftrightarrow> c \<noteq> None \<and> chunk_bytes c = head c"

lemma Chunk_new_not_None: "Chunk_new ty data \<noteq> None"
  by (simp add: Chunk_new_def)

lemma whole_new: "length data + 5 < 2 ^ 32 \<Longrightarrow> whole (Chunk_new ty data)"
  using chunk_bytes_new by (simp add: whole_def Chunk_new_def)

lemma length_map_entries: "entries_ok K kvs \<Longrightarrow> length (concat (map map_entry kvs)) \<le> length kvs * (8 + 2 * K)"
  by (induction kvs) (auto simp: entries_ok_def entry_sized_def map_entry_def)

lemma leaf_Encode:
  assumes S: "sizes_ok C p K" and kvs: "entries_ok K kvs" "length kvs \<le> leaf_fanout C"
    and nx: "next = [] \<longleftrightarrow> b = None" "length next < 2 ^ 31"
  shows "is_leaf C (QLBTreeMap_Encode 0 (map fst kvs) (map snd kvs) next) b kvs"
    and "whole (QLBTreeMap_Encode 0 (map fst kvs) (map snd kvs) next)"
proof -
  let ?m = "\<lparr>mp_level = 0, mp_keys = map fst kvs, mp_vals = map snd kvs, mp_next = next\<rparr>"
  have F: "(leaf_fanout C + 1) * (8 + 2 * K) + 64 < 2 ^ 31" using S by (simp add: sizes_ok_def)
  have le: "length kvs * (8 + 2 * K) \<le> leaf_fanout C * (8 + 2 * K)" using kvs(2) by (rule mult_le_mono1)
  have f: "leaf_fanout C * 1 \<le> leaf_fanout C * (8 + 2 * K)" by (rule mult_le_mono2) simp
  have "length kvs < 2 ^ 32" using F kvs(2) f by (simp add: algebra_simps)
  moreover have "entry_ok e" if "e \<in> set kvs" for e
    using kvs(1) that F by (auto simp: entries_ok_def entry_sized_def entry_ok_def)
  ultimately have "map_ok ?m" using nx(2) by (simp add: map_ok_def)
  from QLBTreeMap_of_Encode [OF this] show "is_leaf C (QLBTreeMap_Encode 0 (map fst kvs) (map snd kvs) next) b kvs"
    using nx kvs(2) by (auto simp: is_leaf_def QLBTreeMap_Encode_def Chunk_new_not_None simp del: not_None_eq)
  have "length (concat (map map_entry kvs)) \<le> leaf_fanout C * (8 + 2 * K)"
    using length_map_entries [OF kvs(1)] le by (rule le_trans)
  then show "whole (QLBTreeMap_Encode 0 (map fst kvs) (map snd kvs) next)"
    unfolding QLBTreeMap_Encode_def by (intro whole_new) (use F nx(2) in \<open>simp del: length_concat\<close>)
qed

lemma length_meta_entries: "\<forall>k\<in>set ks. length k \<le> K \<Longrightarrow>
    length (concat (map meta_entry (zip ks es))) \<le> length ks * (12 + K)"
proof (induction ks arbitrary: es)
  case Nil
  then show ?case by simp
next
  case (Cons k ks)
  then show ?case
  proof (cases es)
    case (Cons e es')
    have "length (concat (map meta_entry (zip ks es'))) \<le> length ks * (12 + K)" using Cons.IH Cons.prems by simp
    moreover have "length (meta_entry (k, e)) \<le> 12 + K" using Cons.prems by (simp add: meta_entry_def)
    ultimately show ?thesis using Cons by (simp del: length_concat)
  qed simp
qed

lemma meta_Encode:
  assumes S: "sizes_ok C p K" and ks: "\<forall>k\<in>set ks. length k \<le> K" "length ks \<le> fanout C"
    and es: "length es = length ks + 1" "sum_list es < 2 ^ 64" and l: "l < 2 ^ 32"
  shows "is_meta C (QLBTreeMeta_Encode l ks es) l ks es"
    and "whole (QLBTreeMeta_Encode l ks es)" and "numElements (QLBTreeMeta_Encode l ks es) = sum_list es"
proof -
  let ?m = "\<lparr>mt_level = l, mt_keys = ks, mt_elems = es\<rparr>"
  have F: "(fanout C + 1) * (12 + K) + 64 < 2 ^ 31" using S by (simp add: sizes_ok_def)
  have le: "length ks * (12 + K) \<le> fanout C * (12 + K)" using ks(2) by (rule mult_le_mono1)
  have f: "fanout C * 1 \<le> fanout C * (12 + K)" by (rule mult_le_mono2) simp
  have "e < 2 ^ 64" if "e \<in> set es" for e using member_le_sum_list [OF that] es(2) by linarith
  moreover have "length ks < 2 ^ 32" using F ks(2) f by (simp add: algebra_simps)
  moreover have "key_size_ok k" if "k \<in> set ks" for k using ks(1) that F by (fastforce simp: key_size_ok_def)
  ultimately have "meta_ok ?m" using es(1) l by (simp add: meta_ok_def)
  from QLBTreeMeta_of_Encode [OF this] show "is_meta C (QLBTreeMeta_Encode l ks es) l ks es"
    using ks(2) by (auto simp: is_meta_def QLBTreeMeta_Encode_def Chunk_new_not_None simp del: not_None_eq)
  have "length (concat (map meta_entry (zip ks es))) \<le> fanout C * (12 + K)"
    using length_meta_entries [OF ks(1), of es] le by (rule le_trans)
  then show "whole (QLBTreeMeta_Encode l ks es)"
    unfolding QLBTreeMeta_Encode_def by (intro whole_new) (use F in \<open>simp del: length_concat\<close>)
  show "numElements (QLBTreeMeta_Encode l ks es) = sum_list es"
    using es(2) by (simp add: numElements_def QLBTreeMeta_Encode_def)
qed


section \<open>Insertion into a leaf\<close>

definition upd :: "(string \<Rightarrow> Chunk) \<Rightarrow> (string \<times> Chunk) list \<Rightarrow> string \<Rightarrow> Chunk" where
  "upd V ics = foldl (\<lambda>V (nid, c). V(nid := c)) V ics"

definition res_bounds :: "QLBTreeInsertResult \<Rightarrow> string option \<Rightarrow> string option list" where
  "res_bounds ret b = (if isSplit ret then [Some (split_key ret), b] else [b])"

text \<open>What an insertion below a node with bound \<open>b\<close> at level \<open>l\<close> reports and leaves behind.\<close>

definition post :: "BPlusConfig \<Rightarrow> (string \<Rightarrow> Chunk) \<Rightarrow> string set \<Rightarrow> string \<Rightarrow> nat \<Rightarrow> string option \<Rightarrow> entries
    \<Rightarrow> QLBTreeInsertResult \<Rightarrow> bool" where
  "post C V D p l b kvs ret \<longleftrightarrow> ir_level ret = l \<and> (\<exists>NS. ir_num_elems ret = map length NS \<and> concat NS = kvs \<and>
     list_all2 (\<lambda>b' s. child_ok C V D p l b' s \<and> node_key p l (bid b') \<in> D) (res_bounds ret b) NS)"

definition ics_ok :: "string \<Rightarrow> nat \<Rightarrow> entries \<Rightarrow> string option \<Rightarrow> (string \<times> Chunk) list \<Rightarrow> bool" where
  "ics_ok p l kvs b ics \<longleftrightarrow> fst ` set ics \<subseteq> range_ids p l kvs b \<and> (\<forall>ic\<in>set ics. whole (snd ic))"

lemma split_index: "2 \<le> n \<Longrightarrow> 0 < ComputeSplitIndex n \<and> ComputeSplitIndex n < n"
  by (simp add: ComputeSplitIndex_def) presburger

lemma last_take_nth: "0 < s \<Longrightarrow> s \<le> length xs \<Longrightarrow> last (take s xs) = xs ! (s - 1)"
  by (subst last_conv_nth) (auto simp: min_def)

lemma length_node_key: "length (node_key p 0 i) = length p + 2 + length i"
  by (simp add: node_key_def to_string.simps)

lemma idents_append1: "idents a (Some x) \<subseteq> idents (a @ c) b" "idents c b \<subseteq> idents (a @ c) b"
  by (auto simp: idents_def)

lemma seg_ok_last: "seg_ok (Some (fst (last s))) s \<longleftrightarrow> s \<noteq> []"
  by (simp add: seg_ok_def)

lemma InsertLeaf_post:
  assumes S: "sizes_ok C p K" and leaf: "is_leaf C c b kvs" and st: "strict kvs" and ok: "entries_ok K kvs" "entry_sized K (key, v)"
    and b: "b \<noteq> None \<longrightarrow> kvs \<noteq> [] \<and> fst (last kvs) = the b \<and> key \<le> the b"
    and r: "InsertLeaf C p (QLBTreeMap_of c) key v = (ret, ics)"
  shows "post C (upd V ics) (D \<union> fst ` set ics) p 0 b (kv_insert key v kvs) ret \<and> ics_ok p 0 (kv_insert key v kvs) b ics"
proof -
  let ?kvs = "kv_insert key v kvs" and ?next = "mp_next (QLBTreeMap_of c)" and ?n = "length (kv_insert key v kvs)"
  note L = is_leafD [OF leaf]
  have st': "strict ?kvs" and ok': "entries_ok K ?kvs" using st ok by (auto intro: strict_kv_insert entries_ok_kv_insert)
  have lastb: "b \<noteq> None \<longrightarrow> fst (last ?kvs) = the b" using last_kv_insert [OF st] b by auto
  have n1: "?n \<le> leaf_fanout C + 1" using L(7) length_kv_insert [of key v kvs] by simp
  have bid: "(if ?next = [] then ''_INFI_'' else fst (last ?kvs)) = bid b"
    using L(5) lastb by (cases b) (simp_all add: bid_def)
  have seg: "seg_ok b ?kvs" using lastb by (simp add: seg_ok_def)
  show ?thesis
  proof (cases "?n \<le> leaf_fanout C")
    case True
    let ?c = "QLBTreeMap_Encode 0 (map fst ?kvs) (map snd ?kvs) ?next"
    have enc: "is_leaf C ?c b ?kvs" "whole ?c" using leaf_Encode [OF S ok' True L(5,6)] by blast+
    have ret: "ret = \<lparr>isSplit = False, split_key = [], ir_level = 0, ir_num_elems = [?n]\<rparr>"
      and ics: "ics = [(node_key p 0 (bid b), ?c)]"
      using r True unfolding InsertLeaf_def Let_def L(4) leaf_insert_kv_insert [OF st] bid by auto
    show ?thesis
      using enc seg range_idsI [OF le_refl bid_in_idents [OF seg], of p 0]
      by (auto simp: post_def ret ics upd_def res_bounds_def child_ok_def ics_ok_def intro!: exI [of _ "[?kvs]"])
  next
    case False
    let ?s = "ComputeSplitIndex ?n" let ?k1 = "take ?s ?kvs" and ?k2 = "drop ?s ?kvs" and ?sk = "fst (?kvs ! (?s - 1))"
    let ?id1 = "node_key p 0 ?sk" and ?id2 = "node_key p 0 (bid b)"
    let ?c1 = "QLBTreeMap_Encode 0 (map fst ?k1) (map snd ?k1) ?id2"
      and ?c2 = "QLBTreeMap_Encode 0 (map fst ?k2) (map snd ?k2) ?next"
    have F: "1 \<le> leaf_fanout C" using S by (simp add: sizes_ok_def)
    have s: "0 < ?s" "?s < ?n" using split_index [of ?n] False F by auto
    have ne: "?k1 \<noteq> []" "?k2 \<noteq> []" using s by auto
    have cat: "?kvs = ?k1 @ ?k2" by simp
    have parts: "entries_ok K ?k1" "entries_ok K ?k2" using ok' cat by (metis entries_ok_append)+
    have l1: "?sk = fst (last ?k1)" using last_take_nth [of ?s ?kvs] s by simp
    have l2: "fst (last ?k2) = fst (last ?kvs)" using s by simp
    have mem: "last ?k1 \<in> set ?kvs" using ne(1) by (meson in_set_takeD last_in_set)
    have neq: "?sk \<noteq> bid b"
    proof (cases b)
      case None
      then show ?thesis using ok' mem l1 by (simp add: bid_def entries_ok_def entry_sized_def)
    next
      case (Some x)
      have "fst (last ?k1) < fst (last ?k2)"
        using st' cat ne strict_append [of ?k1 ?k2] by (metis last_in_set)
      then show ?thesis using Some lastb l1 l2 by (simp add: bid_def)
    qed
    have "length (bid b) \<le> K + 6"
    proof (cases b)
      case None
      then show ?thesis by (simp add: bid_def)
    next
      case (Some x)
      then have "last kvs \<in> set kvs" "fst (last kvs) = x" using b by auto
      then show ?thesis using ok(1) Some by (force simp: bid_def entries_ok_def entry_sized_def)
    qed
    moreover have "K \<le> (leaf_fanout C + 1) * (8 + 2 * K)" by simp
    ultimately have id2: "?id2 = [] \<longleftrightarrow> Some ?sk = None" "length ?id2 < 2 ^ 31"
      using S by (simp_all add: length_node_key sizes_ok_def) (simp add: node_key_def)
    have enc: "is_leaf C ?c1 (Some ?sk) ?k1" "whole ?c1" "is_leaf C ?c2 b ?k2" "whole ?c2"
      using leaf_Encode [OF S parts(1) _ id2] leaf_Encode [OF S parts(2) _ L(5,6)] s n1 by auto
    have bid2: "(if ?next = [] then ''_INFI_'' else fst (last ?k2)) = bid b" unfolding l2 by (rule bid)
    have ret: "ret = \<lparr>isSplit = True, split_key = ?sk, ir_level = 0, ir_num_elems = [length ?k1, length ?k2]\<rparr>"
      and ics: "ics = [(?id1, ?c1), (?id2, ?c2)]"
      using r False unfolding InsertLeaf_def Let_def L(4) leaf_insert_kv_insert [OF st] bid2 by auto
    have seg2: "seg_ok (Some ?sk) ?k1" "seg_ok b ?k2" using ne l1 l2 lastb by (simp_all add: seg_ok_def)
    have ids: "?id1 \<in> range_ids p 0 ?kvs b" "?id2 \<in> range_ids p 0 ?kvs b"
      using range_idsI [OF le_refl, of _ ?kvs b p 0] bid_in_idents [OF seg] mem l1 by (auto simp: idents_def)
    have ch: "child_ok C (upd V ics) (D \<union> fst ` set ics) p 0 (Some ?sk) ?k1"
      "child_ok C (upd V ics) (D \<union> fst ` set ics) p 0 b ?k2"
      using enc seg2 neq by (simp_all add: child_ok_def ics upd_def node_key_inject bid_def [of "Some _"])
    have "post C (upd V ics) (D \<union> fst ` set ics) p 0 b ?kvs ret"
      unfolding post_def using ch by (intro conjI exI [of _ "[?k1, ?k2]"]) (simp_all add: ret res_bounds_def ics bid_def [of "Some _"])
    then show ?thesis using ids enc by (simp add: ics_ok_def ics)
  qed
qed


section \<open>Update of an inner node\<close>

lemma upd_other: "x \<notin> fst ` set ics \<Longrightarrow> upd V ics x = V x"
proof (induction ics arbitrary: V)
  case Nil
  then show ?case by (simp add: upd_def)
next
  case (Cons ic ics)
  then show ?case by (cases ic) (simp add: upd_def)
qed

text \<open>Nodes created one level up do not disturb the children.\<close>

lemma children_above:
  assumes "list_all2 (child_ok C V D p l) bs segs" "fst ` set ics \<subseteq> {node_key p (Suc l) i | i. True}"
  shows "list_all2 (child_ok C (upd V ics) (D \<union> fst ` set ics) p l) bs segs"
  using assms(1)
proof (rule list_all2_mono)
  fix b s assume ok: "child_ok C V D p l b s"
  show "child_ok C (upd V ics) (D \<union> fst ` set ics) p l b s"
  proof (rule child_ok_cong [OF ok])
    fix x assume "x \<in> range_ids p l s b"
    then have "x \<notin> fst ` set ics" using assms(2) by (fastforce simp: range_ids_def node_key_inject)
    then show "upd V ics x = V x \<and> (x \<in> D \<union> fst ` set ics \<longleftrightarrow> x \<in> D)" by (simp add: upd_other)
  qed
qed

lemma sum_lengths: "sum_list (map length segs) = length (concat segs)"
  by (simp add: length_concat)

lemma keys_sized:
  assumes "list_all2 (child_ok C V D p l) (bounds ks b) segs" "entries_ok K (concat segs)"
  shows "\<forall>k\<in>set ks. length k \<le> K \<and> k \<noteq> ''_INFI_''"
proof
  fix k assume "k \<in> set ks"
  then obtain i where i: "i < length ks" "k = ks ! i" by (metis in_set_conv_nth)
  note g = seg_last [OF assms(1) i(1)]
  have "last (segs ! i) \<in> set (segs ! i)" using g(1) by simp
  then have "last (segs ! i) \<in> set (concat segs)" using nth_mem [OF g(3)] by auto
  then have "entry_sized K (last (segs ! i))" using assms(2) unfolding entries_ok_def by blast
  then show "length k \<le> K \<and> k \<noteq> ''_INFI_''" using g(2) i(2) by (simp add: entry_sized_def)
qed

lemma last_of_children:
  assumes all: "list_all2 (child_ok C V D p l) (bounds ks b) segs" and b: "b \<noteq> None \<longrightarrow> ks \<noteq> [] \<and> last ks = the b"
    and ne: "ks \<noteq> [] \<or> b = None"
  shows "seg_ok b (concat segs)"
proof (cases b)
  case None
  then have "length segs = length ks + 1" using list_all2_lengthD [OF all] by simp
  then have "segs \<noteq> []" "last segs = segs ! length ks"
    by (cases segs rule: rev_cases; auto simp: nth_append)+
  moreover have "segs ! length ks \<noteq> []"
    using list_all2_nthD2 [OF all, of "length ks"] \<open>length segs = _\<close> by (simp add: child_ok_def seg_ok_def)
  ultimately have "last segs \<noteq> []" "segs \<noteq> []" by simp_all
  then show ?thesis using None by (auto simp: seg_ok_def)
next
  case (Some x)
  then have ks: "ks \<noteq> []" "last ks = x" using b by auto
  have len: "length segs = length ks" using list_all2_lengthD [OF all] Some by simp
  have i: "length ks - 1 < length ks" using ks by simp
  have "segs \<noteq> []" using len ks by auto
  then have "last segs = segs ! (length ks - 1)" using len by (simp add: last_conv_nth)
  then have l: "last segs \<noteq> []" "fst (last (last segs)) = x" using seg_last [OF all i] ks by (simp_all add: last_conv_nth)
  have "concat segs = concat (butlast segs) @ last segs"
    using \<open>segs \<noteq> []\<close> by (metis append_butlast_last_id concat_append concat.simps append_Nil2)
  then show ?thesis using l Some by (simp add: seg_ok_def)
qed

lemma bounds_take: "s \<le> length ks \<Longrightarrow> take s (bounds ks b) = bounds (take s ks) (Some x)"
  by (simp add: bounds_def take_map)

lemma bounds_drop: "s \<le> length ks \<Longrightarrow> drop s (bounds ks b) = bounds (drop s ks) b"
  by (simp add: bounds_def drop_map)

text \<open>One node made of given children: how the chunk written for it represents their entries.\<close>

lemma meta_node:
  assumes S: "sizes_ok C p K" and all: "list_all2 (child_ok C V D p l) (bounds ks b) segs"
    and b: "b \<noteq> None \<longrightarrow> ks \<noteq> [] \<and> last ks = the b" and ks: "length ks \<le> fanout C" "ks \<noteq> []"
    and ok: "entries_ok K (concat segs)" and sz: "length (concat segs) < 2 ^ 64" "Suc l < 2 ^ 32"
  defines "c \<equiv> QLBTreeMeta_Encode (Suc l) ks (map length segs @ (if b = None then [] else [0]))"
  shows "repr C V D p (Suc l) c b (concat segs)" "whole c" "numElements c = length (concat segs)"
    "seg_ok b (concat segs)"
proof -
  let ?es = "map length segs @ (if b = None then [] else [0])"
  have len: "length ?es = length ks + 1" using list_all2_lengthD [OF all] by (auto split: if_splits)
  have sum: "sum_list ?es = length (concat segs)" by (simp add: sum_lengths)
  have K: "\<forall>k\<in>set ks. length k \<le> K" using keys_sized [OF all ok] by blast
  have sum': "sum_list ?es < 2 ^ 64" using sz(1) sum by simp
  note enc = meta_Encode [OF S K ks(1) len sum' sz(2)]
  show "repr C V D p (Suc l) c b (concat segs)" unfolding repr_Suc c_def using enc(1) b all ks(2) by blast
  show "whole c" unfolding c_def by (rule enc(2))
  show "numElements c = length (concat segs)" unfolding c_def enc(3) by (rule sum)
  show "seg_ok b (concat segs)" using last_of_children [OF all b] ks(2) by blast
qed


lemma post_single:
  assumes "repr C V D p l (V (node_key p l (bid b))) b kvs" "seg_ok b kvs" "node_key p l (bid b) \<in> D"
  shows "post C V D p l b kvs \<lparr>isSplit = False, split_key = [], ir_level = l, ir_num_elems = [length kvs]\<rparr>"
  unfolding post_def using assms by (intro conjI exI [of _ "[kvs]"]) (simp_all add: res_bounds_def child_ok_def)

lemma post_double:
  assumes "child_ok C V D p l (Some sk) k1" "child_ok C V D p l b k2" "node_key p l sk \<in> D" "node_key p l (bid b) \<in> D"
  shows "post C V D p l b (k1 @ k2) \<lparr>isSplit = True, split_key = sk, ir_level = l, ir_num_elems = [length k1, length k2]\<rparr>"
  unfolding post_def using assms
  by (intro conjI exI [of _ "[k1, k2]"]) (simp_all add: res_bounds_def bid_def [of "Some _"])

text \<open>The children of an inner node after an update, before it is written.\<close>

definition updated :: "BPlusConfig \<Rightarrow> (string \<Rightarrow> Chunk) \<Rightarrow> string set \<Rightarrow> string \<Rightarrow> nat \<Rightarrow> string option \<Rightarrow> QLBTreeMeta
    \<Rightarrow> string list \<Rightarrow> nat list \<Rightarrow> entries list \<Rightarrow> bool" where
  "updated C V D p l b M ks es segs \<longleftrightarrow> mt_level M = Suc l \<and> ks \<noteq> [] \<and> length ks \<le> fanout C + 1 \<and>
     es = map length segs @ (if b = None then [] else [0]) \<and> (b \<noteq> None \<longrightarrow> last ks = the b) \<and>
     (mt_elems M ! length (mt_keys M) = 0 \<longleftrightarrow> b \<noteq> None) \<and>
     list_all2 (child_ok C V D p l) (bounds ks b) segs"

lemma UpdateChild_single:
  assumes S: "sizes_ok C p K" and U: "updated C V D p l b M ks es segs"
    and ok: "entries_ok K (concat segs)" "length (concat segs) < 2 ^ 64" "Suc l < 2 ^ 32"
    and nk: "new_keys M i ret = ks" "new_elems M i ret = es" and fits: "length ks \<le> fanout C"
    and r: "UpdateChild C M i ret p = (ret', ics)"
  shows "post C (upd V ics) (D \<union> fst ` set ics) p (Suc l) b (concat segs) ret' \<and> ics_ok p (Suc l) (concat segs) b ics"
proof -
  let ?c = "QLBTreeMeta_Encode (Suc l) ks es"
  have es: "es = map length segs @ (if b = None then [] else [0])" and b: "b \<noteq> None \<longrightarrow> ks \<noteq> [] \<and> last ks = the b"
    and ne: "ks \<noteq> []" and all: "list_all2 (child_ok C V D p l) (bounds ks b) segs"
    using U by (auto simp: updated_def)
  have this_id: "(if mt_elems M ! length (mt_keys M) = 0 then last ks else ''_INFI_'') = bid b"
    using U by (auto simp: updated_def bid_def split: option.splits)
  have lvl: "mt_level M = Suc l" using U by (simp add: updated_def)
  have ret: "ret' = \<lparr>isSplit = False, split_key = [], ir_level = Suc l, ir_num_elems = [numElements ?c]\<rparr>"
    and ics: "ics = [(node_key p (Suc l) (bid b), ?c)]"
    using r fits unfolding UpdateChild_def Let_def nk this_id lvl by auto
  have "list_all2 (child_ok C (upd V ics) (D \<union> fst ` set ics) p l) (bounds ks b) segs"
    by (rule children_above [OF all]) (auto simp: ics)
  note node = meta_node [OF S this b fits ne ok, folded es]
  have V: "upd V ics (node_key p (Suc l) (bid b)) = ?c" by (simp add: ics upd_def)
  have "post C (upd V ics) (D \<union> fst ` set ics) p (Suc l) b (concat segs) ret'"
    unfolding ret node(3) using node(1,4) by (intro post_single) (simp_all add: V, simp add: ics)
  moreover have "ics_ok p (Suc l) (concat segs) b ics"
    using node(2) range_idsI [OF le_refl bid_in_idents [OF node(4)], of p "Suc l"] by (simp add: ics_ok_def ics)
  ultimately show ?thesis ..
qed

lemma UpdateChild_double:
  assumes S: "sizes_ok C p K" and U: "updated C V D p l b M ks es segs" and st: "strict (concat segs)"
    and ok: "entries_ok K (concat segs)" "length (concat segs) < 2 ^ 64" "Suc l < 2 ^ 32"
    and nk: "new_keys M i ret = ks" "new_elems M i ret = es" and over: "\<not> length ks \<le> fanout C"
    and r: "UpdateChild C M i ret p = (ret', ics)"
  shows "post C (upd V ics) (D \<union> fst ` set ics) p (Suc l) b (concat segs) ret' \<and> ics_ok p (Suc l) (concat segs) b ics"
proof -
  let ?s = "ComputeSplitIndex (length ks)" let ?sk = "ks ! (?s - 1)"
  let ?g1 = "take ?s segs" and ?g2 = "drop ?s segs"
  let ?c1 = "QLBTreeMeta_Encode (Suc l) (take ?s ks) (map length ?g1 @ [0])"
    and ?c2 = "QLBTreeMeta_Encode (Suc l) (drop ?s ks) (map length ?g2 @ (if b = None then [] else [0]))"
  have es: "es = map length segs @ (if b = None then [] else [0])" and b: "b \<noteq> None \<longrightarrow> ks \<noteq> [] \<and> last ks = the b"
    and all: "list_all2 (child_ok C V D p l) (bounds ks b) segs" and lvl: "mt_level M = Suc l" and n1: "length ks \<le> fanout C + 1"
    using U by (auto simp: updated_def)
  have this_id: "(if mt_elems M ! length (mt_keys M) = 0 then last ks else ''_INFI_'') = bid b"
    using U by (auto simp: updated_def bid_def split: option.splits)
  have "1 \<le> fanout C" using S by (simp add: sizes_ok_def)
  then have s: "0 < ?s" "?s < length ks" using split_index [of "length ks"] over by auto
  have len: "?s \<le> length segs" using list_all2_lengthD [OF all] s(2) by (simp split: if_splits)
  have e: "take ?s es @ [0] = map length ?g1 @ [0]" "drop ?s es = map length ?g2 @ (if b = None then [] else [0])"
    using len by (simp_all add: es take_map drop_map)
  have ret: "ret' = \<lparr>isSplit = True, split_key = ?sk, ir_level = Suc l, ir_num_elems = [numElements ?c1, numElements ?c2]\<rparr>"
    and ics: "ics = [(node_key p (Suc l) ?sk, ?c1), (node_key p (Suc l) (bid b), ?c2)]"
    using r over unfolding UpdateChild_def Let_def nk this_id lvl e by auto
  have neq: "?sk \<noteq> bid b"
  proof (cases b)
    case None
    then show ?thesis using keys_sized [OF all ok(1)] s by (simp add: bid_def)
  next
    case (Some x)
    have "ks ! (?s - 1) < ks ! (length ks - 1)"
      using keys_strict [OF all st] s by (simp add: sorted_wrt_nth_less)
    then show ?thesis using b Some by (auto simp: bid_def last_conv_nth)
  qed
  have V: "upd V ics (node_key p (Suc l) ?sk) = ?c1" "upd V ics (node_key p (Suc l) (bid b)) = ?c2"
    using neq by (simp_all add: ics upd_def node_key_inject)
  have above: "list_all2 (child_ok C (upd V ics) (D \<union> fst ` set ics) p l) (bounds ks b) segs"
    by (rule children_above [OF all]) (auto simp: ics)
  have all1: "list_all2 (child_ok C (upd V ics) (D \<union> fst ` set ics) p l) (bounds (take ?s ks) (Some ?sk)) ?g1"
    using list_all2_takeI [OF above, of ?s] bounds_take [of ?s ks b ?sk] s(2) by simp
  have all2: "list_all2 (child_ok C (upd V ics) (D \<union> fst ` set ics) p l) (bounds (drop ?s ks) b) ?g2"
    using list_all2_dropI [OF above, of ?s] bounds_drop [of ?s ks b] s(2) by simp
  have cat: "concat segs = concat ?g1 @ concat ?g2" by (metis append_take_drop_id concat_append)
  have ok1: "entries_ok K (concat ?g1)" "length (concat ?g1) < 2 ^ 64" and ok2: "entries_ok K (concat ?g2)" "length (concat ?g2) < 2 ^ 64"
    using ok(1,2) unfolding cat by simp_all
  have last1: "Some ?sk \<noteq> None \<longrightarrow> take ?s ks \<noteq> [] \<and> last (take ?s ks) = the (Some ?sk)"
    using s last_take_nth [of ?s ks] by auto
  have last2: "b \<noteq> None \<longrightarrow> drop ?s ks \<noteq> [] \<and> last (drop ?s ks) = the b" using s b by simp
  have fits: "length (take ?s ks) \<le> fanout C" "length (drop ?s ks) \<le> fanout C" using s n1 by auto
  have nn: "take ?s ks \<noteq> []" "drop ?s ks \<noteq> []" using s by auto
  note n1 = meta_node [OF S all1 last1 fits(1) nn(1) ok1 ok(3), simplified option.distinct if_False]
    and n2 = meta_node [OF S all2 last2 fits(2) nn(2) ok2 ok(3)]
  have ids: "node_key p (Suc l) ?sk \<in> range_ids p (Suc l) (concat segs) b" "node_key p (Suc l) (bid b) \<in> range_ids p (Suc l) (concat segs) b"
    using bid_in_idents [OF n1(4)] bid_in_idents [OF n2(4)] idents_append1(1) [of "concat ?g1" ?sk "concat ?g2" b]
      idents_append1(2) [of "concat ?g2" b "concat ?g1"]
    unfolding cat by (auto simp: bid_def [of "Some _"] intro!: range_idsI)
  have "post C (upd V ics) (D \<union> fst ` set ics) p (Suc l) b (concat segs) ret'"
    unfolding ret cat n1(3) n2(3)
  proof (rule post_double)
    show "child_ok C (upd V ics) (D \<union> fst ` set ics) p (Suc l) (Some ?sk) (concat ?g1)"
      unfolding child_ok_def bid_def option.case V(1) using n1(1,4) by (simp add: ics)
    show "child_ok C (upd V ics) (D \<union> fst ` set ics) p (Suc l) b (concat ?g2)"
      unfolding child_ok_def V(2) using n2(1,4) by (simp add: ics)
  qed (simp_all add: ics)
  then show ?thesis using ids n1(2) n2(2) by (simp add: ics_ok_def ics)
qed


lemma UpdateChild_post:
  assumes "sizes_ok C p K" "updated C V D p l b M ks es segs" "strict (concat segs)"
    "entries_ok K (concat segs)" "length (concat segs) < 2 ^ 64" "Suc l < 2 ^ 32"
    "new_keys M i ret = ks" "new_elems M i ret = es" "UpdateChild C M i ret p = (ret', ics)"
  shows "post C (upd V ics) (D \<union> fst ` set ics) p (Suc l) b (concat segs) ret' \<and> ics_ok p (Suc l) (concat segs) b ics"
  using assms UpdateChild_single UpdateChild_double by (cases "length ks \<le> fanout C") blast+

section \<open>The vectors UpdateChild rebuilds\<close>

lemma bounds_new_keys:
  assumes "i < length (bounds (mt_keys M) b)"
  shows "bounds (new_keys M i ret) b =
    take i (bounds (mt_keys M) b) @ res_bounds ret (bounds (mt_keys M) b ! i) @ drop (Suc i) (bounds (mt_keys M) b)"
proof (cases "i < length (mt_keys M)")
  case True
  then have "drop i (mt_keys M) = mt_keys M ! i # drop (Suc i) (mt_keys M)" by (simp add: Cons_nth_drop_Suc)
  then show ?thesis
    using True by (simp add: bounds_def new_keys_def res_bounds_def nth_append take_map drop_map)
next
  case False
  then have "b = None" "i = length (mt_keys M)" using assms by (auto split: if_splits)
  then show ?thesis by (simp add: bounds_def new_keys_def res_bounds_def nth_append)
qed

lemma new_elems_segs:
  assumes "mt_elems M = map length segs @ (if b = None then [] else [0])"
    and "length segs = length (bounds (mt_keys M) b)" "i < length segs" "ir_num_elems ret = map length NS"
  shows "new_elems M i ret = map length (take i segs @ NS @ drop (Suc i) segs) @ (if b = None then [] else [0])"
proof (cases "i < length (mt_keys M)")
  case True
  then show ?thesis using assms by (simp add: new_elems_def take_map drop_map)
next
  case False
  then have "b = None" "i = length (mt_keys M)" using assms by (auto split: if_splits)
  then show ?thesis using assms by (simp add: new_elems_def take_map)
qed


section \<open>Insertion\<close>

definition view :: "'s ext \<Rightarrow> dirty \<Rightarrow> 's DB \<Rightarrow> string \<Rightarrow> Chunk" where
  "view E m d nid = (case m nid of None \<Rightarrow> db_map E d nid | Some c \<Rightarrow> c)"

definition delta_ok :: "dirty \<Rightarrow> bool" where
  "delta_ok m \<longleftrightarrow> (\<forall>nid c. m nid = Some c \<longrightarrow> whole c)"

lemma Delta_GetChunk_ok: "delta_ok m \<Longrightarrow> Delta_GetChunk m nid = (case m nid of None \<Rightarrow> None | Some c \<Rightarrow> c)"
  by (auto simp: Delta_GetChunk_def delta_ok_def whole_def head_def split: option.splits)

lemma LoadChild_view:
  assumes "coherent E p d" "delta_ok m"
  obtains d' where "LoadChild E m d (node_key p l i) = (view E m d (node_key p l i), d')"
    "db_map E d' = db_map E d" "coherent E p d'"
proof (cases "m (node_key p l i)")
  case None
  then show ?thesis
    using DB_Get_chunk_coherent [OF assms(1), of "to_string l @ ''|'' @ i"] that
    unfolding LoadChild_def Let_def Delta_GetChunk_ok [OF assms(2)] view_def node_key_prefix
    by (metis Chunk_empty_def option.case(1))
next
  case (Some c)
  then have "c \<noteq> None" using assms(2) by (auto simp: delta_ok_def whole_def)
  then show ?thesis
    using Some that [of d] assms by (simp add: LoadChild_def Delta_GetChunk_ok view_def Chunk_empty_def Let_def)
qed

lemma create_all_Cons: "create_all m ((nid, c) # ics) = create_all (m(nid \<mapsto> c)) ics"
  by (simp add: create_all_def CreateChunk_def)

lemma create_all_view: "view E (create_all m ics) d = upd (view E m d) ics"
proof (induction ics arbitrary: m)
  case Nil
  then show ?case by (simp add: create_all_def upd_def)
next
  case (Cons ic ics)
  obtain nid c where ic: "ic = (nid, c)" by (cases ic)
  have "view E (m(nid \<mapsto> c)) d = (view E m d)(nid := c)" by (auto simp: view_def fun_eq_iff)
  then show ?case using Cons by (simp add: ic create_all_Cons upd_def)
qed

lemma create_all_dom: "dom (create_all m ics) = dom m \<union> fst ` set ics"
proof (induction ics arbitrary: m)
  case Nil
  then show ?case by (simp add: create_all_def)
next
  case (Cons ic ics)
  then show ?case by (cases ic) (auto simp: create_all_Cons)
qed

lemma create_all_other: "x \<notin> fst ` set ics \<Longrightarrow> create_all m ics x = m x"
proof (induction ics arbitrary: m)
  case Nil
  then show ?case by (simp add: create_all_def)
next
  case (Cons ic ics)
  then show ?case by (cases ic) (auto simp: create_all_Cons)
qed

lemma create_all_ok: "delta_ok m \<Longrightarrow> \<forall>ic\<in>set ics. whole (snd ic) \<Longrightarrow> delta_ok (create_all m ics)"
proof (induction ics arbitrary: m)
  case Nil
  then show ?case by (simp add: create_all_def)
next
  case (Cons ic ics)
  obtain nid c where ic: "ic = (nid, c)" by (cases ic)
  have "delta_ok (m(nid \<mapsto> c))" using Cons.prems by (simp add: ic delta_ok_def)
  then show ?case using Cons by (simp add: ic create_all_Cons)
qed

text \<open>The entries of different children have different identifiers.\<close>

lemma idents_disjoint:
  assumes all: "list_all2 (child_ok C V D p l) (bounds ks b) segs" and st: "strict (concat segs)"
    and ok: "entries_ok K (concat segs)" "entry_sized K (key, v)"
    and key: "b \<noteq> None \<longrightarrow> ks \<noteq> [] \<and> last ks = the b \<and> key \<le> the b"
    and j: "j < length segs" "j \<noteq> lower_bound ks key"
  shows "idents (segs ! j) (bounds ks b ! j) \<inter>
    idents (kv_insert key v (segs ! lower_bound ks key)) (bounds ks b ! lower_bound ks key) = {}"
proof -
  let ?i = "lower_bound ks key"
  note ch = choose_child [OF all st key]
  have sti: "strict (segs ! ?i)" using strict_nth [OF st ch(1)] .
  have sub: "set (segs ! k) \<subseteq> set (concat segs)" if "k < length segs" for k using nth_mem [OF that] by auto
  have infi: "''_INFI_'' \<notin> fst ` set (segs ! k)" if "k < length segs" for k
    using sub [OF that] ok(1) unfolding entries_ok_def entry_sized_def by fastforce
  have keys: "fst x \<noteq> fst y" if "x \<in> set (segs ! j)" "y \<in> set (segs ! ?i)" for x y
    using strict_segs [OF st _ j(1) that(2,1)] strict_segs [OF st _ ch(1) that] j(2)
    by (metis less_irrefl linorder_neqE_nat)
  have new: "fst x \<noteq> key" if "x \<in> set (segs ! j)" for x
  proof (cases "j < ?i")
    case True
    then have "x \<in> set (concat (take ?i segs))" unfolding in_concat_take using that j(1) by blast
    then show ?thesis using ch(4) by auto
  next
    case False
    then have "x \<in> set (concat (drop (Suc ?i) segs))" unfolding in_concat_drop using that j by (metis Suc_leI linorder_neqE_nat)
    then show ?thesis using ch(5) by auto
  qed
  have one: "\<not> (bounds ks b ! j = None \<and> bounds ks b ! ?i = None)"
    using list_all2_lengthD [OF all] ch(1) j by (auto simp: bounds_def nth_append split: if_splits)
  have ids: "idents (kv_insert key v (segs ! ?i)) (bounds ks b ! ?i) =
      insert key (fst ` set (segs ! ?i)) \<union> (if bounds ks b ! ?i = None then {''_INFI_''} else {})"
    by (simp add: idents_def fst_set_kv_insert [OF sti])
  have "key \<noteq> ''_INFI_''" using ok(2) by (simp add: entry_sized_def)
  moreover have "key \<notin> fst ` set (segs ! j)" using new by fastforce
  moreover have "fst ` set (segs ! j) \<inter> fst ` set (segs ! ?i) = {}" using keys by fastforce
  ultimately show ?thesis
    unfolding ids idents_def [of "segs ! j"] using one infi [OF j(1)] infi [OF ch(1)] by auto
qed


definition insert_spec :: "'s ext \<Rightarrow> BPlusConfig \<Rightarrow> string \<Rightarrow> nat \<Rightarrow> Chunk \<Rightarrow> string option \<Rightarrow> entries \<Rightarrow> string \<Rightarrow> string
    \<Rightarrow> dirty \<Rightarrow> 's DB \<Rightarrow> bool" where
  "insert_spec E C p l c b kvs key v m d \<longleftrightarrow> (\<exists>ret m' d'. Insert E C p c key v m d = Some (ret, m', d') \<and>
     db_map E d' = db_map E d \<and> coherent E p d' \<and> delta_ok m' \<and>
     post C (view E m' d') (dom m') p l b (kv_insert key v kvs) ret \<and>
     (\<forall>x. x \<notin> range_ids p l (kv_insert key v kvs) b \<longrightarrow> m' x = m x))"

lemma view_cong: "db_map E d = db_map E d' \<Longrightarrow> view E m d = view E m d'"
  by (auto simp: view_def fun_eq_iff split: option.splits)

lemma view_frame: "db_map E d' = db_map E d \<Longrightarrow> m' x = m x \<Longrightarrow>
    view E m' d' x = view E m d x \<and> (x \<in> dom m' \<longleftrightarrow> x \<in> dom m)"
  unfolding view_def by (cases "m x") (simp_all add: dom_def)

lemma ics_other: "ics_ok p l kvs b ics \<Longrightarrow> x \<notin> range_ids p l kvs b \<Longrightarrow> create_all m ics x = m x"
  by (rule create_all_other) (auto simp: ics_ok_def)

lemma Insert_leaf:
  assumes "sizes_ok C p K" "is_leaf C c b kvs" "strict kvs" "entries_ok K kvs" "entry_sized K (key, v)"
    and "b \<noteq> None \<longrightarrow> kvs \<noteq> [] \<and> fst (last kvs) = the b \<and> key \<le> the b" "coherent E p d" "delta_ok m"
  shows "insert_spec E C p 0 c b kvs key v m d"
proof -
  obtain ret ics where r: "InsertLeaf C p (QLBTreeMap_of c) key v = (ret, ics)" by fastforce
  have P: "post C (upd (view E m d) ics) (dom m \<union> fst ` set ics) p 0 b (kv_insert key v kvs) ret"
    "ics_ok p 0 (kv_insert key v kvs) b ics"
    using InsertLeaf_post [OF assms(1-6) r] by blast+
  have "Insert E C p c key v m d = Some (ret, create_all m ics, d)"
    using is_leafD(1-3) [OF assms(2)] r by (subst Insert.simps) (simp add: Let_def)
  moreover have "delta_ok (create_all m ics)" using create_all_ok [OF assms(8)] P(2) by (simp add: ics_ok_def)
  moreover have "create_all m ics x = m x" if "x \<notin> range_ids p 0 (kv_insert key v kvs) b" for x
    using ics_other [OF P(2) that] .
  ultimately show ?thesis
    unfolding insert_spec_def using P(1) assms(7) by (auto simp: create_all_view create_all_dom)
qed

text \<open>The children of an inner node after the chosen child was inserted into.\<close>

lemma children_after:
  assumes all: "list_all2 (child_ok C V D p l) (bounds ks b) segs" and st: "strict (concat segs)"
    and ok: "entries_ok K (concat segs)" "entry_sized K (key, v)"
    and key: "b \<noteq> None \<longrightarrow> ks \<noteq> [] \<and> last ks = the b \<and> key \<le> the b"
  defines "i \<equiv> lower_bound ks key"
  assumes NS: "list_all2 (\<lambda>b' s. child_ok C V' D' p l b' s \<and> node_key p l (bid b') \<in> D') rb NS"
    and frame: "\<And>x. x \<notin> range_ids p l (kv_insert key v (segs ! i)) (bounds ks b ! i) \<Longrightarrow> V' x = V x \<and> (x \<in> D' \<longleftrightarrow> x \<in> D)"
  shows "list_all2 (child_ok C V' D' p l) (take i (bounds ks b) @ rb @ drop (Suc i) (bounds ks b))
    (take i segs @ NS @ drop (Suc i) segs)"
proof -
  have len: "length (bounds ks b) = length segs" using all by (rule list_all2_lengthD)
  have other: "child_ok C V' D' p l (bounds ks b ! j) (segs ! j)" if j: "j < length segs" "j \<noteq> i" for j
  proof (rule child_ok_cong)
    show "child_ok C V D p l (bounds ks b ! j) (segs ! j)" using list_all2_nthD2 [OF all j(1)] .
    fix x assume "x \<in> range_ids p l (segs ! j) (bounds ks b ! j)"
    then have "x \<notin> range_ids p l (kv_insert key v (segs ! i)) (bounds ks b ! i)"
      using idents_disjoint [OF all st ok key j(1) j(2) [unfolded i_def]]
      by (auto simp: range_ids_def node_key_inject i_def)
    then show "V' x = V x \<and> (x \<in> D' \<longleftrightarrow> x \<in> D)" by (rule frame)
  qed
  have "list_all2 (child_ok C V' D' p l) (take i (bounds ks b)) (take i segs)"
    using other len by (auto simp: list_all2_conv_all_nth)
  moreover have "list_all2 (child_ok C V' D' p l) (drop (Suc i) (bounds ks b)) (drop (Suc i) segs)"
    using other len by (auto simp: list_all2_conv_all_nth)
  moreover have "list_all2 (child_ok C V' D' p l) rb NS" using NS by (rule list_all2_mono) simp
  ultimately show ?thesis by (intro list_all2_appendI)
qed


lemma Insert_meta:
  assumes S: "sizes_ok C p K" and m: "is_meta C c (Suc l) ks (map length segs @ (if b = None then [] else [0]))"
    and ne: "ks \<noteq> []" and all: "list_all2 (child_ok C (view E m d) (dom m) p l) (bounds ks b) segs"
    and st: "strict (concat segs)" and ok: "entries_ok K (concat segs)" "entry_sized K (key, v)"
    and key: "b \<noteq> None \<longrightarrow> ks \<noteq> [] \<and> last ks = the b \<and> key \<le> the b"
    and coh: "coherent E p d" "delta_ok m" and sz: "length (concat segs) + 1 < 2 ^ 64" "Suc l < 2 ^ 32"
    and IH: "\<And>d'. db_map E d' = db_map E d \<Longrightarrow> coherent E p d' \<Longrightarrow>
      insert_spec E C p l (view E m d (node_key p l (bid (bounds ks b ! lower_bound ks key))))
        (bounds ks b ! lower_bound ks key) (segs ! lower_bound ks key) key v m d'"
  shows "insert_spec E C p (Suc l) c b (concat segs) key v m d"
proof -
  let ?i = "lower_bound ks key" let ?b = "bounds ks b ! ?i" and ?s = "segs ! ?i" and ?M = "QLBTreeMeta_of c"
  let ?s' = "kv_insert key v ?s" and ?kvs' = "kv_insert key v (concat segs)"
  have l: "l < 2 ^ 32" using sz(2) by simp
  note ch = choose_child [OF all st key] and srch = meta_search [OF m l all st key] and M = is_metaD [OF m]
  have len: "length segs = length (bounds ks b)" using list_all2_lengthD [OF all] by simp
  obtain d1 where d1: "LoadChild E m d (node_key p l (bid ?b)) = (view E m d (node_key p l (bid ?b)), d1)"
      "db_map E d1 = db_map E d" "coherent E p d1"
    using LoadChild_view [OF coh] by metis
  obtain ret m' d' where ins: "Insert E C p (view E m d (node_key p l (bid ?b))) key v m d1 = Some (ret, m', d')"
    and d': "db_map E d' = db_map E d" "coherent E p d'" "delta_ok m'"
    and post: "post C (view E m' d') (dom m') p l ?b ?s' ret"
    and fr: "\<And>x. x \<notin> range_ids p l ?s' ?b \<Longrightarrow> m' x = m x"
    using IH [OF d1(2,3)] d1(2) unfolding insert_spec_def by metis
  obtain NS where NS: "ir_num_elems ret = map length NS" "concat NS = ?s'"
      "list_all2 (\<lambda>b' s. child_ok C (view E m' d') (dom m') p l b' s \<and> node_key p l (bid b') \<in> dom m') (res_bounds ret ?b) NS"
    using post by (auto simp: post_def)
  let ?segs = "take ?i segs @ NS @ drop (Suc ?i) segs"
  obtain ret' ics where r: "UpdateChild C ?M ?i ret p = (ret', ics)" by fastforce
  have cat: "concat ?segs = ?kvs'"
    using kv_insert_append [OF ch(4,5), of v ?s] concat_split [OF ch(1)] NS(2) by simp
  have bk: "bounds (new_keys ?M ?i ret) b = take ?i (bounds ks b) @ res_bounds ret ?b @ drop (Suc ?i) (bounds ks b)"
    using bounds_new_keys [of ?i ?M b ret] ch(1) unfolding len M(4) by blast
  have "list_all2 (child_ok C (view E m' d') (dom m') p l) (bounds (new_keys ?M ?i ret) b) ?segs"
    unfolding bk by (rule children_after [OF all st ok key NS(3)]) (rule view_frame [OF d'(1) fr])
  moreover have "(mt_elems ?M ! length (mt_keys ?M) = 0) = (b \<noteq> None)"
  proof (cases b)
    case None
    then have "seg_ok None (segs ! length ks)" using list_all2_nthD2 [OF all, of "length ks"] len by (simp add: child_ok_def bounds_last)
    then show ?thesis using None len by (simp add: M(4,5) seg_ok_def)
  qed (use len in \<open>simp add: M(4,5) nth_append\<close>)
  moreover have "b \<noteq> None \<longrightarrow> last (new_keys ?M ?i ret) = the b"
    using key ch(1) len by (auto simp: new_keys_def M(4))
  moreover have "new_keys ?M ?i ret \<noteq> []" "length (new_keys ?M ?i ret) \<le> fanout C + 1"
    using ne m by (auto simp: new_keys_def M(4) is_meta_def)
  ultimately have U: "updated C (view E m' d') (dom m') p l b ?M (new_keys ?M ?i ret)
      (map length ?segs @ (if b = None then [] else [0])) ?segs"
    using M(3) by (simp add: updated_def)
  have es: "new_elems ?M ?i ret = map length ?segs @ (if b = None then [] else [0])"
    using len ch(1) by (intro new_elems_segs [OF _ _ _ NS(1)]) (simp_all add: M)
  have ok': "strict (concat ?segs)" "entries_ok K (concat ?segs)" "length (concat ?segs) < 2 ^ 64"
    unfolding cat using st ok sz(1) length_kv_insert [of key v "concat segs"]
    by (simp_all add: strict_kv_insert entries_ok_kv_insert)
  have P: "post C (upd (view E m' d') ics) (dom m' \<union> fst ` set ics) p (Suc l) b ?kvs' ret'" "ics_ok p (Suc l) ?kvs' b ics"
    using UpdateChild_post [OF S U ok' sz(2) refl es r] unfolding cat by blast+
  have "Insert E C p c key v m d = Some (ret', create_all m' ics, d')"
    using M(1,2) d1(1) ins r by (subst Insert.simps) (simp add: Let_def srch)
  moreover have "create_all m' ics x = m x" if x: "x \<notin> range_ids p (Suc l) ?kvs' b" for x
  proof -
    have "idents ?s' ?b \<subseteq> idents ?kvs' b"
      using ch(1) len unfolding cat [symmetric] by (auto simp: idents_def NS(2) [symmetric] bounds_def split: if_splits)
    then have "x \<notin> range_ids p l ?s' ?b" using x range_ids_mono [of ?s' ?b ?kvs' b l "Suc l" p] by auto
    then show ?thesis using fr ics_other [OF P(2) x] by simp
  qed
  ultimately show ?thesis
    unfolding insert_spec_def using P d' create_all_ok [OF d'(3)]
    by (auto simp: create_all_view create_all_dom ics_ok_def)
qed


lemma Insert_repr:
  assumes S: "sizes_ok C p K" and ok: "entry_sized K (key, v)" and dm: "delta_ok m"
  shows "repr C (view E m d) (dom m) p l c b kvs \<Longrightarrow> strict kvs \<Longrightarrow> entries_ok K kvs \<Longrightarrow>
    (b \<noteq> None \<longrightarrow> kvs \<noteq> [] \<and> fst (last kvs) = the b \<and> key \<le> the b) \<Longrightarrow> coherent E p d \<Longrightarrow>
    length kvs + 1 < 2 ^ 64 \<Longrightarrow> l < 2 ^ 32 \<Longrightarrow> insert_spec E C p l c b kvs key v m d"
proof (induction l arbitrary: c b kvs d)
  case 0
  then show ?case using Insert_leaf [OF S _ _ _ ok _ _ dm] by simp
next
  case (Suc l)
  then obtain ks segs where m: "is_meta C c (Suc l) ks (map length segs @ (if b = None then [] else [0]))"
    and ne: "ks \<noteq> []" and b: "b \<noteq> None \<longrightarrow> ks \<noteq> [] \<and> last ks = the b" and kvs: "kvs = concat segs"
    and all: "list_all2 (child_ok C (view E m d) (dom m) p l) (bounds ks b) segs"
    unfolding repr_Suc by blast
  let ?i = "lower_bound ks key" let ?b = "bounds ks b ! ?i" and ?s = "segs ! ?i"
  have key: "b \<noteq> None \<longrightarrow> ks \<noteq> [] \<and> last ks = the b \<and> key \<le> the b" using b Suc.prems(4) by simp
  have st: "strict (concat segs)" and oks: "entries_ok K (concat segs)" using Suc.prems(2,3) kvs by simp_all
  note ch = choose_child [OF all st key]
  have split: "concat segs = concat (take ?i segs) @ ?s @ concat (drop (Suc ?i) segs)" using concat_split [OF ch(1)] .
  have c: "child_ok C (view E m d) (dom m) p l ?b ?s" using list_all2_nthD2 [OF all ch(1)] .
  have "insert_spec E C p l (view E m d (node_key p l (bid ?b))) ?b ?s key v m d'"
    if d': "db_map E d' = db_map E d" "coherent E p d'" for d'
  proof (rule Suc.IH)
    show "repr C (view E m d') (dom m) p l (view E m d (node_key p l (bid ?b))) ?b ?s"
      using c view_cong [OF d'(1)] by (simp add: child_ok_def)
    show "?b \<noteq> None \<longrightarrow> ?s \<noteq> [] \<and> fst (last ?s) = the ?b \<and> key \<le> the ?b"
      using c ch(3) by (simp add: child_ok_def seg_ok_def)
    show "entries_ok K ?s" "length ?s + 1 < 2 ^ 64"
      using oks Suc.prems(6) unfolding kvs split by (simp_all del: concat.simps)
  qed (use strict_nth [OF st ch(1)] d' Suc.prems(7) in simp_all)
  then show ?case
    unfolding kvs using Suc.prems(5-7) kvs by (intro Insert_meta [OF S m ne all st oks ok key _ dm]) simp_all
qed

section \<open>The loop of Set\<close>

text \<open>The root of a tree: no bound, and it represents all entries.\<close>

definition root_repr :: "'s ext \<Rightarrow> BPlusConfig \<Rightarrow> string \<Rightarrow> nat \<Rightarrow> Chunk \<Rightarrow> entries \<Rightarrow> dirty \<Rightarrow> 's DB \<Rightarrow> bool" where
  "root_repr E C p l c kvs m d \<longleftrightarrow> repr C (view E m d) (dom m) p l c None kvs \<and> strict kvs \<and> coherent E p d \<and> delta_ok m"

lemma set_step:
  assumes S: "sizes_ok C p K" and R: "root_repr E C p l c kvs m d" and ok: "entries_ok K kvs" "entry_sized K (key, v)"
    and sz: "length kvs + 1 < 2 ^ 64" "Suc l < 2 ^ 32"
  shows "\<exists>ret m' d' l'. Insert E C p c key v m d = Some (ret, m', d') \<and> l' \<le> Suc l \<and> db_map E d' = db_map E d \<and>
    (let (root_id, m'') =
         (if isSplit ret then
            (let rid = node_key p (ir_level ret + 1) ''_INFI_''
             in (rid, CreateChunk m' rid (QLBTreeMeta_Encode (ir_level ret + 1) [split_key ret] (ir_num_elems ret))))
          else (node_key p (ir_level ret) ''_INFI_'', m'))
     in root_id = node_key p l' ''_INFI_'' \<and> m'' root_id \<noteq> None \<and>
       root_repr E C p l' (Delta_GetChunk m'' root_id) (kv_insert key v kvs) m'' d')"
proof -
  let ?kvs = "kv_insert key v kvs"
  have R': "repr C (view E m d) (dom m) p l c None kvs" "strict kvs" "coherent E p d" "delta_ok m"
    using R by (auto simp: root_repr_def)
  obtain ret m' d' where ins: "Insert E C p c key v m d = Some (ret, m', d')" and d': "db_map E d' = db_map E d" "coherent E p d'"
    and m': "delta_ok m'" and post: "post C (view E m' d') (dom m') p l None ?kvs ret"
    using Insert_repr [OF S ok(2) R'(4) R'(1,2) ok(1) _ R'(3) sz(1)] sz(2) unfolding insert_spec_def by auto
  have st: "strict ?kvs" using strict_kv_insert [OF R'(2)] .
  have lvl: "ir_level ret = l" using post by (simp add: post_def)
  obtain NS where NS: "ir_num_elems ret = map length NS" "concat NS = ?kvs"
      "list_all2 (\<lambda>b' s. child_ok C (view E m' d') (dom m') p l b' s \<and> node_key p l (bid b') \<in> dom m') (res_bounds ret None) NS"
    using post by (auto simp: post_def)
  show ?thesis
  proof (cases "isSplit ret")
    case False
    then obtain s where "NS = [s]" "child_ok C (view E m' d') (dom m') p l None s" "node_key p l ''_INFI_'' \<in> dom m'"
      using NS(3) by (auto simp: res_bounds_def list_all2_Cons1 bid_def)
    moreover from this have "Delta_GetChunk m' (node_key p l ''_INFI_'') = view E m' d' (node_key p l (bid None))"
      using Delta_GetChunk_ok [OF m'] by (auto simp: view_def bid_def)
    ultimately show ?thesis
      using ins False lvl NS(2) st d' m' by (intro exI [of _ ret] exI [of _ m'] exI [of _ d'] exI [of _ l])
        (auto simp: root_repr_def child_ok_def dom_def)
  next
    case True
    let ?id = "node_key p (Suc l) ''_INFI_''" and ?c = "QLBTreeMeta_Encode (Suc l) [split_key ret] (map length NS)"
    let ?m = "create_all m' [(?id, ?c)]"
    have B: "res_bounds ret None = bounds [split_key ret] None" using True by (simp add: res_bounds_def bounds_def)
    have "list_all2 (child_ok C (view E m' d') (dom m') p l) (bounds [split_key ret] None) NS"
      using NS(3) unfolding B by (rule list_all2_mono) simp
    then have all: "list_all2 (child_ok C (view E ?m d') (dom ?m) p l) (bounds [split_key ret] None) NS"
      unfolding create_all_view create_all_dom by (rule children_above) auto
    have ok': "entries_ok K (concat NS)" "length (concat NS) < 2 ^ 64" unfolding NS(2)
      using entries_ok_kv_insert ok length_kv_insert [of key v kvs] sz(1) by (blast, linarith)
    have f: "length [split_key ret] \<le> fanout C" using S by (simp add: sizes_ok_def)
    note node = meta_node [OF S all _ f _ ok' sz(2), simplified]
    have m: "delta_ok ?m" using create_all_ok [OF m'] node(2) by simp
    have id: "?m ?id = Some ?c" by (simp add: create_all_def CreateChunk_def)
    have "root_repr E C p (Suc l) (Delta_GetChunk ?m ?id) ?kvs ?m d'"
      unfolding root_repr_def Delta_GetChunk_ok [OF m] id using node(1) st d' m NS(2) by simp
    then show ?thesis
      using ins True lvl d' id NS(1) by (intro exI [of _ ret] exI [of _ m'] exI [of _ d'] exI [of _ "Suc l"])
        (simp add: create_all_def CreateChunk_def Let_def)
  qed
qed


abbreviation kv_inserts :: "entries \<Rightarrow> entries \<Rightarrow> entries" where
  "kv_inserts kvs new \<equiv> foldl (\<lambda>kvs (k, v). kv_insert k v kvs) kvs new"

lemma set_loop_repr:
  assumes S: "sizes_ok C p K"
  shows "root_repr E C p l c kvs m d \<Longrightarrow> entries_ok K kvs \<Longrightarrow> entries_ok K new \<Longrightarrow> length kvs + length new < 2 ^ 64 \<Longrightarrow>
    l + length new < 2 ^ 32 \<Longrightarrow> \<exists>rid m' d' l'. set_loop E C p c rid0 new m d = Some (rid, m', d') \<and>
      l' \<le> l + length new \<and> db_map E d' = db_map E d \<and>
      (if new = [] then rid = rid0 \<and> m' = m \<and> root_repr E C p l' c kvs m' d'
       else rid = node_key p l' ''_INFI_'' \<and> m' rid \<noteq> None \<and>
         root_repr E C p l' (Delta_GetChunk m' rid) (kv_inserts kvs new) m' d')"
proof (induction new arbitrary: l c kvs m d rid0)
  case Nil
  then show ?case by auto
next
  case (Cons e new)
  obtain k v where e: "e = (k, v)" by (cases e)
  have ev: "entry_sized K (k, v)" "entries_ok K new" using Cons.prems(3) by (auto simp: e entries_ok_def)
  obtain ret m1 d1 l1 where ins: "Insert E C p c k v m d = Some (ret, m1, d1)" and l1: "l1 \<le> Suc l"
    and d1: "db_map E d1 = db_map E d" and step: "let (root_id, m'') =
         (if isSplit ret then
            (let rid = node_key p (ir_level ret + 1) ''_INFI_''
             in (rid, CreateChunk m1 rid (QLBTreeMeta_Encode (ir_level ret + 1) [split_key ret] (ir_num_elems ret))))
          else (node_key p (ir_level ret) ''_INFI_'', m1))
     in root_id = node_key p l1 ''_INFI_'' \<and> m'' root_id \<noteq> None \<and>
       root_repr E C p l1 (Delta_GetChunk m'' root_id) (kv_insert k v kvs) m'' d1"
    using set_step [OF S Cons.prems(1,2) ev(1)] Cons.prems(4,5) by force
  define r where "r = (if isSplit ret then
            (let rid = node_key p (ir_level ret + 1) ''_INFI_''
             in (rid, CreateChunk m1 rid (QLBTreeMeta_Encode (ir_level ret + 1) [split_key ret] (ir_num_elems ret))))
          else (node_key p (ir_level ret) ''_INFI_'', m1))"
  have R: "fst r = node_key p l1 ''_INFI_''" "snd r (fst r) \<noteq> None"
      "root_repr E C p l1 (Delta_GetChunk (snd r) (fst r)) (kv_insert k v kvs) (snd r) d1"
    using step unfolding r_def [symmetric] unfolding Let_def case_prod_unfold by blast+
  have loop: "set_loop E C p c rid0 (e # new) m d = set_loop E C p (Delta_GetChunk (snd r) (fst r)) (fst r) new (snd r) d1"
    unfolding e set_loop.simps ins r_def by (simp add: Let_def case_prod_unfold)
  have sz: "length (kv_insert k v kvs) + length new < 2 ^ 64" "l1 + length new < 2 ^ 32"
    using length_kv_insert [of k v kvs] Cons.prems(4,5) l1 by simp_all
  obtain rid m' d' l' where IH: "set_loop E C p (Delta_GetChunk (snd r) (fst r)) (fst r) new (snd r) d1 = Some (rid, m', d')"
      "l' \<le> l1 + length new" "db_map E d' = db_map E d1"
      "if new = [] then rid = fst r \<and> m' = snd r \<and> root_repr E C p l' (Delta_GetChunk (snd r) (fst r)) (kv_insert k v kvs) m' d'
       else rid = node_key p l' ''_INFI_'' \<and> m' rid \<noteq> None \<and>
         root_repr E C p l' (Delta_GetChunk m' rid) (kv_inserts (kv_insert k v kvs) new) m' d'"
    using Cons.IH [OF R(3) entries_ok_kv_insert [OF Cons.prems(2) ev(1)] ev(2) sz, of "fst r"] by blast
  show ?case
  proof (cases "new = []")
    case True
    then have "set_loop E C p c rid0 (e # new) m d = Some (fst r, snd r, d1)" using loop by simp
    then show ?thesis using True R l1 d1 by (intro exI [of _ "fst r"] exI [of _ "snd r"] exI [of _ d1] exI [of _ l1]) (simp add: e)
  next
    case False
    then show ?thesis using loop IH l1 d1 by (intro exI [of _ rid] exI [of _ m'] exI [of _ d'] exI [of _ l']) (auto simp: e)
  qed
qed


section \<open>Commit\<close>

text \<open>
  What committing nodes with the keys \<open>X\<close> may do to the store: write chunks of the delta under
  these keys.
\<close>

definition commit_frame :: "'s ext \<Rightarrow> string \<Rightarrow> dirty \<Rightarrow> string set \<Rightarrow> 's DB \<Rightarrow> 's DB \<Rightarrow> bool" where
  "commit_frame E p m X d d' \<longleftrightarrow> coherent E p d' \<and>
     (\<forall>x. db_map E d' x = db_map E d x \<or> x \<in> X \<and> (\<exists>c. m x = Some c \<and> db_map E d' x = c))"

lemma commit_frame_view: "commit_frame E p m X d d' \<Longrightarrow> view E m d' = view E m d"
  by (rule ext) (auto simp: commit_frame_def view_def split: option.splits)

lemma commit_frame_trans:
  "commit_frame E p m X d d' \<Longrightarrow> commit_frame E p m Y d' d'' \<Longrightarrow> commit_frame E p m (X \<union> Y) d d''"
  unfolding commit_frame_def by (metis UnI1 UnI2)

lemma commit_frame_mono: "commit_frame E p m X d d' \<Longrightarrow> X \<subseteq> Y \<Longrightarrow> commit_frame E p m Y d d'"
  unfolding commit_frame_def by blast

lemma commit_frame_refl: "coherent E p d \<Longrightarrow> commit_frame E p m {} d d"
  by (simp add: commit_frame_def)

lemma DB_Put_chunk_whole:
  assumes "ext_ok E" "whole c" "coherent E p d"
  shows "db_map E (snd (DB_Put_chunk E d k c)) = (db_map E d)(k := c)" "coherent E p (snd (DB_Put_chunk E d k c))"
proof -
  have c: "Some (chunk_bytes c) = c" using assms(2) by (auto simp: whole_def head_def)
  show map: "db_map E (snd (DB_Put_chunk E d k c)) = (db_map E d)(k := c)" using assms(1) c by simp
  have "m_cache (snd (DB_Put_chunk E d k c)) = (m_cache d)(k := None)"
    by (simp add: DB_Put_chunk_def Let_def split: prod.splits)
  then show "coherent E p (snd (DB_Put_chunk E d k c))" using assms(3) map by (auto simp: coherent_def)
qed

text \<open>One step of \<open>Commit\<close> on a node that is in the delta, and on one that is not.\<close>

lemma Commit_dirty:
  assumes "delta_ok m" "m nid = Some c"
  shows "Commit E p m ((nid, isroot) # rest) d = Commit E p m
    ((if chunk_type c = kMeta then map (\<lambda>c. (c, False)) (commit_children p (QLBTreeMeta_of c)) else []) @ rest)
    (snd (DB_Put_chunk E d (if isroot then p @ ''ROOT'' else nid) c))"
proof -
  have "Delta_GetChunk m nid = c" "\<not> Chunk_empty c"
    using assms Delta_GetChunk_ok [OF assms(1)] by (auto simp: delta_ok_def whole_def Chunk_empty_def)
  then show ?thesis by (subst Commit.simps) (simp add: Let_def)
qed

lemma Commit_clean:
  assumes "delta_ok m" "m nid = None"
  shows "Commit E p m ((nid, isroot) # rest) d = Commit E p m rest d"
  using assms Delta_GetChunk_ok [OF assms(1)] by (subst Commit.simps) (simp add: Let_def Chunk_empty_def)

definition commit_spec :: "'s ext \<Rightarrow> BPlusConfig \<Rightarrow> string \<Rightarrow> dirty \<Rightarrow> nat \<Rightarrow> 's DB \<Rightarrow> string option \<Rightarrow> entries \<Rightarrow> bool" where
  "commit_spec E C p m l d b seg \<longleftrightarrow> (\<forall>rest. \<exists>d'.
     Commit E p m ((node_key p l (bid b), False) # rest) d = Commit E p m rest d' \<and>
     commit_frame E p m (range_ids p l seg b) d d' \<and> child_ok C (db_map E d') {} p l b seg)"

lemma commit_list:
  assumes step: "\<And>b s d. (b, s) \<in> set (zip bs segs) \<Longrightarrow> coherent E p d \<Longrightarrow>
      child_ok C (view E m d) (dom m) p l b s \<Longrightarrow> commit_spec E C p m l d b s"
    and all: "list_all2 (child_ok C V (dom m) p l) bs segs" and V: "view E m d = V" and coh: "coherent E p d"
    and disj: "\<And>i j. i < length segs \<Longrightarrow> j < length segs \<Longrightarrow> i \<noteq> j \<Longrightarrow>
      range_ids p l (segs ! i) (bs ! i) \<inter> range_ids p l (segs ! j) (bs ! j) = {}"
  shows "\<exists>d'. Commit E p m (map (\<lambda>b. (node_key p l (bid b), False)) bs @ rest) d = Commit E p m rest d' \<and>
    commit_frame E p m (\<Union>i<length segs. range_ids p l (segs ! i) (bs ! i)) d d' \<and>
    list_all2 (child_ok C (db_map E d') {} p l) bs segs"
  using all step V coh disj
proof (induction bs segs arbitrary: d rule: list_all2_induct)
  case Nil
  then show ?case by (intro exI [of _ d]) (simp add: commit_frame_refl)
next
  case (Cons b bs s segs)
  have "commit_spec E C p m l d b s"
    using Cons.hyps(1) Cons.prems(2) by (intro Cons.prems(1) [OF _ Cons.prems(3)]) simp_all
  then obtain d1 where d1: "Commit E p m ((node_key p l (bid b), False) # map (\<lambda>b. (node_key p l (bid b), False)) bs @ rest) d =
      Commit E p m (map (\<lambda>b. (node_key p l (bid b), False)) bs @ rest) d1"
      "commit_frame E p m (range_ids p l s b) d d1" "child_ok C (db_map E d1) {} p l b s"
    unfolding commit_spec_def by blast
  let ?R = "\<Union>i<length segs. range_ids p l (segs ! i) (bs ! i)"
  have "\<exists>d'. Commit E p m (map (\<lambda>b. (node_key p l (bid b), False)) bs @ rest) d1 = Commit E p m rest d' \<and>
      commit_frame E p m ?R d1 d' \<and> list_all2 (child_ok C (db_map E d') {} p l) bs segs"
  proof (rule Cons.IH)
    show "view E m d1 = V" using Cons.prems(2) commit_frame_view [OF d1(2)] by simp
    show "coherent E p d1" using d1(2) by (simp add: commit_frame_def)
    show "range_ids p l (segs ! i) (bs ! i) \<inter> range_ids p l (segs ! j) (bs ! j) = {}"
      if "i < length segs" "j < length segs" "i \<noteq> j" for i j
      using Cons.prems(4) [of "Suc i" "Suc j"] that by simp
  qed (use Cons.prems(1) in auto)
  then obtain d' where d': "Commit E p m (map (\<lambda>b. (node_key p l (bid b), False)) bs @ rest) d1 = Commit E p m rest d'"
      "commit_frame E p m ?R d1 d'" "list_all2 (child_ok C (db_map E d') {} p l) bs segs" by blast
  have apart: "range_ids p l s b \<inter> ?R = {}" using Cons.prems(4) [of 0 "Suc _"] by auto
  have "child_ok C (db_map E d') {} p l b s"
    using d1(3)
  proof (rule child_ok_cong)
    fix x assume "x \<in> range_ids p l s b"
    then have "x \<notin> ?R" using apart by blast
    then show "db_map E d' x = db_map E d1 x \<and> (x \<in> {}) = (x \<in> {})" using d'(2) unfolding commit_frame_def by blast
  qed
  moreover have "commit_frame E p m (\<Union>i<length (s # segs). range_ids p l ((s # segs) ! i) ((b # bs) ! i)) d d'"
    using commit_frame_trans [OF d1(2) d'(2)] by (rule commit_frame_mono) (force simp: less_Suc_eq_0_disj)
  ultimately show ?case using d1(1) d'(1,3) by auto
qed


lemma ranges_disjoint:
  assumes all: "list_all2 (child_ok C V D p l) (bounds ks b) segs" and st: "strict (concat segs)"
    and ok: "entries_ok K (concat segs)" and ij: "i < length segs" "j < length segs" "i \<noteq> j"
  shows "range_ids p l (segs ! i) (bounds ks b ! i) \<inter> range_ids p l (segs ! j) (bounds ks b ! j) = {}"
proof -
  have infi: "''_INFI_'' \<notin> fst ` set (segs ! k)" if "k < length segs" for k
  proof -
    have "set (segs ! k) \<subseteq> set (concat segs)" using nth_mem [OF that] by auto
    then show ?thesis using ok unfolding entries_ok_def entry_sized_def by fastforce
  qed
  have keys: "fst x \<noteq> fst y" if "x \<in> set (segs ! i)" "y \<in> set (segs ! j)" for x y
    using strict_segs [OF st _ ij(2) that] strict_segs [OF st _ ij(1) that(2,1)] ij(3)
    by (metis less_irrefl linorder_neqE_nat)
  then have k: "fst ` set (segs ! i) \<inter> fst ` set (segs ! j) = {}" by fastforce
  have "\<not> (bounds ks b ! i = None \<and> bounds ks b ! j = None)"
    using list_all2_lengthD [OF all] ij by (auto simp: bounds_def nth_append split: if_splits)
  then have "idents (segs ! i) (bounds ks b ! i) \<inter> idents (segs ! j) (bounds ks b ! j) = {}"
    unfolding idents_def using k infi [OF ij(1)] infi [OF ij(2)] by auto
  then show ?thesis by (auto simp: range_ids_def node_key_inject)
qed

lemma commit_children_bounds:
  assumes m: "is_meta C c (Suc l) ks (map length segs @ (if b = None then [] else [0]))"
    and all: "list_all2 (child_ok C V D p l) (bounds ks b) segs" and l: "l < 2 ^ 32"
  shows "commit_children p (QLBTreeMeta_of c) = map (\<lambda>b. node_key p l (bid b)) (bounds ks b)"
proof -
  have len: "length segs = length (bounds ks b)" using list_all2_lengthD [OF all] by simp
  note M = is_metaD [OF m]
  have ck: "child_key p (QLBTreeMeta_of c) i = node_key p l (child_id (QLBTreeMeta_of c) i)" for i
    using child_key_level [OF M(3) l] .
  have "map (\<lambda>i. node_key p l (child_id (QLBTreeMeta_of c) i)) [0..<length ks] = map (\<lambda>b. node_key p l (bid b)) (map Some ks)"
    by (intro nth_equalityI) (simp_all add: child_id_def M(4) bid_def)
  moreover have "mt_elems (QLBTreeMeta_of c) ! length ks > 0 \<longleftrightarrow> b = None"
  proof (cases b)
    case None
    then have "seg_ok None (segs ! length ks)" using list_all2_nthD2 [OF all, of "length ks"] len by (simp add: child_ok_def bounds_last)
    then show ?thesis using None len by (simp add: M(5) seg_ok_def)
  qed (use len in \<open>simp add: M(5) nth_append\<close>)
  ultimately show ?thesis
    unfolding commit_children_def M(4) ck by (simp add: bounds_def child_id_def M(4) bid_def)
qed

text \<open>Committing the children of a node: the part the root and inner nodes share.\<close>

lemma Commit_meta:
  assumes m: "is_meta C c (Suc l) ks (map length segs @ (if b = None then [] else [0]))" and ne: "ks \<noteq> []"
    and b: "b \<noteq> None \<longrightarrow> ks \<noteq> [] \<and> last ks = the b"
    and all: "list_all2 (child_ok C (view E m' d) (dom m') p l) (bounds ks b) segs"
    and st: "strict (concat segs)" and ok: "entries_ok K (concat segs)" and coh: "coherent E p d" and l: "l < 2 ^ 32"
    and step: "\<And>b s d. strict s \<Longrightarrow> entries_ok K s \<Longrightarrow> coherent E p d \<Longrightarrow>
      child_ok C (view E m' d) (dom m') p l b s \<Longrightarrow> commit_spec E C p m' l d b s"
  shows "\<exists>d'. Commit E p m' (map (\<lambda>c. (c, False)) (commit_children p (QLBTreeMeta_of c)) @ rest) d = Commit E p m' rest d' \<and>
    commit_frame E p m' (range_ids p l (concat segs) b) d d' \<and> repr C (db_map E d') {} p (Suc l) c b (concat segs)"
proof -
  have each: "commit_spec E C p m' l d' b' s"
    if "(b', s) \<in> set (zip (bounds ks b) segs)" "coherent E p d'" "child_ok C (view E m' d') (dom m') p l b' s" for b' s d'
  proof -
    from that(1) obtain i where i: "i < length segs" "s = segs ! i" by (metis in_set_zip min_less_iff_conj length_zip fst_conv snd_conv)
    then have "s \<in> set segs" by simp
    then have "set s \<subseteq> set (concat segs)" by auto
    then have "entries_ok K s" using ok by (auto simp: entries_ok_def)
    then show ?thesis using step strict_nth [OF st i(1)] i(2) that by simp
  qed
  obtain d' where d': "Commit E p m' (map (\<lambda>b. (node_key p l (bid b), False)) (bounds ks b) @ rest) d = Commit E p m' rest d'"
      "commit_frame E p m' (\<Union>i<length segs. range_ids p l (segs ! i) (bounds ks b ! i)) d d'"
      "list_all2 (child_ok C (db_map E d') {} p l) (bounds ks b) segs"
    using commit_list [OF each all refl coh ranges_disjoint [OF all st ok], of rest] by auto
  have "(\<Union>i<length segs. range_ids p l (segs ! i) (bounds ks b ! i)) \<subseteq> range_ids p l (concat segs) b"
    using child_idents [OF all] by (intro UN_least range_ids_mono) auto
  then have "commit_frame E p m' (range_ids p l (concat segs) b) d d'" using commit_frame_mono [OF d'(2)] by blast
  moreover have "repr C (db_map E d') {} p (Suc l) c b (concat segs)"
    unfolding repr_Suc using m ne b d'(3) by blast
  ultimately show ?thesis using d'(1) unfolding commit_children_bounds [OF m all l] by (auto simp: comp_def)
qed

lemma Commit_child:
  assumes E: "ext_ok E" and dm: "delta_ok m"
  shows "strict seg \<Longrightarrow> entries_ok K seg \<Longrightarrow> coherent E p d \<Longrightarrow> child_ok C (view E m d) (dom m) p l b seg \<Longrightarrow>
    l < 2 ^ 32 \<Longrightarrow> commit_spec E C p m l d b seg"
proof (induction l arbitrary: b seg d)
  case 0
  let ?id = "node_key p 0 (bid b)"
  have seg: "seg_ok b seg" using "0.prems"(4) by (simp add: child_ok_def)
  then have id: "?id \<in> range_ids p 0 seg b" using range_idsI [OF le_refl bid_in_idents] by blast
  show ?case
  proof (cases "m ?id")
    case None
    then have "range_ids p 0 seg b \<inter> dom m = {}" using "0.prems"(4) by (auto simp: child_ok_def)
    then have "child_ok C (db_map E d) {} p 0 b seg"
      by (intro child_ok_cong [OF "0.prems"(4)]) (auto simp: view_def dom_def split: option.splits)
    then show ?thesis unfolding commit_spec_def Commit_clean [OF dm None]
      using commit_frame_mono [OF commit_frame_refl [OF "0.prems"(3)]] by blast
  next
    case (Some c)
    have w: "whole c" using dm Some by (simp add: delta_ok_def)
    note put = DB_Put_chunk_whole [OF E w "0.prems"(3), of ?id]
    have leaf: "is_leaf C c b seg" using "0.prems"(4) Some by (simp add: child_ok_def view_def)
    have "commit_frame E p m (range_ids p 0 seg b) d (snd (DB_Put_chunk E d ?id c))"
      using put id Some by (auto simp: commit_frame_def)
    moreover have "child_ok C (db_map E (snd (DB_Put_chunk E d ?id c))) {} p 0 b seg"
      using leaf seg by (simp add: child_ok_def put(1))
    ultimately show ?thesis
      unfolding commit_spec_def Commit_dirty [OF dm Some] using is_leafD(3) [OF leaf] by auto
  qed
next
  case (Suc l)
  let ?id = "node_key p (Suc l) (bid b)"
  have seg: "seg_ok b seg" using Suc.prems(4) by (simp add: child_ok_def)
  then have id: "?id \<in> range_ids p (Suc l) seg b" using range_idsI [OF le_refl bid_in_idents] by blast
  show ?case
  proof (cases "m ?id")
    case None
    then have "range_ids p (Suc l) seg b \<inter> dom m = {}" using Suc.prems(4) by (auto simp: child_ok_def)
    then have "child_ok C (db_map E d) {} p (Suc l) b seg"
      by (intro child_ok_cong [OF Suc.prems(4)]) (auto simp: view_def dom_def split: option.splits)
    then show ?thesis unfolding commit_spec_def Commit_clean [OF dm None]
      using commit_frame_mono [OF commit_frame_refl [OF Suc.prems(3)]] by blast
  next
    case (Some c)
    have w: "whole c" using dm Some by (simp add: delta_ok_def)
    let ?d = "snd (DB_Put_chunk E d ?id c)"
    note put = DB_Put_chunk_whole [OF E w Suc.prems(3), of ?id]
    have fr: "commit_frame E p m {?id} d ?d" using put Some by (auto simp: commit_frame_def)
    have "repr C (view E m d) (dom m) p (Suc l) c b seg"
      using Suc.prems(4) view_def [of E m d ?id] Some by (simp add: child_ok_def)
    then obtain ks segs where mt: "is_meta C c (Suc l) ks (map length segs @ (if b = None then [] else [0]))"
      and ne: "ks \<noteq> []" and b: "b \<noteq> None \<longrightarrow> ks \<noteq> [] \<and> last ks = the b" and kvs: "seg = concat segs"
      and all: "list_all2 (child_ok C (view E m ?d) (dom m) p l) (bounds ks b) segs"
      unfolding repr_Suc commit_frame_view [OF fr] by blast
    have l: "l < 2 ^ 32" using Suc.prems(5) by simp
    show ?thesis unfolding commit_spec_def
    proof
      fix rest
      have st: "strict (concat segs)" "entries_ok K (concat segs)" using Suc.prems(1,2) kvs by simp_all
      have "\<exists>d'. Commit E p m (map (\<lambda>c. (c, False)) (commit_children p (QLBTreeMeta_of c)) @ rest) ?d = Commit E p m rest d' \<and>
          commit_frame E p m (range_ids p l seg b) ?d d' \<and> repr C (db_map E d') {} p (Suc l) c b seg"
        unfolding kvs by (rule Commit_meta [OF mt ne b all st put(2) l]) (rule Suc.IH [OF _ _ _ _ l])
      then obtain d' where d': "Commit E p m (map (\<lambda>c. (c, False)) (commit_children p (QLBTreeMeta_of c)) @ rest) ?d = Commit E p m rest d'"
          "commit_frame E p m (range_ids p l seg b) ?d d'" "repr C (db_map E d') {} p (Suc l) c b seg"
        by blast
      have "?id \<notin> range_ids p l seg b" by (auto simp: range_ids_def node_key_inject)
      then have "db_map E d' ?id = db_map E ?d ?id" using d'(2) unfolding commit_frame_def by blast
      then have "db_map E d' ?id = c" by (simp add: put(1))
      then have "child_ok C (db_map E d') {} p (Suc l) b seg" using seg d'(3) by (simp add: child_ok_def)
      moreover have "commit_frame E p m (range_ids p (Suc l) seg b) d d'"
      proof (rule commit_frame_mono [OF commit_frame_trans [OF fr d'(2)]])
        have "range_ids p l seg b \<subseteq> range_ids p (Suc l) seg b" by (rule range_ids_mono) auto
        then show "{?id} \<union> range_ids p l seg b \<subseteq> range_ids p (Suc l) seg b" using id by blast
      qed
      ultimately show "\<exists>d'. Commit E p m ((?id, False) # rest) d = Commit E p m rest d' \<and>
          commit_frame E p m (range_ids p (Suc l) seg b) d d' \<and> child_ok C (db_map E d') {} p (Suc l) b seg"
        unfolding Commit_dirty [OF dm Some] using d'(1) is_metaD(2) [OF mt] by auto
    qed
  qed
qed


section \<open>The tree as a map\<close>

text \<open>
  The invariant of a tree object between calls: its delta is empty and its root represents the
  entries; \<open>n\<close> bounds how much was put in so far.
\<close>

definition tree_inv :: "'s ext \<Rightarrow> BPlusConfig \<Rightarrow> nat \<Rightarrow> nat \<Rightarrow> QLBTree \<Rightarrow> 's DB \<Rightarrow> entries \<Rightarrow> bool" where
  "tree_inv E C K n t d kvs \<longleftrightarrow> bt_delta t = Map.empty \<and> entries_ok K kvs \<and> length kvs \<le> n \<and>
     (\<exists>l\<le>n. root_repr E C (bt_prefix t) l (bt_root t) kvs Map.empty d)"

lemma view_empty [simp]: "view E Map.empty d = db_map E d"
  by (rule ext) (simp add: view_def)

lemma delta_ok_empty [simp]: "delta_ok Map.empty"
  by (simp add: delta_ok_def)

lemma root_key_neq: "p @ ''ROOT'' \<noteq> node_key p l i"
proof
  assume "p @ ''ROOT'' = node_key p l i"
  then have "''ROOT'' = to_string l @ ''|'' @ i" by (simp add: node_key_def)
  moreover have "hd (to_string l @ ''|'' @ i) \<in> set (to_string l)" by simp
  ultimately have "CHR ''R'' \<in> set (to_string l)" by (metis list.sel(1))
  then have "is_digit (CHR ''R'')" by (rule to_string_digits)
  then show False by (simp add: is_digit_def)
qed

lemma Commit_root:
  assumes E: "ext_ok E" and R: "root_repr E C p l (Delta_GetChunk m rid) kvs m d" and rid: "m rid \<noteq> None"
    and ok: "entries_ok K kvs" and l: "l < 2 ^ 32"
  shows "\<exists>d'. Commit E p m [(rid, True)] d = Some d' \<and> coherent E p d' \<and> db_map E d' (p @ ''ROOT'') = Delta_GetChunk m rid \<and>
    repr C (db_map E d') {} p l (Delta_GetChunk m rid) None kvs"
proof -
  obtain c where c: "m rid = Some c" using rid by auto
  have R': "repr C (view E m d) (dom m) p l c None kvs" "strict kvs" "coherent E p d" "delta_ok m" and g: "Delta_GetChunk m rid = c"
    using R c Delta_GetChunk_ok by (auto simp: root_repr_def)
  have w: "whole c" using R'(4) c by (simp add: delta_ok_def)
  let ?k = "p @ ''ROOT''" let ?d = "snd (DB_Put_chunk E d ?k c)"
  note put = DB_Put_chunk_whole [OF E w R'(3), of ?k]
  have nil: "Commit E p m [] d' = Some d'" for d' by (subst Commit.simps) simp
  have step: "Commit E p m [(rid, True)] d = Commit E p m
      ((if chunk_type c = kMeta then map (\<lambda>c. (c, False)) (commit_children p (QLBTreeMeta_of c)) else []) @ []) ?d"
    using Commit_dirty [OF R'(4) c, of E p True "[]" d] by simp
  have agree: "repr C (view E m ?d) (dom m) p l c None kvs"
  proof (rule repr_cong_gen [OF R'(1)])
    fix l' i
    have "view E m ?d (node_key p l' i) = view E m d (node_key p l' i)"
      using root_key_neq [of p l' i] by (cases "m (node_key p l' i)") (simp_all add: view_def put(1))
    then show "view E m ?d (node_key p l' i) = view E m d (node_key p l' i) \<and> (node_key p l' i \<in> dom m) = (node_key p l' i \<in> dom m)"
      by simp
  qed
  show ?thesis
  proof (cases l)
    case 0
    then have leaf: "is_leaf C c None kvs" using R'(1) by simp
    then show ?thesis using step nil is_leafD(3) [OF leaf] put g 0 by simp
  next
    case (Suc l')
    then obtain ks segs where mt: "is_meta C c (Suc l') ks (map length segs @ (if (None :: string option) = None then [] else [0]))"
      and ne: "ks \<noteq> []" and b: "(None :: string option) \<noteq> None \<longrightarrow> ks \<noteq> [] \<and> last ks = the None" and kvs: "kvs = concat segs"
      and all: "list_all2 (child_ok C (view E m ?d) (dom m) p l') (bounds ks None) segs"
      using agree unfolding Suc repr_Suc by blast
    have l': "l' < 2 ^ 32" using l Suc by simp
    have st: "strict (concat segs)" "entries_ok K (concat segs)" using R'(2) ok kvs by simp_all
    have "\<exists>d'. Commit E p m (map (\<lambda>c. (c, False)) (commit_children p (QLBTreeMeta_of c)) @ []) ?d = Commit E p m [] d' \<and>
        commit_frame E p m (range_ids p l' (concat segs) None) ?d d' \<and> repr C (db_map E d') {} p (Suc l') c None (concat segs)"
      by (rule Commit_meta [OF mt ne b all st put(2) l']) (rule Commit_child [OF E R'(4) _ _ _ _ l'])
    then obtain d' where d': "Commit E p m (map (\<lambda>c. (c, False)) (commit_children p (QLBTreeMeta_of c)) @ []) ?d = Commit E p m [] d'"
        "commit_frame E p m (range_ids p l' (concat segs) None) ?d d'" "repr C (db_map E d') {} p (Suc l') c None (concat segs)"
      by blast
    have "?k \<notin> range_ids p l' (concat segs) None" using root_key_neq by (auto simp: range_ids_def)
    then have "db_map E d' ?k = db_map E ?d ?k" using d'(2) unfolding commit_frame_def by blast
    then have "db_map E d' ?k = c" by (simp add: put(1))
    then show ?thesis using step d' nil is_metaD(2) [OF mt] g kvs Suc by (auto simp: commit_frame_def)
  qed
qed

lemma SetMany_inv:
  assumes E: "ext_ok E" and S: "sizes_ok C (bt_prefix t) K" and I: "tree_inv E C K n t d kvs"
    and new: "entries_ok K new" "n + length new < 2 ^ 32"
  shows "\<exists>t' d'. QLBTree_SetMany E C t (map fst new) (map snd new) d = Some (new \<noteq> [], t', d') \<and>
    bt_prefix t' = bt_prefix t \<and> tree_inv E C K (n + length new) t' d' (kv_inserts kvs new)"
proof (cases "new = []")
  case True
  then show ?thesis using I by (simp add: QLBTree_SetMany_def)
next
  case False
  let ?p = "bt_prefix t" and ?kvs = "kv_inserts kvs new"
  obtain l where l: "l \<le> n" and R: "root_repr E C ?p l (bt_root t) kvs Map.empty d" and dl: "bt_delta t = Map.empty"
    and ok: "entries_ok K kvs" "length kvs \<le> n"
    using I by (auto simp: tree_inv_def)
  obtain rid m d1 l1 where loop: "set_loop E C ?p (bt_root t) [] new Map.empty d = Some (rid, m, d1)"
    and l1: "l1 \<le> l + length new" and rid: "m rid \<noteq> None" and R1: "root_repr E C ?p l1 (Delta_GetChunk m rid) ?kvs m d1"
    using set_loop_repr [OF S R ok(1) new(1), of "[]"] False ok(2) l new(2) by auto
  have len: "length (kv_inserts kvs new) \<le> length kvs + length new \<and> entries_ok K (kv_inserts kvs new)" if "entries_ok K kvs" "entries_ok K new" for kvs new
    using that
  proof (induction new arbitrary: kvs)
    case (Cons e new)
    obtain k v where e: "e = (k, v)" by (cases e)
    have "entries_ok K (kv_insert k v kvs)" "entries_ok K new" using Cons.prems by (auto simp: e entries_ok_def entries_ok_kv_insert dest: set_kv_insert)
    then show ?case using Cons.IH [of "kv_insert k v kvs"] length_kv_insert [of k v kvs] by (simp add: e)
  qed simp
  have ok1: "entries_ok K ?kvs" using len [OF ok(1) new(1)] by simp
  obtain d2 where d2: "Commit E ?p m [(rid, True)] d1 = Some d2" "coherent E ?p d2" "db_map E d2 (?p @ ''ROOT'') = Delta_GetChunk m rid"
      "repr C (db_map E d2) {} ?p l1 (Delta_GetChunk m rid) None ?kvs"
    using Commit_root [OF E R1 rid ok1] l1 l new(2) by auto
  obtain d3 where d3: "DB_Get_chunk E d2 (?p @ ''ROOT'') = (db_map E d2 (?p @ ''ROOT''), d3)" "db_map E d3 = db_map E d2" "coherent E ?p d3"
    using DB_Get_chunk_coherent [OF d2(2)] by metis
  let ?t = "t\<lparr>bt_root := Delta_GetChunk m rid, bt_delta := Map.empty\<rparr>"
  have "QLBTree_SetMany E C t (map fst new) (map snd new) d = Some (True, ?t, d3)"
    using False loop dl d2(1) d3(1) d2(3) by (simp add: QLBTree_SetMany_def)
  moreover have "root_repr E C ?p l1 (Delta_GetChunk m rid) ?kvs Map.empty d3"
    using d2(4) d3(2,3) R1 by (simp add: root_repr_def)
  then have "tree_inv E C K (n + length new) ?t d3 ?kvs"
    using l1 l len [OF ok(1) new(1)] ok(2) unfolding tree_inv_def by (intro conjI exI [of _ l1]) simp_all
  ultimately show ?thesis using False by (intro exI [of _ ?t] exI [of _ d3]) simp
qed

lemma Get_inv:
  assumes "tree_inv E C K n t d kvs" "n < 2 ^ 32"
  shows "\<exists>d'. QLBTree_Get E t key d = Some (lookup kvs key, d') \<and> tree_inv E C K n t d' kvs"
proof -
  obtain l where l: "l \<le> n" and R: "root_repr E C (bt_prefix t) l (bt_root t) kvs Map.empty d"
    using assms(1) by (auto simp: tree_inv_def)
  have "l < 2 ^ 32" using l assms(2) by simp
  then obtain d' where d': "TryGet E (bt_prefix t) (bt_root t) key d = Some (lookup kvs key, d')" "db_map E d' = db_map E d" "coherent E (bt_prefix t) d'"
    using TryGet_repr [of C E d "{}" "bt_prefix t" l "bt_root t" None kvs key] R by (auto simp: root_repr_def)
  then have "root_repr E C (bt_prefix t) l (bt_root t) kvs Map.empty d'" using R by (simp add: root_repr_def)
  then show ?thesis using d'(1) assms(1) l by (auto simp: QLBTree_Get_def tree_inv_def)
qed


text \<open>A tree opened on a store without nodes of its own is empty.\<close>

lemma QLBTree_new_inv:
  assumes S: "sizes_ok C p K" and coh: "coherent E p d" and none: "db_map E d (p @ ''ROOT'') = None"
  shows "\<exists>t d'. QLBTree_new E d p = (t, d') \<and> bt_prefix t = p \<and> tree_inv E C K 0 t d' []"
proof -
  obtain d' where d': "DB_Get_chunk E d (p @ ''ROOT'') = (None, d')" "coherent E p d'"
    using DB_Get_chunk_coherent [OF coh, of "''ROOT''"] none by metis
  have leaf: "is_leaf C EmptyMap None []"
    using leaf_Encode(1) [OF S, of "[]" "[]" None] by (simp add: entries_ok_def EmptyMap_def QLBTreeMap_Encode_def)
  then have "tree_inv E C K 0 \<lparr>bt_prefix = p, bt_root = EmptyMap, bt_delta = Map.empty\<rparr> d' []"
    using d'(2) by (simp add: tree_inv_def root_repr_def entries_ok_def strict_def)
  then show ?thesis using d'(1) by (simp add: QLBTree_new_def Chunk_empty_def)
qed

text \<open>Successive calls of the multi-key \<open>Set\<close>.\<close>

fun set_batches :: "'s ext \<Rightarrow> BPlusConfig \<Rightarrow> QLBTree \<Rightarrow> entries list \<Rightarrow> 's DB \<Rightarrow> (QLBTree \<times> 's DB) option" where
  "set_batches E C t [] d = Some (t, d)"
| "set_batches E C t (b # bs) d = Option.bind (QLBTree_SetMany E C t (map fst b) (map snd b) d)
     (\<lambda>(ok, t', d'). set_batches E C t' bs d')"

lemma set_batches_inv:
  assumes E: "ext_ok E"
  shows "sizes_ok C (bt_prefix t) K \<Longrightarrow> tree_inv E C K n t d kvs \<Longrightarrow> entries_ok K (concat bs) \<Longrightarrow> n + length (concat bs) < 2 ^ 32 \<Longrightarrow>
    \<exists>t' d'. set_batches E C t bs d = Some (t', d') \<and> tree_inv E C K (n + length (concat bs)) t' d' (kv_inserts kvs (concat bs))"
proof (induction bs arbitrary: t d n kvs)
  case Nil
  then show ?case by simp
next
  case (Cons b bs)
  have b: "entries_ok K b" "entries_ok K (concat bs)" using Cons.prems(3) by simp_all
  obtain t1 d1 where s: "QLBTree_SetMany E C t (map fst b) (map snd b) d = Some (b \<noteq> [], t1, d1)" "bt_prefix t1 = bt_prefix t"
      "tree_inv E C K (n + length b) t1 d1 (kv_inserts kvs b)"
    using SetMany_inv [OF E Cons.prems(1,2) b(1)] Cons.prems(4) by auto
  obtain t' d' where "set_batches E C t1 bs d1 = Some (t', d')"
      "tree_inv E C K (n + length b + length (concat bs)) t' d' (kv_inserts (kv_inserts kvs b) (concat bs))"
    using Cons.IH [OF _ s(3) b(2)] Cons.prems(1,4) s(2) by auto
  then show ?case using s(1) by (simp add: add.assoc)
qed

lemma lookup_kv_inserts:
  "strict kvs \<Longrightarrow> map_of (kv_inserts kvs new) = map_of kvs ++ map_of (rev new)"
proof (induction new arbitrary: kvs)
  case Nil
  then show ?case by simp
next
  case (Cons e new)
  obtain k v where e: "e = (k, v)" by (cases e)
  have "map_of (kv_inserts (kv_insert k v kvs) new) = (map_of kvs)(k \<mapsto> v) ++ map_of (rev new)"
    unfolding Cons.IH [OF strict_kv_insert [OF Cons.prems]] map_of_kv_insert [OF Cons.prems] ..
  then show ?case by (simp add: e map_add_def fun_eq_iff split: option.splits)
qed

text \<open>
  C4: the index tree of QLDB is a map.  After any sequence of multi-key \<open>Set\<close> calls on a fresh tree,
  each of which returns, \<open>Get\<close> returns for every key the value most recently set, through any
  number of node splits and delta commits, and the empty string for a key that was never set.
\<close>

theorem QLBTree_is_map:
  assumes "ext_ok E" "sizes_ok C p K" "coherent E p d" "db_map E d (p @ ''ROOT'') = None"
    and "entries_ok K (concat bs)" "length (concat bs) < 2 ^ 32"
  shows "\<exists>t d' d''. set_batches E C (fst (QLBTree_new E d p)) bs (snd (QLBTree_new E d p)) = Some (t, d') \<and>
    QLBTree_Get E t key d' = Some (case map_of (rev (concat bs)) key of None \<Rightarrow> [] | Some v \<Rightarrow> v, d'')"
proof -
  obtain t0 d0 where n: "QLBTree_new E d p = (t0, d0)" "bt_prefix t0 = p" "tree_inv E C K 0 t0 d0 []"
    using QLBTree_new_inv [OF assms(2-4)] by blast
  obtain t d' where s: "set_batches E C t0 bs d0 = Some (t, d')" "tree_inv E C K (length (concat bs)) t d' (kv_inserts [] (concat bs))"
    using set_batches_inv [OF assms(1) _ n(3) assms(5)] assms(2,6) n(2) by auto
  obtain d'' where "QLBTree_Get E t key d' = Some (lookup (kv_inserts [] (concat bs)) key, d'')"
    using Get_inv [OF s(2) assms(6)] by blast
  then show ?thesis using s(1) n(1) lookup_kv_inserts [of "[]" "concat bs"] by (auto simp: lookup_def strict_def)
qed

theorem QLBTree_is_map_witness:
  "\<exists>t d' d''. set_batches map_ext BPlusConfig_default (fst (QLBTree_new map_ext map_db ''I_''))
      [[(''a'', ''1''), (''b'', ''2'')], [(''a'', ''3'')]] (snd (QLBTree_new map_ext map_db ''I_'')) = Some (t, d') \<and>
    QLBTree_Get map_ext t ''a'' d' = Some (''3'', d'')"
  using QLBTree_is_map [OF ext_ok_map_ext, of BPlusConfig_default "''I_''" 100 map_db "[[(''a'', ''1''), (''b'', ''2'')], [(''a'', ''3'')]]" "''a''"]
  by (simp add: sizes_ok_def BPlusConfig_default_def coherent_def DB_Open_def map_ext_def entries_ok_def entry_sized_def)

end
