(* ===== verification/QL_Ledger.thy ===== *)
theory QL_Ledger
  imports QL_DB QL_BTree_Correct
begin

text \<open>
  QLDB as a whole (\<open>ledger/qldb/qldb.cc\<close>): the two index trees, the block trees, the digest tree and the
  block records live in one store under different keys.  Here is what each operation leaves alone,
  the invariant of a ledger across \<open>QLDB::Set\<close>, and what clients get from it: the digest, document
  proofs that verify against it, and the latest version of every document.
\<close>

section \<open>Keys outside a tree\<close>

text \<open>\<open>outside E p d d'\<close>: store and cache differ at most below the prefix \<open>p\<close>.\<close>

definition outside :: "'s ext \<Rightarrow> string \<Rightarrow> 's DB \<Rightarrow> 's DB \<Rightarrow> bool" where
  "outside E p d d' \<longleftrightarrow> (\<forall>x. (\<nexists>s. x = p @ s) \<longrightarrow> db_map E d' x = db_map E d x \<and> m_cache d' x = m_cache d x)"

lemma outside_refl [simp]: "outside E p d d"
  by (simp add: outside_def)

lemma outside_trans: "outside E p d d' \<Longrightarrow> outside E p d' d'' \<Longrightarrow> outside E p d d''"
  by (simp add: outside_def)

lemma outside_Get: "outside E p d (snd (DB_Get_chunk E d (p @ s)))"
  by (auto simp: outside_def DB_Get_chunk_def Let_def split: option.splits)

lemma outside_Put: "ext_ok E \<Longrightarrow> outside E p d (snd (DB_Put_chunk E d (p @ s) c))"
  by (auto simp: outside_def DB_Put_chunk_def Let_def case_prod_unfold rocks_get_put)

lemma child_key_prefix: "\<exists>s. child_key p meta i = p @ s"
  by (simp add: child_key_def node_key_def)

lemma TryGet_outside:
  assumes "TryGet E p node key d = Some r"
  shows "outside E p d (snd r)"
proof (rule TryGet.raw_induct [where P = "\<lambda>E p node key d r. outside E p d (snd r)"], goal_cases)
  case (1 TryGet E p node key d r)
  obtain s where s: "child_key p (QLBTreeMeta_of node) (meta_index (QLBTreeMeta_of node) key) = p @ s" using child_key_prefix by metis
  show ?case
    using 1(2) outside_Get [of E p d s] 1(1) [of E p "fst (DB_Get_chunk E d (p @ s))" key "snd (DB_Get_chunk E d (p @ s))" r]
    by (auto simp: Let_def case_prod_unfold s split: if_splits intro: outside_trans)
qed (rule assms)

lemma Insert_outside:
  assumes "Insert E C p node key v m d = Some r"
  shows "outside E p d (snd (snd r))"
proof (rule Insert.raw_induct [where P = "\<lambda>E C p node key v m d r. outside E p d (snd (snd r))"], goal_cases)
  case (1 Insert E C p node key v m d r)
  obtain s where s: "child_key p (QLBTreeMeta_of node) (meta_index (QLBTreeMeta_of node) key) = p @ s" using child_key_prefix by metis
  have ld: "outside E p d (snd (LoadChild E m d (p @ s)))"
    using outside_Get [of E p d s] by (simp add: LoadChild_def Let_def)
  show ?case
    using 1(2) ld 1(1) [of E C p "fst (LoadChild E m d (p @ s))" key v m "snd (LoadChild E m d (p @ s))"]
    by (auto simp: Let_def case_prod_unfold s bind_eq_Some_conv split: if_splits intro: outside_trans)
qed (rule assms)

lemma Commit_outside:
  assumes "Commit E p m pending d = Some d'"
  shows "ext_ok E \<longrightarrow> (\<forall>x\<in>set pending. snd x \<or> (\<exists>s. fst x = p @ s)) \<longrightarrow> outside E p d d'"
proof (rule Commit.raw_induct [where P = "\<lambda>E p m pending d d'. ext_ok E \<longrightarrow> (\<forall>x\<in>set pending. snd x \<or> (\<exists>s. fst x = p @ s)) \<longrightarrow> outside E p d d'"], goal_cases)
  case (1 Commit E p m pending d d')
  show ?case
  proof (cases pending)
    case Nil
    then show ?thesis using 1(2) by simp
  next
    case (Cons x rest)
    obtain nid isroot where x: "x = (nid, isroot)" by (cases x)
    show ?thesis
    proof (intro impI, cases "Chunk_empty (Delta_GetChunk m nid)")
      case True
      assume "ext_ok E" "\<forall>x\<in>set pending. snd x \<or> (\<exists>s. fst x = p @ s)"
      then show "outside E p d d'" using True 1(1) [of E p m rest d d'] 1(2) Cons x by (auto simp: Let_def)
    next
      case False
      assume E: "ext_ok E" and ok: "\<forall>x\<in>set pending. snd x \<or> (\<exists>s. fst x = p @ s)"
      let ?node = "Delta_GetChunk m nid" and ?k = "if isroot then p @ ''ROOT'' else nid"
      let ?new = "if chunk_type ?node = kMeta then map (\<lambda>c. (c, False)) (commit_children p (QLBTreeMeta_of ?node)) else []"
      obtain s where k: "?k = p @ s" using ok Cons x by (cases isroot) auto
      have "Commit E p m (?new @ rest) (snd (DB_Put_chunk E d (p @ s) ?node)) = Some d'"
        using 1(2) False Cons x k by (simp add: Let_def)
      moreover have "\<forall>x\<in>set (?new @ rest). snd x \<or> (\<exists>s. fst x = p @ s)"
        using ok Cons by (auto simp: commit_children_def child_key_prefix)
      ultimately have "outside E p (snd (DB_Put_chunk E d (p @ s) ?node)) d'" using 1(1) E by blast
      then show "outside E p d d'" using outside_Put [OF E] outside_trans by blast
    qed
  qed
qed (rule assms)

lemma set_loop_outside: "set_loop E C p root rid kvs m d = Some r \<Longrightarrow> outside E p d (snd (snd r))"
proof (induction kvs arbitrary: root rid m d)
  case (Cons kv kvs)
  obtain k v where kv: "kv = (k, v)" by (cases kv)
  then obtain r1 where "Insert E C p root k v m d = Some r1" using Cons.prems by (auto simp: bind_eq_Some_conv)
  then show ?case using Cons.prems Insert_outside [of E C p root k v m d r1]
    by (auto simp: kv Let_def case_prod_unfold dest!: Cons.IH intro: outside_trans)
qed auto

lemma SetMany_outside:
  assumes "ext_ok E" "QLBTree_SetMany E C t ks vs d = Some (b, t', d')"
  shows "outside E (bt_prefix t) d d'"
proof (cases "ks = []")
  case True
  then show ?thesis using assms(2) by (simp add: QLBTree_SetMany_def)
next
  case False
  then obtain rid m d1 d2 where "set_loop E C (bt_prefix t) (bt_root t) [] (zip ks vs) (bt_delta t) d = Some (rid, m, d1)"
      "Commit E (bt_prefix t) m [(rid, True)] d1 = Some d2" "d' = snd (DB_Get_chunk E d2 (bt_prefix t @ ''ROOT''))"
    using assms(2) by (simp add: QLBTree_SetMany_def bind_eq_Some_conv Let_def case_prod_unfold split: if_splits) (metis prod.collapse)
  note s = this
  have "outside E (bt_prefix t) d d1" using set_loop_outside [OF s(1)] by simp
  moreover have "outside E (bt_prefix t) d1 d2" using Commit_outside [OF s(2)] assms(1) by simp
  ultimately show ?thesis unfolding s(3) using outside_Get outside_trans by blast
qed

text \<open>A tree whose keys are not touched keeps its entries.\<close>

lemma tree_inv_frame:
  assumes I: "tree_inv E C K n t d kvs"
    and same: "\<And>s. db_map E d' (bt_prefix t @ s) = db_map E d (bt_prefix t @ s)" "\<And>s. m_cache d' (bt_prefix t @ s) = m_cache d (bt_prefix t @ s)"
  shows "tree_inv E C K n t d' kvs"
proof -
  obtain l where l: "l \<le> n" and R: "root_repr E C (bt_prefix t) l (bt_root t) kvs Map.empty d" using I by (auto simp: tree_inv_def)
  have "repr C (db_map E d) {} (bt_prefix t) l (bt_root t) None kvs" using R by (simp add: root_repr_def)
  then have "repr C (db_map E d') {} (bt_prefix t) l (bt_root t) None kvs"
    by (rule repr_cong_gen) (simp add: node_key_def same(1))
  then have "root_repr E C (bt_prefix t) l (bt_root t) kvs Map.empty d'" using R same by (simp add: root_repr_def coherent_def)
  then show ?thesis using I l by (auto simp: tree_inv_def)
qed

section \<open>The ledger as a client sees it\<close>

text \<open>
  The abstract ledger: the blocks with their documents and hash leaves, the latest document of every
  key, and the document of every key and version (under the key of the history tree).
\<close>

record block =
  b_docs :: "Document list"
  b_leaves :: "string list"

record ledger =
  l_blocks :: "block list"
  l_latest :: "string \<rightharpoonup> Document"
  l_history :: "string \<rightharpoonup> Document"

type_synonym request = "nat \<times> string \<times> (string \<times> string) list"

abbreviation doc_bytes :: "Document \<Rightarrow> string" where
  "doc_bytes d \<equiv> head (doc_chunk d)"

abbreviation block_root :: "'s ext \<Rightarrow> block \<Rightarrow> string" where
  "block_root E b \<equiv> tree_root E (b_leaves b)"

definition next_version :: "(string \<rightharpoonup> Document) \<Rightarrow> string \<Rightarrow> nat" where
  "next_version latest k = (case latest k of None \<Rightarrow> 0 | Some d \<Rightarrow> version (doc_meta d) + 1)"

definition version_key :: "(string \<rightharpoonup> Document) \<Rightarrow> string \<Rightarrow> string" where
  "version_key latest k = k @ ''|'' @ to_string (next_version latest k)"

fun new_docs :: "string \<Rightarrow> nat \<Rightarrow> nat \<Rightarrow> (string \<rightharpoonup> Document) \<Rightarrow> nat \<Rightarrow> (string \<times> string) list \<Rightarrow> Document list" where
  "new_docs name n now latest i [] = []"
| "new_docs name n now latest i ((k, v) # kvs) =
     \<lparr>doc_addr = \<lparr>ledger_name = name, seq_no = n\<rparr>, doc_data = \<lparr>data_key = k, data_val = v\<rparr>,
      doc_meta = \<lparr>doc_seq = i, version = next_version latest k, md_time = now\<rparr>\<rparr> # new_docs name n now latest (i + 1) kvs"

definition prev_hash_of :: "'s ext \<Rightarrow> block list \<Rightarrow> Hash" where
  "prev_hash_of E bs = (if bs = [] then ComputeFrom E ''0'' else Some (block_root E (last bs)))"

definition ledger_set :: "'s ext \<Rightarrow> string \<Rightarrow> request \<Rightarrow> ledger \<Rightarrow> ledger" where
  "ledger_set E name r L = (case r of (now, junk, kvs) \<Rightarrow>
     let n = length (l_blocks L); docs = new_docs name n now (l_latest L) 0 kvs;
         leaves = map hval (block_leaves E name now junk (prev_hash_of E (l_blocks L)) (map doc_chunk docs))
     in \<lparr>l_blocks = l_blocks L @ [\<lparr>b_docs = docs, b_leaves = leaves\<rparr>],
         l_latest = l_latest L ++ map_of (rev (zip (map fst kvs) docs)),
         l_history = l_history L ++ map_of (rev (zip (map (\<lambda>e. version_key (l_latest L) (fst e)) kvs) docs))\<rparr>)"

section \<open>What the store holds for a ledger\<close>

definition name_ok :: "string \<Rightarrow> bool" where
  "name_ok name \<longleftrightarrow> CHR ''|'' \<notin> set name \<and> take 10 name \<noteq> ''COMMITTED_'' \<and> take 8 name \<noteq> ''HISTORY_''"

abbreviation block_key :: "string \<Rightarrow> nat \<Rightarrow> string" where
  "block_key name b \<equiv> name @ ''|'' @ to_string b"

definition ledger_keys :: "string \<Rightarrow> string set" where
  "ledger_keys name = {name, ''digest_'' @ name} \<union> range (block_key name) \<union> {block_node_key name b k j | b k j. True} \<union>
     {digest_node_key name k j | k j. True}"

definition block_stored :: "'s ext \<Rightarrow> (string \<rightharpoonup> string) \<Rightarrow> (string \<rightharpoonup> Chunk) \<Rightarrow> string \<Rightarrow> nat \<Rightarrow> block \<Rightarrow> bool" where
  "block_stored E m mc name n b \<longleftrightarrow> hashes20 (b_leaves b) \<and> list_all Document_ok (b_docs b) \<and>
     length (b_leaves b) = length (b_docs b) + 3 \<and> (\<forall>i<length (b_docs b). b_leaves b ! i = hval (chunk_hash E (doc_chunk (b_docs b ! i)))) \<and>
     nodes_stored E m (block_node_key name n) (b_leaves b) \<and>
     (mc (block_key name n) = None \<or> mc (block_key name n) = Some (m (block_key name n))) \<and>
     (\<exists>s. m (block_key name n) = Some s \<and> length (blk_documents (QLBlock_of (Some s))) = length (b_docs b) \<and>
       (\<forall>i<length (b_docs b). Document_of (blk_documents (QLBlock_of (Some s)) ! i) = b_docs b ! i))"

definition ledger_stored :: "'s ext \<Rightarrow> (string \<rightharpoonup> string) \<Rightarrow> (string \<rightharpoonup> Chunk) \<Rightarrow> string \<Rightarrow> block list \<Rightarrow> bool" where
  "ledger_stored E m mc name bs \<longleftrightarrow> (\<forall>n<length bs. block_stored E m mc name n (bs ! n)) \<and>
     nodes_stored E m (digest_node_key name) (map (block_root E) bs) \<and>
     (if bs = [] then m name = None else
        m name = Some (to_string (length bs - 1) @ ''|'' @ ToBase32 (Some (block_root E (last bs)))) \<and>
        m (''digest_'' @ name) = Some (ToBase32 (Some (tree_root E (map (block_root E) bs)))))"

lemma ledger_keys_mem [simp]:
  "name \<in> ledger_keys name" "''digest_'' @ name \<in> ledger_keys name" "block_key name b \<in> ledger_keys name"
  "block_node_key name b k j \<in> ledger_keys name" "digest_node_key name k j \<in> ledger_keys name"
  by (auto simp: ledger_keys_def)

lemma stem_prefix:
  assumes "name @ y = p @ s" "y = [] \<or> hd y = CHR ''|''" "CHR ''|'' \<notin> set p" "CHR ''|'' \<notin> set name"
  shows "take (length p) name = p"
proof -
  let ?P = "\<lambda>c. c \<noteq> CHR ''|''"
  have all: "takeWhile ?P (xs @ ys) = xs @ takeWhile ?P ys" if "CHR ''|'' \<notin> set xs" for xs ys
    using that by (intro takeWhile_append2) auto
  have "takeWhile ?P y = []" using assms(2) by (cases y) auto
  then have "name = p @ takeWhile ?P s" using arg_cong [OF assms(1), of "takeWhile ?P"] all assms(3,4) by simp
  then show ?thesis by simp
qed

lemma tree_keys:
  assumes ok: "name_ok name" and x: "x \<in> ledger_keys name" and p: "p = ''COMMITTED_'' \<or> p = ''HISTORY_''"
  shows "x \<noteq> p @ s"
proof
  assume eq: "x = p @ s"
  have bar: "CHR ''|'' \<notin> set p" using p by auto
  consider (name) y where "x = name @ y" "y = [] \<or> hd y = CHR ''|''" | (other) "hd x = CHR ''d'' \<or> hd x = CHR ''p''"
    using x by (auto simp: ledger_keys_def block_node_key_def digest_node_key_def)
  then show False
  proof cases
    case name
    then have "take (length p) name = p" using stem_prefix [of name y p s] eq bar ok by (auto simp: name_ok_def)
    moreover have "length ''COMMITTED_'' = 10" "length ''HISTORY_'' = 8" by simp_all
    ultimately show False using p ok unfolding name_ok_def by metis
  next
    case other
    then show False using eq p by auto
  qed
qed

lemma nodes_stored_cong:
  "nodes_stored E m key xs \<Longrightarrow> (\<And>k j. m' (key k j) = m (key k j)) \<Longrightarrow> nodes_stored E m' key xs"
  by (simp add: nodes_stored_def)

lemma block_stored_cong:
  assumes "block_stored E m mc name n b" "m' (block_key name n) = m (block_key name n)" "mc' (block_key name n) = mc (block_key name n)"
    and "\<And>k j. m' (block_node_key name n k j) = m (block_node_key name n k j)"
  shows "block_stored E m' mc' name n b"
  using assms nodes_stored_cong [of E m "block_node_key name n" "b_leaves b" m'] by (simp add: block_stored_def)

lemma ledger_stored_cong:
  assumes "ledger_stored E m mc name bs" "\<And>x. x \<in> ledger_keys name \<Longrightarrow> m' x = m x \<and> mc' x = mc x"
  shows "ledger_stored E m' mc' name bs"
proof -
  have k: "m' name = m name" "m' (''digest_'' @ name) = m (''digest_'' @ name)"
    "\<And>k j. m' (digest_node_key name k j) = m (digest_node_key name k j)"
    "\<And>n. m' (block_key name n) = m (block_key name n)" "\<And>n. mc' (block_key name n) = mc (block_key name n)"
    "\<And>n k j. m' (block_node_key name n k j) = m (block_node_key name n k j)"
    using assms(2) [OF ledger_keys_mem(1)] assms(2) [OF ledger_keys_mem(2)] assms(2) [OF ledger_keys_mem(3)]
      assms(2) [OF ledger_keys_mem(4)] assms(2) [OF ledger_keys_mem(5)] by blast+
  have "nodes_stored E m' (digest_node_key name) (map (block_root E) bs)"
    using assms(1) nodes_stored_cong [of E m "digest_node_key name" _ m'] k(3) by (simp add: ledger_stored_def)
  moreover have "\<forall>n<length bs. block_stored E m' mc' name n (bs ! n)"
    using assms(1) k(4,5,6) block_stored_cong [of E m mc name _ _ m' mc'] by (simp add: ledger_stored_def)
  ultimately show ?thesis using assms(1) k(1,2) by (cases "bs = []") (simp_all add: ledger_stored_def)
qed

lemma ledger_stored_outside:
  assumes "ledger_stored E (db_map E d) (m_cache d) name bs" "name_ok name" "outside E p d d'" "p = ''COMMITTED_'' \<or> p = ''HISTORY_''"
  shows "ledger_stored E (db_map E d') (m_cache d') name bs"
proof (rule ledger_stored_cong [OF assms(1)])
  fix x assume x: "x \<in> ledger_keys name"
  have "\<nexists>s. x = p @ s" using tree_keys [OF assms(2) x assms(4)] by blast
  then show "db_map E d' x = db_map E d x \<and> m_cache d' x = m_cache d x" using assms(3) by (simp add: outside_def)
qed

section \<open>Appending a block\<close>

lemma key_classes:
  assumes "CHR ''|'' \<notin> set name"
  shows "block_node_key name b k j \<noteq> digest_node_key name k' j'" "block_node_key name b k j \<noteq> ''digest_'' @ name"
    "block_node_key name b k j \<noteq> block_key name b'" "block_node_key name b k j \<noteq> name"
    "digest_node_key name k j \<noteq> ''digest_'' @ name" "digest_node_key name k j \<noteq> block_key name b" "digest_node_key name k j \<noteq> name"
    "''digest_'' @ name \<noteq> block_key name b" "''digest_'' @ name \<noteq> name" "block_key name b \<noteq> name"
    "block_node_key name b k j = block_node_key name b' k' j' \<longleftrightarrow> b = b' \<and> k = k' \<and> j = j'"
    "block_key name b = block_key name b' \<longleftrightarrow> b = b'"
proof -
  show "block_node_key name b k j \<noteq> digest_node_key name k' j'"
  proof
    assume "block_node_key name b k j = digest_node_key name k' j'"
    then have "to_string k @ ''|'' @ to_string j = to_string j'" by (simp add: block_node_key_def digest_node_key_def sep_unique)
    then have "CHR ''|'' \<in> set (to_string j')" by (metis append_Cons in_set_conv_decomp)
    then show False by simp
  qed
  have len: "name \<noteq> x # y @ name" for x y by (metis append_Cons append_self_conv2 list.distinct(1))
  have bar: "proof_str @ name @ ''|'' @ z \<noteq> block_key name b" if "proof_str = ''proof_''" for proof_str z b
    using sep_unique [of "CHR ''|''" "proof_str @ name" name] assms len that by auto
  show "block_node_key name b k j \<noteq> block_key name b'" "digest_node_key name k j \<noteq> block_key name b"
    using bar [OF refl] unfolding block_node_key_def digest_node_key_def by (metis append.assoc)+
  show "''digest_'' @ name \<noteq> block_key name b"
  proof
    assume "''digest_'' @ name = block_key name b"
    then have "CHR ''|'' \<in> set (''digest_'' @ name)" by (metis append_Cons in_set_conv_decomp)
    then show False using assms by simp
  qed
  show "block_node_key name b k j \<noteq> name" "digest_node_key name k j \<noteq> name" "block_key name b \<noteq> name"
    "''digest_'' @ name \<noteq> name"
    by (auto simp: block_node_key_def digest_node_key_def dest: arg_cong [where f = length])
  show "block_node_key name b k j \<noteq> ''digest_'' @ name" "digest_node_key name k j \<noteq> ''digest_'' @ name"
    by (simp_all add: block_node_key_def digest_node_key_def)
  show "block_node_key name b k j = block_node_key name b' k' j' \<longleftrightarrow> b = b' \<and> k = k' \<and> j = j'"
    "block_key name b = block_key name b' \<longleftrightarrow> b = b'"
    by (auto simp: block_node_key_def sep_unique)
qed

lemma put_all_mono: "ext_ok E \<Longrightarrow> (\<And>x. x \<in> fst ` set kvs \<Longrightarrow> x \<noteq> y) \<Longrightarrow> db_map E (put_all E d kvs) y = db_map E d y"
  by (rule put_all_other) auto

lemma DB_Put_chunk_cache [simp]: "m_cache (snd (DB_Put_chunk E d k c)) = (m_cache d)(k := None)"
  by (simp add: DB_Put_chunk_def Let_def case_prod_unfold)

definition block_fits :: "string \<Rightarrow> nat \<Rightarrow> Document list \<Rightarrow> bool" where
  "block_fits name now docs \<longleftrightarrow> list_all Document_ok docs \<and> now < 2 ^ 64 \<and> length docs < 2 ^ 32 \<and> length name < 2 ^ 32 \<and>
     length (concat (map doc_bytes docs)) + length name + 100 < 2 ^ 32"

lemma block_record:
  assumes "block_fits name now docs" "length bh = 20" "length (hval ph) = 20" "n < 2 ^ 64"
  defines "c \<equiv> QLBlock_Encode \<lparr>ledger_name = name, seq_no = n\<rparr> \<lparr>stmt_type = 0, stmt_time = now\<rparr> now (Some bh) ph (map doc_chunk docs)"
  shows "length (blk_documents (QLBlock_of (Some (chunk_bytes c)))) = length docs"
    "\<forall>i<length docs. Document_of (blk_documents (QLBlock_of (Some (chunk_bytes c))) ! i) = docs ! i"
proof -
  have ok: "list_all Document_ok docs" using assms(1) by (simp add: block_fits_def)
  have bytes: "concat (map chunk_bytes (map doc_chunk docs)) = concat (map doc_bytes docs)"
    using ok by (induction docs) (auto simp: doc_chunk_bytes)
  have "chunk_bytes c = head c"
    unfolding c_def QLBlock_Encode_def bytes using assms(1-3) by (intro chunk_bytes_new) (simp add: block_fits_def)
  then have "Some (chunk_bytes c) = c" unfolding c_def QLBlock_Encode_def Chunk_new_def by (simp add: head_def)
  then show "length (blk_documents (QLBlock_of (Some (chunk_bytes c)))) = length docs"
    "\<forall>i<length docs. Document_of (blk_documents (QLBlock_of (Some (chunk_bytes c))) ! i) = docs ! i"
    using QLBlock_of_Encode [of "\<lparr>ledger_name = name, seq_no = n\<rparr>" now "\<lparr>stmt_type = 0, stmt_time = now\<rparr>" "Some bh" ph docs] assms
    by (auto simp: addr_ok_def block_fits_def)
qed

lemma hashes20_root: "ext_ok E \<Longrightarrow> hashes20 xs \<Longrightarrow> xs \<noteq> [] \<Longrightarrow> length (tree_root E xs) = 20"
  using tree_level_20 [of E xs "tree_root E xs" "height (length xs)"] tree_level_height [of xs E] by (simp add: hashes20_def)

text \<open>The same writes as one list, sorted by what they are.\<close>

lemma append_block_writes:
  fixes now :: nat and docs :: "Chunk list"
  assumes E: "ext_ok E" and nm: "CHR ''|'' \<notin> set name" and L: "nodes_stored E (db_map E d) (digest_node_key name) (map (block_root E) bs)"
    and lv: "hashes20 (b_leaves b)" "b_leaves b \<noteq> []" and roots: "hashes20 (map (block_root E) bs)"
  defines "d' \<equiv> append_block E name (length bs) now (prev_hash_of E bs) (map Some (b_leaves b)) docs d"
    and "c \<equiv> QLBlock_Encode \<lparr>ledger_name = name, seq_no = length bs\<rparr> \<lparr>stmt_type = 0, stmt_time = now\<rparr> now
          (Some (block_root E b)) (prev_hash_of E bs) docs"
    and "r \<equiv> tree_root E (map (block_root E) (bs @ [b]))"
  obtains p1 p2 where "\<forall>x\<in>fst ` set p1. \<exists>k j. x = block_node_key name (length bs) k j" "\<forall>x\<in>fst ` set p2. \<exists>k j. x = digest_node_key name k j"
    "nodes_stored E (db_map E (put_all E d p1)) (block_node_key name (length bs)) (b_leaves b)"
    "nodes_stored E (db_map E (put_all E (put_all E d p1) p2)) (digest_node_key name) (map (block_root E) (bs @ [b]))"
    "db_map E d' = (db_map E (put_all E (put_all E d p1) p2))(''digest_'' @ name \<mapsto> ToBase32 (Some r), block_key name (length bs) \<mapsto> chunk_bytes c,
       name \<mapsto> to_string (length bs) @ ''|'' @ ToBase32 (Some (block_root E b)))"
    "m_cache d' = (m_cache d)(block_key name (length bs) := None)"
proof -
  obtain p1 where p1: "calculateBlockHash E d (map Some (b_leaves b)) name (length bs) = (Some (block_root E b), put_all E d p1)"
      "nodes_stored E (db_map E (put_all E d p1)) (block_node_key name (length bs)) (b_leaves b)"
      "\<forall>x\<in>fst ` set p1. \<exists>k j. x = block_node_key name (length bs) k j"
    using calculateBlockHash_spec [OF E lv, of d name "length bs"] by blast
  have same: "db_map E (put_all E d p1) (digest_node_key name k j) = db_map E d (digest_node_key name k j)" for k j
    using p1(3) key_classes(1) [OF nm] by (intro put_all_mono [OF E]) metis
  have st: "nodes_stored E (db_map E (put_all E d p1)) (digest_node_key name) (map (block_root E) bs)"
    using nodes_stored_cong [OF L, of "db_map E (put_all E d p1)"] same by blast
  have r20: "length (block_root E b) = 20" using hashes20_root [OF E lv] .
  have h20: "hashes20 (map (block_root E) bs @ [block_root E b])" using roots r20 by (auto simp: hashes20_def)
  have prev: "hval (prev_hash_of E bs) = last (map (block_root E) bs)" if "map (block_root E) bs \<noteq> []"
    using that roots by (simp add: prev_hash_of_def last_map hashes20_def)
  obtain p2 where p2: "calculateDigest E (put_all E d p1) (Some (block_root E b)) (prev_hash_of E bs) name (length bs) =
        put_all E (put_all E d p1) (p2 @ [(''digest_'' @ name, ToBase32 (Some r))])"
      "\<forall>x\<in>fst ` set p2. \<exists>k j. x = digest_node_key name k j"
      "nodes_stored E (db_map E (put_all E (put_all E d p1) p2)) (digest_node_key name) (map (block_root E) (bs @ [b]))"
    using calculateDigest_spec [OF E h20 st prev, of "Some (block_root E b)"] r20 by (auto simp: r_def)
  have "db_map E d' = (db_map E (put_all E (put_all E d p1) p2))(''digest_'' @ name \<mapsto> ToBase32 (Some r), block_key name (length bs) \<mapsto> chunk_bytes c,
       name \<mapsto> to_string (length bs) @ ''|'' @ ToBase32 (Some (block_root E b)))"
    "m_cache d' = (m_cache d)(block_key name (length bs) := None)"
    by (simp_all add: d'_def append_block_def p1(1) p2(1) Let_def E put_all_append c_def)
  then show ?thesis using that p1(2,3) p2(2,3) by blast
qed

lemma ledger_roots:
  assumes "ext_ok E" "ledger_stored E m mc name bs"
  shows "hashes20 (map (block_root E) bs)"
proof -
  have "length (block_root E b) = 20" if "block_stored E m mc name n b" for n b
    using that assms(1) by (intro hashes20_root) (auto simp: block_stored_def)
  moreover have "\<forall>n<length bs. block_stored E m mc name n (bs ! n)" using assms(2) by (simp add: ledger_stored_def)
  ultimately have "\<forall>n<length bs. length (map (block_root E) bs ! n) = 20" by auto
  then show ?thesis by (simp add: hashes20_def all_set_conv_all_nth)
qed

lemma append_block_stored:
  assumes E: "ext_ok E" and nm: "name_ok name" and L: "ledger_stored E (db_map E d) (m_cache d) name bs"
    and fits: "block_fits name now (b_docs b)" and n: "length bs < 2 ^ 64" and lv: "hashes20 (b_leaves b)" "length (b_leaves b) = length (b_docs b) + 3"
      "\<forall>i<length (b_docs b). b_leaves b ! i = hval (chunk_hash E (doc_chunk (b_docs b ! i)))"
  defines "d' \<equiv> append_block E name (length bs) now (prev_hash_of E bs) (map Some (b_leaves b)) (map doc_chunk (b_docs b)) d"
  shows "ledger_stored E (db_map E d') (m_cache d') name (bs @ [b])"
    "x \<notin> ledger_keys name \<Longrightarrow> db_map E d' x = db_map E d x \<and> m_cache d' x = m_cache d x"
proof -
  have bar: "CHR ''|'' \<notin> set name" using nm by (simp add: name_ok_def)
  note K = key_classes [OF bar]
  have ne: "b_leaves b \<noteq> []" using lv(2) by auto
  have roots: "hashes20 (map (block_root E) bs)" using ledger_roots [OF E L] .
  have stD: "nodes_stored E (db_map E d) (digest_node_key name) (map (block_root E) bs)" using L by (simp add: ledger_stored_def)
  let ?c = "QLBlock_Encode \<lparr>ledger_name = name, seq_no = length bs\<rparr> \<lparr>stmt_type = 0, stmt_time = now\<rparr> now
          (Some (block_root E b)) (prev_hash_of E bs) (map doc_chunk (b_docs b))"
  obtain p1 p2 where p: "\<forall>x\<in>fst ` set p1. \<exists>k j. x = block_node_key name (length bs) k j" "\<forall>x\<in>fst ` set p2. \<exists>k j. x = digest_node_key name k j"
      and st: "nodes_stored E (db_map E (put_all E d p1)) (block_node_key name (length bs)) (b_leaves b)"
      "nodes_stored E (db_map E (put_all E (put_all E d p1) p2)) (digest_node_key name) (map (block_root E) (bs @ [b]))"
      and M: "db_map E d' = (db_map E (put_all E (put_all E d p1) p2))(''digest_'' @ name \<mapsto> ToBase32 (Some (tree_root E (map (block_root E) (bs @ [b])))),
        block_key name (length bs) \<mapsto> chunk_bytes ?c, name \<mapsto> to_string (length bs) @ ''|'' @ ToBase32 (Some (block_root E b)))"
      and C: "m_cache d' = (m_cache d)(block_key name (length bs) := None)"
    using append_block_writes [OF E bar stD lv(1) ne roots, of now "map doc_chunk (b_docs b)"] unfolding d'_def by metis
  have f1: "db_map E (put_all E d p1) y = db_map E d y" if "\<And>k j. y \<noteq> block_node_key name (length bs) k j" for y
    using p(1) that by (intro put_all_mono [OF E]) metis
  have f2: "db_map E (put_all E (put_all E d p1) p2) y = db_map E (put_all E d p1) y" if "\<And>k j. y \<noteq> digest_node_key name k j" for y
    using p(2) that by (intro put_all_mono [OF E]) metis
  have bn: "db_map E d' (block_node_key name b' k j) = db_map E (put_all E d p1) (block_node_key name b' k j)" for b' k j
    using K unfolding M by (simp add: f2)
  have old: "block_stored E (db_map E d') (m_cache d') name i (bs ! i)" if "i < length bs" for i
  proof (rule block_stored_cong)
    show "block_stored E (db_map E d) (m_cache d) name i (bs ! i)" using L that by (simp add: ledger_stored_def)
    show "db_map E d' (block_node_key name i k j) = db_map E d (block_node_key name i k j)" for k j
      using that K(11) unfolding bn by (intro f1) auto
    show "m_cache d' (block_key name i) = m_cache d (block_key name i)" using that by (simp add: C)
    show "db_map E d' (block_key name i) = db_map E d (block_key name i)"
      unfolding M using that K(3,6,8,10,12) f1 [of "block_key name i"] f2 [of "block_key name i"] by (auto simp: eq_commute)
  qed
  have "length (hval (prev_hash_of E bs)) = 20" using roots E by (auto simp: prev_hash_of_def hashes20_def)
  note rec = block_record [OF fits hashes20_root [OF E lv(1) ne] this n]
  have new: "block_stored E (db_map E d') (m_cache d') name (length bs) b"
    unfolding block_stored_def
    using nodes_stored_cong [OF st(1), of "db_map E d'"] bn lv fits rec K(10) by (simp add: M C block_fits_def)
  have dg: "db_map E d' (digest_node_key name k j) = db_map E (put_all E (put_all E d p1) p2) (digest_node_key name k j)" for k j
    using K unfolding M by simp
  have "nodes_stored E (db_map E d') (digest_node_key name) (map (block_root E) (bs @ [b]))"
    using nodes_stored_cong [OF st(2), of "db_map E d'"] dg by blast
  then show "ledger_stored E (db_map E d') (m_cache d') name (bs @ [b])"
    using old new K(8-10) unfolding ledger_stored_def by (auto simp: M nth_append less_Suc_eq)
  show "db_map E d' x = db_map E d x \<and> m_cache d' x = m_cache d x" if "x \<notin> ledger_keys name"
  proof -
    have ne: "x \<noteq> name" "x \<noteq> ''digest_'' @ name" "x \<noteq> block_key name (length bs)" "\<And>b k j. x \<noteq> block_node_key name b k j"
      "\<And>k j. x \<noteq> digest_node_key name k j"
      using that ledger_keys_mem [of name] by blast+
    then show ?thesis using f1 [OF ne(4)] f2 [OF ne(5)] unfolding M C by simp
  qed
qed

section \<open>The invariant of QLDB\<close>

definition tree_holds :: "'s ext \<Rightarrow> BPlusConfig \<Rightarrow> nat \<Rightarrow> nat \<Rightarrow> QLBTree \<Rightarrow> 's DB \<Rightarrow> (string \<rightharpoonup> Document) \<Rightarrow> bool" where
  "tree_holds E C K N t d M \<longleftrightarrow> (\<exists>kvs. tree_inv E C K N t d kvs \<and> map_of kvs = (\<lambda>k. map_option doc_bytes (M k)))"

definition ql_inv :: "'s ext \<Rightarrow> BPlusConfig \<Rightarrow> nat \<Rightarrow> nat \<Rightarrow> 's QLDB \<Rightarrow> string \<Rightarrow> ledger \<Rightarrow> bool" where
  "ql_inv E C K N q name L \<longleftrightarrow> name_ok name \<and> length (l_blocks L) \<le> N \<and>
     bt_prefix (q_indexed q) = ''COMMITTED_'' \<and> bt_prefix (q_history q) = ''HISTORY_'' \<and>
     tree_holds E C K N (q_indexed q) (q_db q) (l_latest L) \<and> tree_holds E C K N (q_history q) (q_db q) (l_history L) \<and>
     (\<forall>k doc. l_latest L k = Some doc \<longrightarrow> Document_ok doc \<and> version (doc_meta doc) < N) \<and>
     ledger_stored E (db_map E (q_db q)) (m_cache (q_db q)) name (l_blocks L)"

lemma tree_holds_frame:
  assumes "tree_holds E C K N t d M"
    and "\<And>s. db_map E d' (bt_prefix t @ s) = db_map E d (bt_prefix t @ s) \<and> m_cache d' (bt_prefix t @ s) = m_cache d (bt_prefix t @ s)"
  shows "tree_holds E C K N t d' M"
  using assms tree_inv_frame [of E C K N t d _ d'] unfolding tree_holds_def by blast

lemma tree_holds_outside:
  assumes "tree_holds E C K N t d M" "outside E p d d'" "\<And>s s'. bt_prefix t @ s \<noteq> p @ s'"
  shows "tree_holds E C K N t d' M"
  using assms by (intro tree_holds_frame [OF assms(1)]) (auto simp: outside_def)

lemma Get_holds:
  assumes "tree_holds E C K N t d M" "N < 2 ^ 32"
  shows "\<exists>d'. QLBTree_Get E t key d = Some (case M key of None \<Rightarrow> [] | Some doc \<Rightarrow> doc_bytes doc, d') \<and> tree_holds E C K N t d' M \<and>
    outside E (bt_prefix t) d d'"
proof -
  obtain kvs where I: "tree_inv E C K N t d kvs" and kvs: "map_of kvs = (\<lambda>k. map_option doc_bytes (M k))"
    using assms(1) by (auto simp: tree_holds_def)
  obtain d' where g: "QLBTree_Get E t key d = Some (lookup kvs key, d')" "tree_inv E C K N t d' kvs" using Get_inv [OF I assms(2)] by blast
  moreover have "lookup kvs key = (case M key of None \<Rightarrow> [] | Some doc \<Rightarrow> doc_bytes doc)"
    using fun_cong [OF kvs, of key] by (cases "M key") (simp_all add: lookup_def)
  moreover have "outside E (bt_prefix t) d d'" using TryGet_outside [OF g(1) [unfolded QLBTree_Get_def]] by simp
  ultimately show ?thesis using kvs by (auto simp: tree_holds_def)
qed

lemma SetMany_holds:
  assumes E: "ext_ok E" and S: "sizes_ok C (bt_prefix t) K" and H: "tree_holds E C K N t d M"
    and len: "length docs = length ks" "ks \<noteq> []" "N + length ks < 2 ^ 32" and ok: "entries_ok K (zip ks (map doc_bytes docs))"
  shows "\<exists>t' d'. QLBTree_SetMany E C t ks (map doc_bytes docs) d = Some (True, t', d') \<and> bt_prefix t' = bt_prefix t \<and>
    tree_holds E C K (N + length ks) t' d' (M ++ map_of (rev (zip ks docs))) \<and> outside E (bt_prefix t) d d'"
proof -
  let ?new = "zip ks (map doc_bytes docs)"
  obtain kvs where I: "tree_inv E C K N t d kvs" and kvs: "map_of kvs = (\<lambda>k. map_option doc_bytes (M k))"
    using H by (auto simp: tree_holds_def)
  have new: "map fst ?new = ks" "map snd ?new = map doc_bytes docs" "?new \<noteq> []" using len by auto
  obtain t' d' where s: "QLBTree_SetMany E C t (map fst ?new) (map snd ?new) d = Some (?new \<noteq> [], t', d')" "bt_prefix t' = bt_prefix t"
      "tree_inv E C K (N + length ?new) t' d' (kv_inserts kvs ?new)"
    using SetMany_inv [OF E S I ok] len by auto
  have s1: "QLBTree_SetMany E C t ks (map doc_bytes docs) d = Some (True, t', d')" using s(1) unfolding new using new(3) by simp
  have "strict kvs" using I by (auto simp: tree_inv_def root_repr_def)
  then have "map_of (kv_inserts kvs ?new) = map_of kvs ++ map_of (rev ?new)" by (rule lookup_kv_inserts)
  moreover have "map_of (rev ?new) = (\<lambda>k. map_option doc_bytes (map_of (rev (zip ks docs)) k))"
  proof -
    have "rev ?new = map (\<lambda>(k, d). (k, doc_bytes d)) (rev (zip ks docs))" by (simp add: zip_map2 rev_map)
    then show ?thesis using map_of_map [of doc_bytes "rev (zip ks docs)"] by (simp add: comp_def fun_eq_iff)
  qed
  ultimately have "map_of (kv_inserts kvs ?new) = (\<lambda>k. map_option doc_bytes ((M ++ map_of (rev (zip ks docs))) k))"
    unfolding kvs by (auto simp: map_add_def fun_eq_iff split: option.splits)
  then have "tree_holds E C K (N + length ks) t' d' (M ++ map_of (rev (zip ks docs)))" using s(3) len by (auto simp: tree_holds_def)
  then show ?thesis using s1 s(2) SetMany_outside [OF E s1] by blast
qed

lemma doc_bytes_chunk: "Some (doc_bytes d) = doc_chunk d" "doc_bytes d \<noteq> []"
  by (simp_all add: doc_chunk_def Document_Encode_def Chunk_new_def head_def kMetaLength_def)

lemma prefixes_differ: "''COMMITTED_'' @ s \<noteq> ''HISTORY_'' @ s'"
  by simp

lemma GetCommitted_inv:
  assumes I: "ql_inv E C K N q name L" and N: "N < 2 ^ 32"
  shows "\<exists>d'. GetCommitted E q key = Some (case l_latest L key of None \<Rightarrow> None | Some doc \<Rightarrow> doc_chunk doc, q\<lparr>q_db := d'\<rparr>) \<and>
    ql_inv E C K N (q\<lparr>q_db := d'\<rparr>) name L"
proof -
  have H: "tree_holds E C K N (q_indexed q) (q_db q) (l_latest L)" "bt_prefix (q_indexed q) = ''COMMITTED_''" "name_ok name"
    using I by (simp_all add: ql_inv_def)
  obtain d' where g: "QLBTree_Get E (q_indexed q) key (q_db q) = Some (case l_latest L key of None \<Rightarrow> [] | Some doc \<Rightarrow> doc_bytes doc, d')"
      "tree_holds E C K N (q_indexed q) d' (l_latest L)" and out: "outside E ''COMMITTED_'' (q_db q) d'"
    using Get_holds [OF H(1) N, of key] H(2) by auto
  have c: "slice_chunk (case l_latest L key of None \<Rightarrow> [] | Some doc \<Rightarrow> doc_bytes doc) =
      (case l_latest L key of None \<Rightarrow> None | Some doc \<Rightarrow> doc_chunk doc)"
    by (cases "l_latest L key") (simp_all add: slice_chunk_def doc_bytes_chunk)
  have "tree_holds E C K N (q_history q) d' (l_history L)"
    using I by (intro tree_holds_outside [OF _ out]) (auto simp: ql_inv_def prefixes_differ [symmetric])
  moreover have "ledger_stored E (db_map E d') (m_cache d') name (l_blocks L)"
    using I ledger_stored_outside [OF _ H(3) out] by (simp add: ql_inv_def)
  ultimately have "ql_inv E C K N (q\<lparr>q_db := d'\<rparr>) name L" using I g(2) by (simp add: ql_inv_def)
  then show ?thesis using g(1) c by (auto simp: GetCommitted_def)
qed

section \<open>Set keeps the invariant\<close>

lemma length_new_docs [simp]: "length (new_docs name n now latest i kvs) = length kvs"
  by (induction name n now latest i kvs rule: new_docs.induct) auto

lemma set_documents_inv:
  assumes N: "N < 2 ^ 32"
  shows "ql_inv E C K N q name L \<Longrightarrow> \<exists>d'. set_documents E name n now i kvs q =
      Some (zip (map doc_chunk (new_docs name n now (l_latest L) i kvs)) (map (\<lambda>e. version_key (l_latest L) (fst e)) kvs), q\<lparr>q_db := d'\<rparr>) \<and>
    ql_inv E C K N (q\<lparr>q_db := d'\<rparr>) name L"
proof (induction kvs arbitrary: i q)
  case Nil
  then show ?case by (intro exI [of _ "q_db q"]) simp
next
  case (Cons kv kvs)
  obtain k v where kv: "kv = (k, v)" by (cases kv)
  obtain d1 where g: "GetCommitted E q k = Some (case l_latest L k of None \<Rightarrow> None | Some doc \<Rightarrow> doc_chunk doc, q\<lparr>q_db := d1\<rparr>)"
      "ql_inv E C K N (q\<lparr>q_db := d1\<rparr>) name L"
    using GetCommitted_inv [OF Cons.prems N, of k] by blast
  have ver: "(if Chunk_empty (case l_latest L k of None \<Rightarrow> None | Some doc \<Rightarrow> doc_chunk doc) then 0
      else version (doc_meta (Document_of (case l_latest L k of None \<Rightarrow> None | Some doc \<Rightarrow> doc_chunk doc))) + 1) = next_version (l_latest L) k"
  proof (cases "l_latest L k")
    case None
    then show ?thesis by (simp add: next_version_def Chunk_empty_def)
  next
    case (Some doc)
    then have "Document_ok doc" using Cons.prems by (simp add: ql_inv_def)
    then have "Document_of (doc_chunk doc) = doc" using Document_of_Encode [of doc "[]"] doc_bytes_chunk(1) [of doc] by simp
    moreover have "doc_chunk doc \<noteq> None" using doc_bytes_chunk(1) [of doc] by (metis option.distinct(1))
    ultimately show ?thesis using Some by (simp add: next_version_def Chunk_empty_def)
  qed
  obtain d2 where "set_documents E name n now (i + 1) kvs (q\<lparr>q_db := d1\<rparr>) =
      Some (zip (map doc_chunk (new_docs name n now (l_latest L) (i + 1) kvs)) (map (\<lambda>e. version_key (l_latest L) (fst e)) kvs), q\<lparr>q_db := d2\<rparr>)"
      "ql_inv E C K N (q\<lparr>q_db := d2\<rparr>) name L"
    using Cons.IH [OF g(2), of "i + 1"] by auto
  moreover have "doc_chunk \<lparr>doc_addr = \<lparr>ledger_name = name, seq_no = n\<rparr>, doc_data = \<lparr>data_key = k, data_val = v\<rparr>,
      doc_meta = \<lparr>doc_seq = i, version = next_version (l_latest L) k, md_time = now\<rparr>\<rparr> = Document_Encode k v
      \<lparr>ledger_name = name, seq_no = n\<rparr> \<lparr>doc_seq = i, version = next_version (l_latest L) k, md_time = now\<rparr>"
    by (simp add: doc_chunk_def)
  ultimately show ?case
    by (intro exI [of _ d2]) (simp only: kv set_documents.simps g(1) bind.bind_lunit ver Let_def prod.case option.map new_docs.simps
        list.map zip_Cons_Cons version_key_def fst_conv simp_thms)
qed

lemma next_block_stored:
  assumes E: "ext_ok E" and L: "ledger_stored E (db_map E d) mc name bs" and n: "length bs < 2 ^ 64"
  shows "next_block E (DB_Get_str E d name) = Inr (length bs, prev_hash_of E bs)"
proof (cases "bs = []")
  case True
  then show ?thesis using L by (simp add: ledger_stored_def DB_Get_str_def DB_Get_def next_block_def prev_hash_of_def)
next
  case False
  have "length (block_root E (last bs)) = 20" using ledger_roots [OF E L] False by (simp add: hashes20_def)
  then have "FromBase32 (ToBase32 (Some (block_root E (last bs)))) = prev_hash_of E bs"
    using FromBase32_ToBase32 False by (simp add: prev_hash_of_def)
  moreover have "DB_Get_str E d name = to_string (length bs - 1) @ CHR ''|'' # ToBase32 (Some (block_root E (last bs)))"
    using L False by (simp add: ledger_stored_def DB_Get_str_def DB_Get_def)
  ultimately show ?thesis using n False
    by (simp add: next_block_def find_char_append)
qed

text \<open>What a request must satisfy: entries that fit a tree node, and a block that fits a chunk.\<close>

definition request_ok :: "nat \<Rightarrow> string \<Rightarrow> request \<Rightarrow> bool" where
  "request_ok K name r \<longleftrightarrow> (case r of (now, junk, kvs) \<Rightarrow> now < 2 ^ 64 \<and> length junk = length name + 17 \<and> kvs \<noteq> [] \<and>
     (\<forall>(k, v)\<in>set kvs. length name + length k + length v + 41 \<le> K \<and> k \<noteq> ''_INFI_'') \<and> length kvs * K + length name + 100 < 2 ^ 32)"

lemma new_docs_ok:
  assumes "\<forall>(k, v)\<in>set kvs. length name + length k + length v + 41 \<le> K" "K < 2 ^ 31" "n < 2 ^ 32" "now < 2 ^ 64" "i + length kvs < 2 ^ 32"
    and "\<And>k doc. latest k = Some doc \<Longrightarrow> version (doc_meta doc) < N" "N < 2 ^ 32 - 1"
  shows "doc \<in> set (new_docs name n now latest i kvs) \<Longrightarrow> Document_ok doc \<and> length (doc_bytes doc) \<le> K \<and> version (doc_meta doc) < N + 1"
  using assms(1,5)
proof (induction kvs arbitrary: i)
  case (Cons kv kvs)
  obtain k v where kv: "kv = (k, v)" by (cases kv)
  have "next_version latest k < N + 1" using assms(6) [of k] by (cases "latest k") (auto simp: next_version_def)
  then show ?case using Cons assms(2-4,7)
    by (auto simp: kv Document_ok_def addr_ok_def doc_chunk_def Document_Encode_def Chunk_new_def head_def kMetaLength_def)
qed simp

lemma block_leaves_spec:
  fixes name junk :: string and now :: nat and docs :: "Document list"
  assumes E: "ext_ok E" and prev: "length (hval prev) = 20" "prev \<noteq> None"
  defines "xs \<equiv> map hval (block_leaves E name now junk prev (map doc_chunk docs))"
  shows "block_leaves E name now junk prev (map doc_chunk docs) = map Some xs" "hashes20 xs" "length xs = length docs + 3"
    "\<forall>i<length docs. xs ! i = hval (chunk_hash E (doc_chunk (docs ! i)))"
proof -
  have "Hash_Clone prev = Some (hval prev)" using prev by (simp add: Hash_Clone_def Hash_empty_def)
  then show "block_leaves E name now junk prev (map doc_chunk docs) = map Some xs"
    using E prev(1) by (simp add: xs_def block_leaves_def chunk_hash_def)
  show "hashes20 xs" using E prev by (auto simp: xs_def block_leaves_def chunk_hash_def hashes20_def)
  show "length xs = length docs + 3" by (simp add: xs_def block_leaves_def)
  show "\<forall>i<length docs. xs ! i = hval (chunk_hash E (doc_chunk (docs ! i)))" by (simp add: xs_def block_leaves_def nth_append)
qed

lemma sizes_ok_bound: "sizes_ok C p K \<Longrightarrow> K < 2 ^ 31"
  by (auto simp: sizes_ok_def)

text \<open>The entries that \<open>Set\<close> writes to the two trees fit.\<close>

lemma request_entries:
  assumes R: "request_ok K name (now, junk, kvs)" and K: "K < 2 ^ 31" and n: "n < 2 ^ 32"
    and ver: "\<And>k doc. latest k = Some doc \<Longrightarrow> version (doc_meta doc) < N" and N: "N + length kvs < 2 ^ 32"
  defines "docs \<equiv> new_docs name n now latest 0 kvs"
  shows "block_fits name now docs" "entries_ok K (zip (map fst kvs) (map doc_bytes docs))"
    "entries_ok K (zip (map (\<lambda>e. version_key latest (fst e)) kvs) (map doc_bytes docs))"
    "\<forall>doc\<in>set docs. Document_ok doc \<and> version (doc_meta doc) < N + length kvs"
proof -
  have r: "\<forall>(k, v)\<in>set kvs. length name + length k + length v + 41 \<le> K" "\<forall>(k, v)\<in>set kvs. k \<noteq> ''_INFI_''" "now < 2 ^ 64" "kvs \<noteq> []"
      "length kvs * K + length name + 100 < 2 ^ 32"
    using R by (auto simp: request_ok_def)
  have len: "0 < length kvs" using r(4) by simp
  have ok: "Document_ok doc \<and> length (doc_bytes doc) \<le> K \<and> version (doc_meta doc) < N + 1" if "doc \<in> set docs" for doc
  proof (rule new_docs_ok [OF r(1) K n r(3), of 0 latest N])
    show "0 + length kvs < 2 ^ 32" "N < 2 ^ 32 - 1" using N len by linarith+
    show "version (doc_meta doc) < N" if "latest k = Some doc" for k doc using ver [OF that] .
    show "doc \<in> set (new_docs name n now latest 0 kvs)" using that by (simp add: docs_def)
  qed
  show "\<forall>doc\<in>set docs. Document_ok doc \<and> version (doc_meta doc) < N + length kvs" 
  proof (intro ballI conjI)
    fix doc assume *: "doc \<in> set docs"
    show "Document_ok doc" "version (doc_meta doc) < N + length kvs" using ok [OF *] len by linarith+
  qed
  have "length (concat (map doc_bytes docs)) \<le> length docs * K"
  proof -
    have "length (concat (map doc_bytes ds)) \<le> length ds * K" if "\<forall>d\<in>set ds. length (doc_bytes d) \<le> K" for ds
      using that by (induction ds) auto
    then show ?thesis using ok by blast
  qed
  then show "block_fits name now docs" using ok r(3,5) N by (auto simp: block_fits_def list_all_iff docs_def)
  have kv: "length k \<le> K" "k \<noteq> ''_INFI_''" "length (version_key latest k) \<le> K" "version_key latest k \<noteq> ''_INFI_''" if "k \<in> fst ` set kvs" for k
  proof -
    have l: "length k + 41 \<le> K" and ni: "k \<noteq> ''_INFI_''" using that r(1,2) by fastforce+
    have "next_version latest k < 10 ^ 10" using ver [of k] N by (cases "latest k") (auto simp: next_version_def)
    then have "length (to_string (next_version latest k)) \<le> 10" by (rule length_to_string) simp
    then show "length k \<le> K" "k \<noteq> ''_INFI_''" "length (version_key latest k) \<le> K" using l ni by (simp_all add: version_key_def)
    have "CHR ''|'' \<in> set (version_key latest k)" by (simp add: version_key_def)
    then show "version_key latest k \<noteq> ''_INFI_''" by auto
  qed
  have zip: "entries_ok K (zip ks (map doc_bytes docs))" if "\<forall>k\<in>set ks. length k \<le> K \<and> k \<noteq> ''_INFI_''" for ks
    unfolding entries_ok_def
  proof
    fix e assume "e \<in> set (zip ks (map doc_bytes docs))"
    then have "fst e \<in> set ks" "snd e \<in> set (map doc_bytes docs)" by (metis prod.collapse set_zip_leftD set_zip_rightD)+
    then show "entry_sized K e" using that ok by (auto simp: entry_sized_def)
  qed
  show "entries_ok K (zip (map fst kvs) (map doc_bytes docs))" using kv by (intro zip) auto
  show "entries_ok K (zip (map (\<lambda>e. version_key latest (fst e)) kvs) (map doc_bytes docs))" using kv by (intro zip) auto
qed

lemma QLDB_Set_inv:
  assumes E: "ext_ok E" and S: "sizes_ok C ''COMMITTED_'' K" "sizes_ok C ''HISTORY_'' K" and I: "ql_inv E C K N q name L"
    and R: "request_ok K name (now, junk, kvs)" and N: "N + length kvs < 2 ^ 32"
  shows "\<exists>q'. QLDB_Set E C now junk q name (map fst kvs) (map snd kvs) = Some (Inr (True, q')) \<and>
    ql_inv E C K (N + length kvs) q' name (ledger_set E name (now, junk, kvs) L)"
proof -
  let ?n = "length (l_blocks L)" and ?M = "l_latest L" and ?keys = "map fst kvs"
  let ?docs = "new_docs name ?n now ?M 0 kvs" and ?vk = "map (\<lambda>e. version_key ?M (fst e)) kvs" and ?prev = "prev_hash_of E (l_blocks L)"
  have nm: "name_ok name" and n: "?n < 2 ^ 32" and kvs: "kvs \<noteq> []" and N': "N < 2 ^ 32"
    using I R N by (auto simp: ql_inv_def request_ok_def)
  have ver: "version (doc_meta doc) < N" if "?M k = Some doc" for k doc using I that by (simp add: ql_inv_def)
  note ent = request_entries [OF R sizes_ok_bound [OF S(1)] n, where latest = ?M and N = N, OF _ N, OF ver]
  obtain d0 where d0: "set_documents E name ?n now 0 kvs q = Some (zip (map doc_chunk ?docs) ?vk, q\<lparr>q_db := d0\<rparr>)"
      "ql_inv E C K N (q\<lparr>q_db := d0\<rparr>) name L"
    using set_documents_inv [OF N' I] by blast
  have "map chunk_bytes (map fst (zip (map doc_chunk ?docs) ?vk)) = map doc_bytes ?docs"
    using ent(4) by (simp add: doc_chunk_bytes)
  then have bytes: "map (\<lambda>x. chunk_bytes (fst x)) (zip (map doc_chunk ?docs) ?vk) = map doc_bytes ?docs"
    by (simp only: map_map comp_def)
  obtain ix d1 where d1: "QLBTree_SetMany E C (q_indexed q) ?keys (map doc_bytes ?docs) d0 = Some (True, ix, d1)" "bt_prefix ix = ''COMMITTED_''"
      "tree_holds E C K (N + length kvs) ix d1 (?M ++ map_of (rev (zip ?keys ?docs)))" "outside E ''COMMITTED_'' d0 d1"
    using SetMany_holds [OF E, of C "q_indexed q" K N d0 ?M ?docs ?keys] S(1) d0(2) kvs N ent(2) by (auto simp: ql_inv_def)
  have h1: "tree_holds E C K N (q_history q) d1 (l_history L)"
    using d0(2) by (intro tree_holds_outside [OF _ d1(4)]) (auto simp: ql_inv_def)
  obtain hi d2 where d2: "QLBTree_SetMany E C (q_history q) ?vk (map doc_bytes ?docs) d1 = Some (True, hi, d2)" "bt_prefix hi = ''HISTORY_''"
      "tree_holds E C K (N + length kvs) hi d2 (l_history L ++ map_of (rev (zip ?vk ?docs)))" "outside E ''HISTORY_'' d1 d2"
    using SetMany_holds [OF E, of C "q_history q" K N d1 "l_history L" ?docs ?vk] S(2) h1 d0(2) kvs N ent(3) by (auto simp: ql_inv_def)
  have i2: "tree_holds E C K (N + length kvs) ix d2 (?M ++ map_of (rev (zip ?keys ?docs)))"
    using d1(2) by (intro tree_holds_outside [OF d1(3) d2(4)]) auto
  have L0: "ledger_stored E (db_map E (q_db q)) (m_cache (q_db q)) name (l_blocks L)" using I by (simp add: ql_inv_def)
  have L2: "ledger_stored E (db_map E d2) (m_cache d2) name (l_blocks L)"
    using d0(2) ledger_stored_outside [OF ledger_stored_outside [OF _ nm d1(4)] nm d2(4)] by (simp add: ql_inv_def)
  have pv: "length (hval ?prev) = 20" "?prev \<noteq> None" using ledger_roots [OF E L0] E by (auto simp: prev_hash_of_def hashes20_def simp del: not_None_eq)
  note lv = block_leaves_spec [OF E pv, where name = name and now = now and junk = junk and docs = ?docs]
  define b where "b = \<lparr>b_docs = ?docs, b_leaves = map hval (block_leaves E name now junk ?prev (map doc_chunk ?docs))\<rparr>"
  let ?d = "append_block E name ?n now ?prev (map Some (b_leaves b)) (map doc_chunk (b_docs b)) d2"
  have fin: "ledger_stored E (db_map E ?d) (m_cache ?d) name (l_blocks L @ [b])"
      "\<And>x. x \<notin> ledger_keys name \<Longrightarrow> db_map E ?d x = db_map E d2 x \<and> m_cache ?d x = m_cache d2 x"
    using append_block_stored [OF E nm L2, of now b] ent(1) n lv(2-4) by (simp_all add: b_def)
  define q' where "q' = q\<lparr>q_db := ?d, q_indexed := ix, q_history := hi\<rparr>"
  have "QLDB_Set E C now junk q name ?keys (map snd kvs) = Some (Inr (True, q'))"
    using next_block_stored [OF E L0] n kvs d0(1) d1(1) d2(1) bytes lv(1)
    by (simp add: QLDB_Set_def zip_map_fst_snd Let_def q'_def b_def comp_def)
  moreover have "ql_inv E C K (N + length kvs) q' name (ledger_set E name (now, junk, kvs) L)"
  proof -
    have fr: "tree_holds E C K (N + length kvs) t ?d M" if "tree_holds E C K (N + length kvs) t d2 M" "bt_prefix t = ''COMMITTED_'' \<or> bt_prefix t = ''HISTORY_''" for t M
      using that fin(2) tree_keys [OF nm _ that(2)] by (intro tree_holds_frame [OF that(1)]) blast
    have "length (l_blocks L @ [b]) \<le> N + length kvs" using I kvs by (cases kvs) (auto simp: ql_inv_def)
    moreover have "\<forall>k doc. (?M ++ map_of (rev (zip ?keys ?docs))) k = Some doc \<longrightarrow> Document_ok doc \<and> version (doc_meta doc) < N + length kvs"
      using I ent(4) by (fastforce simp: ql_inv_def map_add_Some_iff dest!: map_of_SomeD set_zip_rightD)
    ultimately show ?thesis
      using nm fr [OF i2] fr [OF d2(3)] d1(2) d2(2) fin(1) by (simp add: ql_inv_def ledger_set_def Let_def q'_def b_def)
  qed
  ultimately show ?thesis by blast
qed

section \<open>Histories\<close>

fun QLDB_Sets :: "'s ext \<Rightarrow> BPlusConfig \<Rightarrow> string \<Rightarrow> request list \<Rightarrow> 's QLDB \<Rightarrow> 's QLDB option" where
  "QLDB_Sets E C name [] q = Some q"
| "QLDB_Sets E C name ((now, junk, kvs) # rs) q =
     (case QLDB_Set E C now junk q name (map fst kvs) (map snd kvs) of
        Some (Inr (True, q')) \<Rightarrow> QLDB_Sets E C name rs q' | _ \<Rightarrow> None)"

definition empty_ledger :: ledger where
  "empty_ledger = \<lparr>l_blocks = [], l_latest = Map.empty, l_history = Map.empty\<rparr>"

definition entries_of :: "request list \<Rightarrow> nat" where
  "entries_of rs = (\<Sum>r\<leftarrow>rs. length (snd (snd r)))"

definition ledger_of :: "'s ext \<Rightarrow> string \<Rightarrow> request list \<Rightarrow> ledger" where
  "ledger_of E name rs = fold (ledger_set E name) rs empty_ledger"

lemma QLDB_Sets_inv:
  assumes E: "ext_ok E" and S: "sizes_ok C ''COMMITTED_'' K" "sizes_ok C ''HISTORY_'' K"
  shows "ql_inv E C K N q name L \<Longrightarrow> \<forall>r\<in>set rs. request_ok K name r \<Longrightarrow> N + entries_of rs < 2 ^ 32 \<Longrightarrow>
    \<exists>q'. QLDB_Sets E C name rs q = Some q' \<and> ql_inv E C K (N + entries_of rs) q' name (fold (ledger_set E name) rs L)"
proof (induction rs arbitrary: N q L)
  case Nil
  then show ?case by (simp add: entries_of_def)
next
  case (Cons r rs)
  obtain now junk kvs where r: "r = (now, junk, kvs)" by (cases r)
  obtain q1 where q1: "QLDB_Set E C now junk q name (map fst kvs) (map snd kvs) = Some (Inr (True, q1))"
      "ql_inv E C K (N + length kvs) q1 name (ledger_set E name r L)"
    using QLDB_Set_inv [OF E S Cons.prems(1), of now junk kvs] Cons.prems(2,3) by (auto simp: r entries_of_def)
  then show ?case using Cons.IH [OF q1(2)] Cons.prems(2,3) by (simp add: r entries_of_def add.assoc)
qed

lemma QLDB_new_inv:
  assumes S: "sizes_ok C ''COMMITTED_'' K" "sizes_ok C ''HISTORY_'' K" and fresh: "rocks_get E s = Map.empty" and nm: "name_ok name"
  shows "ql_inv E C K 0 (QLDB_new E s) name empty_ledger"
proof -
  have coh: "coherent E p (DB_Open s)" for p by (simp add: coherent_def DB_Open_def)
  obtain ix d1 where ix: "QLBTree_new E (DB_Open s) ''COMMITTED_'' = (ix, d1)" "bt_prefix ix = ''COMMITTED_''" "tree_inv E C K 0 ix d1 []"
    using QLBTree_new_inv [OF S(1) coh] fresh by (metis DB.select_convs(1) DB_Open_def)
  have d1: "d1 = snd (DB_Get_chunk E (DB_Open s) (''COMMITTED_'' @ ''ROOT''))"
    using ix(1) by (auto simp: QLBTree_new_def case_prod_unfold Let_def)
  have out1: "outside E ''COMMITTED_'' (DB_Open s) d1" unfolding d1 by (rule outside_Get)
  have m1: "db_map E d1 = Map.empty" unfolding d1 by (simp add: DB_Get_chunk_def DB_Open_def fresh)
  have "coherent E ''HISTORY_'' d1" using out1 by (auto simp: outside_def coherent_def DB_Open_def)
  then obtain hi d2 where hi: "QLBTree_new E d1 ''HISTORY_'' = (hi, d2)" "bt_prefix hi = ''HISTORY_''" "tree_inv E C K 0 hi d2 []"
    using QLBTree_new_inv [OF S(2), of E d1] m1 by auto
  have d2: "d2 = snd (DB_Get_chunk E d1 (''HISTORY_'' @ ''ROOT''))"
    using hi(1) by (auto simp: QLBTree_new_def case_prod_unfold Let_def)
  have out2: "outside E ''HISTORY_'' d1 d2" unfolding d2 by (rule outside_Get)
  have "tree_holds E C K 0 ix d1 Map.empty" using ix(3) by (auto simp: tree_holds_def intro: exI [of _ "[]"])
  then have "tree_holds E C K 0 ix d2 Map.empty" using ix(2) by (intro tree_holds_outside [OF _ out2]) auto
  moreover have "tree_holds E C K 0 hi d2 Map.empty" using hi(3) by (auto simp: tree_holds_def intro: exI [of _ "[]"])
  moreover have "ledger_stored E (db_map E (DB_Open s)) (m_cache (DB_Open s)) name []"
    by (simp add: ledger_stored_def nodes_stored_def DB_Open_def fresh height.simps)
  then have "ledger_stored E (db_map E d2) (m_cache d2) name []"
    using ledger_stored_outside [OF ledger_stored_outside [OF _ nm out1] nm out2] by simp
  ultimately show ?thesis using nm ix(1,2) hi(1,2) by (simp add: ql_inv_def QLDB_new_def empty_ledger_def)
qed

lemma QLDB_history_inv:
  assumes "ext_ok E" "sizes_ok C ''COMMITTED_'' K" "sizes_ok C ''HISTORY_'' K" "rocks_get E s = Map.empty" "name_ok name"
    and "\<forall>r\<in>set rs. request_ok K name r" "entries_of rs < 2 ^ 32"
  obtains q where "QLDB_Sets E C name rs (QLDB_new E s) = Some q" "ql_inv E C K (entries_of rs) q name (ledger_of E name rs)"
  using QLDB_Sets_inv [OF assms(1-3) QLDB_new_inv [OF assms(2-5)] assms(6)] assms(7) by (auto simp: ledger_of_def)

lemma QLDB_digest_inv:
  assumes I: "ql_inv E C K N q name L" and N: "N < 2 ^ 32" and ne: "l_blocks L \<noteq> []"
  shows "QLDB_digest E q name = Inr (length (l_blocks L) - 1, ToBase32 (Some (tree_root E (map (block_root E) (l_blocks L)))))"
proof -
  have "length (l_blocks L) \<le> N" using I by (simp add: ql_inv_def)
  then have "length (l_blocks L) - 1 < 2 ^ 64" using N by simp
  then show ?thesis
    using I ne by (simp add: ql_inv_def ledger_stored_def QLDB_digest_def DB_Get_str_def DB_Get_def find_char_append Let_def)
qed

lemma Verify_append:
  "ql_verify_loop E (ss @ ss') (ps @ ps') h = rbind (ql_verify_loop E ss ps h) (ql_verify_loop E ss' ps')" if "length ss = length ps"
  using that by (induction ss ps arbitrary: h rule: list_induct2) auto

lemma QLDB_getProof_inv:
  assumes E: "ext_ok E" and I: "ql_inv E C K N q name L" and b: "b < length (l_blocks L)" and i: "i < length (b_docs (l_blocks L ! b))"
  shows "\<exists>r q'. QLDB_getProof E q name (length (l_blocks L) - 1) b i = Some (Some r, q') \<and>
      \<lparr>doc_addr = pr_addr r, doc_data = pr_data r, doc_meta = pr_meta r\<rparr> = b_docs (l_blocks L ! b) ! i \<and>
      QLProofResult_Verify E r (Some (tree_root E (map (block_root E) (l_blocks L)))) = Inr True"
proof -
  let ?bs = "l_blocks L" and ?B = "l_blocks L ! b" and ?roots = "map (block_root E) (l_blocks L)"
  let ?doc = "b_docs ?B ! i" and ?key = "name @ ''|'' @ to_string b"
  have L: "ledger_stored E (db_map E (q_db q)) (m_cache (q_db q)) name ?bs" using I by (simp add: ql_inv_def)
  have st: "block_stored E (db_map E (q_db q)) (m_cache (q_db q)) name b ?B" using L b by (simp add: ledger_stored_def)
  obtain s where s: "db_map E (q_db q) ?key = Some s" "length (blk_documents (QLBlock_of (Some s))) = length (b_docs ?B)"
      "Document_of (blk_documents (QLBlock_of (Some s)) ! i) = ?doc"
    using st i by (auto simp: block_stored_def)
  obtain d' where d': "DB_Get_chunk E (q_db q) ?key = (Some s, d')" "db_map E d' = db_map E (q_db q)"
    using st s(1) by (auto simp: block_stored_def DB_Get_chunk_def Let_def)
  have lv: "hashes20 (b_leaves ?B)" "length (b_leaves ?B) = length (b_docs ?B) + 3" "b_leaves ?B ! i = hval (chunk_hash E (doc_chunk ?doc))"
      "nodes_stored E (db_map E d') (block_node_key name b) (b_leaves ?B)"
    using st i d'(2) by (simp_all add: block_stored_def)
  have il: "i < length (b_leaves ?B)" using i lv(2) by simp
  have r20: "hashes20 ?roots" using ledger_roots [OF E L] .
  have bl: "b < length ?roots" using b by simp
  define s1 where "s1 = map (sibling_at E (b_leaves ?B) i) [0..<height (length (b_leaves ?B))]"
  define s2 where "s2 = map (sibling_at E ?roots b) [0..<height (length ?roots)]"
  have e1: "ql_proof_loop E d' (block_node_key name b) 0 i (length (b_docs ?B) + 2) = map sib_entry s1"
    using ql_proof_loop_path [OF E lv(1) il lv(4), of 0] lv(2) by (simp add: s1_def)
  have e2: "ql_proof_loop E d' (digest_node_key name) 0 b (length ?bs - 1) = map sib_entry s2"
    using ql_proof_loop_path [OF E r20 bl, of d' "digest_node_key name" 0] L d'(2) by (simp add: ledger_stored_def s2_def)
  define r where "r = \<lparr>pr_data = doc_data ?doc, pr_addr = doc_addr ?doc, pr_meta = doc_meta ?doc,
      pr_proof = map (fst \<circ> sib_entry) s1 @ map (fst \<circ> sib_entry) s2, pr_pos = map (snd \<circ> sib_entry) s1 @ map (snd \<circ> sib_entry) s2\<rparr>"
  have "QLDB_getProof E q name (length ?bs - 1) b i = Some (Some r, q\<lparr>q_db := d'\<rparr>)"
    using b i d'(1) s(2,3) e1 e2 by (simp add: QLDB_getProof_def Let_def Chunk_empty_def r_def)
  moreover have "QLProofResult_Verify E r (Some (tree_root E ?roots)) = Inr True"
  proof -
    let ?h = "hval (chunk_hash E (doc_chunk ?doc))"
    have h: "chunk_hash E (Document_Encode (data_key (pr_data r)) (data_val (pr_data r)) (pr_addr r) (pr_meta r)) = Some ?h"
      by (simp add: r_def doc_chunk_def chunk_hash_def ComputeFrom_Some [symmetric])
    have h20: "length ?h = 20" using E by (simp add: chunk_hash_def)
    have c1: "climb E s1 ?h = block_root E ?B" using climb_to_root [OF il, of E] lv(3) by (simp add: s1_def)
    have c2: "climb E s2 (block_root E ?B) = tree_root E ?roots" using climb_to_root [OF bl, of E] b by (simp add: s2_def)
    have b20: "length (block_root E ?B) = 20" using r20 b by (simp add: hashes20_def)
    have v1: "ql_verify_loop E (map (fst \<circ> sib_entry) s1) (map (snd \<circ> sib_entry) s1) (Some ?h) = Inr (Some (block_root E ?B))"
      using ql_verify_climb [OF E h20, of s1] sibling_at_ok [OF E lv(1) il] c1 by (simp add: s1_def)
    have v2: "ql_verify_loop E (map (fst \<circ> sib_entry) s2) (map (snd \<circ> sib_entry) s2) (Some (block_root E ?B)) = Inr (Some (tree_root E ?roots))"
      using ql_verify_climb [OF E b20, of s2] sibling_at_ok [OF E r20 bl] c2 by (simp add: s2_def)
    show ?thesis unfolding QLProofResult_Verify_def h
      using v1 v2 by (simp add: r_def Verify_append Hash_eq_def)
  qed
  ultimately show ?thesis by (auto simp: r_def)
qed

text \<open>The version of a key counts the requests that wrote it.\<close>

lemma new_docs_nth:
  "j < length kvs \<Longrightarrow> data_key (doc_data (new_docs name n now latest i kvs ! j)) = fst (kvs ! j) \<and>
    version (doc_meta (new_docs name n now latest i kvs ! j)) = next_version latest (fst (kvs ! j))"
proof (induction kvs arbitrary: i j)
  case (Cons kv kvs)
  then show ?case by (cases kv; cases j) auto
qed simp

lemma next_version_set:
  "next_version (l_latest (ledger_set E name r L)) key =
    next_version (l_latest L) key + (if key \<in> fst ` set (snd (snd r)) then 1 else 0)"
proof -
  obtain now junk kvs where r: "r = (now, junk, kvs)" by (cases r)
  let ?docs = "new_docs name (length (l_blocks L)) now (l_latest L) 0 kvs" and ?z = "rev (zip (map fst kvs) (new_docs name (length (l_blocks L)) now (l_latest L) 0 kvs))"
  have latest: "l_latest (ledger_set E name r L) = l_latest L ++ map_of ?z" by (simp add: ledger_set_def r Let_def)
  show ?thesis
  proof (cases "map_of ?z key")
    case None
    then have "key \<notin> fst ` set ?z" by (simp add: map_of_eq_None_iff)
    moreover have "fst ` set ?z = set (map fst (zip (map fst kvs) ?docs))" by (simp only: set_rev list.set_map)
    then have "fst ` set ?z = fst ` set kvs" by (simp only: map_fst_zip length_map length_new_docs list.set_map)
    ultimately have "key \<notin> fst ` set kvs" by simp
    then show ?thesis unfolding latest using None by (simp add: map_add_def next_version_def r)
  next
    case (Some doc)
    then have "(key, doc) \<in> set (zip (map fst kvs) ?docs)" by (metis map_of_SomeD set_rev)
    then obtain j where j: "j < length kvs" "key = fst (kvs ! j)" "doc = ?docs ! j" by (auto simp: set_zip)
    then have "version (doc_meta doc) = next_version (l_latest L) key" using new_docs_nth [OF j(1)] by simp
    moreover have "key \<in> fst ` set kvs" using j by auto
    ultimately show ?thesis unfolding latest next_version_def [of "l_latest L ++ _"] using Some by (simp add: map_add_def r)
  qed
qed

lemma next_version_count:
  "next_version (l_latest (ledger_of E name rs)) key = length (filter (\<lambda>r. key \<in> fst ` set (snd (snd r))) rs)"
proof -
  have "next_version (l_latest (fold (ledger_set E name) rs L)) key =
      next_version (l_latest L) key + length (filter (\<lambda>r. key \<in> fst ` set (snd (snd r))) rs)" for L
    by (induction rs arbitrary: L) (simp_all add: next_version_set)
  then show ?thesis by (simp add: ledger_of_def empty_ledger_def next_version_def)
qed

text \<open>
  C5: the QLDB digest.  After any non-empty history of \<open>QLDB::Set\<close> calls on an empty store, each of which
  succeeds, \<open>digest\<close> returns the number of the last block and the root of the hash tree over the
  hashes of all blocks; the block hashes are roots over the documents and the previous hash.
\<close>

theorem QLDB_digest_history:
  assumes "ext_ok E" "sizes_ok C ''COMMITTED_'' K" "sizes_ok C ''HISTORY_'' K" "rocks_get E s = Map.empty" "name_ok name"
    and "\<forall>r\<in>set rs. request_ok K name r" "entries_of rs < 2 ^ 32" "rs \<noteq> []"
  shows "\<exists>q. QLDB_Sets E C name rs (QLDB_new E s) = Some q \<and> QLDB_digest E q name =
    Inr (length rs - 1, ToBase32 (Some (tree_root E (map (block_root E) (l_blocks (ledger_of E name rs))))))"
proof -
  obtain q where q: "QLDB_Sets E C name rs (QLDB_new E s) = Some q" "ql_inv E C K (entries_of rs) q name (ledger_of E name rs)"
    using QLDB_history_inv [OF assms(1-7)] by blast
  have "length (l_blocks (fold (ledger_set E name) rs L)) = length (l_blocks L) + length rs" for L
    by (induction rs arbitrary: L) (auto simp: ledger_set_def Let_def)
  then have len: "length (l_blocks (ledger_of E name rs)) = length rs" by (simp add: ledger_of_def empty_ledger_def)
  then have "l_blocks (ledger_of E name rs) \<noteq> []" using assms(8) by (metis length_0_conv)
  then show ?thesis using q(1) QLDB_digest_inv [OF q(2) assms(7)] len by simp
qed

text \<open>
  C6: QLDB proofs verify.  After such a history, \<open>getProof\<close> for any document of any block, against the
  latest block as tip, returns that document with a proof that \<open>QLProofResult::Verify\<close> accepts for
  the digest.
\<close>

theorem QLDB_proof_history:
  assumes "ext_ok E" "sizes_ok C ''COMMITTED_'' K" "sizes_ok C ''HISTORY_'' K" "rocks_get E s = Map.empty" "name_ok name"
    and "\<forall>r\<in>set rs. request_ok K name r" "entries_of rs < 2 ^ 32"
    and "b < length (l_blocks (ledger_of E name rs))" "i < length (b_docs (l_blocks (ledger_of E name rs) ! b))"
  shows "\<exists>q r q' tip dig. QLDB_Sets E C name rs (QLDB_new E s) = Some q \<and> QLDB_digest E q name = Inr (tip, ToBase32 dig) \<and>
    QLDB_getProof E q name tip b i = Some (Some r, q') \<and>
    \<lparr>doc_addr = pr_addr r, doc_data = pr_data r, doc_meta = pr_meta r\<rparr> = b_docs (l_blocks (ledger_of E name rs) ! b) ! i \<and>
    QLProofResult_Verify E r dig = Inr True"
proof -
  obtain q where q: "QLDB_Sets E C name rs (QLDB_new E s) = Some q" "ql_inv E C K (entries_of rs) q name (ledger_of E name rs)"
    using QLDB_history_inv [OF assms(1-7)] by blast
  have "l_blocks (ledger_of E name rs) \<noteq> []" using assms(8) by auto
  then show ?thesis using q(1) QLDB_digest_inv [OF q(2) assms(7)] QLDB_getProof_inv [OF assms(1) q(2) assms(8,9)] by blast
qed

text \<open>
  C7: QLDB reads.  After such a history, \<open>GetCommitted\<close> returns the latest document of every key, whose
  version counts the calls that wrote the key before, and nothing for a key never written.
\<close>

theorem QLDB_latest_history:
  assumes "ext_ok E" "sizes_ok C ''COMMITTED_'' K" "sizes_ok C ''HISTORY_'' K" "rocks_get E s = Map.empty" "name_ok name"
    and "\<forall>r\<in>set rs. request_ok K name r" "entries_of rs < 2 ^ 32"
  shows "\<exists>q q'. QLDB_Sets E C name rs (QLDB_new E s) = Some q \<and>
    GetCommitted E q key = Some (Option.bind (l_latest (ledger_of E name rs) key) doc_chunk, q') \<and>
    next_version (l_latest (ledger_of E name rs)) key = length (filter (\<lambda>r. key \<in> fst ` set (snd (snd r))) rs)"
proof -
  obtain q where q: "QLDB_Sets E C name rs (QLDB_new E s) = Some q" "ql_inv E C K (entries_of rs) q name (ledger_of E name rs)"
    using QLDB_history_inv [OF assms(1-7)] by blast
  have "GetCommitted E q key = Some (Option.bind (l_latest (ledger_of E name rs) key) doc_chunk, q') \<Longrightarrow> ?thesis" for q'
    using q(1) next_version_count [of E name rs key] by blast
  then show ?thesis using GetCommitted_inv [OF q(2) assms(7), of key] by (auto split: option.splits)
qed

section \<open>An example ledger\<close>

definition example_requests :: "request list" where
  "example_requests = [(1, replicate 18 CHR ''x'', [(''a'', ''1''), (''b'', ''2'')]), (2, replicate 18 CHR ''y'', [(''a'', ''3'')])]"

lemma example_ok:
  "sizes_ok BPlusConfig_default ''COMMITTED_'' 100" "sizes_ok BPlusConfig_default ''HISTORY_'' 100" "rocks_get map_ext Map.empty = Map.empty"
  "name_ok ''L''" "\<forall>r\<in>set example_requests. request_ok 100 ''L'' r" "entries_of example_requests < 2 ^ 32" "example_requests \<noteq> []"
  by (simp_all add: sizes_ok_def BPlusConfig_default_def map_ext_def name_ok_def example_requests_def request_ok_def entries_of_def fun_eq_iff)

theorem QLDB_digest_history_witness:
  "\<exists>q. QLDB_Sets map_ext BPlusConfig_default ''L'' example_requests (QLDB_new map_ext Map.empty) = Some q \<and> QLDB_digest map_ext q ''L'' =
    Inr (length example_requests - 1, ToBase32 (Some (tree_root map_ext (map (block_root map_ext) (l_blocks (ledger_of map_ext ''L'' example_requests))))))"
  by (rule QLDB_digest_history [OF ext_ok_map_ext example_ok])

lemma example_blocks:
  "0 < length (l_blocks (ledger_of map_ext ''L'' example_requests))" "1 < length (b_docs (l_blocks (ledger_of map_ext ''L'' example_requests) ! 0))"
  by (simp_all add: ledger_of_def example_requests_def ledger_set_def Let_def empty_ledger_def)

theorem QLDB_proof_history_witness:
  "\<exists>q r q' tip dig. QLDB_Sets map_ext BPlusConfig_default ''L'' example_requests (QLDB_new map_ext Map.empty) = Some q \<and>
    QLDB_digest map_ext q ''L'' = Inr (tip, ToBase32 dig) \<and> QLDB_getProof map_ext q ''L'' tip 0 1 = Some (Some r, q') \<and>
    \<lparr>doc_addr = pr_addr r, doc_data = pr_data r, doc_meta = pr_meta r\<rparr> = b_docs (l_blocks (ledger_of map_ext ''L'' example_requests) ! 0) ! 1 \<and>
    QLProofResult_Verify map_ext r dig = Inr True"
  by (rule QLDB_proof_history [OF ext_ok_map_ext example_ok(1-6) example_blocks])

theorem QLDB_latest_history_witness:
  "\<exists>q q'. QLDB_Sets map_ext BPlusConfig_default ''L'' example_requests (QLDB_new map_ext Map.empty) = Some q \<and>
    GetCommitted map_ext q ''a'' = Some (Option.bind (l_latest (ledger_of map_ext ''L'' example_requests) ''a'') doc_chunk, q') \<and>
    next_version (l_latest (ledger_of map_ext ''L'' example_requests)) ''a'' = 2"
proof -
  have "length (filter (\<lambda>r. ''a'' \<in> fst ` set (snd (snd r))) example_requests) = 2" by (simp add: example_requests_def)
  then show ?thesis using QLDB_latest_history [OF ext_ok_map_ext example_ok(1-6), of "''a''"] by (simp only:)
qed

end
