(* ===== verification/SQL_Ledger.thy ===== *)
theory SQL_Ledger
  imports SQL_Merkle Txn_Log QL_Ledger
begin

text \<open>
  \<open>ledger/sqlledger/sqlledger.cc\<close>: a client thread that appends transactions to a buffer, an index and a
  write-ahead log, and a background thread that turns the buffer into hash-chained blocks.  The two
  run as steps of one transition system.  Shown here: in every reachable state the blocks form a
  chain that ends in the published digest, so block proofs verify, and so do the proofs of the
  transactions of a block; an auditor rebuilds other documents than the ones committed.
\<close>

section \<open>Model\<close>

record 's SQLLedger =
  sq_logger :: Logger
  sq_db :: "'s DB"
  sq_buffer :: "(nat \<times> string list) list"
  sq_block_seq :: nat
  sq_tid :: nat
  sq_indexed :: QLBTree
  sq_history :: QLBTree
  sq_dummy :: Hash

definition SQLLedger_new :: "'s ext \<Rightarrow> 's \<Rightarrow> string \<Rightarrow> string \<Rightarrow> 's SQLLedger" where
  "SQLLedger_new E s w i = (let (ix, d1) = QLBTree_new E (DB_Open s) ''COMMITTED_''; (hi, d2) = QLBTree_new E d1 ''HISTORY_''
     in \<lparr>sq_logger = Logger_open w i, sq_db = d2, sq_buffer = [], sq_block_seq = 0, sq_tid = 0, sq_indexed = ix,
         sq_history = hi, sq_dummy = ComputeFrom E ''0''\<rparr>)"

text \<open>\<open>std::map::emplace\<close> on the buffer, a map ordered by transaction id.\<close>

fun buf_emplace :: "nat \<Rightarrow> string list \<Rightarrow> (nat \<times> string list) list \<Rightarrow> (nat \<times> string list) list" where
  "buf_emplace k v [] = [(k, v)]"
| "buf_emplace k v ((k', v') # b) =
     (if k < k' then (k, v) # (k', v') # b else if k = k' then (k', v') # b else (k', v') # buf_emplace k v b)"

subsection \<open>The builder thread\<close>

abbreviation txn_key :: "nat \<Rightarrow> string" where
  "txn_key n \<equiv> ''txn'' @ to_string n"

abbreviation blk_key :: "nat \<Rightarrow> string" where
  "blk_key n \<equiv> ''blk'' @ to_string n"

definition txn_entry :: "string \<Rightarrow> nat \<Rightarrow> nat \<Rightarrow> string \<Rightarrow> string \<Rightarrow> string" where
  "txn_entry txnid blk seq txnroot level =
     txnid @ ''|'' @ to_string blk @ ''|'' @ to_string seq @ ''|'' @ txnroot @ ''|'' @ level"

fun build_txns :: "'s ext \<Rightarrow> nat \<Rightarrow> nat \<Rightarrow> (nat \<times> string list) list \<Rightarrow> 's DB \<Rightarrow> 's DB \<times> string list" where
  "build_txns E blk seq [] d = (d, [])"
| "build_txns E blk seq ((t, docs) # txns) d =
     (let txnid = txn_key t; (d1, level, txnroot) = smt_Build E d txnid docs;
          entry = txn_entry txnid blk seq txnroot level;
          (d2, leaves) = build_txns E blk (seq + 1) txns (db_put E d1 txnid entry)
      in (d2, entry # leaves))"

text \<open>The critical section of \<open>updateLedger\<close> and the rest of an iteration.\<close>

definition cut_block :: "'s SQLLedger \<Rightarrow> (nat \<times> (nat \<times> string list) list) \<times> 's SQLLedger" where
  "cut_block q = ((sq_block_seq q, sq_buffer q),
     q\<lparr>sq_block_seq := (sq_block_seq q + 1) mod 2 ^ 64, sq_buffer := [], sq_logger := Logger_index (sq_logger q) (sq_block_seq q)\<rparr>)"

definition persist_block :: "'s ext \<Rightarrow> nat \<Rightarrow> (nat \<times> string list) list \<Rightarrow> 's DB \<Rightarrow> 's DB" where
  "persist_block E blk txns d =
     (let (d1, leaves) = build_txns E blk 0 txns d; block_key = blk_key blk;
          (d2, level, root_hash) = smt_Build E d1 block_key leaves;
          prev_hash = splitBy (DB_Get_str E d2 ''digest'') (CHR ''|'') ! 0;
          newblock = prev_hash @ ''|'' @ root_hash @ ''|'' @ level;
          newhash = ToBase32 (ComputeFrom E newblock)
      in db_put E (db_put E d2 block_key newblock) ''digest'' (newhash @ ''|'' @ to_string blk))"

subsection \<open>The client thread\<close>

text \<open>\<open>Set\<close> in its phases: documents and buffer under the lock, history keys and index, log, advance.\<close>

definition sql_document :: "nat \<Rightarrow> string \<Rightarrow> nat \<Rightarrow> string \<Rightarrow> string \<Rightarrow> nat \<Rightarrow> string" where
  "sql_document blk txnid i key val now =
     to_string blk @ ''|'' @ txnid @ ''|'' @ to_string i @ ''|'' @ key @ ''|'' @ val @ ''|'' @ to_string now"

definition sql_documents :: "nat \<Rightarrow> string \<Rightarrow> nat \<Rightarrow> string list \<Rightarrow> string list \<Rightarrow> string list" where
  "sql_documents blk txnid now keys vals =
     map (\<lambda>i. sql_document blk txnid i (keys ! i) (vals ! i) now) [0..<length keys]"

definition set_buffer :: "'s SQLLedger \<Rightarrow> nat \<Rightarrow> string list \<Rightarrow> string list \<Rightarrow> ((nat \<times> string list) \<times> 's SQLLedger) result" where
  "set_buffer q now keys vals =
     (if length vals < length keys then Inl Out_of_bounds
      else let blk = sq_block_seq q; docs = sql_documents blk (txn_key (sq_tid q)) now keys vals
        in Inr ((blk, docs), q\<lparr>sq_buffer := buf_emplace (sq_tid q) docs (sq_buffer q)\<rparr>))"

definition hist_puts :: "nat \<Rightarrow> string list \<Rightarrow> string list \<Rightarrow> (string \<times> string) list" where
  "hist_puts blk keys docs = map (\<lambda>(k, doc). (k @ ''|'' @ to_string blk, doc)) (zip keys docs)"

definition set_index :: "'s ext \<Rightarrow> BPlusConfig \<Rightarrow> nat \<Rightarrow> string list \<Rightarrow> string list \<Rightarrow> 's SQLLedger \<Rightarrow> 's SQLLedger option" where
  "set_index E C blk keys docs q =
     map_option (\<lambda>(b, ix, d). q\<lparr>sq_db := d, sq_indexed := ix\<rparr>)
       (QLBTree_SetMany E C (sq_indexed q) keys docs (put_all E (sq_db q) (hist_puts blk keys docs)))"

text \<open>\<open>tid_ - 1\<close> is a 64-bit subtraction.\<close>

definition log_chunk :: "'s SQLLedger \<Rightarrow> nat \<Rightarrow> string list \<Rightarrow> string list \<Rightarrow> Chunk result" where
  "log_chunk q now keys vals = TxnEntry_Encode now keys vals (sq_dummy q) ((sq_tid q + 2 ^ 64 - 1) mod 2 ^ 64)"

definition set_log :: "Chunk \<Rightarrow> 's SQLLedger \<Rightarrow> 's SQLLedger" where
  "set_log c q = q\<lparr>sq_logger := Logger_log (sq_logger q) (chunk_bytes c)\<rparr>"

definition set_advance :: "Chunk \<Rightarrow> 's SQLLedger \<Rightarrow> 's SQLLedger" where
  "set_advance c q = q\<lparr>sq_logger := Logger_advance (sq_logger q) (numBytes c), sq_tid := (sq_tid q + 1) mod 2 ^ 64\<rparr>"

text \<open>\<open>Set\<close> without interruption.\<close>

definition SQLLedger_Set :: "'s ext \<Rightarrow> BPlusConfig \<Rightarrow> nat \<Rightarrow> 's SQLLedger \<Rightarrow> string list \<Rightarrow> string list
    \<Rightarrow> (nat \<times> 's SQLLedger) result option" where
  "SQLLedger_Set E C now q keys vals = (case set_buffer q now keys vals of Inl e \<Rightarrow> Some (Inl e)
     | Inr ((blk, docs), q1) \<Rightarrow> Option.bind (set_index E C blk keys docs q1) (\<lambda>q2.
         case log_chunk q2 now keys vals of Inl e \<Rightarrow> Some (Inl e)
         | Inr c \<Rightarrow> Some (Inr (blk, set_advance c (set_log c q2)))))"

subsection \<open>Reads and proofs\<close>

definition SQL_GetDigest :: "'s ext \<Rightarrow> 's SQLLedger \<Rightarrow> (nat \<times> string) result" where
  "SQL_GetDigest E q = (let res = splitBy (DB_Get_str E (sq_db q) ''digest'') (CHR ''|'')
     in rbind (vec_at res 0) (\<lambda>h. rbind (vec_at res 1) (\<lambda>t. rbind (stoul t) (\<lambda>tip. Inr (tip, h)))))"

definition SQL_GetCommitted :: "'s ext \<Rightarrow> 's SQLLedger \<Rightarrow> string \<Rightarrow> (string \<times> 's SQLLedger) option" where
  "SQL_GetCommitted E q key = map_option (\<lambda>(v, d). (v, q\<lparr>sq_db := d\<rparr>)) (QLBTree_Get E (sq_indexed q) key (sq_db q))"

definition GetDataAtBlock :: "'s ext \<Rightarrow> 's SQLLedger \<Rightarrow> string \<Rightarrow> nat \<Rightarrow> string" where
  "GetDataAtBlock E q key blk = DB_Get_str E (sq_db q) (key @ ''|'' @ to_string blk)"

definition SQL_Range :: "'s ext \<Rightarrow> 's SQLLedger \<Rightarrow> string \<Rightarrow> string \<Rightarrow> ((string \<rightharpoonup> string) \<times> 's SQLLedger) option" where
  "SQL_Range E q from to = map_option (\<lambda>(r, d). (r, q\<lparr>sq_db := d\<rparr>)) (QLBTree_Range E (sq_indexed q) from to (sq_db q))"

text \<open>
  \<open>GetHistory\<close> runs an iterator of RocksDB; \<open>entries\<close> is what the iterator delivers from \<open>Seek(key|)\<close> on.
\<close>

fun history_scan :: "string \<Rightarrow> nat \<Rightarrow> (string \<times> string) list \<Rightarrow> string list" where
  "history_scan p n [] = []"
| "history_scan p n ((k, v) # es) =
     (if take (length p) k = p then v # (if n \<le> 1 then [] else history_scan p (n - 1) es) else [])"

definition SQL_GetHistory :: "(string \<Rightarrow> (string \<times> string) list) \<Rightarrow> string \<Rightarrow> nat \<Rightarrow> string list" where
  "SQL_GetHistory entries key n = (if n = 0 then [] else history_scan (key @ ''|'') n (entries (key @ ''|'')))"

text \<open>The blocks \<open>block_addr .. tip\<close> and the level in the first of them.\<close>

definition chain_read :: "'s ext \<Rightarrow> 's DB \<Rightarrow> nat \<Rightarrow> nat \<Rightarrow> string list" where
  "chain_read E d a tip = map (\<lambda>i. DB_Get_str E d (blk_key i)) [a..<tip + 1]"

definition block_field :: "string \<Rightarrow> nat \<Rightarrow> string result" where
  "block_field block i = vec_at (splitBy block (CHR ''|'')) i"

text \<open>\<open>*level\<close> stays uninitialised when the range is empty.\<close>

definition getBlockProof :: "'s ext \<Rightarrow> 's SQLLedger \<Rightarrow> nat \<Rightarrow> nat \<Rightarrow> (string list \<times> nat option) result" where
  "getBlockProof E q block_addr tip = (let blks = chain_read E (sq_db q) block_addr tip in
     case blks of [] \<Rightarrow> Inr ([], None)
     | b # bs \<Rightarrow> rbind (rbind (block_field b 2) stoul) (\<lambda>l. Inr (blks, Some l)))"

text \<open>The loop of \<open>BlockProof::Verify\<close> over the blocks from the last to the first.\<close>

fun chain_verify :: "'s ext \<Rightarrow> string list \<Rightarrow> string \<Rightarrow> string \<Rightarrow> (bool \<times> string) result" where
  "chain_verify E [] target root = Inr (True, root)"
| "chain_verify E (b # bs) target root =
     (if ToBase32 (ComputeFrom E b) \<noteq> target then Inr (False, root)
      else rbind (block_field b 0) (\<lambda>t. rbind (block_field b 1) (\<lambda>r. chain_verify E bs t r)))"

definition BlockProof_Verify :: "'s ext \<Rightarrow> string list \<Rightarrow> string \<Rightarrow> string \<Rightarrow> (bool \<times> string) result" where
  "BlockProof_Verify E blks hash root0 = chain_verify E (rev blks) hash root0"

record DetailProof =
  txn_proof :: Proof
  data_proof :: Proof

definition getDetailProof :: "'s ext \<Rightarrow> 's SQLLedger \<Rightarrow> string \<Rightarrow> nat \<Rightarrow> nat \<Rightarrow> DetailProof result" where
  "getDetailProof E q key block_addr level =
     (let doc = GetDataAtBlock E q key block_addr; docitems = splitBy doc (CHR ''|'')
      in rbind (vec_at docitems 1) (\<lambda>txnid. rbind (rbind (vec_at docitems 2) stoul) (\<lambda>docseq.
           let txn = DB_Get_str E (sq_db q) txnid; txnitems = splitBy txn (CHR ''|'')
           in rbind (rbind (vec_at txnitems 2) stoul) (\<lambda>txnseq. rbind (vec_at txnitems 3) (\<lambda>txnroot.
                rbind (rbind (vec_at txnitems 4) stoul) (\<lambda>txnrootlevel.
                  Inr \<lparr>txn_proof = (smt_GetProof E (sq_db q) (blk_key block_addr) level txnseq)\<lparr>pvalue := txn\<rparr>,
                       data_proof = (smt_GetProof E (sq_db q) (''txn'' @ txnid) txnrootlevel docseq)\<lparr>pvalue := doc\<rparr>\<rparr>))))))"

definition DetailProof_Verify :: "'s ext \<Rightarrow> DetailProof \<Rightarrow> string \<Rightarrow> bool result" where
  "DetailProof_Verify E p hash =
     (if hash \<noteq> digest (txn_proof p) then Inr False
      else rbind (smt_Verify E (txn_proof p)) (\<lambda>ok. if \<not> ok then Inr False
        else rbind (vec_at (splitBy (pvalue (txn_proof p)) (CHR ''|'')) 3) (\<lambda>txn_mt_root.
          if txn_mt_root \<noteq> digest (txn_proof p) then Inr False else smt_Verify E (data_proof p))))"

subsection \<open>Auditing\<close>

record Auditor =
  au_blks :: "string list"
  au_txns :: string
  au_digest :: string
  au_block_seq :: nat

definition SQL_getAudit :: "'s ext \<Rightarrow> 's SQLLedger \<Rightarrow> nat \<Rightarrow> Auditor result" where
  "SQL_getAudit E q seq =
     rbind (Logger_read (sq_logger q) seq) (\<lambda>(txns, block_addr).
     rbind (SQL_GetDigest E q) (\<lambda>(tip, dig).
       let blks = chain_read E (sq_db q) block_addr tip; a = \<lparr>au_blks = blks, au_txns = txns, au_digest = dig, au_block_seq = block_addr\<rparr>
       in case blks of [] \<Rightarrow> Inr a
          | b # bs \<Rightarrow> rbind (rbind (block_field b 2) stoul) (\<lambda>level. rbind (block_field b 1) (\<lambda>blkroot. Inr a))))"

text \<open>The transactions of a block as the auditor rebuilds them from the log entries.\<close>

definition audit_documents :: "nat \<Rightarrow> TxnEntry \<Rightarrow> string list" where
  "audit_documents blk e = sql_documents blk (txn_key (te_txnid e)) (te_time e) (te_keys e) (te_vals e)"

fun audit_txns :: "'s ext \<Rightarrow> nat \<Rightarrow> nat \<Rightarrow> TxnEntry list \<Rightarrow> 's DB \<Rightarrow> 's DB \<times> string list" where
  "audit_txns E blk j [] d = (d, [])"
| "audit_txns E blk j (e # es) d =
     (let (d1, level, txnroot) = smt_Build E d (txn_key (te_txnid e)) (audit_documents blk e);
          (d2, buffer) = audit_txns E blk (j + 1) es d1
      in (d2, txn_entry (txn_key (te_txnid e)) blk j txnroot level # buffer))"

definition Auditor_Audit :: "'s ext \<Rightarrow> 's DB \<Rightarrow> Auditor \<Rightarrow> (bool \<times> nat \<times> 's DB) result option" where
  "Auditor_Audit E d a = (case chain_verify E (rev (au_blks a)) (au_digest a) [] of Inl e \<Rightarrow> Some (Inl e)
     | Inr (ok, blk_mt_root) \<Rightarrow> if \<not> ok then Some (Inr (False, 0, d))
       else Option.bind (ParseTxnEntries (au_txns a)) (\<lambda>entries.
         let (d1, buffer) = audit_txns E (au_block_seq a) 0 entries d;
             (d2, level, root_hash) = smt_Build E d1 (blk_key (au_block_seq a)) buffer
         in Some (Inr (root_hash = blk_mt_root, length entries, d2))))"

section \<open>The two threads\<close>

datatype client = Idle
  | Buffered nat "string list" "string list" nat "string list"
  | Indexed nat "string list" "string list"
  | Logged Chunk

datatype builder = Sleeping | Persisting nat "(nat \<times> string list) list"

record 's sys =
  sys_q :: "'s SQLLedger"
  sys_client :: client
  sys_builder :: builder

text \<open>
  A client that uses keys without the separator, and a builder that runs until its block counter
  would wrap.  Each phase of \<open>Set\<close> and of an iteration of \<open>updateLedger\<close> is one step.
\<close>

inductive sql_step :: "'s ext \<Rightarrow> BPlusConfig \<Rightarrow> 's sys \<Rightarrow> 's sys \<Rightarrow> bool" for E C where
  c_buffer: "sys_client s = Idle \<Longrightarrow> \<forall>k\<in>set keys. CHR ''|'' \<notin> set k \<Longrightarrow> set_buffer (sys_q s) now keys vals = Inr ((blk, docs), q') \<Longrightarrow>
    sql_step E C s (s\<lparr>sys_q := q', sys_client := Buffered now keys vals blk docs\<rparr>)"
| c_index: "sys_client s = Buffered now keys vals blk docs \<Longrightarrow> set_index E C blk keys docs (sys_q s) = Some q' \<Longrightarrow>
    sql_step E C s (s\<lparr>sys_q := q', sys_client := Indexed now keys vals\<rparr>)"
| c_log: "sys_client s = Indexed now keys vals \<Longrightarrow> log_chunk (sys_q s) now keys vals = Inr c \<Longrightarrow>
    sql_step E C s (s\<lparr>sys_q := set_log c (sys_q s), sys_client := Logged c\<rparr>)"
| c_advance: "sys_client s = Logged c \<Longrightarrow>
    sql_step E C s (s\<lparr>sys_q := set_advance c (sys_q s), sys_client := Idle\<rparr>)"
| b_cut: "sys_builder s = Sleeping \<Longrightarrow> sq_buffer (sys_q s) \<noteq> [] \<Longrightarrow> sq_block_seq (sys_q s) < 2 ^ 64 - 1 \<Longrightarrow>
    cut_block (sys_q s) = ((blk, txns), q') \<Longrightarrow> sql_step E C s (s\<lparr>sys_q := q', sys_builder := Persisting blk txns\<rparr>)"
| b_persist: "sys_builder s = Persisting blk txns \<Longrightarrow>
    sql_step E C s (s\<lparr>sys_q := (sys_q s)\<lparr>sq_db := persist_block E blk txns (sq_db (sys_q s))\<rparr>, sys_builder := Sleeping\<rparr>)"

definition sys_init :: "'s ext \<Rightarrow> 's \<Rightarrow> string \<Rightarrow> string \<Rightarrow> 's sys" where
  "sys_init E s w i = \<lparr>sys_q = SQLLedger_new E s w i, sys_client = Idle, sys_builder = Sleeping\<rparr>"

inductive sql_reach :: "'s ext \<Rightarrow> BPlusConfig \<Rightarrow> 's sys \<Rightarrow> 's sys \<Rightarrow> bool" for E C s where
  reach_refl: "sql_reach E C s s"
| reach_step: "sql_reach E C s t \<Longrightarrow> sql_step E C t u \<Longrightarrow> sql_reach E C s u"

section \<open>The chain of blocks\<close>

abbreviation entries_root :: "'s ext \<Rightarrow> string list \<Rightarrow> string" where
  "entries_root E es \<equiv> tree_root E (leaf_hashes E es)"

abbreviation block_hash :: "'s ext \<Rightarrow> string \<Rightarrow> string" where
  "block_hash E b \<equiv> ToBase32 (ComputeFrom E b)"

definition chain_blocks :: "'s ext \<Rightarrow> string list list \<Rightarrow> string list \<Rightarrow> bool" where
  "chain_blocks E ess blks \<longleftrightarrow> length blks = length ess \<and> (\<forall>i<length ess. ess ! i \<noteq> [] \<and> length (ess ! i) \<le> 2 ^ 64 \<and>
     blks ! i = (if i = 0 then [] else block_hash E (blks ! (i - 1))) @ ''|'' @ b32 (entries_root E (ess ! i)) @ ''|'' @
       to_string (height (length (ess ! i))))"

definition chain_stored :: "'s ext \<Rightarrow> (string \<rightharpoonup> string) \<Rightarrow> string list list \<Rightarrow> string list \<Rightarrow> bool" where
  "chain_stored E m ess blks \<longleftrightarrow> chain_blocks E ess blks \<and> (\<forall>i<length ess. m (blk_key i) = Some (blks ! i)) \<and>
     m ''digest'' = (if ess = [] then None else Some (block_hash E (last blks) @ ''|'' @ to_string (length ess - 1))) \<and>
     (\<forall>i<length ess. smt_nodes E m (blk_key i) (leaf_hashes E (ess ! i))) \<and>
     (\<forall>i\<ge>length ess. \<forall>l j. m (smt_key (blk_key i) l j) = None)"

definition chain_keys :: "string set" where
  "chain_keys = insert ''digest'' (range blk_key) \<union> {smt_key (blk_key i) l j | i l j. True}"

lemma chain_keys_mem [simp]: "''digest'' \<in> chain_keys" "blk_key i \<in> chain_keys" "smt_key (blk_key i) l j \<in> chain_keys"
  by (auto simp: chain_keys_def)

lemma chain_stored_cong:
  assumes "chain_stored E m ess blks" "\<And>x. x \<in> chain_keys \<Longrightarrow> m' x = m x"
  shows "chain_stored E m' ess blks"
proof -
  have "m' ''digest'' = m ''digest''" "\<And>i. m' (blk_key i) = m (blk_key i)" "\<And>i l j. m' (smt_key (blk_key i) l j) = m (smt_key (blk_key i) l j)"
    using assms(2) [OF chain_keys_mem(1)] assms(2) [OF chain_keys_mem(2)] assms(2) [OF chain_keys_mem(3)] by blast+
  then show ?thesis using assms(1) by (simp add: chain_stored_def smt_nodes_def)
qed

lemma chain_key_start: "x \<in> chain_keys \<Longrightarrow> hd x = CHR ''b'' \<or> hd x = CHR ''d''"
  by (auto simp: chain_keys_def smt_key_def)

lemma chain_not_hist: "CHR ''|'' \<notin> set k \<Longrightarrow> k @ ''|'' @ to_string n \<notin> chain_keys"
proof
  assume k: "CHR ''|'' \<notin> set k" and mem: "k @ ''|'' @ to_string n \<in> chain_keys"
  have bar: "CHR ''|'' \<in> set (k @ ''|'' @ to_string n)" by simp
  have "k @ ''|'' @ to_string n \<noteq> ''digest''" "\<And>i. k @ ''|'' @ to_string n \<noteq> blk_key i"
  proof -
    have "CHR ''|'' \<notin> set ''digest''" "CHR ''|'' \<notin> set (blk_key i)" for i by simp_all
    then show "k @ ''|'' @ to_string n \<noteq> ''digest''" "\<And>i. k @ ''|'' @ to_string n \<noteq> blk_key i" using bar by metis+
  qed
  then obtain i l j where "k @ ''|'' @ to_string n = smt_key (blk_key i) l j" using mem by (auto simp: chain_keys_def)
  then have eq: "k @ CHR ''|'' # to_string n = blk_key i @ CHR ''|'' # (to_string l @ ''|'' @ to_string j)" by (simp add: smt_key_def)
  have "to_string n = to_string l @ ''|'' @ to_string j"
    using sep_unique [THEN iffD1, OF k _ eq] by simp
  then have "CHR ''|'' \<in> set (to_string n)" by simp
  then show False by simp
qed

lemma smt_Build_other:
  assumes E: "ext_ok E" and x: "\<And>l j. x \<noteq> smt_key mtid l j"
  shows "db_map E (fst (smt_Build E d mtid leaves)) x = db_map E d x"
proof (cases "leaves = []")
  case True
  then show ?thesis by (simp add: smt_Build_def)
next
  case False
  then show ?thesis using smt_Build_spec [OF E False, of d mtid] x by (auto simp: smt_stored_def)
qed

lemma build_txns_spec:
  assumes E: "ext_ok E" and x: "hd x \<noteq> CHR ''t''"
  shows "db_map E (fst (build_txns E blk seq txns d)) x = db_map E d x \<and> length (snd (build_txns E blk seq txns d)) = length txns"
proof (induction txns arbitrary: seq d)
  case (Cons t txns)
  obtain n docs where t: "t = (n, docs)" by (cases t)
  have "x \<noteq> smt_key (txn_key n) l j" "x \<noteq> txn_key n" for l j using x by (auto simp: smt_key_def)
  then show ?case
    using Cons.IH smt_Build_other [OF E, of x "txn_key n" d docs] E by (simp add: t Let_def case_prod_unfold)
qed simp

lemma block_hash_text [simp]: "ext_ok E \<Longrightarrow> CHR ''|'' \<notin> set (block_hash E b)"
  by (subst ComputeFrom_Some) simp

lemma entries_root_20: "ext_ok E \<Longrightarrow> es \<noteq> [] \<Longrightarrow> length (entries_root E es) = 20"
  by (rule hashes20_root) (simp_all add: hashes20_leaf_hashes)

lemma chain_prev:
  assumes "ext_ok E" "chain_stored E m ess blks"
  shows "splitBy (case m ''digest'' of None \<Rightarrow> [] | Some v \<Rightarrow> v) (CHR ''|'') ! 0 = (if ess = [] then [] else block_hash E (last blks))"
  using assms by (auto simp: chain_stored_def splitBy_last splitBy_append)

lemma blk_keys_inject: "smt_key (blk_key i) l j = smt_key (blk_key i') l' j' \<longleftrightarrow> i = i' \<and> l = l' \<and> j = j'"
proof
  assume "smt_key (blk_key i) l j = smt_key (blk_key i') l' j'"
  then have eq: "blk_key i @ CHR ''|'' # (to_string l @ ''|'' @ to_string j) = blk_key i' @ CHR ''|'' # (to_string l' @ ''|'' @ to_string j')"
    by (simp add: smt_key_def)
  have "i = i'" using sep_unique [THEN iffD1, OF _ _ eq] by simp
  then show "i = i' \<and> l = l' \<and> j = j'" using \<open>smt_key _ _ _ = _\<close> smt_key_inject by blast
qed simp

lemma blk_key_not_node: "blk_key i \<noteq> smt_key mtid l j"
proof
  assume "blk_key i = smt_key mtid l j"
  then have "CHR ''|'' \<in> set (blk_key i)" by (simp add: smt_key_def)
  then show False by simp
qed

text \<open>One iteration of the builder appends one block.\<close>

lemma persist_block_chain:
  assumes E: "ext_ok E" and C: "chain_stored E (db_map E d) ess blks" and ne: "txns \<noteq> []" "length txns \<le> 2 ^ 64"
  defines "d' \<equiv> persist_block E (length ess) txns d" and "es \<equiv> snd (build_txns E (length ess) 0 txns d)"
  shows "\<exists>b. chain_stored E (db_map E d') (ess @ [es]) (blks @ [b])"
proof -
  let ?n = "length ess" and ?d1 = "fst (build_txns E (length ess) 0 txns d)"
  have es: "es \<noteq> []" "length es \<le> 2 ^ 64" using build_txns_spec [OF E, of "''x''" ?n 0 txns d] ne by (auto simp: es_def)
  have C1: "chain_stored E (db_map E ?d1) ess blks"
    by (rule chain_stored_cong [OF C]) (use chain_key_start build_txns_spec [OF E] in fastforce)
  obtain d2 where d2: "smt_Build E ?d1 (blk_key ?n) es = (d2, to_string (height (length es)), b32 (entries_root E es))"
      "smt_stored E ?d1 d2 (blk_key ?n) (leaf_hashes E es) (height (length es))"
    using smt_Build_spec [OF E es(1)] by blast
  have new: "smt_nodes E (db_map E d2) (blk_key ?n) (leaf_hashes E es)"
  proof (rule smt_stored_nodes)
    show "smt_stored E ?d1 d2 (blk_key ?n) (leaf_hashes E es) (height (length (leaf_hashes E es)))" using d2(2) by simp
    show "db_map E ?d1 (smt_key (blk_key ?n) l j) = None" for l j using C1 unfolding chain_stored_def by blast
  qed
  have old: "db_map E d2 x = db_map E ?d1 x" if "\<And>l j. x \<noteq> smt_key (blk_key ?n) l j" for x
    using d2(2) that unfolding smt_stored_def by blast
  let ?prev = "if ess = [] then [] else block_hash E (last blks)"
  let ?b = "?prev @ ''|'' @ b32 (entries_root E es) @ ''|'' @ to_string (height (length es))"
  have dg: "''digest'' \<noteq> smt_key mtid l j" for mtid l j
  proof
    assume "''digest'' = smt_key mtid l j"
    then have "CHR ''|'' \<in> set ''digest''" by (simp only: smt_key_def) simp
    then show False by simp
  qed
  have "splitBy (DB_Get_str E d2 ''digest'') (CHR ''|'') ! 0 = ?prev"
    using chain_prev [OF E C1] old [of "''digest''"] dg by (simp add: DB_Get_str_def DB_Get_def)
  then have m: "db_map E d' = (db_map E d2)(blk_key ?n \<mapsto> ?b, ''digest'' \<mapsto> block_hash E ?b @ ''|'' @ to_string ?n)"
    using d2(1) E by (simp add: d'_def persist_block_def case_prod_unfold Let_def es_def)
  have node: "db_map E d' (smt_key (blk_key i) l j) = db_map E d2 (smt_key (blk_key i) l j)" for i l j
    using blk_key_not_node [of ?n "blk_key i" l j] dg [of "blk_key i" l j] by (auto simp: m)
  have node_old: "db_map E d' (smt_key (blk_key i) l j) = db_map E ?d1 (smt_key (blk_key i) l j)" if "i \<noteq> ?n" for i l j
    unfolding node using that by (intro old) (simp only: blk_keys_inject simp_thms)
  have blk_old: "db_map E d' (blk_key i) = db_map E ?d1 (blk_key i)" if "i \<noteq> ?n" for i
    using that old [of "blk_key i"] blk_key_not_node by (simp add: m)
  have len: "length blks = ?n" using C by (simp add: chain_stored_def chain_blocks_def)
  have last: "last blks = blks ! (?n - 1)" if "ess \<noteq> []" using that len by (metis last_conv_nth length_0_conv)
  have blocks: "chain_blocks E (ess @ [es]) (blks @ [?b])"
    using C es len last by (auto simp: chain_stored_def chain_blocks_def nth_append less_Suc_eq)
  have stored: "\<forall>i<length (ess @ [es]). db_map E d' (blk_key i) = Some ((blks @ [?b]) ! i)"
    using C1 blk_old len by (auto simp: chain_stored_def nth_append less_Suc_eq m)
  have nodes: "\<forall>i<length (ess @ [es]). smt_nodes E (db_map E d') (blk_key i) (leaf_hashes E ((ess @ [es]) ! i))"
    using C1 new node_old node by (auto simp: chain_stored_def smt_nodes_def nth_append less_Suc_eq)
  have "\<forall>i\<ge>length (ess @ [es]). \<forall>l j. db_map E d' (smt_key (blk_key i) l j) = None"
    using C1 node_old by (simp add: chain_stored_def)
  then have "chain_stored E (db_map E d') (ess @ [es]) (blks @ [?b])"
    unfolding chain_stored_def using blocks stored nodes by (simp add: m)
  then show ?thesis by blast
qed

section \<open>The invariant of the two threads\<close>

fun builder_ok :: "builder \<Rightarrow> nat \<Rightarrow> nat \<Rightarrow> bool" where
  "builder_ok Sleeping seq n \<longleftrightarrow> seq = n"
| "builder_ok (Persisting blk txns) seq n \<longleftrightarrow> blk = n \<and> seq = n + 1 \<and> txns \<noteq> [] \<and> length txns \<le> 2 ^ 64"

text \<open>The buffer is ordered by transaction id, so it has at most $2^{64}$ entries.\<close>

definition buffer_ok :: "(nat \<times> string list) list \<Rightarrow> bool" where
  "buffer_ok b \<longleftrightarrow> sorted_wrt (<) (map fst b) \<and> (\<forall>t\<in>set b. fst t < 2 ^ 64)"

lemma set_buf_emplace: "fst ` set (buf_emplace k v b) = insert k (fst ` set b)"
  by (induction k v b rule: buf_emplace.induct) auto

lemma buffer_ok_emplace:
  assumes "buffer_ok b" "k < 2 ^ 64"
  shows "buffer_ok (buf_emplace k v b)"
proof -
  have sorted: "sorted_wrt (<) (map fst (buf_emplace k v b))" if "sorted_wrt (<) (map fst b)" for b
    using that
  proof (induction k v b rule: buf_emplace.induct)
    case (2 k v k' v' b)
    have "\<forall>x\<in>fst ` set (buf_emplace k v b). k' < x" if "\<not> k < k'" "k \<noteq> k'"
      using 2(2) that unfolding set_buf_emplace by auto
    then show ?case using 2 by auto
  qed simp
  have "\<forall>x\<in>fst ` set (buf_emplace k v b). x < 2 ^ 64" using assms unfolding set_buf_emplace by (auto simp: buffer_ok_def)
  then show ?thesis using sorted assms(1) by (simp add: buffer_ok_def)
qed

lemma buffer_ok_length:
  assumes "buffer_ok b"
  shows "length b \<le> 2 ^ 64"
proof -
  have "distinct (map fst b)" using assms by (simp add: buffer_ok_def strict_sorted_iff)
  then have "length b = card (set (map fst b))" by (metis distinct_card length_map)
  also have "\<dots> \<le> card {..<(2 :: nat) ^ 64}" using assms by (intro card_mono) (auto simp: buffer_ok_def)
  finally show ?thesis by simp
qed

fun client_ok :: "client \<Rightarrow> bool" where
  "client_ok (Buffered now keys vals blk docs) \<longleftrightarrow> (\<forall>k\<in>set keys. CHR ''|'' \<notin> set k)"
| "client_ok _ \<longleftrightarrow> True"

definition sys_inv :: "'s ext \<Rightarrow> 's sys \<Rightarrow> bool" where
  "sys_inv E s \<longleftrightarrow> bt_prefix (sq_indexed (sys_q s)) = ''COMMITTED_'' \<and> sq_block_seq (sys_q s) < 2 ^ 64 \<and>
     buffer_ok (sq_buffer (sys_q s)) \<and> sq_tid (sys_q s) < 2 ^ 64 \<and> client_ok (sys_client s) \<and> (\<exists>ess blks. chain_stored E (db_map E (sq_db (sys_q s))) ess blks \<and>
       builder_ok (sys_builder s) (sq_block_seq (sys_q s)) (length ess))"

lemma sys_inv_same:
  assumes "sys_inv E s" "sq_db (sys_q t) = sq_db (sys_q s)" "sq_block_seq (sys_q t) = sq_block_seq (sys_q s)"
    and "sq_indexed (sys_q t) = sq_indexed (sys_q s)" "sys_builder t = sys_builder s" "client_ok (sys_client t)"
    and "buffer_ok (sq_buffer (sys_q t))" "sq_tid (sys_q t) < 2 ^ 64"
  shows "sys_inv E t"
  using assms by (simp add: sys_inv_def)

lemma SetMany_prefix: "QLBTree_SetMany E C t ks vs d = Some (b, t', d') \<Longrightarrow> bt_prefix t' = bt_prefix t"
  by (auto simp: QLBTree_SetMany_def bind_eq_Some_conv case_prod_unfold Let_def split: if_splits)

lemma set_index_frame:
  assumes E: "ext_ok E" and q: "set_index E C blk keys docs q = Some q'" and p: "bt_prefix (sq_indexed q) = ''COMMITTED_''"
    and keys: "\<forall>k\<in>set keys. CHR ''|'' \<notin> set k" and x: "x \<in> chain_keys"
  shows "db_map E (sq_db q') x = db_map E (sq_db q) x" "bt_prefix (sq_indexed q') = ''COMMITTED_''"
    "sq_block_seq q' = sq_block_seq q \<and> sq_buffer q' = sq_buffer q \<and> sq_tid q' = sq_tid q"
proof -
  obtain b ix d where s: "QLBTree_SetMany E C (sq_indexed q) keys docs (put_all E (sq_db q) (hist_puts blk keys docs)) = Some (b, ix, d)"
      "q' = q\<lparr>sq_db := d, sq_indexed := ix\<rparr>"
    using q by (auto simp: set_index_def)
  have "outside E ''COMMITTED_'' (put_all E (sq_db q) (hist_puts blk keys docs)) d" using SetMany_outside [OF E s(1)] p by simp
  moreover have "x \<noteq> ''COMMITTED_'' @ y" for y using chain_key_start [OF x] by auto
  ultimately have "db_map E d x = db_map E (put_all E (sq_db q) (hist_puts blk keys docs)) x" unfolding outside_def by blast
  also have "\<dots> = db_map E (sq_db q) x"
  proof (rule put_all_mono [OF E])
    fix y assume "y \<in> fst ` set (hist_puts blk keys docs)"
    then obtain k where "k \<in> set keys" "y = k @ ''|'' @ to_string blk" by (auto simp: hist_puts_def dest: set_zip_leftD)
    then show "y \<noteq> x" using chain_not_hist [of k blk] keys x by auto
  qed
  finally show "db_map E (sq_db q') x = db_map E (sq_db q) x" using s(2) by simp
  show "bt_prefix (sq_indexed q') = ''COMMITTED_''" "sq_block_seq q' = sq_block_seq q \<and> sq_buffer q' = sq_buffer q \<and> sq_tid q' = sq_tid q" using SetMany_prefix [OF s(1)] p s(2) by simp_all
qed

lemma sql_step_inv:
  assumes E: "ext_ok E" and step: "sql_step E C s t" and I: "sys_inv E s"
  shows "sys_inv E t"
  using step
proof cases
  case (c_buffer keys now vals blk docs q')
  have "buffer_ok (buf_emplace (sq_tid (sys_q s)) v (sq_buffer (sys_q s)))" for v
    using I by (intro buffer_ok_emplace) (simp_all add: sys_inv_def)
  then show ?thesis using I c_buffer
    by (intro sys_inv_same [OF I]) (auto simp: set_buffer_def Let_def sys_inv_def split: if_splits)
next
  case (c_index now keys vals blk docs q')
  have k: "\<forall>k\<in>set keys. CHR ''|'' \<notin> set k" and p: "bt_prefix (sq_indexed (sys_q s)) = ''COMMITTED_''"
    using I c_index(2) by (simp_all add: sys_inv_def)
  note fr = set_index_frame [OF E c_index(3) p k]
  obtain ess blks where c: "chain_stored E (db_map E (sq_db (sys_q s))) ess blks" "builder_ok (sys_builder s) (sq_block_seq (sys_q s)) (length ess)"
    using I by (auto simp: sys_inv_def)
  have "chain_stored E (db_map E (sq_db q')) ess blks" by (rule chain_stored_cong [OF c(1)]) (rule fr(1))
  then show ?thesis using c(2) I fr(2,3) [OF chain_keys_mem(1)]
    unfolding sys_inv_def c_index(1) by (intro conjI exI [of _ ess] exI [of _ blks]) simp_all
next
  case (c_log now keys vals c)
  then show ?thesis using I by (intro sys_inv_same [OF I]) (simp_all add: set_log_def sys_inv_def)
next
  case (c_advance c)
  then show ?thesis using I by (intro sys_inv_same [OF I]) (simp_all add: set_advance_def sys_inv_def)
next
  case (b_cut blk txns q')
  obtain ess blks where c: "chain_stored E (db_map E (sq_db (sys_q s))) ess blks" "sq_block_seq (sys_q s) = length ess"
    using I b_cut(2) by (auto simp: sys_inv_def)
  have "sq_block_seq (sys_q s) + 1 < 2 ^ 64" "buffer_ok []" using b_cut(4) by (simp_all add: buffer_ok_def)
  moreover have "length (sq_buffer (sys_q s)) \<le> 2 ^ 64" using I by (intro buffer_ok_length) (simp add: sys_inv_def)
  ultimately show ?thesis using I b_cut c unfolding sys_inv_def
    by (intro conjI exI [of _ ess] exI [of _ blks]) (auto simp: cut_block_def)
next
  case (b_persist blk txns)
  obtain ess blks where c: "chain_stored E (db_map E (sq_db (sys_q s))) ess blks" "blk = length ess" "sq_block_seq (sys_q s) = length ess + 1" "txns \<noteq> []" "length txns \<le> 2 ^ 64"
    using I b_persist(2) by (auto simp: sys_inv_def)
  obtain es b where "chain_stored E (db_map E (persist_block E blk txns (sq_db (sys_q s)))) (ess @ [es]) (blks @ [b])"
    using persist_block_chain [OF E c(1,4,5)] c(2) by blast
  then show ?thesis using I c(3) unfolding sys_inv_def b_persist(1)
    by (intro conjI exI [of _ "ess @ [es]"] exI [of _ "blks @ [b]"]) simp_all
qed

lemma sys_init_inv:
  assumes fresh: "rocks_get E s = Map.empty"
  shows "sys_inv E (sys_init E s w i)"
proof -
  have "db_map E (snd (DB_Get_chunk E d k)) = db_map E d" for d k by (simp add: DB_Get_chunk_def Let_def split: option.splits)
  then have m: "db_map E (snd (QLBTree_new E d p)) = db_map E d" for d p by (simp add: QLBTree_new_def case_prod_unfold Let_def)
  have pf: "bt_prefix (fst (QLBTree_new E d p)) = p" for d p by (simp add: QLBTree_new_def case_prod_unfold Let_def)
  have "db_map E (DB_Open s) = Map.empty" using fresh by (simp add: DB_Open_def)
  then have "chain_stored E (db_map E (sq_db (SQLLedger_new E s w i))) [] []"
    by (simp add: SQLLedger_new_def case_prod_unfold Let_def m chain_stored_def chain_blocks_def)
  then show ?thesis unfolding sys_inv_def
    by (intro conjI exI [of _ "[]"]) (simp_all add: sys_init_def SQLLedger_new_def case_prod_unfold Let_def pf buffer_ok_def)
qed

lemma sql_reach_inv: "sql_reach E C s t \<Longrightarrow> ext_ok E \<Longrightarrow> sys_inv E s \<Longrightarrow> sys_inv E t"
  by (induction rule: sql_reach.induct) (auto intro: sql_step_inv)

section \<open>Proofs against the digest\<close>

lemma chain_fields:
  assumes E: "ext_ok E" and c: "chain_blocks E ess blks" and i: "i < length ess"
  shows "block_field (blks ! i) 0 = Inr (if i = 0 then [] else block_hash E (blks ! (i - 1)))"
    "block_field (blks ! i) 1 = Inr (b32 (entries_root E (ess ! i)))"
    "rbind (block_field (blks ! i) 2) stoul = Inr (height (length (ess ! i)))"
proof -
  let ?prev = "if i = 0 then [] else block_hash E (blks ! (i - 1))" and ?root = "b32 (entries_root E (ess ! i))"
  have b: "blks ! i = ?prev @ CHR ''|'' # ?root @ CHR ''|'' # to_string (height (length (ess ! i)))" and ne: "ess ! i \<noteq> []" "length (ess ! i) \<le> 2 ^ 64"
    using c i by (simp_all add: chain_blocks_def)
  have "height (length (ess ! i)) \<le> 64" using ne(2) height_le_iff by blast
  then have hb: "height (length (ess ! i)) < 2 ^ 64" by simp
  have "CHR ''|'' \<notin> set ?prev" "CHR ''|'' \<notin> set ?root" using E entries_root_20 [OF E ne(1)] by simp_all
  then have "splitBy (blks ! i) (CHR ''|'') = [?prev, ?root, to_string (height (length (ess ! i)))]"
    unfolding b by (simp only: splitBy_append splitBy_last sep_not_in_to_string not_False_eq_True)
  then show "block_field (blks ! i) 0 = Inr ?prev" "block_field (blks ! i) 1 = Inr ?root"
      "rbind (block_field (blks ! i) 2) stoul = Inr (height (length (ess ! i)))"
    using hb by (simp_all add: block_field_def vec_at_def)
qed

lemma chain_verify_stored:
  assumes E: "ext_ok E" and c: "chain_blocks E ess blks"
  shows "a \<le> k \<Longrightarrow> k < length ess \<Longrightarrow>
    chain_verify E (rev (map ((!) blks) [a..<k + 1])) (block_hash E (blks ! k)) r = Inr (True, b32 (entries_root E (ess ! a)))"
proof (induction "k - a" arbitrary: k r)
  case 0
  then show ?case using chain_fields [OF E c, of k] by simp
next
  case (Suc n)
  have u: "rev (map ((!) blks) [a..<k + 1]) = blks ! k # rev (map ((!) blks) [a..<(k - 1) + 1])"
    using Suc.hyps(2) by (cases k) auto
  have "chain_verify E (rev (map ((!) blks) [a..<(k - 1) + 1])) (block_hash E (blks ! (k - 1))) r' = Inr (True, b32 (entries_root E (ess ! a)))" for r'
    using Suc.hyps Suc.prems by (intro Suc.hyps(1)) auto
  then show ?case unfolding u using chain_fields(1,2) [OF E c Suc.prems(2)] Suc.hyps(2) by (cases "k = 0") simp_all
qed

lemma sys_digest:
  assumes E: "ext_ok E" and I: "sys_inv E s" and d: "SQL_GetDigest E (sys_q s) = Inr (tip, hash)"
  obtains ess blks where "chain_stored E (db_map E (sq_db (sys_q s))) ess blks" "ess \<noteq> []" "tip = length ess - 1" "hash = block_hash E (blks ! tip)"
proof -
  obtain ess blks where c: "chain_stored E (db_map E (sq_db (sys_q s))) ess blks"
      "builder_ok (sys_builder s) (sq_block_seq (sys_q s)) (length ess)" "sq_block_seq (sys_q s) < 2 ^ 64"
    using I by (auto simp: sys_inv_def)
  have n: "length ess < 2 ^ 64" using c(2,3) by (cases "sys_builder s") auto
  have m: "DB_Get_str E (sq_db (sys_q s)) ''digest'' = (if ess = [] then [] else block_hash E (last blks) @ CHR ''|'' # to_string (length ess - 1))"
    using c(1) by (simp add: chain_stored_def DB_Get_str_def DB_Get_def)
  have ne: "ess \<noteq> []" using d by (auto simp: SQL_GetDigest_def m splitBy_last vec_at_def Let_def)
  have "length blks = length ess" using c(1) by (simp add: chain_stored_def chain_blocks_def)
  then have "last blks = blks ! (length ess - 1)" using ne by (metis last_conv_nth length_0_conv)
  moreover have "SQL_GetDigest E (sys_q s) = Inr (length ess - 1, block_hash E (last blks))"
    using n E ne by (simp add: SQL_GetDigest_def m splitBy_append splitBy_last vec_at_def Let_def)
  ultimately show ?thesis using that [OF c(1) ne] d by simp
qed


text \<open>
  C10: SQL Ledger block proofs bind.  Two block proofs of the same length that \<open>BlockProof::Verify\<close> accepts
  for the same hash are the same blocks, as long as no two of their blocks collide.
\<close>

theorem BlockProof_binding:
  assumes "BlockProof_Verify E b1 hash r1 = Inr (True, root1)" "BlockProof_Verify E b2 hash r2 = Inr (True, root2)"
    and "length b1 = length b2" "inj_on (block_hash E) (set b1 \<union> set b2)"
  shows "b1 = b2"
proof -
  have "xs = ys"
    if "length xs = length ys" "chain_verify E xs h r = Inr (True, a)" "chain_verify E ys h r' = Inr (True, b)" "inj_on (block_hash E) (set xs \<union> set ys)"
    for xs ys h r r' a b
    using that
  proof (induction xs ys arbitrary: h r r' rule: list_induct2)
    case (Cons x xs y ys)
    have "block_hash E x = h" "block_hash E y = h" using Cons.prems(1,2) by (auto split: if_splits)
    then have xy: "x = y" using inj_onD [OF Cons.prems(3), of x y] by simp
    have inj: "inj_on (block_hash E) (set xs \<union> set ys)" using Cons.prems(3) by (rule inj_on_subset) auto
    obtain t q where "chain_verify E xs t q = Inr (True, a)" "chain_verify E ys t q = Inr (True, b)"
      using Cons.prems(1,2) xy by (auto split: if_splits simp: rbind_Inr_iff)
    then have "xs = ys" using Cons.IH inj by blast
    then show ?case using xy by simp
  qed simp
  from this [of "rev b1" "rev b2"] show ?thesis using assms by (simp add: BlockProof_Verify_def)
qed

section \<open>What the auditor rebuilds\<close>

lemma txn_key_inject: "txn_key a = txn_key b \<longleftrightarrow> a = b"
  by simp

lemma sql_document_txn:
  assumes "sql_document blk (txn_key a) i k v now = sql_document blk (txn_key b) i' k' v' now'"
  shows "a = b"
proof -
  have "txn_key a @ CHR ''|'' # (to_string i @ ''|'' @ k @ ''|'' @ v @ ''|'' @ to_string now) =
      txn_key b @ CHR ''|'' # (to_string i' @ ''|'' @ k' @ ''|'' @ v' @ ''|'' @ to_string now')"
    using assms by (simp add: sql_document_def)
  then have "txn_key a = txn_key b" by (subst (asm) sep_unique) simp_all
  then show ?thesis by simp
qed

text \<open>
  SQL Ledger audits other documents.  The log entry of a transaction carries the id before its own
  (\<open>tid_ - 1\<close>, modulo $2^{64}$), so every document the auditor rebuilds from the entry differs from
  every document that \<open>Set\<close> put in the buffer for the block, whatever block number is used.
\<close>

theorem audit_documents_differ:
  assumes "set_buffer q now keys vals = Inr ((blk, docs), q')" "log_chunk q' now keys vals = Inr c" "sq_tid q < 2 ^ 64"
    and "TxnEntry_ok \<lparr>te_keys = keys, te_vals = vals, te_signature = sq_dummy q, te_time = now, te_txnid = (sq_tid q + 2 ^ 64 - 1) mod 2 ^ 64\<rparr>"
  shows "set docs \<inter> set (audit_documents blk (TxnEntry_Parse c)) = {}"
proof -
  define n where "n = (sq_tid q + 2 ^ 64 - 1) mod 2 ^ 64"
  define e where "e = \<lparr>te_keys = keys, te_vals = vals, te_signature = sq_dummy q, te_time = now, te_txnid = n\<rparr>"
  have ok: "TxnEntry_ok e" using assms(4) by (simp add: e_def n_def)
  have docs: "docs = sql_documents blk (txn_key (sq_tid q)) now keys vals" and q': "sq_tid q' = sq_tid q" "sq_dummy q' = sq_dummy q"
    using assms(1) by (auto simp: set_buffer_def Let_def split: if_splits)
  have "TxnEntry_Encode now keys vals (sq_dummy q) n = Inr (Chunk_new kTxnLog (txn_bytes e))"
    using TxnEntry_Encode_bytes [OF ok] by (simp add: e_def)
  then have "c = Chunk_new kTxnLog (txn_bytes e)" using assms(2) q' by (simp add: log_chunk_def n_def)
  then have parse: "TxnEntry_Parse c = e" using txn_codec.dec_enc [OF ok] by simp
  have "n \<noteq> sq_tid q"
  proof (cases "sq_tid q = 0")
    case False
    then have "sq_tid q + 2 ^ 64 - 1 = (sq_tid q - 1) + 2 ^ 64" by simp
    then have "n = (sq_tid q - 1) mod 2 ^ 64" unfolding n_def by (simp only: mod_add_self2)
    then have "n = sq_tid q - 1" using assms(3) by simp
    then show ?thesis using False by simp
  qed (simp add: n_def)
  then show ?thesis
    using sql_document_txn by (fastforce simp: docs audit_documents_def parse e_def sql_documents_def)
qed

theorem audit_documents_differ_witness:
  "set (sql_documents 0 ''txn0'' 5 [''k''] [''v'']) \<inter>
    set (audit_documents 0 (TxnEntry_Parse (Chunk_new kTxnLog (txn_bytes
      \<lparr>te_keys = [''k''], te_vals = [''v''], te_signature = ComputeFrom map_ext ''0'', te_time = 5, te_txnid = 2 ^ 64 - 1\<rparr>)))) = {}"
proof -
  let ?q = "SQLLedger_new map_ext Map.empty [] []"
  let ?e = "\<lparr>te_keys = [''k''], te_vals = [''v''], te_signature = ComputeFrom map_ext ''0'', te_time = 5, te_txnid = 2 ^ 64 - 1\<rparr>"
  have q: "sq_tid ?q = 0" "sq_dummy ?q = ComputeFrom map_ext ''0''" "sq_block_seq ?q = 0" "sq_buffer ?q = []"
    by (simp_all add: SQLLedger_new_def case_prod_unfold Let_def)
  have ok: "TxnEntry_ok ?e"
    by (simp add: TxnEntry_ok_def pair_ok_def ComputeFrom_Some [symmetric] ext_ok_map_ext del: not_None_eq)
  have b: "set_buffer ?q 5 [''k''] [''v''] = Inr ((0, sql_documents 0 ''txn0'' 5 [''k''] [''v'']),
      ?q\<lparr>sq_buffer := buf_emplace 0 (sql_documents 0 ''txn0'' 5 [''k''] [''v'']) []\<rparr>)"
    by (simp add: set_buffer_def q to_string_0 Let_def)
  have l: "log_chunk (?q\<lparr>sq_buffer := buf_emplace 0 (sql_documents 0 ''txn0'' 5 [''k''] [''v'']) []\<rparr>) 5 [''k''] [''v''] =
      Inr (Chunk_new kTxnLog (txn_bytes ?e))"
    using TxnEntry_Encode_bytes [OF ok] by (simp add: log_chunk_def q)
  show ?thesis by (rule audit_documents_differ [OF b l]) (use ok in \<open>simp_all add: q\<close>)
qed

lemma cut_before_log:
  fixes keys vals :: "string list"
  assumes "keys \<noteq> []" "\<forall>k\<in>set keys. CHR ''|'' \<notin> set k" "length vals = length keys"
  shows "\<exists>s docs. sql_reach E C (sys_init E s0 [] []) s \<and> sys_builder s = Persisting 0 [(0, docs)] \<and> docs \<noteq> [] \<and>
    Logger_read (sq_logger (sys_q s)) 0 = Inr ([], 0)"
proof -
  let ?s0 = "sys_init E s0 [] []" and ?docs = "sql_documents 0 (txn_key 0) 0 keys vals"
  let ?q1 = "(sys_q ?s0)\<lparr>sq_buffer := [(0, ?docs)]\<rparr>"
  let ?s1 = "?s0\<lparr>sys_q := ?q1, sys_client := Buffered 0 keys vals 0 ?docs\<rparr>"
  let ?q2 = "?q1\<lparr>sq_block_seq := 1, sq_buffer := [], sq_logger := Logger_index (Logger_open [] []) 0\<rparr>"
  let ?s2 = "?s1\<lparr>sys_q := ?q2, sys_builder := Persisting 0 [(0, ?docs)]\<rparr>"
  have q: "sq_tid (sys_q ?s0) = 0" "sq_block_seq (sys_q ?s0) = 0" "sq_buffer (sys_q ?s0) = []" "sq_logger (sys_q ?s0) = Logger_open [] []"
      "sys_client ?s0 = Idle" "sys_builder ?s0 = Sleeping"
    by (simp_all add: sys_init_def SQLLedger_new_def case_prod_unfold Let_def)
  have b: "set_buffer (sys_q ?s0) 0 keys vals = Inr ((0, ?docs), ?q1)" using assms(3) by (simp add: set_buffer_def q Let_def)
  have "sql_step E C ?s0 ?s1" by (rule c_buffer [OF q(5) assms(2) b])
  moreover have "sql_step E C ?s1 ?s2" by (rule b_cut) (simp_all add: q cut_block_def)
  ultimately have "sql_reach E C ?s0 ?s2" by (blast intro: reach_refl reach_step)
  moreover have "Logger_read (Logger_index (Logger_open [] []) 0) 0 = Inr ([], 0)"
    by (simp add: Logger_read_def Logger_index_def Logger_open_def file_pread_def file_write_def Let_def u64_at_le_bytes [of 0 "[]", simplified])
  moreover have "?docs \<noteq> []" using assms(1) by (simp add: sql_documents_def)
  ultimately show ?thesis by (intro exI [of _ ?s2] exI [of _ ?docs]) simp
qed

text \<open>
  SQL Ledger can index a block before its log entries.  A transaction is in the buffer before its
  bytes are in the log; when the builder cuts the block in between, the index file says that the
  log of the block is empty while the block is built with the transaction.
\<close>

theorem index_before_log:
  fixes keys vals :: "string list"
  assumes "keys \<noteq> []" "\<forall>k\<in>set keys. CHR ''|'' \<notin> set k" "length vals = length keys"
  shows "\<exists>s docs. sql_reach E C (sys_init E s0 [] []) s \<and> sys_builder s = Persisting 0 [(0, docs)] \<and> docs \<noteq> [] \<and>
    Logger_read (sq_logger (sys_q s)) 0 = Inr ([], 0)"
  by (rule cut_before_log [OF assms])

theorem index_before_log_witness:
  "\<exists>s docs. sql_reach map_ext BPlusConfig_default (sys_init map_ext Map.empty [] []) s \<and> sys_builder s = Persisting 0 [(0, docs)] \<and> docs \<noteq> [] \<and>
    Logger_read (sq_logger (sys_q s)) 0 = Inr ([], 0)"
  by (rule index_before_log [of "[''k'']" "[''v'']"]) simp_all

section \<open>A concrete run\<close>

lemma example_run:
  "\<exists>s hash. sql_reach map_ext BPlusConfig_default (sys_init map_ext Map.empty [] []) s \<and> SQL_GetDigest map_ext (sys_q s) = Inr (0, hash)"
proof -
  obtain s docs where s: "sql_reach map_ext BPlusConfig_default (sys_init map_ext Map.empty [] []) s" "sys_builder s = Persisting 0 [(0, docs)]"
    using cut_before_log [of "[''k'']" "[''v'']" map_ext BPlusConfig_default Map.empty] by auto
  have "sys_inv map_ext s"
    using sql_reach_inv [OF s(1) ext_ok_map_ext sys_init_inv] by (simp add: map_ext_def)
  then have c: "chain_stored map_ext (db_map map_ext (sq_db (sys_q s))) [] []"
    using s(2) by (auto simp: sys_inv_def chain_stored_def chain_blocks_def)
  let ?d = "persist_block map_ext 0 [(0, docs)] (sq_db (sys_q s))"
  let ?t = "s\<lparr>sys_q := (sys_q s)\<lparr>sq_db := ?d\<rparr>, sys_builder := Sleeping\<rparr>"
  have "sql_reach map_ext BPlusConfig_default (sys_init map_ext Map.empty [] []) ?t" by (rule reach_step [OF s(1) b_persist [OF s(2)]])
  moreover obtain es b where "chain_stored map_ext (db_map map_ext ?d) [es] [b]"
    using persist_block_chain [OF ext_ok_map_ext c, of "[(0, docs)]"] by auto
  then have "DB_Get_str map_ext ?d ''digest'' = block_hash map_ext b @ CHR ''|'' # to_string 0"
    by (simp add: chain_stored_def DB_Get_str_def DB_Get_def)
  then have "SQL_GetDigest map_ext (sys_q ?t) = Inr (0, block_hash map_ext b)"
    by (simp add: SQL_GetDigest_def splitBy_append splitBy_last vec_at_def Let_def)
  ultimately show ?thesis by blast
qed


theorem BlockProof_binding_witness:
  "BlockProof_Verify map_ext [''|r|0''] (block_hash map_ext ''|r|0'') [] = Inr (True, ''r'') \<and> [''|r|0''] = [''|r|0'']"
proof -
  have "splitBy ''|r|0'' (CHR ''|'') = [[], ''r'', ''0'']" by code_simp
  then have v: "BlockProof_Verify map_ext [''|r|0''] (block_hash map_ext ''|r|0'') [] = Inr (True, ''r'')"
    by (simp add: BlockProof_Verify_def block_field_def vec_at_def)
  show ?thesis using v BlockProof_binding [OF v v] by simp
qed

end
