(* ===== verification/VR_Log.thy ===== *)
theory VR_Log
  imports Prelude
begin

text \<open>
  The building blocks of the replication layer: the cluster configuration
  (\<open>src/distributed/lib/configuration.cc\<close>), viewstamps, the operation log
  (\<open>src/distributed/replication/common/log.cc\<close>, \<open>log-impl.h\<close>) and the sets of messages that count
  towards a quorum (\<open>quorumset.h\<close>).  View and operation numbers are natural numbers; the code's are
  64-bit and start at zero, so they would need \<open>2^64\<close> steps to wrap.  SHA-1 is a parameter.
\<close>

section \<open>Configuration\<close>

record ReplicaAddress =
  host :: string
  port :: string

definition ReplicaAddress_eq :: "ReplicaAddress \<Rightarrow> ReplicaAddress \<Rightarrow> bool" where
  "ReplicaAddress_eq a b = (host a = host b \<and> port a = port b)"

text \<open>The comparison of the tuples: by host, then by port.\<close>

definition ReplicaAddress_less :: "ReplicaAddress \<Rightarrow> ReplicaAddress \<Rightarrow> bool" where
  "ReplicaAddress_less a b = (host a < host b \<or> host a = host b \<and> port a < port b)"

record Configuration =
  cfg_n :: nat
  cfg_f :: int
  cfg_replicas :: "ReplicaAddress list"
  cfg_multicast :: "ReplicaAddress option"

text \<open>
  Positions are \<open>unsigned int\<close>: \<open>npos\<close> becomes \<open>2^32 - 1\<close>, which the comparisons with
  \<open>string::npos\<close> never equal, and adding 1 to it gives 0.  \<open>substr\<close> from a position past the end throws.
  A line shorter than \<open>2^32 - 1\<close> characters is assumed, as every real file has.
\<close>

definition npos32 :: nat where
  "npos32 = 2 ^ 32 - 1"

definition is_blank :: "char \<Rightarrow> bool" where
  "is_blank c = (c = CHR '' '' \<or> c = char_of (9 :: nat))"

definition pos32 :: "(char \<Rightarrow> bool) \<Rightarrow> string \<Rightarrow> nat \<Rightarrow> nat" where
  "pos32 P s from = (case List.extract P (drop from s) of None \<Rightarrow> npos32 | Some (pre, _, _) \<Rightarrow> from + length pre)"

definition to_lower :: "char \<Rightarrow> char" where
  "to_lower c = (let n = of_char c :: nat in if 65 \<le> n \<and> n \<le> 90 then char_of (n + 32) else c)"

definition strcasecmp_eq :: "string \<Rightarrow> string \<Rightarrow> bool" where
  "strcasecmp_eq s t = (map to_lower s = map to_lower t)"

definition cfg_address :: "string \<Rightarrow> nat \<Rightarrow> ReplicaAddress result" where
  "cfg_address line t1 =
     (let t2 = pos32 (\<lambda>c. \<not> is_blank c) line t1; t3 = pos32 (\<lambda>c. c = CHR '':'') line t2 in
      rbind (substr_from line t2) (\<lambda>rest.
      rbind (substr_from line ((t3 + 1) mod 2 ^ 32)) (\<lambda>port.
        Inr \<lparr> host = take ((t3 + 2 ^ 32 - t2) mod 2 ^ 32) rest, port = port \<rparr>)))"

text \<open>\<open>f = stoul(...)\<close> stores into an \<open>int\<close>.\<close>

definition to_int32 :: "nat \<Rightarrow> int" where
  "to_int32 v = sint (of_nat v :: 32 word)"

definition cfg_f_value :: "string \<Rightarrow> nat \<Rightarrow> int result" where
  "cfg_f_value line t1 =
     rbind (substr_from line (pos32 (\<lambda>c. \<not> is_blank c) line t1)) (\<lambda>arg.
       case stoul arg of Inl Invalid_argument \<Rightarrow> Inl Panicked | Inl e \<Rightarrow> Inl e | Inr v \<Rightarrow> Inr (to_int32 v))"

fun cfg_lines :: "string list \<Rightarrow> Configuration \<Rightarrow> Configuration result" where
  "cfg_lines [] cfg = Inr cfg"
| "cfg_lines (line # rest) cfg =
     (if line = [] \<or> line ! 0 = CHR ''#'' then cfg_lines rest cfg
      else let t1 = pos32 is_blank line 0; cmd = take t1 line in
        if strcasecmp_eq cmd ''f'' then
          rbind (cfg_f_value line t1) (\<lambda>v. cfg_lines rest (cfg\<lparr>cfg_f := v\<rparr>))
        else if strcasecmp_eq cmd ''replica'' then
          rbind (cfg_address line t1) (\<lambda>a. cfg_lines rest (cfg\<lparr>cfg_replicas := cfg_replicas cfg @ [a]\<rparr>))
        else if strcasecmp_eq cmd ''multicast'' then
          rbind (cfg_address line t1) (\<lambda>a. cfg_lines rest (cfg\<lparr>cfg_multicast := Some a\<rparr>))
        else Inl Panicked)"

definition Configuration_of :: "string list \<Rightarrow> Configuration result" where
  "Configuration_of lines =
     rbind (cfg_lines lines \<lparr> cfg_n = 0, cfg_f = - 1, cfg_replicas = [], cfg_multicast = None \<rparr>) (\<lambda>cfg.
       if cfg_replicas cfg = [] then Inl Panicked
       else if cfg_f cfg = - 1 then Inl Panicked
       else Inr (cfg\<lparr>cfg_n := length (cfg_replicas cfg)\<rparr>))"

definition GetLeaderIndex :: "Configuration \<Rightarrow> nat \<Rightarrow> nat" where
  "GetLeaderIndex cfg view = view mod cfg_n cfg"

definition QuorumSize :: "Configuration \<Rightarrow> int" where
  "QuorumSize cfg = cfg_f cfg + 1"

definition FastQuorumSize :: "Configuration \<Rightarrow> int" where
  "FastQuorumSize cfg = cfg_f cfg + (cfg_f cfg + 1) div 2 + 1"

section \<open>Viewstamps\<close>

datatype viewstamp = Viewstamp (vs_view: nat) (vs_opnum: nat)

definition Viewstamp_Compare :: "viewstamp \<Rightarrow> viewstamp \<Rightarrow> int" where
  "Viewstamp_Compare a b =
     (if vs_view a < vs_view b then - 1 else if vs_view a > vs_view b then 1
      else if vs_opnum a < vs_opnum b then - 1 else if vs_opnum a > vs_opnum b then 1 else 0)"

definition vst_eq :: "viewstamp \<Rightarrow> viewstamp \<Rightarrow> bool" where "vst_eq a b = (Viewstamp_Compare a b = 0)"

definition vst_less :: "viewstamp \<Rightarrow> viewstamp \<Rightarrow> bool" where "vst_less a b = (Viewstamp_Compare a b < 0)"

definition vst_le :: "viewstamp \<Rightarrow> viewstamp \<Rightarrow> bool" where "vst_le a b = (\<not> vst_less b a)"

instantiation viewstamp :: linorder
begin

definition less_eq_viewstamp :: "viewstamp \<Rightarrow> viewstamp \<Rightarrow> bool" where
  "less_eq_viewstamp a b = vst_le a b"

definition less_viewstamp :: "viewstamp \<Rightarrow> viewstamp \<Rightarrow> bool" where
  "less_viewstamp a b = vst_less a b"

instance
proof
  fix x y z :: viewstamp
  note defs = less_eq_viewstamp_def less_viewstamp_def vst_le_def vst_less_def Viewstamp_Compare_def
  show "(x < y) = (x \<le> y \<and> \<not> y \<le> x)" "x \<le> x" "x \<le> y \<or> y \<le> x"
    by (auto simp: defs)
  show "x \<le> y \<Longrightarrow> y \<le> z \<Longrightarrow> x \<le> z"
    by (auto simp: defs split: if_splits)
  show "x \<le> y \<Longrightarrow> y \<le> x \<Longrightarrow> x = y"
    by (cases x; cases y) (auto simp: defs split: if_splits)
qed

end

lemma vst_eq_iff: "vst_eq a b \<longleftrightarrow> a = b"
  by (cases a; cases b) (auto simp: vst_eq_def Viewstamp_Compare_def)

section \<open>The log\<close>

record VRRequest =
  vr_op :: string
  vr_clientid :: nat
  vr_clientreqid :: nat

datatype LogEntryState = LOG_STATE_COMMITTED | LOG_STATE_PREPARED | LOG_STATE_SPECULATIVE | LOG_STATE_FASTPREPARED

record LogEntry =
  le_viewstamp :: viewstamp
  le_state :: LogEntryState
  le_request :: VRRequest
  le_hash :: string

record Log =
  log_entries :: "LogEntry list"
  initialHash :: string
  log_start :: nat
  useHash :: bool

definition EMPTY_HASH :: string where
  "EMPTY_HASH = replicate 20 (char_of (0 :: nat))"

definition Log_new :: "bool \<Rightarrow> nat \<Rightarrow> string \<Rightarrow> Log result" where
  "Log_new use start h =
     (if start = 1 \<and> h \<noteq> EMPTY_HASH then Inl Panicked
      else Inr \<lparr> log_entries = [], initialHash = h, log_start = start, useHash = use \<rparr>)"

definition LastViewstamp :: "Log \<Rightarrow> viewstamp" where
  "LastViewstamp l = (if log_entries l = [] then Viewstamp 0 (log_start l - 1) else le_viewstamp (last (log_entries l)))"

definition LastOpnum :: "Log \<Rightarrow> nat" where
  "LastOpnum l = (if log_entries l = [] then log_start l - 1 else vs_opnum (le_viewstamp (last (log_entries l))))"

definition FirstOpnum :: "Log \<Rightarrow> nat" where
  "FirstOpnum l = log_start l"

definition Log_Empty :: "Log \<Rightarrow> bool" where
  "Log_Empty l = (log_entries l = [])"

definition Log_Last :: "Log \<Rightarrow> LogEntry option" where
  "Log_Last l = (if log_entries l = [] then None else Some (last (log_entries l)))"

definition LastHash :: "Log \<Rightarrow> string" where
  "LastHash l = (if log_entries l = [] then initialHash l else le_hash (last (log_entries l)))"

definition ComputeHash :: "(string \<Rightarrow> string) \<Rightarrow> string \<Rightarrow> LogEntry \<Rightarrow> string" where
  "ComputeHash sha1 lastHash e =
     sha1 (lastHash @ le_bytes 8 (vs_view (le_viewstamp e)) @ le_bytes 8 (vs_opnum (le_viewstamp e)) @
       le_bytes 8 (vr_clientid (le_request e)) @ le_bytes 8 (vr_clientreqid (le_request e)) @ vr_op (le_request e))"

definition Log_Find :: "nat \<Rightarrow> Log \<Rightarrow> LogEntry option result" where
  "Log_Find opnum l =
     (if log_entries l = [] then Inr None
      else if opnum < log_start l then Inr None
      else if opnum - log_start l > length (log_entries l) - 1 then Inr None
      else let e = log_entries l ! (opnum - log_start l) in
        if vs_opnum (le_viewstamp e) = opnum then Inr (Some e) else Inl Panicked)"

text \<open>The hash of an entry of a log that does not use hashes is the empty string.\<close>

definition Log_Append :: "(string \<Rightarrow> string) \<Rightarrow> viewstamp \<Rightarrow> VRRequest \<Rightarrow> LogEntryState \<Rightarrow> Log \<Rightarrow> Log result" where
  "Log_Append sha1 vs req state l =
     (if vs_opnum vs \<noteq> (if log_entries l = [] then log_start l else LastOpnum l + 1) then Inl Panicked
      else let e = \<lparr> le_viewstamp = vs, le_state = state, le_request = req, le_hash = [] \<rparr>;
               e = (if useHash l then e\<lparr>le_hash := ComputeHash sha1 (LastHash l) e\<rparr> else e);
               l' = l\<lparr>log_entries := log_entries l @ [e]\<rparr>
           in rbind (Log_Find (vs_opnum vs) l') (\<lambda>_. Inr l'))"

definition Log_SetStatus :: "nat \<Rightarrow> LogEntryState \<Rightarrow> Log \<Rightarrow> (bool \<times> Log) result" where
  "Log_SetStatus op state l = rbind (Log_Find op l) (\<lambda>e. case e of None \<Rightarrow> Inr (False, l)
     | Some e \<Rightarrow> Inr (True, l\<lparr>log_entries := (log_entries l)[op - log_start l := e\<lparr>le_state := state\<rparr>]\<rparr>))"

definition Log_SetRequest :: "nat \<Rightarrow> VRRequest \<Rightarrow> Log \<Rightarrow> (bool \<times> Log) result" where
  "Log_SetRequest op req l =
     (if useHash l then Inl Panicked
      else rbind (Log_Find op l) (\<lambda>e. case e of None \<Rightarrow> Inr (False, l)
        | Some e \<Rightarrow> Inr (True, l\<lparr>log_entries := (log_entries l)[op - log_start l := e\<lparr>le_request := req\<rparr>]\<rparr>)))"

text \<open>\<open>op - start\<close> wraps when \<open>op < start\<close>, and the first assertion fails.\<close>

definition RemoveAfter :: "nat \<Rightarrow> Log \<Rightarrow> Log result" where
  "RemoveAfter op l =
     (if op > LastOpnum l then Inr l
      else if op < log_start l \<or> \<not> op - log_start l < length (log_entries l) then Inl Panicked
      else let l' = l\<lparr>log_entries := take (op - log_start l) (log_entries l)\<rparr>
           in if LastOpnum l' = op - 1 then Inr l' else Inl Panicked)"

record LogEntryMsg =
  lm_view :: nat
  lm_opnum :: nat
  lm_request :: VRRequest
  lm_state :: LogEntryState
  lm_hash :: string

definition entry_msg :: "LogEntry \<Rightarrow> LogEntryMsg" where
  "entry_msg e = \<lparr> lm_view = vs_view (le_viewstamp e), lm_opnum = vs_opnum (le_viewstamp e), lm_request = le_request e,
     lm_state = le_state e, lm_hash = le_hash e \<rparr>"

fun dump_loop :: "Log \<Rightarrow> nat list \<Rightarrow> LogEntryMsg list result" where
  "dump_loop l [] = Inr []"
| "dump_loop l (i # is) = rbind (Log_Find i l) (\<lambda>e. case e of None \<Rightarrow> Inl Panicked
     | Some e \<Rightarrow> rbind (dump_loop l is) (\<lambda>ms. Inr (entry_msg e # ms)))"

definition Log_Dump :: "nat \<Rightarrow> Log \<Rightarrow> LogEntryMsg list result" where
  "Log_Dump from l = dump_loop l [max from (log_start l)..<LastOpnum l + 1]"

text \<open>The first loop of \<open>Install\<close>: what is left to append, and the log cut at the divergence.\<close>

fun install_find :: "LogEntryMsg list \<Rightarrow> Log \<Rightarrow> (LogEntryMsg list \<times> Log) result" where
  "install_find [] l = Inr ([], l)"
| "install_find (m # ms) l = rbind (Log_Find (lm_opnum m) l) (\<lambda>old. case old of
       None \<Rightarrow> Inr (m # ms, l)
     | Some old \<Rightarrow> if lm_view m \<noteq> vs_view (le_viewstamp old)
         then rbind (RemoveAfter (lm_opnum m) l) (\<lambda>l'. Inr (m # ms, l'))
         else install_find ms l)"

fun install_append :: "(string \<Rightarrow> string) \<Rightarrow> LogEntryMsg list \<Rightarrow> Log \<Rightarrow> Log result" where
  "install_append sha1 [] l = Inr l"
| "install_append sha1 (m # ms) l =
     rbind (Log_Append sha1 (Viewstamp (lm_view m) (lm_opnum m)) (lm_request m) LOG_STATE_PREPARED l) (install_append sha1 ms)"

definition Log_Install :: "(string \<Rightarrow> string) \<Rightarrow> LogEntryMsg list \<Rightarrow> Log \<Rightarrow> Log result" where
  "Log_Install sha1 ms l = rbind (install_find ms l) (\<lambda>(rest, l'). install_append sha1 rest l')"

section \<open>Quorum sets\<close>

text \<open>\<open>messages[vs]\<close>, a \<open>std::map<int, M>\<close>, is empty until something is added.\<close>

record ('i, 'm) QuorumSet =
  numRequired :: int
  qs_messages :: "'i \<Rightarrow> (nat \<times> 'm) list"

definition QuorumSet_new :: "int \<Rightarrow> ('i, 'm) QuorumSet" where
  "QuorumSet_new n = \<lparr> numRequired = n, qs_messages = (\<lambda>_. []) \<rparr>"

definition QuorumSet_Clear :: "('i, 'm) QuorumSet \<Rightarrow> ('i, 'm) QuorumSet" where
  "QuorumSet_Clear q = q\<lparr>qs_messages := (\<lambda>_. [])\<rparr>"

definition QuorumSet_ClearAt :: "'i \<Rightarrow> ('i, 'm) QuorumSet \<Rightarrow> ('i, 'm) QuorumSet" where
  "QuorumSet_ClearAt i q = q\<lparr>qs_messages := (qs_messages q)(i := [])\<rparr>"

definition GetMessages :: "'i \<Rightarrow> ('i, 'm) QuorumSet \<Rightarrow> (nat \<times> 'm) list" where
  "GetMessages i q = qs_messages q i"

definition CheckForQuorum :: "'i \<Rightarrow> ('i, 'm) QuorumSet \<Rightarrow> (nat \<times> 'm) list option" where
  "CheckForQuorum i q = (if int (length (qs_messages q i)) \<ge> numRequired q then Some (qs_messages q i) else None)"

definition AddAndCheckForQuorum :: "'i \<Rightarrow> nat \<Rightarrow> 'm \<Rightarrow> ('i, 'm) QuorumSet \<Rightarrow> (nat \<times> 'm) list option \<times> ('i, 'm) QuorumSet" where
  "AddAndCheckForQuorum i idx msg q =
     (let q' = q\<lparr>qs_messages := (qs_messages q)(i := smap_set idx msg (qs_messages q i))\<rparr> in (CheckForQuorum i q', q'))"

section \<open>Well-formed logs\<close>

text \<open>Operation numbers are consecutive from \<open>start\<close>.\<close>

definition log_ok :: "Log \<Rightarrow> bool" where
  "log_ok l \<longleftrightarrow> 0 < log_start l \<and> (\<forall>i<length (log_entries l). vs_opnum (le_viewstamp (log_entries l ! i)) = log_start l + i)"

lemma LastOpnum_ok: "log_ok l \<Longrightarrow> LastOpnum l + 1 = log_start l + length (log_entries l)"
  by (cases "log_entries l = []") (simp_all add: log_ok_def LastOpnum_def last_conv_nth)

lemma Log_Find_ok:
  "log_ok l \<Longrightarrow> Log_Find op l = Inr (if log_start l \<le> op \<and> op \<le> LastOpnum l then Some (log_entries l ! (op - log_start l)) else None)"
proof -
  assume ok: "log_ok l"
  have n: "op \<le> LastOpnum l \<longleftrightarrow> op < log_start l + length (log_entries l)" using LastOpnum_ok [OF ok] by linarith
  have "vs_opnum (le_viewstamp (log_entries l ! (op - log_start l))) = op"
    if "log_start l \<le> op" "op < log_start l + length (log_entries l)"
  proof -
    have "op - log_start l < length (log_entries l)" using that by linarith
    then show ?thesis using ok that by (simp add: log_ok_def)
  qed
  moreover have "op - log_start l > length (log_entries l) - 1 \<longleftrightarrow> \<not> op < log_start l + length (log_entries l)"
    if "log_start l \<le> op" "log_entries l \<noteq> []"
    using that by (cases "log_entries l") auto
  ultimately show ?thesis by (auto simp: Log_Find_def Let_def n)
qed

lemma log_ok_append:
  "log_ok l \<Longrightarrow> vs_opnum (le_viewstamp e) = LastOpnum l + 1 \<Longrightarrow> log_ok (l\<lparr>log_entries := log_entries l @ [e]\<rparr>)"
  using LastOpnum_ok [of l] by (auto simp: log_ok_def nth_append)

lemma log_ok_take: "log_ok l \<Longrightarrow> log_ok (l\<lparr>log_entries := take n (log_entries l)\<rparr>)"
  by (simp add: log_ok_def)

lemma next_op: "log_ok l \<Longrightarrow> (if log_entries l = [] then log_start l else LastOpnum l + 1) = LastOpnum l + 1"
  using LastOpnum_ok [of l] by simp

definition new_entry :: "(string \<Rightarrow> string) \<Rightarrow> viewstamp \<Rightarrow> VRRequest \<Rightarrow> LogEntryState \<Rightarrow> Log \<Rightarrow> LogEntry" where
  "new_entry sha1 vs req state l =
     (let e = \<lparr> le_viewstamp = vs, le_state = state, le_request = req, le_hash = [] \<rparr>
      in if useHash l then e\<lparr>le_hash := ComputeHash sha1 (LastHash l) e\<rparr> else e)"

lemma new_entry_simps [simp]:
  "le_viewstamp (new_entry sha1 vs req state l) = vs" "le_state (new_entry sha1 vs req state l) = state"
  "le_request (new_entry sha1 vs req state l) = req"
  by (simp_all add: new_entry_def Let_def)

lemma Log_Append_ok:
  assumes "log_ok l"
  shows "Log_Append sha1 vs req state l =
    (if vs_opnum vs = LastOpnum l + 1 then Inr (l\<lparr>log_entries := log_entries l @ [new_entry sha1 vs req state l]\<rparr>) else Inl Panicked)"
proof (cases "vs_opnum vs = LastOpnum l + 1")
  case True
  let ?l = "l\<lparr>log_entries := log_entries l @ [new_entry sha1 vs req state l]\<rparr>"
  have "log_ok ?l" using assms True by (intro log_ok_append) simp_all
  then have "\<exists>e. Log_Find (LastOpnum l + 1) ?l = Inr e" by (simp add: Log_Find_ok)
  then show ?thesis using True next_op [OF assms] by (auto simp: Log_Append_def new_entry_def Let_def)
qed (use next_op [OF assms] in \<open>simp add: Log_Append_def\<close>)

lemma RemoveAfter_ok:
  assumes "log_ok l" "log_start l \<le> op"
  shows "RemoveAfter op l = Inr (l\<lparr>log_entries := take (op - log_start l) (log_entries l)\<rparr>)"
proof (cases "op > LastOpnum l")
  case True
  then have "length (log_entries l) \<le> op - log_start l" using LastOpnum_ok [OF assms(1)] by simp
  then show ?thesis using True by (simp add: RemoveAfter_def)
next
  case False
  let ?l = "l\<lparr>log_entries := take (op - log_start l) (log_entries l)\<rparr>"
  have k: "op - log_start l < length (log_entries l)" using False LastOpnum_ok [OF assms(1)] assms(2) by simp
  then have "LastOpnum ?l = op - 1"
    using LastOpnum_ok [OF log_ok_take [OF assms(1)], of "op - log_start l"] assms(2) by simp
  then show ?thesis using False k assms by (simp add: RemoveAfter_def Let_def)
qed

section \<open>Sending and installing a log\<close>

text \<open>What replicas agree on: position and request, not the local state or hash.\<close>

definition content :: "LogEntry \<Rightarrow> viewstamp \<times> VRRequest" where
  "content e = (le_viewstamp e, le_request e)"

lemma dump_loop_ok:
  assumes "log_ok l" "log_start l \<le> i" "i + n \<le> LastOpnum l + 1"
  shows "dump_loop l [i..<i + n] = Inr (map entry_msg (take n (drop (i - log_start l) (log_entries l))))"
  using assms(2,3)
proof (induction n arbitrary: i)
  case (Suc n)
  let ?k = "i - log_start l"
  have k: "?k < length (log_entries l)" using LastOpnum_ok [OF assms(1)] Suc.prems by linarith
  have up: "[i..<i + Suc n] = i # [Suc i..<Suc i + n]" by (simp add: upt_conv_Cons del: upt_Suc)
  have "Log_Find i l = Inr (Some (log_entries l ! ?k))" using Suc.prems by (simp add: Log_Find_ok [OF assms(1)])
  moreover have "dump_loop l [Suc i..<Suc i + n] = Inr (map entry_msg (take n (drop (Suc ?k) (log_entries l))))"
    using Suc.IH [of "Suc i"] Suc.prems by (simp add: Suc_diff_le)
  ultimately show ?case
    unfolding up using k by (simp add: Cons_nth_drop_Suc [symmetric] del: upt_Suc)
qed simp

lemma Log_Dump_ok:
  assumes "log_ok l"
  shows "Log_Dump from l = Inr (map entry_msg (drop (from - log_start l) (log_entries l)))"
proof (cases "max from (log_start l) \<le> LastOpnum l + 1")
  case True
  let ?i = "max from (log_start l)"
  have "?i + (LastOpnum l + 1 - ?i) = LastOpnum l + 1" using True by simp
  then have "Log_Dump from l = Inr (map entry_msg (take (LastOpnum l + 1 - ?i) (drop (?i - log_start l) (log_entries l))))"
    using dump_loop_ok [OF assms, of ?i "LastOpnum l + 1 - ?i"] by (simp add: Log_Dump_def)
  moreover have "length (drop (?i - log_start l) (log_entries l)) \<le> LastOpnum l + 1 - ?i"
    using LastOpnum_ok [OF assms] by simp
  moreover have "?i - log_start l = from - log_start l" by simp
  ultimately show ?thesis by simp
next
  case False
  then have "length (log_entries l) \<le> from - log_start l" using LastOpnum_ok [OF assms] by linarith
  moreover have "[max from (log_start l)..<LastOpnum l + 1] = []" using False by (simp add: max_def del: upt_Suc split: if_splits)
  ultimately show ?thesis by (simp add: Log_Dump_def del: upt_Suc)
qed

lemma install_find_ok:
  assumes l: "log_ok l" and S: "log_ok src" "log_start src = log_start l" "length (log_entries l) \<le> length (log_entries src)"
    and j: "j \<le> length (log_entries l)"
  shows "\<exists>k\<ge>j. k \<le> length (log_entries l) \<and>
    (\<forall>i. j \<le> i \<longrightarrow> i < k \<longrightarrow> vs_view (le_viewstamp (log_entries l ! i)) = vs_view (le_viewstamp (log_entries src ! i))) \<and>
    install_find (map entry_msg (drop j (log_entries src))) l =
      Inr (map entry_msg (drop k (log_entries src)), l\<lparr>log_entries := take k (log_entries l)\<rparr>)"
  using j
proof (induction "length (log_entries src) - j" arbitrary: j)
  case 0
  then have "j = length (log_entries l)" "drop j (log_entries src) = []" using S(3) by simp_all
  then show ?case by (intro exI [of _ j]) simp
next
  case (Suc n)
  let ?m = "log_entries src ! j"
  have jl: "j < length (log_entries src)" using Suc.hyps(2) by simp
  have d: "drop j (log_entries src) = ?m # drop (Suc j) (log_entries src)" using jl by (simp add: Cons_nth_drop_Suc)
  have op: "lm_opnum (entry_msg ?m) = log_start l + j" using S(1,2) jl by (simp add: entry_msg_def log_ok_def)
  have f: "Log_Find (log_start l + j) l = Inr (if j < length (log_entries l) then Some (log_entries l ! j) else None)"
    using LastOpnum_ok [OF l] by (simp add: Log_Find_ok [OF l] less_Suc_eq_le [symmetric])
  show ?case
  proof (cases "j < length (log_entries l)")
    case False
    then show ?thesis using Suc.prems f op d by (intro exI [of _ j]) simp
  next
    case True
    show ?thesis
    proof (cases "vs_view (le_viewstamp (log_entries l ! j)) = vs_view (le_viewstamp ?m)")
      case False
      moreover have "RemoveAfter (log_start l + j) l = Inr (l\<lparr>log_entries := take j (log_entries l)\<rparr>)"
        using RemoveAfter_ok [OF l, of "log_start l + j"] by simp
      ultimately show ?thesis using Suc.prems f op d True by (intro exI [of _ j]) (simp add: entry_msg_def)
    next
      case same: True
      have n: "n = length (log_entries src) - Suc j" using Suc.hyps(2) by simp
      obtain k where k: "Suc j \<le> k" "k \<le> length (log_entries l)"
          "\<And>i. Suc j \<le> i \<Longrightarrow> i < k \<Longrightarrow> vs_view (le_viewstamp (log_entries l ! i)) = vs_view (le_viewstamp (log_entries src ! i))"
          "install_find (map entry_msg (drop (Suc j) (log_entries src))) l =
            Inr (map entry_msg (drop k (log_entries src)), l\<lparr>log_entries := take k (log_entries l)\<rparr>)"
        using Suc.hyps(1) [OF n] True by auto
      have "vs_view (le_viewstamp (log_entries l ! i)) = vs_view (le_viewstamp (log_entries src ! i))" if "j \<le> i" "i < k" for i
        using that k(3) [of i] same by (cases "i = j") auto
      then show ?thesis using k(1,2,4) f op d True same by (intro exI [of _ k]) (simp add: entry_msg_def)
    qed
  qed
qed

lemma install_append_ok:
  assumes "log_ok l" "log_ok src" "log_start src = log_start l" "length (log_entries l) \<le> length (log_entries src)"
  shows "\<exists>es. install_append sha1 (map entry_msg (drop (length (log_entries l)) (log_entries src))) l =
      Inr (l\<lparr>log_entries := log_entries l @ es\<rparr>) \<and>
    map content es = map content (drop (length (log_entries l)) (log_entries src))"
  using assms
proof (induction "length (log_entries src) - length (log_entries l)" arbitrary: l)
  case 0
  then have "drop (length (log_entries l)) (log_entries src) = []" by simp
  then show ?case by (intro exI [of _ "[]"]) simp
next
  case (Suc n)
  let ?j = "length (log_entries l)" let ?m = "log_entries src ! ?j"
  have jl: "?j < length (log_entries src)" using Suc.hyps(2) by simp
  let ?e = "new_entry sha1 (le_viewstamp ?m) (le_request ?m) LOG_STATE_PREPARED l"
  let ?l = "l\<lparr>log_entries := log_entries l @ [?e]\<rparr>"
  have op: "vs_opnum (le_viewstamp ?m) = LastOpnum l + 1"
    using Suc.prems(2,3) jl LastOpnum_ok [OF Suc.prems(1)] by (simp add: log_ok_def)
  have l': "log_ok ?l" using Suc.prems(1) op by (intro log_ok_append) simp_all
  have n: "n = length (log_entries src) - length (log_entries ?l)" using Suc.hyps(2) by simp
  obtain es where es: "install_append sha1 (map entry_msg (drop (Suc ?j) (log_entries src))) ?l =
      Inr (?l\<lparr>log_entries := log_entries ?l @ es\<rparr>)" "map content es = map content (drop (Suc ?j) (log_entries src))"
    using Suc.hyps(1) [OF n l' Suc.prems(2)] Suc.prems(3) jl by auto
  have d: "drop ?j (log_entries src) = ?m # drop (Suc ?j) (log_entries src)" using jl by (simp add: Cons_nth_drop_Suc)
  have m: "Viewstamp (lm_view (entry_msg ?m)) (lm_opnum (entry_msg ?m)) = le_viewstamp ?m" "lm_request (entry_msg ?m) = le_request ?m"
    by (simp_all add: entry_msg_def)
  have "Log_Append sha1 (le_viewstamp ?m) (le_request ?m) LOG_STATE_PREPARED l = Inr ?l"
    using op by (simp add: Log_Append_ok [OF Suc.prems(1)])
  then have "install_append sha1 (map entry_msg (drop ?j (log_entries src))) l = Inr (l\<lparr>log_entries := log_entries l @ ?e # es\<rparr>)"
    using es(1) by (simp add: d m)
  then show ?case using es(2) by (intro exI [of _ "?e # es"]) (simp add: d content_def)
qed

lemma content_of_ok:
  assumes "log_ok l" "i < length (log_entries l)"
  shows "content (log_entries l ! i) = (Viewstamp (vs_view (le_viewstamp (log_entries l ! i))) (log_start l + i), le_request (log_entries l ! i))"
  using assms by (cases "le_viewstamp (log_entries l ! i)") (auto simp: content_def log_ok_def)

text \<open>
  C16: a replica that cuts its log after the sender's last operation and installs the sender's dump ends up
  with the sender's log, entry by entry, without failing an assertion.  It is enough that the dump
  starts no later than the receiver's next operation, that the entries before it are the same on
  both sides, and that an operation number in one view names one request.
\<close>

theorem Install_Dump:
  assumes "log_ok src" "log_ok dst" "log_start src = log_start dst"
    and "from \<le> LastOpnum dst + 1" "from \<le> LastOpnum src + 1"
    and before: "\<forall>i < from - log_start dst. content (log_entries dst ! i) = content (log_entries src ! i)"
    and one: "\<forall>a\<in>set (log_entries src). \<forall>b\<in>set (log_entries dst). le_viewstamp a = le_viewstamp b \<longrightarrow> le_request a = le_request b"
  shows "\<exists>ms cut dst'. Log_Dump from src = Inr ms \<and> RemoveAfter (LastOpnum src + 1) dst = Inr cut \<and>
    Log_Install sha1 ms cut = Inr dst' \<and> log_ok dst' \<and> map content (log_entries dst') = map content (log_entries src)"
proof -
  let ?S = "log_entries src" and ?D = "take (length (log_entries src)) (log_entries dst)" and ?j = "from - log_start dst"
  let ?cut = "dst\<lparr>log_entries := ?D\<rparr>"
  have n: "LastOpnum src + 1 - log_start dst = length ?S" "LastOpnum dst + 1 - log_start dst = length (log_entries dst)"
    using LastOpnum_ok [OF assms(1)] LastOpnum_ok [OF assms(2)] assms(3) by simp_all
  have ms: "Log_Dump from src = Inr (map entry_msg (drop ?j ?S))" using Log_Dump_ok [OF assms(1)] assms(3) by simp
  have "log_start dst \<le> LastOpnum src + 1" using LastOpnum_ok [OF assms(1)] assms(3) by simp
  then have cut: "RemoveAfter (LastOpnum src + 1) dst = Inr ?cut" using RemoveAfter_ok [OF assms(2)] n(1) by simp
  have cok: "log_ok ?cut" using log_ok_take [OF assms(2)] .
  have j: "?j \<le> length ?D" using assms(4,5) n by (auto simp: min_def)
  obtain k where k: "?j \<le> k" "k \<le> length ?D"
      "\<And>i. ?j \<le> i \<Longrightarrow> i < k \<Longrightarrow> vs_view (le_viewstamp (?D ! i)) = vs_view (le_viewstamp (?S ! i))"
      "install_find (map entry_msg (drop ?j ?S)) ?cut = Inr (map entry_msg (drop k ?S), ?cut\<lparr>log_entries := take k ?D\<rparr>)"
    using install_find_ok [OF cok assms(1), of ?j] assms(3) j by auto
  let ?kept = "?cut\<lparr>log_entries := take k ?D\<rparr>"
  have kok: "log_ok ?kept" using log_ok_take [OF cok, of k] by simp
  have kl: "length (log_entries ?kept) = k" "k \<le> length ?S" "k \<le> length (log_entries dst)" using k(2) by simp_all
  obtain es where es: "install_append sha1 (map entry_msg (drop k ?S)) ?kept = Inr (?kept\<lparr>log_entries := take k ?D @ es\<rparr>)"
      "map content es = map content (drop k ?S)"
    using install_append_ok [OF kok assms(1), of sha1] assms(3) kl by auto
  have same: "content (log_entries dst ! i) = content (?S ! i)" if "i < k" for i
  proof (cases "i < ?j")
    case False
    have i: "i < length (log_entries dst)" "i < length ?S" using that kl by simp_all
    have v: "vs_view (le_viewstamp (log_entries dst ! i)) = vs_view (le_viewstamp (?S ! i))" using k(3) [of i] False that kl by simp
    then have "le_viewstamp (?S ! i) = le_viewstamp (log_entries dst ! i)"
      using content_of_ok [OF assms(1) i(2)] content_of_ok [OF assms(2) i(1)] assms(3) by (simp add: content_def)
    then show ?thesis using one nth_mem [OF i(1)] nth_mem [OF i(2)] unfolding content_def by metis
  qed (use before in simp)
  have "map content (take k ?D) = map content (take k ?S)"
    using same kl by (intro nth_equalityI) simp_all
  then have c: "map content (take k ?D @ es) = map content ?S" using es(2) by (metis append_take_drop_id map_append)
  have "log_ok (?kept\<lparr>log_entries := take k ?D @ es\<rparr>)"
  proof -
    have len: "length (take k ?D @ es) = length ?S" using c by (metis length_map)
    have "vs_opnum (le_viewstamp ((take k ?D @ es) ! i)) = log_start dst + i" if "i < length (take k ?D @ es)" for i
    proof -
      have "content ((take k ?D @ es) ! i) = content (?S ! i)" using c that len by (metis nth_map)
      then show ?thesis using assms(1,3) that len by (simp add: content_def log_ok_def)
    qed
    then show ?thesis using assms(2) by (simp add: log_ok_def)
  qed
  then show ?thesis using ms cut k(4) es(1) c by (simp add: Log_Install_def)
qed

definition ex_entry :: "nat \<Rightarrow> nat \<Rightarrow> string \<Rightarrow> LogEntry" where
  "ex_entry v n op = \<lparr> le_viewstamp = Viewstamp v n, le_state = LOG_STATE_PREPARED,
     le_request = \<lparr> vr_op = op, vr_clientid = 7, vr_clientreqid = n \<rparr>, le_hash = [] \<rparr>"

definition ex_log :: "LogEntry list \<Rightarrow> Log" where
  "ex_log es = \<lparr> log_entries = es, initialHash = EMPTY_HASH, log_start = 1, useHash = False \<rparr>"

definition ex_src :: Log where
  "ex_src = ex_log [ex_entry 0 1 ''a'', ex_entry 2 2 ''b'', ex_entry 2 3 ''c'']"

definition ex_dst :: Log where
  "ex_dst = ex_log [ex_entry 0 1 ''a'', ex_entry 1 2 ''x'', ex_entry 1 3 ''y'', ex_entry 1 4 ''z'']"

lemma ex_logs: "log_ok ex_src" "log_ok ex_dst" "log_start ex_src = log_start ex_dst" "1 \<le> LastOpnum ex_dst + 1" "1 \<le> LastOpnum ex_src + 1"
  by (auto simp: ex_src_def ex_dst_def ex_log_def log_ok_def ex_entry_def less_Suc_eq numeral_eq_Suc)

theorem Install_Dump_witness:
  "\<exists>ms cut dst'. Log_Dump 1 ex_src = Inr ms \<and> RemoveAfter (LastOpnum ex_src + 1) ex_dst = Inr cut \<and>
    Log_Install (\<lambda>s. s) ms cut = Inr dst' \<and> log_ok dst' \<and> map content (log_entries dst') = map content (log_entries ex_src)"
  by (rule Install_Dump [OF ex_logs]) (simp_all add: ex_src_def ex_dst_def ex_log_def ex_entry_def)

section \<open>Quorums\<close>

text \<open>
  Messages are counted once per replica, and \<open>f + 1\<close> of \<open>2 f + 1\<close> replicas always share a member with
  any other \<open>f + 1\<close>.
\<close>

definition qs_ok :: "nat \<Rightarrow> ('i, 'm) QuorumSet \<Rightarrow> bool" where
  "qs_ok n q \<longleftrightarrow> (\<forall>i. sorted_wrt (<) (map fst (qs_messages q i)) \<and> fst ` set (qs_messages q i) \<subseteq> {..<n})"

lemma qs_ok_simps [simp]: "qs_ok n (QuorumSet_new k)" "qs_ok n q \<Longrightarrow> qs_ok n (QuorumSet_Clear q)"
  by (simp_all add: qs_ok_def QuorumSet_new_def QuorumSet_Clear_def)

lemma AddAndCheckForQuorum_ok:
  assumes "qs_ok n q" "idx < n"
  shows "qs_ok n (snd (AddAndCheckForQuorum i idx m q))" "numRequired (snd (AddAndCheckForQuorum i idx m q)) = numRequired q"
  using assms by (auto simp: qs_ok_def AddAndCheckForQuorum_def Let_def keys_smap_set intro: sorted_smap_set)

lemma CheckForQuorum_card:
  assumes "qs_ok n q" "CheckForQuorum i q = Some msgs"
  shows "fst ` set msgs \<subseteq> {..<n}" "int (card (fst ` set msgs)) \<ge> numRequired q"
proof -
  have m: "msgs = qs_messages q i" "int (length msgs) \<ge> numRequired q"
    using assms(2) by (auto simp: CheckForQuorum_def split: if_splits)
  have "distinct (map fst msgs)" using assms(1) m(1) strict_sorted_iff by (auto simp: qs_ok_def)
  then have "card (fst ` set msgs) = length msgs" by (metis distinct_card length_map list.set_map)
  then show "fst ` set msgs \<subseteq> {..<n}" "int (card (fst ` set msgs)) \<ge> numRequired q"
    using assms(1) m by (auto simp: qs_ok_def)
qed

locale quorum_system =
  fixes members :: "'r set" and size :: nat
  assumes finite_members: "finite members"
    and majority: "card members < 2 * size"
begin

lemma quorums_meet:
  assumes "A \<subseteq> members" "B \<subseteq> members" "size \<le> card A" "size \<le> card B"
  shows "A \<inter> B \<noteq> {}"
proof
  assume "A \<inter> B = {}"
  then have "card A + card B = card (A \<union> B)"
    using assms finite_members by (metis card_Un_disjoint finite_subset)
  also have "\<dots> \<le> card members" using assms(1,2) finite_members by (intro card_mono) auto
  finally show False using assms(3,4) majority by linarith
qed

end

interpretation vr: quorum_system "{..<2 * f + 1}" "f + 1" for f :: nat
  by unfold_locales simp_all

definition quorum_adds :: "('i \<times> nat \<times> 'm) list \<Rightarrow> ('i, 'm) QuorumSet \<Rightarrow> ('i, 'm) QuorumSet" where
  "quorum_adds xs q = fold (\<lambda>(i, idx, m) q. snd (AddAndCheckForQuorum i idx m q)) xs q"

lemma quorum_adds_ok:
  assumes "qs_ok n q" "\<forall>(i, idx, m)\<in>set xs. idx < n"
  shows "qs_ok n (quorum_adds xs q) \<and> numRequired (quorum_adds xs q) = numRequired q"
  using assms
proof (induction xs arbitrary: q)
  case (Cons x xs)
  obtain i idx m where x: "x = (i, idx, m)" by (cases x)
  have "qs_ok n (snd (AddAndCheckForQuorum i idx m q))" "numRequired (snd (AddAndCheckForQuorum i idx m q)) = numRequired q"
    using AddAndCheckForQuorum_ok Cons.prems x by fastforce+
  then show ?case using Cons.IH Cons.prems(2) by (fastforce simp: quorum_adds_def x)
qed (simp add: quorum_adds_def)

lemma quorum_adds_keys:
  "fst ` set (qs_messages (quorum_adds xs q) i) \<subseteq> fst ` set (qs_messages q i) \<union> (fst \<circ> snd) ` set xs"
proof (induction xs arbitrary: q)
  case (Cons x xs)
  obtain j idx m where x: "x = (j, idx, m)" by (cases x)
  let ?q = "snd (AddAndCheckForQuorum j idx m q)"
  have sub: "fst ` set (qs_messages ?q i) \<subseteq> insert idx (fst ` set (qs_messages q i))"
    using keys_smap_set [of idx m "qs_messages q i"] by (auto simp: AddAndCheckForQuorum_def Let_def)
  have eq: "quorum_adds (x # xs) q = quorum_adds xs ?q" "(fst \<circ> snd) ` set (x # xs) = insert idx ((fst \<circ> snd) ` set xs)"
    by (simp_all add: quorum_adds_def x)
  show ?case unfolding eq using Cons.IH [of ?q] sub by blast
qed (simp add: quorum_adds_def)

lemma quorum_with_self:
  assumes cfg: "cfg_n cfg = 2 * f + 1" "cfg_f cfg = int f"
    and xs: "\<forall>(i, idx, m)\<in>set xs. idx < cfg_n cfg \<and> idx \<noteq> me" and me: "me < cfg_n cfg"
    and ms: "CheckForQuorum a (quorum_adds xs (QuorumSet_new (QuorumSize cfg - 1))) = Some ms"
  shows "insert me (fst ` set ms) \<subseteq> {..<2 * f + 1} \<and> f + 1 \<le> card (insert me (fst ` set ms))"
proof -
  let ?q = "quorum_adds xs (QuorumSet_new (QuorumSize cfg - 1))"
  have "\<forall>(i, idx, m)\<in>set xs. idx < cfg_n cfg" using xs by auto
  then have "qs_ok (cfg_n cfg) ?q \<and> numRequired ?q = numRequired (QuorumSet_new (QuorumSize cfg - 1) :: ('a, 'b) QuorumSet)"
    by (intro quorum_adds_ok) simp_all
  then have ok: "qs_ok (cfg_n cfg) ?q" "numRequired ?q = int f"
    using cfg(2) by (simp_all add: QuorumSize_def QuorumSet_new_def)
  note c = CheckForQuorum_card [OF ok(1) ms]
  have "ms = qs_messages ?q a" using ms by (auto simp: CheckForQuorum_def split: if_splits)
  then have "me \<notin> fst ` set ms"
    using quorum_adds_keys [of xs "QuorumSet_new (QuorumSize cfg - 1)" a] xs by (fastforce simp: QuorumSet_new_def)
  then show ?thesis using c ok(2) me cfg(1) by simp
qed

text \<open>
  C17: in a cluster of \<open>2 f + 1\<close> replicas, two quorums that two replicas have collected for whatever
  message ids (each counting itself and the messages of others) have a replica in common, however
  many duplicates arrived and in whatever order.
\<close>

theorem quorums_intersect:
  assumes "cfg_n cfg = 2 * f + 1" "cfg_f cfg = int f"
    and "\<forall>(i, idx, m)\<in>set xs. idx < cfg_n cfg \<and> idx \<noteq> me" "\<forall>(i, idx, m)\<in>set ys. idx < cfg_n cfg \<and> idx \<noteq> you"
    and "me < cfg_n cfg" "you < cfg_n cfg"
    and "CheckForQuorum a (quorum_adds xs (QuorumSet_new (QuorumSize cfg - 1))) = Some ms"
    and "CheckForQuorum b (quorum_adds ys (QuorumSet_new (QuorumSize cfg - 1))) = Some ns"
  shows "insert me (fst ` set ms) \<inter> insert you (fst ` set ns) \<noteq> {}"
proof (rule vr.quorums_meet [where f = f])
qed (use quorum_with_self [OF assms(1,2,3,5,7)] quorum_with_self [OF assms(1,2,4,6,8)] in auto)

definition ex_cfg :: Configuration where
  "ex_cfg = \<lparr> cfg_n = 3, cfg_f = 1, cfg_replicas = replicate 3 \<lparr> host = ''h'', port = ''1'' \<rparr>, cfg_multicast = None \<rparr>"

theorem quorums_intersect_witness: "insert 0 (fst ` set [(1 :: nat, ())]) \<inter> insert 2 (fst ` set [(1 :: nat, ())]) \<noteq> {}"
  by (rule quorums_intersect [where cfg = ex_cfg and f = 1 and xs = "[(5 :: nat, 1, ())]" and ys = "[(6 :: nat, 1, ()), (6, 1, ())]"
        and a = 5 and b = 6])
    (simp_all add: ex_cfg_def quorum_adds_def AddAndCheckForQuorum_def CheckForQuorum_def QuorumSet_new_def QuorumSize_def Let_def)

end
