(* ===== verification/VR_Replica.thy ===== *)
theory VR_Replica
  imports VR_Log
begin

text \<open>
  The viewstamped-replication replica (\<open>src/distributed/replication/vr/replica.cc\<close>).  A handler takes a
  message and the replica and gives the replica after it; what it sends is appended to the replica's
  \<open>outbox\<close>, a timer is the flag whether it is armed, and a failed assertion, a panic or a use of
  an invalid pointer is an error value.  The application is a parameter.  Failure of a send is only
  logged by the code and is not modelled.
\<close>

section \<open>Messages\<close>

type_synonym addr = nat

record ReplyMessage =
  rp_view :: nat
  rp_opnum :: nat
  rp_clientreqid :: nat
  rp_reply :: string

record UnloggedReplyMessage =
  ur_reply :: string
  ur_clientreqid :: nat

record PrepareMessage =
  pm_view :: nat
  pm_opnum :: nat
  pm_batchstart :: nat
  pm_request :: "VRRequest list"

record PrepareOKMessage =
  po_view :: nat
  po_opnum :: nat
  po_replicaIdx :: nat

record CommitMessage =
  cm_view :: nat
  cm_opnum :: nat

record RequestStateTransferMessage =
  rt_view :: nat
  rt_opnum :: nat

record StateTransferMessage =
  stm_view :: nat
  stm_opnum :: nat
  stm_entries :: "LogEntryMsg list"

record StartViewChangeMessage =
  svc_view :: nat
  svc_replicaIdx :: nat
  svc_lastCommitted :: nat

record DoViewChangeMessage =
  dvc_view :: nat
  dvc_lastNormalView :: nat
  dvc_lastOp :: nat
  dvc_lastCommitted :: nat
  dvc_entries :: "LogEntryMsg list"
  dvc_replicaIdx :: nat

record StartViewMessage =
  sv_view :: nat
  sv_lastOp :: nat
  sv_lastCommitted :: nat
  sv_entries :: "LogEntryMsg list"

datatype vr_message =
    MRequest VRRequest | MUnloggedRequest VRRequest | MPrepare PrepareMessage | MPrepareOK PrepareOKMessage
  | MCommit CommitMessage | MRequestStateTransfer RequestStateTransferMessage | MStateTransfer StateTransferMessage
  | MStartViewChange StartViewChangeMessage | MDoViewChange DoViewChangeMessage | MStartView StartViewMessage
  | MReply ReplyMessage | MUnloggedReply UnloggedReplyMessage

datatype dest = ToAddress addr | ToReplica nat | ToAll

section \<open>State\<close>

record 'a AppReplica =
  app_Leader :: "nat \<Rightarrow> string \<Rightarrow> 'a \<Rightarrow> (bool \<times> string \<times> 'a) result"
  app_Replica :: "nat \<Rightarrow> string \<Rightarrow> 'a \<Rightarrow> (string \<times> 'a) result"
  app_Unlogged :: "string \<Rightarrow> 'a \<Rightarrow> (string \<times> 'a) result"

datatype ReplicaStatus = STATUS_NORMAL | STATUS_VIEW_CHANGE | STATUS_RECOVERING

record ClientTableEntry =
  lastReqId :: nat
  replied :: bool
  ct_reply :: ReplyMessage

definition ReplyMessage_default :: ReplyMessage where
  "ReplyMessage_default = \<lparr> rp_view = 0, rp_opnum = 0, rp_clientreqid = 0, rp_reply = [] \<rparr>"

record 'a VRReplica =
  configuration :: Configuration
  myIdx :: nat
  rstatus :: ReplicaStatus
  rview :: nat
  lastCommitted :: nat
  lastOp :: nat
  lastRequestStateTransferView :: nat
  lastRequestStateTransferOpnum :: nat
  pendingPrepares :: "(addr \<times> PrepareMessage) list"
  lastPrepare :: PrepareMessage
  batchSize :: nat
  lastBatchEnd :: nat
  rlog :: Log
  clientAddresses :: "nat \<rightharpoonup> addr"
  clientTable :: "nat \<rightharpoonup> ClientTableEntry"
  prepareOKQuorum :: "(viewstamp, PrepareOKMessage) QuorumSet"
  startViewChangeQuorum :: "(nat, StartViewChangeMessage) QuorumSet"
  doViewChangeQuorum :: "(nat, DoViewChangeMessage) QuorumSet"
  viewChangeTimeout :: bool
  nullCommitTimeout :: bool
  stateTransferTimeout :: bool
  resendPrepareTimeout :: bool
  closeBatchTimeout :: bool
  app_state :: 'a
  outbox :: "(dest \<times> vr_message) list"

definition send :: "dest \<Rightarrow> vr_message \<Rightarrow> 'a VRReplica \<Rightarrow> 'a VRReplica" where
  "send d m r = r\<lparr>outbox := outbox r @ [(d, m)]\<rparr>"

definition asserting :: "bool \<Rightarrow> 'b result \<Rightarrow> 'b result" where
  "asserting b k = (if b then k else Inl Panicked)"

definition AmLeader :: "'a VRReplica \<Rightarrow> bool" where
  "AmLeader r = (GetLeaderIndex (configuration r) (rview r) = myIdx r)"

definition VRReplica_new :: "Configuration \<Rightarrow> nat \<Rightarrow> nat \<Rightarrow> 'a \<Rightarrow> 'a VRReplica" where
  "VRReplica_new cfg idx batch a =
     (let leader = (GetLeaderIndex cfg 0 = idx) in
      \<lparr> configuration = cfg, myIdx = idx, rstatus = STATUS_NORMAL, rview = 0, lastCommitted = 0, lastOp = 0,
        lastRequestStateTransferView = 0, lastRequestStateTransferOpnum = 0, pendingPrepares = [],
        lastPrepare = \<lparr> pm_view = 0, pm_opnum = 0, pm_batchstart = 0, pm_request = [] \<rparr>, batchSize = batch, lastBatchEnd = 0,
        rlog = \<lparr> log_entries = [], initialHash = EMPTY_HASH, log_start = 1, useHash = False \<rparr>,
        clientAddresses = Map.empty, clientTable = Map.empty,
        prepareOKQuorum = QuorumSet_new (QuorumSize cfg - 1), startViewChangeQuorum = QuorumSet_new (QuorumSize cfg - 1),
        doViewChangeQuorum = QuorumSet_new (QuorumSize cfg - 1),
        viewChangeTimeout = \<not> leader, nullCommitTimeout = leader, stateTransferTimeout = True,
        resendPrepareTimeout = False, closeBatchTimeout = False, app_state = a, outbox = [] \<rparr>)"

section \<open>Shared steps\<close>

text \<open>\<open>clientTable[id]\<close> creates a zero entry.\<close>

definition table_entry :: "'a VRReplica \<Rightarrow> nat \<Rightarrow> ClientTableEntry" where
  "table_entry r c = (case clientTable r c of None \<Rightarrow> \<lparr> lastReqId = 0, replied = False, ct_reply = ReplyMessage_default \<rparr> | Some e \<Rightarrow> e)"

definition set_table :: "nat \<Rightarrow> ClientTableEntry \<Rightarrow> 'a VRReplica \<Rightarrow> 'a VRReplica" where
  "set_table c e r = r\<lparr>clientTable := (clientTable r)(c \<mapsto> e)\<rparr>"

definition UpdateClientTable :: "VRRequest \<Rightarrow> 'a VRReplica \<Rightarrow> 'a VRReplica result" where
  "UpdateClientTable req r =
     (let e = table_entry r (vr_clientid req) in
      asserting (lastReqId e \<le> vr_clientreqid req)
        (if lastReqId e = vr_clientreqid req then Inr (set_table (vr_clientid req) e r)
         else Inr (set_table (vr_clientid req)
                (e\<lparr>lastReqId := vr_clientreqid req, replied := False, ct_reply := ReplyMessage_default\<rparr>) r)))"

definition record_reply :: "nat \<Rightarrow> nat \<Rightarrow> ReplyMessage \<Rightarrow> 'a VRReplica \<Rightarrow> 'a VRReplica" where
  "record_reply c q reply r =
     (let cte = table_entry r c in
      set_table c (if lastReqId cte \<le> q then \<lparr> lastReqId = q, replied = True, ct_reply = reply \<rparr> else cte) r)"

definition reply_client :: "nat \<Rightarrow> ReplyMessage \<Rightarrow> 'a VRReplica \<Rightarrow> 'a VRReplica" where
  "reply_client c reply r = (case clientAddresses r c of None \<Rightarrow> r | Some ad \<Rightarrow> send (ToAddress ad) (MReply reply) r)"

text \<open>One round of the loop of \<open>CommitUpTo\<close>; the loop advances \<open>lastCommitted\<close> by one each round.\<close>

definition commit_next :: "'a AppReplica \<Rightarrow> 'a VRReplica \<Rightarrow> 'a VRReplica result" where
  "commit_next A r =
     (let n = lastCommitted r + 1 in
      rbind (Log_Find n (rlog r)) (\<lambda>e. case e of None \<Rightarrow> Inl Panicked | Some e \<Rightarrow>
      rbind (app_Replica A n (vr_op (le_request e)) (app_state r)) (\<lambda>(res, a).
      rbind (Log_SetStatus n LOG_STATE_COMMITTED (rlog r)) (\<lambda>(_, l).
        let c = vr_clientid (le_request e); q = vr_clientreqid (le_request e);
            reply = \<lparr> rp_view = vs_view (le_viewstamp e), rp_opnum = vs_opnum (le_viewstamp e), rp_clientreqid = q, rp_reply = res \<rparr>
        in Inr (reply_client c reply (record_reply c q reply (r\<lparr>lastCommitted := n, app_state := a, rlog := l\<rparr>)))))))"

fun commit_rounds :: "'a AppReplica \<Rightarrow> nat \<Rightarrow> 'a VRReplica \<Rightarrow> 'a VRReplica result" where
  "commit_rounds A 0 r = Inr r"
| "commit_rounds A (Suc k) r = rbind (commit_next A r) (commit_rounds A k)"

definition CommitUpTo :: "'a AppReplica \<Rightarrow> nat \<Rightarrow> 'a VRReplica \<Rightarrow> 'a VRReplica result" where
  "CommitUpTo A bound r = commit_rounds A (bound - lastCommitted r) r"

definition prepareOK :: "nat \<Rightarrow> nat \<Rightarrow> 'a VRReplica \<Rightarrow> 'a VRReplica" where
  "prepareOK v op r = send (ToReplica (GetLeaderIndex (configuration r) (rview r)))
     (MPrepareOK \<lparr> po_view = v, po_opnum = op, po_replicaIdx = myIdx r \<rparr>) r"

fun send_prepareOKs :: "nat list \<Rightarrow> 'a VRReplica \<Rightarrow> 'a VRReplica result" where
  "send_prepareOKs [] r = Inr r"
| "send_prepareOKs (i # is) r =
     (if i \<le> lastCommitted r then send_prepareOKs is r
      else rbind (Log_Find i (rlog r)) (\<lambda>e. case e of None \<Rightarrow> Inl Panicked | Some e \<Rightarrow>
        asserting (le_state e = LOG_STATE_PREPARED)
          (rbind (UpdateClientTable (le_request e) r) (\<lambda>r. send_prepareOKs is (prepareOK (rview r) i r)))))"

definition SendPrepareOKs :: "nat \<Rightarrow> 'a VRReplica \<Rightarrow> 'a VRReplica result" where
  "SendPrepareOKs oldLastOp r = send_prepareOKs [oldLastOp..<lastOp r + 1] r"

definition RequestStateTransfer :: "'a VRReplica \<Rightarrow> 'a VRReplica" where
  "RequestStateTransfer r =
     (if lastRequestStateTransferOpnum r \<noteq> 0 \<and> lastRequestStateTransferView r = rview r \<and>
         lastRequestStateTransferOpnum r = lastCommitted r then r
      else send ToAll (MRequestStateTransfer \<lparr> rt_view = rview r, rt_opnum = lastCommitted r \<rparr>)
        (r\<lparr>lastRequestStateTransferView := rview r, lastRequestStateTransferOpnum := lastCommitted r\<rparr>))"

definition EnterView :: "nat \<Rightarrow> 'a VRReplica \<Rightarrow> 'a VRReplica" where
  "EnterView newview r =
     (let r = r\<lparr>rview := newview, rstatus := STATUS_NORMAL, lastBatchEnd := lastOp r\<rparr>;
          r = (if AmLeader r then r\<lparr>viewChangeTimeout := False, nullCommitTimeout := True\<rparr>
               else r\<lparr>viewChangeTimeout := True, nullCommitTimeout := False, resendPrepareTimeout := False, closeBatchTimeout := False\<rparr>)
      in r\<lparr>prepareOKQuorum := QuorumSet_Clear (prepareOKQuorum r), startViewChangeQuorum := QuorumSet_Clear (startViewChangeQuorum r),
           doViewChangeQuorum := QuorumSet_Clear (doViewChangeQuorum r)\<rparr>)"

definition StartViewChange :: "nat \<Rightarrow> 'a VRReplica \<Rightarrow> 'a VRReplica" where
  "StartViewChange newview r =
     send ToAll (MStartViewChange \<lparr> svc_view = newview, svc_replicaIdx = myIdx r, svc_lastCommitted = lastCommitted r \<rparr>)
       (r\<lparr>rview := newview, rstatus := STATUS_VIEW_CHANGE, viewChangeTimeout := True, nullCommitTimeout := False,
          resendPrepareTimeout := False, closeBatchTimeout := False\<rparr>)"

definition SendNullCommit :: "'a VRReplica \<Rightarrow> 'a VRReplica result" where
  "SendNullCommit r = asserting (AmLeader r) (Inr (send ToAll (MCommit \<lparr> cm_view = rview r, cm_opnum = lastCommitted r \<rparr>) r))"

definition ResendPrepare :: "'a VRReplica \<Rightarrow> 'a VRReplica result" where
  "ResendPrepare r = asserting (AmLeader r)
     (Inr (if lastOp r = lastCommitted r then r else send ToAll (MPrepare (lastPrepare r)) r))"

fun batch_requests :: "'a VRReplica \<Rightarrow> nat list \<Rightarrow> VRRequest list result" where
  "batch_requests r [] = Inr []"
| "batch_requests r (i # is) = rbind (Log_Find i (rlog r)) (\<lambda>e. case e of None \<Rightarrow> Inl Panicked | Some e \<Rightarrow>
     asserting (le_viewstamp e = Viewstamp (rview r) i) (rbind (batch_requests r is) (\<lambda>qs. Inr (le_request e # qs))))"

definition CloseBatch :: "'a VRReplica \<Rightarrow> 'a VRReplica result" where
  "CloseBatch r = asserting (AmLeader r) (asserting (lastBatchEnd r < lastOp r)
     (rbind (batch_requests r [lastBatchEnd r + 1..<lastOp r + 1]) (\<lambda>qs.
        let p = \<lparr> pm_view = rview r, pm_opnum = lastOp r, pm_batchstart = lastBatchEnd r + 1, pm_request = qs \<rparr>
        in Inr ((send ToAll (MPrepare p) (r\<lparr>lastPrepare := p\<rparr>))
             \<lparr>lastBatchEnd := lastOp r, resendPrepareTimeout := True, closeBatchTimeout := False\<rparr>))))"

section \<open>Handlers\<close>

text \<open>
  The leader runs the request through \<open>LeaderUpcall\<close> and answers at once; a request to be replicated
  only moves \<open>lastOp\<close> and \<open>lastCommitted\<close>: nothing is appended to the log and nothing is sent to the
  other replicas.
\<close>

definition answer_request :: "addr \<Rightarrow> VRRequest \<Rightarrow> ReplyMessage \<Rightarrow> 'a VRReplica \<Rightarrow> 'a VRReplica" where
  "answer_request remote req reply r =
     send (ToAddress remote) (MReply reply)
       (set_table (vr_clientid req) ((table_entry r (vr_clientid req))\<lparr>replied := True, ct_reply := reply\<rparr>) r)"

definition lead_request :: "'a AppReplica \<Rightarrow> addr \<Rightarrow> VRRequest \<Rightarrow> 'a VRReplica \<Rightarrow> 'a VRReplica result" where
  "lead_request A remote req r =
     rbind (UpdateClientTable req r) (\<lambda>r.
     rbind (app_Leader A (lastCommitted r) (vr_op req) (app_state r)) (\<lambda>(replicate, res, a).
       let r = r\<lparr>app_state := a\<rparr> in
       if \<not> replicate then
         Inr (answer_request remote req \<lparr> rp_view = 0, rp_opnum = 0, rp_clientreqid = vr_clientreqid req, rp_reply = res \<rparr> r)
       else let r = r\<lparr>lastOp := lastOp r + 1, lastCommitted := lastCommitted r + 1\<rparr> in
         Inr (answer_request remote req
           \<lparr> rp_view = rview r, rp_opnum = lastOp r, rp_clientreqid = vr_clientreqid req, rp_reply = res \<rparr> r)))"

definition HandleRequest :: "'a AppReplica \<Rightarrow> addr \<Rightarrow> VRRequest \<Rightarrow> 'a VRReplica \<Rightarrow> 'a VRReplica result" where
  "HandleRequest A remote req r =
     (if rstatus r \<noteq> STATUS_NORMAL then Inr r
      else if \<not> AmLeader r then Inr r
      else let c = vr_clientid req; q = vr_clientreqid req; r = r\<lparr>clientAddresses := (clientAddresses r)(c \<mapsto> remote)\<rparr> in
        case clientTable r c of
          Some e \<Rightarrow>
            if q < lastReqId e then Inr r
            else if q = lastReqId e then Inr (if replied e then send (ToAddress remote) (MReply (ct_reply e)) r else r)
            else lead_request A remote req r
        | None \<Rightarrow> lead_request A remote req r)"

definition HandleUnloggedRequest :: "'a AppReplica \<Rightarrow> addr \<Rightarrow> VRRequest \<Rightarrow> 'a VRReplica \<Rightarrow> 'a VRReplica result" where
  "HandleUnloggedRequest A remote req r =
     (if rstatus r \<noteq> STATUS_NORMAL then Inr r
      else rbind (app_Unlogged A (vr_op req) (app_state r)) (\<lambda>(res, a).
        Inr (send (ToAddress remote) (MUnloggedReply \<lparr> ur_reply = res, ur_clientreqid = vr_clientreqid req \<rparr>) (r\<lparr>app_state := a\<rparr>))))"

text \<open>The loop of \<open>HandlePrepare\<close> over the requests of the batch; \<open>op\<close> is the number of the next one (the
  code's variable is one behind, and wraps around before the first request of a batch starting at 0).\<close>

fun append_batch :: "(string \<Rightarrow> string) \<Rightarrow> nat \<Rightarrow> nat \<Rightarrow> VRRequest list \<Rightarrow> 'a VRReplica \<Rightarrow> (nat \<times> 'a VRReplica) result" where
  "append_batch sha1 v op [] r = Inr (op, r)"
| "append_batch sha1 v op (req # reqs) r =
     (if op \<le> lastOp r then append_batch sha1 v (op + 1) reqs r
      else rbind (Log_Append sha1 (Viewstamp v op) req LOG_STATE_PREPARED (rlog r)) (\<lambda>l.
           rbind (UpdateClientTable req (r\<lparr>lastOp := lastOp r + 1, rlog := l\<rparr>)) (append_batch sha1 v (op + 1) reqs)))"

definition HandlePrepare :: "(string \<Rightarrow> string) \<Rightarrow> addr \<Rightarrow> PrepareMessage \<Rightarrow> 'a VRReplica \<Rightarrow> 'a VRReplica result" where
  "HandlePrepare sha1 remote msg r =
     (if rstatus r \<noteq> STATUS_NORMAL then Inr r
      else if pm_view msg < rview r then Inr r
      else if pm_view msg > rview r then
        (let r = RequestStateTransfer r in Inr (r\<lparr>pendingPrepares := pendingPrepares r @ [(remote, msg)]\<rparr>))
      else if AmLeader r then Inl Panicked
      else asserting (pm_batchstart msg \<le> pm_opnum msg)
       (asserting (pm_opnum msg - pm_batchstart msg + 1 = length (pm_request msg))
         (let r = r\<lparr>viewChangeTimeout := True\<rparr> in
          if pm_opnum msg \<le> lastOp r then Inr (prepareOK (pm_view msg) (pm_opnum msg) r)
          else if pm_batchstart msg > lastOp r + 1 then
            (let r = RequestStateTransfer r in Inr (r\<lparr>pendingPrepares := pendingPrepares r @ [(remote, msg)]\<rparr>))
          else rbind (append_batch sha1 (pm_view msg) (pm_batchstart msg) (pm_request msg) r) (\<lambda>(op, r).
            asserting (op = pm_opnum msg + 1) (Inr (prepareOK (pm_view msg) (pm_opnum msg) r))))))"

definition HandlePrepareOK :: "'a AppReplica \<Rightarrow> PrepareOKMessage \<Rightarrow> 'a VRReplica \<Rightarrow> 'a VRReplica result" where
  "HandlePrepareOK A msg r =
     (if rstatus r \<noteq> STATUS_NORMAL then Inr r
      else if po_view msg < rview r then Inr r
      else if po_view msg > rview r then Inr (RequestStateTransfer r)
      else if \<not> AmLeader r then Inr r
      else let (msgs, q) = AddAndCheckForQuorum (Viewstamp (po_view msg) (po_opnum msg)) (po_replicaIdx msg) msg (prepareOKQuorum r);
               r = r\<lparr>prepareOKQuorum := q\<rparr>
           in case msgs of None \<Rightarrow> Inr r
            | Some ms \<Rightarrow> rbind (CommitUpTo A (po_opnum msg) r) (\<lambda>r.
                if int (length ms) \<ge> QuorumSize (configuration r) then Inr r
                else Inr ((send ToAll (MCommit \<lparr> cm_view = rview r, cm_opnum = lastCommitted r \<rparr>) r)\<lparr>nullCommitTimeout := True\<rparr>)))"

definition HandleCommit :: "'a AppReplica \<Rightarrow> CommitMessage \<Rightarrow> 'a VRReplica \<Rightarrow> 'a VRReplica result" where
  "HandleCommit A msg r =
     (if rstatus r \<noteq> STATUS_NORMAL then Inr r
      else if cm_view msg < rview r then Inr r
      else if cm_view msg > rview r then Inr (RequestStateTransfer r)
      else if AmLeader r then Inl Panicked
      else let r = r\<lparr>viewChangeTimeout := True\<rparr> in
        if cm_opnum msg \<le> lastCommitted r then Inr r
        else if cm_opnum msg > lastOp r then Inr (RequestStateTransfer r)
        else CommitUpTo A (cm_opnum msg) r)"

definition HandleRequestStateTransfer :: "addr \<Rightarrow> RequestStateTransferMessage \<Rightarrow> 'a VRReplica \<Rightarrow> 'a VRReplica result" where
  "HandleRequestStateTransfer remote msg r =
     (if rstatus r \<noteq> STATUS_NORMAL then Inr r
      else if rt_view msg > rview r then Inr (RequestStateTransfer r)
      else rbind (Log_Dump (rt_opnum msg + 1) (rlog r)) (\<lambda>es.
        Inr (send (ToAddress remote) (MStateTransfer \<lparr> stm_view = rview r, stm_opnum = lastCommitted r, stm_entries = es \<rparr>) r)))"

text \<open>
  The loop of \<open>HandleStateTransfer\<close>, with \<open>oldLastOp\<close>.  \<open>Find\<close> may return the null pointer, which is
  dereferenced.
\<close>

fun transfer_entries :: "(string \<Rightarrow> string) \<Rightarrow> LogEntryMsg list \<Rightarrow> nat \<Rightarrow> 'a VRReplica \<Rightarrow> (nat \<times> 'a VRReplica) result" where
  "transfer_entries sha1 [] old r = Inr (old, r)"
| "transfer_entries sha1 (m # ms) old r =
     (if lm_opnum m \<le> lastCommitted r then transfer_entries sha1 ms old r
      else if lm_opnum m \<le> lastOp r then
        rbind (Log_Find (lm_opnum m) (rlog r)) (\<lambda>e. case e of None \<Rightarrow> Inl Out_of_bounds | Some e \<Rightarrow>
          asserting (vs_opnum (le_viewstamp e) = lm_opnum m) (asserting (vs_view (le_viewstamp e) \<le> lm_view m)
            (if vs_view (le_viewstamp e) = lm_view m then
               asserting (le_state e = LOG_STATE_PREPARED) (transfer_entries sha1 ms old r)
             else asserting (le_state e \<noteq> LOG_STATE_COMMITTED)
               (rbind (RemoveAfter (lm_opnum m) (rlog r)) (\<lambda>l.
                rbind (Log_Append sha1 (Viewstamp (lm_view m) (lm_opnum m)) (lm_request m) LOG_STATE_PREPARED l) (\<lambda>l.
                  transfer_entries sha1 ms (lm_opnum m) (r\<lparr>lastOp := lm_opnum m, rlog := l\<rparr>)))))))
      else asserting (lm_opnum m = lastOp r + 1)
        (rbind (Log_Append sha1 (Viewstamp (lm_view m) (lm_opnum m)) (lm_request m) LOG_STATE_PREPARED (rlog r)) (\<lambda>l.
           transfer_entries sha1 ms old (r\<lparr>lastOp := lastOp r + 1, rlog := l\<rparr>))))"

text \<open>
  At the end the pending prepares are moved to a local list and the loop runs over the emptied member:
  they are dropped, not handled.
\<close>

definition HandleStateTransfer :: "(string \<Rightarrow> string) \<Rightarrow> 'a AppReplica \<Rightarrow> StateTransferMessage \<Rightarrow> 'a VRReplica \<Rightarrow> 'a VRReplica result" where
  "HandleStateTransfer sha1 A msg r =
     (if stm_view msg < rview r then Inr r
      else rbind (transfer_entries sha1 (stm_entries msg) (lastOp r) r) (\<lambda>(old, r).
        let r = (if stm_view msg > rview r then EnterView (stm_view msg) r else r) in
        asserting (stm_opnum msg \<le> lastOp r)
          (rbind (CommitUpTo A (stm_opnum msg) r) (\<lambda>r.
           rbind (SendPrepareOKs old r) (\<lambda>r. Inr (r\<lparr>pendingPrepares := []\<rparr>))))))"

definition min_committed :: "('m \<Rightarrow> nat) \<Rightarrow> (nat \<times> 'm) list \<Rightarrow> nat result" where
  "min_committed g ms = (case ms of [] \<Rightarrow> Inl Out_of_bounds | _ \<Rightarrow> Inr (Min (set (map (g \<circ> snd) ms))))"

definition HandleStartViewChange :: "StartViewChangeMessage \<Rightarrow> 'a VRReplica \<Rightarrow> 'a VRReplica result" where
  "HandleStartViewChange msg r =
     (if svc_view msg < rview r then Inr r
      else if svc_view msg = rview r \<and> rstatus r \<noteq> STATUS_VIEW_CHANGE then Inr r
      else let r = (if rstatus r \<noteq> STATUS_VIEW_CHANGE \<or> svc_view msg > rview r then StartViewChange (svc_view msg) r else r) in
       asserting (svc_view msg = rview r)
        (let (msgs, q) = AddAndCheckForQuorum (svc_view msg) (svc_replicaIdx msg) msg (startViewChangeQuorum r);
             r = r\<lparr>startViewChangeQuorum := q\<rparr>; leader = GetLeaderIndex (configuration r) (rview r)
         in case msgs of None \<Rightarrow> Inr r
          | Some ms \<Rightarrow> if leader = myIdx r then Inr r
              else rbind (min_committed svc_lastCommitted ms) (\<lambda>mc.
                   rbind (Log_Dump (min mc (lastCommitted r)) (rlog r)) (\<lambda>es.
                     Inr (send (ToReplica leader) (MDoViewChange \<lparr> dvc_view = rview r, dvc_lastNormalView = vs_view (LastViewstamp (rlog r)),
                       dvc_lastOp = lastOp r, dvc_lastCommitted = lastCommitted r, dvc_entries = es, dvc_replicaIdx = myIdx r \<rparr>) r)))))"

text \<open>
  The search for the most recent log among the \<open>DoViewChange\<close> messages: the latest viewstamp, and
  whether any message beat the replica's own log.  In that case \<open>latestMsg\<close> points at the loop
  variable \<open>kv\<close>, a copy whose lifetime has ended when the pointer is used.
\<close>

fun latest_log :: "(nat \<times> DoViewChangeMessage) list \<Rightarrow> nat \<Rightarrow> nat \<Rightarrow> bool \<Rightarrow> nat \<times> nat \<times> bool" where
  "latest_log [] v op found = (v, op, found)"
| "latest_log ((_, x) # xs) v op found =
     (if dvc_lastNormalView x > v \<or> dvc_lastNormalView x = v \<and> dvc_lastOp x > op
      then latest_log xs (dvc_lastNormalView x) (dvc_lastOp x) True else latest_log xs v op found)"

definition HandleDoViewChange :: "DoViewChangeMessage \<Rightarrow> 'a VRReplica \<Rightarrow> 'a VRReplica result" where
  "HandleDoViewChange msg r =
     (if dvc_view msg < rview r then Inr r
      else if dvc_view msg = rview r \<and> rstatus r \<noteq> STATUS_VIEW_CHANGE then Inr r
      else let r = (if rstatus r \<noteq> STATUS_VIEW_CHANGE \<or> dvc_view msg > rview r then StartViewChange (dvc_view msg) r else r) in
       asserting (GetLeaderIndex (configuration r) (dvc_view msg) = myIdx r)
        (let (msgs, q) = AddAndCheckForQuorum (dvc_view msg) (dvc_replicaIdx msg) msg (doViewChangeQuorum r);
             r = r\<lparr>doViewChangeQuorum := q\<rparr>
         in case msgs of None \<Rightarrow> Inr r
          | Some ms \<Rightarrow>
            (let (_, latestOp, found) = latest_log ms (vs_view (LastViewstamp (rlog r))) (vs_opnum (LastViewstamp (rlog r))) False in
             if found then Inl Out_of_bounds
             else rbind (min_committed svc_lastCommitted (GetMessages (rview r) (startViewChangeQuorum r))) (\<lambda>mcs.
                  rbind (min_committed dvc_lastCommitted ms) (\<lambda>mcd.
                  let mc = min (min mcs mcd) (lastCommitted r); r = EnterView (dvc_view msg) r in
                  asserting (AmLeader r)
                    (let r = r\<lparr>lastOp := latestOp\<rparr> in
                     rbind (Log_Dump mc (rlog r)) (\<lambda>es.
                       Inr (send ToAll (MStartView \<lparr> sv_view = rview r, sv_lastOp = lastOp r, sv_lastCommitted = lastCommitted r,
                         sv_entries = es \<rparr>) r))))))))"

definition install_view :: "(string \<Rightarrow> string) \<Rightarrow> StartViewMessage \<Rightarrow> 'a VRReplica \<Rightarrow> Log result" where
  "install_view sha1 msg r =
     (case sv_entries msg of
        [] \<Rightarrow> asserting (sv_lastCommitted msg = lastCommitted r) (asserting (sv_lastOp msg = sv_lastCommitted msg) (Inr (rlog r)))
      | e # _ \<Rightarrow> asserting (lm_opnum e \<le> lastCommitted r + 1)
          (rbind (RemoveAfter (sv_lastOp msg + 1) (rlog r)) (Log_Install sha1 (sv_entries msg))))"

definition HandleStartView :: "(string \<Rightarrow> string) \<Rightarrow> 'a AppReplica \<Rightarrow> StartViewMessage \<Rightarrow> 'a VRReplica \<Rightarrow> 'a VRReplica result" where
  "HandleStartView sha1 A msg r =
     (if sv_view msg < rview r then Inr r
      else if sv_view msg = rview r \<and> rstatus r \<noteq> STATUS_VIEW_CHANGE then Inr r
      else asserting (GetLeaderIndex (configuration r) (sv_view msg) \<noteq> myIdx r)
       (rbind (install_view sha1 msg r) (\<lambda>l.
          let r = EnterView (sv_view msg) (r\<lparr>rlog := l\<rparr>); old = lastOp r; r = r\<lparr>lastOp := sv_lastOp msg\<rparr> in
          asserting (\<not> AmLeader r)
            (rbind (CommitUpTo A (sv_lastCommitted msg) r) (SendPrepareOKs old)))))"

definition ReceiveMessage :: "(string \<Rightarrow> string) \<Rightarrow> 'a AppReplica \<Rightarrow> addr \<Rightarrow> vr_message \<Rightarrow> 'a VRReplica \<Rightarrow> 'a VRReplica result" where
  "ReceiveMessage sha1 A remote m r =
     (case m of
        MRequest req \<Rightarrow> HandleRequest A remote req r
      | MUnloggedRequest req \<Rightarrow> HandleUnloggedRequest A remote req r
      | MPrepare p \<Rightarrow> HandlePrepare sha1 remote p r
      | MPrepareOK p \<Rightarrow> HandlePrepareOK A p r
      | MCommit c \<Rightarrow> HandleCommit A c r
      | MRequestStateTransfer t \<Rightarrow> HandleRequestStateTransfer remote t r
      | MStateTransfer t \<Rightarrow> HandleStateTransfer sha1 A t r
      | MStartViewChange v \<Rightarrow> HandleStartViewChange v r
      | MDoViewChange v \<Rightarrow> HandleDoViewChange v r
      | MStartView v \<Rightarrow> HandleStartView sha1 A v r
      | _ \<Rightarrow> Inl Panicked)"

text \<open>The callbacks of the five timers; a timer fires only when it is armed, and is re-armed by firing.\<close>

datatype timer = ViewChangeTimer | NullCommitTimer | StateTransferTimer | ResendPrepareTimer | CloseBatchTimer

fun armed :: "timer \<Rightarrow> 'a VRReplica \<Rightarrow> bool" where
  "armed ViewChangeTimer r = viewChangeTimeout r"
| "armed NullCommitTimer r = nullCommitTimeout r"
| "armed StateTransferTimer r = stateTransferTimeout r"
| "armed ResendPrepareTimer r = resendPrepareTimeout r"
| "armed CloseBatchTimer r = closeBatchTimeout r"

fun FireTimer :: "timer \<Rightarrow> 'a VRReplica \<Rightarrow> 'a VRReplica result" where
  "FireTimer ViewChangeTimer r = Inr (StartViewChange (rview r + 1) r)"
| "FireTimer NullCommitTimer r = SendNullCommit r"
| "FireTimer StateTransferTimer r = Inr (r\<lparr>lastRequestStateTransferView := 0, lastRequestStateTransferOpnum := 0\<rparr>)"
| "FireTimer ResendPrepareTimer r = ResendPrepare r"
| "FireTimer CloseBatchTimer r = CloseBatch r"

inductive vr_step :: "(string \<Rightarrow> string) \<Rightarrow> 'a AppReplica \<Rightarrow> 'a VRReplica \<Rightarrow> 'a VRReplica \<Rightarrow> bool" for sha1 A where
  receive: "ReceiveMessage sha1 A remote m r = Inr r' \<Longrightarrow> vr_step sha1 A r r'"
| fire: "armed t r \<Longrightarrow> FireTimer t r = Inr r' \<Longrightarrow> vr_step sha1 A r r'"

inductive vr_reach :: "(string \<Rightarrow> string) \<Rightarrow> 'a AppReplica \<Rightarrow> 'a VRReplica \<Rightarrow> 'a VRReplica \<Rightarrow> bool" for sha1 A r where
  start: "vr_reach sha1 A r r"
| step: "vr_reach sha1 A r r' \<Longrightarrow> vr_step sha1 A r' r'' \<Longrightarrow> vr_reach sha1 A r r''"

inductive_cases vr_stepE: "vr_step sha1 A r r'"

end
