(* ===== verification/VR_Safety.thy ===== *)
theory VR_Safety
  imports VR_Replica
begin

text \<open>
  What every step of a replica keeps, whatever messages arrive: the log stays consecutive, views, commit
  points and the client table only move forward.  From this: operations are executed in order and
  at most once, and a client request is not executed again when it is retransmitted.
\<close>

named_theorems evolve \<open>steps of a replica only move it forward\<close>

section \<open>Moving forward\<close>

definition rlog_ok :: "'a VRReplica \<Rightarrow> bool" where
  "rlog_ok r \<longleftrightarrow> log_ok (rlog r) \<and> log_start (rlog r) = 1"

definition evolves :: "'a VRReplica \<Rightarrow> 'a VRReplica \<Rightarrow> bool" where
  "evolves r r' \<longleftrightarrow> (rlog_ok r \<longrightarrow> rlog_ok r') \<and> rview r \<le> rview r' \<and> lastCommitted r \<le> lastCommitted r' \<and>
     (\<forall>c. clientTable r c \<noteq> None \<longrightarrow> clientTable r' c \<noteq> None) \<and>
     (\<forall>c. lastReqId (table_entry r c) \<le> lastReqId (table_entry r' c)) \<and>
     myIdx r' = myIdx r \<and> configuration r' = configuration r"

lemma evolves_refl [simp]: "evolves r r"
  by (simp add: evolves_def)

lemma evolves_trans: "evolves r r' \<Longrightarrow> evolves r' r'' \<Longrightarrow> evolves r r''"
  unfolding evolves_def by (metis order_trans)

text \<open>Updates of fields that do not matter here.\<close>

lemma evolves_frame:
  assumes "rlog r' = rlog r" "rview r \<le> rview r'" "lastCommitted r \<le> lastCommitted r'" "clientTable r' = clientTable r"
    "myIdx r' = myIdx r" "configuration r' = configuration r"
  shows "evolves r r'"
  using assms by (simp add: evolves_def rlog_ok_def table_entry_def)

lemma evolves_log:
  assumes "rlog_ok r \<Longrightarrow> log_ok l \<and> log_start l = 1"
  shows "evolves r (r\<lparr>rlog := l\<rparr>)"
  using assms by (simp add: evolves_def rlog_ok_def table_entry_def)

lemma evolves_send [simp]: "evolves r (send d m r)"
  by (rule evolves_frame) (simp_all add: send_def)

lemma evolves_set_table: "lastReqId (table_entry r c) \<le> lastReqId e \<Longrightarrow> evolves r (set_table c e r)"
  by (simp add: evolves_def rlog_ok_def set_table_def table_entry_def)

lemma asserting_Inr: "asserting b k = Inr x \<longleftrightarrow> b \<and> k = Inr x"
  by (simp add: asserting_def)

subsection \<open>The log operations\<close>

lemma Log_Append_keeps: "Log_Append sha1 vs req st l = Inr l' \<Longrightarrow> log_ok l \<Longrightarrow> log_ok l' \<and> log_start l' = log_start l"
  by (auto simp: Log_Append_ok intro!: log_ok_append split: if_splits)

lemma RemoveAfter_keeps: "RemoveAfter op l = Inr l' \<Longrightarrow> log_ok l \<Longrightarrow> log_ok l' \<and> log_start l' = log_start l"
  by (auto simp: RemoveAfter_def Let_def log_ok_take split: if_splits)

lemma install_find_keeps: "install_find ms l = Inr (rest, l') \<Longrightarrow> log_ok l \<Longrightarrow> log_ok l' \<and> log_start l' = log_start l"
  by (induction ms) (auto simp: rbind_Inr_iff RemoveAfter_keeps split: option.splits if_splits)

lemma install_append_keeps: "install_append sha1 ms l = Inr l' \<Longrightarrow> log_ok l \<Longrightarrow> log_ok l' \<and> log_start l' = log_start l"
proof (induction ms arbitrary: l)
  case (Cons m ms)
  then show ?case by (auto simp: rbind_Inr_iff dest: Log_Append_keeps)
qed simp

lemma Log_Install_keeps: "Log_Install sha1 ms l = Inr l' \<Longrightarrow> log_ok l \<Longrightarrow> log_ok l' \<and> log_start l' = log_start l"
  using install_find_keeps install_append_keeps by (fastforce simp: Log_Install_def rbind_Inr_iff)

lemma Log_SetStatus_keeps: "Log_SetStatus op st l = Inr (b, l') \<Longrightarrow> log_ok l \<Longrightarrow> log_ok l' \<and> log_start l' = log_start l"
  by (auto simp: Log_SetStatus_def rbind_Inr_iff log_ok_def nth_list_update Log_Find_def Let_def split: option.splits if_splits)

subsection \<open>The steps\<close>

lemma UpdateClientTable_evolves [evolve]: "UpdateClientTable req r = Inr r' \<Longrightarrow> evolves r r'"
  by (auto simp: UpdateClientTable_def Let_def asserting_Inr intro!: evolves_set_table split: if_splits)

lemma record_reply_evolves [simp]: "evolves r (record_reply c q reply r)"
  by (auto simp: record_reply_def Let_def intro: evolves_set_table)

lemma reply_client_evolves [simp]: "evolves r (reply_client c reply r)"
  by (simp add: reply_client_def split: option.splits)

lemma commit_next_cases:
  assumes "commit_next A r = Inr r'"
  obtains e res a b l c q reply where "Log_Find (lastCommitted r + 1) (rlog r) = Inr (Some e)"
    "app_Replica A (lastCommitted r + 1) (vr_op (le_request e)) (app_state r) = Inr (res, a)"
    "Log_SetStatus (lastCommitted r + 1) LOG_STATE_COMMITTED (rlog r) = Inr (b, l)"
    "r' = reply_client c reply (record_reply c q reply (r\<lparr>lastCommitted := lastCommitted r + 1, app_state := a, rlog := l\<rparr>))"
  using assms by (auto simp: commit_next_def Let_def rbind_Inr_iff split: option.splits)

lemma commit_next_evolves: assumes "commit_next A r = Inr r'" shows "evolves r r'"
  using assms
proof (rule commit_next_cases)
  fix e res a b l c q reply
  assume l: "Log_SetStatus (lastCommitted r + 1) LOG_STATE_COMMITTED (rlog r) = Inr (b, l)"
    and r': "r' = reply_client c reply (record_reply c q reply (r\<lparr>lastCommitted := lastCommitted r + 1, app_state := a, rlog := l\<rparr>))"
  let ?s = "r\<lparr>lastCommitted := lastCommitted r + 1, app_state := a, rlog := l\<rparr>"
  have "evolves r (r\<lparr>rlog := l\<rparr>)" using Log_SetStatus_keeps [OF l] by (intro evolves_log) (auto simp: rlog_ok_def)
  moreover have "evolves (r\<lparr>rlog := l\<rparr>) ?s" by (rule evolves_frame) simp_all
  ultimately have "evolves r ?s" by (rule evolves_trans)
  then show "evolves r r'" unfolding r' using evolves_trans record_reply_evolves reply_client_evolves by metis
qed

lemma commit_rounds_evolves: "commit_rounds A k r = Inr r' \<Longrightarrow> evolves r r'"
  by (induction k arbitrary: r) (auto simp: rbind_Inr_iff intro: evolves_trans dest: commit_next_evolves)

lemma CommitUpTo_evolves [evolve]: "CommitUpTo A n r = Inr r' \<Longrightarrow> evolves r r'"
  by (simp add: CommitUpTo_def commit_rounds_evolves)

lemma prepareOK_evolves [simp]: "evolves r (prepareOK v op r)"
  by (simp add: prepareOK_def)

lemma send_prepareOKs_step:
  assumes "send_prepareOKs (i # is) r = Inr r'"
  obtains "send_prepareOKs is r = Inr r'"
    | req r1 where "UpdateClientTable req r = Inr r1" "send_prepareOKs is (prepareOK (rview r1) i r1) = Inr r'"
proof (cases "i \<le> lastCommitted r")
  case False
  then obtain e r1 where "UpdateClientTable (le_request e) r = Inr r1" "send_prepareOKs is (prepareOK (rview r1) i r1) = Inr r'"
    "Log_Find i (rlog r) = Inr (Some e)" "le_state e = LOG_STATE_PREPARED"
    using assms by (auto simp: rbind_Inr_iff asserting_Inr split: option.splits)
  then show thesis using that(2) by blast
qed (use assms that(1) in simp)

lemma send_prepareOKs_evolves: "send_prepareOKs is r = Inr r' \<Longrightarrow> evolves r r'"
proof (induction "is" arbitrary: r)
  case (Cons i "is")
  from Cons.prems show ?case
  proof (cases rule: send_prepareOKs_step)
    case (2 e r1)
    then show ?thesis using Cons.IH UpdateClientTable_evolves evolves_trans prepareOK_evolves by metis
  qed (rule Cons.IH)
qed simp

lemma SendPrepareOKs_evolves [evolve]: "SendPrepareOKs old r = Inr r' \<Longrightarrow> evolves r r'"
  by (simp add: SendPrepareOKs_def send_prepareOKs_evolves)

lemma RequestStateTransfer_evolves [simp]: "evolves r (RequestStateTransfer r)"
  by (auto simp: RequestStateTransfer_def send_def intro: evolves_frame)

lemma EnterView_evolves: "rview r \<le> v \<Longrightarrow> evolves r (EnterView v r)"
  by (rule evolves_frame) (auto simp: EnterView_def Let_def)

lemma StartViewChange_evolves: "rview r \<le> v \<Longrightarrow> evolves r (StartViewChange v r)"
  by (rule evolves_frame) (auto simp: StartViewChange_def send_def)

lemma evolves_then: "evolves r (f r) \<Longrightarrow> evolves (f r) r' \<Longrightarrow> evolves r r'"
  by (rule evolves_trans)

lemma answer_request_evolves [simp]: "evolves r (answer_request remote req reply r)"
proof -
  let ?e = "(table_entry r (vr_clientid req))\<lparr>replied := True, ct_reply := reply\<rparr>"
  have "evolves r (set_table (vr_clientid req) ?e r)" by (rule evolves_set_table) simp
  then show ?thesis unfolding answer_request_def using evolves_trans evolves_send by metis
qed

lemma lead_request_cases:
  assumes "lead_request A remote req r = Inr r'"
  obtains r1 rep res a reply where "UpdateClientTable req r = Inr r1"
    "app_Leader A (lastCommitted r1) (vr_op req) (app_state r1) = Inr (rep, res, a)"
    "r' = answer_request remote req reply (if rep then r1\<lparr>app_state := a, lastOp := lastOp r1 + 1, lastCommitted := lastCommitted r1 + 1\<rparr>
       else r1\<lparr>app_state := a\<rparr>)"
proof -
  obtain r1 rep res a where r1: "UpdateClientTable req r = Inr r1"
      "app_Leader A (lastCommitted r1) (vr_op req) (app_state r1) = Inr (rep, res, a)"
    using assms by (auto simp: lead_request_def rbind_Inr_iff)
  then show thesis using that [OF r1] assms by (cases rep) (auto simp: lead_request_def)
qed

lemma lead_request_evolves: assumes "lead_request A remote req r = Inr r'" shows "evolves r r'"
  using assms
proof (rule lead_request_cases)
  fix r1 :: "'a VRReplica" and rep res a reply
  let ?r2 = "if rep then r1\<lparr>app_state := a, lastOp := lastOp r1 + 1, lastCommitted := lastCommitted r1 + 1\<rparr> else r1\<lparr>app_state := a\<rparr>"
  assume r1: "UpdateClientTable req r = Inr r1" and r': "r' = answer_request remote req reply ?r2"
  have "evolves r1 ?r2" by (rule evolves_frame) simp_all
  then show "evolves r r'" unfolding r' using UpdateClientTable_evolves [OF r1] evolves_trans answer_request_evolves by metis
qed

lemma HandleRequest_evolves [evolve]: assumes "HandleRequest A remote req r = Inr r'" shows "evolves r r'"
proof -
  let ?r = "r\<lparr>clientAddresses := (clientAddresses r)(vr_clientid req \<mapsto> remote)\<rparr>"
  have 1: "evolves r ?r" by (rule evolves_frame) simp_all
  have "r' = r \<or> r' = ?r \<or> (\<exists>d m. r' = send d m ?r) \<or> lead_request A remote req ?r = Inr r'"
    using assms by (auto simp: HandleRequest_def Let_def split: if_splits option.splits)
  then show ?thesis using 1 lead_request_evolves evolves_trans [OF 1] evolves_send evolves_refl by metis
qed

lemma HandleUnloggedRequest_evolves [evolve]: "HandleUnloggedRequest A remote req r = Inr r' \<Longrightarrow> evolves r r'"
  by (auto simp: HandleUnloggedRequest_def rbind_Inr_iff send_def intro: evolves_frame split: if_splits)

lemma append_batch_evolves: "append_batch sha1 v op reqs r = Inr (op', r') \<Longrightarrow> evolves r r'"
proof (induction sha1 v op reqs r rule: append_batch.induct)
  case (2 sha1 v op req reqs r)
  show ?case
  proof (cases "op \<le> lastOp r")
    case False
    then obtain l r1 where l: "Log_Append sha1 (Viewstamp v op) req LOG_STATE_PREPARED (rlog r) = Inr l"
        "UpdateClientTable req (r\<lparr>lastOp := lastOp r + 1, rlog := l\<rparr>) = Inr r1" "append_batch sha1 v (op + 1) reqs r1 = Inr (op', r')"
      using 2(3) by (auto simp: rbind_Inr_iff)
    have "evolves r (r\<lparr>rlog := l\<rparr>)" using Log_Append_keeps [OF l(1)] by (intro evolves_log) (auto simp: rlog_ok_def)
    moreover have "evolves (r\<lparr>rlog := l\<rparr>) (r\<lparr>lastOp := lastOp r + 1, rlog := l\<rparr>)" by (rule evolves_frame) simp_all
    ultimately show ?thesis using 2(2) [OF False l(3)] UpdateClientTable_evolves [OF l(2)] evolves_trans by metis
  qed (use 2 in simp)
qed simp

lemma HandlePrepare_cases:
  assumes "HandlePrepare sha1 remote msg r = Inr r'"
  obtains "r' = r" | ps where "r' = (RequestStateTransfer r)\<lparr>pendingPrepares := ps\<rparr>"
    | "r' = prepareOK (pm_view msg) (pm_opnum msg) (r\<lparr>viewChangeTimeout := True\<rparr>)"
    | ps where "r' = (RequestStateTransfer (r\<lparr>viewChangeTimeout := True\<rparr>))\<lparr>pendingPrepares := ps\<rparr>"
    | op r1 where "append_batch sha1 (pm_view msg) (pm_batchstart msg) (pm_request msg) (r\<lparr>viewChangeTimeout := True\<rparr>) = Inr (op, r1)"
        "r' = prepareOK (pm_view msg) (pm_opnum msg) r1"
  using assms by (auto simp: HandlePrepare_def Let_def asserting_Inr rbind_Inr_iff split: if_splits)

lemma HandlePrepare_evolves [evolve]: assumes "HandlePrepare sha1 remote msg r = Inr r'" shows "evolves r r'"
proof -
  let ?r = "r\<lparr>viewChangeTimeout := True\<rparr>"
  have 1: "evolves r ?r" by (rule evolves_frame) simp_all
  have pend: "evolves s ((RequestStateTransfer s)\<lparr>pendingPrepares := ps\<rparr>)" for s :: "'a VRReplica" and ps
    by (rule evolves_trans [OF RequestStateTransfer_evolves], rule evolves_frame) simp_all
  from assms show ?thesis
  proof (cases rule: HandlePrepare_cases)
    case (5 op r1)
    then show ?thesis using append_batch_evolves evolves_trans [OF 1] evolves_trans prepareOK_evolves by metis
  qed (simp_all only: evolves_refl pend evolves_trans [OF 1 pend] evolves_trans [OF 1 prepareOK_evolves])
qed

lemma HandlePrepareOK_cases:
  assumes "HandlePrepareOK A msg r = Inr r'"
  obtains "r' = r" | "r' = RequestStateTransfer r" | q where "r' = r\<lparr>prepareOKQuorum := q\<rparr>"
    | q r1 where "CommitUpTo A (po_opnum msg) (r\<lparr>prepareOKQuorum := q\<rparr>) = Inr r1"
        "r' = r1 \<or> (\<exists>m. r' = (send ToAll m r1)\<lparr>nullCommitTimeout := True\<rparr>)"
proof -
  have "\<exists>q. r' = r \<or> r' = RequestStateTransfer r \<or> r' = r\<lparr>prepareOKQuorum := q\<rparr> \<or>
      (\<exists>r1. CommitUpTo A (po_opnum msg) (r\<lparr>prepareOKQuorum := q\<rparr>) = Inr r1 \<and>
        (r' = r1 \<or> (\<exists>m. r' = (send ToAll m r1)\<lparr>nullCommitTimeout := True\<rparr>)))"
    using assms by (auto simp: HandlePrepareOK_def Let_def rbind_Inr_iff split: if_splits option.splits prod.splits)
  then show thesis using that by blast
qed

lemma HandlePrepareOK_evolves [evolve]: assumes "HandlePrepareOK A msg r = Inr r'" shows "evolves r r'"
proof -
  have 1: "evolves r (r\<lparr>prepareOKQuorum := q\<rparr>)" for q by (rule evolves_frame) simp_all
  have 2: "evolves s ((send ToAll m s)\<lparr>nullCommitTimeout := True\<rparr>)" for s :: "'a VRReplica" and m
    by (rule evolves_frame) (simp_all add: send_def)
  from assms show ?thesis
  proof (cases rule: HandlePrepareOK_cases)
    case (4 q r1)
    then show ?thesis using 1 2 CommitUpTo_evolves evolves_trans by metis
  qed (simp_all only: evolves_refl RequestStateTransfer_evolves 1)
qed

lemma HandleCommit_evolves [evolve]: assumes "HandleCommit A msg r = Inr r'" shows "evolves r r'"
proof -
  let ?r = "r\<lparr>viewChangeTimeout := True\<rparr>"
  have 1: "evolves r ?r" by (rule evolves_frame) simp_all
  have "r' = r \<or> r' = RequestStateTransfer r \<or> r' = ?r \<or> r' = RequestStateTransfer ?r \<or> CommitUpTo A (cm_opnum msg) ?r = Inr r'"
    using assms by (auto simp: HandleCommit_def Let_def split: if_splits)
  then show ?thesis using 1 CommitUpTo_evolves evolves_trans [OF 1] RequestStateTransfer_evolves evolves_refl by metis
qed

lemma HandleRequestStateTransfer_evolves [evolve]: "HandleRequestStateTransfer remote msg r = Inr r' \<Longrightarrow> evolves r r'"
  by (auto simp: HandleRequestStateTransfer_def rbind_Inr_iff split: if_splits)

lemma transfer_put_evolves:
  assumes "rlog_ok r \<Longrightarrow> log_ok l \<and> log_start l = 1"
  shows "evolves r (r\<lparr>lastOp := n, rlog := l\<rparr>)"
  using assms by (simp add: evolves_def rlog_ok_def table_entry_def)

text \<open>One entry of a state transfer: skipped, or appended, after cutting the log or at its end.\<close>

lemma transfer_entries_step:
  assumes "transfer_entries sha1 (m # ms) old r = Inr z"
  shows "transfer_entries sha1 ms old r = Inr z \<or>
    (\<exists>n l l'. lastCommitted r < lm_opnum m \<and> n = lm_opnum m \<and> (RemoveAfter (lm_opnum m) (rlog r) = Inr l \<or> l = rlog r) \<and>
      Log_Append sha1 (Viewstamp (lm_view m) (lm_opnum m)) (lm_request m) LOG_STATE_PREPARED l = Inr l' \<and>
      (\<exists>old'. transfer_entries sha1 ms old' (r\<lparr>lastOp := n, rlog := l'\<rparr>) = Inr z))"
proof (cases "lm_opnum m \<le> lastCommitted r \<or> \<not> lm_opnum m \<le> lastOp r")
  case True
  then show ?thesis using assms by (fastforce simp: rbind_Inr_iff asserting_Inr split: if_splits)
next
  case False
  then obtain e where "Log_Find (lm_opnum m) (rlog r) = Inr (Some e)"
    using assms by (auto simp: rbind_Inr_iff split: option.splits)
  then show ?thesis using False assms
    by (cases "vs_view (le_viewstamp e) = lm_view m") (auto simp: rbind_Inr_iff asserting_Inr)
qed

lemma transfer_entries_evolves:
  "transfer_entries sha1 ms old r = Inr (old', r') \<Longrightarrow> evolves r r' \<and> lastCommitted r' = lastCommitted r \<and> rview r' = rview r"
proof (induction ms arbitrary: old r)
  case (Cons m ms)
  consider "transfer_entries sha1 ms old r = Inr (old', r')"
    | n l l' old1 where "RemoveAfter (lm_opnum m) (rlog r) = Inr l \<or> l = rlog r"
      "Log_Append sha1 (Viewstamp (lm_view m) (lm_opnum m)) (lm_request m) LOG_STATE_PREPARED l = Inr l'"
      "transfer_entries sha1 ms old1 (r\<lparr>lastOp := n, rlog := l'\<rparr>) = Inr (old', r')"
    using transfer_entries_step [OF Cons.prems] by blast
  then show ?case
  proof cases
    case l: (2 n l l' old1)
    have "evolves r (r\<lparr>lastOp := n, rlog := l'\<rparr>)"
      using l(1) RemoveAfter_keeps Log_Append_keeps [OF l(2)] by (intro transfer_put_evolves) (auto simp: rlog_ok_def)
    then show ?thesis using Cons.IH [OF l(3)] evolves_trans by fastforce
  qed (rule Cons.IH)
qed simp

lemma HandleStateTransfer_cases:
  assumes "HandleStateTransfer sha1 A msg r = Inr r'"
  obtains "r' = r" | old r1 r2 r3 where "rview r \<le> stm_view msg" "transfer_entries sha1 (stm_entries msg) (lastOp r) r = Inr (old, r1)"
    "CommitUpTo A (stm_opnum msg) (if stm_view msg > rview r1 then EnterView (stm_view msg) r1 else r1) = Inr r2"
    "SendPrepareOKs old r2 = Inr r3" "r' = r3\<lparr>pendingPrepares := []\<rparr>"
proof (cases "stm_view msg < rview r")
  case False
  then show thesis using assms that(2) by (auto simp: HandleStateTransfer_def Let_def rbind_Inr_iff asserting_Inr)
qed (use assms that(1) in \<open>simp add: HandleStateTransfer_def\<close>)

lemma HandleStateTransfer_evolves [evolve]: assumes "HandleStateTransfer sha1 A msg r = Inr r'" shows "evolves r r'"
  using assms
proof (rule HandleStateTransfer_cases)
  fix old and r1 r2 r3 :: "'a VRReplica"
  let ?e = "if stm_view msg > rview r1 then EnterView (stm_view msg) r1 else r1"
  assume a: "transfer_entries sha1 (stm_entries msg) (lastOp r) r = Inr (old, r1)" "CommitUpTo A (stm_opnum msg) ?e = Inr r2"
    "SendPrepareOKs old r2 = Inr r3" "r' = r3\<lparr>pendingPrepares := []\<rparr>"
  have "evolves r1 ?e" using EnterView_evolves [of r1 "stm_view msg"] by simp
  moreover have "evolves r3 r'" unfolding a(4) by (rule evolves_frame) simp_all
  ultimately show "evolves r r'"
    using transfer_entries_evolves [OF a(1)] CommitUpTo_evolves [OF a(2)] SendPrepareOKs_evolves [OF a(3)] evolves_trans by metis
qed simp

definition start_change :: "nat \<Rightarrow> 'a VRReplica \<Rightarrow> 'a VRReplica" where
  "start_change v r = (if rstatus r \<noteq> STATUS_VIEW_CHANGE \<or> v > rview r then StartViewChange v r else r)"

lemma start_change_evolves: "rview r \<le> v \<Longrightarrow> evolves r (start_change v r)"
  by (simp add: start_change_def StartViewChange_evolves)

lemma HandleStartViewChange_cases:
  assumes "HandleStartViewChange msg r = Inr r'"
  obtains "r' = r" | q where "rview r \<le> svc_view msg" "r' = (start_change (svc_view msg) r)\<lparr>startViewChangeQuorum := q\<rparr>"
    | q d m where "rview r \<le> svc_view msg" "r' = send d m ((start_change (svc_view msg) r)\<lparr>startViewChangeQuorum := q\<rparr>)"
proof (cases "svc_view msg < rview r \<or> svc_view msg = rview r \<and> rstatus r \<noteq> STATUS_VIEW_CHANGE")
  case False
  then have "rview r \<le> svc_view msg" by simp
  then show thesis using assms False that(2,3) unfolding HandleStartViewChange_def start_change_def [symmetric]
    by (auto simp: Let_def rbind_Inr_iff asserting_Inr split: if_splits prod.splits option.splits)
qed (use assms that(1) in \<open>auto simp: HandleStartViewChange_def\<close>)

lemma HandleStartViewChange_evolves [evolve]: assumes "HandleStartViewChange msg r = Inr r'" shows "evolves r r'"
proof -
  have 1: "evolves s (s\<lparr>startViewChangeQuorum := q\<rparr>)" for s :: "'a VRReplica" and q by (rule evolves_frame) simp_all
  from assms show ?thesis
  proof (cases rule: HandleStartViewChange_cases)
    case (2 q)
    show ?thesis unfolding 2(2) by (rule evolves_trans [OF start_change_evolves [OF 2(1)] 1])
  next
    case (3 q d m)
    show ?thesis unfolding 3(2) by (rule evolves_trans [OF evolves_trans [OF start_change_evolves [OF 3(1)] 1] evolves_send])
  qed simp
qed

lemma HandleDoViewChange_cases:
  assumes "HandleDoViewChange msg r = Inr r'"
  obtains "r' = r" | q where "rview r \<le> dvc_view msg" "r' = (start_change (dvc_view msg) r)\<lparr>doViewChangeQuorum := q\<rparr>"
    | q n d m where "rview r \<le> dvc_view msg"
        "r' = send d m ((EnterView (dvc_view msg) ((start_change (dvc_view msg) r)\<lparr>doViewChangeQuorum := q\<rparr>))\<lparr>lastOp := n\<rparr>)"
proof (cases "dvc_view msg < rview r \<or> dvc_view msg = rview r \<and> rstatus r \<noteq> STATUS_VIEW_CHANGE")
  case False
  then have "rview r \<le> dvc_view msg" by simp
  then show thesis using assms False that(2,3) unfolding HandleDoViewChange_def start_change_def [symmetric]
    by (auto simp: Let_def rbind_Inr_iff asserting_Inr split: if_splits prod.splits option.splits)
qed (use assms that(1) in \<open>auto simp: HandleDoViewChange_def\<close>)

lemma HandleDoViewChange_evolves [evolve]: assumes "HandleDoViewChange msg r = Inr r'" shows "evolves r r'"
proof -
  have 1: "evolves s (s\<lparr>doViewChangeQuorum := q\<rparr>)" "evolves s (s\<lparr>lastOp := n\<rparr>)" for s :: "'a VRReplica" and q n
    by (rule evolves_frame; simp)+
  have v: "rview (start_change v r) = v" if "rview r \<le> v" for v using that by (auto simp: start_change_def StartViewChange_def send_def)
  from assms show ?thesis
  proof (cases rule: HandleDoViewChange_cases)
    case (3 q n d m)
    let ?t = "(start_change (dvc_view msg) r)\<lparr>doViewChangeQuorum := q\<rparr>"
    have "evolves ?t (EnterView (dvc_view msg) ?t)" using v [OF 3(1)] by (intro EnterView_evolves) simp
    then show ?thesis unfolding 3(2) using 1 start_change_evolves [OF 3(1)] evolves_trans evolves_send by metis
  next
    case (2 q)
    show ?thesis unfolding 2(2) by (rule evolves_trans [OF start_change_evolves [OF 2(1)] 1(1)])
  qed simp
qed

lemma install_view_keeps:
  assumes "install_view sha1 msg r = Inr l" "rlog_ok r"
  shows "log_ok l \<and> log_start l = 1"
proof -
  have "l = rlog r \<or> (\<exists>l0. RemoveAfter (sv_lastOp msg + 1) (rlog r) = Inr l0 \<and> Log_Install sha1 (sv_entries msg) l0 = Inr l)"
    using assms(1) by (cases "sv_entries msg") (auto simp: install_view_def asserting_Inr rbind_Inr_iff)
  then show ?thesis using assms(2) RemoveAfter_keeps Log_Install_keeps unfolding rlog_ok_def by metis
qed

lemma HandleStartView_cases:
  assumes "HandleStartView sha1 A msg r = Inr r'"
  obtains "r' = r" | l r2 where "rview r \<le> sv_view msg" "install_view sha1 msg r = Inr l"
    "CommitUpTo A (sv_lastCommitted msg) ((EnterView (sv_view msg) (r\<lparr>rlog := l\<rparr>))\<lparr>lastOp := sv_lastOp msg\<rparr>) = Inr r2"
    "SendPrepareOKs (lastOp (EnterView (sv_view msg) (r\<lparr>rlog := l\<rparr>))) r2 = Inr r'"
proof (cases "sv_view msg < rview r \<or> sv_view msg = rview r \<and> rstatus r \<noteq> STATUS_VIEW_CHANGE")
  case False
  then have "rview r \<le> sv_view msg" by simp
  then show thesis using assms False that(2) by (auto simp: HandleStartView_def Let_def rbind_Inr_iff asserting_Inr)
qed (use assms that(1) in \<open>auto simp: HandleStartView_def\<close>)

lemma HandleStartView_evolves [evolve]: assumes "HandleStartView sha1 A msg r = Inr r'" shows "evolves r r'"
  using assms
proof (rule HandleStartView_cases)
  fix l and r2 :: "'a VRReplica"
  let ?e = "EnterView (sv_view msg) (r\<lparr>rlog := l\<rparr>)"
  assume v: "rview r \<le> sv_view msg"
    and l: "install_view sha1 msg r = Inr l"
    and r2: "CommitUpTo A (sv_lastCommitted msg) (?e\<lparr>lastOp := sv_lastOp msg\<rparr>) = Inr r2" "SendPrepareOKs (lastOp ?e) r2 = Inr r'"
  have "evolves r (r\<lparr>rlog := l\<rparr>)" using install_view_keeps [OF l] by (rule evolves_log)
  moreover have "evolves (r\<lparr>rlog := l\<rparr>) ?e" using v by (intro EnterView_evolves) simp
  moreover have "evolves ?e (?e\<lparr>lastOp := sv_lastOp msg\<rparr>)" by (rule evolves_frame) simp_all
  ultimately show "evolves r r'" using CommitUpTo_evolves [OF r2(1)] SendPrepareOKs_evolves [OF r2(2)] evolves_trans by metis
qed simp

lemma ReceiveMessage_evolves: "ReceiveMessage sha1 A remote m r = Inr r' \<Longrightarrow> evolves r r'"
  by (cases m) (simp_all add: ReceiveMessage_def evolve)

lemma FireTimer_evolves: "FireTimer t r = Inr r' \<Longrightarrow> evolves r r'"
proof (cases t)
  case ViewChangeTimer
  then show "FireTimer t r = Inr r' \<Longrightarrow> ?thesis" using StartViewChange_evolves [of r "rview r + 1"] by simp
next
  case CloseBatchTimer
  then show "FireTimer t r = Inr r' \<Longrightarrow> ?thesis"
    by (auto simp: CloseBatch_def asserting_Inr rbind_Inr_iff Let_def send_def intro: evolves_frame)
qed (auto simp: SendNullCommit_def ResendPrepare_def asserting_Inr intro: evolves_frame)

lemma vr_step_evolves: "vr_step sha1 A r r' \<Longrightarrow> evolves r r'"
  by (auto elim: vr_stepE dest: ReceiveMessage_evolves FireTimer_evolves)

lemma vr_reach_evolves: "vr_reach sha1 A r r' \<Longrightarrow> evolves r r'"
  by (induction rule: vr_reach.induct) (auto intro: evolves_trans vr_step_evolves)

lemma VRReplica_new_log: "rlog_ok (VRReplica_new cfg idx batch a)"
  by (simp add: rlog_ok_def VRReplica_new_def log_ok_def Let_def)

end
