(* ===== verification/Txn_Types.thy ===== *)
theory Txn_Types
  imports Prelude "HOL-Library.AList"
begin

text \<open>
  The value types shared by the clients and servers of the distributed store
  (\<open>src/distributed/store/common\<close>): transaction timestamps with their total order
  (\<open>timestamp.cc\<close>), transactions with their protocol-buffer form (\<open>transaction.cc\<close>), the
  simulated TrueTime clock (\<open>truetime.cc\<close>), the volatile store (\<open>backend/kvstore.cc\<close>), the
  reply codes and the placement of keys on shards.

  An \<open>unordered_map\<close> is an association list with distinct keys, in insertion order: the standard
  leaves the iteration order open, and no result below depends on the one chosen here.
  \<open>gettimeofday\<close> and \<open>rand\<close> are arguments of the definitions that call them.
\<close>

unbundle bit_operations_syntax

section \<open>Timestamps\<close>

datatype Timestamp = Timestamp (getTimestamp: "64 word") (getID: "64 word")

definition Timestamp_default :: Timestamp where
  "Timestamp_default = Timestamp 0 0"

definition Timestamp_of :: "64 word \<Rightarrow> Timestamp" where
  "Timestamp_of t = Timestamp t 0"

definition ts_eq :: "Timestamp \<Rightarrow> Timestamp \<Rightarrow> bool" where
  "ts_eq s t = (getTimestamp s = getTimestamp t \<and> getID s = getID t)"

definition ts_ne :: "Timestamp \<Rightarrow> Timestamp \<Rightarrow> bool" where
  "ts_ne s t = (getTimestamp s \<noteq> getTimestamp t \<or> getID s \<noteq> getID t)"

definition ts_greater :: "Timestamp \<Rightarrow> Timestamp \<Rightarrow> bool" where
  "ts_greater s t = (if getTimestamp s = getTimestamp t then getID s > getID t
                     else getTimestamp s > getTimestamp t)"

definition ts_less :: "Timestamp \<Rightarrow> Timestamp \<Rightarrow> bool" where
  "ts_less s t = (if getTimestamp s = getTimestamp t then getID s < getID t
                  else getTimestamp s < getTimestamp t)"

definition ts_ge :: "Timestamp \<Rightarrow> Timestamp \<Rightarrow> bool" where
  "ts_ge s t = (if getTimestamp s = getTimestamp t then getID s \<ge> getID t
                else getTimestamp s \<ge> getTimestamp t)"

definition ts_le :: "Timestamp \<Rightarrow> Timestamp \<Rightarrow> bool" where
  "ts_le s t = (if getTimestamp s = getTimestamp t then getID s \<le> getID t
                else getTimestamp s \<le> getTimestamp t)"

definition isValid :: "Timestamp \<Rightarrow> bool" where
  "isValid s = (getTimestamp s > 0 \<and> getID s > 0)"

definition setTimestamp :: "Timestamp \<Rightarrow> 64 word \<Rightarrow> Timestamp" where
  "setTimestamp s t = Timestamp t (getID s)"

text \<open>The six comparison operators are those of one linear order, the lexicographic one.\<close>

instantiation Timestamp :: linorder
begin

definition less_eq_Timestamp :: "Timestamp \<Rightarrow> Timestamp \<Rightarrow> bool" where
  "less_eq_Timestamp s t = ts_le s t"

definition less_Timestamp :: "Timestamp \<Rightarrow> Timestamp \<Rightarrow> bool" where
  "less_Timestamp s t = ts_less s t"

instance
proof
  fix x y z :: Timestamp
  show "(x < y) = (x \<le> y \<and> \<not> y \<le> x)" "x \<le> x" "x \<le> y \<or> y \<le> x"
    by (auto simp: less_eq_Timestamp_def less_Timestamp_def ts_le_def ts_less_def)
  show "x \<le> y \<Longrightarrow> y \<le> z \<Longrightarrow> x \<le> z" "x \<le> y \<Longrightarrow> y \<le> x \<Longrightarrow> x = y"
    by (cases x; cases y; cases z;
        auto simp: less_eq_Timestamp_def ts_le_def split: if_splits)+
qed

end

lemma ts_operators:
  "ts_eq s t = (s = t)" "ts_ne s t = (s \<noteq> t)" "ts_less s t = (s < t)" "ts_le s t = (s \<le> t)"
  "ts_greater s t = (t < s)" "ts_ge s t = (t \<le> s)"
  by (cases s; cases t; auto simp: ts_eq_def ts_ne_def ts_greater_def ts_ge_def less_Timestamp_def
      ts_less_def less_eq_Timestamp_def ts_le_def)+

section \<open>Transactions\<close>

record TimestampMessage =
  msg_id :: "64 word"
  msg_timestamp :: "64 word"

record ReadMessage =
  read_key :: string
  readtime :: TimestampMessage

record WriteMessage =
  write_key :: string
  write_value :: string

record TransactionMessage =
  msg_readset :: "ReadMessage list"
  msg_writeset :: "WriteMessage list"

definition Timestamp_serialize :: "Timestamp \<Rightarrow> TimestampMessage" where
  "Timestamp_serialize t = \<lparr> msg_id = getID t, msg_timestamp = getTimestamp t \<rparr>"

definition Timestamp_of_message :: "TimestampMessage \<Rightarrow> Timestamp" where
  "Timestamp_of_message msg = Timestamp (msg_timestamp msg) (msg_id msg)"

record Transaction =
  readSet :: "(string \<times> Timestamp) list"
  writeSet :: "(string \<times> string) list"

definition Transaction_new :: Transaction where
  "Transaction_new = \<lparr> readSet = [], writeSet = [] \<rparr>"

definition addReadSet :: "string \<Rightarrow> Timestamp \<Rightarrow> Transaction \<Rightarrow> Transaction" where
  "addReadSet key readTime txn = txn \<lparr> readSet := AList.update key readTime (readSet txn) \<rparr>"

definition addWriteSet :: "string \<Rightarrow> string \<Rightarrow> Transaction \<Rightarrow> Transaction" where
  "addWriteSet key v txn = txn \<lparr> writeSet := AList.update key v (writeSet txn) \<rparr>"

definition Transaction_of_message :: "TransactionMessage \<Rightarrow> Transaction" where
  "Transaction_of_message msg =
     fold (\<lambda>w. addWriteSet (write_key w) (write_value w)) (msg_writeset msg)
       (fold (\<lambda>r. addReadSet (read_key r) (Timestamp_of_message (readtime r))) (msg_readset msg)
          Transaction_new)"

definition Transaction_serialize :: "Transaction \<Rightarrow> TransactionMessage" where
  "Transaction_serialize txn =
     \<lparr> msg_readset = map (\<lambda>(k, t). \<lparr> read_key = k, readtime = Timestamp_serialize t \<rparr>) (readSet txn),
       msg_writeset = map (\<lambda>(k, v). \<lparr> write_key = k, write_value = v \<rparr>) (writeSet txn) \<rparr>"

text \<open>The representation invariant of the two maps: no key twice.\<close>

definition txn_ok :: "Transaction \<Rightarrow> bool" where
  "txn_ok txn = (distinct (map fst (readSet txn)) \<and> distinct (map fst (writeSet txn)))"

lemma txn_ok_simps [simp]:
  "txn_ok Transaction_new"
  "txn_ok txn \<Longrightarrow> txn_ok (addReadSet k t txn)"
  "txn_ok txn \<Longrightarrow> txn_ok (addWriteSet k v txn)"
  by (simp_all add: txn_ok_def Transaction_new_def addReadSet_def addWriteSet_def distinct_update)

lemma txn_ok_of_message [simp]: "txn_ok (Transaction_of_message msg)"
proof -
  have w: "txn_ok txn \<Longrightarrow> txn_ok (fold (\<lambda>w. addWriteSet (write_key w) (write_value w)) ws txn)"
    for ws txn by (induction ws arbitrary: txn) simp_all
  have r: "txn_ok txn \<Longrightarrow>
      txn_ok (fold (\<lambda>r. addReadSet (read_key r) (Timestamp_of_message (readtime r))) rs txn)"
    for rs txn by (induction rs arbitrary: txn) simp_all
  show ?thesis by (simp add: Transaction_of_message_def w r)
qed

lemma Timestamp_message [simp]: "Timestamp_of_message (Timestamp_serialize t) = t"
  by (simp add: Timestamp_of_message_def Timestamp_serialize_def)

lemma update_new: "k \<notin> fst ` set xs \<Longrightarrow> AList.update k v xs = xs @ [(k, v)]"
  by (induction xs) auto

lemma fold_addReadSet:
  "distinct (map fst (readSet txn @ rs)) \<Longrightarrow>
   fold (\<lambda>r. addReadSet (read_key r) (Timestamp_of_message (readtime r)))
     (map (\<lambda>(k, t). \<lparr> read_key = k, readtime = Timestamp_serialize t \<rparr>) rs) txn
   = txn \<lparr> readSet := readSet txn @ rs \<rparr>"
  by (induction rs arbitrary: txn) (auto simp: addReadSet_def update_new)

lemma fold_addWriteSet:
  "distinct (map fst (writeSet txn @ ws)) \<Longrightarrow>
   fold (\<lambda>w. addWriteSet (write_key w) (write_value w))
     (map (\<lambda>(k, v). \<lparr> write_key = k, write_value = v \<rparr>) ws) txn
   = txn \<lparr> writeSet := writeSet txn @ ws \<rparr>"
  by (induction ws arbitrary: txn) (auto simp: addWriteSet_def update_new)

lemma Transaction_message: "txn_ok txn \<Longrightarrow> Transaction_of_message (Transaction_serialize txn) = txn"
  by (simp add: Transaction_of_message_def Transaction_serialize_def fold_addReadSet
      fold_addWriteSet Transaction_new_def txn_ok_def)

section \<open>Reply codes\<close>

definition REPLY_OK :: int where "REPLY_OK = 0"

definition REPLY_FAIL :: int where "REPLY_FAIL = 1"

definition REPLY_RETRY :: int where "REPLY_RETRY = 2"

definition REPLY_ABSTAIN :: int where "REPLY_ABSTAIN = 3"

definition REPLY_TIMEOUT :: int where "REPLY_TIMEOUT = 4"

definition REPLY_NETWORK_FAILURE :: int where "REPLY_NETWORK_FAILURE = 5"

definition REPLY_MAX :: int where "REPLY_MAX = 6"

lemmas reply_codes = REPLY_OK_def REPLY_FAIL_def REPLY_RETRY_def REPLY_ABSTAIN_def
  REPLY_TIMEOUT_def REPLY_NETWORK_FAILURE_def REPLY_MAX_def

section \<open>The volatile store\<close>

type_synonym KVStore = "string \<Rightarrow> string list option"

text \<open>
  \<open>store[key]\<close> in \<open>get\<close> and \<open>remove\<close> is reached only after \<open>find\<close> succeeded, so only \<open>put\<close>
  inserts an empty list.  \<open>remove\<close> leaves its second argument alone.
\<close>

definition KVStore_get :: "string \<Rightarrow> KVStore \<Rightarrow> string option" where
  "KVStore_get key st = (case st key of None \<Rightarrow> None | Some vs \<Rightarrow> if vs = [] then None else Some (last vs))"

definition KVStore_put :: "string \<Rightarrow> string \<Rightarrow> KVStore \<Rightarrow> KVStore" where
  "KVStore_put key v st = st(key \<mapsto> (case st key of None \<Rightarrow> [] | Some vs \<Rightarrow> vs) @ [v])"

definition KVStore_remove :: "string \<Rightarrow> KVStore \<Rightarrow> bool \<times> KVStore" where
  "KVStore_remove key st = (case st key of None \<Rightarrow> (False, st)
     | Some vs \<Rightarrow> if vs = [] then (False, st) else (True, st(key \<mapsto> butlast vs)))"

lemma KVStore_get_put: "KVStore_get k (KVStore_put k' v st) = (if k = k' then Some v else KVStore_get k st)"
  by (simp add: KVStore_get_def KVStore_put_def)

lemma KVStore_get_remove_put:
  "fst (KVStore_remove k (KVStore_put k v st)) \<and>
   KVStore_get k' (snd (KVStore_remove k (KVStore_put k v st))) = KVStore_get k' st"
  by (auto simp: KVStore_get_def KVStore_put_def KVStore_remove_def split: option.splits)

section \<open>Placement of keys on shards\<close>

text \<open>
  \<open>hash = ((hash << 5) + hash) + (uint64_t)str[j]\<close> from 5381 on: \<open>char\<close> is signed on the platforms
  the build files name, so a byte from 128 on is sign-extended before the addition.
\<close>

definition char_to_u64 :: "char \<Rightarrow> 64 word" where
  "char_to_u64 c = signed (of_nat (of_char c) :: 8 word)"

definition key_hash :: "string \<Rightarrow> 64 word" where
  "key_hash key = foldl (\<lambda>hash c. (push_bit 5 hash + hash) + char_to_u64 c) 5381 key"

definition key_to_shard :: "string \<Rightarrow> 64 word \<Rightarrow> 64 word" where
  "key_to_shard key nshards = key_hash key mod nshards"

section \<open>TrueTime\<close>

record TrueTime =
  simError :: "64 word"
  simSkew :: "64 word"

definition TrueTime_default :: TrueTime where
  "TrueTime_default = \<lparr> simError = 0, simSkew = 0 \<rparr>"

definition TrueTime_new :: "64 word \<Rightarrow> 64 word \<Rightarrow> 64 word \<Rightarrow> TrueTime" where
  "TrueTime_new skew errorBound r =
     \<lparr> simError = errorBound,
       simSkew = (if skew = 0 then 0 else (r mod skew) - (skew div 2)) \<rparr>"

text \<open>
  \<open>tv_usec\<close> and \<open>tv_sec\<close> are 64-bit signed fields; adding the unsigned skew wraps and the result is
  read as signed again, so a skew above \<open>2^63\<close> acts as a negative one.
\<close>

definition GetTime :: "TrueTime \<Rightarrow> 64 word \<times> 64 word \<Rightarrow> 64 word" where
  "GetTime T now =
     (let sec = fst now; usec = snd now + simSkew T;
          (sec, usec) =
            (if sint usec > 999999 then (sec + 1, usec - 1000000)
             else if sint usec < 0 then (sec - 1, usec + 1000000)
             else (sec, usec))
      in push_bit 32 sec OR usec)"

definition GetTimeAndError :: "TrueTime \<Rightarrow> 64 word \<times> 64 word \<Rightarrow> 64 word \<times> 64 word" where
  "GetTimeAndError T now = (GetTime T now, simError T)"

subsection \<open>The clock grows\<close>

lemma push_or_add:
  fixes a b :: "'a::len word"
  assumes "take_bit n b = b"
  shows "push_bit n a OR b = push_bit n a + b"
proof -
  have "push_bit n a AND b = 0"
    by (rule bit_eqI) (use assms in \<open>auto simp: bit_simps bit_take_bit_iff\<close>, metis bit_take_bit_iff not_less)
  then show ?thesis by (simp add: disjunctive_add_eq_or)
qed

lemma TrueTime_skew:
  assumes "skew \<le> 2000000"
  shows "- 1000000 \<le> sint (simSkew (TrueTime_new skew err r)) \<and> sint (simSkew (TrueTime_new skew err r)) < 1000000"
proof (cases "skew = 0")
  case True then show ?thesis by (simp add: TrueTime_new_def)
next
  case False
  let ?d = "uint (r mod skew) - uint (skew div 2)"
  have k: "uint skew \<le> 2000000" "0 < uint skew"
    using assms False by (simp_all add: word_le_def word_less_def uint_0_iff) (metis False le_less uint_0_iff uint_ge_0)
  have "uint (r mod skew) < uint skew" using k by (simp add: uint_mod)
  moreover have "uint (skew div 2) = uint skew div 2" by (simp add: uint_div)
  ultimately have b: "- 1000000 \<le> ?d" "?d < 1000000" using k uint_ge_0 [of "r mod skew"] by linarith+
  have "r mod skew - skew div 2 = word_of_int ?d" by simp
  then have "sint (r mod skew - skew div 2) = ?d"
    using b by (simp only: sint_sbintrunc') (simp add: signed_take_bit_int_eq_self)
  then show ?thesis using b False by (simp add: TrueTime_new_def)
qed

lemma sint_add_small:
  fixes u s :: "64 word"
  assumes "uint u < 1000000" "- 1000000 \<le> sint s" "sint s < 1000000"
  shows "sint (u + s) = uint u + sint s"
proof -
  have "u + s = word_of_int (uint u + sint s)" by simp
  moreover have "- 1000000 \<le> uint u + sint s" "uint u + sint s < 2000000"
    using assms uint_ge_0 [of u] by linarith+
  ultimately show ?thesis
    by (simp only: sint_sbintrunc') (simp add: signed_take_bit_int_eq_self)
qed

lemma GetTime_calendar:
  fixes T :: TrueTime and sec usec :: "64 word"
  assumes s: "- 1000000 \<le> sint (simSkew T)" "sint (simSkew T) < 1000000"
    and "usec < 1000000" "0 < sec" "sec < 2 ^ 31"
  defines "k \<equiv> uint sec * 1000000 + uint usec + sint (simSkew T)"
  shows "uint (GetTime T (sec, usec)) = k div 1000000 * 2 ^ 32 + k mod 1000000"
proof -
  let ?s = "sint (simSkew T)" and ?u = "usec + simSkew T"
  have u: "uint usec < 1000000" "0 < uint sec" "uint sec < 2 ^ 31"
    using assms(3-5) by (simp_all add: word_less_def)
  have v: "sint ?u = uint usec + ?s"
    using u s by (intro sint_add_small) auto
  define q :: int where "q = (if sint ?u > 999999 then 1 else if sint ?u < 0 then - 1 else 0)"
  define S U where "S = uint sec + q" and "U = uint usec + ?s - q * 1000000"
  have G: "GetTime T (sec, usec) = push_bit 32 (word_of_int S) OR word_of_int U"
    by (simp add: GetTime_def q_def S_def U_def)
  have U: "0 \<le> U" "U < 1000000"
    using u s uint_ge_0 [of usec] unfolding q_def v U_def by presburger+
  have S: "0 \<le> S" "S \<le> 2 ^ 31"
    using u by (auto simp: S_def q_def)
  have "k = S * 1000000 + U"
    by (simp add: k_def S_def U_def algebra_simps)
  then have k: "k div 1000000 = S" "k mod 1000000 = U"
    using U by simp_all
  have "take_bit 32 (word_of_int U :: 64 word) = word_of_int U"
    using U by (intro word_uint_eqI) (simp add: unsigned_take_bit_eq take_bit_int_eq_self uint_word_of_int)
  then have "GetTime T (sec, usec) = word_of_int (S * 2 ^ 32 + U)"
    unfolding G by (simp only: push_or_add) (simp add: push_bit_eq_mult)
  moreover have "uint (word_of_int (S * 2 ^ 32 + U) :: 64 word) = S * 2 ^ 32 + U"
    using U S by (simp only: uint_word_of_int) simp
  ultimately show ?thesis by (simp only: k)
qed

lemma lex_less_weighted:
  fixes a b :: int
  assumes "a < a' \<or> a = a' \<and> b < b'" "b < M" "0 \<le> b'" "0 \<le> M"
  shows "a * M + b < a' * M + b'"
proof (cases "a < a'")
  case True
  then have "(a + 1) * M \<le> a' * M"
    using assms(4) True by (simp add: mult_right_mono)
  then show ?thesis using assms(2,3) by (simp add: algebra_simps)
qed (use assms in simp)

lemma div_mod_lex_less:
  fixes k :: int
  assumes "k < k'" "0 < M"
  shows "k div M < k' div M \<or> k div M = k' div M \<and> k mod M < k' mod M"
proof -
  have "k div M \<le> k' div M" using assms by (intro zdiv_mono1) auto
  moreover have "k mod M < k' mod M" if "k div M = k' div M"
    using assms(1) that by (metis add_less_cancel_left div_mult_mod_eq)
  ultimately show ?thesis by (auto simp: le_less)
qed

text \<open>
  A server whose simulated skew is at most two seconds wide hands out timestamps that grow
  with its clock: a later reading of \<open>gettimeofday\<close> gives a larger 64-bit value, and the low half
  of the value is a number of microseconds below one million (no carry from the skew leaks into
  the seconds).
\<close>

theorem GetTime_increasing:
  fixes sec usec sec' usec' :: "64 word"
  assumes skew: "skew \<le> 2000000"
    and a: "usec < 1000000" "0 < sec" "sec < 2 ^ 31"
    and b: "usec' < 1000000" "0 < sec'" "sec' < 2 ^ 31"
    and less: "sec < sec' \<or> sec = sec' \<and> usec < usec'"
  shows "GetTime (TrueTime_new skew err r) (sec, usec) < GetTime (TrueTime_new skew err r) (sec', usec') \<and>
    uint (take_bit 32 (GetTime (TrueTime_new skew err r) (sec, usec))) < 1000000"
proof -
  define T where "T = TrueTime_new skew err r"
  note s = TrueTime_skew [OF skew, of err r, folded T_def]
  define k k' where "k = uint sec * 1000000 + uint usec + sint (simSkew T)"
    and "k' = uint sec' * 1000000 + uint usec' + sint (simSkew T)"
  have g: "uint (GetTime T (sec, usec)) = k div 1000000 * 2 ^ 32 + k mod 1000000"
    "uint (GetTime T (sec', usec')) = k' div 1000000 * 2 ^ 32 + k' mod 1000000"
    using s a b by (simp_all only: k_def k'_def GetTime_calendar)
  have "uint sec * 1000000 + uint usec < uint sec' * 1000000 + uint usec'"
    using less a(1) by (intro lex_less_weighted) (auto simp: word_less_def)
  then have "k < k'" by (simp add: k_def k'_def)
  then have "k div 1000000 * 2 ^ 32 + k mod 1000000 < k' div 1000000 * 2 ^ 32 + k' mod 1000000"
    using pos_mod_bound [of "1000000 :: int" k] by (intro lex_less_weighted div_mod_lex_less) simp_all
  then have "GetTime T (sec, usec) < GetTime T (sec', usec')"
    by (simp only: word_less_def g)
  moreover have "uint (take_bit 32 (GetTime T (sec, usec))) = k mod 1000000"
    by (simp only: unsigned_take_bit_eq g(1)) (simp add: take_bit_eq_mod)
  ultimately show ?thesis by (simp add: T_def)
qed

theorem GetTime_increasing_witness:
  "GetTime (TrueTime_new 1000 0 7) (10, 100) < GetTime (TrueTime_new 1000 0 7) (10, 999999) \<and>
   uint (take_bit 32 (GetTime (TrueTime_new 1000 0 7) (10, 100))) < 1000000"
  by (rule GetTime_increasing) simp_all

end
