(* ===== verification/Strong_Proto.thy ===== *)
theory Strong_Proto
  imports Txn_Types
begin

text \<open>
  The messages of the distributed store (\<open>src/distributed/proto/strong-proto.proto\<close>) as records, and
  the interface \<open>VersionedKVStore\<close> that the transaction store calls.  A request or a reply crosses
  the network as the record itself: the wire format belongs to the protobuf library.  An optional
  field that the code reads without asking for its presence holds the protobuf default.
\<close>

section \<open>Requests\<close>

datatype Operation = OP_GET | OP_PREPARE | OP_COMMIT | OP_ABORT | OP_VERIFY_GET | OP_RANGE | OP_BATCH_GET | OP_AUDIT

record Request =
  req_op :: Operation
  req_txnid :: nat
  req_prepare :: TransactionMessage
  req_commit :: "64 word"
  req_abort :: TransactionMessage
  req_verify_block :: nat
  req_verify_keys :: "string list"
  req_version :: "(string \<times> 32 word) list"
  req_range :: "string \<times> string"
  req_batchget :: "string list"
  req_audit :: nat

definition TransactionMessage_default :: TransactionMessage where
  "TransactionMessage_default = \<lparr> msg_readset = [], msg_writeset = [] \<rparr>"

definition Request_default :: "Operation \<Rightarrow> nat \<Rightarrow> Request" where
  "Request_default op txnid =
     \<lparr> req_op = op, req_txnid = txnid, req_prepare = TransactionMessage_default, req_commit = 0,
       req_abort = TransactionMessage_default, req_verify_block = 0, req_verify_keys = [], req_version = [],
       req_range = ([], []), req_batchget = [], req_audit = 0 \<rparr>"

section \<open>Replies\<close>

record Digest =
  dg_block :: nat
  dg_hash :: string
  dg_mptHash :: string

record KV =
  kv_key :: string
  kv_val :: string
  kv_estimate_block :: nat

record QLDBProof =
  qp_key :: string
  qp_value :: string
  qp_blockno :: nat
  qp_doc_seq :: nat
  qp_version :: nat
  qp_time :: nat
  qp_hashes :: "string list"
  qp_pos :: "nat list"

record MTProof =
  mtp_digest :: string
  mtp_value :: string
  mtp_proof :: "string list"
  mtp_pos :: "nat list"

record SQLLedgerProof =
  slp_blocks :: "string list"
  slp_txn_proof :: "MTProof list"
  slp_data_proof :: "MTProof list"

record LedgerDBProof =
  ldp_val :: string
  ldp_hash :: string
  ldp_proof :: "string list"
  ldp_mt_pos :: "nat list"
  ldp_mptvalue :: string
  ldp_mpt_chunks :: "string list"
  ldp_mpt_pos :: "nat list"

record MPTProof_msg =
  mpm_value :: string
  mpm_chunks :: "string list"
  mpm_pos :: "nat list"

record LedgerDBAudit =
  lda_digest :: string
  lda_commit_seq :: nat
  lda_first_block_seq :: nat
  lda_commits :: "string list"
  lda_blocks :: "string list"
  lda_mptproofs :: "MPTProof_msg list"

record SQLLedgerAudit =
  sla_block_no :: nat
  sla_digest :: string
  sla_txns :: string
  sla_blocks :: "string list"

record Reply =
  rep_status :: int
  rep_timestamp :: "64 word option"
  rep_digest :: Digest
  rep_values :: "KV list"
  rep_timestamps :: "nat list"
  rep_qproof :: "QLDBProof list"
  rep_proof :: "LedgerDBProof list"
  rep_sproof :: "SQLLedgerProof list"
  rep_saudit :: SQLLedgerAudit
  rep_laudit :: LedgerDBAudit

definition Reply_default :: Reply where
  "Reply_default =
     \<lparr> rep_status = 0, rep_timestamp = None,
       rep_digest = \<lparr> dg_block = 0, dg_hash = [], dg_mptHash = [] \<rparr>,
       rep_values = [], rep_timestamps = [], rep_qproof = [], rep_proof = [], rep_sproof = [],
       rep_saudit = \<lparr> sla_block_no = 0, sla_digest = [], sla_txns = [], sla_blocks = [] \<rparr>,
       rep_laudit = \<lparr> lda_digest = [], lda_commit_seq = 0, lda_first_block_seq = 0, lda_commits = [], lda_blocks = [], lda_mptproofs = [] \<rparr> \<rparr>"

section \<open>The versioned store as the transaction store sees it\<close>

text \<open>
  One of three ledgers is compiled in (\<open>LEDGERDB\<close>, \<open>AMZQLDB\<close>, \<open>SQLLEDGER\<close>); the code above only uses
  the methods of \<open>VersionedKVStore\<close>.  Each fills the reply it is given; the reply of \<open>put\<close> may be the
  null pointer.
\<close>

type_synonym 'b vs_result = "(bool \<times> Reply \<times> 'b) result"

record 'b VersionedKVStore =
  vs_GetDigest :: "Reply \<Rightarrow> 'b \<Rightarrow> 'b vs_result"
  vs_BatchGet :: "string list \<Rightarrow> Reply \<Rightarrow> 'b \<Rightarrow> 'b vs_result"
  vs_GetNVersions :: "(string \<times> nat) list \<Rightarrow> Reply \<Rightarrow> 'b \<Rightarrow> 'b vs_result"
  vs_GetRange :: "string \<Rightarrow> string \<Rightarrow> Reply \<Rightarrow> 'b \<Rightarrow> 'b vs_result"
  vs_GetProof :: "(nat \<times> string list) list \<Rightarrow> Reply \<Rightarrow> 'b \<Rightarrow> 'b vs_result"
  vs_GetAudit :: "nat \<Rightarrow> Reply \<Rightarrow> 'b \<Rightarrow> 'b vs_result"
  vs_put :: "string list \<Rightarrow> string list \<Rightarrow> Timestamp \<Rightarrow> Reply option \<Rightarrow> 'b \<Rightarrow> (Reply option \<times> 'b) result"

end
