(* ===== verification/OCC_Store.thy ===== *)
theory OCC_Store
  imports Strong_Proto
begin

text \<open>
  \<open>OCCStore\<close> (\<open>src/distributed/store/strongstore/occstore.cc\<close>): optimistic concurrency control on one
  shard.  A transaction is prepared when its read and write sets do not clash with those of the
  transactions already prepared, and stays in \<open>prepared\<close> until it commits or aborts.
\<close>

section \<open>Model\<close>

record 'b OCCStore =
  occ_store :: 'b
  prepared :: "(nat \<times> Transaction) list"

definition OCCStore_new :: "'b \<Rightarrow> 'b OCCStore" where
  "OCCStore_new b = \<lparr> occ_store = b, prepared = [] \<rparr>"

definition OCC_BatchGet :: "'b VersionedKVStore \<Rightarrow> string list \<Rightarrow> Reply \<Rightarrow> 'b OCCStore
    \<Rightarrow> (int \<times> Reply \<times> 'b OCCStore) result" where
  "OCC_BatchGet V keys r s =
     rbind (vs_GetDigest V r (occ_store s)) (\<lambda>(_, r, b).
     rbind (vs_BatchGet V keys r b) (\<lambda>(ok, r, b).
       Inr (if ok then REPLY_OK else REPLY_FAIL, r, s\<lparr>occ_store := b\<rparr>)))"

definition OCC_GetRange :: "'b VersionedKVStore \<Rightarrow> string \<Rightarrow> string \<Rightarrow> Reply \<Rightarrow> 'b OCCStore
    \<Rightarrow> (int \<times> Reply \<times> 'b OCCStore) result" where
  "OCC_GetRange V start stop r s =
     rbind (vs_GetDigest V r (occ_store s)) (\<lambda>(_, r, b).
     rbind (vs_GetRange V start stop r b) (\<lambda>(ok, r, b).
       Inr (if ok then REPLY_OK else REPLY_FAIL, r, s\<lparr>occ_store := b\<rparr>)))"

definition getPreparedWrites :: "'b OCCStore \<Rightarrow> string set" where
  "getPreparedWrites s = (\<Union>(_, t)\<in>set (prepared s). fst ` set (writeSet t))"

definition getPreparedReadWrites :: "'b OCCStore \<Rightarrow> string set" where
  "getPreparedReadWrites s =
     (\<Union>(_, t)\<in>set (prepared s). fst ` set (writeSet t) \<union> fst ` set (readSet t))"

definition OCC_Abort :: "nat \<Rightarrow> 'b OCCStore \<Rightarrow> 'b OCCStore" where
  "OCC_Abort txnid s = s\<lparr>prepared := AList.delete txnid (prepared s)\<rparr>"

definition OCC_Prepare :: "nat \<Rightarrow> Transaction \<Rightarrow> 'b OCCStore \<Rightarrow> int \<times> 'b OCCStore" where
  "OCC_Prepare txnid txn s =
     (if txnid \<in> fst ` set (prepared s) then (REPLY_OK, s)
      else let pWrites = getPreparedWrites s; pRW = getPreparedReadWrites s in
        if list_ex (\<lambda>r. fst r \<in> pWrites) (readSet txn) then (REPLY_FAIL, OCC_Abort txnid s)
        else if list_ex (\<lambda>w. fst w \<in> pRW) (writeSet txn) then (REPLY_FAIL, OCC_Abort txnid s)
        else (REPLY_OK, s\<lparr>prepared := AList.update txnid txn (prepared s)\<rparr>))"

definition OCC_Load :: "'b VersionedKVStore \<Rightarrow> string list \<Rightarrow> string list \<Rightarrow> Timestamp \<Rightarrow> 'b OCCStore
    \<Rightarrow> 'b OCCStore result" where
  "OCC_Load V keys vals t s = rbind (vs_put V keys vals t None (occ_store s)) (\<lambda>(_, b). Inr (s\<lparr>occ_store := b\<rparr>))"

text \<open>
  \<open>prepared[id]\<close> of an absent id creates an empty transaction; \<open>Commit\<close> of the plain kind then writes
  nothing but still calls \<open>put\<close>, with empty vectors and no reply to fill.
\<close>

definition prepared_txn :: "nat \<Rightarrow> 'b OCCStore \<Rightarrow> Transaction" where
  "prepared_txn txnid s = (case map_of (prepared s) txnid of None \<Rightarrow> Transaction_new | Some t \<Rightarrow> t)"

definition OCC_Commit :: "'b VersionedKVStore \<Rightarrow> nat \<Rightarrow> 64 word \<Rightarrow> Reply \<Rightarrow> 'b OCCStore
    \<Rightarrow> (Reply \<times> 'b OCCStore) result" where
  "OCC_Commit V txnid timestamp r s =
     (let txn = prepared_txn txnid s in
      rbind (vs_GetDigest V r (occ_store s)) (\<lambda>(_, r, b).
      rbind (vs_put V (map fst (writeSet txn)) (map snd (writeSet txn)) (Timestamp_of timestamp) None b) (\<lambda>(_, b).
        Inr (r, \<lparr> occ_store = b, prepared = AList.delete txnid (prepared s) \<rparr>))))"

text \<open>The stored-procedure kind: reads, histories, then writes, each only when there are any.\<close>

definition commit_reads :: "'b VersionedKVStore \<Rightarrow> string list \<Rightarrow> Reply \<Rightarrow> 'b \<Rightarrow> (Reply \<times> 'b) result" where
  "commit_reads V keys r b =
     (if keys \<noteq> [] then rbind (vs_BatchGet V keys r b) (\<lambda>(_, r, b). Inr (r, b)) else Inr (r, b))"

definition commit_versions :: "'b VersionedKVStore \<Rightarrow> (string \<times> nat) list \<Rightarrow> Reply \<Rightarrow> 'b \<Rightarrow> (Reply \<times> 'b) result" where
  "commit_versions V ver_keys r b =
     (if ver_keys \<noteq> [] then rbind (vs_GetNVersions V ver_keys r b) (\<lambda>(_, r, b). Inr (r, b)) else Inr (r, b))"

definition commit_writes :: "'b VersionedKVStore \<Rightarrow> Transaction \<Rightarrow> 64 word \<Rightarrow> Reply \<Rightarrow> 'b \<Rightarrow> (Reply \<times> 'b) result" where
  "commit_writes V txn timestamp r b =
     (if writeSet txn \<noteq> [] then
        rbind (vs_put V (map fst (writeSet txn)) (map snd (writeSet txn)) (Timestamp_of timestamp) (Some r) b)
          (\<lambda>(r', b). Inr (case r' of None \<Rightarrow> r | Some r' \<Rightarrow> r', b))
      else Inr (r, b))"

definition OCC_CommitSP :: "'b VersionedKVStore \<Rightarrow> nat \<Rightarrow> 64 word \<Rightarrow> (string \<times> nat) list \<Rightarrow> Reply \<Rightarrow> 'b OCCStore
    \<Rightarrow> (Reply \<times> 'b OCCStore) result" where
  "OCC_CommitSP V txnid timestamp ver_keys r s =
     (case map_of (prepared s) txnid of None \<Rightarrow> Inl Panicked
      | Some txn \<Rightarrow>
        rbind (vs_GetDigest V r (occ_store s)) (\<lambda>(_, r, b).
        rbind (commit_reads V (map fst (readSet txn)) r b) (\<lambda>(r, b).
        rbind (commit_versions V ver_keys r b) (\<lambda>(r, b).
        rbind (commit_writes V txn timestamp r b) (\<lambda>(r, b).
          Inr (r, \<lparr> occ_store = b, prepared = AList.delete txnid (prepared s) \<rparr>))))))"

definition OCC_GetProof :: "'b VersionedKVStore \<Rightarrow> (nat \<times> string list) list \<Rightarrow> Reply \<Rightarrow> 'b OCCStore
    \<Rightarrow> (int \<times> Reply \<times> 'b OCCStore) result" where
  "OCC_GetProof V keys r s =
     rbind (vs_GetProof V keys r (occ_store s)) (\<lambda>(ok, r, b).
       Inr (if ok then REPLY_OK else REPLY_FAIL, r, s\<lparr>occ_store := b\<rparr>))"

definition OCC_GetAudit :: "'b VersionedKVStore \<Rightarrow> nat \<Rightarrow> Reply \<Rightarrow> 'b OCCStore
    \<Rightarrow> (int \<times> Reply \<times> 'b OCCStore) result" where
  "OCC_GetAudit V seq r s =
     rbind (vs_GetDigest V r (occ_store s)) (\<lambda>(_, r, b).
     rbind (vs_GetAudit V seq r b) (\<lambda>(ok, r, b).
       Inr (if ok then REPLY_OK else REPLY_FAIL, r, s\<lparr>occ_store := b\<rparr>)))"

section \<open>Conflicts\<close>

abbreviation reads_of :: "Transaction \<Rightarrow> string set" where
  "reads_of t \<equiv> fst ` set (readSet t)"

abbreviation writes_of :: "Transaction \<Rightarrow> string set" where
  "writes_of t \<equiv> fst ` set (writeSet t)"

definition conflict :: "Transaction \<Rightarrow> Transaction \<Rightarrow> bool" where
  "conflict t u \<longleftrightarrow> reads_of t \<inter> writes_of u \<noteq> {} \<or> writes_of t \<inter> (reads_of u \<union> writes_of u) \<noteq> {}"

lemma conflict_commute: "conflict t u = conflict u t"
  by (auto simp: conflict_def)

text \<open>Ids are distinct and no two prepared transactions conflict.\<close>

definition occ_inv :: "'b OCCStore \<Rightarrow> bool" where
  "occ_inv s \<longleftrightarrow> distinct (map fst (prepared s)) \<and>
     (\<forall>i t j u. map_of (prepared s) i = Some t \<longrightarrow> map_of (prepared s) j = Some u \<longrightarrow> i \<noteq> j \<longrightarrow> \<not> conflict t u)"

lemma occ_invD:
  "occ_inv s \<Longrightarrow> map_of (prepared s) i = Some t \<Longrightarrow> map_of (prepared s) j = Some u \<Longrightarrow> i \<noteq> j \<Longrightarrow> \<not> conflict t u"
  by (simp add: occ_inv_def)

lemma occ_inv_new [simp]: "occ_inv (OCCStore_new b)"
  by (simp add: occ_inv_def OCCStore_new_def)

lemma occ_inv_store [simp]: "occ_inv (s\<lparr>occ_store := b\<rparr>) = occ_inv s"
  by (simp add: occ_inv_def)

lemma occ_inv_delete: "occ_inv s \<Longrightarrow> occ_inv \<lparr> occ_store = b, prepared = AList.delete i (prepared s) \<rparr>"
  by (auto simp: occ_inv_def distinct_delete delete_conv' split: if_splits)

lemma occ_inv_Abort: "occ_inv s \<Longrightarrow> occ_inv (OCC_Abort i s)"
  by (auto simp: occ_inv_def OCC_Abort_def distinct_delete delete_conv' split: if_splits)

text \<open>The two scans of \<open>Prepare\<close> fail exactly on a conflict with some prepared transaction.\<close>

definition clashes :: "Transaction \<Rightarrow> 'b OCCStore \<Rightarrow> bool" where
  "clashes txn s \<longleftrightarrow> (\<exists>(_, t)\<in>set (prepared s). conflict txn t)"

lemma clashes_scan:
  "clashes txn s \<longleftrightarrow> list_ex (\<lambda>r. fst r \<in> getPreparedWrites s) (readSet txn) \<or>
     list_ex (\<lambda>w. fst w \<in> getPreparedReadWrites s) (writeSet txn)"
  unfolding clashes_def conflict_def getPreparedWrites_def getPreparedReadWrites_def list_ex_iff case_prod_unfold
  by blast

lemma OCC_Abort_absent: "i \<notin> fst ` set (prepared s) \<Longrightarrow> OCC_Abort i s = s"
  by (simp add: OCC_Abort_def delete_id)

lemma OCC_Prepare_cases:
  "OCC_Prepare i txn s =
     (if i \<in> fst ` set (prepared s) then (REPLY_OK, s)
      else if clashes txn s then (REPLY_FAIL, s)
      else (REPLY_OK, s\<lparr>prepared := prepared s @ [(i, txn)]\<rparr>))"
  by (auto simp: OCC_Prepare_def Let_def clashes_scan OCC_Abort_absent update_new)

lemma map_of_snoc: "k \<notin> fst ` set xs \<Longrightarrow> map_of (xs @ [(k, v)]) = (map_of xs)(k \<mapsto> v)"
  by (induction xs) (auto simp: fun_eq_iff)

lemma occ_inv_Prepare:
  assumes "occ_inv s"
  shows "occ_inv (snd (OCC_Prepare i txn s))"
proof (cases "i \<in> fst ` set (prepared s) \<or> clashes txn s")
  case False
  have "\<not> conflict txn t" "\<not> conflict t txn" if "map_of (prepared s) j = Some t" for j t
    using that False map_of_SomeD [OF that] conflict_commute [of txn t] by (auto simp: clashes_def)
  then show ?thesis
    using False assms by (auto simp: OCC_Prepare_cases occ_inv_def map_of_snoc split: if_splits)
qed (use assms in \<open>auto simp: OCC_Prepare_cases\<close>)

lemma OCC_reads_prepared:
  "OCC_BatchGet V keys r s = Inr (st, r', s') \<Longrightarrow> prepared s' = prepared s"
  "OCC_GetRange V from to r s = Inr (st, r', s') \<Longrightarrow> prepared s' = prepared s"
  "OCC_GetProof V pkeys r s = Inr (st, r', s') \<Longrightarrow> prepared s' = prepared s"
  "OCC_GetAudit V seq r s = Inr (st, r', s') \<Longrightarrow> prepared s' = prepared s"
  "OCC_Load V keys vals ts s = Inr s' \<Longrightarrow> prepared s' = prepared s"
  by (auto simp: OCC_BatchGet_def OCC_GetRange_def OCC_GetProof_def OCC_GetAudit_def OCC_Load_def rbind_Inr_iff)

lemma OCC_Commit_prepared:
  "OCC_Commit V i t r s = Inr (r', s') \<Longrightarrow> prepared s' = AList.delete i (prepared s)"
  "OCC_CommitSP V i t vk r s = Inr (r', s') \<Longrightarrow> prepared s' = AList.delete i (prepared s)"
  by (auto simp: OCC_Commit_def OCC_CommitSP_def rbind_Inr_iff Let_def split: option.splits)

lemma occ_inv_prepared: "prepared s' = prepared s \<Longrightarrow> occ_inv s' = occ_inv s"
  by (simp add: occ_inv_def)

lemma occ_inv_deleted: "prepared s' = AList.delete i (prepared s) \<Longrightarrow> occ_inv s \<Longrightarrow> occ_inv s'"
  using occ_inv_delete [of s "occ_store s'" i] by (simp add: occ_inv_def)

end
