(* ===== verification/Strong_Server.thy ===== *)
theory Strong_Server
  imports OCC_Store
begin

text \<open>
  \<open>strongstore::Server\<close> (\<open>src/distributed/exes/strong-server.cc\<close>): the upcalls through which the
  replication layer runs requests against the transaction store, and the loaders of \<open>main\<close>.  The
  time of day is an argument.  Shown here: whatever sequence of requests a server executes, the
  transactions it holds prepared never conflict, and a prepared transaction stays until its own
  commit or abort.
\<close>

section \<open>Model\<close>

datatype Mode = MODE_UNKNOWN | MODE_OCC | MODE_LOCK | MODE_SPAN_OCC | MODE_SPAN_LOCK

text \<open>In the two locking modes \<open>store\<close> is never assigned: it is \<^const>\<open>None\<close>, and using it is undefined.\<close>

record 'b Server =
  srv_mode :: Mode
  stored_procedure :: bool
  srv_store :: "'b OCCStore option"
  timeServer :: TrueTime

definition Server_new :: "Mode \<Rightarrow> 64 word \<Rightarrow> 64 word \<Rightarrow> 64 word \<Rightarrow> 'b \<Rightarrow> bool \<Rightarrow> 'b Server result" where
  "Server_new mode skew err rnd b sp =
     (let s = \<lparr> srv_mode = mode, stored_procedure = sp, srv_store = None, timeServer = TrueTime_new skew err rnd \<rparr> in
      case mode of
        MODE_UNKNOWN \<Rightarrow> Inl Panicked
      | MODE_LOCK \<Rightarrow> Inr s
      | MODE_SPAN_LOCK \<Rightarrow> Inr s
      | MODE_OCC \<Rightarrow> Inr (s\<lparr>srv_store := Some (OCCStore_new b)\<rparr>)
      | MODE_SPAN_OCC \<Rightarrow> Inr (s\<lparr>srv_store := Some (OCCStore_new b)\<rparr>))"

text \<open>\<open>nversions\<close> is an \<open>int32\<close> on the wire and becomes a \<open>size_t\<close> again.\<close>

definition versioned_keys :: "(string \<times> 32 word) list \<Rightarrow> (string \<times> nat) list" where
  "versioned_keys vks = map (\<lambda>(k, n). (k, unat (signed n :: 64 word))) vks"

definition with_store :: "'b Server \<Rightarrow> ('b OCCStore \<Rightarrow> 'a result) \<Rightarrow> 'a result" where
  "with_store s f = (case srv_store s of None \<Rightarrow> Inl Out_of_bounds | Some st \<Rightarrow> f st)"

text \<open>The result: \<open>replicate\<close>, the reply in \<open>str2\<close>, the server.\<close>

definition LeaderUpcall :: "'b VersionedKVStore \<Rightarrow> 64 word \<times> 64 word \<Rightarrow> Request \<Rightarrow> 'b Server
    \<Rightarrow> (bool \<times> Reply \<times> 'b Server) result" where
  "LeaderUpcall V now request s =
     (case req_op request of
        OP_PREPARE \<Rightarrow> with_store s (\<lambda>st.
          let (status, st') = OCC_Prepare (req_txnid request) (Transaction_of_message (req_prepare request)) st;
              replicate = (status = 0);
              reply = (if status = 0 \<and> (srv_mode s = MODE_SPAN_LOCK \<or> srv_mode s = MODE_SPAN_OCC)
                       then Reply_default\<lparr>rep_timestamp := Some (GetTime (timeServer s) now)\<rparr> else Reply_default)
          in Inr (replicate, reply\<lparr>rep_status := status\<rparr>, s\<lparr>srv_store := Some st'\<rparr>))
      | OP_COMMIT \<Rightarrow> with_store s (\<lambda>st.
          rbind (if stored_procedure s
                 then OCC_CommitSP V (req_txnid request) (req_commit request) (versioned_keys (req_version request)) Reply_default st
                 else OCC_Commit V (req_txnid request) (req_commit request) Reply_default st) (\<lambda>(reply, st').
            Inr (True, reply\<lparr>rep_status := 0\<rparr>, s\<lparr>srv_store := Some st'\<rparr>)))
      | OP_ABORT \<Rightarrow> with_store s (\<lambda>st.
          Inr (True, Reply_default\<lparr>rep_status := 0\<rparr>, s\<lparr>srv_store := Some (OCC_Abort (req_txnid request) st)\<rparr>))
      | _ \<Rightarrow> Inl Panicked)"

text \<open>\<open>ReplicaUpcall\<close>: \<^const>\<open>None\<close> is a return that leaves \<open>str2\<close> as it was.\<close>

definition ReplicaUpcall :: "Request \<Rightarrow> Reply option result" where
  "ReplicaUpcall request =
     (case req_op request of
        OP_GET \<Rightarrow> Inr None
      | OP_PREPARE \<Rightarrow> Inr (Some (Reply_default\<lparr>rep_status := 0\<rparr>))
      | OP_COMMIT \<Rightarrow> Inr (Some (Reply_default\<lparr>rep_status := 0\<rparr>))
      | OP_ABORT \<Rightarrow> Inr (Some (Reply_default\<lparr>rep_status := 0\<rparr>))
      | _ \<Rightarrow> Inl Panicked)"

definition answer :: "'b Server \<Rightarrow> (int \<times> Reply \<times> 'b OCCStore) result \<Rightarrow> (Reply \<times> 'b Server) result" where
  "answer s m = rbind m (\<lambda>(status, reply, st). Inr (reply\<lparr>rep_status := status\<rparr>, s\<lparr>srv_store := Some st\<rparr>))"

definition UnloggedUpcall :: "'b VersionedKVStore \<Rightarrow> Request \<Rightarrow> 'b Server \<Rightarrow> (Reply \<times> 'b Server) result" where
  "UnloggedUpcall V request s =
     (if req_op request = OP_BATCH_GET then
        with_store s (\<lambda>st. answer s (OCC_BatchGet V (req_batchget request) Reply_default st))
      else if req_op request = OP_VERIFY_GET then
        with_store s (\<lambda>st. answer s (OCC_GetProof V [(req_verify_block request, req_verify_keys request)] Reply_default st))
      else if req_op request = OP_RANGE then
        with_store s (\<lambda>st. answer s (OCC_GetRange V (fst (req_range request)) (snd (req_range request)) Reply_default st))
      else if req_op request = OP_AUDIT then
        with_store s (\<lambda>st. answer s (OCC_GetAudit V (req_audit request) Reply_default st))
      else Inr (Reply_default\<lparr>rep_status := 0\<rparr>, s))"

definition Server_Load :: "'b VersionedKVStore \<Rightarrow> string list \<Rightarrow> string list \<Rightarrow> Timestamp \<Rightarrow> 'b Server \<Rightarrow> 'b Server result" where
  "Server_Load V keys vals t s =
     with_store s (\<lambda>st. rbind (OCC_Load V keys vals t st) (\<lambda>st'. Inr (s\<lparr>srv_store := Some st'\<rparr>)))"

subsection \<open>The loaders of main\<close>

text \<open>
  The batches a loader hands to \<open>Load\<close>: a pair is buffered when its key belongs to the shard, and the
  buffer is flushed when it holds \<open>lim\<close> pairs exactly or at the last round, if not empty.
  Smallbank adds up to two pairs a round, so its buffer can step over the limit; it is then flushed
  only at the end.
\<close>

definition keep :: "64 word \<Rightarrow> 64 word \<Rightarrow> (string \<times> string) list \<Rightarrow> (string \<times> string) list" where
  "keep maxShard myShard kvs = filter (\<lambda>kv. key_to_shard (fst kv) maxShard = myShard) kvs"

fun load_rounds :: "(nat \<Rightarrow> bool) \<Rightarrow> (string \<times> string) list list \<Rightarrow> (string \<times> string) list
    \<Rightarrow> (string \<times> string) list list" where
  "load_rounds full [] buf = []"
| "load_rounds full (r # rs) buf =
     (let buf = buf @ r in
      if full (length buf) \<or> (rs = [] \<and> length buf > 0) then buf # load_rounds full rs [] else load_rounds full rs buf)"

definition ycsb_rounds :: "64 word \<Rightarrow> 64 word \<Rightarrow> nat \<Rightarrow> nat \<Rightarrow> (string \<times> string) list list" where
  "ycsb_rounds maxShard myShard nKeys iter =
     map (\<lambda>i. keep maxShard myShard [(to_string i, to_string i @ to_string iter)]) [0..<nKeys + 1]"

definition smallbank_rounds :: "64 word \<Rightarrow> 64 word \<Rightarrow> (string \<times> string) list list" where
  "smallbank_rounds maxShard myShard =
     map (\<lambda>i. keep maxShard myShard [(''savingStore_'' @ to_string i, ''1000''), (''checkingStore_'' @ to_string i, ''50'')])
       [1..<100001]"

text \<open>
  \<open>line.find\<close> of a tab; without one \<open>idx\<close> is \<open>npos\<close>, the key is the line, and \<open>idx + 1\<close> wraps to 0, so
  the value is the line too.
\<close>

definition tpcc_pair :: "string \<Rightarrow> string \<times> string" where
  "tpcc_pair line = (case find_char (char_of (9 :: nat)) line of
      None \<Rightarrow> (line, line) | Some i \<Rightarrow> (take i line, drop (i + 1) line))"

fun tpcc_batches :: "64 word \<Rightarrow> 64 word \<Rightarrow> string list \<Rightarrow> (string \<times> string) list \<Rightarrow> (string \<times> string) list list" where
  "tpcc_batches maxShard myShard [] buf = (if length buf > 0 then [buf] else [])"
| "tpcc_batches maxShard myShard (line # rest) buf =
     (let buf = buf @ keep maxShard myShard [tpcc_pair line] in
      if length buf \<ge> 200 then buf # tpcc_batches maxShard myShard rest [] else tpcc_batches maxShard myShard rest buf)"

fun load_batches :: "'b VersionedKVStore \<Rightarrow> Timestamp \<Rightarrow> (string \<times> string) list list \<Rightarrow> 'b Server \<Rightarrow> 'b Server result" where
  "load_batches V t [] s = Inr s"
| "load_batches V t (kvs # rest) s =
     rbind (Server_Load V (map fst kvs) (map snd kvs) t s) (load_batches V t rest)"

fun load_ycsb :: "'b VersionedKVStore \<Rightarrow> 64 word \<Rightarrow> 64 word \<Rightarrow> nat \<Rightarrow> nat list \<Rightarrow> 'b Server \<Rightarrow> 'b Server result" where
  "load_ycsb V maxShard myShard nKeys [] s = Inr s"
| "load_ycsb V maxShard myShard nKeys (iter # iters) s =
     rbind (load_batches V (Timestamp_of (of_nat iter))
              (load_rounds (\<lambda>n. n = 10) (ycsb_rounds maxShard myShard nKeys iter) []) s)
       (load_ycsb V maxShard myShard nKeys iters)"

definition load_workload :: "'b VersionedKVStore \<Rightarrow> string \<Rightarrow> 64 word \<Rightarrow> 64 word \<Rightarrow> nat \<Rightarrow> nat \<Rightarrow> string list option \<Rightarrow> 'b Server
    \<Rightarrow> 'b Server result" where
  "load_workload V workload maxShard myShard nKeys version lines s =
     (if workload = ''ycsb'' then load_ycsb V maxShard myShard nKeys [0..<version] s
      else if workload = ''smallbank'' then
        load_batches V Timestamp_default (load_rounds (\<lambda>n. n = 10) (smallbank_rounds maxShard myShard) []) s
      else if workload = ''tpcc'' then
        (case lines of None \<Rightarrow> Inr s | Some ls \<Rightarrow> load_batches V Timestamp_default (tpcc_batches maxShard myShard ls []) s)
      else Inr s)"

section \<open>Runs of a server\<close>

datatype call = Leader "64 word \<times> 64 word" Request | Unlogged Request | Loading "string list" "string list" Timestamp

fun srv_call :: "'b VersionedKVStore \<Rightarrow> call \<Rightarrow> 'b Server \<Rightarrow> 'b Server result" where
  "srv_call V (Leader now req) s = rbind (LeaderUpcall V now req s) (\<lambda>(_, _, s'). Inr s')"
| "srv_call V (Unlogged req) s = rbind (UnloggedUpcall V req s) (\<lambda>(_, s'). Inr s')"
| "srv_call V (Loading keys vals t) s = Server_Load V keys vals t s"

fun srv_run :: "'b VersionedKVStore \<Rightarrow> call list \<Rightarrow> 'b Server \<Rightarrow> 'b Server result" where
  "srv_run V [] s = Inr s"
| "srv_run V (c # cs) s = rbind (srv_call V c s) (srv_run V cs)"

definition txns :: "'b Server \<Rightarrow> nat \<rightharpoonup> Transaction" where
  "txns s = (case srv_store s of None \<Rightarrow> Map.empty | Some st \<Rightarrow> map_of (prepared st))"

definition srv_inv :: "'b Server \<Rightarrow> bool" where
  "srv_inv s = (case srv_store s of None \<Rightarrow> True | Some st \<Rightarrow> occ_inv st)"

text \<open>A call that decides transaction \<open>i\<close>.\<close>

fun decides :: "nat \<Rightarrow> call \<Rightarrow> bool" where
  "decides i (Leader now req) = (req_txnid req = i \<and> (req_op req = OP_COMMIT \<or> req_op req = OP_ABORT))"
| "decides i _ = False"

lemma srv_inv_simps [simp]: "srv_inv (s\<lparr>srv_store := Some st\<rparr>) = occ_inv st" "txns (s\<lparr>srv_store := Some st\<rparr>) = map_of (prepared st)"
  by (simp_all add: srv_inv_def txns_def)

lemma with_store_Inr: "with_store s f = Inr y \<longleftrightarrow> (\<exists>st. srv_store s = Some st \<and> f st = Inr y)"
  by (simp add: with_store_def split: option.splits)

lemma srv_inv_store: "srv_store s = Some st \<Longrightarrow> srv_inv s = occ_inv st" "srv_store s = Some st \<Longrightarrow> txns s = map_of (prepared st)"
  by (simp_all add: srv_inv_def txns_def)

text \<open>What a leader request does to the prepared transactions, on each branch.\<close>

definition txns_after :: "Request \<Rightarrow> 'b OCCStore \<Rightarrow> (nat \<times> Transaction) list" where
  "txns_after req st = (case req_op req of
      OP_PREPARE \<Rightarrow> prepared (snd (OCC_Prepare (req_txnid req) (Transaction_of_message (req_prepare req)) st))
    | _ \<Rightarrow> AList.delete (req_txnid req) (prepared st))"

lemma LeaderUpcall_prepared:
  assumes "LeaderUpcall V now req s = Inr (rep, r, s')"
  obtains st st' where "srv_store s = Some st" "s' = s\<lparr>srv_store := Some st'\<rparr>" "prepared st' = txns_after req st"
    "req_op req \<in> {OP_PREPARE, OP_COMMIT, OP_ABORT}"
  using assms
  by (cases "req_op req")
    (auto simp: LeaderUpcall_def with_store_Inr rbind_Inr_iff txns_after_def Let_def case_prod_unfold OCC_Abort_def
      OCC_Commit_prepared split: if_splits)

lemma UnloggedUpcall_prepared:
  assumes "UnloggedUpcall V req s = Inr (r, s')"
  shows "s' = s \<or> (\<exists>st st'. srv_store s = Some st \<and> s' = s\<lparr>srv_store := Some st'\<rparr> \<and> prepared st' = prepared st)"
  using assms
  by (simp add: UnloggedUpcall_def with_store_Inr answer_def rbind_Inr_iff split: if_splits)
    (use OCC_reads_prepared in fastforce)+

lemma Server_Load_prepared:
  assumes "Server_Load V keys vals t s = Inr s'"
  obtains st st' where "srv_store s = Some st" "s' = s\<lparr>srv_store := Some st'\<rparr>" "prepared st' = prepared st"
  using assms by (auto simp: Server_Load_def with_store_Inr rbind_Inr_iff OCC_reads_prepared)

lemma occ_inv_txns_after:
  assumes "occ_inv st" "prepared st' = txns_after req st"
  shows "occ_inv st'"
proof (cases "req_op req = OP_PREPARE")
  case True
  then show ?thesis using assms occ_inv_Prepare occ_inv_prepared by (fastforce simp: txns_after_def)
next
  case False
  then have "prepared st' = AList.delete (req_txnid req) (prepared st)"
    using assms(2) by (cases "req_op req") (simp_all add: txns_after_def)
  then show ?thesis by (rule occ_inv_deleted [OF _ assms(1)])
qed

lemma txns_after_keeps:
  assumes "map_of (prepared st) i = Some t" "\<not> decides i (Leader now req)" "req_op req \<in> {OP_PREPARE, OP_COMMIT, OP_ABORT}"
  shows "map_of (txns_after req st) i = Some t"
proof (cases "req_op req = OP_PREPARE")
  case True
  have "i \<in> fst ` set (prepared st)" using assms(1) by (metis domI dom_map_of_conv_image_fst)
  then show ?thesis using True assms(1) by (auto simp: txns_after_def OCC_Prepare_cases map_of_snoc)
next
  case False
  then have "txns_after req st = AList.delete (req_txnid req) (prepared st)" "req_txnid req \<noteq> i"
    using assms(2,3) by (auto simp: txns_after_def)
  then show ?thesis using assms(1) by (simp add: delete_conv')
qed

lemma srv_inv_same_prepared:
  assumes "srv_store s = Some st" "s' = s\<lparr>srv_store := Some st'\<rparr>" "prepared st' = prepared st" "srv_inv s"
  shows "srv_inv s' \<and> txns s' = txns s"
  using assms occ_inv_prepared [OF assms(3)] by (simp add: srv_inv_store [OF assms(1)])

lemma srv_call_inv:
  assumes "srv_call V c s = Inr s'" "srv_inv s"
  shows "srv_inv s' \<and> (\<forall>i t. txns s i = Some t \<longrightarrow> \<not> decides i c \<longrightarrow> txns s' i = Some t)"
proof (cases c)
  case (Leader now req)
  then obtain rep r where "LeaderUpcall V now req s = Inr (rep, r, s')" using assms(1) by (auto simp: rbind_Inr_iff)
  then obtain st st' where st: "srv_store s = Some st" "s' = s\<lparr>srv_store := Some st'\<rparr>" "prepared st' = txns_after req st"
      "req_op req \<in> {OP_PREPARE, OP_COMMIT, OP_ABORT}"
    by (rule LeaderUpcall_prepared)
  show ?thesis unfolding st(2) Leader
    using assms(2) occ_inv_txns_after [OF _ st(3)] txns_after_keeps [OF _ _ st(4)]
    unfolding srv_inv_simps srv_inv_store [OF st(1)] st(3) by blast
next
  case (Unlogged req)
  then obtain r where "UnloggedUpcall V req s = Inr (r, s')" using assms(1) by (auto simp: rbind_Inr_iff)
  from UnloggedUpcall_prepared [OF this] consider "s' = s"
    | st st' where "srv_store s = Some st" "s' = s\<lparr>srv_store := Some st'\<rparr>" "prepared st' = prepared st" by blast
  then show ?thesis using assms(2) srv_inv_same_prepared [OF _ _ _ assms(2)] by cases simp_all
next
  case (Loading keys vals t)
  then obtain st st' where "srv_store s = Some st" "s' = s\<lparr>srv_store := Some st'\<rparr>" "prepared st' = prepared st"
    using assms(1) Server_Load_prepared by (metis srv_call.simps(3))
  then show ?thesis using srv_inv_same_prepared [OF _ _ _ assms(2)] by simp
qed

lemma srv_run_inv:
  assumes "srv_run V cs s = Inr s'" "srv_inv s"
  shows "srv_inv s'" "txns s i = Some t \<Longrightarrow> (\<And>c. c \<in> set cs \<Longrightarrow> \<not> decides i c) \<Longrightarrow> txns s' i = Some t"
proof -
  have "srv_inv s' \<and> (txns s i = Some t \<longrightarrow> (\<forall>c\<in>set cs. \<not> decides i c) \<longrightarrow> txns s' i = Some t)"
    using assms
  proof (induction cs arbitrary: s)
    case (Cons c cs)
    then obtain s1 where s1: "srv_call V c s = Inr s1" "srv_run V cs s1 = Inr s'" by (auto simp: rbind_Inr_iff)
    show ?case using Cons.IH [OF s1(2)] srv_call_inv [OF s1(1) Cons.prems(2)] by auto
  qed simp
  then show "srv_inv s'" "txns s i = Some t \<Longrightarrow> (\<And>c. c \<in> set cs \<Longrightarrow> \<not> decides i c) \<Longrightarrow> txns s' i = Some t" by blast+
qed

lemma srv_run_append: "srv_run V (cs @ ds) s = rbind (srv_run V cs s) (srv_run V ds)"
  by (induction cs arbitrary: s) (auto simp: rbind_def split: sum.splits)

lemma Server_new_inv: "Server_new mode skew err rnd b sp = Inr s \<Longrightarrow> srv_inv s"
  by (cases mode) (auto simp: Server_new_def srv_inv_def Let_def)

lemma srv_inv_compatible:
  assumes "srv_inv s" "txns s i = Some t" "txns s j = Some u" "i \<noteq> j"
  shows "\<not> conflict t u"
  using assms by (cases "srv_store s") (auto simp: srv_inv_def txns_def dest: occ_invD)

section \<open>Prepared transactions\<close>

text \<open>
  C13: no two transactions a server holds prepared conflict, whatever requests it has executed: none
  reads or writes a key that another one writes.
\<close>

theorem prepared_compatible:
  assumes "Server_new mode skew err rnd b sp = Inr s0" "srv_run V cs s0 = Inr s"
    and "txns s i = Some t" "txns s j = Some u" "i \<noteq> j"
  shows "\<not> conflict t u"
proof -
  have "srv_inv s" using srv_run_inv(1) [OF assms(2) Server_new_inv [OF assms(1)]] .
  then show ?thesis using assms(3-5) by (rule srv_inv_compatible)
qed


text \<open>
  C15: \<open>PREPARE\<close> of a transaction that is not yet prepared is answered \<open>REPLY_OK\<close>, and handed to the
  replicas, exactly when the transaction conflicts with none of the prepared ones; then it is added to
  them, otherwise nothing changes.  Preparing the same id again is answered \<open>REPLY_OK\<close> and keeps the
  first transaction.
\<close>

theorem LeaderUpcall_prepare:
  assumes "Server_new mode skew err rnd b sp = Inr s0" "srv_run V cs s0 = Inr s" "srv_store s \<noteq> None"
    and "req_op req = OP_PREPARE"
  shows "\<exists>rep r s'. LeaderUpcall V now req s = Inr (rep, r, s') \<and> rep = (rep_status r = REPLY_OK) \<and>
    (rep_status r = REPLY_OK \<longleftrightarrow> req_txnid req \<in> dom (txns s) \<or>
       (\<forall>t\<in>ran (txns s). \<not> conflict (Transaction_of_message (req_prepare req)) t)) \<and>
    txns s' = (if req_txnid req \<notin> dom (txns s) \<and> rep_status r = REPLY_OK
       then (txns s)(req_txnid req \<mapsto> Transaction_of_message (req_prepare req)) else txns s)"
proof -
  let ?t = "Transaction_of_message (req_prepare req)" and ?i = "req_txnid req"
  obtain st where st: "srv_store s = Some st" using assms(3) by blast
  have "occ_inv st" using srv_run_inv(1) [OF assms(2) Server_new_inv [OF assms(1)]] by (simp add: srv_inv_store [OF st])
  then have r: "ran (txns s) = snd ` set (prepared st)"
    by (simp add: srv_inv_store [OF st] occ_inv_def ran_distinct)
  have d: "dom (txns s) = fst ` set (prepared st)" by (simp add: srv_inv_store [OF st] dom_map_of_conv_image_fst)
  have c: "clashes ?t st \<longleftrightarrow> \<not> (\<forall>t\<in>ran (txns s). \<not> conflict ?t t)" by (force simp: r clashes_def)
  obtain status st' where p: "OCC_Prepare ?i ?t st = (status, st')" by fastforce
  have ok: "status = REPLY_OK \<longleftrightarrow> ?i \<in> dom (txns s) \<or> \<not> clashes ?t st"
    using p by (auto simp: OCC_Prepare_cases d reply_codes split: if_splits)
  have st': "map_of (prepared st') = (if ?i \<notin> dom (txns s) \<and> status = REPLY_OK then (txns s)(?i \<mapsto> ?t) else txns s)"
    using p unfolding d OCC_Prepare_cases
    by (auto simp: reply_codes srv_inv_store [OF st] map_of_snoc simp del: map_of_append split: if_splits)
  show ?thesis
    using assms(4) st p ok st' c by (simp add: LeaderUpcall_def with_store_def reply_codes)
qed

section \<open>Witnesses\<close>

text \<open>A backend that stores nothing is enough to run the concurrency control.\<close>

definition null_store :: "unit VersionedKVStore" where
  "null_store = \<lparr> vs_GetDigest = (\<lambda>r b. Inr (True, r, b)), vs_BatchGet = (\<lambda>_ r b. Inr (True, r, b)),
     vs_GetNVersions = (\<lambda>_ r b. Inr (True, r, b)), vs_GetRange = (\<lambda>_ _ r b. Inr (True, r, b)),
     vs_GetProof = (\<lambda>_ r b. Inr (True, r, b)), vs_GetAudit = (\<lambda>_ r b. Inr (True, r, b)),
     vs_put = (\<lambda>_ _ _ r b. Inr (r, b)) \<rparr>"

definition ex_prepare :: "nat \<Rightarrow> string list \<Rightarrow> string list \<Rightarrow> Request" where
  "ex_prepare i rs ws = (Request_default OP_PREPARE i)\<lparr> req_prepare :=
     \<lparr> msg_readset = map (\<lambda>k. \<lparr> read_key = k, readtime = Timestamp_serialize Timestamp_default \<rparr>) rs,
       msg_writeset = map (\<lambda>k. \<lparr> write_key = k, write_value = k \<rparr>) ws \<rparr> \<rparr>"

definition ex_calls :: "call list" where
  "ex_calls = [Leader (0, 0) (ex_prepare 1 [''x''] [''y'']), Leader (0, 0) (ex_prepare 2 [''z''] [''x'']),
     Leader (0, 0) (ex_prepare 3 [''x''] [''w''])]"

definition ex_server :: "unit Server" where
  "ex_server = \<lparr> srv_mode = MODE_OCC, stored_procedure = False, srv_store = Some (OCCStore_new ()),
     timeServer = TrueTime_new 0 0 0 \<rparr>"

definition ex_txn :: "string \<Rightarrow> string \<Rightarrow> Transaction" where
  "ex_txn r w = \<lparr> readSet = [(r, Timestamp_default)], writeSet = [(w, w)] \<rparr>"

definition ex_server' :: "unit Server" where
  "ex_server' = ex_server\<lparr>srv_store := Some \<lparr> occ_store = (), prepared = [(1, ex_txn ''x'' ''y''), (3, ex_txn ''x'' ''w'')] \<rparr>\<rparr>"

lemma ex_message: "Transaction_of_message (req_prepare (ex_prepare i [r] [w])) = ex_txn r w"
  by (simp add: ex_prepare_def Transaction_of_message_def Transaction_new_def addReadSet_def addWriteSet_def ex_txn_def)

lemma ex_new: "Server_new MODE_OCC 0 0 0 () False = Inr ex_server"
  by (simp add: Server_new_def ex_server_def)

lemma ex_prepare_simps [simp]: "req_op (ex_prepare i rs ws) = OP_PREPARE" "req_txnid (ex_prepare i rs ws) = i"
  by (simp_all add: ex_prepare_def Request_default_def)

lemma ex_run: "srv_run null_store ex_calls ex_server = Inr ex_server'"
  by (simp add: ex_calls_def LeaderUpcall_def with_store_def ex_message OCC_Prepare_def OCC_Abort_def getPreparedWrites_def
      getPreparedReadWrites_def ex_server_def ex_server'_def OCCStore_new_def reply_codes ex_txn_def)

lemma ex_txns: "txns ex_server' = [1 \<mapsto> ex_txn ''x'' ''y'', 3 \<mapsto> ex_txn ''x'' ''w'']"
  by (auto simp: ex_server'_def txns_def fun_eq_iff)

lemma ex_store: "srv_store ex_server' \<noteq> None"
  by (simp add: ex_server'_def)

theorem prepared_compatible_witness: "\<not> conflict (ex_txn ''x'' ''y'') (ex_txn ''x'' ''w'')"
  by (rule prepared_compatible [OF ex_new ex_run, of 1 _ 3]) (simp_all add: ex_txns)


theorem LeaderUpcall_prepare_witness:
  "\<exists>rep r s'. LeaderUpcall null_store (0, 0) (ex_prepare 4 [''y''] [''q'']) ex_server' = Inr (rep, r, s') \<and> rep = (rep_status r = REPLY_OK) \<and>
    txns s' = (if 4 \<notin> dom (txns ex_server') \<and> rep_status r = REPLY_OK
       then (txns ex_server')(4 \<mapsto> ex_txn ''y'' ''q'') else txns ex_server')"
  using LeaderUpcall_prepare [OF ex_new ex_run ex_store ex_prepare_simps(1), of "(0, 0)" 4 "[''y'']" "[''q'']"]
  unfolding ex_message ex_prepare_simps by blast

end
