(* ===== verification/VR_App.thy ===== *)
theory VR_App
  imports VR_Safety Strong_Server
begin

text \<open>
  The application under a replica, as an interface: an invariant of the application state that the three
  upcalls keep holds in every state the replica reaches, whatever messages arrive.  It is used for
  a recorder of executed operation numbers (in-order, at-most-once execution), for the timestamp
  server (\<open>src/distributed/exes/timeserver.cc\<close>) and for the transaction server.
\<close>

section \<open>Steps that leave the application alone\<close>

definition same_app :: "'a VRReplica \<Rightarrow> 'a VRReplica \<Rightarrow> bool" where
  "same_app r r' \<longleftrightarrow> app_state r' = app_state r \<and> lastCommitted r' = lastCommitted r"

lemma same_app_refl [simp]: "same_app r r"
  by (simp add: same_app_def)

lemma same_app_trans: "same_app r r' \<Longrightarrow> same_app r' r'' \<Longrightarrow> same_app r r''"
  by (simp add: same_app_def)

lemma same_app_simps [simp]:
  "same_app r (send d m r)" "same_app r (set_table c e r)" "same_app r (prepareOK v op r)" "same_app r (RequestStateTransfer r)"
  "same_app r (EnterView v r)" "same_app r (StartViewChange v r)" "same_app r (record_reply c q reply r)" "same_app r (reply_client c reply r)"
  "same_app r (answer_request remote req reply r)"
  by (auto simp: same_app_def send_def set_table_def prepareOK_def RequestStateTransfer_def EnterView_def StartViewChange_def
      record_reply_def reply_client_def answer_request_def Let_def split: option.splits)

lemma UpdateClientTable_same: "UpdateClientTable req r = Inr r' \<Longrightarrow> same_app r r'"
  by (auto simp: UpdateClientTable_def Let_def asserting_Inr split: if_splits)

lemma send_prepareOKs_same: "send_prepareOKs is r = Inr r' \<Longrightarrow> same_app r r' \<and> rlog r' = rlog r"
proof (induction "is" arbitrary: r)
  case (Cons i "is")
  have u: "UpdateClientTable req r = Inr r1 \<Longrightarrow> rlog r1 = rlog r" for req and r1 :: "'a VRReplica"
    by (auto simp: UpdateClientTable_def Let_def asserting_Inr set_table_def split: if_splits)
  from Cons.prems show ?case
  proof (cases rule: send_prepareOKs_step)
    case (2 e r1)
    have "rlog (prepareOK (rview r1) i r1) = rlog r1" by (simp add: prepareOK_def send_def)
    then show ?thesis using Cons.IH [OF 2(2)] u [OF 2(1)] UpdateClientTable_same [OF 2(1)] same_app_trans same_app_simps(3) by metis
  qed (rule Cons.IH)
qed simp

lemma append_batch_same: "append_batch sha1 v op reqs r = Inr (op', r') \<Longrightarrow> same_app r r'"
proof (induction reqs arbitrary: op r)
  case (Cons req reqs)
  show ?case
  proof (cases "op \<le> lastOp r")
    case False
    then obtain l r1 where l: "UpdateClientTable req (r\<lparr>lastOp := lastOp r + 1, rlog := l\<rparr>) = Inr r1" "append_batch sha1 v (op + 1) reqs r1 = Inr (op', r')"
      using Cons.prems by (auto simp: rbind_Inr_iff)
    then show ?thesis using Cons.IH [OF l(2)] UpdateClientTable_same [OF l(1)] by (simp add: same_app_def)
  qed (use Cons in simp)
qed simp

lemma transfer_entries_same: "transfer_entries sha1 ms old r = Inr (old', r') \<Longrightarrow> same_app r r'"
proof (induction ms arbitrary: old r)
  case (Cons m ms)
  from transfer_entries_step [OF Cons.prems] show ?case
    using Cons.IH by (auto simp: same_app_def)
qed simp

lemma start_change_same [simp]: "same_app r (start_change v r)"
  by (simp add: start_change_def)

lemma HandleStartViewChange_same: "HandleStartViewChange msg r = Inr r' \<Longrightarrow> same_app r r'"
  by (erule HandleStartViewChange_cases) (use start_change_same [of r "svc_view msg"] in \<open>simp_all add: same_app_def send_def\<close>)

lemma HandleDoViewChange_same: "HandleDoViewChange msg r = Inr r' \<Longrightarrow> same_app r r'"
proof (erule HandleDoViewChange_cases)
  fix q n d m
  let ?s = "(start_change (dvc_view msg) r)\<lparr>doViewChangeQuorum := q\<rparr>"
  assume "r' = send d m ((EnterView (dvc_view msg) ?s)\<lparr>lastOp := n\<rparr>)"
  then show ?thesis
    using start_change_same [of r "dvc_view msg"] same_app_simps(5) [of ?s "dvc_view msg"] by (simp add: same_app_def send_def)
qed (use start_change_same [of r "dvc_view msg"] in \<open>simp_all add: same_app_def\<close>)

lemma FireTimer_same: "FireTimer t r = Inr r' \<Longrightarrow> same_app r r'"
  by (cases t) (auto simp: SendNullCommit_def ResendPrepare_def CloseBatch_def asserting_Inr rbind_Inr_iff Let_def same_app_def send_def
      StartViewChange_def split: if_splits)

section \<open>Invariants of the application\<close>

locale app_invariant =
  fixes A :: "'a AppReplica" and P :: "'a \<Rightarrow> nat \<Rightarrow> bool"
  assumes weaken: "P a n \<Longrightarrow> n \<le> m \<Longrightarrow> P a m"
    and replica: "P a n \<Longrightarrow> app_Replica A (n + 1) op a = Inr (res, a') \<Longrightarrow> P a' (n + 1)"
    and leader: "P a n \<Longrightarrow> app_Leader A n op a = Inr (rep, res, a') \<Longrightarrow> P a' n"
    and unlogged: "P a n \<Longrightarrow> app_Unlogged A op a = Inr (res, a') \<Longrightarrow> P a' n"
begin

abbreviation holds :: "'a VRReplica \<Rightarrow> bool" where
  "holds r \<equiv> P (app_state r) (lastCommitted r)"

lemma same_app_holds: "same_app r r' \<Longrightarrow> holds r \<Longrightarrow> holds r'"
  by (simp add: same_app_def)

lemma commit_next_holds:
  assumes "commit_next A r = Inr r'" "holds r" shows "holds r'"
  using assms(1)
proof (rule commit_next_cases)
  fix e res a b l c q reply
  assume a: "app_Replica A (lastCommitted r + 1) (vr_op (le_request e)) (app_state r) = Inr (res, a)"
    and r': "r' = reply_client c reply (record_reply c q reply (r\<lparr>lastCommitted := lastCommitted r + 1, app_state := a, rlog := l\<rparr>))"
  let ?s = "r\<lparr>lastCommitted := lastCommitted r + 1, app_state := a, rlog := l\<rparr>"
  have "holds ?s" using replica [OF assms(2) a] by simp
  moreover have "same_app ?s r'" unfolding r' using same_app_trans same_app_simps(7,8) by metis
  ultimately show "holds r'" using same_app_holds by blast
qed

lemma CommitUpTo_holds: "CommitUpTo A n r = Inr r' \<Longrightarrow> holds r \<Longrightarrow> holds r'"
proof -
  have "commit_rounds A k r = Inr r' \<Longrightarrow> holds r \<Longrightarrow> holds r'" for k
    by (induction k arbitrary: r) (auto simp: rbind_Inr_iff dest: commit_next_holds)
  then show "CommitUpTo A n r = Inr r' \<Longrightarrow> holds r \<Longrightarrow> holds r'" by (simp add: CommitUpTo_def)
qed

lemma HandleRequest_holds:
  assumes "HandleRequest A remote req r = Inr r'" "holds r" shows "holds r'"
proof -
  let ?r = "r\<lparr>clientAddresses := (clientAddresses r)(vr_clientid req \<mapsto> remote)\<rparr>"
  have "same_app r r' \<or> lead_request A remote req ?r = Inr r'"
    using assms(1) by (auto simp: HandleRequest_def Let_def same_app_def send_def split: if_splits option.splits)
  moreover have "holds r'" if "lead_request A remote req ?r = Inr r'"
    using that
  proof (rule lead_request_cases)
    fix r1 :: "'a VRReplica" and rep res a reply
    let ?r2 = "if rep then r1\<lparr>app_state := a, lastOp := lastOp r1 + 1, lastCommitted := lastCommitted r1 + 1\<rparr> else r1\<lparr>app_state := a\<rparr>"
    assume r1: "UpdateClientTable req ?r = Inr r1" "app_Leader A (lastCommitted r1) (vr_op req) (app_state r1) = Inr (rep, res, a)"
      and r': "r' = answer_request remote req reply ?r2"
    have "holds r1" using same_app_holds [OF UpdateClientTable_same [OF r1(1)]] assms(2) by simp
    then have "holds ?r2" using leader [OF _ r1(2)] weaken by auto
    then show "holds r'" unfolding r' using same_app_holds same_app_simps(9) by blast
  qed
  ultimately show ?thesis using same_app_holds assms(2) by blast
qed

lemma HandleUnloggedRequest_holds: "HandleUnloggedRequest A remote req r = Inr r' \<Longrightarrow> holds r \<Longrightarrow> holds r'"
  by (auto simp: HandleUnloggedRequest_def rbind_Inr_iff send_def dest: unlogged split: if_splits)

lemma HandlePrepare_holds:
  assumes "HandlePrepare sha1 remote msg r = Inr r'" "holds r" shows "holds r'"
proof -
  let ?r = "r\<lparr>viewChangeTimeout := True\<rparr>"
  have pend: "same_app s ((RequestStateTransfer s)\<lparr>pendingPrepares := ps\<rparr>)" for s :: "'a VRReplica" and ps
    by (simp add: same_app_def RequestStateTransfer_def send_def)
  have 1: "same_app r ?r" by (simp add: same_app_def)
  from assms(1) have "same_app r r'"
  proof (cases rule: HandlePrepare_cases)
    case (5 op r1)
    then show ?thesis using append_batch_same same_app_trans [OF 1] same_app_trans same_app_simps(3) by metis
  qed (simp_all only: same_app_refl pend same_app_trans [OF 1 pend] same_app_trans [OF 1 same_app_simps(3)])
  then show ?thesis using same_app_holds assms(2) by blast
qed

lemma HandlePrepareOK_holds:
  assumes "HandlePrepareOK A msg r = Inr r'" "holds r" shows "holds r'"
  using assms(1)
proof (cases rule: HandlePrepareOK_cases)
  case (4 q r1)
  have "holds r1" using CommitUpTo_holds [OF 4(1)] assms(2) by simp
  then show ?thesis using 4(2) by (auto simp: send_def)
next
  case 2
  then show ?thesis using same_app_holds [OF same_app_simps(4) assms(2)] by simp
qed (use assms(2) in simp_all)

lemma HandleCommit_holds:
  assumes "HandleCommit A msg r = Inr r'" "holds r" shows "holds r'"
proof -
  let ?r = "r\<lparr>viewChangeTimeout := True\<rparr>"
  have "same_app r r' \<or> CommitUpTo A (cm_opnum msg) ?r = Inr r'"
    using assms(1) by (auto simp: HandleCommit_def Let_def same_app_def RequestStateTransfer_def send_def split: if_splits)
  then show ?thesis using CommitUpTo_holds [of _ ?r] same_app_holds assms(2) by auto
qed

lemma HandleRequestStateTransfer_holds: "HandleRequestStateTransfer remote msg r = Inr r' \<Longrightarrow> holds r \<Longrightarrow> holds r'"
  by (auto simp: HandleRequestStateTransfer_def rbind_Inr_iff RequestStateTransfer_def send_def split: if_splits)

lemma HandleStateTransfer_holds:
  assumes "HandleStateTransfer sha1 A msg r = Inr r'" "holds r" shows "holds r'"
  using assms(1)
proof (rule HandleStateTransfer_cases)
  fix old and r1 r2 r3 :: "'a VRReplica"
  let ?e = "if stm_view msg > rview r1 then EnterView (stm_view msg) r1 else r1"
  assume a: "transfer_entries sha1 (stm_entries msg) (lastOp r) r = Inr (old, r1)" "CommitUpTo A (stm_opnum msg) ?e = Inr r2"
    "SendPrepareOKs old r2 = Inr r3" "r' = r3\<lparr>pendingPrepares := []\<rparr>"
  have "same_app r1 ?e" by simp
  then have "holds ?e" using transfer_entries_same [OF a(1)] same_app_holds assms(2) by blast
  then have "holds r2" using CommitUpTo_holds [OF a(2)] by blast
  then have "holds r3" using send_prepareOKs_same a(3) same_app_holds unfolding SendPrepareOKs_def by blast
  then show "holds r'" by (simp add: a(4))
qed (use assms(2) in simp)

lemma HandleStartView_holds:
  assumes "HandleStartView sha1 A msg r = Inr r'" "holds r" shows "holds r'"
  using assms(1)
proof (rule HandleStartView_cases)
  fix l and r2 :: "'a VRReplica"
  let ?e = "EnterView (sv_view msg) (r\<lparr>rlog := l\<rparr>)"
  assume r2: "CommitUpTo A (sv_lastCommitted msg) (?e\<lparr>lastOp := sv_lastOp msg\<rparr>) = Inr r2" "SendPrepareOKs (lastOp ?e) r2 = Inr r'"
  have "holds ?e" using same_app_holds [OF same_app_simps(5)] assms(2) by simp
  then have "holds r2" using CommitUpTo_holds [OF r2(1)] by simp
  then show "holds r'" using send_prepareOKs_same r2(2) same_app_holds unfolding SendPrepareOKs_def by blast
qed (use assms(2) in simp)

lemma vr_step_holds: assumes "vr_step sha1 A r r'" "holds r" shows "holds r'"
  using assms(1)
proof (rule vr_stepE)
  fix remote m
  assume "ReceiveMessage sha1 A remote m r = Inr r'"
  then show "holds r'" using assms(2)
    by (cases m) (auto simp: ReceiveMessage_def intro: HandleRequest_holds HandleUnloggedRequest_holds HandlePrepare_holds HandlePrepareOK_holds
        HandleCommit_holds HandleRequestStateTransfer_holds HandleStateTransfer_holds HandleStartView_holds
        same_app_holds [OF HandleStartViewChange_same] same_app_holds [OF HandleDoViewChange_same])
next
  fix t
  assume "FireTimer t r = Inr r'"
  then show "holds r'" using FireTimer_same same_app_holds assms(2) by blast
qed

lemma vr_reach_holds: "vr_reach sha1 A r r' \<Longrightarrow> holds r \<Longrightarrow> holds r'"
  by (induction rule: vr_reach.induct) (auto intro: vr_step_holds)

lemma vr_new_holds: "vr_reach sha1 A (VRReplica_new cfg idx batch a) r \<Longrightarrow> P a 0 \<Longrightarrow> holds r"
  using vr_reach_holds [of sha1 "VRReplica_new cfg idx batch a" r] by (simp add: VRReplica_new_def Let_def)

end

section \<open>Applications\<close>

text \<open>Any application, with a record of its upcalls and their results.\<close>

datatype upcall = Led string | Executed nat string

definition recording :: "'a AppReplica \<Rightarrow> ('a \<times> upcall list) AppReplica" where
  "recording A =
     \<lparr> app_Leader = (\<lambda>n op (a, t). rbind (app_Leader A n op a) (\<lambda>(rep, res, a'). Inr (rep, res, (a', t @ [Led res])))),
       app_Replica = (\<lambda>n op (a, t). rbind (app_Replica A n op a) (\<lambda>(res, a'). Inr (res, (a', t @ [Executed n res])))),
       app_Unlogged = (\<lambda>op (a, t). rbind (app_Unlogged A op a) (\<lambda>(res, a'). Inr (res, (a', t)))) \<rparr>"

fun executed :: "upcall list \<Rightarrow> nat list" where
  "executed [] = []"
| "executed (Led _ # t) = executed t"
| "executed (Executed n _ # t) = n # executed t"

fun result_of :: "upcall \<Rightarrow> string" where
  "result_of (Led s) = s"
| "result_of (Executed _ s) = s"

definition exec_ok :: "'a \<times> upcall list \<Rightarrow> nat \<Rightarrow> bool" where
  "exec_ok s n \<longleftrightarrow> sorted_wrt (<) (executed (snd s)) \<and> (\<forall>m\<in>set (executed (snd s)). m \<le> n)"

lemma executed_snoc: "executed (t @ [Led s]) = executed t" "executed (t @ [Executed n s]) = executed t @ [n]"
  by (induction t rule: executed.induct) auto

interpretation exec: app_invariant "recording A" exec_ok for A :: "'a AppReplica"
proof
  fix a :: "'a \<times> upcall list" and n m :: nat and op res a' rep
  show "exec_ok a n \<Longrightarrow> n \<le> m \<Longrightarrow> exec_ok a m"
    by (fastforce simp: exec_ok_def)
  show "exec_ok a n \<Longrightarrow> app_Replica (recording A) (n + 1) op a = Inr (res, a') \<Longrightarrow> exec_ok a' (n + 1)"
    by (fastforce simp: exec_ok_def recording_def rbind_Inr_iff executed_snoc sorted_wrt_append split: prod.splits)
  show "exec_ok a n \<Longrightarrow> app_Leader (recording A) n op a = Inr (rep, res, a') \<Longrightarrow> exec_ok a' n"
    by (auto simp: exec_ok_def recording_def rbind_Inr_iff executed_snoc split: prod.splits)
  show "exec_ok a n \<Longrightarrow> app_Unlogged (recording A) op a = Inr (res, a') \<Longrightarrow> exec_ok a' n"
    by (auto simp: exec_ok_def recording_def rbind_Inr_iff split: prod.splits)
qed

text \<open>
  The timestamp server.  \<open>LeaderUpcall\<close> does not set \<open>replicate\<close>, which \<open>HandleRequest\<close> initialises to
  false; \<open>UnloggedUpcall\<close> is inherited and does nothing.
\<close>

definition newTimeStamp :: "int \<Rightarrow> string \<times> int" where
  "newTimeStamp ts = (to_string_int (ts + 1), ts + 1)"

definition TimeStampServer :: "int AppReplica" where
  "TimeStampServer =
     \<lparr> app_Leader = (\<lambda>n op ts. let (s, ts') = newTimeStamp ts in Inr (False, s, ts')),
       app_Replica = (\<lambda>n op ts. let (s, ts') = newTimeStamp ts in Inr (s, ts')),
       app_Unlogged = (\<lambda>op ts. Inr ([], ts)) \<rparr>"

definition counted_ok :: "int \<times> upcall list \<Rightarrow> nat \<Rightarrow> bool" where
  "counted_ok s n \<longleftrightarrow> 0 \<le> fst s \<and> map result_of (snd s) = map to_string_int [1..fst s]"

lemma upto_next: "0 \<le> ts \<Longrightarrow> [1..ts + 1] = [1..ts] @ [ts + 1]" for ts :: int
  by (simp add: upto_rec2)

interpretation tss: app_invariant "recording TimeStampServer" counted_ok
  by unfold_locales
    (auto simp: counted_ok_def recording_def TimeStampServer_def newTimeStamp_def rbind_Inr_iff upto_next split: prod.splits)

text \<open>
  The transaction server: \<open>parse\<close> and \<open>ser\<close> stand for the protobuf functions \<open>ParseFromString\<close> and
  \<open>SerializeToString\<close>, \<open>clock\<close> for the successive readings of the time of day.
\<close>

definition server_app :: "'b VersionedKVStore \<Rightarrow> (nat \<Rightarrow> 64 word \<times> 64 word) \<Rightarrow> (string \<Rightarrow> Request) \<Rightarrow> (Reply \<Rightarrow> string)
    \<Rightarrow> ('b Server \<times> nat) AppReplica" where
  "server_app V clock parse ser =
     \<lparr> app_Leader = (\<lambda>n op (s, k). rbind (LeaderUpcall V (clock k) (parse op) s) (\<lambda>(rep, r, s'). Inr (rep, ser r, (s', k + 1)))),
       app_Replica = (\<lambda>n op (s, k). rbind (ReplicaUpcall (parse op)) (\<lambda>r. Inr (case r of None \<Rightarrow> [] | Some r \<Rightarrow> ser r, (s, k)))),
       app_Unlogged = (\<lambda>op (s, k). rbind (UnloggedUpcall V (parse op) s) (\<lambda>(r, s'). Inr (ser r, (s', k)))) \<rparr>"

interpretation server: app_invariant "server_app V clock parse ser" "\<lambda>s n. srv_inv (fst s)"
  for V :: "'b VersionedKVStore" and clock parse ser
proof
  fix a :: "'b Server \<times> nat" and op res a' rep and n :: nat
  have l: "LeaderUpcall V now req s = Inr (rep, r, s') \<Longrightarrow> srv_inv s \<Longrightarrow> srv_inv s'" for now req s rep r s'
    using srv_call_inv [of V "Leader now req" s s'] by simp
  have u: "UnloggedUpcall V req s = Inr (r, s') \<Longrightarrow> srv_inv s \<Longrightarrow> srv_inv s'" for req s r s'
    using srv_call_inv [of V "Unlogged req" s s'] by simp
  show "srv_inv (fst a) \<Longrightarrow> app_Replica (server_app V clock parse ser) (n + 1) op a = Inr (res, a') \<Longrightarrow> srv_inv (fst a')"
    by (auto simp: server_app_def rbind_Inr_iff split: prod.splits)
  show "srv_inv (fst a) \<Longrightarrow> app_Leader (server_app V clock parse ser) n op a = Inr (rep, res, a') \<Longrightarrow> srv_inv (fst a')"
    by (cases a) (auto simp: server_app_def rbind_Inr_iff dest: l)
  show "srv_inv (fst a) \<Longrightarrow> app_Unlogged (server_app V clock parse ser) op a = Inr (res, a') \<Longrightarrow> srv_inv (fst a')"
    by (cases a) (auto simp: server_app_def rbind_Inr_iff dest: u)
qed

end
