(* ===== verification/VR_Properties.thy ===== *)
theory VR_Properties
  imports VR_App
begin

text \<open>
  The properties of a replica: what never moves back, in-order execution, no repeated execution of a
  retransmitted request, what state transfer and view change do, and the transaction and timestamp
  servers run by a replica.
\<close>

section \<open>Safety\<close>



lemma handled_table:
  assumes "HandleRequest A remote req r = Inr r'" "rstatus r = STATUS_NORMAL" "AmLeader r"
  shows "\<exists>e. clientTable r' (vr_clientid req) = Some e \<and> vr_clientreqid req \<le> lastReqId e"
proof -
  let ?c = "vr_clientid req" and ?q = "vr_clientreqid req"
  let ?r = "r\<lparr>clientAddresses := (clientAddresses r)(?c \<mapsto> remote)\<rparr>"
  have "lead_request A remote req ?r = Inr r' \<or> (\<exists>e. clientTable r ?c = Some e \<and> ?q \<le> lastReqId e \<and> clientTable r' ?c = Some e)"
    using assms by (auto simp: HandleRequest_def Let_def send_def split: option.splits if_splits)
  moreover have ?thesis if "lead_request A remote req ?r = Inr r'"
    using that
  proof (rule lead_request_cases)
    fix r1 :: "'a VRReplica" and rep res a' reply
    let ?r2 = "if rep then r1\<lparr>app_state := a', lastOp := lastOp r1 + 1, lastCommitted := lastCommitted r1 + 1\<rparr> else r1\<lparr>app_state := a'\<rparr>"
    assume r1: "UpdateClientTable req ?r = Inr r1" and r': "r' = answer_request remote req reply ?r2"
    have "lastReqId (table_entry r1 ?c) = ?q"
      using r1 by (auto simp: UpdateClientTable_def Let_def asserting_Inr set_table_def table_entry_def split: if_splits)
    then show ?thesis unfolding r' by (auto simp: answer_request_def send_def set_table_def table_entry_def)
  qed
  ultimately show ?thesis by blast
qed


subsection \<open>State transfer keeps what is committed\<close>

abbreviation committed_log :: "nat \<Rightarrow> 'a VRReplica \<Rightarrow> LogEntry list" where
  "committed_log c r \<equiv> take c (log_entries (rlog r))"

lemma commit_rounds_keeps:
  assumes "commit_rounds A k r = Inr r'" "rlog_ok r" "c \<le> lastCommitted r"
  shows "committed_log c r' = committed_log c r"
  using assms
proof (induction k arbitrary: r)
  case (Suc k)
  then obtain r1 where r1: "commit_next A r = Inr r1" "commit_rounds A k r1 = Inr r'" by (auto simp: rbind_Inr_iff)
  have ev: "evolves r r1" using commit_next_evolves [OF r1(1)] .
  from r1(1) have "committed_log c r1 = committed_log c r"
  proof (rule commit_next_cases)
    fix e res a b l cl q reply
    assume l: "Log_SetStatus (lastCommitted r + 1) LOG_STATE_COMMITTED (rlog r) = Inr (b, l)"
      and r1: "r1 = reply_client cl reply (record_reply cl q reply (r\<lparr>lastCommitted := lastCommitted r + 1, app_state := a, rlog := l\<rparr>))"
    have "rlog r1 = l" unfolding r1
      by (simp add: reply_client_def record_reply_def send_def set_table_def Let_def split: option.splits)
    moreover have "take c (log_entries l) = committed_log c r"
      using l Suc.prems(2,3) by (auto simp: Log_SetStatus_def rbind_Inr_iff rlog_ok_def take_update_cancel split: option.splits)
    ultimately show ?thesis by simp
  qed
  then show ?case using Suc.IH [OF r1(2)] ev Suc.prems(2,3) by (auto simp: evolves_def)
qed simp

lemma transfer_entries_keeps:
  assumes "transfer_entries sha1 ms old r = Inr (old', r')" "rlog_ok r"
  shows "committed_log (lastCommitted r) r' = committed_log (lastCommitted r) r"
  using assms
proof (induction ms arbitrary: old r)
  case (Cons m ms)
  let ?c = "lastCommitted r"
  consider "transfer_entries sha1 ms old r = Inr (old', r')"
    | n l l' old1 where "?c < lm_opnum m" "RemoveAfter (lm_opnum m) (rlog r) = Inr l \<or> l = rlog r"
      "Log_Append sha1 (Viewstamp (lm_view m) (lm_opnum m)) (lm_request m) LOG_STATE_PREPARED l = Inr l'"
      "transfer_entries sha1 ms old1 (r\<lparr>lastOp := n, rlog := l'\<rparr>) = Inr (old', r')"
    using transfer_entries_step [OF Cons.prems(1)] by blast
  then show ?case
  proof cases
    case 1
    then show ?thesis using Cons by blast
  next
    case (2 n l l' old1)
    have ok: "log_ok (rlog r)" "log_start (rlog r) = 1" using Cons.prems(2) by (simp_all add: rlog_ok_def)
    have l: "log_ok l" "log_start l = 1" using 2(2) RemoveAfter_keeps ok by metis+
    have l': "log_ok l'" "log_start l' = 1" using Log_Append_keeps [OF 2(3) l(1)] l(2) by simp_all
    have "lm_opnum m = LastOpnum l + 1" using 2(3) by (auto simp: Log_Append_ok [OF l(1)] split: if_splits)
    then have "?c \<le> length (log_entries l)" using 2(1) LastOpnum_ok [OF l(1)] l(2) by simp
    moreover have "\<exists>e. log_entries l' = log_entries l @ [e]" using 2(3) by (auto simp: Log_Append_ok [OF l(1)] split: if_splits)
    ultimately have "take ?c (log_entries l') = take ?c (log_entries l)" by auto
    also have "\<dots> = committed_log ?c r"
      using 2(1,2) RemoveAfter_ok [OF ok(1), of "lm_opnum m"] ok(2) by (auto simp: min_def)
    finally show ?thesis using Cons.IH [OF 2(4)] l' by (simp add: rlog_ok_def)
  qed
qed simp

text \<open>
  C21: a state transfer, from whomever and with whatever entries, leaves the committed part of the log of a
  reachable replica as it was.
\<close>

theorem transfer_keeps_committed:
  assumes "vr_reach sha1 A (VRReplica_new cfg idx batch a) r" "HandleStateTransfer sha1 A msg r = Inr r'"
  shows "committed_log (lastCommitted r) r' = committed_log (lastCommitted r) r"
  using assms(2)
proof (rule HandleStateTransfer_cases)
  fix old and r1 r2 r3 :: "'a VRReplica"
  let ?e = "if stm_view msg > rview r1 then EnterView (stm_view msg) r1 else r1" and ?c = "lastCommitted r"
  assume a: "transfer_entries sha1 (stm_entries msg) (lastOp r) r = Inr (old, r1)" "CommitUpTo A (stm_opnum msg) ?e = Inr r2"
    "SendPrepareOKs old r2 = Inr r3" "r' = r3\<lparr>pendingPrepares := []\<rparr>"
  have r: "rlog_ok r" using vr_reach_evolves [OF assms(1)] VRReplica_new_log [of cfg idx batch a] by (simp add: evolves_def)
  have e: "rlog ?e = rlog r1" "lastCommitted ?e = ?c" using transfer_entries_evolves [OF a(1)] by (simp_all add: EnterView_def Let_def)
  have "rlog_ok ?e" using transfer_entries_evolves [OF a(1)] r e(1) by (simp add: rlog_ok_def evolves_def)
  then have "committed_log ?c r2 = committed_log ?c ?e"
    using e(2) by (intro commit_rounds_keeps [OF a(2) [unfolded CommitUpTo_def]]) simp_all
  moreover have "rlog r3 = rlog r2"
    using a(3) send_prepareOKs_same unfolding SendPrepareOKs_def by blast
  ultimately show ?thesis using transfer_entries_keeps [OF a(1) r] e(1) by (simp add: a(4))
qed simp

section \<open>Servers behind a replica\<close>



section \<open>A backup falls behind\<close>

lemma recent_message: "(d, m) = last (outbox (send d m r))"
  by (simp add: send_def)

text \<open>
  Because the leader answers requests without putting them into its log, a backup cannot follow it.  When
  the leader has committed an operation that is not in its log, its next null \<open>COMMIT\<close> makes a
  backup of the same view ask for a state transfer, and the leader's answer fails the backup's
  assertion \<open>msg.opnum() <= lastOp\<close>: the backup process ends.
\<close>

theorem backup_panics:
  assumes leader: "AmLeader r" "rstatus r = STATUS_NORMAL" "rlog_ok r" "log_entries (rlog r) = []"
    and backup: "\<not> AmLeader b" "rstatus b = STATUS_NORMAL" "rview b = rview r" "lastCommitted b \<le> lastOp b" "lastOp b < lastCommitted r"
      "lastRequestStateTransferOpnum b = 0"
  shows "\<exists>r1 cm b1 rt r2 st. FireTimer NullCommitTimer r = Inr r1 \<and> last (outbox r1) = (ToAll, MCommit cm) \<and>
    HandleCommit A cm b = Inr b1 \<and> last (outbox b1) = (ToAll, MRequestStateTransfer rt) \<and>
    HandleRequestStateTransfer addr rt r1 = Inr r2 \<and> last (outbox r2) = (ToAddress addr, MStateTransfer st) \<and>
    HandleStateTransfer sha1 A st b1 = Inl Panicked"
proof -
  define cm where "cm = \<lparr> cm_view = rview r, cm_opnum = lastCommitted r \<rparr>"
  define rt where "rt = \<lparr> rt_view = rview b, rt_opnum = lastCommitted b \<rparr>"
  define st where "st = \<lparr> stm_view = rview r, stm_opnum = lastCommitted r, stm_entries = [] \<rparr>"
  define r1 where "r1 = send ToAll (MCommit cm) r"
  define r2 where "r2 = send (ToAddress addr) (MStateTransfer st) r1"
  define b1 where "b1 = RequestStateTransfer (b\<lparr>viewChangeTimeout := True\<rparr>)"
  have "FireTimer NullCommitTimer r = Inr r1" using leader(1) by (simp add: SendNullCommit_def asserting_def r1_def cm_def)
  moreover have "AmLeader (b\<lparr>viewChangeTimeout := True\<rparr>) = AmLeader b" by (simp add: AmLeader_def)
  then have "HandleCommit A cm b = Inr b1" using backup by (simp add: HandleCommit_def cm_def b1_def)
  moreover have "last (outbox b1) = (ToAll, MRequestStateTransfer rt)"
    using backup(6) by (simp add: b1_def RequestStateTransfer_def send_def rt_def)
  moreover have "Log_Dump (rt_opnum rt + 1) (rlog r1) = Inr []"
    using Log_Dump_ok [of "rlog r1"] leader(3,4) by (simp add: r1_def send_def rlog_ok_def)
  then have "HandleRequestStateTransfer addr rt r1 = Inr r2"
    using leader(2) backup(3) by (simp add: HandleRequestStateTransfer_def r1_def r2_def st_def rt_def send_def)
  moreover have "HandleStateTransfer sha1 A st b1 = Inl Panicked"
    using backup by (simp add: HandleStateTransfer_def st_def b1_def RequestStateTransfer_def send_def asserting_def)
  ultimately show ?thesis by (intro exI [of _ r1] exI [of _ cm] exI [of _ b1] exI [of _ rt] exI [of _ r2] exI [of _ st])
      (simp add: r1_def r2_def send_def)
qed

section \<open>View changes end\<close>

fun receive_all :: "(string \<Rightarrow> string) \<Rightarrow> 'a AppReplica \<Rightarrow> vr_message list \<Rightarrow> 'a VRReplica \<Rightarrow> 'a VRReplica result" where
  "receive_all sha1 A [] r = Inr r"
| "receive_all sha1 A (m # ms) r = rbind (ReceiveMessage sha1 A 0 m r) (receive_all sha1 A ms)"

lemma receive_all_append: "receive_all sha1 A (ms @ ns) r = rbind (receive_all sha1 A ms r) (receive_all sha1 A ns)"
  by (induction ms arbitrary: r) (auto simp: rbind_def split: sum.splits)

lemma length_smap_set: "k \<notin> fst ` set xs \<Longrightarrow> length (smap_set k v xs) = Suc (length xs)"
  by (induction k v xs rule: smap_set.induct) auto

definition stale :: "Log \<Rightarrow> DoViewChangeMessage \<Rightarrow> bool" where
  "stale l x \<longleftrightarrow> Viewstamp (dvc_lastNormalView x) (dvc_lastOp x) \<le> LastViewstamp l"

lemma latest_log_stale:
  assumes "\<forall>(i, x)\<in>set ms. stale l x"
  shows "latest_log ms (vs_view (LastViewstamp l)) (vs_opnum (LastViewstamp l)) False = (vs_view (LastViewstamp l), vs_opnum (LastViewstamp l), False)"
  using assms
proof (induction ms)
  case (Cons m ms)
  obtain i x where m: "m = (i, x)" by (cases m)
  have "\<not> (dvc_lastNormalView x > vs_view (LastViewstamp l) \<or>
      dvc_lastNormalView x = vs_view (LastViewstamp l) \<and> dvc_lastOp x > vs_opnum (LastViewstamp l))"
    using Cons.prems m by (auto simp: stale_def less_eq_viewstamp_def vst_le_def vst_less_def Viewstamp_Compare_def split: if_splits)
  then show ?case using Cons by (auto simp: m)
qed simp

text \<open>The new leader while it gathers messages for view \<open>v\<close>.\<close>

definition gathering :: "nat \<Rightarrow> 'a VRReplica \<Rightarrow> Log \<Rightarrow> (nat \<times> DoViewChangeMessage) list \<Rightarrow> bool" where
  "gathering v r l ds \<longleftrightarrow> rview r = v \<and> rstatus r = STATUS_VIEW_CHANGE \<and> GetLeaderIndex (configuration r) v = myIdx r \<and>
     rlog r = l \<and> log_ok l \<and> qs_messages (startViewChangeQuorum r) v \<noteq> [] \<and> qs_messages (doViewChangeQuorum r) v = ds \<and>
     numRequired (doViewChangeQuorum r) = QuorumSize (configuration r) - 1"

lemma smap_set_nonempty [simp]: "smap_set k v xs \<noteq> []"
  by (cases xs) (auto split: if_splits)

lemma gather_svc_first:
  assumes "rview r < v" "svc_view m = v" "GetLeaderIndex (configuration r) v = myIdx r" "rlog_ok r"
    "numRequired (doViewChangeQuorum r) = QuorumSize (configuration r) - 1" "qs_messages (doViewChangeQuorum r) v = []"
  shows "\<exists>r'. HandleStartViewChange m r = Inr r' \<and> gathering v r' (rlog r) [] \<and> configuration r' = configuration r"
proof -
  obtain ms q where q: "AddAndCheckForQuorum v (svc_replicaIdx m) m (startViewChangeQuorum r) = (ms, q)" by fastforce
  then have "qs_messages q v \<noteq> []" by (auto simp: AddAndCheckForQuorum_def Let_def)
  then show ?thesis using assms q
    by (cases ms) (auto simp: HandleStartViewChange_def StartViewChange_def send_def asserting_def gathering_def rlog_ok_def Let_def)
qed

lemma gather_svc:
  assumes "gathering v r l ds" "svc_view m = v"
  shows "\<exists>r'. HandleStartViewChange m r = Inr r' \<and> gathering v r' l ds \<and> configuration r' = configuration r"
proof -
  obtain ms q where q: "AddAndCheckForQuorum v (svc_replicaIdx m) m (startViewChangeQuorum r) = (ms, q)" by fastforce
  then have "qs_messages q v \<noteq> []" by (auto simp: AddAndCheckForQuorum_def Let_def)
  then show ?thesis using assms q by (cases ms) (auto simp: HandleStartViewChange_def asserting_def gathering_def Let_def)
qed

lemma gather_svcs:
  assumes "gathering v r l ds" "\<forall>m\<in>set svcs. svc_view m = v"
  shows "\<exists>r'. receive_all sha1 A (map MStartViewChange svcs) r = Inr r' \<and> gathering v r' l ds \<and> configuration r' = configuration r"
  using assms
proof (induction svcs arbitrary: r)
  case (Cons m svcs)
  obtain r1 where r1: "HandleStartViewChange m r = Inr r1" "gathering v r1 l ds" "configuration r1 = configuration r"
    using gather_svc [OF Cons.prems(1), of m] Cons.prems(2) by auto
  then show ?case using Cons.IH [OF r1(2)] Cons.prems(2) by (simp add: ReceiveMessage_def)
qed simp

text \<open>A \<open>DoViewChange\<close> before the quorum is only remembered; the one that completes the quorum ends the view change.\<close>

lemma gather_dvc:
  assumes g: "gathering v r l ds" and m: "dvc_view m = v" "dvc_replicaIdx m \<notin> fst ` set ds"
    and f: "cfg_f (configuration r) = int f" "Suc (length ds) < f"
  shows "\<exists>r'. HandleDoViewChange m r = Inr r' \<and> gathering v r' l (smap_set (dvc_replicaIdx m) m ds) \<and> configuration r' = configuration r"
proof -
  obtain ms q where q: "AddAndCheckForQuorum v (dvc_replicaIdx m) m (doViewChangeQuorum r) = (ms, q)" by fastforce
  have "ms = None" "qs_messages q v = smap_set (dvc_replicaIdx m) m ds" "numRequired q = numRequired (doViewChangeQuorum r)"
    using q g f length_smap_set [OF m(2), of m]
    by (auto simp: AddAndCheckForQuorum_def CheckForQuorum_def Let_def gathering_def QuorumSize_def split: if_splits)
  then show ?thesis using g m q by (simp add: HandleDoViewChange_def gathering_def asserting_def)
qed

lemma min_committed_ok: "ms \<noteq> [] \<Longrightarrow> \<exists>x. min_committed g ms = Inr x"
  by (cases ms) (simp_all add: min_committed_def)

lemma finish_dvc:
  assumes g: "gathering v r l ds" and m: "dvc_view m = v" "dvc_replicaIdx m \<notin> fst ` set ds"
    and f: "cfg_f (configuration r) = int f" "f \<le> Suc (length ds)"
    and st: "stale l m" "\<forall>(i, x)\<in>set ds. stale l x"
  shows "\<exists>r' sv. HandleDoViewChange m r = Inr r' \<and> rstatus r' = STATUS_NORMAL \<and> rview r' = v \<and> AmLeader r' \<and>
    last (outbox r') = (ToAll, MStartView sv) \<and> sv_view sv = v \<and> sv_lastOp sv = LastOpnum l"
proof -
  let ?ms = "smap_set (dvc_replicaIdx m) m ds"
  obtain ms q where q: "AddAndCheckForQuorum v (dvc_replicaIdx m) m (doViewChangeQuorum r) = (ms, q)" by fastforce
  then have ms: "ms = Some ?ms"
    using g f length_smap_set [OF m(2), of m]
    by (auto simp: AddAndCheckForQuorum_def CheckForQuorum_def Let_def gathering_def QuorumSize_def)
  have "set ?ms \<subseteq> insert (dvc_replicaIdx m, m) (set ds)" by (induction "dvc_replicaIdx m" m ds rule: smap_set.induct) auto
  then have "\<forall>(i, x)\<in>set ?ms. stale l x" using st by auto
  note ll = latest_log_stale [OF this]
  obtain mcs where mcs: "min_committed svc_lastCommitted (GetMessages v (startViewChangeQuorum r)) = Inr mcs"
    using g min_committed_ok [of "GetMessages v (startViewChangeQuorum r)"] by (auto simp: GetMessages_def gathering_def)
  obtain mcd where mcd: "min_committed dvc_lastCommitted ?ms = Inr mcd" using min_committed_ok [of ?ms] by auto
  let ?r = "r\<lparr>doViewChangeQuorum := q\<rparr>"
  have e: "rlog (EnterView v ?r) = l" "rview (EnterView v ?r) = v" "rstatus (EnterView v ?r) = STATUS_NORMAL" "AmLeader (EnterView v ?r)"
    using g by (simp_all add: EnterView_def Let_def AmLeader_def gathering_def)
  have n: "vs_opnum (LastViewstamp l) = LastOpnum l" by (simp add: LastViewstamp_def LastOpnum_def)
  have lead: "AmLeader ((EnterView v ?r)\<lparr>lastOp := k\<rparr>)" for k using e(4) by (simp add: AmLeader_def)
  obtain es where es: "Log_Dump (min (min mcs mcd) (lastCommitted r)) l = Inr es" using g by (auto simp: gathering_def Log_Dump_ok)
  have "rview r = v" "rstatus r = STATUS_VIEW_CHANGE" "GetLeaderIndex (configuration r) v = myIdx r" "rlog r = l"
    using g by (simp_all add: gathering_def)
  then show ?thesis using m(1) q ms ll mcs mcd e es n lead
    by (simp add: HandleDoViewChange_def asserting_def send_def AmLeader_def Let_def)
qed

lemma gather_dvcs:
  assumes "gathering v r l ds" "\<forall>m\<in>set dvcs. dvc_view m = v" "distinct (map dvc_replicaIdx dvcs)"
    "\<forall>m\<in>set dvcs. dvc_replicaIdx m \<notin> fst ` set ds" "cfg_f (configuration r) = int f" "length ds + length dvcs = f" "dvcs \<noteq> []"
    "\<forall>m\<in>set dvcs. stale l m" "\<forall>(i, x)\<in>set ds. stale l x"
  shows "\<exists>r' sv. receive_all sha1 A (map MDoViewChange dvcs) r = Inr r' \<and> rstatus r' = STATUS_NORMAL \<and> rview r' = v \<and> AmLeader r' \<and>
    last (outbox r') = (ToAll, MStartView sv) \<and> sv_view sv = v \<and> sv_lastOp sv = LastOpnum l"
  using assms
proof (induction dvcs arbitrary: r ds)
  case (Cons m dvcs)
  note p = Cons.prems
  show ?case
  proof (cases "dvcs = []")
    case True
    then show ?thesis using finish_dvc [of v r l ds m f] p by (auto simp: ReceiveMessage_def)
  next
    case False
    let ?ds = "smap_set (dvc_replicaIdx m) m ds"
    have len: "length ?ds = Suc (length ds)" using p(4) by (intro length_smap_set) simp
    have sub: "set ?ds \<subseteq> insert (dvc_replicaIdx m, m) (set ds)" by (induction "dvc_replicaIdx m" m ds rule: smap_set.induct) auto
    have "Suc (length ds) < f" using p(6) False by (cases dvcs) auto
    then obtain r1 where r1: "HandleDoViewChange m r = Inr r1" "gathering v r1 l ?ds" "configuration r1 = configuration r"
      using gather_dvc [OF p(1), of m f] p(2,4,5) by auto
    have "\<forall>x\<in>set dvcs. dvc_replicaIdx x \<notin> fst ` set ?ds" using p(3,4) by (auto simp: keys_smap_set) (metis image_eqI)
    moreover have "\<forall>(i, x)\<in>set ?ds. stale l x" using sub p(8,9) by auto
    ultimately obtain r' sv where "receive_all sha1 A (map MDoViewChange dvcs) r1 = Inr r' \<and> rstatus r' = STATUS_NORMAL \<and> rview r' = v \<and> AmLeader r' \<and>
        last (outbox r') = (ToAll, MStartView sv) \<and> sv_view sv = v \<and> sv_lastOp sv = LastOpnum l"
      using Cons.IH [OF r1(2)] p(2,3,5,6,8) r1(3) False len by auto
    then show ?thesis using r1(1) by (auto simp: ReceiveMessage_def)
  qed
qed simp

text \<open>
  C22: a view change ends.  The replica that leads view \<open>v\<close> receives at least one \<open>StartViewChange\<close> for it and
  then \<open>DoViewChange\<close> messages of \<open>f\<close> different replicas whose logs are not ahead of its own: it
  becomes the leader of view \<open>v\<close> in normal operation and announces the view with its log.
\<close>

theorem view_change_ends:
  assumes "vr_reach sha1 A (VRReplica_new cfg idx batch a) r" "rview r < v" "GetLeaderIndex cfg v = idx" "cfg_f cfg = int f" "0 < f"
    and "qs_messages (doViewChangeQuorum r) v = []" "numRequired (doViewChangeQuorum r) = int f"
    and "svcs \<noteq> []" "\<forall>m\<in>set svcs. svc_view m = v"
    and "length dvcs = f" "\<forall>m\<in>set dvcs. dvc_view m = v" "distinct (map dvc_replicaIdx dvcs)" "\<forall>m\<in>set dvcs. stale (rlog r) m"
  shows "\<exists>r' sv. receive_all sha1 A (map MStartViewChange svcs @ map MDoViewChange dvcs) r = Inr r' \<and>
    rstatus r' = STATUS_NORMAL \<and> rview r' = v \<and> AmLeader r' \<and>
    last (outbox r') = (ToAll, MStartView sv) \<and> sv_view sv = v \<and> sv_lastOp sv = LastOpnum (rlog r)"
proof -
  obtain m ms where svcs: "svcs = m # ms" using assms(8) by (cases svcs) auto
  have ev: "rlog_ok r" "myIdx r = idx" "configuration r = cfg"
    using vr_reach_evolves [OF assms(1)] VRReplica_new_log [of cfg idx batch a] by (simp_all add: evolves_def) (simp_all add: VRReplica_new_def Let_def)
  obtain r1 where r1: "HandleStartViewChange m r = Inr r1" "gathering v r1 (rlog r) []" "configuration r1 = cfg"
    using gather_svc_first [OF assms(2), of m] assms(3,4,6,7,9) ev by (auto simp: svcs QuorumSize_def)
  obtain r2 where r2: "receive_all sha1 A (map MStartViewChange ms) r1 = Inr r2" "gathering v r2 (rlog r) []" "configuration r2 = cfg"
    using gather_svcs [OF r1(2), of ms sha1 A] r1(3) assms(9) by (auto simp: svcs)
  have "dvcs \<noteq> []" using assms(5,10) by auto
  then show ?thesis
    using gather_dvcs [OF r2(2) assms(11,12), of f sha1 A] assms(4,10,13) r2 r1(1)
    by (auto simp: svcs receive_all_append ReceiveMessage_def)
qed

section \<open>Concrete runs\<close>

text \<open>A leader of three replicas that has handled one replicated request of client 7, and a fresh backup.\<close>

definition ex_app :: "'a AppReplica" where
  "ex_app = \<lparr> app_Leader = (\<lambda>n op a. Inr (True, op, a)), app_Replica = (\<lambda>n op a. Inr (op, a)), app_Unlogged = (\<lambda>op a. Inr (op, a)) \<rparr>"

definition ex_req :: VRRequest where
  "ex_req = \<lparr> vr_op = ''op'', vr_clientid = 7, vr_clientreqid = 1 \<rparr>"

definition ex_reply :: ReplyMessage where
  "ex_reply = \<lparr> rp_view = 0, rp_opnum = 1, rp_clientreqid = 1, rp_reply = ''op'' \<rparr>"

definition ex_leader :: "'a \<Rightarrow> 'a VRReplica" where
  "ex_leader a = VRReplica_new ex_cfg 0 1 a"

definition ex_backup :: "'a \<Rightarrow> 'a VRReplica" where
  "ex_backup a = VRReplica_new ex_cfg 1 1 a"

definition ex_led :: "unit VRReplica" where
  "ex_led = (ex_leader ())\<lparr> clientAddresses := [7 \<mapsto> 5], clientTable := [7 \<mapsto> \<lparr> lastReqId = 1, replied = True, ct_reply = ex_reply \<rparr>],
     lastOp := 1, lastCommitted := 1, outbox := [(ToAddress 5, MReply ex_reply)] \<rparr>"

lemmas ex_vr_defs = VRReplica_new_def Let_def ex_cfg_def GetLeaderIndex_def AmLeader_def

lemma ex_leads: "AmLeader (ex_leader a)" "\<not> AmLeader (ex_backup a)" "AmLeader ex_led"
  by (simp_all add: ex_leader_def ex_backup_def ex_led_def ex_vr_defs)

lemma ex_handled: "HandleRequest ex_app 5 ex_req (ex_leader ()) = Inr ex_led"
  by (simp add: HandleRequest_def ex_leads lead_request_def UpdateClientTable_def asserting_def set_table_def table_entry_def answer_request_def
      send_def ex_app_def ex_req_def ex_reply_def ex_led_def ex_leader_def ex_vr_defs)

lemma ex_reach: "vr_reach sha1 ex_app (ex_leader ()) ex_led"
  by (rule vr_reach.step [OF vr_reach.start receive [where remote = 5 and m = "MRequest ex_req"]])
    (simp add: ReceiveMessage_def ex_handled)



theorem backup_panics_witness:
  "\<exists>r1 cm b1 rt r2 st. FireTimer NullCommitTimer ex_led = Inr r1 \<and> last (outbox r1) = (ToAll, MCommit cm) \<and>
    HandleCommit ex_app cm (ex_backup ()) = Inr b1 \<and> last (outbox b1) = (ToAll, MRequestStateTransfer rt) \<and>
    HandleRequestStateTransfer 6 rt r1 = Inr r2 \<and> last (outbox r2) = (ToAddress 6, MStateTransfer st) \<and>
    HandleStateTransfer id ex_app st b1 = Inl Panicked"
  by (rule backup_panics) (simp_all add: ex_leads, simp_all add: ex_led_def ex_leader_def ex_backup_def VRReplica_new_def Let_def rlog_ok_def log_ok_def)

text \<open>A backup that prepares and then commits one operation.\<close>

definition ex_prepare_msg :: PrepareMessage where
  "ex_prepare_msg = \<lparr> pm_view = 0, pm_opnum = 1, pm_batchstart = 1, pm_request = [ex_req] \<rparr>"

definition ex_op_entry :: "LogEntryState \<Rightarrow> LogEntry" where
  "ex_op_entry st = \<lparr> le_viewstamp = Viewstamp 0 1, le_state = st, le_request = ex_req, le_hash = [] \<rparr>"

definition ex_prepared :: "'a \<Rightarrow> 'a VRReplica" where
  "ex_prepared a = (case HandlePrepare id 5 ex_prepare_msg (ex_backup a) of Inr r \<Rightarrow> r | Inl _ \<Rightarrow> ex_backup a)"

definition ex_committed :: "'a AppReplica \<Rightarrow> 'a \<Rightarrow> 'a VRReplica" where
  "ex_committed A a = (case HandleCommit A \<lparr> cm_view = 0, cm_opnum = 1 \<rparr> (ex_prepared a) of Inr r \<Rightarrow> r | Inl _ \<Rightarrow> ex_prepared a)"

lemmas ex_run_defs = HandlePrepare_def HandleCommit_def Log_Append_def append_batch.simps prepareOK_def UpdateClientTable_def asserting_def
  set_table_def table_entry_def send_def CommitUpTo_def commit_next_def reply_client_def record_reply_def LastOpnum_def Log_Empty_def
  Log_Find_def Log_SetStatus_def FirstOpnum_def ex_backup_def ex_prepare_msg_def ex_req_def ex_vr_defs

lemma ex_prepares: "HandlePrepare id 5 ex_prepare_msg (ex_backup a) = Inr (ex_prepared a)"
  by (simp add: ex_prepared_def) (simp add: ex_run_defs)

lemma ex_commits: "HandleCommit (recording ex_app) \<lparr> cm_view = 0, cm_opnum = 1 \<rparr> (ex_prepared ((), [])) = Inr (ex_committed (recording ex_app) ((), []))"
  by (simp add: ex_committed_def) (simp add: ex_prepared_def recording_def ex_app_def ex_run_defs)

lemma ex_committed_state:
  "app_state (ex_committed (recording ex_app) ((), [])) = ((), [Executed 1 ''op''])" "lastCommitted (ex_committed (recording ex_app) ((), [])) = 1"
  by (simp_all add: ex_committed_def ex_prepared_def recording_def ex_app_def ex_run_defs)

lemma ex_backup_reach:
  "vr_reach id A (VRReplica_new ex_cfg 1 1 a) (ex_prepared a)"
  "vr_reach id (recording ex_app) (VRReplica_new ex_cfg 1 1 ((), [])) (ex_committed (recording ex_app) ((), []))"
proof -
  show *: "vr_reach id A (VRReplica_new ex_cfg 1 1 a) (ex_prepared a)" for A :: "'b AppReplica" and a
    by (rule vr_reach.step [OF vr_reach.start receive [where remote = 5 and m = "MPrepare ex_prepare_msg"]])
      (use ex_prepares in \<open>simp add: ReceiveMessage_def ex_backup_def\<close>)
  show "vr_reach id (recording ex_app) (VRReplica_new ex_cfg 1 1 ((), [])) (ex_committed (recording ex_app) ((), []))"
    by (rule vr_reach.step [OF * receive [where remote = 5 and m = "MCommit \<lparr> cm_view = 0, cm_opnum = 1 \<rparr>"]])
      (use ex_commits in \<open>simp add: ReceiveMessage_def\<close>)
qed


text \<open>The backup receives the second operation by a state transfer.\<close>

definition ex_transfer :: StateTransferMessage where
  "ex_transfer = \<lparr> stm_view = 0, stm_opnum = 2,
     stm_entries = [entry_msg (ex_op_entry LOG_STATE_COMMITTED),
       (entry_msg (ex_op_entry LOG_STATE_PREPARED))\<lparr>lm_opnum := 2, lm_request := ex_req\<lparr>vr_clientreqid := 2\<rparr>\<rparr>] \<rparr>"

definition ex_transferred :: "(unit \<times> upcall list) VRReplica" where
  "ex_transferred = (case HandleStateTransfer id (recording ex_app) ex_transfer (ex_committed (recording ex_app) ((), [])) of
     Inr r \<Rightarrow> r | Inl _ \<Rightarrow> ex_committed (recording ex_app) ((), []))"

lemma ex_transfers: "HandleStateTransfer id (recording ex_app) ex_transfer (ex_committed (recording ex_app) ((), [])) = Inr ex_transferred"
  by (simp add: ex_transferred_def)
    (simp add: HandleStateTransfer_def SendPrepareOKs_def ex_transfer_def entry_msg_def ex_op_entry_def ex_committed_def ex_prepared_def
      recording_def ex_app_def ex_run_defs upt_rec)

theorem transfer_keeps_committed_witness:
  "committed_log (lastCommitted (ex_committed (recording ex_app) ((), []))) ex_transferred =
   committed_log (lastCommitted (ex_committed (recording ex_app) ((), []))) (ex_committed (recording ex_app) ((), []))"
  by (rule transfer_keeps_committed [OF ex_backup_reach(2) ex_transfers])

text \<open>A timestamp server and a transaction server behind the leader, each after client requests.\<close>

definition led :: "'a AppReplica \<Rightarrow> VRRequest \<Rightarrow> 'a VRReplica \<Rightarrow> 'a VRReplica" where
  "led A req r = (case HandleRequest A 5 req r of Inr r' \<Rightarrow> r' | Inl _ \<Rightarrow> r)"

lemma led_reach: "vr_reach sha1 A r0 r \<Longrightarrow> vr_reach sha1 A r0 (led A req r)"
proof (cases "HandleRequest A 5 req r")
  case (Inr r')
  assume "vr_reach sha1 A r0 r"
  then show ?thesis by (rule vr_reach.step [OF _ receive [where remote = 5 and m = "MRequest req"]]) (simp add: Inr led_def ReceiveMessage_def)
qed (simp add: led_def)

lemmas ex_led_defs = led_def HandleRequest_def lead_request_def UpdateClientTable_def asserting_def set_table_def table_entry_def
  answer_request_def send_def ex_req_def ex_vr_defs

definition ex_tss :: "(int \<times> upcall list) VRReplica" where
  "ex_tss = led (recording TimeStampServer) (ex_req\<lparr>vr_clientreqid := 2\<rparr>)
     (led (recording TimeStampServer) ex_req (VRReplica_new ex_cfg 0 1 (0, [])))"

lemma ex_tss_state: "app_state ex_tss = (2, [Led (to_string_int 1), Led (to_string_int 2)])"
  by (simp add: ex_tss_def) (simp add: ex_led_defs recording_def TimeStampServer_def newTimeStamp_def)


definition ex_parse :: "string \<Rightarrow> Request" where
  "ex_parse op = (if op = ''a'' then ex_prepare 1 [''x''] [''y''] else ex_prepare 3 [''x''] [''w''])"

abbreviation ex_server_app :: "(unit Server \<times> nat) AppReplica" where
  "ex_server_app \<equiv> server_app null_store (\<lambda>_. (0, 0)) ex_parse (to_string_int \<circ> rep_status)"

definition ex_replicated :: "(unit Server \<times> nat) VRReplica" where
  "ex_replicated = led ex_server_app (ex_req\<lparr>vr_op := ''b'', vr_clientreqid := 2\<rparr>)
     (led ex_server_app (ex_req\<lparr>vr_op := ''a''\<rparr>) (VRReplica_new ex_cfg 0 1 (ex_server, 0)))"

lemma ex_leads_prepare:
  "LeaderUpcall null_store (0, 0) (ex_prepare 1 [''x''] [''y'']) ex_server = Inr (True, Reply_default\<lparr>rep_status := REPLY_OK\<rparr>,
     ex_server\<lparr>srv_store := Some \<lparr> occ_store = (), prepared = [(1, ex_txn ''x'' ''y'')] \<rparr>\<rparr>)"
  "LeaderUpcall null_store (0, 0) (ex_prepare 3 [''x''] [''w'']) (ex_server\<lparr>srv_store := Some \<lparr> occ_store = (), prepared = [(1, ex_txn ''x'' ''y'')] \<rparr>\<rparr>) =
     Inr (True, Reply_default\<lparr>rep_status := REPLY_OK\<rparr>, ex_server')"
  by (simp_all add: LeaderUpcall_def with_store_def ex_message OCC_Prepare_def OCC_Abort_def getPreparedWrites_def
      getPreparedReadWrites_def ex_server_def ex_server'_def OCCStore_new_def reply_codes ex_txn_def)

lemma ex_replicated_state: "fst (app_state ex_replicated) = ex_server'"
  by (simp add: ex_replicated_def) (simp add: ex_led_defs server_app_def ex_parse_def ex_leads_prepare del: One_nat_def)


text \<open>Replica 1 leads view 1.\<close>

theorem view_change_ends_witness:
  "\<exists>r' sv. receive_all id ex_app (map MStartViewChange [\<lparr> svc_view = 1, svc_replicaIdx = 2, svc_lastCommitted = 0 \<rparr>] @
      map MDoViewChange [\<lparr> dvc_view = 1, dvc_lastNormalView = 0, dvc_lastOp = 0, dvc_lastCommitted = 0, dvc_entries = [], dvc_replicaIdx = 2 \<rparr>])
      (VRReplica_new ex_cfg 1 1 ()) = Inr r' \<and>
    rstatus r' = STATUS_NORMAL \<and> rview r' = 1 \<and> AmLeader r' \<and>
    last (outbox r') = (ToAll, MStartView sv) \<and> sv_view sv = 1 \<and> sv_lastOp sv = LastOpnum (rlog (VRReplica_new ex_cfg 1 1 ()))"
  by (rule view_change_ends [OF vr_reach.start, where f = 1])
    (simp_all add: ex_vr_defs QuorumSet_new_def QuorumSize_def stale_def LastViewstamp_def less_eq_viewstamp_def vst_le_def vst_less_def
      Viewstamp_Compare_def)

end
