(* ===== verification/VR_Client.thy ===== *)
theory VR_Client
  imports VR_Replica
begin

text \<open>
  The client side of viewstamped replication (\<open>src/distributed/replication/vr/client.cc\<close>).  A continuation
  is named by the number of its request; the calls made of continuations are recorded in order.
  Whether the transport accepts a message is an argument of each step.
\<close>

section \<open>State and operations\<close>

text \<open>\<open>unlogged\<close> tells the two kinds of pending requests apart; the timer of a request is armed or not.\<close>

record PendingRequest =
  pr_request :: string
  unlogged :: bool
  timer_armed :: bool

datatype outcome = Continued string string | TimedOut string

record VRClient =
  vc_clientid :: nat
  vc_lastReqId :: nat
  pendingReqs :: "nat \<rightharpoonup> PendingRequest"
  vc_outbox :: "(dest \<times> vr_message) list"
  continued :: "(nat \<times> outcome) list"

definition VRClient_new :: "nat \<Rightarrow> VRClient" where
  "VRClient_new clientid = \<lparr> vc_clientid = clientid, vc_lastReqId = 0, pendingReqs = Map.empty, vc_outbox = [], continued = [] \<rparr>"

definition vc_send :: "dest \<Rightarrow> vr_message \<Rightarrow> VRClient \<Rightarrow> VRClient" where
  "vc_send d m c = c\<lparr>vc_outbox := vc_outbox c @ [(d, m)]\<rparr>"

text \<open>The identifier is \<open>++lastReqId\<close> on a 64-bit number.\<close>

definition next_id :: "VRClient \<Rightarrow> nat" where
  "next_id c = (vc_lastReqId c + 1) mod 2 ^ 64"

definition SendRequest :: "bool \<Rightarrow> nat \<Rightarrow> PendingRequest \<Rightarrow> VRClient \<Rightarrow> VRClient" where
  "SendRequest ok reqId req c =
     (if ok then (vc_send ToAll (MRequest \<lparr> vr_op = pr_request req, vr_clientid = vc_clientid c, vr_clientreqid = reqId \<rparr>) c)
        \<lparr>pendingReqs := (pendingReqs c)(reqId \<mapsto> req\<lparr>timer_armed := True\<rparr>)\<rparr>
      else c\<lparr>pendingReqs := (pendingReqs c)(reqId := None)\<rparr>)"

definition Invoke :: "bool \<Rightarrow> string \<Rightarrow> VRClient \<Rightarrow> VRClient" where
  "Invoke ok request c =
     (let reqId = next_id c; req = \<lparr> pr_request = request, unlogged = False, timer_armed = False \<rparr>
      in SendRequest ok reqId req (c\<lparr>vc_lastReqId := reqId, pendingReqs := (pendingReqs c)(reqId \<mapsto> req)\<rparr>))"

text \<open>If the message cannot be sent nothing is registered, so no continuation of this request is ever called.\<close>

definition InvokeUnlogged :: "bool \<Rightarrow> nat \<Rightarrow> string \<Rightarrow> VRClient \<Rightarrow> VRClient" where
  "InvokeUnlogged ok replicaIdx request c =
     (let reqId = next_id c; c = c\<lparr>vc_lastReqId := reqId\<rparr> in
      if ok then (vc_send (ToReplica replicaIdx) (MUnloggedRequest \<lparr> vr_op = request, vr_clientid = vc_clientid c, vr_clientreqid = reqId \<rparr>) c)
        \<lparr>pendingReqs := (pendingReqs c)(reqId \<mapsto> \<lparr> pr_request = request, unlogged = True, timer_armed = True \<rparr>)\<rparr>
      else c)"

definition ResendRequest :: "bool \<Rightarrow> nat \<Rightarrow> VRClient \<Rightarrow> VRClient" where
  "ResendRequest ok reqId c = (case pendingReqs c reqId of None \<Rightarrow> c | Some req \<Rightarrow> SendRequest ok reqId req c)"

text \<open>Both kinds of replies finish a request of either kind, found by its number.\<close>

definition finish :: "nat \<Rightarrow> string \<Rightarrow> VRClient \<Rightarrow> VRClient" where
  "finish reqId reply c = (case pendingReqs c reqId of None \<Rightarrow> c
     | Some req \<Rightarrow> c\<lparr>pendingReqs := (pendingReqs c)(reqId := None), continued := continued c @ [(reqId, Continued (pr_request req) reply)]\<rparr>)"

definition HandleReply :: "ReplyMessage \<Rightarrow> VRClient \<Rightarrow> VRClient" where
  "HandleReply msg c = finish (rp_clientreqid msg) (rp_reply msg) c"

definition HandleUnloggedReply :: "UnloggedReplyMessage \<Rightarrow> VRClient \<Rightarrow> VRClient" where
  "HandleUnloggedReply msg c = finish (ur_clientreqid msg) (ur_reply msg) c"

definition UnloggedRequestTimeoutCallback :: "nat \<Rightarrow> VRClient \<Rightarrow> VRClient" where
  "UnloggedRequestTimeoutCallback reqId c = (case pendingReqs c reqId of None \<Rightarrow> c
     | Some req \<Rightarrow> c\<lparr>pendingReqs := (pendingReqs c)(reqId := None), continued := continued c @ [(reqId, TimedOut (pr_request req))]\<rparr>)"

definition VRClient_ReceiveMessage :: "vr_message \<Rightarrow> VRClient \<Rightarrow> VRClient result" where
  "VRClient_ReceiveMessage m c = (case m of
      MReply r \<Rightarrow> Inr (HandleReply r c) | MUnloggedReply r \<Rightarrow> Inr (HandleUnloggedReply r c) | _ \<Rightarrow> Inl Panicked)"

section \<open>Steps\<close>

inductive vc_step :: "VRClient \<Rightarrow> VRClient \<Rightarrow> bool" where
  invoke: "vc_step c (Invoke ok request c)"
| invoke_unlogged: "vc_step c (InvokeUnlogged ok idx request c)"
| resend: "pendingReqs c n = Some req \<Longrightarrow> timer_armed req \<Longrightarrow> \<not> unlogged req \<Longrightarrow> vc_step c (ResendRequest ok n c)"
| timeout: "pendingReqs c n = Some req \<Longrightarrow> timer_armed req \<Longrightarrow> unlogged req \<Longrightarrow> vc_step c (UnloggedRequestTimeoutCallback n c)"
| receive: "VRClient_ReceiveMessage m c = Inr c' \<Longrightarrow> vc_step c c'"

inductive vc_reach :: "VRClient \<Rightarrow> nat \<Rightarrow> VRClient \<Rightarrow> bool" for c where
  start: "vc_reach c 0 c"
| step: "vc_reach c n c' \<Longrightarrow> vc_step c' c'' \<Longrightarrow> vc_reach c (n + 1) c''"

inductive_cases vc_stepE: "vc_step c c'"

section \<open>Every request is answered at most once\<close>

definition sent :: "VRClient \<Rightarrow> VRRequest set" where
  "sent c = {q. \<exists>(d, m)\<in>set (vc_outbox c). m = MRequest q \<or> m = MUnloggedRequest q}"

text \<open>Fewer than \<open>2 ^ 64\<close> steps, so that the counter does not wrap.\<close>

definition vc_ids :: "nat \<Rightarrow> VRClient \<Rightarrow> bool" where
  "vc_ids n c \<longleftrightarrow> vc_lastReqId c \<le> n \<and> distinct (map fst (continued c)) \<and> (\<forall>i\<in>fst ` set (continued c). i \<le> vc_lastReqId c \<and> pendingReqs c i = None) \<and>
     (\<forall>i req. pendingReqs c i = Some req \<longrightarrow> i \<le> vc_lastReqId c)"

definition vc_msgs :: "VRClient \<Rightarrow> bool" where
  "vc_msgs c \<longleftrightarrow> inj_on vr_clientreqid (sent c) \<and> (\<forall>q\<in>sent c. vr_clientid q = vc_clientid c \<and> vr_clientreqid q \<le> vc_lastReqId c \<and>
     (\<forall>req. pendingReqs c (vr_clientreqid q) = Some req \<longrightarrow> vr_op q = pr_request req))"

definition vc_ok :: "nat \<Rightarrow> VRClient \<Rightarrow> bool" where
  "vc_ok n c \<longleftrightarrow> vc_ids n c \<and> vc_msgs c"

lemma sent_send [simp]: "sent (vc_send d (MRequest q) c) = insert q (sent c)" "sent (vc_send d (MUnloggedRequest q) c) = insert q (sent c)"
  by (auto simp: sent_def vc_send_def)

lemma vc_send_simps [simp]: "vc_lastReqId (vc_send d m c) = vc_lastReqId c" "continued (vc_send d m c) = continued c"
  "pendingReqs (vc_send d m c) = pendingReqs c" "vc_clientid (vc_send d m c) = vc_clientid c"
  by (simp_all add: vc_send_def)

lemma sent_upd [simp]: "sent (c\<lparr>pendingReqs := p\<rparr>) = sent c" "sent (c\<lparr>continued := x\<rparr>) = sent c" "sent (c\<lparr>vc_lastReqId := n\<rparr>) = sent c"
  by (simp_all add: sent_def)

text \<open>A request that is pending, or new, may be sent.\<close>

lemma vc_ids_sent:
  assumes "vc_ids n c" "i \<le> vc_lastReqId c" "i \<notin> fst ` set (continued c)"
  shows "vc_ids n ((vc_send d m c)\<lparr>pendingReqs := (pendingReqs c)(i \<mapsto> req)\<rparr>)"
  using assms by (auto simp: vc_ids_def)

lemma vc_msgs_sent:
  assumes "vc_msgs c" "vr_clientid q = vc_clientid c" "vr_clientreqid q \<le> vc_lastReqId c" "pr_request req = vr_op q"
    and "\<forall>q'\<in>sent c. vr_clientreqid q' = vr_clientreqid q \<longrightarrow> q' = q" "m = MRequest q \<or> m = MUnloggedRequest q"
  shows "vc_msgs ((vc_send d m c)\<lparr>pendingReqs := (pendingReqs c)(vr_clientreqid q \<mapsto> req)\<rparr>)"
proof -
  have s: "sent (vc_send d m c) = insert q (sent c)" using assms(6) by auto
  have i: "inj_on vr_clientreqid (insert q (sent c))" using assms(1,5) by (auto simp: vc_msgs_def inj_on_insert)
  have "vr_op q' = pr_request req" if "q' \<in> sent c" "vr_clientreqid q' = vr_clientreqid q" for q'
    using that assms(4,5) by auto
  then show ?thesis using i assms(1-4) unfolding vc_msgs_def by (simp add: s)
qed

lemma vc_ids_end:
  assumes "vc_ids n c" "pendingReqs c i = Some req"
  shows "vc_ids n (c\<lparr>pendingReqs := (pendingReqs c)(i := None), continued := continued c @ [(i, x)]\<rparr>)"
proof -
  have "i \<notin> fst ` set (continued c)" "i \<le> vc_lastReqId c" using assms by (auto simp: vc_ids_def)
  then show ?thesis using assms(1) by (auto simp: vc_ids_def)
qed

lemma vc_ok_end:
  assumes "vc_ok n c" "pendingReqs c i = Some req"
  shows "vc_ok n (c\<lparr>pendingReqs := (pendingReqs c)(i := None), continued := continued c @ [(i, x)]\<rparr>)"
  using assms vc_ids_end [of n c i req x] by (simp add: vc_ok_def vc_msgs_def)

lemma vc_ok_drop: "vc_ok n c \<Longrightarrow> vc_ok n (c\<lparr>pendingReqs := (pendingReqs c)(i := None)\<rparr>)"
  by (simp add: vc_ok_def vc_ids_def vc_msgs_def)

lemma vc_ok_more: "vc_ok n c \<Longrightarrow> n \<le> n' \<Longrightarrow> vc_ok n' c"
  by (simp add: vc_ok_def vc_ids_def)

lemma vc_ok_fresh:
  assumes "vc_ok n c" "n + 1 < 2 ^ 64"
  shows "next_id c = vc_lastReqId c + 1" "vc_ok (n + 1) (c\<lparr>vc_lastReqId := next_id c\<rparr>)" "next_id c \<notin> fst ` set (continued c)"
    "\<forall>q\<in>sent c. vr_clientreqid q \<noteq> next_id c"
proof -
  show n: "next_id c = vc_lastReqId c + 1" using assms by (simp add: vc_ok_def vc_ids_def next_id_def)
  show "vc_ok (n + 1) (c\<lparr>vc_lastReqId := next_id c\<rparr>)"
    using assms(1) unfolding n by (auto simp: vc_ok_def vc_ids_def vc_msgs_def le_SucI)
  show "next_id c \<notin> fst ` set (continued c)" "\<forall>q\<in>sent c. vr_clientreqid q \<noteq> next_id c"
    using assms(1) unfolding n by (auto simp: vc_ok_def vc_ids_def vc_msgs_def)
qed

lemma vc_ok_SendRequest:
  assumes ok: "vc_ok n c" and i: "i \<le> vc_lastReqId c" "i \<notin> fst ` set (continued c)"
    and op: "\<forall>q\<in>sent c. vr_clientreqid q = i \<longrightarrow> vr_op q = pr_request req"
  shows "vc_ok n (SendRequest b i req c)"
proof (cases b)
  case True
  let ?q = "\<lparr> vr_op = pr_request req, vr_clientid = vc_clientid c, vr_clientreqid = i \<rparr>"
  have "q = ?q" if "q \<in> sent c" "vr_clientreqid q = i" for q
    using that op ok by (intro VRRequest.equality) (auto simp: vc_ok_def vc_msgs_def)
  then have "vc_msgs ((vc_send ToAll (MRequest ?q) c)\<lparr>pendingReqs := (pendingReqs c)(vr_clientreqid ?q \<mapsto> req\<lparr>timer_armed := True\<rparr>)\<rparr>)"
    by (intro vc_msgs_sent) (use ok i in \<open>auto simp: vc_ok_def\<close>)
  then show ?thesis using True ok i by (simp add: SendRequest_def vc_ok_def vc_ids_sent)
qed (simp add: SendRequest_def vc_ok_drop ok)

lemma vc_ok_Invoke:
  assumes "vc_ok n c" "n + 1 < 2 ^ 64"
  shows "vc_ok (n + 1) (Invoke ok request c)"
proof -
  note f = vc_ok_fresh [OF assms]
  have p: "SendRequest ok i req (c\<lparr>vc_lastReqId := i, pendingReqs := (pendingReqs c)(i \<mapsto> req')\<rparr>) = SendRequest ok i req (c\<lparr>vc_lastReqId := i\<rparr>)" for i req req'
    by (simp add: SendRequest_def vc_send_def)
  show ?thesis
    unfolding Invoke_def Let_def p using f(3,4) by (intro vc_ok_SendRequest [OF f(2)]) simp_all
qed

lemma vc_ok_InvokeUnlogged:
  assumes "vc_ok n c" "n + 1 < 2 ^ 64"
  shows "vc_ok (n + 1) (InvokeUnlogged ok idx request c)"
proof -
  let ?c = "c\<lparr>vc_lastReqId := next_id c\<rparr>" and ?q = "\<lparr> vr_op = request, vr_clientid = vc_clientid c, vr_clientreqid = next_id c \<rparr>"
  let ?r = "\<lparr> pr_request = request, unlogged = True, timer_armed = True \<rparr>"
  note f = vc_ok_fresh [OF assms]
  have "vc_msgs ((vc_send (ToReplica idx) (MUnloggedRequest ?q) ?c)\<lparr>pendingReqs := (pendingReqs ?c)(vr_clientreqid ?q \<mapsto> ?r)\<rparr>)"
    by (intro vc_msgs_sent) (use f in \<open>auto simp: vc_ok_def\<close>)
  moreover have "vc_ids (n + 1) ((vc_send (ToReplica idx) (MUnloggedRequest ?q) ?c)\<lparr>pendingReqs := (pendingReqs ?c)(next_id c \<mapsto> ?r)\<rparr>)"
    by (intro vc_ids_sent) (use f in \<open>auto simp: vc_ok_def\<close>)
  ultimately show ?thesis using f(2) by (simp add: InvokeUnlogged_def Let_def vc_ok_def)
qed

lemma vc_ok_finish: "vc_ok n c \<Longrightarrow> vc_ok n (finish i reply c)"
  by (auto simp: finish_def vc_ok_end split: option.splits)

lemma vc_ok_step:
  assumes "vc_step c c'" "vc_ok n c" "n + 1 < 2 ^ 64"
  shows "vc_ok (n + 1) c'"
  using assms(1)
proof cases
  case (resend i req ok)
  then have "vc_ok n (SendRequest ok i req c)"
    using assms(2) by (intro vc_ok_SendRequest [OF assms(2)]) (auto simp: vc_ok_def vc_ids_def vc_msgs_def)
  then show ?thesis using resend by (simp add: ResendRequest_def vc_ok_more)
next
  case (timeout i req)
  then show ?thesis using vc_ok_end [OF assms(2), of i req "TimedOut (pr_request req)"]
    by (simp add: UnloggedRequestTimeoutCallback_def vc_ok_more)
next
  case (receive m)
  have "vc_ok (n + 1) (finish i reply c)" for i reply
    by (rule vc_ok_more [OF vc_ok_finish [OF assms(2)]]) simp
  then show ?thesis using receive
    by (auto simp: VRClient_ReceiveMessage_def HandleReply_def HandleUnloggedReply_def split: vr_message.splits)
qed (use vc_ok_Invoke [OF assms(2,3)] vc_ok_InvokeUnlogged [OF assms(2,3)] in simp_all)

lemma vc_reach_ok: "vc_reach (VRClient_new cid) n c \<Longrightarrow> n < 2 ^ 64 \<Longrightarrow> vc_ok n c"
proof (induction rule: vc_reach.induct)
  case start
  show ?case by (simp add: vc_ok_def vc_ids_def vc_msgs_def VRClient_new_def sent_def)
next
  case (step n c' c'')
  then show ?case by (intro vc_ok_step) simp_all
qed

text \<open>
  C26: the replication client answers each request at most once, and only after it is no longer pending;
  all messages it sends under one request number, retransmissions included, carry the same operation,
  which is what the replicas rely on to recognise a retransmission by its number.
\<close>

theorem client_answers_once:
  assumes "vc_reach (VRClient_new cid) n c" "n < 2 ^ 64"
  shows "distinct (map fst (continued c)) \<and> (\<forall>i\<in>fst ` set (continued c). pendingReqs c i = None) \<and>
    (\<forall>q\<in>sent c. \<forall>q'\<in>sent c. vr_clientreqid q = vr_clientreqid q' \<longrightarrow> q = q')"
  using vc_reach_ok [OF assms] by (simp add: vc_ok_def vc_ids_def vc_msgs_def inj_on_def)

definition ex_client :: VRClient where
  "ex_client = HandleReply \<lparr> rp_view = 0, rp_opnum = 1, rp_clientreqid = 1, rp_reply = ''r'' \<rparr> (ResendRequest True 1 (Invoke True ''op'' (VRClient_new 7)))"

lemma ex_client_reach: "vc_reach (VRClient_new 7) 3 ex_client"
proof -
  let ?a = "Invoke True ''op'' (VRClient_new 7)"
  have p: "\<exists>req. pendingReqs ?a 1 = Some req \<and> timer_armed req \<and> \<not> unlogged req"
    by (simp add: Invoke_def SendRequest_def next_id_def VRClient_new_def)
  have "vc_reach (VRClient_new 7) (0 + 1) ?a" by (rule vc_reach.step [OF vc_reach.start invoke])
  then have "vc_reach (VRClient_new 7) (0 + 1 + 1) (ResendRequest True 1 ?a)" using p by (blast intro: vc_reach.step resend)
  then have "vc_reach (VRClient_new 7) (0 + 1 + 1 + 1) ex_client"
    by (rule vc_reach.step) (rule receive [of "MReply \<lparr> rp_view = 0, rp_opnum = 1, rp_clientreqid = 1, rp_reply = ''r'' \<rparr>"],
      simp add: VRClient_ReceiveMessage_def ex_client_def)
  then show ?thesis by (simp add: numeral_3_eq_3)
qed

theorem client_answers_once_witness: "distinct (map fst (continued ex_client)) \<and> length (continued ex_client) = 1 \<and> length (vc_outbox ex_client) = 2"
proof -
  have "length (continued ex_client) = 1" "length (vc_outbox ex_client) = 2"
    by (simp_all add: ex_client_def HandleReply_def finish_def ResendRequest_def Invoke_def SendRequest_def next_id_def VRClient_new_def vc_send_def)
  then show ?thesis using client_answers_once [OF ex_client_reach] by simp
qed

end
