(* ===== verification/Version_Store.thy ===== *)
theory Version_Store
  imports Strong_Server QL_Ledger SQL_Ledger "HOL-Library.Char_ord" "HOL-Library.List_Lexorder"
begin

text \<open>
  The versioned store of the transaction server (\<open>src/distributed/store/common/backend/versionstore.cc\<close>)
  with QLDB or the SQL ledger compiled in.  Each is a record of operations of the type that the
  transaction store uses.  The ledger is always named \<open>test\<close>.
\<close>

section \<open>QLDB\<close>

text \<open>
  The state is the ledger and the number of \<open>Set\<close> calls so far; \<open>clock n\<close> gives the time of day at the
  call with number \<open>n\<close> and the uninitialised bytes it hashes.
\<close>

type_synonym 's qldb_state = "'s QLDB \<times> nat"

definition of_option :: "'a option \<Rightarrow> 'a result" where
  "of_option m = (case m of None \<Rightarrow> Inl Out_of_bounds | Some x \<Rightarrow> Inr x)"

lemma of_option_simps [simp]: "of_option None = Inl Out_of_bounds" "of_option (Some x) = Inr x"
  by (simp_all add: of_option_def)

definition qldb_proof :: "string \<Rightarrow> QLProofResult \<Rightarrow> QLDBProof" where
  "qldb_proof key p =
     \<lparr> qp_key = key, qp_value = data_val (pr_data p), qp_blockno = seq_no (pr_addr p), qp_doc_seq = doc_seq (pr_meta p),
       qp_version = version (pr_meta p), qp_time = md_time (pr_meta p), qp_hashes = pr_proof p, qp_pos = pr_pos p \<rparr>"

text \<open>
  The proof of one document is added to the reply.  A chunk without bytes is dereferenced, and of a proof
  that is not found the numbers are uninitialised.
\<close>

definition qldb_prove :: "'s ext \<Rightarrow> nat \<Rightarrow> string \<Rightarrow> Chunk \<Rightarrow> Reply \<Rightarrow> 's QLDB \<Rightarrow> (Reply \<times> 's QLDB) result" where
  "qldb_prove E tip key c r q =
     (if Chunk_empty c then Inl Out_of_bounds
      else let doc = Document_of c in
        rbind (of_option (QLDB_getProof E q ''test'' tip (seq_no (doc_addr doc)) (doc_seq (doc_meta doc)))) (\<lambda>(p, q).
          case p of None \<Rightarrow> Inl Out_of_bounds | Some p \<Rightarrow> Inr (r\<lparr>rep_qproof := rep_qproof r @ [qldb_proof key p]\<rparr>, q)))"

fun qldb_batch :: "'s ext \<Rightarrow> nat \<Rightarrow> string list \<Rightarrow> Reply \<Rightarrow> 's QLDB \<Rightarrow> (Reply \<times> 's QLDB) result" where
  "qldb_batch E tip [] r q = Inr (r, q)"
| "qldb_batch E tip (key # keys) r q =
     rbind (of_option (GetCommitted E q key)) (\<lambda>(c, q).
       if Chunk_empty c then qldb_batch E tip keys r q
       else rbind (qldb_prove E tip key c r q) (\<lambda>(r, q). qldb_batch E tip keys r q))"

definition set_digest :: "nat \<Rightarrow> string \<Rightarrow> Reply \<Rightarrow> Reply" where
  "set_digest tip h r = r\<lparr>rep_digest := (rep_digest r)\<lparr>dg_block := tip, dg_hash := h\<rparr>\<rparr>"

definition qldb_BatchGet :: "'s ext \<Rightarrow> string list \<Rightarrow> Reply \<Rightarrow> 's qldb_state \<Rightarrow> 's qldb_state vs_result" where
  "qldb_BatchGet E keys r s = (case s of (q, k) \<Rightarrow>
     rbind (QLDB_digest E q ''test'') (\<lambda>(tip, h).
     rbind (qldb_batch E tip keys (set_digest tip h r) q) (\<lambda>(r, q). Inr (True, r, (q, k)))))"

fun qldb_prove_all :: "'s ext \<Rightarrow> nat \<Rightarrow> (string \<times> Chunk) list \<Rightarrow> Reply \<Rightarrow> 's QLDB \<Rightarrow> (Reply \<times> 's QLDB) result" where
  "qldb_prove_all E tip [] r q = Inr (r, q)"
| "qldb_prove_all E tip ((key, c) # kcs) r q = rbind (qldb_prove E tip key c r q) (\<lambda>(r, q). qldb_prove_all E tip kcs r q)"

fun qldb_versions :: "'s ext \<Rightarrow> nat \<Rightarrow> (string \<times> nat) list \<Rightarrow> Reply \<Rightarrow> 's QLDB \<Rightarrow> (Reply \<times> 's QLDB) result" where
  "qldb_versions E tip [] r q = Inr (r, q)"
| "qldb_versions E tip ((key, n) # vks) r q =
     rbind (of_option (GetHistory E q key n)) (\<lambda>(cs, q).
     rbind (qldb_prove_all E tip (map (Pair key) cs) r q) (\<lambda>(r, q). qldb_versions E tip vks r q))"

definition qldb_GetNVersions :: "'s ext \<Rightarrow> (string \<times> nat) list \<Rightarrow> Reply \<Rightarrow> 's qldb_state \<Rightarrow> 's qldb_state vs_result" where
  "qldb_GetNVersions E vks r s = (case s of (q, k) \<Rightarrow>
     rbind (QLDB_digest E q ''test'') (\<lambda>(tip, h).
     rbind (qldb_versions E tip vks r q) (\<lambda>(r, q). Inr (True, r, (q, k)))))"

text \<open>\<open>std::map\<close> is traversed in the order of its keys.\<close>

definition in_order :: "(string \<rightharpoonup> 'v) \<Rightarrow> (string \<times> 'v) list" where
  "in_order m = map (\<lambda>k. (k, the (m k))) (sorted_list_of_set (dom m))"

definition qldb_GetRange :: "'s ext \<Rightarrow> string \<Rightarrow> string \<Rightarrow> Reply \<Rightarrow> 's qldb_state \<Rightarrow> 's qldb_state vs_result" where
  "qldb_GetRange E start stop r s = (case s of (q, k) \<Rightarrow>
     rbind (QLDB_digest E q ''test'') (\<lambda>(tip, h).
     rbind (of_option (QLDB_Range E q start stop)) (\<lambda>(m, q).
     rbind (qldb_prove_all E tip (map (apsnd slice_chunk) (in_order m)) (set_digest tip h r) q) (\<lambda>(r, q).
       Inr (True, r, (q, k))))))"

definition qldb_put :: "'s ext \<Rightarrow> BPlusConfig \<Rightarrow> (nat \<Rightarrow> nat \<times> string) \<Rightarrow> string list \<Rightarrow> string list \<Rightarrow> Timestamp \<Rightarrow> Reply option
    \<Rightarrow> 's qldb_state \<Rightarrow> (Reply option \<times> 's qldb_state) result" where
  "qldb_put E C clock keys vals t r s = (case s of (q, k) \<Rightarrow>
     rbind (of_option (QLDB_Set E C (fst (clock k)) (snd (clock k)) q ''test'' keys vals)) (\<lambda>m. rbind m (\<lambda>(_, q).
       case r of None \<Rightarrow> Inr (None, (q, k + 1))
       | Some r \<Rightarrow> rbind (qldb_BatchGet E keys r (q, k + 1)) (\<lambda>(_, r, s). Inr (Some r, s)))))"

text \<open>
  With QLDB nothing assigns \<open>tip\<close> and \<open>hash\<close> in \<open>GetDigest\<close>: the block number is an uninitialised value
  \<open>junk\<close> and the hash is empty.  The two \<open>GetProof\<close> leave the reply as it is.
\<close>

definition qldb_store :: "'s ext \<Rightarrow> BPlusConfig \<Rightarrow> (nat \<Rightarrow> nat \<times> string) \<Rightarrow> nat \<Rightarrow> 's qldb_state VersionedKVStore" where
  "qldb_store E C clock junk =
     \<lparr> vs_GetDigest = (\<lambda>r s. Inr (True, set_digest junk [] r, s)), vs_BatchGet = qldb_BatchGet E, vs_GetNVersions = qldb_GetNVersions E,
       vs_GetRange = qldb_GetRange E, vs_GetProof = (\<lambda>_ r s. Inr (True, r, s)), vs_GetAudit = (\<lambda>_ r s. Inr (True, r, s)),
       vs_put = qldb_put E C clock \<rparr>"

text \<open>\<open>BPlusConfig::Init(45, 15)\<close> and an opened ledger.\<close>

definition qldb_config :: BPlusConfig where
  "qldb_config = \<lparr> fanout = 45, leaf_fanout = 15 \<rparr>"

definition qldb_open :: "'s ext \<Rightarrow> 's \<Rightarrow> 's qldb_state" where
  "qldb_open E s = (QLDB_new E s, 0)"

section \<open>The SQL ledger\<close>

type_synonym 's sql_state = "'s SQLLedger \<times> nat"

text \<open>A document \<open>block|txn|seq|key|value|time\<close> as a reply shows it; a missing field is read out of bounds.\<close>

definition sql_kv :: "string \<Rightarrow> (KV \<times> nat) result" where
  "sql_kv doc = (let docs = splitBy doc (CHR ''|'') in
     rbind (vec_at docs 3) (\<lambda>key. rbind (vec_at docs 4) (\<lambda>val. rbind (rbind (vec_at docs 0) stoul) (\<lambda>blk.
     rbind (rbind (vec_at docs 5) stoul) (\<lambda>t. Inr (\<lparr> kv_key = key, kv_val = val, kv_estimate_block = blk \<rparr>, t))))))"

definition add_kv :: "Reply \<Rightarrow> KV \<times> nat \<Rightarrow> Reply" where
  "add_kv r kvt = r\<lparr>rep_values := rep_values r @ [fst kvt], rep_timestamps := rep_timestamps r @ [snd kvt]\<rparr>"

fun sql_add_all :: "string list \<Rightarrow> Reply \<Rightarrow> Reply result" where
  "sql_add_all [] r = Inr r"
| "sql_add_all (doc # docs) r = rbind (sql_kv doc) (\<lambda>kvt. sql_add_all docs (add_kv r kvt))"

fun sql_batch :: "'s ext \<Rightarrow> string list \<Rightarrow> Reply \<Rightarrow> 's SQLLedger \<Rightarrow> (Reply \<times> 's SQLLedger) result" where
  "sql_batch E [] r q = Inr (r, q)"
| "sql_batch E (key # keys) r q =
     rbind (of_option (SQL_GetCommitted E q key)) (\<lambda>(doc, q).
       if doc = [] then sql_batch E keys r q
       else rbind (sql_kv doc) (\<lambda>kvt. sql_batch E keys (add_kv r kvt) q))"

definition sql_BatchGet :: "'s ext \<Rightarrow> string list \<Rightarrow> Reply \<Rightarrow> 's sql_state \<Rightarrow> 's sql_state vs_result" where
  "sql_BatchGet E keys r s = (case s of (q, k) \<Rightarrow> rbind (sql_batch E keys r q) (\<lambda>(r, q). Inr (True, r, (q, k))))"

fun sql_versions :: "(string \<Rightarrow> (string \<times> string) list) \<Rightarrow> (string \<times> nat) list \<Rightarrow> Reply \<Rightarrow> Reply result" where
  "sql_versions entries [] r = Inr r"
| "sql_versions entries ((key, n) # vks) r = rbind (sql_add_all (SQL_GetHistory entries key n) r) (sql_versions entries vks)"

definition sql_GetRange :: "'s ext \<Rightarrow> string \<Rightarrow> string \<Rightarrow> Reply \<Rightarrow> 's sql_state \<Rightarrow> 's sql_state vs_result" where
  "sql_GetRange E start stop r s = (case s of (q, k) \<Rightarrow>
     rbind (of_option (SQL_Range E q start stop)) (\<lambda>(m, q).
     rbind (sql_add_all (map snd (in_order m)) r) (\<lambda>r. Inr (True, r, (q, k)))))"

definition sql_GetDigest :: "'s ext \<Rightarrow> Reply \<Rightarrow> 's sql_state \<Rightarrow> 's sql_state vs_result" where
  "sql_GetDigest E r s = rbind (SQL_GetDigest E (fst s)) (\<lambda>(tip, h). Inr (True, set_digest tip h r, s))"

definition mt_message :: "Proof \<Rightarrow> MTProof" where
  "mt_message p = \<lparr> mtp_digest = digest p, mtp_value = pvalue p, mtp_proof = proof_hashes p, mtp_pos = pos p \<rparr>"

fun sql_details :: "'s ext \<Rightarrow> 's SQLLedger \<Rightarrow> nat \<Rightarrow> nat \<Rightarrow> string list \<Rightarrow> SQLLedgerProof \<Rightarrow> SQLLedgerProof result" where
  "sql_details E q blk level [] p = Inr p"
| "sql_details E q blk level (key # keys) p = rbind (getDetailProof E q key blk level) (\<lambda>res.
     sql_details E q blk level keys (p\<lparr>slp_txn_proof := slp_txn_proof p @ [mt_message (txn_proof res)],
       slp_data_proof := slp_data_proof p @ [mt_message (data_proof res)]\<rparr>))"

text \<open>\<open>level\<close> is uninitialised when the proof has no block; it is then only used when there are keys.\<close>

fun sql_proofs :: "'s ext \<Rightarrow> 's SQLLedger \<Rightarrow> nat \<Rightarrow> (nat \<times> string list) list \<Rightarrow> Reply \<Rightarrow> Reply result" where
  "sql_proofs E q tip [] r = Inr r"
| "sql_proofs E q tip ((blk, keys) # es) r =
     rbind (getBlockProof E q blk tip) (\<lambda>(blks, level).
     let p = \<lparr> slp_blocks = blks, slp_txn_proof = [], slp_data_proof = [] \<rparr> in
     rbind (case level of Some l \<Rightarrow> sql_details E q blk l keys p | None \<Rightarrow> if keys = [] then Inr p else Inl Out_of_bounds) (\<lambda>p.
       sql_proofs E q tip es (r\<lparr>rep_sproof := rep_sproof r @ [p]\<rparr>)))"

definition sql_GetProof :: "'s ext \<Rightarrow> (nat \<times> string list) list \<Rightarrow> Reply \<Rightarrow> 's sql_state \<Rightarrow> 's sql_state vs_result" where
  "sql_GetProof E keys r s = rbind (sql_GetDigest E r s) (\<lambda>(_, r, s).
     rbind (sql_proofs E (fst s) (dg_block (rep_digest r)) keys r) (\<lambda>r. Inr (True, r, s)))"

definition sql_GetAudit :: "'s ext \<Rightarrow> nat \<Rightarrow> Reply \<Rightarrow> 's sql_state \<Rightarrow> 's sql_state vs_result" where
  "sql_GetAudit E seq r s = rbind (SQL_getAudit E (fst s) seq) (\<lambda>a. Inr (True, r\<lparr>rep_saudit :=
     \<lparr> sla_block_no = au_block_seq a, sla_digest = au_digest a, sla_txns = au_txns a, sla_blocks = au_blks a \<rparr>\<rparr>, s))"

definition sql_put :: "'s ext \<Rightarrow> BPlusConfig \<Rightarrow> (nat \<Rightarrow> nat) \<Rightarrow> string list \<Rightarrow> string list \<Rightarrow> Timestamp \<Rightarrow> Reply option
    \<Rightarrow> 's sql_state \<Rightarrow> (Reply option \<times> 's sql_state) result" where
  "sql_put E C clock keys vals t r s = (case s of (q, k) \<Rightarrow>
     rbind (of_option (SQLLedger_Set E C (clock k) q keys vals)) (\<lambda>m. rbind m (\<lambda>(blk, q).
       Inr (map_option (\<lambda>r. r\<lparr>rep_values := rep_values r @
         map (\<lambda>(key, val). \<lparr> kv_key = key, kv_val = val, kv_estimate_block = blk \<rparr>) (zip keys vals)\<rparr>) r, (q, k + 1)))))"

definition sql_store :: "'s ext \<Rightarrow> BPlusConfig \<Rightarrow> (nat \<Rightarrow> nat) \<Rightarrow> (string \<Rightarrow> (string \<times> string) list) \<Rightarrow> 's sql_state VersionedKVStore" where
  "sql_store E C clock entries =
     \<lparr> vs_GetDigest = sql_GetDigest E, vs_BatchGet = sql_BatchGet E,
       vs_GetNVersions = (\<lambda>vks r s. rbind (sql_versions entries vks r) (\<lambda>r. Inr (True, r, s))),
       vs_GetRange = sql_GetRange E, vs_GetProof = sql_GetProof E, vs_GetAudit = sql_GetAudit E, vs_put = sql_put E C clock \<rparr>"

section \<open>The contract of a ledger behind the transaction store\<close>

text \<open>
  \<open>repr h b\<close>: the state \<open>b\<close> has received the batches \<open>h\<close>, in this order; \<open>fits h kvs\<close>: the sizes allow
  the further batch \<open>kvs\<close>.  \<open>vals\<close> reads the keys and values off a reply.
\<close>

definition latest :: "(string \<times> string) list list \<Rightarrow> string \<rightharpoonup> string" where
  "latest h = map_of (rev (concat h))"

definition found :: "(string \<times> string) list list \<Rightarrow> string list \<Rightarrow> (string \<times> string) list" where
  "found h keys = map (\<lambda>k. (k, the (latest h k))) (filter (\<lambda>k. latest h k \<noteq> None) keys)"

text \<open>What a call to the server hands to the ledger, and all that a run does.\<close>

fun written :: "call \<Rightarrow> 'b Server \<Rightarrow> (string \<times> string) list list" where
  "written (Leader now req) s = (if req_op req = OP_COMMIT then
     (case srv_store s of None \<Rightarrow> [] | Some st \<Rightarrow> filter (\<lambda>ws. ws \<noteq> []) [writeSet (prepared_txn (req_txnid req) st)]) else [])"
| "written (Unlogged req) s = []"
| "written (Loading keys vals t) s = filter (\<lambda>ws. ws \<noteq> []) [zip keys vals]"

fun batches :: "'b VersionedKVStore \<Rightarrow> call list \<Rightarrow> 'b Server \<Rightarrow> (string \<times> string) list list" where
  "batches V [] s = []"
| "batches V (c # cs) s = written c s @ (case srv_call V c s of Inl _ \<Rightarrow> [] | Inr s' \<Rightarrow> batches V cs s')"

fun fit_all :: "((string \<times> string) list list \<Rightarrow> (string \<times> string) list \<Rightarrow> bool) \<Rightarrow> (string \<times> string) list list \<Rightarrow> (string \<times> string) list list \<Rightarrow> bool" where
  "fit_all fits h [] = True"
| "fit_all fits h (b # bs) = (fits h b \<and> fit_all fits (h @ [b]) bs)"

lemma fit_all_append: "fit_all fits h (a @ b) \<longleftrightarrow> fit_all fits h a \<and> fit_all fits (h @ a) b"
  by (induction a arbitrary: h) auto

fun load_ok :: "call \<Rightarrow> bool" where
  "load_ok (Loading keys vals t) = (length keys = length vals)"
| "load_ok _ = True"

locale ledger_store =
  fixes V :: "'b VersionedKVStore"
    and repr :: "(string \<times> string) list list \<Rightarrow> 'b \<Rightarrow> bool"
    and fits :: "(string \<times> string) list list \<Rightarrow> (string \<times> string) list \<Rightarrow> bool"
    and vals :: "Reply \<Rightarrow> (string \<times> string) list"
    and checks :: "Reply \<Rightarrow> bool"
  assumes put: "repr h b \<Longrightarrow> kvs \<noteq> [] \<Longrightarrow> fits h kvs \<Longrightarrow> vs_put V (map fst kvs) (map snd kvs) t ro b = Inr (ro', b') \<Longrightarrow> repr (h @ [kvs]) b'"
    and put_none: "repr h b \<Longrightarrow> vs_put V [] [] t None b = Inr (ro', b') \<Longrightarrow> repr h b'"
    and keeps: "repr h b \<Longrightarrow> vs_GetDigest V r b = Inr (ok, r', b') \<or> vs_GetNVersions V vks r b = Inr (ok, r', b') \<or>
      vs_GetRange V x y r b = Inr (ok, r', b') \<or> vs_GetProof V ps r b = Inr (ok, r', b') \<or> vs_GetAudit V n r b = Inr (ok, r', b') \<Longrightarrow> repr h b'"
    and digest_ok: "repr h b \<Longrightarrow> \<exists>r' b'. vs_GetDigest V r b = Inr (True, r', b') \<and> vals r' = vals r"
    and reads: "repr h b \<Longrightarrow> \<exists>r' b'. vs_BatchGet V keys r b = Inr (True, r', b') \<and> repr h b' \<and> vals r' = vals r @ found h keys \<and> (vals r = [] \<longrightarrow> checks r')"
    and status_vals: "vals (r\<lparr>rep_status := st\<rparr>) = vals r" "checks (r\<lparr>rep_status := st\<rparr>) = checks r"
begin

lemma reads_keep: "repr h b \<Longrightarrow> vs_BatchGet V keys r b = Inr (ok, r', b') \<Longrightarrow> repr h b'"
  using reads by (metis Inr_inject Pair_inject)

lemma other_keep:
  "repr h b \<Longrightarrow> vs_GetDigest V r b = Inr (ok, r', b') \<Longrightarrow> repr h b'" "repr h b \<Longrightarrow> vs_GetNVersions V vks r b = Inr (ok, r', b') \<Longrightarrow> repr h b'"
  "repr h b \<Longrightarrow> vs_GetRange V x y r b = Inr (ok, r', b') \<Longrightarrow> repr h b'" "repr h b \<Longrightarrow> vs_GetProof V ps r b = Inr (ok, r', b') \<Longrightarrow> repr h b'"
  "repr h b \<Longrightarrow> vs_GetAudit V n r b = Inr (ok, r', b') \<Longrightarrow> repr h b'"
  using keeps by blast+

lemma put_any:
  assumes "repr h b" "ws \<noteq> [] \<Longrightarrow> fits h ws" "vs_put V (map fst ws) (map snd ws) t ro b = Inr (ro', b')" "ws = [] \<Longrightarrow> ro = None"
  shows "repr (if ws = [] then h else h @ [ws]) b'"
  using assms put [OF assms(1), of ws] put_none [OF assms(1)] by auto

text \<open>A commit appends the write set of the prepared transaction to the ledger, as one batch.\<close>

lemma commit_repr:
  assumes "repr h (occ_store st)" "ws = writeSet (prepared_txn i st)" "ws \<noteq> [] \<Longrightarrow> fits h ws"
    and "OCC_Commit V i t r st = Inr (r', st') \<or> OCC_CommitSP V i t vks r st = Inr (r', st')"
  shows "repr (if ws = [] then h else h @ [ws]) (occ_store st')"
  using assms(4)
proof
  assume "OCC_Commit V i t r st = Inr (r', st')"
  then obtain ok r1 b1 ro where b: "vs_GetDigest V r (occ_store st) = Inr (ok, r1, b1)"
      "vs_put V (map fst ws) (map snd ws) (Timestamp_of t) None b1 = Inr (ro, occ_store st')"
    by (auto simp: OCC_Commit_def Let_def rbind_Inr_iff assms(2))
  have "repr h b1" using b(1) other_keep(1) [OF assms(1)] by blast
  then show ?thesis by (rule put_any [OF _ assms(3) b(2)]) simp_all
next
  assume c: "OCC_CommitSP V i t vks r st = Inr (r', st')"
  then obtain txn r1 b1 r2 b2 r3 b3 r4 b4 where txn: "map_of (prepared st) i = Some txn" and b:
      "\<exists>ok. vs_GetDigest V r (occ_store st) = Inr (ok, r1, b1)" "commit_reads V (map fst (readSet txn)) r1 b1 = Inr (r2, b2)"
      "commit_versions V vks r2 b2 = Inr (r3, b3)" "commit_writes V txn t r3 b3 = Inr (r4, b4)" "occ_store st' = b4"
    by (auto simp: OCC_CommitSP_def rbind_Inr_iff split: option.splits)
  have "repr h b1" using b(1) other_keep(1) [OF assms(1)] by blast
  then have "repr h b2" using b(2) reads_keep by (auto simp: commit_reads_def rbind_Inr_iff split: if_splits)
  then have b3: "repr h b3" using b(3) other_keep(2) by (auto simp: commit_versions_def rbind_Inr_iff split: if_splits)
  have "ws = writeSet txn" using assms(2) txn by (simp add: prepared_txn_def)
  then show ?thesis using put_any [OF b3 assms(3)] b(4,5) b3 by (auto simp: commit_writes_def rbind_Inr_iff split: if_splits)
qed

lemma leader_repr:
  assumes st: "srv_store s = Some st" "repr h (occ_store st)" and c: "LeaderUpcall V now req s = Inr (rep, r, s')"
    and f: "fit_all fits h (written (Leader now req) s)"
  shows "\<exists>st'. srv_store s' = Some st' \<and> repr (h @ written (Leader now req) s) (occ_store st')"
proof (cases "req_op req = OP_COMMIT")
  case True
  let ?ws = "writeSet (prepared_txn (req_txnid req) st)"
  have "\<exists>r' st'. (OCC_Commit V (req_txnid req) (req_commit req) Reply_default st = Inr (r', st') \<or>
      OCC_CommitSP V (req_txnid req) (req_commit req) (versioned_keys (req_version req)) Reply_default st = Inr (r', st')) \<and> srv_store s' = Some st'"
    using c True st(1) by (cases "stored_procedure s") (auto simp: LeaderUpcall_def with_store_def rbind_Inr_iff)
  then obtain r' st' where c': "OCC_Commit V (req_txnid req) (req_commit req) Reply_default st = Inr (r', st') \<or>
      OCC_CommitSP V (req_txnid req) (req_commit req) (versioned_keys (req_version req)) Reply_default st = Inr (r', st')" "srv_store s' = Some st'"
    by blast
  have "repr (if ?ws = [] then h else h @ [?ws]) (occ_store st')"
    using f True st(1) by (intro commit_repr [OF st(2) refl _ c'(1)]) simp
  then show ?thesis using c'(2) True st(1) by auto
next
  case False
  then have w: "written (Leader now req) s = []" by simp
  have "\<exists>st'. srv_store s' = Some st' \<and> occ_store st' = occ_store st"
    using c False st(1) by (cases "req_op req") (auto simp: LeaderUpcall_def with_store_def OCC_Prepare_def OCC_Abort_def Let_def split: if_splits)
  then show ?thesis using st(2) unfolding w by auto
qed

lemma unlogged_repr:
  assumes st: "srv_store s = Some st" "repr h (occ_store st)" and c: "UnloggedUpcall V req s = Inr (r, s')"
  shows "\<exists>st'. srv_store s' = Some st' \<and> repr h (occ_store st')"
proof -
  have d: "repr h b" if "vs_GetDigest V r0 (occ_store st) = Inr (ok, r1, b)" for r0 ok r1 b using other_keep(1) [OF st(2) that] .
  note simps = UnloggedUpcall_def with_store_def answer_def rbind_Inr_iff st(1)
  consider "req_op req = OP_BATCH_GET" | "req_op req = OP_VERIFY_GET" | "req_op req = OP_RANGE" | "req_op req = OP_AUDIT"
    | "req_op req \<notin> {OP_BATCH_GET, OP_VERIFY_GET, OP_RANGE, OP_AUDIT}" by blast
  then show ?thesis
  proof cases
    case 1
    then show ?thesis using c reads_keep [OF d] by (auto simp: simps OCC_BatchGet_def)
  next
    case 2
    then show ?thesis using c other_keep(4) [OF st(2)] by (auto simp: simps OCC_GetProof_def)
  next
    case 3
    then show ?thesis using c other_keep(3) [OF d] by (auto simp: simps OCC_GetRange_def)
  next
    case 4
    then show ?thesis using c other_keep(5) [OF d] by (auto simp: simps OCC_GetAudit_def)
  next
    case 5
    then show ?thesis using c st by (auto simp: UnloggedUpcall_def)
  qed
qed

lemma call_repr:
  assumes st: "srv_store s = Some st" "repr h (occ_store st)" and c: "srv_call V c s = Inr s'" and ok: "load_ok c" "fit_all fits h (written c s)"
  shows "\<exists>st'. srv_store s' = Some st' \<and> repr (h @ written c s) (occ_store st')"
proof (cases c)
  case (Leader now req)
  then show ?thesis using leader_repr [OF st, of now req] c ok(2) by (auto simp: rbind_Inr_iff)
next
  case (Unlogged req)
  then show ?thesis using unlogged_repr [OF st] c by (auto simp: rbind_Inr_iff)
next
  case (Loading keys vals t)
  let ?ws = "zip keys vals"
  have kv: "map fst ?ws = keys" "map snd ?ws = vals" using ok(1) Loading by simp_all
  obtain ro b' where b': "vs_put V (map fst ?ws) (map snd ?ws) t None (occ_store st) = Inr (ro, b')" "srv_store s' = Some (st\<lparr>occ_store := b'\<rparr>)"
    using c st(1) unfolding kv by (auto simp: Loading Server_Load_def with_store_def OCC_Load_def rbind_Inr_iff)
  have "repr (if ?ws = [] then h else h @ [?ws]) b'" using ok(2) Loading by (intro put_any [OF st(2) _ b'(1)]) auto
  then show ?thesis using b'(2) Loading by auto
qed

lemma run_repr:
  assumes "srv_store s = Some st" "repr h (occ_store st)" "srv_run V cs s = Inr s'" "\<forall>c\<in>set cs. load_ok c" "fit_all fits h (batches V cs s)"
  shows "\<exists>st'. srv_store s' = Some st' \<and> repr (h @ batches V cs s) (occ_store st')"
  using assms
proof (induction cs arbitrary: s st h)
  case (Cons c cs)
  obtain s1 where s1: "srv_call V c s = Inr s1" "srv_run V cs s1 = Inr s'" using Cons.prems(3) by (auto simp: rbind_Inr_iff)
  have f: "fit_all fits h (written c s)" "fit_all fits (h @ written c s) (batches V cs s1)"
    using Cons.prems(5) s1(1) by (simp_all add: fit_all_append)
  obtain st1 where "srv_store s1 = Some st1" "repr (h @ written c s) (occ_store st1)"
    using call_repr [OF Cons.prems(1,2) s1(1) _ f(1)] Cons.prems(4) by auto
  then show ?case using Cons.IH [OF _ _ s1(2) _ f(2)] Cons.prems(4) s1(1) by simp
qed auto

lemma reads_latest:
  assumes "srv_store s = Some st" "repr h (occ_store st)" "req_op req = OP_BATCH_GET" "vals Reply_default = []"
  shows "\<exists>r s'. UnloggedUpcall V req s = Inr (r, s') \<and> rep_status r = REPLY_OK \<and> vals r = found h (req_batchget req) \<and> checks r"
proof -
  obtain r1 b1 where d: "vs_GetDigest V Reply_default (occ_store st) = Inr (True, r1, b1)" "vals r1 = []"
    using digest_ok [OF assms(2), of Reply_default] assms(4) by auto
  obtain r2 b2 where "vs_BatchGet V (req_batchget req) r1 b1 = Inr (True, r2, b2)" "vals r2 = found h (req_batchget req)" "checks r2"
    using reads [OF other_keep(1) [OF assms(2) d(1)], of "req_batchget req" r1] d(2) by auto
  then show ?thesis using d assms by (simp add: UnloggedUpcall_def with_store_def OCC_BatchGet_def answer_def status_vals reply_codes)
qed

end

section \<open>QLDB keeps the contract\<close>

text \<open>The check of a proof at the client (\<open>BatchGetCallback\<close> and others in \<open>shardclient.cc\<close>).\<close>

definition prover :: "QLDBProof \<Rightarrow> QLProofResult" where
  "prover p = \<lparr> pr_data = \<lparr> data_key = qp_key p, data_val = qp_value p \<rparr>, pr_addr = \<lparr> ledger_name = ''test'', seq_no = qp_blockno p \<rparr>,
     pr_meta = \<lparr> doc_seq = qp_doc_seq p, version = qp_version p, md_time = qp_time p \<rparr>, pr_proof = qp_hashes p, pr_pos = qp_pos p \<rparr>"

text \<open>Where the latest document of a key stands in the ledger.\<close>

definition located :: "string \<Rightarrow> ledger \<Rightarrow> bool" where
  "located name L \<longleftrightarrow> (\<forall>k doc. l_latest L k = Some doc \<longrightarrow>
     seq_no (doc_addr doc) < length (l_blocks L) \<and> doc_seq (doc_meta doc) < length (b_docs (l_blocks L ! seq_no (doc_addr doc))) \<and>
     b_docs (l_blocks L ! seq_no (doc_addr doc)) ! doc_seq (doc_meta doc) = doc \<and> data_key (doc_data doc) = k \<and> ledger_name (doc_addr doc) = name)"

lemma new_docs_nth_eq:
  "j < length kvs \<Longrightarrow> new_docs name n now m i kvs ! j =
    \<lparr>doc_addr = \<lparr>ledger_name = name, seq_no = n\<rparr>, doc_data = \<lparr>data_key = fst (kvs ! j), data_val = snd (kvs ! j)\<rparr>,
     doc_meta = \<lparr>doc_seq = i + j, version = next_version m (fst (kvs ! j)), md_time = now\<rparr>\<rparr>"
proof (induction kvs arbitrary: i j)
  case (Cons kv kvs)
  then show ?case by (cases kv; cases j) auto
qed simp

lemma located_set: "located name L \<Longrightarrow> located name (ledger_set E name r L)"
proof -
  assume L: "located name L"
  obtain now junk kvs where r: "r = (now, junk, kvs)" by (cases r)
  let ?docs = "new_docs name (length (l_blocks L)) now (l_latest L) 0 kvs"
  have new: "\<exists>j<length kvs. k = fst (kvs ! j) \<and> doc = ?docs ! j" if "map_of (rev (zip (map fst kvs) ?docs)) k = Some doc" for k doc
  proof -
    have "(k, doc) \<in> set (zip (map fst kvs) ?docs)" using that by (metis map_of_SomeD set_rev)
    then show ?thesis by (auto simp: set_zip)
  qed
  show ?thesis
    unfolding located_def
  proof (intro allI impI)
    fix k doc assume "l_latest (ledger_set E name r L) k = Some doc"
    then consider j where "j < length kvs" "k = fst (kvs ! j)" "doc = ?docs ! j" | "l_latest L k = Some doc"
      using new [of k doc] by (auto simp: ledger_set_def r Let_def map_add_Some_iff)
    then show "seq_no (doc_addr doc) < length (l_blocks (ledger_set E name r L)) \<and>
      doc_seq (doc_meta doc) < length (b_docs (l_blocks (ledger_set E name r L) ! seq_no (doc_addr doc))) \<and>
      b_docs (l_blocks (ledger_set E name r L) ! seq_no (doc_addr doc)) ! doc_seq (doc_meta doc) = doc \<and>
      data_key (doc_data doc) = k \<and> ledger_name (doc_addr doc) = name"
      by cases (use L in \<open>auto simp: located_def ledger_set_def r Let_def nth_append new_docs_nth_eq less_Suc_eq\<close>)
  qed
qed

definition values_in :: "ledger \<Rightarrow> string \<rightharpoonup> string" where
  "values_in L k = map_option (\<lambda>doc. data_val (doc_data doc)) (l_latest L k)"

lemma values_set: "values_in (ledger_set E name (now, junk, kvs) L) = values_in L ++ map_of (rev kvs)"
proof -
  let ?docs = "new_docs name (length (l_blocks L)) now (l_latest L) 0 kvs" and ?f = "\<lambda>doc. data_val (doc_data doc)"
  have "map (\<lambda>(k, doc). (k, ?f doc)) (zip (map fst kvs) ?docs) = kvs"
    by (rule nth_equalityI) (auto simp: new_docs_nth_eq)
  then have "map_of (rev kvs) = map_of (map (\<lambda>(k, doc). (k, ?f doc)) (rev (zip (map fst kvs) ?docs)))" by (metis rev_map)
  then have "map_of (rev kvs) k = map_option ?f (map_of (rev (zip (map fst kvs) ?docs)) k)" for k by (simp add: map_of_map)
  then show ?thesis by (auto simp: fun_eq_iff values_in_def ledger_set_def Let_def map_add_def split: option.splits)
qed

lemma latest_snoc: "latest (h @ [kvs]) = latest h ++ map_of (rev kvs)"
  by (simp add: latest_def)

lemma ledger_of_latest:
  "located name (ledger_of E name rs) \<and> values_in (ledger_of E name rs) = latest (map (snd \<circ> snd) rs)"
proof (induction rs rule: rev_induct)
  case Nil
  show ?case by (simp add: ledger_of_def empty_ledger_def located_def latest_def values_in_def fun_eq_iff)
next
  case (snoc r rs)
  obtain now junk kvs where r: "r = (now, junk, kvs)" by (cases r)
  then show ?case using snoc values_set [of E name now junk kvs "ledger_of E name rs"] located_set [of name _ E r]
    by (simp add: ledger_of_def latest_snoc)
qed

lemma ql_inv_block_read:
  assumes "ql_inv E C K N q name L"
  shows "ql_inv E C K N (q\<lparr>q_db := snd (DB_Get_chunk E (q_db q) (block_key name b))\<rparr>) name L"
proof -
  let ?d = "q_db q"
  define d' where "d' = snd (DB_Get_chunk E ?d (block_key name b))"
  have m: "db_map E d' = db_map E ?d" by (simp add: d'_def DB_Get_chunk_def Let_def split: option.splits)
  have c: "m_cache d' x = m_cache ?d x \<or> m_cache d' x = Some (db_map E ?d x)" for x
    by (auto simp: d'_def DB_Get_chunk_def Let_def split: option.splits)
  have o: "x \<noteq> block_key name b \<Longrightarrow> m_cache d' x = m_cache ?d x" for x
    by (auto simp: d'_def DB_Get_chunk_def Let_def split: option.splits)
  have nm: "name_ok name" and I: "bt_prefix (q_indexed q) = ''COMMITTED_''" "bt_prefix (q_history q) = ''HISTORY_''"
    using assms by (simp_all add: ql_inv_def)
  have "bt_prefix (q_indexed q) @ s \<noteq> block_key name b" "bt_prefix (q_history q) @ s \<noteq> block_key name b" for s
    using tree_keys [OF nm ledger_keys_mem(3), of _ b s] I by metis+
  then have "tree_holds E C K N (q_indexed q) d' (l_latest L)" "tree_holds E C K N (q_history q) d' (l_history L)"
    using assms m o by (auto simp: ql_inv_def intro: tree_holds_frame [of _ _ _ _ _ ?d])
  moreover have "block_stored E (db_map E d') (m_cache d') name n x" if "block_stored E (db_map E ?d) (m_cache ?d) name n x" for n x
    using that c [of "block_key name n"] by (auto simp: block_stored_def m)
  then have "ledger_stored E (db_map E d') (m_cache d') name (l_blocks L)" using assms by (auto simp: ql_inv_def ledger_stored_def m)
  ultimately show ?thesis using assms by (simp add: ql_inv_def d'_def)
qed

lemma QLDB_getProof_keeps:
  assumes "ql_inv E C K N q name L" "QLDB_getProof E q name tip b i = Some (p, q')"
  shows "ql_inv E C K N q' name L"
proof -
  have "q' = q \<or> q' = q\<lparr>q_db := snd (DB_Get_chunk E (q_db q) (block_key name b))\<rparr>"
    using assms(2) by (auto simp: QLDB_getProof_def Let_def split: if_splits prod.splits)
  then show ?thesis using assms(1) ql_inv_block_read by blast
qed

text \<open>The proof of the latest document of a key.\<close>

lemma qldb_prove_latest:
  assumes E: "ext_ok E" and I: "ql_inv E C K N q ''test'' L" and loc: "located ''test'' L" and k: "l_latest L key = Some doc"
  shows "\<exists>p q'. qldb_prove E (length (l_blocks L) - 1) key (doc_chunk doc) r q = Inr (r\<lparr>rep_qproof := rep_qproof r @ [p]\<rparr>, q') \<and>
    ql_inv E C K N q' ''test'' L \<and> qp_key p = key \<and> qp_value p = data_val (doc_data doc) \<and>
    QLProofResult_Verify E (prover p) (Some (tree_root E (map (block_root E) (l_blocks L)))) = Inr True"
proof -
  have at: "seq_no (doc_addr doc) < length (l_blocks L)" "doc_seq (doc_meta doc) < length (b_docs (l_blocks L ! seq_no (doc_addr doc)))"
    "b_docs (l_blocks L ! seq_no (doc_addr doc)) ! doc_seq (doc_meta doc) = doc" "data_key (doc_data doc) = key" "ledger_name (doc_addr doc) = ''test''"
    using loc k by (auto simp: located_def)
  have dc: "Document_ok doc" using I k by (simp add: ql_inv_def)
  have "doc_chunk doc = Some (head (doc_chunk doc) @ [])" using doc_bytes_chunk(1) [of doc] by (simp add: head_def)
  then have doc: "Document_of (doc_chunk doc) = doc" using Document_of_Encode [OF dc, of "[]"] by metis
  have ne: "\<not> Chunk_empty (doc_chunk doc)" by (simp add: Chunk_empty_def doc_chunk_def Document_Encode_def Chunk_new_def head_def kMetaLength_def)
  obtain p q' where p: "QLDB_getProof E q ''test'' (length (l_blocks L) - 1) (seq_no (doc_addr doc)) (doc_seq (doc_meta doc)) = Some (Some p, q')"
      "\<lparr>doc_addr = pr_addr p, doc_data = pr_data p, doc_meta = pr_meta p\<rparr> = doc"
      "QLProofResult_Verify E p (Some (tree_root E (map (block_root E) (l_blocks L)))) = Inr True"
    using QLDB_getProof_inv [OF E I at(1,2)] at(3) by auto
  have "prover (qldb_proof key p) = p" using p(2) at(4,5) by (auto simp: prover_def qldb_proof_def)
  moreover have "data_val (pr_data p) = data_val (doc_data doc)" using p(2) by auto
  ultimately show ?thesis using p(1,3) QLDB_getProof_keeps [OF I p(1)] ne doc
    by (intro exI [of _ "qldb_proof key p"] exI [of _ q']) (simp add: qldb_prove_def qldb_proof_def)
qed

lemma qldb_batch_latest:
  assumes E: "ext_ok E" and loc: "located ''test'' L" and N: "N < 2 ^ 32"
  shows "ql_inv E C K N q ''test'' L \<Longrightarrow>
    \<exists>ps q'. qldb_batch E (length (l_blocks L) - 1) keys r q = Inr (r\<lparr>rep_qproof := rep_qproof r @ ps\<rparr>, q') \<and> ql_inv E C K N q' ''test'' L \<and>
      map (\<lambda>p. (qp_key p, qp_value p)) ps = map (\<lambda>k. (k, the (values_in L k))) (filter (\<lambda>k. values_in L k \<noteq> None) keys) \<and>
      (\<forall>p\<in>set ps. QLProofResult_Verify E (prover p) (Some (tree_root E (map (block_root E) (l_blocks L)))) = Inr True)"
proof (induction keys arbitrary: r q)
  case (Cons key keys)
  obtain d1 where d1: "GetCommitted E q key = Some (case l_latest L key of None \<Rightarrow> None | Some doc \<Rightarrow> doc_chunk doc, q\<lparr>q_db := d1\<rparr>)"
      "ql_inv E C K N (q\<lparr>q_db := d1\<rparr>) ''test'' L"
    using GetCommitted_inv [OF Cons.prems N] by blast
  show ?case
  proof (cases "l_latest L key")
    case None
    then show ?thesis using Cons.IH [OF d1(2), of r] d1(1) by (simp add: Chunk_empty_def values_in_def)
  next
    case (Some doc)
    obtain p q2 where p: "qldb_prove E (length (l_blocks L) - 1) key (doc_chunk doc) r (q\<lparr>q_db := d1\<rparr>) = Inr (r\<lparr>rep_qproof := rep_qproof r @ [p]\<rparr>, q2)"
        "ql_inv E C K N q2 ''test'' L" "qp_key p = key" "qp_value p = data_val (doc_data doc)"
        "QLProofResult_Verify E (prover p) (Some (tree_root E (map (block_root E) (l_blocks L)))) = Inr True"
      using qldb_prove_latest [OF E d1(2) loc Some] by blast
    have ne: "\<not> Chunk_empty (doc_chunk doc)" using p(1) by (auto simp: qldb_prove_def)
    obtain ps q3 where ps: "qldb_batch E (length (l_blocks L) - 1) keys (r\<lparr>rep_qproof := rep_qproof r @ [p]\<rparr>) q2 =
          Inr (r\<lparr>rep_qproof := rep_qproof r @ p # ps\<rparr>, q3)" "ql_inv E C K N q3 ''test'' L"
        "map (\<lambda>p. (qp_key p, qp_value p)) ps = map (\<lambda>k. (k, the (values_in L k))) (filter (\<lambda>k. values_in L k \<noteq> None) keys)"
        "\<forall>p\<in>set ps. QLProofResult_Verify E (prover p) (Some (tree_root E (map (block_root E) (l_blocks L)))) = Inr True"
      using Cons.IH [OF p(2), of "r\<lparr>rep_qproof := rep_qproof r @ [p]\<rparr>"] by auto
    have "qldb_batch E (length (l_blocks L) - 1) (key # keys) r q = Inr (r\<lparr>rep_qproof := rep_qproof r @ p # ps\<rparr>, q3)"
      using d1(1) p(1) ps(1) ne Some by simp
    moreover have "map (\<lambda>p. (qp_key p, qp_value p)) (p # ps) = map (\<lambda>k. (k, the (values_in L k))) (filter (\<lambda>k. values_in L k \<noteq> None) (key # keys))"
      using p(3,4) ps(3) Some by (simp add: values_in_def)
    ultimately show ?thesis using ps(2,4) p(5) by (intro exI [of _ "p # ps"] exI [of _ q3]) simp
  qed
qed simp

text \<open>The states of a QLDB store after the batches \<open>h\<close>, for keys and values of up to about \<open>K\<close> bytes.\<close>

definition qldb_fits :: "nat \<Rightarrow> (string \<times> string) list list \<Rightarrow> (string \<times> string) list \<Rightarrow> bool" where
  "qldb_fits K h kvs \<longleftrightarrow> request_ok K ''test'' (0, replicate 21 (CHR ''x''), kvs) \<and> (\<Sum>b\<leftarrow>h. length b) + length kvs < 2 ^ 32"

definition clock_ok :: "(nat \<Rightarrow> nat \<times> string) \<Rightarrow> bool" where
  "clock_ok clock \<longleftrightarrow> (\<forall>n. fst (clock n) < 2 ^ 64 \<and> length (snd (clock n)) = 21)"

definition qldb_repr :: "'s ext \<Rightarrow> BPlusConfig \<Rightarrow> nat \<Rightarrow> (nat \<Rightarrow> nat \<times> string) \<Rightarrow> (string \<times> string) list list \<Rightarrow> 's qldb_state \<Rightarrow> bool" where
  "qldb_repr E C K clock h s \<longleftrightarrow> ext_ok E \<and> sizes_ok C ''COMMITTED_'' K \<and> sizes_ok C ''HISTORY_'' K \<and> clock_ok clock \<and>
     (\<exists>rs. map (snd \<circ> snd) rs = h \<and> entries_of rs < 2 ^ 32 \<and> ql_inv E C K (entries_of rs) (fst s) ''test'' (ledger_of E ''test'' rs))"

lemma qldb_put_repr:
  assumes "qldb_repr E C K clock h s" "kvs \<noteq> []" "qldb_fits K h kvs"
  shows "\<exists>s'. qldb_put E C clock (map fst kvs) (map snd kvs) t None s = Inr (None, s') \<and> qldb_repr E C K clock (h @ [kvs]) s'"
proof -
  obtain q k where s: "s = (q, k)" by (cases s)
  obtain rs where E: "ext_ok E" "sizes_ok C ''COMMITTED_'' K" "sizes_ok C ''HISTORY_'' K" "clock_ok clock"
    and rs: "map (snd \<circ> snd) rs = h" "ql_inv E C K (entries_of rs) q ''test'' (ledger_of E ''test'' rs)"
    using assms(1) by (auto simp: qldb_repr_def s)
  let ?r = "(fst (clock k), snd (clock k), kvs)"
  have "(\<Sum>b\<leftarrow>h. length b) = entries_of rs" unfolding rs(1) [symmetric] by (simp add: entries_of_def comp_def)
  then have N: "entries_of rs + length kvs < 2 ^ 32" using assms(3) by (simp add: qldb_fits_def)
  have "request_ok K ''test'' ?r" using assms(3) E(4) by (simp add: qldb_fits_def request_ok_def clock_ok_def)
  then obtain q' where q': "QLDB_Set E C (fst (clock k)) (snd (clock k)) q ''test'' (map fst kvs) (map snd kvs) = Some (Inr (True, q'))"
      "ql_inv E C K (entries_of rs + length kvs) q' ''test'' (ledger_set E ''test'' ?r (ledger_of E ''test'' rs))"
    using QLDB_Set_inv [OF E(1-3) rs(2) _ N] by blast
  have "ledger_set E ''test'' ?r (ledger_of E ''test'' rs) = ledger_of E ''test'' (rs @ [?r])" "entries_of (rs @ [?r]) = entries_of rs + length kvs"
    by (simp_all add: ledger_of_def entries_of_def)
  then have "qldb_repr E C K clock (h @ [kvs]) (q', k + 1)"
    unfolding qldb_repr_def using E q'(2) N rs(1) by (intro conjI exI [of _ "rs @ [?r]"]) simp_all
  then show ?thesis using q'(1) by (simp add: qldb_put_def s)
qed

lemma qldb_reads_repr:
  assumes "qldb_repr E C K clock h s"
  shows "\<exists>r' s' dig. qldb_BatchGet E keys r s = Inr (True, r', s') \<and> qldb_repr E C K clock h s' \<and> dg_hash (rep_digest r') = dig \<and>
    (\<exists>ps. rep_qproof r' = rep_qproof r @ ps \<and> map (\<lambda>p. (qp_key p, qp_value p)) ps = found h keys \<and>
       (\<forall>p\<in>set ps. QLProofResult_Verify E (prover p) (FromBase32 dig) = Inr True))"
proof -
  obtain q k where s: "s = (q, k)" by (cases s)
  obtain rs where E: "ext_ok E" "sizes_ok C ''COMMITTED_'' K" "sizes_ok C ''HISTORY_'' K" "clock_ok clock"
    and rs: "map (snd \<circ> snd) rs = h" "entries_of rs < 2 ^ 32" "ql_inv E C K (entries_of rs) q ''test'' (ledger_of E ''test'' rs)"
    using assms by (auto simp: qldb_repr_def s)
  let ?L = "ledger_of E ''test'' rs"
  let ?root = "Some (tree_root E (map (block_root E) (l_blocks ?L)))"
  have loc: "located ''test'' ?L" "values_in ?L = latest h" using ledger_of_latest [of "''test''" E rs] rs(1) by simp_all
  obtain dig where dig: "QLDB_digest E q ''test'' = Inr (length (l_blocks ?L) - 1, dig)" "l_blocks ?L \<noteq> [] \<Longrightarrow> dig = ToBase32 ?root"
  proof (cases "l_blocks ?L = []")
    case True
    then have "DB_Get_str E (q_db q) ''test'' = []" using rs(3) by (simp add: ql_inv_def ledger_stored_def DB_Get_str_def DB_Get_def)
    then show ?thesis using that True by (simp add: QLDB_digest_def Let_def)
  next
    case False
    then show ?thesis using that QLDB_digest_inv [OF rs(3,2) False] by blast
  qed
  obtain ps q' where ps: "qldb_batch E (length (l_blocks ?L) - 1) keys (set_digest (length (l_blocks ?L) - 1) dig r) q =
        Inr ((set_digest (length (l_blocks ?L) - 1) dig r)\<lparr>rep_qproof := rep_qproof r @ ps\<rparr>, q')"
      "ql_inv E C K (entries_of rs) q' ''test'' ?L" "map (\<lambda>p. (qp_key p, qp_value p)) ps = found h keys"
      "\<forall>p\<in>set ps. QLProofResult_Verify E (prover p) ?root = Inr True"
    using qldb_batch_latest [OF E(1) loc(1) rs(2,3), of keys "set_digest (length (l_blocks ?L) - 1) dig r"] unfolding loc(2)
    by (auto simp: set_digest_def found_def)
  have v: "QLProofResult_Verify E (prover p) (FromBase32 dig) = Inr True" if "p \<in> set ps" for p
  proof -
    have "found h keys \<noteq> []" using that ps(3) by auto
    then obtain k where "latest h k \<noteq> None" by (auto simp: found_def filter_empty_conv)
    then have "l_blocks ?L \<noteq> []" using loc by (auto simp: located_def fun_eq_iff values_in_def dest!: spec [of _ k])
    moreover have "hashes20 (map (block_root E) (l_blocks ?L))" using rs(3) ledger_roots [OF E(1)] unfolding ql_inv_def by blast
    ultimately show ?thesis using dig(2) ps(4) that hashes20_root [OF E(1), of "map (block_root E) (l_blocks ?L)"] by (simp add: FromBase32_ToBase32)
  qed
  then show ?thesis using E rs dig(1) ps by (auto simp: qldb_BatchGet_def s qldb_repr_def set_digest_def)
qed

lemma GetVersion_inv:
  assumes I: "ql_inv E C K N q name L" and N: "N < 2 ^ 32" and g: "GetVersion E q key v = Some (c, q')"
  shows "ql_inv E C K N q' name L"
proof -
  have H: "tree_holds E C K N (q_history q) (q_db q) (l_history L)" "tree_holds E C K N (q_indexed q) (q_db q) (l_latest L)"
      "bt_prefix (q_history q) = ''HISTORY_''" "bt_prefix (q_indexed q) = ''COMMITTED_''" "name_ok name"
    using I by (simp_all add: ql_inv_def)
  obtain s d' where d: "QLBTree_Get E (q_history q) (key @ ''|'' @ to_string v) (q_db q) = Some (s, d')" "q' = q\<lparr>q_db := d'\<rparr>"
      "tree_holds E C K N (q_history q) d' (l_history L)" "outside E ''HISTORY_'' (q_db q) d'"
    using Get_holds [OF H(1) N, of "key @ ''|'' @ to_string v"] g H(3) by (auto simp: GetVersion_def)
  have "tree_holds E C K N (q_indexed q) d' (l_latest L)" using H(4) by (intro tree_holds_outside [OF H(2) d(4)]) simp
  moreover have "ledger_stored E (db_map E d') (m_cache d') name (l_blocks L)"
    using I by (intro ledger_stored_outside [OF _ H(5) d(4)]) (simp_all add: ql_inv_def)
  ultimately show ?thesis using I d(2,3) by (simp add: ql_inv_def)
qed

lemma history_loop_inv: "history_loop E key ver n i q = Some (cs, q') \<Longrightarrow> ql_inv E C K N q name L \<Longrightarrow> N < 2 ^ 32 \<Longrightarrow> ql_inv E C K N q' name L"
  by (induction E key ver n i q arbitrary: cs q' rule: history_loop.induct) (auto split: if_splits option.splits bind_splits dest: GetVersion_inv)

lemma GetHistory_inv:
  assumes "GetHistory E q key n = Some (cs, q')" "ql_inv E C K N q name L" "N < 2 ^ 32"
  shows "ql_inv E C K N q' name L"
proof -
  obtain d where d: "GetCommitted E q key = Some (case l_latest L key of None \<Rightarrow> None | Some doc \<Rightarrow> doc_chunk doc, q\<lparr>q_db := d\<rparr>)"
      "ql_inv E C K N (q\<lparr>q_db := d\<rparr>) name L"
    using GetCommitted_inv [OF assms(2,3)] by blast
  then show ?thesis using assms(1) history_loop_inv [OF _ d(2) assms(3)] by (auto simp: GetHistory_def Let_def split: if_splits)
qed

lemma qldb_prove_inv: "qldb_prove E tip key c r q = Inr (r', q') \<Longrightarrow> ql_inv E C K N q ''test'' L \<Longrightarrow> ql_inv E C K N q' ''test'' L"
  by (auto simp: qldb_prove_def Let_def rbind_Inr_iff of_option_def split: if_splits option.splits dest: QLDB_getProof_keeps)

lemma qldb_prove_all_inv: "qldb_prove_all E tip kcs r q = Inr (r', q') \<Longrightarrow> ql_inv E C K N q ''test'' L \<Longrightarrow> ql_inv E C K N q' ''test'' L"
  by (induction E tip kcs r q rule: qldb_prove_all.induct) (auto simp: rbind_Inr_iff dest: qldb_prove_inv)

lemma qldb_versions_inv:
  assumes "qldb_versions E tip vks r q = Inr (r', q')" "ql_inv E C K N q ''test'' L" and N: "N < 2 ^ 32"
  shows "ql_inv E C K N q' ''test'' L"
  using assms(1,2)
  by (induction E tip vks r q rule: qldb_versions.induct)
    (auto simp: rbind_Inr_iff of_option_def split: option.splits dest: GetHistory_inv [OF _ _ N] qldb_prove_all_inv)

text \<open>A range query only reads nodes of the tree.\<close>

lemma TryRange_reads:
  assumes "TryRange E p start en pending res d = Some r"
  shows "(\<forall>k. Inr k \<in> set pending \<longrightarrow> (\<exists>s. k = p @ s)) \<longrightarrow> coherent E p d \<longrightarrow>
    db_map E (snd r) = db_map E d \<and> coherent E p (snd r) \<and> outside E p d (snd r)"
proof (rule TryRange.raw_induct [where P = "\<lambda>E p start en pending res d r.
    (\<forall>k. Inr k \<in> set pending \<longrightarrow> (\<exists>s. k = p @ s)) \<longrightarrow> coherent E p d \<longrightarrow>
    db_map E (snd r) = db_map E d \<and> coherent E p (snd r) \<and> outside E p d (snd r)"], goal_cases)
  case (1 TryRange E p start en pending res d r)
  note IH = 1(1) and eq = 1(2)
  show ?case
  proof (intro impI)
    assume ks: "\<forall>k. Inr k \<in> set pending \<longrightarrow> (\<exists>s. k = p @ s)" and coh: "coherent E p d"
    consider "pending = []" | node rest where "pending = Inl node # rest" | k rest where "pending = Inr k # rest"
      by (metis list.exhaust sum.exhaust)
    then show "db_map E (snd r) = db_map E d \<and> coherent E p (snd r) \<and> outside E p d (snd r)"
    proof cases
      case 1
      then show ?thesis using eq coh by auto
    next
      case (2 node rest)
      then show ?thesis using eq IH [of E p start en _ _ d r] coh ks child_key_prefix
        by (fastforce simp: Let_def split: if_splits)
    next
      case (3 k rest)
      then obtain s where s: "k = p @ s" using ks by auto
      obtain d' where d': "DB_Get_chunk E d (p @ s) = (db_map E d (p @ s), d')" "db_map E d' = db_map E d" "coherent E p d'"
        using DB_Get_chunk_coherent [OF coh] by blast
      have "outside E p d d'" using outside_Get [of E p d s] d'(1) by simp
      then show ?thesis using eq IH [of E p start en _ _ d' r] d' ks 3 s by (auto intro: outside_trans)
    qed
  qed
qed (rule assms)

lemma tree_holds_reads:
  assumes "tree_holds E C K N t d M" "db_map E d' = db_map E d" "coherent E (bt_prefix t) d'"
  shows "tree_holds E C K N t d' M"
  using assms by (auto simp: tree_holds_def tree_inv_def root_repr_def)

lemma QLDB_Range_inv:
  assumes I: "ql_inv E C K N q name L" and r: "QLDB_Range E q a z = Some (m, q')"
  shows "ql_inv E C K N q' name L"
proof -
  have H: "tree_holds E C K N (q_history q) (q_db q) (l_history L)" "tree_holds E C K N (q_indexed q) (q_db q) (l_latest L)"
      "bt_prefix (q_history q) = ''HISTORY_''" "bt_prefix (q_indexed q) = ''COMMITTED_''" "name_ok name"
    using I by (simp_all add: ql_inv_def)
  obtain d' where d: "TryRange E ''COMMITTED_'' a z [Inl (bt_root (q_indexed q))] Map.empty (q_db q) = Some (m, d')" "q' = q\<lparr>q_db := d'\<rparr>"
    using r H(4) by (auto simp: QLDB_Range_def QLBTree_Range_def)
  have "coherent E ''COMMITTED_'' (q_db q)" using H(2,4) by (auto simp: tree_holds_def tree_inv_def root_repr_def)
  then have d': "db_map E d' = db_map E (q_db q)" "coherent E ''COMMITTED_'' d'" "outside E ''COMMITTED_'' (q_db q) d'"
    using TryRange_reads [OF d(1)] by simp_all
  have "tree_holds E C K N (q_indexed q) d' (l_latest L)" using tree_holds_reads [OF H(2) d'(1)] d'(2) H(4) by simp
  moreover have "tree_holds E C K N (q_history q) d' (l_history L)" using H(3) by (intro tree_holds_outside [OF H(1) d'(3)]) simp
  moreover have "ledger_stored E (db_map E d') (m_cache d') name (l_blocks L)"
    using I by (intro ledger_stored_outside [OF _ H(5) d'(3)]) (simp_all add: ql_inv_def)
  ultimately show ?thesis using I d(2) by (simp add: ql_inv_def)
qed

lemma qldb_repr_step:
  assumes "qldb_repr E C K clock h (q, k)" "\<And>N L. N < 2 ^ 32 \<Longrightarrow> ql_inv E C K N q ''test'' L \<Longrightarrow> ql_inv E C K N q' ''test'' L"
  shows "qldb_repr E C K clock h (q', k')"
  using assms by (auto simp: qldb_repr_def)

lemma qldb_keeps:
  assumes "qldb_repr E C K clock h s" "qldb_GetNVersions E vks r s = Inr (ok, r', s') \<or> qldb_GetRange E x y r s = Inr (ok, r', s')"
  shows "qldb_repr E C K clock h s'"
proof -
  obtain q k where s: "s = (q, k)" by (cases s)
  from assms(2) show ?thesis
  proof
    assume "qldb_GetNVersions E vks r s = Inr (ok, r', s')"
    then obtain tip q' where q': "qldb_versions E tip vks r q = Inr (r', q')" "s' = (q', k)"
      by (auto simp: qldb_GetNVersions_def s rbind_Inr_iff)
    show ?thesis unfolding q'(2) by (rule qldb_repr_step [OF assms(1) [unfolded s]]) (rule qldb_versions_inv [OF q'(1)])
  next
    assume "qldb_GetRange E x y r s = Inr (ok, r', s')"
    then obtain tip m r1 kcs q1 q' where q': "QLDB_Range E q x y = Some (m, q1)" "qldb_prove_all E tip kcs r1 q1 = Inr (r', q')" "s' = (q', k)"
      by (auto simp: qldb_GetRange_def s rbind_Inr_iff of_option_def split: option.splits)
    show ?thesis unfolding q'(3)
      by (rule qldb_repr_step [OF assms(1) [unfolded s]]) (rule qldb_prove_all_inv [OF q'(2) QLDB_Range_inv [OF _ q'(1)]])
  qed
qed

lemma qldb_put_any_reply:
  assumes "qldb_repr E C K clock h s" "kvs \<noteq> []" "qldb_fits K h kvs" "qldb_put E C clock (map fst kvs) (map snd kvs) t ro s = Inr (ro', s')"
  shows "qldb_repr E C K clock (h @ [kvs]) s'"
proof -
  obtain s1 where s1: "qldb_put E C clock (map fst kvs) (map snd kvs) t None s = Inr (None, s1)" "qldb_repr E C K clock (h @ [kvs]) s1"
    using qldb_put_repr [OF assms(1-3)] by blast
  then have "s' = s1 \<or> (\<exists>r ok r'. qldb_BatchGet E (map fst kvs) r s1 = Inr (ok, r', s'))"
    using assms(4) by (auto simp: qldb_put_def rbind_Inr_iff split: option.splits prod.splits)
  then show ?thesis
  proof (elim disjE exE)
    fix r ok r' assume "qldb_BatchGet E (map fst kvs) r s1 = Inr (ok, r', s')"
    then show ?thesis using qldb_reads_repr [OF s1(2), of "map fst kvs" r] by auto
  qed (simp add: s1(2))
qed

definition qldb_checks :: "'s ext \<Rightarrow> Reply \<Rightarrow> bool" where
  "qldb_checks E r \<longleftrightarrow> (\<forall>p\<in>set (rep_qproof r). QLProofResult_Verify E (prover p) (FromBase32 (dg_hash (rep_digest r))) = Inr True)"

definition qldb_vals :: "Reply \<Rightarrow> (string \<times> string) list" where
  "qldb_vals r = map (\<lambda>p. (qp_key p, qp_value p)) (rep_qproof r)"

interpretation qldb: ledger_store "qldb_store E C clock junk" "qldb_repr E C K clock" "qldb_fits K" qldb_vals "qldb_checks E"
  for E :: "'s ext" and C clock junk K
proof unfold_locales
  show "qldb_repr E C K clock h b'" if "qldb_repr E C K clock h b" "vs_put (qldb_store E C clock junk) [] [] t None b = Inr (ro', b')" for h b t ro' b'
    using that qldb_repr_step [of E C K clock h "fst b" "snd b" "fst b"]
    by (auto simp: qldb_store_def qldb_put_def QLDB_Set_def split: prod.splits)
  show "qldb_repr E C K clock h b'"
    if "qldb_repr E C K clock h b" "vs_GetDigest (qldb_store E C clock junk) r b = Inr (ok, r', b') \<or>
      vs_GetNVersions (qldb_store E C clock junk) vks r b = Inr (ok, r', b') \<or> vs_GetRange (qldb_store E C clock junk) x y r b = Inr (ok, r', b') \<or>
      vs_GetProof (qldb_store E C clock junk) ps r b = Inr (ok, r', b') \<or> vs_GetAudit (qldb_store E C clock junk) n r b = Inr (ok, r', b')"
    for h b r ok r' b' vks x y ps n
    using that qldb_keeps [OF that(1), of vks r ok r' b' x y] by (simp add: qldb_store_def) blast
  show "\<exists>r' b'. vs_BatchGet (qldb_store E C clock junk) keys r b = Inr (True, r', b') \<and> qldb_repr E C K clock h b' \<and>
      qldb_vals r' = qldb_vals r @ found h keys \<and> (qldb_vals r = [] \<longrightarrow> qldb_checks E r')"
    if "qldb_repr E C K clock h b" for h b keys r
    using qldb_reads_repr [OF that, of keys r] by (auto simp: qldb_store_def qldb_vals_def qldb_checks_def)
qed (auto simp: qldb_store_def set_digest_def qldb_vals_def qldb_checks_def intro: qldb_put_any_reply)

lemma qldb_open_repr:
  assumes "ext_ok E" "sizes_ok C ''COMMITTED_'' K" "sizes_ok C ''HISTORY_'' K" "clock_ok clock" "rocks_get E s = Map.empty"
  shows "qldb_repr E C K clock [] (qldb_open E s)"
proof -
  have "ql_inv E C K 0 (QLDB_new E s) ''test'' (ledger_of E ''test'' [])"
    using QLDB_new_inv [OF assms(2,3,5), of "''test''"] by (simp add: name_ok_def ledger_of_def)
  then show ?thesis using assms(1-4) by (auto simp: qldb_repr_def qldb_open_def entries_of_def)
qed

text \<open>
  C25: a transaction server over QLDB is a map with verifiable reads.  Whatever requests it has handled, a
  batch read returns, for every key ever written by a committed transaction or a load, its latest
  value, and nothing for other keys; and the client's check accepts each returned document against
  the returned digest.
\<close>

theorem qldb_server_reads:
  assumes "ext_ok E" "sizes_ok C ''COMMITTED_'' K" "sizes_ok C ''HISTORY_'' K" "clock_ok clock" "rocks_get E db = Map.empty"
    and "mode = MODE_OCC \<or> mode = MODE_SPAN_OCC" "Server_new mode skew err rnd (qldb_open E db) sp = Inr s0"
    and "srv_run (qldb_store E C clock junk) cs s0 = Inr s" "\<forall>c\<in>set cs. load_ok c"
    and "fit_all (qldb_fits K) [] (batches (qldb_store E C clock junk) cs s0)" "req_op req = OP_BATCH_GET"
  shows "\<exists>r s'. UnloggedUpcall (qldb_store E C clock junk) req s = Inr (r, s') \<and> rep_status r = REPLY_OK \<and>
    qldb_vals r = found (batches (qldb_store E C clock junk) cs s0) (req_batchget req) \<and> qldb_checks E r"
proof -
  obtain st0 where st0: "srv_store s0 = Some st0" "occ_store st0 = qldb_open E db"
    using assms(6,7) by (auto simp: Server_new_def Let_def OCCStore_new_def)
  have "qldb_repr E C K clock [] (occ_store st0)" using qldb_open_repr [OF assms(1-5)] st0(2) by simp
  then obtain st where "srv_store s = Some st" "qldb_repr E C K clock (batches (qldb_store E C clock junk) cs s0) (occ_store st)"
    using qldb.run_repr [OF st0(1) _ assms(8-10)] by auto
  then show ?thesis by (rule qldb.reads_latest [OF _ _ assms(11)]) (simp add: qldb_vals_def Reply_default_def)
qed

text \<open>Later parts of a commit only add proofs to the reply.\<close>

lemma qldb_prove_adds: "qldb_prove E tip key c r q = Inr (r', q') \<Longrightarrow> p \<in> set (rep_qproof r) \<Longrightarrow> p \<in> set (rep_qproof r')"
  by (auto simp: qldb_prove_def Let_def rbind_Inr_iff split: if_splits option.splits)

lemma qldb_batch_adds:
  assumes "qldb_batch E tip keys r q = Inr (r', q')"
  shows "(p \<in> set (rep_qproof r) \<longrightarrow> p \<in> set (rep_qproof r')) \<and> rep_digest r' = rep_digest r"
  using assms
proof (induction keys arbitrary: r q)
  case (Cons key keys)
  then obtain c q1 where q1: "of_option (GetCommitted E q key) = Inr (c, q1)" by (auto simp: rbind_Inr_iff)
  show ?case
  proof (cases "Chunk_empty c")
    case True
    then show ?thesis using Cons q1 by simp
  next
    case False
    then obtain r2 q2 where r2: "qldb_prove E tip key c r q1 = Inr (r2, q2)" "qldb_batch E tip keys r2 q2 = Inr (r', q')"
      using Cons.prems q1 by (auto simp: rbind_Inr_iff)
    have "rep_digest r2 = rep_digest r" using r2(1) by (auto simp: qldb_prove_def Let_def rbind_Inr_iff split: if_splits option.splits)
    then show ?thesis using Cons.IH [OF r2(2)] qldb_prove_adds [OF r2(1), of p] by auto
  qed
qed simp

lemma qldb_prove_all_adds: "qldb_prove_all E tip kcs r q = Inr (r', q') \<Longrightarrow> p \<in> set (rep_qproof r) \<Longrightarrow> p \<in> set (rep_qproof r')"
  by (induction E tip kcs r q rule: qldb_prove_all.induct) (auto simp: rbind_Inr_iff dest: qldb_prove_adds)

lemma qldb_versions_adds: "qldb_versions E tip vks r q = Inr (r', q') \<Longrightarrow> p \<in> set (rep_qproof r) \<Longrightarrow> p \<in> set (rep_qproof r')"
  by (induction E tip vks r q rule: qldb_versions.induct) (auto simp: rbind_Inr_iff dest: qldb_prove_all_adds)

lemma qldb_put_adds:
  assumes "qldb_put E C clock keys vals t (Some r) s = Inr (Some r', s')" "p \<in> set (rep_qproof r)"
  shows "p \<in> set (rep_qproof r')"
proof -
  obtain tip h q q' where "qldb_batch E tip keys (set_digest tip h r) q = Inr (r', q')"
    using assms(1) by (auto simp: qldb_put_def qldb_BatchGet_def rbind_Inr_iff split: prod.splits)
  then show ?thesis using qldb_batch_adds [of E tip keys "set_digest tip h r" q r' q' p] assms(2) by (simp add: set_digest_def)
qed

lemma Verify_other_digest:
  assumes "QLProofResult_Verify E p a = Inr True" "hval a \<noteq> hval b"
  shows "QLProofResult_Verify E p b = Inr False"
  using assms by (auto simp: QLProofResult_Verify_def rbind_Inr_iff Hash_eq_iff)

text \<open>
  A stored-procedure commit that reads and writes is rejected by the client.  The proofs of what the
  transaction read are made for the digest before its writes, but the reply carries the digest after
  them; if the digest has changed, the client's check of those proofs fails.
\<close>

lemma sp_commit_rejected:
  assumes "qldb_repr E C K clock h (occ_store st)" "map_of (prepared st) i = Some txn"
    and "key \<in> fst ` set (readSet txn)" "latest h key \<noteq> None"
    and "OCC_CommitSP (qldb_store E C clock junk) i t vks Reply_default st = Inr (r, st')"
    and "QLDB_digest E (fst (occ_store st)) ''test'' = Inr (tip, dig)" "hval (FromBase32 (dg_hash (rep_digest r))) \<noteq> hval (FromBase32 dig)"
  shows "\<not> qldb_checks E r"
proof -
  let ?V = "qldb_store E C clock junk" and ?r0 = "set_digest junk [] Reply_default"
  obtain r1 b1 r2 b2 r3 b3 where c: "commit_reads ?V (map fst (readSet txn)) ?r0 (occ_store st) = Inr (r1, b1)"
      "commit_versions ?V vks r1 b1 = Inr (r2, b2)" "commit_writes ?V txn t r2 b2 = Inr (r3, b3)" "r = r3"
    using assms(2,5) by (auto simp: OCC_CommitSP_def rbind_Inr_iff) (auto simp: qldb_store_def)
  have "readSet txn \<noteq> []" using assms(3) by auto
  then have r1: "qldb_BatchGet E (map fst (readSet txn)) ?r0 (occ_store st) = Inr (True, r1, b1)"
    using c(1) qldb_reads_repr [OF assms(1), of "map fst (readSet txn)" ?r0] by (auto simp: commit_reads_def qldb_store_def rbind_Inr_iff)
  obtain ps where ps: "rep_qproof r1 = ps" "map (\<lambda>p. (qp_key p, qp_value p)) ps = found h (map fst (readSet txn))"
      "\<forall>p\<in>set ps. QLProofResult_Verify E (prover p) (FromBase32 (dg_hash (rep_digest r1))) = Inr True"
    using qldb_reads_repr [OF assms(1), of "map fst (readSet txn)" ?r0] r1 by (auto simp: set_digest_def Reply_default_def)
  have "found h (map fst (readSet txn)) \<noteq> []" using assms(3,4) by (auto simp: found_def filter_empty_conv)
  then obtain p where p: "p \<in> set ps" using ps(2) by (metis list.map_disc_iff list.set_intros(1) neq_Nil_conv)
  have dig: "dg_hash (rep_digest r1) = dig"
    using r1 assms(6) by (auto simp: qldb_BatchGet_def set_digest_def rbind_Inr_iff split: prod.splits dest!: qldb_batch_adds)
  have "p \<in> set (rep_qproof r2)"
    using c(2) p ps(1) by (auto simp: commit_versions_def qldb_store_def qldb_GetNVersions_def rbind_Inr_iff split: if_splits prod.splits dest: qldb_versions_adds)
  then have "p \<in> set (rep_qproof r)"
    using c(3,4) qldb_put_adds by (fastforce simp: commit_writes_def qldb_store_def rbind_Inr_iff split: if_splits option.splits)
  moreover have "QLProofResult_Verify E (prover p) (FromBase32 (dg_hash (rep_digest r))) = Inr False"
    using Verify_other_digest [of E "prover p" "FromBase32 dig"] ps(3) p dig assms(7) by simp
  ultimately show ?thesis by (force simp: qldb_checks_def)
qed

section \<open>Example runs\<close>

definition ex_clock :: "nat \<Rightarrow> nat \<times> string" where
  "ex_clock n = (0, replicate 21 (CHR ''x''))"

abbreviation ex_qldb :: "(string \<rightharpoonup> string) qldb_state VersionedKVStore" where
  "ex_qldb \<equiv> qldb_store map_ext qldb_config ex_clock 0"

definition ex_start :: "(string \<rightharpoonup> string) qldb_state Server" where
  "ex_start = \<lparr> srv_mode = MODE_OCC, stored_procedure = True, srv_store = Some (OCCStore_new (qldb_open map_ext Map.empty)),
     timeServer = TrueTime_new 0 0 0 \<rparr>"

lemma ex_qldb_ok: "sizes_ok qldb_config ''COMMITTED_'' 100" "sizes_ok qldb_config ''HISTORY_'' 100" "clock_ok ex_clock" "rocks_get map_ext Map.empty = Map.empty"
  by (simp_all add: sizes_ok_def qldb_config_def clock_ok_def ex_clock_def map_ext_def fun_eq_iff)

lemma ex_start_new: "Server_new MODE_OCC 0 0 0 (qldb_open map_ext Map.empty) True = Inr ex_start"
  by (simp add: Server_new_def ex_start_def)

abbreviation ex_load :: "call list" where
  "ex_load \<equiv> [Loading [''a''] [''1''] Timestamp_default]"

lemma ex_loaded: "\<exists>s. srv_run ex_qldb ex_load ex_start = Inr s"
proof -
  have "qldb_fits 100 [] [(''a'', ''1'')]" by (simp add: qldb_fits_def request_ok_def)
  then obtain b where "qldb_put map_ext qldb_config ex_clock [''a''] [''1''] Timestamp_default None (qldb_open map_ext Map.empty) = Inr (None, b)"
    using qldb_put_repr [OF qldb_open_repr [OF ext_ok_map_ext ex_qldb_ok], of "[(''a'', ''1'')]" Timestamp_default] by auto
  then show ?thesis by (simp add: ex_start_def Server_Load_def with_store_def OCC_Load_def OCCStore_new_def qldb_store_def)
qed

theorem qldb_server_reads_witness:
  "\<exists>s r s'. srv_run ex_qldb ex_load ex_start = Inr s \<and>
    UnloggedUpcall ex_qldb ((Request_default OP_BATCH_GET 0)\<lparr>req_batchget := [''a'', ''b'']\<rparr>) s = Inr (r, s') \<and>
    qldb_vals r = [(''a'', ''1'')] \<and> qldb_checks map_ext r"
proof -
  let ?req = "(Request_default OP_BATCH_GET 0)\<lparr>req_batchget := [''a'', ''b'']\<rparr>"
  obtain s where s: "srv_run ex_qldb ex_load ex_start = Inr s" using ex_loaded by blast
  have b: "batches ex_qldb ex_load ex_start = [[(''a'', ''1'')]]" using s by (auto simp: rbind_def split: sum.splits)
  have "fit_all (qldb_fits 100) [] (batches ex_qldb ex_load ex_start)" unfolding b by (simp add: qldb_fits_def request_ok_def)
  from qldb_server_reads [OF ext_ok_map_ext ex_qldb_ok _ ex_start_new s _ this, of ?req]
  obtain r s' where "UnloggedUpcall ex_qldb ?req s = Inr (r, s')" "qldb_vals r = found [[(''a'', ''1'')]] [''a'', ''b'']" "qldb_checks map_ext r"
    unfolding b by (auto simp: Request_default_def)
  then show ?thesis using s by (simp add: found_def latest_def)
qed

end
