(* ===== verification/Skip_List.thy ===== *)
theory Skip_List
  imports Store
begin

text \<open>
  LedgerDB's skip list of the versions of a key (\<open>src/ledger/ledgerdb/skiplist/skiplist.cc\<close>), kept node by
  node in the store.  The first node inserted is the head for good; the others follow it in descending
  order of their keys, which are timestamps.  Shown here: whatever the random levels, \<open>find\<close> returns what
  a search through the plain list of inserted versions returns.
\<close>

section \<open>Model\<close>

record SkipNode =
  sn_key :: int
  sn_value :: string
  forward :: "int list"

definition SkipNode_new :: "int \<Rightarrow> string \<Rightarrow> nat \<Rightarrow> SkipNode" where
  "SkipNode_new k v level = \<lparr> sn_key = k, sn_value = v, forward = replicate level (-1) \<rparr>"

text \<open>\<open>find("|")\<close> and the two \<open>substr\<close>; without a bar \<open>npos + 1\<close> is 0 and both parts are the whole string.\<close>

definition cut_bar :: "string \<Rightarrow> string \<times> string" where
  "cut_bar s = (case find_char (CHR ''|'') s of None \<Rightarrow> (s, s) | Some i \<Rightarrow> (take i s, drop (i + 1) s))"

lemma find_char_bound: "find_char c s = Some i \<Longrightarrow> i < length s"
  by (induction s arbitrary: i) (auto split: if_splits)

function parse_ptrs :: "string \<Rightarrow> int list result" where
  "parse_ptrs rest = (case find_char (CHR ''|'') rest of
      None \<Rightarrow> rbind (stol rest) (\<lambda>p. Inr [p])
    | Some i \<Rightarrow> rbind (stol (take i rest)) (\<lambda>p. rbind (parse_ptrs (drop (i + 1) rest)) (\<lambda>ps. Inr (p # ps))))"
  by pat_completeness auto
termination by (relation "measure length") (auto dest: find_char_bound)

declare parse_ptrs.simps [simp del]

definition SkipNode_of :: "string \<Rightarrow> SkipNode result" where
  "SkipNode_of node = (let (k, rest) = cut_bar node; (v, rest) = cut_bar rest in
     rbind (stol k) (\<lambda>k. rbind (parse_ptrs rest) (\<lambda>ps. Inr \<lparr> sn_key = k, sn_value = v, forward = ps \<rparr>)))"

definition SkipNode_ToString :: "SkipNode \<Rightarrow> string" where
  "SkipNode_ToString n = to_string_int (sn_key n) @ ''|'' @ sn_value n @ concat (map (\<lambda>p. ''|'' @ to_string_int p) (forward n))"

text \<open>\<open>rnd v\<close>: whether the draw made at level \<open>v\<close> is below the probability of one half.\<close>

definition maxLevel :: nat where "maxLevel = 16"

function randomLevel :: "(nat \<Rightarrow> bool) \<Rightarrow> nat \<Rightarrow> nat" where
  "randomLevel rnd v = (if rnd v \<and> v < maxLevel then randomLevel rnd (v + 1) else v)"
  by pat_completeness auto
termination by (relation "measure (\<lambda>(_, v). maxLevel - v)") auto

declare randomLevel.simps [simp del]

definition nodeLevel :: "int list \<Rightarrow> nat result" where
  "nodeLevel v = (case v of [] \<Rightarrow> Inl Out_of_bounds
     | p # ps \<Rightarrow> Inr (if p = -1 then 1 else 1 + length (takeWhile (\<lambda>q. q \<noteq> -1) ps)))"

definition head_key :: "string \<Rightarrow> string" where
  "head_key prefix = prefix @ ''|head''"

definition skip_key :: "string \<Rightarrow> int \<Rightarrow> string" where
  "skip_key prefix k = prefix @ ''|'' @ to_string_int k"

text \<open>
  The inner loop of \<open>find\<close> and \<open>insert\<close>: along level \<open>i\<close> while the next key is greater.  \<open>load\<close> reads a node; the
  result is the node reached and the store key it has.
\<close>

partial_function (option) advance :: "(string \<Rightarrow> SkipNode result) \<Rightarrow> string \<Rightarrow> int \<Rightarrow> nat \<Rightarrow> string \<Rightarrow> SkipNode \<Rightarrow> (string \<times> SkipNode) result option" where
  "advance load prefix k i fullkey cur = (case vec_at (forward cur) i of Inl e \<Rightarrow> Some (Inl e)
     | Inr p \<Rightarrow> if p > -1 \<and> p > k then
         (case load (skip_key prefix p) of Inl e \<Rightarrow> Some (Inl e) | Inr node \<Rightarrow> advance load prefix k i (skip_key prefix p) node)
       else Some (Inr (fullkey, cur)))"

fun find_levels :: "'s ext \<Rightarrow> 's DB \<Rightarrow> string \<Rightarrow> int \<Rightarrow> nat \<Rightarrow> SkipNode \<Rightarrow> string result option" where
  "find_levels E d prefix k 0 cur = Some (Inr [])"
| "find_levels E d prefix k (Suc i) cur = Option.bind (advance (\<lambda>key. SkipNode_of (DB_Get_str E d key)) prefix k i [] cur) (\<lambda>m.
     case m of Inl e \<Rightarrow> Some (Inl e)
     | Inr (_, cur) \<Rightarrow> if forward cur ! i = k then Some (Inr (DB_Get_str E d (skip_key prefix k)))
         else find_levels E d prefix k i cur)"

definition SkipList_find :: "'s ext \<Rightarrow> 's DB \<Rightarrow> string \<Rightarrow> int \<Rightarrow> string result option" where
  "SkipList_find E d prefix k = (let headstr = DB_Get_str E d (head_key prefix) in
     if headstr = [] then Some (Inr [])
     else case SkipNode_of headstr of Inl e \<Rightarrow> Some (Inl e)
       | Inr cur \<Rightarrow> if sn_key cur = k then Some (Inr headstr)
         else (case nodeLevel (forward cur) of Inl e \<Rightarrow> Some (Inl e) | Inr m \<Rightarrow> find_levels E d prefix k m cur))"

text \<open>The second phase of \<open>insert\<close>: down the levels of the new node, splicing it in.\<close>

fun insert_levels :: "'s ext \<Rightarrow> 's DB \<Rightarrow> string \<Rightarrow> int \<Rightarrow> nat \<Rightarrow> string \<Rightarrow> SkipNode \<Rightarrow> SkipNode \<Rightarrow> (string \<times> SkipNode) list
    \<Rightarrow> (SkipNode \<times> (string \<times> SkipNode) list) result option" where
  "insert_levels E d prefix k 0 fullkey cur newnode update = Some (Inr (newnode, update))"
| "insert_levels E d prefix k (Suc i) fullkey cur newnode update =
     Option.bind (advance (\<lambda>key. case map_of update key of Some n \<Rightarrow> Inr n | None \<Rightarrow> SkipNode_of (DB_Get_str E d key)) prefix k i fullkey cur) (\<lambda>m.
     case m of Inl e \<Rightarrow> Some (Inl e)
     | Inr (fullkey, cur) \<Rightarrow>
         let newnode = newnode\<lparr>forward := (forward newnode)[i := forward cur ! i]\<rparr>;
             cur = cur\<lparr>forward := (forward cur)[i := k]\<rparr>
         in insert_levels E d prefix k i fullkey cur newnode (smap_set fullkey cur update))"

definition update_nodes :: "'s ext \<Rightarrow> (string \<times> SkipNode) list \<Rightarrow> 's DB \<Rightarrow> 's DB" where
  "update_nodes E ns d = foldl (\<lambda>d (key, n). db_put E d key (SkipNode_ToString n)) d ns"

definition SkipList_insert :: "'s ext \<Rightarrow> (nat \<Rightarrow> bool) \<Rightarrow> 's DB \<Rightarrow> string \<Rightarrow> int \<Rightarrow> string \<Rightarrow> 's DB result option" where
  "SkipList_insert E rnd d prefix k v = (let headstr = DB_Get_str E d (head_key prefix) in
     if headstr = [] then Some (Inr (db_put E d (head_key prefix) (SkipNode_ToString (SkipNode_new k v maxLevel))))
     else Option.bind (SkipList_find E d prefix k) (\<lambda>m. case m of Inl e \<Rightarrow> Some (Inl e) | Inr x \<Rightarrow>
       if x \<noteq> [] then Some (rbind (SkipNode_of x) (\<lambda>n. Inr (db_put E d (skip_key prefix k) (SkipNode_ToString (n\<lparr>sn_value := v\<rparr>)))))
       else case SkipNode_of headstr of Inl e \<Rightarrow> Some (Inl e) | Inr cur \<Rightarrow>
         let level = randomLevel rnd 1 in
         map_option (\<lambda>m. rbind m (\<lambda>(newnode, update).
             Inr (db_put E (update_nodes E update d) (skip_key prefix k) (SkipNode_ToString newnode))))
           (insert_levels E d prefix k level (head_key prefix) cur (SkipNode_new k v level) [])))"

fun scan_nodes :: "'s ext \<Rightarrow> 's DB \<Rightarrow> string \<Rightarrow> nat \<Rightarrow> string \<Rightarrow> string list result" where
  "scan_nodes E d prefix 0 nextkey = Inr []"
| "scan_nodes E d prefix (Suc n) nextkey = (let node = DB_Get_str E d (prefix @ ''|'' @ nextkey) in
     if node = [] then Inr []
     else rbind (SkipNode_of node) (\<lambda>sn. rbind (vec_at (forward sn) 0) (\<lambda>p.
       if p < 0 then Inr [node]
       else rbind (scan_nodes E d prefix n (to_string_int p)) (\<lambda>res. Inr (node # res)))))"

definition SkipList_scan :: "'s ext \<Rightarrow> 's DB \<Rightarrow> string \<Rightarrow> int \<Rightarrow> string list result" where
  "SkipList_scan E d prefix n = scan_nodes E d prefix (nat n) ''head''"

section \<open>Nodes as text\<close>

definition long_ok :: "int \<Rightarrow> bool" where
  "long_ok k \<longleftrightarrow> - (2 ^ 63) \<le> k \<and> k < 2 ^ 63"

lemma stol_long [simp]: "long_ok k \<Longrightarrow> stol (to_string_int k) = Inr k"
  by (simp add: long_ok_def stol_to_string_int)

lemma cut_bar_append: "CHR ''|'' \<notin> set a \<Longrightarrow> cut_bar (a @ ''|'' @ b) = (a, b)"
  by (simp add: cut_bar_def find_char_append)

lemma parse_ptrs_print:
  "ps \<noteq> [] \<Longrightarrow> \<forall>p\<in>set ps. long_ok p \<Longrightarrow> parse_ptrs (tl (concat (map (\<lambda>p. ''|'' @ to_string_int p) ps))) = Inr ps"
proof (induction ps)
  case (Cons p ps)
  show ?case
  proof (cases ps)
    case Nil
    have "find_char (CHR ''|'') (to_string_int p) = None" by (simp add: find_char_None)
    then show ?thesis using Cons.prems by (subst parse_ptrs.simps) (simp add: Nil)
  next
    case (Cons q qs)
    let ?rest = "tl (concat (map (\<lambda>p. ''|'' @ to_string_int p) ps))"
    have s: "tl (concat (map (\<lambda>p. ''|'' @ to_string_int p) (p # ps))) = to_string_int p @ CHR ''|'' # ?rest"
      using Cons by simp
    have "find_char (CHR ''|'') (to_string_int p @ CHR ''|'' # ?rest) = Some (length (to_string_int p))" by (simp add: find_char_append)
    then show ?thesis unfolding s using Cons.IH Cons.prems local.Cons by (subst parse_ptrs.simps) simp
  qed
qed simp

definition sn_ok :: "SkipNode \<Rightarrow> bool" where
  "sn_ok n \<longleftrightarrow> long_ok (sn_key n) \<and> CHR ''|'' \<notin> set (sn_value n) \<and> forward n \<noteq> [] \<and> (\<forall>p\<in>set (forward n). long_ok p)"

lemma SkipNode_of_ToString: "sn_ok n \<Longrightarrow> SkipNode_of (SkipNode_ToString n) = Inr n"
proof -
  assume ok: "sn_ok n"
  let ?ps = "concat (map (\<lambda>p. ''|'' @ to_string_int p) (forward n))"
  have "forward n \<noteq> []" using ok by (simp add: sn_ok_def)
  then have "?ps = ''|'' @ tl ?ps" by (cases "forward n") simp_all
  then have "cut_bar (sn_value n @ ?ps) = (sn_value n, tl ?ps)" using ok cut_bar_append [of "sn_value n" "tl ?ps"] by (simp add: sn_ok_def)
  then show ?thesis
    using ok cut_bar_append [of "to_string_int (sn_key n)" "sn_value n @ ?ps"] parse_ptrs_print [of "forward n"]
    by (simp add: SkipNode_of_def SkipNode_ToString_def sn_ok_def)
qed

lemma SkipNode_ToString_nonempty [simp]: "SkipNode_ToString n \<noteq> []"
  by (simp add: SkipNode_ToString_def)

section \<open>The list a skip list stands for\<close>

text \<open>
  A version is a key, a value and a level.  \<open>nxt i ys\<close> is the first key of \<open>ys\<close> at level \<open>i\<close>; \<open>node_of y ys\<close> is the
  stored node of a version \<open>y\<close> that \<open>ys\<close> follow.
\<close>

type_synonym version = "int \<times> string \<times> nat"

abbreviation vkey :: "version \<Rightarrow> int" where "vkey y \<equiv> fst y"

abbreviation vval :: "version \<Rightarrow> string" where "vval y \<equiv> fst (snd y)"

abbreviation vlevel :: "version \<Rightarrow> nat" where "vlevel y \<equiv> snd (snd y)"

definition nxt :: "nat \<Rightarrow> version list \<Rightarrow> int" where
  "nxt i ys = (case filter (\<lambda>y. i < vlevel y) ys of [] \<Rightarrow> -1 | y # _ \<Rightarrow> vkey y)"

definition node_of :: "version \<Rightarrow> version list \<Rightarrow> SkipNode" where
  "node_of y ys = \<lparr> sn_key = vkey y, sn_value = vval y, forward = map (\<lambda>i. nxt i ys) [0..<vlevel y] \<rparr>"

definition version_ok :: "version \<Rightarrow> bool" where
  "version_ok y \<longleftrightarrow> 0 \<le> vkey y \<and> vkey y < 2 ^ 63 \<and> CHR ''|'' \<notin> set (vval y) \<and> 1 \<le> vlevel y \<and> vlevel y \<le> maxLevel"

definition sl_ok :: "version \<Rightarrow> version list \<Rightarrow> bool" where
  "sl_ok h ys \<longleftrightarrow> vlevel h = maxLevel \<and> sorted_wrt (\<lambda>a b. vkey b < vkey a) ys \<and> vkey h \<notin> vkey ` set ys \<and> (\<forall>y\<in>set (h # ys). version_ok y)"

definition sl_repr :: "'s ext \<Rightarrow> 's DB \<Rightarrow> string \<Rightarrow> version \<Rightarrow> version list \<Rightarrow> bool" where
  "sl_repr E d prefix h ys \<longleftrightarrow> DB_Get_str E d (head_key prefix) = SkipNode_ToString (node_of h ys) \<and>
     (\<forall>a y b. ys = a @ y # b \<longrightarrow> DB_Get_str E d (skip_key prefix (vkey y)) = SkipNode_ToString (node_of y b))"

lemma sl_reprD: "sl_repr E d prefix h ys \<Longrightarrow> ys = a @ y # b \<Longrightarrow> DB_Get_str E d (skip_key prefix (vkey y)) = SkipNode_ToString (node_of y b)"
  unfolding sl_repr_def by blast

lemma nxt_append: "nxt i (a @ b) = (if \<exists>y\<in>set a. i < vlevel y then nxt i a else nxt i b)"
proof (cases "\<exists>y\<in>set a. i < vlevel y")
  case True
  then have "filter (\<lambda>y. i < vlevel y) a \<noteq> []" by (simp add: filter_empty_conv)
  then show ?thesis using True by (auto simp: nxt_def neq_Nil_conv)
next
  case False
  then have "filter (\<lambda>y. i < vlevel y) a = []" by (simp add: filter_empty_conv)
  then show ?thesis using False by (simp add: nxt_def)
qed

lemma nxt_simps [simp]: "nxt i [] = -1" "nxt i (y # ys) = (if i < vlevel y then vkey y else nxt i ys)"
  by (simp_all add: nxt_def)

lemma nxt_in: "nxt i ys = -1 \<or> (\<exists>y\<in>set ys. i < vlevel y \<and> nxt i ys = vkey y)"
  by (induction ys) auto

lemma nxt_none: "\<forall>y\<in>set ys. vlevel y \<le> i \<Longrightarrow> nxt i ys = -1"
  by (induction ys) auto

lemma node_of_simps [simp]: "sn_key (node_of y ys) = vkey y" "length (forward (node_of y ys)) = vlevel y"
  "i < vlevel y \<Longrightarrow> forward (node_of y ys) ! i = nxt i ys"
  by (simp_all add: node_of_def)

lemma nxt_long: "\<forall>y\<in>set ys. version_ok y \<Longrightarrow> long_ok (nxt i ys)"
  using nxt_in [of i ys] by (fastforce simp: long_ok_def version_ok_def)

lemma node_of_ok: "version_ok y \<Longrightarrow> \<forall>z\<in>set ys. version_ok z \<Longrightarrow> sn_ok (node_of y ys)"
  by (auto simp: sn_ok_def node_of_def nxt_long) (auto simp: version_ok_def long_ok_def)

text \<open>Along level \<open>i\<close> past all greater keys.\<close>

lemma advance_past:
  assumes "\<forall>y\<in>set post. k < vkey y \<and> 0 \<le> vkey y" "\<forall>z\<in>set zs. vkey z \<le> k"
    and "i < length (forward cur)" "forward cur ! i = nxt i (post @ zs)"
    and "\<And>a y b. post = a @ y # b \<Longrightarrow> i < vlevel y \<Longrightarrow> load (skip_key prefix (vkey y)) = Inr (node_of y (b @ zs))"
  shows "(\<forall>y\<in>set post. vlevel y \<le> i) \<and> advance load prefix k i fullkey cur = Some (Inr (fullkey, cur)) \<or>
    (\<exists>a y b. post = a @ y # b \<and> i < vlevel y \<and> (\<forall>z\<in>set b. vlevel z \<le> i) \<and>
      advance load prefix k i fullkey cur = Some (Inr (skip_key prefix (vkey y), node_of y (b @ zs))))"
  using assms(1,3,4,5)
proof (induction "length post" arbitrary: post cur fullkey rule: less_induct)
  case less
  show ?case
  proof (cases "\<exists>y\<in>set post. i < vlevel y")
    case False
    then have "nxt i (post @ zs) = nxt i zs" by (simp add: nxt_append)
    moreover have "\<not> (nxt i zs > -1 \<and> nxt i zs > k)" using nxt_in [of i zs] assms(2) by fastforce
    ultimately have "advance load prefix k i fullkey cur = Some (Inr (fullkey, cur))"
      using less.prems(2,3) by (subst advance.simps) auto
    then show ?thesis using False by (auto simp: linorder_not_less)
  next
    case True
    obtain a y b where y: "post = a @ y # b" "i < vlevel y" "\<forall>z\<in>set a. \<not> i < vlevel z"
      by (rule split_list_first_propE [OF True])
    have p: "forward cur ! i = vkey y" using less.prems(3) y by (auto simp: nxt_append)
    have "vkey y > -1 \<and> vkey y > k" using less.prems(1) y(1) by auto
    then have adv: "advance load prefix k i fullkey cur = advance load prefix k i (skip_key prefix (vkey y)) (node_of y (b @ zs))"
      using less.prems(2) p less.prems(4) [OF y(1,2)] by (subst advance.simps) simp
    have l: "load (skip_key prefix (vkey y')) = Inr (node_of y' (b' @ zs))" if "b = a' @ y' # b'" "i < vlevel y'" for a' y' b'
      using less.prems(4) [of "a @ y # a'" y' b'] that y(1) by simp
    have IH: "(\<forall>z\<in>set b. vlevel z \<le> i) \<and> advance load prefix k i (skip_key prefix (vkey y)) (node_of y (b @ zs)) = Some (Inr (skip_key prefix (vkey y), node_of y (b @ zs))) \<or>
      (\<exists>a' y' b'. b = a' @ y' # b' \<and> i < vlevel y' \<and> (\<forall>z\<in>set b'. vlevel z \<le> i) \<and>
        advance load prefix k i (skip_key prefix (vkey y)) (node_of y (b @ zs)) = Some (Inr (skip_key prefix (vkey y'), node_of y' (b' @ zs))))"
    proof (rule less.hyps)
      show "\<forall>z\<in>set b. k < vkey z \<and> 0 \<le> vkey z" using less.prems(1) y(1) by simp
    qed (use y l in simp_all)
    then consider "\<forall>z\<in>set b. vlevel z \<le> i" "advance load prefix k i fullkey cur = Some (Inr (skip_key prefix (vkey y), node_of y (b @ zs)))"
      | a' y' b' where "b = a' @ y' # b'" "i < vlevel y'" "\<forall>z\<in>set b'. vlevel z \<le> i"
          "advance load prefix k i fullkey cur = Some (Inr (skip_key prefix (vkey y'), node_of y' (b' @ zs)))"
      unfolding adv by blast
    then show ?thesis
    proof cases
      case 1
      then show ?thesis using y by blast
    next
      case (2 a' y' b')
      then have "post = (a @ y # a') @ y' # b'" using y(1) by simp
      then show ?thesis using 2 by blast
    qed
  qed
qed

section \<open>Searching\<close>

lemma desc_hd: "sorted_wrt (\<lambda>a b. vkey b < vkey a) zs \<Longrightarrow> \<forall>z\<in>set zs. vkey z \<le> k \<Longrightarrow> z \<in> set zs \<Longrightarrow> vkey z = k \<Longrightarrow> vkey (hd zs) = k"
  by (cases zs) force+

lemma find_levels_ok:
  assumes "\<forall>y\<in>set post. k < vkey y \<and> version_ok y" "\<forall>z\<in>set zs. vkey z \<le> k \<and> version_ok z" "sorted_wrt (\<lambda>a b. vkey b < vkey a) zs" "0 \<le> k"
    and "\<forall>j\<le>i. j < length (forward cur) \<and> forward cur ! j = nxt j (post @ zs)"
    and "\<And>a y b. post = a @ y # b \<Longrightarrow> SkipNode_of (DB_Get_str E d (skip_key prefix (vkey y))) = Inr (node_of y (b @ zs))"
  shows "find_levels E d prefix k (Suc i) cur = Some (Inr (if zs \<noteq> [] \<and> vkey (hd zs) = k then DB_Get_str E d (skip_key prefix k) else []))"
  using assms(1,5,6)
proof (induction i arbitrary: post cur)
  case (0 post cur)
  let ?load = "\<lambda>key. SkipNode_of (DB_Get_str E d key)"
  have "(\<forall>y\<in>set post. vlevel y \<le> 0) \<and> advance ?load prefix k 0 [] cur = Some (Inr ([], cur)) \<or>
    (\<exists>a y b. post = a @ y # b \<and> 0 < vlevel y \<and> (\<forall>z\<in>set b. vlevel z \<le> 0) \<and>
      advance ?load prefix k 0 [] cur = Some (Inr (skip_key prefix (vkey y), node_of y (b @ zs))))"
    using 0 assms(2) by (intro advance_past) (auto simp: version_ok_def)
  moreover have "b = []" if "set b \<subseteq> set post" "\<forall>z\<in>set b. vlevel z \<le> 0" for b
    using that 0(1) by (cases b) (auto simp: version_ok_def)
  ultimately obtain fk cur' where c: "advance ?load prefix k 0 [] cur = Some (Inr (fk, cur'))" "forward cur' ! 0 = nxt 0 zs"
    using 0(2) by (elim disjE exE conjE) (force simp: nxt_append)+
  have "nxt 0 zs = (if zs = [] then -1 else vkey (hd zs))" using assms(2) by (cases zs) (auto simp: version_ok_def)
  then show ?case using c assms(4) by (auto split: if_splits)
next
  case (Suc i post cur)
  let ?load = "\<lambda>key. SkipNode_of (DB_Get_str E d key)"
  have "(\<forall>y\<in>set post. vlevel y \<le> Suc i) \<and> advance ?load prefix k (Suc i) [] cur = Some (Inr ([], cur)) \<or>
    (\<exists>a y b. post = a @ y # b \<and> Suc i < vlevel y \<and> (\<forall>z\<in>set b. vlevel z \<le> Suc i) \<and>
      advance ?load prefix k (Suc i) [] cur = Some (Inr (skip_key prefix (vkey y), node_of y (b @ zs))))"
    using Suc.prems assms(2) by (intro advance_past) (auto simp: version_ok_def)
  then obtain fk cur' b where c: "advance ?load prefix k (Suc i) [] cur = Some (Inr (fk, cur'))"
      "\<forall>j\<le>Suc i. j < length (forward cur') \<and> forward cur' ! j = nxt j (b @ zs)" "\<forall>z\<in>set b. vlevel z \<le> Suc i" "\<exists>a. post = a @ b"
  proof (elim disjE exE conjE)
    fix a y b assume "post = a @ y # b" "Suc i < vlevel y" "\<forall>z\<in>set b. vlevel z \<le> Suc i"
      "advance ?load prefix k (Suc i) [] cur = Some (Inr (skip_key prefix (vkey y), node_of y (b @ zs)))"
    then show ?thesis by (intro that [of "skip_key prefix (vkey y)" "node_of y (b @ zs)" b]) (auto intro: exI [of _ "a @ [y]"])
  qed (use Suc.prems(2) that in blast)
  have n: "forward cur' ! Suc i = nxt (Suc i) zs" using c(2,3) by (auto simp: nxt_append)
  show ?case
  proof (cases "nxt (Suc i) zs = k")
    case True
    then obtain z where "z \<in> set zs" "vkey z = k" using nxt_in [of "Suc i" zs] assms(4) by auto
    then have "zs \<noteq> [] \<and> vkey (hd zs) = k" using desc_hd [OF assms(3)] assms(2) by auto
    then show ?thesis using True c(1) n by simp
  next
    case False
    then have "find_levels E d prefix k (Suc (Suc i)) cur = find_levels E d prefix k (Suc i) cur'" using c(1) n by simp
    also have "\<dots> = Some (Inr (if zs \<noteq> [] \<and> vkey (hd zs) = k then DB_Get_str E d (skip_key prefix k) else []))"
    proof (rule Suc.IH)
      show "\<forall>y\<in>set b. k < vkey y \<and> version_ok y" using c(4) Suc.prems(1) by auto
      show "\<forall>j\<le>i. j < length (forward cur') \<and> forward cur' ! j = nxt j (b @ zs)" using c(2) by simp
      show "?load (skip_key prefix (vkey y)) = Inr (node_of y (b' @ zs))" if "b = a @ y # b'" for a y b'
        using c(4) that Suc.prems(3) by (metis append.assoc)
    qed
    finally show ?thesis .
  qed
qed

text \<open>The versions above a key and the others.\<close>

abbreviation above :: "int \<Rightarrow> version list \<Rightarrow> version list" where "above k ys \<equiv> takeWhile (\<lambda>y. k < vkey y) ys"

abbreviation upto_key :: "int \<Rightarrow> version list \<Rightarrow> version list" where "upto_key k ys \<equiv> dropWhile (\<lambda>y. k < vkey y) ys"

lemma upto_key_le: "sorted_wrt (\<lambda>a b. vkey b < vkey a) ys \<Longrightarrow> z \<in> set (upto_key k ys) \<Longrightarrow> vkey z \<le> k"
  by (induction ys) (auto split: if_splits)

lemma upto_key_hd: "sorted_wrt (\<lambda>a b. vkey b < vkey a) ys \<Longrightarrow> (upto_key k ys \<noteq> [] \<and> vkey (hd (upto_key k ys)) = k) = (k \<in> vkey ` set ys)"
  by (induction ys) force+

lemma desc_distinct: "sorted_wrt (\<lambda>a b. vkey b < vkey a) ys \<Longrightarrow> distinct (map vkey ys)"
  by (induction ys) force+

lemma above_load:
  assumes "sl_ok h ys" "sl_repr E d prefix h ys" "above k ys = a @ y # b"
  shows "SkipNode_of (DB_Get_str E d (skip_key prefix (vkey y))) = Inr (node_of y (b @ upto_key k ys))"
proof -
  have ys: "ys = a @ y # (b @ upto_key k ys)" using assms(3) by (metis append.assoc append_Cons takeWhile_dropWhile_id)
  moreover have "\<forall>z\<in>set ys. version_ok z" using assms(1) by (simp add: sl_ok_def)
  ultimately have "\<forall>z\<in>set (y # (b @ upto_key k ys)). version_ok z" by (metis UnCI set_append)
  then show ?thesis using sl_reprD [OF assms(2) ys] by (simp add: SkipNode_of_ToString node_of_ok)
qed

lemma SkipList_find_ok:
  assumes "sl_ok h ys" "sl_repr E d prefix h ys" "0 \<le> k" "k \<noteq> vkey h"
  shows "SkipList_find E d prefix k = Some (Inr (if k \<in> vkey ` set ys then DB_Get_str E d (skip_key prefix k) else []))"
proof -
  have ok: "vlevel h = maxLevel" "sorted_wrt (\<lambda>a b. vkey b < vkey a) ys" "\<forall>y\<in>set (h # ys). version_ok y" using assms(1) by (simp_all add: sl_ok_def)
  have s: "DB_Get_str E d (head_key prefix) = SkipNode_ToString (node_of h ys)"
      "\<And>a y b. ys = a @ y # b \<Longrightarrow> DB_Get_str E d (skip_key prefix (vkey y)) = SkipNode_ToString (node_of y b)" using assms(2) by (auto simp: sl_repr_def)
  have p: "SkipNode_of (SkipNode_ToString (node_of h ys)) = Inr (node_of h ys)" using ok(3) by (simp add: SkipNode_of_ToString node_of_ok)
  obtain m where m: "nodeLevel (forward (node_of h ys)) = Inr (Suc m)" "m < maxLevel"
  proof -
    obtain q qs where q: "forward (node_of h ys) = q # qs" "length qs = 15"
      using node_of_simps(2) [of h ys] ok(1) by (cases "forward (node_of h ys)") (auto simp: maxLevel_def)
    then show ?thesis using that [of "if q = -1 then 0 else length (takeWhile (\<lambda>q. q \<noteq> -1) qs)"] length_takeWhile_le [of "\<lambda>q. q \<noteq> -1" qs]
      by (auto simp: nodeLevel_def maxLevel_def)
  qed
  have "find_levels E d prefix k (Suc m) (node_of h ys) =
      Some (Inr (if upto_key k ys \<noteq> [] \<and> vkey (hd (upto_key k ys)) = k then DB_Get_str E d (skip_key prefix k) else []))"
  proof (rule find_levels_ok [of "above k ys"])
    show "\<forall>y\<in>set (above k ys). k < vkey y \<and> version_ok y" using ok(3) by (auto dest: set_takeWhileD)
    show "\<forall>z\<in>set (upto_key k ys). vkey z \<le> k \<and> version_ok z" using ok upto_key_le by (auto dest: set_dropWhileD)
    show "sorted_wrt (\<lambda>a b. vkey b < vkey a) (upto_key k ys)" using ok(2) by (simp add: sorted_wrt_dropWhile)
    show "\<forall>j\<le>m. j < length (forward (node_of h ys)) \<and> forward (node_of h ys) ! j = nxt j (above k ys @ upto_key k ys)" using m ok(1) by simp
    show "SkipNode_of (DB_Get_str E d (skip_key prefix (vkey y))) = Inr (node_of y (b @ upto_key k ys))" if "above k ys = a @ y # b" for a y b
      using above_load [OF assms(1,2) that] .
  qed (rule assms(3))
  then show ?thesis using m(1) s(1) p assms(4) upto_key_hd [OF ok(2), of k] by (simp add: SkipList_find_def)
qed

section \<open>Splicing in a new node\<close>

text \<open>The node of \<open>e\<close>, followed by \<open>post\<close> and \<open>zs\<close>, when \<open>n\<close> is spliced in between these at the levels from \<open>i\<close> on.\<close>

definition mix :: "version \<Rightarrow> nat \<Rightarrow> version \<Rightarrow> version list \<Rightarrow> version list \<Rightarrow> SkipNode" where
  "mix n i e post zs = \<lparr> sn_key = vkey e, sn_value = vval e,
     forward = map (\<lambda>j. if i \<le> j then nxt j (post @ n # zs) else nxt j (post @ zs)) [0..<vlevel e] \<rparr>"

lemma mix_old: "vlevel e \<le> i \<or> vlevel n \<le> i \<Longrightarrow> mix n i e post zs = node_of e (post @ zs)"
  by (auto simp: mix_def node_of_def nxt_append)

lemma mix_0 [simp]: "mix n 0 e post zs = node_of e (post @ n # zs)"
  by (simp add: mix_def node_of_def)

lemma mix_simps [simp]: "length (forward (mix n i e post zs)) = vlevel e" "j < i \<Longrightarrow> j < vlevel e \<Longrightarrow> forward (mix n i e post zs) ! j = nxt j (post @ zs)"
  by (simp_all add: mix_def)

lemma mix_step:
  assumes "\<forall>y\<in>set post. vlevel y \<le> i" "i < vlevel n"
  shows "(mix n (Suc i) e post zs)\<lparr>forward := (forward (mix n (Suc i) e post zs))[i := vkey n]\<rparr> = mix n i e post zs"
proof -
  have "nxt i (post @ n # zs) = vkey n" using assms by (auto simp: nxt_append nxt_none)
  then have "(forward (mix n (Suc i) e post zs))[i := vkey n] = forward (mix n i e post zs)"
    by (intro nth_equalityI) (auto simp: mix_def nth_list_update)
  then show ?thesis by (simp add: mix_def)
qed

lemma mix_same: "vlevel p \<le> i \<or> (\<exists>y\<in>set b. i < vlevel y) \<Longrightarrow> mix n i p b zs = mix n (Suc i) p b zs"
  by (auto simp: mix_def nxt_append le_Suc_eq not_less_eq_eq)

definition fk :: "string \<Rightarrow> version \<Rightarrow> version \<Rightarrow> string" where
  "fk prefix h p = (if vkey p = vkey h then head_key prefix else skip_key prefix (vkey p))"

lemma head_skip_key [simp]: "0 \<le> k \<Longrightarrow> skip_key prefix k \<noteq> head_key prefix" "0 \<le> k \<Longrightarrow> head_key prefix \<noteq> skip_key prefix k"
proof -
  assume "0 \<le> k"
  then have "to_string_int k \<noteq> ''head''" using to_string_digits [of "CHR ''h''" "nat k"] by (auto simp: to_string_int_def is_digit_def)
  then show "skip_key prefix k \<noteq> head_key prefix" "head_key prefix \<noteq> skip_key prefix k" by (auto simp: skip_key_def head_key_def)
qed

lemma skip_key_inject [simp]: "skip_key prefix j = skip_key prefix k \<longleftrightarrow> j = k"
  by (simp add: skip_key_def)

lemma fk_inject: "0 \<le> vkey p \<Longrightarrow> 0 \<le> vkey q \<Longrightarrow> fk prefix h p = fk prefix h q \<longleftrightarrow> vkey p = vkey q"
  by (auto simp: fk_def)

lemma split_unique:
  assumes "distinct (map vkey xs)" "xs = a @ p # b" "xs = a' @ p' # b'" "vkey p = vkey p'"
  shows "a = a' \<and> p = p' \<and> b = b'"
proof -
  have d: "distinct xs" using assms(1) by (simp add: distinct_map)
  have "p \<in> set xs" "p' \<in> set xs" unfolding assms(2) by simp (simp add: assms(2) [symmetric] assms(3))
  then have "p = p'" using assms(1,4) by (auto simp: distinct_map inj_on_def)
  then show ?thesis using d assms(2,3) by (metis append_Cons_eq_iff distinct_append not_distinct_conv_prefix assms(2) distinct.simps(2))
qed

definition upd_ok :: "string \<Rightarrow> version \<Rightarrow> version list \<Rightarrow> version list \<Rightarrow> version \<Rightarrow> nat \<Rightarrow> (string \<times> SkipNode) list \<Rightarrow> bool" where
  "upd_ok prefix h xs zs n i update \<longleftrightarrow> fst ` set update \<subseteq> fk prefix h ` set (h # xs) \<and> sorted_wrt (<) (map fst update) \<and>
     (\<forall>a p b. h # xs = a @ p # b \<longrightarrow> (case map_of update (fk prefix h p) of Some m \<Rightarrow> m = mix n i p b zs | None \<Rightarrow> mix n i p b zs = node_of p (b @ zs)))"

lemma upd_okD: "upd_ok prefix h xs zs n i update \<Longrightarrow> h # xs = a @ p # b \<Longrightarrow>
    case map_of update (fk prefix h p) of Some m \<Rightarrow> m = mix n i p b zs | None \<Rightarrow> mix n i p b zs = node_of p (b @ zs)"
  unfolding upd_ok_def by blast

lemma insert_levels_ok:
  assumes dist: "distinct (map vkey (h # xs))" "\<forall>y\<in>set (h # xs). version_ok y" and zs: "\<forall>z\<in>set zs. vkey z \<le> vkey n" and xs: "\<forall>y\<in>set xs. vkey n < vkey y"
    and load: "\<And>a y b. xs = a @ y # b \<Longrightarrow> SkipNode_of (DB_Get_str E d (skip_key prefix (vkey y))) = Inr (node_of y (b @ zs))"
    and e: "h # xs = pre @ e # post" "i \<le> vlevel n" "i \<le> vlevel e" "i = vlevel n \<or> (\<forall>y\<in>set post. vlevel y \<le> i)"
    and upd: "upd_ok prefix h xs zs n i update" "\<forall>y\<in>set post. map_of update (fk prefix h y) = None"
  shows "\<exists>update'. insert_levels E d prefix (vkey n) i (fk prefix h e) (mix n i e post zs)
      \<lparr> sn_key = vkey n, sn_value = vval n, forward = map (\<lambda>j. if i \<le> j then nxt j zs else -1) [0..<vlevel n] \<rparr> update = Some (Inr (node_of n zs, update')) \<and>
    upd_ok prefix h xs zs n 0 update'"
  using e upd
proof (induction i arbitrary: pre e post update)
  case 0
  then show ?case by (simp add: node_of_def)
next
  case (Suc i)
  let ?load = "\<lambda>key. case map_of update key of Some n \<Rightarrow> Inr n | None \<Rightarrow> SkipNode_of (DB_Get_str E d key)"
  have sub: "set post \<subseteq> set xs" using Suc.prems(1) by (cases pre) auto
  have hx: "vkey y \<noteq> vkey h" if "y \<in> set xs" for y
    using dist(1) that by (metis distinct.simps(2) image_eqI list.set_map list.simps(9))
  have "(\<forall>y\<in>set post. vlevel y \<le> i) \<and> advance ?load prefix (vkey n) i (fk prefix h e) (mix n (Suc i) e post zs) = Some (Inr (fk prefix h e, mix n (Suc i) e post zs)) \<or>
    (\<exists>a y b. post = a @ y # b \<and> i < vlevel y \<and> (\<forall>z\<in>set b. vlevel z \<le> i) \<and>
      advance ?load prefix (vkey n) i (fk prefix h e) (mix n (Suc i) e post zs) = Some (Inr (skip_key prefix (vkey y), node_of y (b @ zs))))"
  proof (rule advance_past)
    show "\<forall>y\<in>set post. vkey n < vkey y \<and> 0 \<le> vkey y" using sub xs dist(2) by (auto simp: version_ok_def)
    show "?load (skip_key prefix (vkey y)) = Inr (node_of y (b @ zs))" if py: "post = a @ y # b" for a y b
    proof -
      have y: "y \<in> set xs" "y \<in> set post" using py sub by auto
      have "map_of update (skip_key prefix (vkey y)) = None" using Suc.prems(6) y(2) hx [OF y(1)] by (metis fk_def)
      moreover obtain a' where "xs = a' @ y # b" using Suc.prems(1) py by (cases pre) auto
      ultimately show ?thesis using load [of a' y b] by simp
    qed
  qed (use zs Suc.prems(3) in auto)
  then obtain pre' e' post' where e': "h # xs = pre' @ e' # post'" "i < vlevel e'" "\<forall>z\<in>set post'. vlevel z \<le> i" "set post' \<subseteq> set post"
      "advance ?load prefix (vkey n) i (fk prefix h e) (mix n (Suc i) e post zs) = Some (Inr (fk prefix h e', mix n (Suc i) e' post' zs))"
  proof (elim disjE exE conjE)
    fix a y b assume y: "post = a @ y # b" "i < vlevel y" "\<forall>z\<in>set b. vlevel z \<le> i"
      "advance ?load prefix (vkey n) i (fk prefix h e) (mix n (Suc i) e post zs) = Some (Inr (skip_key prefix (vkey y), node_of y (b @ zs)))"
    have "vkey y \<noteq> vkey h" using y(1) sub by (intro hx) auto
    moreover have "mix n (Suc i) y b zs = node_of y (b @ zs)" using Suc.prems(4) y(1) by (intro mix_old) auto
    ultimately show ?thesis using y Suc.prems(1) by (intro that [of "pre @ e # a" y b]) (auto simp: fk_def)
  qed (use Suc.prems that in \<open>simp add: Suc_le_eq\<close>)
  let ?cur = "mix n i e' post' zs" and ?upd = "smap_set (fk prefix h e') (mix n i e' post' zs) update"
  have n: "forward (mix n (Suc i) e' post' zs) ! i = nxt i zs" using e'(2,3) by (auto simp: nxt_append)
  have f: "(map (\<lambda>j. if Suc i \<le> j then nxt j zs else -1) [0..<vlevel n])[i := nxt i zs] = map (\<lambda>j. if i \<le> j then nxt j zs else -1) [0..<vlevel n]"
    by (rule nth_equalityI) (auto simp: nth_list_update)
  have step: "insert_levels E d prefix (vkey n) (Suc i) (fk prefix h e) (mix n (Suc i) e post zs)
      \<lparr> sn_key = vkey n, sn_value = vval n, forward = map (\<lambda>j. if Suc i \<le> j then nxt j zs else -1) [0..<vlevel n] \<rparr> update =
    insert_levels E d prefix (vkey n) i (fk prefix h e') ?cur
      \<lparr> sn_key = vkey n, sn_value = vval n, forward = map (\<lambda>j. if i \<le> j then nxt j zs else -1) [0..<vlevel n] \<rparr> ?upd"
    using e'(5) mix_step [OF e'(3), of n e' zs] Suc.prems(2) by (simp add: n f [unfolded Suc_le_eq] Let_def Suc_le_eq)
  have pos: "\<And>p. p \<in> set (h # xs) \<Longrightarrow> 0 \<le> vkey p" using dist(2) by (auto simp: version_ok_def)
  have "upd_ok prefix h xs zs n i ?upd"
    unfolding upd_ok_def
  proof (intro conjI allI impI)
    have "e' \<in> set (h # xs)" unfolding e'(1) by simp
    then show "fst ` set ?upd \<subseteq> fk prefix h ` set (h # xs)" using Suc.prems(5) by (auto simp: keys_smap_set upd_ok_def)
    show "sorted_wrt (<) (map fst ?upd)" using Suc.prems(5) by (simp add: upd_ok_def sorted_smap_set)
    fix a p b assume p: "h # xs = a @ p # b"
    have pm: "p \<in> set (h # xs)" unfolding p by simp
    show "case map_of ?upd (fk prefix h p) of None \<Rightarrow> mix n i p b zs = node_of p (b @ zs) | Some m \<Rightarrow> m = mix n i p b zs"
    proof (cases "vkey p = vkey e'")
      case True
      then have "p = e' \<and> b = post'" using split_unique [OF dist(1) p e'(1)] by blast
      then show ?thesis by (simp add: map_of_smap_set)
    next
      case False
      then have "fk prefix h p \<noteq> fk prefix h e'" using fk_inject [of p e'] pos [OF pm] pos [OF \<open>e' \<in> set (h # xs)\<close>] by blast
      moreover have "mix n i p b zs = mix n (Suc i) p b zs"
      proof (rule mix_same)
        from p e'(1) have "e' \<in> set b \<or> p \<in> set post'" using False by (auto simp: append_eq_append_conv2 append_eq_Cons_conv Cons_eq_append_conv)
        then show "vlevel p \<le> i \<or> (\<exists>y\<in>set b. i < vlevel y)" using e'(2,3) by auto
      qed
      ultimately show ?thesis using upd_okD [OF Suc.prems(5) p] by (simp add: map_of_smap_set split: option.splits)
    qed
  qed
  moreover have "\<forall>y\<in>set post'. map_of ?upd (fk prefix h y) = None"
  proof
    fix y assume y: "y \<in> set post'"
    have "distinct (map vkey (pre' @ e' # post'))" using dist(1) unfolding e'(1) .
    then have "vkey y \<noteq> vkey e'" using y by (simp, metis image_eqI)
    moreover have "y \<in> set (h # xs)" "e' \<in> set (h # xs)" using y unfolding e'(1) by auto
    ultimately have "fk prefix h y \<noteq> fk prefix h e'" using fk_inject [of y e'] pos by blast
    then show "map_of ?upd (fk prefix h y) = None" using Suc.prems(6) e'(4) y by (auto simp: map_of_smap_set)
  qed
  ultimately show ?case unfolding step using e'(2,3) Suc.prems(2) by (intro Suc.IH [OF e'(1)]) simp_all
qed

section \<open>Inserting\<close>

lemma update_nodes_get:
  assumes "ext_ok E" "sorted_wrt (<) (map fst ns)"
  shows "DB_Get_str E (update_nodes E ns d) key = (case map_of ns key of Some n \<Rightarrow> SkipNode_ToString n | None \<Rightarrow> DB_Get_str E d key)"
proof -
  have "update_nodes E ns d = foldl (\<lambda>d (k, v). db_put E d k v) d (map (\<lambda>(k, n). (k, SkipNode_ToString n)) ns)"
    unfolding update_nodes_def by (induction ns arbitrary: d) auto
  moreover have "map_of (rev (map (\<lambda>(k, n). (k, SkipNode_ToString n)) ns)) key = map_option SkipNode_ToString (map_of ns key)"
  proof -
    have "distinct (map fst (map (\<lambda>(k, n). (k, SkipNode_ToString n)) ns))" using assms(2) by (simp add: strict_sorted_iff case_prod_unfold comp_def)
    then have "map_of (rev (map (\<lambda>(k, n). (k, SkipNode_ToString n)) ns)) = map_of (map (\<lambda>(k, n). (k, SkipNode_ToString n)) ns)"
      by (subst map_of_inject_set) (simp_all flip: rev_map)
    then show ?thesis by (simp add: map_of_map)
  qed
  ultimately show ?thesis by (simp add: DB_Get_str_def DB_Get_def DBkv.contents_puts [OF assms(1)] map_add_def split: option.splits)
qed

definition ins :: "int \<Rightarrow> string \<Rightarrow> nat \<Rightarrow> version \<Rightarrow> version list \<Rightarrow> version list" where
  "ins k v l h ys = (if k = vkey h then ys else if k \<in> vkey ` set ys then map (\<lambda>y. if vkey y = k then (k, v, vlevel y) else y) ys
     else above k ys @ (k, v, l) # upto_key k ys)"

lemma randomLevel_bounds: "1 \<le> v \<Longrightarrow> v \<le> maxLevel \<Longrightarrow> 1 \<le> randomLevel rnd v \<and> randomLevel rnd v \<le> maxLevel"
proof (induction rnd v rule: randomLevel.induct)
  case (1 rnd v)
  then show ?case by (subst (1 2) randomLevel.simps) auto
qed

text \<open>Every insertion does to the stored list what \<open>ins\<close> does to the plain one; inserting the first key again changes nothing that is read.\<close>

lemma ins_sl_ok:
  assumes "sl_ok h ys" "version_ok (k, v, l)"
  shows "sl_ok h (ins k v l h ys)"
proof -
  have ok: "sorted_wrt (\<lambda>a b. vkey b < vkey a) ys" "vkey h \<notin> vkey ` set ys" "\<forall>y\<in>set (h # ys). version_ok y" "vlevel h = maxLevel"
    using assms(1) by (simp_all add: sl_ok_def)
  consider "k = vkey h" | "k \<noteq> vkey h" "k \<in> vkey ` set ys" | "k \<noteq> vkey h" "k \<notin> vkey ` set ys" by blast
  then show ?thesis
  proof cases
    case 2
    have m: "map (\<lambda>y. vkey (if vkey y = k then (k, v, vlevel y) else y)) ys = map vkey ys" by simp
    have "sorted_wrt (\<lambda>a b. vkey b < vkey a) (map (\<lambda>y. if vkey y = k then (k, v, vlevel y) else y) ys)"
      using ok(1) by (auto simp: sorted_wrt_map elim!: sorted_wrt_mono_rel [rotated])
    moreover have "vkey ` set (map (\<lambda>y. if vkey y = k then (k, v, vlevel y) else y) ys) = vkey ` set ys"
      using arg_cong [OF m, of set] unfolding set_map image_image .
    ultimately show ?thesis using 2 ok assms(2) by (auto simp: ins_def sl_ok_def version_ok_def)
  next
    case 3
    have z: "vkey z < k" if "z \<in> set (upto_key k ys)" for z
      using upto_key_le [OF ok(1) that] 3(2) set_dropWhileD [OF that] by (metis image_eqI order_less_le)
    have "sorted_wrt (\<lambda>a b. vkey b < vkey a) (above k ys @ (k, v, l) # upto_key k ys)"
      using ok(1) z by (subst (asm) takeWhile_dropWhile_id [of "\<lambda>y. k < vkey y", symmetric])
        (auto simp: sorted_wrt_append simp del: takeWhile_dropWhile_id dest: set_takeWhileD)
    then show ?thesis using 3 ok assms(2) by (auto simp: ins_def sl_ok_def dest: set_takeWhileD set_dropWhileD)
  qed (simp add: ins_def assms(1))
qed

lemma DB_Get_update_nodes:
  assumes "ext_ok E" "sorted_wrt (<) (map fst ns)"
  shows "DB_Get_str E (db_put E (update_nodes E ns d) key v) key' = (if key' = key then v else case map_of ns key' of Some n \<Rightarrow> SkipNode_ToString n | None \<Rightarrow> DB_Get_str E d key')"
  using assms by (simp add: update_nodes_get)

lemma splice_repr:
  assumes "ext_ok E" "sl_ok h (xs @ n # zs)" "sl_repr E d prefix h (xs @ zs)" "upd_ok prefix h xs zs n 0 update"
  shows "sl_repr E (db_put E (update_nodes E update d) (skip_key prefix (vkey n)) (SkipNode_ToString (node_of n zs))) prefix h (xs @ n # zs)"
proof -
  let ?d = "db_put E (update_nodes E update d) (skip_key prefix (vkey n)) (SkipNode_ToString (node_of n zs))"
  have srt: "sorted_wrt (\<lambda>a b. vkey b < vkey a) (xs @ n # zs)" and pos: "\<forall>y\<in>set (h # xs @ n # zs). 0 \<le> vkey y" and h: "vkey h \<notin> vkey ` set (xs @ n # zs)"
    using assms(2) by (simp_all add: sl_ok_def version_ok_def)
  have get: "DB_Get_str E ?d key = (if key = skip_key prefix (vkey n) then SkipNode_ToString (node_of n zs)
      else case map_of update key of Some m \<Rightarrow> SkipNode_ToString m | None \<Rightarrow> DB_Get_str E d key)" for key
    using assms(4) by (intro DB_Get_update_nodes assms(1)) (simp add: upd_ok_def)
  have old: "DB_Get_str E d (head_key prefix) = SkipNode_ToString (node_of h (xs @ zs))"
      "\<And>a y b. xs @ zs = a @ y # b \<Longrightarrow> DB_Get_str E d (skip_key prefix (vkey y)) = SkipNode_ToString (node_of y b)"
    using assms(3) by (auto simp: sl_repr_def)
  have fk: "fk prefix h y = skip_key prefix (vkey y)" if "y \<in> set (xs @ n # zs)" for y
    using that h by (metis fk_def image_eqI)
  have hd: "DB_Get_str E ?d (head_key prefix) = SkipNode_ToString (node_of h (xs @ n # zs))"
    using upd_okD [OF assms(4), of "[]" h xs] old(1) pos by (auto simp: get fk_def split: option.splits)
  have nd: "DB_Get_str E ?d (skip_key prefix (vkey y)) = SkipNode_ToString (node_of y b)" if ay: "xs @ n # zs = a @ y # b" for a y b
  proof -
    have y: "y \<in> set (xs @ n # zs)" unfolding ay by simp
    from ay consider b' where "xs = a @ y # b'" "b = b' @ n # zs" | "y = n" "b = zs" | a' where "zs = a' @ y # b"
      by (auto simp: append_eq_append_conv2 append_eq_Cons_conv Cons_eq_append_conv)
    then show ?thesis
    proof cases
      case 1
      then have "vkey y \<noteq> vkey n" using srt by (auto simp: sorted_wrt_append)
      then show ?thesis using 1 upd_okD [OF assms(4), of "h # a" y b'] old(2) [of a y "b' @ zs"] fk [OF y]
        by (auto simp: get split: option.splits)
    next
      case 3
      then have n: "vkey y < vkey n" "\<forall>x\<in>set xs. vkey y < vkey x" using srt by (auto simp: sorted_wrt_append)
      have "skip_key prefix (vkey y) \<notin> fst ` set update"
      proof
        assume "skip_key prefix (vkey y) \<in> fst ` set update"
        then obtain x where x: "x \<in> set (h # xs)" "fk prefix h y = fk prefix h x" using assms(4) fk [OF y] unfolding upd_ok_def by (metis imageE subsetD)
        then have "vkey y = vkey x" using fk_inject [of y x prefix h] pos y by auto
        then show False using x(1) n(2) h y by (metis image_eqI order_less_irrefl set_ConsD)
      qed
      then have "map_of update (skip_key prefix (vkey y)) = None" by (simp add: map_of_eq_None_iff)
      moreover have "DB_Get_str E d (skip_key prefix (vkey y)) = SkipNode_ToString (node_of y b)" using old(2) [of "xs @ a'" y b] 3 by simp
      ultimately show ?thesis unfolding get using n(1) by simp
    qed (simp add: get)
  qed
  show ?thesis unfolding sl_repr_def using hd nd by blast
qed

lemma nxt_map: "(\<And>y. vkey (f y) = vkey y \<and> vlevel (f y) = vlevel y) \<Longrightarrow> nxt i (map f ys) = nxt i ys"
  by (induction ys) auto

lemma overwrite_repr:
  assumes "ext_ok E" "sl_ok h ys" "sl_repr E d prefix h ys" "ys = a @ y # b"
  shows "sl_repr E (db_put E d (skip_key prefix (vkey y)) (SkipNode_ToString ((node_of y b)\<lparr>sn_value := v\<rparr>))) prefix h
    (map (\<lambda>z. if vkey z = vkey y then (vkey y, v, vlevel z) else z) ys)"
proof -
  let ?f = "\<lambda>z. if vkey z = vkey y then (vkey y, v, vlevel z) else z" and ?d = "db_put E d (skip_key prefix (vkey y)) (SkipNode_ToString ((node_of y b)\<lparr>sn_value := v\<rparr>))"
  have ok: "0 \<le> vkey y" using assms(2,4) by (simp add: sl_ok_def version_ok_def)
  have dist: "distinct (map vkey ys)" using assms(2) by (simp add: sl_ok_def desc_distinct)
  have nx: "nxt i (map ?f c) = nxt i c" for i c by (rule nxt_map) simp
  have n: "node_of z (map ?f c) = node_of z c" for z c by (simp add: node_of_def nx)
  have "DB_Get_str E ?d (skip_key prefix (vkey z)) = SkipNode_ToString (node_of z c)" if z: "map ?f ys = a' @ z # c" for a' z c
  proof -
    obtain a0 z0 c0 where z0: "ys = a0 @ z0 # c0" "z = ?f z0" "c = map ?f c0" using z by (auto simp: map_eq_append_conv map_eq_Cons_conv)
    show ?thesis
    proof (cases "vkey z0 = vkey y")
      case True
      then have "z0 = y \<and> c0 = b" using split_unique [OF dist z0(1) assms(4)] by blast
      then show ?thesis using assms(1) z0 by (simp add: node_of_def nx)
    next
      case False
      then show ?thesis using assms(1) z0(2,3) n sl_reprD [OF assms(3) z0(1)] by simp
    qed
  qed
  moreover have "DB_Get_str E ?d (head_key prefix) = SkipNode_ToString (node_of h (map ?f ys))"
    using assms(1,3) ok n by (simp add: sl_repr_def)
  ultimately show ?thesis unfolding sl_repr_def by blast
qed

lemma insert_splices:
  assumes "sl_ok h ys" "sl_repr E d prefix h ys" "version_ok n" "vkey n \<noteq> vkey h" "vkey n \<notin> vkey ` set ys"
  shows "\<exists>update. insert_levels E d prefix (vkey n) (vlevel n) (head_key prefix) (node_of h ys) (SkipNode_new (vkey n) (vval n) (vlevel n)) [] =
      Some (Inr (node_of n (upto_key (vkey n) ys), update)) \<and> upd_ok prefix h (above (vkey n) ys) (upto_key (vkey n) ys) n 0 update"
proof -
  let ?xs = "above (vkey n) ys" and ?zs = "upto_key (vkey n) ys"
  have ok: "vlevel h = maxLevel" "sorted_wrt (\<lambda>a b. vkey b < vkey a) ys" "\<forall>y\<in>set (h # ys). version_ok y" "vkey h \<notin> vkey ` set ys"
    using assms(1) by (simp_all add: sl_ok_def)
  have new: "SkipNode_new (vkey n) (vval n) (vlevel n) = \<lparr> sn_key = vkey n, sn_value = vval n, forward = map (\<lambda>j. if vlevel n \<le> j then nxt j ?zs else -1) [0..<vlevel n] \<rparr>"
    by (auto simp: SkipNode_new_def intro!: nth_equalityI)
  have cur: "node_of h ys = mix n (vlevel n) h ?xs ?zs" by (simp add: mix_old)
  have hk: "head_key prefix = fk prefix h h" by (simp add: fk_def)
  have d: "distinct (map vkey (h # ?xs))"
    using ok(4) desc_distinct [OF sorted_wrt_takeWhile [OF ok(2)]] by (auto dest: set_takeWhileD)
  show ?thesis unfolding new cur hk
  proof (rule insert_levels_ok [where pre = "[]" and post = ?xs, OF d _ _ _ above_load [OF assms(1,2)]])
    show "upd_ok prefix h ?xs ?zs n (vlevel n) []" by (auto simp: upd_ok_def mix_old)
  qed (use ok assms(3) upto_key_le [OF ok(2)] in \<open>auto simp: version_ok_def dest: set_takeWhileD\<close>)
qed

lemma SkipList_insert_ok:
  assumes "ext_ok E" "sl_ok h ys" "sl_repr E d prefix h ys" "version_ok (k, v, randomLevel rnd 1)"
  shows "\<exists>d'. SkipList_insert E rnd d prefix k v = Some (Inr d') \<and> sl_repr E d' prefix h (ins k v (randomLevel rnd 1) h ys)"
proof -
  let ?n = "(k, v, randomLevel rnd 1)"
  have ok: "\<forall>y\<in>set (h # ys). version_ok y" and k: "0 \<le> k" using assms(2,4) by (auto simp: sl_ok_def version_ok_def)
  have hd: "DB_Get_str E d (head_key prefix) = SkipNode_ToString (node_of h ys)" using assms(3) by (simp add: sl_repr_def)
  have p: "SkipNode_of (SkipNode_ToString (node_of h ys)) = Inr (node_of h ys)" using ok by (simp add: SkipNode_of_ToString node_of_ok)
  consider "k = vkey h" | "k \<noteq> vkey h" "k \<in> vkey ` set ys" | "k \<noteq> vkey h" "k \<notin> vkey ` set ys" by blast
  then show ?thesis
  proof cases
    case 1
    have "vkey h \<notin> vkey ` set ys" using assms(2) by (simp add: sl_ok_def)
    then have "sl_repr E (db_put E d (skip_key prefix (vkey h)) x) prefix h ys" for x
      using assms(1,3) k 1 by (auto simp: sl_repr_def)
    then show ?thesis using hd p 1 by (simp add: SkipList_insert_def SkipList_find_def ins_def)
  next
    case 2
    then obtain a y b where y: "ys = a @ y # b" "vkey y = k" by (metis imageE split_list)
    then have s: "DB_Get_str E d (skip_key prefix k) = SkipNode_ToString (node_of y b)" using sl_reprD [OF assms(3)] by blast
    moreover have "SkipNode_of (SkipNode_ToString (node_of y b)) = Inr (node_of y b)" using ok y(1) by (simp add: SkipNode_of_ToString node_of_ok)
    ultimately show ?thesis using hd 2 SkipList_find_ok [OF assms(2,3) k 2(1)] overwrite_repr [OF assms(1,2,3) y(1), of v, unfolded y(2)]
      by (simp add: SkipList_insert_def ins_def)
  next
    case 3
    have i: "ins k v (randomLevel rnd 1) h ys = above k ys @ ?n # upto_key k ys" using 3 by (simp add: ins_def)
    obtain update where u: "insert_levels E d prefix k (randomLevel rnd 1) (head_key prefix) (node_of h ys) (SkipNode_new k v (randomLevel rnd 1)) [] =
        Some (Inr (node_of ?n (upto_key k ys), update))" "upd_ok prefix h (above k ys) (upto_key k ys) ?n 0 update"
      using insert_splices [OF assms(2,3,4)] 3 by auto
    have "sl_ok h (above k ys @ ?n # upto_key k ys)" using ins_sl_ok [OF assms(2,4)] unfolding i .
    then have "sl_repr E (db_put E (update_nodes E update d) (skip_key prefix k) (SkipNode_ToString (node_of ?n (upto_key k ys)))) prefix h (above k ys @ ?n # upto_key k ys)"
      using splice_repr [OF assms(1) _ _ u(2)] assms(3) by simp
    then show ?thesis unfolding i using hd p u(1) 3 SkipList_find_ok [OF assms(2,3) k 3(1)] by (simp add: SkipList_insert_def Let_def del: One_nat_def)
  qed
qed

section \<open>Histories\<close>

text \<open>A history of insertions: the draws, the key and the value of each.\<close>

type_synonym history = "((nat \<Rightarrow> bool) \<times> int \<times> string) list"

fun inserts :: "'s ext \<Rightarrow> 's DB \<Rightarrow> string \<Rightarrow> history \<Rightarrow> 's DB result option" where
  "inserts E d prefix [] = Some (Inr d)"
| "inserts E d prefix ((rnd, k, v) # hs) = Option.bind (SkipList_insert E rnd d prefix k v) (\<lambda>m.
     case m of Inl e \<Rightarrow> Some (Inl e) | Inr d \<Rightarrow> inserts E d prefix hs)"

definition history_ok :: "history \<Rightarrow> bool" where
  "history_ok hs \<longleftrightarrow> (\<forall>(rnd, k, v)\<in>set hs. 0 \<le> k \<and> k < 2 ^ 63 \<and> CHR ''|'' \<notin> set v)"

fun ins_all :: "history \<Rightarrow> version \<Rightarrow> version list \<Rightarrow> version list" where
  "ins_all [] h ys = ys"
| "ins_all ((rnd, k, v) # hs) h ys = ins_all hs h (ins k v (randomLevel rnd 1) h ys)"

lemma randomLevel_1: "1 \<le> randomLevel rnd 1" "randomLevel rnd 1 \<le> maxLevel"
  using randomLevel_bounds [of 1 rnd] by (simp_all add: maxLevel_def)

lemma inserts_ok:
  assumes "ext_ok E" "sl_ok h ys" "sl_repr E d prefix h ys" "history_ok hs"
  shows "\<exists>d'. inserts E d prefix hs = Some (Inr d') \<and> sl_repr E d' prefix h (ins_all hs h ys) \<and> sl_ok h (ins_all hs h ys)"
  using assms(2-4)
proof (induction hs arbitrary: d ys)
  case (Cons x hs)
  obtain rnd k v where x: "x = (rnd, k, v)" by (cases x)
  have v: "version_ok (k, v, randomLevel rnd 1)" and hs: "history_ok hs"
    using Cons.prems(3) randomLevel_1 by (auto simp: version_ok_def history_ok_def x simp del: One_nat_def)
  obtain d' where "SkipList_insert E rnd d prefix k v = Some (Inr d')" "sl_repr E d' prefix h (ins k v (randomLevel rnd 1) h ys)"
    using SkipList_insert_ok [OF assms(1) Cons.prems(1,2) v] by blast
  then show ?case using Cons.IH [OF ins_sl_ok [OF Cons.prems(1) v] _ hs] by (simp add: x del: One_nat_def)
qed simp

lemma map_of_above: "(k::int) \<notin> vkey ` set ys \<Longrightarrow> map_of (above k ys @ (k, w) # upto_key k ys) = (map_of ys)(k \<mapsto> w)"
proof -
  assume "k \<notin> vkey ` set ys"
  then have "map_of (above k ys) k = None" by (auto simp: map_of_eq_None_iff dest: set_takeWhileD)
  moreover have "map_of ys x = (case map_of (above k ys) x of None \<Rightarrow> map_of (upto_key k ys) x | Some w \<Rightarrow> Some w)" for x
    by (metis map_add_def map_of_append takeWhile_dropWhile_id)
  ultimately show ?thesis by (auto simp: map_add_def split: option.splits)
qed

lemma map_of_ins:
  assumes "k' \<noteq> vkey h"
  shows "map_option fst (map_of (ins k v l h ys) k') = (if k' = k then Some v else map_option fst (map_of ys k'))"
proof -
  have "map_option fst (map_of (map (\<lambda>y. if vkey y = k then (k, v, vlevel y) else y) zs) k') =
      (if k' = k then map_option (\<lambda>_. v) (map_of zs k) else map_option fst (map_of zs k'))" for zs
    by (induction zs) auto
  note ow = this
  consider "k = vkey h" | "k \<noteq> vkey h" "k \<in> vkey ` set ys" | "k \<noteq> vkey h" "k \<notin> vkey ` set ys" by blast
  then show ?thesis
  proof cases
    case 2
    then have "map_of ys k \<noteq> None" by (simp add: map_of_eq_None_iff)
    then show ?thesis using 2 ow [of ys] by (auto simp: ins_def)
  next
    case 3
    then show ?thesis using map_of_above [OF 3(2), of "(v, l)"] by (simp add: ins_def del: map_of_append)
  qed (use assms in \<open>simp add: ins_def\<close>)
qed

lemma map_of_ins_all:
  assumes "k' \<noteq> vkey h"
  shows "map_option fst (map_of (ins_all hs h ys) k') = (case map_of (rev (map snd hs)) k' of Some v \<Rightarrow> Some v | None \<Rightarrow> map_option fst (map_of ys k'))"
proof (induction hs arbitrary: ys)
  case (Cons x hs)
  then show ?case by (cases x) (simp add: map_of_ins [OF assms] map_add_def split: option.split)
qed simp

text \<open>The value in the answer of \<open>find\<close>; the empty string is the answer for an absent key.\<close>

definition found_value :: "string result option \<Rightarrow> string option result option" where
  "found_value r = map_option (\<lambda>m. rbind m (\<lambda>s. if s = [] then Inr None else rbind (SkipNode_of s) (\<lambda>n. Inr (Some (sn_value n))))) r"

lemma found_ok:
  assumes "sl_ok h ys" "sl_repr E d prefix h ys" "0 \<le> k"
  shows "found_value (SkipList_find E d prefix k) = Some (Inr (if k = vkey h then Some (vval h) else map_option fst (map_of ys k)))"
proof -
  have ok: "\<forall>y\<in>set (h # ys). version_ok y" using assms(1) by (simp add: sl_ok_def)
  have hd: "DB_Get_str E d (head_key prefix) = SkipNode_ToString (node_of h ys)" using assms(2) by (simp add: sl_repr_def)
  consider "k = vkey h" | "k \<noteq> vkey h" "k \<in> vkey ` set ys" | "k \<noteq> vkey h" "k \<notin> vkey ` set ys" by blast
  then show ?thesis
  proof cases
    case 1
    have "SkipNode_of (SkipNode_ToString (node_of h ys)) = Inr (node_of h ys)" using ok by (simp add: SkipNode_of_ToString node_of_ok)
    then show ?thesis using hd 1 by (simp add: found_value_def SkipList_find_def) (simp add: node_of_def)
  next
    case 2
    then obtain a y b where y: "ys = a @ y # b" "vkey y = k" by (metis imageE split_list)
    have "distinct (map vkey ys)" using assms(1) by (simp add: sl_ok_def desc_distinct)
    then have "map_of ys k = Some (snd y)" using y by (metis in_set_conv_decomp map_of_is_SomeI prod.collapse)
    moreover have "SkipNode_of (SkipNode_ToString (node_of y b)) = Inr (node_of y b)" using ok y(1) by (simp add: SkipNode_of_ToString node_of_ok)
    moreover have "DB_Get_str E d (skip_key prefix k) = SkipNode_ToString (node_of y b)" using sl_reprD [OF assms(2)] y by blast
    ultimately show ?thesis using SkipList_find_ok [OF assms 2(1)] 2 by (simp add: found_value_def) (simp add: node_of_def)
  next
    case 3
    then show ?thesis using SkipList_find_ok [OF assms 3(1)] by (simp add: found_value_def map_of_eq_None_iff)
  qed
qed

lemma first_insert:
  assumes "ext_ok E" "DB_Get_str E d (head_key prefix) = []"
  shows "\<exists>d'. SkipList_insert E rnd d prefix k v = Some (Inr d') \<and> sl_repr E d' prefix (k, v, maxLevel) []"
  using assms by (auto simp: SkipList_insert_def sl_repr_def node_of_def SkipNode_new_def map_replicate_const)

text \<open>
  C30: the skip list behaves as a plain association list: after any history of insertions, whatever the levels drawn, a search
  for a key returns the value last inserted for it, and nothing for a key never inserted; only the first key inserted keeps
  its first value for good.
\<close>
theorem skip_list_equiv:
  assumes "ext_ok E" "DB_Get_str E d (head_key prefix) = []" "history_ok ((rnd, k0, v0) # hs)" "0 \<le> k"
  shows "\<exists>d'. inserts E d prefix ((rnd, k0, v0) # hs) = Some (Inr d') \<and>
    found_value (SkipList_find E d' prefix k) = Some (Inr (map_of ((k0, v0) # rev (map snd hs)) k))"
proof -
  obtain d1 where d1: "SkipList_insert E rnd d prefix k0 v0 = Some (Inr d1)" "sl_repr E d1 prefix (k0, v0, maxLevel) []"
    using first_insert [OF assms(1,2)] by blast
  have "sl_ok (k0, v0, maxLevel) []" "history_ok hs" using assms(3) by (auto simp: history_ok_def sl_ok_def version_ok_def maxLevel_def)
  then obtain d' where d': "inserts E d1 prefix hs = Some (Inr d')" "sl_repr E d' prefix (k0, v0, maxLevel) (ins_all hs (k0, v0, maxLevel) [])"
      "sl_ok (k0, v0, maxLevel) (ins_all hs (k0, v0, maxLevel) [])"
    using inserts_ok [OF assms(1) _ d1(2)] by blast
  then show ?thesis using d1(1) found_ok [OF d'(3,2) assms(4)] map_of_ins_all [of k "(k0, v0, maxLevel)" hs "[]"]
    by (auto split: option.splits)
qed

theorem skip_list_equiv_witness:
  "\<exists>d'. inserts map_ext map_db ''k'' [(\<lambda>_. False, 5, ''a''), (\<lambda>l. l < 3, 9, ''b''), (\<lambda>_. True, 2, ''c''), (\<lambda>_. False, 9, ''d'')] = Some (Inr d') \<and>
    found_value (SkipList_find map_ext d' ''k'' 9) = Some (Inr (Some ''d''))"
  using skip_list_equiv [OF ext_ok_map_ext, of map_db "''k''" "\<lambda>_. False" 5 "''a''" "[(\<lambda>l. l < 3, 9, ''b''), (\<lambda>_. True, 2, ''c''), (\<lambda>_. False, 9, ''d'')]" 9]
  by (simp add: history_ok_def DB_Get_str_def DB_Get_def DB_Open_def map_ext_def del: inserts.simps)

section \<open>Scanning\<close>

text \<open>\<open>scan\<close> returns the head, that is the oldest insertion, and then the greatest keys in descending order.\<close>

lemma scan_nodes_ok:
  assumes "\<forall>y\<in>set ys. version_ok y" "\<And>a y b. ys = a @ y # b \<Longrightarrow> DB_Get_str E d (skip_key prefix (vkey y)) = SkipNode_ToString (node_of y b)"
    and "ys = c @ y # b"
  shows "scan_nodes E d prefix n (to_string_int (vkey y)) = Inr (take n (map (\<lambda>i. SkipNode_ToString (node_of ((y # b) ! i) (drop (Suc i) (y # b)))) [0..<length (y # b)]))"
  using assms(3)
proof (induction n arbitrary: c y b)
  case (Suc n)
  have ok: "version_ok y" "\<forall>z\<in>set b. version_ok z" using assms(1) Suc.prems by auto
  have g: "DB_Get_str E d (prefix @ ''|'' @ to_string_int (vkey y)) = SkipNode_ToString (node_of y b)" using assms(2) [OF Suc.prems] by (simp add: skip_key_def)
  have p: "SkipNode_of (SkipNode_ToString (node_of y b)) = Inr (node_of y b)" using ok by (simp add: SkipNode_of_ToString node_of_ok)
  have f: "vec_at (forward (node_of y b)) 0 = Inr (nxt 0 b)" using ok(1) by (simp add: vec_at_def version_ok_def)
  have m: "map (\<lambda>i. SkipNode_ToString (node_of ((y # b) ! i) (drop (Suc i) (y # b)))) [0..<length (y # b)] =
      SkipNode_ToString (node_of y b) # map (\<lambda>i. SkipNode_ToString (node_of (b ! i) (drop (Suc i) b))) [0..<length b]"
    by (simp add: upt_conv_Cons flip: map_Suc_upt del: upt_Suc)
  show ?case
  proof (cases b)
    case Nil
    then show ?thesis using g p f unfolding m by simp
  next
    case (Cons z b')
    then have "nxt 0 b = vkey z" "0 \<le> vkey z" using ok(2) by (auto simp: version_ok_def)
    moreover have "ys = (c @ [y]) @ z # b'" using Suc.prems Cons by simp
    ultimately show ?thesis using g p f Suc.IH [of "c @ [y]" z b'] Cons unfolding m by simp
  qed
qed simp

lemma SkipList_scan_ok:
  assumes "sl_ok h ys" "sl_repr E d prefix h ys"
  shows "SkipList_scan E d prefix n = Inr (take (nat n) (map (\<lambda>i. SkipNode_ToString (node_of ((h # ys) ! i) (drop (Suc i) (h # ys)))) [0..<length (h # ys)]))"
proof (cases "nat n")
  case (Suc m)
  have ok: "version_ok h" "\<forall>z\<in>set ys. version_ok z" using assms(1) by (simp_all add: sl_ok_def)
  have g: "DB_Get_str E d (prefix @ ''|head'') = SkipNode_ToString (node_of h ys)" using assms(2) by (simp add: sl_repr_def head_key_def)
  have p: "SkipNode_of (SkipNode_ToString (node_of h ys)) = Inr (node_of h ys)" using ok by (simp add: SkipNode_of_ToString node_of_ok)
  have f: "vec_at (forward (node_of h ys)) 0 = Inr (nxt 0 ys)" using ok(1) by (simp add: vec_at_def version_ok_def)
  have m: "map (\<lambda>i. SkipNode_ToString (node_of ((h # ys) ! i) (drop (Suc i) (h # ys)))) [0..<length (h # ys)] =
      SkipNode_ToString (node_of h ys) # map (\<lambda>i. SkipNode_ToString (node_of (ys ! i) (drop (Suc i) ys))) [0..<length ys]"
    by (simp add: upt_conv_Cons flip: map_Suc_upt del: upt_Suc)
  show ?thesis
  proof (cases ys)
    case Nil
    then show ?thesis using g p f Suc unfolding m by (simp add: SkipList_scan_def)
  next
    case (Cons z b)
    then have "nxt 0 ys = vkey z" "0 \<le> vkey z" using ok(2) by (auto simp: version_ok_def)
    moreover have "scan_nodes E d prefix m (to_string_int (vkey z)) =
        Inr (take m (map (\<lambda>i. SkipNode_ToString (node_of (ys ! i) (drop (Suc i) ys))) [0..<length ys]))"
      using scan_nodes_ok [where c = "[]" and y = z and b = b and n = m, OF ok(2) sl_reprD [OF assms(2)]] by (simp only: Cons append_Nil simp_thms)
    ultimately show ?thesis using g p f Suc unfolding m by (simp add: SkipList_scan_def)
  qed
qed (simp add: SkipList_scan_def)

section \<open>The interface of an index of versions\<close>

text \<open>
  \<open>holds e d p m\<close>: under the name \<open>p\<close> the store \<open>d\<close> keeps the versions \<open>m\<close>, by timestamp; \<open>good\<close> are the versions that can be
  represented; \<open>r\<close> are the random draws.
\<close>

locale version_index =
  fixes lawful :: "'e \<Rightarrow> bool"
    and holds :: "'e \<Rightarrow> 'd \<Rightarrow> 'p \<Rightarrow> (int \<rightharpoonup> 'v) \<Rightarrow> bool"
    and add :: "'e \<Rightarrow> 'r \<Rightarrow> 'd \<Rightarrow> 'p \<Rightarrow> int \<Rightarrow> 'v \<Rightarrow> 'd result option"
    and look :: "'e \<Rightarrow> 'd \<Rightarrow> 'p \<Rightarrow> int \<Rightarrow> 'v option result option"
    and good :: "int \<Rightarrow> 'v \<Rightarrow> bool"
  assumes add_new: "lawful e \<Longrightarrow> holds e d p m \<Longrightarrow> m t = None \<Longrightarrow> good t v \<Longrightarrow> \<exists>d'. add e r d p t v = Some (Inr d') \<and> holds e d' p (m(t \<mapsto> v))"
    and look_holds: "lawful e \<Longrightarrow> holds e d p m \<Longrightarrow> 0 \<le> t \<Longrightarrow> look e d p t = Some (Inr (m t))"
begin

lemma look_added:
  assumes "lawful e" "holds e d p m" "m t = None" "good t v" "0 \<le> t'"
  shows "\<exists>d'. add e r d p t v = Some (Inr d') \<and> look e d' p t' = Some (Inr (if t' = t then Some v else m t'))"
proof -
  obtain d' where d': "add e r d p t v = Some (Inr d')" "holds e d' p (m(t \<mapsto> v))" using add_new [OF assms(1-4)] by blast
  show ?thesis using d'(1) look_holds [OF assms(1) d'(2) assms(5)] by auto
qed

lemma holds_unique:
  assumes "lawful e" "holds e d p m" "holds e d p m'" "0 \<le> t"
  shows "m t = m' t"
  using look_holds [OF assms(1,2,4)] look_holds [OF assms(1,3,4)] by simp

end

definition sl_holds :: "'s ext \<Rightarrow> 's DB \<Rightarrow> string \<Rightarrow> (int \<rightharpoonup> string) \<Rightarrow> bool" where
  "sl_holds E d p m \<longleftrightarrow> m = Map.empty \<and> DB_Get_str E d (head_key p) = [] \<or>
     (\<exists>h ys. sl_ok h ys \<and> sl_repr E d p h ys \<and> m = (\<lambda>t. if t = vkey h then Some (vval h) else map_option fst (map_of ys t)))"

definition sl_good :: "int \<Rightarrow> string \<Rightarrow> bool" where
  "sl_good t v \<longleftrightarrow> 0 \<le> t \<and> t < 2 ^ 63 \<and> CHR ''|'' \<notin> set v"

interpretation skip_index: version_index ext_ok sl_holds SkipList_insert "\<lambda>E d p t. found_value (SkipList_find E d p t)" sl_good
proof
  fix E :: "'a ext" and d p m t v and rnd :: "nat \<Rightarrow> bool"
  assume a: "ext_ok E" "sl_holds E d p m" "m t = None" "sl_good t v"
  have v: "version_ok (t, v, randomLevel rnd 1)" "version_ok (t, v, maxLevel)"
    using a(4) randomLevel_1 [of rnd] by (auto simp: version_ok_def sl_good_def maxLevel_def simp del: One_nat_def)
  show "\<exists>d'. SkipList_insert E rnd d p t v = Some (Inr d') \<and> sl_holds E d' p (m(t \<mapsto> v))"
  proof (cases "m = Map.empty \<and> DB_Get_str E d (head_key p) = []")
    case True
    obtain d' where d': "SkipList_insert E rnd d p t v = Some (Inr d')" "sl_repr E d' p (t, v, maxLevel) []" using first_insert [OF a(1), of d p rnd t v] True by blast
    moreover have "sl_ok (t, v, maxLevel) []" using v(2) by (simp add: sl_ok_def)
    moreover have "m(t \<mapsto> v) = (\<lambda>x. if x = vkey (t, v, maxLevel) then Some (vval (t, v, maxLevel)) else map_option fst (map_of [] x))" using True by auto
    ultimately show ?thesis unfolding sl_holds_def by blast
  next
    case False
    then obtain h ys where h: "sl_ok h ys" "sl_repr E d p h ys" "m = (\<lambda>t. if t = vkey h then Some (vval h) else map_option fst (map_of ys t))"
      using a(2) unfolding sl_holds_def by blast
    have t: "t \<noteq> vkey h" using a(3) h(3) by auto
    obtain d' where d': "SkipList_insert E rnd d p t v = Some (Inr d')" "sl_repr E d' p h (ins t v (randomLevel rnd 1) h ys)" using SkipList_insert_ok [OF a(1) h(1,2) v(1)] by blast
    moreover have "m(t \<mapsto> v) = (\<lambda>x. if x = vkey h then Some (vval h) else map_option fst (map_of (ins t v (randomLevel rnd 1) h ys) x))"
      using t map_of_ins [of _ h t v "randomLevel rnd 1" ys] unfolding h(3) by (auto simp del: One_nat_def)
    ultimately show ?thesis using ins_sl_ok [OF h(1) v(1)] unfolding sl_holds_def by blast
  qed
next
  fix E :: "'a ext" and d p m and t :: int
  assume a: "ext_ok E" "sl_holds E d p m" "0 \<le> t"
  show "found_value (SkipList_find E d p t) = Some (Inr (m t))"
  proof (cases "m = Map.empty \<and> DB_Get_str E d (head_key p) = []")
    case True
    then show ?thesis by (simp add: SkipList_find_def found_value_def)
  next
    case False
    then show ?thesis using a found_ok unfolding sl_holds_def by blast
  qed
qed

end
