(* ===== verification/MPT.thy ===== *)
theory MPT
  imports Store
begin

text \<open>
  LedgerDB's Merkle Patricia trie (\<open>src/ledger/ledgerdb/mpt\<close>): keys as nibbles (\<open>mpt_config.h\<close>), the binary nodes
  (\<open>mpt_node.h\<close>, \<open>mpt_node.cc\<close>), the delta of new nodes (\<open>mpt_delta.h\<close>) and the operations of \<open>trie.h\<close> and \<open>trie.cc\<close>.
  A node is a chunk whose children are linked by the hash of their bytes.

  Reading behind the end of a buffer or dereferencing a null pointer is \<^term>\<open>Inl Out_of_bounds\<close>; an operation that follows
  links may not return on a store with cycles, which is the value \<^term>\<open>None\<close>.
\<close>

section \<open>Results of operations that may not return\<close>

definition obind :: "'a result option \<Rightarrow> ('a \<Rightarrow> 'b result option) \<Rightarrow> 'b result option" where
  "obind m f = Option.bind m (\<lambda>r. case r of Inl e \<Rightarrow> Some (Inl e) | Inr x \<Rightarrow> f x)"

lemma obind_simps [simp]: "obind None f = None" "obind (Some (Inl e)) f = Some (Inl e)" "obind (Some (Inr x)) f = f x"
  by (simp_all add: obind_def)

lemma obind_Some_iff: "obind m f = Some r \<longleftrightarrow> (\<exists>e. m = Some (Inl e) \<and> r = Inl e) \<or> (\<exists>x. m = Some (Inr x) \<and> f x = Some r)"
  by (cases m) (auto simp: obind_def split: sum.splits)

lemma obind_mono [partial_function_mono]:
  assumes "mono_option A" "\<And>y. mono_option (\<lambda>f. B f y)"
  shows "mono_option (\<lambda>f. obind (A f) (B f))"
  unfolding obind_def
  by (intro bind_mono assms) (auto simp: monotone_def split: sum.split intro: monotoneD [OF assms(2)] option.leq_refl)

section \<open>Keys\<close>

text \<open>\<open>int8_t\<close> division and remainder round towards zero; the results are stored as \<open>char\<close>.\<close>

definition int8_of :: "char \<Rightarrow> int" where
  "int8_of c = (let n = of_char c in if n < 128 then n else n - 256)"

definition trunc_div16 :: "int \<Rightarrow> int" where
  "trunc_div16 x = (if 0 \<le> x then x div 16 else - ((- x) div 16))"

definition char_of_int :: "int \<Rightarrow> char" where
  "char_of_int x = char_of (nat (x mod 256))"

definition KeybytesToHex :: "string \<Rightarrow> string" where
  "KeybytesToHex key = concat (map (\<lambda>c. let x = int8_of c; q = trunc_div16 x in [char_of_int q, char_of_int (x - 16 * q)]) key) @ [char_of_int 16]"

fun PrefixLen :: "string \<Rightarrow> string \<Rightarrow> nat" where
  "PrefixLen (a # as) (b # bs) = (if a = b then Suc (PrefixLen as bs) else 0)"
| "PrefixLen _ _ = 0"

text \<open>\<open>key[i]\<close>, where position \<open>size()\<close> holds a zero, and \<open>(size_t) c\<close> for a signed \<open>char\<close>.\<close>

definition str_at :: "string \<Rightarrow> nat \<Rightarrow> char result" where
  "str_at s i = (if i < length s then Inr (s ! i) else if i = length s then Inr (char_of_int 0) else Inl Out_of_bounds)"

definition char_index :: "char \<Rightarrow> nat" where
  "char_index c = (if (of_char c :: nat) < 128 then of_char c else 2 ^ 64 - 256 + of_char c)"

section \<open>Nodes\<close>

definition kHashSize :: nat where
  "kHashSize = kMetaLength + kByteLength"

definition node_type :: "Chunk \<Rightarrow> ChunkType result" where
  "node_type c = (if length (head c) < kMetaLength then Inl Out_of_bounds else Inr (chunk_type c))"

text \<open>The element count at the start of the data of a node.\<close>

definition data_count :: "Chunk \<Rightarrow> nat result" where
  "data_count c = (if length (chunk_data c) < 8 then Inl Out_of_bounds else Inr (u64_at (chunk_data c)))"

definition MPT_numElements :: "Chunk \<Rightarrow> nat result" where
  "MPT_numElements c = rbind (node_type c) (\<lambda>ty. if ty = kMPTFull \<or> ty = kMPTShort then data_count c
     else if ty = kMPTValue then Inr 1 else Inr 0)"

text \<open>The number of elements below a child, as \<open>Encode\<close> and \<open>setChildAtIndex\<close> compute it.\<close>

definition child_count :: "Chunk \<Rightarrow> nat result" where
  "child_count c = rbind (node_type c) (\<lambda>ty. if ty = kMPTNil then Inr 0 else if ty = kMPTValue then Inr 1 else data_count c)"

text \<open>The members that the constructors of the node classes compute (\<open>PrecomputeOffset\<close>).\<close>

definition full_child :: "Chunk \<Rightarrow> nat \<Rightarrow> Chunk result" where
  "full_child node index = (if index < 17 then Inr (Some (drop (8 + index * kHashSize) (chunk_data node))) else Inl Out_of_bounds)"

definition MPTShortNode :: "Chunk \<Rightarrow> (string \<times> Chunk) result" where
  "MPTShortNode node = (let data = chunk_data node; key_len = u32_at (drop 8 data) in
     if length data < 12 + key_len then Inl Out_of_bounds
     else Inr (take key_len (drop 12 data), Some (drop (12 + key_len) data)))"

definition childHash :: "Chunk \<Rightarrow> Hash result" where
  "childHash node = (if length (chunk_data node) < kByteLength then Inl Out_of_bounds else Inr (Hash_ptr (chunk_data node)))"

definition getVal :: "Chunk \<Rightarrow> string result" where
  "getVal node = (if numBytes node < kMetaLength \<or> length (head node) < numBytes node then Inl Out_of_bounds
     else Inr (take (numBytes node - kMetaLength) (chunk_data node)))"

definition MPTNil_Encode :: Chunk where
  "MPTNil_Encode = Chunk_new kMPTNil []"

definition MPTValue_Encode :: "string \<Rightarrow> Chunk" where
  "MPTValue_Encode value = Chunk_new kMPTValue value"

definition MPTHash_Encode :: "'s ext \<Rightarrow> Chunk \<Rightarrow> Chunk" where
  "MPTHash_Encode E child = Chunk_new kMPTHash (hval (chunk_hash E child))"

definition MPTShort_Encode :: "'s ext \<Rightarrow> string \<Rightarrow> Chunk \<Rightarrow> Chunk result" where
  "MPTShort_Encode E key node = rbind (node_type node) (\<lambda>ty. rbind (if ty = kMPTValue then Inr 1 else data_count node) (\<lambda>num_elem.
     Inr (Chunk_new kMPTShort (le_bytes 8 num_elem @ le_bytes 4 (length key) @ key @
       (if ty = kMPTValue then chunk_bytes node else head (MPTHash_Encode E node))))))"

fun sum_counts :: "Chunk list \<Rightarrow> nat result" where
  "sum_counts [] = Inr 0"
| "sum_counts (c # cs) = rbind (child_count c) (\<lambda>n. rbind (sum_counts cs) (\<lambda>m. Inr (n + m)))"

definition MPTFull_Encode :: "'s ext \<Rightarrow> Chunk list \<Rightarrow> Chunk result" where
  "MPTFull_Encode E nodes = (if length nodes \<noteq> 17 then Inr None
     else rbind (sum_counts nodes) (\<lambda>num_elem. Inr (Chunk_new kMPTFull
       (le_bytes 8 num_elem @ concat (map (\<lambda>c. head (MPTHash_Encode E c)) (take 16 nodes)) @ chunk_bytes (nodes ! 16)))))"

text \<open>
  \<open>setChildAtIndex\<close>.  The new buffer holds \<open>capacity\<close> bytes, computed from the sizes of the old node and of both children;
  copies that do not fill it exactly leave it undefined.
\<close>

definition setChildAtIndex :: "'s ext \<Rightarrow> Chunk \<Rightarrow> nat \<Rightarrow> Chunk \<Rightarrow> Chunk \<Rightarrow> Chunk result" where
  "setChildAtIndex E node index child o_child =
     rbind (child_count child) (\<lambda>new_elem. rbind (child_count o_child) (\<lambda>old_elem. rbind (data_count node) (\<lambda>cur.
     rbind (full_child node index) (\<lambda>old.
       let num_elem = (cur + new_elem + (2 ^ 64 - old_elem)) mod 2 ^ 64;
           value = (if index = 16 then Some (head child) else MPTHash_Encode E child);
           capacity = (numBytes node + 2 ^ 32 - kMetaLength + numBytes value + 2 ^ 32 - numBytes old) mod 2 ^ 32;
           tail = 8 + kHashSize * (index + 1);
           data = le_bytes 8 num_elem @ take (kHashSize * index) (drop 8 (chunk_data node)) @ chunk_bytes value @
             (if index < 16 then take (capacity - tail) (drop tail (chunk_data node)) else [])
       in if length data = capacity then Inr (Chunk_new kMPTFull data) else Inl Out_of_bounds))))"

section \<open>The delta\<close>

type_synonym mpt_delta = "string \<rightharpoonup> Chunk"

definition Delta_Create :: "mpt_delta \<Rightarrow> Hash \<Rightarrow> Chunk \<Rightarrow> mpt_delta" where
  "Delta_Create m h c = (if m (hval h) = None then m(hval h \<mapsto> c) else m)"

definition Delta_Get :: "mpt_delta \<Rightarrow> Hash \<Rightarrow> Chunk" where
  "Delta_Get m h = (case m (hval h) of None \<Rightarrow> None | Some c \<Rightarrow> Some (head c))"

text \<open>A node is entered into the delta under its hash and read back from there.\<close>

definition create_and_get :: "'s ext \<Rightarrow> mpt_delta \<Rightarrow> Chunk \<Rightarrow> Chunk \<times> mpt_delta" where
  "create_and_get E m c = (let h = chunk_hash E c; m' = Delta_Create m h c in (Delta_Get m' h, m'))"

text \<open>
  \<open>MPTDelta::Commit\<close> with the pending work as a list: a node to visit, or a node to write once its children are written.
\<close>

datatype mpt_work = CVisit Chunk | CPut Chunk

fun mpt_commit_children :: "'s ext \<Rightarrow> Chunk \<Rightarrow> nat list \<Rightarrow> mpt_work list result" where
  "mpt_commit_children E node [] = Inr []"
| "mpt_commit_children E node (i # is) = rbind (full_child node i) (\<lambda>child. rbind (node_type child) (\<lambda>ty.
     rbind (if ty = kMPTHash then rbind (childHash child) (\<lambda>h. Inr (\<not> Hash_eq h (chunk_hash E MPTNil_Encode))) else Inr False) (\<lambda>go.
     rbind (mpt_commit_children E node is) (\<lambda>ws. Inr (if go then CVisit child # ws else ws)))))"

definition commit_put :: "'s ext \<Rightarrow> mpt_delta \<Rightarrow> Chunk \<Rightarrow> 's DB \<Rightarrow> 's DB" where
  "commit_put E m node d = (let h = chunk_hash E node; chunk = Delta_Get m h in
     if \<not> Chunk_empty chunk \<and> \<not> Hash_eq h (chunk_hash E MPTNil_Encode) then snd (DB_Put_hash E d h chunk) else d)"

partial_function (option) Delta_Commit :: "'s ext \<Rightarrow> mpt_delta \<Rightarrow> mpt_work list \<Rightarrow> 's DB \<Rightarrow> 's DB result option" where
  "Delta_Commit E m pending d = (case pending of
      [] \<Rightarrow> Some (Inr d)
    | CPut node # rest \<Rightarrow> Delta_Commit E m rest (commit_put E m node d)
    | CVisit node # rest \<Rightarrow> obind (Some (node_type node)) (\<lambda>ty.
        if ty = kMPTFull then obind (Some (mpt_commit_children E node [0..<17])) (\<lambda>ws. Delta_Commit E m (ws @ CPut node # rest) d)
        else if ty = kMPTShort then obind (Some (MPTShortNode node)) (\<lambda>(key, child). Delta_Commit E m (CVisit child # CPut node # rest) d)
        else if ty = kMPTHash then obind (Some (childHash node)) (\<lambda>h.
          let chunk = Delta_Get m h in Delta_Commit E m (if Chunk_empty chunk then rest else CVisit chunk # rest) d)
        else Delta_Commit E m rest d))"

section \<open>The trie\<close>

record Trie =
  root_node :: Chunk

definition SetNodeForHash :: "'s ext \<Rightarrow> 's DB \<Rightarrow> Hash \<Rightarrow> Chunk \<times> 's DB" where
  "SetNodeForHash E d root_hash =
     (if Hash_eq root_hash (chunk_hash E MPTNil_Encode) then (MPTNil_Encode, d)
      else let (chunk, d') = DB_Get_hash E d root_hash in (if Chunk_empty chunk then MPTNil_Encode else chunk, d'))"

definition Trie_open :: "'s ext \<Rightarrow> 's DB \<Rightarrow> Hash \<Rightarrow> Trie \<times> 's DB" where
  "Trie_open E d root_hash = (let (c, d') = SetNodeForHash E d root_hash in (\<lparr>root_node = c\<rparr>, d'))"

definition GetHashNodeChild :: "'s ext \<Rightarrow> mpt_delta \<Rightarrow> Chunk \<Rightarrow> 's DB \<Rightarrow> (Chunk \<times> 's DB) result" where
  "GetHashNodeChild E m hash_node d = rbind (node_type hash_node) (\<lambda>ty.
     if ty \<noteq> kMPTHash then Inr (MPTNil_Encode, d)
     else rbind (childHash hash_node) (\<lambda>h. let value = Delta_Get m h in
       if Chunk_empty value then
         (let (chunk, d') = DB_Get_hash E d h in Inr (if Chunk_empty chunk then MPTNil_Encode else Some (head chunk), d'))
       else Inr (value, d)))"

partial_function (option) Trie_TryGet :: "'s ext \<Rightarrow> Chunk \<Rightarrow> string \<Rightarrow> nat \<Rightarrow> 's DB \<Rightarrow> (string \<times> 's DB) result option" where
  "Trie_TryGet E node key pos d = obind (Some (node_type node)) (\<lambda>ty.
     if ty = kMPTFull then
       obind (Some (str_at key pos)) (\<lambda>c. obind (Some (full_child node (char_index c))) (\<lambda>child. Trie_TryGet E child key (pos + 1) d))
     else if ty = kMPTShort then obind (Some (MPTShortNode node)) (\<lambda>(k, child).
       if length key < pos then Some (Inl Out_of_range)
       else if length key - pos < length k \<or> k \<noteq> take (length k) (drop pos key) then Some (Inr ([], d))
       else Trie_TryGet E child key (pos + length k) d)
     else if ty = kMPTHash then obind (Some (childHash node)) (\<lambda>h. let (child, d') = DB_Get_hash E d h in
       Trie_TryGet E (if Chunk_empty child then MPTNil_Encode else child) key pos d')
     else if ty = kMPTValue then obind (Some (getVal node)) (\<lambda>v. Some (Inr (v, d)))
     else Some (Inr ([], d)))"

definition Trie_Get :: "'s ext \<Rightarrow> Trie \<Rightarrow> string \<Rightarrow> 's DB \<Rightarrow> (string \<times> 's DB) result option" where
  "Trie_Get E t key d = Trie_TryGet E (root_node t) (KeybytesToHex key) 0 d"

text \<open>
  \<open>Insert\<close> returns the new node, the delta and the store (whose cache changes).  The branch made where the keys part inserts
  both rests below empty nodes, so it does not recurse further than one call.
\<close>

definition insert_nil :: "'s ext \<Rightarrow> string \<Rightarrow> Chunk \<Rightarrow> mpt_delta \<Rightarrow> (Chunk \<times> mpt_delta) result" where
  "insert_nil E key value m = (if key = [] then Inr (Some (head value), m)
     else rbind (MPTShort_Encode E key value) (\<lambda>chunk. Inr (create_and_get E m chunk)))"

definition make_branch :: "'s ext \<Rightarrow> string \<Rightarrow> string \<Rightarrow> Chunk \<Rightarrow> Chunk \<Rightarrow> mpt_delta \<Rightarrow> 's DB \<Rightarrow> (Chunk \<times> mpt_delta \<times> 's DB) result" where
  "make_branch E key ori_key child value m d = (let match_len = PrefixLen key ori_key; nils = replicate 17 MPTNil_Encode in
     rbind (str_at ori_key match_len) (\<lambda>co. rbind (str_at key match_len) (\<lambda>cu.
     rbind (substr_from ori_key (match_len + 1)) (\<lambda>new_ori_key. rbind (substr_from key (match_len + 1)) (\<lambda>new_key.
     rbind (node_type child) (\<lambda>ty. rbind (if ty = kMPTHash then GetHashNodeChild E m child d else Inr (child, d)) (\<lambda>(child, d).
     rbind (insert_nil E new_ori_key child m) (\<lambda>(bo, m). rbind (insert_nil E new_key value m) (\<lambda>(bu, m).
       if char_index co \<ge> 17 \<or> char_index cu \<ge> 17 then Inl Out_of_bounds
       else rbind (MPTFull_Encode E (nils[char_index co := bo, char_index cu := bu])) (\<lambda>branch.
         if match_len = 0 then (let (c, m) = create_and_get E m branch in Inr (c, m, d))
         else rbind (MPTShort_Encode E (take match_len key) branch) (\<lambda>new_root.
           let (c, m) = create_and_get E (Delta_Create m (chunk_hash E branch) branch) new_root in Inr (c, m, d))))))))))))"

partial_function (option) Trie_Insert :: "'s ext \<Rightarrow> Chunk \<Rightarrow> string \<Rightarrow> Chunk \<Rightarrow> mpt_delta \<Rightarrow> 's DB
    \<Rightarrow> (Chunk \<times> mpt_delta \<times> 's DB) result option" where
  "Trie_Insert E node key value m d =
     (if key = [] then Some (Inr (Some (head value), m, d))
      else obind (Some (node_type node)) (\<lambda>ty.
        if ty = kMPTFull then (let index = char_index (hd key) in
          obind (Some (full_child node index)) (\<lambda>child.
          obind (Some (if index \<noteq> 16 then GetHashNodeChild E m child d else Inr (child, d))) (\<lambda>(ori_child, d).
          obind (Trie_Insert E ori_child (tl key) value m d) (\<lambda>(new_child, m, d).
          obind (Some (setChildAtIndex E node index new_child ori_child)) (\<lambda>new_root.
            let (c, m) = create_and_get E m new_root in Some (Inr (c, m, d)))))))
        else if ty = kMPTShort then obind (Some (MPTShortNode node)) (\<lambda>(ori_key, child).
          if PrefixLen key ori_key = length ori_key then
            obind (Trie_Insert E child (drop (length ori_key) key) value m d) (\<lambda>(new_child, m, d).
            obind (Some (MPTShort_Encode E ori_key new_child)) (\<lambda>new_root.
              let (c, m) = create_and_get E m new_root in Some (Inr (c, m, d))))
          else Some (make_branch E key ori_key child value m d))
        else if ty = kMPTHash then obind (Some (GetHashNodeChild E m node d)) (\<lambda>(child, d). Trie_Insert E child key value m d)
        else if ty = kMPTNil then Some (rbind (insert_nil E key value m) (\<lambda>(c, m). Inr (c, m, d)))
        else Some (Inr (None, m, d))))"

fun insert_all :: "'s ext \<Rightarrow> Chunk \<Rightarrow> (string \<times> string) list \<Rightarrow> mpt_delta \<Rightarrow> 's DB \<Rightarrow> (Chunk \<times> mpt_delta \<times> 's DB) result option" where
  "insert_all E root [] m d = Some (Inr (root, m, d))"
| "insert_all E root ((k, v) # kvs) m d = obind (Trie_Insert E root (KeybytesToHex k) (MPTValue_Encode v) m d) (\<lambda>(root, m, d).
     insert_all E root kvs m d)"

text \<open>Commit the new root and clear the delta; the hash of the root is returned.\<close>

definition commit_root :: "'s ext \<Rightarrow> Chunk \<Rightarrow> mpt_delta \<Rightarrow> 's DB \<Rightarrow> (Hash \<times> 's DB) result option" where
  "commit_root E root m d = obind (Delta_Commit E m [CVisit root] d) (\<lambda>d. Some (Inr (chunk_hash E root, d)))"

definition Trie_Set :: "'s ext \<Rightarrow> Trie \<Rightarrow> string \<Rightarrow> string \<Rightarrow> 's DB \<Rightarrow> (Hash \<times> 's DB) result option" where
  "Trie_Set E t key val d = obind (Trie_Insert E (root_node t) (KeybytesToHex key) (MPTValue_Encode val) Map.empty d) (\<lambda>(root, m, d).
     commit_root E root m d)"

definition Trie_SetMany :: "'s ext \<Rightarrow> Trie \<Rightarrow> string list \<Rightarrow> string list \<Rightarrow> 's DB \<Rightarrow> (Hash \<times> 's DB) result option" where
  "Trie_SetMany E t keys vals d = (if keys = [] then Some (Inr (chunk_hash E (root_node t), d))
     else if length vals < length keys then Some (Inl Out_of_bounds)
     else obind (insert_all E (root_node t) (zip keys vals) Map.empty d) (\<lambda>(root, m, d). commit_root E root m d))"

definition Trie_build :: "'s ext \<Rightarrow> 's DB \<Rightarrow> string list \<Rightarrow> string list \<Rightarrow> (Trie \<times> 's DB) result option" where
  "Trie_build E d keys vals = obind (Trie_SetMany E \<lparr>root_node = MPTNil_Encode\<rparr> keys vals d) (\<lambda>(h, d). Some (Inr (Trie_open E d h)))"

definition Trie_hash :: "'s ext \<Rightarrow> Trie \<Rightarrow> Hash" where
  "Trie_hash E t = chunk_hash E (root_node t)"

section \<open>Removal\<close>

text \<open>The position of the only child that is not of type \<open>kMPTNil\<close>: \<open>-1\<close> if there is none, \<open>-2\<close> if there are more.\<close>

fun only_child :: "Chunk \<Rightarrow> int \<Rightarrow> nat list \<Rightarrow> int result" where
  "only_child node pos [] = Inr pos"
| "only_child node pos (i # is) = rbind (full_child node i) (\<lambda>c. rbind (node_type c) (\<lambda>ty.
     only_child node (if ty \<noteq> kMPTNil then (if pos = -1 then int i else -2) else pos) is))"

definition collapse :: "'s ext \<Rightarrow> mpt_delta \<Rightarrow> Chunk \<Rightarrow> 's DB \<Rightarrow> (Chunk \<times> 's DB) result" where
  "collapse E m new_root d = rbind (only_child new_root (-1) [0..<17]) (\<lambda>pos.
     if pos < 0 then Inr (new_root, d)
     else rbind (full_child new_root (nat pos)) (\<lambda>hash_node.
       rbind (if pos \<noteq> 16 then
           rbind (GetHashNodeChild E m hash_node d) (\<lambda>(child_node, d). rbind (node_type child_node) (\<lambda>ty.
             if ty = kMPTShort then rbind (MPTShortNode child_node) (\<lambda>(k, c). Inr (char_of_int pos # k, c, d))
             else Inr ([], hash_node, d)))
         else Inr ([char_of_int 16], hash_node, d)) (\<lambda>(new_key, hash_node, d).
       rbind (MPTShort_Encode E new_key hash_node) (\<lambda>c. Inr (c, d)))))"

text \<open>\<open>TryRemove\<close>; its parameter \<open>prefix\<close> is collected and never read.\<close>

partial_function (option) Trie_TryRemove :: "'s ext \<Rightarrow> Chunk \<Rightarrow> string \<Rightarrow> mpt_delta \<Rightarrow> 's DB \<Rightarrow> (Chunk \<times> mpt_delta \<times> 's DB) result option" where
  "Trie_TryRemove E node key m d = obind (Some (node_type node)) (\<lambda>ty.
     if ty = kMPTFull then
       obind (Some (rbind (str_at key 0) (\<lambda>c. Inr (char_index c)))) (\<lambda>index.
       obind (Some (full_child node index)) (\<lambda>child.
       obind (Some (if index \<noteq> 16 then GetHashNodeChild E m child d else Inr (child, d))) (\<lambda>(ori_child, d).
       obind (Some (substr_from key 1)) (\<lambda>key.
       obind (Trie_TryRemove E ori_child key m d) (\<lambda>(new_child, m, d).
       obind (Some (setChildAtIndex E node index new_child ori_child)) (\<lambda>new_root.
       obind (Some (collapse E m new_root d)) (\<lambda>(new_root, d).
         let (c, m) = create_and_get E m new_root in Some (Inr (c, m, d)))))))))
     else if ty = kMPTShort then obind (Some (MPTShortNode node)) (\<lambda>(ori_key, child).
       let match_len = PrefixLen key ori_key in
       if match_len < length ori_key then Some (Inr (Some (head node), m, d))
       else if match_len = length key then Some (Inr (MPTNil_Encode, m, d))
       else obind (Trie_TryRemove E child (drop match_len key) m d) (\<lambda>(new_child, m, d).
         obind (Some (node_type new_child)) (\<lambda>ty.
         obind (Some (if ty = kMPTShort then rbind (MPTShortNode new_child) (\<lambda>(k, grand_child). MPTShort_Encode E (ori_key @ k) grand_child)
           else MPTShort_Encode E ori_key new_child)) (\<lambda>new_root.
         let (c, m) = create_and_get E m new_root in Some (Inr (c, m, d))))))
     else if ty = kMPTHash then obind (Some (GetHashNodeChild E m node d)) (\<lambda>(child, d). Trie_TryRemove E child key m d)
     else Some (Inr (MPTNil_Encode, m, d)))"

definition Trie_Remove :: "'s ext \<Rightarrow> Trie \<Rightarrow> string \<Rightarrow> 's DB \<Rightarrow> (Hash \<times> 's DB) result option" where
  "Trie_Remove E t key d = obind (Trie_TryRemove E (root_node t) (KeybytesToHex key) Map.empty d) (\<lambda>(root, m, d). commit_root E root m d)"

section \<open>Proofs\<close>

record MPTProof =
  mpt_value :: string
  map_chunks :: "string list"
  map_pos :: "nat list"
  mpt_size :: nat

definition MPTProof_new :: MPTProof where
  "MPTProof_new = \<lparr>mpt_value = [], map_chunks = [], map_pos = [], mpt_size = 0\<rparr>"

definition AppendProof :: "MPTProof \<Rightarrow> Chunk \<Rightarrow> nat \<Rightarrow> MPTProof" where
  "AppendProof p chunk pos = p\<lparr>map_chunks := map_chunks p @ [chunk_bytes chunk], map_pos := map_pos p @ [pos],
     mpt_size := mpt_size p + numBytes chunk\<rparr>"

definition MapSize :: "MPTProof \<Rightarrow> nat" where
  "MapSize p = length (map_chunks p)"

partial_function (option) Trie_TryGetProof :: "'s ext \<Rightarrow> Chunk \<Rightarrow> string \<Rightarrow> nat \<Rightarrow> MPTProof \<Rightarrow> 's DB \<Rightarrow> (MPTProof \<times> 's DB) result option" where
  "Trie_TryGetProof E node key pos p d = obind (Some (node_type node)) (\<lambda>ty.
     if ty = kMPTFull then
       obind (Some (str_at key pos)) (\<lambda>c. let p = AppendProof p node (char_index c) in
       obind (Some (full_child node (char_index c))) (\<lambda>child. Trie_TryGetProof E child key (pos + 1) p d))
     else if ty = kMPTShort then (let p = AppendProof p node 0 in obind (Some (MPTShortNode node)) (\<lambda>(k, child).
       if length key < pos then Some (Inl Out_of_range)
       else if length key - pos < length k \<or> k \<noteq> take (length k) (drop pos key) then Some (Inr (p\<lparr>mpt_value := []\<rparr>, d))
       else Trie_TryGetProof E child key (pos + length k) p d))
     else if ty = kMPTHash then obind (Some (childHash node)) (\<lambda>h. let (child, d') = DB_Get_hash E d h in
       Trie_TryGetProof E (if Chunk_empty child then MPTNil_Encode else child) key pos p d')
     else if ty = kMPTValue then obind (Some (getVal node)) (\<lambda>v. Some (Inr (p\<lparr>mpt_value := v\<rparr>, d)))
     else Some (Inr (p, d)))"

definition Trie_GetProof :: "'s ext \<Rightarrow> Trie \<Rightarrow> string \<Rightarrow> 's DB \<Rightarrow> (MPTProof \<times> 's DB) result option" where
  "Trie_GetProof E t key d = Trie_TryGetProof E (root_node t) (KeybytesToHex key) 0 MPTProof_new d"

text \<open>
  The loop of \<open>VerifyProof\<close> over the chunks.  A chunk is read through \<open>c_str()\<close>, so a zero byte follows it; the hash covers as
  many bytes as the chunk says it has.  The result of a step is the next \<open>pos\<close> and \<open>target\<close>, or \<^term>\<open>None\<close> for \<open>return false\<close>.
\<close>

definition str_chunk :: "string \<Rightarrow> Chunk result" where
  "str_chunk s = (let c = Some (s @ [char_of_int 0]) in
     if length s + 1 < kMetaLength \<or> length s + 1 < numBytes c then Inl Out_of_bounds else Inr c)"

definition verify_full :: "string \<Rightarrow> Chunk \<Rightarrow> nat \<Rightarrow> nat \<Rightarrow> Hash \<Rightarrow> (nat \<times> Hash) option result" where
  "verify_full v chunk mp pos target = rbind (full_child chunk mp) (\<lambda>hashchk.
     if mp = 16 then rbind (getVal hashchk) (\<lambda>target_val. Inr (if target_val \<noteq> v then None else Some (pos + 1, target)))
     else rbind (childHash hashchk) (\<lambda>h. Inr (Some (pos + 1, Hash_Clone h))))"

definition verify_short :: "string \<Rightarrow> string \<Rightarrow> Chunk \<Rightarrow> nat \<Rightarrow> Hash \<Rightarrow> (nat \<times> Hash) option result" where
  "verify_short v key chunk pos target = rbind (MPTShortNode chunk) (\<lambda>(k, child).
     if v \<noteq> [] then rbind (node_type child) (\<lambda>ty.
       if ty = kMPTHash then rbind (childHash child) (\<lambda>h. Inr (Some (pos + length k, Hash_Clone h)))
       else rbind (getVal child) (\<lambda>target_val. Inr (if target_val \<noteq> v then None else Some (pos + length k, target))))
     else rbind (substr_from key pos) (\<lambda>curr_key. Inr (if PrefixLen curr_key k \<noteq> length k then None else Some (pos, target))))"

fun verify_loop :: "'s ext \<Rightarrow> string \<Rightarrow> string \<Rightarrow> nat list \<Rightarrow> string list \<Rightarrow> nat \<Rightarrow> Hash \<Rightarrow> bool result" where
  "verify_loop E v key mps [] pos target = Inr True"
| "verify_loop E v key mps (s # ss) pos target = rbind (str_chunk s) (\<lambda>chunk.
     if \<not> Hash_eq target (chunk_hash E chunk) then Inr False
     else rbind (if chunk_type chunk = kMPTFull then rbind (vec_at mps 0) (\<lambda>mp. verify_full v chunk mp pos target)
         else verify_short v key chunk pos target) (\<lambda>r.
       case r of None \<Rightarrow> Inr False | Some (pos, target) \<Rightarrow> verify_loop E v key (tl mps) ss pos target))"

definition VerifyProof :: "'s ext \<Rightarrow> MPTProof \<Rightarrow> Hash \<Rightarrow> string \<Rightarrow> bool result" where
  "VerifyProof E p digest key = verify_loop E (mpt_value p) key (map_pos p) (map_chunks p) 0 digest"

end
