(* ===== verification/LedgerDB.thy ===== *)
theory LedgerDB
  imports Ledger_Types Skip_List MPT
begin

text \<open>
  LedgerDB (\<open>src/ledger/ledgerdb/ledgerdb.h\<close>, \<open>ledgerdb.cc\<close>): blocks of writes in the store, a skip list of versions for
  every key, and a builder thread that drains the queue of new blocks into the Merkle tree and the trie and
  chains the results as commits.  One pass of the builder's loop is one step; steps and calls interleave.
  A loop that never ends, or the absence of an answer, is \<^const>\<open>None\<close>.
\<close>

section \<open>State\<close>

record Tree_Block =
  tb_blk_seq :: nat
  tb_mpt_ks :: "string list"
  tb_mpt_ts :: string

text \<open>\<open>skiplist_head_\<close> is an ordered map, kept as its sorted list of entries.\<close>

record 's LedgerDB =
  ldb :: "'s DB"
  next_block_seq :: nat
  commit_seq :: nat
  tree_queue :: "Tree_Block list"
  skiplist_head :: "(string \<times> int) list"

definition LedgerDB_new :: "'s \<Rightarrow> 's LedgerDB" where
  "LedgerDB_new s = \<lparr> ldb = DB_Open s, next_block_seq = 0, commit_seq = 0, tree_queue = [], skiplist_head = [] \<rparr>"

text \<open>Conversions between \<open>uint64_t\<close>, \<open>long\<close> and \<open>int\<close>.\<close>

definition to_long :: "nat \<Rightarrow> int" where
  "to_long n = (let m = n mod 2 ^ 64 in if m < 2 ^ 63 then int m else int m - 2 ^ 64)"

definition to_ulong :: "int \<Rightarrow> nat" where
  "to_ulong k = nat (k mod 2 ^ 64)"

definition to_cint :: "nat \<Rightarrow> int" where
  "to_cint n = (let m = n mod 2 ^ 32 in if m < 2 ^ 31 then int m else int m - 2 ^ 32)"

section \<open>Building\<close>

definition ledger_key :: "nat \<Rightarrow> string" where
  "ledger_key n = ''ledger-'' @ to_string n"

definition commit_key :: "nat \<Rightarrow> string" where
  "commit_key n = ''commit'' @ to_string n"

text \<open>The queue is popped to the end: the hashes of the blocks and the last timestamp text of every key.\<close>

fun drain :: "'s ext \<Rightarrow> 's DB \<Rightarrow> Tree_Block list \<Rightarrow> string list \<Rightarrow> (string \<times> string) list \<Rightarrow> string list \<times> (string \<times> string) list" where
  "drain E d [] mt_new_hashes mpt_blks = (mt_new_hashes, mpt_blks)"
| "drain E d (blk # blks) mt_new_hashes mpt_blks = drain E d blks
     (mt_new_hashes @ [ToBase32 (ComputeFrom E (DB_Get_str E d (ledger_key (tb_blk_seq blk))))])
     (foldl (\<lambda>m k. smap_set k (tb_mpt_ts blk) m) mpt_blks (tb_mpt_ks blk))"

text \<open>The trie root of the last commit, and what is recorded as its digest: its text read as base 32.\<close>

definition last_commit :: "'s ext \<Rightarrow> 's DB \<Rightarrow> nat \<Rightarrow> (Hash \<times> string) result" where
  "last_commit E d n = (if n = 0 then Inr (None, [])
     else let commit_info = DB_Get_str E d (commit_key (n - 1)) in
       rbind (CommitInfo_of_string commit_info) (\<lambda>prev. Inr (FromBase32 (ci_mptroot prev), ToBase32 (FromBase32 commit_info))))"

definition update_mpt :: "'s ext \<Rightarrow> Hash \<Rightarrow> string list \<Rightarrow> string list \<Rightarrow> 's DB \<Rightarrow> (Hash \<times> 's DB) result option" where
  "update_mpt E mpt_root mpt_ks mpt_vs d =
     (if Hash_empty mpt_root then obind (Trie_build E d mpt_ks mpt_vs) (\<lambda>(mpt, d). Some (Inr (Hash_Clone (Trie_hash E mpt), d)))
      else let (mpt, d) = Trie_open E d mpt_root in
        obind (Trie_SetMany E mpt mpt_ks mpt_vs d) (\<lambda>(h, d). Some (Inr (Hash_Clone h, d))))"

text \<open>One pass of the loop of \<open>buildTree\<close>.\<close>

definition buildTree :: "'s ext \<Rightarrow> 's LedgerDB \<Rightarrow> 's LedgerDB result option" where
  "buildTree E L = (if tree_queue L = [] then Some (Inr L) else
     let (mt_new_hashes, mpt_blks) = drain E (ldb L) (tree_queue L) [] [];
         first_block = tb_blk_seq (hd (tree_queue L));
         last_block = tb_blk_seq (last (tree_queue L));
         prev_commit_seq = (if commit_seq L = 0 then [] else to_string (commit_seq L - 1))
     in obind (Some (mt_update E (ldb L) first_block mt_new_hashes prev_commit_seq)) (\<lambda>(d, root_key, root_hash).
        obind (Some (last_commit E d (commit_seq L))) (\<lambda>(mpt_root, prev_digest).
        obind (update_mpt E mpt_root (map fst mpt_blks) (map snd mpt_blks) d) (\<lambda>(newmptroot, d).
        let commit_entry = CommitInfo_ToString \<lparr> ci_commit_seq = commit_seq L, ci_prev_digest = prev_digest, ci_tip_block = last_block,
              ci_mtroot = root_hash, ci_mtrootkey = root_key, ci_mptroot = ToBase32 newmptroot \<rparr>;
            d = db_put E d (commit_key (commit_seq L)) commit_entry;
            newdigest = DigestInfo_ToString \<lparr> di_commit_seq = commit_seq L, di_tip_block = last_block,
              di_digest = ToBase32 (ComputeFrom E commit_entry) \<rparr>
        in Some (Inr (L\<lparr>ldb := db_put E d ''digest'' newdigest, commit_seq := (commit_seq L + 1) mod 2 ^ 64, tree_queue := []\<rparr>))))))"

section \<open>Writing\<close>

text \<open>\<open>rnd i\<close> are the draws for the level of the \<open>i\<close>-th entry.\<close>

fun set_entries :: "'s ext \<Rightarrow> (nat \<Rightarrow> nat \<Rightarrow> bool) \<Rightarrow> string \<Rightarrow> nat \<Rightarrow> nat \<Rightarrow> (string \<times> string) list \<Rightarrow> 's LedgerDB \<Rightarrow> 's LedgerDB result option" where
  "set_entries E rnd blk_seq_str timestamp i [] L = Some (Inr L)"
| "set_entries E rnd blk_seq_str timestamp i ((k, v) # kvs) L =
     obind (SkipList_insert E (rnd i) (ldb L) (''skiplist_'' @ k) (to_long timestamp) (blk_seq_str @ ''@'' @ v)) (\<lambda>d.
       set_entries E rnd blk_seq_str timestamp (i + 1) kvs
         (L\<lparr>ldb := d, skiplist_head := smap_set k (to_long timestamp) (skiplist_head L)\<rparr>))"

text \<open>With no keys the result is \<open>true\<close>, converted to a block number.\<close>

definition LedgerDB_Set :: "'s ext \<Rightarrow> (nat \<Rightarrow> nat \<Rightarrow> bool) \<Rightarrow> string list \<Rightarrow> string list \<Rightarrow> nat \<Rightarrow> 's LedgerDB \<Rightarrow> (nat \<times> 's LedgerDB) result option" where
  "LedgerDB_Set E rnd keys vals timestamp L = (if length keys = 0 then Some (Inr (1, L)) else
     let blk_seq = next_block_seq L; L = L\<lparr>next_block_seq := (blk_seq + 1) mod 2 ^ 64\<rparr>
     in obind (Some (BlockData_ToString \<lparr> bd_keys = keys, bd_vals = vals \<rparr>)) (\<lambda>blk_val.
        obind (set_entries E rnd (to_string blk_seq) timestamp 0 (zip keys vals) (L\<lparr>ldb := db_put E (ldb L) (ledger_key blk_seq) blk_val\<rparr>)) (\<lambda>L.
          Some (Inr (blk_seq, L\<lparr>tree_queue := tree_queue L @ [\<lparr> tb_blk_seq = blk_seq, tb_mpt_ks = keys, tb_mpt_ts = to_string timestamp \<rparr>]\<rparr>)))))"

text \<open>\<open>binarySearch\<close> on \<open>int\<close> bounds; an index outside the vector is read out of bounds.\<close>

function binarySearch :: "string list \<Rightarrow> int \<Rightarrow> int \<Rightarrow> string \<Rightarrow> int result" where
  "binarySearch vec l r key = (if r \<ge> l then
     let mid = l + (r - l) div 2 in
     if mid < 0 then Inl Out_of_bounds else
     rbind (vec_at vec (nat mid)) (\<lambda>x. if x = key then Inr mid
       else if x > key then binarySearch vec l (mid - 1) key
       else binarySearch vec (mid + 1) r key)
     else Inr (-1))"
  by pat_completeness auto
termination by (relation "measure (\<lambda>(vec, l, r, key). nat (r - l + 1))") auto

declare binarySearch.simps [simp del]

section \<open>Reading\<close>

type_synonym stamped = "nat \<times> nat \<times> string"

text \<open>A stored node as a version: its value is \<open>block@value\<close>.\<close>

definition node_version :: "string \<Rightarrow> (int \<times> nat \<times> string) result" where
  "node_version node = rbind (SkipNode_of node) (\<lambda>skipnode. let res = splitBy (sn_value skipnode) (CHR ''@'') in
     rbind (rbind (vec_at res 0) stoul) (\<lambda>blk. rbind (vec_at res 1) (\<lambda>v. Inr (sn_key skipnode, blk, v))))"

text \<open>\<open>skiplist_head_[k]\<close> enters a zero for an absent key.\<close>

definition head_of :: "string \<Rightarrow> (string \<times> int) list \<Rightarrow> int \<times> (string \<times> int) list" where
  "head_of k m = (case map_of m k of Some t \<Rightarrow> (t, m) | None \<Rightarrow> (0, smap_set k 0 m))"

fun LedgerDB_GetValues :: "'s ext \<Rightarrow> string list \<Rightarrow> 's LedgerDB \<Rightarrow> (stamped list \<times> 's LedgerDB) result option" where
  "LedgerDB_GetValues E [] L = Some (Inr ([], L))"
| "LedgerDB_GetValues E (key # keys) L = (case head_of key (skiplist_head L) of (t, m) \<Rightarrow>
     let L = L\<lparr>skiplist_head := m\<rparr> in
     obind (SkipList_find E (ldb L) (''skiplist_'' @ key) t) (\<lambda>node.
     obind (if node = [] then Some (Inr (0, 0, [])) else Some (rbind (node_version node) (\<lambda>(_, blk, v). Inr (to_ulong t, blk, v)))) (\<lambda>x.
     obind (LedgerDB_GetValues E keys L) (\<lambda>(xs, L). Some (Inr (x # xs, L))))))"

text \<open>
  The iterators run from the first key not below \<open>start\<close> to the first key above \<open>end\<close>, or, when that lies before the former, to
  the end of the map.
\<close>

definition range_entries :: "string \<Rightarrow> string \<Rightarrow> (string \<times> int) list \<Rightarrow> (string \<times> int) list" where
  "range_entries start stop m = (let from_it = length (takeWhile (\<lambda>e. fst e < start) m); to_it = length (takeWhile (\<lambda>e. fst e \<le> stop) m)
     in if from_it \<le> to_it then take (to_it - from_it) (drop from_it m) else drop from_it m)"

fun range_values :: "'s ext \<Rightarrow> 's DB \<Rightarrow> (string \<times> int) list \<Rightarrow> (string \<times> stamped) list result option" where
  "range_values E d [] = Some (Inr [])"
| "range_values E d ((k, t) # es) = obind (SkipList_find E d (''skiplist_'' @ k) t) (\<lambda>node.
     obind (Some (node_version node)) (\<lambda>(_, blk, v).
     obind (range_values E d es) (\<lambda>xs. Some (Inr ((k, to_ulong t, blk, v) # xs)))))"

definition LedgerDB_GetRange :: "'s ext \<Rightarrow> string \<Rightarrow> string \<Rightarrow> 's LedgerDB \<Rightarrow> (string \<times> stamped) list result option" where
  "LedgerDB_GetRange E start stop L = range_values E (ldb L) (range_entries start stop (skiplist_head L))"

fun node_versions :: "string list \<Rightarrow> stamped list result" where
  "node_versions [] = Inr []"
| "node_versions (node # ns) = rbind (node_version node) (\<lambda>(k, blk, v). rbind (node_versions ns) (\<lambda>vs. Inr ((to_ulong k, blk, v) # vs)))"

fun LedgerDB_GetVersions :: "'s ext \<Rightarrow> string list \<Rightarrow> nat \<Rightarrow> 's LedgerDB \<Rightarrow> stamped list list result" where
  "LedgerDB_GetVersions E [] nversions L = Inr []"
| "LedgerDB_GetVersions E (key # keys) nversions L =
     rbind (SkipList_scan E (ldb L) (''skiplist_'' @ key) (to_cint nversions)) (\<lambda>nodes.
     rbind (node_versions nodes) (\<lambda>vs. rbind (LedgerDB_GetVersions E keys nversions L) (\<lambda>vss. Inr (vs # vss))))"

definition LedgerDB_GetRootDigest :: "'s ext \<Rightarrow> 's LedgerDB \<Rightarrow> (nat \<times> string) result" where
  "LedgerDB_GetRootDigest E L = (let digestinfo = DB_Get_str E (ldb L) ''digest'' in
     if length digestinfo = 0 then Inr (0, [])
     else rbind (DigestInfo_of_string digestinfo) (\<lambda>di. Inr (di_tip_block di, di_digest di)))"

section \<open>Proofs\<close>

text \<open>The state that matters to a proof is the store with its caches.\<close>

fun proofs_loop :: "'s ext \<Rightarrow> string \<Rightarrow> string \<Rightarrow> nat \<Rightarrow> Trie \<Rightarrow> nat \<Rightarrow> string list \<Rightarrow> nat list \<Rightarrow> Proof list \<Rightarrow> MPTProof list \<Rightarrow> 's DB
    \<Rightarrow> (Proof list \<times> MPTProof list \<times> 's DB) result option" where
  "proofs_loop E cseq root_key tip mpt current [] blks mts mpts d = Some (Inr (mts, mpts, d))"
| "proofs_loop E cseq root_key tip mpt current (key # keys) [] mts mpts d = Some (Inl Out_of_bounds)"
| "proofs_loop E cseq root_key tip mpt current (key # keys) (blk # blks) mts mpts d =
     obind (if blk \<noteq> current then Some (rbind (mt_getProof E d cseq root_key tip blk) (\<lambda>p. Inr (mts @ [p]))) else Some (Inr mts)) (\<lambda>mts.
     obind (Trie_GetProof E mpt key d) (\<lambda>(p, d).
       proofs_loop E cseq root_key tip mpt blk keys blks mts (mpts @ [p]) d))"

record LedgerProofs =
  lp_mt_proofs :: "Proof list"
  lp_mpt_proofs :: "MPTProof list"
  lp_root_digest :: string
  lp_blk_seq :: nat
  lp_mpt_digest :: string

definition LedgerDB_GetProofs :: "'s ext \<Rightarrow> string list \<Rightarrow> nat list \<Rightarrow> 's LedgerDB \<Rightarrow> (LedgerProofs \<times> 's LedgerDB) result option" where
  "LedgerDB_GetProofs E keys key_blk_seqs L = (let d = ldb L in
     obind (Some (DigestInfo_of_string (DB_Get_str E d ''digest''))) (\<lambda>di.
     obind (Some (CommitInfo_of_string (DB_Get_str E d (commit_key (di_commit_seq di))))) (\<lambda>cinfo.
     let (mpt, d) = Trie_open E d (FromBase32 (ci_mptroot cinfo)) in
     obind (proofs_loop E (to_string (di_commit_seq di)) (ci_mtrootkey cinfo) (ci_tip_block cinfo) mpt 0 keys key_blk_seqs [] [] d) (\<lambda>(mts, mpts, d).
       Some (Inr (\<lparr> lp_mt_proofs = mts, lp_mpt_proofs = mpts, lp_root_digest = ci_mtroot cinfo, lp_blk_seq = ci_tip_block cinfo,
         lp_mpt_digest = ci_mptroot cinfo \<rparr>, L\<lparr>ldb := d\<rparr>))))))"

section \<open>Audit\<close>

record LAuditor =
  la_digest :: string
  la_commit_seq :: nat
  la_first_block_seq :: nat
  la_commits :: "string list"
  la_blocks :: "string list"
  la_mptproofs :: "MPTProof list"

fun key_proofs :: "'s ext \<Rightarrow> Trie \<Rightarrow> string list \<Rightarrow> 's DB \<Rightarrow> (MPTProof list \<times> 's DB) result option" where
  "key_proofs E mpt [] d = Some (Inr ([], d))"
| "key_proofs E mpt (k # ks) d = obind (Trie_GetProof E mpt k d) (\<lambda>(p, d). obind (key_proofs E mpt ks d) (\<lambda>(ps, d). Some (Inr (p # ps, d))))"

fun audit_blocks :: "'s ext \<Rightarrow> Trie \<Rightarrow> nat list \<Rightarrow> 's DB \<Rightarrow> (string list \<times> MPTProof list \<times> 's DB) result option" where
  "audit_blocks E mpt [] d = Some (Inr ([], [], d))"
| "audit_blocks E mpt (i # is) d = (let blockdata = DB_Get_str E d (ledger_key i) in
     obind (Some (BlockData_of_string blockdata)) (\<lambda>binfo.
     obind (key_proofs E mpt (bd_keys binfo) d) (\<lambda>(ps, d).
     obind (audit_blocks E mpt is d) (\<lambda>(bs, qs, d). Some (Inr (blockdata # bs, ps @ qs, d))))))"

text \<open>
  The commits are read from \<open>seq\<close> to the number of the last block.  A loop up to the greatest number never ends.
\<close>

definition LedgerDB_GetAudit :: "'s ext \<Rightarrow> nat \<Rightarrow> 's LedgerDB \<Rightarrow> (LAuditor \<times> 's LedgerDB) result option" where
  "LedgerDB_GetAudit E seq L = (let d = ldb L in
     obind (Some (DigestInfo_of_string (DB_Get_str E d ''digest''))) (\<lambda>dinfo.
     if di_tip_block dinfo = 2 ^ 64 - 1 then None else
     let commits = map (\<lambda>i. DB_Get_str E d (commit_key i)) [seq..<di_tip_block dinfo + 1];
         target_commit = (if commits = [] then [] else hd commits)
     in obind (Some (CommitInfo_of_string target_commit)) (\<lambda>cinfo.
        obind (if seq > 0 then Some (rbind (CommitInfo_of_string (DB_Get_str E d (commit_key (seq - 1)))) (\<lambda>c. Inr ((ci_tip_block c + 1) mod 2 ^ 64)))
               else Some (Inr 0)) (\<lambda>first_block_seq.
        let (mpt, d) = Trie_open E d (FromBase32 (ci_mptroot cinfo)) in
        if ci_tip_block cinfo = 2 ^ 64 - 1 then None else
        obind (audit_blocks E mpt [first_block_seq..<ci_tip_block cinfo + 1] d) (\<lambda>(blocks, proofs, d).
          Some (Inr (\<lparr> la_digest = di_digest dinfo, la_commit_seq = ci_commit_seq cinfo, la_first_block_seq = first_block_seq,
            la_commits = commits, la_blocks = blocks, la_mptproofs = proofs \<rparr>, L\<lparr>ldb := d\<rparr>)))))))"

text \<open>The chain of commits from the newest to the oldest; \<^const>\<open>None\<close> when a digest does not fit.\<close>

record chain_end =
  ce_mtroot :: string
  ce_mptroot :: string
  ce_prev_commit_seq :: string

fun check_chain :: "'s ext \<Rightarrow> string list \<Rightarrow> string \<Rightarrow> chain_end \<Rightarrow> chain_end option result" where
  "check_chain E [] target ce = Inr (Some ce)"
| "check_chain E (c # cs) target ce = (if ToBase32 (ComputeFrom E c) \<noteq> target then Inr None else
     rbind (CommitInfo_of_string c) (\<lambda>cinfo. check_chain E cs (ci_prev_digest cinfo)
       \<lparr> ce_mtroot = ci_mtroot cinfo, ce_mptroot = ci_mptroot cinfo,
         ce_prev_commit_seq = (if ci_commit_seq cinfo > 0 then to_string (ci_commit_seq cinfo - 1) else []) \<rparr>))"

text \<open>A proof is only looked at while \<open>res\<close> is false; the proofs of all blocks share one counter.\<close>

fun check_keys :: "'s ext \<Rightarrow> Hash \<Rightarrow> MPTProof list \<Rightarrow> string list \<Rightarrow> nat \<Rightarrow> bool \<Rightarrow> (bool \<times> nat) result" where
  "check_keys E mpt_hash ps [] cnt res = Inr (res, cnt)"
| "check_keys E mpt_hash ps (k # ks) cnt res =
     rbind (if res then Inr True else rbind (vec_at ps cnt) (\<lambda>p. VerifyProof E p mpt_hash k)) (\<lambda>res. check_keys E mpt_hash ps ks (cnt + 1) res)"

fun check_blocks :: "'s ext \<Rightarrow> Hash \<Rightarrow> MPTProof list \<Rightarrow> string list \<Rightarrow> nat \<Rightarrow> bool \<Rightarrow> bool result" where
  "check_blocks E mpt_hash ps [] cnt res = Inr res"
| "check_blocks E mpt_hash ps (b # bs) cnt res =
     rbind (BlockData_of_string b) (\<lambda>binfo. rbind (check_keys E mpt_hash ps (bd_keys binfo) cnt res) (\<lambda>(res, cnt). check_blocks E mpt_hash ps bs cnt res))"

definition Audit :: "'s ext \<Rightarrow> LAuditor \<Rightarrow> 's DB \<Rightarrow> (bool \<times> 's DB) result" where
  "Audit E a d = rbind (check_chain E (rev (la_commits a)) (la_digest a) \<lparr> ce_mtroot = [], ce_mptroot = [], ce_prev_commit_seq = [] \<rparr>) (\<lambda>ce.
     case ce of None \<Rightarrow> Inr (False, d) | Some ce \<Rightarrow>
       rbind (mt_update E d (la_first_block_seq a) (map (\<lambda>b. ToBase32 (ComputeFrom E b)) (la_blocks a)) (ce_prev_commit_seq ce)) (\<lambda>(d, root_key, root_hash).
       rbind (check_blocks E (ComputeFrom E (ce_mptroot ce)) (la_mptproofs a) (la_blocks a) 0 (root_hash = ce_mtroot ce)) (\<lambda>res. Inr (res, d))))"

section \<open>Splitting a block\<close>

fun find_piece :: "string list \<Rightarrow> string \<Rightarrow> string" where
  "find_piece [] target = ''NOTFOUND''"
| "find_piece (s # ss) target = (case find_char (CHR ''|'') s of None \<Rightarrow> ''NOTFOUND''
     | Some i \<Rightarrow> if take i s = target then drop (i + 1) s else find_piece ss target)"

definition splitAndFind :: "string \<Rightarrow> char \<Rightarrow> string \<Rightarrow> string" where
  "splitAndFind str delim target = find_piece (splitBy str delim) target"

end
