(* ===== verification/LedgerDB_Store.thy ===== *)
theory LedgerDB_Store
  imports Version_Store LedgerDB
begin

text \<open>
  The versioned store of the transaction server with LedgerDB compiled in (\<open>src/distributed/store/common/backend/versionstore.cc\<close>,
  the branches of \<open>LEDGERDB\<close>): a record of operations of the type that the transaction store uses.
\<close>

text \<open>
  The state is the ledger and the number of \<open>Set\<close> calls so far; \<open>rnd n\<close> are the draws of the call with number \<open>n\<close>.  A loop that does not
  end is a wait for ever.
\<close>

type_synonym 's ldb_state = "'s LedgerDB \<times> nat"

definition or_hang :: "'a result option \<Rightarrow> 'a result" where
  "or_hang m = (case m of None \<Rightarrow> Inl Blocked | Some r \<Rightarrow> r)"

lemma or_hang_simps [simp]: "or_hang None = Inl Blocked" "or_hang (Some r) = r"
  by (simp_all add: or_hang_def)

definition ldb_GetDigest :: "'s ext \<Rightarrow> Reply \<Rightarrow> 's ldb_state \<Rightarrow> 's ldb_state vs_result" where
  "ldb_GetDigest E r s = rbind (LedgerDB_GetRootDigest E (fst s)) (\<lambda>(tip, h). Inr (True, set_digest tip h r, s))"

definition ldb_kv :: "string \<Rightarrow> stamped \<Rightarrow> KV" where
  "ldb_kv key x = \<lparr> kv_key = key, kv_val = snd (snd x), kv_estimate_block = fst (snd x) \<rparr>"

text \<open>The number of versions asked for the first key serves for all of them; no timestamps are added.\<close>

definition ldb_GetNVersions :: "'s ext \<Rightarrow> (string \<times> nat) list \<Rightarrow> Reply \<Rightarrow> 's ldb_state \<Rightarrow> 's ldb_state vs_result" where
  "ldb_GetNVersions E vks r s = rbind (vec_at vks 0) (\<lambda>vk.
     rbind (LedgerDB_GetVersions E (map fst vks) (snd vk) (fst s)) (\<lambda>vss.
       Inr (True, r\<lparr>rep_values := rep_values r @ concat (map2 (\<lambda>key vs. map (ldb_kv key) vs) (map fst vks) vss)\<rparr>, s)))"

definition ldb_BatchGet :: "'s ext \<Rightarrow> string list \<Rightarrow> Reply \<Rightarrow> 's ldb_state \<Rightarrow> 's ldb_state vs_result" where
  "ldb_BatchGet E keys r s = rbind (or_hang (LedgerDB_GetValues E keys (fst s))) (\<lambda>(xs, L).
     Inr (True, r\<lparr>rep_values := rep_values r @ map2 ldb_kv keys xs, rep_timestamps := rep_timestamps r @ map fst xs\<rparr>, (L, snd s)))"

definition ldb_GetRange :: "'s ext \<Rightarrow> string \<Rightarrow> string \<Rightarrow> Reply \<Rightarrow> 's ldb_state \<Rightarrow> 's ldb_state vs_result" where
  "ldb_GetRange E start stop r s = rbind (or_hang (LedgerDB_GetRange E start stop (fst s))) (\<lambda>xs.
     Inr (True, r\<lparr>rep_values := rep_values r @ map (\<lambda>(key, x). ldb_kv key x) xs, rep_timestamps := rep_timestamps r @ map (\<lambda>(_, x). fst x) xs\<rparr>, s))"

text \<open>A message carries a Merkle proof and the trie proof with the same index.\<close>

fun ldb_messages :: "Proof list \<Rightarrow> MPTProof list \<Rightarrow> LedgerDBProof list result" where
  "ldb_messages [] mpts = Inr []"
| "ldb_messages (p # ps) [] = Inl Out_of_bounds"
| "ldb_messages (p # ps) (q # qs) = rbind (ldb_messages ps qs) (\<lambda>ms. Inr (\<lparr> ldp_val = pvalue p, ldp_hash = digest p,
     ldp_proof = proof_hashes p, ldp_mt_pos = pos p, ldp_mptvalue = mpt_value q, ldp_mpt_chunks = map_chunks q, ldp_mpt_pos = map_pos q \<rparr> # ms))"

definition ldb_GetProof :: "'s ext \<Rightarrow> (nat \<times> string list) list \<Rightarrow> Reply \<Rightarrow> 's ldb_state \<Rightarrow> 's ldb_state vs_result" where
  "ldb_GetProof E keys r s = (let ks = concat (map snd keys); blks = concat (map (\<lambda>(blk, ks). replicate (length ks) blk) keys) in
     rbind (or_hang (LedgerDB_GetProofs E ks blks (fst s))) (\<lambda>(ps, L).
     rbind (ldb_messages (lp_mt_proofs ps) (lp_mpt_proofs ps)) (\<lambda>ms.
       Inr (True, r\<lparr>rep_digest := \<lparr> dg_block = lp_blk_seq ps, dg_hash = lp_root_digest ps, dg_mptHash = lp_mpt_digest ps \<rparr>, rep_proof := rep_proof r @ ms\<rparr>,
         (L, snd s)))))"

definition ldb_GetAudit :: "'s ext \<Rightarrow> nat \<Rightarrow> Reply \<Rightarrow> 's ldb_state \<Rightarrow> 's ldb_state vs_result" where
  "ldb_GetAudit E seq r s = rbind (or_hang (LedgerDB_GetAudit E seq (fst s))) (\<lambda>(a, L).
     Inr (True, r\<lparr>rep_laudit := (rep_laudit r)\<lparr> lda_digest := la_digest a, lda_commit_seq := la_commit_seq a, lda_first_block_seq := la_first_block_seq a,
       lda_commits := lda_commits (rep_laudit r) @ la_commits a, lda_blocks := lda_blocks (rep_laudit r) @ la_blocks a,
       lda_mptproofs := lda_mptproofs (rep_laudit r) @ map (\<lambda>p. \<lparr> mpm_value = mpt_value p, mpm_chunks = map_chunks p, mpm_pos = map_pos p \<rparr>) (la_mptproofs a) \<rparr>\<rparr>,
       (L, snd s)))"

text \<open>One entry is added to the reply and then overwritten for every key, so that the last key remains.\<close>

definition ldb_put :: "'s ext \<Rightarrow> (nat \<Rightarrow> nat \<Rightarrow> nat \<Rightarrow> bool) \<Rightarrow> string list \<Rightarrow> string list \<Rightarrow> Timestamp \<Rightarrow> Reply option
    \<Rightarrow> 's ldb_state \<Rightarrow> (Reply option \<times> 's ldb_state) result" where
  "ldb_put E rnd keys vals t r s = rbind (or_hang (LedgerDB_Set E (rnd (snd s)) keys vals (unat (getTimestamp t)) (fst s))) (\<lambda>(blk, L).
     Inr (map_option (\<lambda>r. r\<lparr>rep_values := rep_values r @ [if keys = [] then \<lparr> kv_key = [], kv_val = [], kv_estimate_block = 0 \<rparr>
       else \<lparr> kv_key = last keys, kv_val = vals ! (length keys - 1), kv_estimate_block = blk \<rparr>]\<rparr>) r, (L, snd s + 1)))"

text \<open>\<open>get\<close>: what is returned as the timestamp is the number of the block.\<close>

definition ldb_get :: "'s ext \<Rightarrow> string \<Rightarrow> 's ldb_state \<Rightarrow> ((Timestamp \<times> string) \<times> 's ldb_state) result" where
  "ldb_get E key s = rbind (or_hang (LedgerDB_GetValues E [key] (fst s))) (\<lambda>(xs, L).
     rbind (vec_at xs 0) (\<lambda>x. Inr ((Timestamp_of (of_nat (fst (snd x))), snd (snd x)), (L, snd s))))"

definition ldb_store :: "'s ext \<Rightarrow> (nat \<Rightarrow> nat \<Rightarrow> nat \<Rightarrow> bool) \<Rightarrow> 's ldb_state VersionedKVStore" where
  "ldb_store E rnd =
     \<lparr> vs_GetDigest = ldb_GetDigest E, vs_BatchGet = ldb_BatchGet E, vs_GetNVersions = ldb_GetNVersions E, vs_GetRange = ldb_GetRange E,
       vs_GetProof = ldb_GetProof E, vs_GetAudit = ldb_GetAudit E, vs_put = ldb_put E rnd \<rparr>"

definition ldb_open :: "'s \<Rightarrow> 's ldb_state" where
  "ldb_open s = (LedgerDB_new s, 0)"

text \<open>A reply to a put names one key only, whatever was written.\<close>

lemma ldb_put_reply:
  assumes "ldb_put E rnd keys vals t (Some r) s = Inr (r', s')"
  shows "\<exists>r1 kv. r' = Some r1 \<and> rep_values r1 = rep_values r @ [kv] \<and> (keys \<noteq> [] \<longrightarrow> kv_key kv = last keys)"
  using assms by (auto simp: ldb_put_def rbind_Inr_iff)

text \<open>Proofs of keys in the block 0 are not sent: of a request for it the reply carries no proof at all.\<close>

lemma proofs_loop_mt: "proofs_loop E cs rk tip mpt 0 ks (replicate n 0) mts mpts d = Some (Inr (mts', mpts', d')) \<Longrightarrow> mts' = mts"
proof (induction ks arbitrary: n mpts d)
  case (Cons k ks)
  obtain m where n: "n = Suc m" using Cons.prems by (cases n) simp_all
  then show ?case using Cons.prems Cons.IH [of m] by (auto simp: obind_Some_iff)
qed simp

lemma block_0_unproved:
  assumes "ldb_GetProof E [(0, ks)] r s = Inr (ok, r', s')"
  shows "rep_proof r' = rep_proof r"
proof -
  obtain ps L ms where ps: "LedgerDB_GetProofs E ks (replicate (length ks) 0) (fst s) = Some (Inr (ps, L))" "ldb_messages (lp_mt_proofs ps) (lp_mpt_proofs ps) = Inr ms"
      "r' = r\<lparr>rep_digest := \<lparr> dg_block = lp_blk_seq ps, dg_hash = lp_root_digest ps, dg_mptHash = lp_mpt_digest ps \<rparr>, rep_proof := rep_proof r @ ms\<rparr>"
    using assms by (cases "LedgerDB_GetProofs E ks (replicate (length ks) 0) (fst s)") (auto simp: ldb_GetProof_def rbind_Inr_iff)
  have "lp_mt_proofs ps = []" using ps(1) by (auto simp: LedgerDB_GetProofs_def Let_def case_prod_unfold obind_Some_iff dest!: proofs_loop_mt)
  then show ?thesis using ps(2,3) by simp
qed

end
