(* ===== verification/Shard_Client.thy ===== *)
theory Shard_Client
  imports LedgerDB_Store
begin

text \<open>
  The client's end of one shard: \<open>Promise\<close> (\<open>src/distributed/store/common/promise.cc\<close>) and
  \<open>strongstore::ShardClient\<close> (\<open>src/distributed/store/strongstore/shardclient.cc\<close>) as compiled for each
  of the three ledgers.  A method of \<open>ShardClient\<close> yields the request it sends; the callback that the
  replication client runs on the answer is a definition of its own.  A promise is owned by the field
  that points to it until it is answered, and is then handed back by the callback.
\<close>

section \<open>Promises\<close>

datatype VerifyStatus = PASS | UNVERIFIED | FAILED

text \<open>\<open>verify\<close> is not initialised by the constructors: \<^const>\<open>None\<close> is the indeterminate value.\<close>

record Promise =
  pm_done :: bool
  pm_timeout :: int
  pm_reply :: int
  pm_verify :: "VerifyStatus option"
  pm_timestamp :: Timestamp
  pm_value :: string
  unverified_keys :: "string list"
  estimated_blocks :: "nat list"
  pm_values :: "(string \<times> string) list"
  pm_timestamps :: "Timestamp list"

definition Promise_timeout :: "int \<Rightarrow> Promise" where
  "Promise_timeout timeoutMS =
     \<lparr> pm_done = False, pm_timeout = timeoutMS, pm_reply = 0, pm_verify = None, pm_timestamp = Timestamp_default,
       pm_value = [], unverified_keys = [], estimated_blocks = [], pm_values = [], pm_timestamps = [] \<rparr>"

definition Promise_new :: Promise where
  "Promise_new = Promise_timeout 1000"

definition Promise_GetTimeout :: "Promise \<Rightarrow> int" where
  "Promise_GetTimeout p = pm_timeout p"

definition ReplyInternal :: "int \<Rightarrow> Promise \<Rightarrow> Promise" where
  "ReplyInternal r p = p\<lparr>pm_done := True, pm_reply := r\<rparr>"

definition Promise_Reply :: "int \<Rightarrow> Promise \<Rightarrow> Promise" where
  "Promise_Reply r p = ReplyInternal r p"

definition Promise_Reply_t :: "int \<Rightarrow> Timestamp \<Rightarrow> Promise \<Rightarrow> Promise" where
  "Promise_Reply_t r t p = ReplyInternal r (p\<lparr>pm_timestamp := t\<rparr>)"

definition Promise_Reply_v :: "int \<Rightarrow> string \<Rightarrow> Promise \<Rightarrow> Promise" where
  "Promise_Reply_v r v p = ReplyInternal r (p\<lparr>pm_value := v\<rparr>)"

definition Promise_Reply_tv :: "int \<Rightarrow> Timestamp \<Rightarrow> string \<Rightarrow> Promise \<Rightarrow> Promise" where
  "Promise_Reply_tv r t v p = ReplyInternal r (p\<lparr>pm_value := v, pm_timestamp := t\<rparr>)"

definition Promise_Reply_values :: "int \<Rightarrow> Timestamp list \<Rightarrow> (string \<times> string) list \<Rightarrow> string list \<Rightarrow> nat list \<Rightarrow> Promise \<Rightarrow> Promise" where
  "Promise_Reply_values r ts vals keys blocks p = ReplyInternal r
     (p\<lparr>pm_values := om_insert vals (pm_values p), pm_timestamps := pm_timestamps p @ ts,
        unverified_keys := unverified_keys p @ keys, estimated_blocks := estimated_blocks p @ blocks\<rparr>)"

definition Promise_Reply_verify :: "int \<Rightarrow> VerifyStatus option \<Rightarrow> Promise \<Rightarrow> Promise" where
  "Promise_Reply_verify r vs p = ReplyInternal r (p\<lparr>pm_verify := vs\<rparr>)"

definition Promise_Reply_keys :: "int \<Rightarrow> VerifyStatus option \<Rightarrow> string list \<Rightarrow> nat list \<Rightarrow> Promise \<Rightarrow> Promise" where
  "Promise_Reply_keys r vs keys blocks p = ReplyInternal r
     (p\<lparr>unverified_keys := unverified_keys p @ keys, estimated_blocks := estimated_blocks p @ blocks, pm_verify := vs\<rparr>)"

text \<open>The getters wait until the promise is answered.\<close>

definition await :: "Promise \<Rightarrow> 'a result \<Rightarrow> 'a result" where
  "await p x = (if pm_done p then x else Inl Blocked)"

definition Promise_GetReply :: "Promise \<Rightarrow> int result" where
  "Promise_GetReply p = await p (Inr (pm_reply p))"

definition GetVerifyStatus :: "Promise \<Rightarrow> VerifyStatus result" where
  "GetVerifyStatus p = await p (case pm_verify p of None \<Rightarrow> Inl Out_of_bounds | Some vs \<Rightarrow> Inr vs)"

definition Promise_GetTimestamp :: "Promise \<Rightarrow> Timestamp result" where
  "Promise_GetTimestamp p = await p (Inr (pm_timestamp p))"

definition Promise_GetValue :: "Promise \<Rightarrow> string result" where
  "Promise_GetValue p = await p (Inr (pm_value p))"

definition getValues :: "Promise \<Rightarrow> (string \<times> string) list result" where
  "getValues p = await p (Inr (pm_values p))"

definition GetTimestamp_at :: "nat \<Rightarrow> Promise \<Rightarrow> Timestamp result" where
  "GetTimestamp_at i p = await p (vec_at (pm_timestamps p) i)"

lemma Promise_reply_simps [simp]:
  "pm_done (ReplyInternal r p)" "pm_reply (ReplyInternal r p) = r" "pm_verify (ReplyInternal r p) = pm_verify p"
  "pm_timestamp (ReplyInternal r p) = pm_timestamp p" "unverified_keys (ReplyInternal r p) = unverified_keys p"
  "estimated_blocks (ReplyInternal r p) = estimated_blocks p" "pm_values (ReplyInternal r p) = pm_values p"
  "pm_timestamps (ReplyInternal r p) = pm_timestamps p"
  by (simp_all add: ReplyInternal_def)

lemmas Promise_replies = Promise_Reply_def Promise_Reply_t_def Promise_Reply_v_def Promise_Reply_tv_def
  Promise_Reply_values_def Promise_Reply_verify_def Promise_Reply_keys_def

lemma Promise_new_simps [simp]:
  "pm_values (Promise_timeout n) = []" "pm_timestamps (Promise_timeout n) = []" "unverified_keys (Promise_timeout n) = []"
  "estimated_blocks (Promise_timeout n) = []" "pm_timestamp (Promise_timeout n) = Timestamp_default" "\<not> pm_done (Promise_timeout n)"
  by (simp_all add: Promise_timeout_def)

section \<open>State of a shard client\<close>

text \<open>The ledger chosen when the program is built.\<close>

datatype Ledger = LEDGERDB | AMZQLDB | SQLLEDGER

record 's ShardClient =
  sc_client_id :: nat
  sc_shard :: nat
  sc_replica :: int
  waiting :: "Promise option"
  blockingBegin :: "Promise option"
  verifyPromise :: "nat \<rightharpoonup> Promise"
  tip_block :: nat
  audit_block :: int
  uid :: nat
  sc_db :: "'s DB"

definition ShardClient_new :: "Mode \<Rightarrow> nat \<Rightarrow> nat \<Rightarrow> nat \<Rightarrow> int \<Rightarrow> 's \<Rightarrow> 's ShardClient" where
  "ShardClient_new mode config_n client_id shard closestReplica store =
     \<lparr> sc_client_id = client_id, sc_shard = shard,
       sc_replica = (if mode = MODE_OCC \<or> mode = MODE_SPAN_OCC then
          if closestReplica = -1 then int (client_id mod config_n) else closestReplica else 0),
       waiting = None, blockingBegin = None, verifyPromise = Map.empty, tip_block = 0, audit_block = -1, uid = 0,
       sc_db = DB_Open store \<rparr>"

definition SC_Begin :: "'s ShardClient \<Rightarrow> 's ShardClient result" where
  "SC_Begin c = (case blockingBegin c of None \<Rightarrow> Inr c
     | Some p \<Rightarrow> rbind (Promise_GetReply p) (\<lambda>_. Inr (c\<lparr>blockingBegin := None\<rparr>)))"

section \<open>Requests\<close>

definition SC_BatchGet :: "nat \<Rightarrow> string list \<Rightarrow> Promise \<Rightarrow> 's ShardClient \<Rightarrow> Request \<times> 's ShardClient" where
  "SC_BatchGet t keys promise c =
     ((Request_default OP_BATCH_GET t)\<lparr>req_batchget := keys\<rparr>, c\<lparr>waiting := Some promise\<rparr>)"

definition SC_GetRange :: "nat \<Rightarrow> string \<Rightarrow> string \<Rightarrow> Promise \<Rightarrow> 's ShardClient \<Rightarrow> Request \<times> 's ShardClient" where
  "SC_GetRange t start stop promise c =
     ((Request_default OP_RANGE t)\<lparr>req_range := (start, stop)\<rparr>, c\<lparr>waiting := Some promise\<rparr>)"

text \<open>\<open>emplace\<close> on a number that is taken would leave the older promise in place; the numbers are fresh.\<close>

definition register :: "Promise \<Rightarrow> 's ShardClient \<Rightarrow> nat \<times> 's ShardClient" where
  "register promise c = (uid c, c\<lparr>verifyPromise := (case verifyPromise c (uid c) of None \<Rightarrow> (verifyPromise c)(uid c \<mapsto> promise)
     | Some _ \<Rightarrow> verifyPromise c), uid := (uid c + 1) mod 2 ^ 64\<rparr>)"

text \<open>Of a block beyond the known tip no proof is asked; the promise is answered at once (\<^const>\<open>Inl\<close>).\<close>

definition SC_GetProof :: "nat \<Rightarrow> string list \<Rightarrow> Promise \<Rightarrow> 's ShardClient \<Rightarrow> (Promise + nat \<times> Request) \<times> 's ShardClient" where
  "SC_GetProof block keys promise c =
     (if tip_block c < block then (Inl (Promise_Reply REPLY_OK promise), c)
      else let (n, c') = register promise c
        in (Inr (n, (Request_default OP_VERIFY_GET 0)\<lparr>req_verify_block := block, req_verify_keys := keys\<rparr>), c'))"

definition SC_Audit :: "nat \<Rightarrow> Promise \<Rightarrow> 's ShardClient \<Rightarrow> (nat \<times> Request) \<times> 's ShardClient" where
  "SC_Audit seq promise c = (let (n, c') = register promise c in ((n, (Request_default OP_AUDIT 0)\<lparr>req_audit := seq\<rparr>), c'))"

definition SC_Prepare :: "nat \<Rightarrow> Transaction \<Rightarrow> Promise option \<Rightarrow> 's ShardClient \<Rightarrow> Request \<times> 's ShardClient" where
  "SC_Prepare t txn promise c =
     ((Request_default OP_PREPARE t)\<lparr>req_prepare := Transaction_serialize txn\<rparr>, c\<lparr>waiting := promise\<rparr>)"

text \<open>\<open>nversions\<close> is an \<open>int32\<close> of the message.\<close>

definition SC_Commit :: "nat \<Rightarrow> (string \<times> nat) list \<Rightarrow> 64 word \<Rightarrow> Promise option \<Rightarrow> 's ShardClient \<Rightarrow> Request \<times> 's ShardClient" where
  "SC_Commit t versionedKeys timestamp promise c =
     ((Request_default OP_COMMIT t)\<lparr>req_commit := timestamp, req_version := map (\<lambda>(k, n). (k, of_nat n)) versionedKeys\<rparr>,
      c\<lparr>blockingBegin := Some (Promise_timeout 10000), waiting := promise\<rparr>)"

definition SC_Abort :: "nat \<Rightarrow> Transaction \<Rightarrow> Promise option \<Rightarrow> 's ShardClient \<Rightarrow> Request \<times> 's ShardClient" where
  "SC_Abort t txn promise c =
     ((Request_default OP_ABORT t)\<lparr>req_abort := Transaction_serialize txn\<rparr>,
      c\<lparr>blockingBegin := Some (Promise_timeout 1000), waiting := promise\<rparr>)"

section \<open>Callbacks\<close>

text \<open>
  The result of a callback is the promise it answered, if any, and the client.  In the QLDB build every proof
  of a reply is checked; the status is computed by the loop below.
\<close>

fun check_qproofs :: "'s ext \<Rightarrow> Hash \<Rightarrow> QLDBProof list \<Rightarrow> VerifyStatus \<Rightarrow> VerifyStatus result" where
  "check_qproofs E dig [] vs = Inr vs"
| "check_qproofs E dig (p # ps) vs =
     rbind (QLProofResult_Verify E (prover p) dig) (\<lambda>ok. check_qproofs E dig ps (if ok then vs else FAILED))"

text \<open>The values, timestamps, unverified keys and estimated blocks read off a reply, and the status of its proofs.\<close>

definition qldb_reply :: "'s ext \<Rightarrow> Reply \<Rightarrow> (VerifyStatus \<times> Timestamp list \<times> (string \<times> string) list) result" where
  "qldb_reply E r = rbind (check_qproofs E (FromBase32 (dg_hash (rep_digest r))) (rep_qproof r) PASS) (\<lambda>vs.
     Inr (vs, map (\<lambda>p. Timestamp_of (of_nat (qp_time p))) (rep_qproof r), om_insert (map (\<lambda>p. (qp_key p, qp_value p)) (rep_qproof r)) []))"

definition plain_reply :: "Reply \<Rightarrow> Timestamp list \<times> (string \<times> string) list \<times> string list \<times> nat list" where
  "plain_reply r = (map (\<lambda>t. Timestamp_of (of_nat t)) (rep_timestamps r), om_insert (map (\<lambda>v. (kv_key v, kv_val v)) (rep_values r)) [],
     map kv_key (rep_values r), map kv_estimate_block (rep_values r))"

text \<open>\<open>BatchGetCallback\<close> and \<open>GetRangeCallback\<close> do the same; the status of the proofs is not passed on.\<close>

definition read_callback :: "Ledger \<Rightarrow> 's ext \<Rightarrow> Reply \<Rightarrow> 's ShardClient \<Rightarrow> (Promise option \<times> 's ShardClient) result" where
  "read_callback L E r c = (case waiting c of None \<Rightarrow> Inr (None, c) | Some w \<Rightarrow>
     (case L of
        AMZQLDB \<Rightarrow> rbind (qldb_reply E r) (\<lambda>(vs, ts, vals).
          Inr (Some (Promise_Reply_values (rep_status r) ts vals [] [] w), c\<lparr>waiting := None\<rparr>))
      | _ \<Rightarrow> (case plain_reply r of (ts, vals, keys, blocks) \<Rightarrow>
          Inr (Some (Promise_Reply_values (rep_status r) ts vals keys blocks w), c\<lparr>waiting := None, tip_block := dg_block (rep_digest r)\<rparr>))))"

definition BatchGetCallback :: "Ledger \<Rightarrow> 's ext \<Rightarrow> Reply \<Rightarrow> 's ShardClient \<Rightarrow> (Promise option \<times> 's ShardClient) result" where
  "BatchGetCallback L E r c = read_callback L E r c"

definition GetRangeCallback :: "Ledger \<Rightarrow> 's ext \<Rightarrow> Reply \<Rightarrow> 's ShardClient \<Rightarrow> (Promise option \<times> 's ShardClient) result" where
  "GetRangeCallback L E r c = read_callback L E r c"

definition GetTimeout :: "'s ShardClient \<Rightarrow> Promise option \<times> 's ShardClient" where
  "GetTimeout c = (case waiting c of None \<Rightarrow> (None, c)
     | Some w \<Rightarrow> (Some (Promise_Reply REPLY_TIMEOUT w), c\<lparr>waiting := None\<rparr>))"

definition PrepareCallback :: "Reply \<Rightarrow> 's ShardClient \<Rightarrow> Promise option \<times> 's ShardClient" where
  "PrepareCallback r c = (case waiting c of None \<Rightarrow> (None, c)
     | Some w \<Rightarrow> (Some (Promise_Reply_t (rep_status r)
         (case rep_timestamp r of Some t \<Rightarrow> Timestamp t 0 | None \<Rightarrow> Timestamp_default) w), c\<lparr>waiting := None\<rparr>))"

definition unblock :: "Reply \<Rightarrow> 's ShardClient \<Rightarrow> 's ShardClient result" where
  "unblock r c = (if rep_status r = REPLY_OK then case blockingBegin c of None \<Rightarrow> Inl Panicked
       | Some p \<Rightarrow> Inr (c\<lparr>blockingBegin := Some (Promise_Reply 0 p)\<rparr>) else Inl Panicked)"

definition CommitCallback :: "Ledger \<Rightarrow> 's ext \<Rightarrow> Reply \<Rightarrow> 's ShardClient \<Rightarrow> (Promise option \<times> 's ShardClient) result" where
  "CommitCallback L E r c = rbind (unblock r c) (\<lambda>c. case waiting c of None \<Rightarrow> Inr (None, c) | Some w \<Rightarrow>
     (case L of
        AMZQLDB \<Rightarrow> rbind (check_qproofs E (FromBase32 (dg_hash (rep_digest r))) (rep_qproof r) PASS) (\<lambda>vs.
          Inr (Some (Promise_Reply_keys (rep_status r) (Some vs) [] [] w), c\<lparr>waiting := None\<rparr>))
      | _ \<Rightarrow> Inr (Some (Promise_Reply_keys (rep_status r) (Some UNVERIFIED) (map kv_key (rep_values r)) (map kv_estimate_block (rep_values r)) w),
          c\<lparr>waiting := None, tip_block := dg_block (rep_digest r)\<rparr>)))"

definition AbortCallback :: "Reply \<Rightarrow> 's ShardClient \<Rightarrow> (Promise option \<times> 's ShardClient) result" where
  "AbortCallback r c = rbind (unblock r c) (\<lambda>c. Inr (case waiting c of None \<Rightarrow> (None, c)
     | Some w \<Rightarrow> (Some (Promise_Reply (rep_status r) w), c\<lparr>waiting := None\<rparr>)))"

subsection \<open>Proofs and audits\<close>

text \<open>The proof of a message; a position that is missing is read out of bounds.\<close>

definition mt_of_message :: "MTProof \<Rightarrow> Proof result" where
  "mt_of_message m = (if length (mtp_pos m) < length (mtp_proof m) then Inl Out_of_bounds
     else Inr \<lparr> digest = mtp_digest m, pvalue = mtp_value m, proof_hashes = mtp_proof m, pos = take (length (mtp_proof m)) (mtp_pos m) \<rparr>)"

text \<open>A data proof that is missing is read out of bounds.\<close>

fun check_details :: "'s ext \<Rightarrow> string \<Rightarrow> MTProof list \<Rightarrow> MTProof list \<Rightarrow> VerifyStatus \<Rightarrow> VerifyStatus result" where
  "check_details E txn_hash [] ds res = Inr res"
| "check_details E txn_hash (t # ts) [] res = Inl Out_of_bounds"
| "check_details E txn_hash (t # ts) (d # ds) res =
     rbind (mt_of_message t) (\<lambda>tp. rbind (mt_of_message d) (\<lambda>dp.
     rbind (DetailProof_Verify E \<lparr> txn_proof = tp, data_proof = dp \<rparr> txn_hash) (\<lambda>ok.
       if ok then check_details E txn_hash ts ds res else Inr FAILED)))"

fun check_sproofs :: "'s ext \<Rightarrow> string \<Rightarrow> SQLLedgerProof list \<Rightarrow> VerifyStatus \<Rightarrow> VerifyStatus result" where
  "check_sproofs E hash [] res = Inr res"
| "check_sproofs E hash (p # ps) res = rbind (BlockProof_Verify E (slp_blocks p) hash []) (\<lambda>(ok, txn_hash).
     if \<not> ok then Inr FAILED
     else rbind (check_details E txn_hash (slp_txn_proof p) (slp_data_proof p) res) (check_sproofs E hash ps))"

text \<open>In the LedgerDB build the trie proof of a message is rebuilt chunk by chunk from the bytes of the message.\<close>

fun append_chunks :: "string list \<Rightarrow> nat list \<Rightarrow> MPTProof \<Rightarrow> MPTProof result" where
  "append_chunks [] ps p = Inr p"
| "append_chunks (c # cs) [] p = Inl Out_of_bounds"
| "append_chunks (c # cs) (x # ps) p = rbind (str_chunk c) (\<lambda>chunk. append_chunks cs ps (AppendProof p chunk x))"

definition mpt_of_message :: "string \<Rightarrow> string list \<Rightarrow> nat list \<Rightarrow> MPTProof result" where
  "mpt_of_message val chunks ps = append_chunks chunks ps (MPTProof_new\<lparr>mpt_value := val\<rparr>)"

text \<open>The \<open>i\<close>-th proof is checked for the \<open>i\<close>-th key asked for; a message without chunks is not checked against the trie.\<close>

fun check_lproofs :: "'s ext \<Rightarrow> Hash \<Rightarrow> string list \<Rightarrow> nat \<Rightarrow> LedgerDBProof list \<Rightarrow> VerifyStatus \<Rightarrow> VerifyStatus result" where
  "check_lproofs E mptdigest keys i [] res = Inr res"
| "check_lproofs E mptdigest keys i (p # ps) res = rbind (mpt_of_message (ldp_mptvalue p) (ldp_mpt_chunks p) (ldp_mpt_pos p)) (\<lambda>q.
     rbind (if ldp_mpt_chunks p = [] then Inr True else rbind (vec_at keys i) (VerifyProof E q mptdigest)) (\<lambda>ok1.
     rbind (mt_Verify E \<lparr> digest = ldp_hash p, pvalue = ldp_val p, proof_hashes = ldp_proof p, pos = ldp_mt_pos p \<rparr>) (\<lambda>ok2.
       check_lproofs E mptdigest keys (i + 1) ps (if ok1 \<and> ok2 then res else FAILED))))"

definition settle :: "nat \<Rightarrow> int \<Rightarrow> VerifyStatus option \<Rightarrow> Promise \<Rightarrow> 's ShardClient \<Rightarrow> Promise option \<times> 's ShardClient" where
  "settle n status res w c = (Some (Promise_Reply_verify status res w), c\<lparr>verifyPromise := (verifyPromise c)(n := None)\<rparr>)"

definition GetProofCallback :: "Ledger \<Rightarrow> 's ext \<Rightarrow> nat \<Rightarrow> string list \<Rightarrow> Reply \<Rightarrow> 's ShardClient \<Rightarrow> (Promise option \<times> 's ShardClient) result" where
  "GetProofCallback L E n keys r c = (case verifyPromise c n of None \<Rightarrow> Inr (None, c) | Some w \<Rightarrow>
     rbind (case L of
         LEDGERDB \<Rightarrow> check_lproofs E (FromBase32 (dg_mptHash (rep_digest r))) keys 0 (rep_proof r) PASS
       | SQLLEDGER \<Rightarrow> check_sproofs E (dg_hash (rep_digest r)) (rep_sproof r) PASS
       | AMZQLDB \<Rightarrow> Inr PASS) (\<lambda>res.
       Inr (settle n (rep_status r) (Some res) w (c\<lparr>tip_block := dg_block (rep_digest r)\<rparr>))))"

text \<open>\<open>res\<close> is set only by the audit, which a sequence number beyond the tip, or the QLDB build, skips.\<close>

fun mpts_of_messages :: "MPTProof_msg list \<Rightarrow> MPTProof list result" where
  "mpts_of_messages [] = Inr []"
| "mpts_of_messages (p # ps) = rbind (mpt_of_message (mpm_value p) (mpm_chunks p) (mpm_pos p)) (\<lambda>q. rbind (mpts_of_messages ps) (\<lambda>qs. Inr (q # qs)))"

definition ldb_audit_reply :: "'s ext \<Rightarrow> Reply \<Rightarrow> 's ShardClient \<Rightarrow> (VerifyStatus \<times> 's ShardClient) result" where
  "ldb_audit_reply E r c = (let a = rep_laudit r in rbind (mpts_of_messages (lda_mptproofs a)) (\<lambda>ps.
     rbind (Audit E \<lparr> la_digest = lda_digest a, la_commit_seq = lda_commit_seq a, la_first_block_seq = lda_first_block_seq a,
         la_commits = lda_commits a, la_blocks = lda_blocks a, la_mptproofs = ps \<rparr> (sc_db c)) (\<lambda>(ok, d).
       Inr (if ok then PASS else FAILED, c\<lparr>sc_db := d\<rparr>))))"

definition sql_audit_reply :: "'s ext \<Rightarrow> Reply \<Rightarrow> 's ShardClient \<Rightarrow> (VerifyStatus \<times> 's ShardClient) result" where
  "sql_audit_reply E r c = (let a = rep_saudit r in
     case Auditor_Audit E (sc_db c) \<lparr> au_blks = sla_blocks a, au_txns = sla_txns a, au_digest = sla_digest a, au_block_seq = sla_block_no a \<rparr>
     of None \<Rightarrow> Inl Blocked | Some m \<Rightarrow> rbind m (\<lambda>(ok, ntxns, d).
       Inr (if ok then PASS else FAILED, c\<lparr>audit_block := int (sla_block_no a), sc_db := d\<rparr>)))"

definition audit_reply :: "Ledger \<Rightarrow> 's ext \<Rightarrow> Reply \<Rightarrow> 's ShardClient \<Rightarrow> (VerifyStatus option \<times> 's ShardClient) result" where
  "audit_reply L E r c = (case L of
      AMZQLDB \<Rightarrow> Inr (None, c)
    | SQLLEDGER \<Rightarrow> rbind (sql_audit_reply E r c) (\<lambda>(res, c). Inr (Some res, c))
    | LEDGERDB \<Rightarrow> rbind (ldb_audit_reply E r c) (\<lambda>(res, c). Inr (Some res, c)))"

definition AuditCallback :: "Ledger \<Rightarrow> 's ext \<Rightarrow> nat \<Rightarrow> nat \<Rightarrow> Reply \<Rightarrow> 's ShardClient \<Rightarrow> (Promise option \<times> 's ShardClient) result" where
  "AuditCallback L E seq n r c = (case verifyPromise c n of None \<Rightarrow> Inr (None, c) | Some w \<Rightarrow>
     let c = c\<lparr>tip_block := dg_block (rep_digest r)\<rparr> in
     rbind (if seq \<le> tip_block c then audit_reply L E r c else Inr (None, c)) (\<lambda>(res, c). Inr (settle n (rep_status r) res w c)))"

section \<open>Checks that are not passed on\<close>

text \<open>In the QLDB build a value is handed to the client whether or not its proof verifies.\<close>

lemma forged_value_accepted:
  assumes "waiting c = Some (Promise_timeout n)" "rep_qproof r = [p]" "QLProofResult_Verify E (prover p) (FromBase32 (dg_hash (rep_digest r))) = Inr ok"
  shows "\<exists>w c'. BatchGetCallback AMZQLDB E r c = Inr (Some w, c') \<and> pm_reply w = rep_status r \<and> pm_values w = [(qp_key p, qp_value p)] \<and> pm_verify w = None"
  using assms by (simp add: BatchGetCallback_def read_callback_def qldb_reply_def Promise_Reply_values_def om_insert_def Promise_timeout_def)

text \<open>A \<open>Promise\<close> that a timed-out proof or audit waits for is not answered by \<open>GetTimeout\<close>.\<close>

lemma GetTimeout_leaves_proof: "verifyPromise (snd (GetTimeout c)) = verifyPromise c \<and> (waiting c = None \<longrightarrow> fst (GetTimeout c) = None)"
  by (simp add: GetTimeout_def split: option.splits)

end
