(* ===== verification/Txn_Client.thy ===== *)
theory Txn_Client
  imports Shard_Client
begin

text \<open>
  The transaction client: \<open>BufferClient\<close> (\<open>src/distributed/store/common/frontend/bufferclient.cc\<close>), which
  keeps the read and write sets for one shard, and \<open>strongstore::Client\<close>
  (\<open>src/distributed/store/strongstore/client.cc\<close>), which runs two-phase commit over the shards.

  The servers of all shards form a network.  A request of the client is executed at the server of its
  shard after an arbitrary sequence of calls of others; the time at the server and what becomes of the
  message are chosen by a schedule.  A logged request that was sent is answered in the end, since the
  replication client resends it; an unlogged one can time out.  An answer is handled before the next
  request is sent.  The server of a shard is the leader of its replicas, which is also the one that
  reads go to.
\<close>

section \<open>The network\<close>

datatype fate = Answered | Late bool | Unsent

record turn =
  others :: "call list"
  tn_clock :: "64 word \<times> 64 word"
  tn_fate :: fate

type_synonym schedule = "nat \<Rightarrow> nat \<Rightarrow> turn"

text \<open>\<open>net_calls\<close> records what each server has executed.\<close>

record 'b Net =
  net_server :: "nat \<Rightarrow> 'b Server"
  net_turn :: "nat \<Rightarrow> nat"
  net_calls :: "nat \<Rightarrow> call list"

text \<open>A server that fails leaves its client waiting.\<close>

definition blocked :: "'a result \<Rightarrow> 'a result" where
  "blocked m = (case m of Inl _ \<Rightarrow> Inl Blocked | Inr x \<Rightarrow> Inr x)"

lemma blocked_Inr [simp]: "blocked m = Inr x \<longleftrightarrow> m = Inr x"
  by (simp add: blocked_def split: sum.splits)

definition net_run :: "'b VersionedKVStore \<Rightarrow> nat \<Rightarrow> call list \<Rightarrow> 'b Net \<Rightarrow> 'b Net result" where
  "net_run V i cs n = rbind (blocked (srv_run V cs (net_server n i))) (\<lambda>s.
     Inr (n\<lparr>net_server := (net_server n)(i := s), net_calls := (net_calls n)(i := net_calls n i @ cs)\<rparr>))"

definition net_take :: "schedule \<Rightarrow> nat \<Rightarrow> 'b Net \<Rightarrow> turn \<times> 'b Net" where
  "net_take sched i n = (sched i (net_turn n i), n\<lparr>net_turn := (net_turn n)(i := net_turn n i + 1)\<rparr>)"

definition net_invoke :: "'b VersionedKVStore \<Rightarrow> schedule \<Rightarrow> nat \<Rightarrow> Request \<Rightarrow> 'b Net \<Rightarrow> (Reply \<times> 'b Net) result" where
  "net_invoke V sched i req n = (let (tn, n) = net_take sched i n in
     if tn_fate tn = Unsent then Inl Blocked
     else rbind (net_run V i (others tn) n) (\<lambda>n.
       rbind (blocked (LeaderUpcall V (tn_clock tn) req (net_server n i))) (\<lambda>(_, r, _).
       rbind (net_run V i [Leader (tn_clock tn) req] n) (\<lambda>n. Inr (r, n)))))"

definition net_read :: "'b VersionedKVStore \<Rightarrow> schedule \<Rightarrow> nat \<Rightarrow> Request \<Rightarrow> 'b Net \<Rightarrow> (Reply option \<times> 'b Net) result" where
  "net_read V sched i req n = (let (tn, n) = net_take sched i n in
     case tn_fate tn of
       Unsent \<Rightarrow> Inl Blocked
     | Late executed \<Rightarrow> rbind (net_run V i (others tn @ (if executed then [Unlogged req] else [])) n) (\<lambda>n. Inr (None, n))
     | Answered \<Rightarrow> rbind (net_run V i (others tn) n) (\<lambda>n.
         rbind (blocked (UnloggedUpcall V req (net_server n i))) (\<lambda>(r, _).
         rbind (net_run V i [Unlogged req] n) (\<lambda>n. Inr (Some r, n)))))"

section \<open>The buffer client\<close>

record 's BufferClient =
  bc_client :: "'s ShardClient"
  bc_txn :: Transaction
  history :: "(string \<times> nat) list"
  bc_tid :: nat
  bc_buffer :: "string list"

text \<open>\<open>tid\<close> is set by the first \<open>Begin\<close>.\<close>

definition BufferClient_new :: "'s ShardClient \<Rightarrow> 's BufferClient" where
  "BufferClient_new sc = \<lparr> bc_client = sc, bc_txn = Transaction_new, history = [], bc_tid = 0, bc_buffer = [] \<rparr>"

definition BC_Begin :: "nat \<Rightarrow> 's BufferClient \<Rightarrow> 's BufferClient result" where
  "BC_Begin tid b = rbind (SC_Begin (bc_client b)) (\<lambda>sc.
     Inr \<lparr> bc_client = sc, bc_txn = Transaction_new, history = [], bc_tid = tid, bc_buffer = [] \<rparr>)"

definition BC_GetNVersions :: "string \<Rightarrow> nat \<Rightarrow> Promise \<Rightarrow> 's BufferClient \<Rightarrow> Promise \<times> 's BufferClient" where
  "BC_GetNVersions key n promise b = (Promise_Reply REPLY_OK promise, b\<lparr>history := history b @ [(key, n)]\<rparr>)"

text \<open>The values come in the order of their keys, the timestamps in the order of the request.\<close>

fun add_reads :: "Promise \<Rightarrow> nat \<Rightarrow> (string \<times> string) list \<Rightarrow> Transaction \<Rightarrow> Transaction result" where
  "add_reads p i [] txn = Inr txn"
| "add_reads p i ((key, _) # kvs) txn = rbind (GetTimestamp_at i p) (\<lambda>t. add_reads p (i + 1) kvs (addReadSet key t txn))"

definition note_reads :: "Promise \<Rightarrow> Transaction \<Rightarrow> Transaction result" where
  "note_reads p txn = rbind (Promise_GetReply p) (\<lambda>r.
     if r = REPLY_OK then rbind (getValues p) (\<lambda>kvs. add_reads p 0 kvs txn) else Inr txn)"

text \<open>A read of the shard client together with the callback or the timeout that answers it.\<close>

definition answered :: "(Promise option \<times> 'a) result \<Rightarrow> (Promise \<times> 'a) result" where
  "answered m = rbind m (\<lambda>(p, x). case p of None \<Rightarrow> Inl Blocked | Some p \<Rightarrow> Inr (p, x))"

definition BC_BatchGet :: "Ledger \<Rightarrow> 's ext \<Rightarrow> 'b VersionedKVStore \<Rightarrow> schedule \<Rightarrow> Promise \<Rightarrow> 's BufferClient \<Rightarrow> 'b Net
    \<Rightarrow> (Promise \<times> 's BufferClient \<times> 'b Net) result" where
  "BC_BatchGet L E V sched promise b n = (let (req, sc) = SC_BatchGet (bc_tid b) (bc_buffer b) promise (bc_client b) in
     rbind (net_read V sched (sc_shard sc) req n) (\<lambda>(r, n).
     rbind (answered (case r of Some r \<Rightarrow> BatchGetCallback L E r sc | None \<Rightarrow> Inr (GetTimeout sc))) (\<lambda>(p, sc).
     rbind (note_reads p (bc_txn b)) (\<lambda>txn. Inr (p, b\<lparr>bc_client := sc, bc_txn := txn, bc_buffer := []\<rparr>, n)))))"

definition BC_GetRange :: "Ledger \<Rightarrow> 's ext \<Rightarrow> 'b VersionedKVStore \<Rightarrow> schedule \<Rightarrow> string \<Rightarrow> string \<Rightarrow> Promise \<Rightarrow> 's BufferClient \<Rightarrow> 'b Net
    \<Rightarrow> (Promise \<times> 's BufferClient \<times> 'b Net) result" where
  "BC_GetRange L E V sched start stop promise b n = (let (req, sc) = SC_GetRange (bc_tid b) start stop promise (bc_client b) in
     rbind (net_read V sched (sc_shard sc) req n) (\<lambda>(r, n).
     rbind (answered (case r of Some r \<Rightarrow> GetRangeCallback L E r sc | None \<Rightarrow> Inr (GetTimeout sc))) (\<lambda>(p, sc).
     rbind (note_reads p (bc_txn b)) (\<lambda>txn. Inr (p, b\<lparr>bc_client := sc, bc_txn := txn\<rparr>, n)))))"

definition BC_BufferKey :: "string \<Rightarrow> 's BufferClient \<Rightarrow> 's BufferClient" where
  "BC_BufferKey key b = b\<lparr>bc_buffer := bc_buffer b @ [key]\<rparr>"

definition BC_Get :: "string \<Rightarrow> Promise \<Rightarrow> 's BufferClient \<Rightarrow> Promise \<times> 's BufferClient" where
  "BC_Get key promise b = (Promise_Reply REPLY_OK promise,
     if map_of (writeSet (bc_txn b)) key \<noteq> None then b
     else if map_of (readSet (bc_txn b)) key = None then b\<lparr>bc_txn := addReadSet key Timestamp_default (bc_txn b)\<rparr> else b)"

definition BC_Put :: "string \<Rightarrow> string \<Rightarrow> Promise \<Rightarrow> 's BufferClient \<Rightarrow> Promise \<times> 's BufferClient" where
  "BC_Put key v promise b = (Promise_Reply REPLY_OK promise, b\<lparr>bc_txn := addWriteSet key v (bc_txn b)\<rparr>)"

definition BC_Prepare :: "'b VersionedKVStore \<Rightarrow> schedule \<Rightarrow> Promise \<Rightarrow> 's BufferClient \<Rightarrow> 'b Net
    \<Rightarrow> (Promise \<times> 's BufferClient \<times> 'b Net) result" where
  "BC_Prepare V sched promise b n = (let (req, sc) = SC_Prepare (bc_tid b) (bc_txn b) (Some promise) (bc_client b) in
     rbind (net_invoke V sched (sc_shard sc) req n) (\<lambda>(r, n).
     rbind (answered (Inr (PrepareCallback r sc))) (\<lambda>(p, sc). Inr (p, b\<lparr>bc_client := sc\<rparr>, n))))"

definition BC_Commit :: "Ledger \<Rightarrow> 's ext \<Rightarrow> 'b VersionedKVStore \<Rightarrow> schedule \<Rightarrow> 64 word \<Rightarrow> Promise option \<Rightarrow> 's BufferClient \<Rightarrow> 'b Net
    \<Rightarrow> (Promise option \<times> 's BufferClient \<times> 'b Net) result" where
  "BC_Commit L E V sched timestamp promise b n = (let (req, sc) = SC_Commit (bc_tid b) (history b) timestamp promise (bc_client b) in
     rbind (net_invoke V sched (sc_shard sc) req n) (\<lambda>(r, n).
     rbind (CommitCallback L E r sc) (\<lambda>(p, sc). Inr (p, b\<lparr>bc_client := sc\<rparr>, n))))"

text \<open>An empty transaction goes with the abort.\<close>

definition BC_Abort :: "'b VersionedKVStore \<Rightarrow> schedule \<Rightarrow> Promise option \<Rightarrow> 's BufferClient \<Rightarrow> 'b Net
    \<Rightarrow> (Promise option \<times> 's BufferClient \<times> 'b Net) result" where
  "BC_Abort V sched promise b n = (let (req, sc) = SC_Abort (bc_tid b) Transaction_new promise (bc_client b) in
     rbind (net_invoke V sched (sc_shard sc) req n) (\<lambda>(r, n).
     rbind (AbortCallback r sc) (\<lambda>(p, sc). Inr (p, b\<lparr>bc_client := sc\<rparr>, n))))"

text \<open>
  A timeout of \<open>GetProof\<close> or \<open>Audit\<close> runs \<open>GetTimeout\<close>, which looks at \<open>waiting\<close> and leaves the promise of the
  proof unanswered: the client waits for ever.
\<close>

definition BC_Verify :: "Ledger \<Rightarrow> 's ext \<Rightarrow> 'b VersionedKVStore \<Rightarrow> schedule \<Rightarrow> nat \<Rightarrow> string list \<Rightarrow> Promise \<Rightarrow> 's BufferClient \<Rightarrow> 'b Net
    \<Rightarrow> (bool \<times> Promise \<times> 's BufferClient \<times> 'b Net) result" where
  "BC_Verify L E V sched block keys promise b n = (case SC_GetProof block keys promise (bc_client b) of
      (Inl p, sc) \<Rightarrow> Inr (False, p, b\<lparr>bc_client := sc\<rparr>, n)
    | (Inr (k, req), sc) \<Rightarrow> rbind (net_read V sched (sc_shard sc) req n) (\<lambda>(r, n).
        case r of None \<Rightarrow> Inl Blocked
        | Some r \<Rightarrow> rbind (answered (GetProofCallback L E k keys r sc)) (\<lambda>(p, sc). Inr (True, p, b\<lparr>bc_client := sc\<rparr>, n))))"

definition BC_Audit :: "Ledger \<Rightarrow> 's ext \<Rightarrow> 'b VersionedKVStore \<Rightarrow> schedule \<Rightarrow> nat \<Rightarrow> Promise \<Rightarrow> 's BufferClient \<Rightarrow> 'b Net
    \<Rightarrow> (Promise \<times> 's BufferClient \<times> 'b Net) result" where
  "BC_Audit L E V sched seq promise b n = (case SC_Audit seq promise (bc_client b) of ((k, req), sc) \<Rightarrow>
     rbind (net_read V sched (sc_shard sc) req n) (\<lambda>(r, n).
       case r of None \<Rightarrow> Inl Blocked
       | Some r \<Rightarrow> rbind (answered (AuditCallback L E seq k r sc)) (\<lambda>(p, sc). Inr (p, b\<lparr>bc_client := sc\<rparr>, n))))"

section \<open>The client\<close>

record 's Client =
  c_mode :: Mode
  t_id :: nat
  nshards :: nat
  participants :: "nat list"
  bclient :: "'s BufferClient list"
  c_timeServer :: TrueTime
  commit_sleep :: int

text \<open>
  \<open>client_id\<close> is a random number other than 0.  The vector \<open>bclient\<close> is reserved but never resized; its slots are
  used all the same.  \<open>configs\<close> gives the number of replicas of each shard, \<open>stores\<close> the store of each auditor.
\<close>

definition Client_new :: "Mode \<Rightarrow> nat \<Rightarrow> (nat \<Rightarrow> nat) \<Rightarrow> nat \<Rightarrow> int \<Rightarrow> TrueTime \<Rightarrow> (nat \<Rightarrow> 's) \<Rightarrow> 's Client" where
  "Client_new mode client_id configs nShards closestReplica T stores =
     \<lparr> c_mode = mode, t_id = client_id div 10000 * 10000, nshards = nShards, participants = [],
       bclient = map (\<lambda>i. BufferClient_new (ShardClient_new mode (configs i) client_id i closestReplica (stores i))) [0..<nShards],
       c_timeServer = T, commit_sleep = 0 \<rparr>"

fun begin_all :: "nat \<Rightarrow> 's BufferClient list \<Rightarrow> 's BufferClient list result" where
  "begin_all tid [] = Inr []"
| "begin_all tid (b # bs) = rbind (BC_Begin tid b) (\<lambda>b. rbind (begin_all tid bs) (\<lambda>bs. Inr (b # bs)))"

definition Client_Begin :: "'s Client \<Rightarrow> 's Client result" where
  "Client_Begin c = (let t = (t_id c + 1) mod 2 ^ 64 in
     rbind (begin_all t (bclient c)) (\<lambda>bs. Inr (c\<lparr>t_id := t, participants := [], commit_sleep := -1, bclient := bs\<rparr>)))"

definition c_shard :: "string \<Rightarrow> 's Client \<Rightarrow> nat" where
  "c_shard key c = unat (key_to_shard key (of_nat (nshards c)))"

text \<open>A call on the buffer client of a shard.\<close>

definition at_shard :: "nat \<Rightarrow> ('s BufferClient \<Rightarrow> ('a \<times> 's BufferClient) result) \<Rightarrow> 's Client \<Rightarrow> ('a \<times> 's Client) result" where
  "at_shard i f c = rbind (vec_at (bclient c) i) (\<lambda>b. rbind (f b) (\<lambda>(x, b). Inr (x, c\<lparr>bclient := (bclient c)[i := b]\<rparr>)))"

definition join :: "nat \<Rightarrow> 's Client \<Rightarrow> 's Client" where
  "join i c = c\<lparr>participants := insort_insert i (participants c)\<rparr>"

definition Client_GetNVersions :: "string \<Rightarrow> nat \<Rightarrow> 's Client \<Rightarrow> (int \<times> 's Client) result" where
  "Client_GetNVersions key n c = (let i = c_shard key c in
     rbind (at_shard i (\<lambda>b. Inr (BC_GetNVersions key n (Promise_timeout 10000) b)) (join i c)) (\<lambda>(p, c).
     rbind (Promise_GetReply p) (\<lambda>r. Inr (r, c))))"

definition Client_Get :: "string \<Rightarrow> 's Client \<Rightarrow> (int \<times> 's Client) result" where
  "Client_Get key c = (let i = c_shard key c in
     rbind (at_shard i (\<lambda>b. Inr (BC_Get key (Promise_timeout 10000) b)) (join i c)) (\<lambda>(p, c).
     rbind (Promise_GetReply p) (\<lambda>r. Inr (r, c))))"

definition Client_BufferKey :: "string \<Rightarrow> 's Client \<Rightarrow> 's Client result" where
  "Client_BufferKey key c = (let i = c_shard key c in
     rbind (at_shard i (\<lambda>b. Inr ((), BC_BufferKey key b)) (join i c)) (\<lambda>(_, c). Inr c))"

definition Client_Put :: "string \<Rightarrow> string \<Rightarrow> 's Client \<Rightarrow> (int \<times> 's Client) result" where
  "Client_Put key v c = (let i = c_shard key c in
     rbind (at_shard i (\<lambda>b. Inr (BC_Put key v (Promise_timeout 250) b)) (join i c)) (\<lambda>(p, c).
     rbind (Promise_GetReply p) (\<lambda>r. Inr (r, c))))"

text \<open>The same call on several shards in turn, with the answers.\<close>

fun each_shard :: "('s BufferClient \<Rightarrow> 'b Net \<Rightarrow> ('a \<times> 's BufferClient \<times> 'b Net) result) \<Rightarrow> nat list \<Rightarrow> 's Client \<Rightarrow> 'b Net
    \<Rightarrow> ((nat \<times> 'a) list \<times> 's Client \<times> 'b Net) result" where
  "each_shard f [] c n = Inr ([], c, n)"
| "each_shard f (i # is) c n =
     rbind (at_shard i (\<lambda>b. rbind (f b n) (\<lambda>(x, b, n). Inr ((x, n), b))) c) (\<lambda>((x, n), c).
     rbind (each_shard f is c n) (\<lambda>(xs, c, n). Inr ((i, x) # xs, c, n)))"

subsection \<open>Reads\<close>

type_synonym unverified = "(nat \<times> (nat \<times> string list) list) list"

definition add_key :: "nat \<Rightarrow> nat \<Rightarrow> string \<Rightarrow> unverified \<Rightarrow> unverified" where
  "add_key shard block key keys = (case map_of keys shard of
      None \<Rightarrow> om_emplace shard [(block, [key])] keys
    | Some inner \<Rightarrow> om_modify shard (\<lambda>inner. if map_of inner block = None then om_emplace block [key] inner
        else om_modify block (\<lambda>ks. ks @ [key]) inner) keys)"

fun add_keys :: "nat \<Rightarrow> nat list \<Rightarrow> string list \<Rightarrow> unverified \<Rightarrow> unverified result" where
  "add_keys shard [] ks keys = Inr keys"
| "add_keys shard (block # blocks) [] keys = Inl Out_of_bounds"
| "add_keys shard (block # blocks) (k # ks) keys = add_keys shard blocks ks (add_key shard block k keys)"

fun gather :: "(nat \<times> Promise) list \<Rightarrow> int \<Rightarrow> (string \<times> string) list \<Rightarrow> unverified \<Rightarrow> (int \<times> (string \<times> string) list \<times> unverified) result" where
  "gather [] status values keys = Inr (status, values, keys)"
| "gather ((i, p) # ps) status values keys = rbind (Promise_GetReply p) (\<lambda>r.
     if r = REPLY_OK then rbind (getValues p) (\<lambda>vs. rbind (add_keys i (estimated_blocks p) (unverified_keys p) keys) (\<lambda>keys.
       gather ps status (om_insert vs values) keys))
     else gather ps r values keys)"

fun gather_values :: "(nat \<times> Promise) list \<Rightarrow> int \<Rightarrow> (string \<times> string) list \<Rightarrow> (int \<times> (string \<times> string) list) result" where
  "gather_values [] status values = Inr (status, values)"
| "gather_values ((i, p) # ps) status values = rbind (Promise_GetReply p) (\<lambda>r.
     if r = REPLY_OK then rbind (getValues p) (\<lambda>vs. gather_values ps status (om_insert vs values))
     else gather_values ps r values)"

definition Client_BatchGet_keys :: "Ledger \<Rightarrow> 's ext \<Rightarrow> 'b VersionedKVStore \<Rightarrow> schedule \<Rightarrow> (string \<times> string) list \<Rightarrow> unverified \<Rightarrow> 's Client \<Rightarrow> 'b Net
    \<Rightarrow> ((int \<times> (string \<times> string) list \<times> unverified) \<times> 's Client \<times> 'b Net) result" where
  "Client_BatchGet_keys L E V sched values keys c n =
     rbind (each_shard (BC_BatchGet L E V sched (Promise_timeout 10000)) (participants c) c n) (\<lambda>(ps, c, n).
     rbind (gather ps REPLY_OK values keys) (\<lambda>x. Inr (x, c, n)))"

definition Client_BatchGet :: "Ledger \<Rightarrow> 's ext \<Rightarrow> 'b VersionedKVStore \<Rightarrow> schedule \<Rightarrow> (string \<times> string) list \<Rightarrow> 's Client \<Rightarrow> 'b Net
    \<Rightarrow> ((int \<times> (string \<times> string) list) \<times> 's Client \<times> 'b Net) result" where
  "Client_BatchGet L E V sched values c n =
     rbind (each_shard (BC_BatchGet L E V sched (Promise_timeout 10000)) (participants c) c n) (\<lambda>(ps, c, n).
     rbind (gather_values ps REPLY_OK values) (\<lambda>x. Inr (x, c, n)))"

definition Client_GetRange :: "Ledger \<Rightarrow> 's ext \<Rightarrow> 'b VersionedKVStore \<Rightarrow> schedule \<Rightarrow> string \<Rightarrow> string \<Rightarrow> (string \<times> string) list \<Rightarrow> unverified \<Rightarrow> 's Client \<Rightarrow> 'b Net
    \<Rightarrow> ((int \<times> (string \<times> string) list \<times> unverified) \<times> 's Client \<times> 'b Net) result" where
  "Client_GetRange L E V sched start stop values keys c n =
     rbind (each_shard (BC_GetRange L E V sched start stop (Promise_timeout 10000)) [0..<nshards c] c n) (\<lambda>(ps, c, n).
     rbind (gather ps REPLY_OK values keys) (\<lambda>x. Inr (x, c, n)))"

subsection \<open>Two-phase commit\<close>

fun prepare_replies :: "Promise list \<Rightarrow> int \<Rightarrow> 64 word \<Rightarrow> (int \<times> 64 word) result" where
  "prepare_replies [] status ts = Inr (status, ts)"
| "prepare_replies (p # ps) status ts = rbind (Promise_GetReply p) (\<lambda>r. rbind (Promise_GetTimestamp p) (\<lambda>t.
     prepare_replies ps (if r \<noteq> REPLY_OK \<and> status \<noteq> REPLY_FAIL then r else status)
       (if getTimestamp t > ts then getTimestamp t else ts)))"

text \<open>\<open>tss\<close> is the answer of the timestamp server; \<open>stol\<close> is converted to an unsigned number.\<close>

definition Client_Prepare :: "'b VersionedKVStore \<Rightarrow> schedule \<Rightarrow> string \<Rightarrow> 64 word \<Rightarrow> 's Client \<Rightarrow> 'b Net
    \<Rightarrow> ((int \<times> 64 word) \<times> 's Client \<times> 'b Net) result" where
  "Client_Prepare V sched tss ts c n =
     rbind (if c_mode c = MODE_OCC then rbind (stol tss) (\<lambda>k. Inr (of_int k)) else Inr ts) (\<lambda>ts.
     rbind (each_shard (BC_Prepare V sched (Promise_timeout 10000)) (participants c) c n) (\<lambda>(ps, c, n).
     rbind (prepare_replies (map snd ps) REPLY_OK ts) (\<lambda>x. Inr (x, c, n))))"

definition COMMIT_RETRIES :: nat where "COMMIT_RETRIES = 1"

text \<open>\<open>status\<close> is uninitialised when there is no attempt at all.\<close>

fun try_prepare :: "nat \<Rightarrow> 'b VersionedKVStore \<Rightarrow> schedule \<Rightarrow> (nat \<Rightarrow> string) \<Rightarrow> 64 word \<Rightarrow> 's Client \<Rightarrow> 'b Net
    \<Rightarrow> ((int \<times> 64 word) \<times> 's Client \<times> 'b Net) result" where
  "try_prepare 0 V sched tss ts c n = Inl Out_of_bounds"
| "try_prepare (Suc k) V sched tss ts c n = rbind (Client_Prepare V sched (tss k) ts c n) (\<lambda>((status, ts), c, n).
     if status = REPLY_OK \<or> status = REPLY_FAIL \<or> k = 0 then Inr ((status, ts), c, n) else try_prepare k V sched tss ts c n)"

definition Client_Abort :: "'b VersionedKVStore \<Rightarrow> schedule \<Rightarrow> 's Client \<Rightarrow> 'b Net \<Rightarrow> ('s Client \<times> 'b Net) result" where
  "Client_Abort V sched c n = rbind (each_shard (BC_Abort V sched None) (participants c) c n) (\<lambda>(_, c, n). Inr (c, n))"

text \<open>
  The wait before a commit in the modes after Spanner.  \<open>clk k\<close> is the \<open>k\<close>-th reading of \<open>gettimeofday\<close>; the first is
  \<open>t1\<close>, the second the one of \<open>GetTimeAndError\<close>, and the loop reads the rest.
\<close>

type_synonym clock = "nat \<Rightarrow> 64 word \<times> 64 word"

definition elapsed :: "64 word \<times> 64 word \<Rightarrow> 64 word \<times> 64 word \<Rightarrow> 64 word" where
  "elapsed t1 t2 = (fst t2 - fst t1) * 1000000 + (snd t2 - snd t1)"

partial_function (option) wait_loop :: "clock \<Rightarrow> 64 word \<Rightarrow> nat \<Rightarrow> nat option" where
  "wait_loop clk err k = (if sint (elapsed (clk 0) (clk k)) > sint err then Some k else wait_loop clk err (k + 1))"

definition wait_diff :: "64 word \<Rightarrow> 64 word \<Rightarrow> 64 word" where
  "wait_diff ts now = (drop_bit 32 ts - drop_bit 32 now) * 1000000 + ((ts AND 0xffffffff) - (now AND 0xffffffff))"

definition commit_wait :: "TrueTime \<Rightarrow> clock \<Rightarrow> 64 word \<Rightarrow> (64 word \<times> 64 word \<times> nat) result" where
  "commit_wait T clk ts = (let (now, err) = GetTimeAndError T (clk 1);
       (ts, err) = (if now > ts then (now, err) else (ts, err + wait_diff ts now))
     in case wait_loop clk err 2 of None \<Rightarrow> Inl Blocked | Some k \<Rightarrow> Inr (ts, err, k))"

definition spanner_wait :: "clock \<Rightarrow> 64 word \<Rightarrow> 's Client \<Rightarrow> (64 word \<times> 's Client) result" where
  "spanner_wait clk ts c = (if c_mode c = MODE_SPAN_OCC \<or> c_mode c = MODE_SPAN_LOCK
     then rbind (commit_wait (c_timeServer c) clk ts) (\<lambda>(ts, err, _). Inr (ts, c\<lparr>commit_sleep := sint (ucast err :: 32 word)\<rparr>))
     else Inr (ts, c))"

definition Client_Commit :: "Ledger \<Rightarrow> 's ext \<Rightarrow> 'b VersionedKVStore \<Rightarrow> schedule \<Rightarrow> (nat \<Rightarrow> string) \<Rightarrow> clock \<Rightarrow> 's Client \<Rightarrow> 'b Net
    \<Rightarrow> (bool \<times> 's Client \<times> 'b Net) result" where
  "Client_Commit L E V sched tss clk c n =
     rbind (try_prepare COMMIT_RETRIES V sched tss 0 c n) (\<lambda>((status, ts), c, n).
     if status = REPLY_OK then
       rbind (spanner_wait clk ts c) (\<lambda>(ts, c).
       rbind (each_shard (BC_Commit L E V sched ts None) (participants c) c n) (\<lambda>(_, c, n). Inr (True, c, n)))
     else rbind (Client_Abort V sched c n) (\<lambda>(c, n). Inr (False, c, n)))"

text \<open>The second form waits for the answers and collects the keys to verify, whatever the status.\<close>

fun gather_commits :: "(nat \<times> Promise option) list \<Rightarrow> unverified \<Rightarrow> unverified result" where
  "gather_commits [] keys = Inr keys"
| "gather_commits ((i, None) # ps) keys = Inl Blocked"
| "gather_commits ((i, Some p) # ps) keys = rbind (Promise_GetReply p) (\<lambda>_.
     rbind (add_keys i (estimated_blocks p) (unverified_keys p) keys) (gather_commits ps))"

definition Client_Commit_keys :: "Ledger \<Rightarrow> 's ext \<Rightarrow> 'b VersionedKVStore \<Rightarrow> schedule \<Rightarrow> (nat \<Rightarrow> string) \<Rightarrow> clock \<Rightarrow> unverified \<Rightarrow> 's Client \<Rightarrow> 'b Net
    \<Rightarrow> ((bool \<times> unverified) \<times> 's Client \<times> 'b Net) result" where
  "Client_Commit_keys L E V sched tss clk keys c n =
     rbind (try_prepare COMMIT_RETRIES V sched tss 0 c n) (\<lambda>((status, ts), c, n).
     if status = REPLY_OK then
       rbind (spanner_wait clk ts c) (\<lambda>(ts, c).
       rbind (each_shard (BC_Commit L E V sched ts (Some (Promise_timeout 10000))) (participants c) c n) (\<lambda>(ps, c, n).
       rbind (gather_commits ps keys) (\<lambda>keys. Inr ((True, keys), c, n))))
     else rbind (Client_Abort V sched c n) (\<lambda>(c, n). Inr ((False, keys), c, n)))"

subsection \<open>Verification and audit\<close>

text \<open>
  The keys of a block are asked in chunks of 10000.  The result: whether all chunks so far could be asked, the
  keys that are left, the promises.
\<close>

function verify_chunks :: "Ledger \<Rightarrow> 's ext \<Rightarrow> 'b VersionedKVStore \<Rightarrow> schedule \<Rightarrow> nat \<Rightarrow> string list \<Rightarrow> Promise list \<Rightarrow> 's BufferClient \<Rightarrow> 'b Net
    \<Rightarrow> ((bool \<times> string list \<times> Promise list) \<times> 's BufferClient \<times> 'b Net) result" where
  "verify_chunks L E V sched block keys ps b n = (if length keys > 10000 then
       rbind (BC_Verify L E V sched block (take 10000 keys) Promise_new b n) (\<lambda>(ok, p, b, n).
         if ok then verify_chunks L E V sched block (drop 10000 keys) (ps @ [p]) b n else Inr ((False, keys, ps), b, n))
     else Inr ((True, keys, ps), b, n))"
  by pat_completeness auto
termination by (relation "measure (\<lambda>(_, _, _, _, _, keys, _). length keys)") auto

declare verify_chunks.simps [simp del]

text \<open>Once a block is beyond the tip, it and the blocks after it are dropped from the keys.\<close>

fun verify_blocks :: "Ledger \<Rightarrow> 's ext \<Rightarrow> 'b VersionedKVStore \<Rightarrow> schedule \<Rightarrow> (nat \<times> string list) list \<Rightarrow> Promise list \<Rightarrow> 's BufferClient \<Rightarrow> 'b Net
    \<Rightarrow> (((nat \<times> string list) list \<times> Promise list) \<times> 's BufferClient \<times> 'b Net) result" where
  "verify_blocks L E V sched [] ps b n = Inr (([], ps), b, n)"
| "verify_blocks L E V sched ((block, keys) # rest) ps b n =
     rbind (verify_chunks L E V sched block keys ps b n) (\<lambda>((verifiable, keys, ps), b, n).
     if \<not> verifiable then Inr (([], ps), b, n)
     else rbind (BC_Verify L E V sched block keys Promise_new b n) (\<lambda>(ok, p, b, n).
       if \<not> ok then Inr (([], ps), b, n)
       else rbind (verify_blocks L E V sched rest (ps @ [p]) b n) (\<lambda>((rest, ps), b, n). Inr (((block, keys) # rest, ps), b, n))))"

fun verify_shards :: "Ledger \<Rightarrow> 's ext \<Rightarrow> 'b VersionedKVStore \<Rightarrow> schedule \<Rightarrow> unverified \<Rightarrow> Promise list \<Rightarrow> 's Client \<Rightarrow> 'b Net
    \<Rightarrow> ((unverified \<times> Promise list) \<times> 's Client \<times> 'b Net) result" where
  "verify_shards L E V sched [] ps c n = Inr (([], ps), c, n)"
| "verify_shards L E V sched ((i, blocks) # rest) ps c n =
     rbind (at_shard i (\<lambda>b. rbind (verify_blocks L E V sched blocks ps b n) (\<lambda>((blocks, ps), b, n). Inr ((blocks, ps, n), b))) c) (\<lambda>((blocks, ps, n), c).
     rbind (verify_shards L E V sched rest ps c n) (\<lambda>((rest, ps), c, n).
       Inr ((if blocks = [] then rest else (i, blocks) # rest, ps), c, n)))"

fun all_pass :: "Promise list \<Rightarrow> bool result" where
  "all_pass [] = Inr True"
| "all_pass (p # ps) = rbind (Promise_GetReply p) (\<lambda>r.
     rbind (if r \<noteq> REPLY_OK then Inr False else rbind (GetVerifyStatus p) (\<lambda>vs. Inr (vs = PASS))) (\<lambda>ok.
     rbind (all_pass ps) (\<lambda>rest. Inr (ok \<and> rest))))"

definition Client_Verify :: "Ledger \<Rightarrow> 's ext \<Rightarrow> 'b VersionedKVStore \<Rightarrow> schedule \<Rightarrow> unverified \<Rightarrow> 's Client \<Rightarrow> 'b Net
    \<Rightarrow> ((bool \<times> unverified) \<times> 's Client \<times> 'b Net) result" where
  "Client_Verify L E V sched keys c n = (case L of
      AMZQLDB \<Rightarrow> Inr ((True, keys), c, n)
    | _ \<Rightarrow> rbind (verify_shards L E V sched keys [] c n) (\<lambda>((keys, ps), c, n).
        rbind (all_pass ps) (\<lambda>ok. Inr ((ok, keys), c, n))))"

text \<open>
  The audit of each shard in \<open>seqs\<close>.  The answers are numbered from 0 and that number, not the shard, indexes
  \<open>seqs\<close>; an entry that is missing starts at 0.
\<close>

fun audit_all :: "Ledger \<Rightarrow> 's ext \<Rightarrow> 'b VersionedKVStore \<Rightarrow> schedule \<Rightarrow> (nat \<times> nat) list \<Rightarrow> 's Client \<Rightarrow> 'b Net
    \<Rightarrow> (Promise list \<times> 's Client \<times> 'b Net) result" where
  "audit_all L E V sched [] c n = Inr ([], c, n)"
| "audit_all L E V sched ((i, seq) # rest) c n =
     rbind (at_shard i (\<lambda>b. rbind (BC_Audit L E V sched seq Promise_new b n) (\<lambda>(p, b, n). Inr ((p, n), b))) c) (\<lambda>((p, n), c).
     rbind (audit_all L E V sched rest c n) (\<lambda>(ps, c, n). Inr (p # ps, c, n)))"

definition bump :: "nat \<Rightarrow> (nat \<times> nat) list \<Rightarrow> (nat \<times> nat) list" where
  "bump i seqs = om_modify i (\<lambda>k. (k + 1) mod 2 ^ 64) (om_emplace i 0 seqs)"

fun audit_replies :: "nat \<Rightarrow> Promise list \<Rightarrow> bool \<Rightarrow> (nat \<times> nat) list \<Rightarrow> (bool \<times> (nat \<times> nat) list) result" where
  "audit_replies i [] status seqs = Inr (status, seqs)"
| "audit_replies i (p # ps) status seqs = rbind (Promise_GetReply p) (\<lambda>r.
     if r \<noteq> REPLY_OK then audit_replies (i + 1) ps False seqs
     else rbind (GetVerifyStatus p) (\<lambda>vs. audit_replies (i + 1) ps status (if vs \<noteq> UNVERIFIED then bump i seqs else seqs)))"

definition Client_Audit :: "Ledger \<Rightarrow> 's ext \<Rightarrow> 'b VersionedKVStore \<Rightarrow> schedule \<Rightarrow> (nat \<times> nat) list \<Rightarrow> 's Client \<Rightarrow> 'b Net
    \<Rightarrow> ((bool \<times> (nat \<times> nat) list) \<times> 's Client \<times> 'b Net) result" where
  "Client_Audit L E V sched seqs c n =
     (let seqs = (if seqs = [] then map (\<lambda>i. (i, 0)) [0..<nshards c] else seqs) in
      rbind (audit_all L E V sched seqs c n) (\<lambda>(ps, c, n).
      rbind (audit_replies 0 ps True seqs) (\<lambda>x. Inr (x, c, n))))"

section \<open>Servers under calls of others\<close>

fun foreign :: "nat \<Rightarrow> call \<Rightarrow> bool" where
  "foreign t (Leader now req) = (req_txnid req \<noteq> t)"
| "foreign t _ = True"

fun commits :: "nat \<Rightarrow> call \<Rightarrow> bool" where
  "commits t (Leader now req) = (req_op req = OP_COMMIT \<and> req_txnid req = t)"
| "commits t _ = False"

text \<open>The write sets that the commits of transaction \<open>t\<close> hand to the ledger in a run.\<close>

definition written_by :: "nat \<Rightarrow> 'b Server \<Rightarrow> (string \<times> string) list" where
  "written_by t s = (case txns s t of None \<Rightarrow> [] | Some txn \<Rightarrow> writeSet txn)"

fun commits_of :: "'b VersionedKVStore \<Rightarrow> nat \<Rightarrow> call list \<Rightarrow> 'b Server \<Rightarrow> (string \<times> string) list list" where
  "commits_of V t [] s = []"
| "commits_of V t (c # cs) s = (if commits t c then [written_by t s] else []) @
     (case srv_call V c s of Inl _ \<Rightarrow> [] | Inr s' \<Rightarrow> commits_of V t cs s')"

lemma commits_of_append:
  "srv_run V cs s = Inr s' \<Longrightarrow> commits_of V t (cs @ ds) s = commits_of V t cs s @ commits_of V t ds s'"
  by (induction cs arbitrary: s) (auto simp: rbind_Inr_iff)

lemma foreign_commits: "foreign t c \<Longrightarrow> \<not> commits t c"
  by (cases c) auto

lemma commits_of_foreign: "(\<And>c. c \<in> set cs \<Longrightarrow> foreign t c) \<Longrightarrow> commits_of V t cs s = []"
  by (induction cs arbitrary: s) (auto simp: foreign_commits split: sum.splits)

lemma txns_after_foreign:
  assumes "req_txnid req \<noteq> t"
  shows "map_of (txns_after req st) t = map_of (prepared st) t"
proof (cases "req_op req = OP_PREPARE")
  case True
  then show ?thesis using assms by (auto simp: txns_after_def OCC_Prepare_cases map_add_def split: option.splits)
next
  case False
  then have "txns_after req st = AList.delete (req_txnid req) (prepared st)"
    by (cases "req_op req") (simp_all add: txns_after_def)
  then show ?thesis using assms by (simp add: delete_conv')
qed

lemma srv_call_foreign:
  assumes "srv_call V c s = Inr s'" "foreign t c"
  shows "txns s' t = txns s t"
proof (cases c)
  case (Leader now req)
  then obtain rep r where "LeaderUpcall V now req s = Inr (rep, r, s')" using assms(1) by (auto simp: rbind_Inr_iff)
  then obtain st st' where "srv_store s = Some st" "s' = s\<lparr>srv_store := Some st'\<rparr>" "prepared st' = txns_after req st"
    by (rule LeaderUpcall_prepared)
  then show ?thesis using assms(2) Leader by (simp add: srv_inv_store txns_after_foreign)
next
  case (Unlogged req)
  then obtain r where "UnloggedUpcall V req s = Inr (r, s')" using assms(1) by (auto simp: rbind_Inr_iff)
  from UnloggedUpcall_prepared [OF this] show ?thesis by (auto simp: srv_inv_store)
next
  case (Loading keys vals ts)
  then obtain st st' where "srv_store s = Some st" "s' = s\<lparr>srv_store := Some st'\<rparr>" "prepared st' = prepared st"
    using assms(1) Server_Load_prepared by (metis srv_call.simps(3))
  then show ?thesis by (simp add: srv_inv_store)
qed

lemma srv_run_foreign: "srv_run V cs s = Inr s' \<Longrightarrow> (\<And>c. c \<in> set cs \<Longrightarrow> foreign t c) \<Longrightarrow> txns s' t = txns s t"
proof (induction cs arbitrary: s)
  case (Cons c cs)
  then obtain s1 where "srv_call V c s = Inr s1" "srv_run V cs s1 = Inr s'" by (auto simp: rbind_Inr_iff)
  then show ?case using Cons.IH [of s1] Cons.prems(2) srv_call_foreign [of V c s s1 t] by simp
qed simp

text \<open>What the three requests of a transaction do to it at its server.\<close>

lemma LeaderUpcall_txn:
  assumes "LeaderUpcall V now req s = Inr (rep, r, s')" "req_txnid req = t"
  shows "req_op req = OP_PREPARE \<Longrightarrow> txns s t = None \<Longrightarrow>
      txns s' t = (if rep_status r = REPLY_OK then Some (Transaction_of_message (req_prepare req)) else None)"
    and "req_op req = OP_COMMIT \<or> req_op req = OP_ABORT \<Longrightarrow> txns s' t = None"
proof -
  obtain st st' where st: "srv_store s = Some st" "s' = s\<lparr>srv_store := Some st'\<rparr>" "prepared st' = txns_after req st"
    using assms(1) by (rule LeaderUpcall_prepared)
  show "req_op req = OP_COMMIT \<or> req_op req = OP_ABORT \<Longrightarrow> txns s' t = None"
    using assms(2) st by (auto simp: txns_after_def srv_inv_store delete_conv')
  assume p: "req_op req = OP_PREPARE" "txns s t = None"
  then have n: "t \<notin> fst ` set (prepared st)" using st(1) by (simp add: srv_inv_store map_of_eq_None_iff)
  then have "rep_status r = fst (OCC_Prepare t (Transaction_of_message (req_prepare req)) st)"
    using assms p(1) st(1) by (auto simp: LeaderUpcall_def with_store_def Let_def case_prod_unfold)
  then show "txns s' t = (if rep_status r = REPLY_OK then Some (Transaction_of_message (req_prepare req)) else None)"
    using n st p assms(2) by (auto simp: txns_after_def OCC_Prepare_cases map_add_def srv_inv_store reply_codes)
qed

section \<open>One shard\<close>

text \<open>\<open>net_at\<close> is the part of the network at one shard; \<open>executes\<close>: the calls executed there in between.\<close>

definition net_at :: "'b Net \<Rightarrow> nat \<Rightarrow> 'b Server \<times> call list" where
  "net_at n i = (net_server n i, net_calls n i)"

definition executes :: "'b VersionedKVStore \<Rightarrow> 'b Server \<times> call list \<Rightarrow> call list \<Rightarrow> 'b Server \<times> call list \<Rightarrow> bool" where
  "executes V x ds y \<longleftrightarrow> srv_run V ds (fst x) = Inr (fst y) \<and> snd y = snd x @ ds"

lemma executes_trans: "executes V x ds y \<Longrightarrow> executes V y es z \<Longrightarrow> executes V x (ds @ es) z"
  by (simp add: executes_def srv_run_append)

lemma net_run_executes:
  "net_run V i cs n = Inr n' \<Longrightarrow> executes V (net_at n i) cs (net_at n' i) \<and> (\<forall>j. j \<noteq> i \<longrightarrow> net_at n' j = net_at n j)"
  by (auto simp: net_run_def executes_def net_at_def rbind_Inr_iff)

lemma net_take_simps [simp]: "net_at (snd (net_take sched i n)) j = net_at n j" "fst (net_take sched i n) = sched i (net_turn n i)"
  "net_server (snd (net_take sched i n)) = net_server n"
  by (simp_all add: net_take_def net_at_def)

definition quiet :: "nat \<Rightarrow> schedule \<Rightarrow> bool" where
  "quiet t sched \<longleftrightarrow> (\<forall>i k. \<forall>c\<in>set (others (sched i k)). foreign t c)"

lemma net_invoke_executes:
  assumes "net_invoke V sched i req n = Inr (r, n')"
  obtains os now s rep s' where "srv_run V os (net_server n i) = Inr s" "LeaderUpcall V now req s = Inr (rep, r, s')"
    "net_server n' i = s'" "executes V (net_at n i) (os @ [Leader now req]) (net_at n' i)" "\<forall>j. j \<noteq> i \<longrightarrow> net_at n' j = net_at n j"
    "quiet t sched \<Longrightarrow> \<forall>c\<in>set os. foreign t c"
proof -
  define tn n0 where "tn = fst (net_take sched i n)" "n0 = snd (net_take sched i n)"
  obtain n1 rep s' where n1: "net_run V i (others tn) n0 = Inr n1" "LeaderUpcall V (tn_clock tn) req (net_server n1 i) = Inr (rep, r, s')"
      "net_run V i [Leader (tn_clock tn) req] n1 = Inr n'"
    using assms by (auto simp: net_invoke_def Let_def case_prod_unfold rbind_Inr_iff tn_n0_def split: if_splits)
  have r1: "executes V (net_at n i) (others tn) (net_at n1 i)" "\<forall>j. j \<noteq> i \<longrightarrow> net_at n1 j = net_at n j"
    using net_run_executes [OF n1(1)] by (simp_all add: tn_n0_def)
  note r2 = net_run_executes [OF n1(3)]
  show ?thesis
  proof (rule that)
    show "srv_run V (others tn) (net_server n i) = Inr (net_server n1 i)" using r1(1) by (simp add: executes_def net_at_def)
    show "LeaderUpcall V (tn_clock tn) req (net_server n1 i) = Inr (rep, r, s')" by (rule n1(2))
    show "net_server n' i = s'" using r2 n1(2) by (simp add: executes_def net_at_def)
    show "executes V (net_at n i) (others tn @ [Leader (tn_clock tn) req]) (net_at n' i)" using r1 r2 by (blast intro: executes_trans)
    show "\<forall>j. j \<noteq> i \<longrightarrow> net_at n' j = net_at n j" using r1 r2 by simp
    show "quiet t sched \<Longrightarrow> \<forall>c\<in>set (others tn). foreign t c" by (simp add: quiet_def tn_n0_def)
  qed
qed

text \<open>The transaction \<open>t\<close> at a shard: its number, the shard, and read and write sets without double keys.\<close>

definition b_ok :: "nat \<Rightarrow> nat \<Rightarrow> 's BufferClient \<Rightarrow> bool" where
  "b_ok t i b \<longleftrightarrow> bc_tid b = t \<and> sc_shard (bc_client b) = i \<and> txn_ok (bc_txn b)"

definition same_txn :: "'s BufferClient \<Rightarrow> 's BufferClient \<Rightarrow> bool" where
  "same_txn b b' \<longleftrightarrow> bc_tid b' = bc_tid b \<and> bc_txn b' = bc_txn b \<and> sc_shard (bc_client b') = sc_shard (bc_client b)"

lemma same_txn_ok: "same_txn b b' \<Longrightarrow> b_ok t i b' = b_ok t i b"
  by (simp add: same_txn_def b_ok_def)

lemma answered_Inr: "answered m = Inr (p, x) \<longleftrightarrow> m = Inr (Some p, x)"
  by (auto simp: answered_def rbind_def split: sum.splits option.splits)

lemma unblock_shard: "unblock r sc = Inr sc' \<Longrightarrow> sc_shard sc' = sc_shard sc"
  by (auto simp: unblock_def split: if_splits option.splits)

lemma CommitCallback_shard:
  assumes "CommitCallback L E r sc = Inr (p, sc')"
  shows "sc_shard sc' = sc_shard sc"
proof -
  obtain sc1 where sc1: "unblock r sc = Inr sc1" using assms by (auto simp: CommitCallback_def rbind_Inr_iff)
  have "sc_shard sc' = sc_shard sc1"
    using assms by (cases "waiting sc1"; cases L) (auto simp: CommitCallback_def sc1 rbind_Inr_iff)
  then show ?thesis by (simp add: unblock_shard [OF sc1])
qed

lemma AbortCallback_shard: "AbortCallback r sc = Inr (p, sc') \<Longrightarrow> sc_shard sc' = sc_shard sc"
  using unblock_shard [of r sc] by (force simp: AbortCallback_def rbind_Inr_iff split: option.splits)

lemma commits_of_last:
  assumes "srv_run V os s = Inr s1" "\<forall>c\<in>set os. foreign t c"
  shows "commits_of V t (os @ [c]) s = (if commits t c then [written_by t s] else [])"
  using assms srv_run_foreign [OF assms(1), of t] commits_of_foreign [of os t V s]
  by (auto simp: commits_of_append written_by_def split: sum.splits)

text \<open>What each of the three requests of the protocol does at its shard.\<close>

lemma BC_Prepare_at:
  assumes "BC_Prepare V sched promise b n = Inr (p, b', n')" "b_ok t i b"
  shows "same_txn b b' \<and> (\<forall>j. j \<noteq> i \<longrightarrow> net_at n' j = net_at n j) \<and> pm_done p \<and>
    (quiet t sched \<longrightarrow> txns (net_server n i) t = None \<longrightarrow>
      (\<exists>ds. executes V (net_at n i) ds (net_at n' i) \<and> commits_of V t ds (net_server n i) = [] \<and>
         txns (net_server n' i) t = (if pm_reply p = REPLY_OK then Some (bc_txn b) else None)))"
proof -
  let ?req = "(Request_default OP_PREPARE t)\<lparr>req_prepare := Transaction_serialize (bc_txn b)\<rparr>"
  have b: "bc_tid b = t" "sc_shard (bc_client b) = i" "txn_ok (bc_txn b)" using assms(2) by (simp_all add: b_ok_def)
  obtain r where r: "net_invoke V sched i ?req n = Inr (r, n')" "same_txn b b'" "pm_done p" "pm_reply p = rep_status r"
    using assms(1) b
    by (auto simp: BC_Prepare_def SC_Prepare_def rbind_Inr_iff answered_Inr PrepareCallback_def Promise_replies same_txn_def)
  obtain os now s rep where os: "srv_run V os (net_server n i) = Inr s" "LeaderUpcall V now ?req s = Inr (rep, r, net_server n' i)"
      "executes V (net_at n i) (os @ [Leader now ?req]) (net_at n' i)" "\<forall>j. j \<noteq> i \<longrightarrow> net_at n' j = net_at n j"
      "quiet t sched \<Longrightarrow> \<forall>c\<in>set os. foreign t c"
    by (rule net_invoke_executes [OF r(1), of t]) blast
  have q: "req_op ?req = OP_PREPARE" "req_txnid ?req = t" "Transaction_of_message (req_prepare ?req) = bc_txn b"
    using b(3) by (simp_all add: Request_default_def Transaction_message)
  have "txns (net_server n' i) t = (if pm_reply p = REPLY_OK then Some (bc_txn b) else None) \<and>
      commits_of V t (os @ [Leader now ?req]) (net_server n i) = []"
    if "quiet t sched" "txns (net_server n i) t = None"
  proof -
    have f: "\<forall>c\<in>set os. foreign t c" using os(5) that(1) .
    then have "txns s t = None" using srv_run_foreign [OF os(1), of t] that(2) by simp
    then show ?thesis using LeaderUpcall_txn(1) [OF os(2) q(2,1)] r(4) q(3) commits_of_last [OF os(1) f, of "Leader now ?req"] by (simp add: q(1))
  qed
  then show ?thesis using r os(3,4) by blast
qed

lemma decide_at:
  assumes "net_invoke V sched i req n = Inr (r, n')" "req_op req = OP_COMMIT \<or> req_op req = OP_ABORT" "req_txnid req = t"
  shows "(\<forall>j. j \<noteq> i \<longrightarrow> net_at n' j = net_at n j) \<and> (quiet t sched \<longrightarrow>
    (\<exists>ds. executes V (net_at n i) ds (net_at n' i) \<and> txns (net_server n' i) t = None \<and>
      commits_of V t ds (net_server n i) = (if req_op req = OP_COMMIT then [written_by t (net_server n i)] else [])))"
proof -
  obtain os now s rep where os: "srv_run V os (net_server n i) = Inr s" "LeaderUpcall V now req s = Inr (rep, r, net_server n' i)"
      "executes V (net_at n i) (os @ [Leader now req]) (net_at n' i)" "\<forall>j. j \<noteq> i \<longrightarrow> net_at n' j = net_at n j"
      "quiet t sched \<Longrightarrow> \<forall>c\<in>set os. foreign t c"
    by (rule net_invoke_executes [OF assms(1), of t]) blast
  have "txns (net_server n' i) t = None" using LeaderUpcall_txn(2) [OF os(2) assms(3,2)] .
  moreover have "commits_of V t (os @ [Leader now req]) (net_server n i) = (if req_op req = OP_COMMIT then [written_by t (net_server n i)] else [])"
    if "quiet t sched" using commits_of_last [OF os(1) os(5) [OF that], of "Leader now req"] assms(3) by simp
  ultimately show ?thesis using os(3,4) by blast
qed

lemma BC_Commit_at:
  assumes "BC_Commit L E V sched ts promise b n = Inr (p, b', n')" "b_ok t i b"
  shows "same_txn b b' \<and> (\<forall>j. j \<noteq> i \<longrightarrow> net_at n' j = net_at n j) \<and> (quiet t sched \<longrightarrow>
    (\<exists>ds. executes V (net_at n i) ds (net_at n' i) \<and> txns (net_server n' i) t = None \<and>
      commits_of V t ds (net_server n i) = [written_by t (net_server n i)]))"
proof -
  let ?req = "(Request_default OP_COMMIT t)\<lparr>req_commit := ts, req_version := map (\<lambda>(k, n). (k, of_nat n)) (history b)\<rparr>"
  have b: "bc_tid b = t" "sc_shard (bc_client b) = i" using assms(2) by (simp_all add: b_ok_def)
  obtain r where r: "net_invoke V sched i ?req n = Inr (r, n')" "same_txn b b'"
    using assms(1) b by (auto simp: BC_Commit_def SC_Commit_def rbind_Inr_iff same_txn_def dest: CommitCallback_shard)
  have "req_op ?req = OP_COMMIT" "req_txnid ?req = t" by (simp_all add: Request_default_def)
  then show ?thesis using decide_at [OF r(1)] r(2) by simp
qed

lemma BC_Abort_at:
  assumes "BC_Abort V sched promise b n = Inr (p, b', n')" "b_ok t i b"
  shows "same_txn b b' \<and> (\<forall>j. j \<noteq> i \<longrightarrow> net_at n' j = net_at n j) \<and> (quiet t sched \<longrightarrow>
    (\<exists>ds. executes V (net_at n i) ds (net_at n' i) \<and> txns (net_server n' i) t = None \<and> commits_of V t ds (net_server n i) = []))"
proof -
  let ?req = "(Request_default OP_ABORT t)\<lparr>req_abort := Transaction_serialize Transaction_new\<rparr>"
  have b: "bc_tid b = t" "sc_shard (bc_client b) = i" using assms(2) by (simp_all add: b_ok_def)
  obtain r where r: "net_invoke V sched i ?req n = Inr (r, n')" "same_txn b b'"
    using assms(1) b by (auto simp: BC_Abort_def SC_Abort_def rbind_Inr_iff same_txn_def dest: AbortCallback_shard)
  have "req_op ?req = OP_ABORT" "req_txnid ?req = t" by (simp_all add: Request_default_def)
  then show ?thesis using decide_at [OF r(1)] r(2) by simp
qed

section \<open>All shards\<close>

lemma at_shard_Inr:
  "at_shard i f c = Inr (x, c') \<longleftrightarrow> i < length (bclient c) \<and> (\<exists>b'. f (bclient c ! i) = Inr (x, b') \<and> c' = c\<lparr>bclient := (bclient c)[i := b']\<rparr>)"
  by (auto simp: at_shard_def rbind_Inr_iff vec_at_def split: if_splits)

text \<open>
  A call on several shards is a call on each of them, if the call at shard \<open>i\<close> only touches the network at \<open>i\<close>
  and there relates the states before and after by \<open>R i\<close>.
\<close>

lemma each_shard_local:
  assumes "each_shard f is c n = Inr (xs, c', n')" "distinct is"
    and f: "\<And>i b n x b' n'. i \<in> set is \<Longrightarrow> b_ok t i b \<Longrightarrow> f b n = Inr (x, b', n') \<Longrightarrow>
       (\<forall>j. j \<noteq> i \<longrightarrow> net_at n' j = net_at n j) \<and> R i b (net_at n i) x b' (net_at n' i)"
    and ok: "\<And>i. i \<in> set is \<Longrightarrow> i < length (bclient c) \<Longrightarrow> b_ok t i (bclient c ! i)"
  shows "map fst xs = is \<and> c' = c\<lparr>bclient := bclient c'\<rparr> \<and> length (bclient c') = length (bclient c) \<and> (\<forall>i\<in>set is. i < length (bclient c)) \<and>
    (\<forall>i. i \<notin> set is \<longrightarrow> net_at n' i = net_at n i \<and> bclient c' ! i = bclient c ! i) \<and>
    (\<forall>(i, x)\<in>set xs. R i (bclient c ! i) (net_at n i) x (bclient c' ! i) (net_at n' i))"
  using assms(1,2) f ok
proof (induction "is" arbitrary: c n xs)
  case (Cons i "is")
  obtain x b1 n1 ys where s: "i < length (bclient c)" "f (bclient c ! i) n = Inr (x, b1, n1)"
      "each_shard f is (c\<lparr>bclient := (bclient c)[i := b1]\<rparr>) n1 = Inr (ys, c', n')" "xs = (i, x) # ys"
    using Cons.prems(1) by (auto simp: rbind_Inr_iff at_shard_Inr)
  have r: "(\<forall>j. j \<noteq> i \<longrightarrow> net_at n1 j = net_at n j) \<and> R i (bclient c ! i) (net_at n i) x b1 (net_at n1 i)"
    using Cons.prems(3) [OF _ _ s(2), of i] Cons.prems(4) [of i] s(1) by simp
  have i: "i \<notin> set is" "distinct is" using Cons.prems(2) by simp_all
  define c1 where "c1 = c\<lparr>bclient := (bclient c)[i := b1]\<rparr>"
  have c1: "length (bclient c1) = length (bclient c)" "bclient c1 ! i = b1" "\<And>j. j \<noteq> i \<Longrightarrow> bclient c1 ! j = bclient c ! j" "c1\<lparr>bclient := bs\<rparr> = c\<lparr>bclient := bs\<rparr>" for bs
    using s(1) by (simp_all add: c1_def)
  have "map fst ys = is \<and> c' = c1\<lparr>bclient := bclient c'\<rparr> \<and> length (bclient c') = length (bclient c1) \<and> (\<forall>i\<in>set is. i < length (bclient c1)) \<and>
      (\<forall>i. i \<notin> set is \<longrightarrow> net_at n' i = net_at n1 i \<and> bclient c' ! i = bclient c1 ! i) \<and>
      (\<forall>(i, x)\<in>set ys. R i (bclient c1 ! i) (net_at n1 i) x (bclient c' ! i) (net_at n' i))"
  proof (rule Cons.IH [OF s(3) [folded c1_def] i(2)])
    show "b_ok t j (bclient c1 ! j)" if "j \<in> set is" "j < length (bclient c1)" for j
      using that i(1) c1 Cons.prems(4) [of j] by (metis list.set_intros(2))
  qed (rule Cons.prems(3); simp)
  note IH = this
  have R: "R j (bclient c ! j) (net_at n j) y (bclient c' ! j) (net_at n' j)" if "(j, y) \<in> set ys" for j y
  proof -
    have "j \<noteq> i" using that i(1) IH by force
    moreover have "R j (bclient c1 ! j) (net_at n1 j) y (bclient c' ! j) (net_at n' j)" using that IH by auto
    ultimately show ?thesis using r c1(3) by simp
  qed
  have i': "net_at n' i = net_at n1 i" "bclient c' ! i = b1" using IH i(1) c1(2) by auto
  have "net_at n' j = net_at n j \<and> bclient c' ! j = bclient c ! j" if "j \<notin> set (i # is)" for j
    using that IH r c1(3) by auto
  then show ?case using IH R r i' s(1,4) c1(1) by (auto simp: c1(4))
qed simp

lemma key_present: "map fst xs = is \<Longrightarrow> i \<in> set is \<Longrightarrow> \<exists>x. (i, x) \<in> set xs"
  by (metis (no_types, lifting) imageE list.set_map prod.collapse)

text \<open>Every buffer client belongs to its shard and runs the transaction of the client.\<close>

definition txn_client_ok :: "'s Client \<Rightarrow> bool" where
  "txn_client_ok c \<longleftrightarrow> distinct (participants c) \<and> (\<forall>i<length (bclient c). b_ok (t_id c) i (bclient c ! i))"

lemma each_shard_client:
  assumes "each_shard f (participants c) c n = Inr (xs, c', n')" "txn_client_ok c"
    and "\<And>i b n x b' n'. b_ok (t_id c) i b \<Longrightarrow> f b n = Inr (x, b', n') \<Longrightarrow>
       same_txn b b' \<and> (\<forall>j. j \<noteq> i \<longrightarrow> net_at n' j = net_at n j) \<and> R i b (net_at n i) x b' (net_at n' i)"
  shows "map fst xs = participants c \<and> txn_client_ok c' \<and> participants c' = participants c \<and> t_id c' = t_id c \<and> c_mode c' = c_mode c \<and> c_timeServer c' = c_timeServer c \<and>
    (\<forall>i. i \<notin> set (participants c) \<longrightarrow> net_at n' i = net_at n i) \<and>
    (\<forall>(i, x)\<in>set xs. i < length (bclient c) \<and> same_txn (bclient c ! i) (bclient c' ! i) \<and> R i (bclient c ! i) (net_at n i) x (bclient c' ! i) (net_at n' i))"
proof -
  have f: "b_ok (t_id c) i b \<Longrightarrow> f b n = Inr (x, b', n') \<Longrightarrow>
      (\<forall>j. j \<noteq> i \<longrightarrow> net_at n' j = net_at n j) \<and> (same_txn b b' \<and> R i b (net_at n i) x b' (net_at n' i))" for i b n x b' n'
    using assms(3) by blast
  have d: "distinct (participants c)" "\<And>i. i < length (bclient c) \<Longrightarrow> b_ok (t_id c) i (bclient c ! i)" using assms(2) by (simp_all add: txn_client_ok_def)
  note L = each_shard_local [where R = "\<lambda>i b x y b' z. same_txn b b' \<and> R i b x y b' z", OF assms(1) d(1) f d(2)]
  note m = L [THEN conjunct1] and u = L [THEN conjunct2, THEN conjunct1] and L = L [THEN conjunct2, THEN conjunct2]
  have lt: "i < length (bclient c)" if "(i, x) \<in> set xs" for i x
    using that m L by (metis (no_types, lifting) fst_conv image_eqI list.set_map)
  have "b_ok (t_id c) i (bclient c' ! i)" if "i < length (bclient c)" for i
  proof (cases "i \<in> set (participants c)")
    case True
    then have "i \<in> fst ` set xs" by (simp add: m flip: list.set_map)
    then have "same_txn (bclient c ! i) (bclient c' ! i)" using L by auto
    then show ?thesis using d(2) [OF that] by (simp add: same_txn_ok)
  qed (use L d(2) [OF that] in auto)
  moreover obtain bs where "c' = c\<lparr>bclient := bs\<rparr>" using u by blast
  then have c': "t_id c' = t_id c" "participants c' = participants c" "c_mode c' = c_mode c" "c_timeServer c' = c_timeServer c" by simp_all
  ultimately have "txn_client_ok c'" using L d(1) by (simp add: txn_client_ok_def)
  then show ?thesis using L m lt c' by auto
qed

lemma prepare_replies_status:
  "prepare_replies ps status ts = Inr (status', ts') \<Longrightarrow>
    (status' = REPLY_OK \<longleftrightarrow> status = REPLY_OK \<and> (\<forall>p\<in>set ps. pm_reply p = REPLY_OK)) \<and> ts \<le> ts' \<and>
    (\<forall>p\<in>set ps. getTimestamp (pm_timestamp p) \<le> ts')"
proof (induction ps arbitrary: status ts)
  case (Cons p ps)
  let ?st = "if pm_reply p \<noteq> REPLY_OK \<and> status \<noteq> REPLY_FAIL then pm_reply p else status"
  let ?ts = "if getTimestamp (pm_timestamp p) > ts then getTimestamp (pm_timestamp p) else ts"
  have "prepare_replies ps ?st ?ts = Inr (status', ts')"
    using Cons.prems by (auto simp: rbind_Inr_iff Promise_GetReply_def Promise_GetTimestamp_def await_def split: if_splits)
  from Cons.IH [OF this] show ?case by (auto simp: reply_codes split: if_splits)
qed simp

text \<open>Between two states of the network the commits of \<open>t\<close> at shard \<open>i\<close> wrote \<open>W\<close>.\<close>

definition wrote :: "'b VersionedKVStore \<Rightarrow> nat \<Rightarrow> 'b Net \<Rightarrow> 'b Net \<Rightarrow> nat \<Rightarrow> (string \<times> string) list list \<Rightarrow> bool" where
  "wrote V t n n' i W \<longleftrightarrow> (\<exists>ds. executes V (net_at n i) ds (net_at n' i) \<and> commits_of V t ds (net_server n i) = W)"

lemma wrote_none: "net_at n' i = net_at n i \<Longrightarrow> wrote V t n n' i []"
  unfolding wrote_def by (rule exI [of _ "[]"]) (simp add: executes_def)

lemma wrote_trans: "wrote V t n n1 i W \<Longrightarrow> wrote V t n1 n' i W' \<Longrightarrow> wrote V t n n' i (W @ W')"
  unfolding wrote_def by (metis commits_of_append fst_conv net_at_def executes_def executes_trans)

lemma net_at_server: "net_at n' i = net_at n i \<Longrightarrow> net_server n' i = net_server n i"
  by (simp add: net_at_def)

lemma prepare_phase:
  assumes "Client_Prepare V sched tss ts c n = Inr ((status, ts'), c', n')" "txn_client_ok c" "quiet (t_id c) sched"
    and "\<And>i. txns (net_server n i) (t_id c) = None"
  shows "txn_client_ok c' \<and> participants c' = participants c \<and> t_id c' = t_id c \<and> c_mode c' = c_mode c \<and> c_timeServer c' = c_timeServer c \<and>
    (\<forall>i. wrote V (t_id c) n n' i []) \<and> (\<forall>i. i \<notin> set (participants c) \<longrightarrow> txns (net_server n' i) (t_id c) = None) \<and>
    (status = REPLY_OK \<longrightarrow> (\<forall>i\<in>set (participants c). txns (net_server n' i) (t_id c) = Some (bc_txn (bclient c ! i))))"
proof -
  let ?t = "t_id c"
  obtain ts0 xs where xs: "each_shard (BC_Prepare V sched (Promise_timeout 10000)) (participants c) c n = Inr (xs, c', n')"
      "prepare_replies (map snd xs) REPLY_OK ts0 = Inr (status, ts')"
    using assms(1) by (auto simp: Client_Prepare_def rbind_Inr_iff split: if_splits)
  let ?R = "\<lambda>i b x p b' y. quiet ?t sched \<longrightarrow> txns (fst x) ?t = None \<longrightarrow> (\<exists>ds. executes V x ds y \<and> commits_of V ?t ds (fst x) = [] \<and>
     txns (fst y) ?t = (if pm_reply p = REPLY_OK then Some (bc_txn b) else None))"
  have "same_txn b b' \<and> (\<forall>j. j \<noteq> i \<longrightarrow> net_at n' j = net_at n j) \<and> ?R i b (net_at n i) p b' (net_at n' i)"
    if "b_ok ?t i b" "BC_Prepare V sched (Promise_timeout 10000) b n = Inr (p, b', n')" for i b n p b' n'
    using BC_Prepare_at [OF that(2,1)] by (simp add: net_at_def)
  note L = each_shard_client [where R = ?R, OF xs(1) assms(2) this]
  have at: "wrote V ?t n n' i [] \<and> txns (net_server n' i) ?t = (if pm_reply p = REPLY_OK then Some (bc_txn (bclient c ! i)) else None)"
    if "(i, p) \<in> set xs" for i p
  proof -
    have "?R i (bclient c ! i) (net_at n i) p (bclient c' ! i) (net_at n' i)" using L that by blast
    then show ?thesis using assms(3,4) by (auto simp: wrote_def net_at_def)
  qed
  have out: "wrote V ?t n n' i [] \<and> txns (net_server n' i) ?t = None" if "i \<notin> set (participants c)" for i
  proof -
    have "net_at n' i = net_at n i" using that L by blast
    then show ?thesis using assms(4) wrote_none [of n' i n V ?t] net_at_server [of n' i n] by simp
  qed
  have ex: "\<exists>p. (i, p) \<in> set xs" if "i \<in> set (participants c)" for i
    using key_present [OF L [THEN conjunct1] that] .
  have "status = REPLY_OK \<longleftrightarrow> (\<forall>p\<in>set (map snd xs). pm_reply p = REPLY_OK)" using prepare_replies_status [OF xs(2)] by simp
  then have "status = REPLY_OK \<Longrightarrow> \<forall>i\<in>set (participants c). txns (net_server n' i) ?t = Some (bc_txn (bclient c ! i))"
    using at ex by (metis (no_types, lifting) image_eqI list.set_map snd_conv)
  moreover have "wrote V ?t n n' i []" for i using at out ex by blast
  ultimately show ?thesis using L out by blast
qed

lemma decide_phase:
  assumes "each_shard f (participants c) c n = Inr (xs, c', n')" "txn_client_ok c" "t = t_id c"
    and "\<And>i b n x b' n'. b_ok t i b \<Longrightarrow> f b n = Inr (x, b', n') \<Longrightarrow> same_txn b b' \<and> (\<forall>j. j \<noteq> i \<longrightarrow> net_at n' j = net_at n j) \<and>
       (\<exists>ds. executes V (net_at n i) ds (net_at n' i) \<and> txns (net_server n' i) t = None \<and> commits_of V t ds (net_server n i) = W (net_server n i))"
  shows "txn_client_ok c' \<and> (\<forall>i\<in>set (participants c). wrote V t n n' i (W (net_server n i)) \<and> txns (net_server n' i) t = None) \<and>
    (\<forall>i. i \<notin> set (participants c) \<longrightarrow> net_at n' i = net_at n i)"
proof -
  let ?R = "\<lambda>i b x p b' y. \<exists>ds. executes V x ds y \<and> txns (fst y) t = None \<and> commits_of V t ds (fst x) = W (fst x) \<and> p = p"
  have "same_txn b b' \<and> (\<forall>j. j \<noteq> i \<longrightarrow> net_at n' j = net_at n j) \<and> ?R i b (net_at n i) x b' (net_at n' i)"
    if "b_ok (t_id c) i b" "f b n = Inr (x, b', n')" for i b n x b' n'
    using assms(4) [OF that [folded assms(3)]] by (simp add: net_at_def)
  note L = each_shard_client [where R = ?R, OF assms(1,2) this]
  have "wrote V t n n' i (W (net_server n i)) \<and> txns (net_server n' i) t = None" if i: "i \<in> set (participants c)" for i
  proof -
    have "map fst xs = participants c" using L by blast
    then obtain x where "(i, x) \<in> set xs" using key_present i by metis
    then have "?R i (bclient c ! i) (net_at n i) x (bclient c' ! i) (net_at n' i)" using L by blast
    then show ?thesis by (auto simp: wrote_def net_at_def)
  qed
  then show ?thesis using L by blast
qed

lemma spanner_wait_client:
  "spanner_wait clk ts c = Inr (ts', c') \<Longrightarrow> txn_client_ok c' = txn_client_ok c \<and> participants c' = participants c \<and> t_id c' = t_id c \<and> bclient c' = bclient c"
  by (auto simp: spanner_wait_def txn_client_ok_def rbind_Inr_iff split: if_splits)

definition decided :: "'b VersionedKVStore \<Rightarrow> 's Client \<Rightarrow> 'b Net \<Rightarrow> bool \<Rightarrow> 'b Net \<Rightarrow> nat \<Rightarrow> bool" where
  "decided V c n ok n' i \<longleftrightarrow> wrote V (t_id c) n n' i (if ok \<and> i \<in> set (participants c) then [writeSet (bc_txn (bclient c ! i))] else []) \<and>
     txns (net_server n' i) (t_id c) = None"

text \<open>Both forms of \<open>Commit\<close>: the prepares, the wait and the commits, or the prepares and the aborts.\<close>

lemma two_phase:
  assumes "Client_Prepare V sched tss ts c n = Inr ((status, ts'), c1, n1)" "txn_client_ok c" "quiet (t_id c) sched"
    and fresh: "\<And>i. txns (net_server n i) (t_id c) = None"
    and "status = REPLY_OK \<Longrightarrow> \<exists>ts2 c2 xs. spanner_wait clk ts' c1 = Inr (ts2, c2) \<and>
       each_shard (BC_Commit L E V sched ts2 promise) (participants c2) c2 n1 = Inr (xs, c', n')"
    and "status \<noteq> REPLY_OK \<Longrightarrow> Client_Abort V sched c1 n1 = Inr (c', n')"
  shows "decided V c n (status = REPLY_OK) n' i" "txn_client_ok c'"
proof -
  let ?t = "t_id c"
  note P = prepare_phase [OF assms(1-3) fresh]
  have q: "quiet ?t sched" "txn_client_ok c1" using P assms(3) by auto
  have "decided V c n (status = REPLY_OK) n' i \<and> txn_client_ok c'"
  proof (cases "status = REPLY_OK")
    case True
    then obtain ts2 c2 xs where c2: "spanner_wait clk ts' c1 = Inr (ts2, c2)"
        "each_shard (BC_Commit L E V sched ts2 promise) (participants c2) c2 n1 = Inr (xs, c', n')" using assms(5) by blast
    have e: "txn_client_ok c2" "participants c2 = participants c" "t_id c2 = ?t" using spanner_wait_client [OF c2(1)] P by auto
    note D = decide_phase [where W = "\<lambda>s. [written_by ?t s]", OF c2(2) e(1) e(3) [symmetric]]
    have D: "txn_client_ok c' \<and> (\<forall>i\<in>set (participants c). wrote V ?t n1 n' i [written_by ?t (net_server n1 i)] \<and> txns (net_server n' i) ?t = None) \<and>
        (\<forall>i. i \<notin> set (participants c) \<longrightarrow> net_at n' i = net_at n1 i)"
      using D BC_Commit_at q(1) unfolding e(2) by blast
    show ?thesis
    proof (cases "i \<in> set (participants c)")
      case True
      then have "written_by ?t (net_server n1 i) = writeSet (bc_txn (bclient c ! i))" using P \<open>status = REPLY_OK\<close> by (simp add: written_by_def)
      then show ?thesis using D True \<open>status = REPLY_OK\<close> P wrote_trans [of V ?t n n1 i "[]" n'] by (auto simp: decided_def)
    next
      case False
      then show ?thesis using D P wrote_trans [of V ?t n n1 i "[]" n' "[]"] wrote_none [of n' i n1 V ?t] net_at_server [of n' i n1]
        by (auto simp: decided_def)
    qed
  next
    case False
    then obtain xs where a: "each_shard (BC_Abort V sched None) (participants c1) c1 n1 = Inr (xs, c', n')"
      using assms(6) by (auto simp: Client_Abort_def rbind_Inr_iff)
    have e: "participants c1 = participants c" "?t = t_id c1" using P by auto
    have D: "txn_client_ok c' \<and> (\<forall>i\<in>set (participants c). wrote V ?t n1 n' i [] \<and> txns (net_server n' i) ?t = None) \<and>
        (\<forall>i. i \<notin> set (participants c) \<longrightarrow> net_at n' i = net_at n1 i)"
      using decide_phase [where W = "\<lambda>s. []", OF a q(2) e(2)] BC_Abort_at q(1) unfolding e(1) by blast
    have "wrote V ?t n1 n' i [] \<and> txns (net_server n' i) ?t = None"
      using D P wrote_none [of n' i n1 V ?t] net_at_server [of n' i n1] by (cases "i \<in> set (participants c)") auto
    then show ?thesis using False D P wrote_trans [of V ?t n n1 i "[]" n' "[]"] by (auto simp: decided_def)
  qed
  then show "decided V c n (status = REPLY_OK) n' i" "txn_client_ok c'" by blast+
qed

lemma commit_steps:
  assumes "Client_Commit L E V sched tss clk c n = Inr (ok, c', n') \<or> Client_Commit_keys L E V sched tss clk keys c n = Inr ((ok, keys'), c', n')"
  obtains status ts c1 n1 promise where "Client_Prepare V sched (tss 0) 0 c n = Inr ((status, ts), c1, n1)" "ok = (status = REPLY_OK)"
      "status = REPLY_OK \<longrightarrow> (\<exists>ts2 c2 xs. spanner_wait clk ts c1 = Inr (ts2, c2) \<and>
         each_shard (BC_Commit L E V sched ts2 promise) (participants c2) c2 n1 = Inr (xs, c', n'))"
      "status \<noteq> REPLY_OK \<longrightarrow> Client_Abort V sched c1 n1 = Inr (c', n')"
  using assms
  by (elim disjE)
    (auto simp: Client_Commit_def Client_Commit_keys_def COMMIT_RETRIES_def rbind_Inr_iff split: if_splits, blast+)

lemma Client_Commit_decided:
  assumes "Client_Commit L E V sched tss clk c n = Inr (ok, c', n') \<or> Client_Commit_keys L E V sched tss clk keys c n = Inr ((ok, keys'), c', n')"
    and "txn_client_ok c" "quiet (t_id c) sched" "\<And>i. txns (net_server n i) (t_id c) = None"
  shows "decided V c n ok n' i \<and> txn_client_ok c'"
proof -
  obtain status ts c1 n1 promise where p: "Client_Prepare V sched (tss 0) 0 c n = Inr ((status, ts), c1, n1)" "ok = (status = REPLY_OK)"
      "status = REPLY_OK \<longrightarrow> (\<exists>ts2 c2 xs. spanner_wait clk ts c1 = Inr (ts2, c2) \<and>
         each_shard (BC_Commit L E V sched ts2 promise) (participants c2) c2 n1 = Inr (xs, c', n'))"
      "status \<noteq> REPLY_OK \<longrightarrow> Client_Abort V sched c1 n1 = Inr (c', n')"
    using assms(1) by (rule commit_steps) blast
  show ?thesis using two_phase [OF p(1) assms(2-4) p(3,4) [THEN mp]] p(2) by blast
qed

section \<open>Sessions\<close>

text \<open>A session begins with \<open>Begin\<close> on a new client; then come calls of any of the methods.\<close>

inductive session :: "Ledger \<Rightarrow> 's ext \<Rightarrow> 'b VersionedKVStore \<Rightarrow> schedule \<Rightarrow> 's Client \<Rightarrow> 'b Net \<Rightarrow> bool" for L E V sched where
  start: "Client_Begin (Client_new mode client_id configs nShards closestReplica T stores) = Inr c \<Longrightarrow> session L E V sched c n"
| again: "session L E V sched c n \<Longrightarrow> Client_Begin c = Inr c' \<Longrightarrow> session L E V sched c' n"
| versions: "session L E V sched c n \<Longrightarrow> Client_GetNVersions key k c = Inr (r, c') \<Longrightarrow> session L E V sched c' n"
| get: "session L E V sched c n \<Longrightarrow> Client_Get key c = Inr (r, c') \<Longrightarrow> session L E V sched c' n"
| buffer: "session L E V sched c n \<Longrightarrow> Client_BufferKey key c = Inr c' \<Longrightarrow> session L E V sched c' n"
| put: "session L E V sched c n \<Longrightarrow> Client_Put key v c = Inr (r, c') \<Longrightarrow> session L E V sched c' n"
| batch_keys: "session L E V sched c n \<Longrightarrow> Client_BatchGet_keys L E V sched vals keys c n = Inr (x, c', n') \<Longrightarrow> session L E V sched c' n'"
| batch: "session L E V sched c n \<Longrightarrow> Client_BatchGet L E V sched vals c n = Inr (y, c', n') \<Longrightarrow> session L E V sched c' n'"
| range: "session L E V sched c n \<Longrightarrow> Client_GetRange L E V sched start stop vals keys c n = Inr (x, c', n') \<Longrightarrow> session L E V sched c' n'"
| commit: "session L E V sched c n \<Longrightarrow> Client_Commit L E V sched tss clk c n = Inr (ok, c', n') \<Longrightarrow> session L E V sched c' n'"
| commit_keys: "session L E V sched c n \<Longrightarrow> Client_Commit_keys L E V sched tss clk keys c n = Inr (z, c', n') \<Longrightarrow> session L E V sched c' n'"
| abort: "session L E V sched c n \<Longrightarrow> Client_Abort V sched c n = Inr (c', n') \<Longrightarrow> session L E V sched c' n'"
| verify: "session L E V sched c n \<Longrightarrow> Client_Verify L E V sched keys c n = Inr (z, c', n') \<Longrightarrow> session L E V sched c' n'"
| audit: "session L E V sched c n \<Longrightarrow> Client_Audit L E V sched seqs c n = Inr (w, c', n') \<Longrightarrow> session L E V sched c' n'"

lemma txn_client_ok_upd: "txn_client_ok c \<Longrightarrow> i < length (bclient c) \<Longrightarrow> b_ok (t_id c) i b \<Longrightarrow> txn_client_ok (c\<lparr>bclient := (bclient c)[i := b]\<rparr>)"
  by (auto simp: txn_client_ok_def nth_list_update)

lemma at_shard_ok:
  assumes "at_shard i f c = Inr (x, c')" "txn_client_ok c" "\<And>b b'. b_ok (t_id c) i b \<Longrightarrow> f b = Inr (x, b') \<Longrightarrow> b_ok (t_id c) i b'"
  shows "txn_client_ok c' \<and> t_id c' = t_id c"
  using assms txn_client_ok_upd [of c i] by (auto simp: at_shard_Inr txn_client_ok_def)

lemma each_shard_ok:
  assumes "each_shard f is c n = Inr (xs, c', n')" "txn_client_ok c"
    and "\<And>i b n x b' n'. b_ok (t_id c) i b \<Longrightarrow> f b n = Inr (x, b', n') \<Longrightarrow> b_ok (t_id c) i b'"
  shows "txn_client_ok c' \<and> t_id c' = t_id c"
  using assms
proof (induction "is" arbitrary: c n xs)
  case (Cons i "is")
  obtain x n1 c1 ys where s: "at_shard i (\<lambda>b. rbind (f b n) (\<lambda>(x, b, n). Inr ((x, n), b))) c = Inr ((x, n1), c1)"
      "each_shard f is c1 n1 = Inr (ys, c', n')"
    using Cons.prems(1) by (auto simp: rbind_Inr_iff)
  have "txn_client_ok c1 \<and> t_id c1 = t_id c" by (rule at_shard_ok [OF s(1) Cons.prems(2)]) (auto simp: rbind_Inr_iff dest: Cons.prems(3))
  then show ?case using Cons.IH [OF s(2)] Cons.prems(3) by auto
qed simp

lemma join_ok [simp]: "txn_client_ok (join i c) = txn_client_ok c" if "txn_client_ok c" for c
  using that by (simp add: txn_client_ok_def join_def insort_insert_key_def distinct_insort)

lemma join_t_id [simp]: "t_id (join i c) = t_id c"
  by (simp add: join_def)

lemma b_ok_upd [simp]:
  "b_ok t i b \<Longrightarrow> b_ok t i (b\<lparr>history := h\<rparr>)" "b_ok t i b \<Longrightarrow> b_ok t i (b\<lparr>bc_buffer := ks\<rparr>)"
  "b_ok t i b \<Longrightarrow> sc_shard sc = sc_shard (bc_client b) \<Longrightarrow> b_ok t i (b\<lparr>bc_client := sc\<rparr>)"
  "b_ok t i b \<Longrightarrow> txn_ok txn \<Longrightarrow> b_ok t i (b\<lparr>bc_txn := txn\<rparr>)"
  by (simp_all add: b_ok_def)

lemma local_ok:
  "b_ok t i b \<Longrightarrow> b_ok t i (snd (BC_GetNVersions key k p b))" "b_ok t i b \<Longrightarrow> b_ok t i (snd (BC_Get key p b))"
  "b_ok t i b \<Longrightarrow> b_ok t i (BC_BufferKey key b)" "b_ok t i b \<Longrightarrow> b_ok t i (snd (BC_Put key v p b))"
  by (simp_all add: BC_GetNVersions_def BC_Get_def BC_BufferKey_def BC_Put_def) (simp_all add: b_ok_def)

lemma add_reads_ok: "add_reads p k kvs txn = Inr txn' \<Longrightarrow> txn_ok txn \<Longrightarrow> txn_ok txn'"
  by (induction p k kvs txn rule: add_reads.induct) (auto simp: rbind_Inr_iff)

lemma note_reads_ok: "note_reads p txn = Inr txn' \<Longrightarrow> txn_ok txn \<Longrightarrow> txn_ok txn'"
  by (auto simp: note_reads_def rbind_Inr_iff dest: add_reads_ok split: if_splits)

lemma read_shard:
  "read_callback L E r sc = Inr (p, sc') \<Longrightarrow> sc_shard sc' = sc_shard sc" "GetTimeout sc = (p, sc') \<Longrightarrow> sc_shard sc' = sc_shard sc"
  by (cases "waiting sc"; cases L; auto simp: read_callback_def GetTimeout_def rbind_Inr_iff plain_reply_def)+

lemma audit_reply_shard: "audit_reply L E r sc = Inr (res, sc') \<Longrightarrow> sc_shard sc' = sc_shard sc"
  by (cases L) (auto simp: audit_reply_def sql_audit_reply_def ldb_audit_reply_def Let_def rbind_Inr_iff split: option.splits)

lemma settle_shard: "sc_shard (snd (settle n st res w sc)) = sc_shard sc"
  by (simp add: settle_def)

lemma proof_shard:
  assumes "GetProofCallback L E k keys r sc = Inr (p, sc') \<or> AuditCallback L E seq k r sc = Inr (p, sc')"
  shows "sc_shard sc' = sc_shard sc"
proof (cases "verifyPromise sc k")
  case (Some w)
  have s: "sc_shard (snd (settle n st res w sc)) = sc_shard sc" for n st res sc by (rule settle_shard)
  show ?thesis using assms
  proof
    assume "GetProofCallback L E k keys r sc = Inr (p, sc')"
    then obtain res where "settle k (rep_status r) (Some res) w (sc\<lparr>tip_block := dg_block (rep_digest r)\<rparr>) = (p, sc')"
      using Some unfolding GetProofCallback_def by (auto simp: rbind_Inr_iff)
    then show ?thesis using s [of k "rep_status r" "Some res" "sc\<lparr>tip_block := dg_block (rep_digest r)\<rparr>"] by simp
  next
    assume "AuditCallback L E seq k r sc = Inr (p, sc')"
    then obtain res sc1 where r: "(if seq \<le> dg_block (rep_digest r) then audit_reply L E r (sc\<lparr>tip_block := dg_block (rep_digest r)\<rparr>) else Inr (None, sc\<lparr>tip_block := dg_block (rep_digest r)\<rparr>)) = Inr (res, sc1)"
        "settle k (rep_status r) res w sc1 = (p, sc')"
      using Some unfolding AuditCallback_def by (auto simp: rbind_Inr_iff Let_def)
    have "sc_shard sc1 = sc_shard sc" using r(1) audit_reply_shard by (fastforce split: if_splits)
    then show ?thesis using s [of k "rep_status r" res sc1] r(2) by simp
  qed
qed (use assms in \<open>auto simp: GetProofCallback_def AuditCallback_def\<close>)

lemma answer_shard:
  assumes "answered (case r of Some r \<Rightarrow> read_callback L E r sc | None \<Rightarrow> Inr (GetTimeout sc)) = Inr (p, sc')"
  shows "sc_shard sc' = sc_shard sc"
  using assms read_shard(1) [of L E _ sc "Some p" sc'] read_shard(2) [of sc "Some p" sc'] by (cases r) (simp_all add: answered_Inr)

lemma read_ok:
  assumes "b_ok t i b"
  shows "BC_BatchGet L E V sched p b n = Inr (x, b', n') \<Longrightarrow> b_ok t i b'"
    "BC_GetRange L E V sched start stop p b n = Inr (x, b', n') \<Longrightarrow> b_ok t i b'"
proof -
  assume "BC_BatchGet L E V sched p b n = Inr (x, b', n')"
  then obtain r sc txn where "b' = b\<lparr>bc_client := sc, bc_txn := txn, bc_buffer := []\<rparr>" "note_reads x (bc_txn b) = Inr txn"
      "answered (case r of Some r \<Rightarrow> read_callback L E r ((bc_client b)\<lparr>waiting := Some p\<rparr>) | None \<Rightarrow> Inr (GetTimeout ((bc_client b)\<lparr>waiting := Some p\<rparr>))) = Inr (x, sc)"
    unfolding BC_BatchGet_def SC_BatchGet_def Let_def prod.case BatchGetCallback_def by (auto simp: rbind_Inr_iff)
  then show "b_ok t i b'" using assms note_reads_ok [of x "bc_txn b" txn] answer_shard by (fastforce simp: b_ok_def)
next
  assume "BC_GetRange L E V sched start stop p b n = Inr (x, b', n')"
  then obtain r sc txn where "b' = b\<lparr>bc_client := sc, bc_txn := txn\<rparr>" "note_reads x (bc_txn b) = Inr txn"
      "answered (case r of Some r \<Rightarrow> read_callback L E r ((bc_client b)\<lparr>waiting := Some p\<rparr>) | None \<Rightarrow> Inr (GetTimeout ((bc_client b)\<lparr>waiting := Some p\<rparr>))) = Inr (x, sc)"
    unfolding BC_GetRange_def SC_GetRange_def Let_def prod.case GetRangeCallback_def by (auto simp: rbind_Inr_iff)
  then show "b_ok t i b'" using assms note_reads_ok [of x "bc_txn b" txn] answer_shard by (fastforce simp: b_ok_def)
qed

lemma register_shard: "register p sc = (k, sc') \<Longrightarrow> sc_shard sc' = sc_shard sc"
  by (auto simp: register_def)

lemma proof_request_shard:
  "SC_GetProof blk keys p sc = (x, sc') \<Longrightarrow> sc_shard sc' = sc_shard sc" "SC_Audit seq p sc = (y, sc') \<Longrightarrow> sc_shard sc' = sc_shard sc"
  by (auto simp: SC_GetProof_def SC_Audit_def register_shard split: if_splits prod.splits)

lemma Verify_ok:
  assumes "b_ok t i b" "BC_Verify L E V sched blk keys p b n = Inr (ok, x, b', n')"
  shows "b_ok t i b'"
proof -
  obtain y sc where y: "SC_GetProof blk keys p (bc_client b) = (y, sc)" by fastforce
  have sc: "sc_shard sc = sc_shard (bc_client b)" by (rule proof_request_shard(1) [OF y])
  obtain sc' where "b' = b\<lparr>bc_client := sc'\<rparr>" "sc_shard sc' = sc_shard sc"
  proof (cases y)
    case (Inl q)
    then show ?thesis using assms(2) that by (auto simp: BC_Verify_def y)
  next
    case (Inr kr)
    then obtain r sc' where "GetProofCallback L E (fst kr) keys r sc = Inr (Some x, sc')" "b' = b\<lparr>bc_client := sc'\<rparr>"
      using assms(2) by (cases kr) (auto simp: BC_Verify_def y rbind_Inr_iff answered_Inr split: option.splits)
    then show ?thesis using that proof_shard by metis
  qed
  then show ?thesis using assms(1) sc by simp
qed

lemma Audit_ok:
  assumes "b_ok t i b" "BC_Audit L E V sched seq p b n = Inr (x, b', n')"
  shows "b_ok t i b'"
proof -
  obtain k req sc where y: "SC_Audit seq p (bc_client b) = ((k, req), sc)" by (metis prod.exhaust)
  obtain r sc' where "AuditCallback L E seq k r sc = Inr (Some x, sc')" "b' = b\<lparr>bc_client := sc'\<rparr>"
    using assms(2) by (auto simp: BC_Audit_def y rbind_Inr_iff answered_Inr split: option.splits)
  then show ?thesis using assms(1) proof_shard [OF disjI2, of L E seq k r sc] proof_request_shard(2) [OF y] by simp
qed

lemma verify_chunks_ok: "verify_chunks L E V sched blk keys ps b n = Inr (x, b', n') \<Longrightarrow> b_ok t i b \<Longrightarrow> b_ok t i b'"
proof (induction L E V sched blk keys ps b n rule: verify_chunks.induct)
  case (1 L E V sched blk keys ps b n)
  show ?case
  proof (cases "length keys > 10000")
    case True
    then obtain ok p b1 n1 where v: "BC_Verify L E V sched blk (take 10000 keys) Promise_new b n = Inr (ok, p, b1, n1)"
        "(if ok then verify_chunks L E V sched blk (drop 10000 keys) (ps @ [p]) b1 n1 else Inr ((False, keys, ps), b1, n1)) = Inr (x, b', n')"
      using "1.prems"(1) by (auto simp: verify_chunks.simps [of L E V sched blk keys] rbind_Inr_iff)
    have "b_ok t i b1" using Verify_ok [OF "1.prems"(2) v(1)] .
    then show ?thesis using v(2) "1.IH" [OF True] by (cases ok) auto
  qed (use "1.prems" in \<open>auto simp: verify_chunks.simps [of L E V sched blk keys]\<close>)
qed

lemma verify_blocks_ok: "verify_blocks L E V sched blocks ps b n = Inr (x, b', n') \<Longrightarrow> b_ok t i b \<Longrightarrow> b_ok t i b'"
proof (induction blocks arbitrary: ps b n x)
  case (Cons bk blocks)
  obtain blk keys where bk: "bk = (blk, keys)" by fastforce
  obtain v keys' ps1 b1 n1 where 1: "verify_chunks L E V sched blk keys ps b n = Inr ((v, keys', ps1), b1, n1)"
    using Cons.prems(1) by (auto simp: bk rbind_Inr_iff)
  have b1: "b_ok t i b1" using verify_chunks_ok [OF 1 Cons.prems(2)] .
  show ?case
  proof (cases v)
    case True
    then obtain ok p b2 n2 where 2: "BC_Verify L E V sched blk keys' Promise_new b1 n1 = Inr (ok, p, b2, n2)"
      using Cons.prems(1) 1 by (auto simp: bk rbind_Inr_iff)
    have "b_ok t i b2" using Verify_ok [OF b1 2] .
    then show ?thesis using Cons.prems(1) 1 2 True Cons.IH by (auto simp: bk rbind_Inr_iff split: if_splits)
  qed (use Cons.prems(1) 1 b1 in \<open>auto simp: bk rbind_Inr_iff\<close>)
qed simp

lemma verify_shards_ok: "verify_shards L E V sched keys ps c n = Inr (x, c', n') \<Longrightarrow> txn_client_ok c \<Longrightarrow> txn_client_ok c'"
proof (induction keys arbitrary: ps c n x)
  case (Cons ib keys)
  obtain i blocks where ib: "ib = (i, blocks)" by fastforce
  obtain y ps1 n1 c1 x' where 1: "at_shard i (\<lambda>b. rbind (verify_blocks L E V sched blocks ps b n) (\<lambda>((blocks, ps), b, n). Inr ((blocks, ps, n), b))) c = Inr ((y, ps1, n1), c1)"
      "verify_shards L E V sched keys ps1 c1 n1 = Inr (x', c', n')"
    using Cons.prems(1) by (auto simp: ib rbind_Inr_iff)
  have "txn_client_ok c1" using at_shard_ok [OF 1(1) Cons.prems(2)] verify_blocks_ok by (fastforce simp: rbind_Inr_iff)
  then show ?case using Cons.IH [OF 1(2)] by simp
qed simp

lemma audit_all_ok: "audit_all L E V sched seqs c n = Inr (ps, c', n') \<Longrightarrow> txn_client_ok c \<Longrightarrow> txn_client_ok c'"
proof (induction seqs arbitrary: ps c n)
  case (Cons s seqs)
  obtain i seq where s: "s = (i, seq)" by fastforce
  obtain p n1 c1 ps' where 1: "at_shard i (\<lambda>b. rbind (BC_Audit L E V sched seq Promise_new b n) (\<lambda>(p, b, n). Inr ((p, n), b))) c = Inr ((p, n1), c1)"
      "audit_all L E V sched seqs c1 n1 = Inr (ps', c', n')"
    using Cons.prems(1) by (auto simp: s rbind_Inr_iff)
  have "txn_client_ok c1" using at_shard_ok [OF 1(1) Cons.prems(2)] Audit_ok by (fastforce simp: rbind_Inr_iff)
  then show ?case using Cons.IH [OF 1(2)] by simp
qed simp

lemma SC_Begin_shard: "SC_Begin sc = Inr sc' \<Longrightarrow> sc_shard sc' = sc_shard sc"
  by (auto simp: SC_Begin_def rbind_Inr_iff split: option.splits)

lemma begin_all_ok:
  "begin_all t bs = Inr bs' \<Longrightarrow> length bs' = length bs \<and> (\<forall>i<length bs. b_ok t (sc_shard (bc_client (bs ! i))) (bs' ! i))"
proof (induction bs arbitrary: bs')
  case (Cons b bs)
  then obtain b1 bs1 where 1: "BC_Begin t b = Inr b1" "begin_all t bs = Inr bs1" "bs' = b1 # bs1" by (auto simp: rbind_Inr_iff)
  have "b_ok t (sc_shard (bc_client b)) b1" using 1(1) by (auto simp: BC_Begin_def rbind_Inr_iff b_ok_def dest: SC_Begin_shard)
  then show ?case using Cons.IH [OF 1(2)] 1(3) by (auto simp: nth_Cons split: nat.splits)
qed simp

lemma Client_Begin_ok:
  assumes "Client_Begin c = Inr c'" "\<And>i. i < length (bclient c) \<Longrightarrow> sc_shard (bc_client (bclient c ! i)) = i"
  shows "txn_client_ok c'"
  using assms begin_all_ok [of _ "bclient c"] by (fastforce simp: Client_Begin_def Let_def rbind_Inr_iff txn_client_ok_def)

lemma Client_Prepare_ok: "Client_Prepare V sched tss ts c n = Inr (x, c', n') \<Longrightarrow> txn_client_ok c \<Longrightarrow> txn_client_ok c'"
  using BC_Prepare_at same_txn_ok by (auto simp: Client_Prepare_def rbind_Inr_iff dest!: each_shard_ok split: if_splits) blast+

lemma Client_Abort_ok: "Client_Abort V sched c n = Inr (c', n') \<Longrightarrow> txn_client_ok c \<Longrightarrow> txn_client_ok c'"
  using BC_Abort_at same_txn_ok by (auto simp: Client_Abort_def rbind_Inr_iff dest!: each_shard_ok) blast+

lemma commit_ok:
  assumes "Client_Commit L E V sched tss clk c n = Inr (ok, c', n') \<or> Client_Commit_keys L E V sched tss clk keys c n = Inr ((ok, keys'), c', n')" "txn_client_ok c"
  shows "txn_client_ok c'"
proof -
  obtain status ts c1 n1 promise where p: "Client_Prepare V sched (tss 0) 0 c n = Inr ((status, ts), c1, n1)" "ok = (status = REPLY_OK)"
      "status = REPLY_OK \<longrightarrow> (\<exists>ts2 c2 xs. spanner_wait clk ts c1 = Inr (ts2, c2) \<and>
         each_shard (BC_Commit L E V sched ts2 promise) (participants c2) c2 n1 = Inr (xs, c', n'))"
      "status \<noteq> REPLY_OK \<longrightarrow> Client_Abort V sched c1 n1 = Inr (c', n')"
    using assms(1) by (rule commit_steps) blast
  have c1: "txn_client_ok c1" using Client_Prepare_ok [OF p(1) assms(2)] .
  show ?thesis
  proof (cases "status = REPLY_OK")
    case True
    then obtain ts2 c2 xs where c2: "spanner_wait clk ts c1 = Inr (ts2, c2)" "each_shard (BC_Commit L E V sched ts2 promise) (participants c2) c2 n1 = Inr (xs, c', n')"
      using p(3) by blast
    have "txn_client_ok c2" using spanner_wait_client [OF c2(1)] c1 by simp
    from each_shard_ok [OF c2(2) this] show ?thesis using BC_Commit_at same_txn_ok by blast
  qed (use Client_Abort_ok [OF p(4) [THEN mp] c1] in blast)
qed

lemma session_ok: "session L E V sched c n \<Longrightarrow> txn_client_ok c"
proof (induction rule: session.induct)
  case (start mode client_id configs nShards closestReplica T stores c n)
  then show ?case by (rule Client_Begin_ok) (simp add: Client_new_def BufferClient_new_def ShardClient_new_def)
next
  case (again c n c')
  then show ?case by (intro Client_Begin_ok [of c]) (auto simp: txn_client_ok_def b_ok_def)
next
  case (versions c n key k r c')
  then obtain p where p: "at_shard (c_shard key c) (\<lambda>b. Inr (BC_GetNVersions key k (Promise_timeout 10000) b)) (join (c_shard key c) c) = Inr (p, c')"
    by (auto simp: Client_GetNVersions_def Let_def rbind_Inr_iff)
  show ?case using at_shard_ok [OF p] versions local_ok(1) by (metis Inr_inject join_ok join_t_id snd_conv)
next
  case (get c n key r c')
  then obtain p where p: "at_shard (c_shard key c) (\<lambda>b. Inr (BC_Get key (Promise_timeout 10000) b)) (join (c_shard key c) c) = Inr (p, c')"
    by (auto simp: Client_Get_def Let_def rbind_Inr_iff)
  show ?case using at_shard_ok [OF p] get local_ok(2) by (metis Inr_inject join_ok join_t_id snd_conv)
next
  case (buffer c n key c')
  then have p: "at_shard (c_shard key c) (\<lambda>b. Inr ((), BC_BufferKey key b)) (join (c_shard key c) c) = Inr ((), c')"
    by (auto simp: Client_BufferKey_def Let_def rbind_Inr_iff)
  show ?case using at_shard_ok [OF p] buffer local_ok(3) by (metis Inr_inject join_ok join_t_id snd_conv)
next
  case (put c n key v r c')
  then obtain p where p: "at_shard (c_shard key c) (\<lambda>b. Inr (BC_Put key v (Promise_timeout 250) b)) (join (c_shard key c) c) = Inr (p, c')"
    by (auto simp: Client_Put_def Let_def rbind_Inr_iff)
  show ?case using at_shard_ok [OF p] put local_ok(4) by (metis Inr_inject join_ok join_t_id snd_conv)
next
  case (batch_keys c n vals keys x c' n')
  then obtain ps where "each_shard (BC_BatchGet L E V sched (Promise_timeout 10000)) (participants c) c n = Inr (ps, c', n')"
    by (auto simp: Client_BatchGet_keys_def rbind_Inr_iff)
  then show ?case using each_shard_ok batch_keys(3) read_ok(1) by blast
next
  case (batch c n vals y c' n')
  then obtain ps where "each_shard (BC_BatchGet L E V sched (Promise_timeout 10000)) (participants c) c n = Inr (ps, c', n')"
    by (auto simp: Client_BatchGet_def rbind_Inr_iff)
  then show ?case using each_shard_ok batch(3) read_ok(1) by blast
next
  case (range c n start stop vals keys x c' n')
  then obtain ps where "each_shard (BC_GetRange L E V sched start stop (Promise_timeout 10000)) [0..<nshards c] c n = Inr (ps, c', n')"
    by (auto simp: Client_GetRange_def rbind_Inr_iff)
  from each_shard_ok [OF this range(3)] read_ok(2) show ?case by blast
next
  case (commit c n tss clk ok c' n')
  then show ?case using commit_ok [of L E V sched tss clk c n ok c' n'] by blast
next
  case (commit_keys c n tss clk keys z c' n')
  then show ?case using commit_ok [of L E V sched tss clk c n "fst z" c' n' keys "snd z"] by simp
next
  case (abort c n c' n')
  then show ?case using Client_Abort_ok by blast
next
  case (verify c n keys z c' n')
  then show ?case using verify_shards_ok by (fastforce simp: Client_Verify_def rbind_Inr_iff split: Ledger.splits)
next
  case (audit c n seqs w c' n')
  then show ?case using audit_all_ok by (fastforce simp: Client_Audit_def Let_def rbind_Inr_iff)
qed

section \<open>Atomic commitment\<close>


subsection \<open>An example with two shards\<close>

type_synonym ex_store = "string \<rightharpoonup> string"

definition ex_sc :: "nat \<Rightarrow> ex_store ShardClient" where
  "ex_sc i = ShardClient_new MODE_OCC 1 20000 i 0 Map.empty"

definition ex_bc :: "nat \<Rightarrow> (string \<times> string) list \<Rightarrow> ex_store BufferClient" where
  "ex_bc i ws = \<lparr> bc_client = ex_sc i, bc_txn = \<lparr> readSet = [], writeSet = ws \<rparr>, history = [], bc_tid = 20001, bc_buffer = [] \<rparr>"

definition ex_c :: "nat list \<Rightarrow> ex_store BufferClient list \<Rightarrow> ex_store Client" where
  "ex_c ps bs = \<lparr> c_mode = MODE_OCC, t_id = 20001, nshards = 2, participants = ps, bclient = bs, c_timeServer = TrueTime_default, commit_sleep = -1 \<rparr>"

definition ex_net :: "unit Net" where
  "ex_net = \<lparr> net_server = (\<lambda>_. ex_server), net_turn = (\<lambda>_. 0), net_calls = (\<lambda>_. []) \<rparr>"

definition ex_sched :: schedule where
  "ex_sched i k = \<lparr> others = [], tn_clock = (0, 0), tn_fate = Answered \<rparr>"

lemma ex_sc_simps [simp]: "sc_shard (ex_sc i) = i" "blockingBegin (ex_sc i) = None" "waiting (ex_sc i) = None"
  by (simp_all add: ex_sc_def ShardClient_new_def)

lemma ex_begin: "Client_Begin (Client_new MODE_OCC 20000 (\<lambda>_. 1) 2 0 TrueTime_default (\<lambda>_. Map.empty)) = Inr (ex_c [] [ex_bc 0 [], ex_bc 1 []])"
  by (simp add: Client_Begin_def Client_new_def BufferClient_new_def BC_Begin_def SC_Begin_def ex_c_def ex_bc_def Transaction_new_def upt_rec
      ex_sc_def ShardClient_new_def)

lemma ex_put1: "Client_Put ''a'' ''x'' (ex_c [] [ex_bc 0 [], ex_bc 1 []]) = Inr (REPLY_OK, ex_c [0] [ex_bc 0 [(''a'', ''x'')], ex_bc 1 []])"
  by (simp add: Client_Put_def c_shard_def key_to_shard_def key_hash_def char_to_u64_def at_shard_def vec_at_def join_def insort_insert_key_def BC_Put_def
      Promise_Reply_def ReplyInternal_def Promise_GetReply_def await_def addWriteSet_def ex_c_def ex_bc_def)

lemma ex_put2: "Client_Put ''b'' ''y'' (ex_c [0] [ex_bc 0 [(''a'', ''x'')], ex_bc 1 []]) = Inr (REPLY_OK, ex_c [0, 1] [ex_bc 0 [(''a'', ''x'')], ex_bc 1 [(''b'', ''y'')]])"
  by (simp add: Client_Put_def c_shard_def key_to_shard_def key_hash_def char_to_u64_def at_shard_def vec_at_def join_def insort_insert_key_def BC_Put_def
      Promise_Reply_def ReplyInternal_def Promise_GetReply_def await_def addWriteSet_def ex_c_def ex_bc_def)

definition ex_ready :: "ex_store Client" where
  "ex_ready = ex_c [0, 1] [ex_bc 0 [(''a'', ''x'')], ex_bc 1 [(''b'', ''y'')]]"

lemma ex_ready_session: "session SQLLEDGER map_ext null_store ex_sched ex_ready ex_net"
  unfolding ex_ready_def by (rule session.put [OF session.put [OF session.start [OF ex_begin] ex_put1] ex_put2])

lemma ex_commit: "\<exists>c' n'. Client_Commit SQLLEDGER map_ext null_store ex_sched (\<lambda>_. ''7'') (\<lambda>_. (0, 0)) ex_ready ex_net = Inr (True, c', n')"
  by (simp add: ex_ready_def ex_c_def ex_bc_def Client_Commit_def COMMIT_RETRIES_def Client_Prepare_def stol_def strip_sign_def is_digit_def is_space_def
      dec_value_def at_shard_def vec_at_def BC_Prepare_def SC_Prepare_def net_invoke_def net_take_def ex_sched_def net_run_def ex_net_def blocked_def
      LeaderUpcall_def with_store_def Request_default_def Transaction_serialize_def Transaction_of_message_def Transaction_new_def addWriteSet_def
      OCC_Prepare_def getPreparedWrites_def getPreparedReadWrites_def ex_server_def OCCStore_new_def Reply_default_def PrepareCallback_def answered_def
      Promise_replies ReplyInternal_def Promise_GetReply_def Promise_GetTimestamp_def await_def reply_codes spanner_wait_def BC_Commit_def SC_Commit_def
      OCC_Commit_def prepared_txn_def null_store_def CommitCallback_def unblock_def Timestamp_default_def Promise_timeout_def)


section \<open>The commit wait\<close>

text \<open>A time of day and a timestamp in microseconds; the time a client's clock shows.\<close>

definition usecs :: "64 word \<times> 64 word \<Rightarrow> int" where
  "usecs t = uint (fst t) * 1000000 + uint (snd t)"

definition ts_usecs :: "64 word \<Rightarrow> int" where
  "ts_usecs ts = uint ts div 2 ^ 32 * 1000000 + uint ts mod 2 ^ 32"

definition tod_ok :: "64 word \<times> 64 word \<Rightarrow> bool" where
  "tod_ok t \<longleftrightarrow> 0 < fst t \<and> fst t < 2 ^ 31 \<and> snd t < 1000000"

definition skew_ok :: "TrueTime \<Rightarrow> bool" where
  "skew_ok T \<longleftrightarrow> - 1000000 \<le> sint (simSkew T) \<and> sint (simSkew T) < 1000000 \<and> simError T < 2 ^ 62"

definition ts_ok :: "64 word \<Rightarrow> bool" where
  "ts_ok ts \<longleftrightarrow> uint ts mod 2 ^ 32 < 1000000"

lemma tod_okD: "tod_ok t \<Longrightarrow> 0 < uint (fst t) \<and> uint (fst t) < 2 ^ 31 \<and> uint (snd t) < 1000000"
  by (simp add: tod_ok_def word_less_def)

lemma sint_word_of_int_small: "- (2 ^ 63) \<le> k \<Longrightarrow> k < 2 ^ 63 \<Longrightarrow> sint (word_of_int k :: 64 word) = k"
  by (simp add: sint_sbintrunc' signed_take_bit_int_eq_self)

lemma elapsed_usecs:
  assumes "tod_ok t1" "tod_ok t2"
  shows "sint (elapsed t1 t2) = usecs t2 - usecs t1"
proof -
  have "elapsed t1 t2 = word_of_int ((uint (fst t2) - uint (fst t1)) * 1000000 + (uint (snd t2) - uint (snd t1)))"
    by (simp add: elapsed_def)
  also have "sint \<dots> = (uint (fst t2) - uint (fst t1)) * 1000000 + (uint (snd t2) - uint (snd t1))"
  proof (rule sint_word_of_int_small)
    have "- (2 ^ 63) \<le> (a - b) * 1000000 + (x - y) \<and> (a - b) * 1000000 + (x - y) < 2 ^ 63"
      if "0 < a" "a < 2 ^ 31" "0 < b" "b < 2 ^ 31" "0 \<le> x" "x < 1000000" "0 \<le> y" "y < 1000000" for a b x y :: int
      using that by auto
    from this [of "uint (fst t2)" "uint (fst t1)" "uint (snd t2)" "uint (snd t1)"] tod_okD [OF assms(1)] tod_okD [OF assms(2)]
    show "- (2 ^ 63) \<le> (uint (fst t2) - uint (fst t1)) * 1000000 + (uint (snd t2) - uint (snd t1))"
      "(uint (fst t2) - uint (fst t1)) * 1000000 + (uint (snd t2) - uint (snd t1)) < 2 ^ 63" by auto
  qed
  finally show ?thesis by (simp add: usecs_def algebra_simps)
qed

lemma GetTime_usecs:
  assumes "tod_ok t" "skew_ok T"
  shows "ts_usecs (GetTime T t) = usecs t + sint (simSkew T)" "ts_ok (GetTime T t)"
proof -
  define k where "k = usecs t + sint (simSkew T)"
  have "uint (GetTime T t) = k div 1000000 * 2 ^ 32 + k mod 1000000"
    using GetTime_calendar [of T "snd t" "fst t"] assms by (simp add: tod_ok_def skew_ok_def usecs_def k_def)
  moreover have "0 \<le> k mod 1000000" "k mod 1000000 < 2 ^ 32" by (simp, rule less_trans [of _ 1000000]) simp_all
  ultimately have "uint (GetTime T t) div 2 ^ 32 = k div 1000000" "uint (GetTime T t) mod 2 ^ 32 = k mod 1000000"
    by (simp_all add: div_add1_eq mod_add_eq)
  then show "ts_usecs (GetTime T t) = usecs t + sint (simSkew T)" "ts_ok (GetTime T t)"
    by (simp_all add: ts_usecs_def ts_ok_def flip: k_def)
qed

lemma ts_usecs_mono:
  assumes "ts_ok a" "a \<le> b"
  shows "ts_usecs a \<le> ts_usecs b"
proof -
  have ab: "uint a \<le> uint b" using assms(2) by (simp add: word_le_def)
  show ?thesis
  proof (cases "uint a div 2 ^ 32 = uint b div 2 ^ 32")
    case True
    then show ?thesis using ab by (simp add: ts_usecs_def) (metis div_mult_mod_eq add_le_cancel_left)
  next
    case False
    then have "uint a div 2 ^ 32 + 1 \<le> uint b div 2 ^ 32" using zdiv_mono1 [OF ab, of "2 ^ 32"] by simp
    moreover have "p * 1000000 + u \<le> q * 1000000 + v" if "p + 1 \<le> q" "u < 1000000" "0 \<le> v" for p q u v :: int
      using that by linarith
    ultimately show ?thesis using assms(1) by (simp add: ts_usecs_def ts_ok_def)
  qed
qed

lemma wait_diff_usecs: "wait_diff ts now = word_of_int (ts_usecs ts - ts_usecs now)"
proof -
  have d: "drop_bit 32 x = (word_of_int (uint x div 2 ^ 32) :: 64 word)" for x :: "64 word"
  proof -
    have "uint (drop_bit 32 x) = uint x div 2 ^ 32" by (simp add: drop_bit_eq_div uint_div)
    then show ?thesis by (metis word_of_int_uint)
  qed
  have m: "x AND 0xffffffff = (word_of_int (uint x mod 2 ^ 32) :: 64 word)" for x :: "64 word"
  proof -
    have "(0xffffffff :: 64 word) = mask 32" by (simp add: mask_eq_exp_minus_1)
    then have "x AND 0xffffffff = take_bit 32 x" by (simp only: take_bit_eq_mask)
    moreover have "uint (take_bit 32 x) = uint x mod 2 ^ 32" by (simp add: take_bit_eq_mod uint_mod)
    ultimately show ?thesis by (metis word_of_int_uint)
  qed
  show ?thesis by (simp add: wait_diff_def d m ts_usecs_def algebra_simps)
qed

text \<open>The loop stops at the first reading past the bound, if there is one.\<close>

lemma wait_loop_Some:
  "k \<le> j \<Longrightarrow> sint (elapsed (clk 0) (clk j)) > sint err \<Longrightarrow> (\<And>i. k \<le> i \<Longrightarrow> i < j \<Longrightarrow> \<not> sint (elapsed (clk 0) (clk i)) > sint err) \<Longrightarrow>
    wait_loop clk err k = Some j"
proof (induction "j - k" arbitrary: k)
  case 0
  then show ?case by (subst wait_loop.simps) auto
next
  case (Suc d)
  then have "k < j" by linarith
  then show ?case using Suc by (subst wait_loop.simps) auto
qed

lemma wait_loop_result:
  assumes "wait_loop clk err k = Some j"
  shows "k \<le> j \<and> sint (elapsed (clk 0) (clk j)) > sint err"
  using assms
  by (rule wait_loop.raw_induct [where P = "\<lambda>clk err k j. k \<le> j \<and> sint (elapsed (clk 0) (clk j)) > sint err", rotated])
    (fastforce split: if_splits)

text \<open>When the wait for a commit at \<open>ts\<close> is over, in microseconds of the time of day.\<close>

definition deadline :: "TrueTime \<Rightarrow> clock \<Rightarrow> 64 word \<Rightarrow> int" where
  "deadline T clk ts = usecs (clk 0) + uint (simError T) + max 0 (ts_usecs ts - ts_usecs (GetTime T (clk 1)))"

lemma ts_usecs_bounds: "ts_ok ts \<Longrightarrow> 0 \<le> ts_usecs ts \<and> ts_usecs ts < 2 ^ 60"
proof -
  assume ok: "ts_ok ts"
  have "uint ts < 2 ^ 64" using uint_bounded [of ts] by simp
  then have "uint ts div 2 ^ 32 \<le> (2 ^ 64 - 1) div 2 ^ 32" by (intro zdiv_mono1) simp_all
  then have "0 \<le> uint ts div 2 ^ 32" "uint ts div 2 ^ 32 < 2 ^ 32" by (simp_all add: pos_imp_zdiv_nonneg_iff)
  then show ?thesis using ok by (auto simp: ts_usecs_def ts_ok_def)
qed

lemma commit_wait_loop:
  assumes "skew_ok T" "tod_ok (clk 0)" "tod_ok (clk 1)" "\<And>k. 2 \<le> k \<Longrightarrow> tod_ok (clk k)" "ts_ok ts"
  obtains err where "commit_wait T clk ts = (case wait_loop clk err 2 of None \<Rightarrow> Inl Blocked
       | Some k \<Rightarrow> Inr (max ts (GetTime T (clk 1)), err, k))"
    "\<And>k. 2 \<le> k \<Longrightarrow> sint (elapsed (clk 0) (clk k)) > sint err \<longleftrightarrow> deadline T clk ts < usecs (clk k)"
proof -
  define now where "now = GetTime T (clk 1)"
  have now: "ts_ok now" using GetTime_usecs(2) [OF assms(3,1)] by (simp add: now_def)
  define err where "err = (if now > ts then simError T else simError T + wait_diff ts now)"
  have se: "sint (simError T) = uint (simError T)" "uint (simError T) < 2 ^ 62"
  proof -
    show b: "uint (simError T) < 2 ^ 62" using assms(1) by (simp add: skew_ok_def word_less_def)
    have "sint (word_of_int (uint (simError T)) :: 64 word) = uint (simError T)" using b by (intro sint_word_of_int_small) (simp_all add: order_trans [of _ 0])
    then show "sint (simError T) = uint (simError T)" by simp
  qed
  have "sint err = uint (simError T) + max 0 (ts_usecs ts - ts_usecs now)"
  proof (cases "now > ts")
    case True
    then have "ts_usecs ts \<le> ts_usecs now" using assms(5) by (intro ts_usecs_mono) auto
    then show ?thesis using True by (simp add: err_def se(1))
  next
    case False
    then have le: "ts_usecs now \<le> ts_usecs ts" using now by (intro ts_usecs_mono) auto
    have "err = word_of_int (uint (simError T) + (ts_usecs ts - ts_usecs now))" using False by (simp add: err_def wait_diff_usecs)
    also have "sint \<dots> = uint (simError T) + (ts_usecs ts - ts_usecs now)"
      using le se(2) ts_usecs_bounds [OF assms(5)] ts_usecs_bounds [OF now] by (intro sint_word_of_int_small) (simp_all add: order_trans [of _ 0])
    finally show ?thesis using le by simp
  qed
  then have "sint (elapsed (clk 0) (clk k)) > sint err \<longleftrightarrow> deadline T clk ts < usecs (clk k)" if "2 \<le> k" for k
    using elapsed_usecs [OF assms(2) assms(4) [OF that]] by (auto simp: deadline_def now_def)
  moreover have "commit_wait T clk ts = (case wait_loop clk err 2 of None \<Rightarrow> Inl Blocked | Some k \<Rightarrow> Inr (max ts now, err, k))"
    by (cases "now > ts") (auto simp: commit_wait_def GetTimeAndError_def Let_def err_def max_def now_def simp del: One_nat_def split: option.splits)
  ultimately show ?thesis using that unfolding now_def by blast
qed

lemma commit_wait_returns:
  assumes "skew_ok T" "\<forall>k. tod_ok (clk k)" "ts_ok ts"
    and "2 \<le> j" "deadline T clk ts < usecs (clk j)" "\<forall>i. 2 \<le> i \<and> i < j \<longrightarrow> usecs (clk i) \<le> deadline T clk ts"
  shows "\<exists>err. commit_wait T clk ts = Inr (max ts (GetTime T (clk 1)), err, j)"
proof -
  obtain err where w: "commit_wait T clk ts = (case wait_loop clk err 2 of None \<Rightarrow> Inl Blocked
       | Some k \<Rightarrow> Inr (max ts (GetTime T (clk 1)), err, k))"
    and c: "\<And>k. 2 \<le> k \<Longrightarrow> sint (elapsed (clk 0) (clk k)) > sint err \<longleftrightarrow> deadline T clk ts < usecs (clk k)"
    using commit_wait_loop [of T clk ts] assms(1-3) by blast
  have "wait_loop clk err 2 = Some j"
    using assms(4-6) by (intro wait_loop_Some) (auto simp: c linorder_not_less)
  then show ?thesis by (simp add: w)
qed

text \<open>
  C28: the commit wait ends: it returns at the first reading of the clock past the deadline, with the larger of the
  prepare timestamp and the client's time as the commit timestamp.
\<close>

theorem commit_wait_ends:
  assumes "skew_ok T" "\<forall>k. tod_ok (clk k)" "ts_ok ts"
    and "2 \<le> j" "deadline T clk ts < usecs (clk j)" "\<forall>i. 2 \<le> i \<and> i < j \<longrightarrow> usecs (clk i) \<le> deadline T clk ts"
  shows "\<exists>err. commit_wait T clk ts = Inr (max ts (GetTime T (clk 1)), err, j)"
  using commit_wait_returns [OF assms] .

text \<open>A clock with one reading a second, an error of one and a half seconds, and a prepare timestamp nine seconds ahead.\<close>

definition ex_TrueTime :: TrueTime where
  "ex_TrueTime = \<lparr> simError = 1500000, simSkew = 0 \<rparr>"

definition ex_ticks :: clock where
  "ex_ticks k = (of_nat (min k 100) + 10, 0)"

lemma ex_ticks_ok: "tod_ok (ex_ticks k)"
proof -
  have "unat (of_nat (min k 100) + 10 :: 64 word) = min k 100 + 10" by (simp add: unat_word_ariths unat_of_nat)
  then show ?thesis by (simp add: tod_ok_def ex_ticks_def word_less_nat_alt word_gt_0)
qed

lemma ex_ticks_usecs: "usecs (ex_ticks k) = (int (min k 100) + 10) * 1000000"
proof -
  have "unat (of_nat (min k 100) + 10 :: 64 word) = min k 100 + 10" by (simp add: unat_word_ariths unat_of_nat)
  then have "uint (of_nat (min k 100) + 10 :: 64 word) = int (min k 100) + 10" by (metis of_nat_add of_nat_numeral uint_nat)
  then show ?thesis by (simp add: usecs_def ex_ticks_def)
qed

lemma ex_wait_facts:
  "skew_ok ex_TrueTime" "\<forall>k. tod_ok (ex_ticks k)" "ts_ok 85899345920" "deadline ex_TrueTime ex_ticks 85899345920 < usecs (ex_ticks 11)"
  "\<forall>i. 2 \<le> i \<and> i < 11 \<longrightarrow> usecs (ex_ticks i) \<le> deadline ex_TrueTime ex_ticks 85899345920"
proof -
  have n: "GetTime ex_TrueTime (ex_ticks 1) = 47244640256" by (simp add: GetTime_def ex_TrueTime_def ex_ticks_def)
  have d: "deadline ex_TrueTime ex_ticks 85899345920 = 20500000"
    by (simp only: deadline_def n ex_ticks_usecs) (simp add: ts_usecs_def ex_TrueTime_def)
  show "skew_ok ex_TrueTime" "ts_ok 85899345920" "\<forall>k. tod_ok (ex_ticks k)" by (simp_all add: skew_ok_def ts_ok_def ex_TrueTime_def ex_ticks_ok)
  show "deadline ex_TrueTime ex_ticks 85899345920 < usecs (ex_ticks 11)" by (simp add: d ex_ticks_usecs)
  show "\<forall>i. 2 \<le> i \<and> i < 11 \<longrightarrow> usecs (ex_ticks i) \<le> deadline ex_TrueTime ex_ticks 85899345920" by (auto simp: d ex_ticks_usecs)
qed

theorem commit_wait_ends_witness: "\<exists>err. commit_wait ex_TrueTime ex_ticks 85899345920 = Inr (max 85899345920 (GetTime ex_TrueTime (ex_ticks 1)), err, 11)"
  by (rule commit_wait_ends [OF ex_wait_facts(1-3) _ ex_wait_facts(4,5)]) simp

lemma prepare_replies_ts:
  "prepare_replies ps status ts = Inr (status', ts') \<Longrightarrow> ts_ok ts \<Longrightarrow> (\<forall>p\<in>set ps. ts_ok (getTimestamp (pm_timestamp p))) \<Longrightarrow> ts_ok ts'"
proof (induction ps arbitrary: status ts)
  case (Cons p ps)
  then show ?case
    by (auto simp: rbind_Inr_iff Promise_GetReply_def Promise_GetTimestamp_def await_def split: if_splits)
qed simp

text \<open>
  C29: the commit timestamp is at least every prepare timestamp; and when the wait ends, the client's clock is past
  that timestamp by more than the clock error, less the time between the first two readings: the first is taken
  before the one that the timestamp is compared with.
\<close>

theorem commit_wait_safe:
  assumes "skew_ok T" "\<forall>k. tod_ok (clk k)" "\<forall>p\<in>set ps. ts_ok (getTimestamp (pm_timestamp p))"
    and "prepare_replies ps REPLY_OK 0 = Inr (status, ts0)" "commit_wait T clk ts0 = Inr (ts, err, k)"
  shows "(\<forall>p\<in>set ps. getTimestamp (pm_timestamp p) \<le> ts) \<and>
    ts_usecs ts + uint (simError T) - (usecs (clk 1) - usecs (clk 0)) < usecs (clk k) + sint (simSkew T)"
proof -
  let ?now = "GetTime T (clk 1)"
  have ok: "ts_ok ts0" using prepare_replies_ts [OF assms(4) _ assms(3)] by (simp add: ts_ok_def)
  obtain e where w: "commit_wait T clk ts0 = (case wait_loop clk e 2 of None \<Rightarrow> Inl Blocked | Some k \<Rightarrow> Inr (max ts0 ?now, e, k))"
    and c: "\<And>k. 2 \<le> k \<Longrightarrow> sint (elapsed (clk 0) (clk k)) > sint e \<longleftrightarrow> deadline T clk ts0 < usecs (clk k)"
    using commit_wait_loop [of T clk ts0] assms(1,2) ok by blast
  have r: "ts = max ts0 ?now" "wait_loop clk e 2 = Some k" using assms(5) w by (auto split: option.splits)
  have "deadline T clk ts0 < usecs (clk k)" using wait_loop_result [OF r(2)] c by blast
  moreover have "ts_usecs ts \<le> ts_usecs ?now + max 0 (ts_usecs ts0 - ts_usecs ?now)" by (simp add: r(1) max_def)
  moreover have "ts_usecs ?now = usecs (clk 1) + sint (simSkew T)" using GetTime_usecs(1) assms(1,2) by blast
  moreover have "\<forall>p\<in>set ps. getTimestamp (pm_timestamp p) \<le> ts"
    using prepare_replies_status [OF assms(4)] by (auto simp: r(1) le_max_iff_disj)
  ultimately show ?thesis by (simp add: deadline_def)
qed

theorem commit_wait_safe_witness:
  "\<exists>ts err k. commit_wait ex_TrueTime ex_ticks 85899345920 = Inr (ts, err, k) \<and> 85899345920 \<le> ts \<and>
     ts_usecs ts + 1500000 - 1000000 < usecs (ex_ticks k)"
proof -
  let ?ps = "[Promise_Reply_t REPLY_OK (Timestamp 85899345920 0) (Promise_timeout 10000)]"
  obtain ts err k where w: "commit_wait ex_TrueTime ex_ticks 85899345920 = Inr (ts, err, k)"
    using commit_wait_returns [OF ex_wait_facts(1-3) _ ex_wait_facts(4,5)] by auto
  have "prepare_replies ?ps REPLY_OK 0 = Inr (REPLY_OK, 85899345920)"
    by (simp add: Promise_Reply_t_def Promise_GetReply_def Promise_GetTimestamp_def await_def)
  moreover have "\<forall>p\<in>set ?ps. ts_ok (getTimestamp (pm_timestamp p))" using ex_wait_facts(3) by (simp add: Promise_Reply_t_def)
  ultimately have "(\<forall>p\<in>set ?ps. getTimestamp (pm_timestamp p) \<le> ts) \<and>
      ts_usecs ts + uint (simError ex_TrueTime) - (usecs (ex_ticks 1) - usecs (ex_ticks 0)) < usecs (ex_ticks k) + sint (simSkew ex_TrueTime)"
    by (intro commit_wait_safe [OF ex_wait_facts(1,2) _ _ w]) simp_all
  then show ?thesis using w by (simp add: Promise_Reply_t_def ex_ticks_usecs ex_TrueTime_def)
qed

text \<open>A client that is held up between the two readings stops waiting before the clock has passed the timestamp.\<close>

lemma commit_wait_early:
  "\<exists>T clk ts err k. commit_wait T clk 0 = Inr (ts, err, k) \<and> usecs (clk k) + sint (simSkew T) \<le> ts_usecs ts \<and> 0 < uint (simError T)"
proof -
  let ?T = "\<lparr> simError = 1000, simSkew = 0 \<rparr>" and ?clk = "\<lambda>k :: nat. (if k = 0 then 10 else 20 :: 64 word, 0 :: 64 word)"
  have n: "GetTime ?T (20, 0) = 85899345920" by (simp add: GetTime_def)
  have "wait_loop ?clk 1000 2 = Some 2" by (rule wait_loop_Some) (simp_all add: elapsed_def)
  then have "commit_wait ?T ?clk 0 = Inr (85899345920, 1000, 2)" by (simp add: commit_wait_def GetTimeAndError_def n)
  moreover have "usecs (?clk 2) + sint (simSkew ?T) \<le> ts_usecs 85899345920" "0 < uint (simError ?T)" by (simp_all add: usecs_def ts_usecs_def)
  ultimately show ?thesis by blast
qed

section \<open>Timestamps of reads\<close>

text \<open>
  The timestamps of a batch are paired with its keys in sorted order, not in the order of the request: of the
  keys \<open>b\<close> and \<open>a\<close>, read at 1 and 2, the read set has \<open>a\<close> at 1.
\<close>

lemma read_times_swapped:
  "note_reads (Promise_Reply_values REPLY_OK [Timestamp_of 1, Timestamp_of 2] (om_insert [(''b'', ''x''), (''a'', ''y'')] []) [] [] (Promise_timeout 0)) Transaction_new
     = Inr \<lparr> readSet = [(''a'', Timestamp_of 1), (''b'', Timestamp_of 2)], writeSet = [] \<rparr>"
  by (simp add: note_reads_def Promise_GetReply_def getValues_def GetTimestamp_at_def await_def Promise_Reply_values_def om_insert_def addReadSet_def
      Transaction_new_def vec_at_def)

end
