(* ===== verification/Patricia.thy ===== *)
theory Patricia
  imports MPT
begin

text \<open>
  Patricia tries over nibbles, as LedgerDB's trie stands for them: lookup, insertion with the branch made where two keys part,
  removal, the well-formedness that both keep, and that they act on the lookup function as map updates.
\<close>

section \<open>Tries\<close>

datatype mpt = MNil | MVal string | MShort string mpt | MFull "mpt list"

abbreviation T :: char where "T \<equiv> char_of (16 :: nat)"

abbreviation nib :: "char \<Rightarrow> nat" where "nib c \<equiv> of_char c"

text \<open>A path: nibbles, then the terminator.\<close>

fun path_ok :: "string \<Rightarrow> bool" where
  "path_ok [] = False"
| "path_ok (c # cs) = (if cs = [] then c = T else nib c < 16 \<and> path_ok cs)"

definition nibbles :: "string \<Rightarrow> bool" where
  "nibbles ns \<longleftrightarrow> (\<forall>c\<in>set ns. nib c < 16)"

fun wf :: "mpt \<Rightarrow> bool" where
  "wf MNil = True"
| "wf (MVal v) = (length v < 2 ^ 30)"
| "wf (MShort k t) = (length k < 2 ^ 30 \<and> wf t \<and> (case t of MVal _ \<Rightarrow> path_ok k | MFull _ \<Rightarrow> k \<noteq> [] \<and> nibbles k | _ \<Rightarrow> False))"
| "wf (MFull ts) = (length ts = 17 \<and> (\<forall>t\<in>set ts. wf t) \<and> (\<forall>i<16. \<forall>v. ts ! i \<noteq> MVal v) \<and> (case ts ! 16 of MNil \<Rightarrow> True | MVal _ \<Rightarrow> True | _ \<Rightarrow> False))"

function mget :: "mpt \<Rightarrow> string \<Rightarrow> string option" where
  "mget MNil key = None"
| "mget (MVal v) key = (if key = [] then Some v else None)"
| "mget (MShort k t) key = (if take (length k) key = k then mget t (drop (length k) key) else None)"
| "mget (MFull ts) [] = None"
| "mget (MFull ts) (c # key) = mget (ts ! nib c) key"
  by pat_completeness auto
termination by (relation "measures [\<lambda>(t, key). length key, \<lambda>(t, key). size t]") auto

definition short :: "string \<Rightarrow> mpt \<Rightarrow> mpt" where
  "short k t = (if k = [] then t else MShort k t)"

definition branch :: "string \<Rightarrow> mpt \<Rightarrow> string \<Rightarrow> mpt \<Rightarrow> mpt" where
  "branch ok t key s = MFull ((replicate 17 MNil)[nib (hd ok) := short (tl ok) t, nib (hd key) := short (tl key) s])"

function mins :: "mpt \<Rightarrow> string \<Rightarrow> mpt \<Rightarrow> mpt" where
  "mins t [] s = s"
| "mins MNil (c # key) s = MShort (c # key) s"
| "mins (MVal v) (c # key) s = MVal v"
| "mins (MShort k t) (c # key) s = (let n = PrefixLen (c # key) k in
     if n = length k then MShort k (mins t (drop n (c # key)) s)
     else short (take n (c # key)) (branch (drop n k) t (drop n (c # key)) s))"
| "mins (MFull ts) (c # key) s = MFull (ts[nib c := mins (ts ! nib c) key s])"
  by pat_completeness auto
termination by (relation "measures [\<lambda>(t, key, s). length key, \<lambda>(t, key, s). size t]") auto

function mrem :: "mpt \<Rightarrow> string \<Rightarrow> mpt" where
  "mrem MNil key = MNil"
| "mrem (MVal v) key = MNil"
| "mrem (MShort k t) key = (let n = PrefixLen key k in
     if n < length k then MShort k t else if n = length key then MNil else MShort k (mrem t (drop n key)))"
| "mrem (MFull ts) [] = MFull ts"
| "mrem (MFull ts) (c # key) = MFull (ts[nib c := mrem (ts ! nib c) key])"
  by pat_completeness auto
termination by (relation "measures [\<lambda>(t, key). length key, \<lambda>(t, key). size t]") auto

section \<open>Paths\<close>

lemma T_nib [simp]: "nib T = 16"
  by simp

lemma path_index: "path_ok (c # cs) \<Longrightarrow> nib c < 17 \<and> char_index c = nib c"
  by (auto simp: char_index_def split: if_splits)

lemma path_index_16: "path_ok (c # cs) \<Longrightarrow> nib c = 16 \<longleftrightarrow> cs = []"
  by (auto split: if_splits)

lemma path_tl: "path_ok (c # cs) \<Longrightarrow> nib c < 16 \<and> path_ok cs \<or> c = T \<and> cs = []"
  by (auto split: if_splits)

lemma path_append: "b \<noteq> [] \<Longrightarrow> path_ok (a @ b) \<longleftrightarrow> nibbles a \<and> path_ok b"
  by (induction a) (auto simp: nibbles_def)

lemma path_prefix: "path_ok a \<Longrightarrow> path_ok (a @ b) \<Longrightarrow> b = []"
proof (induction a)
  case (Cons c a)
  then show ?case by (cases "a = []") (auto split: if_splits)
qed simp

lemma path_not_nibbles: "path_ok a \<Longrightarrow> \<not> nibbles a"
  by (induction a) (auto simp: nibbles_def split: if_splits)

lemma PrefixLen_split: "\<exists>n. PrefixLen a b = n \<and> n \<le> length a \<and> n \<le> length b \<and> take n a = take n b \<and> (n < length a \<and> n < length b \<longrightarrow> a ! n \<noteq> b ! n)"
  by (induction a b rule: PrefixLen.induct) auto

lemma PrefixLen_full: "PrefixLen key k = length k \<longleftrightarrow> take (length k) key = k"
  by (induction key k rule: PrefixLen.induct) auto

text \<open>Where two keys part.\<close>

lemma PrefixLen_part:
  assumes "PrefixLen key k \<noteq> length k" "path_ok key" "path_ok k \<or> nibbles k"
  obtains p a as b bs where "key = p @ a # as" "k = p @ b # bs" "a \<noteq> b" "PrefixLen key k = length p" "nibbles p"
proof -
  let ?n = "PrefixLen key k"
  have n: "?n \<le> length key" "?n < length k" "take ?n key = take ?n k" "?n < length key \<Longrightarrow> key ! ?n \<noteq> k ! ?n"
    using PrefixLen_split [of key k] assms(1) by auto
  have "?n \<noteq> length key"
  proof
    assume "?n = length key"
    then have "k = key @ drop ?n k" "drop ?n k \<noteq> []" using n append_take_drop_id [of ?n k] by auto
    then have "path_ok (key @ drop ?n k) \<or> nibbles (key @ drop ?n k)" using assms(3) by metis
    then show False
    proof
      assume "nibbles (key @ drop ?n k)"
      then show False using path_not_nibbles [OF assms(2)] by (simp add: nibbles_def)
    qed (use path_prefix [OF assms(2)] \<open>drop ?n k \<noteq> []\<close> in blast)
  qed
  then have l: "?n < length key" using n(1) by simp
  have "key = take ?n key @ key ! ?n # drop (Suc ?n) key" "k = take ?n key @ k ! ?n # drop (Suc ?n) k"
    using l n(2) id_take_nth_drop [of ?n key] id_take_nth_drop [of ?n k] n(3) by simp_all
  moreover from this(1) have "nibbles (take ?n key)" using assms(2) path_append [of "key ! ?n # drop (Suc ?n) key" "take ?n key"] by simp
  ultimately show ?thesis using that [of "take ?n key"] n l by simp
qed

lemma PrefixLen_append [simp]: "PrefixLen (p @ a) (p @ b) = length p + PrefixLen a b"
  by (induction p) auto

lemma mins_Short: "key \<noteq> [] \<Longrightarrow> mins (MShort k t) key s = (let n = PrefixLen key k in
     if n = length k then MShort k (mins t (drop n key) s) else short (take n key) (branch (drop n k) t (drop n key) s))"
  by (cases key) (auto simp: Let_def)

lemma PrefixLen_self [simp]: "PrefixLen (k @ r) k = length k"
  by (simp add: PrefixLen_full)

lemma mins_below: "k @ r \<noteq> [] \<Longrightarrow> mins (MShort k t) (k @ r) s = MShort k (mins t r s)"
  unfolding mins_Short Let_def by simp

lemma mins_parted: "a \<noteq> b \<Longrightarrow> mins (MShort (p @ b # bs) t) (p @ a # as) s = short p (branch (b # bs) t (a # as) s)"
  by (subst mins_Short) (simp_all add: Let_def)

section \<open>The trie as a map\<close>

lemma mget_short [simp]: "mget (short k t) key = (if take (length k) key = k then mget t (drop (length k) key) else None)"
  by (simp add: short_def)

lemma mget_branch:
  assumes "nib a < 17" "nib b < 17" "nib c < 17" "a \<noteq> b"
  shows "mget (branch (b # bs) t (a # as) s) (c # key) = (if c = a then mget (short as s) key else if c = b then mget (short bs t) key else None)"
  using assms by (auto simp: branch_def nth_list_update)

lemma path_hd: "path_ok (p @ c # cs) \<Longrightarrow> nib c < 17"
  using path_append [of "c # cs" p] path_index by blast

lemma take_append_eq: "take (length p) key = p \<longleftrightarrow> (\<exists>r. key = p @ r)"
  by (metis append_eq_conv_conj append_take_drop_id)

lemma path_no_nib: "path_ok key \<Longrightarrow> nibbles k \<Longrightarrow> take (length k) key = k \<Longrightarrow> \<exists>c cs. key = k @ c # cs \<and> path_ok (c # cs)"
proof -
  assume a: "path_ok key" "nibbles k" "take (length k) key = k"
  then obtain r where r: "key = k @ r" by (auto simp: take_append_eq)
  then have "r \<noteq> []" using a path_not_nibbles by auto
  then show ?thesis using r a(1) path_append [of r k] by (cases r) auto
qed

lemma mget_parted:
  assumes "wf (MShort k t)" "path_ok key" "path_ok key'" "PrefixLen key k \<noteq> length k"
  shows "mget (mins (MShort k t) key (MVal v)) key' = (if key' = key then Some v else mget (MShort k t) key')"
proof -
  have k: "path_ok k \<or> nibbles k" using assms(1) by (auto split: mpt.splits)
  obtain p a as b bs where p: "key = p @ a # as" "k = p @ b # bs" "a \<noteq> b" "PrefixLen key k = length p" "nibbles p"
    using PrefixLen_part [OF assms(4,2) k] by blast
  have i: "nib a < 17" "nib b < 17" using path_hd assms(2) p(1,2) k by (auto simp: nibbles_def)
  have m: "mins (MShort k t) key (MVal v) = short p (branch (b # bs) t (a # as) (MVal v))"
    unfolding p(1,2) by (rule mins_parted [OF p(3)])
  show ?thesis
  proof (cases "take (length p) key' = p")
    case True
    then obtain c cs where c: "key' = p @ c # cs" "path_ok (c # cs)" using path_no_nib [OF assms(3) p(5)] by blast
    have "nib c < 17" using path_index c(2) by blast
    moreover have "as = take (length as) cs \<Longrightarrow> c = a \<Longrightarrow> cs = as"
      using path_prefix [of "p @ a # as" "drop (length as) cs"] assms(2,3) p(1) c(1) by (metis append_Cons append_assoc append_self_conv append_take_drop_id)
    ultimately show ?thesis using i p(1-3) c mget_branch [OF i(1,2) _ p(3)] unfolding m by auto
  next
    case False
    then have "take (length k) key' \<noteq> k" "key' \<noteq> key" using p(1,2) by (auto simp: take_append_eq simp del: length_append)
    then show ?thesis unfolding m using False by simp
  qed
qed

lemma mget_mins:
  "wf t \<Longrightarrow> path_ok key \<Longrightarrow> path_ok key' \<Longrightarrow> (\<forall>v. t \<noteq> MVal v) \<Longrightarrow> mget (mins t key (MVal v)) key' = (if key' = key then Some v else mget t key')"
proof (induction t key "MVal v" arbitrary: key' rule: mins.induct)
  case (2 c key)
  then have "key' = (c # key) @ r \<Longrightarrow> r = []" for r using path_prefix by blast
  then show ?case by (auto simp: take_append_eq simp del: append_Cons)
next
  case (4 k t c key)
  show ?case
  proof (cases "PrefixLen (c # key) k = length k")
    case True
    then obtain r where r: "c # key = k @ r" by (auto simp: PrefixLen_full take_append_eq)
    have m: "mins (MShort k t) (c # key) (MVal v) = MShort k (mins t r (MVal v))" unfolding r by (rule mins_below) (use r in auto)
    show ?thesis
    proof (cases t)
      case (MVal w)
      then have "r = []" using 4(2,3) path_prefix [of k r] r by simp
      have "path_ok k" using 4(2) MVal by simp
      then have e: "take (length k) key' = k \<longleftrightarrow> key' = k" using 4(4) path_prefix [of k] by (auto simp: take_append_eq)
      show ?thesis unfolding m using e r MVal \<open>r = []\<close> by auto
    next
      case (MFull ts)
      then have k: "nibbles k" using 4(2) by simp
      have "r \<noteq> []" using r 4(3) k path_not_nibbles by (metis append_Nil2)
      then have r': "path_ok r" using r 4(3) path_append by metis
      show ?thesis
      proof (cases "take (length k) key' = k")
        case True
        then obtain d ds where d: "key' = k @ d # ds" "path_ok (d # ds)" using path_no_nib [OF 4(4) k] by blast
        have "mget (mins t r (MVal v)) (d # ds) = (if d # ds = r then Some v else mget t (d # ds))"
          using 4(1) [of "length k" "d # ds"] \<open>PrefixLen (c # key) k = length k\<close> r r' d(2) 4(2) MFull by simp
        then show ?thesis unfolding m using d(1) r by auto
      next
        case False
        then show ?thesis unfolding m using r by (auto simp: take_append_eq)
      qed
    qed (use 4(2) in auto)
  next
    case False
    then show ?thesis using mget_parted [OF 4(2,3,4)] by blast
  qed
next
  case (5 ts c key)
  obtain d ds where d: "key' = d # ds" using 5(4) by (cases key') auto
  have i: "nib c < 17" "nib d < 17" using path_index 5(3,4) d by blast+
  have len: "length ts = 17" using 5(2) by simp
  consider "nib c < 16" "path_ok key" | "c = T" "key = []" using path_tl 5(3) by blast
  then show ?case
  proof cases
    case 1
    then have w: "wf (ts ! nib c)" "\<forall>v. ts ! nib c \<noteq> MVal v" using 5(2) by auto
    show ?thesis
    proof (cases "c = d")
      case True
      then have "path_ok ds" using 5(4) d 1(1) by (auto split: if_splits)
      then show ?thesis using 5(1) [OF w(1) 1(2) _ w(2)] True d i len by simp
    next
      case False
      then show ?thesis using i len d by (simp add: nth_list_update)
    qed
  next
    case 2
    then show ?thesis using d i len 5(4) path_index_16 [of d ds] by (auto simp: nth_list_update split: if_splits)
  qed
qed auto

abbreviation is_val :: "mpt \<Rightarrow> bool" where "is_val t \<equiv> (\<exists>v. t = MVal v)"

abbreviation is_full :: "mpt \<Rightarrow> bool" where "is_full t \<equiv> (\<exists>ts. t = MFull ts)"

lemma wf_Short: "wf (MShort k t) \<longleftrightarrow> length k < 2 ^ 30 \<and> wf t \<and> (is_val t \<and> path_ok k \<or> is_full t \<and> k \<noteq> [] \<and> nibbles k)"
  by (cases t) auto

declare wf.simps(3) [simp del]

lemma wf_Full: "wf (MFull ts) \<longleftrightarrow> length ts = 17 \<and> (\<forall>i<17. wf (ts ! i)) \<and> (\<forall>i<16. \<not> is_val (ts ! i)) \<and> (ts ! 16 = MNil \<or> is_val (ts ! 16))"
  by (auto simp: all_set_conv_all_nth split: mpt.splits)

declare wf.simps(4) [simp del]

lemma wf_update: "wf (MFull ts) \<Longrightarrow> i < 17 \<Longrightarrow> wf t \<Longrightarrow> (i < 16 \<Longrightarrow> \<not> is_val t) \<Longrightarrow> (i = 16 \<Longrightarrow> t = MNil \<or> is_val t) \<Longrightarrow> wf (MFull (ts[i := t]))"
  unfolding wf_Full by (auto simp: nth_list_update)

lemma wf_short: "wf t \<Longrightarrow> length k < 2 ^ 30 \<Longrightarrow> is_val t \<and> path_ok k \<or> is_full t \<and> nibbles k \<Longrightarrow> wf (short k t) \<and> \<not> is_val (short k t)"
  by (cases t) (auto simp: short_def wf_Short)

lemma wf_branch:
  assumes "wf t" "wf s" "is_val s" "path_ok (a # as)" "a \<noteq> b" "length (b # bs) < 2 ^ 30" "length (a # as) < 2 ^ 30"
    and "is_val t \<and> path_ok (b # bs) \<or> is_full t \<and> nibbles (b # bs)"
  shows "wf (branch (b # bs) t (a # as) s)"
proof -
  have nil: "wf (MFull (replicate 17 MNil))" by (simp add: wf_Full nth_replicate)
  have b: "nib b < 17 \<and> wf (short bs t) \<and> (nib b < 16 \<longrightarrow> \<not> is_val (short bs t)) \<and> (nib b = 16 \<longrightarrow> is_val (short bs t))"
  proof (cases "is_val t")
    case True
    then show ?thesis using assms(1,6,8) wf_short [of t bs] path_tl [of b bs] by (auto simp: short_def)
  next
    case False
    then show ?thesis using assms(1,6,8) wf_short [of t bs] by (auto simp: nibbles_def)
  qed
  have a: "nib a < 17 \<and> wf (short as s) \<and> (nib a < 16 \<longrightarrow> \<not> is_val (short as s)) \<and> (nib a = 16 \<longrightarrow> is_val (short as s))"
    using assms(2,3,4,7) wf_short [of s as] path_tl [of a as] by (auto simp: short_def)
  show ?thesis unfolding branch_def list.sel using a b nil by (intro wf_update) auto
qed

lemma wf_mins:
  "wf t \<Longrightarrow> path_ok key \<Longrightarrow> length key < 2 ^ 30 \<Longrightarrow> length v < 2 ^ 30 \<Longrightarrow> \<not> is_val t \<Longrightarrow>
    wf (mins t key (MVal v)) \<and> \<not> is_val (mins t key (MVal v)) \<and> mins t key (MVal v) \<noteq> MNil \<and> (is_full t \<longrightarrow> is_full (mins t key (MVal v)))"
proof (induction t key "MVal v" rule: mins.induct)
  case (4 k t c key)
  show ?case
  proof (cases "PrefixLen (c # key) k = length k")
    case True
    then obtain r where r: "c # key = k @ r" by (auto simp: PrefixLen_full take_append_eq)
    have m: "mins (MShort k t) (c # key) (MVal v) = MShort k (mins t r (MVal v))" unfolding r by (rule mins_below) (use r in auto)
    show ?thesis
    proof (cases t)
      case (MVal w)
      then have "r = []" using 4(2,3) path_prefix [of k r] r by (simp add: wf_Short)
      then show ?thesis using 4(2,5) MVal unfolding m by (simp add: wf_Short)
    next
      case (MFull ts)
      then have k: "nibbles k" using 4(2) by (simp add: wf_Short)
      have "r \<noteq> []" using r 4(3) k path_not_nibbles by (metis append_Nil2)
      then have r': "path_ok r" using r 4(3) path_append by metis
      have "wf (mins t r (MVal v)) \<and> is_full (mins t r (MVal v))"
        using 4(1) [of "length k"] True r r' 4(2,4,5) MFull by (simp add: wf_Short)
      then show ?thesis unfolding m using 4(2) MFull by (auto simp: wf_Short)
    qed (use 4(2) in \<open>auto simp: wf_Short\<close>)
  next
    case False
    have w: "length k < 2 ^ 30" "wf t" "is_val t \<and> path_ok k \<or> is_full t \<and> nibbles k" using 4(2) unfolding wf_Short by blast+
    then have k: "path_ok k \<or> nibbles k" by blast
    obtain p a as b bs where p: "c # key = p @ a # as" "k = p @ b # bs" "a \<noteq> b" "PrefixLen (c # key) k = length p" "nibbles p"
      by (rule PrefixLen_part [OF False 4(3) k])
    have m: "mins (MShort k t) (c # key) (MVal v) = short p (branch (b # bs) t (a # as) (MVal v))"
      unfolding p(1,2) by (rule mins_parted [OF p(3)])
    have pa: "path_ok (a # as)" using 4(3) path_append [of "a # as" p] unfolding p(1) by blast
    have pb: "is_val t \<and> path_ok (b # bs) \<or> is_full t \<and> nibbles (b # bs)"
      using w(3) path_append [of "b # bs" p] unfolding p(2) nibbles_def by auto
    have l: "length (b # bs) < 2 ^ 30" "length (a # as) < 2 ^ 30" "length p < 2 ^ 30" using w(1) 4(4) unfolding p(1,2) by simp_all
    have "wf (branch (b # bs) t (a # as) (MVal v))" using 4(5) by (intro wf_branch [OF w(2) _ _ pa p(3) l(1,2) pb]) auto
    then show ?thesis unfolding m using p(5) l(3) wf_short [of "branch (b # bs) t (a # as) (MVal v)" p]
      by (auto simp: short_def branch_def)
  qed
next
  case (5 ts c key)
  have i: "nib c < 17" using path_index 5(3) by blast
  consider "nib c < 16" "path_ok key" | "c = T" "key = []" using path_tl 5(3) by blast
  then show ?case
  proof cases
    case 1
    then have "wf (mins (ts ! nib c) key (MVal v)) \<and> \<not> is_val (mins (ts ! nib c) key (MVal v))"
      using 5(1,2,4,5) by (auto simp: wf_Full)
    then show ?thesis using wf_update [OF 5(2) i] 1(1) by auto
  next
    case 2
    then show ?thesis using wf_update [OF 5(2) i] 5(5) by auto
  qed
qed (auto simp: wf_Short)

text \<open>Removal.  A full node keeps its place, so only the entry at the key goes.\<close>

lemma wf_mrem: "wf t \<Longrightarrow> path_ok key \<or> key = [] \<and> (t = MNil \<or> is_val t) \<Longrightarrow>
    wf (mrem t key) \<and> \<not> is_val (mrem t key) \<and> (is_full t \<longrightarrow> is_full (mrem t key)) \<and> (key = [] \<longrightarrow> mrem t key = MNil)"
proof (induction t key rule: mrem.induct)
  case (3 k t key)
  have w: "length k < 2 ^ 30" "wf t" "is_val t \<and> path_ok k \<or> is_full t \<and> k \<noteq> [] \<and> nibbles k" using 3(2) unfolding wf_Short by blast+
  have key: "path_ok key" using 3(3) by auto
  show ?case
  proof (cases "PrefixLen key k < length k \<or> PrefixLen key k = length key")
    case False
    then have n: "PrefixLen key k = length k" using PrefixLen_split [of key k] by auto
    then obtain r where r: "key = k @ r" "r \<noteq> []" using False by (auto simp: PrefixLen_full take_append_eq)
    have k: "is_full t" "nibbles k" using w(3) key path_prefix [of k r] r by auto
    have "path_ok r" using key r path_append [of r k] by simp
    then have "wf (mrem t r) \<and> is_full (mrem t r)" using 3(1) [OF refl] False n r w(2) k by auto
    then show ?thesis using n r w k False by (auto simp: wf_Short)
  qed (use 3(2) key in \<open>auto simp: Let_def\<close>)
next
  case (5 ts c key)
  have i: "nib c < 17" using path_index 5(3) by blast
  have "wf (mrem (ts ! nib c) key) \<and> \<not> is_val (mrem (ts ! nib c) key) \<and> (key = [] \<longrightarrow> mrem (ts ! nib c) key = MNil)"
  proof -
    have w: "wf (ts ! nib c)" "nib c = 16 \<Longrightarrow> ts ! nib c = MNil \<or> is_val (ts ! nib c)" using 5(2) i by (auto simp: wf_Full)
    have "path_ok key \<or> nib c = 16 \<and> key = []" using 5(3) path_tl [of c key] by force
    then show ?thesis using 5(1) [OF w(1)] w(2) by blast
  qed
  then show ?case using wf_update [OF 5(2) i] path_index_16 [of c key] 5(3) by auto
qed auto

lemma mget_mrem: "wf t \<Longrightarrow> path_ok key \<and> path_ok key' \<and> \<not> is_val t \<or> key = [] \<and> key' = [] \<and> (t = MNil \<or> is_val t) \<Longrightarrow>
    mget (mrem t key) key' = (if key' = key then None else mget t key')"
proof (induction t key arbitrary: key' rule: mrem.induct)
  case (3 k t key)
  note IH = 3(1)
  have w: "wf t" "is_val t \<and> path_ok k \<or> is_full t \<and> k \<noteq> [] \<and> nibbles k" using 3(2) unfolding wf_Short by blast+
  have key: "path_ok key" "path_ok key'" using 3(3) by auto
  have full: "take (length k) x = k \<Longrightarrow> is_val t \<Longrightarrow> path_ok x \<Longrightarrow> x = k" for x
    using w(2) path_prefix [of k] by (auto simp: take_append_eq)
  consider "PrefixLen key k < length k" | "PrefixLen key k = length k" "key = k" | r where "PrefixLen key k = length k" "key = k @ r" "r \<noteq> []"
  proof (cases "PrefixLen key k = length k")
    case True
    then obtain r where "key = k @ r" by (auto simp: PrefixLen_full take_append_eq)
    then show ?thesis using that True by (cases r) auto
  next
    case False
    then show ?thesis using that(1) PrefixLen_split [of key k] by linarith
  qed
  then show ?case
  proof cases
    case 1
    then have "take (length k) key \<noteq> k" using PrefixLen_full by (metis order_less_irrefl)
    then show ?thesis using 1 by (auto simp: take_append_eq)
  next
    case 2
    then have "is_val t" using w(2) key(1) path_not_nibbles by auto
    then show ?thesis using 2 full [of key'] key(2) by auto
  next
    case (3 r)
    then have k: "is_full t" "nibbles k" using w(2) key(1) path_prefix [of k r] by auto
    have r: "path_ok r" using key(1) 3 path_append [of r k] by simp
    have m: "mrem (MShort k t) key = MShort k (mrem t r)" using 3 by simp
    show ?thesis
    proof (cases "take (length k) key' = k")
      case True
      then obtain d ds where d: "key' = k @ d # ds" "path_ok (d # ds)" using path_no_nib [OF key(2) k(2)] by blast
      have "mget (mrem t r) (d # ds) = (if d # ds = r then None else mget t (d # ds))"
        using IH [OF refl, of "d # ds"] 3 r d(2) w(1) k(1) by auto
      then show ?thesis unfolding m using d(1) 3 by auto
    next
      case False
      then show ?thesis unfolding m using 3 by (auto simp: take_append_eq)
    qed
  qed
next
  case (5 ts c key)
  obtain d ds where d: "key' = d # ds" using 5(3) by (cases key') auto
  have i: "nib c < 17" "nib d < 17" using path_index 5(3) d by blast+
  have len: "length ts = 17" using 5(2) by (simp add: wf_Full)
  have "mget (mrem (ts ! nib c) key) ds = (if ds = key then None else mget (ts ! nib c) ds)" if "c = d"
  proof (rule 5(1))
    show "wf (ts ! nib c)" using 5(2) i(1) by (simp add: wf_Full)
    have "nib c < 16 \<Longrightarrow> \<not> is_val (ts ! nib c)" "nib c = 16 \<Longrightarrow> ts ! nib c = MNil \<or> is_val (ts ! nib c)" using 5(2) by (auto simp: wf_Full)
    moreover have "nib c < 16 \<and> path_ok key \<or> nib c = 16 \<and> key = []" "nib c < 16 \<and> path_ok ds \<or> nib c = 16 \<and> ds = []"
      using 5(3) d that path_tl [of c key] path_tl [of d ds] by force+
    ultimately show "path_ok key \<and> path_ok ds \<and> \<not> is_val (ts ! nib c) \<or> key = [] \<and> ds = [] \<and> (ts ! nib c = MNil \<or> is_val (ts ! nib c))"
      by auto
  qed
  then show ?case using d i len by (auto simp: nth_list_update)
qed auto

end
