(* ===== verification/MPT_Nodes.thy ===== *)
theory MPT_Nodes
  imports Patricia
begin

text \<open>
  The chunks of the nodes of a trie.  \<open>enc\<close> gives the bytes of a node, in which children are represented by the hashes of their
  bytes; the readers and writers of \<open>mpt_node.cc\<close> are shown to invert and to compute it.
\<close>

section \<open>Chunks of a trie\<close>

fun elems :: "mpt \<Rightarrow> nat" where
  "elems MNil = 0"
| "elems (MVal v) = 1"
| "elems (MShort k t) = elems t"
| "elems (MFull ts) = sum_list (map elems ts)"

definition hash_link :: "'s ext \<Rightarrow> string \<Rightarrow> string" where
  "hash_link E b = head (Chunk_new kMPTHash (hval (ComputeFrom E b)))"

fun enc :: "'s ext \<Rightarrow> mpt \<Rightarrow> string" where
  "enc E MNil = head MPTNil_Encode"
| "enc E (MVal v) = head (MPTValue_Encode v)"
| "enc E (MShort k t) = head (Chunk_new kMPTShort (le_bytes 8 (elems t) @ le_bytes 4 (length k) @ k @
     (if is_val t then enc E t else hash_link E (enc E t))))"
| "enc E (MFull ts) = (let es = map (enc E) ts in head (Chunk_new kMPTFull
     (le_bytes 8 (sum_list (map elems ts)) @ concat (map (hash_link E) (take 16 es)) @ es ! 16)))"

abbreviation dig :: "'s ext \<Rightarrow> mpt \<Rightarrow> string" where "dig E t \<equiv> hval (ComputeFrom E (enc E t))"

text \<open>A chunk at the start of whose buffer the bytes of \<open>t\<close> stand, and a hash chunk that links to \<open>t\<close>.\<close>

definition rep :: "'s ext \<Rightarrow> Chunk \<Rightarrow> mpt \<Rightarrow> bool" where
  "rep E c t \<longleftrightarrow> (\<exists>r. c = Some (enc E t @ r))"

definition link :: "'s ext \<Rightarrow> Chunk \<Rightarrow> mpt \<Rightarrow> bool" where
  "link E c t \<longleftrightarrow> (\<exists>r. c = Some (hash_link E (enc E t) @ r))"

fun mtype :: "mpt \<Rightarrow> ChunkType" where
  "mtype MNil = kMPTNil"
| "mtype (MVal v) = kMPTValue"
| "mtype (MShort k t) = kMPTShort"
| "mtype (MFull ts) = kMPTFull"

lemma head_new: "head (Chunk_new ty data) = le_bytes 4 (5 + length data) @ char_of (ctype_code ty) # data"
  by (simp add: Chunk_new_def head_def kMetaLength_def)

lemma head_Some [simp]: "head (Some b) = b"
  by (simp add: head_def)

text \<open>Reading a chunk that starts with given data, whatever follows it.\<close>

lemma prefix_chunk:
  assumes "c = Some (head (Chunk_new ty data) @ r)" "length data + 5 < 2 ^ 32"
  shows "node_type c = Inr ty" "chunk_type c = ty" "numBytes c = 5 + length data" "chunk_bytes c = head (Chunk_new ty data)" "chunk_data c = data @ r"
proof -
  have "head c = le_bytes 4 (5 + length data) @ char_of (ctype_code ty) # data @ r" using assms(1) by (simp add: head_new)
  moreover from this have t: "chunk_type c = ty" using ctype_code_bound [of ty] by (simp add: chunk_type_def)
  ultimately show "node_type c = Inr ty" "chunk_type c = ty" by (simp_all add: node_type_def kMetaLength_def)
  show nb: "numBytes c = 5 + length data" using \<open>head c = _\<close> assms(2) by (simp add: numBytes_def)
  show "chunk_bytes c = head (Chunk_new ty data)" using \<open>head c = _\<close> nb by (simp add: chunk_bytes_def head_new)
  show "chunk_data c = data @ r" using \<open>head c = _\<close> by (simp add: chunk_data_def kMetaLength_def)
qed

fun body :: "'s ext \<Rightarrow> mpt \<Rightarrow> string" where
  "body E MNil = []"
| "body E (MVal v) = v"
| "body E (MShort k t) = le_bytes 8 (elems t) @ le_bytes 4 (length k) @ k @ (if is_val t then enc E t else hash_link E (enc E t))"
| "body E (MFull ts) = le_bytes 8 (sum_list (map elems ts)) @ concat (map (\<lambda>t. hash_link E (enc E t)) (take 16 ts)) @ map (enc E) ts ! 16"

lemma enc_body: "enc E t = head (Chunk_new (mtype t) (body E t))"
  by (cases t) (simp_all add: MPTNil_Encode_def MPTValue_Encode_def Let_def take_map comp_def)

declare enc.simps [simp del]

lemma length_hash_link [simp]: "ext_ok E \<Longrightarrow> length (hash_link E b) = 25"
  by (simp add: hash_link_def head_new)

lemma concat_links [simp]: "ext_ok E \<Longrightarrow> length (concat (map (\<lambda>t. hash_link E (f t)) ts)) = length ts * 25"
  by (induction ts) auto

lemma length_enc: "length (enc E t) = 5 + length (body E t)"
  by (simp add: enc_body head_new)

lemma length_body: "ext_ok E \<Longrightarrow> wf t \<Longrightarrow> length (body E t) + 5 < 2 ^ 32"
proof (cases t)
  case (MShort k u)
  assume "ext_ok E" "wf t"
  then have "length k < 2 ^ 30" "is_val u \<longrightarrow> length (enc E u) < 2 ^ 30 + 5" unfolding MShort wf_Short by (auto simp: length_enc)
  then show ?thesis using \<open>ext_ok E\<close> MShort by auto
next
  case (MFull ts)
  assume "ext_ok E" "wf t"
  then have l: "length ts = 17" "wf (ts ! 16)" "ts ! 16 = MNil \<or> is_val (ts ! 16)" unfolding MFull wf_Full by auto
  then have "length (enc E (ts ! 16)) < 2 ^ 30 + 5" by (auto simp: length_enc)
  with l(1) show ?thesis using \<open>ext_ok E\<close> MFull by simp
qed auto

lemma rep_chunk:
  assumes "ext_ok E" "wf t" "rep E c t"
  shows "node_type c = Inr (mtype t)" "chunk_type c = mtype t" "numBytes c = length (enc E t)" "chunk_bytes c = enc E t" "chunk_hash E c = Some (dig E t)"
    "head c \<noteq> [] \<and> c = Some (head c)"
proof -
  obtain r where r: "c = Some (head (Chunk_new (mtype t) (body E t)) @ r)" using assms(3) by (auto simp: rep_def enc_body)
  note p = prefix_chunk [OF r length_body [OF assms(1,2)]]
  show "node_type c = Inr (mtype t)" "chunk_type c = mtype t" "numBytes c = length (enc E t)" "chunk_bytes c = enc E t"
    using p by (simp_all add: enc_body) (simp add: head_new)
  then show "chunk_hash E c = Some (dig E t)" by (simp add: chunk_hash_def flip: ComputeFrom_Some)
  show "head c \<noteq> [] \<and> c = Some (head c)" using r by (simp add: head_new)
qed

lemma rep_data: "ext_ok E \<Longrightarrow> wf t \<Longrightarrow> rep E c t \<Longrightarrow> \<exists>r. chunk_data c = body E t @ r"
  by (auto simp: rep_def enc_body prefix_chunk(5) [OF refl length_body])

lemma link_chunk:
  assumes "ext_ok E" "link E c t"
  shows "node_type c = Inr kMPTHash" "childHash c = Inr (Some (dig E t))" "numBytes c = 25"
proof -
  obtain r where r: "c = Some (head (Chunk_new kMPTHash (dig E t)) @ r)" using assms(2) by (auto simp: link_def hash_link_def)
  have "length (dig E t) + 5 < 2 ^ 32" using assms(1) by simp
  note p = prefix_chunk [OF r this]
  show "node_type c = Inr kMPTHash" "childHash c = Inr (Some (dig E t))" "numBytes c = 25"
    using p assms(1) by (simp_all add: childHash_def kByteLength_def Hash_ptr_def)
qed

section \<open>Reading nodes\<close>

lemma le_bytes_mod: "le_bytes w (n mod 256 ^ w) = le_bytes w n"
proof (induction w arbitrary: n)
  case (Suc w)
  have "n mod (256 * 256 ^ w) = n mod 256 + 256 * (n div 256 mod 256 ^ w)" by (simp add: mod_mult2_eq)
  moreover from this have "n mod (256 * 256 ^ w) div 256 = n div 256 mod 256 ^ w" by simp
  moreover have "(char_of (n mod 256 + 256 * (n div 256 mod 256 ^ w)) :: char) = char_of n"
    by (metis char_of_mod_256 mod_add_self2 mod_mod_trivial mod_mult_self2)
  ultimately show ?case using Suc.IH [of "n div 256"] by simp
qed simp

lemma rep_count:
  assumes "ext_ok E" "wf t" "rep E c t"
  shows "child_count c = Inr (elems t mod 2 ^ 64)" "t \<noteq> MNil \<Longrightarrow> \<not> is_val t \<Longrightarrow> data_count c = Inr (elems t mod 2 ^ 64)"
proof -
  obtain r where r: "chunk_data c = body E t @ r" using rep_data [OF assms] by blast
  show d: "data_count c = Inr (elems t mod 2 ^ 64)" if "t \<noteq> MNil" "\<not> is_val t"
    using r that by (cases t) (simp_all add: data_count_def le_nat_le_bytes_append)
  show "child_count c = Inr (elems t mod 2 ^ 64)"
    using rep_chunk(1) [OF assms] d by (cases t) (simp_all add: child_count_def)
qed

lemma rep_short:
  assumes "ext_ok E" "wf (MShort k t)" "rep E c (MShort k t)"
  shows "\<exists>child. MPTShortNode c = Inr (k, child) \<and> (if is_val t then rep E child t else link E child t)"
proof -
  obtain r where r: "chunk_data c = body E (MShort k t) @ r" using rep_data [OF assms] by blast
  have "length k < 2 ^ 32" using assms(2) by (simp add: wf_Short)
  then have "MPTShortNode c = Inr (k, Some ((if is_val t then enc E t else hash_link E (enc E t)) @ r))"
    using r by (simp add: MPTShortNode_def Let_def)
  then show ?thesis by (auto simp: rep_def link_def)
qed

lemma rep_full:
  assumes "ext_ok E" "wf (MFull ts)" "rep E c (MFull ts)" "i < 17"
  shows "\<exists>child. full_child c i = Inr child \<and> (if i = 16 then rep E child (ts ! i) else link E child (ts ! i))"
proof -
  obtain r where r: "chunk_data c = body E (MFull ts) @ r" using rep_data [OF assms(1-3)] by blast
  have len: "length ts = 17" using assms(2) by (simp add: wf_Full)
  let ?L = "\<lambda>t. hash_link E (enc E t)"
  have "take 16 ts = take i ts @ drop i (take 16 ts)" using assms(4) append_take_drop_id [of i "take 16 ts"] by (simp add: min_def)
  then have "concat (map ?L (take 16 ts)) = concat (map ?L (take i ts)) @ concat (map ?L (drop i (take 16 ts)))"
    by (metis concat_append map_append)
  then have d: "drop (8 + i * 25) (chunk_data c) = concat (map ?L (drop i (take 16 ts))) @ enc E (ts ! 16) @ r"
    using r assms(1,4) len by simp
  show ?thesis
  proof (cases "i = 16")
    case True
    then show ?thesis using d by (auto simp: full_child_def rep_def kHashSize_def kMetaLength_def kByteLength_def)
  next
    case False
    then have "drop i (take 16 ts) = ts ! i # drop (Suc i) (take 16 ts)" using assms(4) len by (subst Cons_nth_drop_Suc [symmetric]) auto
    then show ?thesis using d False assms(4) by (auto simp: full_child_def link_def kHashSize_def kMetaLength_def kByteLength_def)
  qed
qed

lemma rep_val: "ext_ok E \<Longrightarrow> wf (MVal v) \<Longrightarrow> rep E c (MVal v) \<Longrightarrow> getVal c = Inr v"
proof -
  assume a: "ext_ok E" "wf (MVal v)" "rep E c (MVal v)"
  obtain r where r: "c = Some (enc E (MVal v) @ r)" using a(3) by (auto simp: rep_def)
  obtain r' where "chunk_data c = v @ r'" using rep_data [OF a] by auto
  then show "getVal c = Inr v" using rep_chunk(3) [OF a] r by (simp add: getVal_def length_enc kMetaLength_def)
qed

section \<open>Writing nodes\<close>

lemma rep_self [simp]: "rep E (Some (enc E t)) t"
  by (simp add: rep_def)

lemma rep_head: "ext_ok E \<Longrightarrow> wf t \<Longrightarrow> rep E c t \<Longrightarrow> rep E (Some (head c)) t"
  by (auto simp: rep_def)

lemma MPTHash_Encode_rep: "ext_ok E \<Longrightarrow> wf t \<Longrightarrow> rep E c t \<Longrightarrow> head (MPTHash_Encode E c) = hash_link E (enc E t)"
  by (simp add: MPTHash_Encode_def hash_link_def rep_chunk(5)) 

lemma le_bytes_8_mod [simp]: "le_bytes 8 (n mod 18446744073709551616) = le_bytes 8 n"
  using le_bytes_mod [of 8 n] by simp

lemma MPTShort_Encode_rep:
  assumes "ext_ok E" "wf t" "rep E c t" "t \<noteq> MNil"
  shows "MPTShort_Encode E k c = Inr (Some (enc E (MShort k t)))"
  using rep_chunk(1,4) [OF assms(1-3)] rep_count(2) [OF assms] MPTHash_Encode_rep [OF assms(1-3)] assms(4)
  by (cases t) (simp_all add: MPTShort_Encode_def enc.simps(3) Chunk_new_def)

lemma sum_counts_rep:
  assumes "ext_ok E" "list_all2 (rep E) cs ts" "\<forall>t\<in>set ts. wf t"
  shows "\<exists>n. sum_counts cs = Inr n \<and> n mod 2 ^ 64 = sum_list (map elems ts) mod 2 ^ 64"
  using assms(2,3)
proof (induction cs ts rule: list_all2_induct)
  case (Cons c cs t ts)
  then obtain n where n: "sum_counts cs = Inr n" "n mod 2 ^ 64 = sum_list (map elems ts) mod 2 ^ 64" by auto
  have "(elems t mod 2 ^ 64 + n) mod 2 ^ 64 = (elems t + sum_list (map elems ts)) mod 2 ^ 64"
    using n(2) by (metis mod_add_eq mod_add_left_eq)
  then show ?case using n(1) rep_count(1) [OF assms(1), of t c] Cons by simp
qed simp

lemma MPTFull_Encode_rep:
  assumes "ext_ok E" "list_all2 (rep E) cs ts" "wf (MFull ts)"
  shows "MPTFull_Encode E cs = Inr (Some (enc E (MFull ts)))"
proof -
  have len: "length ts = 17" "length cs = 17" "\<forall>t\<in>set ts. wf t" using assms(2,3) by (auto simp: wf_Full list_all2_lengthD all_set_conv_all_nth)
  obtain n where n: "sum_counts cs = Inr n" "n mod 2 ^ 64 = sum_list (map elems ts) mod 2 ^ 64" using sum_counts_rep [OF assms(1,2) len(3)] by blast
  have le: "le_bytes 8 n = le_bytes 8 (sum_list (map elems ts))" using n(2) le_bytes_mod [of 8 n] le_bytes_mod [of 8 "sum_list (map elems ts)"] by simp
  have r: "rep E (cs ! i) (ts ! i)" "wf (ts ! i)" if "i < 17" for i using assms(2) len that by (auto simp: list_all2_conv_all_nth)
  have "map (\<lambda>c. head (MPTHash_Encode E c)) (take 16 cs) = map (\<lambda>t. hash_link E (enc E t)) (take 16 ts)"
    using len MPTHash_Encode_rep [OF assms(1) r(2) r(1)] by (intro nth_equalityI) auto
  moreover have "chunk_bytes (cs ! 16) = enc E (ts ! 16)" using rep_chunk(4) [OF assms(1) r(2) r(1), of 16] by simp
  ultimately show ?thesis using n(1) le len by (simp add: MPTFull_Encode_def enc_body) (simp add: Chunk_new_def head_def)
qed

lemma count_mod:
  fixes M :: nat
  assumes "0 < M" "old \<le> S"
  shows "(S mod M + new mod M + (M - old mod M)) mod M = (S + new - old) mod M"
proof -
  have "old + (M - old mod M) = M * (1 + old div M)"
    using mult_div_mod_eq [of M old] mod_less_divisor [OF assms(1), of old] unfolding distrib_left mult_1_right by linarith
  then have "S + new + (M - old mod M) = (S + new - old) + M * (1 + old div M)" using assms(2) by simp
  moreover have "(S mod M + new mod M + (M - old mod M)) mod M = (S + new + (M - old mod M)) mod M" by (metis mod_add_eq mod_add_left_eq)
  ultimately show ?thesis by (simp only: mod_mult_self2)
qed

text \<open>The parts of the data of a full node around a child.\<close>

lemma full_parts:
  assumes "ext_ok E" "length ts = 17" "i < 16"
  shows "body E (MFull ts) = le_bytes 8 (elems (MFull ts)) @ concat (map (\<lambda>t. hash_link E (enc E t)) (take i ts)) @ hash_link E (enc E (ts ! i)) @
    concat (map (\<lambda>t. hash_link E (enc E t)) (drop (Suc i) (take 16 ts))) @ enc E (ts ! 16)"
proof -
  have "take 16 ts = take i ts @ ts ! i # drop (Suc i) (take 16 ts)"
    using id_take_nth_drop [of i "take 16 ts"] assms(2,3) by (simp add: min_def)
  then have "concat (map (\<lambda>t. hash_link E (enc E t)) (take 16 ts)) = concat (map (\<lambda>t. hash_link E (enc E t)) (take i ts)) @
      hash_link E (enc E (ts ! i)) @ concat (map (\<lambda>t. hash_link E (enc E t)) (drop (Suc i) (take 16 ts)))"
    by (metis (no_types, lifting) concat.simps(2) concat_append list.simps(9) map_append)
  then show ?thesis using assms(2) by simp
qed

lemma length_full: "ext_ok E \<Longrightarrow> length ts = 17 \<Longrightarrow> length (body E (MFull ts)) = 408 + length (enc E (ts ! 16))"
  by simp

lemma elems_update: "i < length ts \<Longrightarrow> elems (MFull (ts[i := t])) = elems (MFull ts) + elems t - elems (ts ! i) \<and> elems (ts ! i) \<le> elems (MFull ts)"
  using elem_le_sum_list [of i "map elems ts"] by (simp add: map_update sum_list_update)

lemma cap_mod: "(n :: nat) + 5 < 2 ^ 32 \<Longrightarrow> x = n + 2 * 2 ^ 32 \<Longrightarrow> x mod 2 ^ 32 = n"
  by (metis add_lessD1 mod_less mod_mult_self1)

lemma setChild_rep:
  assumes E: "ext_ok E" and w: "wf (MFull ts)" "wf t" "wf (MFull (ts[i := t]))" and i: "i < 17"
    and r: "rep E node (MFull ts)" "rep E c t" "rep E oc (ts ! i)"
  shows "setChildAtIndex E node i c oc = Inr (Some (enc E (MFull (ts[i := t]))))"
proof -
  have len: "length ts = 17" and wi: "wf (ts ! i)" "wf (ts ! 16)" using w(1) i by (simp_all add: wf_Full)
  obtain r' where data: "chunk_data node = body E (MFull ts) @ r'" using rep_data [OF E w(1) r(1)] by blast
  obtain old where old: "full_child node i = Inr old" "if i = 16 then rep E old (ts ! i) else link E old (ts ! i)" using rep_full [OF E w(1) r(1) i] by blast
  have counts: "child_count c = Inr (elems t mod 2 ^ 64)" "child_count oc = Inr (elems (ts ! i) mod 2 ^ 64)" "data_count node = Inr (elems (MFull ts) mod 2 ^ 64)"
    using rep_count [OF E] w wi r by auto
  have "(elems (MFull ts) mod 2 ^ 64 + elems t mod 2 ^ 64 + (2 ^ 64 - elems (ts ! i) mod 2 ^ 64)) mod 2 ^ 64 = elems (MFull (ts[i := t])) mod 2 ^ 64"
    using elems_update [of i ts t] len i by (subst count_mod) auto
  then have num: "le_bytes 8 ((elems (MFull ts) mod 2 ^ 64 + elems t mod 2 ^ 64 + (2 ^ 64 - elems (ts ! i) mod 2 ^ 64)) mod 2 ^ 64) = le_bytes 8 (elems (MFull (ts[i := t])))"
    using le_bytes_mod [of 8 "elems (MFull (ts[i := t]))"] by (simp del: elems.simps le_bytes_8_mod)
  have nb: "numBytes node = 5 + length (body E (MFull ts))" using rep_chunk(3) [OF E w(1) r(1)] by (simp add: length_enc)
  let ?u = "ts[i := t]"
  have u: "enc E (MFull ?u) = head (Chunk_new kMPTFull (body E (MFull ?u)))" by (simp add: enc_body)
  have small: "length (body E (MFull ?u)) + 5 < 2 ^ 32" "length (body E (MFull ts)) + 5 < 2 ^ 32" using length_body [OF E] w by blast+
  show ?thesis
  proof (cases "i = 16")
    case True
    have v: "numBytes (Some (head c)) = length (enc E t)" "chunk_bytes (Some (head c)) = enc E t" "numBytes old = length (enc E (ts ! 16))"
      using rep_chunk(3,4) [OF E w(2) rep_head [OF E w(2) r(2)]] rep_chunk(3) [OF E wi(2), of old] old(2) True by auto
    have "take 16 ?u = take 16 ts" "?u ! 16 = t" using True len by simp_all
    then have b: "body E (MFull ?u) = le_bytes 8 (elems (MFull ?u)) @ concat (map (\<lambda>t. hash_link E (enc E t)) (take 16 ts)) @ enc E t" using len by simp
    have cap: "(numBytes node + 2 ^ 32 - kMetaLength + length (enc E t) + 2 ^ 32 - length (enc E (ts ! 16))) mod 2 ^ 32 = length (body E (MFull ?u))"
      by (rule cap_mod [OF small(1)]) (use nb len E True in \<open>simp add: kMetaLength_def\<close>)
    have "take (25 * 16) (drop 8 (chunk_data node)) = concat (map (\<lambda>t. hash_link E (enc E t)) (take 16 ts))" using data E len by simp
    then show ?thesis using v cap b True u unfolding setChildAtIndex_def counts old(1) rbind_simps Let_def num
      by (simp add: kHashSize_def kMetaLength_def kByteLength_def del: body.simps) (simp add: Chunk_new_def)
  next
    case False
    then have i16: "i < 16" using i by simp
    have h: "head (MPTHash_Encode E c) = hash_link E (enc E t)" by (rule MPTHash_Encode_rep [OF E w(2) r(2)])
    have v: "numBytes (MPTHash_Encode E c) = 25" "chunk_bytes (MPTHash_Encode E c) = hash_link E (enc E t)" "numBytes old = 25"
      using old(2) False link_chunk(3) [OF E] h E rep_chunk(5) [OF E w(2) r(2)]
      by (simp_all add: MPTHash_Encode_def chunk_bytes_new)
    let ?A = "concat (map (\<lambda>t. hash_link E (enc E t)) (take i ts))" and ?B = "concat (map (\<lambda>t. hash_link E (enc E t)) (drop (Suc i) (take 16 ts)))"
    have bt: "body E (MFull ts) = le_bytes 8 (elems (MFull ts)) @ ?A @ hash_link E (enc E (ts ! i)) @ ?B @ enc E (ts ! 16)" by (rule full_parts [OF E len i16])
    have bu: "body E (MFull ?u) = le_bytes 8 (elems (MFull ?u)) @ ?A @ hash_link E (enc E t) @ ?B @ enc E (ts ! 16)"
    proof -
      have "drop (Suc i) (take 16 ?u) = drop (Suc i) (take 16 ts)" by (simp add: take_update_swap drop_update_cancel)
      then show ?thesis using full_parts [OF E, of ?u i] len i16 by simp
    qed
    have la: "length ?A = 25 * i" "length ?B = 25 * (15 - i)" using E len i16 by simp_all
    have cap: "(numBytes node + 2 ^ 32 - kMetaLength + 25 + 2 ^ 32 - 25) mod 2 ^ 32 = length (body E (MFull ts))"
      by (rule cap_mod [OF small(2)]) (simp add: nb kMetaLength_def del: body.simps)
    have lb: "length (body E (MFull ts)) = 8 + 25 * i + 25 + length ?B + length (enc E (ts ! 16))" unfolding bt using la E by simp
    have p1: "take (25 * i) (drop 8 (chunk_data node)) = ?A" unfolding data bt using la by simp
    have p2: "take (length (body E (MFull ts)) - (8 + 25 * (i + 1))) (drop (8 + 25 * (i + 1)) (chunk_data node)) = ?B @ enc E (ts ! 16)"
    proof -
      have "drop (8 + 25 * (i + 1)) (chunk_data node) = ?B @ enc E (ts ! 16) @ r'" unfolding data bt using la E by simp
      moreover have "length (body E (MFull ts)) - (8 + 25 * (i + 1)) = length (?B @ enc E (ts ! 16))" using lb by simp
      ultimately show ?thesis by simp
    qed
    have "length (le_bytes 8 (elems (MFull ?u)) @ ?A @ hash_link E (enc E t) @ ?B @ enc E (ts ! 16)) = length (body E (MFull ts))"
      using lb la E by simp
    then show ?thesis using v cap p1 p2 i16 u bu unfolding setChildAtIndex_def counts old(1) rbind_simps Let_def num
      by (simp add: kHashSize_def kMetaLength_def kByteLength_def del: body.simps) (simp add: Chunk_new_def)
  qed
qed

end
