(* ===== verification/MPT_Correct.thy ===== *)
theory MPT_Correct
  imports MPT_Nodes
begin

text \<open>
  The operations of \<open>trie.cc\<close> do on chunks, delta and store what those of \<open>Patricia\<close> do on tries.  \<open>U\<close> is the set of nodes that
  occur in a history; no two of them are assumed to have the same hash.
\<close>

section \<open>Delta and store\<close>

fun nodes :: "mpt \<Rightarrow> mpt set" where
  "nodes MNil = {}"
| "nodes (MVal v) = {}"
| "nodes (MShort k t) = insert (MShort k t) (nodes t)"
| "nodes (MFull ts) = insert (MFull ts) (\<Union>t\<in>set ts. nodes t)"

definition univ :: "'s ext \<Rightarrow> mpt set \<Rightarrow> bool" where
  "univ E U \<longleftrightarrow> inj_on (dig E) U \<and> MNil \<in> U \<and> (\<forall>t\<in>U. wf t \<and> \<not> is_val t)"

text \<open>What an operation sees under a hash: the delta first, then the store.\<close>

definition delta_view :: "'s ext \<Rightarrow> mpt_delta \<Rightarrow> 's DB \<Rightarrow> string \<Rightarrow> string option" where
  "delta_view E m d h = (case m h of Some c \<Rightarrow> c | None \<Rightarrow> db_map E d h)"

definition tenv :: "'s ext \<Rightarrow> mpt set \<Rightarrow> mpt_delta \<Rightarrow> 's DB \<Rightarrow> bool" where
  "tenv E U m d \<longleftrightarrow> (\<forall>h c. m h = Some c \<longrightarrow> (\<exists>t\<in>U. t \<noteq> MNil \<and> h = dig E t \<and> c = Some (enc E t))) \<and>
     (\<forall>t\<in>U. db_map E d (dig E t) = None \<or> t \<noteq> MNil \<and> db_map E d (dig E t) = Some (enc E t)) \<and>
     (\<forall>t\<in>U. \<forall>c. cache d (ToBase32 (Some (dig E t))) = Some c \<longrightarrow> c = db_map E d (dig E t) \<and> (c = None \<longrightarrow> t = MNil))"

definition avail :: "'s ext \<Rightarrow> (string \<Rightarrow> string option) \<Rightarrow> mpt \<Rightarrow> bool" where
  "avail E V t \<longleftrightarrow> (\<forall>u\<in>nodes t. V (dig E u) = Some (enc E u))"

lemma nodes_self: "t \<noteq> MNil \<Longrightarrow> \<not> is_val t \<Longrightarrow> t \<in> nodes t"
  by (cases t) auto

lemma avail_mono: "avail E V t \<Longrightarrow> V \<subseteq>\<^sub>m V' \<Longrightarrow> avail E V' t"
  unfolding avail_def map_le_def by (metis domI)

lemma avail_sub: "avail E V t \<Longrightarrow> nodes u \<subseteq> nodes t \<Longrightarrow> avail E V u"
  by (auto simp: avail_def)

lemma delta_view_empty [simp]: "delta_view E Map.empty d = db_map E d"
  by (simp add: delta_view_def fun_eq_iff)

lemma dig_length [simp]: "ext_ok E \<Longrightarrow> length (dig E t) = 20" and hval_dig [simp]: "ext_ok E \<Longrightarrow> hval (Some (dig E t)) = dig E t"
  by simp_all

lemma univD: "univ E U \<Longrightarrow> t \<in> U \<Longrightarrow> u \<in> U \<Longrightarrow> dig E t = dig E u \<Longrightarrow> t = u"
  by (auto simp: univ_def inj_on_def)

lemma DB_Get_hash_ok:
  assumes "ext_ok E" "univ E U" "tenv E U m d" "t \<in> U" "t = MNil \<or> db_map E d (dig E t) = Some (enc E t)"
  shows "\<exists>d'. DB_Get_hash E d (Some (dig E t)) = (if t = MNil then None else Some (enc E t), d') \<and> tenv E U m d' \<and> db_map E d' = db_map E d"
proof -
  have v: "db_map E d (dig E t) = (if t = MNil then None else Some (enc E t))" using assms(3,4,5) by (auto simp: tenv_def)
  show ?thesis
  proof (cases "cache d (ToBase32 (Some (dig E t)))")
    case None
    let ?d = "d\<lparr>cache := (cache d)(ToBase32 (Some (dig E t)) \<mapsto> db_map E d (dig E t))\<rparr>"
    have g: "DB_Get_hash E d (Some (dig E t)) = (if t = MNil then None else Some (enc E t), ?d)"
      using None v assms(1) by (simp add: DB_Get_hash_def DB_GetChunk_def Let_def)
    have same: "ToBase32 (Some (dig E u)) = ToBase32 (Some (dig E t)) \<Longrightarrow> u \<in> U \<Longrightarrow> u = t" for u
      using univD [OF assms(2) _ assms(4)] ToBase32_inject [of "dig E u" "dig E t"] assms(1) by (metis dig_length option.inject)
    have "c = db_map E d (dig E u) \<and> (c = None \<longrightarrow> u = MNil)" if "u \<in> U" "cache ?d (ToBase32 (Some (dig E u))) = Some c" for u c
      using that same [of u] v assms(3) by (cases "u = t") (auto simp: tenv_def split: if_splits)
    then have "tenv E U m ?d" using assms(3) by (auto simp: tenv_def)
    then show ?thesis using g by auto
  next
    case (Some c)
    then have "c = db_map E d (dig E t)" using assms(3,4) by (simp add: tenv_def)
    then show ?thesis using Some v assms(3) by (simp add: DB_Get_hash_def)
  qed
qed

lemma wf_nil [simp]: "rep E MPTNil_Encode MNil"
  by (simp add: rep_def enc.simps MPTNil_Encode_def Chunk_new_def head_def)

lemma tenv_delta:
  assumes "ext_ok E" "univ E U" "tenv E U m d" "t \<in> U"
  shows "Delta_Get m (Some (dig E t)) = (if m (dig E t) = None then None else Some (enc E t))" "m (dig E t) \<noteq> None \<Longrightarrow> m (dig E t) = Some (Some (enc E t)) \<and> t \<noteq> MNil"
proof -
  show a: "m (dig E t) = Some (Some (enc E t)) \<and> t \<noteq> MNil" if "m (dig E t) \<noteq> None"
    using that assms(3,4) univD [OF assms(2)] unfolding tenv_def by (metis not_None_eq)
  then show "Delta_Get m (Some (dig E t)) = (if m (dig E t) = None then None else Some (enc E t))"
    using assms(1) by (auto simp: Delta_Get_def)
qed

lemma GetHashNodeChild_ok:
  assumes "ext_ok E" "univ E U" "tenv E U m d" "t \<in> U" "link E c t" "t = MNil \<or> delta_view E m d (dig E t) = Some (enc E t)"
  shows "\<exists>c' d'. GetHashNodeChild E m c d = Inr (c', d') \<and> rep E c' t \<and> tenv E U m d' \<and> db_map E d' = db_map E d"
proof (cases "m (dig E t)")
  case None
  then have "t = MNil \<or> db_map E d (dig E t) = Some (enc E t)" using assms(6) by (simp add: delta_view_def)
  then obtain d' where d': "DB_Get_hash E d (Some (dig E t)) = (if t = MNil then None else Some (enc E t), d')" "tenv E U m d'" "db_map E d' = db_map E d"
    using DB_Get_hash_ok [OF assms(1-4)] by blast
  then show ?thesis using link_chunk(1,2) [OF assms(1,5)] tenv_delta(1) [OF assms(1-4)] None
    by (auto simp: GetHashNodeChild_def Let_def Chunk_empty_def)
next
  case (Some b)
  then show ?thesis using link_chunk(1,2) [OF assms(1,5)] tenv_delta(1) [OF assms(1-4)] assms(3)
    by (auto simp: GetHashNodeChild_def Let_def Chunk_empty_def)
qed

lemma GetHashNodeChild_rep:
  assumes "ext_ok E" "wf t" "rep E c t"
  shows "GetHashNodeChild E m c d = Inr (MPTNil_Encode, d)"
  using rep_chunk(1) [OF assms] by (cases t) (simp_all add: GetHashNodeChild_def)

text \<open>Entering a node whose children can be seen.\<close>

lemma create_ok:
  assumes "ext_ok E" "univ E U" "tenv E U m d" "t \<in> nodes t" "nodes t \<subseteq> U" "\<forall>u\<in>nodes t - {t}. delta_view E m d (dig E u) = Some (enc E u)"
  shows "\<exists>m'. create_and_get E m (Some (enc E t)) = (Some (enc E t), m') \<and> tenv E U m' d \<and> delta_view E m d \<subseteq>\<^sub>m delta_view E m' d \<and> avail E (delta_view E m' d) t"
proof -
  have tU: "t \<in> U" "t \<noteq> MNil" using assms(4,5) by auto
  then have w: "wf t" using assms(2) by (simp add: univ_def)
  have h: "chunk_hash E (Some (enc E t)) = Some (dig E t)" by (rule rep_chunk(5) [OF assms(1) w rep_self])
  show ?thesis
  proof (cases "m (dig E t)")
    case None
    let ?m = "m(dig E t \<mapsto> Some (enc E t))"
    have c: "create_and_get E m (Some (enc E t)) = (Some (enc E t), ?m)"
      using None h assms(1) by (simp add: create_and_get_def Delta_Create_def Delta_Get_def Let_def)
    have t: "tenv E U ?m d" using assms(3) tU by (auto simp: tenv_def)
    have v: "delta_view E ?m d = (delta_view E m d)(dig E t \<mapsto> enc E t)" by (auto simp: delta_view_def fun_eq_iff)
    have "delta_view E m d (dig E t) = None \<or> delta_view E m d (dig E t) = Some (enc E t)" using None assms(3) tU by (auto simp: delta_view_def tenv_def)
    then have "delta_view E m d \<subseteq>\<^sub>m delta_view E ?m d" unfolding v by (auto simp: map_le_def)
    moreover have "avail E (delta_view E ?m d) t" using assms(5,6) univD [OF assms(2) _ tU(1)] unfolding avail_def v by auto
    ultimately show ?thesis using c t by blast
  next
    case (Some b)
    then have b: "b = Some (enc E t)" using tenv_delta(2) [OF assms(1-3) tU(1)] by simp
    have c: "create_and_get E m (Some (enc E t)) = (Some (enc E t), m)"
      using Some b h assms(1) by (simp add: create_and_get_def Delta_Create_def Delta_Get_def Let_def)
    moreover have "avail E (delta_view E m d) t" using assms(6) Some b by (auto simp: avail_def delta_view_def)
    ultimately show ?thesis using assms(3) by auto
  qed
qed

section \<open>Insertion\<close>

text \<open>The result is the chunk of \<open>t\<close>, with all of \<open>t\<close> in delta or store and the store unchanged.\<close>

definition trie_post :: "'s ext \<Rightarrow> mpt set \<Rightarrow> mpt_delta \<Rightarrow> 's DB \<Rightarrow> mpt \<Rightarrow> (Chunk \<times> mpt_delta \<times> 's DB) result option \<Rightarrow> bool" where
  "trie_post E U m d t r \<longleftrightarrow> (\<exists>c' m' d'. r = Some (Inr (c', m', d')) \<and> rep E c' t \<and> tenv E U m' d' \<and> delta_view E m d \<subseteq>\<^sub>m delta_view E m' d' \<and>
     avail E (delta_view E m' d') t \<and> db_map E d' = db_map E d)"

lemma delta_view_cong: "db_map E d' = db_map E d \<Longrightarrow> delta_view E m d' = delta_view E m d"
  by (auto simp: delta_view_def fun_eq_iff split: option.split)

lemma trie_post_create:
  assumes "ext_ok E" "univ E U" "tenv E U m' d'" "t \<in> nodes t" "nodes t \<subseteq> U" "\<forall>u\<in>nodes t - {t}. delta_view E m' d' (dig E u) = Some (enc E u)"
    and "delta_view E m d \<subseteq>\<^sub>m delta_view E m' d'" "db_map E d' = db_map E d"
  shows "trie_post E U m d t (let (c, m) = create_and_get E m' (Some (enc E t)) in Some (Inr (c, m, d')))"
proof -
  obtain m2 where "create_and_get E m' (Some (enc E t)) = (Some (enc E t), m2)" "tenv E U m2 d'" "delta_view E m' d' \<subseteq>\<^sub>m delta_view E m2 d'" "avail E (delta_view E m2 d') t"
    using create_ok [OF assms(1-6)] by blast
  then show ?thesis unfolding trie_post_def using assms(7,8) map_le_trans by fastforce
qed

lemma insert_nil_ok:
  assumes "ext_ok E" "univ E U" "tenv E U m d" "wf t" "t \<noteq> MNil" "rep E c t" "avail E (delta_view E m d) t" "nodes (short k t) \<subseteq> U"
  shows "\<exists>c' m'. insert_nil E k c m = Inr (c', m') \<and> rep E c' (short k t) \<and> tenv E U m' d \<and> delta_view E m d \<subseteq>\<^sub>m delta_view E m' d \<and> avail E (delta_view E m' d) (short k t)"
proof (cases "k = []")
  case True
  then show ?thesis using assms rep_head [OF assms(1,4,6)] by (auto simp: insert_nil_def short_def)
next
  case False
  then have n: "nodes (MShort k t) \<subseteq> U" using assms(8) by (simp add: short_def)
  obtain m' where "create_and_get E m (Some (enc E (MShort k t))) = (Some (enc E (MShort k t)), m')" "tenv E U m' d"
      "delta_view E m d \<subseteq>\<^sub>m delta_view E m' d" "avail E (delta_view E m' d) (MShort k t)"
    using create_ok [OF assms(1-3) _ n] assms(7) by (auto simp: avail_def)
  then show ?thesis using False MPTShort_Encode_rep [OF assms(1,4,6,5)] by (simp add: insert_nil_def short_def)
qed

lemma short_Nil [simp]: "short [] t = t"
  by (simp add: short_def)

text \<open>The chunk of a child: the node itself, or a link to it.\<close>

definition child_rep :: "'s ext \<Rightarrow> Chunk \<Rightarrow> mpt \<Rightarrow> bool" where
  "child_rep E c t \<longleftrightarrow> (if is_val t then rep E c t else link E c t)"

lemma nodes_branch:
  assumes "nib a < 17" "nib b < 17" "a \<noteq> b"
  shows "nodes (branch (b # bs) t (a # as) s) = insert (branch (b # bs) t (a # as) s) (nodes (short bs t) \<union> nodes (short as s))"
proof -
  let ?ts = "(replicate 17 MNil)[nib b := short bs t, nib a := short as s]"
  have e: "?ts ! nib b = short bs t" "?ts ! nib a = short as s" using assms by (auto simp: nth_list_update)
  have "(\<Union>u\<in>set ?ts. nodes u) \<subseteq> nodes (short bs t) \<union> nodes (short as s)"
    using set_update_subset_insert [of "(replicate 17 MNil)[nib b := short bs t]" "nib a" "short as s"]
      set_update_subset_insert [of "replicate 17 MNil" "nib b" "short bs t"] by fastforce
  moreover have "short bs t \<in> set ?ts" "short as s \<in> set ?ts" using assms e by (metis length_list_update length_replicate nth_mem)+
  ultimately show ?thesis by (auto simp: branch_def)
qed

lemma make_branch_ok:
  assumes E: "ext_ok E" "univ E U" "tenv E U m d" and t: "wf t" "child_rep E c t" "avail E (delta_view E m d) t" "is_val t \<or> is_full t"
    and s: "wf s" "is_val s" "rep E sv s" and k: "a \<noteq> b" "nib a < 17" "nib b < 17"
    and n: "nodes (short p (branch (b # bs) t (a # as) s)) \<subseteq> U" and w: "wf (branch (b # bs) t (a # as) s)"
  shows "trie_post E U m d (short p (branch (b # bs) t (a # as) s)) (Some (make_branch E (p @ a # as) (p @ b # bs) c sv m d))"
proof -
  let ?B = "branch (b # bs) t (a # as) s"
  have self: "?B \<in> nodes ?B" by (simp add: branch_def)
  have nB: "nodes ?B \<subseteq> U" using n by (auto simp: short_def split: if_splits)
  have nn: "nodes ?B = insert ?B (nodes (short bs t) \<union> nodes (short as s))" by (rule nodes_branch [OF k(2,3,1)])
  have idx: "char_index a = nib a" "char_index b = nib b" using k by (simp_all add: char_index_def)
  obtain c1 d1 where c1: "(case node_type c of Inl e \<Rightarrow> Inl e | Inr ty \<Rightarrow> if ty = kMPTHash then GetHashNodeChild E m c d else Inr (c, d)) = Inr (c1, d1)"
      "rep E c1 t" "tenv E U m d1" "db_map E d1 = db_map E d"
  proof (cases "is_val t")
    case True
    then have "node_type c = Inr kMPTValue" using t rep_chunk(1) [OF E(1) t(1)] by (auto simp: child_rep_def)
    then show ?thesis using that [of c d] t(2) E(3) True by (simp add: child_rep_def)
  next
    case False
    then have l: "link E c t" "t \<in> nodes t" "t \<noteq> MNil" using t by (auto simp: child_rep_def)
    then have "t \<in> U" using nn nB by (auto simp: short_def split: if_splits)
    then obtain c1 d1 where "GetHashNodeChild E m c d = Inr (c1, d1)" "rep E c1 t" "tenv E U m d1" "db_map E d1 = db_map E d"
      using GetHashNodeChild_ok [OF E _ l(1)] t(3) l(2) unfolding avail_def by blast
    then show ?thesis using that link_chunk(1) [OF E(1) l(1)] by simp
  qed
  have nt: "t \<noteq> MNil" "s \<noteq> MNil" using t(4) s(2) by auto
  obtain bo m1 where bo: "insert_nil E bs c1 m = Inr (bo, m1)" "rep E bo (short bs t)" "tenv E U m1 d1" "delta_view E m d1 \<subseteq>\<^sub>m delta_view E m1 d1" "avail E (delta_view E m1 d1) (short bs t)"
    using insert_nil_ok [OF E(1,2) c1(3) t(1) nt(1) c1(2), of bs] t(3) nn nB c1(4) delta_view_cong [OF c1(4)] by auto
  obtain bu m2 where bu: "insert_nil E as sv m1 = Inr (bu, m2)" "rep E bu (short as s)" "tenv E U m2 d1" "delta_view E m1 d1 \<subseteq>\<^sub>m delta_view E m2 d1" "avail E (delta_view E m2 d1) (short as s)"
  proof -
    have "avail E (delta_view E m1 d1) s" using s(2) by (auto simp: avail_def)
    then show ?thesis using that insert_nil_ok [OF E(1,2) bo(3) s(1) nt(2) s(3), of as] nn nB by auto
  qed
  let ?cs = "(replicate 17 MPTNil_Encode)[nib b := bo, nib a := bu]"
  have "list_all2 (rep E) ?cs ((replicate 17 MNil)[nib b := short bs t, nib a := short as s])"
    using bo(2) bu(2) by (intro list_all2_update_cong) (auto simp: list_all2_conv_all_nth nth_replicate)
  then have full: "MPTFull_Encode E ?cs = Inr (Some (enc E ?B))" using MPTFull_Encode_rep [OF E(1)] w by (simp add: branch_def)
  have kids: "\<forall>u\<in>nodes ?B - {?B}. delta_view E m2 d1 (dig E u) = Some (enc E u)"
    using avail_mono [OF bo(5) bu(4)] bu(5) unfolding nn avail_def by auto
  have grow: "delta_view E m d \<subseteq>\<^sub>m delta_view E m2 d1" using bo(4) bu(4) map_le_trans unfolding delta_view_cong [OF c1(4)] by blast
  have str: "str_at (p @ b # bs) (length p) = Inr b" "str_at (p @ a # as) (length p) = Inr a" "PrefixLen (p @ a # as) (p @ b # bs) = length p"
      "substr_from (p @ b # bs) (Suc (length p)) = Inr bs" "substr_from (p @ a # as) (Suc (length p)) = Inr as"
    using k(1) by (simp_all add: str_at_def substr_from_def)
  have ext: "rbind (node_type c) (\<lambda>ty. rbind (if ty = kMPTHash then GetHashNodeChild E m c d else Inr (c, d)) f) = f (c1, d1)" for f :: "_ \<Rightarrow> (Chunk \<times> mpt_delta \<times> 's DB) result"
    using c1(1) by (cases "node_type c") (auto split: if_splits)
  have mb: "make_branch E (p @ a # as) (p @ b # bs) c sv m d =
      (if p = [] then (let (c, m) = create_and_get E m2 (Some (enc E ?B)) in Inr (c, m, d1))
       else rbind (MPTShort_Encode E p (Some (enc E ?B))) (\<lambda>new_root.
         let (c, m) = create_and_get E (Delta_Create m2 (chunk_hash E (Some (enc E ?B))) (Some (enc E ?B))) new_root in Inr (c, m, d1)))"
    unfolding make_branch_def Let_def str Suc_eq_plus1 [symmetric] rbind_simps ext split_conv using bo(1) bu(1) idx k full
    by simp
  show ?thesis
  proof (cases "p = []")
    case True
    then show ?thesis using trie_post_create [OF E(1,2) bu(3) self nB kids grow c1(4)] unfolding mb by (simp add: Let_def case_prod_unfold)
  next
    case False
    then have S: "short p ?B = MShort p ?B" "nodes (MShort p ?B) \<subseteq> U" using n by (auto simp: short_def)
    obtain m3 where m3: "create_and_get E m2 (Some (enc E ?B)) = (Some (enc E ?B), m3)" "tenv E U m3 d1" "delta_view E m2 d1 \<subseteq>\<^sub>m delta_view E m3 d1" "avail E (delta_view E m3 d1) ?B"
      using create_ok [OF E(1,2) bu(3) self nB kids] by blast
    then have "Delta_Create m2 (chunk_hash E (Some (enc E ?B))) (Some (enc E ?B)) = m3" by (simp add: create_and_get_def Let_def)
    moreover have "MPTShort_Encode E p (Some (enc E ?B)) = Inr (Some (enc E (MShort p ?B)))"
      using MPTShort_Encode_rep [OF E(1) w rep_self] by (simp add: branch_def)
    moreover have "\<forall>u\<in>nodes (MShort p ?B) - {MShort p ?B}. delta_view E m3 d1 (dig E u) = Some (enc E u)" using m3(4) by (auto simp: avail_def)
    ultimately show ?thesis using False trie_post_create [OF E(1,2) m3(2) _ S(2) _ map_le_trans [OF grow m3(3)] c1(4)] unfolding mb S(1)
      by (simp add: Let_def case_prod_unfold)
  qed
qed

lemma kids_update:
  assumes "avail E V (MFull ts)" "avail E V t"
  shows "\<forall>u\<in>nodes (MFull (ts[i := t])) - {MFull (ts[i := t])}. V (dig E u) = Some (enc E u)"
  using assms set_update_subset_insert [of ts i t] by (fastforce simp: avail_def)

lemma avail_child: "avail E V (MFull ts) \<Longrightarrow> i < length ts \<Longrightarrow> avail E V (ts ! i)"
  by (rule avail_sub) (auto dest: nth_mem)

lemma nodes_child: "wf (MFull ts) \<Longrightarrow> i < 17 \<Longrightarrow> nodes (ts ! i) \<subseteq> nodes (MFull ts)"
  by (auto simp: wf_Full dest: nth_mem)

text \<open>Loading the child of a full node on the way down.\<close>

lemma load_child:
  assumes E: "ext_ok E" "univ E U" "tenv E U m d" and t: "wf (MFull ts)" "rep E ch (MFull ts)" "avail E (delta_view E m d) (MFull ts)" "nodes (MFull ts) \<subseteq> U" and i: "i < 17"
  shows "\<exists>child oc d'. full_child ch i = Inr child \<and> (if i \<noteq> 16 then GetHashNodeChild E m child d else Inr (child, d)) = Inr (oc, d') \<and> rep E oc (ts ! i) \<and>
    tenv E U m d' \<and> db_map E d' = db_map E d"
proof -
  have len: "length ts = 17" using t(1) by (simp add: wf_Full)
  obtain child where child: "full_child ch i = Inr child" "if i = 16 then rep E child (ts ! i) else link E child (ts ! i)"
    using rep_full [OF E(1) t(1,2) i] by blast
  show ?thesis
  proof (cases "i = 16")
    case True
    then show ?thesis using child E(3) by auto
  next
    case False
    then have l: "link E child (ts ! i)" "\<not> is_val (ts ! i)" using child(2) t(1) i by (auto simp: wf_Full)
    have "avail E (delta_view E m d) (ts ! i)" "nodes (ts ! i) \<subseteq> U" "MNil \<in> U"
      using subset_trans [OF nodes_child [OF t(1) i] t(4)] avail_child [OF t(3)] len i E(2) by (auto simp: univ_def)
    then have "ts ! i \<in> U" "ts ! i = MNil \<or> delta_view E m d (dig E (ts ! i)) = Some (enc E (ts ! i))"
      using nodes_self [OF _ l(2)] by (cases "ts ! i = MNil"; auto simp: avail_def)+
    then show ?thesis using child(1) GetHashNodeChild_ok [OF E _ l(1)] False by auto
  qed
qed

lemma Insert_link:
  assumes E: "ext_ok E" "univ E U" "tenv E U m d" and t: "is_full t" "wf t" "link E c t" "avail E (delta_view E m d) t" "nodes t \<subseteq> U" "key \<noteq> []"
    and ins: "\<And>c d'. rep E c t \<Longrightarrow> tenv E U m d' \<Longrightarrow> avail E (delta_view E m d') t \<Longrightarrow> trie_post E U m d' t' (Trie_Insert E c key sv m d')"
  shows "trie_post E U m d t' (Trie_Insert E c key sv m d)"
proof -
  have self: "t \<in> nodes t" using t(1) by auto
  then have "t \<in> U" "delta_view E m d (dig E t) = Some (enc E t)" using t(4,5) by (auto simp: avail_def)
  then obtain c' d' where c': "GetHashNodeChild E m c d = Inr (c', d')" "rep E c' t" "tenv E U m d'" "db_map E d' = db_map E d"
    using GetHashNodeChild_ok [OF E _ t(3)] by blast
  then have "Trie_Insert E c key sv m d = Trie_Insert E c' key sv m d'"
    using t(6) link_chunk(1) [OF E(1) t(3)] by (subst Trie_Insert.simps) simp
  then show ?thesis using ins [OF c'(2,3)] t(4) c'(4) delta_view_cong [OF c'(4)] by (simp add: trie_post_def)
qed

lemma Insert_ok:
  assumes E: "ext_ok E" "univ E U" and v: "length v < 2 ^ 30" "rep E sv (MVal v)"
  shows "wf t \<Longrightarrow> path_ok key \<and> \<not> is_val t \<or> key = [] \<Longrightarrow> length key < 2 ^ 30 \<Longrightarrow> rep E c t \<Longrightarrow> tenv E U m d \<Longrightarrow> avail E (delta_view E m d) t \<Longrightarrow>
    nodes t \<subseteq> U \<Longrightarrow> nodes (mins t key (MVal v)) \<subseteq> U \<Longrightarrow> trie_post E U m d (mins t key (MVal v)) (Trie_Insert E c key sv m d)"
proof (induction t key "MVal v" arbitrary: c m d rule: mins.induct)
  case (1 t)
  have "rep E (Some (head sv)) (MVal v)" using rep_head [OF E(1) _ v(2)] v(1) by simp
  then show ?case using 1(5) by (subst Trie_Insert.simps) (simp add: trie_post_def avail_def)
next
  case (2 c key ch)
  have "node_type ch = Inr kMPTNil" using rep_chunk(1) [OF E(1) 2(1,4)] by simp
  moreover obtain c' m' where "insert_nil E (c # key) sv m = Inr (c', m')" "rep E c' (MShort (c # key) (MVal v))" "tenv E U m' d"
      "delta_view E m d \<subseteq>\<^sub>m delta_view E m' d" "avail E (delta_view E m' d) (MShort (c # key) (MVal v))"
    using insert_nil_ok [OF E 2(5) _ _ v(2), of "c # key"] v(1) 2(8) by (auto simp: short_def avail_def)
  ultimately show ?case by (subst Trie_Insert.simps) (simp add: trie_post_def)
next
  case (4 k t c key ch)
  have w: "length k < 2 ^ 30" "wf t" "is_val t \<and> path_ok k \<or> is_full t \<and> k \<noteq> [] \<and> nibbles k" using 4(2) unfolding wf_Short by blast+
  have pk: "path_ok (c # key)" using 4(3) by blast
  have at: "avail E (delta_view E m d) t" "nodes t \<subseteq> U" using 4(7,8) by (auto simp: avail_def)
  obtain child where child: "MPTShortNode ch = Inr (k, child)" "if is_val t then rep E child t else link E child t"
    using rep_short [OF E(1) 4(2,5)] by blast
  have ty: "node_type ch = Inr kMPTShort" using rep_chunk(1) [OF E(1) 4(2,5)] by simp
  show ?case
  proof (cases "PrefixLen (c # key) k = length k")
    case True
    then obtain r where r: "c # key = k @ r" by (auto simp: PrefixLen_full take_append_eq)
    have mi: "mins (MShort k t) (c # key) (MVal v) = MShort k (mins t r (MVal v))" unfolding r by (rule mins_below) (use r in auto)
    have nr: "nodes (MShort k (mins t r (MVal v))) \<subseteq> U" using 4(9) unfolding mi .
    have wr: "wf (MShort k (mins t r (MVal v)))" using wf_mins [OF 4(2) pk 4(4) v(1)] unfolding mi by simp
    have nn: "mins t r (MVal v) \<noteq> MNil" "wf (mins t r (MVal v))" using wr by (auto simp: wf_Short)
    have sub: "trie_post E U m d (mins t r (MVal v)) (Trie_Insert E child r sv m d)"
    proof (cases "is_val t")
      case True
      then have "r = []" using w(3) pk path_prefix [of k r] r by auto
      then show ?thesis using 4(1) [of "length k" child m d] \<open>PrefixLen (c # key) k = length k\<close> r w(2) child(2) True 4(6) at nr by simp
    next
      case False
      then have f: "is_full t" "nibbles k" "link E child t" using w(3) child(2) by auto
      have "r \<noteq> []" using r pk f(2) path_not_nibbles by (metis append_Nil2)
      then have pr: "path_ok r" using r pk path_append by metis
      have lr: "length r < 2 ^ 30" using 4(4) unfolding r by simp
      show ?thesis
      proof (rule Insert_link [OF E 4(6) f(1) w(2) f(3) at \<open>r \<noteq> []\<close>])
        fix c' d' assume "rep E c' t" "tenv E U m d'" "avail E (delta_view E m d') t"
        then show "trie_post E U m d' (mins t r (MVal v)) (Trie_Insert E c' r sv m d')"
          using 4(1) [of "length k" c' m d'] \<open>PrefixLen (c # key) k = length k\<close> r w(2) pr lr False at(2) nr by simp
      qed
    qed
    then obtain c' m' d' where c': "Trie_Insert E child r sv m d = Some (Inr (c', m', d'))" "rep E c' (mins t r (MVal v))" "tenv E U m' d'"
        "delta_view E m d \<subseteq>\<^sub>m delta_view E m' d'" "avail E (delta_view E m' d') (mins t r (MVal v))" "db_map E d' = db_map E d" by (auto simp: trie_post_def)
    have enc: "MPTShort_Encode E k c' = Inr (Some (enc E (MShort k (mins t r (MVal v)))))" by (rule MPTShort_Encode_rep [OF E(1) nn(2) c'(2) nn(1)])
    have step: "Trie_Insert E ch (c # key) sv m d = (let (c, m) = create_and_get E m' (Some (enc E (MShort k (mins t r (MVal v))))) in Some (Inr (c, m, d')))"
    proof -
      have "k @ r \<noteq> []" using r by (metis list.distinct(1))
      then show ?thesis using ty child(1) c'(1) enc unfolding r by (subst Trie_Insert.simps) auto
    qed
    show ?thesis unfolding step mi using c'(5) by (intro trie_post_create [OF E c'(3) _ nr _ c'(4,6)]) (auto simp: avail_def)
  next
    case False
    have k: "path_ok k \<or> nibbles k" using w(3) by blast
    obtain p a as b bs where p: "c # key = p @ a # as" "k = p @ b # bs" "a \<noteq> b" "PrefixLen (c # key) k = length p" "nibbles p"
      by (rule PrefixLen_part [OF False pk k])
    have mi: "mins (MShort k t) (c # key) (MVal v) = short p (branch (b # bs) t (a # as) (MVal v))" unfolding p(1,2) by (rule mins_parted [OF p(3)])
    have i: "nib a < 17" "nib b < 17" using path_hd pk p(1,2) k by (auto simp: nibbles_def)
    have wb: "wf (branch (b # bs) t (a # as) (MVal v))"
    proof -
      have pa: "path_ok (a # as)" using pk path_append [of "a # as" p] unfolding p(1) by blast
      have pb: "is_val t \<and> path_ok (b # bs) \<or> is_full t \<and> nibbles (b # bs)" using w(3) path_append [of "b # bs" p] unfolding p(2) nibbles_def by auto
      have l: "length (b # bs) < 2 ^ 30" "length (a # as) < 2 ^ 30" using w(1) 4(4) unfolding p(1,2) by simp_all
      show ?thesis using v(1) by (intro wf_branch [OF w(2) _ _ pa p(3) l pb]) auto
    qed
    have "trie_post E U m d (short p (branch (b # bs) t (a # as) (MVal v))) (Some (make_branch E (p @ a # as) (p @ b # bs) child sv m d))"
      using child(2) w(3) v 4(9) unfolding mi by (intro make_branch_ok [OF E 4(6) w(2) _ at(1) _ _ _ v(2) p(3) i _ wb]) (auto simp: child_rep_def)
    moreover have "Trie_Insert E ch (c # key) sv m d = Some (make_branch E (p @ a # as) (p @ b # bs) child sv m d)"
      using ty child(1) False by (subst Trie_Insert.simps) (simp flip: p(1,2))
    ultimately show ?thesis unfolding mi by simp
  qed
next
  case (5 ts c key ch)
  have pk: "path_ok (c # key)" using 5(3) by blast
  have i: "nib c < 17" "char_index c = nib c" using path_index [OF pk] by auto
  have len: "length ts = 17" and wc: "wf (ts ! nib c)" using 5(2) i(1) by (simp_all add: wf_Full)
  have ac: "avail E (delta_view E m d) (ts ! nib c)" using avail_child [OF 5(7)] len i(1) by simp
  have nc: "nodes (ts ! nib c) \<subseteq> U" using nodes_child [OF 5(2) i(1)] 5(8) by (rule subset_trans)
  obtain child oc d1 where oc: "full_child ch (nib c) = Inr child" "(if nib c \<noteq> 16 then GetHashNodeChild E m child d else Inr (child, d)) = Inr (oc, d1)"
      "rep E oc (ts ! nib c)" "tenv E U m d1" "db_map E d1 = db_map E d"
    using load_child [OF E 5(6,2,5,7,8) i(1)] by blast
  let ?t = "mins (ts ! nib c) key (MVal v)"
  have nt: "nodes ?t \<subseteq> U" using 5(9) len i(1) set_update_memI [of "nib c" ts ?t] by auto
  have rec: "path_ok key \<and> \<not> is_val (ts ! nib c) \<or> key = []" using path_tl [OF pk] 5(2) by (auto simp: wf_Full)
  have "trie_post E U m d1 ?t (Trie_Insert E oc key sv m d1)"
    using 5(1) [OF wc rec _ oc(3,4)] 5(4) ac delta_view_cong [OF oc(5)] nc nt by simp
  then obtain c' m' d' where c': "Trie_Insert E oc key sv m d1 = Some (Inr (c', m', d'))" "rep E c' ?t" "tenv E U m' d'"
      "delta_view E m d1 \<subseteq>\<^sub>m delta_view E m' d'" "avail E (delta_view E m' d') ?t" "db_map E d' = db_map E d1" by (auto simp: trie_post_def)
  have grow: "delta_view E m d \<subseteq>\<^sub>m delta_view E m' d'" "db_map E d' = db_map E d" using c'(4,6) oc(5) delta_view_cong [OF oc(5)] by simp_all
  have wn: "wf (MFull (ts[nib c := ?t]))" using wf_mins [OF 5(2) pk 5(4) v(1)] by simp
  then have wt: "wf ?t" using len i(1) by (auto simp: wf_Full nth_list_update dest!: spec [of _ "nib c"])
  have set: "setChildAtIndex E ch (nib c) c' oc = Inr (Some (enc E (MFull (ts[nib c := ?t]))))"
    by (rule setChild_rep [OF E(1) 5(2) wt wn i(1) 5(5) c'(2) oc(3)])
  have step: "Trie_Insert E ch (c # key) sv m d = (let (c, m) = create_and_get E m' (Some (enc E (MFull (ts[nib c := ?t])))) in Some (Inr (c, m, d')))"
    using rep_chunk(1) [OF E(1) 5(2,5)] oc(1,2) c'(1) set i(2) by (subst Trie_Insert.simps) (simp add: Let_def)
  have "\<forall>u\<in>nodes (MFull (ts[nib c := ?t])) - {MFull (ts[nib c := ?t])}. delta_view E m' d' (dig E u) = Some (enc E u)"
    by (rule kids_update [OF avail_mono [OF 5(7) grow(1)] c'(5)])
  then show ?case unfolding step mins.simps using 5(9) by (intro trie_post_create [OF E c'(3) _ _ _ grow]) auto
qed auto

section \<open>Removal\<close>

lemma only_child_links:
  assumes "\<forall>i\<in>set is. \<exists>c. full_child node i = Inr c \<and> node_type c = Inr kMPTHash" "pos \<noteq> -1"
  shows "\<exists>q. only_child node pos is = Inr q \<and> (is = [] \<longrightarrow> q = pos) \<and> (is \<noteq> [] \<longrightarrow> q = -2)"
  using assms
proof (induction "is" arbitrary: pos)
  case (Cons i "is")
  then obtain c where "full_child node i = Inr c" "node_type c = Inr kMPTHash" by auto
  then show ?case using Cons.IH [of "-2"] Cons.prems by auto
qed simp

lemma only_child_append: "only_child node pos (is @ js) = rbind (only_child node pos is) (\<lambda>q. only_child node q js)"
  by (induction "is" arbitrary: pos) (auto simp: rbind_def split: sum.splits)

text \<open>A full node has sixteen links, so it is never replaced by a short node.\<close>

lemma collapse_full:
  assumes "ext_ok E" "wf (MFull ts)" "rep E c (MFull ts)"
  shows "collapse E m c d = Inr (c, d)"
proof -
  have l: "\<exists>x. full_child c i = Inr x \<and> node_type x = Inr kMPTHash" if "i < 16" for i
    using rep_full [OF assms, of i] link_chunk(1) [OF assms(1)] that by auto
  obtain x where x: "full_child c 16 = Inr x" "rep E x (ts ! 16)" using rep_full [OF assms, of 16] by auto
  have w: "wf (ts ! 16)" using assms(2) by (simp add: wf_Full)
  have "[0..<17] = 0 # [1..<16] @ [16]" by (simp add: upt_rec)
  moreover have "only_child c (-1) (0 # [1..<16] @ [16]) = Inr (-2)"
  proof -
    obtain y where y: "full_child c 0 = Inr y" "node_type y = Inr kMPTHash" using l [of 0] by auto
    have "only_child c 0 [1..<16] = Inr (-2)" using only_child_links [of "[1..<16]" c 0] l by fastforce
    then show ?thesis using y x(1) rep_chunk(1) [OF assms(1) w x(2)] by (simp add: only_child_append)
  qed
  ultimately have "only_child c (-1) [0..<17] = Inr (-2)" by (simp only:)
  then show ?thesis by (simp add: collapse_def)
qed

lemma Remove_ok:
  assumes E: "ext_ok E" "univ E U"
  shows "wf t \<Longrightarrow> path_ok key \<and> \<not> is_val t \<or> key = [] \<and> (t = MNil \<or> is_val t) \<Longrightarrow> rep E c t \<Longrightarrow> tenv E U m d \<Longrightarrow> avail E (delta_view E m d) t \<Longrightarrow>
    nodes t \<subseteq> U \<Longrightarrow> nodes (mrem t key) \<subseteq> U \<Longrightarrow> trie_post E U m d (mrem t key) (Trie_TryRemove E c key m d)"
proof (induction t key arbitrary: c m d rule: mrem.induct)
  case (1 key)
  then have "Trie_TryRemove E c key m d = Some (Inr (MPTNil_Encode, m, d))" using rep_chunk(1) [OF E(1) 1(1,3)] by (subst Trie_TryRemove.simps) simp
  then show ?case using 1 by (simp add: trie_post_def avail_def)
next
  case (2 v key)
  then have "Trie_TryRemove E c key m d = Some (Inr (MPTNil_Encode, m, d))" using rep_chunk(1) [OF E(1) 2(1,3)] by (subst Trie_TryRemove.simps) simp
  then show ?case using 2 by (simp add: trie_post_def avail_def)
next
  case (3 k t key ch)
  have w: "wf t" "is_val t \<and> path_ok k \<or> is_full t \<and> k \<noteq> [] \<and> nibbles k" using 3(2) unfolding wf_Short by blast+
  have key: "path_ok key" using 3(3) by auto
  obtain child where child: "MPTShortNode ch = Inr (k, child)" "if is_val t then rep E child t else link E child t"
    using rep_short [OF E(1) 3(2,4)] by blast
  have ty: "node_type ch = Inr kMPTShort" using rep_chunk(1) [OF E(1) 3(2,4)] by simp
  consider "PrefixLen key k < length k" | "PrefixLen key k = length k" "PrefixLen key k = length key" | r where "PrefixLen key k = length k" "key = k @ r" "r \<noteq> []"
    using PrefixLen_split [of key k] PrefixLen_full [of key k] take_append_eq [of k key] by fastforce
  then show ?case
  proof cases
    case 1
    then have "Trie_TryRemove E ch key m d = Some (Inr (Some (head ch), m, d))" using ty child(1) by (subst Trie_TryRemove.simps) simp
    then show ?thesis using 1 3(5,6) rep_head [OF E(1) 3(2,4)] by (simp add: trie_post_def)
  next
    case 2
    then have "Trie_TryRemove E ch key m d = Some (Inr (MPTNil_Encode, m, d))" using ty child(1) by (subst Trie_TryRemove.simps) simp
    then show ?thesis using 2 3(5) by (simp add: trie_post_def avail_def)
  next
    case (3 r)
    note r = 3
    have f: "is_full t" "nibbles k" using w(2) key path_prefix [of k r] r by auto
    then have l: "link E child t" using child(2) by auto
    have pr: "path_ok r" using key r path_append [of r k] by simp
    have mr: "mrem (MShort k t) key = MShort k (mrem t r)" using r by simp
    have wr: "wf (mrem t r)" "is_full (mrem t r)" using wf_mrem [OF w(1)] pr f(1) by blast+
    have at: "avail E (delta_view E m d) t" "nodes t \<subseteq> U" "t \<in> nodes t" using \<open>avail E _ (MShort k t)\<close> \<open>nodes (MShort k t) \<subseteq> U\<close> f(1) by (auto simp: avail_def)
    have nr: "nodes (MShort k (mrem t r)) \<subseteq> U" using \<open>nodes (mrem (MShort k t) key) \<subseteq> U\<close> unfolding mr .
    obtain c1 d1 where c1: "GetHashNodeChild E m child d = Inr (c1, d1)" "rep E c1 t" "tenv E U m d1" "db_map E d1 = db_map E d"
      using GetHashNodeChild_ok [OF E \<open>tenv E U m d\<close> _ l] at by (auto simp: avail_def)
    have "trie_post E U m d1 (mrem t r) (Trie_TryRemove E c1 r m d1)"
      using "3.IH" [OF refl _ _ w(1) _ c1(2,3)] r pr f(1) at(1,2) delta_view_cong [OF c1(4)] nr by auto
    then obtain c' m' d' where c': "Trie_TryRemove E c1 r m d1 = Some (Inr (c', m', d'))" "rep E c' (mrem t r)" "tenv E U m' d'"
        "delta_view E m d1 \<subseteq>\<^sub>m delta_view E m' d'" "avail E (delta_view E m' d') (mrem t r)" "db_map E d' = db_map E d1" by (auto simp: trie_post_def)
    have lk: "Trie_TryRemove E child r m d = Trie_TryRemove E c1 r m d1" using link_chunk(1) [OF E(1) l] c1(1) by (subst Trie_TryRemove.simps) simp
    have nt: "node_type c' = Inr kMPTFull" using rep_chunk(1) [OF E(1) wr(1) c'(2)] wr(2) by auto
    have "mrem t r \<noteq> MNil" using wr(2) by auto
    then have enc: "MPTShort_Encode E k c' = Inr (Some (enc E (MShort k (mrem t r))))" by (rule MPTShort_Encode_rep [OF E(1) wr(1) c'(2)])
    have "Trie_TryRemove E ch key m d = (let (c, m) = create_and_get E m' (Some (enc E (MShort k (mrem t r)))) in Some (Inr (c, m, d')))"
      using ty child(1) r c'(1) lk nt enc by (subst Trie_TryRemove.simps) simp
    moreover have "delta_view E m d \<subseteq>\<^sub>m delta_view E m' d'" "db_map E d' = db_map E d" using c'(4,6) c1(4) delta_view_cong [OF c1(4)] by simp_all
    ultimately show ?thesis unfolding mr using c'(5) trie_post_create [OF E c'(3) _ nr, of m d] by (simp add: avail_def)
  qed
next
  case (5 ts c key ch)
  have pk: "path_ok (c # key)" using 5(3) by blast
  have i: "nib c < 17" "char_index c = nib c" using path_index [OF pk] by auto
  have len: "length ts = 17" and wc: "wf (ts ! nib c)" using 5(2) i(1) by (simp_all add: wf_Full)
  obtain child oc d1 where oc: "full_child ch (nib c) = Inr child" "(if nib c \<noteq> 16 then GetHashNodeChild E m child d else Inr (child, d)) = Inr (oc, d1)"
      "rep E oc (ts ! nib c)" "tenv E U m d1" "db_map E d1 = db_map E d"
    using load_child [OF E 5(5,2,4,6,7) i(1)] by blast
  let ?t = "mrem (ts ! nib c) key"
  have nt: "nodes ?t \<subseteq> U" using 5(8) len i(1) set_update_memI [of "nib c" ts ?t] by auto
  have rec: "path_ok key \<and> \<not> is_val (ts ! nib c) \<or> key = [] \<and> (ts ! nib c = MNil \<or> is_val (ts ! nib c))" using path_tl [OF pk] 5(2) by (auto simp: wf_Full)
  have "trie_post E U m d1 ?t (Trie_TryRemove E oc key m d1)"
    using 5(1) [OF wc rec oc(3,4)] avail_child [OF 5(6)] delta_view_cong [OF oc(5)] subset_trans [OF nodes_child [OF 5(2) i(1)] 5(7)] nt len i(1) by simp
  then obtain c' m' d' where c': "Trie_TryRemove E oc key m d1 = Some (Inr (c', m', d'))" "rep E c' ?t" "tenv E U m' d'"
      "delta_view E m d1 \<subseteq>\<^sub>m delta_view E m' d'" "avail E (delta_view E m' d') ?t" "db_map E d' = db_map E d1" by (auto simp: trie_post_def)
  have grow: "delta_view E m d \<subseteq>\<^sub>m delta_view E m' d'" "db_map E d' = db_map E d" using c'(4,6) oc(5) delta_view_cong [OF oc(5)] by simp_all
  have wn: "wf (MFull (ts[nib c := ?t]))" using wf_mrem [OF 5(2), of "c # key"] pk by simp
  then have wt: "wf ?t" using len i(1) by (auto simp: wf_Full nth_list_update dest!: spec [of _ "nib c"])
  have set: "setChildAtIndex E ch (nib c) c' oc = Inr (Some (enc E (MFull (ts[nib c := ?t]))))"
    by (rule setChild_rep [OF E(1) 5(2) wt wn i(1) 5(4) c'(2) oc(3)])
  have step: "Trie_TryRemove E ch (c # key) m d = (let (c, m) = create_and_get E m' (Some (enc E (MFull (ts[nib c := ?t])))) in Some (Inr (c, m, d')))"
    using rep_chunk(1) [OF E(1) 5(2,4)] oc(1,2) c'(1) set i(2) collapse_full [OF E(1) wn rep_self]
    by (subst Trie_TryRemove.simps) (simp add: Let_def str_at_def substr_from_def)
  have "\<forall>u\<in>nodes (MFull (ts[nib c := ?t])) - {MFull (ts[nib c := ?t])}. delta_view E m' d' (dig E u) = Some (enc E u)"
    by (rule kids_update [OF avail_mono [OF 5(6) grow(1)] c'(5)])
  then show ?case unfolding step mrem.simps using 5(8) by (intro trie_post_create [OF E c'(3) _ _ _ grow]) auto
qed auto

section \<open>Commit\<close>

text \<open>A node in the store has everything below it in the store.\<close>

definition closed :: "'s ext \<Rightarrow> mpt set \<Rightarrow> 's DB \<Rightarrow> bool" where
  "closed E U d \<longleftrightarrow> (\<forall>u\<in>U. u \<noteq> MNil \<and> db_map E d (dig E u) = Some (enc E u) \<longrightarrow> avail E (db_map E d) u)"

definition trie_commits :: "'s ext \<Rightarrow> mpt set \<Rightarrow> mpt_delta \<Rightarrow> 's DB \<Rightarrow> 's DB \<Rightarrow> mpt \<Rightarrow> bool" where
  "trie_commits E U m d d' t \<longleftrightarrow> tenv E U m d' \<and> closed E U d' \<and> db_map E d \<subseteq>\<^sub>m db_map E d' \<and> avail E (db_map E d') t"

lemma delta_view_mono: "db_map E d \<subseteq>\<^sub>m db_map E d' \<Longrightarrow> delta_view E m d \<subseteq>\<^sub>m delta_view E m d'"
  by (auto simp: delta_view_def map_le_def dom_def split: option.splits)

lemma commit_put_ok:
  assumes E: "ext_ok E" "univ E U" "tenv E U m d" "closed E U d" and t: "t \<in> nodes t" "nodes t \<subseteq> U" "rep E c t" "delta_view E m d (dig E t) = Some (enc E t)"
    and kids: "\<forall>u\<in>nodes t - {t}. db_map E d (dig E u) = Some (enc E u)"
  shows "trie_commits E U m d (commit_put E m c d) t"
proof -
  have tU: "t \<in> U" "t \<noteq> MNil" "wf t" using t(1,2) E(2) by (auto simp: univ_def)
  have h: "chunk_hash E c = Some (dig E t)" by (rule rep_chunk(5) [OF E(1) tU(3) t(3)])
  have nil: "chunk_hash E MPTNil_Encode = Some (dig E MNil)" by (rule rep_chunk(5) [OF E(1) _ wf_nil]) simp
  have "dig E t \<noteq> dig E MNil" using univD [OF E(2) tU(1), of MNil] E(2) tU(2) by (auto simp: univ_def)
  then have ne: "\<not> Hash_eq (Some (dig E t)) (Some (dig E MNil))" using E(1) by (simp add: Hash_eq_iff)
  show ?thesis
  proof (cases "m (dig E t)")
    case None
    then have "db_map E d (dig E t) = Some (enc E t)" using t(4) by (simp add: delta_view_def)
    moreover have "commit_put E m c d = d" using None h tenv_delta(1) [OF E(1-3) tU(1)] by (simp add: commit_put_def Let_def Chunk_empty_def)
    ultimately show ?thesis using E(3,4) tU by (auto simp: trie_commits_def closed_def)
  next
    case (Some b)
    let ?d = "commit_put E m c d"
    have d': "?d = snd (DB_Put_hash E d (Some (dig E t)) (Some (enc E t)))"
      using Some h nil ne tenv_delta(1) [OF E(1-3) tU(1)] by (simp add: commit_put_def Let_def Chunk_empty_def)
    have db: "db_map E ?d = (db_map E d)(dig E t \<mapsto> enc E t)"
      using E(1) rep_chunk(4) [OF E(1) tU(3) rep_self] by (simp add: d' del: not_None_eq)
    have cache: "cache ?d = cache d" unfolding d' by (simp add: DB_Put_hash_def Let_def split: prod.splits)
    have le: "db_map E d \<subseteq>\<^sub>m db_map E ?d" using E(3) tU(1) unfolding db tenv_def map_le_def by (auto simp: dom_def)
    have same: "dig E u = dig E t \<Longrightarrow> u \<in> U \<Longrightarrow> u = t" for u using univD [OF E(2) _ tU(1)] by blast
    have "tenv E U m ?d"
      unfolding tenv_def db cache
    proof (intro conjI ballI allI impI)
      fix u c assume u: "u \<in> U" "cache d (ToBase32 (Some (dig E u))) = Some c"
      then have c: "c = db_map E d (dig E u)" "c = None \<Longrightarrow> u = MNil" using E(3) by (auto simp: tenv_def)
      show "c = ((db_map E d)(dig E t \<mapsto> enc E t)) (dig E u)"
      proof (cases "u = t")
        case True
        then show ?thesis using c tU E(3) by (auto simp: tenv_def)
      next
        case False
        then show ?thesis using c(1) same u(1) by auto
      qed
      show "c = None \<Longrightarrow> u = MNil" by (rule c(2))
    qed (use E(3) same tU in \<open>auto simp: tenv_def\<close>)
    moreover have av: "avail E (db_map E ?d) t" using kids same t(2) unfolding avail_def db by auto
    moreover have "closed E U ?d"
      unfolding closed_def
    proof (intro ballI impI)
      fix u assume u: "u \<in> U" "u \<noteq> MNil \<and> db_map E ?d (dig E u) = Some (enc E u)"
      show "avail E (db_map E ?d) u"
      proof (cases "u = t")
        case False
        then have "dig E u \<noteq> dig E t" using same u(1) by blast
        then have "db_map E d (dig E u) = Some (enc E u)" using u(2) unfolding db by simp
        then show ?thesis using E(4) u avail_mono [OF _ le] by (auto simp: closed_def)
      qed (use av in simp)
    qed
    ultimately show ?thesis using le by (simp add: trie_commits_def)
  qed
qed

text \<open>Visiting a link, given that visiting the node works.\<close>

lemma commit_link:
  assumes E: "ext_ok E" "univ E U" "tenv E U m d" "closed E U d" and t: "t \<in> nodes t" "nodes t \<subseteq> U" "link E c t" "avail E (delta_view E m d) t"
    and visit: "\<exists>d'. Delta_Commit E m (CVisit (Some (enc E t)) # rest) d = Delta_Commit E m rest d' \<and> trie_commits E U m d d' t"
  shows "\<exists>d'. Delta_Commit E m (CVisit c # rest) d = Delta_Commit E m rest d' \<and> trie_commits E U m d d' t"
proof (cases "m (dig E t)")
  case None
  have tU: "t \<in> U" "t \<noteq> MNil" using t(1,2) by auto
  have "db_map E d (dig E t) = Some (enc E t)" using t(1,4) None by (auto simp: avail_def delta_view_def)
  then have "trie_commits E U m d d t" using E(3,4) tU by (auto simp: trie_commits_def closed_def)
  moreover have "Delta_Commit E m (CVisit c # rest) d = Delta_Commit E m rest d"
    using link_chunk(1,2) [OF E(1) t(3)] tenv_delta(1) [OF E(1-3) tU(1)] None by (subst Delta_Commit.simps) (simp add: Let_def Chunk_empty_def)
  ultimately show ?thesis by blast
next
  case (Some b)
  have "t \<in> U" using t(1,2) by auto
  then have "Delta_Commit E m (CVisit c # rest) d = Delta_Commit E m (CVisit (Some (enc E t)) # rest) d"
    using link_chunk(1,2) [OF E(1) t(3)] tenv_delta(1) [OF E(1-3)] Some by (subst Delta_Commit.simps) (simp add: Let_def Chunk_empty_def)
  then show ?thesis using visit by simp
qed

definition visits :: "'s ext \<Rightarrow> mpt set \<Rightarrow> mpt_delta \<Rightarrow> mpt \<Rightarrow> bool" where
  "visits E U m t \<longleftrightarrow> (\<forall>c d rest. rep E c t \<and> tenv E U m d \<and> closed E U d \<and> avail E (delta_view E m d) t \<longrightarrow>
     (\<exists>d'. Delta_Commit E m (CVisit c # rest) d = Delta_Commit E m rest d' \<and> trie_commits E U m d d' t))"

lemma commit_links:
  assumes E: "ext_ok E" "univ E U" and us: "list_all2 (link E) cs us" "\<forall>u\<in>set us. u \<in> nodes u \<and> nodes u \<subseteq> U \<and> visits E U m u"
    and d: "tenv E U m d" "closed E U d" "\<forall>u\<in>set us. avail E (delta_view E m d) u"
  shows "\<exists>d'. Delta_Commit E m (map CVisit cs @ rest) d = Delta_Commit E m rest d' \<and> tenv E U m d' \<and> closed E U d' \<and> db_map E d \<subseteq>\<^sub>m db_map E d' \<and>
    (\<forall>u\<in>set us. avail E (db_map E d') u)"
  using us d
proof (induction cs us arbitrary: d rule: list_all2_induct)
  case (Cons c cs u us)
  have u: "u \<in> nodes u" "nodes u \<subseteq> U" "visits E U m u" "avail E (delta_view E m d) u" using Cons.prems by auto
  have "\<exists>d'. Delta_Commit E m (CVisit (Some (enc E u)) # map CVisit cs @ rest) d = Delta_Commit E m (map CVisit cs @ rest) d' \<and> trie_commits E U m d d' u"
    using u(3,4) Cons.prems(2,3) unfolding visits_def by (metis rep_self)
  then obtain d1 where d1: "Delta_Commit E m (CVisit c # map CVisit cs @ rest) d = Delta_Commit E m (map CVisit cs @ rest) d1" "trie_commits E U m d d1 u"
    using commit_link [OF E Cons.prems(2,3) u(1,2) Cons.hyps(1) u(4)] by blast
  then have c: "tenv E U m d1" "closed E U d1" "db_map E d \<subseteq>\<^sub>m db_map E d1" "avail E (db_map E d1) u" by (simp_all add: trie_commits_def)
  have "\<forall>u\<in>set us. avail E (delta_view E m d1) u" using Cons.prems(4) by (auto intro: avail_mono [OF _ delta_view_mono [OF c(3)]])
  then obtain d' where d': "Delta_Commit E m (map CVisit cs @ rest) d1 = Delta_Commit E m rest d'" "tenv E U m d'" "closed E U d'" "db_map E d1 \<subseteq>\<^sub>m db_map E d'"
      "\<forall>u\<in>set us. avail E (db_map E d') u"
    using Cons.IH [OF _ c(1,2)] Cons.prems(1) by auto
  then show ?case using d1(1) avail_mono [OF c(4) d'(4)] map_le_trans [OF c(3) d'(4)] by auto
qed auto

lemma commit_children_ok:
  assumes E: "ext_ok E" "univ E U" and t: "wf (MFull ts)" "rep E c (MFull ts)" "nodes (MFull ts) \<subseteq> U" and "is": "\<forall>i\<in>set is. i < 17"
  shows "\<exists>cs. mpt_commit_children E c is = Inr (map CVisit cs) \<and> list_all2 (link E) cs (map ((!) ts) (filter (\<lambda>i. i < 16 \<and> ts ! i \<noteq> MNil) is))"
  using "is"
proof (induction "is")
  case (Cons i "is")
  then obtain cs where cs: "mpt_commit_children E c is = Inr (map CVisit cs)" "list_all2 (link E) cs (map ((!) ts) (filter (\<lambda>i. i < 16 \<and> ts ! i \<noteq> MNil) is))" by auto
  have i: "i < 17" using Cons.prems by simp
  obtain child where child: "full_child c i = Inr child" "if i = 16 then rep E child (ts ! i) else link E child (ts ! i)"
    using rep_full [OF E(1) t(1,2) i] by blast
  have nil: "chunk_hash E MPTNil_Encode = Some (dig E MNil)" by (rule rep_chunk(5) [OF E(1) _ wf_nil]) simp
  show ?case
  proof (cases "i = 16")
    case True
    then have "wf (ts ! 16)" "ts ! 16 = MNil \<or> is_val (ts ! 16)" using t(1) by (auto simp: wf_Full)
    then have "node_type child = Inr kMPTNil \<or> node_type child = Inr kMPTValue" using rep_chunk(1) [OF E(1)] child(2) True by fastforce
    then show ?thesis using child(1) cs True by auto
  next
    case False
    then have l: "link E child (ts ! i)" "\<not> is_val (ts ! i)" "MNil \<in> U" using child(2) t(1) i E(2) by (auto simp: wf_Full univ_def)
    then have "ts ! i \<in> U" using nodes_self [OF _ l(2)] subset_trans [OF nodes_child [OF t(1) i] t(3)] by (cases "ts ! i = MNil") auto
    then have "Hash_eq (Some (dig E (ts ! i))) (Some (dig E MNil)) \<longleftrightarrow> ts ! i = MNil" using univD [OF E(2) _ l(3)] E(1) by (auto simp: Hash_eq_iff)
    then show ?thesis using child(1) link_chunk(1,2) [OF E(1) l(1)] cs False i nil l(1) by (cases "ts ! i = MNil") (auto intro: exI [of _ "child # cs"])
  qed
qed simp

lemma Commit_visits: "ext_ok E \<Longrightarrow> univ E U \<Longrightarrow> wf t \<Longrightarrow> t \<in> nodes t \<Longrightarrow> nodes t \<subseteq> U \<Longrightarrow> visits E U m t"
proof (induction t)
  case (MShort k t)
  have w: "wf t" "is_val t \<or> is_full t" using MShort.prems(3) unfolding wf_Short by blast+
  show ?case
    unfolding visits_def
  proof (intro allI impI, elim conjE)
    fix c d rest assume a: "rep E c (MShort k t)" "tenv E U m d" "closed E U d" "avail E (delta_view E m d) (MShort k t)"
    obtain child where child: "MPTShortNode c = Inr (k, child)" "if is_val t then rep E child t else link E child t"
      using rep_short [OF MShort.prems(1,3) a(1)] by blast
    have at: "avail E (delta_view E m d) t" "nodes t \<subseteq> U" using a(4) MShort.prems(5) by (auto simp: avail_def)
    have "\<exists>d1. Delta_Commit E m (CVisit child # CPut c # rest) d = Delta_Commit E m (CPut c # rest) d1 \<and> trie_commits E U m d d1 t"
    proof (cases "is_val t")
      case True
      then have "Delta_Commit E m (CVisit child # CPut c # rest) d = Delta_Commit E m (CPut c # rest) d"
        using rep_chunk(1) [OF MShort.prems(1) w(1)] child(2) by (subst Delta_Commit.simps) auto
      moreover have "trie_commits E U m d d t" using a(2,3) True by (auto simp: trie_commits_def avail_def)
      ultimately show ?thesis by blast
    next
      case False
      then have f: "t \<in> nodes t" "link E child t" using w(2) child(2) by auto
      have "visits E U m t" using MShort.IH [OF MShort.prems(1,2) w(1) f(1) at(2)] .
      then show ?thesis using a(2,3) at by (intro commit_link [OF MShort.prems(1,2) a(2,3) f(1) at(2) f(2) at(1)]) (auto simp: visits_def)
    qed
    then obtain d1 where d1: "Delta_Commit E m (CVisit child # CPut c # rest) d = Delta_Commit E m (CPut c # rest) d1" "trie_commits E U m d d1 t" by blast
    then have c1: "tenv E U m d1" "closed E U d1" "db_map E d \<subseteq>\<^sub>m db_map E d1" "avail E (db_map E d1) t" by (simp_all add: trie_commits_def)
    have "delta_view E m d1 (dig E (MShort k t)) = Some (enc E (MShort k t))" using avail_mono [OF a(4) delta_view_mono [OF c1(3)]] by (simp add: avail_def)
    then have "trie_commits E U m d1 (commit_put E m c d1) (MShort k t)"
      using c1(4) by (intro commit_put_ok [OF MShort.prems(1,2) c1(1,2) MShort.prems(4,5) a(1)]) (auto simp: avail_def)
    moreover have "Delta_Commit E m (CVisit c # rest) d = Delta_Commit E m rest (commit_put E m c d1)"
      using rep_chunk(1) [OF MShort.prems(1,3) a(1)] child(1) d1(1) by (subst Delta_Commit.simps, simp) (subst Delta_Commit.simps, simp)
    ultimately show "\<exists>d'. Delta_Commit E m (CVisit c # rest) d = Delta_Commit E m rest d' \<and> trie_commits E U m d d' (MShort k t)"
      using c1(3) map_le_trans by (auto simp: trie_commits_def)
  qed
next
  case (MFull ts)
  have w: "length ts = 17" "\<And>i. i < 17 \<Longrightarrow> wf (ts ! i)" "\<And>i. i < 16 \<Longrightarrow> \<not> is_val (ts ! i)" using MFull.prems(3) by (auto simp: wf_Full)
  let ?us = "map ((!) ts) (filter (\<lambda>i. i < 16 \<and> ts ! i \<noteq> MNil) [0..<17])"
  have us: "\<forall>u\<in>set ?us. u \<in> nodes u \<and> nodes u \<subseteq> U \<and> visits E U m u \<and> nodes u \<subseteq> nodes (MFull ts)"
  proof
    fix u assume "u \<in> set ?us"
    then obtain i where i: "i < 16" "ts ! i \<noteq> MNil" "u = ts ! i" by auto
    then have n: "u \<in> nodes u" "nodes u \<subseteq> nodes (MFull ts)" using nodes_self [OF i(2) w(3) [OF i(1)]] nodes_child [OF MFull.prems(3), of i] by auto
    moreover have "visits E U m u"
      by (rule MFull.IH [OF _ MFull.prems(1,2) _ n(1) subset_trans [OF n(2) MFull.prems(5)]]) (use i w(1,2) in simp_all)
    ultimately show "u \<in> nodes u \<and> nodes u \<subseteq> U \<and> visits E U m u \<and> nodes u \<subseteq> nodes (MFull ts)" using MFull.prems(5) by blast
  qed
  have cover: "\<exists>x\<in>set ?us. u \<in> nodes x" if u: "u \<in> nodes (MFull ts) - {MFull ts}" for u
  proof -
    obtain i where i: "i < 17" "u \<in> nodes (ts ! i)" using u w(1) by (auto simp: in_set_conv_nth)
    have "i \<noteq> 16" "ts ! i \<noteq> MNil" using i MFull.prems(3) by (auto simp: wf_Full)
    then show ?thesis using i by auto
  qed
  show ?case
    unfolding visits_def
  proof (intro allI impI, elim conjE)
    fix c d rest assume a: "rep E c (MFull ts)" "tenv E U m d" "closed E U d" "avail E (delta_view E m d) (MFull ts)"
    obtain cs where cs: "mpt_commit_children E c [0..<17] = Inr (map CVisit cs)" "list_all2 (link E) cs ?us"
      using commit_children_ok [OF MFull.prems(1,2,3) a(1) MFull.prems(5), of "[0..<17]"] by auto
    have "\<forall>u\<in>set ?us. avail E (delta_view E m d) u" using us avail_sub [OF a(4)] by blast
    then obtain d1 where d1: "Delta_Commit E m (map CVisit cs @ CPut c # rest) d = Delta_Commit E m (CPut c # rest) d1" "tenv E U m d1" "closed E U d1"
        "db_map E d \<subseteq>\<^sub>m db_map E d1" "\<forall>u\<in>set ?us. avail E (db_map E d1) u"
      using commit_links [OF MFull.prems(1,2) cs(2) _ a(2,3)] us by blast
    have "delta_view E m d1 (dig E (MFull ts)) = Some (enc E (MFull ts))" using avail_mono [OF a(4) delta_view_mono [OF d1(4)]] by (simp add: avail_def)
    moreover have "\<forall>u\<in>nodes (MFull ts) - {MFull ts}. db_map E d1 (dig E u) = Some (enc E u)" using cover d1(5) unfolding avail_def by blast
    ultimately have "trie_commits E U m d1 (commit_put E m c d1) (MFull ts)" by (rule commit_put_ok [OF MFull.prems(1,2) d1(2,3) MFull.prems(4,5) a(1)])
    moreover have "Delta_Commit E m (CVisit c # rest) d = Delta_Commit E m rest (commit_put E m c d1)"
      using rep_chunk(1) [OF MFull.prems(1,3) a(1)] cs(1) d1(1) by (subst Delta_Commit.simps, simp) (subst Delta_Commit.simps, simp)
    ultimately show "\<exists>d'. Delta_Commit E m (CVisit c # rest) d = Delta_Commit E m rest d' \<and> trie_commits E U m d d' (MFull ts)"
      using d1(4) map_le_trans by (auto simp: trie_commits_def)
  qed
qed simp_all

end
