(* ===== verification/MPT_Properties.thy ===== *)
theory MPT_Properties
  imports MPT_Correct
begin

text \<open>
  Histories of the Merkle Patricia trie: after any sequence of batches and removals the trie read from the store is the map
  that the sequence describes, and the proof of an entry verifies.  The check of proofs does not bind the value to the key.
\<close>

section \<open>Lookup and proofs\<close>

text \<open>Following a link into the store.\<close>

lemma load_link:
  assumes E: "ext_ok E" "univ E U" "tenv E U m d" and t: "\<not> is_val t" "nodes t \<subseteq> U" "avail E (db_map E d) t"
  shows "\<exists>d'. DB_Get_hash E d (Some (dig E t)) = (if t = MNil then None else Some (enc E t), d') \<and> tenv E U m d' \<and> db_map E d' = db_map E d"
proof -
  have "t \<in> U" "t = MNil \<or> db_map E d (dig E t) = Some (enc E t)"
    using nodes_self [OF _ t(1)] t(2,3) E(2) by (cases "t = MNil"; auto simp: avail_def univ_def)+
  then show ?thesis by (rule DB_Get_hash_ok [OF E])
qed

text \<open>The value read for an entry.\<close>

definition or_empty :: "string option \<Rightarrow> string" where
  "or_empty r = (case r of None \<Rightarrow> [] | Some v \<Rightarrow> v)"

lemma or_empty_simps [simp]: "or_empty None = []" "or_empty (Some v) = v"
  by (simp_all add: or_empty_def)

text \<open>The nodes on the way to a key, each with the position taken in it.\<close>

function mpath :: "mpt \<Rightarrow> string \<Rightarrow> (mpt \<times> nat) list" where
  "mpath MNil key = []"
| "mpath (MVal v) key = []"
| "mpath (MShort k t) key = (MShort k t, 0) # (if take (length k) key = k then mpath t (drop (length k) key) else [])"
| "mpath (MFull ts) [] = []"
| "mpath (MFull ts) (c # key) = (MFull ts, nib c) # mpath (ts ! nib c) key"
  by pat_completeness auto
termination by (relation "measures [\<lambda>(t, key). length key, \<lambda>(t, key). size t]") auto

text \<open>Where a lookup may stand: at a path below a node, or at its end at a value.\<close>

definition at_path :: "mpt \<Rightarrow> string \<Rightarrow> bool" where
  "at_path t key \<longleftrightarrow> wf t \<and> (path_ok key \<and> \<not> is_val t \<or> key = [] \<and> (t = MNil \<or> is_val t))"

lemma at_path_full:
  assumes "at_path (MFull ts) key"
  obtains c cs where "key = c # cs" "nib c < 17" "char_index c = nib c" "at_path (ts ! nib c) cs" "wf (MFull ts)"
proof -
  have w: "wf (MFull ts)" "path_ok key" using assms by (auto simp: at_path_def)
  then obtain c cs where c: "key = c # cs" by (cases key) auto
  then have "nib c < 17" "char_index c = nib c" using path_index w(2) by auto
  moreover have "at_path (ts ! nib c) cs"
    using w path_tl [of c cs] \<open>nib c < 17\<close> unfolding c at_path_def wf_Full by force
  ultimately show ?thesis using that c w(1) by blast
qed

lemma at_path_short:
  assumes "at_path (MShort k t) key"
  shows "wf (MShort k t)" "wf t" "path_ok key" "is_val t \<or> is_full t" "take (length k) key = k \<Longrightarrow> at_path t (drop (length k) key)"
proof -
  have w: "wf (MShort k t)" "path_ok key" using assms by (auto simp: at_path_def)
  show "wf (MShort k t)" "path_ok key" by fact+
  have k: "wf t" "is_val t \<and> path_ok k \<or> is_full t \<and> k \<noteq> [] \<and> nibbles k" using w(1) unfolding wf_Short by blast+
  then show "wf t" "is_val t \<or> is_full t" by blast+
  show "at_path t (drop (length k) key)" if tk: "take (length k) key = k"
  proof -
    obtain r where r: "key = k @ r" using tk by (auto simp: take_append_eq)
    show ?thesis
    proof (cases "is_val t")
      case True
      then show ?thesis using k r w(2) path_prefix [of k r] by (auto simp: at_path_def)
    next
      case False
      then have "nibbles k" "is_full t" using k(2) by auto
      moreover from this have "r \<noteq> []" using r w(2) path_not_nibbles by auto
      ultimately show ?thesis using r w(2) path_append [of r k] k(1) by (auto simp: at_path_def)
    qed
  qed
qed

lemma nodes_short: "nodes (MShort k t) \<subseteq> U \<Longrightarrow> nodes t \<subseteq> U" "avail E V (MShort k t) \<Longrightarrow> avail E V t"
  by (auto simp: avail_def)

definition seen :: "'s ext \<Rightarrow> mpt set \<Rightarrow> mpt_delta \<Rightarrow> 's DB \<Rightarrow> 's DB \<Rightarrow> bool" where
  "seen E U m d d' \<longleftrightarrow> tenv E U m d' \<and> db_map E d' = db_map E d"

lemma TryGet_link:
  assumes E: "ext_ok E" "univ E U" "tenv E U m d" and t: "\<not> is_val t" "nodes t \<subseteq> U" "avail E (db_map E d) t" "link E c t"
  shows "\<exists>c' d'. Trie_TryGet E c key pos d = Trie_TryGet E c' key pos d' \<and> rep E c' t \<and> seen E U m d d'"
    and "\<exists>c' d'. Trie_TryGetProof E c key pos p d = Trie_TryGetProof E c' key pos p d' \<and> rep E c' t \<and> seen E U m d d'"
proof -
  obtain d' where d': "DB_Get_hash E d (Some (dig E t)) = (if t = MNil then None else Some (enc E t), d')" "seen E U m d d'"
    using load_link [OF E t(1-3)] by (auto simp: seen_def)
  note l = link_chunk(1,2) [OF E(1) t(4)]
  have r: "rep E (if t = MNil then MPTNil_Encode else Some (enc E t)) t" by simp
  have "Trie_TryGet E c key pos d = Trie_TryGet E (if t = MNil then MPTNil_Encode else Some (enc E t)) key pos d'"
    using d'(1) l by (subst Trie_TryGet.simps) (auto simp: Let_def Chunk_empty_def)
  then show "\<exists>c' d'. Trie_TryGet E c key pos d = Trie_TryGet E c' key pos d' \<and> rep E c' t \<and> seen E U m d d'" using r d'(2) by blast
  have "Trie_TryGetProof E c key pos p d = Trie_TryGetProof E (if t = MNil then MPTNil_Encode else Some (enc E t)) key pos p d'"
    using d'(1) l by (subst Trie_TryGetProof.simps) (auto simp: Let_def Chunk_empty_def)
  then show "\<exists>c' d'. Trie_TryGetProof E c key pos p d = Trie_TryGetProof E c' key pos p d' \<and> rep E c' t \<and> seen E U m d d'" using r d'(2) by blast
qed

lemma seen_trans: "seen E U m d d' \<Longrightarrow> seen E U m d' d'' \<Longrightarrow> seen E U m d d''"
  by (simp add: seen_def)

lemma TryGet_ok:
  assumes E: "ext_ok E" "univ E U"
  shows "at_path t rest \<Longrightarrow> rep E c t \<Longrightarrow> tenv E U m d \<Longrightarrow> avail E (db_map E d) t \<Longrightarrow> nodes t \<subseteq> U \<Longrightarrow>
    \<exists>d'. Trie_TryGet E c (pre @ rest) (length pre) d = Some (Inr (or_empty (mget t rest), d')) \<and> seen E U m d d'"
proof (induction t rest arbitrary: c d pre rule: mget.induct)
  case (1 key)
  then show ?case using rep_chunk(1) [OF E(1) _ 1(2)] by (subst Trie_TryGet.simps) (simp add: seen_def)
next
  case (2 v key)
  then have "key = []" "wf (MVal v)" by (auto simp: at_path_def)
  then show ?case using rep_chunk(1) [OF E(1) _ 2(2)] rep_val [OF E(1) _ 2(2)] 2(3) by (subst Trie_TryGet.simps) (simp add: seen_def)
next
  case (3 k t key)
  note w = at_path_short [OF 3(2)]
  obtain child where child: "MPTShortNode c = Inr (k, child)" "if is_val t then rep E child t else link E child t"
    using rep_short [OF E(1) w(1) 3(3)] by blast
  have ty: "node_type c = Inr kMPTShort" using rep_chunk(1) [OF E(1) w(1) 3(3)] by simp
  show ?case
  proof (cases "take (length k) key = k")
    case True
    then obtain r where r: "key = k @ r" by (auto simp: take_append_eq)
    have n: "nodes t \<subseteq> U" "avail E (db_map E d) t" using nodes_short 3(5,6) by blast+
    obtain c' d1 where c': "Trie_TryGet E child (pre @ key) (length pre + length k) d = Trie_TryGet E c' (pre @ key) (length pre + length k) d1" "rep E c' t" "seen E U m d d1"
      using TryGet_link(1) [OF E 3(4) _ n, of child "pre @ key" "length pre + length k"] child(2) 3(4) by (cases "is_val t") (auto simp: seen_def)
    obtain d' where d': "Trie_TryGet E c' ((pre @ k) @ r) (length (pre @ k)) d1 = Some (Inr (or_empty (mget t r), d'))" "seen E U m d1 d'"
      using 3(1) [OF True, of c' d1 "pre @ k"] w(5) [OF True] c'(2,3) n r by (auto simp: seen_def)
    have "Trie_TryGet E c (pre @ key) (length pre) d = Trie_TryGet E child (pre @ key) (length pre + length k) d"
      using ty child(1) r by (subst Trie_TryGet.simps) simp
    then show ?thesis using c'(1,3) d' seen_trans r by auto
  next
    case False
    then show ?thesis using ty child(1) 3(4) by (subst Trie_TryGet.simps) (auto simp: seen_def)
  qed
next
  case (4 ts)
  then show ?case by (simp add: at_path_def)
next
  case (5 ts a key)
  obtain i: "nib a < 17" "char_index a = nib a" "at_path (ts ! nib a) key" "wf (MFull ts)" by (rule at_path_full [OF 5(2)]) auto
  obtain child where child: "full_child c (nib a) = Inr child" "if nib a = 16 then rep E child (ts ! nib a) else link E child (ts ! nib a)"
    using rep_full [OF E(1) i(4) 5(3) i(1)] by blast
  have n: "nodes (ts ! nib a) \<subseteq> U" "avail E (db_map E d) (ts ! nib a)"
    using subset_trans [OF nodes_child [OF i(4,1)] 5(6)] avail_child [OF 5(5)] i(1,4) by (auto simp: wf_Full)
  have "nib a \<noteq> 16 \<Longrightarrow> \<not> is_val (ts ! nib a)" using i(1,4) by (auto simp: wf_Full)
  then obtain c' d1 where c': "Trie_TryGet E child (pre @ a # key) (length pre + 1) d = Trie_TryGet E c' (pre @ a # key) (length pre + 1) d1" "rep E c' (ts ! nib a)" "seen E U m d d1"
    using TryGet_link(1) [OF E 5(4) _ n, of child "pre @ a # key" "length pre + 1"] child(2) 5(4) by (cases "nib a = 16") (auto simp: seen_def)
  obtain d' where d': "Trie_TryGet E c' ((pre @ [a]) @ key) (length (pre @ [a])) d1 = Some (Inr (or_empty (mget (ts ! nib a) key), d'))" "seen E U m d1 d'"
    using 5(1) [OF i(3) c'(2), of d1 "pre @ [a]"] c'(3) n by (auto simp: seen_def)
  have "Trie_TryGet E c (pre @ a # key) (length pre) d = Trie_TryGet E child (pre @ a # key) (length pre + 1) d"
    using rep_chunk(1) [OF E(1) i(4) 5(3)] child(1) i(2) by (subst Trie_TryGet.simps) (simp add: str_at_def)
  then show ?case using c'(1,3) d' seen_trans by auto
qed

text \<open>The proof collected for a key: the chunks of the path and the positions taken.\<close>

definition proof_of :: "'s ext \<Rightarrow> MPTProof \<Rightarrow> mpt \<Rightarrow> string \<Rightarrow> MPTProof \<Rightarrow> bool" where
  "proof_of E p t key p' \<longleftrightarrow> map_chunks p' = map_chunks p @ map (\<lambda>(u, i). enc E u) (mpath t key) \<and>
     map_pos p' = map_pos p @ map snd (mpath t key) \<and> mpt_value p' = or_empty (mget t key)"

lemma proof_of_step:
  assumes "rep E c t" "ext_ok E" "wf t" "mpath t key = (t, i) # mpath u rest" "mget t key = mget u rest" "proof_of E (AppendProof p c i) u rest p'"
  shows "proof_of E p t key p'"
  using assms rep_chunk(4) [OF assms(2,3,1)] by (simp add: proof_of_def AppendProof_def)

lemma TryGetProof_ok:
  assumes E: "ext_ok E" "univ E U"
  shows "at_path t rest \<Longrightarrow> rep E c t \<Longrightarrow> tenv E U m d \<Longrightarrow> avail E (db_map E d) t \<Longrightarrow> nodes t \<subseteq> U \<Longrightarrow> mpt_value p = [] \<Longrightarrow>
    \<exists>p' d'. Trie_TryGetProof E c (pre @ rest) (length pre) p d = Some (Inr (p', d')) \<and> proof_of E p t rest p' \<and> seen E U m d d'"
proof (induction t rest arbitrary: c d pre p rule: mget.induct)
  case (1 key)
  then show ?case using rep_chunk(1) [OF E(1) _ 1(2)] by (subst Trie_TryGetProof.simps) (simp add: seen_def proof_of_def)
next
  case (2 v key)
  then have "key = []" "wf (MVal v)" by (auto simp: at_path_def)
  then show ?case using rep_chunk(1) [OF E(1) _ 2(2)] rep_val [OF E(1) _ 2(2)] 2(3) by (subst Trie_TryGetProof.simps) (simp add: seen_def proof_of_def)
next
  case (3 k t key)
  note w = at_path_short [OF 3(2)]
  obtain child where child: "MPTShortNode c = Inr (k, child)" "if is_val t then rep E child t else link E child t"
    using rep_short [OF E(1) w(1) 3(3)] by blast
  have ty: "node_type c = Inr kMPTShort" using rep_chunk(1) [OF E(1) w(1) 3(3)] by simp
  let ?p = "AppendProof p c 0"
  show ?case
  proof (cases "take (length k) key = k")
    case True
    then obtain r where r: "key = k @ r" by (auto simp: take_append_eq)
    have n: "nodes t \<subseteq> U" "avail E (db_map E d) t" using nodes_short 3(5,6) by blast+
    obtain c' d1 where c': "Trie_TryGetProof E child (pre @ key) (length pre + length k) ?p d = Trie_TryGetProof E c' (pre @ key) (length pre + length k) ?p d1" "rep E c' t" "seen E U m d d1"
      using TryGet_link(2) [OF E 3(4) _ n, of child "pre @ key" "length pre + length k" ?p] child(2) 3(4) by (cases "is_val t") (auto simp: seen_def)
    obtain p' d' where d': "Trie_TryGetProof E c' ((pre @ k) @ r) (length (pre @ k)) ?p d1 = Some (Inr (p', d'))" "proof_of E ?p t r p'" "seen E U m d1 d'"
      using 3(1) [OF True, of c' d1 ?p "pre @ k"] w(5) [OF True] c'(2,3) n r 3(7) by (auto simp: seen_def AppendProof_def)
    have "Trie_TryGetProof E c (pre @ key) (length pre) p d = Trie_TryGetProof E child (pre @ key) (length pre + length k) ?p d"
      using ty child(1) r by (subst Trie_TryGetProof.simps) (simp add: Let_def)
    moreover have "proof_of E p (MShort k t) key p'" using proof_of_step [OF 3(3) E(1) w(1) _ _ d'(2)] r by simp
    ultimately show ?thesis using c'(1,3) d' seen_trans r by auto
  next
    case False
    then have "Trie_TryGetProof E c (pre @ key) (length pre) p d = Some (Inr (?p\<lparr>mpt_value := []\<rparr>, d))"
      using ty child(1) by (subst Trie_TryGetProof.simps) (auto simp: Let_def)
    then show ?thesis using False 3(4) rep_chunk(4) [OF E(1) w(1) 3(3)] by (simp add: seen_def proof_of_def AppendProof_def)
  qed
next
  case (4 ts)
  then show ?case by (simp add: at_path_def)
next
  case (5 ts a key)
  obtain i: "nib a < 17" "char_index a = nib a" "at_path (ts ! nib a) key" "wf (MFull ts)" by (rule at_path_full [OF 5(2)]) auto
  let ?p = "AppendProof p c (nib a)"
  obtain child where child: "full_child c (nib a) = Inr child" "if nib a = 16 then rep E child (ts ! nib a) else link E child (ts ! nib a)"
    using rep_full [OF E(1) i(4) 5(3) i(1)] by blast
  have n: "nodes (ts ! nib a) \<subseteq> U" "avail E (db_map E d) (ts ! nib a)"
    using subset_trans [OF nodes_child [OF i(4,1)] 5(6)] avail_child [OF 5(5)] i(1,4) by (auto simp: wf_Full)
  have "nib a \<noteq> 16 \<Longrightarrow> \<not> is_val (ts ! nib a)" using i(1,4) by (auto simp: wf_Full)
  then obtain c' d1 where c': "Trie_TryGetProof E child (pre @ a # key) (length pre + 1) ?p d = Trie_TryGetProof E c' (pre @ a # key) (length pre + 1) ?p d1" "rep E c' (ts ! nib a)" "seen E U m d d1"
    using TryGet_link(2) [OF E 5(4) _ n, of child "pre @ a # key" "length pre + 1" ?p] child(2) 5(4) by (cases "nib a = 16") (auto simp: seen_def)
  obtain p' d' where d': "Trie_TryGetProof E c' ((pre @ [a]) @ key) (length (pre @ [a])) ?p d1 = Some (Inr (p', d'))" "proof_of E ?p (ts ! nib a) key p'" "seen E U m d1 d'"
    using 5(1) [OF i(3) c'(2), of d1 ?p "pre @ [a]"] c'(3) n 5(7) by (auto simp: seen_def AppendProof_def)
  have "Trie_TryGetProof E c (pre @ a # key) (length pre) p d = Trie_TryGetProof E child (pre @ a # key) (length pre + 1) ?p d"
    using rep_chunk(1) [OF E(1) i(4) 5(3)] child(1) i(2) by (subst Trie_TryGetProof.simps) (simp add: str_at_def Let_def)
  moreover have "proof_of E p (MFull ts) (a # key) p'" using proof_of_step [OF 5(3) E(1) i(4) _ _ d'(2)] by simp
  ultimately show ?case using c'(1,3) d' seen_trans by auto
qed

section \<open>Checking proofs\<close>

lemma str_chunk_enc: "ext_ok E \<Longrightarrow> wf t \<Longrightarrow> \<exists>c. str_chunk (enc E t) = Inr c \<and> rep E c t"
proof -
  assume a: "ext_ok E" "wf t"
  let ?c = "Some (enc E t @ [char_of_int 0])"
  have r: "rep E ?c t" by (simp add: rep_def)
  have "str_chunk (enc E t) = Inr ?c" using rep_chunk(3) [OF a r] by (simp add: str_chunk_def Let_def kMetaLength_def length_enc)
  then show ?thesis using r by blast
qed

lemma verify_path:
  assumes E: "ext_ok E" and v: "v \<noteq> []"
  shows "at_path t rest \<Longrightarrow> mget t rest = Some v \<Longrightarrow> \<not> is_val t \<longrightarrow> target = Some (dig E t) \<Longrightarrow>
    verify_loop E v key (map snd (mpath t rest)) (map (\<lambda>(u, i). enc E u) (mpath t rest)) pos target = Inr True"
proof (induction t rest arbitrary: pos target rule: mget.induct)
  case (3 k t rest)
  note w = at_path_short [OF 3(2)]
  have k: "take (length k) rest = k" "mget t (drop (length k) rest) = Some v" using 3(3) by (auto split: if_splits)
  obtain c where c: "str_chunk (enc E (MShort k t)) = Inr c" "rep E c (MShort k t)" using str_chunk_enc [OF E w(1)] by blast
  obtain child where child: "MPTShortNode c = Inr (k, child)" "if is_val t then rep E child t else link E child t" using rep_short [OF E w(1) c(2)] by blast
  note ch = rep_chunk(2,5) [OF E w(1) c(2)]
  have t: "target = Some (dig E (MShort k t))" using 3(4) by simp
  show ?case
  proof (cases "is_val t")
    case True
    then obtain u where u: "t = MVal u" "u = v" using k(2) by (auto split: if_splits)
    have "node_type child = Inr kMPTValue" "getVal child = Inr v" using rep_chunk(1) [OF E w(2)] rep_val [OF E] child(2) u w(2) by auto
    then show ?thesis using c(1) ch t child(1) k v u by (simp add: Hash_eq_iff verify_short_def)
  next
    case False
    then have "node_type child = Inr kMPTHash" "childHash child = Inr (Some (dig E t))" using link_chunk(1,2) [OF E] child(2) by auto
    moreover have "Hash_Clone (Some (dig E t)) = Some (dig E t)" using E by (simp add: Hash_Clone_def Hash_empty_def)
    ultimately show ?thesis using c(1) ch t child(1) k v 3(1) [OF k(1) w(5) [OF k(1)] k(2)] by (simp add: Hash_eq_iff verify_short_def)
  qed
next
  case (5 ts a rest)
  obtain i: "nib a < 17" "char_index a = nib a" "at_path (ts ! nib a) rest" "wf (MFull ts)" by (rule at_path_full [OF 5(2)]) auto
  obtain c where c: "str_chunk (enc E (MFull ts)) = Inr c" "rep E c (MFull ts)" using str_chunk_enc [OF E i(4)] by blast
  obtain child where child: "full_child c (nib a) = Inr child" "if nib a = 16 then rep E child (ts ! nib a) else link E child (ts ! nib a)"
    using rep_full [OF E i(4) c(2) i(1)] by blast
  note ch = rep_chunk(2,5) [OF E i(4) c(2)]
  have t: "target = Some (dig E (MFull ts))" and g: "mget (ts ! nib a) rest = Some v" using 5(3,4) by simp_all
  show ?case
  proof (cases "nib a = 16")
    case True
    then have "is_val (ts ! nib a)" using g i(4) by (auto simp: wf_Full)
    then obtain u where u: "ts ! nib a = MVal u" "u = v" using g by (auto split: if_splits)
    have "wf (MVal v)" using i(1,4) u by (auto simp: wf_Full)
    then have "getVal child = Inr v" using rep_val [OF E] child(2) u True by auto
    then show ?thesis using c(1) ch t child(1) u True by (simp add: Hash_eq_iff verify_full_def)
  next
    case False
    then have "childHash child = Inr (Some (dig E (ts ! nib a)))" using link_chunk(2) [OF E] child(2) by auto
    moreover have "Hash_Clone (Some (dig E (ts ! nib a))) = Some (dig E (ts ! nib a))" using E by (simp add: Hash_Clone_def Hash_empty_def)
    ultimately show ?thesis using c(1) ch t child(1) False 5(1) [OF i(3) g] by (simp add: Hash_eq_iff verify_full_def)
  qed
qed auto

text \<open>With a value in the proof, the key is not looked at.\<close>

lemma verify_loop_any_key: "v \<noteq> [] \<Longrightarrow> verify_loop E v key mps ss pos target = verify_loop E v key' mps ss pos target"
proof (induction ss arbitrary: mps pos target)
  case (Cons s ss)
  have e: "verify_short v key = verify_short v key'" using Cons.prems by (intro ext) (simp add: verify_short_def)
  have l: "verify_loop E v key mps ss = verify_loop E v key' mps ss" for mps using Cons.IH [OF Cons.prems] by (intro ext)
  show ?case unfolding verify_loop.simps e l ..
qed simp

text \<open>Nor is the value compared with anything when the last step is a branch: any value can be put into a proof of a full root.\<close>

lemma forged_branch:
  assumes "ext_ok E" "wf (MFull ts)" "i < 16"
  shows "VerifyProof E \<lparr>mpt_value = v, map_chunks = [enc E (MFull ts)], map_pos = [i], mpt_size = n\<rparr> (Some (dig E (MFull ts))) key = Inr True"
proof -
  obtain c where c: "str_chunk (enc E (MFull ts)) = Inr c" "rep E c (MFull ts)" using str_chunk_enc [OF assms(1,2)] by blast
  obtain child where child: "full_child c i = Inr child" "link E child (ts ! i)" using rep_full [OF assms(1,2) c(2), of i] assms(3) by auto
  then have "childHash child = Inr (Some (dig E (ts ! i)))" using link_chunk(2) [OF assms(1)] by blast
  then show ?thesis using c(1) rep_chunk(2,5) [OF assms(1,2) c(2)] child(1) assms(3) by (simp add: VerifyProof_def verify_full_def Hash_eq_iff)
qed

section \<open>Keys\<close>

definition ascii :: "string \<Rightarrow> bool" where
  "ascii k \<longleftrightarrow> (\<forall>c\<in>set k. nib c < 128) \<and> length k < 2 ^ 28"

lemma hex_of_char:
  assumes "nib c < 128"
  shows "int8_of c = int (nib c)" "trunc_div16 (int (nib c)) = int (nib c div 16)" "char_of_int (int (nib c div 16)) = char_of (nib c div 16)"
    "char_of_int (int (nib c) - 16 * int (nib c div 16)) = char_of (nib c mod 16)"
proof -
  have "(of_char c :: int) = int (nib c)" by (simp only: of_nat_of_char)
  moreover have "int (nib c) < 128" using assms by linarith
  ultimately show "int8_of c = int (nib c)" by (simp only: int8_of_def Let_def if_True)
  show "trunc_div16 (int (nib c)) = int (nib c div 16)" by (simp add: trunc_div16_def zdiv_int)
  have n: "char_of_int (int n) = char_of n" if "n < 256" for n using that by (simp add: char_of_int_def)
  have "nib c div 16 < 256" using assms by linarith
  then show "char_of_int (int (nib c div 16)) = char_of (nib c div 16)" by (rule n)
  have "int (nib c) - 16 * int (nib c div 16) = int (nib c mod 16)" by (simp add: minus_mult_div_eq_mod [symmetric] zdiv_int)
  moreover have "nib c mod 16 < 256" by (rule less_trans [of _ 16]) simp_all
  ultimately show "char_of_int (int (nib c) - 16 * int (nib c div 16)) = char_of (nib c mod 16)" using n by (simp only:)
qed

lemma hex_Nil: "KeybytesToHex [] = [T]"
  by (simp add: KeybytesToHex_def char_of_int_def)

lemma hex_Cons: "nib c < 128 \<Longrightarrow> KeybytesToHex (c # k) = char_of (nib c div 16) # char_of (nib c mod 16) # KeybytesToHex k"
  using hex_of_char [of c] by (simp add: KeybytesToHex_def Let_def)

lemma hex_nonempty [simp]: "KeybytesToHex k \<noteq> []"
  by (simp add: KeybytesToHex_def)

lemma hex_path: "ascii k \<Longrightarrow> path_ok (KeybytesToHex k) \<and> length (KeybytesToHex k) = 2 * length k + 1"
proof (induction k)
  case (Cons c k)
  then have c: "nib c < 128" "ascii k" by (auto simp: ascii_def)
  then have "nib c div 16 < 16" "nib c mod 16 < 16" by auto
  then show ?case using Cons.IH [OF c(2)] c(1) by (simp add: hex_Cons)
qed (simp add: hex_Nil)

lemma hex_inject: "ascii k \<Longrightarrow> ascii k' \<Longrightarrow> KeybytesToHex k = KeybytesToHex k' \<longleftrightarrow> k = k'"
proof (induction k arbitrary: k')
  case Nil
  then show ?case by (cases k') (auto simp: hex_Nil hex_Cons ascii_def)
next
  case (Cons c k)
  show ?case
  proof (cases k')
    case Nil
    then show ?thesis using Cons.prems by (auto simp: hex_Nil hex_Cons ascii_def)
  next
    case (Cons c' l)
    have n: "nib c < 128" "nib c' < 128" "ascii k" "ascii l" using Cons.prems Cons by (auto simp: ascii_def)
    have "c = c' \<longleftrightarrow> char_of (nib c div 16) = (char_of (nib c' div 16) :: char) \<and> char_of (nib c mod 16) = (char_of (nib c' mod 16) :: char)"
    proof -
      have "nib c div 16 < 256" "nib c' div 16 < 256" "nib c mod 16 < 256" "nib c' mod 16 < 256" using n(1,2) by (auto intro: less_trans [of _ 16])
      then have "char_of (nib c div 16) = (char_of (nib c' div 16) :: char) \<longleftrightarrow> nib c div 16 = nib c' div 16"
          "char_of (nib c mod 16) = (char_of (nib c' mod 16) :: char) \<longleftrightarrow> nib c mod 16 = nib c' mod 16"
        by (metis mod_less of_char_of)+
      moreover have "nib c = nib c' \<longleftrightarrow> nib c div 16 = nib c' div 16 \<and> nib c mod 16 = nib c' mod 16" by (metis div_mult_mod_eq)
      moreover have "nib c = nib c' \<longleftrightarrow> c = c'" by simp
      ultimately show ?thesis by blast
    qed
    then show ?thesis using Cons.IH [OF n(3,4)] n(1,2) Cons by (auto simp: hex_Cons)
  qed
qed

section \<open>Histories\<close>

datatype trie_op = TSet "(string \<times> string) list" | TRemove string

definition trie_step :: "'s ext \<Rightarrow> Hash \<Rightarrow> 's DB \<Rightarrow> trie_op \<Rightarrow> (Hash \<times> 's DB) result option" where
  "trie_step E h d op = (let (t, d) = Trie_open E d h in
     case op of TSet kvs \<Rightarrow> Trie_SetMany E t (map fst kvs) (map snd kvs) d | TRemove k \<Rightarrow> Trie_Remove E t k d)"

fun trie_run :: "'s ext \<Rightarrow> Hash \<Rightarrow> 's DB \<Rightarrow> trie_op list \<Rightarrow> (Hash \<times> 's DB) result option" where
  "trie_run E h d [] = Some (Inr (h, d))"
| "trie_run E h d (op # ops) = obind (trie_step E h d op) (\<lambda>(h, d). trie_run E h d ops)"

text \<open>The map a history describes.\<close>

fun op_map :: "(string \<rightharpoonup> string) \<Rightarrow> trie_op \<Rightarrow> (string \<rightharpoonup> string)" where
  "op_map f (TSet kvs) = f ++ map_of (rev kvs)"
| "op_map f (TRemove k) = f(k := None)"

definition run_map :: "trie_op list \<Rightarrow> (string \<rightharpoonup> string)" where
  "run_map ops = foldl op_map Map.empty ops"

definition op_ok :: "trie_op \<Rightarrow> bool" where
  "op_ok op \<longleftrightarrow> (case op of TSet kvs \<Rightarrow> \<forall>(k, v)\<in>set kvs. ascii k \<and> length v < 2 ^ 30 | TRemove k \<Rightarrow> ascii k)"

text \<open>The tries a history goes through, and all their nodes.\<close>

fun ins_trace :: "mpt \<Rightarrow> (string \<times> string) list \<Rightarrow> mpt list" where
  "ins_trace t [] = []"
| "ins_trace t ((k, v) # kvs) = mins t (KeybytesToHex k) (MVal v) # ins_trace (mins t (KeybytesToHex k) (MVal v)) kvs"

fun op_trace :: "mpt \<Rightarrow> trie_op \<Rightarrow> mpt list" where
  "op_trace t (TSet kvs) = ins_trace t kvs"
| "op_trace t (TRemove k) = [mrem t (KeybytesToHex k)]"

fun trie_trace :: "mpt \<Rightarrow> trie_op list \<Rightarrow> mpt list" where
  "trie_trace t [] = []"
| "trie_trace t (op # ops) = op_trace t op @ trie_trace (last (t # op_trace t op)) ops"

definition all_nodes :: "mpt list \<Rightarrow> mpt set" where
  "all_nodes ts = insert MNil (\<Union>t\<in>set ts. nodes t)"

text \<open>The store and its cache hold nothing under the hashes of these nodes.\<close>

definition fresh_for :: "'s ext \<Rightarrow> mpt set \<Rightarrow> 's DB \<Rightarrow> bool" where
  "fresh_for E U d \<longleftrightarrow> (\<forall>t\<in>U. db_map E d (dig E t) = None \<and> cache d (ToBase32 (Some (dig E t))) = None)"

definition stands_for :: "mpt \<Rightarrow> (string \<rightharpoonup> string) \<Rightarrow> bool" where
  "stands_for t f \<longleftrightarrow> wf t \<and> \<not> is_val t \<and> (\<forall>k. ascii k \<longrightarrow> mget t (KeybytesToHex k) = f k)"

lemma stands_for_mins: "stands_for t f \<Longrightarrow> ascii k \<Longrightarrow> length v < 2 ^ 30 \<Longrightarrow> stands_for (mins t (KeybytesToHex k) (MVal v)) (f(k \<mapsto> v))"
proof -
  assume a: "stands_for t f" "ascii k" "length v < 2 ^ 30"
  have l: "length (KeybytesToHex k) < 2 ^ 30" using hex_path [OF a(2)] a(2) by (simp add: ascii_def)
  have "wf (mins t (KeybytesToHex k) (MVal v)) \<and> \<not> is_val (mins t (KeybytesToHex k) (MVal v))"
    using wf_mins [OF _ _ l a(3), of t] a(1) hex_path [OF a(2)] by (auto simp: stands_for_def)
  moreover have "mget (mins t (KeybytesToHex k) (MVal v)) (KeybytesToHex k') = (f(k \<mapsto> v)) k'" if "ascii k'" for k'
    using mget_mins [of t "KeybytesToHex k" "KeybytesToHex k'" v] a(1) hex_path [OF a(2)] hex_path [OF that] hex_inject [OF that a(2)] that
    by (auto simp: stands_for_def)
  ultimately show ?thesis by (simp add: stands_for_def)
qed

lemma stands_for_mrem: "stands_for t f \<Longrightarrow> ascii k \<Longrightarrow> stands_for (mrem t (KeybytesToHex k)) (f(k := None))"
proof -
  assume a: "stands_for t f" "ascii k"
  have "wf (mrem t (KeybytesToHex k)) \<and> \<not> is_val (mrem t (KeybytesToHex k))" using wf_mrem [of t "KeybytesToHex k"] a(1) hex_path [OF a(2)] by (auto simp: stands_for_def)
  moreover have "mget (mrem t (KeybytesToHex k)) (KeybytesToHex k') = (f(k := None)) k'" if "ascii k'" for k'
    using mget_mrem [of t "KeybytesToHex k" "KeybytesToHex k'"] a(1) hex_path [OF a(2)] hex_path [OF that] hex_inject [OF that a(2)] that
    by (auto simp: stands_for_def)
  ultimately show ?thesis by (simp add: stands_for_def)
qed

lemma stands_for_ins: "stands_for t f \<Longrightarrow> \<forall>(k, v)\<in>set kvs. ascii k \<and> length v < 2 ^ 30 \<Longrightarrow>
    stands_for (last (t # ins_trace t kvs)) (f ++ map_of (rev kvs)) \<and> (\<forall>u\<in>set (ins_trace t kvs). wf u \<and> \<not> is_val u)"
proof (induction kvs arbitrary: t f)
  case (Cons kv kvs)
  obtain k v where kv: "kv = (k, v)" by (cases kv)
  have s: "stands_for (mins t (KeybytesToHex k) (MVal v)) (f(k \<mapsto> v))" using stands_for_mins [OF Cons.prems(1)] Cons.prems(2) kv by auto
  have m: "f ++ map_of (rev (kv # kvs)) = f(k \<mapsto> v) ++ map_of (rev kvs)" by (simp add: kv)
  have "stands_for (last (mins t (KeybytesToHex k) (MVal v) # ins_trace (mins t (KeybytesToHex k) (MVal v)) kvs)) (f(k \<mapsto> v) ++ map_of (rev kvs)) \<and>
      (\<forall>u\<in>set (ins_trace (mins t (KeybytesToHex k) (MVal v)) kvs). wf u \<and> \<not> is_val u)"
    by (rule Cons.IH [OF s]) (use Cons.prems(2) in simp)
  then show ?case using s unfolding m by (simp add: kv) (simp add: stands_for_def)
qed simp

lemma stands_for_op: "stands_for t f \<Longrightarrow> op_ok op \<Longrightarrow>
    stands_for (last (t # op_trace t op)) (op_map f op) \<and> (\<forall>u\<in>set (op_trace t op). wf u \<and> \<not> is_val u)"
proof (cases op)
  case (TSet kvs)
  assume "stands_for t f" "op_ok op"
  then show ?thesis using stands_for_ins [of t f kvs] TSet by (simp add: op_ok_def)
next
  case (TRemove k)
  assume "stands_for t f" "op_ok op"
  then have "stands_for (mrem t (KeybytesToHex k)) (f(k := None))" using stands_for_mrem TRemove by (simp add: op_ok_def)
  then show ?thesis using TRemove by (simp add: stands_for_def)
qed

lemma wf_trace: "stands_for t f \<Longrightarrow> \<forall>op\<in>set ops. op_ok op \<Longrightarrow> \<forall>u\<in>set (trie_trace t ops). wf u \<and> \<not> is_val u"
proof (induction ops arbitrary: t f)
  case (Cons op ops)
  then show ?case using stands_for_op [of t f op] Cons.IH [of "last (t # op_trace t op)" "op_map f op"] by auto
qed simp

lemma nodes_wf: "wf t \<Longrightarrow> u \<in> nodes t \<Longrightarrow> wf u \<and> \<not> is_val u"
proof (induction t)
  case (MFull ts)
  show ?case
  proof (cases "u = MFull ts")
    case False
    then obtain x where x: "x \<in> set ts" "u \<in> nodes x" using MFull.prems(2) by auto
    then have "wf x" using MFull.prems(1) by (auto simp: wf_Full in_set_conv_nth)
    then show ?thesis by (rule MFull.IH [OF x(1) _ x(2)])
  qed (use MFull.prems in simp)
qed (auto simp: wf_Short)

section \<open>Operations on the store\<close>

definition stored :: "'s ext \<Rightarrow> mpt set \<Rightarrow> 's DB \<Rightarrow> mpt \<Rightarrow> bool" where
  "stored E U d t \<longleftrightarrow> wf t \<and> \<not> is_val t \<and> nodes t \<subseteq> U \<and> tenv E U Map.empty d \<and> closed E U d \<and> avail E (db_map E d) t"

lemma nil_hash: "ext_ok E \<Longrightarrow> chunk_hash E MPTNil_Encode = Some (dig E MNil)"
  by (rule rep_chunk(5) [OF _ _ wf_nil]) simp_all

lemma stored_in: "univ E U \<Longrightarrow> stored E U d t \<Longrightarrow> t \<in> U"
  using nodes_self [of t] by (cases "t = MNil") (auto simp: stored_def univ_def)

lemma stored_seen: "stored E U d t \<Longrightarrow> seen E U Map.empty d d' \<Longrightarrow> stored E U d' t"
  by (simp add: stored_def seen_def closed_def)

lemma Trie_open_ok:
  assumes "ext_ok E" "univ E U" "stored E U d t"
  shows "\<exists>c d'. Trie_open E d (Some (dig E t)) = (\<lparr>root_node = c\<rparr>, d') \<and> rep E c t \<and> stored E U d' t"
proof (cases "t = MNil")
  case True
  then have "Trie_open E d (Some (dig E t)) = (\<lparr>root_node = MPTNil_Encode\<rparr>, d)"
    using nil_hash [OF assms(1)] by (simp add: Trie_open_def SetNodeForHash_def Hash_eq_iff)
  then show ?thesis using True assms(3) by auto
next
  case False
  have s: "tenv E U Map.empty d" "\<not> is_val t" "nodes t \<subseteq> U" "avail E (db_map E d) t" using assms(3) by (simp_all add: stored_def)
  have "MNil \<in> U" using assms(2) by (simp add: univ_def)
  then have "\<not> Hash_eq (Some (dig E t)) (Some (dig E MNil))" using univD [OF assms(2) stored_in [OF assms(2,3)]] False assms(1) by (auto simp: Hash_eq_iff)
  moreover obtain d' where d': "DB_Get_hash E d (Some (dig E t)) = (Some (enc E t), d')" "seen E U Map.empty d d'"
    using load_link [OF assms(1,2) s] False by (auto simp: seen_def)
  ultimately have "Trie_open E d (Some (dig E t)) = (\<lparr>root_node = Some (enc E t)\<rparr>, d')"
    using nil_hash [OF assms(1)] by (simp add: Trie_open_def SetNodeForHash_def Chunk_empty_def)
  then show ?thesis using stored_seen [OF assms(3) d'(2)] by auto
qed

lemma insert_all_ok:
  assumes E: "ext_ok E" "univ E U"
  shows "rep E c t \<Longrightarrow> wf t \<Longrightarrow> \<not> is_val t \<Longrightarrow> nodes t \<subseteq> U \<Longrightarrow> tenv E U m d \<Longrightarrow> avail E (delta_view E m d) t \<Longrightarrow> \<forall>(k, v)\<in>set kvs. ascii k \<and> length v < 2 ^ 30 \<Longrightarrow>
    (\<Union>u\<in>set (ins_trace t kvs). nodes u) \<subseteq> U \<Longrightarrow> trie_post E U m d (last (t # ins_trace t kvs)) (insert_all E c kvs m d)"
proof (induction kvs arbitrary: c t m d)
  case (Cons kv kvs)
  obtain k v where kv: "kv = (k, v)" by (cases kv)
  have kv': "ascii k" "length v < 2 ^ 30" using Cons.prems(7) kv by auto
  let ?t = "mins t (KeybytesToHex k) (MVal v)"
  have h: "path_ok (KeybytesToHex k)" "length (KeybytesToHex k) < 2 ^ 30" using hex_path [OF kv'(1)] kv'(1) by (auto simp: ascii_def)
  have w: "wf ?t" "\<not> is_val ?t" using wf_mins [OF Cons.prems(2) h kv'(2) Cons.prems(3)] by auto
  have nt: "nodes ?t \<subseteq> U" using Cons.prems(8) kv by auto
  have sv: "rep E (MPTValue_Encode v) (MVal v)" by (simp add: rep_def enc.simps MPTValue_Encode_def Chunk_new_def)
  have "trie_post E U m d ?t (Trie_Insert E c (KeybytesToHex k) (MPTValue_Encode v) m d)"
    using h(1) Cons.prems by (intro Insert_ok [OF E kv'(2) sv _ _ h(2)]) (auto simp: nt)
  then obtain c' m' d' where c': "Trie_Insert E c (KeybytesToHex k) (MPTValue_Encode v) m d = Some (Inr (c', m', d'))" "rep E c' ?t" "tenv E U m' d'"
      "delta_view E m d \<subseteq>\<^sub>m delta_view E m' d'" "avail E (delta_view E m' d') ?t" "db_map E d' = db_map E d" by (auto simp: trie_post_def)
  have "trie_post E U m' d' (last (?t # ins_trace ?t kvs)) (insert_all E c' kvs m' d')"
    by (rule Cons.IH [OF c'(2) w nt c'(3,5)]) (use Cons.prems(7,8) kv in auto)
  then show ?case unfolding trie_post_def using c'(1,4,6) map_le_trans by (auto simp: kv)
qed (simp add: trie_post_def)

lemma commit_root_ok:
  assumes E: "ext_ok E" "univ E U" and t: "wf t" "\<not> is_val t" "nodes t \<subseteq> U" "rep E c t" and d: "tenv E U m d" "closed E U d" "avail E (delta_view E m d) t"
  shows "\<exists>d'. commit_root E c m d = Some (Inr (Some (dig E t), d')) \<and> stored E U d' t"
proof -
  have h: "chunk_hash E c = Some (dig E t)" by (rule rep_chunk(5) [OF E(1) t(1,4)])
  have fin: "Delta_Commit E m [] d' = Some (Inr d')" for d' by (subst Delta_Commit.simps) simp
  have "\<exists>d'. Delta_Commit E m [CVisit c] d = Some (Inr d') \<and> tenv E U m d' \<and> closed E U d' \<and> avail E (db_map E d') t"
  proof (cases "t = MNil")
    case True
    then have "Delta_Commit E m [CVisit c] d = Delta_Commit E m [] d" using rep_chunk(1) [OF E(1) t(1,4)] by (subst Delta_Commit.simps) simp
    then show ?thesis using fin d True by (simp add: avail_def)
  next
    case False
    have "visits E U m t" using Commit_visits [OF E t(1) nodes_self [OF False t(2)] t(3)] .
    then obtain d' where "Delta_Commit E m [CVisit c] d = Delta_Commit E m [] d'" "trie_commits E U m d d' t" using t(4) d unfolding visits_def by blast
    then show ?thesis using fin by (auto simp: trie_commits_def)
  qed
  then obtain d' where d': "Delta_Commit E m [CVisit c] d = Some (Inr d')" "tenv E U m d'" "closed E U d'" "avail E (db_map E d') t" by blast
  have "tenv E U Map.empty d'" using d'(2) by (simp add: tenv_def)
  then have "stored E U d' t" using t(1-3) d'(3,4) by (simp add: stored_def)
  then show ?thesis using d'(1) h by (simp add: commit_root_def)
qed

lemma trie_step_ok:
  assumes E: "ext_ok E" "univ E U" and t: "stored E U d t" and op: "op_ok op" "(\<Union>u\<in>set (op_trace t op). nodes u) \<subseteq> U"
  shows "\<exists>d'. trie_step E (Some (dig E t)) d op = Some (Inr (Some (dig E (last (t # op_trace t op))), d')) \<and> stored E U d' (last (t # op_trace t op))"
proof -
  obtain c d1 where o: "Trie_open E d (Some (dig E t)) = (\<lparr>root_node = c\<rparr>, d1)" "rep E c t" "stored E U d1 t" using Trie_open_ok [OF E t] by blast
  then have s: "wf t" "\<not> is_val t" "nodes t \<subseteq> U" "tenv E U Map.empty d1" "closed E U d1" "avail E (delta_view E Map.empty d1) t" by (simp_all add: stored_def)
  have run: "\<exists>d'. obind r (\<lambda>(root, m, d). commit_root E root m d) = Some (Inr (Some (dig E u), d')) \<and> stored E U d' u"
    if u: "trie_post E U Map.empty d1 u r" "wf u" "\<not> is_val u" "nodes u \<subseteq> U" for u r
  proof -
    obtain c' m' d' where c': "r = Some (Inr (c', m', d'))" "rep E c' u" "tenv E U m' d'" "avail E (delta_view E m' d') u" "db_map E d' = db_map E d1" using u(1) by (auto simp: trie_post_def)
    have "closed E U d'" using s(5) c'(5) by (simp add: closed_def)
    then show ?thesis using commit_root_ok [OF E u(2-4) c'(2,3) _ c'(4)] c'(1) by simp
  qed
  show ?thesis
  proof (cases op)
    case (TSet kvs)
    show ?thesis
    proof (cases "kvs = []")
      case True
      then show ?thesis using TSet o rep_chunk(5) [OF E(1) s(1) o(2)] by (simp add: trie_step_def Trie_SetMany_def)
    next
      case False
      let ?u = "last (t # ins_trace t kvs)"
      have ok: "\<forall>(k, v)\<in>set kvs. ascii k \<and> length v < 2 ^ 30" using op(1) TSet by (simp add: op_ok_def)
      have p: "trie_post E U Map.empty d1 ?u (insert_all E c kvs Map.empty d1)" using op(2) TSet by (intro insert_all_ok [OF E o(2) s(1-4,6) ok]) simp
      have "ins_trace t kvs \<noteq> []" using False by (cases kvs) auto
      then have m: "?u \<in> set (ins_trace t kvs)" by simp
      have "stands_for t (\<lambda>k. mget t (KeybytesToHex k))" using s(1,2) by (simp add: stands_for_def)
      then have w: "wf ?u" "\<not> is_val ?u" using stands_for_ins [OF _ ok] m by blast+
      have "nodes ?u \<subseteq> U" using op(2) m unfolding TSet op_trace.simps UN_subset_iff by blast
      moreover have "zip (map fst kvs) (map snd kvs) = kvs" by (simp add: zip_map_fst_snd)
      ultimately show ?thesis using run [OF p w] o(1) TSet False by (simp add: trie_step_def Trie_SetMany_def)
    qed
  next
    case (TRemove k)
    have h: "path_ok (KeybytesToHex k)" using hex_path op(1) TRemove by (simp add: op_ok_def)
    have n: "nodes (mrem t (KeybytesToHex k)) \<subseteq> U" using op(2) TRemove by simp
    have w: "wf (mrem t (KeybytesToHex k))" "\<not> is_val (mrem t (KeybytesToHex k))" using wf_mrem [OF s(1)] h by blast+
    have p: "trie_post E U Map.empty d1 (mrem t (KeybytesToHex k)) (Trie_TryRemove E c (KeybytesToHex k) Map.empty d1)"
      using h s(2) by (intro Remove_ok [OF E s(1) _ o(2) s(4,6,3) n]) simp
    show ?thesis using run [OF p w n] o(1) TRemove by (simp add: trie_step_def Trie_Remove_def)
  qed
qed

lemma trie_run_ok:
  assumes E: "ext_ok E" "univ E U"
  shows "stored E U d t \<Longrightarrow> stands_for t f \<Longrightarrow> \<forall>op\<in>set ops. op_ok op \<Longrightarrow> (\<Union>u\<in>set (trie_trace t ops). nodes u) \<subseteq> U \<Longrightarrow>
    \<exists>t' d'. trie_run E (Some (dig E t)) d ops = Some (Inr (Some (dig E t'), d')) \<and> stored E U d' t' \<and> stands_for t' (foldl op_map f ops)"
proof (induction ops arbitrary: d t f)
  case (Cons op ops)
  let ?t = "last (t # op_trace t op)"
  have op: "op_ok op" "(\<Union>u\<in>set (op_trace t op). nodes u) \<subseteq> U" "(\<Union>u\<in>set (trie_trace ?t ops). nodes u) \<subseteq> U" using Cons.prems(3,4) by auto
  obtain d1 where d1: "trie_step E (Some (dig E t)) d op = Some (Inr (Some (dig E ?t), d1))" "stored E U d1 ?t"
    using trie_step_ok [OF E Cons.prems(1) op(1,2)] by blast
  have "stands_for ?t (op_map f op)" using stands_for_op [OF Cons.prems(2) op(1)] by blast
  then have "\<exists>t' d'. trie_run E (Some (dig E ?t)) d1 ops = Some (Inr (Some (dig E t'), d')) \<and> stored E U d' t' \<and> stands_for t' (foldl op_map (op_map f op) ops)"
    using Cons.prems(3) op(3) by (intro Cons.IH [OF d1(2)]) auto
  then show ?case using d1(1) by (simp del: last.simps)
qed auto

text \<open>A history from an empty trie, on a store that holds none of its nodes, without two nodes of the same hash.\<close>

definition history_fine :: "'s ext \<Rightarrow> 's DB \<Rightarrow> trie_op list \<Rightarrow> bool" where
  "history_fine E d ops \<longleftrightarrow> (\<forall>op\<in>set ops. op_ok op) \<and> inj_on (dig E) (all_nodes (trie_trace MNil ops)) \<and> fresh_for E (all_nodes (trie_trace MNil ops)) d"

lemma history_ok:
  assumes E: "ext_ok E" and h: "history_fine E d ops"
  shows "\<exists>t d'. univ E (all_nodes (trie_trace MNil ops)) \<and> trie_run E (chunk_hash E MPTNil_Encode) d ops = Some (Inr (Some (dig E t), d')) \<and>
    stored E (all_nodes (trie_trace MNil ops)) d' t \<and> stands_for t (run_map ops)"
proof -
  let ?U = "all_nodes (trie_trace MNil ops)"
  have s: "stands_for MNil Map.empty" by (simp add: stands_for_def)
  have ops: "\<forall>op\<in>set ops. op_ok op" "inj_on (dig E) ?U" "fresh_for E ?U d" using h by (simp_all add: history_fine_def)
  have "\<forall>u\<in>?U. wf u \<and> \<not> is_val u" using wf_trace [OF s ops(1)] nodes_wf unfolding all_nodes_def by fastforce
  then have u: "univ E ?U" using ops(2) by (simp add: univ_def all_nodes_def)
  have "stored E ?U d MNil" using ops(3) by (auto simp: stored_def tenv_def closed_def fresh_for_def avail_def)
  then show ?thesis using trie_run_ok [OF E u _ s ops(1), of d] u unfolding nil_hash [OF E] run_map_def by (auto simp: all_nodes_def)
qed

lemma root_open:
  assumes "ext_ok E" "history_fine E d ops"
  shows "\<exists>h d' c d1 t. trie_run E (chunk_hash E MPTNil_Encode) d ops = Some (Inr (h, d')) \<and> Trie_open E d' h = (\<lparr>root_node = c\<rparr>, d1) \<and> h = Some (dig E t) \<and> rep E c t \<and>
    univ E (all_nodes (trie_trace MNil ops)) \<and> stored E (all_nodes (trie_trace MNil ops)) d1 t \<and> stands_for t (run_map ops)"
  using history_ok [OF assms] Trie_open_ok [OF assms(1)] by blast

lemma at_hex: "stands_for t f \<Longrightarrow> ascii k \<Longrightarrow> at_path t (KeybytesToHex k) \<and> mget t (KeybytesToHex k) = f k"
  using hex_path by (simp add: stands_for_def at_path_def)

lemma GetProof_ok:
  assumes "ext_ok E" "univ E U" "stored E U d t" "stands_for t f" "rep E c t" "ascii k" "f k = Some v" "v \<noteq> []"
  shows "\<exists>p d'. Trie_GetProof E \<lparr>root_node = c\<rparr> k d = Some (Inr (p, d')) \<and> mpt_value p = v \<and> VerifyProof E p (Some (dig E t)) k = Inr True \<and> seen E U Map.empty d d'"
proof -
  note a = at_hex [OF assms(4,6)]
  have s: "tenv E U Map.empty d" "nodes t \<subseteq> U" "avail E (db_map E d) t" using assms(3) by (simp_all add: stored_def)
  obtain p d' where p: "Trie_GetProof E \<lparr>root_node = c\<rparr> k d = Some (Inr (p, d'))" "proof_of E MPTProof_new t (KeybytesToHex k) p" "seen E U Map.empty d d'"
    using TryGetProof_ok [OF assms(1,2) conjunct1 [OF a] assms(5) s(1,3,2), of MPTProof_new "[]"] by (auto simp: Trie_GetProof_def MPTProof_new_def)
  have v: "mpt_value p = v" "map_chunks p = map (\<lambda>(u, i). enc E u) (mpath t (KeybytesToHex k))" "map_pos p = map snd (mpath t (KeybytesToHex k))"
    using p(2) a assms(7) by (simp_all add: proof_of_def MPTProof_new_def)
  have "VerifyProof E p (Some (dig E t)) k = Inr True"
    using verify_path [OF assms(1,8) conjunct1 [OF a]] a assms(7) unfolding VerifyProof_def v by simp
  then show ?thesis using p(1,3) v(1) by blast
qed

text \<open>
  C31: the trie is a map: after any history of batches and removals, starting from the empty trie, the trie opened at the
  returned root hash returns for every key the value last set and not removed since, and the empty string for other keys,
  unless two of its nodes have the same hash.
\<close>
theorem Trie_is_map:
  assumes "ext_ok E" "history_fine E d ops" "ascii k"
  shows "\<exists>h d' t d1 d2. trie_run E (chunk_hash E MPTNil_Encode) d ops = Some (Inr (h, d')) \<and> Trie_open E d' h = (t, d1) \<and>
    Trie_Get E t k d1 = Some (Inr (or_empty (run_map ops k), d2))"
proof -
  obtain h d' c d1 t where r: "trie_run E (chunk_hash E MPTNil_Encode) d ops = Some (Inr (h, d'))" "Trie_open E d' h = (\<lparr>root_node = c\<rparr>, d1)" "rep E c t"
      "univ E (all_nodes (trie_trace MNil ops))" "stored E (all_nodes (trie_trace MNil ops)) d1 t" "stands_for t (run_map ops)" using root_open [OF assms(1,2)] by blast
  then obtain d2 where "Trie_TryGet E c ([] @ KeybytesToHex k) (length ([] :: string)) d1 = Some (Inr (or_empty (mget t (KeybytesToHex k)), d2))"
    using TryGet_ok [OF assms(1) r(4) _ r(3), of "KeybytesToHex k" Map.empty d1 "[]"] at_hex [OF r(6) assms(3)] unfolding stored_def by blast
  then have "Trie_Get E \<lparr>root_node = c\<rparr> k d1 = Some (Inr (or_empty (run_map ops k), d2))" using at_hex [OF r(6) assms(3)] by (simp add: Trie_Get_def)
  then show ?thesis using r(1,2) by blast
qed

text \<open>
  C32: after any history the store is well typed: the root hash stands for a well-formed trie (full nodes have seventeen
  children, values stand only at the end of a path, no chains of short nodes), and every node of it is stored, under its hash,
  as the chunk that encodes it.
\<close>
theorem Trie_typed:
  assumes "ext_ok E" "history_fine E d ops"
  shows "\<exists>h d' t. trie_run E (chunk_hash E MPTNil_Encode) d ops = Some (Inr (h, d')) \<and> h = ComputeFrom E (enc E t) \<and> wf t \<and> \<not> is_val t \<and>
    nodes t \<subseteq> {u. wf u \<and> DB_Get E d' (hval (ComputeFrom E (enc E u))) = Some (enc E u)}"
proof -
  obtain t d' where t: "trie_run E (chunk_hash E MPTNil_Encode) d ops = Some (Inr (Some (dig E t), d'))" "stored E (all_nodes (trie_trace MNil ops)) d' t"
    using history_ok [OF assms] by blast
  then have "wf t" "\<not> is_val t" "avail E (db_map E d') t" by (simp_all add: stored_def)
  moreover from this have "nodes t \<subseteq> {u. wf u \<and> DB_Get E d' (hval (ComputeFrom E (enc E u))) = Some (enc E u)}"
    using nodes_wf by (auto simp: avail_def DB_Get_def)
  ultimately show ?thesis using t(1) by (auto simp flip: ComputeFrom_Some)
qed

text \<open>
  C33: the proof read for an entry with a non-empty value carries that value and verifies against the root hash, and \<open>VerifyProof\<close>
  accepts the same proof for every other key too: an accepted proof says nothing about the key it is checked for.
\<close>
theorem Trie_proof_any_key:
  assumes "ext_ok E" "history_fine E d ops" "ascii k" "run_map ops k = Some v" "v \<noteq> []"
  shows "\<exists>h d' t d1 p d2. trie_run E (chunk_hash E MPTNil_Encode) d ops = Some (Inr (h, d')) \<and> Trie_open E d' h = (t, d1) \<and>
    Trie_GetProof E t k d1 = Some (Inr (p, d2)) \<and> mpt_value p = v \<and> VerifyProof E p h k = Inr True \<and> VerifyProof E p h k' = Inr True"
proof -
  obtain h d' c d1 t where r: "trie_run E (chunk_hash E MPTNil_Encode) d ops = Some (Inr (h, d'))" "Trie_open E d' h = (\<lparr>root_node = c\<rparr>, d1)" "rep E c t"
      "univ E (all_nodes (trie_trace MNil ops))" "stored E (all_nodes (trie_trace MNil ops)) d1 t" "stands_for t (run_map ops)" "h = Some (dig E t)"
    using root_open [OF assms(1,2)] by blast
  obtain p d2 where p: "Trie_GetProof E \<lparr>root_node = c\<rparr> k d1 = Some (Inr (p, d2))" "mpt_value p = v" "VerifyProof E p h k = Inr True"
    using GetProof_ok [OF assms(1) r(4,5,6,3) assms(3,4,5)] r(7) by blast
  moreover have "VerifyProof E p h k' = VerifyProof E p h k" unfolding VerifyProof_def using verify_loop_any_key assms(5) p(2) by blast
  ultimately show ?thesis using r(1,2) by auto
qed

section \<open>An example\<close>

text \<open>The hash of the example: length and element count of a chunk.\<close>

definition count_digest :: "string \<Rightarrow> string" where
  "count_digest x = le_bytes 64 (256 * length x + (case drop 5 x of [] \<Rightarrow> 0 | c # _ \<Rightarrow> of_char c))"

definition count_ext :: "(string \<rightharpoonup> string) ext" where
  "count_ext = map_ext\<lparr>blake2b := count_digest\<rparr>"

lemma ext_ok_count_ext [simp]: "ext_ok count_ext"
  by (simp add: ext_ok_def count_ext_def map_ext_def count_digest_def)

lemma take_le_bytes: "n \<le> w \<Longrightarrow> take n (le_bytes w x) = le_bytes n x"
proof (induction n arbitrary: w x)
  case (Suc n)
  then show ?case by (cases w) auto
qed simp

lemma le_bytes_inject: "a < 256 ^ w \<Longrightarrow> b < 256 ^ w \<Longrightarrow> le_bytes w a = le_bytes w b \<longleftrightarrow> a = b"
  by (metis append_Nil2 le_nat_le_bytes)

lemma le_bytes_8: "le_bytes 8 n = char_of n # le_bytes 7 (n div 256)"
proof -
  have "(8 :: nat) = Suc 7" by simp
  then show ?thesis by (simp only: le_bytes.simps(2))
qed

fun chunk_code :: "mpt \<Rightarrow> nat" where
  "chunk_code t = 256 * length (enc count_ext t) + (if t = MNil then 0 else elems t mod 256)"

lemma dig_count_ext: "\<not> is_val t \<Longrightarrow> dig count_ext t = le_bytes 20 (chunk_code t)"
proof -
  assume "\<not> is_val t"
  then have "(case drop 5 (enc count_ext t) of [] \<Rightarrow> 0 | c # _ \<Rightarrow> of_char c) = (if t = MNil then 0 else elems t mod 256 :: nat)"
    by (cases t) (simp_all add: enc_body head_new le_bytes_8)
  then have "count_digest (enc count_ext t) = le_bytes 64 (chunk_code t)" by (simp add: count_digest_def)
  then have c: "blake2b count_ext (enc count_ext t) = le_bytes 64 (chunk_code t)" by (simp add: count_ext_def)
  show ?thesis unfolding hval_def ComputeFrom_def c by (simp add: take_le_bytes kByteLength_def)
qed

definition demo_ops :: "trie_op list" where
  "demo_ops = [TSet [(''a'', ''1''), (''b'', ''22'')], TRemove ''a'']"

definition demo_leaf :: "string \<Rightarrow> mpt" where
  "demo_leaf v = MShort [CHR 0x10] (MVal v)"

definition demo_full :: "mpt \<Rightarrow> mpt" where
  "demo_full t = MFull [MNil, t, demo_leaf ''22'', MNil, MNil, MNil, MNil, MNil, MNil, MNil, MNil, MNil, MNil, MNil, MNil, MNil, MNil]"

definition demo_nodes :: "mpt list" where
  "demo_nodes = [MNil, MShort [CHR 0x06, CHR 0x01, CHR 0x10] (MVal ''1''), demo_leaf ''1'', demo_leaf ''22'', demo_full (demo_leaf ''1''), demo_full MNil,
     MShort [CHR 0x06] (demo_full (demo_leaf ''1'')), MShort [CHR 0x06] (demo_full MNil)]"

lemma demo_trace: "trie_trace MNil demo_ops = [MShort [CHR 0x06, CHR 0x01, CHR 0x10] (MVal ''1''), MShort [CHR 0x06] (demo_full (demo_leaf ''1'')), MShort [CHR 0x06] (demo_full MNil)]"
  by code_simp

lemma demo_all_nodes: "all_nodes (trie_trace MNil demo_ops) = set demo_nodes"
  unfolding demo_trace by (auto simp: all_nodes_def demo_nodes_def demo_full_def demo_leaf_def)

lemma demo_codes: "map chunk_code demo_nodes = [1280, 6657, 6145, 6401, 107010, 107009, 11010, 11009]"
  by (simp add: demo_nodes_def demo_full_def demo_leaf_def length_enc)

lemma inj_dig_count:
  assumes "\<forall>t\<in>set ns. \<not> is_val t" "distinct (map chunk_code ns)" "\<forall>c\<in>set (map chunk_code ns). c < 256 ^ 20"
  shows "inj_on (dig count_ext) (set ns)"
proof (rule inj_onI)
  fix t u assume a: "t \<in> set ns" "u \<in> set ns" "dig count_ext t = dig count_ext u"
  have small: "chunk_code x < 256 ^ 20" if "x \<in> set ns" for x using assms(3) that by (metis image_eqI list.set_map)
  have "le_bytes 20 (chunk_code t) = le_bytes 20 (chunk_code u)" using a dig_count_ext assms(1) by metis
  then have "chunk_code t = chunk_code u" using le_bytes_inject [OF small [OF a(1)] small [OF a(2)]] by blast
  then show "t = u" using assms(2) a(1,2) by (simp add: distinct_map inj_on_def del: chunk_code.simps)
qed

lemma demo_fine: "history_fine count_ext map_db demo_ops"
proof -
  have nv: "\<forall>t\<in>set demo_nodes. \<not> is_val t" by (simp add: demo_nodes_def demo_full_def demo_leaf_def)
  have "inj_on (dig count_ext) (set demo_nodes)" by (rule inj_dig_count [OF nv]) (simp_all only: demo_codes, simp_all)
  moreover have "fresh_for count_ext (set demo_nodes) map_db" by (simp add: fresh_for_def DB_Open_def count_ext_def map_ext_def)
  moreover have "\<forall>op\<in>set demo_ops. op_ok op" by (simp add: demo_ops_def op_ok_def ascii_def)
  ultimately show ?thesis unfolding history_fine_def demo_all_nodes by blast
qed

theorem Trie_is_map_witness:
  "\<exists>h d' t d1 d2. trie_run count_ext (chunk_hash count_ext MPTNil_Encode) map_db demo_ops = Some (Inr (h, d')) \<and> Trie_open count_ext d' h = (t, d1) \<and>
    Trie_Get count_ext t ''b'' d1 = Some (Inr (''22'', d2))"
  using Trie_is_map [OF ext_ok_count_ext demo_fine, of "''b''"] by (simp add: ascii_def run_map_def demo_ops_def)

theorem Trie_typed_witness:
  "\<exists>h d' t. trie_run count_ext (chunk_hash count_ext MPTNil_Encode) map_db demo_ops = Some (Inr (h, d')) \<and> h = ComputeFrom count_ext (enc count_ext t) \<and> wf t \<and> \<not> is_val t \<and>
    nodes t \<subseteq> {u. wf u \<and> DB_Get count_ext d' (hval (ComputeFrom count_ext (enc count_ext u))) = Some (enc count_ext u)}"
  by (rule Trie_typed [OF ext_ok_count_ext demo_fine])

theorem Trie_proof_any_key_witness:
  "\<exists>h d' t d1 p d2. trie_run count_ext (chunk_hash count_ext MPTNil_Encode) map_db demo_ops = Some (Inr (h, d')) \<and> Trie_open count_ext d' h = (t, d1) \<and>
    Trie_GetProof count_ext t ''b'' d1 = Some (Inr (p, d2)) \<and> mpt_value p = ''22'' \<and> VerifyProof count_ext p h ''b'' = Inr True \<and> VerifyProof count_ext p h ''a'' = Inr True"
  by (rule Trie_proof_any_key [OF ext_ok_count_ext demo_fine]) (simp_all add: ascii_def run_map_def demo_ops_def)

end
