(* ===== verification/LedgerDB_Frame.thy ===== *)
theory LedgerDB_Frame
  imports LedgerDB MPT_Properties
begin

text \<open>
  What the parts of LedgerDB leave alone in the store they share: the Merkle tree writes under keys that begin with \<open>mt\<close>, a skip list
  under its own prefix, the trie under the hashes of its nodes.
\<close>

section \<open>The Merkle tree\<close>

text \<open>Nothing but the keys in \<open>P\<close> changes, and not the caches.\<close>

definition touches :: "'s ext \<Rightarrow> (string \<Rightarrow> bool) \<Rightarrow> 's DB \<Rightarrow> 's DB \<Rightarrow> bool" where
  "touches E P d d' \<longleftrightarrow> (\<forall>k. P k \<or> db_map E d' k = db_map E d k) \<and> cache d' = cache d"

lemma touches_refl [simp]: "touches E P d d"
  by (simp add: touches_def)

lemma touches_trans: "touches E P d d' \<Longrightarrow> touches E P d' d'' \<Longrightarrow> touches E P d d''"
  unfolding touches_def by metis

lemma touches_mono: "touches E P d d' \<Longrightarrow> (\<And>k. P k \<Longrightarrow> Q k) \<Longrightarrow> touches E Q d d'"
  by (auto simp: touches_def)

lemma cache_db_put [simp]: "cache (db_put E d k v) = cache d"
  by (simp add: DB_Put_str_def case_prod_unfold Let_def)

lemma touches_put: "ext_ok E \<Longrightarrow> P k \<Longrightarrow> touches E P d (db_put E d k v)"
  by (simp add: touches_def)

lemma touches_put_then: "ext_ok E \<Longrightarrow> P k \<Longrightarrow> touches E P (db_put E d k v) d' \<Longrightarrow> touches E P d d'"
  by (rule touches_trans [OF touches_put])

lemma touches_get: "touches E P d d' \<Longrightarrow> \<not> P k \<Longrightarrow> DB_Get_str E d' k = DB_Get_str E d k"
  by (auto simp: touches_def DB_Get_str_def DB_Get_def)

definition mt_text :: "string \<Rightarrow> bool" where
  "mt_text k \<longleftrightarrow> take 2 k = ''mt''"

lemma mt_text_simps [simp]: "mt_text (mt_key l j)" "mt_text (mt_key l j @ s)" "mt_text (CHR ''m'' # CHR ''t'' # s)"
  by (simp_all add: mt_text_def mt_key_def)

lemma touches_leaves: "ext_ok E \<Longrightarrow> touches E mt_text d (mt_put_leaves E d seq hs)"
proof (induction E d seq hs rule: mt_put_leaves.induct)
  case (2 E d seq h hs)
  show ?case using 2 touches_put_then [of E mt_text "''mt0-'' @ to_string seq" d h] by simp
qed simp

lemma touches_parents: "ext_ok E \<Longrightarrow> touches E mt_text d (fst (snd (mt_parents E cs level seq hs d c)))"
proof (induction E cs level seq hs d c rule: mt_parents.induct)
  case (2 E cs level seq h d c)
  then show ?case by (simp add: Let_def touches_put)
next
  case (3 E cs level seq h1 h2 hs d c)
  show ?case using touches_put_then [OF 3(2) _ 3(1) [OF refl refl 3(2)]] by (simp add: Let_def case_prod_unfold)
qed simp

lemma touches_loop: "ext_ok E \<Longrightarrow> hs \<noteq> [] \<Longrightarrow> mt_loop E prev cs level lss pc c hs d = (l', c', hs', d') \<Longrightarrow> touches E mt_text d d' \<and> hs' \<noteq> []"
proof (induction E prev cs level lss pc c hs d rule: mt_loop.induct)
  case (1 E prev cs level lss pc c hs d)
  show ?case
  proof (cases "length hs > 1 \<or> lss > 0")
    case True
    obtain hs1 lss1 pc1 where l: "mt_load_prev E prev level lss pc hs d = (hs1, lss1, pc1)" by (cases "mt_load_prev E prev level lss pc hs d")
    obtain ps d1 c1 where p: "mt_parents E cs level lss1 hs1 d c = (ps, d1, c1)" by (cases "mt_parents E cs level lss1 hs1 d c")
    have "hs1 \<noteq> []" using l 1(3) by (auto simp: mt_load_prev_def Let_def split: if_splits)
    moreover have "length ps = (length hs1 + 1) div 2" using length_mt_parents [of E cs level lss1 hs1 d c] p by simp
    ultimately have ne: "ps \<noteq> []" by (cases hs1) auto
    have "touches E mt_text d d1" using touches_parents [OF 1(2), of d cs level lss1 hs1 c] p by simp
    moreover have "mt_loop E prev cs (level + 1) (lss1 div 2) pc1 c1 ps d1 = (l', c', hs', d')" using 1(4) True l p by (simp add: mt_loop.simps [of E prev cs level])
    ultimately show ?thesis using 1(1) [OF True l [symmetric] refl refl p [symmetric] refl refl 1(2) ne] touches_trans by blast
  next
    case False
    then show ?thesis using 1(3,4) by (simp add: mt_loop.simps [of E prev cs level])
  qed
qed

lemma mt_update_touches:
  assumes "ext_ok E" "hs \<noteq> []" "mt_next_commit prev = Inr cs"
  shows "\<exists>d' rk rh. mt_update E d n hs prev = Inr (d', rk, rh) \<and> touches E mt_text d d'"
proof -
  let ?pc = "if n > 1 then (n - 1) mod 2 = 1 else True" and ?d = "mt_put_leaves E d n hs"
  obtain l c hs' d' where l: "mt_loop E prev cs 0 n ?pc True (map FromBase32 hs) ?d = (l, c, hs', d')"
    by (cases "mt_loop E prev cs 0 n ?pc True (map FromBase32 hs) ?d") auto
  have "touches E mt_text ?d d' \<and> hs' \<noteq> []" using touches_loop [OF assms(1) _ l] assms(2) by simp
  then show ?thesis using touches_trans [OF touches_leaves [OF assms(1)]] l assms(3) by (auto simp: mt_update_def Let_def vec_at_def)
qed

section \<open>A skip list\<close>

definition under :: "string \<Rightarrow> string \<Rightarrow> bool" where
  "under p k \<longleftrightarrow> take (length p + 1) k = p @ ''|''"

lemma under_keys [simp]: "under p (head_key p)" "under p (skip_key p j)"
  by (simp_all add: under_def head_key_def skip_key_def)

lemma advance_under:
  assumes "advance load p k i fullkey cur = Some (Inr (f, c))" "under p fullkey"
  shows "under p f"
proof -
  have "under p fullkey \<longrightarrow> (case (Inr (f, c) :: (string \<times> SkipNode) result) of Inl e \<Rightarrow> True | Inr (g, c) \<Rightarrow> under p g)"
  proof (rule advance.raw_induct [of "\<lambda>load p k i fullkey cur r. under p fullkey \<longrightarrow> (case r of Inl e \<Rightarrow> True | Inr (g, c) \<Rightarrow> under p g)", OF _ assms(1)], goal_cases)
    case (1 adv load p k i fullkey cur r)
    show ?case using 1(2) by (auto split: sum.splits if_splits dest!: 1(1))
  qed
  then show ?thesis using assms(2) by simp
qed

lemma insert_levels_under:
  "insert_levels E d p k i fullkey cur newnode update = Some (Inr (n', update')) \<Longrightarrow> under p fullkey \<Longrightarrow> fst ` set update \<subseteq> {x. under p x} \<Longrightarrow>
    sorted_wrt (<) (map fst update) \<Longrightarrow> fst ` set update' \<subseteq> {x. under p x} \<and> sorted_wrt (<) (map fst update')"
proof (induction i arbitrary: fullkey cur newnode update)
  case (Suc i)
  let ?load = "\<lambda>key. case map_of update key of Some n \<Rightarrow> Inr n | None \<Rightarrow> SkipNode_of (DB_Get_str E d key)"
  obtain f c where a: "advance ?load p k i fullkey cur = Some (Inr (f, c))"
    using Suc.prems(1) by (cases "advance ?load p k i fullkey cur") (auto split: sum.splits)
  have u: "under p f" by (rule advance_under [OF a Suc.prems(2)])
  have r: "insert_levels E d p k i f (c\<lparr>forward := (forward c)[i := k]\<rparr>) (newnode\<lparr>forward := (forward newnode)[i := forward c ! i]\<rparr>)
      (smap_set f (c\<lparr>forward := (forward c)[i := k]\<rparr>) update) = Some (Inr (n', update'))" using Suc.prems(1) a by (simp add: Let_def)
  show ?case by (rule Suc.IH [OF r u]) (use Suc.prems(3,4) u in \<open>auto simp: keys_smap_set sorted_smap_set simp del: image_subset_iff\<close>)
qed simp

lemma touches_update_nodes:
  assumes "ext_ok E" "fst ` set ns \<subseteq> {x. under p x}"
  shows "touches E (under p) d (update_nodes E ns d)"
  unfolding update_nodes_def using assms(2)
proof (induction ns arbitrary: d)
  case (Cons n ns)
  obtain k v where n: "n = (k, v)" by (cases n)
  show ?case using touches_trans [OF touches_put [OF assms(1)] Cons.IH] Cons.prems by (auto simp: n)
qed simp

lemma SkipList_insert_touches:
  assumes "ext_ok E" "SkipList_insert E rnd d p k v = Some (Inr d')"
  shows "touches E (under p) d d'"
proof -
  consider v' where "d' = db_put E d (head_key p) v'" | v' where "d' = db_put E d (skip_key p k) v'"
    | newnode upd cur nn where "insert_levels E d p k (randomLevel rnd 1) (head_key p) cur nn [] = Some (Inr (newnode, upd))"
        "d' = db_put E (update_nodes E upd d) (skip_key p k) (SkipNode_ToString newnode)"
  proof (cases "DB_Get_str E d (head_key p) = []")
    case True
    then show ?thesis using assms(2) that(1) by (auto simp: SkipList_insert_def Let_def)
  next
    case False
    then obtain x where x: "SkipList_find E d p k = Some (Inr x)" using assms(2)
      by (cases "SkipList_find E d p k") (auto simp: SkipList_insert_def Let_def split: sum.splits)
    show ?thesis
    proof (cases "x = []")
      case True
      then show ?thesis using assms(2) x False that(3)
        by (auto simp: SkipList_insert_def Let_def rbind_Inr_iff simp del: One_nat_def split: sum.splits)
    next
      case ne: False
      then show ?thesis using assms(2) x False that(2) by (auto simp: SkipList_insert_def Let_def rbind_Inr_iff)
    qed
  qed
  then show ?thesis
  proof cases
    case (3 newnode upd cur nn)
    have "fst ` set upd \<subseteq> {x. under p x}" using insert_levels_under [OF 3(1)] by simp
    then show ?thesis unfolding 3(2) using touches_trans [OF touches_update_nodes [OF assms(1)] touches_put [OF assms(1)]] by simp
  qed (use assms(1) in \<open>simp_all add: touches_put\<close>)
qed

section \<open>The trie\<close>

lemma commit_put_frame: "ext_ok E \<Longrightarrow> m k = None \<Longrightarrow> db_map E (commit_put E m c d) k = db_map E d k"
  by (auto simp: commit_put_def Let_def Delta_Get_def Chunk_empty_def split: option.splits)

lemma Delta_Commit_frame:
  fixes d d' :: "'s DB"
  assumes "Delta_Commit E m pending d = Some (Inr d')" "ext_ok E" "m k = None"
  shows "db_map E d' k = db_map E d k"
proof -
  have "ext_ok E \<longrightarrow> m k = None \<longrightarrow> (case (Inr d' :: 's DB result) of Inl e \<Rightarrow> True | Inr d' \<Rightarrow> db_map E d' k = db_map E d k)"
  proof (rule Delta_Commit.raw_induct [of "\<lambda>E m pending d r. ext_ok E \<longrightarrow> m k = None \<longrightarrow> (case r of Inl e \<Rightarrow> True | Inr d' \<Rightarrow> db_map E d' k = db_map E d k)", OF _ assms(1)], goal_cases)
    case (1 commit E m pending d r)
    show ?case
    proof (cases pending)
      case (Cons w rest)
      show ?thesis
      proof (cases w)
        case (CPut node)
        then show ?thesis using 1(2) Cons commit_put_frame [of E m k node d] by (auto split: sum.splits dest!: 1(1))
      next
        case (CVisit node)
        then show ?thesis using 1(2) Cons by (auto simp: obind_Some_iff Let_def split: sum.splits if_splits dest!: 1(1))
      qed
    qed (use 1 in auto)
  qed
  then show ?thesis using assms(2,3) by simp
qed

lemma Trie_open_map: "Trie_open E d h = (t, d') \<Longrightarrow> db_map E d' = db_map E d"
  by (auto simp: Trie_open_def SetNodeForHash_def DB_Get_hash_def Let_def split: if_splits prod.splits option.splits)

lemma trie_step_frame:
  assumes E: "ext_ok E" "univ E U" and t: "stored E U d t" and op: "op_ok (TSet kvs)" "(\<Union>u\<in>set (ins_trace t kvs). nodes u) \<subseteq> U"
    and r: "trie_step E (Some (dig E t)) d (TSet kvs) = Some (Inr (h, d'))" "k \<notin> dig E ` U"
  shows "db_map E d' k = db_map E d k"
proof -
  obtain c d1 where o: "Trie_open E d (Some (dig E t)) = (\<lparr>root_node = c\<rparr>, d1)" "rep E c t" "stored E U d1 t" using Trie_open_ok [OF E t] by blast
  have d1: "db_map E d1 = db_map E d" by (rule Trie_open_map [OF o(1)])
  have s: "wf t" "\<not> is_val t" "nodes t \<subseteq> U" "tenv E U Map.empty d1" "avail E (delta_view E Map.empty d1) t" using o(3) by (simp_all add: stored_def)
  have ok: "\<forall>(k, v)\<in>set kvs. ascii k \<and> length v < 2 ^ 30" using op(1) by (simp add: op_ok_def)
  have "trie_post E U Map.empty d1 (last (t # ins_trace t kvs)) (insert_all E c kvs Map.empty d1)" by (rule insert_all_ok [OF E o(2) s ok op(2)])
  then obtain c' m' d2 where c': "insert_all E c kvs Map.empty d1 = Some (Inr (c', m', d2))" "tenv E U m' d2" "db_map E d2 = db_map E d1" by (auto simp: trie_post_def)
  have z: "zip (map fst kvs) (map snd kvs) = kvs" by (simp add: zip_map_fst_snd)
  have "db_map E d' k = db_map E d2 k" if "kvs \<noteq> []"
  proof -
    have "Delta_Commit E m' [CVisit c'] d2 = Some (Inr d')"
      using r(1) o(1) c'(1) that z by (simp add: trie_step_def Trie_SetMany_def commit_root_def obind_Some_iff)
    moreover have "m' k = None" using c'(2) r(2) by (cases "m' k") (auto simp: tenv_def)
    ultimately show ?thesis using Delta_Commit_frame E(1) by blast
  qed
  moreover have "db_map E d' = db_map E d1" if "kvs = []" using r(1) o(1) that by (simp add: trie_step_def Trie_SetMany_def)
  ultimately show ?thesis using c'(3) d1 by (cases "kvs = []") simp_all
qed

end
