(* ===== verification/LedgerDB_Correct.thy ===== *)
theory LedgerDB_Correct
  imports LedgerDB_Frame
begin

text \<open>
  Histories of LedgerDB: writes, reads and passes of the builder in any order, from an empty store.  The invariant says what the store
  holds for the blocks written so far, the first \<open>n\<close> of which are built.
\<close>

section \<open>Blocks and versions\<close>

text \<open>A batch: the entries of one \<open>Set\<close> and its timestamp.  The \<open>i\<close>-th batch is the block \<open>i\<close>.\<close>

type_synonym batch = "(string \<times> string) list \<times> nat"

definition stamp :: "nat \<Rightarrow> batch \<Rightarrow> (string \<times> stamped) list" where
  "stamp i b = map (\<lambda>(k, v). (k, snd b, i, v)) (fst b)"

definition stamps :: "batch list \<Rightarrow> (string \<times> stamped) list" where
  "stamps bs = concat (map (\<lambda>i. stamp i (bs ! i)) [0..<length bs])"

text \<open>The versions of a key as the skip list keeps them.\<close>

definition vers :: "(string \<times> stamped) list \<Rightarrow> string \<Rightarrow> int \<rightharpoonup> string" where
  "vers sts k = map_of (rev (map (\<lambda>(_, t, i, v). (int t, to_string i @ ''@'' @ v)) (filter (\<lambda>x. fst x = k) sts)))"

definition batch_ok :: "batch \<Rightarrow> bool" where
  "batch_ok b \<longleftrightarrow> fst b \<noteq> [] \<and> distinct (map fst (fst b)) \<and> snd b < 2 ^ 63 \<and>
     (\<forall>(k, v)\<in>set (fst b). ascii k \<and> no_bar k \<and> no_bar v \<and> CHR ''@'' \<notin> set v)"

lemma stamps_Nil [simp]: "stamps [] = []"
  by (simp add: stamps_def)

lemma stamps_snoc [simp]: "stamps (bs @ [b]) = stamps bs @ stamp (length bs) b"
proof -
  have "map (\<lambda>i. stamp i ((bs @ [b]) ! i)) [0..<length bs] = map (\<lambda>i. stamp i (bs ! i)) [0..<length bs]" by (simp add: nth_append)
  then show ?thesis by (simp add: stamps_def del: map_eq_conv)
qed

lemma vers_Nil [simp]: "vers [] k = Map.empty"
  by (simp add: vers_def)

lemma vers_snoc: "vers (sts @ [(k, t, i, v)]) k' = (if k' = k then (vers sts k)(int t \<mapsto> to_string i @ ''@'' @ v) else vers sts k')"
  by (simp add: vers_def)

lemma vers_fresh: "(\<And>i v. (k, t, i, v) \<notin> set sts) \<Longrightarrow> vers sts k (int t) = None"
  by (auto simp: vers_def map_of_eq_None_iff)

lemma stamps_ts: "(k, t, i, v) \<in> set (stamps bs) \<Longrightarrow> t \<in> snd ` set bs"
  by (auto simp: stamps_def stamp_def)

lemma stamps_entry:
  assumes "map_of (rev (stamps bs)) k = Some (t, i, v)" "\<forall>b\<in>set bs. batch_ok b" "length bs < 2 ^ 64"
  shows "(k, v) \<in> set (fst (bs ! i)) \<and> i < length bs \<and> t < 2 ^ 63 \<and> CHR ''@'' \<notin> set v"
proof -
  have "(k, t, i, v) \<in> set (stamps bs)" using map_of_SomeD [OF assms(1)] by simp
  then have i: "i < length bs" "(k, v) \<in> set (fst (bs ! i))" "t = snd (bs ! i)" by (auto simp: stamps_def stamp_def)
  then have "batch_ok (bs ! i)" using assms(2) by simp
  then show ?thesis using i by (auto simp: batch_ok_def)
qed

lemma vers_latest:
  assumes "map_of (rev sts) k = Some (t, i, v)" "\<And>x y w. (k, t, x, w) \<in> set sts \<Longrightarrow> (k, t, y, v) \<in> set sts \<Longrightarrow> x = y \<and> w = v"
  shows "vers sts k (int t) = Some (to_string i @ ''@'' @ v)"
  using assms
proof (induction sts rule: rev_induct)
  case (snoc x sts)
  obtain k' t' i' v' where x: "x = (k', t', i', v')" by (cases x) auto
  show ?case
  proof (cases "k' = k")
    case True
    then show ?thesis using snoc.prems(1) by (simp add: x vers_snoc)
  next
    case False
    then have "vers sts k (int t) = Some (to_string i @ ''@'' @ v)" using snoc.prems(1) by (intro snoc.IH snoc.prems(2)) (auto simp: x)
    then show ?thesis using False by (simp add: x vers_snoc)
  qed
qed simp

section \<open>Keys\<close>

abbreviation sl_prefix :: "string \<Rightarrow> string" where
  "sl_prefix k \<equiv> ''skiplist_'' @ k"

definition sl_text :: "string \<Rightarrow> bool" where
  "sl_text k \<longleftrightarrow> take 9 k = ''skiplist_''"

lemma underE:
  assumes "under p key"
  obtains s where "key = p @ CHR ''|'' # s"
  using that [of "drop (length p + 1) key"] assms append_take_drop_id [of "length p + 1" key] by (simp add: under_def)

lemma under_sl_text: "under (sl_prefix k) key \<Longrightarrow> sl_text key"
  by (elim underE) (simp add: sl_text_def)

lemma under_unique: "no_bar k \<Longrightarrow> no_bar k' \<Longrightarrow> under (sl_prefix k) key \<Longrightarrow> under (sl_prefix k') key \<Longrightarrow> k = k'"
  using sep_unique [of "CHR ''|''" k k'] by (elim underE) (simp add: no_bar_def)

lemma sl_holds_frame: "(\<And>key. under p key \<Longrightarrow> db_map E d' key = db_map E d key) \<Longrightarrow> sl_holds E d p m \<Longrightarrow> sl_holds E d' p m"
  by (simp add: sl_holds_def sl_repr_def DB_Get_str_def DB_Get_def)

section \<open>Writing\<close>

fun head_fits :: "stamped option \<Rightarrow> int option \<Rightarrow> bool" where
  "head_fits (Some (t, _)) h = (h = Some (int t))"
| "head_fits None h = (h = None \<or> h = Some 0)"

definition heads_ok :: "(string \<times> int) list \<Rightarrow> (string \<times> stamped) list \<Rightarrow> bool" where
  "heads_ok hs sts \<longleftrightarrow> (\<forall>k. head_fits (map_of (rev sts) k) (map_of hs k))"

definition versions_ok :: "'s ext \<Rightarrow> 's DB \<Rightarrow> (string \<times> stamped) list \<Rightarrow> bool" where
  "versions_ok E d sts \<longleftrightarrow> (\<forall>k. no_bar k \<longrightarrow> sl_holds E d (sl_prefix k) (vers sts k))"

lemma to_long_small: "t < 2 ^ 63 \<Longrightarrow> to_long t = int t" and to_ulong_small: "t < 2 ^ 63 \<Longrightarrow> to_ulong (int t) = t"
  by (simp_all add: to_long_def to_ulong_def Let_def)

lemma set_entries_ok:
  assumes E: "ext_ok E" and t: "t < 2 ^ 63"
  shows "versions_ok E (ldb L) sts \<Longrightarrow> heads_ok (skiplist_head L) sts \<Longrightarrow> distinct (map fst kvs) \<Longrightarrow>
    \<forall>(k, v)\<in>set kvs. no_bar k \<and> no_bar v \<Longrightarrow> (\<And>k i v. k \<in> fst ` set kvs \<Longrightarrow> (k, t, i, v) \<notin> set sts) \<Longrightarrow>
    \<exists>d hs. set_entries E rnd (to_string i) t j kvs L = Some (Inr (L\<lparr>ldb := d, skiplist_head := hs\<rparr>)) \<and> touches E sl_text (ldb L) d \<and>
      versions_ok E d (sts @ stamp i (kvs, t)) \<and> heads_ok hs (sts @ stamp i (kvs, t))"
proof (induction kvs arbitrary: L sts j)
  case Nil
  then show ?case by (intro exI [of _ "ldb L"] exI [of _ "skiplist_head L"]) (simp add: stamp_def)
next
  case (Cons kv kvs)
  obtain k v where kv: "kv = (k, v)" by (cases kv)
  let ?v = "to_string i @ ''@'' @ v" and ?sts = "sts @ [(k, t, i, v)]"
  have k: "no_bar k" "no_bar v" using Cons.prems(4) kv by auto
  have h: "sl_holds E (ldb L) (sl_prefix k) (vers sts k)" using Cons.prems(1) k(1) by (simp add: versions_ok_def)
  have new: "vers sts k (int t) = None" using Cons.prems(5) [of k] kv by (intro vers_fresh) auto
  have g: "sl_good (int t) ?v" using t k(2) by (simp add: sl_good_def no_bar_def)
  obtain d where d: "SkipList_insert E (rnd j) (ldb L) (sl_prefix k) (int t) ?v = Some (Inr d)" "sl_holds E d (sl_prefix k) ((vers sts k)(int t \<mapsto> ?v))"
    using skip_index.add_new [OF E h new g] by blast
  have tch: "touches E (under (sl_prefix k)) (ldb L) d" by (rule SkipList_insert_touches [OF E d(1)])
  let ?L = "L\<lparr>ldb := d, skiplist_head := smap_set k (int t) (skiplist_head L)\<rparr>"
  have "sl_holds E d (sl_prefix k') (vers ?sts k')" if k': "no_bar k'" for k'
  proof (cases "k' = k")
    case False
    have "db_map E d key = db_map E (ldb L) key" if "under (sl_prefix k') key" for key using tch under_unique [OF k(1) k' _ that] False by (auto simp: touches_def)
    then show ?thesis using sl_holds_frame [of "sl_prefix k'" E d "ldb L"] Cons.prems(1) False k' by (simp add: vers_snoc versions_ok_def)
  qed (use d(2) in \<open>simp add: vers_snoc\<close>)
  then have v: "versions_ok E (ldb ?L) ?sts" by (simp add: versions_ok_def)
  have hd: "heads_ok (skiplist_head ?L) ?sts" using Cons.prems(2) by (auto simp: heads_ok_def map_of_smap_set)
  obtain d' hs where r: "set_entries E rnd (to_string i) t (j + 1) kvs ?L = Some (Inr (?L\<lparr>ldb := d', skiplist_head := hs\<rparr>))" "touches E sl_text (ldb ?L) d'"
      "versions_ok E d' (?sts @ stamp i (kvs, t))" "heads_ok hs (?sts @ stamp i (kvs, t))"
    using Cons.IH [OF v hd, of "j + 1"] Cons.prems(3,4,5) kv by (fastforce simp: image_iff)
  have "stamp i (kv # kvs, t) = (k, t, i, v) # stamp i (kvs, t)" by (simp add: stamp_def kv)
  moreover have "touches E sl_text (ldb L) d'" using touches_trans [OF touches_mono [OF tch under_sl_text]] r(2) by simp
  ultimately show ?case using r(1,3,4) d(1) by (intro exI [of _ d'] exI [of _ hs]) (simp add: kv to_long_small [OF t])
qed

section \<open>Reading\<close>

text \<open>What \<open>GetValues\<close> answers for a key.\<close>

definition answer_of :: "(string \<times> stamped) list \<Rightarrow> string \<Rightarrow> stamped" where
  "answer_of sts k = (case map_of (rev sts) k of None \<Rightarrow> (0, 0, []) | Some x \<Rightarrow> x)"

lemma found_node:
  assumes "found_value (SkipList_find E d p t) = Some (Inr r)"
  obtains node where "SkipList_find E d p t = Some (Inr node)" "r = None \<longleftrightarrow> node = []" "\<And>v. r = Some v \<Longrightarrow> \<exists>n. SkipNode_of node = Inr n \<and> sn_value n = v"
  using assms by (cases "SkipList_find E d p t") (auto simp: found_value_def rbind_Inr_iff split: if_splits)

lemma node_version_of:
  assumes "SkipNode_of node = Inr n" "sn_value n = to_string i @ ''@'' @ v" "i < 2 ^ 64" "CHR ''@'' \<notin> set v"
  shows "\<exists>k. node_version node = Inr (k, i, v)"
  using assms splitBy_append [of "CHR ''@''" "to_string i" v] splitBy_last [of "CHR ''@''" v]
  by (simp add: node_version_def vec_at_def)

lemma GetValues_ok:
  assumes E: "ext_ok E" "versions_ok E (ldb L) sts"
    and sts: "\<And>k t i v. map_of (rev sts) k = Some (t, i, v) \<Longrightarrow> t < 2 ^ 63 \<and> i < 2 ^ 64 \<and> CHR ''@'' \<notin> set v \<and> vers sts k (int t) = Some (to_string i @ ''@'' @ v)"
  shows "heads_ok (skiplist_head L) sts \<Longrightarrow> \<forall>k\<in>set keys. no_bar k \<Longrightarrow>
    \<exists>hs. LedgerDB_GetValues E keys L = Some (Inr (map (answer_of sts) keys, L\<lparr>skiplist_head := hs\<rparr>)) \<and> heads_ok hs sts"
  using E(2)
proof (induction keys arbitrary: L)
  case Nil
  then show ?case by (intro exI [of _ "skiplist_head L"]) simp
next
  case (Cons k keys)
  obtain t m where tm: "head_of k (skiplist_head L) = (t, m)" by (cases "head_of k (skiplist_head L)")
  have f: "head_fits (map_of (rev sts) k) (map_of (skiplist_head L) k)" using Cons.prems(1) by (simp add: heads_ok_def)
  then have h: "heads_ok m sts" "0 \<le> t" "\<And>x y. map_of (rev sts) k = Some (x, y) \<Longrightarrow> t = int x"
    using tm Cons.prems(1) by (cases "(map_of (rev sts) k, map_of (skiplist_head L) k)" rule: head_fits.cases; auto simp: head_of_def heads_ok_def map_of_smap_set split: option.splits)+
  have "sl_holds E (ldb L) (sl_prefix k) (vers sts k)" using Cons.prems(2,3) by (simp add: versions_ok_def)
  then have "found_value (SkipList_find E (ldb L) (sl_prefix k) t) = Some (Inr (vers sts k t))" using skip_index.look_holds [OF E(1) _ h(2)] by blast
  then obtain node where node: "SkipList_find E (ldb L) (sl_prefix k) t = Some (Inr node)" "vers sts k t = None \<longleftrightarrow> node = []"
      "\<And>v. vers sts k t = Some v \<Longrightarrow> \<exists>n. SkipNode_of node = Inr n \<and> sn_value n = v"
    using found_node by metis
  obtain hs where hs: "LedgerDB_GetValues E keys (L\<lparr>skiplist_head := m\<rparr>) = Some (Inr (map (answer_of sts) keys, L\<lparr>skiplist_head := hs\<rparr>))" "heads_ok hs sts"
    using Cons.IH [of "L\<lparr>skiplist_head := m\<rparr>"] h(1) Cons.prems(2,3) by auto
  have "(if node = [] then Inr (0, 0, []) else rbind (node_version node) (\<lambda>(_, blk, v). Inr (to_ulong t, blk, v))) = Inr (answer_of sts k)"
  proof (cases "map_of (rev sts) k")
    case None
    then have "filter (\<lambda>x. fst x = k) sts = []" by (auto simp: map_of_eq_None_iff filter_empty_conv)
    then have "vers sts k t = None" by (simp add: vers_def)
    then show ?thesis using node(2) None by (simp add: answer_of_def)
  next
    case (Some x)
    obtain a i v where x: "x = (a, i, v)" by (cases x)
    note s = sts [OF Some [unfolded x]]
    have t: "t = int a" using h(3) Some x by simp
    obtain n where "SkipNode_of node = Inr n" "sn_value n = to_string i @ ''@'' @ v" using node(3) s t by blast
    then obtain j where "node_version node = Inr (j, i, v)" using node_version_of s by blast
    moreover have "node \<noteq> []" using node(2) s t by simp
    ultimately show ?thesis using Some x s t by (simp add: answer_of_def to_ulong_small)
  qed
  then show ?case using tm node(1) hs by (cases "node = []") auto
qed

section \<open>Building\<close>

definition ledger_text :: "string \<Rightarrow> bool" where
  "ledger_text k \<longleftrightarrow> mt_text k \<or> sl_text k \<or> take 6 k = ''commit'' \<or> take 7 k = ''ledger-'' \<or> k = ''digest''"

text \<open>\<open>U\<close>: all nodes of the tries of a history, none with the hash of another or with a hash that is a key of the ledger.\<close>

definition nodes_fine :: "'s ext \<Rightarrow> mpt set \<Rightarrow> bool" where
  "nodes_fine E U \<longleftrightarrow> univ E U \<and> (\<forall>u\<in>U. nodes u \<subseteq> U \<and> \<not> ledger_text (dig E u))"

lemma stored_frame:
  assumes "touches E ledger_text d d'" "nodes_fine E U" "stored E U d t"
  shows "stored E U d' t"
proof -
  have e: "db_map E d' (dig E u) = db_map E d (dig E u)" if "u \<in> U" for u using assms(1,2) that by (auto simp: touches_def nodes_fine_def)
  have a: "avail E (db_map E d') u \<longleftrightarrow> avail E (db_map E d) u" if "nodes u \<subseteq> U" for u
    unfolding avail_def by (intro ball_cong refl) (use e that in \<open>simp add: subset_iff\<close>)
  have "tenv E U Map.empty d'" using assms(1,3) e by (simp add: stored_def tenv_def touches_def)
  moreover have "closed E U d'" using assms(2,3) e a by (simp add: stored_def closed_def nodes_fine_def)
  ultimately show ?thesis using assms(3) a by (simp add: stored_def)
qed

lemma mt_frame:
  assumes "\<And>k. mt_text k \<Longrightarrow> db_map E d' k = db_map E d k"
  shows "mt_stored E d xs \<Longrightarrow> mt_stored E d' xs" "mt_tip E d cs xs \<Longrightarrow> mt_tip E d' cs xs"
  using assms by (auto simp: mt_stored_def mt_tip_def)

lemma ledger_key_classes [simp]:
  "\<not> mt_text (ledger_key i)" "\<not> sl_text (ledger_key i)" "ledger_text (ledger_key i)" "take 6 (ledger_key i) \<noteq> ''commit''" "ledger_key i \<noteq> ''digest''"
  "\<not> mt_text (commit_key i)" "\<not> sl_text (commit_key i)" "ledger_text (commit_key i)" "take 7 (commit_key i) \<noteq> ''ledger-''" "commit_key i \<noteq> ''digest''"
  "\<not> mt_text ''digest''" "\<not> sl_text ''digest''" "ledger_text ''digest''" "''digest'' \<noteq> commit_key i" "ledger_key i \<noteq> commit_key j" "commit_key j \<noteq> ledger_key i"
  "commit_key i = commit_key j \<longleftrightarrow> i = j" "ledger_key i = ledger_key j \<longleftrightarrow> i = j"
  by (simp_all add: mt_text_def sl_text_def ledger_text_def ledger_key_def commit_key_def)

subsection \<open>Draining the queue\<close>

definition queued :: "batch list \<Rightarrow> nat \<Rightarrow> Tree_Block" where
  "queued bs i = \<lparr> tb_blk_seq = i, tb_mpt_ks = map fst (fst (bs ! i)), tb_mpt_ts = to_string (snd (bs ! i)) \<rparr>"

definition leaf :: "'s ext \<Rightarrow> batch \<Rightarrow> string" where
  "leaf E b = hval (ComputeFrom E (block_text (fst b)))"

definition batch_add :: "(string \<times> string) list \<Rightarrow> batch \<Rightarrow> (string \<times> string) list" where
  "batch_add m b = foldl (\<lambda>m k. smap_set k (to_string (snd b)) m) m (map fst (fst b))"

definition blocks_ok :: "'s ext \<Rightarrow> 's DB \<Rightarrow> batch list \<Rightarrow> bool" where
  "blocks_ok E d bs \<longleftrightarrow> (\<forall>i<length bs. DB_Get_str E d (ledger_key i) = block_text (fst (bs ! i)))"

lemma leaf_20: "ext_ok E \<Longrightarrow> hashes20 (map (leaf E) bs)"
  by (auto simp: hashes20_def leaf_def)

lemma drain_ok:
  "\<forall>i\<in>set is. DB_Get_str E d (ledger_key i) = block_text (fst (bs ! i)) \<Longrightarrow>
    drain E d (map (queued bs) is) hs m = (hs @ map (\<lambda>i. b32 (leaf E (bs ! i))) is, foldl batch_add m (map (nth bs) is))"
  by (induction "is" arbitrary: hs m) (simp_all add: queued_def leaf_def batch_add_def ToBase32_ComputeFrom)

text \<open>The map of the timestamps last written.\<close>

definition upd_batch :: "(string \<rightharpoonup> string) \<Rightarrow> batch \<Rightarrow> (string \<rightharpoonup> string)" where
  "upd_batch f b = foldl (\<lambda>f k. f(k \<mapsto> to_string (snd b))) f (map fst (fst b))"

lemma map_of_batch_add: "map_of (batch_add m b) = upd_batch (map_of m) b"
proof -
  have "map_of (foldl (\<lambda>m k. smap_set k x m) m ks) = foldl (\<lambda>f k. f(k \<mapsto> x)) (map_of m) ks" for ks and x :: string and m :: "(string \<times> string) list"
    by (induction ks arbitrary: m) (simp_all add: map_of_smap_set)
  then show ?thesis by (simp add: batch_add_def upd_batch_def)
qed

lemma map_of_batches: "map_of (foldl batch_add m bs) = foldl upd_batch (map_of m) bs"
  by (induction bs arbitrary: m) (simp_all add: map_of_batch_add)

lemma sorted_batch_add: "sorted_wrt (<) (map fst m) \<Longrightarrow> sorted_wrt (<) (map fst (batch_add m b))"
proof -
  have "sorted_wrt (<) (map fst m) \<Longrightarrow> sorted_wrt (<) (map fst (foldl (\<lambda>m k. smap_set k x m) m ks))" for ks and x :: string and m :: "(string \<times> string) list"
    by (induction ks arbitrary: m) (simp_all add: sorted_smap_set)
  then show "sorted_wrt (<) (map fst m) \<Longrightarrow> sorted_wrt (<) (map fst (batch_add m b))" by (simp add: batch_add_def)
qed

lemma sorted_batches: "sorted_wrt (<) (map fst m) \<Longrightarrow> sorted_wrt (<) (map fst (foldl batch_add m bs))"
  by (induction bs arbitrary: m) (simp_all add: sorted_batch_add)

lemma upd_batch_add: "upd_batch (f ++ g) b = f ++ upd_batch g b"
proof -
  have "foldl (\<lambda>f k. f(k \<mapsto> x)) (f ++ g) ks = f ++ foldl (\<lambda>f k. f(k \<mapsto> x)) g ks" for ks and x :: string and f g :: "string \<rightharpoonup> string"
    by (induction ks arbitrary: g) (simp_all flip: map_add_upd)
  then show ?thesis by (simp add: upd_batch_def)
qed

lemma batches_op_map: "op_map f (TSet (foldl batch_add [] bs)) = foldl upd_batch f bs"
proof -
  let ?kvs = "foldl batch_add [] bs"
  have "distinct (map fst ?kvs)" using sorted_batches [of "[]" bs] by (simp add: strict_sorted_iff)
  then have r: "map_of (rev ?kvs) = map_of ?kvs" by (subst map_of_inject_set) (simp_all flip: rev_map)
  have "foldl upd_batch (f ++ g) bs = f ++ foldl upd_batch g bs" for g by (induction bs arbitrary: g) (simp_all add: upd_batch_add)
  from this [of Map.empty] have "foldl upd_batch f bs = f ++ foldl upd_batch Map.empty bs" by simp
  then show ?thesis using r map_of_batches [of "[]" bs] by simp
qed

lemma keys_batches:
  assumes "(k, x) \<in> set (foldl batch_add [] bs)"
  shows "\<exists>b\<in>set bs. k \<in> fst ` set (fst b) \<and> x = to_string (snd b)"
proof -
  have one: "(k, x) \<in> set (batch_add m b) \<Longrightarrow> (k, x) \<in> set m \<or> k \<in> fst ` set (fst b) \<and> x = to_string (snd b)" for m b
  proof -
    have s: "(k, x) \<in> set (smap_set k' y m) \<Longrightarrow> (k, x) \<in> set m \<or> k = k' \<and> x = y" for k' y and m :: "(string \<times> string) list"
      by (induction k' y m rule: smap_set.induct) (auto split: if_splits)
    have "(k, x) \<in> set (foldl (\<lambda>m k. smap_set k y m) m ks) \<Longrightarrow> (k, x) \<in> set m \<or> k \<in> set ks \<and> x = y" for ks y
      by (induction ks arbitrary: m) (auto dest: s)
    from this [of "to_string (snd b)" "map fst (fst b)"]
    show "(k, x) \<in> set (batch_add m b) \<Longrightarrow> (k, x) \<in> set m \<or> k \<in> fst ` set (fst b) \<and> x = to_string (snd b)" by (simp add: batch_add_def)
  qed
  have "(k, x) \<in> set (foldl batch_add m bs) \<Longrightarrow> (k, x) \<in> set m \<or> (\<exists>b\<in>set bs. k \<in> fst ` set (fst b) \<and> x = to_string (snd b))" for m
    by (induction bs arbitrary: m) (auto dest!: one)
  from this [OF assms] show ?thesis by simp
qed

subsection \<open>The trie\<close>

lemma Trie_open_nil: "ext_ok E \<Longrightarrow> Trie_open E d (Some (dig E MNil)) = (\<lparr>root_node = MPTNil_Encode\<rparr>, d)"
  using nil_hash [of E] by (simp add: Trie_open_def SetNodeForHash_def Hash_eq_iff)

lemma update_mpt_ok:
  assumes E: "ext_ok E" "univ E U" "stored E U d t" and op: "op_ok (TSet kvs)" "(\<Union>u\<in>set (ins_trace t kvs). nodes u) \<subseteq> U"
    and h: "h = Some (dig E t) \<or> h = None \<and> t = MNil"
  shows "\<exists>d'. update_mpt E h (map fst kvs) (map snd kvs) d = Some (Inr (Some (dig E (last (t # ins_trace t kvs))), d')) \<and>
    stored E U d' (last (t # ins_trace t kvs)) \<and> (\<forall>k. k \<notin> dig E ` U \<longrightarrow> db_map E d' k = db_map E d k)"
proof -
  let ?t = "last (t # ins_trace t kvs)"
  obtain d1 where d1: "trie_step E (Some (dig E t)) d (TSet kvs) = Some (Inr (Some (dig E ?t), d1))" "stored E U d1 ?t"
    using trie_step_ok [OF E(1,2,3) op(1)] op(2) by auto
  have f: "db_map E d1 k = db_map E d k" if "k \<notin> dig E ` U" for k by (rule trie_step_frame [OF E(1,2,3) op d1(1) that])
  show ?thesis using h
  proof
    assume "h = Some (dig E t)"
    then have "update_mpt E h (map fst kvs) (map snd kvs) d = Some (Inr (Some (dig E ?t), d1))"
      using d1(1) E(1) by (auto simp: update_mpt_def trie_step_def Hash_empty_def Hash_Clone_def Let_def split: prod.splits)
    then show ?thesis using d1(2) f by blast
  next
    assume n: "h = None \<and> t = MNil"
    obtain c d2 where o: "Trie_open E d1 (Some (dig E ?t)) = (\<lparr>root_node = c\<rparr>, d2)" "rep E c ?t" "stored E U d2 ?t" using Trie_open_ok [OF E(1,2) d1(2)] by blast
    have "wf ?t" using d1(2) by (simp add: stored_def)
    then have "chunk_hash E c = Some (dig E ?t)" by (rule rep_chunk(5) [OF E(1) _ o(2)])
    moreover have "Trie_SetMany E \<lparr>root_node = MPTNil_Encode\<rparr> (map fst kvs) (map snd kvs) d = Some (Inr (Some (dig E ?t), d1))"
      using d1(1) n Trie_open_nil [OF E(1)] by (simp add: trie_step_def)
    ultimately have "update_mpt E h (map fst kvs) (map snd kvs) d = Some (Inr (Some (dig E ?t), d2))"
      using n o(1) E(1) by (simp add: update_mpt_def Trie_build_def Trie_hash_def Hash_empty_def Hash_Clone_def)
    moreover have "db_map E d2 k = db_map E d k" if "k \<notin> dig E ` U" for k using f [OF that] Trie_open_map [OF o(1)] by simp
    ultimately show ?thesis using o(3) by blast
  qed
qed

subsection \<open>The invariant\<close>

definition commit_of :: "'s ext \<Rightarrow> nat \<Rightarrow> string \<Rightarrow> batch list \<Rightarrow> mpt \<Rightarrow> CommitInfo" where
  "commit_of E c pd bs t = \<lparr> ci_commit_seq = c, ci_prev_digest = pd, ci_tip_block = length bs - 1, ci_mtroot = b32 (tree_root E (map (leaf E) bs)),
     ci_mtrootkey = mt_root_key (to_string c) (length bs), ci_mptroot = b32 (dig E t) \<rparr>"

definition digest_of :: "'s ext \<Rightarrow> CommitInfo \<Rightarrow> DigestInfo" where
  "digest_of E ci = \<lparr> di_commit_seq = ci_commit_seq ci, di_tip_block = ci_tip_block ci, di_digest = ToBase32 (ComputeFrom E (CommitInfo_ToString ci)) \<rparr>"

text \<open>The blocks \<open>bs\<close> are built, by \<open>c\<close> commits.\<close>

definition built_ok :: "'s ext \<Rightarrow> 's DB \<Rightarrow> batch list \<Rightarrow> nat \<Rightarrow> mpt \<Rightarrow> bool" where
  "built_ok E d bs c t \<longleftrightarrow> mt_stored E d (map (leaf E) bs) \<and> c \<le> length bs \<and> (if bs = [] then c = 0 \<and> t = MNil else 0 < c \<and> mt_tip E d (to_string (c - 1)) (map (leaf E) bs) \<and>
     (\<exists>pd. no_bar pd \<and> DB_Get_str E d (commit_key (c - 1)) = CommitInfo_ToString (commit_of E (c - 1) pd bs t) \<and>
       DB_Get_str E d ''digest'' = DigestInfo_ToString (digest_of E (commit_of E (c - 1) pd bs t))))"

definition ledger_inv :: "'s ext \<Rightarrow> mpt set \<Rightarrow> batch list \<Rightarrow> nat \<Rightarrow> mpt \<Rightarrow> 's LedgerDB \<Rightarrow> bool" where
  "ledger_inv E U bs n t L \<longleftrightarrow> next_block_seq L = length bs \<and> n \<le> length bs \<and> tree_queue L = map (queued bs) [n..<length bs] \<and>
     blocks_ok E (ldb L) bs \<and> versions_ok E (ldb L) (stamps bs) \<and> heads_ok (skiplist_head L) (stamps bs) \<and>
     stored E U (ldb L) t \<and> stands_for t (foldl upd_batch Map.empty (take n bs)) \<and> built_ok E (ldb L) (take n bs) (commit_seq L) t"

lemma no_bar_simps [simp]: "no_bar (to_string n)" "length x = 20 \<Longrightarrow> no_bar (b32 x)" "no_bar (mt_root_key (to_string c) n)"
  by (simp_all add: no_bar_def mt_root_key_def mt_key_def)

lemma tree_root_20: "ext_ok E \<Longrightarrow> hashes20 zs \<Longrightarrow> zs \<noteq> [] \<Longrightarrow> length (tree_root E zs) = 20"
  using tree_level_20 [of E zs] tree_level_height [of zs E] by (metis hashes20_def list.set_intros(1))

lemma commit_of_ok:
  assumes "ext_ok E" "bs \<noteq> []" "no_bar pd" "c < 2 ^ 64" "length bs < 2 ^ 64"
  shows "CommitInfo_ok (commit_of E c pd bs t)" "DigestInfo_ok (digest_of E (commit_of E c pd bs t))"
proof -
  have "length (tree_root E (map (leaf E) bs)) = 20" using tree_root_20 [OF assms(1) leaf_20 [OF assms(1)]] assms(2) by simp
  then show "CommitInfo_ok (commit_of E c pd bs t)" using assms by (simp add: CommitInfo_ok_def commit_of_def)
  show "DigestInfo_ok (digest_of E (commit_of E c pd bs t))" using assms by (simp add: DigestInfo_ok_def digest_of_def ToBase32_ComputeFrom) (simp add: commit_of_def)
qed

lemma last_commit_ok:
  assumes "ext_ok E" "built_ok E d bs c t" "length bs < 2 ^ 64"
  shows "\<exists>h pd. last_commit E d c = Inr (h, pd) \<and> no_bar pd \<and> (h = Some (dig E t) \<or> h = None \<and> t = MNil)"
proof (cases "bs = []")
  case True
  then show ?thesis using assms(2) by (simp add: built_ok_def last_commit_def no_bar_def)
next
  case False
  then obtain pd where pd: "0 < c" "c \<le> length bs" "no_bar pd" "DB_Get_str E d (commit_key (c - 1)) = CommitInfo_ToString (commit_of E (c - 1) pd bs t)"
    using assms(2) by (auto simp: built_ok_def)
  have "CommitInfo_ok (commit_of E (c - 1) pd bs t)" using commit_of_ok(1) [OF assms(1) False pd(3)] assms(3) pd(2) by simp
  then have "CommitInfo_of_string (CommitInfo_ToString (commit_of E (c - 1) pd bs t)) = Inr (commit_of E (c - 1) pd bs t)" by (rule commit_codec.dec_enc)
  moreover have "FromBase32 (ci_mptroot (commit_of E (c - 1) pd bs t)) = Some (dig E t)" using assms(1) by (simp add: commit_of_def FromBase32_ToBase32)
  moreover have "no_bar (ToBase32 (FromBase32 x))" for x using FromBase32_Some [of x] no_bar_simps(2) [OF length_FromBase32] by metis
  ultimately show ?thesis using pd(1,4) by (auto simp: last_commit_def Let_def)
qed

lemma batches_op_ok: "\<forall>b\<in>set bs. batch_ok b \<Longrightarrow> op_ok (TSet (foldl batch_add [] bs))"
proof -
  assume ok: "\<forall>b\<in>set bs. batch_ok b"
  have "ascii k \<and> length x < 2 ^ 30" if kx: "(k, x) \<in> set (foldl batch_add [] bs)" for k x
  proof -
    obtain b where b: "b \<in> set bs" "k \<in> fst ` set (fst b)" "x = to_string (snd b)" using keys_batches [OF kx] by blast
    then have "ascii k" "snd b < 10 ^ 20" using ok by (force simp: batch_ok_def)+
    then show ?thesis using b(3) length_to_string [of "snd b" 20] by simp
  qed
  then show ?thesis by (auto simp: op_ok_def)
qed

lemma next_commit_ok: "built_ok E d bs c t \<Longrightarrow> length bs < 2 ^ 64 \<Longrightarrow> mt_next_commit (if c = 0 then [] else to_string (c - 1)) = Inr (to_string c)"
  by (auto simp: built_ok_def mt_next_commit_def to_string_0 split: if_splits)

lemma last_commit_cong: "DB_Get_str E d' (commit_key (c - 1)) = DB_Get_str E d (commit_key (c - 1)) \<Longrightarrow> last_commit E d' c = last_commit E d c"
  by (simp add: last_commit_def)

lemma map_nth_drop: "map (nth xs) [n..<length xs] = drop n xs"
  by (rule nth_equalityI) auto

lemma put_commit_ok:
  fixes t :: mpt
  assumes E: "ext_ok E" and bs: "bs \<noteq> []" "c < length bs" "no_bar pd" and mt: "mt_stored E d (map (leaf E) bs)" "mt_tip E d (to_string c) (map (leaf E) bs)"
  defines "ci \<equiv> commit_of E c pd bs t"
  shows "built_ok E (db_put E (db_put E d (commit_key c) (CommitInfo_ToString ci)) ''digest'' (DigestInfo_ToString (digest_of E ci))) bs (c + 1) t"
proof -
  let ?d = "db_put E (db_put E d (commit_key c) (CommitInfo_ToString ci)) ''digest'' (DigestInfo_ToString (digest_of E ci))"
  have "db_map E ?d k = db_map E d k" if "mt_text k" for k using E that by auto
  then have "mt_stored E ?d (map (leaf E) bs)" "mt_tip E ?d (to_string c) (map (leaf E) bs)" using mt_frame [of E ?d d] mt by blast+
  moreover have "DB_Get_str E ?d (commit_key c) = CommitInfo_ToString ci" "DB_Get_str E ?d ''digest'' = DigestInfo_ToString (digest_of E ci)" using E by simp_all
  ultimately show ?thesis using bs unfolding built_ok_def ci_def by auto
qed

lemma buildTree_ok:
  assumes E: "ext_ok E" "nodes_fine E U" and inv: "ledger_inv E U bs n t L" and bs: "length bs < 2 ^ 64" "\<forall>b\<in>set bs. batch_ok b" "n < length bs"
    and tr: "(\<Union>u\<in>set (ins_trace t (foldl batch_add [] (drop n bs))). nodes u) \<subseteq> U"
  shows "\<exists>L'. buildTree E L = Some (Inr L') \<and> ledger_inv E U bs (length bs) (last (t # ins_trace t (foldl batch_add [] (drop n bs)))) L'"
proof -
  let ?c = "commit_seq L" and ?kvs = "foldl batch_add [] (drop n bs)" and ?xs = "map (leaf E) (take n bs)" and ?ys = "map (leaf E) (drop n bs)"
  let ?t = "last (t # ins_trace t ?kvs)" and ?d = "ldb L" and ?prev = "if commit_seq L = 0 then [] else to_string (commit_seq L - 1)"
  note i = inv [unfolded ledger_inv_def]
  have xy: "?xs @ ?ys = map (leaf E) bs" by (simp flip: map_append)
  have built: "built_ok E ?d (take n bs) ?c t" "stored E U ?d t" using i by simp_all
  have c: "?c < length bs" using built(1) bs(3) by (simp add: built_ok_def)
  have q: "tree_queue L \<noteq> []" "tb_blk_seq (hd (tree_queue L)) = n" "tb_blk_seq (last (tree_queue L)) = length bs - 1"
  proof -
    have tq: "tree_queue L = map (queued bs) [n..<length bs]" "[n..<length bs] \<noteq> []" using i bs(3) by auto
    then show "tree_queue L \<noteq> []" "tb_blk_seq (hd (tree_queue L)) = n" using bs(3) by (simp_all add: hd_map queued_def)
    show "tb_blk_seq (last (tree_queue L)) = length bs - 1" unfolding tq(1) last_map [OF tq(2)] using bs(3) by (simp add: queued_def)
  qed
  have dr: "drain E ?d (tree_queue L) [] [] = (map b32 ?ys, ?kvs)"
    using drain_ok [of "[n..<length bs]" E ?d bs "[]" "[]"] i unfolding map_nth_drop [of bs n, symmetric] by (simp add: blocks_ok_def comp_def)
  have nc: "mt_next_commit ?prev = Inr (to_string ?c)" using next_commit_ok [OF built(1)] bs(1) by simp
  obtain d1 where d1: "mt_update E ?d n (map b32 ?ys) ?prev = Inr (d1, mt_root_key (to_string ?c) (length bs), b32 (tree_root E (map (leaf E) bs)))"
      "mt_stored E d1 (map (leaf E) bs)" "mt_tip E d1 (to_string ?c) (map (leaf E) bs)"
    using mt_update_spec [OF E(1) _ _ _ nc, of ?xs ?ys ?d] leaf_20 [OF E(1), of bs] built(1) bs(3) unfolding xy by (auto simp: built_ok_def)
  have t1: "touches E mt_text ?d d1" using mt_update_touches [OF E(1) _ nc, of "map b32 ?ys" ?d n] d1(1) bs(3) by auto
  then have s1: "stored E U d1 t" by (intro stored_frame [OF _ E(2) built(2)]) (erule touches_mono, simp add: ledger_text_def)
  obtain h pd where h: "last_commit E d1 ?c = Inr (h, pd)" "no_bar pd" "h = Some (dig E t) \<or> h = None \<and> t = MNil"
  proof -
    have "length (take n bs) < 2 ^ 64" using bs(1,3) by simp
    from last_commit_ok [OF E(1) built(1) this] show ?thesis using that last_commit_cong [OF touches_get [OF t1]] by auto
  qed
  have ok: "op_ok (TSet ?kvs)" using batches_op_ok [of "drop n bs"] bs(2) by (meson in_set_dropD)
  have u: "univ E U" using E(2) by (simp add: nodes_fine_def)
  obtain d2 where d2: "update_mpt E h (map fst ?kvs) (map snd ?kvs) d1 = Some (Inr (Some (dig E ?t), d2))" "stored E U d2 ?t"
      "\<And>k. k \<notin> dig E ` U \<Longrightarrow> db_map E d2 k = db_map E d1 k"
    using update_mpt_ok [OF E(1) u s1 ok tr h(3)] by blast
  define ci where "ci = commit_of E ?c pd bs ?t"
  define d4 where "d4 = db_put E (db_put E d2 (commit_key ?c) (CommitInfo_ToString ci)) ''digest'' (DigestInfo_ToString (digest_of E ci))"
  let ?L = "L\<lparr>ldb := d4, commit_seq := ?c + 1, tree_queue := []\<rparr>"
  have "buildTree E L = Some (Inr ?L)"
    using q dr d1(1) h(1) d2(1) c bs(1) unfolding buildTree_def d4_def ci_def commit_of_def digest_of_def by (simp add: Let_def)
  moreover have "ledger_inv E U bs (length bs) ?t ?L"
  proof -
    have tx: "k \<notin> dig E ` U" if "ledger_text k" for k using E(2) that by (auto simp: nodes_fine_def)
    have g: "db_map E d4 k = db_map E ?d k" if "ledger_text k" "\<not> mt_text k" "k \<noteq> commit_key ?c" "k \<noteq> ''digest''" for k
      using that E(1) d2(3) [OF tx] t1 by (auto simp: d4_def touches_def)
    have "touches E ledger_text d2 d4" unfolding d4_def by (rule touches_trans [OF touches_put touches_put]) (use E(1) in simp_all)
    then have "stored E U d4 ?t" by (rule stored_frame [OF _ E(2) d2(2)])
    moreover have "blocks_ok E d4 bs" using i g by (auto simp: blocks_ok_def DB_Get_str_def DB_Get_def)
    moreover have "versions_ok E d4 (stamps bs)"
      unfolding versions_ok_def
    proof (intro allI impI)
      fix k assume k: "no_bar k"
      have "db_map E d4 key = db_map E ?d key" if "under (sl_prefix k) key" for key
      proof (rule g)
        have st: "sl_text key" by (rule under_sl_text [OF that])
        then show "ledger_text key" by (simp add: ledger_text_def)
        show "\<not> mt_text key" using st by (cases key; cases "tl key") (auto simp: mt_text_def sl_text_def)
        show "key \<noteq> commit_key ?c" "key \<noteq> ''digest''" using st ledger_key_classes(7,12) by metis+
      qed
      then show "sl_holds E d4 (sl_prefix k) (vers (stamps bs) k)" using i k by (auto intro: sl_holds_frame [of _ E d4 ?d] simp: versions_ok_def)
    qed
    moreover have "stands_for ?t (foldl upd_batch Map.empty bs)"
    proof -
      have "stands_for ?t (op_map (foldl upd_batch Map.empty (take n bs)) (TSet ?kvs))" using stands_for_op [OF _ ok, of t] i by simp
      then show ?thesis unfolding batches_op_map by (simp flip: foldl_append)
    qed
    moreover have "built_ok E d4 bs (?c + 1) ?t"
    proof -
      have m: "db_map E d2 k = db_map E d1 k" if "mt_text k" for k using d2(3) [OF tx] that by (simp add: ledger_text_def)
      have "mt_stored E d2 (map (leaf E) bs)" "mt_tip E d2 (to_string ?c) (map (leaf E) bs)" using mt_frame [of E d2 d1, OF m] d1(2,3) by blast+
      moreover have "bs \<noteq> []" using bs(3) by auto
      ultimately show ?thesis unfolding d4_def ci_def by (intro put_commit_ok [OF E(1) _ c h(2)])
    qed
    ultimately show ?thesis using i by (simp add: ledger_inv_def)
  qed
  ultimately show ?thesis by blast
qed

section \<open>Histories\<close>

lemma built_ok_frame:
  assumes "\<And>k. mt_text k \<or> k = ''digest'' \<or> take 6 k = ''commit'' \<Longrightarrow> db_map E d' k = db_map E d k" "built_ok E d bs c t"
  shows "built_ok E d' bs c t"
proof -
  have "DB_Get_str E d' (commit_key i) = DB_Get_str E d (commit_key i)" "DB_Get_str E d' ''digest'' = DB_Get_str E d ''digest''" for i
    using assms(1) by (simp_all add: DB_Get_str_def DB_Get_def commit_key_def)
  then show ?thesis using assms mt_frame [of E d' d] unfolding built_ok_def by auto
qed

lemma Set_ok:
  assumes E: "ext_ok E" "nodes_fine E U" and inv: "ledger_inv E U bs n t L" and b: "batch_ok (kvs, ts)" "ts \<notin> snd ` set bs" "length bs + 1 < 2 ^ 64"
  shows "\<exists>L'. LedgerDB_Set E rnd (map fst kvs) (map snd kvs) ts L = Some (Inr (length bs, L')) \<and> ledger_inv E U (bs @ [(kvs, ts)]) n t L'"
proof -
  let ?bs = "bs @ [(kvs, ts)]" and ?d = "ldb L"
  note i = inv [unfolded ledger_inv_def]
  have kvs: "kvs \<noteq> []" "distinct (map fst kvs)" "ts < 2 ^ 63" "\<forall>(k, v)\<in>set kvs. no_bar k \<and> no_bar v" using b(1) by (auto simp: batch_ok_def)
  define d0 where "d0 = db_put E ?d (ledger_key (length bs)) (block_text kvs)"
  define L0 where "L0 = L\<lparr>next_block_seq := length bs + 1, ldb := d0\<rparr>"
  have d0: "db_map E d0 k = db_map E ?d k" if "k \<noteq> ledger_key (length bs)" for k using E(1) that by (simp add: d0_def)
  have "versions_ok E d0 (stamps bs)" unfolding versions_ok_def
  proof (intro allI impI)
    fix k assume k: "no_bar k"
    have "db_map E d0 key = db_map E ?d key" if "under (sl_prefix k) key" for key using d0 under_sl_text [OF that] ledger_key_classes(2) by metis
    then show "sl_holds E d0 (sl_prefix k) (vers (stamps bs) k)" using i k by (auto intro: sl_holds_frame [of _ E d0 ?d] simp: versions_ok_def)
  qed
  then have v0: "versions_ok E (ldb L0) (stamps bs)" "heads_ok (skiplist_head L0) (stamps bs)" using i by (simp_all add: L0_def)
  have new: "(k, ts, j, v) \<notin> set (stamps bs)" for k j v using stamps_ts b(2) by blast
  obtain d1 hs where r: "set_entries E rnd (to_string (length bs)) ts 0 kvs L0 = Some (Inr (L0\<lparr>ldb := d1, skiplist_head := hs\<rparr>))" "touches E sl_text d0 d1"
      "versions_ok E d1 (stamps ?bs)" "heads_ok hs (stamps ?bs)"
    using set_entries_ok [OF E(1) kvs(3) v0 kvs(2,4) new, of rnd "length bs" 0] by (auto simp: L0_def)
  let ?L = "L0\<lparr>ldb := d1, skiplist_head := hs, tree_queue := tree_queue L @ [queued ?bs (length bs)]\<rparr>"
  have "LedgerDB_Set E rnd (map fst kvs) (map snd kvs) ts L = Some (Inr (length bs, ?L))"
    using r(1) i b(3) kvs(1) BlockData_text [OF kvs(1)] by (simp add: LedgerDB_Set_def Let_def L0_def d0_def zip_map_fst_snd queued_def)
  moreover have "ledger_inv E U ?bs n t ?L"
  proof -
    have tch: "touches E (\<lambda>k. sl_text k \<or> k = ledger_key (length bs)) ?d d1"
      using E(1) r(2) unfolding d0_def by (auto simp: touches_def split: if_splits)
    then have "touches E ledger_text ?d d1" by (rule touches_mono) (auto simp: ledger_text_def ledger_key_def)
    then have "stored E U d1 t" using stored_frame [OF _ E(2)] i by blast
    moreover have "built_ok E d1 (take n ?bs) (commit_seq L) t"
    proof (rule built_ok_frame)
      show "built_ok E ?d (take n ?bs) (commit_seq L) t" using i by simp
      show "db_map E d1 k = db_map E ?d k" if "mt_text k \<or> k = ''digest'' \<or> take 6 k = ''commit''" for k
      proof -
        have "\<not> sl_text k" using that by (cases k) (auto simp: mt_text_def sl_text_def)
        moreover have "k \<noteq> ledger_key (length bs)" using that by (auto simp: ledger_key_def mt_text_def)
        ultimately show ?thesis using tch by (auto simp: touches_def)
      qed
    qed
    moreover have "blocks_ok E d1 ?bs"
      using i touches_get [OF r(2)] E(1) by (auto simp: blocks_ok_def d0_def less_Suc_eq nth_append)
    moreover have "map (queued ?bs) [n..<length bs] = map (queued bs) [n..<length bs]" by (simp add: queued_def nth_append)
    ultimately show ?thesis using i r(3,4) unfolding ledger_inv_def by (simp add: L0_def)
  qed
  ultimately show ?thesis by blast
qed

lemma in_stamps: "(k, t, i, v) \<in> set (stamps bs) \<longleftrightarrow> i < length bs \<and> t = snd (bs ! i) \<and> (k, v) \<in> set (fst (bs ! i))"
  by (auto simp: stamps_def stamp_def)

lemma Get_ok:
  assumes E: "ext_ok E" and inv: "ledger_inv E U bs n t L" and bs: "\<forall>b\<in>set bs. batch_ok b" "distinct (map snd bs)" "length bs < 2 ^ 64" "\<forall>k\<in>set keys. no_bar k"
  shows "\<exists>L'. LedgerDB_GetValues E keys L = Some (Inr (map (answer_of (stamps bs)) keys, L')) \<and> ledger_inv E U bs n t L'"
proof -
  note i = inv [unfolded ledger_inv_def]
  have "t < 2 ^ 63 \<and> i < 2 ^ 64 \<and> CHR ''@'' \<notin> set v \<and> vers (stamps bs) k (int t) = Some (to_string i @ ''@'' @ v)"
    if s: "map_of (rev (stamps bs)) k = Some (t, i, v)" for k t i v
  proof -
    have "x = y \<and> w = v" if a: "(k, t, x, w) \<in> set (stamps bs)" "(k, t, y, v) \<in> set (stamps bs)" for x y w
    proof -
      have xy: "x = y" using a nth_eq_iff_index_eq [OF bs(2), of x y] by (auto simp: in_stamps)
      then have "distinct (map fst (fst (bs ! x)))" using a bs(1) by (auto simp: in_stamps batch_ok_def)
      then show ?thesis using a xy by (auto simp: in_stamps dest: eq_key_imp_eq_value)
    qed
    then show ?thesis using stamps_entry [OF s bs(1,3)] vers_latest [OF s] bs(3) by auto
  qed
  then obtain hs where "LedgerDB_GetValues E keys L = Some (Inr (map (answer_of (stamps bs)) keys, L\<lparr>skiplist_head := hs\<rparr>))" "heads_ok hs (stamps bs)"
    using GetValues_ok [OF E, of L "stamps bs" keys] i bs(4) by blast
  then show ?thesis using i by (auto simp: ledger_inv_def)
qed

end
