(* ===== verification/LedgerDB_Properties.thy ===== *)
theory LedgerDB_Properties
  imports LedgerDB_Correct
begin

text \<open>
  What LedgerDB promises after any interleaving of its clients with the builder: reads return the last write, the published commit
  covers all built blocks and its proofs verify.  And what its auditor fails to notice.
\<close>

section \<open>Histories\<close>

datatype ledger_op = LSet "nat \<Rightarrow> nat \<Rightarrow> bool" "(string \<times> string) list" nat | LBuild | LGet "string list"

fun ledger_step :: "'s ext \<Rightarrow> 's LedgerDB \<Rightarrow> ledger_op \<Rightarrow> 's LedgerDB result option" where
  "ledger_step E L (LSet rnd kvs ts) = obind (LedgerDB_Set E rnd (map fst kvs) (map snd kvs) ts L) (\<lambda>(_, L). Some (Inr L))"
| "ledger_step E L LBuild = buildTree E L"
| "ledger_step E L (LGet keys) = obind (LedgerDB_GetValues E keys L) (\<lambda>(_, L). Some (Inr L))"

fun ledger_run :: "'s ext \<Rightarrow> 's LedgerDB \<Rightarrow> ledger_op list \<Rightarrow> 's LedgerDB result option" where
  "ledger_run E L [] = Some (Inr L)"
| "ledger_run E L (op # ops) = obind (ledger_step E L op) (\<lambda>L. ledger_run E L ops)"

text \<open>The blocks of a history, the number of them that is built, the keys read, and what the trie is told.\<close>

fun op_batches :: "ledger_op list \<Rightarrow> batch list" where
  "op_batches [] = []"
| "op_batches (LSet rnd kvs ts # ops) = (if kvs = [] then op_batches ops else (kvs, ts) # op_batches ops)"
| "op_batches (_ # ops) = op_batches ops"

fun built_count :: "nat \<Rightarrow> nat \<Rightarrow> ledger_op list \<Rightarrow> nat" where
  "built_count m n [] = n"
| "built_count m n (LSet rnd kvs ts # ops) = built_count (if kvs = [] then m else m + 1) n ops"
| "built_count m n (LBuild # ops) = built_count m m ops"
| "built_count m n (LGet keys # ops) = built_count m n ops"

fun op_reads :: "ledger_op list \<Rightarrow> string list" where
  "op_reads [] = []"
| "op_reads (LGet keys # ops) = keys @ op_reads ops"
| "op_reads (_ # ops) = op_reads ops"

fun trie_ops :: "batch list \<Rightarrow> ledger_op list \<Rightarrow> trie_op list" where
  "trie_ops pend [] = []"
| "trie_ops pend (LSet rnd kvs ts # ops) = trie_ops (if kvs = [] then pend else pend @ [(kvs, ts)]) ops"
| "trie_ops pend (LBuild # ops) = (if pend = [] then trie_ops [] ops else TSet (foldl batch_add [] pend) # trie_ops [] ops)"
| "trie_ops pend (LGet keys # ops) = trie_ops pend ops"

definition trie_nodes :: "ledger_op list \<Rightarrow> mpt set" where
  "trie_nodes ops = all_nodes (trie_trace MNil (trie_ops [] ops))"

text \<open>
  The histories considered: keys and values without the separators of the stored texts, every \<open>Set\<close> with a timestamp of its own, and
  no two nodes of the tries with one hash, nor a hash that is a key of the ledger.
\<close>

definition ledger_fine :: "'s ext \<Rightarrow> ledger_op list \<Rightarrow> bool" where
  "ledger_fine E ops \<longleftrightarrow> (\<forall>b\<in>set (op_batches ops). batch_ok b) \<and> distinct (map snd (op_batches ops)) \<and> length (op_batches ops) < 2 ^ 64 \<and>
     (\<forall>k\<in>set (op_reads ops). no_bar k) \<and> inj_on (dig E) (trie_nodes ops) \<and> (\<forall>u\<in>trie_nodes ops. \<not> ledger_text (dig E u))"

lemma ledger_run_ok:
  assumes E: "ext_ok E" "nodes_fine E U"
  shows "ledger_inv E U bs n t L \<Longrightarrow> \<forall>b\<in>set (bs @ op_batches ops). batch_ok b \<Longrightarrow> distinct (map snd (bs @ op_batches ops)) \<Longrightarrow>
    length (bs @ op_batches ops) < 2 ^ 64 \<Longrightarrow> \<forall>k\<in>set (op_reads ops). no_bar k \<Longrightarrow> (\<Union>u\<in>set (trie_trace t (trie_ops (drop n bs) ops)). nodes u) \<subseteq> U \<Longrightarrow>
    \<exists>L' t'. ledger_run E L ops = Some (Inr L') \<and> ledger_inv E U (bs @ op_batches ops) (built_count (length bs) n ops) t' L'"
proof (induction ops arbitrary: bs n t L)
  case (Cons op ops)
  have n: "n \<le> length bs" using Cons.prems(1) by (simp add: ledger_inv_def)
  show ?case
  proof (cases op)
    case (LSet rnd kvs ts)
    show ?thesis
    proof (cases "kvs = []")
      case True
      then show ?thesis using Cons.IH [OF Cons.prems(1)] Cons.prems(2-) LSet by (simp add: LedgerDB_Set_def)
    next
      case False
      obtain L1 where L1: "LedgerDB_Set E rnd (map fst kvs) (map snd kvs) ts L = Some (Inr (length bs, L1))" "ledger_inv E U (bs @ [(kvs, ts)]) n t L1"
        using Set_ok [OF E Cons.prems(1), of kvs ts rnd] Cons.prems(2-4) False LSet by auto
      show ?thesis using Cons.IH [OF L1(2)] Cons.prems(2-) L1(1) LSet False n by simp
    qed
  next
    case LBuild
    show ?thesis
    proof (cases "n = length bs")
      case True
      then have "buildTree E L = Some (Inr L)" using Cons.prems(1) by (simp add: buildTree_def ledger_inv_def)
      then show ?thesis using Cons.IH [OF Cons.prems(1)] Cons.prems(2-) LBuild True by simp
    next
      case False
      let ?kvs = "foldl batch_add [] (drop n bs)"
      have tr: "(\<Union>u\<in>set (ins_trace t ?kvs). nodes u) \<subseteq> U" "(\<Union>u\<in>set (trie_trace (last (t # ins_trace t ?kvs)) (trie_ops [] ops)). nodes u) \<subseteq> U"
        using Cons.prems(6) LBuild False n by auto
      obtain L1 where L1: "buildTree E L = Some (Inr L1)" "ledger_inv E U bs (length bs) (last (t # ins_trace t ?kvs)) L1"
        using buildTree_ok [OF E Cons.prems(1) _ _ _ tr(1)] Cons.prems(2,4) False n by auto
      show ?thesis using Cons.IH [OF L1(2)] Cons.prems(2-5) tr(2) L1(1) LBuild by simp
    qed
  next
    case (LGet keys)
    obtain L1 where L1: "LedgerDB_GetValues E keys L = Some (Inr (map (answer_of (stamps bs)) keys, L1))" "ledger_inv E U bs n t L1"
      using Get_ok [OF E(1) Cons.prems(1), of keys] Cons.prems(2-5) LGet by auto
    show ?thesis using Cons.IH [OF L1(2)] Cons.prems(2-) L1(1) LGet by simp
  qed
qed auto

lemma nodes_trans: "u \<in> nodes t \<Longrightarrow> nodes u \<subseteq> nodes t"
  by (induction t) auto

lemma trie_ops_ok: "\<forall>b\<in>set (pend @ op_batches ops). batch_ok b \<Longrightarrow> \<forall>op\<in>set (trie_ops pend ops). op_ok op"
proof (induction pend ops rule: trie_ops.induct)
  case (3 pend ops)
  then show ?case using batches_op_ok [of pend] by auto
qed (auto split: if_splits)

lemma ledger_start:
  assumes "ext_ok E" "rocks_get E s = Map.empty" "ledger_fine E ops"
  shows "nodes_fine E (trie_nodes ops)" "ledger_inv E (trie_nodes ops) [] 0 MNil (LedgerDB_new s)"
proof -
  have s: "stands_for MNil Map.empty" by (simp add: stands_for_def)
  have "\<forall>op\<in>set (trie_ops [] ops). op_ok op" using trie_ops_ok [of "[]" ops] assms(3) by (simp add: ledger_fine_def)
  then have "\<forall>u\<in>trie_nodes ops. wf u \<and> \<not> is_val u" using wf_trace [OF s] nodes_wf unfolding trie_nodes_def all_nodes_def by fastforce
  moreover have "\<forall>u\<in>trie_nodes ops. nodes u \<subseteq> trie_nodes ops" using nodes_trans unfolding trie_nodes_def all_nodes_def by fastforce
  ultimately show "nodes_fine E (trie_nodes ops)" using assms(3) by (simp add: nodes_fine_def univ_def ledger_fine_def trie_nodes_def all_nodes_def)
  have d: "DB_Get_str E (DB_Open s) k = []" for k using assms(2) by (simp add: DB_Get_str_def DB_Get_def DB_Open_def)
  have "stored E (trie_nodes ops) (DB_Open s) MNil" using assms(2) by (simp add: stored_def tenv_def closed_def avail_def DB_Open_def)
  moreover have "versions_ok E (DB_Open s) []" "heads_ok [] []" using d by (simp_all add: versions_ok_def sl_holds_def heads_ok_def)
  moreover have "built_ok E (DB_Open s) [] 0 MNil" by (simp add: built_ok_def mt_stored_def)
  ultimately show "ledger_inv E (trie_nodes ops) [] 0 MNil (LedgerDB_new s)" using s by (simp add: ledger_inv_def LedgerDB_new_def blocks_ok_def)
qed

lemma ledger_history:
  assumes "ext_ok E" "rocks_get E s = Map.empty" "ledger_fine E ops"
  shows "\<exists>L t. ledger_run E (LedgerDB_new s) ops = Some (Inr L) \<and> nodes_fine E (trie_nodes ops) \<and> ledger_inv E (trie_nodes ops) (op_batches ops) (built_count 0 0 ops) t L"
proof -
  note st = ledger_start [OF assms]
  have "(\<Union>u\<in>set (trie_trace MNil (trie_ops (drop 0 []) ops)). nodes u) \<subseteq> trie_nodes ops" by (auto simp: trie_nodes_def all_nodes_def)
  then show ?thesis using ledger_run_ok [OF assms(1) st] assms(3) st(1) by (fastforce simp: ledger_fine_def)
qed


section \<open>Proofs\<close>

text \<open>\<open>GetProofs\<close> asks for a block only when it differs from the one before; the first is compared with block 0.\<close>

fun changes :: "nat \<Rightarrow> nat list \<Rightarrow> nat list" where
  "changes cur [] = []"
| "changes cur (b # bs) = (if b \<noteq> cur then b # changes b bs else changes b bs)"

lemma written_stamps: "foldl upd_batch Map.empty bs k = map_option (\<lambda>x. to_string (fst x)) (map_of (rev (stamps bs)) k)"
proof (induction bs rule: rev_induct)
  case (snoc b bs)
  have "foldl (\<lambda>f k. f(k \<mapsto> x)) f ks k = (if k \<in> set ks then Some x else f k)" for f ks and x :: string
    by (induction ks arbitrary: f) auto
  then have "upd_batch f b k = (if k \<in> fst ` set (fst b) then Some (to_string (snd b)) else f k)" for f by (simp add: upd_batch_def)
  moreover have "map_of (rev (stamp (length bs) b)) k = None \<longleftrightarrow> k \<notin> fst ` set (fst b)" by (force simp: stamp_def map_of_eq_None_iff)
  moreover have "fst x = snd b" if "map_of (rev (stamp (length bs) b)) k = Some x" for x using map_of_SomeD [OF that] by (auto simp: stamp_def)
  ultimately show ?case using snoc by (auto simp: map_add_def split: option.splits)
qed simp

lemma height_64: "n < 2 ^ 64 \<Longrightarrow> height n < 2 ^ 31"
  using height_le_iff [of n 64] by simp

lemma proofs_loop_ok:
  assumes E: "ext_ok E" "univ E U" and t: "stands_for t f" "rep E r t" and bs: "length bs < 2 ^ 64" "bs \<noteq> []"
  shows "stored E U d t \<Longrightarrow> mt_stored E d (map (leaf E) bs) \<Longrightarrow> mt_tip E d cs (map (leaf E) bs) \<Longrightarrow> length ks = length blks \<Longrightarrow>
    \<forall>i\<in>set blks. i < length bs \<Longrightarrow> \<forall>k\<in>set ks. ascii k \<and> (\<exists>v. f k = Some v \<and> v \<noteq> []) \<Longrightarrow>
    \<exists>mts' mpts' d'. proofs_loop E cs (mt_root_key cs (length bs)) (length bs - 1) \<lparr>root_node = r\<rparr> cur ks blks mts mpts d = Some (Inr (mts @ mts', mpts @ mpts', d')) \<and>
      map pvalue mts' = map (\<lambda>i. b32 (leaf E (bs ! i))) (changes cur blks) \<and>
      list_all (\<lambda>p. digest p = b32 (tree_root E (map (leaf E) bs)) \<and> mt_Verify E p = Inr True) mts' \<and>
      map mpt_value mpts' = map (\<lambda>k. the (f k)) ks \<and> list_all2 (\<lambda>p k. VerifyProof E p (Some (dig E t)) k = Inr True) mpts' ks"
proof (induction ks blks arbitrary: cur mts mpts d rule: list_induct2')
  case (4 k ks b blks)
  let ?rk = "mt_root_key cs (length bs)"
  obtain v where v: "ascii k" "f k = Some v" "v \<noteq> []" using 4(7) by auto
  obtain p d1 where p: "Trie_GetProof E \<lparr>root_node = r\<rparr> k d = Some (Inr (p, d1))" "mpt_value p = v" "VerifyProof E p (Some (dig E t)) k = Inr True" "seen E U Map.empty d d1"
    using GetProof_ok [OF E 4(2) t v] by blast
  have h: "height (length (map (leaf E) bs)) < 2 ^ 31" "b < length (map (leaf E) bs)" using height_64 bs(1) 4(6) by simp_all
  obtain q where q: "mt_getProof E d cs ?rk (length bs - 1) b = Inr q" "digest q = b32 (tree_root E (map (leaf E) bs))" "pvalue q = b32 (leaf E (bs ! b))" "mt_Verify E q = Inr True"
    using mt_proof_complete [OF E(1) leaf_20 [OF E(1)] 4(3,4) h(2,1)] h(2) by auto
  have d1: "stored E U d1 t" "mt_stored E d1 (map (leaf E) bs)" "mt_tip E d1 cs (map (leaf E) bs)"
    using stored_seen [OF 4(2) p(4)] mt_frame [of E d1 d] p(4) 4(3,4) by (auto simp: seen_def)
  let ?m = "if b \<noteq> cur then [q] else []"
  obtain mts' mpts' d' where r: "proofs_loop E cs ?rk (length bs - 1) \<lparr>root_node = r\<rparr> b ks blks (mts @ ?m) (mpts @ [p]) d1 = Some (Inr ((mts @ ?m) @ mts', (mpts @ [p]) @ mpts', d'))"
      "map pvalue mts' = map (\<lambda>i. b32 (leaf E (bs ! i))) (changes b blks)" "list_all (\<lambda>p. digest p = b32 (tree_root E (map (leaf E) bs)) \<and> mt_Verify E p = Inr True) mts'"
      "map mpt_value mpts' = map (\<lambda>k. the (f k)) ks" "list_all2 (\<lambda>p k. VerifyProof E p (Some (dig E t)) k = Inr True) mpts' ks"
    using 4(1) [OF d1, of b "mts @ ?m" "mpts @ [p]"] 4(5-7) by auto
  have "proofs_loop E cs ?rk (length bs - 1) \<lparr>root_node = r\<rparr> cur (k # ks) (b # blks) mts mpts d = Some (Inr (mts @ ?m @ mts', mpts @ p # mpts', d'))"
    using q(1) p(1) r(1) by (cases "b = cur") simp_all
  then show ?case using q(2-4) p(2,3) v(2) r(2-5) by (intro exI [of _ "?m @ mts'"] exI [of _ "p # mpts'"] exI [of _ d']) simp
qed auto

lemma GetProofs_ok:
  assumes E: "ext_ok E" "univ E U" and inv: "ledger_inv E U bs n t L" and n: "0 < n" "length bs < 2 ^ 64" "length ks = length blks" "\<forall>i\<in>set blks. i < n"
    and ks: "\<forall>k\<in>set ks. ascii k \<and> map_of (rev (stamps (take n bs))) k \<noteq> None"
  shows "\<exists>ps L'. LedgerDB_GetProofs E ks blks L = Some (Inr (ps, L')) \<and> lp_blk_seq ps = n - 1 \<and> lp_root_digest ps = b32 (tree_root E (map (leaf E) (take n bs))) \<and>
    map pvalue (lp_mt_proofs ps) = map (\<lambda>i. b32 (leaf E (bs ! i))) (changes 0 blks) \<and>
    list_all (\<lambda>p. digest p = lp_root_digest ps \<and> mt_Verify E p = Inr True) (lp_mt_proofs ps) \<and>
    map mpt_value (lp_mpt_proofs ps) = map (\<lambda>k. to_string (fst (answer_of (stamps (take n bs)) k))) ks \<and>
    list_all2 (\<lambda>p k. VerifyProof E p (FromBase32 (lp_mpt_digest ps)) k = Inr True) (lp_mpt_proofs ps) ks"
proof -
  let ?bs = "take n bs" and ?c = "commit_seq L" and ?d = "ldb L" and ?f = "foldl upd_batch Map.empty (take n bs)"
  note i = inv [unfolded ledger_inv_def]
  have ne: "?bs \<noteq> []" and len: "length ?bs = n" "length ?bs < 2 ^ 64" using i n(1,2) by (cases bs; simp)+
  obtain pd where c: "0 < ?c" "?c \<le> n" "mt_stored E ?d (map (leaf E) ?bs)" "mt_tip E ?d (to_string (?c - 1)) (map (leaf E) ?bs)" "no_bar pd"
      "DB_Get_str E ?d (commit_key (?c - 1)) = CommitInfo_ToString (commit_of E (?c - 1) pd ?bs t)"
      "DB_Get_str E ?d ''digest'' = DigestInfo_ToString (digest_of E (commit_of E (?c - 1) pd ?bs t))"
    using i ne len(1) unfolding built_ok_def by auto
  define ci where "ci = commit_of E (?c - 1) pd ?bs t"
  have "?c - 1 < 2 ^ 64" using c(2) len by linarith
  then have parse: "CommitInfo_of_string (CommitInfo_ToString ci) = Inr ci" "DigestInfo_of_string (DigestInfo_ToString (digest_of E ci)) = Inr (digest_of E ci)"
    unfolding ci_def using commit_of_ok [OF E(1) ne c(5) _ len(2)] commit_codec.dec_enc digest_codec.dec_enc by blast+
  have fld: "ci_mptroot ci = b32 (dig E t)" "ci_commit_seq ci = ?c - 1" "ci_tip_block ci = length ?bs - 1" "ci_mtrootkey ci = mt_root_key (to_string (?c - 1)) (length ?bs)"
      "ci_mtroot ci = b32 (tree_root E (map (leaf E) ?bs))" by (simp_all add: ci_def commit_of_def)
  have st: "stands_for t ?f" "stored E U ?d t" using i by simp_all
  obtain r d1 where o: "Trie_open E ?d (Some (dig E t)) = (\<lparr>root_node = r\<rparr>, d1)" "rep E r t" "stored E U d1 t" using Trie_open_ok [OF E st(2)] by blast
  have d1: "mt_stored E d1 (map (leaf E) ?bs)" "mt_tip E d1 (to_string (?c - 1)) (map (leaf E) ?bs)" using mt_frame [of E d1 ?d] Trie_open_map [OF o(1)] c(3,4) by auto
  have kf: "\<forall>k\<in>set ks. ascii k \<and> (\<exists>v. ?f k = Some v \<and> v \<noteq> [])" using ks by (auto simp: written_stamps)
  have the_f: "map (\<lambda>k. the (?f k)) ks = map (\<lambda>k. to_string (fst (answer_of (stamps ?bs) k))) ks" using ks by (auto simp: written_stamps answer_of_def)
  have inb: "\<forall>i\<in>set blks. i < length ?bs" using n(4) len(1) by metis
  obtain mts mpts d' where p: "proofs_loop E (to_string (?c - 1)) (mt_root_key (to_string (?c - 1)) (length ?bs)) (length ?bs - 1) \<lparr>root_node = r\<rparr> 0 ks blks [] [] d1 = Some (Inr (mts, mpts, d'))"
      "map pvalue mts = map (\<lambda>i. b32 (leaf E (?bs ! i))) (changes 0 blks)" "list_all (\<lambda>p. digest p = b32 (tree_root E (map (leaf E) ?bs)) \<and> mt_Verify E p = Inr True) mts"
      "map mpt_value mpts = map (\<lambda>k. the (?f k)) ks" "list_all2 (\<lambda>p k. VerifyProof E p (Some (dig E t)) k = Inr True) mpts ks"
    using proofs_loop_ok [OF E st(1) o(2) len(2) ne o(3) d1 n(3) inb kf, of 0 "[]" "[]"] by auto
  have ch: "map (\<lambda>i. b32 (leaf E (?bs ! i))) (changes 0 blks) = map (\<lambda>i. b32 (leaf E (bs ! i))) (changes 0 blks)"
  proof -
    have "set (changes j xs) \<subseteq> set xs" for j xs by (induction j xs rule: changes.induct) auto
    then show ?thesis using n(4) by (auto simp: subset_iff)
  qed
  let ?ps = "\<lparr> lp_mt_proofs = mts, lp_mpt_proofs = mpts, lp_root_digest = b32 (tree_root E (map (leaf E) ?bs)), lp_blk_seq = length ?bs - 1, lp_mpt_digest = b32 (dig E t) \<rparr>"
  have "LedgerDB_GetProofs E ks blks L = Some (Inr (?ps, L\<lparr>ldb := d'\<rparr>))"
    using c(6,7) parse o(1) p(1) E(1) unfolding ci_def [symmetric] LedgerDB_GetProofs_def Let_def by (simp add: fld digest_of_def FromBase32_ToBase32)
  then show ?thesis using p(2-5) ch the_f len(1) E(1) by (intro exI [of _ ?ps] exI [of _ "L\<lparr>ldb := d'\<rparr>"]) (simp add: FromBase32_ToBase32)
qed


section \<open>The auditor\<close>

lemma check_keys_true: "check_keys E h ps ks cnt True = Inr (True, cnt + length ks)"
  by (induction ks arbitrary: cnt) simp_all

lemma check_blocks_true: "\<forall>b\<in>set bs. is_ok (BlockData_of_string b) \<Longrightarrow> check_blocks E h ps bs cnt True = Inr True"
  by (induction bs arbitrary: cnt) (auto simp: is_ok_def check_keys_true split: sum.splits)

lemma check_blocks_empty_proof:
  assumes "bs \<noteq> []" "\<forall>b\<in>set bs. \<exists>i. BlockData_of_string b = Inr i \<and> bd_keys i \<noteq> []"
  shows "check_blocks E h (MPTProof_new # ps) bs 0 res = Inr True"
proof -
  obtain b bs' where bs: "bs = b # bs'" using assms(1) by (cases bs) auto
  obtain i k ks where i: "BlockData_of_string b = Inr i" "bd_keys i = k # ks" using assms(2) bs by (metis list.set_intros(1) neq_Nil_conv)
  have "check_keys E h (MPTProof_new # ps) (k # ks) 0 res = Inr (True, length (k # ks))"
    by (cases res) (simp_all add: vec_at_def VerifyProof_def MPTProof_new_def check_keys_true)
  moreover have "\<forall>b\<in>set bs'. is_ok (BlockData_of_string b)" using assms(2) bs by (fastforce simp: is_ok_def)
  ultimately show ?thesis using i bs check_blocks_true [of bs'] by simp
qed

lemma block_text_parses:
  assumes "kvs \<noteq> []" "list_all (\<lambda>(k, v). plain_text k \<and> plain_text v) kvs"
  shows "\<exists>i. BlockData_of_string (block_text kvs) = Inr i \<and> bd_keys i \<noteq> []"
proof -
  obtain k v kvs' where "kvs = (k, v) # kvs'" using assms(1) by (cases kvs) auto
  then show ?thesis using BlockData_of_text [of k v kvs'] assms(2) by simp
qed

text \<open>
  C40: the audit accepts forged blocks: for every commit record, an auditor that carries this commit, its digest, any blocks at all and, first
  among its trie proofs, an empty one is accepted.  The blocks need not have the Merkle root of the commit: the
  comparison of the roots is overruled by a trie proof, and a proof without chunks verifies for every root.
\<close>
theorem Audit_accepts_any_blocks:
  assumes "ext_ok E" "CommitInfo_ok ci" "bss \<noteq> []" "\<forall>kvs\<in>set bss. kvs \<noteq> [] \<and> list_all (\<lambda>(k, v). plain_text k \<and> plain_text v) kvs"
  shows "\<exists>d'. Audit E \<lparr> la_digest = ToBase32 (ComputeFrom E (CommitInfo_ToString ci)), la_commit_seq = ci_commit_seq ci, la_first_block_seq = n,
      la_commits = [CommitInfo_ToString ci], la_blocks = map block_text bss, la_mptproofs = MPTProof_new # ps \<rparr> d = Inr (True, d')"
proof -
  let ?prev = "if ci_commit_seq ci > 0 then to_string (ci_commit_seq ci - 1) else []" and ?bs = "map block_text bss"
  have parse: "CommitInfo_of_string (CommitInfo_ToString ci) = Inr ci" by (rule commit_codec.dec_enc [OF assms(2)])
  have "mt_next_commit ?prev = Inr (to_string (ci_commit_seq ci))" using assms(2) by (auto simp: mt_next_commit_def CommitInfo_ok_def to_string_0)
  then obtain d' rk rh where u: "mt_update E d n (map (\<lambda>b. ToBase32 (ComputeFrom E b)) ?bs) ?prev = Inr (d', rk, rh)"
    using mt_update_touches [OF assms(1), of "map (\<lambda>b. ToBase32 (ComputeFrom E b)) ?bs"] assms(3) by (metis list.map_disc_iff)
  have "check_blocks E h (MPTProof_new # ps) ?bs 0 res = Inr True" for h res
    using check_blocks_empty_proof [of ?bs] assms(3,4) block_text_parses by auto
  then show ?thesis using parse u by (simp add: Audit_def)
qed

section \<open>Examples\<close>

definition demo_history :: "ledger_op list" where
  "demo_history = [LSet (\<lambda>_ _. False) [(''a'', ''1''), (''b'', ''22'')] 5, LGet [''c''], LBuild, LSet (\<lambda>_ l. l < 3) [(''a'', ''3'')] 9]"

definition demo_fork :: mpt where
  "demo_fork = MFull [MNil, demo_leaf ''5'', demo_leaf ''5'', MNil, MNil, MNil, MNil, MNil, MNil, MNil, MNil, MNil, MNil, MNil, MNil, MNil, MNil]"

definition demo_tries :: "mpt list" where
  "demo_tries = [MNil, MShort [CHR 0x06, CHR 0x01, CHR 0x10] (MVal ''5''), demo_leaf ''5'', demo_fork, MShort [CHR 0x06] demo_fork]"

lemma demo_trie_ops: "trie_trace MNil (trie_ops [] demo_history) = [MShort [CHR 0x06, CHR 0x01, CHR 0x10] (MVal ''5''), MShort [CHR 0x06] demo_fork]"
  by code_simp

lemma demo_trie_nodes: "trie_nodes demo_history = set demo_tries"
  unfolding trie_nodes_def demo_trie_ops by (auto simp: all_nodes_def demo_tries_def demo_fork_def demo_leaf_def)

lemma demo_trie_codes: "map chunk_code demo_tries = [1280, 6657, 6145, 107010, 11010]"
  by (simp add: demo_tries_def demo_fork_def demo_leaf_def length_enc)

lemma not_ledger_text: "c mod 256 < 99 \<Longrightarrow> \<not> ledger_text (le_bytes 20 c)"
proof
  assume c: "c mod 256 < 99" "ledger_text (le_bytes 20 c)"
  obtain s where s: "le_bytes 20 c = char_of c # s" by (metis le_bytes.simps(2) numeral_eq_Suc)
  have "char_of c \<in> set ''mtscld''" using c(2) unfolding s by (auto simp: ledger_text_def mt_text_def sl_text_def)
  then have "(of_char (char_of c :: char) :: nat) \<in> of_char ` set ''mtscld''" by blast
  then show False using c(1) by auto
qed

lemma demo_history_fine: "ledger_fine count_ext demo_history"
proof -
  have nv: "\<forall>t\<in>set demo_tries. \<not> is_val t" by (simp add: demo_tries_def demo_fork_def demo_leaf_def)
  have inj: "inj_on (dig count_ext) (trie_nodes demo_history)" unfolding demo_trie_nodes by (rule inj_dig_count [OF nv]) (simp_all only: demo_trie_codes, simp_all)
  have "list_all (\<lambda>c. \<not> ledger_text (le_bytes 20 c)) (map chunk_code demo_tries)" unfolding demo_trie_codes by (simp add: not_ledger_text)
  then have free: "\<forall>u\<in>trie_nodes demo_history. \<not> ledger_text (dig count_ext u)" unfolding demo_trie_nodes using nv dig_count_ext by (auto simp: list_all_iff simp del: chunk_code.simps)
  have ops: "op_batches demo_history = [([(''a'', ''1''), (''b'', ''22'')], 5), ([(''a'', ''3'')], 9)]" "op_reads demo_history = [''c'']" by (simp_all add: demo_history_def)
  show ?thesis unfolding ledger_fine_def using inj free by (simp add: ops batch_ok_def no_bar_def ascii_def)
qed

lemma count_ext_empty: "rocks_get count_ext Map.empty = Map.empty"
  by (simp add: count_ext_def map_ext_def)



theorem Audit_accepts_any_blocks_witness:
  "\<exists>d'. Audit map_ext \<lparr> la_digest = ToBase32 (ComputeFrom map_ext (CommitInfo_ToString
        \<lparr>ci_commit_seq = 0, ci_prev_digest = [], ci_tip_block = 0, ci_mtroot = ''R'', ci_mtrootkey = ''mt0-0'', ci_mptroot = ''P''\<rparr>)), la_commit_seq = 0, la_first_block_seq = 0,
      la_commits = [CommitInfo_ToString \<lparr>ci_commit_seq = 0, ci_prev_digest = [], ci_tip_block = 0, ci_mtroot = ''R'', ci_mtrootkey = ''mt0-0'', ci_mptroot = ''P''\<rparr>],
      la_blocks = [block_text [(''forged'', ''block'')]], la_mptproofs = [MPTProof_new] \<rparr> map_db = Inr (True, d')"
  using Audit_accepts_any_blocks [OF ext_ok_map_ext, of "\<lparr>ci_commit_seq = 0, ci_prev_digest = [], ci_tip_block = 0, ci_mtroot = ''R'', ci_mtrootkey = ''mt0-0'', ci_mptroot = ''P''\<rparr>"
      "[[(''forged'', ''block'')]]" 0 "[]" map_db]
  by (simp add: CommitInfo_ok_def no_bar_def plain_text_def)

end
