(* ===== verification/Key_Lock.thy ===== *)
theory Key_Lock
  imports Prelude
begin

text \<open>
  \<open>KeyLockMgr\<close> of \<open>src/ledger/ledgerdb/ledgerdb.h\<close>: one mutex for every key in use, with a count of the threads that hold it or wait for it,
  and deleted when the count falls to zero.  What runs under \<open>mu\<close> is one step; the wait for the mutex of a key is a step
  of its own, so that any number of threads interleave between the two.
\<close>

section \<open>State\<close>

text \<open>
  A mutex lives at an address until it is deleted; \<open>mutexes m\<close> is its owner, if it is locked.  An address is not used again while
  the mutex at it is alive, and here never.  The \<open>int\<close> counts are unbounded: they stay at the number of threads.
\<close>

type_synonym thread = nat
type_synonym mutex = nat

record KeyLockMgr =
  key_locks :: "string \<rightharpoonup> mutex"
  key_lock_ref :: "string \<rightharpoonup> int"
  mutexes :: "mutex \<rightharpoonup> thread option"
  next_mutex :: mutex

definition KeyLockMgr_new :: KeyLockMgr where
  "KeyLockMgr_new = \<lparr> key_locks = Map.empty, key_lock_ref = Map.empty, mutexes = Map.empty, next_mutex = 0 \<rparr>"

section \<open>Operations\<close>

text \<open>\<open>LockKey\<close> up to the release of \<open>mu\<close>: the result is the mutex that the thread goes on to lock.\<close>

definition LockKey_enter :: "string \<Rightarrow> KeyLockMgr \<Rightarrow> (mutex \<times> KeyLockMgr) result" where
  "LockKey_enter key M = (case key_locks M key of
     None \<Rightarrow> (let km = next_mutex M in Inr (km, M\<lparr> mutexes := (mutexes M)(km \<mapsto> None), next_mutex := km + 1,
       key_locks := (key_locks M)(key \<mapsto> km), key_lock_ref := (case key_lock_ref M key of None \<Rightarrow> (key_lock_ref M)(key \<mapsto> 1) | Some _ \<Rightarrow> key_lock_ref M) \<rparr>))
   | Some key_mu \<Rightarrow> (case key_lock_ref M key of None \<Rightarrow> Inl Out_of_bounds
       | Some n \<Rightarrow> Inr (key_mu, M\<lparr> key_lock_ref := (key_lock_ref M)(key \<mapsto> n + 1) \<rparr>)))"

text \<open>\<open>key_mu->lock()\<close>: a deleted mutex is read after it was freed, a locked one, even by the same thread, makes the thread wait.\<close>

definition LockKey_lock :: "thread \<Rightarrow> mutex \<Rightarrow> KeyLockMgr \<Rightarrow> KeyLockMgr result" where
  "LockKey_lock t key_mu M = (case mutexes M key_mu of None \<Rightarrow> Inl Out_of_bounds
     | Some (Some _) \<Rightarrow> Inl Blocked
     | Some None \<Rightarrow> Inr (M\<lparr> mutexes := (mutexes M)(key_mu \<mapsto> Some t) \<rparr>))"

text \<open>\<open>UnlockKey\<close>; a mutex may only be unlocked by the thread that locked it.\<close>

definition UnlockKey :: "thread \<Rightarrow> string \<Rightarrow> KeyLockMgr \<Rightarrow> KeyLockMgr result" where
  "UnlockKey t key M = (case key_locks M key of None \<Rightarrow> Inr M
     | Some m \<Rightarrow> if mutexes M m \<noteq> Some (Some t) then Inl Out_of_bounds else
         (case key_lock_ref M key of None \<Rightarrow> Inl Out_of_bounds
          | Some n \<Rightarrow> Inr (if n - 1 = 0
              then M\<lparr> mutexes := (mutexes M)(m := None), key_locks := (key_locks M)(key := None), key_lock_ref := (key_lock_ref M)(key := None) \<rparr>
              else M\<lparr> mutexes := (mutexes M)(m \<mapsto> None), key_lock_ref := (key_lock_ref M)(key \<mapsto> n - 1) \<rparr>)))"

section \<open>Threads\<close>

text \<open>
  The threads that are between the two parts of \<open>LockKey\<close>, with key and mutex, and the keys that were locked and not unlocked since.  A thread
  in \<open>LockKey\<close> does nothing else, and a thread unlocks only what it has locked.
\<close>

record lock_world =
  manager :: KeyLockMgr
  entered :: "thread \<rightharpoonup> string \<times> mutex"
  holds :: "(thread \<times> string) set"

definition lock_start :: lock_world where
  "lock_start = \<lparr> manager = KeyLockMgr_new, entered = Map.empty, holds = {} \<rparr>"

inductive lock_step :: "lock_world \<Rightarrow> lock_world \<Rightarrow> bool" where
  enter: "entered W t = None \<Longrightarrow> LockKey_enter k (manager W) = Inr (m, M) \<Longrightarrow>
    lock_step W (W\<lparr>manager := M, entered := (entered W)(t \<mapsto> (k, m))\<rparr>)"
| lock: "entered W t = Some (k, m) \<Longrightarrow> LockKey_lock t m (manager W) = Inr M \<Longrightarrow>
    lock_step W (W\<lparr>manager := M, entered := (entered W)(t := None), holds := insert (t, k) (holds W)\<rparr>)"
| unlock: "entered W t = None \<Longrightarrow> (t, k) \<in> holds W \<Longrightarrow> UnlockKey t k (manager W) = Inr M \<Longrightarrow>
    lock_step W (W\<lparr>manager := M, holds := holds W - {(t, k)}\<rparr>)"

inductive lock_reachable :: "lock_world \<Rightarrow> bool" where
  start: "lock_reachable lock_start"
| step: "lock_reachable W \<Longrightarrow> lock_step W W' \<Longrightarrow> lock_reachable W'"

inductive_cases lock_stepE: "lock_step W W'"

section \<open>The invariant\<close>

definition waiting_for :: "lock_world \<Rightarrow> string \<Rightarrow> thread set" where
  "waiting_for W k = {t. \<exists>m. entered W t = Some (k, m)}"

text \<open>A key in use has a live mutex of its own, counted once for every thread that waits for it and for the one that holds it.\<close>

definition key_ok :: "lock_world \<Rightarrow> string \<Rightarrow> bool" where
  "key_ok W k \<longleftrightarrow> (case key_locks (manager W) k of
     None \<Rightarrow> key_lock_ref (manager W) k = None \<and> waiting_for W k = {} \<and> (\<forall>t. (t, k) \<notin> holds W)
   | Some m \<Rightarrow> m < next_mutex (manager W) \<and> (\<forall>t m'. entered W t = Some (k, m') \<longrightarrow> m' = m) \<and>
       (\<exists>ow. mutexes (manager W) m = Some ow \<and> (\<forall>t. (t, k) \<in> holds W \<longleftrightarrow> ow = Some t) \<and>
         key_lock_ref (manager W) k = Some (int (card (waiting_for W k)) + (if ow = None then 0 else 1)) \<and> (ow = None \<longrightarrow> waiting_for W k \<noteq> {})))"

definition lock_inv :: "lock_world \<Rightarrow> bool" where
  "lock_inv W \<longleftrightarrow> (\<forall>k. key_ok W k) \<and> finite (dom (entered W)) \<and>
     (\<forall>k k' m. key_locks (manager W) k = Some m \<longrightarrow> key_locks (manager W) k' = Some m \<longrightarrow> k = k')"

lemma waiting_for_enter: "waiting_for (W\<lparr>manager := M, entered := (entered W)(t \<mapsto> (k, m))\<rparr>) k' =
    (if k' = k then insert t (waiting_for W k') else waiting_for W k' - {t})"
  by (auto simp: waiting_for_def)

lemma waiting_for_lock: "waiting_for (W\<lparr>manager := M, entered := (entered W)(t := None), holds := H\<rparr>) k = waiting_for W k - {t}"
  by (auto simp: waiting_for_def)

lemma waiting_for_unlock: "waiting_for (W\<lparr>manager := M, holds := H\<rparr>) k = waiting_for W k"
  by (simp add: waiting_for_def)

lemmas waiting_simps = waiting_for_enter waiting_for_lock waiting_for_unlock

lemma not_waiting: "entered W t = None \<Longrightarrow> t \<notin> waiting_for W k"
  by (simp add: waiting_for_def)

lemma finite_waiting: "finite (dom (entered W)) \<Longrightarrow> finite (waiting_for W k)"
  by (rule finite_subset [of _ "dom (entered W)"]) (auto simp: waiting_for_def)

lemma key_okD:
  assumes "key_ok W k" "key_locks (manager W) k = Some m"
  obtains ow where "m < next_mutex (manager W)" "\<And>t m'. entered W t = Some (k, m') \<Longrightarrow> m' = m" "mutexes (manager W) m = Some ow"
    "\<And>t. (t, k) \<in> holds W \<longleftrightarrow> ow = Some t" "key_lock_ref (manager W) k = Some (int (card (waiting_for W k)) + (if ow = None then 0 else 1))"
    "ow = None \<Longrightarrow> waiting_for W k \<noteq> {}"
  using assms by (auto simp: key_ok_def)

lemma held_key: "key_ok W k \<Longrightarrow> (t, k) \<in> holds W \<or> t \<in> waiting_for W k \<Longrightarrow> \<exists>m. key_locks (manager W) k = Some m"
  by (auto simp: key_ok_def split: option.splits)

text \<open>A step that leaves a key alone.\<close>

lemma key_ok_frame:
  assumes "key_ok W k" "key_locks (manager W') k = key_locks (manager W) k" "key_lock_ref (manager W') k = key_lock_ref (manager W) k"
    "\<And>m. key_locks (manager W) k = Some m \<Longrightarrow> mutexes (manager W') m = mutexes (manager W) m" "next_mutex (manager W) \<le> next_mutex (manager W')"
    "\<And>t m. entered W' t = Some (k, m) \<longleftrightarrow> entered W t = Some (k, m)" "\<And>t. (t, k) \<in> holds W' \<longleftrightarrow> (t, k) \<in> holds W"
  shows "key_ok W' k"
proof -
  have "waiting_for W' k = waiting_for W k" using assms(6) by (simp add: waiting_for_def)
  then show ?thesis using assms unfolding key_ok_def by (auto split: option.splits)
qed

lemma enter_inv:
  assumes inv: "lock_inv W" and t: "entered W t = None" and e: "LockKey_enter k (manager W) = Inr (m, M)"
  shows "lock_inv (W\<lparr>manager := M, entered := (entered W)(t \<mapsto> (k, m))\<rparr>)" (is "lock_inv ?W")
proof -
  have ok: "key_ok W k'" for k' using inv by (simp add: lock_inv_def)
  have fin: "finite (waiting_for W k)" using inv finite_waiting by (simp add: lock_inv_def)
  have new: "t \<notin> waiting_for W k" using t by (rule not_waiting)
  have w: "waiting_for ?W k = insert t (waiting_for W k)" by (simp add: waiting_simps)
  show ?thesis
  proof (cases "key_locks (manager W) k")
    case None
    then have ref: "key_lock_ref (manager W) k = None" "waiting_for W k = {}" "\<And>t. (t, k) \<notin> holds W" using ok [of k] by (simp_all add: key_ok_def)
    then have M: "m = next_mutex (manager W)" "M = (manager W)\<lparr> mutexes := (mutexes (manager W))(m \<mapsto> None), next_mutex := m + 1,
        key_locks := (key_locks (manager W))(k \<mapsto> m), key_lock_ref := (key_lock_ref (manager W))(k \<mapsto> 1) \<rparr>"
      using e None by (simp_all add: LockKey_enter_def Let_def) blast
    have old: "m' < m" if "key_locks (manager W) k' = Some m'" for k' m' using key_okD [OF ok [of k'] that] M(1) by metis
    have "key_ok ?W k" using ref w M t by (auto simp: key_ok_def waiting_for_def)
    moreover have "key_ok ?W k'" if "k' \<noteq> k" for k' using that M t old [of k'] by (intro key_ok_frame [OF ok [of k']]) auto
    ultimately have "key_ok ?W k'" for k' by (cases "k' = k") simp_all
    moreover have "\<forall>k1 k2 m'. key_locks M k1 = Some m' \<longrightarrow> key_locks M k2 = Some m' \<longrightarrow> k1 = k2"
      using inv old unfolding M(2) lock_inv_def by (auto split: if_splits)
    ultimately show ?thesis using inv by (simp add: lock_inv_def)
  next
    case (Some m')
    obtain ow where o: "m' < next_mutex (manager W)" "\<And>t m''. entered W t = Some (k, m'') \<Longrightarrow> m'' = m'" "mutexes (manager W) m' = Some ow"
        "\<And>t. (t, k) \<in> holds W \<longleftrightarrow> ow = Some t" "key_lock_ref (manager W) k = Some (int (card (waiting_for W k)) + (if ow = None then 0 else 1))"
      using key_okD [OF ok [of k] Some] by metis
    define n where "n = int (card (waiting_for W k)) + (if ow = None then 0 else 1)"
    have M: "m = m'" "M = (manager W)\<lparr> key_lock_ref := (key_lock_ref (manager W))(k \<mapsto> n + 1) \<rparr>"
      using e Some o(5) by (simp_all add: LockKey_enter_def n_def)
    have c: "n + 1 = int (card (waiting_for ?W k)) + (if ow = None then 0 else 1)" using w new fin by (simp add: n_def)
    have "key_ok ?W k" using Some o(1-4) c w by (auto simp: key_ok_def M)
    moreover have "key_ok ?W k'" if "k' \<noteq> k" for k' using that M t by (intro key_ok_frame [OF ok [of k']]) auto
    ultimately have "key_ok ?W k'" for k' by (cases "k' = k") simp_all
    then show ?thesis using inv by (simp add: lock_inv_def M)
  qed
qed

lemma lock_inv_lock:
  assumes inv: "lock_inv W" and t: "entered W t = Some (k, m)" and l: "LockKey_lock t m (manager W) = Inr M"
  shows "lock_inv (W\<lparr>manager := M, entered := (entered W)(t := None), holds := insert (t, k) (holds W)\<rparr>)" (is "lock_inv ?W")
proof -
  have ok: "key_ok W k'" for k' using inv by (simp add: lock_inv_def)
  have fin: "finite (waiting_for W k)" using inv finite_waiting by (simp add: lock_inv_def)
  have mem: "t \<in> waiting_for W k" using t by (simp add: waiting_for_def)
  have w: "waiting_for ?W k = waiting_for W k - {t}" by (simp add: waiting_simps)
  obtain m0 where m0: "key_locks (manager W) k = Some m0" using held_key [OF ok [of k]] mem by blast
  have M: "mutexes (manager W) m = Some None" "M = (manager W)\<lparr> mutexes := (mutexes (manager W))(m \<mapsto> Some t) \<rparr>"
    using l by (auto simp: LockKey_lock_def split: option.splits)
  obtain ow where o: "m0 < next_mutex (manager W)" "\<And>t m'. entered W t = Some (k, m') \<Longrightarrow> m' = m0" "mutexes (manager W) m0 = Some ow"
      "\<And>t. (t, k) \<in> holds W \<longleftrightarrow> ow = Some t" "key_lock_ref (manager W) k = Some (int (card (waiting_for W k)) + (if ow = None then 0 else 1))"
    using key_okD [OF ok [of k] m0] by metis
  have eq: "m0 = m" "ow = None" using o(2) [OF t] o(3) M(1) by simp_all
  have "0 < card (waiting_for W k)" using mem fin card_gt_0_iff by blast
  then have c: "int (card (waiting_for W k)) = int (card (waiting_for ?W k)) + 1" using mem fin w by (simp add: card_Diff_singleton)
  have own: "key_locks (manager W) k' = Some m \<Longrightarrow> k' = k" for k' using inv m0 eq(1) unfolding lock_inv_def by metis
  have "key_ok ?W k" using m0 o(1,2,4,5) c by (auto simp: key_ok_def M(2) eq)
  moreover have "key_ok ?W k'" if "k' \<noteq> k" for k' using that t own [of k'] by (intro key_ok_frame [OF ok [of k']]) (auto simp: M(2))
  ultimately have "key_ok ?W k'" for k' by (cases "k' = k") simp_all
  then show ?thesis using inv by (simp add: lock_inv_def M(2))
qed

lemma unlock_inv:
  assumes inv: "lock_inv W" and t: "(t, k) \<in> holds W" and u: "UnlockKey t k (manager W) = Inr M"
  shows "lock_inv (W\<lparr>manager := M, holds := holds W - {(t, k)}\<rparr>)" (is "lock_inv ?W")
proof -
  have ok: "key_ok W k'" for k' using inv by (simp add: lock_inv_def)
  have fin: "finite (waiting_for W k)" using inv finite_waiting by (simp add: lock_inv_def)
  have w: "waiting_for ?W k' = waiting_for W k'" for k' by (simp add: waiting_simps)
  obtain m where m: "key_locks (manager W) k = Some m" using held_key [OF ok [of k]] t by blast
  obtain ow where o: "m < next_mutex (manager W)" "\<And>t m'. entered W t = Some (k, m') \<Longrightarrow> m' = m" "mutexes (manager W) m = Some ow"
      "\<And>t. (t, k) \<in> holds W \<longleftrightarrow> ow = Some t" "key_lock_ref (manager W) k = Some (int (card (waiting_for W k)) + (if ow = None then 0 else 1))"
    using key_okD [OF ok [of k] m] by metis
  have ow: "ow = Some t" using o(4) t by simp
  have own: "key_locks (manager W) k' = Some m \<Longrightarrow> k' = k" for k' using inv m unfolding lock_inv_def by metis
  have M: "M = (if waiting_for W k = {}
      then (manager W)\<lparr> mutexes := (mutexes (manager W))(m := None), key_locks := (key_locks (manager W))(k := None), key_lock_ref := (key_lock_ref (manager W))(k := None) \<rparr>
      else (manager W)\<lparr> mutexes := (mutexes (manager W))(m \<mapsto> None), key_lock_ref := (key_lock_ref (manager W))(k \<mapsto> int (card (waiting_for W k))) \<rparr>)"
    using u m o(3,5) ow fin by (cases "waiting_for W k = {}") (simp_all add: UnlockKey_def)
  have "key_ok ?W k"
  proof (cases "waiting_for W k = {}")
    case True
    then show ?thesis using o(4) ow by (auto simp: key_ok_def M waiting_simps)
  next
    case False
    then show ?thesis using m o(1,2,4) ow by (auto simp: key_ok_def M waiting_simps)
  qed
  moreover have "key_ok ?W k'" if "k' \<noteq> k" for k' using that own [of k'] by (intro key_ok_frame [OF ok [of k']]) (auto simp: M)
  ultimately have "key_ok ?W k'" for k' by (cases "k' = k") simp_all
  moreover have "\<forall>k1 k2 m'. key_locks M k1 = Some m' \<longrightarrow> key_locks M k2 = Some m' \<longrightarrow> k1 = k2"
    using inv unfolding M lock_inv_def by (auto split: if_splits)
  ultimately show ?thesis using inv by (simp add: lock_inv_def)
qed

lemma reachable_inv: "lock_reachable W \<Longrightarrow> lock_inv W"
proof (induction rule: lock_reachable.induct)
  case start
  show ?case by (simp add: lock_inv_def lock_start_def KeyLockMgr_new_def key_ok_def waiting_for_def)
next
  case (step W W')
  show ?case using step.hyps(2) step.IH by (cases rule: lock_step.cases) (auto intro: enter_inv lock_inv_lock unlock_inv)
qed

section \<open>Mutual exclusion\<close>

text \<open>
  C39: the key locks exclude each other and none is lost: in every reachable state at most one thread holds a key; a thread in \<open>LockKey\<close>
  waits at a mutex that has not been deleted and gets it as soon as nobody holds the key; and the holder of a key can unlock it.
\<close>

theorem key_lock_exclusive:
  assumes "lock_reachable W"
  shows "((t, k) \<in> holds W \<longrightarrow> (t', k) \<in> holds W \<longrightarrow> t = t') \<and>
    (entered W t = Some (k, m) \<longrightarrow> (if \<exists>u. (u, k) \<in> holds W then LockKey_lock t m (manager W) = Inl Blocked else is_ok (LockKey_lock t m (manager W)))) \<and>
    ((t, k) \<in> holds W \<longrightarrow> is_ok (UnlockKey t k (manager W)))"
proof (cases "key_locks (manager W) k")
  case None
  then show ?thesis using reachable_inv [OF assms] by (auto simp: lock_inv_def key_ok_def waiting_for_def dest!: spec [of _ k])
next
  case (Some m0)
  have "key_ok W k" using reachable_inv [OF assms] by (simp add: lock_inv_def)
  then obtain ow where "\<And>t m'. entered W t = Some (k, m') \<Longrightarrow> m' = m0" "mutexes (manager W) m0 = Some ow" "\<And>t. (t, k) \<in> holds W \<longleftrightarrow> ow = Some t"
      "key_lock_ref (manager W) k = Some (int (card (waiting_for W k)) + (if ow = None then 0 else 1))"
    using Some by (auto elim: key_okD)
  then show ?thesis using Some by (auto simp: LockKey_lock_def UnlockKey_def is_ok_def)
qed

section \<open>An example\<close>

text \<open>Thread 1 has locked a key and thread 2 waits for it.\<close>

definition demo_locks :: "KeyLockMgr" where
  "demo_locks = \<lparr> key_locks = [''a'' \<mapsto> 0], key_lock_ref = [''a'' \<mapsto> 2], mutexes = [0 \<mapsto> Some 1], next_mutex = 1 \<rparr>"

definition demo_world :: lock_world where
  "demo_world = \<lparr> manager = demo_locks, entered = [2 \<mapsto> (''a'', 0)], holds = {(1, ''a'')} \<rparr>"

lemma demo_world_reachable: "lock_reachable demo_world"
proof -
  let ?M1 = "\<lparr> key_locks = [''a'' \<mapsto> 0], key_lock_ref = [''a'' \<mapsto> 1], mutexes = [0 \<mapsto> None], next_mutex = 1 \<rparr>"
  let ?M2 = "?M1\<lparr>mutexes := [0 \<mapsto> Some 1]\<rparr>"
  let ?W1 = "lock_start\<lparr>manager := ?M1, entered := [1 \<mapsto> (''a'', 0)]\<rparr>" and ?W2 = "lock_start\<lparr>manager := ?M2, holds := {(1, ''a'')}\<rparr>"
  have "lock_step lock_start ?W1"
    using lock_step.enter [of lock_start 1 "''a''" 0 ?M1] by (simp add: lock_start_def KeyLockMgr_new_def LockKey_enter_def)
  moreover have "lock_step ?W1 ?W2"
    using lock_step.lock [of ?W1 1 "''a''" 0 ?M2] by (simp add: lock_start_def LockKey_lock_def)
  moreover have "lock_step ?W2 demo_world"
    using lock_step.enter [of ?W2 2 "''a''" 0 demo_locks] by (simp add: lock_start_def LockKey_enter_def demo_world_def demo_locks_def)
  ultimately show ?thesis using lock_reachable.intros by blast
qed

theorem key_lock_exclusive_witness:
  "(1, ''a'') \<in> holds demo_world \<and> (2, ''a'') \<notin> holds demo_world \<and> LockKey_lock 2 0 (manager demo_world) = Inl Blocked \<and> is_ok (UnlockKey 1 ''a'' (manager demo_world))"
proof -
  have held: "(1, ''a'') \<in> holds demo_world" "entered demo_world 2 = Some (''a'', 0)" by (simp_all add: demo_world_def)
  then show ?thesis using key_lock_exclusive [OF demo_world_reachable, of 1 "''a''" 2 0] key_lock_exclusive [OF demo_world_reachable, of 2 "''a''" 1 0] by (auto split: if_splits)
qed

end
