(* ===== verification/TCP_Frames.thy ===== *)
theory TCP_Frames
  imports Prelude "HOL-Library.Sublist"
begin

text \<open>
  Messages on a TCP connection (\<open>src/distributed/lib/tcptransport.cc\<close>): the bytes that \<open>SendMessageInternal\<close> writes for a message and the
  loop of \<open>TCPReadableCallback\<close> that cuts messages out of the bytes received so far.  A message is its type name and its serialized data;
  protobuf makes both.  Strings are shorter than \<open>2 ^ 64\<close>; the arrays on the stack are taken to fit.
\<close>

section \<open>Writing\<close>

definition MAGIC :: nat where
  "MAGIC = 0x06121983"

definition message_bytes :: "string \<Rightarrow> string \<Rightarrow> string" where
  "message_bytes ty dat = le_bytes 4 MAGIC @ le_bytes 8 (length ty + 8 + length dat + 8 + 8 + 4) @ le_bytes 8 (length ty) @ ty @ le_bytes 8 (length dat) @ dat"

text \<open>The assertions compare the write position with the total length after every field.\<close>

definition serialize_message :: "string \<Rightarrow> string \<Rightarrow> string result" where
  "serialize_message ty dat = (let typeLen = length ty; dataLen = length dat; totalLen = typeLen + 8 + dataLen + 8 + 8 + 4 in
     if \<not> 4 < totalLen then Inl Panicked
     else if \<not> 4 + 8 < totalLen then Inl Panicked
     else if \<not> 4 + 8 + 8 < totalLen then Inl Panicked
     else if \<not> 4 + 8 + 8 + typeLen < totalLen then Inl Panicked
     else if \<not> 4 + 8 + 8 + typeLen + 8 < totalLen then Inl Panicked
     else if 4 + 8 + 8 + typeLen + 8 + dataLen \<noteq> totalLen then Inl Panicked
     else Inr (message_bytes ty dat))"

section \<open>Reading\<close>

text \<open>
  The fields of a message of \<open>totalSize\<close> bytes.  Positions are \<open>size_t\<close>, so that a sum with a length from the message wraps; a length past
  the greatest size of a string throws.
\<close>

definition parse_message :: "string \<Rightarrow> (string \<times> string) result" where
  "parse_message buf = (let totalSize = length buf in
     if totalSize < 20 then Inl Out_of_bounds else
     let typeLen = u64_at (drop 12 buf) in
     if \<not> 20 < totalSize then Inl Panicked
     else if \<not> (20 + typeLen) mod 2 ^ 64 < totalSize then Inl Panicked
     else if typeLen \<ge> 2 ^ 63 then Inl Length_error
     else if totalSize < 20 + typeLen + 8 then Inl Out_of_bounds else
     let msgLen = u64_at (drop (20 + typeLen) buf) in
     if \<not> 20 + typeLen + 8 < totalSize then Inl Panicked
     else if \<not> (20 + typeLen + 8 + msgLen) mod 2 ^ 64 \<le> totalSize then Inl Panicked
     else if msgLen \<ge> 2 ^ 63 then Inl Length_error
     else Inr (take typeLen (drop 20 buf), take msgLen (drop (20 + typeLen + 8) buf)))"

lemma parse_message_size: "parse_message buf = Inr m \<Longrightarrow> 20 < length buf"
  by (auto simp: parse_message_def Let_def split: if_splits)

text \<open>
  \<open>TCPReadableCallback\<close>: the messages handed to the receiver, and the bytes left in the buffer or the error that ends the process.
  \<open>addr\<close> is what \<open>tcpAddresses\<close> has for the connection.
\<close>

function TCPReadableCallback :: "'a option \<Rightarrow> string \<Rightarrow> ('a \<times> string \<times> string) list \<times> string result" where
  "TCPReadableCallback addr evbuf =
     (if length evbuf = 0 then ([], Inr evbuf)
      else if length evbuf < 4 then ([], Inr evbuf)
      else if u32_at evbuf \<noteq> MAGIC then ([], Inl Panicked)
      else if length evbuf < 4 + 8 then ([], Inr evbuf)
      else let totalSize = u64_at (drop 4 evbuf) in
        if \<not> totalSize < 1073741826 then ([], Inl Panicked)
        else if length evbuf < totalSize then ([], Inr evbuf)
        else case parse_message (take totalSize evbuf) of Inl e \<Rightarrow> ([], Inl e)
          | Inr (msgType, msg) \<Rightarrow> (case addr of None \<Rightarrow> ([], Inl Panicked)
              | Some a \<Rightarrow> (case TCPReadableCallback addr (drop totalSize evbuf) of (ms, r) \<Rightarrow> ((a, msgType, msg) # ms, r))))"
  by pat_completeness auto
termination
  by (relation "measure (\<lambda>(addr, evbuf). length evbuf)") (auto dest!: parse_message_size)

declare TCPReadableCallback.simps [simp del]

text \<open>The callback runs whenever bytes arrive; what it leaves stays in the buffer.\<close>

fun receive_pieces :: "'a option \<Rightarrow> string list \<Rightarrow> string \<Rightarrow> ('a \<times> string \<times> string) list \<times> string result" where
  "receive_pieces addr [] buf = ([], Inr buf)"
| "receive_pieces addr (p # ps) buf = (case TCPReadableCallback addr (buf @ p) of (ms, Inl e) \<Rightarrow> (ms, Inl e)
     | (ms, Inr rest) \<Rightarrow> (case receive_pieces addr ps rest of (ms', r) \<Rightarrow> (ms @ ms', r)))"

section \<open>One message\<close>

definition sendable :: "string \<times> string \<Rightarrow> bool" where
  "sendable m \<longleftrightarrow> snd m \<noteq> [] \<and> length (fst m) + length (snd m) + 28 < 1073741826"

abbreviation frame :: "string \<times> string \<Rightarrow> string" where
  "frame m \<equiv> message_bytes (fst m) (snd m)"

lemma serialize_iff: "serialize_message ty dat = Inr b \<longleftrightarrow> dat \<noteq> [] \<and> b = message_bytes ty dat"
  by (auto simp: serialize_message_def Let_def)

lemma length_message_bytes: "length (message_bytes ty dat) = length ty + length dat + 28"
  by (simp add: message_bytes_def)

lemma message_bytes_size: "length ty + length dat + 28 < 2 ^ 64 \<Longrightarrow> u64_at (drop 4 (message_bytes ty dat @ s)) = length ty + length dat + 28"
  by (simp add: message_bytes_def)

lemma message_bytes_magic: "u32_at (message_bytes ty dat @ s) = MAGIC"
  by (simp add: message_bytes_def MAGIC_def)

lemma parse_message_bytes:
  assumes "sendable (ty, dat)"
  shows "parse_message (message_bytes ty dat) = Inr (ty, dat)"
proof -
  let ?h = "le_bytes 4 MAGIC @ le_bytes 8 (length ty + 8 + length dat + 8 + 8 + 4)"
  have s: "dat \<noteq> []" "length ty + length dat + 28 < 1073741826" using assms by (simp_all add: sendable_def)
  have b: "message_bytes ty dat = ?h @ le_bytes 8 (length ty) @ ty @ le_bytes 8 (length dat) @ dat" by (simp add: message_bytes_def)
  have d: "drop 12 (message_bytes ty dat) = le_bytes 8 (length ty) @ ty @ le_bytes 8 (length dat) @ dat"
      "drop 20 (message_bytes ty dat) = ty @ le_bytes 8 (length dat) @ dat" "drop (20 + length ty) (message_bytes ty dat) = le_bytes 8 (length dat) @ dat"
      "drop (20 + length ty + 8) (message_bytes ty dat) = dat"
    unfolding b by simp_all
  have t: "u64_at (drop 12 (message_bytes ty dat)) = length ty" unfolding d using s by simp
  have m: "u64_at (drop (20 + length ty) (message_bytes ty dat)) = length dat" unfolding d using s u64_at_le_bytes [of "length dat" dat] by simp
  have l: "length (message_bytes ty dat) = length ty + length dat + 28" by (rule length_message_bytes)
  show ?thesis unfolding parse_message_def Let_def l t m using s d(2,4) by simp
qed

lemma readable_message:
  assumes "sendable m"
  shows "TCPReadableCallback (Some a) (frame m @ s) = (case TCPReadableCallback (Some a) s of (ms, r) \<Rightarrow> ((a, m) # ms, r))"
proof -
  obtain ty dat where m: "m = (ty, dat)" by (cases m)
  let ?b = "message_bytes ty dat"
  have t: "length ty + length dat + 28 < 1073741826" using assms by (simp add: m sendable_def)
  have l: "length ?b = length ty + length dat + 28" by (rule length_message_bytes)
  have z: "u64_at (drop 4 (?b @ s)) = length ?b" unfolding l using t by (intro message_bytes_size) simp
  have p: "parse_message (take (length ?b) (?b @ s)) = Inr (ty, dat)" using parse_message_bytes assms by (simp add: m)
  have dr: "drop (length ?b) (?b @ s) = s" by simp
  show ?thesis
    by (subst TCPReadableCallback.simps) (use p dr z t l in \<open>simp add: m message_bytes_magic Let_def del: drop_append take_append\<close>)
qed

lemma le_nat_append: "w \<le> length s \<Longrightarrow> le_nat w (s @ s') = le_nat w s"
  by (induction w s rule: le_nat.induct) (auto split: list.splits)

text \<open>The beginning of a message is left in the buffer.\<close>

lemma readable_partial:
  assumes m: "sendable m" and p: "strict_prefix s (frame m)"
  shows "TCPReadableCallback addr s = ([], Inr s)"
proof -
  obtain s' where s': "frame m = s @ s'" and len: "length s < length (frame m)"
    using p by (auto simp: strict_prefix_def prefix_def)
  have magic: "u32_at s = MAGIC" if "4 \<le> length s"
    using message_bytes_magic [of "fst m" "snd m" "[]"] le_nat_append [OF that, of s'] s' by simp
  have size: "u64_at (drop 4 s) = length (frame m)" if "12 \<le> length s"
  proof -
    have "length (fst m) + length (snd m) + 28 < 2 ^ 64" using m by (simp add: sendable_def)
    then have "u64_at (drop 4 (frame m)) = length (frame m)" using message_bytes_size [of "fst m" "snd m" "[]"] by (simp add: length_message_bytes)
    moreover have "drop 4 (frame m) = drop 4 s @ s'" "8 \<le> length (drop 4 s)" using s' that by simp_all
    ultimately show ?thesis using le_nat_append by metis
  qed
  have "length (frame m) < 1073741826" using m by (simp add: sendable_def length_message_bytes)
  then show ?thesis by (subst TCPReadableCallback.simps) (use magic size len in \<open>auto simp: Let_def not_less\<close>)
qed

section \<open>A stream of messages\<close>

text \<open>What is left in the buffer when \<open>ms\<close> are still to come.\<close>

definition pending :: "(string \<times> string) list \<Rightarrow> string \<Rightarrow> bool" where
  "pending ms rest \<longleftrightarrow> (case ms of [] \<Rightarrow> rest = [] | m # _ \<Rightarrow> strict_prefix rest (frame m))"

abbreviation frames :: "(string \<times> string) list \<Rightarrow> string" where
  "frames ms \<equiv> concat (map frame ms)"

lemma frame_nonempty: "frame m \<noteq> []"
  using length_message_bytes [of "fst m" "snd m"] by auto

lemma pending_Nil: "pending ms []"
proof (cases ms)
  case (Cons m ms')
  then show ?thesis using frame_nonempty [of m] by (simp add: pending_def strict_prefix_def)
qed (simp add: pending_def)

lemma readable_stream:
  assumes "list_all sendable ms" "prefix s (frames ms)"
  shows "\<exists>ms1 ms2 rest. ms = ms1 @ ms2 \<and> s = frames ms1 @ rest \<and> pending ms2 rest \<and> TCPReadableCallback (Some a) s = (map (Pair a) ms1, Inr rest)"
  using assms
proof (induction ms arbitrary: s)
  case Nil
  then show ?case by (simp add: pending_def TCPReadableCallback.simps)
next
  case (Cons m ms)
  consider (part) "strict_prefix s (frame m)" | (whole) s' where "s = frame m @ s'" "prefix s' (frames ms)"
    using Cons.prems(2) by (cases "s = frame m") (auto simp: prefix_append strict_prefix_def)
  then show ?case
  proof cases
    case part
    then show ?thesis using Cons.prems(1) readable_partial [of m s]
      by (intro exI [of _ "[]"] exI [of _ "m # ms"] exI [of _ s]) (simp add: pending_def)
  next
    case whole
    obtain ms1 ms2 rest where r: "ms = ms1 @ ms2" "s' = frames ms1 @ rest" "pending ms2 rest" "TCPReadableCallback (Some a) s' = (map (Pair a) ms1, Inr rest)"
      using Cons.IH [OF _ whole(2)] Cons.prems(1) by auto
    show ?thesis using r whole(1) Cons.prems(1) readable_message [of m a s']
      by (intro exI [of _ "m # ms1"] exI [of _ ms2] exI [of _ rest]) simp
  qed
qed

lemma receive_stream:
  assumes "list_all sendable ms" "prefix (buf @ concat ps) (frames ms)" "pending ms buf"
  shows "\<exists>ms1 ms2 rest. ms = ms1 @ ms2 \<and> buf @ concat ps = frames ms1 @ rest \<and> pending ms2 rest \<and> receive_pieces (Some a) ps buf = (map (Pair a) ms1, Inr rest)"
  using assms
proof (induction ps arbitrary: ms buf)
  case Nil
  then show ?case by (intro exI [of _ "[]"] exI [of _ ms] exI [of _ buf]) simp
next
  case (Cons p ps)
  have pre: "prefix (buf @ p) (frames ms)" using Cons.prems(2) by (auto simp: prefix_def)
  obtain ms1 ms2 rest where r: "ms = ms1 @ ms2" "buf @ p = frames ms1 @ rest" "pending ms2 rest"
      "TCPReadableCallback (Some a) (buf @ p) = (map (Pair a) ms1, Inr rest)"
    using readable_stream [OF Cons.prems(1) pre, of a] by auto
  have "prefix ((buf @ p) @ concat ps) (frames ms)" using Cons.prems(2) by simp
  then have "prefix (rest @ concat ps) (frames ms2)" unfolding r(1,2) by simp
  then obtain ms3 ms4 rest' where q: "ms2 = ms3 @ ms4" "rest @ concat ps = frames ms3 @ rest'" "pending ms4 rest'"
      "receive_pieces (Some a) ps rest = (map (Pair a) ms3, Inr rest')"
    using Cons.IH [of ms2 rest] Cons.prems(1) r(1,3) by auto
  have "buf @ concat (p # ps) = (buf @ p) @ concat ps" by simp
  also have "\<dots> = frames (ms1 @ ms3) @ rest'" unfolding r(2) using q(2) by simp
  finally have "buf @ concat (p # ps) = frames (ms1 @ ms3) @ rest'" .
  then show ?case using r q by (intro exI [of _ "ms1 @ ms3"] exI [of _ ms4] exI [of _ rest']) simp
qed

lemma sent_bytes:
  "list_all2 (\<lambda>(ty, dat) b. serialize_message ty dat = Inr b \<and> length b < 1073741826) ms bs \<Longrightarrow> list_all sendable ms \<and> bs = map frame ms"
  by (induction ms bs rule: list_all2_induct) (auto simp: serialize_iff sendable_def length_message_bytes)

text \<open>
  C34: messages survive the connection: whatever pieces the bytes of a sequence of messages arrive in, the receiver gets the messages one after the
  other, each as soon as its last byte is there, and nothing else; the bytes of an unfinished message stay in the buffer.
  Once all bytes have arrived, all messages have been received.
\<close>

theorem tcp_stream_roundtrip:
  assumes "list_all2 (\<lambda>(ty, dat) b. serialize_message ty dat = Inr b \<and> length b < 1073741826) ms bs" "prefix (concat ps) (concat bs)"
  shows "\<exists>n rest. receive_pieces (Some a) ps [] = (map (Pair a) (take n ms), Inr rest) \<and> concat ps = concat (take n bs) @ rest \<and>
    (n < length ms \<longrightarrow> length rest < length (bs ! n)) \<and> (concat ps = concat bs \<longrightarrow> take n ms = ms \<and> rest = [])"
proof -
  have ok: "list_all sendable ms" and bs: "bs = map frame ms" using sent_bytes [OF assms(1)] by simp_all
  obtain ms1 ms2 rest where r: "ms = ms1 @ ms2" "concat ps = frames ms1 @ rest" "pending ms2 rest" "receive_pieces (Some a) ps [] = (map (Pair a) ms1, Inr rest)"
    using receive_stream [OF ok, of "[]" ps a] assms(2) pending_Nil bs by auto
  have last: "length rest < length (frame m)" if "ms2 = m # ms3" for m ms3 using r(3) that prefix_length_less by (auto simp: pending_def)
  have "ms2 = [] \<and> rest = []" if "concat ps = concat bs"
  proof (cases ms2)
    case (Cons m ms3)
    have "rest = frames ms2" using that r(1,2) bs by simp
    then show ?thesis using last [OF Cons] Cons by simp
  qed (use r(3) in \<open>simp add: pending_def\<close>)
  moreover have "length rest < length (bs ! length ms1)" if less: "length ms1 < length ms"
  proof -
    obtain m ms3 where "ms2 = m # ms3" using r(1) less by (cases ms2) auto
    then show ?thesis using last r(1) bs by (simp add: nth_append)
  qed
  moreover have "take (length ms1) ms = ms1" "concat (take (length ms1) bs) = frames ms1" using r(1) bs by simp_all
  ultimately show ?thesis using r(1,2,4) by (intro exI [of _ "length ms1"] exI [of _ rest]) auto
qed

text \<open>A message without data cannot be sent: the position after the length of the data is the end, which an assertion excludes.\<close>

lemma empty_message_panics: "serialize_message ty [] = Inl Panicked"
  by (simp add: serialize_message_def Let_def)

section \<open>An example\<close>

theorem tcp_stream_roundtrip_witness:
  "receive_pieces (Some 7) [take 5 (message_bytes ''A'' ''xy''), drop 5 (message_bytes ''A'' ''xy'') @ take 30 (message_bytes ''Bc'' ''z''), drop 30 (message_bytes ''Bc'' ''z'')] []
     = ([(7 :: nat, ''A'', ''xy''), (7, ''Bc'', ''z'')], Inr [])"
proof -
  let ?a = "message_bytes ''A'' ''xy''" and ?b = "message_bytes ''Bc'' ''z''"
  have "list_all2 (\<lambda>(ty, dat) b. serialize_message ty dat = Inr b \<and> length b < 1073741826) [(''A'', ''xy''), (''Bc'', ''z'')] [?a, ?b]"
    by (simp add: serialize_iff length_message_bytes)
  moreover have c: "concat [take 5 ?a, drop 5 ?a @ take 30 ?b, drop 30 ?b] = concat [?a, ?b]"
    by (simp only: concat.simps append_Nil2 append.assoc append_take_drop_id) (simp only: append.assoc [symmetric] append_take_drop_id)
  ultimately show ?thesis using tcp_stream_roundtrip [of "[(''A'', ''xy''), (''Bc'', ''z'')]" "[?a, ?b]" "[take 5 ?a, drop 5 ?a @ take 30 ?b, drop 30 ?b]" "7 :: nat"]
    unfolding c by auto
qed

end
