(* ===== verification/TCP_Transport.thy ===== *)
theory TCP_Transport
  imports TCP_Frames VR_App
begin

text \<open>
  The transport over TCP: registration of receivers and routing to replicas (\<open>src/distributed/lib/transportcommon.h\<close>), and its connections
  (\<open>tcptransport.cc\<close>).  Receivers and libevent's buffer events are numbers; what is written to a buffer event is the
  stream of bytes on its connection.  The operating system is a parameter: name resolution, the address of a socket, and whether a
  connection can be opened and written.  Socket options and the maps \<open>receivers\<close> and \<open>fds\<close>, which are never read, are left out.
\<close>

section \<open>State\<close>

record 'a net =
  resolve :: "ReplicaAddress \<Rightarrow> 'a option"
  bound_to :: "ReplicaAddress \<Rightarrow> 'a"
  connect_ok :: "nat \<Rightarrow> bool"
  sock_name :: "nat \<Rightarrow> 'a"
  write_ok :: "nat \<Rightarrow> string \<Rightarrow> bool"

text \<open>
  A canonical configuration is identified with its value: \<open>canonicalConfigs\<close> has one for each, by \<open>operator==\<close>, which compares all fields.
  \<open>freed\<close> are the buffer events that have been freed.
\<close>

record 'a TCPTransport =
  canonicalConfigs :: "Configuration list"
  configurations :: "nat \<rightharpoonup> Configuration"
  replicaAddresses :: "Configuration \<Rightarrow> (nat \<times> 'a) list"
  replicaReceivers :: "Configuration \<Rightarrow> nat \<rightharpoonup> nat"
  multicastAddresses :: "Configuration \<rightharpoonup> 'a"
  replicaAddressesInitialized :: bool
  tcpOutgoing :: "'a \<rightharpoonup> nat"
  tcpAddresses :: "nat \<rightharpoonup> 'a"
  myAddress :: "nat \<rightharpoonup> 'a"
  bev_output :: "nat \<Rightarrow> string"
  next_bev :: nat
  freed :: "nat set"

definition TCPTransport_new :: "'a TCPTransport" where
  "TCPTransport_new = \<lparr> canonicalConfigs = [], configurations = Map.empty, replicaAddresses = (\<lambda>_. []), replicaReceivers = (\<lambda>_. Map.empty),
     multicastAddresses = Map.empty, replicaAddressesInitialized = False, tcpOutgoing = Map.empty, tcpAddresses = Map.empty, myAddress = Map.empty,
     bev_output = (\<lambda>_. []), next_bev = 0, freed = {} \<rparr>"

section \<open>Registration\<close>

text \<open>\<open>insert\<close> into a map keeps an entry that is there.\<close>

definition RegisterConfiguration :: "nat \<Rightarrow> Configuration \<Rightarrow> int \<Rightarrow> 'a TCPTransport \<Rightarrow> 'a TCPTransport" where
  "RegisterConfiguration receiver config replicaIdx S =
     (let S = S\<lparr> canonicalConfigs := (if config \<in> set (canonicalConfigs S) then canonicalConfigs S else canonicalConfigs S @ [config]),
            configurations := (case configurations S receiver of None \<Rightarrow> (configurations S)(receiver \<mapsto> config) | Some _ \<Rightarrow> configurations S) \<rparr>;
          rs = replicaReceivers S config; i = nat replicaIdx;
          S = (if replicaIdx \<noteq> - 1 then S\<lparr> replicaReceivers := (replicaReceivers S)(config := (case rs i of None \<Rightarrow> rs(i \<mapsto> receiver) | Some _ \<Rightarrow> rs)) \<rparr> else S)
      in S\<lparr> replicaAddressesInitialized := False \<rparr>)"

definition Register :: "'a net \<Rightarrow> nat \<Rightarrow> Configuration \<Rightarrow> int \<Rightarrow> 'a TCPTransport \<Rightarrow> 'a TCPTransport result" where
  "Register N receiver config replicaIdx S = (if \<not> replicaIdx < int (cfg_n config) then Inl Panicked else
     let S = RegisterConfiguration receiver config replicaIdx S in
     if replicaIdx = - 1 then Inr S
     else if replicaIdx < 0 then Inl Out_of_bounds
     else rbind (vec_at (cfg_replicas config) (nat replicaIdx)) (\<lambda>ra.
       case resolve N ra of None \<Rightarrow> Inl Panicked
       | Some _ \<Rightarrow> Inr (S\<lparr> myAddress := (myAddress S)(receiver \<mapsto> bound_to N ra) \<rparr>)))"

section \<open>Addresses of replicas\<close>

definition LookupAddress :: "'a net \<Rightarrow> Configuration \<Rightarrow> nat \<Rightarrow> 'a result" where
  "LookupAddress N config idx = rbind (vec_at (cfg_replicas config) idx) (\<lambda>ra. case resolve N ra of None \<Rightarrow> Inl Panicked | Some a \<Rightarrow> Inr a)"

definition LookupMulticastAddress :: "Configuration \<Rightarrow> 'a option" where
  "LookupMulticastAddress config = None"

fun lookup_replicas :: "'a net \<Rightarrow> Configuration \<Rightarrow> nat list \<Rightarrow> (nat \<times> 'a) list result" where
  "lookup_replicas N cfg [] = Inr []"
| "lookup_replicas N cfg (i # is) = rbind (LookupAddress N cfg i) (\<lambda>a. rbind (lookup_replicas N cfg is) (\<lambda>as. Inr ((i, a) # as)))"

fun lookup_configs :: "'a net \<Rightarrow> Configuration list \<Rightarrow> 'a TCPTransport \<Rightarrow> 'a TCPTransport result" where
  "lookup_configs N [] S = Inr S"
| "lookup_configs N (cfg # cfgs) S = rbind (lookup_replicas N cfg [0..<cfg_n cfg]) (\<lambda>as.
     let S = S\<lparr> replicaAddresses := (replicaAddresses S)(cfg := as) \<rparr> in
     lookup_configs N cfgs (case cfg_multicast cfg of None \<Rightarrow> S | Some _ \<Rightarrow>
       (case LookupMulticastAddress cfg of None \<Rightarrow> S | Some a \<Rightarrow> S\<lparr> multicastAddresses := (multicastAddresses S)(cfg \<mapsto> a) \<rparr>)))"

definition LookupAddresses :: "'a net \<Rightarrow> 'a TCPTransport \<Rightarrow> 'a TCPTransport result" where
  "LookupAddresses N S = rbind (lookup_configs N (canonicalConfigs S) (S\<lparr> replicaAddresses := (\<lambda>_. []), multicastAddresses := Map.empty \<rparr>)) (\<lambda>S.
     Inr (S\<lparr> replicaAddressesInitialized := True \<rparr>))"

section \<open>Connections\<close>

text \<open>A connection that cannot be opened is not entered; an open one changes the address of the receiver that asked for it.\<close>

definition ConnectTCP :: "'a net \<Rightarrow> nat \<Rightarrow> 'a \<Rightarrow> 'a TCPTransport \<Rightarrow> 'a TCPTransport" where
  "ConnectTCP N src dst S = (let bev = next_bev S; S = S\<lparr> next_bev := bev + 1 \<rparr> in
     if \<not> connect_ok N bev then S\<lparr> freed := insert bev (freed S) \<rparr>
     else S\<lparr> myAddress := (myAddress S)(src \<mapsto> sock_name N bev), tcpOutgoing := (tcpOutgoing S)(dst \<mapsto> bev), tcpAddresses := (tcpAddresses S)(bev \<mapsto> dst) \<rparr>)"

definition TCPAcceptCallback :: "'a \<Rightarrow> 'a TCPTransport \<Rightarrow> 'a TCPTransport" where
  "TCPAcceptCallback client S = (let bev = next_bev S in
     S\<lparr> next_bev := bev + 1, tcpOutgoing := (tcpOutgoing S)(client \<mapsto> bev), tcpAddresses := (tcpAddresses S)(bev \<mapsto> client) \<rparr>)"

text \<open>The second test of the incoming callback repeats the first: the end of a connection is not handled.\<close>

record bev_event =
  ev_connected :: bool
  ev_error :: bool
  ev_eof :: bool

definition TCPIncomingEventCallback :: "nat \<Rightarrow> bev_event \<Rightarrow> 'a TCPTransport \<Rightarrow> 'a TCPTransport" where
  "TCPIncomingEventCallback bev what S = (if ev_error what then S\<lparr> freed := insert bev (freed S) \<rparr> else S)"

definition TCPOutgoingEventCallback :: "nat \<Rightarrow> bev_event \<Rightarrow> 'a TCPTransport \<Rightarrow> 'a TCPTransport result" where
  "TCPOutgoingEventCallback bev what S = (case tcpAddresses S bev of None \<Rightarrow> Inl Panicked | Some addr \<Rightarrow>
     if ev_connected what then Inr S
     else if ev_error what \<or> ev_eof what then
       (if tcpOutgoing S addr = None then Inl Out_of_bounds
        else Inr (S\<lparr> freed := insert bev (freed S), tcpOutgoing := (tcpOutgoing S)(addr := None), tcpAddresses := (tcpAddresses S)(bev := None) \<rparr>))
     else Inr S)"

section \<open>Sending\<close>

definition SendMessageInternal :: "'a net \<Rightarrow> nat \<Rightarrow> 'a \<Rightarrow> string \<times> string \<Rightarrow> 'a TCPTransport \<Rightarrow> (bool \<times> 'a TCPTransport) result" where
  "SendMessageInternal N src dst m S =
     (let S = (if tcpOutgoing S dst = None then ConnectTCP N src dst S else S) in
      case tcpOutgoing S dst of None \<Rightarrow> Inl Out_of_bounds | Some ev \<Rightarrow>
        rbind (serialize_message (fst m) (snd m)) (\<lambda>buf.
          if ev \<in> freed S then Inl Out_of_bounds
          else if \<not> write_ok N ev (bev_output S ev) then Inr (False, S)
          else Inr (True, S\<lparr> bev_output := (bev_output S)(ev := bev_output S ev @ buf) \<rparr>)))"

definition SendMessage :: "'a net \<Rightarrow> nat \<Rightarrow> 'a \<Rightarrow> string \<times> string \<Rightarrow> 'a TCPTransport \<Rightarrow> (bool \<times> 'a TCPTransport) result" where
  "SendMessage N src dst m S = SendMessageInternal N src dst m S"

definition with_addresses :: "'a net \<Rightarrow> 'a TCPTransport \<Rightarrow> 'a TCPTransport result" where
  "with_addresses N S = (if replicaAddressesInitialized S then Inr S else LookupAddresses N S)"

definition SendMessageToReplica :: "'a net \<Rightarrow> nat \<Rightarrow> nat \<Rightarrow> string \<times> string \<Rightarrow> 'a TCPTransport \<Rightarrow> (bool \<times> 'a TCPTransport) result" where
  "SendMessageToReplica N src replicaIdx m S = (case configurations S src of None \<Rightarrow> Inl Panicked | Some cfg \<Rightarrow>
     rbind (with_addresses N S) (\<lambda>S. case map_of (replicaAddresses S cfg) replicaIdx of None \<Rightarrow> Inl Panicked
       | Some dst \<Rightarrow> SendMessageInternal N src dst m S))"

text \<open>\<open>own\<close> is the address to leave out; the loop ends at the first failure.\<close>

fun send_all :: "'a net \<Rightarrow> nat \<Rightarrow> 'a option \<Rightarrow> string \<times> string \<Rightarrow> (nat \<times> 'a) list \<Rightarrow> 'a TCPTransport \<Rightarrow> (bool \<times> 'a TCPTransport) result" where
  "send_all N src own m [] S = Inr (True, S)"
| "send_all N src own m ((i, a) # as) S = (if own = Some a then send_all N src own m as S else
     rbind (SendMessageInternal N src a m S) (\<lambda>(ok, S). if \<not> ok then Inr (False, S) else send_all N src own m as S))"

definition SendMessageToAll :: "'a net \<Rightarrow> nat \<Rightarrow> string \<times> string \<Rightarrow> bool \<Rightarrow> 'a TCPTransport \<Rightarrow> (bool \<times> 'a TCPTransport) result" where
  "SendMessageToAll N src m fromSvr S = (case configurations S src of None \<Rightarrow> Inl Panicked | Some cfg \<Rightarrow>
     rbind (with_addresses N S) (\<lambda>S. case multicastAddresses S cfg of
       Some dst \<Rightarrow> SendMessageInternal N src dst m S
     | None \<Rightarrow> if fromSvr then (case myAddress S src of None \<Rightarrow> Inl Out_of_bounds | Some srcAddr \<Rightarrow> send_all N src (Some srcAddr) m (replicaAddresses S cfg) S)
         else send_all N src None m (replicaAddresses S cfg) S))"

section \<open>Connections and streams\<close>

text \<open>Every connection in use is named by one address, and a new one is empty.\<close>

definition conn_ok :: "'a TCPTransport \<Rightarrow> bool" where
  "conn_ok S \<longleftrightarrow> (\<forall>a b. tcpOutgoing S a = Some b \<longrightarrow> b < next_bev S \<and> tcpAddresses S b = Some a) \<and> (\<forall>b\<ge>next_bev S. bev_output S b = [] \<and> b \<notin> freed S)"

definition live :: "'a TCPTransport \<Rightarrow> bool" where
  "live S \<longleftrightarrow> (\<forall>a b. tcpOutgoing S a = Some b \<longrightarrow> b \<notin> freed S)"

definition stream_to :: "'a TCPTransport \<Rightarrow> 'a \<Rightarrow> string" where
  "stream_to S a = (case tcpOutgoing S a of None \<Rightarrow> [] | Some b \<Rightarrow> bev_output S b)"

lemma conn_ok_new: "conn_ok TCPTransport_new"
  by (simp add: conn_ok_def TCPTransport_new_def)

lemma conn_ok_accept: "conn_ok S \<Longrightarrow> conn_ok (TCPAcceptCallback client S)"
  by (fastforce simp: conn_ok_def TCPAcceptCallback_def Let_def)

lemma conn_ok_connect: "conn_ok S \<Longrightarrow> conn_ok (ConnectTCP N src dst S)"
  by (fastforce simp: conn_ok_def ConnectTCP_def Let_def)

lemma conn_ok_outgoing_event:
  assumes "conn_ok S" "TCPOutgoingEventCallback bev what S = Inr S'" "bev < next_bev S"
  shows "conn_ok S'"
  using assms by (auto simp: conn_ok_def TCPOutgoingEventCallback_def split: option.splits if_splits)

text \<open>A send that succeeds appends the message to one stream.\<close>

definition net_ok :: "'a net \<Rightarrow> bool" where
  "net_ok N \<longleftrightarrow> (\<forall>b. connect_ok N b) \<and> (\<forall>b s. write_ok N b s)"

definition same_routes :: "'a TCPTransport \<Rightarrow> 'a TCPTransport \<Rightarrow> bool" where
  "same_routes S S' \<longleftrightarrow> canonicalConfigs S' = canonicalConfigs S \<and> configurations S' = configurations S \<and> replicaAddresses S' = replicaAddresses S \<and>
     multicastAddresses S' = multicastAddresses S \<and> replicaAddressesInitialized S' = replicaAddressesInitialized S \<and> dom (tcpOutgoing S) \<subseteq> dom (tcpOutgoing S')"

lemma same_routes_trans: "same_routes S T \<Longrightarrow> same_routes T U \<Longrightarrow> same_routes S U"
  by (auto simp: same_routes_def)

lemma send_ok:
  assumes N: "net_ok N" and S: "conn_ok S" "live S" and m: "snd m \<noteq> []"
  shows "\<exists>S'. SendMessageInternal N src dst m S = Inr (True, S') \<and> conn_ok S' \<and> live S' \<and> same_routes S S' \<and> dom (tcpOutgoing S') = insert dst (dom (tcpOutgoing S)) \<and>
    (\<forall>a. stream_to S' a = stream_to S a @ (if a = dst then frame m else [])) \<and>
    (if dst \<in> dom (tcpOutgoing S) then myAddress S' src = myAddress S src else \<exists>b. myAddress S' src = Some (sock_name N b))"
proof -
  define T where "T = (if tcpOutgoing S dst = None then ConnectTCP N src dst S else S)"
  have T: "conn_ok T" "live T" "\<And>a. stream_to T a = stream_to S a"
    using S N conn_ok_connect [OF S(1), of N src dst]
    by (auto simp: T_def live_def conn_ok_def stream_to_def ConnectTCP_def Let_def net_ok_def split: option.splits)
  obtain b where b: "tcpOutgoing T dst = Some b" using N by (cases "tcpOutgoing S dst") (auto simp: T_def ConnectTCP_def Let_def net_ok_def)
  have same: "same_routes S T" "if dst \<in> dom (tcpOutgoing S) then myAddress T src = myAddress S src else \<exists>b. myAddress T src = Some (sock_name N b)"
    using N by (auto simp: T_def same_routes_def ConnectTCP_def Let_def net_ok_def)
  let ?S' = "T\<lparr> bev_output := (bev_output T)(b := bev_output T b @ frame m) \<rparr>"
  have own: "tcpOutgoing T a = Some b \<longleftrightarrow> a = dst" for a using T(1) b unfolding conn_ok_def by (metis option.inject)
  have "SendMessageInternal N src dst m S = Inr (True, ?S')"
    using N T(2) b m by (simp add: SendMessageInternal_def Let_def T_def [symmetric] live_def serialize_iff net_ok_def iffD2 [OF serialize_iff])
  moreover have "b < next_bev T" using T(1) b by (simp add: conn_ok_def)
  then have "conn_ok ?S'" "live ?S'" using T(1,2) b by (auto simp: conn_ok_def live_def dest: leD)
  moreover have "stream_to ?S' a = stream_to S a @ (if a = dst then frame m else [])" for a
    using T(3) [of a] own [of a] by (auto simp: stream_to_def b split: option.splits)
  moreover have "same_routes S ?S'" "dom (tcpOutgoing ?S') = insert dst (dom (tcpOutgoing S))" using same(1) b N by (auto simp: same_routes_def T_def ConnectTCP_def Let_def net_ok_def split: if_splits)
  ultimately show ?thesis using same(2) by (intro exI [of _ ?S']) simp
qed

section \<open>Broadcasts\<close>

definition targets :: "'a option \<Rightarrow> (nat \<times> 'a) list \<Rightarrow> 'a set" where
  "targets own as = {a \<in> snd ` set as. own \<noteq> Some a}"

lemma targets_simps [simp]: "targets own [] = {}" "targets own ((i, a) # as) = (if own = Some a then targets own as else insert a (targets own as))"
  by (auto simp: targets_def)

lemma send_all_ok:
  assumes N: "net_ok N" and m: "snd m \<noteq> []"
  shows "conn_ok S \<Longrightarrow> live S \<Longrightarrow> distinct (map snd as) \<Longrightarrow> \<exists>S'. send_all N src own m as S = Inr (True, S') \<and> conn_ok S' \<and> live S' \<and> same_routes S S' \<and>
    targets own as \<subseteq> dom (tcpOutgoing S') \<and> (\<forall>a. stream_to S' a = stream_to S a @ (if a \<in> targets own as then frame m else [])) \<and>
    (if targets own as \<subseteq> dom (tcpOutgoing S) then myAddress S' src = myAddress S src else \<exists>b. myAddress S' src = Some (sock_name N b))"
proof (induction "as" arbitrary: S)
  case Nil
  then show ?case by (simp add: same_routes_def)
next
  case (Cons e as)
  obtain i a where e: "e = (i, a)" by (cases e)
  show ?case
  proof (cases "own = Some a")
    case True
    then show ?thesis using Cons.IH [OF Cons.prems(1,2)] Cons.prems(3) by (auto simp: e)
  next
    case False
    obtain T where T: "SendMessageInternal N src a m S = Inr (True, T)" "conn_ok T" "live T" "same_routes S T" "dom (tcpOutgoing T) = insert a (dom (tcpOutgoing S))"
        "\<And>x. stream_to T x = stream_to S x @ (if x = a then frame m else [])"
        "if a \<in> dom (tcpOutgoing S) then myAddress T src = myAddress S src else \<exists>b. myAddress T src = Some (sock_name N b)"
      using send_ok [OF N Cons.prems(1,2) m, of src a] by auto
    have d: "distinct (map snd as)" "a \<notin> snd ` set as" using Cons.prems(3) by (auto simp: e)
    obtain U where U: "send_all N src own m as T = Inr (True, U)" "conn_ok U" "live U" "same_routes T U" "targets own as \<subseteq> dom (tcpOutgoing U)"
        "\<And>x. stream_to U x = stream_to T x @ (if x \<in> targets own as then frame m else [])"
        "if targets own as \<subseteq> dom (tcpOutgoing T) then myAddress U src = myAddress T src else \<exists>b. myAddress U src = Some (sock_name N b)"
      using Cons.IH [OF T(2,3) d(1)] by auto
    have dom: "dom (tcpOutgoing S) \<subseteq> dom (tcpOutgoing T)" "a \<in> dom (tcpOutgoing U)" using T(4,5) U(4) by (auto simp: same_routes_def)
    have set: "targets own (e # as) = insert a (targets own as)" "a \<notin> targets own as" using False d(2) by (auto simp: e targets_def)
    have ad: "if targets own (e # as) \<subseteq> dom (tcpOutgoing S) then myAddress U src = myAddress S src else \<exists>b. myAddress U src = Some (sock_name N b)"
      unfolding set(1) using T(5,7) U(7) by (cases "a \<in> dom (tcpOutgoing S)") (auto simp: insert_absorb split: if_splits)
    have st: "stream_to U x = stream_to S x @ (if x \<in> targets own (e # as) then frame m else [])" for x
      unfolding set(1) using T(6) [of x] U(6) [of x] set(2) by auto
    have sub: "targets own (e # as) \<subseteq> dom (tcpOutgoing U)" unfolding set(1) using dom(2) U(5) by simp
    have run: "send_all N src own m (e # as) S = Inr (True, U)" using T(1) U(1) False by (simp add: e)
    show ?thesis by (rule exI [of _ U]) (intro conjI run U(2,3) same_routes_trans [OF T(4) U(4)] sub allI st ad)
  qed
qed

text \<open>The names of all replicas resolve, and the addresses kept are theirs.\<close>

definition address_list :: "'a net \<Rightarrow> Configuration \<Rightarrow> (nat \<times> 'a) list" where
  "address_list N cfg = map (\<lambda>i. (i, the (resolve N (cfg_replicas cfg ! i)))) [0..<cfg_n cfg]"

definition cfg_ok :: "'a net \<Rightarrow> Configuration \<Rightarrow> bool" where
  "cfg_ok N cfg \<longleftrightarrow> cfg_n cfg = length (cfg_replicas cfg) \<and> (\<forall>ra\<in>set (cfg_replicas cfg). resolve N ra \<noteq> None)"

definition routes_ok :: "'a net \<Rightarrow> 'a TCPTransport \<Rightarrow> bool" where
  "routes_ok N S \<longleftrightarrow> (\<forall>cfg\<in>set (canonicalConfigs S). cfg_ok N cfg) \<and> (\<forall>r cfg. configurations S r = Some cfg \<longrightarrow> cfg \<in> set (canonicalConfigs S)) \<and>
     (replicaAddressesInitialized S \<longrightarrow> multicastAddresses S = Map.empty \<and> (\<forall>cfg\<in>set (canonicalConfigs S). replicaAddresses S cfg = address_list N cfg))"

lemma lookup_replicas_ok:
  "cfg_ok N cfg \<Longrightarrow> \<forall>i\<in>set is. i < cfg_n cfg \<Longrightarrow> lookup_replicas N cfg is = Inr (map (\<lambda>i. (i, the (resolve N (cfg_replicas cfg ! i)))) is)"
proof (induction "is")
  case (Cons i "is")
  have "resolve N (cfg_replicas cfg ! i) \<noteq> None" "i < length (cfg_replicas cfg)" using Cons.prems by (auto simp: cfg_ok_def)
  then show ?case using Cons by (auto simp: LookupAddress_def vec_at_def)
qed simp

lemma lookup_configs_ok:
  "\<forall>cfg\<in>set cfgs. cfg_ok N cfg \<Longrightarrow> lookup_configs N cfgs S = Inr (S\<lparr> replicaAddresses := \<lambda>cfg. if cfg \<in> set cfgs then address_list N cfg else replicaAddresses S cfg \<rparr>)"
proof (induction cfgs arbitrary: S)
  case (Cons cfg cfgs)
  have "lookup_replicas N cfg [0..<cfg_n cfg] = Inr (address_list N cfg)" using Cons.prems lookup_replicas_ok [of N cfg "[0..<cfg_n cfg]"] by (simp add: address_list_def)
  then show ?case using Cons by (auto simp: LookupMulticastAddress_def Let_def fun_eq_iff split: option.splits)
qed simp

lemma with_addresses_ok:
  assumes "routes_ok N S"
  shows "\<exists>S1. with_addresses N S = Inr S1 \<and> replicaAddressesInitialized S1 \<and> routes_ok N S1 \<and> configurations S1 = configurations S \<and>
    tcpOutgoing S1 = tcpOutgoing S \<and> bev_output S1 = bev_output S \<and> myAddress S1 = myAddress S \<and> (conn_ok S1 \<longleftrightarrow> conn_ok S) \<and> (live S1 \<longleftrightarrow> live S)"
proof (cases "replicaAddressesInitialized S")
  case False
  let ?S1 = "S\<lparr> replicaAddresses := \<lambda>cfg. if cfg \<in> set (canonicalConfigs S) then address_list N cfg else [], multicastAddresses := Map.empty, replicaAddressesInitialized := True \<rparr>"
  have "\<forall>cfg\<in>set (canonicalConfigs S). cfg_ok N cfg" using assms by (simp add: routes_ok_def)
  then have "with_addresses N S = Inr ?S1" using False lookup_configs_ok [of "canonicalConfigs S" N] by (simp add: with_addresses_def LookupAddresses_def cong: if_cong)
  then show ?thesis using assms by (intro exI [of _ ?S1]) (simp add: routes_ok_def conn_ok_def live_def)
qed (use assms in \<open>simp add: with_addresses_def\<close>)

definition replica_addresses :: "'a net \<Rightarrow> Configuration \<Rightarrow> 'a set" where
  "replica_addresses N cfg = (\<lambda>ra. the (resolve N ra)) ` set (cfg_replicas cfg)"

lemma address_list_set: "cfg_ok N cfg \<Longrightarrow> snd ` set (address_list N cfg) = replica_addresses N cfg"
proof -
  assume ok: "cfg_ok N cfg"
  have "set (cfg_replicas cfg) = (!) (cfg_replicas cfg) ` {0..<cfg_n cfg}" using ok nth_image [of "cfg_n cfg" "cfg_replicas cfg"] by (simp add: cfg_ok_def)
  then show ?thesis by (simp add: address_list_def replica_addresses_def image_image)
qed

text \<open>A transport in order, with a registered server: its names resolve to different addresses and no connection has failed.\<close>

definition server_ok :: "'a net \<Rightarrow> nat \<Rightarrow> Configuration \<Rightarrow> 'a TCPTransport \<Rightarrow> bool" where
  "server_ok N src cfg S \<longleftrightarrow> net_ok N \<and> routes_ok N S \<and> conn_ok S \<and> live S \<and> configurations S src = Some cfg \<and> distinct (map snd (address_list N cfg))"

lemma broadcast_ok:
  assumes S: "server_ok N src cfg S" and own: "myAddress S src = Some own" and m: "snd m \<noteq> []"
  shows "\<exists>S'. SendMessageToAll N src m True S = Inr (True, S') \<and> server_ok N src cfg S' \<and>
    (\<forall>a. stream_to S' a = stream_to S a @ (if a \<in> replica_addresses N cfg - {own} then frame m else [])) \<and>
    (if replica_addresses N cfg - {own} \<subseteq> dom (tcpOutgoing S) then myAddress S' src = Some own else \<exists>b. myAddress S' src = Some (sock_name N b))"
proof -
  note s = S [unfolded server_ok_def]
  obtain S1 where S1: "with_addresses N S = Inr S1" "replicaAddressesInitialized S1" "routes_ok N S1" "configurations S1 = configurations S"
      "tcpOutgoing S1 = tcpOutgoing S" "bev_output S1 = bev_output S" "myAddress S1 = myAddress S" "conn_ok S1" "live S1"
    using with_addresses_ok [of N S] s by auto
  have cfg: "cfg \<in> set (canonicalConfigs S1)" "cfg_ok N cfg" using s S1(3,4) by (auto simp: routes_ok_def)
  have ra: "replicaAddresses S1 cfg = address_list N cfg" "multicastAddresses S1 cfg = None" using S1(2,3) cfg(1) by (auto simp: routes_ok_def)
  have t: "targets (Some own) (address_list N cfg) = replica_addresses N cfg - {own}" using address_list_set [OF cfg(2)] by (auto simp: targets_def)
  have st: "stream_to S1 = stream_to S" by (rule ext) (simp add: stream_to_def S1(5,6) split: option.split)
  obtain S' where S': "send_all N src (Some own) m (address_list N cfg) S1 = Inr (True, S')" "conn_ok S'" "live S'" "same_routes S1 S'"
      "\<forall>a. stream_to S' a = stream_to S1 a @ (if a \<in> replica_addresses N cfg - {own} then frame m else [])"
      "if replica_addresses N cfg - {own} \<subseteq> dom (tcpOutgoing S1) then myAddress S' src = myAddress S1 src else \<exists>b. myAddress S' src = Some (sock_name N b)"
    using send_all_ok [of N m S1 "address_list N cfg" src "Some own"] s S1(8,9) m unfolding t by blast
  have "SendMessageToAll N src m True S = Inr (True, S')" using s S1 own ra S'(1) by (simp add: SendMessageToAll_def)
  moreover have "routes_ok N S'" "configurations S' src = Some cfg" using S1(2,3,4) S'(4) s by (auto simp: routes_ok_def same_routes_def)
  ultimately show ?thesis using s S'(2,3,5,6) own S1(5,7) unfolding server_ok_def st by auto
qed


text \<open>
  The leader talks to itself: opening a connection replaces a server's address by that of the new socket, so the second broadcast
  no longer leaves the server out.  A leader of at least two replicas that sends two null commits from a fresh transport sends the
  second one to itself too, and a leader that receives a commit of its view fails.
\<close>

theorem leader_commits_to_itself:
  assumes S: "server_ok N src cfg S" "myAddress S src = Some own" "own \<in> replica_addresses N cfg" "snd m \<noteq> []"
    and other: "a \<in> replica_addresses N cfg" "a \<noteq> own" "tcpOutgoing S a = None" and names: "\<forall>b. sock_name N b \<notin> replica_addresses N cfg"
    and r: "rstatus r = STATUS_NORMAL" "AmLeader r"
  shows "\<exists>S1 S2. SendMessageToAll N src m True S = Inr (True, S1) \<and> SendMessageToAll N src m True S1 = Inr (True, S2) \<and>
    stream_to S1 own = stream_to S own \<and> stream_to S2 own = stream_to S own @ message_bytes (fst m) (snd m) \<and>
    HandleCommit A \<lparr> cm_view = rview r, cm_opnum = lastCommitted r \<rparr> r = Inl Panicked"
proof -
  have "\<not> replica_addresses N cfg - {own} \<subseteq> dom (tcpOutgoing S)" using other by auto
  from broadcast_ok [OF S(1,2,4)] this obtain S1 b where S1: "SendMessageToAll N src m True S = Inr (True, S1)" "server_ok N src cfg S1" "stream_to S1 own = stream_to S own" "myAddress S1 src = Some (sock_name N b)"
    by (auto simp del: Diff_subset_conv split: if_splits)
  obtain S2 where "SendMessageToAll N src m True S1 = Inr (True, S2)" "stream_to S2 own = stream_to S1 own @ frame m"
    using broadcast_ok [OF S1(2,4) S(4)] S(3) names by fastforce
  then show ?thesis using S1(1,3) r by (auto simp: HandleCommit_def)
qed

section \<open>Connections that fail\<close>

text \<open>When a connection cannot be opened, the sender goes on with the end of the map.\<close>

lemma failed_connection: "tcpOutgoing S dst = None \<Longrightarrow> \<not> connect_ok N (next_bev S) \<Longrightarrow> SendMessageInternal N src dst m S = Inl Out_of_bounds"
  by (simp add: SendMessageInternal_def ConnectTCP_def Let_def)

text \<open>After an error on an accepted connection its buffer event is freed and still in the map: the next message to that client is written to it.\<close>

lemma incoming_error_dangles:
  assumes "ev_error what" "snd m \<noteq> []"
  shows "SendMessage N src client m (TCPIncomingEventCallback (next_bev S) what (TCPAcceptCallback client S)) = Inl Out_of_bounds"
  using assms by (cases "serialize_message (fst m) (snd m)")
    (auto simp: SendMessage_def SendMessageInternal_def TCPIncomingEventCallback_def TCPAcceptCallback_def Let_def serialize_message_def)

section \<open>An example\<close>

definition demo_net :: "nat net" where
  "demo_net = \<lparr> resolve = (\<lambda>ra. Some (length (host ra))), bound_to = (\<lambda>ra. length (host ra)), connect_ok = (\<lambda>_. True), sock_name = (\<lambda>b. 100 + b), write_ok = (\<lambda>_ _. True) \<rparr>"

definition demo_cfg :: Configuration where
  "demo_cfg = \<lparr> cfg_n = 2, cfg_f = 0, cfg_replicas = [\<lparr>host = ''a'', port = ''1''\<rparr>, \<lparr>host = ''bb'', port = ''1''\<rparr>], cfg_multicast = None \<rparr>"

definition demo_server :: "nat TCPTransport" where
  "demo_server = (RegisterConfiguration 0 demo_cfg 0 TCPTransport_new)\<lparr> myAddress := [0 \<mapsto> 1] \<rparr>"

lemma demo_server_registered: "Register demo_net 0 demo_cfg 0 TCPTransport_new = Inr demo_server"
  by (simp add: Register_def demo_server_def demo_net_def demo_cfg_def vec_at_def RegisterConfiguration_def Let_def TCPTransport_new_def)

lemma demo_server_ok: "server_ok demo_net 0 demo_cfg demo_server" "myAddress demo_server 0 = Some 1"
  "replica_addresses demo_net demo_cfg = {1, 2}" "tcpOutgoing demo_server a = None"
proof -
  have "cfg_ok demo_net demo_cfg" by (simp add: cfg_ok_def demo_cfg_def demo_net_def)
  then have "routes_ok demo_net demo_server" by (simp add: routes_ok_def demo_server_def RegisterConfiguration_def Let_def TCPTransport_new_def)
  moreover have "address_list demo_net demo_cfg = [(0, 1), (1, 2)]" by (simp add: address_list_def demo_cfg_def demo_net_def upt_rec)
  moreover have "conn_ok demo_server" "live demo_server" by (simp_all add: conn_ok_def live_def demo_server_def RegisterConfiguration_def Let_def TCPTransport_new_def)
  ultimately show "server_ok demo_net 0 demo_cfg demo_server"
    by (simp add: server_ok_def net_ok_def demo_net_def) (simp add: demo_server_def RegisterConfiguration_def Let_def TCPTransport_new_def)
  show "myAddress demo_server 0 = Some 1" "replica_addresses demo_net demo_cfg = {1, 2}" "tcpOutgoing demo_server a = None"
    by (simp_all add: demo_server_def RegisterConfiguration_def Let_def TCPTransport_new_def replica_addresses_def demo_net_def demo_cfg_def eval_nat_numeral)
qed


theorem leader_commits_to_itself_witness:
  "\<exists>S1 S2. SendMessageToAll demo_net 0 (''Commit'', ''x'') True demo_server = Inr (True, S1) \<and> SendMessageToAll demo_net 0 (''Commit'', ''x'') True S1 = Inr (True, S2) \<and>
    stream_to S1 1 = [] \<and> stream_to S2 1 = message_bytes ''Commit'' ''x'' \<and>
    HandleCommit TimeStampServer \<lparr> cm_view = 0, cm_opnum = 0 \<rparr> (VRReplica_new demo_cfg 0 1 0) = Inl Panicked"
proof -
  let ?r = "VRReplica_new demo_cfg 0 1 (0 :: int)"
  have r: "rstatus ?r = STATUS_NORMAL" "AmLeader ?r" "rview ?r = 0" "lastCommitted ?r = 0" by (simp_all add: VRReplica_new_def AmLeader_def GetLeaderIndex_def Let_def demo_cfg_def)
  have "\<forall>b. sock_name demo_net b \<notin> replica_addresses demo_net demo_cfg" "stream_to demo_server 1 = []" using demo_server_ok(3,4) by (simp_all add: demo_net_def stream_to_def)
  then show ?thesis
    using leader_commits_to_itself [OF demo_server_ok(1,2), of "(''Commit'', ''x'')" 2 ?r TimeStampServer] r demo_server_ok(3,4) by simp
qed

end
