(* ===== verification/Timers.thy ===== *)
theory Timers
  imports Prelude
begin

text \<open>
  Timers of the transport (\<open>src/distributed/lib/tcptransport.cc\<close>: \<open>Timer\<close>, \<open>CancelTimer\<close>, \<open>CancelAllTimers\<close>, \<open>OnTimer\<close>) and the class
  \<open>Timeout\<close> over them (\<open>transport.cc\<close>), a timer that starts again whenever it fires.  libevent decides when a timer fires: any registered
  one can fire at any time.
\<close>

section \<open>Timers of the transport\<close>

record 'cb TimerInfo =
  ti_id :: int
  ti_cb :: 'cb
  ti_sec :: nat
  ti_usec :: nat

text \<open>\<open>timers\<close> is an ordered map to pointers; \<open>timers[id]\<close> enters a null pointer for an absent id.\<close>

record 'cb TCPTimers =
  lastTimerId :: int
  timers :: "(int \<times> 'cb TimerInfo option) list"

definition TCPTimers_new :: "'cb TCPTimers" where
  "TCPTimers_new = \<lparr> lastTimerId = 0, timers = [] \<rparr>"

text \<open>Ids are \<open>int\<close>: counting past the greatest one is an overflow.\<close>

definition Timer :: "nat \<Rightarrow> 'cb \<Rightarrow> 'cb TCPTimers \<Rightarrow> (int \<times> 'cb TCPTimers) result" where
  "Timer ms cb T = (if lastTimerId T = 2 ^ 31 - 1 then Inl Out_of_range else
     let tid = lastTimerId T + 1; info = \<lparr> ti_id = tid, ti_cb = cb, ti_sec = ms div 1000, ti_usec = ms mod 1000 * 1000 \<rparr>
     in Inr (tid, T\<lparr> lastTimerId := tid, timers := smap_set tid (Some info) (timers T) \<rparr>))"

definition erase_timer :: "int \<Rightarrow> 'cb TCPTimers \<Rightarrow> 'cb TCPTimers" where
  "erase_timer tid T = T\<lparr> timers := filter (\<lambda>e. fst e \<noteq> tid) (timers T) \<rparr>"

definition CancelTimer :: "int \<Rightarrow> 'cb TCPTimers \<Rightarrow> bool \<times> 'cb TCPTimers" where
  "CancelTimer tid T = (case map_of (timers T) tid of
     None \<Rightarrow> (False, T\<lparr> timers := smap_set tid None (timers T) \<rparr>)
   | Some None \<Rightarrow> (False, T)
   | Some (Some info) \<Rightarrow> (True, erase_timer (ti_id info) T))"

partial_function (option) CancelAllTimers :: "'cb TCPTimers \<Rightarrow> 'cb TCPTimers option" where
  "CancelAllTimers T = (if timers T = [] then Some T else CancelAllTimers (snd (CancelTimer (fst (hd (timers T))) T)))"

text \<open>\<open>OnTimer\<close> up to the call of the callback.\<close>

definition OnTimer :: "'cb TimerInfo \<Rightarrow> 'cb TCPTimers \<Rightarrow> 'cb TCPTimers" where
  "OnTimer info T = erase_timer (ti_id info) T"

section \<open>Timeouts\<close>

record Timeout =
  to_ms :: nat
  to_timerId :: int

definition Timeout_new :: "nat \<Rightarrow> Timeout" where
  "Timeout_new ms = \<lparr> to_ms = ms, to_timerId = 0 \<rparr>"

text \<open>The callback of a timer is the timeout it belongs to.\<close>

definition Timeout_Active :: "Timeout \<Rightarrow> bool" where
  "Timeout_Active x \<longleftrightarrow> to_timerId x \<noteq> 0"

definition Timeout_SetTimeout :: "nat \<Rightarrow> Timeout \<Rightarrow> Timeout result" where
  "Timeout_SetTimeout ms x = (if Timeout_Active x then Inl Panicked else Inr (x\<lparr>to_ms := ms\<rparr>))"

definition Timeout_Stop :: "Timeout \<Rightarrow> 'cb TCPTimers \<Rightarrow> Timeout \<times> 'cb TCPTimers" where
  "Timeout_Stop x T = (if to_timerId x > 0 then (x\<lparr>to_timerId := 0\<rparr>, snd (CancelTimer (to_timerId x) T)) else (x, T))"

definition Timeout_Reset :: "'cb \<Rightarrow> Timeout \<Rightarrow> 'cb TCPTimers \<Rightarrow> (nat \<times> Timeout \<times> 'cb TCPTimers) result" where
  "Timeout_Reset i x T = (case Timeout_Stop x T of (x, T) \<Rightarrow>
     rbind (Timer (to_ms x) i T) (\<lambda>(tid, T). Inr (to_ms x, x\<lparr>to_timerId := tid\<rparr>, T)))"

definition Timeout_Start :: "'cb \<Rightarrow> Timeout \<Rightarrow> 'cb TCPTimers \<Rightarrow> (nat \<times> Timeout \<times> 'cb TCPTimers) result" where
  "Timeout_Start i x T = Timeout_Reset i x T"

text \<open>The function given to \<open>Timer\<close>, up to the call of the timeout's own callback.\<close>

definition Timeout_fired :: "'cb \<Rightarrow> Timeout \<Rightarrow> 'cb TCPTimers \<Rightarrow> (nat \<times> Timeout \<times> 'cb TCPTimers) result" where
  "Timeout_fired i x T = Timeout_Reset i (x\<lparr>to_timerId := 0\<rparr>) T"

section \<open>A transport with its timeouts\<close>

text \<open>What a callback does with timeouts are further steps.\<close>

record timer_world =
  tw_timers :: "nat TCPTimers"
  tw_timeouts :: "nat \<Rightarrow> Timeout"

inductive timer_step :: "timer_world \<Rightarrow> timer_world \<Rightarrow> bool" where
  start: "Timeout_Start i (tw_timeouts W i) (tw_timers W) = Inr (ms, x, T) \<Longrightarrow>
    timer_step W (W\<lparr>tw_timers := T, tw_timeouts := (tw_timeouts W)(i := x)\<rparr>)"
| stop: "Timeout_Stop (tw_timeouts W i) (tw_timers W) = (x, T) \<Longrightarrow>
    timer_step W (W\<lparr>tw_timers := T, tw_timeouts := (tw_timeouts W)(i := x)\<rparr>)"
| set: "Timeout_SetTimeout ms (tw_timeouts W i) = Inr x \<Longrightarrow> timer_step W (W\<lparr>tw_timeouts := (tw_timeouts W)(i := x)\<rparr>)"
| fire: "(tid, Some info) \<in> set (timers (tw_timers W)) \<Longrightarrow> ti_cb info = i \<Longrightarrow>
    Timeout_fired i (tw_timeouts W i) (OnTimer info (tw_timers W)) = Inr (ms, x, T) \<Longrightarrow>
    timer_step W (W\<lparr>tw_timers := T, tw_timeouts := (tw_timeouts W)(i := x)\<rparr>)"

inductive timer_reachable :: "timer_world \<Rightarrow> bool" where
  init: "timer_reachable \<lparr>tw_timers = TCPTimers_new, tw_timeouts = \<lambda>i. Timeout_new (ms i)\<rparr>"
| step: "timer_reachable W \<Longrightarrow> timer_step W W' \<Longrightarrow> timer_reachable W'"

section \<open>One timer for each timeout\<close>

text \<open>
  \<open>timers_ok t T\<close>: the ids are in order and between 1 and the last one, every timer is stored under its id, and the timers of a timeout
  are the one its object names.
\<close>

definition timer_entry_ok :: "(nat \<Rightarrow> int) \<Rightarrow> int \<Rightarrow> int \<times> nat TimerInfo option \<Rightarrow> bool" where
  "timer_entry_ok t n e \<longleftrightarrow> 0 < fst e \<and> fst e \<le> n \<and> (\<exists>info. snd e = Some info \<and> ti_id info = fst e \<and> t (ti_cb info) = fst e)"

definition has_timer :: "nat TCPTimers \<Rightarrow> nat \<Rightarrow> int \<Rightarrow> bool" where
  "has_timer T i tid \<longleftrightarrow> (\<exists>info. (tid, Some info) \<in> set (timers T) \<and> ti_cb info = i)"

definition timers_ok :: "(nat \<Rightarrow> int) \<Rightarrow> nat TCPTimers \<Rightarrow> bool" where
  "timers_ok t T \<longleftrightarrow> sorted_wrt (<) (map fst (timers T)) \<and> 0 \<le> lastTimerId T \<and> (\<forall>e\<in>set (timers T). timer_entry_ok t (lastTimerId T) e) \<and>
     (\<forall>i. 0 \<le> t i \<and> (t i \<noteq> 0 \<longrightarrow> has_timer T i (t i)))"

lemma timers_map_of: "timers_ok t T \<Longrightarrow> (tid, p) \<in> set (timers T) \<Longrightarrow> map_of (timers T) tid = Some p"
  by (simp add: timers_ok_def strict_sorted_iff)

lemma timers_ok_info: "timers_ok t T \<Longrightarrow> (tid, Some info) \<in> set (timers T) \<Longrightarrow> ti_id info = tid \<and> t (ti_cb info) = tid \<and> 0 < tid"
  by (force simp: timers_ok_def timer_entry_ok_def)

lemma timers_ok_inj: "timers_ok t T \<Longrightarrow> t i = t j \<Longrightarrow> t i \<noteq> 0 \<Longrightarrow> i = j"
proof -
  assume ok: "timers_ok t T" and ij: "t i = t j" "t i \<noteq> 0"
  obtain a b where "(t i, Some a) \<in> set (timers T)" "ti_cb a = i" "(t j, Some b) \<in> set (timers T)" "ti_cb b = j"
    using ok ij unfolding timers_ok_def has_timer_def by metis
  then show ?thesis using timers_map_of [OF ok] ij(1) by (metis option.inject)
qed

lemma timer_entry_ok_upd: "timer_entry_ok t n e \<Longrightarrow> fst e \<noteq> t i \<Longrightarrow> n \<le> n' \<Longrightarrow> timer_entry_ok (t(i := k)) n' e"
  by (auto simp: timer_entry_ok_def)

lemma timers_ok_erase:
  assumes ok: "timers_ok t T" and i: "t i \<noteq> 0"
  shows "timers_ok (t(i := 0)) (erase_timer (t i) T)"
proof -
  have "timer_entry_ok (t(i := 0)) (lastTimerId T) e" if "e \<in> set (timers (erase_timer (t i) T))" for e
    using ok that by (intro timer_entry_ok_upd [of t "lastTimerId T"]) (simp_all add: timers_ok_def erase_timer_def)
  moreover have "has_timer (erase_timer (t i) T) j (t j)" if j: "j \<noteq> i" "t j \<noteq> 0" for j
    using ok j timers_ok_inj [OF ok _ j(2), of i] unfolding timers_ok_def has_timer_def by (auto simp: erase_timer_def)
  moreover have "sorted_wrt (<) (map fst (timers (erase_timer (t i) T)))" "lastTimerId (erase_timer (t i) T) = lastTimerId T"
    using ok by (simp_all add: timers_ok_def erase_timer_def sorted_wrt_filter sorted_wrt_map)
  ultimately show ?thesis using ok by (simp add: timers_ok_def)
qed

lemma set_smap_new: "k \<notin> fst ` set m \<Longrightarrow> set (smap_set k v m) = insert (k, v) (set m)"
  by (induction k v m rule: smap_set.induct) auto

lemma timers_ok_Timer:
  assumes ok: "timers_ok t T" and i: "t i = 0" and T': "Timer ms i T = Inr (tid, T')"
  shows "timers_ok (t(i := tid)) T'"
proof -
  define info where "info = \<lparr> ti_id = tid, ti_cb = i, ti_sec = ms div 1000, ti_usec = ms mod 1000 * 1000 \<rparr>"
  have t: "tid = lastTimerId T + 1" "T' = T\<lparr> lastTimerId := tid, timers := smap_set tid (Some info) (timers T) \<rparr>"
    using T' by (auto simp: Timer_def Let_def info_def split: if_splits)
  have n: "0 \<le> lastTimerId T" using ok by (simp add: timers_ok_def)
  have old: "0 < fst e \<and> fst e \<le> lastTimerId T" if "e \<in> set (timers T)" for e using ok that by (simp add: timers_ok_def timer_entry_ok_def)
  then have "tid \<notin> fst ` set (timers T)" using t(1) by force
  then have s: "set (timers T') = insert (tid, Some info) (set (timers T))" using t(2) by (simp add: set_smap_new)
  have "timer_entry_ok (t(i := tid)) tid (tid, Some info)" using n t(1) by (simp add: timer_entry_ok_def info_def)
  moreover have "timer_entry_ok (t(i := tid)) tid e" if "e \<in> set (timers T)" for e
    using ok i t(1) that old [OF that] by (intro timer_entry_ok_upd [of t "lastTimerId T"]) (simp_all add: timers_ok_def)
  moreover have "has_timer T' i tid" using s by (auto simp: has_timer_def info_def)
  moreover have "has_timer T' j (t j)" if "t j \<noteq> 0" for j using ok that s unfolding timers_ok_def has_timer_def by (metis insertCI)
  moreover have "sorted_wrt (<) (map fst (timers T'))" "lastTimerId T' = tid" using ok t(2) by (simp_all add: timers_ok_def sorted_smap_set)
  ultimately show ?thesis using ok n t(1) s by (simp add: timers_ok_def)
qed

lemma Stop_ok:
  assumes "timers_ok t T" "to_timerId x = t i" "Timeout_Stop x T = (x', T')"
  shows "timers_ok (t(i := 0)) T' \<and> to_timerId x' = 0"
proof (cases "t i = 0")
  case True
  then show ?thesis using assms by (auto simp: Timeout_Stop_def fun_upd_idem)
next
  case False
  then obtain info where "(t i, Some info) \<in> set (timers T)" using assms(1) unfolding timers_ok_def has_timer_def by metis
  note info = this timers_ok_info [OF assms(1) this]
  then have "snd (CancelTimer (t i) T) = erase_timer (t i) T" using timers_map_of [OF assms(1) info(1)] by (simp add: CancelTimer_def)
  then show ?thesis using timers_ok_erase [OF assms(1) False] assms(2,3) info(2) by (auto simp: Timeout_Stop_def)
qed

lemma Reset_ok:
  assumes "timers_ok t T" "to_timerId x = t i" "Timeout_Reset i x T = Inr (ms, x', T')"
  shows "timers_ok (t(i := to_timerId x')) T'"
proof -
  obtain y U where s: "Timeout_Stop x T = (y, U)" by fastforce
  have u: "timers_ok (t(i := 0)) U" using Stop_ok [OF assms(1,2) s] by simp
  obtain tid where "Timer (to_ms y) i U = Inr (tid, T')" "x' = y\<lparr>to_timerId := tid\<rparr>" using assms(3) s by (auto simp: Timeout_Reset_def rbind_Inr_iff)
  then show ?thesis using timers_ok_Timer [OF u, of i "to_ms y" tid T'] by simp
qed

definition timer_ids :: "timer_world \<Rightarrow> nat \<Rightarrow> int" where
  "timer_ids W i = to_timerId (tw_timeouts W i)"

lemma timer_ids_upd: "timer_ids (W\<lparr>tw_timers := T, tw_timeouts := (tw_timeouts W)(i := x)\<rparr>) = (timer_ids W)(i := to_timerId x)"
  "timer_ids (W\<lparr>tw_timeouts := (tw_timeouts W)(i := x)\<rparr>) = (timer_ids W)(i := to_timerId x)"
  by (auto simp: timer_ids_def)

lemma reachable_timers_ok: "timer_reachable W \<Longrightarrow> timers_ok (timer_ids W) (tw_timers W)"
proof (induction rule: timer_reachable.induct)
  case (init ms)
  show ?case by (simp add: timers_ok_def TCPTimers_new_def Timeout_new_def timer_ids_def)
next
  case (step W W')
  let ?t = "timer_ids W"
  have own: "to_timerId (tw_timeouts W i) = ?t i" for i by (simp add: timer_ids_def)
  show ?case using step.hyps(2)
  proof cases
    case (start i ms x T)
    show ?thesis unfolding start(1) timer_ids_upd using Reset_ok [OF step.IH own start(2) [unfolded Timeout_Start_def]] by (simp add: fun_upd_def)
  next
    case (stop i x T)
    show ?thesis unfolding stop(1) timer_ids_upd using Stop_ok [OF step.IH own stop(2)] by (simp add: fun_upd_def)
  next
    case (set ms i x)
    have "to_timerId x = ?t i" using set(2) own by (auto simp: Timeout_SetTimeout_def split: if_splits)
    then show ?thesis unfolding set(1) timer_ids_upd using step.IH by (simp add: fun_upd_idem)
  next
    case (fire tid info i ms x T)
    have i: "?t i = tid" "ti_id info = tid" "?t i \<noteq> 0" using timers_ok_info [OF step.IH fire(2)] fire(3) by simp_all
    have "timers_ok (?t(i := 0)) (OnTimer info (tw_timers W))" using timers_ok_erase [OF step.IH i(3)] i(1,2) by (simp add: OnTimer_def)
    from Reset_ok [OF this, of "(tw_timeouts W i)\<lparr>to_timerId := 0\<rparr>" i ms x T] fire(4)
    show ?thesis unfolding fire(1) timer_ids_upd by (simp add: Timeout_fired_def fun_upd_def cong: if_cong)
  qed
qed

section \<open>Cancelling all timers\<close>

text \<open>Without null entries the loop ends; an entry left by \<open>CancelTimer\<close> for an unknown id keeps it running.\<close>

lemma CancelAllTimers_ends:
  assumes "\<forall>(tid, p)\<in>set (timers T). \<exists>info. p = Some info \<and> ti_id info = tid"
  shows "CancelAllTimers T = Some (T\<lparr>timers := []\<rparr>)"
  using assms
proof (induction "length (timers T)" arbitrary: T rule: less_induct)
  case less
  show ?case
  proof (cases "timers T")
    case Nil
    then show ?thesis by (subst CancelAllTimers.simps) simp
  next
    case (Cons e es)
    obtain tid info where e: "e = (tid, Some info)" "ti_id info = tid" using less.prems Cons by (cases e) auto
    let ?T = "erase_timer tid T"
    have "snd (CancelTimer (fst (hd (timers T))) T) = ?T" by (simp add: CancelTimer_def Cons e)
    then have "CancelAllTimers T = CancelAllTimers ?T" using Cons by (subst CancelAllTimers.simps) simp
    also have "\<dots> = Some (?T\<lparr>timers := []\<rparr>)"
    proof (rule less.hyps)
      show "length (timers ?T) < length (timers T)" using Cons e le_imp_less_Suc [OF length_filter_le] by (simp add: erase_timer_def)
      show "\<forall>(tid, p)\<in>set (timers ?T). \<exists>info. p = Some info \<and> ti_id info = tid" using less.prems by (auto simp: erase_timer_def)
    qed
    finally show ?thesis by (simp add: erase_timer_def)
  qed
qed

definition ids_ok :: "'cb TCPTimers \<Rightarrow> bool" where
  "ids_ok T \<longleftrightarrow> distinct (map fst (timers T)) \<and> (\<forall>(tid, p)\<in>set (timers T). \<forall>info. p = Some info \<longrightarrow> ti_id info = tid)"

lemma ids_ok_erase: "ids_ok T \<Longrightarrow> ids_ok (erase_timer tid T)"
  by (auto simp: ids_ok_def erase_timer_def distinct_map_filter)

lemma CancelAllTimers_null: "ids_ok T \<Longrightarrow> (tid, None) \<in> set (timers T) \<Longrightarrow> CancelAllTimers T = None"
proof -
  have "ids_ok T \<longrightarrow> (tid, None) \<notin> set (timers T)" if "CancelAllTimers T = Some y" for T :: "'a TCPTimers" and y
  proof (rule CancelAllTimers.raw_induct [of "\<lambda>T y. ids_ok T \<longrightarrow> (tid, None) \<notin> set (timers T)", OF _ that], goal_cases)
    case (1 f T y)
    show ?case
    proof (cases "timers T")
      case (Cons e es)
      obtain k p where e: "e = (k, p)" by (cases e)
      let ?T = "snd (CancelTimer k T)"
      have rec: "f ?T = Some y" using 1(2) Cons e by simp
      have head: "map_of (timers T) k = Some p" using Cons e by simp
      show ?thesis
      proof (cases p)
        case None
        then have "?T = T" using head by (simp add: CancelTimer_def)
        then show ?thesis using 1(1) [OF rec] by simp
      next
        case (Some info)
        have "ids_ok T \<Longrightarrow> ?T = erase_timer k T" using head Some Cons e by (auto simp: CancelTimer_def ids_ok_def)
        moreover have "ids_ok T \<Longrightarrow> (k, None) \<notin> set es" using Cons e by (force simp: ids_ok_def)
        ultimately show ?thesis using 1(1) [OF rec] ids_ok_erase [of T k] Cons e Some by (auto simp: erase_timer_def)
      qed
    qed simp
  qed
  then show "ids_ok T \<Longrightarrow> (tid, None) \<in> set (timers T) \<Longrightarrow> CancelAllTimers T = None" by (cases "CancelAllTimers T") auto
qed

text \<open>So cancelling an id that is not in use makes \<open>CancelAllTimers\<close> run for ever.\<close>

lemma CancelTimer_unknown: "ids_ok T \<Longrightarrow> map_of (timers T) tid = None \<Longrightarrow> CancelAllTimers (snd (CancelTimer tid T)) = None"
proof (rule CancelAllTimers_null [of _ tid])
  assume ok: "ids_ok T" and new: "map_of (timers T) tid = None"
  have tid: "tid \<notin> fst ` set (timers T)" using new by (simp add: map_of_eq_None_iff)
  then have s: "set (timers (snd (CancelTimer tid T))) = insert (tid, None) (set (timers T))" using new by (simp add: CancelTimer_def set_smap_new)
  then show "(tid, None) \<in> set (timers (snd (CancelTimer tid T)))" by simp
  have "distinct (map fst (smap_set tid v m))" if "distinct (map fst m)" "tid \<notin> fst ` set m" for v :: "'a TimerInfo option" and m
    using that by (induction tid v m rule: smap_set.induct) (auto simp: keys_smap_set)
  then show "ids_ok (snd (CancelTimer tid T))" using ok new tid s by (auto simp: ids_ok_def CancelTimer_def)
qed

section \<open>Property\<close>

text \<open>
  C35: a timeout never has two timers: whatever timeouts are started, stopped, set and fire, in any order, a timeout has exactly the one timer its
  object names while it is active and none otherwise, and cancelling all timers ends and leaves none.
\<close>

theorem timeout_one_timer:
  assumes "timer_reachable W"
  shows "{tid. has_timer (tw_timers W) i tid} = (if Timeout_Active (tw_timeouts W i) then {to_timerId (tw_timeouts W i)} else {}) \<and>
    CancelAllTimers (tw_timers W) = Some ((tw_timers W)\<lparr>timers := []\<rparr>)"
proof (rule conjI)
  note ok = reachable_timers_ok [OF assms]
  have "tid = timer_ids W i \<and> tid \<noteq> 0" if "has_timer (tw_timers W) i tid" for tid using that timers_ok_info [OF ok] by (force simp: has_timer_def)
  moreover have "has_timer (tw_timers W) i (timer_ids W i)" if "timer_ids W i \<noteq> 0" using ok that by (simp add: timers_ok_def)
  ultimately show "{tid. has_timer (tw_timers W) i tid} = (if Timeout_Active (tw_timeouts W i) then {to_timerId (tw_timeouts W i)} else {})"
    by (auto simp: Timeout_Active_def timer_ids_def)
  show "CancelAllTimers (tw_timers W) = Some ((tw_timers W)\<lparr>timers := []\<rparr>)"
    using ok by (intro CancelAllTimers_ends) (force simp: timers_ok_def timer_entry_ok_def)
qed

text \<open>Timeout 3 is started and fires once.\<close>

definition demo_timer :: "int \<Rightarrow> nat TimerInfo" where
  "demo_timer tid = \<lparr> ti_id = tid, ti_cb = 3, ti_sec = 2, ti_usec = 500000 \<rparr>"

definition demo_timers :: "int \<Rightarrow> timer_world" where
  "demo_timers tid = \<lparr> tw_timers = \<lparr> lastTimerId = tid, timers = [(tid, Some (demo_timer tid))] \<rparr>,
     tw_timeouts = (\<lambda>i. Timeout_new 2500)(3 := \<lparr> to_ms = 2500, to_timerId = tid \<rparr>) \<rparr>"

lemma demo_timers_reachable: "timer_reachable (demo_timers 2)"
proof -
  let ?W0 = "\<lparr>tw_timers = TCPTimers_new, tw_timeouts = \<lambda>i. Timeout_new 2500\<rparr>"
  have "timer_step ?W0 (demo_timers 1)"
    using timer_step.start [of 3 ?W0 2500 "\<lparr> to_ms = 2500, to_timerId = 1 \<rparr>" "tw_timers (demo_timers 1)"]
    by (simp add: demo_timers_def demo_timer_def Timeout_Start_def Timeout_Reset_def Timeout_Stop_def Timeout_new_def TCPTimers_new_def Timer_def)
  moreover have "timer_step (demo_timers 1) (demo_timers 2)"
    using timer_step.fire [of 1 "demo_timer 1" "demo_timers 1" 3 2500 "\<lparr> to_ms = 2500, to_timerId = 2 \<rparr>" "tw_timers (demo_timers 2)"]
    by (simp add: demo_timers_def demo_timer_def Timeout_fired_def Timeout_Reset_def Timeout_Stop_def Timer_def OnTimer_def erase_timer_def)
  ultimately show ?thesis using timer_reachable.init [of "\<lambda>i. 2500"] timer_reachable.step by blast
qed

theorem timeout_one_timer_witness:
  "{tid. has_timer (tw_timers (demo_timers 2)) 3 tid} = {2} \<and> {tid. has_timer (tw_timers (demo_timers 2)) 0 tid} = {}"
  using timeout_one_timer [OF demo_timers_reachable, of 3] timeout_one_timer [OF demo_timers_reachable, of 0]
  by (simp add: demo_timers_def Timeout_Active_def Timeout_new_def)

end
