(* ===== verification/Spec2Isabelle.thy ===== *)
theory Spec2Isabelle
  imports Ledger_Types SQL_Ledger VR_Properties VR_Client Txn_Client LedgerDB_Properties Key_Lock TCP_Transport Timers
begin

text \<open>
  LedgerDatabase: verifiable ledgers and a replicated transaction store over them.

  \<^bold>\<open>The program.\<close>  \<open>src/ledger\<close> has three ledger databases over RocksDB: LedgerDB (\<open>ledgerdb\<close>), a model of
  Amazon QLDB (\<open>qldb\<close>) and a model of the Microsoft SQL ledger (\<open>sqlledger\<close>), with common parts in
  \<open>common\<close>.  \<open>src/distributed\<close> has a transaction server that keeps its data in one of them
  (\<open>store/strongstore\<close>, \<open>exes/strong-server.cc\<close>), behind viewstamped replication (\<open>replication\<close>),
  and its clients.

  \<^bold>\<open>Conventions.\<close>  Bytes and strings are \<^typ>\<open>string\<close>; a hash or a chunk is an optional string, \<^const>\<open>None\<close> being
  the null pointer.  An operation that can throw, fail an assertion, read out of bounds or wait for
  ever returns \<open>cpp_error + 'a\<close>; a loop that may run forever returns an option.  64-bit arithmetic is written out with
  \<open>mod 2 ^ 64\<close> or done in \<open>64 word\<close>.  Code outside the repository is a parameter: the record \<open>ext\<close> of
  \<open>Store\<close> holds BLAKE2b and RocksDB, with \<open>ext_ok\<close> for what is relied on (a digest has 64 bytes, a read
  returns the last write); SHA-1, protobuf encoding, the time of day, random numbers and the RocksDB
  iterator are further arguments.  The examples run on a store that is a map and a small hash function.

  \<^bold>\<open>Theories.\<close>
  \<^item> \<open>Prelude\<close>: errors, decimal numbers, little-endian fields, \<open>substr\<close>, \<open>stoul\<close>, shared lemmas.
  \<^item> \<open>Hashes\<close>, \<open>Store\<close>: \<open>common/hash\<close>, \<open>slice\<close>, \<open>chunk\<close>, \<open>utils\<close> and \<open>db.h\<close> with its two caches.
  \<^item> \<open>Hash_Tree\<close>: the abstract hash tree over a list of leaves that the ledgers implement.
  \<^item> \<open>Merkle_Tree\<close>, \<open>Ledger_Types\<close>: \<open>ledgerdb/merkletree.cc\<close> and \<open>types.h\<close>.  Any history of updates computes the
    root of the hash tree; every proof read for a leaf verifies; an accepted proof carries the leaf.
  \<^item> \<open>Skip_List\<close>: \<open>ledgerdb/skiplist\<close>, the versions of a key; whatever the random levels, it is an association list.
  \<^item> \<open>MPT\<close>, \<open>Patricia\<close>, \<open>MPT_Nodes\<close>, \<open>MPT_Correct\<close>, \<open>MPT_Properties\<close>: \<open>ledgerdb/mpt\<close>, the Merkle Patricia trie with its node
    layouts, delta, removal and proofs; the abstract trie it stands for, the chunks of its nodes, and the simulation of the
    operations.  It is a map and its store is well typed; proofs verify, but for any key.
  \<^item> \<open>LedgerDB\<close>, \<open>LedgerDB_Frame\<close>, \<open>LedgerDB_Correct\<close>, \<open>LedgerDB_Properties\<close>: \<open>ledgerdb.cc\<close>, the ledger over tree, trie and skip lists; one
    pass of the builder thread's loop is one step between the calls.  What each part leaves alone in the shared store, the invariant
    of the ledger, and from it: reads return the latest write and all proofs verify, but the audit accepts forged blocks.
  \<^item> \<open>Key_Lock\<close>: the lock manager of \<open>ledgerdb.h\<close>, with the threads that use it as a step relation; mutual exclusion.
  \<^item> \<open>Txn_Log\<close>: \<open>common/logger\<close>, entries and the write-ahead log with its index.
  \<^item> \<open>QL_BTree_Node\<close>, \<open>QL_BTree\<close>, \<open>QL_BTree_Correct\<close>: QLDB's copy-on-write B+ tree (\<open>qldb/ql_btree*\<close>), its node
    layouts, insertion with splits, commit of a delta; it implements a map.
  \<^item> \<open>QL_Node\<close>, \<open>QL_DB\<close>, \<open>QL_Ledger\<close>: documents, blocks and \<open>qldb.cc\<close>.  After any history of \<open>Set\<close> the digest is
    the root over all blocks, every document has a proof that verifies, reads return the latest version.
  \<^item> \<open>SQL_Merkle\<close>, \<open>SQL_Ledger\<close>: \<open>sqlledger\<close>.  The client thread and the builder thread are the steps of a
    transition relation; in every reachable state block and transaction proofs verify.
  \<^item> \<open>Txn_Types\<close>, \<open>Strong_Proto\<close>: timestamps, transactions, TrueTime, shard hash, requests and replies.
  \<^item> \<open>OCC_Store\<close>, \<open>Strong_Server\<close>: optimistic concurrency control and the server's upcalls and loaders.  Prepared
    transactions never conflict and stay isolated until they are decided.
  \<^item> \<open>VR_Log\<close>, \<open>VR_Replica\<close>, \<open>VR_Safety\<close>, \<open>VR_App\<close>, \<open>VR_Properties\<close>: configuration, log, quorums and the replica's
    handlers and timers (\<open>vr/replica.cc\<close>) as a step relation; what never moves back, in-order and
    at-most-once execution, state transfer, view change, and the servers behind a replica.
  \<^item> \<open>Version_Store\<close>: \<open>versionstore.cc\<close> with QLDB or the SQL ledger; a server over QLDB is a map with verifiable reads.
  \<^item> \<open>LedgerDB_Store\<close>: \<open>versionstore.cc\<close> as built for LedgerDB, with the same record of operations.
  \<^item> \<open>TCP_Frames\<close>, \<open>Timers\<close>, \<open>TCP_Transport\<close>: \<open>lib/transport\<close>, \<open>transportcommon\<close> and \<open>tcptransport\<close>.  The bytes of messages on a connection and their
    reading back in any pieces; timers and timeouts as a step relation; registration, routing and connections.
  \<^item> \<open>VR_Client\<close>: the client of the replication protocol (\<open>vr/client.cc\<close>); each request is answered at most once.
  \<^item> \<open>Shard_Client\<close>, \<open>Txn_Client\<close>: promises, \<open>shardclient.cc\<close>, \<open>bufferclient.cc\<close> and \<open>client.cc\<close> over a schedule of server
    answers; two-phase commit is atomic, and the commit wait of the Spanner modes ends and is long enough.

  \<^bold>\<open>Interfaces.\<close>  A quorum system (\<open>VR_Log\<close>), an index of versions (\<open>Skip_List\<close>), an application behind a replica (\<open>VR_App\<close>) and a ledger behind the
  transaction store (\<open>Version_Store\<close>) are locales; each is interpreted on the definitions of the program.

  \<^bold>\<open>Bounds and fuel.\<close>  The recursions over B+ trees, skip lists and tries are \<open>partial_function (option)\<close>; the theorems prove
  that they return; for B+ trees for at most \<open>2 ^ 32\<close> entries (so that 32-bit counters in a node do not wrap) and keys and values
  below a size \<open>K\<close> for which a node fits its 32-bit lengths.  The histories of LedgerDB have keys and values without the separators of its
  text formats, a timestamp of its own for every block and no two trie nodes with one hash.  All other loops are total.

  \<^bold>\<open>Not modelled.\<close>  Sockets, signals and the event loop (\<open>lib/tcptransport\<close>), logging and tracing (\<open>lib/message\<close>, \<open>store/common/tracer\<close>), the
  benchmark clients (\<open>exes/*Client.cc\<close>), tests and scripts: they are I/O and measurement.  \<open>qldb_store\<close> is not used by the program.
\<close>

end
